(* ===== verification/Foo_Prelude.thy ===== *)
theory Foo_Prelude
  imports Main "HOL-Library.Multiset" "HOL-Library.Word"
begin

text \<open>
  Shared vocabulary of the development.

  \<^item> the compare callbacks (\<open>int (*)(const void* const, const void* const)\<close>) that the
    trees, heaps and graphs of \<open>src/data_structure\<close> are built on, as functions into
    \<^typ>\<open>int\<close>, and the contracts they keep as the locales \<open>compare_preorder\<close> and
    \<open>compare_linear\<close>;
  \<^item> the comparison functions the program passes to them;
  \<^item> reads and writes of a buffer, undefined (\<^term>\<open>None\<close>) outside of it;
  \<^item> facts on lists updated by index, the shape every array loop of the program takes.
\<close>

named_theorems array_simps \<open>multisets and lengths of lists updated by index\<close>

section \<open>Compare callbacks\<close>

type_synonym 'k compare = "'k \<Rightarrow> 'k \<Rightarrow> int"

text \<open>\<open>compareKey\<close>/\<open>compareData\<close>: \<open>static_cast<int>(l > r) - static_cast<int>(l < r)\<close>.\<close>

definition compareKey :: "int compare" where
  "compareKey l r = of_bool (l > r) - of_bool (l < r)"

definition compareData :: "char compare" where
  "compareData l r =
     of_bool ((of_char l :: nat) > of_char r) - of_bool ((of_char l :: nat) < of_char r)"

text \<open>What the heaps rely on: the sign of the callback is a total preorder.\<close>

locale compare_preorder =
  fixes cmp :: "'k compare"
  assumes cmp_flip: "cmp x y < 0 \<longleftrightarrow> cmp y x > 0"
    and cmp_le_trans: "cmp x y \<le> 0 \<Longrightarrow> cmp y z \<le> 0 \<Longrightarrow> cmp x z \<le> 0"
begin

lemma cmp_refl [simp]: "cmp x x = 0"
  using cmp_flip [of x x] by linarith

lemma cmp_total: "cmp x y \<le> 0 \<or> cmp y x \<le> 0"
  using cmp_flip [of x y] cmp_flip [of y x] by linarith

lemma cmp_gt_le [dest]: "cmp x y > 0 \<Longrightarrow> cmp y x \<le> 0"
  using cmp_flip [of y x] by linarith

lemma cmp_ge_le: "cmp x y \<ge> 0 \<longleftrightarrow> cmp y x \<le> 0"
  using cmp_flip [of x y] cmp_flip [of y x] by linarith

lemma cmp_not_le: "\<not> cmp x y \<le> 0 \<longleftrightarrow> cmp y x < 0"
  using cmp_flip [of y x] by linarith

lemma cmp_zero_sym: "cmp x y = 0 \<longleftrightarrow> cmp y x = 0"
  using cmp_flip [of x y] cmp_flip [of y x] by linarith

lemma cmp_lt_le_trans: "cmp x y < 0 \<Longrightarrow> cmp y z \<le> 0 \<Longrightarrow> cmp x z < 0"
  using cmp_flip [of x y] cmp_flip [of x z] cmp_flip [of z x] cmp_le_trans [of y z x]
  by linarith

lemma cmp_le_lt_trans: "cmp x y \<le> 0 \<Longrightarrow> cmp y z < 0 \<Longrightarrow> cmp x z < 0"
  using cmp_flip [of y z] cmp_flip [of x z] cmp_flip [of z x] cmp_le_trans [of z x y]
  by linarith

lemma cmp_lt_trans: "cmp x y < 0 \<Longrightarrow> cmp y z < 0 \<Longrightarrow> cmp x z < 0"
  using cmp_lt_le_trans [of x y z] by linarith

end

text \<open>What the search trees without duplicates rely on: ties are equal keys.\<close>

locale compare_linear = compare_preorder +
  assumes cmp_eq: "cmp x y = 0 \<longleftrightarrow> x = y"
begin

lemma cmp_cases [case_names less equal greater]:
  obtains "cmp x y < 0" "cmp y x > 0" "x \<noteq> y" | "x = y" | "cmp x y > 0" "cmp y x < 0" "x \<noteq> y"
  using cmp_eq [of x y] cmp_flip [of x y] cmp_flip [of y x] by fastforce

end

interpretation ck: compare_linear compareKey
  by unfold_locales (auto simp: compareKey_def split: if_splits)

interpretation cd: compare_linear compareData
  by unfold_locales (auto simp: compareData_def split: if_splits)

section \<open>Buffers\<close>

type_synonym byte = "8 word"

definition rd :: "'a list \<Rightarrow> nat \<Rightarrow> 'a option" where
  "rd xs i = (if i < length xs then Some (xs ! i) else None)"

lemma rd_Some [simp]: "i < length xs \<Longrightarrow> rd xs i = Some (xs ! i)"
  by (simp add: rd_def)

lemma rd_None [simp]: "length xs \<le> i \<Longrightarrow> rd xs i = None"
  by (simp add: rd_def)

definition wr :: "'a list \<Rightarrow> nat \<Rightarrow> 'a \<Rightarrow> 'a list option" where
  "wr xs i v = (if i < length xs then Some (xs[i := v]) else None)"

lemma wr_Some [simp]: "i < length xs \<Longrightarrow> wr xs i v = Some (xs[i := v])"
  by (simp add: wr_def)

section \<open>Lists updated by index\<close>

lemma mset_update_add [array_simps]:
  "i < length xs \<Longrightarrow> mset (xs[i := y]) + {#xs ! i#} = mset xs + {#y#}"
  by (simp add: mset_update insert_DiffM nth_mem_mset)

lemma take_update_less [array_simps]:
  "i < n \<Longrightarrow> take n (xs[i := y]) = (take n xs)[i := y]"
  by (simp add: take_update_swap)

lemma take_update_ge [array_simps]: "n \<le> i \<Longrightarrow> take n (xs[i := y]) = take n xs"
  by (simp add: take_update_swap list_update_beyond)

lemma mset_take_swap:
  assumes "i < n" "j < n" "n \<le> length xs"
  shows "mset (take n (xs[i := xs ! j, j := xs ! i])) = mset (take n xs)"
  using assms by (simp add: array_simps) (metis length_take min.absorb2 mset_swap nth_take)

section \<open>Lists of distinct keys\<close>

lemma filter_neq_id: "x \<notin> set xs \<Longrightarrow> filter (\<lambda>y. y \<noteq> x) xs = xs"
  by (induction xs) auto

end
