(* ===== verification/DS_Heap_Mergeable.thy ===== *)
theory DS_Heap_Mergeable
  imports Foo_Prelude
begin

text \<open>
  The two mergeable heaps of \<open>src/data_structure/source/heap.cpp\<close>: namespace \<open>leftist\<close>
  and namespace \<open>skew\<close>.

  A node pointer is a binary tree (\<open>LNull\<close>/\<open>SNull\<close> for \<open>nullptr\<close>): the code keeps one
  owner per node and every operation hands the subtrees it rebuilt back to its caller. A
  pointer to the heap object is an \<^typ>\<open>'a option\<close>, \<open>None\<close> for \<open>nullptr\<close>, and so is the
  key pointer handed to \<open>insert\<close>. \<open>::new (std::nothrow)\<close> is taken to succeed.

  The interface \<open>priority_queue\<close> states what \<open>insert\<close>, \<open>getMinimum\<close> and \<open>remove\<close>
  promise together; both heaps are shown to keep it, and draining a heap (reading and
  removing the minimum until it is empty) is proved to sort for every keeper of it.
\<close>

section \<open>The leftist heap\<close>

datatype 'k leftistNode =
    LNull
  | LNode (left_l: "'k leftistNode") (right_l: "'k leftistNode") (key_l: 'k) (npl: int)

record 'k leftistHeap =
  root_l :: "'k leftistNode"
  compare_l :: "'k compare"

definition leftist_createNode :: "'k option \<Rightarrow> 'k leftistNode" where
  "leftist_createNode key =
     (case key of None \<Rightarrow> LNull | Some k \<Rightarrow> LNode LNull LNull k 0)"

text \<open>
  The tail of \<open>mergeNode\<close> after the recursive call: \<open>d->left\<close> is \<open>l\<close>, the merged
  \<open>d->right\<close> is \<open>r\<close>. Children are swapped when the left one is missing or has the smaller
  null path length, then \<open>npl\<close> is recomputed.
\<close>

definition leftist_rebalance :: "'k leftistNode \<Rightarrow> 'k leftistNode \<Rightarrow> 'k \<Rightarrow> 'k leftistNode" where
  "leftist_rebalance l r k =
     (let (l', r') = (if l = LNull \<or> npl l < npl r then (r, l) else (l, r));
          n = (if r' = LNull \<or> l' = LNull then 0
               else if npl r' < npl l' then npl r' + 1 else npl l' + 1)
      in LNode l' r' k n)"

function leftist_mergeNode :: "'k compare \<Rightarrow> 'k leftistNode \<Rightarrow> 'k leftistNode \<Rightarrow> 'k leftistNode"
where
  "leftist_mergeNode cmp LNull s = s"
| "leftist_mergeNode cmp (LNode dl dr dk dn) LNull = LNode dl dr dk dn"
| "leftist_mergeNode cmp (LNode dl dr dk dn) (LNode sl sr sk sn) =
     (if cmp dk sk > 0
      then leftist_rebalance sl (leftist_mergeNode cmp sr (LNode dl dr dk dn)) sk
      else leftist_rebalance dl (leftist_mergeNode cmp dr (LNode sl sr sk sn)) dk)"
  by pat_completeness auto
termination
  by (relation "measure (\<lambda>(cmp, d, s). size d + size s)") auto

definition leftist_getMinimum :: "'k leftistHeap option \<Rightarrow> 'k option" where
  "leftist_getMinimum heap =
     (case heap of
        None \<Rightarrow> None
      | Some h \<Rightarrow> (case root_l h of LNull \<Rightarrow> None | LNode _ _ k _ \<Rightarrow> Some k))"

definition leftist_create :: "'k compare option \<Rightarrow> 'k leftistHeap option" where
  "leftist_create cmp =
     (case cmp of None \<Rightarrow> None | Some c \<Rightarrow> Some \<lparr>root_l = LNull, compare_l = c\<rparr>)"

definition leftist_insert ::
    "'k leftistHeap option \<Rightarrow> 'k option \<Rightarrow> 'k leftistHeap option" where
  "leftist_insert heap key =
     (case heap of
        None \<Rightarrow> None
      | Some h \<Rightarrow>
          (let node = leftist_createNode key in
           if node = LNull then Some h
           else let merged = leftist_mergeNode (compare_l h) (root_l h) node in
                if merged = LNull then Some h else Some (h\<lparr>root_l := merged\<rparr>)))"

definition leftist_remove :: "'k leftistHeap option \<Rightarrow> 'k leftistHeap option" where
  "leftist_remove heap =
     (case heap of
        None \<Rightarrow> None
      | Some h \<Rightarrow>
          (case root_l h of
             LNull \<Rightarrow> Some h
           | LNode l r _ _ \<Rightarrow> Some (h\<lparr>root_l := leftist_mergeNode (compare_l h) l r\<rparr>)))"

text \<open>\<open>merge(dst, src)\<close> on two distinct heap objects; the pair is (\<open>*dst\<close>, \<open>*src\<close>) after it.\<close>

definition leftist_merge ::
    "'k leftistHeap option \<Rightarrow> 'k leftistHeap option
       \<Rightarrow> 'k leftistHeap option \<times> 'k leftistHeap option" where
  "leftist_merge dst src =
     (case (dst, src) of
        (Some d, Some s) \<Rightarrow>
          (Some (d\<lparr>root_l := leftist_mergeNode (compare_l d) (root_l d) (root_l s)\<rparr>),
           Some (s\<lparr>root_l := LNull\<rparr>))
      | _ \<Rightarrow> (dst, src))"

section \<open>The skew heap\<close>

datatype 'k skewNode =
    SNull
  | SNode (left_s: "'k skewNode") (right_s: "'k skewNode") (key_s: 'k)

record 'k skewHeap =
  root_s :: "'k skewNode"
  compare_s :: "'k compare"

definition skew_createNode :: "'k option \<Rightarrow> 'k skewNode" where
  "skew_createNode key = (case key of None \<Rightarrow> SNull | Some k \<Rightarrow> SNode SNull SNull k)"

function skew_mergeNode :: "'k compare \<Rightarrow> 'k skewNode \<Rightarrow> 'k skewNode \<Rightarrow> 'k skewNode" where
  "skew_mergeNode cmp SNull s = s"
| "skew_mergeNode cmp (SNode dl dr dk) SNull = SNode dl dr dk"
| "skew_mergeNode cmp (SNode dl dr dk) (SNode sl sr sk) =
     (if cmp dk sk > 0
      then SNode (skew_mergeNode cmp sr (SNode dl dr dk)) sl sk
      else SNode (skew_mergeNode cmp dr (SNode sl sr sk)) dl dk)"
  by pat_completeness auto
termination
  by (relation "measure (\<lambda>(cmp, d, s). size d + size s)") auto

definition skew_create :: "'k compare option \<Rightarrow> 'k skewHeap option" where
  "skew_create cmp =
     (case cmp of None \<Rightarrow> None | Some c \<Rightarrow> Some \<lparr>root_s = SNull, compare_s = c\<rparr>)"

definition skew_insert :: "'k skewHeap option \<Rightarrow> 'k option \<Rightarrow> 'k skewHeap option" where
  "skew_insert heap key =
     (case heap of
        None \<Rightarrow> None
      | Some h \<Rightarrow>
          (let node = skew_createNode key in
           if node = SNull then Some h
           else let merged = skew_mergeNode (compare_s h) (root_s h) node in
                if merged = SNull then Some h else Some (h\<lparr>root_s := merged\<rparr>)))"

definition skew_remove :: "'k skewHeap option \<Rightarrow> 'k skewHeap option" where
  "skew_remove heap =
     (case heap of
        None \<Rightarrow> None
      | Some h \<Rightarrow>
          (case root_s h of
             SNull \<Rightarrow> Some h
           | SNode l r _ \<Rightarrow> Some (h\<lparr>root_s := skew_mergeNode (compare_s h) l r\<rparr>)))"

definition skew_getMinimum :: "'k skewHeap option \<Rightarrow> 'k option" where
  "skew_getMinimum heap =
     (case heap of
        None \<Rightarrow> None
      | Some h \<Rightarrow> (case root_s h of SNull \<Rightarrow> None | SNode _ _ k \<Rightarrow> Some k))"

definition skew_merge ::
    "'k skewHeap option \<Rightarrow> 'k skewHeap option \<Rightarrow> 'k skewHeap option \<times> 'k skewHeap option" where
  "skew_merge dst src =
     (case (dst, src) of
        (Some d, Some s) \<Rightarrow>
          (Some (d\<lparr>root_s := skew_mergeNode (compare_s d) (root_s d) (root_s s)\<rparr>),
           Some (s\<lparr>root_s := SNull\<rparr>))
      | _ \<Rightarrow> (dst, src))"

section \<open>Traversals (\<open>Traverse\<close> of heap.hpp): the sequence of keys \<open>op\<close> is called on\<close>

fun leftist_preOrderTraversal :: "'k leftistNode \<Rightarrow> 'k list" where
  "leftist_preOrderTraversal LNull = []"
| "leftist_preOrderTraversal (LNode l r k n) =
     k # leftist_preOrderTraversal l @ leftist_preOrderTraversal r"

fun leftist_inOrderTraversal :: "'k leftistNode \<Rightarrow> 'k list" where
  "leftist_inOrderTraversal LNull = []"
| "leftist_inOrderTraversal (LNode l r k n) =
     leftist_inOrderTraversal l @ k # leftist_inOrderTraversal r"

fun leftist_postOrderTraversal :: "'k leftistNode \<Rightarrow> 'k list" where
  "leftist_postOrderTraversal LNull = []"
| "leftist_postOrderTraversal (LNode l r k n) =
     leftist_postOrderTraversal l @ leftist_postOrderTraversal r @ [k]"

section \<open>Specification vocabulary\<close>

fun lkeys :: "'k leftistNode \<Rightarrow> 'k multiset" where
  "lkeys LNull = {#}"
| "lkeys (LNode l r k n) = {#k#} + lkeys l + lkeys r"

fun lordered :: "'k compare \<Rightarrow> 'k leftistNode \<Rightarrow> bool" where
  "lordered cmp LNull = True"
| "lordered cmp (LNode l r k n) =
     ((\<forall>x \<in># lkeys l + lkeys r. cmp k x \<le> 0) \<and> lordered cmp l \<and> lordered cmp r)"

text \<open>The null path length of a node, -1 for a missing one.\<close>

fun null_path :: "'k leftistNode \<Rightarrow> int" where
  "null_path LNull = - 1"
| "null_path (LNode l r k n) = min (null_path l) (null_path r) + 1"

fun leftist_shape :: "'k leftistNode \<Rightarrow> bool" where
  "leftist_shape LNull = True"
| "leftist_shape (LNode l r k n) =
     (null_path r \<le> null_path l \<and> n = null_path r + 1 \<and> leftist_shape l \<and> leftist_shape r)"

fun skeys :: "'k skewNode \<Rightarrow> 'k multiset" where
  "skeys SNull = {#}"
| "skeys (SNode l r k) = {#k#} + skeys l + skeys r"

fun sordered :: "'k compare \<Rightarrow> 'k skewNode \<Rightarrow> bool" where
  "sordered cmp SNull = True"
| "sordered cmp (SNode l r k) =
     ((\<forall>x \<in># skeys l + skeys r. cmp k x \<le> 0) \<and> sordered cmp l \<and> sordered cmp r)"

definition leftist_invar :: "'k compare \<Rightarrow> 'k leftistHeap option \<Rightarrow> bool" where
  "leftist_invar cmp q =
     (case q of None \<Rightarrow> False
      | Some h \<Rightarrow> compare_l h = cmp \<and> lordered cmp (root_l h) \<and> leftist_shape (root_l h))"

definition leftist_keys :: "'k leftistHeap option \<Rightarrow> 'k multiset" where
  "leftist_keys q = (case q of None \<Rightarrow> {#} | Some h \<Rightarrow> lkeys (root_l h))"

definition skew_invar :: "'k compare \<Rightarrow> 'k skewHeap option \<Rightarrow> bool" where
  "skew_invar cmp q =
     (case q of None \<Rightarrow> False | Some h \<Rightarrow> compare_s h = cmp \<and> sordered cmp (root_s h))"

definition skew_keys :: "'k skewHeap option \<Rightarrow> 'k multiset" where
  "skew_keys q = (case q of None \<Rightarrow> {#} | Some h \<Rightarrow> skeys (root_s h))"

text \<open>Reading and removing the minimum, at most \<open>n\<close> times.\<close>

fun drain :: "('q \<Rightarrow> 'k option) \<Rightarrow> ('q \<Rightarrow> 'q) \<Rightarrow> nat \<Rightarrow> 'q \<Rightarrow> 'k list" where
  "drain getMin delMin 0 q = []"
| "drain getMin delMin (Suc n) q =
     (case getMin q of None \<Rightarrow> [] | Some k \<Rightarrow> k # drain getMin delMin n (delMin q))"

section \<open>The priority queue interface\<close>

locale priority_queue = compare_preorder cmp for cmp :: "'k compare" +
  fixes insert :: "'q \<Rightarrow> 'k option \<Rightarrow> 'q"
    and getMinimum :: "'q \<Rightarrow> 'k option"
    and remove :: "'q \<Rightarrow> 'q"
    and keys :: "'q \<Rightarrow> 'k multiset"
    and invar :: "'q \<Rightarrow> bool"
  assumes insert_invar: "invar q \<Longrightarrow> invar (insert q k)"
    and insert_keys: "invar q \<Longrightarrow> keys (insert q (Some x)) = add_mset x (keys q)"
    and insert_null: "invar q \<Longrightarrow> insert q None = q"
    and remove_invar: "invar q \<Longrightarrow> invar (remove q)"
    and minimum_None: "invar q \<Longrightarrow> getMinimum q = None \<longleftrightarrow> keys q = {#}"
    and minimum_le: "invar q \<Longrightarrow> getMinimum q = Some m \<Longrightarrow> x \<in># keys q \<Longrightarrow> cmp m x \<le> 0"
    and remove_keys: "invar q \<Longrightarrow> getMinimum q = Some m \<Longrightarrow> add_mset m (keys (remove q)) = keys q"
begin

lemma insert_all:
  assumes "invar q"
  shows "invar (fold (\<lambda>k q. insert q (Some k)) ks q)
       \<and> keys (fold (\<lambda>k q. insert q (Some k)) ks q) = keys q + mset ks"
  using assms by (induction ks arbitrary: q) (auto simp: insert_invar insert_keys)

lemma drain_keys:
  assumes "invar q" "size (keys q) \<le> n"
  shows "mset (drain getMinimum remove n q) = keys q"
  using assms
proof (induction n arbitrary: q)
  case (Suc n)
  then show ?case
  proof (cases "getMinimum q")
    case None
    then have "keys q = {#}" using Suc.prems(1) minimum_None by blast
    with None show ?thesis by simp
  next
    case (Some m)
    from remove_keys [OF Suc.prems(1) Some]
    have *: "keys q = add_mset m (keys (remove q))" by simp
    with Suc.prems(2) have "size (keys (remove q)) \<le> n" by simp
    then show ?thesis using Suc.IH [OF remove_invar [OF Suc.prems(1)]] Some * by simp
  qed
qed simp

lemma drain_sorted:
  assumes "invar q"
  shows "sorted_wrt (\<lambda>x y. cmp x y \<le> 0) (drain getMinimum remove n q)
       \<and> set (drain getMinimum remove n q) \<subseteq> set_mset (keys q)"
  using assms
proof (induction n arbitrary: q)
  case (Suc n)
  show ?case
  proof (cases "getMinimum q")
    case (Some m)
    from remove_keys [OF Suc.prems Some]
    have sub: "set_mset (keys q) = {m} \<union> set_mset (keys (remove q))"
      by (metis set_mset_add_mset_insert insert_is_Un)
    from Suc.IH [OF remove_invar [OF Suc.prems]] sub minimum_le [OF Suc.prems Some] Some
    show ?thesis by auto
  qed simp
qed simp

lemma insert_all_drain:
  assumes "invar e" "keys e = {#}"
  shows "let out = drain getMinimum remove (length ks) (fold (\<lambda>k q. insert q (Some k)) ks e)
         in mset out = mset ks \<and> sorted_wrt (\<lambda>x y. cmp x y \<le> 0) out"
  using insert_all [OF assms(1), of ks] assms(2) drain_keys drain_sorted by simp

end

section \<open>The leftist heap keeps it\<close>

lemma leftist_rebalance_keys [simp]:
  "lkeys (leftist_rebalance l r k) = {#k#} + lkeys l + lkeys r"
  by (auto simp: leftist_rebalance_def Let_def)

lemma leftist_rebalance_ordered:
  "lordered cmp (leftist_rebalance l r k) \<longleftrightarrow>
     (\<forall>x \<in># lkeys l + lkeys r. cmp k x \<le> 0) \<and> lordered cmp l \<and> lordered cmp r"
  by (auto simp: leftist_rebalance_def Let_def)

lemma null_path_ge: "leftist_shape t \<Longrightarrow> null_path t \<ge> - 1"
  by (induction t) auto

lemma npl_null_path: "leftist_shape t \<Longrightarrow> t \<noteq> LNull \<Longrightarrow> npl t = null_path t"
  by (cases t) auto

lemma leftist_rebalance_shape:
  assumes "leftist_shape l" "leftist_shape r" "r \<noteq> LNull"
  shows "leftist_shape (leftist_rebalance l r k)"
  using assms npl_null_path [of l] npl_null_path [of r] null_path_ge [of r] null_path_ge [of l]
  by (auto simp: leftist_rebalance_def Let_def)

lemma leftist_rebalance_not_Null [simp]: "leftist_rebalance l r k \<noteq> LNull"
  by (simp add: leftist_rebalance_def Let_def split: prod.splits)

lemma leftist_mergeNode_keys [simp]: "lkeys (leftist_mergeNode cmp d s) = lkeys d + lkeys s"
  by (induction cmp d s rule: leftist_mergeNode.induct) (auto simp: ac_simps)

lemma leftist_mergeNode_Null [simp]:
  "leftist_mergeNode cmp d s = LNull \<longleftrightarrow> d = LNull \<and> s = LNull"
  by (cases "(cmp, d, s)" rule: leftist_mergeNode.cases) auto

lemma leftist_mergeNode_shape:
  "leftist_shape d \<Longrightarrow> leftist_shape s \<Longrightarrow> leftist_shape (leftist_mergeNode cmp d s)"
  by (induction cmp d s rule: leftist_mergeNode.induct) (auto intro!: leftist_rebalance_shape)

lemma leftist_mergeNode_ordered:
  assumes "compare_preorder cmp" "lordered cmp d" "lordered cmp s"
  shows "lordered cmp (leftist_mergeNode cmp d s)"
  using assms
proof (induction cmp d s rule: leftist_mergeNode.induct)
  case (3 cmp dl dr dk dn sl sr sk sn)
  note trans = compare_preorder.cmp_le_trans [OF "3.prems"(1)]
    and flip = compare_preorder.cmp_gt_le [OF "3.prems"(1)]
  show ?case
  proof (cases "cmp dk sk > 0")
    case True
    with 3 flip [OF True] show ?thesis
      by (auto simp: leftist_rebalance_ordered intro: trans [of sk dk])
  next
    case False
    then have "cmp dk sk \<le> 0" by simp
    with 3 show ?thesis
      by (auto simp: leftist_rebalance_ordered intro: trans [of dk sk])
  qed
qed auto

lemma leftist_insert_Some:
  "leftist_insert (Some h) (Some k) =
     Some (h\<lparr>root_l := leftist_mergeNode (compare_l h) (root_l h) (LNode LNull LNull k 0)\<rparr>)"
  by (simp add: leftist_insert_def leftist_createNode_def)

lemma leftist_insert_null: "leftist_insert q None = q"
  by (simp add: leftist_insert_def leftist_createNode_def split: option.splits)

lemma leftist_insert_invar:
  assumes "compare_preorder cmp" "leftist_invar cmp q"
  shows "leftist_invar cmp (leftist_insert q k)"
  using assms
  by (cases q; cases k)
    (auto simp: leftist_invar_def leftist_insert_Some leftist_insert_null
      intro!: leftist_mergeNode_ordered leftist_mergeNode_shape)

lemma leftist_remove_invar:
  assumes "compare_preorder cmp" "leftist_invar cmp q"
  shows "leftist_invar cmp (leftist_remove q)"
  using assms
  by (cases q)
    (auto simp: leftist_invar_def leftist_remove_def split: leftistNode.splits
      intro!: leftist_mergeNode_ordered leftist_mergeNode_shape)

lemma leftist_priority_queue:
  assumes "compare_preorder cmp"
  shows "priority_queue cmp leftist_insert leftist_getMinimum leftist_remove
           leftist_keys (leftist_invar cmp)"
proof (intro priority_queue.intro priority_queue_axioms.intro assms)
  fix q :: "'a leftistHeap option" and k x m
  assume inv: "leftist_invar cmp q"
  show "leftist_invar cmp (leftist_insert q k)" by (rule leftist_insert_invar [OF assms inv])
  show "leftist_invar cmp (leftist_remove q)" by (rule leftist_remove_invar [OF assms inv])
  show "leftist_keys (leftist_insert q (Some x)) = add_mset x (leftist_keys q)"
    using inv by (cases q) (auto simp: leftist_invar_def leftist_keys_def leftist_insert_Some)
  show "leftist_insert q None = q" by (rule leftist_insert_null)
  show "leftist_getMinimum q = None \<longleftrightarrow> leftist_keys q = {#}"
    using inv by (cases q)
      (auto simp: leftist_invar_def leftist_keys_def leftist_getMinimum_def
        split: leftistNode.splits)
  show "cmp m x \<le> 0" if "leftist_getMinimum q = Some m" "x \<in># leftist_keys q"
    using that inv compare_preorder.cmp_refl [OF assms] by (cases q)
      (auto simp: leftist_invar_def leftist_keys_def leftist_getMinimum_def
        split: leftistNode.splits)
  show "add_mset m (leftist_keys (leftist_remove q)) = leftist_keys q"
    if "leftist_getMinimum q = Some m"
    using that inv by (cases q)
      (auto simp: leftist_invar_def leftist_keys_def leftist_getMinimum_def leftist_remove_def
        split: leftistNode.splits)
qed

interpretation lheap: priority_queue compareKey leftist_insert leftist_getMinimum
  leftist_remove leftist_keys "leftist_invar compareKey"
  by (rule leftist_priority_queue) (rule ck.compare_preorder_axioms)

text \<open>The right spine of a leftist heap is short: its length is logarithmic in the size.\<close>

fun lsize :: "'k leftistNode \<Rightarrow> nat" where
  "lsize LNull = 0"
| "lsize (LNode l r k n) = lsize l + lsize r + 1"

lemma null_path_size: "leftist_shape t \<Longrightarrow> 2 ^ nat (null_path t + 1) \<le> Suc (lsize t)"
proof (induction t)
  case (LNode l r k n)
  then have le: "null_path r \<le> null_path l" and ge: "null_path r \<ge> - 1"
    and ih: "2 ^ nat (null_path l + 1) \<le> Suc (lsize l)" "2 ^ nat (null_path r + 1) \<le> Suc (lsize r)"
    by (auto simp: null_path_ge)
  have "2 ^ nat (null_path r + 1) \<le> (2::nat) ^ nat (null_path l + 1)"
    using le by (intro power_increasing) auto
  then have "2 ^ nat (null_path r + 1) \<le> Suc (lsize l)" using ih(1) by (rule order_trans)
  moreover have "nat (null_path (LNode l r k n) + 1) = Suc (nat (null_path r + 1))"
    using ge le by (simp add: min_absorb2)
  ultimately show ?case using ih(2) by (simp del: null_path.simps)
qed simp

section \<open>The skew heap keeps it\<close>

lemma skew_mergeNode_keys [simp]: "skeys (skew_mergeNode cmp d s) = skeys d + skeys s"
  by (induction cmp d s rule: skew_mergeNode.induct) (auto simp: ac_simps)

lemma skew_mergeNode_Null [simp]:
  "skew_mergeNode cmp d s = SNull \<longleftrightarrow> d = SNull \<and> s = SNull"
  by (cases "(cmp, d, s)" rule: skew_mergeNode.cases) auto

lemma skew_mergeNode_ordered:
  assumes "compare_preorder cmp" "sordered cmp d" "sordered cmp s"
  shows "sordered cmp (skew_mergeNode cmp d s)"
  using assms
proof (induction cmp d s rule: skew_mergeNode.induct)
  case (3 cmp dl dr dk sl sr sk)
  note trans = compare_preorder.cmp_le_trans [OF "3.prems"(1)]
    and flip = compare_preorder.cmp_gt_le [OF "3.prems"(1)]
  show ?case
  proof (cases "cmp dk sk > 0")
    case True
    with 3 flip [OF True] show ?thesis by (auto intro: trans [of sk dk])
  next
    case False
    then have "cmp dk sk \<le> 0" by simp
    with 3 show ?thesis by (auto intro: trans [of dk sk])
  qed
qed auto

lemma skew_insert_Some:
  "skew_insert (Some h) (Some k) =
     Some (h\<lparr>root_s := skew_mergeNode (compare_s h) (root_s h) (SNode SNull SNull k)\<rparr>)"
  by (simp add: skew_insert_def skew_createNode_def)

lemma skew_insert_null: "skew_insert q None = q"
  by (simp add: skew_insert_def skew_createNode_def split: option.splits)

lemma skew_priority_queue:
  assumes "compare_preorder cmp"
  shows "priority_queue cmp skew_insert skew_getMinimum skew_remove skew_keys (skew_invar cmp)"
proof (intro priority_queue.intro priority_queue_axioms.intro assms)
  fix q :: "'a skewHeap option" and k x m
  assume inv: "skew_invar cmp q"
  show "skew_invar cmp (skew_insert q k)"
    using inv assms by (cases q; cases k)
      (auto simp: skew_invar_def skew_insert_Some skew_insert_null
        intro!: skew_mergeNode_ordered)
  show "skew_invar cmp (skew_remove q)"
    using inv assms by (cases q)
      (auto simp: skew_invar_def skew_remove_def split: skewNode.splits
        intro!: skew_mergeNode_ordered)
  show "skew_keys (skew_insert q (Some x)) = add_mset x (skew_keys q)"
    using inv by (cases q) (auto simp: skew_invar_def skew_keys_def skew_insert_Some)
  show "skew_insert q None = q" by (rule skew_insert_null)
  show "skew_getMinimum q = None \<longleftrightarrow> skew_keys q = {#}"
    using inv by (cases q)
      (auto simp: skew_invar_def skew_keys_def skew_getMinimum_def split: skewNode.splits)
  show "cmp m x \<le> 0" if "skew_getMinimum q = Some m" "x \<in># skew_keys q"
    using that inv compare_preorder.cmp_refl [OF assms] by (cases q)
      (auto simp: skew_invar_def skew_keys_def skew_getMinimum_def split: skewNode.splits)
  show "add_mset m (skew_keys (skew_remove q)) = skew_keys q"
    if "skew_getMinimum q = Some m"
    using that inv by (cases q)
      (auto simp: skew_invar_def skew_keys_def skew_getMinimum_def skew_remove_def
        split: skewNode.splits)
qed

interpretation sheap: priority_queue compareKey skew_insert skew_getMinimum
  skew_remove skew_keys "skew_invar compareKey"
  by (rule skew_priority_queue) (rule ck.compare_preorder_axioms)

section \<open>Properties\<close>

text \<open>
  C26: A leftist heap sorts. For every compare callback whose sign is a total preorder, start
  from \<open>create(cmp)\<close>, \<open>insert\<close> any sequence of keys, then read \<open>getMinimum\<close> and \<open>remove\<close>
  once per key: the minima read are exactly the keys inserted (as a multiset, duplicates
  kept) and come out in ascending order.
\<close>

theorem leftist_heap_sorts:
  assumes "compare_preorder cmp"
  shows "let q = fold (\<lambda>k q. leftist_insert q (Some k)) ks (leftist_create (Some cmp));
             out = drain leftist_getMinimum leftist_remove (length ks) q
         in mset out = mset ks \<and> sorted_wrt (\<lambda>x y. cmp x y \<le> 0) out"
  using priority_queue.insert_all_drain [OF leftist_priority_queue [OF assms],
      of "leftist_create (Some cmp)" ks]
  by (simp add: leftist_create_def leftist_invar_def leftist_keys_def)

theorem leftist_heap_sorts_witness:
  "compare_preorder compareKey \<and>
   sorted_wrt (\<lambda>x y. compareKey x y \<le> 0)
     (drain leftist_getMinimum leftist_remove (length [3 :: int, 1, 2])
        (fold (\<lambda>k q. leftist_insert q (Some k)) [3, 1, 2] (leftist_create (Some compareKey))))"
  using leftist_heap_sorts [OF ck.compare_preorder_axioms, of "[3, 1, 2]"]
    ck.compare_preorder_axioms
  by (simp only: Let_def)

text \<open>
  \<open>leftist::merge\<close> moves every key of \<open>src\<close> into \<open>dst\<close>, leaves \<open>src\<close> empty, keeps both
  heaps ordered and leftist with exact \<open>npl\<close> fields, and the recursion of \<open>mergeNode\<close>
  stays logarithmic: two to the power of the root's null path length plus one is at most one
  more than the number of nodes.
\<close>

theorem leftist_merge_correct:
  assumes "compare_preorder cmp" "leftist_invar cmp dst" "leftist_invar cmp src"
  shows "let (dst', src') = leftist_merge dst src
         in leftist_invar cmp dst' \<and> leftist_invar cmp src'
          \<and> leftist_keys dst' = leftist_keys dst + leftist_keys src
          \<and> leftist_keys src' = {#}
          \<and> 2 ^ nat (null_path (root_l (the dst')) + 1) \<le> lsize (root_l (the dst')) + 1"
  using assms
  by (cases dst; cases src)
    (auto simp: leftist_invar_def leftist_keys_def leftist_merge_def
      intro!: leftist_mergeNode_ordered leftist_mergeNode_shape null_path_size)

theorem leftist_merge_correct_witness:
  "leftist_keys (fst (leftist_merge
      (leftist_insert (leftist_create (Some compareKey)) (Some 5))
      (leftist_insert (leftist_create (Some compareKey)) (Some 3)))) = {#5, 3#}"
proof -
  let ?d = "leftist_insert (leftist_create (Some compareKey)) (Some 5)"
  let ?s = "leftist_insert (leftist_create (Some compareKey)) (Some 3)"
  have "leftist_invar compareKey ?d" and "leftist_invar compareKey ?s"
    and "leftist_keys ?d = {#5#}" and "leftist_keys ?s = {#3#}"
    by (simp_all add: leftist_insert_Some leftist_create_def leftist_invar_def leftist_keys_def)
  then show ?thesis
    using leftist_merge_correct [OF ck.compare_preorder_axioms, of ?d ?s]
    by (simp add: case_prod_beta)
qed

text \<open>
  A skew heap sorts: inserting any sequence of keys into \<open>skew::create(cmp)\<close> and reading
  and removing the minimum once per key gives the keys back in ascending order.
\<close>

theorem skew_heap_sorts:
  assumes "compare_preorder cmp"
  shows "let q = fold (\<lambda>k q. skew_insert q (Some k)) ks (skew_create (Some cmp));
             out = drain skew_getMinimum skew_remove (length ks) q
         in mset out = mset ks \<and> sorted_wrt (\<lambda>x y. cmp x y \<le> 0) out"
  using priority_queue.insert_all_drain [OF skew_priority_queue [OF assms],
      of "skew_create (Some cmp)" ks]
  by (simp add: skew_create_def skew_invar_def skew_keys_def)

theorem skew_heap_sorts_witness:
  "compare_preorder compareKey \<and>
   sorted_wrt (\<lambda>x y. compareKey x y \<le> 0)
     (drain skew_getMinimum skew_remove (length [3 :: int, 1, 2])
        (fold (\<lambda>k q. skew_insert q (Some k)) [3, 1, 2] (skew_create (Some compareKey))))"
  using skew_heap_sorts [OF ck.compare_preorder_axioms, of "[3, 1, 2]"]
    ck.compare_preorder_axioms
  by (simp only: Let_def)

end
