(* ===== verification/DS_Heap_Binary.thy ===== *)
theory DS_Heap_Binary
  imports Foo_Prelude
begin

text \<open>
  The array heap of \<open>src/data_structure/source/heap.cpp\<close>, namespace \<open>binary\<close>.

  \<open>data\<close> is a list of length \<open>capacity\<close>; slots from \<open>size\<close> on hold \<open>fill\<close>, the zeroed
  pointers of \<open>create\<close>, and are never compared. Indices are natural numbers (the code keeps
  them between 0 and \<open>capacity\<close>); the search result and the start index of the filters are
  \<^typ>\<open>int\<close>, as -1 is one of their values. The two filter loops carry the hole
  (\<open>child\<close>) and the lifted element (\<open>temp\<close>) exactly as the code does.
\<close>

section \<open>State and operations\<close>

record 'k binaryHeap =
  data_b :: "'k list"
  capacity_b :: nat
  size_b :: nat
  compare_b :: "'k compare"

function binary_getIndex_loop :: "'k compare \<Rightarrow> 'k list \<Rightarrow> nat \<Rightarrow> 'k \<Rightarrow> nat \<Rightarrow> int" where
  "binary_getIndex_loop cmp d n key i =
     (if i < n then if cmp (d ! i) key = 0 then int i
                    else binary_getIndex_loop cmp d n key (i + 1)
      else - 1)"
  by pat_completeness auto
termination
  by (relation "measure (\<lambda>(cmp, d, n, key, i). n - i)") auto

definition binary_getIndex :: "'k binaryHeap option \<Rightarrow> 'k option \<Rightarrow> int" where
  "binary_getIndex heap key =
     (case (heap, key) of
        (Some h, Some k) \<Rightarrow> binary_getIndex_loop (compare_b h) (data_b h) (size_b h) k 0
      | _ \<Rightarrow> - 1)"

function filterUp_loop :: "'k compare \<Rightarrow> 'k list \<Rightarrow> nat \<Rightarrow> 'k \<Rightarrow> 'k list" where
  "filterUp_loop cmp d child temp =
     (if child > 0 then
        (let parent = (child - 1) div 2 in
         if cmp temp (d ! parent) \<ge> 0 then d[child := temp]
         else filterUp_loop cmp (d[child := d ! parent]) parent temp)
      else d[child := temp])"
  by pat_completeness auto
termination
  by (relation "measure (\<lambda>(cmp, d, child, temp). child)") auto

definition binary_filterUp :: "'k binaryHeap \<Rightarrow> int \<Rightarrow> 'k binaryHeap" where
  "binary_filterUp h start =
     (if start < 0 then h
      else h\<lparr>data_b := filterUp_loop (compare_b h) (data_b h) (nat start)
                        (data_b h ! nat start)\<rparr>)"

function filterDown_loop :: "'k compare \<Rightarrow> 'k list \<Rightarrow> nat \<Rightarrow> nat \<Rightarrow> 'k \<Rightarrow> 'k list" where
  "filterDown_loop cmp d n child temp =
     (let selected = 2 * child + 1 in
      if selected < n then
        (let selected = (if selected + 1 < n \<and> cmp (d ! selected) (d ! (selected + 1)) > 0
                         then selected + 1 else selected) in
         if cmp temp (d ! selected) \<le> 0 then d[child := temp]
         else filterDown_loop cmp (d[child := d ! selected]) n selected temp)
      else d[child := temp])"
  by pat_completeness auto
termination
  by (relation "measure (\<lambda>(cmp, d, n, child, temp). n - child)") (auto split: if_splits)

definition binary_filterDown :: "'k binaryHeap \<Rightarrow> int \<Rightarrow> 'k binaryHeap" where
  "binary_filterDown h start =
     (if start < 0 then h
      else h\<lparr>data_b := filterDown_loop (compare_b h) (data_b h) (size_b h) (nat start)
                        (data_b h ! nat start)\<rparr>)"

definition binary_create :: "'k \<Rightarrow> int \<Rightarrow> 'k compare option \<Rightarrow> 'k binaryHeap option" where
  "binary_create fill cap cmp =
     (case cmp of
        None \<Rightarrow> None
      | Some c \<Rightarrow>
          if cap \<le> 0 then None
          else Some \<lparr>data_b = replicate (nat cap) fill, capacity_b = nat cap, size_b = 0,
                     compare_b = c\<rparr>)"

definition binary_insert ::
    "'k binaryHeap option \<Rightarrow> 'k option \<Rightarrow> bool \<times> 'k binaryHeap option" where
  "binary_insert heap key =
     (case (heap, key) of
        (Some h, Some k) \<Rightarrow>
          if size_b h \<ge> capacity_b h then (False, heap)
          else
            (let h1 = h\<lparr>data_b := (data_b h)[size_b h := k]\<rparr>;
                 h2 = binary_filterUp h1 (int (size_b h))
             in (True, Some (h2\<lparr>size_b := size_b h + 1\<rparr>)))
      | _ \<Rightarrow> (False, heap))"

definition binary_remove ::
    "'k binaryHeap option \<Rightarrow> 'k option \<Rightarrow> bool \<times> 'k binaryHeap option" where
  "binary_remove heap key =
     (case (heap, key) of
        (Some h, Some k) \<Rightarrow>
          if size_b h = 0 then (False, heap)
          else
            (let index = binary_getIndex heap key in
             if index = - 1 then (False, heap)
             else
               (let h1 = h\<lparr>data_b := (data_b h)[nat index := data_b h ! (size_b h - 1)],
                           size_b := size_b h - 1\<rparr>
                in (True, Some (binary_filterDown h1 index))))
      | _ \<Rightarrow> (False, heap))"

text \<open>\<open>Traverse::order\<close>: the keys the operation is called on, in order.\<close>

definition binary_order :: "'k binaryHeap option \<Rightarrow> 'k list" where
  "binary_order heap = (case heap of None \<Rightarrow> [] | Some h \<Rightarrow> map ((!) (data_b h)) [0..<size_b h])"

declare filterUp_loop.simps [simp del] filterDown_loop.simps [simp del]
  binary_getIndex_loop.simps [simp del]

section \<open>Specification vocabulary\<close>

abbreviation parent_of :: "nat \<Rightarrow> nat" where
  "parent_of i \<equiv> (i - 1) div 2"

definition min_heap :: "'k compare \<Rightarrow> nat \<Rightarrow> 'k list \<Rightarrow> bool" where
  "min_heap cmp n d = (\<forall>i \<in> {0<..<n}. cmp (d ! parent_of i) (d ! i) \<le> 0)"

definition binary_shape :: "'k binaryHeap \<Rightarrow> bool" where
  "binary_shape h \<longleftrightarrow> length (data_b h) = capacity_b h \<and> size_b h \<le> capacity_b h"

definition binary_keys :: "'k binaryHeap \<Rightarrow> 'k list" where
  "binary_keys h = take (size_b h) (data_b h)"

definition binary_invar :: "'k binaryHeap \<Rightarrow> bool" where
  "binary_invar h \<longleftrightarrow> binary_shape h \<and> min_heap (compare_b h) (size_b h) (data_b h)"

text \<open>
  The invariants of the two loops, on the array with \<open>temp\<close> written into the hole: every
  edge holds but those at the hole \<open>c\<close>, and the parent of the hole is below the children of
  the hole.
\<close>

definition above_children :: "'k compare \<Rightarrow> nat \<Rightarrow> nat \<Rightarrow> 'k list \<Rightarrow> bool" where
  "above_children cmp n c e =
     (\<forall>i \<in> {0<..<n}. parent_of i = c \<and> c > 0 \<longrightarrow> cmp (e ! parent_of c) (e ! i) \<le> 0)"

definition up_inv :: "'k compare \<Rightarrow> nat \<Rightarrow> nat \<Rightarrow> 'k list \<Rightarrow> bool" where
  "up_inv cmp n c e \<longleftrightarrow> above_children cmp n c e \<and>
     (\<forall>i \<in> {0<..<n}. i \<noteq> c \<longrightarrow> cmp (e ! parent_of i) (e ! i) \<le> 0)"

definition down_inv :: "'k compare \<Rightarrow> nat \<Rightarrow> nat \<Rightarrow> 'k list \<Rightarrow> bool" where
  "down_inv cmp n c e \<longleftrightarrow> above_children cmp n c e \<and>
     (\<forall>i \<in> {0<..<n}. parent_of i \<noteq> c \<longrightarrow> cmp (e ! parent_of i) (e ! i) \<le> 0)"

lemmas heap_inv_defs = min_heap_def above_children_def up_inv_def down_inv_def

section \<open>The filter loops\<close>

lemma filterUp_stop:
  "c = 0 \<or> cmp t (d ! parent_of c) \<ge> 0 \<Longrightarrow> filterUp_loop cmp d c t = d[c := t]"
  by (subst filterUp_loop.simps) (auto simp: Let_def)

lemma filterUp_move:
  "0 < c \<Longrightarrow> cmp t (d ! parent_of c) < 0 \<Longrightarrow>
     filterUp_loop cmp d c t = filterUp_loop cmp (d[c := d ! parent_of c]) (parent_of c) t"
  by (subst filterUp_loop.simps) (simp add: Let_def)

lemma filterUp_induct [case_names stop move]:
  fixes cmp :: "'k compare"
  assumes "\<And>d c. c = 0 \<or> cmp t (d ! parent_of c) \<ge> 0 \<Longrightarrow> P d c"
    and "\<And>d c. 0 < c \<Longrightarrow> cmp t (d ! parent_of c) < 0
           \<Longrightarrow> P (d[c := d ! parent_of c]) (parent_of c) \<Longrightarrow> P d c"
  shows "P d c"
proof (induction c arbitrary: d rule: less_induct)
  case (less c)
  show ?case
  proof (cases "c = 0 \<or> cmp t (d ! parent_of c) \<ge> 0")
    case False
    then have "0 < c" "cmp t (d ! parent_of c) < 0" "parent_of c < c"
      by (auto simp: not_le)
    with less assms(2) show ?thesis by blast
  qed (rule assms(1))
qed

text \<open>The child \<open>filterDown\<close> descends to.\<close>

definition selected_child :: "'k compare \<Rightarrow> nat \<Rightarrow> nat \<Rightarrow> 'k list \<Rightarrow> nat" where
  "selected_child cmp n c d =
     (if 2 * c + 2 < n \<and> cmp (d ! (2 * c + 1)) (d ! (2 * c + 2)) > 0
      then 2 * c + 2 else 2 * c + 1)"

lemma filterDown_stop:
  "n \<le> 2 * c + 1 \<or> cmp t (d ! selected_child cmp n c d) \<le> 0 \<Longrightarrow>
     filterDown_loop cmp d n c t = d[c := t]"
  by (subst filterDown_loop.simps) (auto simp: Let_def selected_child_def)

lemma filterDown_move:
  "2 * c + 1 < n \<Longrightarrow> cmp t (d ! selected_child cmp n c d) > 0 \<Longrightarrow>
     filterDown_loop cmp d n c t =
     filterDown_loop cmp (d[c := d ! selected_child cmp n c d]) n (selected_child cmp n c d) t"
  by (subst filterDown_loop.simps) (auto simp: Let_def selected_child_def)

lemma selected_child_bounds:
  assumes "2 * c + 1 < n"
  shows "c < selected_child cmp n c d" "selected_child cmp n c d < n"
    "parent_of (selected_child cmp n c d) = c"
  using assms by (auto simp: selected_child_def)

lemma filterDown_induct [case_names stop move]:
  assumes "\<And>d c. n \<le> 2 * c + 1 \<or> cmp t (d ! selected_child cmp n c d) \<le> 0 \<Longrightarrow> P d c"
    and "\<And>d c. 2 * c + 1 < n \<Longrightarrow> cmp t (d ! selected_child cmp n c d) > 0
      \<Longrightarrow> P (d[c := d ! selected_child cmp n c d]) (selected_child cmp n c d) \<Longrightarrow> P d c"
  shows "P d c"
proof (induction "n - c" arbitrary: d c rule: less_induct)
  case less
  show ?case
  proof (cases "n \<le> 2 * c + 1 \<or> cmp t (d ! selected_child cmp n c d) \<le> 0")
    case False
    then have c: "2 * c + 1 < n" "cmp t (d ! selected_child cmp n c d) > 0" by auto
    with selected_child_bounds(1,2) [OF c(1), of cmp d]
    have "n - selected_child cmp n c d < n - c" by linarith
    with less c assms(2) show ?thesis by blast
  qed (rule assms(1))
qed

lemma filterUp_length [simp]: "length (filterUp_loop cmp d c t) = length d"
  by (induction d c rule: filterUp_induct [of cmp t]) (simp_all add: filterUp_stop filterUp_move)

lemma filterDown_length [simp]: "length (filterDown_loop cmp d n c t) = length d"
  by (induction d c rule: filterDown_induct [of n cmp t])
    (simp_all add: filterDown_stop filterDown_move)

text \<open>One move of the hole is a swap of the filled arrays.\<close>

lemma mset_move_hole:
  assumes "c < n" "p < n" "n \<le> length d" "p \<noteq> c"
  shows "mset (take n ((d[c := d ! p])[p := t])) = mset (take n (d[c := t]))"
  using assms mset_take_swap [of c n p "d[c := t]"] by simp

lemma filterUp_mset:
  assumes "c < n" "n \<le> length d"
  shows "mset (take n (filterUp_loop cmp d c t)) = mset (take n (d[c := t]))"
  using assms
proof (induction d c rule: filterUp_induct [of cmp t])
  case (move d c)
  have "parent_of c < n" "parent_of c \<noteq> c" using move.hyps(1) move.prems(1) by auto
  with move show ?case by (simp add: filterUp_move mset_move_hole del: One_nat_def)
qed (simp add: filterUp_stop)

lemma filterDown_mset:
  assumes "c < n" "n \<le> length d"
  shows "mset (take n (filterDown_loop cmp d n c t)) = mset (take n (d[c := t]))"
  using assms
proof (induction d c rule: filterDown_induct [of n cmp t])
  case (move d c)
  from selected_child_bounds [OF move.hyps(1), of cmp d] move
  show ?case by (simp add: filterDown_move mset_move_hole)
qed (simp add: filterDown_stop)

lemma up_inv_step:
  assumes c: "compare_preorder cmp" and "0 < k" "k < n" "n \<le> length d"
    and lt: "cmp t (d ! parent_of k) < 0" and inv: "up_inv cmp n k (d[k := t])"
  shows "up_inv cmp n (parent_of k) ((d[k := d ! parent_of k])[parent_of k := t])"
proof -
  let ?p = "parent_of k" and ?e = "(d[k := d ! parent_of k])[parent_of k := t]"
  note trans = compare_preorder.cmp_le_trans [OF c]
  have pk: "?p < k" using assms(2) by simp
  have old: "cmp (d[k := t] ! parent_of i) (d[k := t] ! i) \<le> 0"
    if "0 < i" "i < n" "i \<noteq> k" for i
    using inv that by (simp add: up_inv_def)
  have kids: "cmp (d ! ?p) (d ! i) \<le> 0" if "0 < i" "i < n" "parent_of i = k" for i
    using inv that pk by (simp add: up_inv_def above_children_def)
  have sib: "cmp (d ! ?p) (d ! i) \<le> 0" if "0 < i" "i < n" "parent_of i = ?p" "i \<noteq> k" for i
    using old [OF that(1,2,4)] that pk by simp
  have top: "cmp (d ! parent_of ?p) (d ! ?p) \<le> 0" if "0 < ?p"
    using old [of ?p] that pk assms(3) by (simp del: One_nat_def)
  have "cmp (?e ! parent_of i) (?e ! i) \<le> 0" if i: "0 < i" "i < n" "i \<noteq> ?p" for i
  proof -
    consider "i = k" | "i \<noteq> k" "parent_of i = k" | "i \<noteq> k" "parent_of i = ?p"
      | "i \<noteq> k" "parent_of i \<noteq> k" "parent_of i \<noteq> ?p" by blast
    then show ?thesis
    proof cases
      case 1
      then show ?thesis using lt pk assms(3,4) by simp
    next
      case 2
      then show ?thesis using kids [OF i(1,2)] i pk assms(3,4) by simp
    next
      case 3
      with trans [OF less_imp_le [OF lt] sib [OF i(1,2) 3(2,1)]] i pk assms(3,4)
      show ?thesis by simp
    next
      case 4
      then show ?thesis using old [OF i(1,2)] i by simp
    qed
  qed
  moreover have "cmp (?e ! parent_of ?p) (?e ! i) \<le> 0"
    if i: "0 < i" "i < n" "parent_of i = ?p" "0 < ?p" for i
  proof (cases "i = k")
    case True
    have "parent_of ?p \<noteq> k" "parent_of ?p \<noteq> ?p" using i pk by linarith+
    with True top [OF i(4)] show ?thesis using pk assms(3,4) by simp
  next
    case False
    have "parent_of ?p \<noteq> k" "parent_of ?p \<noteq> ?p" "i \<noteq> ?p" using i pk by linarith+
    with False trans [OF top [OF i(4)] sib [OF i(1,2,3) False]] show ?thesis by simp
  qed
  ultimately show ?thesis
    unfolding up_inv_def above_children_def greaterThanLessThan_iff Ball_def by blast
qed

lemma filterUp_heap:
  assumes c: "compare_preorder cmp" and "k < n" "n \<le> length d" "up_inv cmp n k (d[k := t])"
  shows "min_heap cmp n (filterUp_loop cmp d k t)"
  using assms(2-)
proof (induction d k rule: filterUp_induct [of cmp t])
  case (stop d k)
  note flip = compare_preorder.cmp_ge_le [OF c]
  have "cmp (d[k := t] ! parent_of i) (d[k := t] ! i) \<le> 0" if "0 < i" "i < n" for i
    using that stop flip [of t "d ! parent_of k"]
    by (cases "i = k") (auto simp: up_inv_def)
  then show ?case using stop.hyps by (simp add: filterUp_stop min_heap_def)
next
  case (move d k)
  have "parent_of k < n" using move.hyps(1) move.prems(1) by auto
  with move up_inv_step [OF c move.hyps(1) move.prems(1,2) move.hyps(2) move.prems(3)]
  show ?case by (simp add: filterUp_move)
qed

lemma down_inv_step:
  fixes d :: "'k list"
  assumes c: "compare_preorder cmp" and k: "2 * k + 1 < n" and len: "n \<le> length d"
    and gt: "cmp t (d ! selected_child cmp n k d) > 0" and inv: "down_inv cmp n k (d[k := t])"
  defines "s \<equiv> selected_child cmp n k d"
  shows "down_inv cmp n s ((d[k := d ! s])[s := t])"
proof -
  let ?e = "(d[k := d ! s])[s := t]"
  note b = selected_child_bounds [OF k, of cmp d, folded s_def]
  note flip = compare_preorder.cmp_gt_le [OF c]
  have old: "cmp (d[k := t] ! parent_of i) (d[k := t] ! i) \<le> 0"
    if "0 < i" "i < n" "parent_of i \<noteq> k" for i
    using inv that by (simp add: down_inv_def)
  have kids: "cmp (d ! parent_of k) (d ! i) \<le> 0" if "0 < i" "i < n" "parent_of i = k" "0 < k" for i
  proof -
    have "parent_of k \<noteq> k" "i \<noteq> k" using that by linarith+
    with inv that show ?thesis by (simp add: down_inv_def above_children_def)
  qed
  have sib: "cmp (d ! s) (d ! i) \<le> 0" if "0 < i" "i < n" "parent_of i = k" "i \<noteq> s" for i
  proof -
    have "i = 2 * k + 1 \<or> i = 2 * k + 2" using that(1,3) by linarith
    then show ?thesis using that flip by (auto simp: s_def selected_child_def split: if_splits)
  qed
  have "cmp (?e ! parent_of i) (?e ! i) \<le> 0" if i: "0 < i" "i < n" "parent_of i \<noteq> s" for i
  proof -
    consider "i = s" | "i = k" | "i \<noteq> s" "i \<noteq> k" "parent_of i = k"
      | "i \<noteq> s" "i \<noteq> k" "parent_of i \<noteq> k" by blast
    then show ?thesis
    proof cases
      case 1
      then show ?thesis using flip [OF gt] b k len by (simp add: s_def)
    next
      case 2
      have "parent_of k \<noteq> k" "s \<noteq> k" using 2 i b by linarith+
      with 2 kids [of s] i b k len show ?thesis by simp
    next
      case 3
      with sib [OF i(1,2)] b k len show ?thesis by simp
    next
      case 4
      with old [OF i(1,2)] i show ?thesis by simp
    qed
  qed
  moreover have "cmp (?e ! parent_of s) (?e ! i) \<le> 0"
    if i: "0 < i" "i < n" "parent_of i = s" "0 < s" for i
  proof -
    have "i \<noteq> s" "i \<noteq> k" "parent_of i \<noteq> k" using i b by linarith+
    with old [OF i(1,2)] i b k len show ?thesis by simp
  qed
  ultimately show ?thesis
    unfolding down_inv_def above_children_def greaterThanLessThan_iff Ball_def by blast
qed

lemma filterDown_heap:
  assumes c: "compare_preorder cmp" and "k < n" "n \<le> length d" "down_inv cmp n k (d[k := t])"
  shows "min_heap cmp n (filterDown_loop cmp d n k t)"
  using assms(2-)
proof (induction d k rule: filterDown_induct [of n cmp t])
  case (stop d k)
  have sel: "cmp t (d ! i) \<le> 0" if "0 < i" "i < n" "parent_of i = k" for i
  proof -
    have i: "i = 2 * k + 1 \<or> i = 2 * k + 2" using that(1,3) by linarith
    with that stop.hyps show ?thesis
      using compare_preorder.cmp_le_trans [OF c, of t "d ! (2 * k + 1)" "d ! (2 * k + 2)"]
        compare_preorder.cmp_le_trans [OF c, of t "d ! (2 * k + 2)" "d ! (2 * k + 1)"]
        compare_preorder.cmp_gt_le [OF c, of "d ! (2 * k + 1)" "d ! (2 * k + 2)"]
      by (auto simp: selected_child_def split: if_splits)
  qed
  have "cmp (d[k := t] ! parent_of i) (d[k := t] ! i) \<le> 0" if "0 < i" "i < n" for i
  proof (cases "parent_of i = k")
    case True
    then have "i \<noteq> k" using that by linarith
    with True sel that stop.prems show ?thesis by simp
  next
    case False
    with that stop.prems(3) show ?thesis by (simp add: down_inv_def)
  qed
  then show ?case using stop.hyps by (simp add: filterDown_stop min_heap_def)
next
  case (move d k)
  from move down_inv_step [OF c move.hyps(1) move.prems(2) move.hyps(2) move.prems(3)]
    selected_child_bounds(2) [OF move.hyps(1), of cmp d]
  show ?case by (simp add: filterDown_move)
qed

section \<open>The operations\<close>

lemma getIndex_loop_cases:
  "(binary_getIndex_loop cmp d n k i = - 1 \<and> (\<forall>j \<in> {i..<n}. cmp (d ! j) k \<noteq> 0))
   \<or> (\<exists>j \<in> {i..<n}. binary_getIndex_loop cmp d n k i = int j \<and> cmp (d ! j) k = 0
        \<and> (\<forall>j' \<in> {i..<j}. cmp (d ! j') k \<noteq> 0))"
proof (induction "n - i" arbitrary: i)
  case 0
  then show ?case by (simp add: binary_getIndex_loop.simps)
next
  case (Suc m)
  have i: "i < n" using Suc.hyps(2) by simp
  show ?case
  proof (cases "cmp (d ! i) k = 0")
    case True
    with i show ?thesis by (subst (1 2) binary_getIndex_loop.simps) auto
  next
    case False
    have step: "binary_getIndex_loop cmp d n k i = binary_getIndex_loop cmp d n k (i + 1)"
      using i False by (subst binary_getIndex_loop.simps) simp
    have "{i..<n} = insert i {i + 1..<n}" using i by auto
    moreover have "{i..<j} = insert i {i + 1..<j}" if "j \<in> {i + 1..<n}" for j using that by auto
    ultimately show ?thesis using Suc.hyps(1) [of "i + 1"] Suc.hyps(2) False
      unfolding step by auto
  qed
qed

lemma getIndex_None:
  "binary_getIndex (Some h) (Some k) = - 1 \<longleftrightarrow> (\<forall>j < size_b h. compare_b h (data_b h ! j) k \<noteq> 0)"
  using getIndex_loop_cases [of "compare_b h" "data_b h" "size_b h" k 0]
  by (force simp: binary_getIndex_def)

lemma getIndex_Some:
  assumes "binary_getIndex (Some h) (Some k) \<noteq> - 1"
  obtains j where "binary_getIndex (Some h) (Some k) = int j" "j < size_b h"
    "compare_b h (data_b h ! j) k = 0"
  using getIndex_loop_cases [of "compare_b h" "data_b h" "size_b h" k 0] assms
  by (force simp: binary_getIndex_def)

text \<open>
  \<open>binary::insert\<close> keeps the min-heap order of the array, adds exactly the key inserted
  and reports success while there is room; on a full heap it reports failure and changes
  nothing.
\<close>

theorem binary_insert_correct:
  assumes "compare_preorder (compare_b h)" "binary_invar h"
  shows "case binary_insert (Some h) (Some k) of (ok, h') \<Rightarrow>
           ok = (size_b h < capacity_b h)
           \<and> (if ok then binary_invar (the h')
                \<and> mset (binary_keys (the h')) = add_mset k (mset (binary_keys h))
                \<and> capacity_b (the h') = capacity_b h
              else h' = Some h)"
proof (cases "size_b h < capacity_b h")
  case True
  let ?n = "size_b h" and ?d = "(data_b h)[size_b h := k]"
  have len: "length (data_b h) = capacity_b h" and mh: "min_heap (compare_b h) ?n (data_b h)"
    using assms(2) by (auto simp: binary_invar_def binary_shape_def)
  have "up_inv (compare_b h) (?n + 1) ?n (?d[?n := k])"
    using mh True len by (auto simp: up_inv_def above_children_def min_heap_def less_Suc_eq)
  then have "min_heap (compare_b h) (?n + 1) (filterUp_loop (compare_b h) ?d ?n k)"
    using True len by (intro filterUp_heap assms(1)) auto
  moreover have "mset (take (?n + 1) (filterUp_loop (compare_b h) ?d ?n k))
      = add_mset k (mset (take ?n (data_b h)))"
    using filterUp_mset [of ?n "?n + 1" ?d "compare_b h" k] True len
    by (simp add: take_Suc_conv_app_nth)
  ultimately show ?thesis using True len
    by (simp add: binary_insert_def binary_filterUp_def binary_invar_def binary_shape_def
        binary_keys_def Let_def)
next
  case False
  then show ?thesis by (simp add: binary_insert_def)
qed

definition sample_heap :: "int binaryHeap" where
  "sample_heap =
     the (snd (binary_insert (snd (binary_insert (binary_create 0 4 (Some compareKey)) (Some 7)))
        (Some 3)))"

lemma sample_heap_eq:
  "sample_heap = \<lparr>data_b = [3, 7, 0, 0], capacity_b = 4, size_b = 2, compare_b = compareKey\<rparr>"
  by (simp add: sample_heap_def binary_insert_def binary_create_def binary_filterUp_def
      filterUp_loop.simps compareKey_def numeral_eq_Suc)

lemma sample_heap_invar: "binary_invar sample_heap"
  by (auto simp: sample_heap_eq binary_invar_def binary_shape_def min_heap_def compareKey_def
      less_Suc_eq numeral_eq_Suc)

lemma sample_heap_fields:
  "binary_keys sample_heap = [3, 7]" "size_b sample_heap = 2" "capacity_b sample_heap = 4"
  "compare_b sample_heap = compareKey" "data_b sample_heap = [3, 7, 0, 0]"
  by (simp_all add: sample_heap_eq binary_keys_def numeral_eq_Suc)

theorem binary_insert_correct_witness:
  "mset (binary_keys (the (snd (binary_insert (Some sample_heap) (Some 5))))) = {#5, 3, 7#}"
  using binary_insert_correct [of sample_heap 5] sample_heap_invar ck.compare_preorder_axioms
  by (simp add: sample_heap_fields case_prod_beta)

text \<open>What \<open>remove\<close> leaves when it found the key at \<open>j\<close>.\<close>

lemma binary_remove_found:
  assumes "binary_getIndex (Some h) (Some k) = int j" "j < size_b h"
  shows "binary_remove (Some h) (Some k) =
    (True, Some (h\<lparr>data_b := filterDown_loop (compare_b h)
          ((data_b h)[j := data_b h ! (size_b h - 1)]) (size_b h - 1) j
          ((data_b h)[j := data_b h ! (size_b h - 1)] ! j),
        size_b := size_b h - 1\<rparr>))"
  using assms by (simp add: binary_remove_def binary_filterDown_def Let_def)

lemma mset_take_replace_last:
  assumes "j < n" "n \<le> length d"
  shows "add_mset (d ! j) (mset (take (n - 1) (d[j := d ! (n - 1)]))) = mset (take n d)"
proof (cases "j = n - 1")
  case True
  then show ?thesis using assms take_Suc_conv_app_nth [of "n - 1" d] by simp
next
  case False
  then have "j < n - 1" using assms by simp
  then show ?thesis
    using assms take_Suc_conv_app_nth [of "n - 1" d] mset_update_add [of j "take (n - 1) d"]
    by (simp add: array_simps)
qed

lemma filterDown_outside:
  "n \<le> c \<Longrightarrow> filterDown_loop cmp d n c t = d[c := t]"
  by (rule filterDown_stop) simp

text \<open>
  \<open>binary::remove\<close> reports success exactly when some stored key compares equal to the
  argument, and then removes exactly one such key and nothing else; otherwise it reports
  failure and changes nothing.
\<close>

theorem binary_remove_keys:
  assumes "binary_shape h"
  shows "case binary_remove (Some h) (Some k) of (ok, h') \<Rightarrow>
           ok = (\<exists>x \<in> set (binary_keys h). compare_b h x k = 0)
           \<and> (if ok then binary_shape (the h')
                \<and> (\<exists>x. compare_b h x k = 0
                     \<and> add_mset x (mset (binary_keys (the h'))) = mset (binary_keys h))
              else h' = Some h)"
proof (cases "binary_getIndex (Some h) (Some k) = - 1")
  case True
  then have no: "\<forall>x \<in> set (binary_keys h). compare_b h x k \<noteq> 0"
    by (auto simp: getIndex_None binary_keys_def in_set_conv_nth)
  have "binary_remove (Some h) (Some k) = (False, Some h)"
    using True by (simp add: binary_remove_def)
  with no show ?thesis by simp
next
  case False
  then obtain j where j: "binary_getIndex (Some h) (Some k) = int j" "j < size_b h"
    "compare_b h (data_b h ! j) k = 0" by (rule getIndex_Some)
  let ?n = "size_b h" and ?d = "(data_b h)[j := data_b h ! (size_b h - 1)]"
  have len: "?n \<le> length (data_b h)" using assms by (simp add: binary_shape_def)
  have "mset (take (?n - 1) (filterDown_loop (compare_b h) ?d (?n - 1) j (?d ! j)))
      = mset (take (?n - 1) ?d)"
    using filterDown_mset [of j "?n - 1" ?d "compare_b h" "?d ! j"] len
    by (cases "j < ?n - 1") (simp_all add: filterDown_outside)
  with mset_take_replace_last [OF j(2) len]
  have "add_mset (data_b h ! j)
      (mset (take (?n - 1) (filterDown_loop (compare_b h) ?d (?n - 1) j (?d ! j))))
      = mset (take ?n (data_b h))" by simp
  moreover have "data_b h ! j \<in> set (take ?n (data_b h))"
    using j(2) len by (metis in_set_conv_nth length_take min.absorb2 nth_take)
  ultimately show ?thesis
    using j(3) assms unfolding binary_remove_found [OF j(1,2)]
    by (auto simp: binary_shape_def binary_keys_def)
qed

theorem binary_remove_keys_witness:
  "binary_shape sample_heap \<and> fst (binary_remove (Some sample_heap) (Some 3))"
  using binary_remove_keys [of sample_heap 3] sample_heap_invar
  by (auto simp: binary_invar_def sample_heap_fields compareKey_def case_prod_beta)

text \<open>
  \<open>binary::remove\<close> keeps the min-heap order when the last element, which takes the place
  of the removed one, does not go below the parent of that place; in particular when the
  minimum (index 0) is removed.
\<close>

theorem binary_remove_order:
  assumes "compare_preorder (compare_b h)" "binary_invar h"
    and "binary_getIndex (Some h) (Some k) = int j"
    and "j = 0 \<or> compare_b h (data_b h ! ((j - 1) div 2)) (data_b h ! (size_b h - 1)) \<le> 0"
  shows "binary_invar (the (snd (binary_remove (Some h) (Some k))))"
proof -
  have "binary_getIndex (Some h) (Some k) \<noteq> - 1" using assms(3) by simp
  then obtain j' where "binary_getIndex (Some h) (Some k) = int j'" "j' < size_b h"
    by (rule getIndex_Some)
  with assms(3) have j: "j < size_b h" by simp
  let ?n = "size_b h - 1" and ?d = "(data_b h)[j := data_b h ! (size_b h - 1)]"
  have len: "size_b h \<le> length (data_b h)" and mh: "min_heap (compare_b h) (size_b h) (data_b h)"
    and sh: "binary_shape h"
    using assms(2) by (auto simp: binary_invar_def binary_shape_def)
  have old: "compare_b h (data_b h ! parent_of i) (data_b h ! i) \<le> 0" if "0 < i" "i < size_b h" for i
    using mh that by (simp add: min_heap_def)
  have "min_heap (compare_b h) ?n (filterDown_loop (compare_b h) ?d ?n j (?d ! j))"
  proof (cases "j < ?n")
    case True
    have "compare_b h (?d ! parent_of i) (?d ! i) \<le> 0"
      if "0 < i" "i < ?n" "parent_of i \<noteq> j" for i
      using old [of i] that assms(4) j len by (cases "i = j") auto
    moreover have "compare_b h (?d ! parent_of j) (?d ! i) \<le> 0"
      if i: "0 < i" "i < ?n" "parent_of i = j" "0 < j" for i
    proof -
      have "parent_of j \<noteq> j" "i \<noteq> j" "j < size_b h" "i < size_b h" using i j by linarith+
      with old [of j] old [of i] i
        compare_preorder.cmp_le_trans [OF assms(1), of "data_b h ! parent_of j" "data_b h ! j" "data_b h ! i"]
      show ?thesis by simp
    qed
    ultimately have "down_inv (compare_b h) ?n j ?d"
      unfolding down_inv_def above_children_def greaterThanLessThan_iff Ball_def by blast
    with True len show ?thesis by (intro filterDown_heap [OF assms(1)]) simp_all
  next
    case False
    then have "j = ?n" using j by simp
    with old show ?thesis by (auto simp: filterDown_outside min_heap_def)
  qed
  then show ?thesis using sh unfolding binary_remove_found [OF assms(3) j]
    by (auto simp: binary_invar_def binary_shape_def)
qed

theorem binary_remove_order_witness:
  "binary_invar (the (snd (binary_remove (Some sample_heap) (Some 3))))"
proof -
  have "binary_getIndex (Some sample_heap) (Some 3) = int 0"
    by (simp add: binary_getIndex_def sample_heap_fields binary_getIndex_loop.simps compareKey_def)
  then show ?thesis
    using binary_remove_order [of sample_heap 3 0] sample_heap_invar ck.compare_preorder_axioms
    by (simp add: sample_heap_fields)
qed

text \<open>
  Without that condition the order is lost, because \<open>remove\<close> only filters down: from an
  empty heap, inserting 1, 10, 2, 11, 12, 3, 4 gives a min-heap; removing 11 puts 4 below its
  parent 10, and what is left is no min-heap.
\<close>

theorem binary_remove_breaks_order:
  "let h = fold (\<lambda>k q. snd (binary_insert q (Some k))) [1, 10, 2, 11, 12, 3, 4]
             (binary_create 0 8 (Some compareKey));
       (ok, h') = binary_remove h (Some 11)
   in binary_invar (the h) \<and> ok \<and> \<not> binary_invar (the h')"
  by code_simp

end
