(* ===== verification/DS_Tree_Spec.thy ===== *)
theory DS_Tree_Spec
  imports Foo_Prelude
begin

text \<open>
  What the search trees without duplicates of \<open>src/data_structure/source/tree.cpp\<close> (namespaces
  \<open>avl\<close> and \<open>splay\<close>) promise to their callers: a tree that was built with \<open>create\<close> and changed
  with \<open>insert\<close> and \<open>remove\<close> only is a finite set of keys, and \<open>search\<close> decides membership. The
  tree of namespace \<open>bs\<close> takes duplicates: it is a multiset of keys.
\<close>

section \<open>Sequences of operations\<close>

datatype 'k treeOp = TInsert 'k | TRemove 'k

fun run_treeOps :: "('t \<Rightarrow> 'k \<Rightarrow> 't) \<Rightarrow> ('t \<Rightarrow> 'k \<Rightarrow> 't) \<Rightarrow> 't \<Rightarrow> 'k treeOp list \<Rightarrow> 't" where
  "run_treeOps ins del t [] = t"
| "run_treeOps ins del t (TInsert k # ops) = run_treeOps ins del (ins t k) ops"
| "run_treeOps ins del t (TRemove k # ops) = run_treeOps ins del (del t k) ops"

text \<open>The specification: the set left by a sequence of operations.\<close>

fun set_treeOps :: "'k set \<Rightarrow> 'k treeOp list \<Rightarrow> 'k set" where
  "set_treeOps S [] = S"
| "set_treeOps S (TInsert k # ops) = set_treeOps (insert k S) ops"
| "set_treeOps S (TRemove k # ops) = set_treeOps (S - {k}) ops"

fun bag_treeOps :: "'k multiset \<Rightarrow> 'k treeOp list \<Rightarrow> 'k multiset" where
  "bag_treeOps M [] = M"
| "bag_treeOps M (TInsert k # ops) = bag_treeOps (add_mset k M) ops"
| "bag_treeOps M (TRemove k # ops) = bag_treeOps (M - {#k#}) ops"

section \<open>The contracts\<close>

locale key_set =
  fixes empty :: 't
    and ins :: "'t \<Rightarrow> 'k \<Rightarrow> 't"
    and del :: "'t \<Rightarrow> 'k \<Rightarrow> 't"
    and found :: "'t \<Rightarrow> 'k \<Rightarrow> bool"
    and elems :: "'t \<Rightarrow> 'k set"
    and invar :: "'t \<Rightarrow> bool"
  assumes empty_spec: "invar empty" "elems empty = {}"
    and ins_spec: "invar t \<Longrightarrow> invar (ins t k)" "invar t \<Longrightarrow> elems (ins t k) = insert k (elems t)"
    and del_spec: "invar t \<Longrightarrow> invar (del t k)" "invar t \<Longrightarrow> elems (del t k) = elems t - {k}"
    and found_spec: "invar t \<Longrightarrow> found t k \<longleftrightarrow> k \<in> elems t"
begin

lemma run_refines:
  "invar t \<Longrightarrow> invar (run_treeOps ins del t ops)
     \<and> elems (run_treeOps ins del t ops) = set_treeOps (elems t) ops"
proof (induction ops arbitrary: t)
  case (Cons op ops)
  then show ?case by (cases op) (simp_all add: ins_spec del_spec)
qed simp

lemma found_after_run:
  "found (run_treeOps ins del empty ops) k \<longleftrightarrow> k \<in> set_treeOps {} ops"
  using run_refines [OF empty_spec(1), of ops] by (simp add: found_spec empty_spec)

end

locale key_bag =
  fixes empty :: 't
    and ins :: "'t \<Rightarrow> 'k \<Rightarrow> 't"
    and del :: "'t \<Rightarrow> 'k \<Rightarrow> 't"
    and found :: "'t \<Rightarrow> 'k \<Rightarrow> bool"
    and bag :: "'t \<Rightarrow> 'k multiset"
    and invar :: "'t \<Rightarrow> bool"
  assumes empty_spec: "invar empty" "bag empty = {#}"
    and ins_spec: "invar t \<Longrightarrow> invar (ins t k)" "invar t \<Longrightarrow> bag (ins t k) = add_mset k (bag t)"
    and del_spec: "invar t \<Longrightarrow> invar (del t k)" "invar t \<Longrightarrow> bag (del t k) = bag t - {#k#}"
    and found_spec: "invar t \<Longrightarrow> found t k \<longleftrightarrow> k \<in># bag t"
begin

lemma run_refines:
  "invar t \<Longrightarrow> invar (run_treeOps ins del t ops)
     \<and> bag (run_treeOps ins del t ops) = bag_treeOps (bag t) ops"
proof (induction ops arbitrary: t)
  case (Cons op ops)
  then show ?case by (cases op) (simp_all add: ins_spec del_spec)
qed simp

lemma found_after_run:
  "found (run_treeOps ins del empty ops) k \<longleftrightarrow> k \<in># bag_treeOps {#} ops"
  using run_refines [OF empty_spec(1), of ops] by (simp add: found_spec empty_spec)

end

end
