(* ===== verification/DS_Tree_AVL.thy ===== *)
theory DS_Tree_AVL
  imports DS_Tree_Spec
begin

text \<open>
  The AVL tree of \<open>src/data_structure/source/tree.cpp\<close>, namespace \<open>avl\<close>.

  A node pointer is a binary tree, \<open>ANull\<close> for \<open>nullptr\<close>; the \<open>height\<close> field is kept as the
  code stores it, separate from the real height of the tree. Tree and key pointers of the
  public functions are options. Rotations return \<open>nullptr\<close> where the code does, so that the
  theorems also show those branches are never taken. \<open>::new (std::nothrow)\<close> is taken to
  succeed; the static helpers get the callback stored by \<open>create\<close>, which is not null.
\<close>

section \<open>State and operations\<close>

datatype 'k avlNode =
    ANull
  | ANode (left_a: "'k avlNode") (right_a: "'k avlNode") (key_a: 'k) (height_a: int)

record 'k avlTree =
  root_a :: "'k avlNode"
  compare_a :: "'k compare"

fun avl_getHeight :: "'k avlNode \<Rightarrow> int" where
  "avl_getHeight ANull = 0"
| "avl_getHeight (ANode l r k h) = h"

fun avl_getMinimum :: "'k avlNode \<Rightarrow> 'k avlNode" where
  "avl_getMinimum ANull = ANull"
| "avl_getMinimum (ANode l r k h) = (if l \<noteq> ANull then avl_getMinimum l else ANode l r k h)"

fun avl_getMaximum :: "'k avlNode \<Rightarrow> 'k avlNode" where
  "avl_getMaximum ANull = ANull"
| "avl_getMaximum (ANode l r k h) = (if r \<noteq> ANull then avl_getMaximum r else ANode l r k h)"

fun leftLeftRotation :: "'k avlNode \<Rightarrow> 'k avlNode" where
  "leftLeftRotation (ANode (ANode k1l k1r k1k k1h) k2r k2k k2h) =
     (let k2' = ANode k1r k2r k2k (max (avl_getHeight k1r) (avl_getHeight k2r) + 1)
      in ANode k1l k2' k1k (max (avl_getHeight k1l) (height_a k2') + 1))"
| "leftLeftRotation _ = ANull"

fun rightRightRotation :: "'k avlNode \<Rightarrow> 'k avlNode" where
  "rightRightRotation (ANode k1l (ANode k2l k2r k2k k2h) k1k k1h) =
     (let k1' = ANode k1l k2l k1k (max (avl_getHeight k1l) (avl_getHeight k2l) + 1)
      in ANode k1' k2r k2k (max (avl_getHeight k2r) (height_a k1') + 1))"
| "rightRightRotation _ = ANull"

fun leftRightRotation :: "'k avlNode \<Rightarrow> 'k avlNode" where
  "leftRightRotation ANull = ANull"
| "leftRightRotation (ANode l r k h) = leftLeftRotation (ANode (rightRightRotation l) r k h)"

fun rightLeftRotation :: "'k avlNode \<Rightarrow> 'k avlNode" where
  "rightLeftRotation ANull = ANull"
| "rightLeftRotation (ANode l r k h) = rightRightRotation (ANode l (leftLeftRotation r) k h)"

definition avl_createNode :: "'k \<Rightarrow> 'k avlNode \<Rightarrow> 'k avlNode \<Rightarrow> 'k avlNode" where
  "avl_createNode key l r = ANode l r key 0"

text \<open>\<open>root->height = std::max(getHeight(root->left), getHeight(root->right)) + 1\<close>\<close>

fun avl_setHeight :: "'k avlNode \<Rightarrow> 'k avlNode" where
  "avl_setHeight ANull = ANull"
| "avl_setHeight (ANode l r k h) =
     ANode l r k (max (avl_getHeight l) (avl_getHeight r) + 1)"

text \<open>The tail of \<open>removeNode\<close>: the new height, then one rotation where it is needed.\<close>

definition avl_rebalance :: "'k avlNode \<Rightarrow> 'k avlNode" where
  "avl_rebalance root =
     (if root = ANull then ANull
      else
        (let root = avl_setHeight root;
             l = left_a root; r = right_a root;
             balance = avl_getHeight l - avl_getHeight r
         in if balance > 1 then
              (if avl_getHeight (right_a l) > avl_getHeight (left_a l)
               then leftRightRotation root else leftLeftRotation root)
            else if balance < - 1 then
              (if avl_getHeight (left_a r) > avl_getHeight (right_a r)
               then rightLeftRotation root else rightRightRotation root)
            else root))"

text \<open>The pointer \<open>node\<close> is only read for its key.\<close>

fun avl_removeNode :: "'k compare \<Rightarrow> 'k avlNode \<Rightarrow> 'k avlNode \<Rightarrow> 'k avlNode" where
  "avl_removeNode cmp ANull node = ANull"
| "avl_removeNode cmp (ANode l r k h) node =
     (if node = ANull then ANode l r k h
      else avl_rebalance
        (if cmp (key_a node) k < 0 then ANode (avl_removeNode cmp l node) r k h
         else if cmp (key_a node) k > 0 then ANode l (avl_removeNode cmp r node) k h
         else if l \<noteq> ANull \<and> r \<noteq> ANull then
           (if avl_getHeight l > avl_getHeight r
            then ANode (avl_removeNode cmp l (avl_getMaximum l)) r (key_a (avl_getMaximum l)) h
            else ANode l (avl_removeNode cmp r (avl_getMinimum r)) (key_a (avl_getMinimum r)) h)
         else (if l \<noteq> ANull then l else r)))"

fun avl_searchNode :: "'k compare \<Rightarrow> 'k avlNode \<Rightarrow> 'k \<Rightarrow> 'k avlNode" where
  "avl_searchNode cmp ANull key = ANull"
| "avl_searchNode cmp (ANode l r k h) key =
     (if cmp k key = 0 then ANode l r k h
      else if cmp key k < 0 then avl_searchNode cmp l key else avl_searchNode cmp r key)"

fun avl_insertNode :: "'k compare \<Rightarrow> 'k avlNode \<Rightarrow> 'k \<Rightarrow> 'k avlNode" where
  "avl_insertNode cmp ANull key = avl_setHeight (avl_createNode key ANull ANull)"
| "avl_insertNode cmp (ANode l r k h) key =
     avl_setHeight
       (if cmp key k < 0 then
          (let l' = avl_insertNode cmp l key; root = ANode l' r k h in
           if l' \<noteq> ANull \<and> avl_getHeight l' - avl_getHeight r > 1
           then (if cmp key (key_a l') < 0 then leftLeftRotation root else leftRightRotation root)
           else root)
        else if cmp key k > 0 then
          (let r' = avl_insertNode cmp r key; root = ANode l r' k h in
           if r' \<noteq> ANull \<and> avl_getHeight l - avl_getHeight r' < - 1
           then (if cmp key (key_a r') > 0 then rightRightRotation root else rightLeftRotation root)
           else root)
        else ANode l r k h)"

definition avl_remove_root :: "'k compare \<Rightarrow> 'k avlNode \<Rightarrow> 'k option \<Rightarrow> 'k avlNode" where
  "avl_remove_root cmp root key =
     (case key of
        None \<Rightarrow> root
      | Some k \<Rightarrow>
          (let z = avl_searchNode cmp root k in
           if z \<noteq> ANull then avl_removeNode cmp root z else root))"

definition avl_height :: "'k avlTree option \<Rightarrow> int" where
  "avl_height tree = (case tree of None \<Rightarrow> 0 | Some t \<Rightarrow> avl_getHeight (root_a t))"

definition avl_minimum :: "'k avlTree option \<Rightarrow> 'k avlNode" where
  "avl_minimum tree = (case tree of None \<Rightarrow> ANull | Some t \<Rightarrow> avl_getMinimum (root_a t))"

definition avl_maximum :: "'k avlTree option \<Rightarrow> 'k avlNode" where
  "avl_maximum tree = (case tree of None \<Rightarrow> ANull | Some t \<Rightarrow> avl_getMaximum (root_a t))"

definition avl_create :: "'k compare option \<Rightarrow> 'k avlTree option" where
  "avl_create cmp =
     (case cmp of None \<Rightarrow> None | Some c \<Rightarrow> Some \<lparr>root_a = ANull, compare_a = c\<rparr>)"

definition avl_search :: "'k avlTree option \<Rightarrow> 'k option \<Rightarrow> 'k avlNode" where
  "avl_search tree key =
     (case (tree, key) of
        (Some t, Some k) \<Rightarrow> avl_searchNode (compare_a t) (root_a t) k
      | _ \<Rightarrow> ANull)"

definition avl_insert :: "'k avlTree option \<Rightarrow> 'k option \<Rightarrow> 'k avlTree option" where
  "avl_insert tree key =
     (case (tree, key) of
        (Some t, Some k) \<Rightarrow> Some (t\<lparr>root_a := avl_insertNode (compare_a t) (root_a t) k\<rparr>)
      | _ \<Rightarrow> tree)"

definition avl_remove :: "'k avlTree option \<Rightarrow> 'k option \<Rightarrow> 'k avlTree option" where
  "avl_remove tree key =
     (case tree of
        None \<Rightarrow> None
      | Some t \<Rightarrow> Some (t\<lparr>root_a := avl_remove_root (compare_a t) (root_a t) key\<rparr>))"

section \<open>Specification vocabulary\<close>

fun avl_inorder :: "'k avlNode \<Rightarrow> 'k list" where
  "avl_inorder ANull = []"
| "avl_inorder (ANode l r k h) = avl_inorder l @ k # avl_inorder r"

abbreviation avl_set :: "'k avlNode \<Rightarrow> 'k set" where
  "avl_set t \<equiv> set (avl_inorder t)"

fun avl_bst :: "'k compare \<Rightarrow> 'k avlNode \<Rightarrow> bool" where
  "avl_bst cmp ANull = True"
| "avl_bst cmp (ANode l r k h) =
     ((\<forall>x \<in> avl_set l. cmp x k < 0) \<and> (\<forall>x \<in> avl_set r. cmp k x < 0)
      \<and> avl_bst cmp l \<and> avl_bst cmp r)"

text \<open>The real height of a tree.\<close>

fun avl_h :: "'k avlNode \<Rightarrow> int" where
  "avl_h ANull = 0"
| "avl_h (ANode l r k h) = max (avl_h l) (avl_h r) + 1"

fun avl_inv :: "'k avlNode \<Rightarrow> bool" where
  "avl_inv ANull = True"
| "avl_inv (ANode l r k h) =
     (\<bar>avl_h l - avl_h r\<bar> \<le> 1 \<and> h = max (avl_h l) (avl_h r) + 1 \<and> avl_inv l \<and> avl_inv r)"

fun avl_size :: "'k avlNode \<Rightarrow> nat" where
  "avl_size ANull = 0"
| "avl_size (ANode l r k h) = avl_size l + avl_size r + 1"

definition avl_ok :: "'k compare \<Rightarrow> 'k avlTree option \<Rightarrow> bool" where
  "avl_ok cmp tree =
     (case tree of None \<Rightarrow> False
      | Some t \<Rightarrow> compare_a t = cmp \<and> avl_bst cmp (root_a t) \<and> avl_inv (root_a t))"

definition avl_elems :: "'k avlTree option \<Rightarrow> 'k set" where
  "avl_elems tree = (case tree of None \<Rightarrow> {} | Some t \<Rightarrow> avl_set (root_a t))"

section \<open>Balance\<close>

lemma avl_getHeight_h [simp]: "avl_inv t \<Longrightarrow> avl_getHeight t = avl_h t"
  by (cases t) auto

lemma avl_h_ge0: "0 \<le> avl_h t"
  by (induction t) auto

lemma avl_h_0 [simp]: "avl_h t = 0 \<longleftrightarrow> t = ANull"
proof (cases t)
  case (ANode l r k h)
  have "0 \<le> max (avl_h l) (avl_h r)" by (simp add: le_max_iff_disj avl_h_ge0)
  with ANode show ?thesis by simp
qed simp

lemma avl_h_pos: "t \<noteq> ANull \<Longrightarrow> 0 < avl_h t"
  using avl_h_ge0 [of t] avl_h_0 [of t] by linarith

lemma avl_size_h: "avl_inv t \<Longrightarrow> 2 ^ nat (avl_h t div 2) \<le> avl_size t + 1"
proof (induction t)
  case (ANode l r k h)
  let ?h = "avl_h (ANode l r k h)"
  have ih: "2 ^ nat (avl_h l div 2) \<le> avl_size l + 1" "2 ^ nat (avl_h r div 2) \<le> avl_size r + 1"
    using ANode by simp_all
  have hl: "(?h - 2) div 2 \<le> avl_h l div 2" and hr: "(?h - 2) div 2 \<le> avl_h r div 2"
    using ANode.prems by (auto intro!: zdiv_mono1)
  have "2 ^ nat ((?h - 2) div 2) \<le> (2::nat) ^ nat (avl_h l div 2)"
    "2 ^ nat ((?h - 2) div 2) \<le> (2::nat) ^ nat (avl_h r div 2)"
    using hl hr by (intro power_increasing nat_mono; simp)+
  with ih have two: "2 * 2 ^ nat ((?h - 2) div 2) \<le> avl_size l + 1 + (avl_size r + 1)"
    by linarith
  show ?case
  proof (cases "?h \<ge> 2")
    case True
    then have "nat (?h div 2) = Suc (nat ((?h - 2) div 2))" by linarith
    with two show ?thesis by (simp del: avl_h.simps)
  next
    case False
    then have "nat (?h div 2) = 0" by linarith
    then show ?thesis by (simp del: avl_h.simps)
  qed
qed simp

lemma avl_inorder_length: "length (avl_inorder t) = avl_size t"
  by (induction t) auto

lemma insert_balance_left:
  assumes "avl_inv (ANode ll lr x hx)" "avl_inv r"
    "avl_h (ANode ll lr x hx) = avl_h r + 2"
    "lt \<and> avl_h ll = avl_h lr + 1 \<or> \<not> lt \<and> avl_h lr = avl_h ll + 1"
  shows "let t = avl_setHeight (if lt then leftLeftRotation (ANode (ANode ll lr x hx) r k h)
                   else leftRightRotation (ANode (ANode ll lr x hx) r k h))
         in avl_inv t \<and> avl_h t = avl_h r + 2"
  using assms avl_h_ge0 [of r] avl_h_ge0 [of ll] avl_h_ge0 [of lr]
  by (cases lr) (auto simp: max_def split: if_splits)

lemma insert_balance_right:
  assumes "avl_inv (ANode rl rr x hx)" "avl_inv l"
    "avl_h (ANode rl rr x hx) = avl_h l + 2"
    "gt \<and> avl_h rr = avl_h rl + 1 \<or> \<not> gt \<and> avl_h rl = avl_h rr + 1"
  shows "let t = avl_setHeight (if gt then rightRightRotation (ANode l (ANode rl rr x hx) k h)
                   else rightLeftRotation (ANode l (ANode rl rr x hx) k h))
         in avl_inv t \<and> avl_h t = avl_h l + 2"
  using assms avl_h_ge0 [of l] avl_h_ge0 [of rl] avl_h_ge0 [of rr]
  by (cases rl) (auto simp: max_def split: if_splits)

text \<open>
  Where an insertion made a tree higher, the root has not been rotated and the higher child is
  on the side of the inserted key.
\<close>

definition avl_grown :: "'k compare \<Rightarrow> 'k \<Rightarrow> 'k avlNode \<Rightarrow> bool" where
  "avl_grown cmp key t =
     (case t of
        ANull \<Rightarrow> False
      | ANode l r x h \<Rightarrow> l = ANull \<and> r = ANull
          \<or> cmp key x < 0 \<and> avl_h l = avl_h r + 1 \<or> cmp key x > 0 \<and> avl_h r = avl_h l + 1)"

lemma avl_insertNode_inv:
  assumes "avl_inv t"
  shows "avl_inv (avl_insertNode cmp t key)
    \<and> (avl_h (avl_insertNode cmp t key) = avl_h t
       \<or> avl_h (avl_insertNode cmp t key) = avl_h t + 1
         \<and> avl_grown cmp key (avl_insertNode cmp t key))"
  using assms
proof (induction t)
  case ANull
  then show ?case by (simp add: avl_createNode_def avl_grown_def)
next
  case (ANode l r k h)
  let ?l = "avl_insertNode cmp l key" and ?r = "avl_insertNode cmp r key"
  have inv: "avl_inv l" "avl_inv r" "\<bar>avl_h l - avl_h r\<bar> \<le> 1" using ANode.prems by auto
  have L: "avl_inv ?l" "avl_h ?l = avl_h l \<or> avl_h ?l = avl_h l + 1 \<and> avl_grown cmp key ?l"
    and R: "avl_inv ?r" "avl_h ?r = avl_h r \<or> avl_h ?r = avl_h r + 1 \<and> avl_grown cmp key ?r"
    using ANode.IH inv by simp_all
  consider (left) "cmp key k < 0" "avl_h ?l - avl_h r \<le> 1" | (rotl) "cmp key k < 0" "avl_h ?l - avl_h r > 1"
    | (right) "cmp key k > 0" "avl_h l - avl_h ?r \<ge> - 1" | (rotr) "cmp key k > 0" "avl_h l - avl_h ?r < - 1"
    | (same) "cmp key k = 0" by linarith
  then show ?case
  proof cases
    case left
    with L inv show ?thesis by (auto simp: avl_grown_def max_def split: if_splits)
  next
    case right
    with R inv show ?thesis by (auto simp: avl_grown_def max_def split: if_splits)
  next
    case rotl
    then have g: "avl_h ?l = avl_h r + 2" "avl_h l = avl_h r + 1" "avl_grown cmp key ?l"
      using L(2) inv(3) by linarith+
    then obtain ll lr x hx where l': "?l = ANode ll lr x hx" by (cases ?l) (auto simp: avl_grown_def)
    have "avl_h ll \<noteq> 0 \<or> avl_h lr \<noteq> 0" using g(1) l' avl_h_ge0 [of r] by auto
    then have "cmp key x < 0 \<and> avl_h ll = avl_h lr + 1 \<or> \<not> cmp key x < 0 \<and> avl_h lr = avl_h ll + 1"
      using g(3) l' by (auto simp: avl_grown_def)
    from insert_balance_left [where x = x and hx = hx and k = k and h = h, OF _ inv(2) _ this]
      L(1) g l' rotl inv
    show ?thesis by (auto simp: Let_def)
  next
    case rotr
    then have g: "avl_h ?r = avl_h l + 2" "avl_h r = avl_h l + 1" "avl_grown cmp key ?r"
      using R(2) inv(3) by linarith+
    then obtain rl rr x hx where r': "?r = ANode rl rr x hx" by (cases ?r) (auto simp: avl_grown_def)
    have "avl_h rl \<noteq> 0 \<or> avl_h rr \<noteq> 0" using g(1) r' avl_h_ge0 [of l] by auto
    then have "cmp key x > 0 \<and> avl_h rr = avl_h rl + 1 \<or> \<not> cmp key x > 0 \<and> avl_h rl = avl_h rr + 1"
      using g(3) r' by (auto simp: avl_grown_def)
    from insert_balance_right [where x = x and hx = hx and k = k and h = h, OF _ inv(1) _ this]
      R(1) g r' rotr inv
    show ?thesis by (auto simp: Let_def)
  next
    case same
    with ANode.prems show ?thesis by simp
  qed
qed

lemma avl_rebalance_id: "avl_inv t \<Longrightarrow> avl_rebalance t = t"
  by (cases t) (auto simp: avl_rebalance_def Let_def)

lemma avl_rebalance_left:
  assumes "avl_inv l" "avl_inv r" "avl_h l = avl_h r + 2"
  shows "avl_inv (avl_rebalance (ANode l r k h))
     \<and> avl_h (avl_rebalance (ANode l r k h)) \<in> {avl_h l, avl_h l + 1}"
proof -
  obtain ll lr x hx where l: "l = ANode ll lr x hx"
    using assms(3) avl_h_ge0 [of r] by (cases l) auto
  show ?thesis using assms avl_h_ge0 [of r] avl_h_ge0 [of ll] avl_h_ge0 [of lr] unfolding l
    by (cases lr) (auto simp: avl_rebalance_def Let_def max_def split: if_splits)
qed

lemma avl_rebalance_right:
  assumes "avl_inv l" "avl_inv r" "avl_h r = avl_h l + 2"
  shows "avl_inv (avl_rebalance (ANode l r k h))
     \<and> avl_h (avl_rebalance (ANode l r k h)) \<in> {avl_h r, avl_h r + 1}"
proof -
  obtain rl rr x hx where r: "r = ANode rl rr x hx"
    using assms(3) avl_h_ge0 [of l] by (cases r) auto
  have inv: "avl_inv rl" "avl_inv rr" "\<bar>avl_h rl - avl_h rr\<bar> \<le> 1"
    and m: "max (avl_h rl) (avl_h rr) = avl_h l + 1"
    and hx: "hx = avl_h l + 2" using assms r by auto
  consider "avl_h rl = avl_h l + 1" "avl_h rr = avl_h l"
    | "avl_h rr = avl_h l + 1" "avl_h rl = avl_h l" | "avl_h rr = avl_h l + 1" "avl_h rl = avl_h l + 1"
    using inv(3) m by linarith
  then show ?thesis
  proof cases
    case 1
    then obtain a b y hy where rl: "rl = ANode a b y hy"
      using avl_h_ge0 [of l] by (cases rl) auto
    show ?thesis using 1 assms(1) inv hx unfolding r rl
      by (auto simp: avl_rebalance_def Let_def max_def split: if_splits)
  qed (use assms(1) inv hx r in \<open>auto simp: avl_rebalance_def Let_def\<close>)
qed

lemma avl_rebalance_even:
  assumes "avl_inv l" "avl_inv r" "\<bar>avl_h l - avl_h r\<bar> \<le> 1"
  shows "avl_rebalance (ANode l r k h) = ANode l r k (max (avl_h l) (avl_h r) + 1)"
  using assms by (auto simp: avl_rebalance_def Let_def)

text \<open>
  The height of a subtree drops by at most one, so rebalancing keeps the invariant and again
  loses at most one level.
\<close>

lemma avl_rebalance_drop:
  assumes "avl_inv l" "avl_inv r" "avl_inv l'" "avl_inv r'" "\<bar>avl_h l - avl_h r\<bar> \<le> 1"
    "avl_h l' = avl_h l \<and> r' = r \<or> avl_h l' = avl_h l - 1 \<and> r' = r
     \<or> l' = l \<and> avl_h r' = avl_h r \<or> l' = l \<and> avl_h r' = avl_h r - 1"
  shows "avl_inv (avl_rebalance (ANode l' r' k h))
    \<and> avl_h (avl_rebalance (ANode l' r' k h)) \<in> {max (avl_h l) (avl_h r), max (avl_h l) (avl_h r) + 1}"
proof -
  consider "\<bar>avl_h l' - avl_h r'\<bar> \<le> 1" | "avl_h l' = avl_h r' + 2" | "avl_h r' = avl_h l' + 2"
    using assms(5,6) by force
  then show ?thesis
  proof cases
    case 1
    then show ?thesis using avl_rebalance_even [OF assms(3,4)] assms(3-6) by auto
  next
    case 2
    then show ?thesis using avl_rebalance_left [OF assms(3,4) 2, of k h] assms(5,6) by auto
  next
    case 3
    then show ?thesis using avl_rebalance_right [OF assms(3,4) 3, of k h] assms(5,6) by auto
  qed
qed

lemma avl_removeNode_inv:
  assumes "avl_inv t"
  shows "avl_inv (avl_removeNode cmp t node)
    \<and> avl_h (avl_removeNode cmp t node) \<in> {avl_h t - 1, avl_h t}"
  using assms
proof (induction t arbitrary: node)
  case (ANode l r k h)
  then have inv: "avl_inv l" "avl_inv r" "\<bar>avl_h l - avl_h r\<bar> \<le> 1" by auto
  have L: "avl_inv (avl_removeNode cmp l n)" "avl_h (avl_removeNode cmp l n) \<in> {avl_h l - 1, avl_h l}"
    and R: "avl_inv (avl_removeNode cmp r n)" "avl_h (avl_removeNode cmp r n) \<in> {avl_h r - 1, avl_h r}"
    for n using ANode.IH inv by simp_all
  have dl: "avl_inv (avl_rebalance (ANode (avl_removeNode cmp l n) r x h))
      \<and> avl_h (avl_rebalance (ANode (avl_removeNode cmp l n) r x h))
          \<in> {max (avl_h l) (avl_h r), max (avl_h l) (avl_h r) + 1}" for n x
    using avl_rebalance_drop [OF inv(1,2) L(1) [of n] inv(2,3)] L(2) [of n] by auto
  have dr: "avl_inv (avl_rebalance (ANode l (avl_removeNode cmp r n) x h))
      \<and> avl_h (avl_rebalance (ANode l (avl_removeNode cmp r n) x h))
          \<in> {max (avl_h l) (avl_h r), max (avl_h l) (avl_h r) + 1}" for n x
    using avl_rebalance_drop [OF inv(1,2) inv(1) R(1) [of n] inv(3)] R(2) [of n] by auto
  have one: "avl_inv (avl_rebalance (if l \<noteq> ANull then l else r))
      \<and> avl_h (avl_rebalance (if l \<noteq> ANull then l else r)) = max (avl_h l) (avl_h r)"
    if "l = ANull \<or> r = ANull"
    using that inv avl_h_ge0 [of l] avl_h_ge0 [of r] by (auto simp: avl_rebalance_id)
  show ?case
    using dl [of node k] dl [of "avl_getMaximum l" "key_a (avl_getMaximum l)"]
      dr [of node k] dr [of "avl_getMinimum r" "key_a (avl_getMinimum r)"] one ANode.prems
    by (simp del: avl_getMaximum.simps avl_getMinimum.simps) linarith
qed simp

lemma avl_getMinimum_Null [simp]: "avl_getMinimum t = ANull \<longleftrightarrow> t = ANull"
  by (induction t) auto

lemma avl_getMaximum_Null [simp]: "avl_getMaximum t = ANull \<longleftrightarrow> t = ANull"
  by (induction t) auto

lemma avl_getMinimum_hd: "t \<noteq> ANull \<Longrightarrow> key_a (avl_getMinimum t) = hd (avl_inorder t)"
  by (induction t) (auto simp: hd_append, metis avl_inorder.elims list.discI append_is_Nil_conv)

lemma avl_getMaximum_last: "t \<noteq> ANull \<Longrightarrow> key_a (avl_getMaximum t) = last (avl_inorder t)"
  by (induction t) (auto, metis avl_inorder.elims list.discI append_is_Nil_conv)

section \<open>Order\<close>

text \<open>A rotation that does not fail keeps the in-order sequence.\<close>

lemma LL_inorder: "leftLeftRotation t \<noteq> ANull \<Longrightarrow> avl_inorder (leftLeftRotation t) = avl_inorder t"
  by (cases t rule: leftLeftRotation.cases) (auto simp: Let_def)

lemma RR_inorder: "rightRightRotation t \<noteq> ANull \<Longrightarrow> avl_inorder (rightRightRotation t) = avl_inorder t"
  by (cases t rule: rightRightRotation.cases) (auto simp: Let_def)

lemma LR_inorder: "leftRightRotation t \<noteq> ANull \<Longrightarrow> avl_inorder (leftRightRotation t) = avl_inorder t"
proof (cases t)
  case (ANode l r k h)
  assume "leftRightRotation t \<noteq> ANull"
  with ANode have ne: "leftLeftRotation (ANode (rightRightRotation l) r k h) \<noteq> ANull" by simp
  then have "rightRightRotation l \<noteq> ANull" by (metis leftLeftRotation.simps(3))
  with ANode LL_inorder [OF ne] RR_inorder [of l] show ?thesis by simp
qed simp

lemma RL_inorder: "rightLeftRotation t \<noteq> ANull \<Longrightarrow> avl_inorder (rightLeftRotation t) = avl_inorder t"
proof (cases t)
  case (ANode l r k h)
  assume "rightLeftRotation t \<noteq> ANull"
  with ANode have ne: "rightRightRotation (ANode l (leftLeftRotation r) k h) \<noteq> ANull" by simp
  then have "leftLeftRotation r \<noteq> ANull" by (metis rightRightRotation.simps(3))
  with ANode RR_inorder [OF ne] LL_inorder [of r] show ?thesis by simp
qed simp

lemmas rotation_inorder = LL_inorder RR_inorder LR_inorder RL_inorder

lemma avl_setHeight_Null [simp]: "avl_setHeight t = ANull \<longleftrightarrow> t = ANull"
  by (cases t) auto

lemma avl_setHeight_inorder [simp]: "avl_inorder (avl_setHeight t) = avl_inorder t"
  by (cases t) auto

lemma avl_rebalance_inorder:
  "t \<noteq> ANull \<Longrightarrow> avl_rebalance t \<noteq> ANull \<Longrightarrow> avl_inorder (avl_rebalance t) = avl_inorder t"
  unfolding avl_rebalance_def Let_def
  by (auto simp: rotation_inorder split: if_splits)

lemma avl_rebalance_not_Null: "avl_inv t \<Longrightarrow> avl_h t > 0 \<Longrightarrow> t \<noteq> ANull"
  by auto

lemma avl_insertNode_not_Null: "avl_inv t \<Longrightarrow> avl_insertNode cmp t key \<noteq> ANull"
  using avl_insertNode_inv [of t cmp key] avl_h_pos [of t]
  by (cases t) (auto simp: avl_createNode_def)

text \<open>The in-order sequence after an insertion, whatever rotation was made.\<close>

lemma avl_insertNode_inorder:
  assumes "avl_inv (ANode l r k h)"
  shows "avl_inorder (avl_insertNode cmp (ANode l r k h) key) =
    (if cmp key k < 0 then avl_inorder (avl_insertNode cmp l key) @ k # avl_inorder r
     else if cmp key k > 0 then avl_inorder l @ k # avl_inorder (avl_insertNode cmp r key)
     else avl_inorder l @ k # avl_inorder r)"
  using avl_insertNode_not_Null [OF assms, of cmp key]
  by (auto simp: Let_def rotation_inorder simp del: leftRightRotation.simps rightLeftRotation.simps)

context compare_preorder
begin

lemma avl_bst_sorted: "avl_bst cmp t \<longleftrightarrow> sorted_wrt (\<lambda>x y. cmp x y < 0) (avl_inorder t)"
  by (induction t) (auto simp: sorted_wrt_append intro: cmp_lt_trans)

lemma avl_insertNode_bst:
  assumes "avl_inv t" "avl_bst cmp t"
  shows "avl_bst cmp (avl_insertNode cmp t key)
    \<and> avl_set (avl_insertNode cmp t key) =
        (if \<exists>x \<in> avl_set t. cmp key x = 0 then avl_set t else insert key (avl_set t))"
  using assms
proof (induction t)
  case ANull
  then show ?case by (simp add: avl_createNode_def)
next
  case (ANode l r k h)
  have L: "avl_bst cmp (avl_insertNode cmp l key)"
    "avl_set (avl_insertNode cmp l key) =
       (if \<exists>x \<in> avl_set l. cmp key x = 0 then avl_set l else insert key (avl_set l))"
    and R: "avl_bst cmp (avl_insertNode cmp r key)"
    "avl_set (avl_insertNode cmp r key) =
       (if \<exists>x \<in> avl_set r. cmp key x = 0 then avl_set r else insert key (avl_set r))"
    using ANode by auto
  have r: "cmp key x \<noteq> 0" if "cmp key k < 0" "x \<in> avl_set r" for x
    using that ANode.prems(2) cmp_lt_trans [of key k x] by fastforce
  have l: "cmp key x \<noteq> 0" if "cmp key k > 0" "x \<in> avl_set l" for x
    using that ANode.prems(2) cmp_lt_trans [of x k key] cmp_flip [of k key] cmp_flip [of x key]
    by fastforce
  note io = avl_insertNode_inorder [OF ANode.prems(1), of cmp key]
  consider "cmp key k < 0" | "cmp key k = 0" | "cmp key k > 0" by linarith
  then show ?case
  proof cases
    case 1
    have "avl_bst cmp (ANode (avl_insertNode cmp l key) r k h)"
      using 1 L ANode.prems(2) by (auto split: if_splits)
    then have "avl_bst cmp (avl_insertNode cmp (ANode l r k h) key)"
      unfolding avl_bst_sorted io using 1 by simp
    moreover have "avl_set (avl_insertNode cmp (ANode l r k h) key)
        = insert k (avl_set (avl_insertNode cmp l key) \<union> avl_set r)"
      unfolding io using 1 by simp
    ultimately show ?thesis using 1 L(2) r by auto
  next
    case 2
    with ANode.prems show ?thesis by simp
  next
    case 3
    then have "cmp k key < 0" by (simp add: cmp_flip)
    then have "avl_bst cmp (ANode l (avl_insertNode cmp r key) k h)"
      using 3 R ANode.prems(2) by (auto split: if_splits)
    then have "avl_bst cmp (avl_insertNode cmp (ANode l r k h) key)"
      unfolding avl_bst_sorted io using 3 by simp
    moreover have "avl_set (avl_insertNode cmp (ANode l r k h) key)
        = insert k (avl_set l \<union> avl_set (avl_insertNode cmp r key))"
      unfolding io using 3 by auto
    ultimately show ?thesis using 3 R(2) l by auto
  qed
qed

lemma avl_searchNode_iff:
  assumes "avl_bst cmp t"
  shows "(avl_searchNode cmp t key \<noteq> ANull \<longleftrightarrow> (\<exists>x \<in> avl_set t. cmp x key = 0))
    \<and> (avl_searchNode cmp t key \<noteq> ANull \<longrightarrow>
      cmp (key_a (avl_searchNode cmp t key)) key = 0
      \<and> key_a (avl_searchNode cmp t key) \<in> avl_set t)"
  using assms
proof (induction t)
  case (ANode l r k h)
  have r: "cmp x key \<noteq> 0" if "cmp key k < 0" "x \<in> avl_set r" for x
    using that ANode.prems cmp_lt_trans [of key k x] cmp_zero_sym [of x key] by fastforce
  have l: "cmp x key \<noteq> 0" if "\<not> cmp key k < 0" "cmp k key \<noteq> 0" "x \<in> avl_set l" for x
    using that ANode.prems cmp_lt_trans [of x k key] cmp_flip [of key k] cmp_flip [of k key]
    by fastforce
  have "cmp k key \<noteq> 0" if "cmp key k < 0" using that cmp_zero_sym [of k key] by simp
  with r l ANode show ?case by auto
qed simp

end

lemma filter_neq_last:
  assumes "distinct xs" "xs \<noteq> []"
  shows "filter (\<lambda>y. y \<noteq> last xs) xs @ [last xs] = xs"
  using assms by (induction xs) (auto simp: filter_neq_id split: if_splits)

lemma filter_neq_hd:
  assumes "distinct xs" "xs \<noteq> []"
  shows "hd xs # filter (\<lambda>y. y \<noteq> hd xs) xs = xs"
  using assms by (cases xs) (auto simp: filter_neq_id)

lemma avl_inorder_Nil [simp]: "avl_inorder t = [] \<longleftrightarrow> t = ANull"
  by (cases t) auto

lemma avl_rebalance_inorder_node:
  assumes "avl_inv l" "avl_inv r" "\<bar>avl_h l - avl_h r\<bar> \<le> 2"
  shows "avl_inorder (avl_rebalance (ANode l r k h)) = avl_inorder l @ k # avl_inorder r"
proof -
  consider "\<bar>avl_h l - avl_h r\<bar> \<le> 1" | "avl_h l = avl_h r + 2" | "avl_h r = avl_h l + 2"
    using assms(3) by linarith
  then have "avl_rebalance (ANode l r k h) \<noteq> ANull"
  proof cases
    case 1
    then show ?thesis using avl_rebalance_even [OF assms(1,2)] by simp
  next
    case 2
    have "0 \<le> avl_h r" by (rule avl_h_ge0)
    with 2 show ?thesis using avl_rebalance_left [OF assms(1,2) 2, of k h] by fastforce
  next
    case 3
    have "0 \<le> avl_h l" by (rule avl_h_ge0)
    with 3 show ?thesis using avl_rebalance_right [OF assms(1,2) 3, of k h] by fastforce
  qed
  then show ?thesis using avl_rebalance_inorder [of "ANode l r k h"] by simp
qed

context compare_linear
begin

lemma sorted_cmp_distinct: "sorted_wrt (\<lambda>x y. cmp x y < 0) xs \<Longrightarrow> distinct xs"
  by (induction xs) force+

lemma avl_bst_distinct: "avl_bst cmp t \<Longrightarrow> distinct (avl_inorder t)"
  by (simp add: avl_bst_sorted sorted_cmp_distinct)

lemma avl_removeNode_inorder:
  assumes "avl_inv t" "avl_bst cmp t" "node \<noteq> ANull"
  shows "avl_inorder (avl_removeNode cmp t node) = filter (\<lambda>x. x \<noteq> key_a node) (avl_inorder t)"
  using assms
proof (induction t arbitrary: node)
  case (ANode l r k h)
  let ?k = "key_a node"
  have inv: "avl_inv l" "avl_inv r" "\<bar>avl_h l - avl_h r\<bar> \<le> 1"
    and bst: "avl_bst cmp l" "avl_bst cmp r" using ANode.prems by auto
  have lt: "\<And>x. x \<in> avl_set l \<Longrightarrow> cmp x k < 0" and gt: "\<And>x. x \<in> avl_set r \<Longrightarrow> cmp k x < 0"
    using ANode.prems(2) by auto
  have L: "avl_inorder (avl_rebalance (ANode (avl_removeNode cmp l n) r x h))
      = filter (\<lambda>y. y \<noteq> key_a n) (avl_inorder l) @ x # avl_inorder r" if "n \<noteq> ANull" for n x
    using avl_rebalance_inorder_node [of "avl_removeNode cmp l n" r x h]
      avl_removeNode_inv [OF inv(1), of cmp n] inv ANode.IH(1) [OF inv(1) bst(1) that] by auto
  have R: "avl_inorder (avl_rebalance (ANode l (avl_removeNode cmp r n) x h))
      = avl_inorder l @ x # filter (\<lambda>y. y \<noteq> key_a n) (avl_inorder r)" if "n \<noteq> ANull" for n x
    using avl_rebalance_inorder_node [of l "avl_removeNode cmp r n" x h]
      avl_removeNode_inv [OF inv(2), of cmp n] inv ANode.IH(2) [OF inv(2) bst(2) that] by auto
  show ?case
  proof (cases ?k k rule: cmp_cases)
    case less
    have "?k \<notin> avl_set r" using less(1) gt cmp_lt_trans [of ?k k ?k] by fastforce
    with less L [OF ANode.prems(3)] ANode.prems(3) show ?thesis by (simp add: filter_neq_id)
  next
    case greater
    have "?k \<notin> avl_set l" using greater(2) lt cmp_lt_trans [of ?k k ?k] by fastforce
    with greater R [OF ANode.prems(3)] ANode.prems(3) show ?thesis by (simp add: filter_neq_id)
  next
    case equal
    have fl: "filter (\<lambda>x. x \<noteq> k) (avl_inorder l) = avl_inorder l"
      and fr: "filter (\<lambda>x. x \<noteq> k) (avl_inorder r) = avl_inorder r"
      using lt gt by (force intro: filter_neq_id)+
    have mx: "filter (\<lambda>y. y \<noteq> key_a (avl_getMaximum l)) (avl_inorder l) @ [key_a (avl_getMaximum l)]
        = avl_inorder l" if "l \<noteq> ANull"
      using that filter_neq_last [OF avl_bst_distinct [OF bst(1)]] by (simp add: avl_getMaximum_last)
    have mn: "key_a (avl_getMinimum r) # filter (\<lambda>y. y \<noteq> key_a (avl_getMinimum r)) (avl_inorder r)
        = avl_inorder r" if "r \<noteq> ANull"
      using that filter_neq_hd [OF avl_bst_distinct [OF bst(2)]] by (simp add: avl_getMinimum_hd)
    show ?thesis
    proof (cases "l \<noteq> ANull \<and> r \<noteq> ANull")
      case True
      then show ?thesis
        using equal ANode.prems(3) L [of "avl_getMaximum l" "key_a (avl_getMaximum l)"]
          R [of "avl_getMinimum r" "key_a (avl_getMinimum r)"] mx mn fl fr
        by (auto simp del: avl_getMaximum.simps avl_getMinimum.simps)
    next
      case False
      then show ?thesis using equal ANode.prems(3) fl fr inv
        by (auto simp: avl_rebalance_id)
    qed
  qed
qed simp

lemma avl_removeNode_bst:
  assumes "avl_inv t" "avl_bst cmp t" "node \<noteq> ANull"
  shows "avl_bst cmp (avl_removeNode cmp t node)"
    "avl_set (avl_removeNode cmp t node) = avl_set t - {key_a node}"
  using assms avl_removeNode_inorder [OF assms] by (auto simp: avl_bst_sorted sorted_wrt_filter)

end


context compare_linear
begin

lemma avl_insert_ok:
  assumes "avl_ok cmp tree"
  shows "avl_ok cmp (avl_insert tree (Some k))"
    "avl_elems (avl_insert tree (Some k)) = insert k (avl_elems tree)"
  using assms avl_insertNode_bst [of "root_a (the tree)" k]
    avl_insertNode_inv [of "root_a (the tree)" cmp k]
  by (auto simp: avl_ok_def avl_elems_def avl_insert_def cmp_eq split: option.splits)

lemma avl_search_ok:
  assumes "avl_ok cmp tree"
  shows "avl_search tree (Some k) \<noteq> ANull \<longleftrightarrow> k \<in> avl_elems tree"
  using assms avl_searchNode_iff [of "root_a (the tree)" k]
  by (auto simp: avl_ok_def avl_elems_def avl_search_def cmp_eq split: option.splits)

lemma avl_remove_ok:
  assumes "avl_ok cmp tree"
  shows "avl_ok cmp (avl_remove tree (Some k)) \<and> avl_elems (avl_remove tree (Some k)) = avl_elems tree - {k}"
proof -
  obtain t where t: "tree = Some t" "compare_a t = cmp" "avl_bst cmp (root_a t)" "avl_inv (root_a t)"
    using assms by (auto simp: avl_ok_def split: option.splits)
  let ?z = "avl_searchNode cmp (root_a t) k"
  show ?thesis
  proof (cases "?z = ANull")
    case True
    with avl_searchNode_iff [OF t(3), of k] show ?thesis
      using t by (auto simp: avl_ok_def avl_elems_def avl_remove_def avl_remove_root_def cmp_eq)
  next
    case False
    then have "key_a ?z = k" using avl_searchNode_iff [OF t(3), of k] by (simp add: cmp_eq)
    with False avl_removeNode_bst [OF t(4,3) False] avl_removeNode_inv [OF t(4), of cmp ?z] t
    show ?thesis by (simp add: avl_ok_def avl_elems_def avl_remove_def avl_remove_root_def)
  qed
qed

end

text \<open>The AVL tree keeps the contract of a set for the callback the program creates it with.\<close>

lemma avl_key_set:
  assumes "compare_linear cmp"
  shows "key_set (avl_create (Some cmp)) (\<lambda>t k. avl_insert t (Some k)) (\<lambda>t k. avl_remove t (Some k))
    (\<lambda>t k. avl_search t (Some k) \<noteq> ANull) avl_elems (avl_ok cmp)"
  using compare_linear.avl_insert_ok [OF assms] compare_linear.avl_remove_ok [OF assms]
    compare_linear.avl_search_ok [OF assms]
  by unfold_locales (simp_all add: avl_ok_def avl_elems_def avl_create_def)

interpretation avlset: key_set "avl_create (Some compareKey)" "\<lambda>t k. avl_insert t (Some k)"
  "\<lambda>t k. avl_remove t (Some k)" "\<lambda>t k. avl_search t (Some k) \<noteq> ANull" avl_elems "avl_ok compareKey"
  by (rule avl_key_set) unfold_locales

section \<open>Properties\<close>

text \<open>
  C1: an AVL tree that starts with \<open>create(compareKey)\<close> and goes through any sequence of \<open>insert\<close>
  and \<open>remove\<close> calls stores exactly the keys inserted and not removed since, \<open>search\<close> finds
  exactly those, and every node is balanced with its height field right.
\<close>

theorem avl_refines_set:
  "avl_ok compareKey (run_treeOps (\<lambda>t k. avl_insert t (Some k)) (\<lambda>t k. avl_remove t (Some k))
      (avl_create (Some compareKey)) ops)
   \<and> (avl_search (run_treeOps (\<lambda>t k. avl_insert t (Some k)) (\<lambda>t k. avl_remove t (Some k))
        (avl_create (Some compareKey)) ops) (Some k) \<noteq> ANull \<longleftrightarrow> k \<in> set_treeOps {} ops)"
  using avlset.run_refines [OF avlset.empty_spec(1), of ops] avlset.found_after_run by blast

text \<open>
  For every callback that orders the keys linearly, \<open>removeNode\<close> on a balanced search tree
  takes out exactly the key of the given node, keeps the in-order sequence of the others, the
  balance of every node and the height fields, and lowers the height by at most one.
\<close>

theorem avl_removeNode_correct:
  assumes "compare_linear cmp" "avl_inv t" "avl_bst cmp t" "node \<noteq> ANull"
  shows "avl_inorder (avl_removeNode cmp t node) = filter (\<lambda>x. x \<noteq> key_a node) (avl_inorder t)
    \<and> avl_inv (avl_removeNode cmp t node) \<and> avl_bst cmp (avl_removeNode cmp t node)
    \<and> avl_h (avl_removeNode cmp t node) \<in> {avl_h t - 1, avl_h t}"
  using compare_linear.avl_removeNode_inorder [OF assms] compare_linear.avl_removeNode_bst [OF assms]
    avl_removeNode_inv [OF assms(2), of cmp node] by simp

theorem avl_removeNode_correct_witness:
  "avl_inorder (avl_removeNode compareKey
     (ANode (ANode ANull ANull 1 1) (ANode ANull ANull 3 1) 2 2) (ANode ANull ANull 2 1)) = [1, 3]"
  using avl_removeNode_correct [OF ck.compare_linear_axioms,
    of "ANode (ANode ANull ANull 1 1) (ANode ANull ANull 3 1) 2 2" "ANode ANull ANull 2 1"]
  by (simp add: compareKey_def)



end
