(* ===== verification/DS_Tree_Splay.thy ===== *)
theory DS_Tree_Splay
  imports DS_Tree_Spec
begin

text \<open>
  The splay tree of \<open>src/data_structure/source/tree.cpp\<close>, namespace \<open>splay\<close>.

  A node pointer is a binary tree, \<open>SNull\<close> for \<open>nullptr\<close>. The top-down loop of \<open>splay\<close> hangs
  the parts of the tree it leaves behind under the dummy node \<open>n\<close>: the pointer \<open>l\<close> walks down
  a chain of right links, \<open>r\<close> down a chain of left links. The model keeps the two chains as
  lists, the node \<open>l\<close> or \<open>r\<close> points to first; a node of the chain is its key and the child that is
  already fixed. The four assignments after the loop close the chains.
  Keys passed to \<open>insert\<close> are not null, allocation succeeds, and the static helpers get the
  callback stored by \<open>create\<close>.
\<close>

section \<open>State and operations\<close>

datatype 'k splayNode = SNull | SNode (left_s: "'k splayNode") (right_s: "'k splayNode") (key_s: 'k)

record 'k splayTree =
  root_s :: "'k splayNode"
  compare_s :: "'k compare"

fun splay_getMinimum :: "'k splayNode \<Rightarrow> 'k splayNode" where
  "splay_getMinimum SNull = SNull"
| "splay_getMinimum (SNode l r k) = (if l \<noteq> SNull then splay_getMinimum l else SNode l r k)"

fun splay_getMaximum :: "'k splayNode \<Rightarrow> 'k splayNode" where
  "splay_getMaximum SNull = SNull"
| "splay_getMaximum (SNode l r k) = (if r \<noteq> SNull then splay_getMaximum r else SNode l r k)"

definition splay_createNode :: "'k \<Rightarrow> 'k splayNode \<Rightarrow> 'k splayNode \<Rightarrow> 'k splayNode" where
  "splay_createNode key l r = SNode l r key"

fun splay_insertNode :: "'k compare \<Rightarrow> 'k splayNode \<Rightarrow> 'k splayNode \<Rightarrow> 'k splayNode" where
  "splay_insertNode cmp SNull node = node"
| "splay_insertNode cmp (SNode l r k) node =
     (if node = SNull then SNode l r k
      else if cmp (key_s node) k < 0 then SNode (splay_insertNode cmp l node) r k
      else if cmp (key_s node) k > 0 then SNode l (splay_insertNode cmp r node) k
      else SNode l r k)"

fun splay_searchNode :: "'k compare \<Rightarrow> 'k splayNode \<Rightarrow> 'k \<Rightarrow> 'k splayNode" where
  "splay_searchNode cmp SNull key = SNull"
| "splay_searchNode cmp (SNode l r k) key =
     (if cmp k key = 0 then SNode l r k
      else if cmp key k < 0 then splay_searchNode cmp l key else splay_searchNode cmp r key)"

text \<open>The rotations at the head of the loop body, done where the next key is on the same side.\<close>

fun splay_zigLeft :: "'k compare \<Rightarrow> 'k \<Rightarrow> 'k splayNode \<Rightarrow> 'k splayNode" where
  "splay_zigLeft cmp key (SNode (SNode cl cr ck) r k) =
     (if cmp key ck < 0 then SNode cl (SNode cr r k) ck else SNode (SNode cl cr ck) r k)"
| "splay_zigLeft cmp key root = root"

fun splay_zigRight :: "'k compare \<Rightarrow> 'k \<Rightarrow> 'k splayNode \<Rightarrow> 'k splayNode" where
  "splay_zigRight cmp key (SNode l (SNode cl cr ck) k) =
     (if cmp key ck > 0 then SNode (SNode l cl k) cr ck else SNode l (SNode cl cr ck) k)"
| "splay_zigRight cmp key root = root"

lemma splay_zigLeft_size:
  "left_s (splay_zigLeft cmp key t) \<noteq> SNull \<Longrightarrow> t \<noteq> SNull
   \<Longrightarrow> size (left_s (splay_zigLeft cmp key t)) < size t"
  by (cases t rule: splay_zigLeft.cases [of "(cmp, key, t)" for cmp key t, simplified]) auto

lemma splay_zigRight_size:
  "right_s (splay_zigRight cmp key t) \<noteq> SNull \<Longrightarrow> t \<noteq> SNull
   \<Longrightarrow> size (right_s (splay_zigRight cmp key t)) < size t"
  by (cases t rule: splay_zigRight.cases [of "(cmp, key, t)" for cmp key t, simplified]) auto

type_synonym 'k chain = "('k splayNode \<times> 'k) list"

function splay_loop ::
  "'k compare \<Rightarrow> 'k \<Rightarrow> 'k splayNode \<Rightarrow> 'k chain \<Rightarrow> 'k chain \<Rightarrow> 'k splayNode \<times> 'k chain \<times> 'k chain"
where
  "splay_loop cmp key root l r =
     (if root = SNull \<or> cmp key (key_s root) = 0 then (root, l, r)
      else if cmp key (key_s root) < 0 then
        (if left_s (splay_zigLeft cmp key root) = SNull then (splay_zigLeft cmp key root, l, r)
         else splay_loop cmp key (left_s (splay_zigLeft cmp key root)) l
                ((right_s (splay_zigLeft cmp key root), key_s (splay_zigLeft cmp key root)) # r))
      else
        (if right_s (splay_zigRight cmp key root) = SNull then (splay_zigRight cmp key root, l, r)
         else splay_loop cmp key (right_s (splay_zigRight cmp key root))
                ((left_s (splay_zigRight cmp key root), key_s (splay_zigRight cmp key root)) # l) r))"
  by pat_completeness auto
termination
  by (relation "measure (\<lambda>(cmp, key, root, l, r). size root)")
    (auto simp: splay_zigLeft_size splay_zigRight_size)

declare splay_loop.simps [simp del]

text \<open>Closing a chain: its first node gets \<open>t\<close> as its open child.\<close>

fun closeL :: "'k chain \<Rightarrow> 'k splayNode \<Rightarrow> 'k splayNode" where
  "closeL [] t = t"
| "closeL ((x, k) # l) t = closeL l (SNode x t k)"

fun closeR :: "'k chain \<Rightarrow> 'k splayNode \<Rightarrow> 'k splayNode" where
  "closeR [] t = t"
| "closeR ((x, k) # r) t = closeR r (SNode t x k)"

definition splay_splayNode :: "'k compare \<Rightarrow> 'k splayNode \<Rightarrow> 'k option \<Rightarrow> 'k splayNode" where
  "splay_splayNode cmp root key =
     (case key of
        None \<Rightarrow> root
      | Some ky \<Rightarrow>
          if root = SNull then root
          else (case splay_loop cmp ky root [] [] of
                  (root, l, r) \<Rightarrow>
                    SNode (closeL l (left_s root)) (closeR r (right_s root)) (key_s root)))"

definition splay_insert_root :: "'k compare \<Rightarrow> 'k splayNode \<Rightarrow> 'k \<Rightarrow> 'k splayNode" where
  "splay_insert_root cmp root key =
     (let z = splay_createNode key SNull SNull;
          root = splay_insertNode cmp root z
      in splay_splayNode cmp root (Some key))"

definition splay_remove_root :: "'k compare \<Rightarrow> 'k splayNode \<Rightarrow> 'k option \<Rightarrow> 'k splayNode" where
  "splay_remove_root cmp root key =
     (case key of
        None \<Rightarrow> root
      | Some ky \<Rightarrow>
          if root = SNull \<or> splay_searchNode cmp root ky = SNull then root
          else
            (let root = splay_splayNode cmp root key in
             if left_s root \<noteq> SNull then
               (let x = splay_splayNode cmp (left_s root) key
                in SNode (left_s x) (right_s root) (key_s x))
             else right_s root))"

definition splay_minimum :: "'k splayTree option \<Rightarrow> 'k splayNode" where
  "splay_minimum tree = (case tree of None \<Rightarrow> SNull | Some t \<Rightarrow> splay_getMinimum (root_s t))"

definition splay_maximum :: "'k splayTree option \<Rightarrow> 'k splayNode" where
  "splay_maximum tree = (case tree of None \<Rightarrow> SNull | Some t \<Rightarrow> splay_getMaximum (root_s t))"

definition splay_create :: "'k compare option \<Rightarrow> 'k splayTree option" where
  "splay_create cmp =
     (case cmp of None \<Rightarrow> None | Some c \<Rightarrow> Some \<lparr>root_s = SNull, compare_s = c\<rparr>)"

definition splay_search :: "'k splayTree option \<Rightarrow> 'k option \<Rightarrow> 'k splayNode" where
  "splay_search tree key =
     (case (tree, key) of
        (Some t, Some k) \<Rightarrow> splay_searchNode (compare_s t) (root_s t) k
      | _ \<Rightarrow> SNull)"

definition splay_insert :: "'k splayTree option \<Rightarrow> 'k \<Rightarrow> 'k splayTree option" where
  "splay_insert tree key =
     map_option (\<lambda>t. t\<lparr>root_s := splay_insert_root (compare_s t) (root_s t) key\<rparr>) tree"

definition splay_remove :: "'k splayTree option \<Rightarrow> 'k option \<Rightarrow> 'k splayTree option" where
  "splay_remove tree key =
     map_option (\<lambda>t. t\<lparr>root_s := splay_remove_root (compare_s t) (root_s t) key\<rparr>) tree"

definition splay_splay :: "'k splayTree option \<Rightarrow> 'k option \<Rightarrow> 'k splayTree option" where
  "splay_splay tree key =
     map_option (\<lambda>t. t\<lparr>root_s := splay_splayNode (compare_s t) (root_s t) key\<rparr>) tree"

section \<open>Specification vocabulary\<close>

fun splay_inorder :: "'k splayNode \<Rightarrow> 'k list" where
  "splay_inorder SNull = []"
| "splay_inorder (SNode l r k) = splay_inorder l @ k # splay_inorder r"

abbreviation splay_set :: "'k splayNode \<Rightarrow> 'k set" where
  "splay_set t \<equiv> set (splay_inorder t)"

fun splay_bst :: "'k compare \<Rightarrow> 'k splayNode \<Rightarrow> bool" where
  "splay_bst cmp SNull = True"
| "splay_bst cmp (SNode l r k) =
     ((\<forall>x \<in> splay_set l. cmp x k < 0) \<and> (\<forall>x \<in> splay_set r. cmp k x < 0)
      \<and> splay_bst cmp l \<and> splay_bst cmp r)"

text \<open>The in-order sequences of the two chains, outermost node first and last.\<close>

fun chainL :: "'k chain \<Rightarrow> 'k list" where
  "chainL [] = []"
| "chainL ((x, k) # l) = chainL l @ splay_inorder x @ [k]"

fun chainR :: "'k chain \<Rightarrow> 'k list" where
  "chainR [] = []"
| "chainR ((x, k) # r) = k # splay_inorder x @ chainR r"

definition splay_ok :: "'k compare \<Rightarrow> 'k splayTree option \<Rightarrow> bool" where
  "splay_ok cmp tree =
     (case tree of None \<Rightarrow> False | Some t \<Rightarrow> compare_s t = cmp \<and> splay_bst cmp (root_s t))"

definition splay_elems :: "'k splayTree option \<Rightarrow> 'k set" where
  "splay_elems tree = (case tree of None \<Rightarrow> {} | Some t \<Rightarrow> splay_set (root_s t))"

section \<open>The loop\<close>

lemma splay_zigLeft_inorder [simp]: "splay_inorder (splay_zigLeft cmp key t) = splay_inorder t"
  by (cases "(cmp, key, t)" rule: splay_zigLeft.cases) auto

lemma splay_zigRight_inorder [simp]: "splay_inorder (splay_zigRight cmp key t) = splay_inorder t"
  by (cases "(cmp, key, t)" rule: splay_zigRight.cases) auto

lemma splay_inorder_Nil [simp]: "splay_inorder t = [] \<longleftrightarrow> t = SNull"
  by (cases t) auto

lemma splay_zig_Null [simp]:
  "splay_zigLeft cmp key t = SNull \<longleftrightarrow> t = SNull"
  "splay_zigRight cmp key t = SNull \<longleftrightarrow> t = SNull"
  by (metis splay_inorder_Nil splay_zigLeft_inorder, metis splay_inorder_Nil splay_zigRight_inorder)

lemma closeL_inorder [simp]: "splay_inorder (closeL l t) = chainL l @ splay_inorder t"
  by (induction l t rule: closeL.induct) auto

lemma closeR_inorder [simp]: "splay_inorder (closeR r t) = splay_inorder t @ chainR r"
  by (induction r t rule: closeR.induct) auto

lemma splay_node_inorder:
  "t \<noteq> SNull \<Longrightarrow> splay_inorder (left_s t) @ key_s t # splay_inorder (right_s t) = splay_inorder t"
  by (cases t) auto

lemma splay_loop_stop:
  "root = SNull \<or> cmp key (key_s root) = 0 \<Longrightarrow> splay_loop cmp key root l r = (root, l, r)"
  by (subst splay_loop.simps) simp

lemma splay_loop_left:
  "root \<noteq> SNull \<Longrightarrow> cmp key (key_s root) < 0 \<Longrightarrow> z = splay_zigLeft cmp key root
   \<Longrightarrow> splay_loop cmp key root l r =
     (if left_s z = SNull then (z, l, r)
      else splay_loop cmp key (left_s z) l ((right_s z, key_s z) # r))"
  by (subst splay_loop.simps) simp

lemma splay_loop_right:
  "root \<noteq> SNull \<Longrightarrow> cmp key (key_s root) > 0 \<Longrightarrow> z = splay_zigRight cmp key root
   \<Longrightarrow> splay_loop cmp key root l r =
     (if right_s z = SNull then (z, l, r)
      else splay_loop cmp key (right_s z) ((left_s z, key_s z) # l) r)"
  by (subst splay_loop.simps) simp

lemma splay_loop_induct [case_names stop left right]:
  assumes "\<And>root l r. root = SNull \<or> cmp key (key_s root) = 0 \<Longrightarrow> P root l r"
    and "\<And>root l r z. \<lbrakk>root \<noteq> SNull; cmp key (key_s root) < 0; z = splay_zigLeft cmp key root;
      left_s z \<noteq> SNull \<Longrightarrow> P (left_s z) l ((right_s z, key_s z) # r)\<rbrakk> \<Longrightarrow> P root l r"
    and "\<And>root l r z. \<lbrakk>root \<noteq> SNull; cmp key (key_s root) > 0; z = splay_zigRight cmp key root;
      right_s z \<noteq> SNull \<Longrightarrow> P (right_s z) ((left_s z, key_s z) # l) r\<rbrakk> \<Longrightarrow> P root l r"
  shows "P root l r"
proof (induction "size root" arbitrary: root l r rule: less_induct)
  case less
  consider "root = SNull \<or> cmp key (key_s root) = 0" | "root \<noteq> SNull" "cmp key (key_s root) < 0"
    | "root \<noteq> SNull" "cmp key (key_s root) > 0" by linarith
  then show ?case
    using less splay_zigLeft_size [of cmp key root] splay_zigRight_size [of cmp key root]
    by cases (blast intro: assms)+
qed

text \<open>The loop only regroups the in-order sequence, for every callback.\<close>

lemma splay_loop_inorder:
  assumes "splay_loop cmp key root l r = (root', l', r')"
  shows "chainL l' @ splay_inorder root' @ chainR r' = chainL l @ splay_inorder root @ chainR r
    \<and> (root \<noteq> SNull \<longrightarrow> root' \<noteq> SNull)"
  using assms
proof (induction root l r rule: splay_loop_induct [where cmp = cmp and key = key])
  case (stop root l r)
  then show ?case by (simp add: splay_loop_stop)
next
  case (left root l r z)
  have io: "splay_inorder root = splay_inorder (left_s z) @ key_s z # splay_inorder (right_s z)"
    and z: "z \<noteq> SNull" "splay_inorder z = splay_inorder root"
    using left(1,3) splay_node_inorder [of z] by simp_all
  show ?case
  proof (cases "left_s z = SNull")
    case True
    with left.prems z show ?thesis unfolding splay_loop_left [OF left(1-3)] by auto
  next
    case False
    with left.IH left.prems io show ?thesis unfolding splay_loop_left [OF left(1-3)] by simp
  qed
next
  case (right root l r z)
  have io: "splay_inorder root = splay_inorder (left_s z) @ key_s z # splay_inorder (right_s z)"
    and z: "z \<noteq> SNull" "splay_inorder z = splay_inorder root"
    using right(1,3) splay_node_inorder [of z] by simp_all
  show ?case
  proof (cases "right_s z = SNull")
    case True
    with right.prems z show ?thesis unfolding splay_loop_right [OF right(1-3)] by auto
  next
    case False
    with right.IH right.prems io show ?thesis unfolding splay_loop_right [OF right(1-3)] by simp
  qed
qed

context compare_preorder
begin

lemma splay_bst_sorted: "splay_bst cmp t \<longleftrightarrow> sorted_wrt (\<lambda>x y. cmp x y < 0) (splay_inorder t)"
  by (induction t) (auto simp: sorted_wrt_append intro: cmp_lt_trans)

lemma splay_zig_bst:
  "splay_bst cmp (splay_zigLeft cmp key t) = splay_bst cmp t"
  "splay_bst cmp (splay_zigRight cmp key t) = splay_bst cmp t"
  by (simp_all add: splay_bst_sorted)

lemma splay_zigLeft_key:
  "splay_bst cmp t \<Longrightarrow> t \<noteq> SNull \<Longrightarrow> cmp key (key_s t) < 0
   \<Longrightarrow> cmp key (key_s (splay_zigLeft cmp key t)) < 0"
  by (cases "(cmp, key, t)" rule: splay_zigLeft.cases) auto

lemma splay_zigRight_key:
  "splay_bst cmp t \<Longrightarrow> t \<noteq> SNull \<Longrightarrow> cmp key (key_s t) > 0
   \<Longrightarrow> cmp key (key_s (splay_zigRight cmp key t)) > 0"
  by (cases "(cmp, key, t)" rule: splay_zigRight.cases) auto

text \<open>
  On a search tree the loop ends with all smaller keys on its left chain and in the left subtree
  of the last root, and all larger ones on the right.
\<close>

lemma splay_loop_split:
  assumes "splay_loop cmp key root l r = (root', l', r')" "root \<noteq> SNull" "splay_bst cmp root"
    "\<forall>x \<in> set (chainL l). cmp x key < 0" "\<forall>x \<in> set (chainR r). cmp key x < 0"
  shows "(\<forall>x \<in> set (chainL l') \<union> splay_set (left_s root'). cmp x key < 0)
    \<and> (\<forall>x \<in> set (chainR r') \<union> splay_set (right_s root'). cmp key x < 0)"
  using assms
proof (induction root l r rule: splay_loop_induct [where cmp = cmp and key = key])
  case (stop root l r)
  then obtain a b k where "root = SNode a b k" "cmp key k = 0" by (cases root) auto
  with stop.prems show ?case
    by (auto simp: splay_loop_stop) (metis cmp_lt_le_trans cmp_zero_sym order_refl, metis cmp_le_lt_trans order_refl)
next
  case (left root l r z)
  then have k: "cmp key (key_s z) < 0" and "z \<noteq> SNull" "splay_bst cmp z"
    using splay_zigLeft_key [of root key] splay_zig_bst by simp_all
  then obtain a b k where z: "z = SNode a b k" by (cases z) auto
  have "\<forall>x \<in> splay_set b. cmp key x < 0"
    using \<open>splay_bst cmp z\<close> k z by (auto intro: cmp_lt_trans)
  with left.IH left.prems \<open>splay_bst cmp z\<close> k z show ?case
    unfolding splay_loop_left [OF left(1-3)] by (auto split: if_splits)
next
  case (right root l r z)
  then have "cmp key (key_s z) > 0" and "z \<noteq> SNull" "splay_bst cmp z"
    using splay_zigRight_key [of root key] splay_zig_bst by simp_all
  moreover obtain a b k where z: "z = SNode a b k" using \<open>z \<noteq> SNull\<close> by (cases z) auto
  ultimately have k: "cmp k key < 0" by (simp add: cmp_flip)
  have "\<forall>x \<in> splay_set a. cmp x key < 0"
    using \<open>splay_bst cmp z\<close> k z by (auto intro: cmp_lt_trans)
  with right.IH right.prems \<open>splay_bst cmp z\<close> k z show ?case
    unfolding splay_loop_right [OF right(1-3)] by (auto split: if_splits)
qed

end

section \<open>Splaying\<close>

lemma splay_splayNode_inorder: "splay_inorder (splay_splayNode cmp root key) = splay_inorder root"
proof (cases "root = SNull \<or> key = None")
  case False
  then obtain ky where ky: "key = Some ky" "root \<noteq> SNull" by auto
  obtain root' l' r' where loop: "splay_loop cmp ky root [] [] = (root', l', r')"
    by (cases "splay_loop cmp ky root [] []")
  from splay_loop_inorder [OF this] ky splay_node_inorder [of root']
  have "chainL l' @ (splay_inorder (left_s root') @ key_s root' # splay_inorder (right_s root')) @ chainR r'
      = splay_inorder root" by simp
  then show ?thesis using ky loop by (simp add: splay_splayNode_def)
qed (auto simp: splay_splayNode_def split: option.splits)

lemma splay_splayNode_Null [simp]: "splay_splayNode cmp root key = SNull \<longleftrightarrow> root = SNull"
  by (metis splay_inorder_Nil splay_splayNode_inorder)

context compare_preorder
begin

lemma splay_splayNode_bst [simp]: "splay_bst cmp (splay_splayNode cmp root key) = splay_bst cmp root"
  by (simp add: splay_bst_sorted splay_splayNode_inorder)

lemma splay_splayNode_split:
  assumes "root \<noteq> SNull" "splay_bst cmp root"
  obtains l r k where "splay_splayNode cmp root (Some key) = SNode l r k"
    "\<forall>x \<in> splay_set l. cmp x key < 0" "\<forall>x \<in> splay_set r. cmp key x < 0"
proof -
  obtain root' l' r' where loop: "splay_loop cmp key root [] [] = (root', l', r')"
    by (cases "splay_loop cmp key root [] []")
  from splay_loop_split [OF this assms] assms(1) loop that show thesis
    by (simp add: splay_splayNode_def ball_Un)
qed

text \<open>A key that is present becomes the root.\<close>

lemma splay_splayNode_root:
  assumes "splay_bst cmp root" "x \<in> splay_set root" "cmp x key = 0"
  shows "cmp (key_s (splay_splayNode cmp root (Some key))) key = 0"
proof -
  have "root \<noteq> SNull" using assms(2) by auto
  then obtain l r k where *: "splay_splayNode cmp root (Some key) = SNode l r k"
    "\<forall>x \<in> splay_set l. cmp x key < 0" "\<forall>x \<in> splay_set r. cmp key x < 0"
    using splay_splayNode_split [of root key] assms(1) by auto
  have "x \<in> splay_set (SNode l r k)"
    using assms(2) splay_splayNode_inorder [of cmp root "Some key"] * by simp
  with * assms(3) cmp_zero_sym [of x key] show ?thesis by fastforce
qed

lemma splay_insertNode_bst:
  assumes "splay_bst cmp t"
  shows "splay_bst cmp (splay_insertNode cmp t (SNode SNull SNull key))
    \<and> splay_set (splay_insertNode cmp t (SNode SNull SNull key)) =
        (if \<exists>x \<in> splay_set t. cmp key x = 0 then splay_set t else insert key (splay_set t))"
  using assms
proof (induction t)
  case (SNode l r k)
  have r: "cmp key x \<noteq> 0" if "cmp key k < 0" "x \<in> splay_set r" for x
    using that SNode.prems cmp_lt_trans [of key k x] by fastforce
  have l: "cmp key x \<noteq> 0" if "cmp key k > 0" "x \<in> splay_set l" for x
    using that SNode.prems cmp_lt_trans [of x k key] cmp_flip [of k key] cmp_flip [of x key]
    by fastforce
  have f: "cmp k key < 0" if "cmp key k > 0" using that cmp_flip by simp
  consider "cmp key k < 0" | "cmp key k = 0" | "cmp key k > 0" by linarith
  then show ?case
    using SNode l r f by cases (auto split: if_splits)
qed simp

lemma splay_searchNode_iff:
  assumes "splay_bst cmp t"
  shows "splay_searchNode cmp t key \<noteq> SNull \<longleftrightarrow> (\<exists>x \<in> splay_set t. cmp x key = 0)"
  using assms
proof (induction t)
  case (SNode l r k)
  have r: "cmp x key \<noteq> 0" if "cmp key k < 0" "x \<in> splay_set r" for x
    using that SNode.prems cmp_lt_trans [of key k x] cmp_zero_sym [of x key] by fastforce
  have l: "cmp x key \<noteq> 0" if "\<not> cmp key k < 0" "cmp k key \<noteq> 0" "x \<in> splay_set l" for x
    using that SNode.prems cmp_lt_trans [of x k key] cmp_flip [of key k] cmp_flip [of k key]
    by fastforce
  have "cmp k key \<noteq> 0" if "cmp key k < 0" using that cmp_zero_sym [of k key] by simp
  with r l SNode show ?case by auto
qed simp

end

context compare_linear
begin

lemma splay_insert_root_ok:
  assumes "splay_bst cmp t"
  shows "splay_bst cmp (splay_insert_root cmp t k) \<and> splay_set (splay_insert_root cmp t k) = insert k (splay_set t)
    \<and> key_s (splay_insert_root cmp t k) = k"
proof -
  let ?t = "splay_insertNode cmp t (SNode SNull SNull k)"
  have bst: "splay_bst cmp ?t" and st: "splay_set ?t = insert k (splay_set t)"
    using splay_insertNode_bst [OF assms, of k] by (auto simp: cmp_eq)
  then have "key_s (splay_splayNode cmp ?t (Some k)) = k"
    using splay_splayNode_root [OF bst, of k k] by (simp add: cmp_eq)
  with bst st show ?thesis
    by (simp add: splay_insert_root_def splay_createNode_def splay_splayNode_inorder)
qed

text \<open>Splaying the left subtree with the removed key leaves its root without a right child.\<close>

lemma splay_join:
  assumes "splay_bst cmp (SNode l r k)" "l \<noteq> SNull"
  obtains a x where "splay_splayNode cmp l (Some k) = SNode a SNull x"
proof -
  obtain a b x where *: "splay_splayNode cmp l (Some k) = SNode a b x"
    "\<forall>y \<in> splay_set b. cmp k y < 0"
    using splay_splayNode_split [of l k thesis] assms by simp
  have "splay_set l = splay_set a \<union> {x} \<union> splay_set b"
    using arg_cong [OF splay_splayNode_inorder [of cmp l "Some k"], of set] * by auto
  then have "\<forall>y \<in> splay_set b. cmp y k < 0" using assms(1) by auto
  then have "y \<notin> splay_set b" for y
    using *(2) cmp_flip [of y k] by force
  then have "b = SNull" by (cases b) auto
  with *(1) that show thesis by simp
qed

lemma splay_remove_root_inorder:
  assumes "splay_bst cmp t"
  shows "splay_inorder (splay_remove_root cmp t (Some k)) = filter (\<lambda>x. x \<noteq> k) (splay_inorder t)"
proof (cases "k \<in> splay_set t")
  case False
  then show ?thesis using splay_searchNode_iff [OF assms, of k]
    by (auto simp: splay_remove_root_def cmp_eq filter_neq_id)
next
  case True
  then have t: "t \<noteq> SNull" "splay_searchNode cmp t k \<noteq> SNull"
    using splay_searchNode_iff [OF assms, of k] by (auto simp: cmp_eq)
  then obtain l r where s: "splay_splayNode cmp t (Some k) = SNode l r k"
    using splay_splayNode_root [OF assms True, of k] by (cases "splay_splayNode cmp t (Some k)") (auto simp: cmp_eq)
  have io: "splay_inorder t = splay_inorder l @ k # splay_inorder r"
    using splay_splayNode_inorder [of cmp t "Some k"] s by simp
  have bst: "splay_bst cmp (SNode l r k)" using assms s splay_splayNode_bst by metis
  then have "k \<notin> splay_set l" "k \<notin> splay_set r" by force+
  then have f: "filter (\<lambda>x. x \<noteq> k) (splay_inorder t) = splay_inorder l @ splay_inorder r"
    by (simp add: io filter_neq_id)
  show ?thesis
  proof (cases "l = SNull")
    case True
    with t s f show ?thesis by (simp add: splay_remove_root_def)
  next
    case False
    from splay_join [OF bst this] obtain a x where j: "splay_splayNode cmp l (Some k) = SNode a SNull x" .
    with splay_splayNode_inorder [of cmp l "Some k"] have "splay_inorder l = splay_inorder a @ [x]" by simp
    with t s f j False show ?thesis by (simp add: splay_remove_root_def)
  qed
qed

lemma splay_remove_root_ok:
  assumes "splay_bst cmp t"
  shows "splay_bst cmp (splay_remove_root cmp t (Some k))
    \<and> splay_set (splay_remove_root cmp t (Some k)) = splay_set t - {k}"
  using assms by (auto simp: splay_bst_sorted splay_remove_root_inorder [OF assms] sorted_wrt_filter)

end

lemma splay_key_set:
  assumes "compare_linear cmp"
  shows "key_set (splay_create (Some cmp)) splay_insert (\<lambda>t k. splay_remove t (Some k))
    (\<lambda>t k. splay_search t (Some k) \<noteq> SNull) splay_elems (splay_ok cmp)"
proof -
  note pre = compare_linear.axioms(1) [OF assms]
  show ?thesis
    using compare_linear.splay_insert_root_ok [OF assms] compare_linear.splay_remove_root_ok [OF assms]
      compare_preorder.splay_searchNode_iff [OF pre]
    by unfold_locales
      (auto simp: splay_ok_def splay_elems_def splay_create_def splay_insert_def splay_remove_def
        splay_search_def compare_linear.cmp_eq [OF assms] split: option.splits)
qed

interpretation splayset: key_set "splay_create (Some compareKey)" splay_insert
  "\<lambda>t k. splay_remove t (Some k)" "\<lambda>t k. splay_search t (Some k) \<noteq> SNull" splay_elems
  "splay_ok compareKey"
  by (rule splay_key_set) unfold_locales

section \<open>Properties\<close>

text \<open>
  C29: a splay tree that starts with \<open>create(compareKey)\<close> and goes through any sequence of \<open>insert\<close>
  and \<open>remove\<close> calls is a search tree with exactly the keys inserted and not removed since, and
  \<open>search\<close> finds exactly those.
\<close>

theorem splay_refines_set:
  "splay_ok compareKey (run_treeOps splay_insert (\<lambda>t k. splay_remove t (Some k))
      (splay_create (Some compareKey)) ops)
   \<and> (splay_search (run_treeOps splay_insert (\<lambda>t k. splay_remove t (Some k))
        (splay_create (Some compareKey)) ops) (Some k) \<noteq> SNull \<longleftrightarrow> k \<in> set_treeOps {} ops)"
  using splayset.run_refines [OF splayset.empty_spec(1), of ops] splayset.found_after_run by blast

text \<open>
  For every callback that orders the keys linearly, \<open>splay\<close> keeps the in-order sequence of
  a search tree, brings a key that is present to the root, and splits the other keys into the
  smaller ones on the left of the root and the larger ones on the right.
\<close>

theorem splay_splayNode_correct:
  assumes "compare_linear cmp" "splay_bst cmp t" "key \<in> splay_set t"
  shows "splay_inorder (splay_splayNode cmp t (Some key)) = splay_inorder t
    \<and> key_s (splay_splayNode cmp t (Some key)) = key
    \<and> splay_set (left_s (splay_splayNode cmp t (Some key))) = {x \<in> splay_set t. cmp x key < 0}
    \<and> splay_set (right_s (splay_splayNode cmp t (Some key))) = {x \<in> splay_set t. cmp key x < 0}"
proof -
  note pre = compare_linear.axioms(1) [OF assms(1)]
  let ?s = "splay_splayNode cmp t (Some key)"
  have io: "splay_inorder ?s = splay_inorder t" by (rule splay_splayNode_inorder)
  have root: "key_s ?s = key"
    using compare_preorder.splay_splayNode_root [OF pre assms(2,3), of key]
      compare_linear.cmp_eq [OF assms(1)] by simp
  obtain l r where s: "?s = SNode l r key" using root io assms(3) by (cases ?s) auto
  have "splay_bst cmp ?s" using compare_preorder.splay_splayNode_bst [OF pre] assms(2) by simp
  then have "\<forall>x \<in> splay_set l. cmp x key < 0" "\<forall>x \<in> splay_set r. cmp key x < 0" using s by auto
  moreover have "splay_set t = splay_set l \<union> {key} \<union> splay_set r" using io s by (metis Un_insert_right set_append splay_inorder.simps(2) list.set(2) sup_bot_right Un_insert_left)
  ultimately show ?thesis using io root s compare_preorder.cmp_flip [OF pre]
      compare_preorder.cmp_refl [OF pre] by (auto; fastforce)
qed

theorem splay_splayNode_correct_witness:
  "key_s (splay_splayNode compareKey (SNode (SNode SNull SNull 1) (SNode SNull SNull 3) 2) (Some 3)) = 3"
  using splay_splayNode_correct [OF ck.compare_linear_axioms,
    of "SNode (SNode SNull SNull 1) (SNode SNull SNull 3) 2" 3]
  by (simp add: compareKey_def)

end
