(* ===== verification/DS_Tree_BS.thy ===== *)
theory DS_Tree_BS
  imports DS_Tree_Spec
begin

text \<open>
  The binary search tree of \<open>src/data_structure/source/tree.cpp\<close>, namespace \<open>bs\<close>.

  The code walks from a node to its parent, so a node pointer is modelled as the path from the
  root to the node (\<open>y->parent\<close> is the path without its last step, and \<open>y->parent->left == y\<close>
  asks for that step); the \<open>parent\<close> fields that the code maintains are the prefixes of the paths.
  Subtrees are trees, \<open>BNull\<close> for \<open>nullptr\<close>. Keys passed to \<open>insert\<close> are not null, and
  allocation succeeds.
\<close>

section \<open>State and operations\<close>

datatype 'k bsNode = BNull | BNode (left_b: "'k bsNode") (right_b: "'k bsNode") (key_b: 'k)

record 'k bsTree =
  root_b :: "'k bsNode"
  compare_b :: "'k compare"

datatype dir = DLeft | DRight

type_synonym path = "dir list"

fun bs_at :: "'k bsNode \<Rightarrow> path \<Rightarrow> 'k bsNode" where
  "bs_at t [] = t"
| "bs_at BNull (d # p) = BNull"
| "bs_at (BNode l r k) (DLeft # p) = bs_at l p"
| "bs_at (BNode l r k) (DRight # p) = bs_at r p"

text \<open>The pointer at path \<open>p\<close> is overwritten by \<open>x\<close>.\<close>

fun bs_put :: "'k bsNode \<Rightarrow> path \<Rightarrow> 'k bsNode \<Rightarrow> 'k bsNode" where
  "bs_put t [] x = x"
| "bs_put BNull (d # p) x = BNull"
| "bs_put (BNode l r k) (DLeft # p) x = BNode (bs_put l p x) r k"
| "bs_put (BNode l r k) (DRight # p) x = BNode l (bs_put r p x) k"

text \<open>\<open>node->key = key\<close>\<close>

definition bs_setKey :: "'k bsNode \<Rightarrow> path \<Rightarrow> 'k \<Rightarrow> 'k bsNode" where
  "bs_setKey t p key = bs_put t p (BNode (left_b (bs_at t p)) (right_b (bs_at t p)) key)"

text \<open>The walk of \<open>getMinimum\<close> along the left links, and of \<open>getMaximum\<close> along the right ones.\<close>

fun bs_minPath :: "'k bsNode \<Rightarrow> path" where
  "bs_minPath BNull = []"
| "bs_minPath (BNode l r k) = (if l \<noteq> BNull then DLeft # bs_minPath l else [])"

fun bs_maxPath :: "'k bsNode \<Rightarrow> path" where
  "bs_maxPath BNull = []"
| "bs_maxPath (BNode l r k) = (if r \<noteq> BNull then DRight # bs_maxPath r else [])"

definition bs_getMinimum :: "'k bsNode \<Rightarrow> path \<Rightarrow> path option" where
  "bs_getMinimum t p = (if bs_at t p = BNull then None else Some (p @ bs_minPath (bs_at t p)))"

definition bs_getMaximum :: "'k bsNode \<Rightarrow> path \<Rightarrow> path option" where
  "bs_getMaximum t p = (if bs_at t p = BNull then None else Some (p @ bs_maxPath (bs_at t p)))"

text \<open>
  The loops that climb to the first ancestor reached over a link of the other side; the
  argument is the path with its last step first.
\<close>

fun bs_climbPred :: "path \<Rightarrow> path option" where
  "bs_climbPred [] = None"
| "bs_climbPred (DLeft # q) = bs_climbPred q"
| "bs_climbPred (DRight # q) = Some (rev q)"

fun bs_climbSucc :: "path \<Rightarrow> path option" where
  "bs_climbSucc [] = None"
| "bs_climbSucc (DRight # q) = bs_climbSucc q"
| "bs_climbSucc (DLeft # q) = Some (rev q)"

definition bs_getPredecessor :: "'k bsNode \<Rightarrow> path \<Rightarrow> path option" where
  "bs_getPredecessor t p =
     (if bs_at t p = BNull then None
      else if left_b (bs_at t p) \<noteq> BNull then bs_getMaximum t (p @ [DLeft])
      else bs_climbPred (rev p))"

definition bs_getSuccessor :: "'k bsNode \<Rightarrow> path \<Rightarrow> path option" where
  "bs_getSuccessor t p =
     (if bs_at t p = BNull then None
      else if right_b (bs_at t p) \<noteq> BNull then bs_getMinimum t (p @ [DRight])
      else bs_climbSucc (rev p))"

definition bs_createNode :: "'k \<Rightarrow> 'k bsNode \<Rightarrow> 'k bsNode \<Rightarrow> 'k bsNode" where
  "bs_createNode key l r = BNode l r key"

fun bs_insertNode :: "'k compare \<Rightarrow> 'k bsNode \<Rightarrow> 'k bsNode \<Rightarrow> 'k bsNode" where
  "bs_insertNode cmp BNull node = node"
| "bs_insertNode cmp (BNode l r k) node =
     (if node = BNull then BNode l r k
      else if cmp (key_b node) k < 0 then BNode (bs_insertNode cmp l node) r k
      else BNode l (bs_insertNode cmp r node) k)"

definition bs_removeNode :: "'k bsNode \<Rightarrow> path option \<Rightarrow> 'k bsNode" where
  "bs_removeNode root node =
     (case node of
        None \<Rightarrow> root
      | Some p \<Rightarrow>
          (case (if left_b (bs_at root p) = BNull \<or> right_b (bs_at root p) = BNull then Some p
                 else bs_getSuccessor root p) of
             None \<Rightarrow> root
           | Some y \<Rightarrow>
               (let ky = key_b (bs_at root y);
                    x = (if left_b (bs_at root y) \<noteq> BNull then left_b (bs_at root y)
                         else right_b (bs_at root y));
                    root = bs_put root y x
                in if y \<noteq> p then bs_setKey root p ky else root)))"

fun bs_searchNode :: "'k compare \<Rightarrow> 'k bsNode \<Rightarrow> 'k \<Rightarrow> path option" where
  "bs_searchNode cmp BNull key = None"
| "bs_searchNode cmp (BNode l r k) key =
     (if cmp k key = 0 then Some []
      else if cmp key k < 0 then map_option (Cons DLeft) (bs_searchNode cmp l key)
      else map_option (Cons DRight) (bs_searchNode cmp r key))"

definition bs_minimum :: "'k bsTree option \<Rightarrow> path option" where
  "bs_minimum tree = (case tree of None \<Rightarrow> None | Some t \<Rightarrow> bs_getMinimum (root_b t) [])"

definition bs_maximum :: "'k bsTree option \<Rightarrow> path option" where
  "bs_maximum tree = (case tree of None \<Rightarrow> None | Some t \<Rightarrow> bs_getMaximum (root_b t) [])"

definition bs_create :: "'k compare option \<Rightarrow> 'k bsTree option" where
  "bs_create cmp =
     (case cmp of None \<Rightarrow> None | Some c \<Rightarrow> Some \<lparr>root_b = BNull, compare_b = c\<rparr>)"

definition bs_search :: "'k bsTree option \<Rightarrow> 'k option \<Rightarrow> path option" where
  "bs_search tree key =
     (case (tree, key) of
        (Some t, Some k) \<Rightarrow> bs_searchNode (compare_b t) (root_b t) k
      | _ \<Rightarrow> None)"

definition bs_insert :: "'k bsTree option \<Rightarrow> 'k \<Rightarrow> 'k bsTree option" where
  "bs_insert tree key =
     map_option (\<lambda>t. t\<lparr>root_b := bs_insertNode (compare_b t) (root_b t)
                         (bs_createNode key BNull BNull)\<rparr>) tree"

definition bs_remove :: "'k bsTree option \<Rightarrow> 'k option \<Rightarrow> 'k bsTree option" where
  "bs_remove tree key =
     map_option (\<lambda>t.
       case bs_search tree key of
         None \<Rightarrow> t
       | Some z \<Rightarrow> t\<lparr>root_b := bs_removeNode (root_b t) (Some z)\<rparr>) tree"

section \<open>Specification vocabulary\<close>

fun bs_inorder :: "'k bsNode \<Rightarrow> 'k list" where
  "bs_inorder BNull = []"
| "bs_inorder (BNode l r k) = bs_inorder l @ k # bs_inorder r"

text \<open>The keys in front of and behind a subtree, and in front of and behind a node.\<close>

fun bs_outL :: "'k bsNode \<Rightarrow> path \<Rightarrow> 'k list" where
  "bs_outL t [] = []"
| "bs_outL BNull (d # p) = []"
| "bs_outL (BNode l r k) (DLeft # p) = bs_outL l p"
| "bs_outL (BNode l r k) (DRight # p) = bs_inorder l @ k # bs_outL r p"

fun bs_outR :: "'k bsNode \<Rightarrow> path \<Rightarrow> 'k list" where
  "bs_outR t [] = []"
| "bs_outR BNull (d # p) = []"
| "bs_outR (BNode l r k) (DLeft # p) = bs_outR l p @ k # bs_inorder r"
| "bs_outR (BNode l r k) (DRight # p) = bs_outR r p"

definition bs_before :: "'k bsNode \<Rightarrow> path \<Rightarrow> 'k list" where
  "bs_before t p = bs_outL t p @ bs_inorder (left_b (bs_at t p))"

definition bs_after :: "'k bsNode \<Rightarrow> path \<Rightarrow> 'k list" where
  "bs_after t p = bs_inorder (right_b (bs_at t p)) @ bs_outR t p"

definition bs_ok :: "'k compare \<Rightarrow> 'k bsTree option \<Rightarrow> bool" where
  "bs_ok cmp tree =
     (case tree of None \<Rightarrow> False
      | Some t \<Rightarrow> compare_b t = cmp \<and> sorted_wrt (\<lambda>x y. cmp x y \<le> 0) (bs_inorder (root_b t)))"

definition bs_bag :: "'k bsTree option \<Rightarrow> 'k multiset" where
  "bs_bag tree = (case tree of None \<Rightarrow> {#} | Some t \<Rightarrow> mset (bs_inorder (root_b t)))"

section \<open>Paths\<close>

lemma bs_BNull [simp]: "bs_at BNull p = BNull" "bs_outL BNull p = []" "bs_outR BNull p = []"
  by (cases p; simp)+

lemma bs_at_append [simp]: "bs_at t (p @ q) = bs_at (bs_at t p) q"
  by (induction t p rule: bs_at.induct) auto

lemma bs_put_append: "bs_put t (p @ q) x = bs_put t p (bs_put (bs_at t p) q x)"
  by (induction t p x rule: bs_put.induct) auto

lemma bs_at_put [simp]: "bs_at t p \<noteq> BNull \<Longrightarrow> bs_at (bs_put t p x) p = x"
  by (induction t p x rule: bs_put.induct) auto

lemma bs_put_put [simp]: "bs_put (bs_put t p x) p y = bs_put t p y"
  by (induction t p x rule: bs_put.induct) auto

lemma bs_put_inorder:
  "bs_at t p \<noteq> BNull \<Longrightarrow> bs_inorder (bs_put t p x) = bs_outL t p @ bs_inorder x @ bs_outR t p"
  by (induction t p x rule: bs_put.induct) auto

lemma bs_at_inorder:
  "bs_inorder t = bs_outL t p @ bs_inorder (bs_at t p) @ bs_outR t p" if "bs_at t p \<noteq> BNull"
  using that by (induction t p rule: bs_at.induct) auto

text \<open>The node at a path splits the in-order sequence.\<close>

lemma bs_inorder_split:
  assumes "bs_at t p \<noteq> BNull"
  shows "bs_inorder t = bs_before t p @ key_b (bs_at t p) # bs_after t p"
  using bs_at_inorder [OF assms] assms by (cases "bs_at t p") (auto simp: bs_before_def bs_after_def)

lemma bs_outR_append: "bs_outR t (p @ q) = bs_outR (bs_at t p) q @ bs_outR t p"
  by (induction t p rule: bs_at.induct) auto

lemma bs_outL_append: "bs_outL t (p @ q) = bs_outL t p @ bs_outL (bs_at t p) q"
  by (induction t p rule: bs_at.induct) auto

lemma bs_minPath_spec:
  assumes "t \<noteq> BNull"
  shows "bs_at t (bs_minPath t) \<noteq> BNull \<and> left_b (bs_at t (bs_minPath t)) = BNull
    \<and> bs_outL t (bs_minPath t) = []"
  using assms by (induction t) auto

lemma bs_maxPath_spec:
  assumes "t \<noteq> BNull"
  shows "bs_at t (bs_maxPath t) \<noteq> BNull \<and> right_b (bs_at t (bs_maxPath t)) = BNull
    \<and> bs_outR t (bs_maxPath t) = []"
  using assms by (induction t) auto

lemma bs_at_prefix: "bs_at t (p @ q) \<noteq> BNull \<Longrightarrow> bs_at t p \<noteq> BNull"
  by (induction t p rule: bs_at.induct) auto

section \<open>Successor and predecessor\<close>

lemma bs_climbSucc_spec:
  assumes "bs_at t (rev q) \<noteq> BNull"
  shows "case bs_climbSucc q of
      None \<Rightarrow> bs_outR t (rev q) = []
    | Some s \<Rightarrow> bs_at t s \<noteq> BNull \<and> bs_outR t (rev q) = key_b (bs_at t s) # bs_after t s"
  using assms
proof (induction q rule: bs_climbSucc.induct)
  case (2 q)
  then have "bs_at t (rev q) \<noteq> BNull" using bs_at_prefix [of t "rev q" "[DRight]"] by simp
  with 2 show ?case by (cases "bs_at t (rev q)") (auto simp: bs_outR_append split: option.splits)
next
  case (3 q)
  then have "bs_at t (rev q) \<noteq> BNull" using bs_at_prefix [of t "rev q" "[DLeft]"] by simp
  with 3 show ?case by (cases "bs_at t (rev q)") (auto simp: bs_outR_append bs_after_def)
qed simp

lemma bs_climbPred_spec:
  assumes "bs_at t (rev q) \<noteq> BNull"
  shows "case bs_climbPred q of
      None \<Rightarrow> bs_outL t (rev q) = []
    | Some s \<Rightarrow> bs_at t s \<noteq> BNull \<and> bs_outL t (rev q) = bs_before t s @ [key_b (bs_at t s)]"
  using assms
proof (induction q rule: bs_climbPred.induct)
  case (2 q)
  then have "bs_at t (rev q) \<noteq> BNull" using bs_at_prefix [of t "rev q" "[DLeft]"] by simp
  with 2 show ?case by (cases "bs_at t (rev q)") (auto simp: bs_outL_append split: option.splits)
next
  case (3 q)
  then have "bs_at t (rev q) \<noteq> BNull" using bs_at_prefix [of t "rev q" "[DRight]"] by simp
  with 3 show ?case by (cases "bs_at t (rev q)") (auto simp: bs_outL_append bs_before_def)
qed simp

lemma bs_getMinimum_spec:
  assumes "bs_at t p \<noteq> BNull" "bs_getMinimum t p = Some q"
  shows "bs_at t q \<noteq> BNull"
    "bs_inorder (bs_at t p) @ bs_outR t p = key_b (bs_at t q) # bs_after t q"
proof -
  let ?s = "bs_at t p"
  have q: "q = p @ bs_minPath ?s" using assms by (simp add: bs_getMinimum_def)
  note m = bs_minPath_spec [OF assms(1)]
  show "bs_at t q \<noteq> BNull" using m q by simp
  show "bs_inorder ?s @ bs_outR t p = key_b (bs_at t q) # bs_after t q"
    using bs_inorder_split [of ?s "bs_minPath ?s"] m q
    by (simp add: bs_after_def bs_before_def bs_outR_append)
qed

lemma bs_getMaximum_spec:
  assumes "bs_at t p \<noteq> BNull" "bs_getMaximum t p = Some q"
  shows "bs_at t q \<noteq> BNull"
    "bs_outL t p @ bs_inorder (bs_at t p) = bs_before t q @ [key_b (bs_at t q)]"
proof -
  let ?s = "bs_at t p"
  have q: "q = p @ bs_maxPath ?s" using assms by (simp add: bs_getMaximum_def)
  note m = bs_maxPath_spec [OF assms(1)]
  show "bs_at t q \<noteq> BNull" using m q by simp
  show "bs_outL t p @ bs_inorder ?s = bs_before t q @ [key_b (bs_at t q)]"
    using bs_inorder_split [of ?s "bs_maxPath ?s"] m q
    by (simp add: bs_after_def bs_before_def bs_outL_append)
qed

lemma bs_getSuccessor_spec:
  assumes "bs_at t p \<noteq> BNull"
  shows "case bs_getSuccessor t p of
      None \<Rightarrow> bs_after t p = []
    | Some s \<Rightarrow> bs_at t s \<noteq> BNull \<and> bs_after t p = key_b (bs_at t s) # bs_after t s"
proof (cases "right_b (bs_at t p) = BNull")
  case True
  with bs_climbSucc_spec [of t "rev p"] assms show ?thesis
    by (auto simp: bs_getSuccessor_def bs_after_def split: option.splits)
next
  case False
  then have r: "bs_at t (p @ [DRight]) \<noteq> BNull" "bs_at t (p @ [DRight]) = right_b (bs_at t p)"
    using assms by (cases "bs_at t p"; simp)+
  have "bs_outR t (p @ [DRight]) = bs_outR t p"
    using assms by (cases "bs_at t p") (auto simp: bs_outR_append)
  with bs_getMinimum_spec [OF r(1)] r False assms show ?thesis
    by (auto simp: bs_getSuccessor_def bs_after_def bs_getMinimum_def)
qed

lemma bs_getPredecessor_spec:
  assumes "bs_at t p \<noteq> BNull"
  shows "case bs_getPredecessor t p of
      None \<Rightarrow> bs_before t p = []
    | Some s \<Rightarrow> bs_at t s \<noteq> BNull \<and> bs_before t p = bs_before t s @ [key_b (bs_at t s)]"
proof (cases "left_b (bs_at t p) = BNull")
  case True
  with bs_climbPred_spec [of t "rev p"] assms show ?thesis
    by (auto simp: bs_getPredecessor_def bs_before_def split: option.splits)
next
  case False
  then have l: "bs_at t (p @ [DLeft]) \<noteq> BNull" "bs_at t (p @ [DLeft]) = left_b (bs_at t p)"
    using assms by (cases "bs_at t p"; simp)+
  have "bs_outL t (p @ [DLeft]) = bs_outL t p"
    using assms by (cases "bs_at t p") (auto simp: bs_outL_append)
  with bs_getMaximum_spec [OF l(1)] l False assms show ?thesis
    by (auto simp: bs_getPredecessor_def bs_before_def bs_getMaximum_def)
qed

section \<open>Removal, insertion and search\<close>

lemma bs_removeNode_two:
  assumes "bs_at t p = BNode l r k" "l \<noteq> BNull" "r \<noteq> BNull"
  shows "bs_removeNode t (Some p) =
    bs_put t p (BNode l (bs_put r (bs_minPath r) (right_b (bs_at r (bs_minPath r))))
      (key_b (bs_at r (bs_minPath r))))"
proof -
  have "bs_getSuccessor t p = Some (p @ DRight # bs_minPath r)"
    using assms by (simp add: bs_getSuccessor_def bs_getMinimum_def)
  moreover have "left_b (bs_at r (bs_minPath r)) = BNull" using bs_minPath_spec [OF assms(3)] by simp
  ultimately show ?thesis
    using assms by (simp add: bs_removeNode_def Let_def bs_setKey_def bs_put_append)
qed

lemma bs_removeNode_inorder:
  assumes "bs_at t p \<noteq> BNull"
  shows "bs_inorder (bs_removeNode t (Some p)) = bs_before t p @ bs_after t p"
proof -
  obtain l r k where n: "bs_at t p = BNode l r k" using assms by (cases "bs_at t p") auto
  show ?thesis
  proof (cases "l = BNull \<or> r = BNull")
    case True
    then show ?thesis using n assms
      by (auto simp: bs_removeNode_def bs_put_inorder bs_before_def bs_after_def)
  next
    case False
    note m = bs_minPath_spec [of r]
    have "bs_inorder r = key_b (bs_at r (bs_minPath r))
        # bs_inorder (bs_put r (bs_minPath r) (right_b (bs_at r (bs_minPath r))))"
      using m False bs_inorder_split [of r "bs_minPath r"]
      by (simp add: bs_put_inorder bs_before_def bs_after_def)
    with False n assms show ?thesis
      by (simp add: bs_removeNode_two bs_put_inorder bs_before_def bs_after_def)
  qed
qed

context compare_preorder
begin

lemma bs_insertNode_inorder:
  assumes "sorted_wrt (\<lambda>x y. cmp x y \<le> 0) (bs_inorder t)"
  shows "bs_inorder (bs_insertNode cmp t (BNode BNull BNull key)) =
    filter (\<lambda>x. cmp x key \<le> 0) (bs_inorder t) @ key # filter (\<lambda>x. cmp key x < 0) (bs_inorder t)"
  using assms
proof (induction t)
  case (BNode l r k)
  have s: "\<And>x. x \<in> set (bs_inorder l) \<Longrightarrow> cmp x k \<le> 0" "\<And>x. x \<in> set (bs_inorder r) \<Longrightarrow> cmp k x \<le> 0"
    using BNode.prems by (auto simp: sorted_wrt_append)
  show ?case
  proof (cases "cmp key k < 0")
    case True
    then have "cmp key x < 0" if "x \<in> set (bs_inorder r)" for x
      using cmp_lt_le_trans s(2) [OF that] by blast
    then have "filter (\<lambda>x. cmp x key \<le> 0) (bs_inorder r) = []"
      "filter (\<lambda>x. cmp key x < 0) (bs_inorder r) = bs_inorder r"
      using cmp_not_le by (auto simp: filter_empty_conv filter_id_conv)
    with True BNode cmp_not_le [of k key] show ?thesis by (simp add: sorted_wrt_append)
  next
    case False
    then have k: "cmp k key \<le> 0" using cmp_not_le [of k key] by simp
    then have "cmp x key \<le> 0" if "x \<in> set (bs_inorder l)" for x
      using cmp_le_trans s(1) [OF that] by blast
    then have "filter (\<lambda>x. cmp x key \<le> 0) (bs_inorder l) = bs_inorder l"
      "filter (\<lambda>x. cmp key x < 0) (bs_inorder l) = []"
      using cmp_not_le by (fastforce simp: filter_empty_conv filter_id_conv)+
    with False k BNode show ?thesis by (simp add: sorted_wrt_append)
  qed
qed simp

lemma bs_insertNode_ok:
  assumes "sorted_wrt (\<lambda>x y. cmp x y \<le> 0) (bs_inorder t)"
  shows "sorted_wrt (\<lambda>x y. cmp x y \<le> 0) (bs_inorder (bs_insertNode cmp t (BNode BNull BNull key)))"
    "mset (bs_inorder (bs_insertNode cmp t (BNode BNull BNull key))) = add_mset key (mset (bs_inorder t))"
proof -
  have "(\<lambda>x. cmp key x < 0) = (\<lambda>x. \<not> cmp x key \<le> 0)" using cmp_not_le by auto
  then show "mset (bs_inorder (bs_insertNode cmp t (BNode BNull BNull key))) = add_mset key (mset (bs_inorder t))"
    by (simp add: bs_insertNode_inorder [OF assms])
  have "cmp x y \<le> 0" if "cmp x key \<le> 0" "cmp key y < 0" for x y
    using that cmp_le_lt_trans [of x key y] by simp
  then show "sorted_wrt (\<lambda>x y. cmp x y \<le> 0) (bs_inorder (bs_insertNode cmp t (BNode BNull BNull key)))"
    using assms by (auto simp: bs_insertNode_inorder [OF assms] sorted_wrt_append sorted_wrt_filter)
qed

lemma bs_searchNode_spec:
  assumes "sorted_wrt (\<lambda>x y. cmp x y \<le> 0) (bs_inorder t)"
  shows "case bs_searchNode cmp t key of
      None \<Rightarrow> \<forall>x \<in> set (bs_inorder t). cmp x key \<noteq> 0
    | Some p \<Rightarrow> bs_at t p \<noteq> BNull \<and> cmp (key_b (bs_at t p)) key = 0"
  using assms
proof (induction t)
  case (BNode l r k)
  have s: "\<And>x. x \<in> set (bs_inorder l) \<Longrightarrow> cmp x k \<le> 0" "\<And>x. x \<in> set (bs_inorder r) \<Longrightarrow> cmp k x \<le> 0"
    using BNode.prems by (auto simp: sorted_wrt_append)
  have r: "cmp x key \<noteq> 0" if "cmp key k < 0" "x \<in> set (bs_inorder r)" for x
    using cmp_lt_le_trans [OF that(1) s(2) [OF that(2)]] cmp_zero_sym [of x key] by simp
  have l: "cmp x key \<noteq> 0" if "\<not> cmp key k < 0" "cmp k key \<noteq> 0" "x \<in> set (bs_inorder l)" for x
    using cmp_le_lt_trans [OF s(1) [OF that(3)], of key] that cmp_flip [of k key] cmp_flip [of key k]
    by linarith
  have z: "cmp k key \<noteq> 0" if "cmp key k < 0" using that cmp_zero_sym [of k key] by simp
  have IH: "case bs_searchNode cmp l key of
      None \<Rightarrow> \<forall>x \<in> set (bs_inorder l). cmp x key \<noteq> 0
    | Some p \<Rightarrow> bs_at l p \<noteq> BNull \<and> cmp (key_b (bs_at l p)) key = 0"
    "case bs_searchNode cmp r key of
      None \<Rightarrow> \<forall>x \<in> set (bs_inorder r). cmp x key \<noteq> 0
    | Some p \<Rightarrow> bs_at r p \<noteq> BNull \<and> cmp (key_b (bs_at r p)) key = 0"
    using BNode by (simp_all add: sorted_wrt_append)
  consider "cmp k key = 0" | "cmp key k < 0" "cmp k key \<noteq> 0" | "\<not> cmp key k < 0" "cmp k key \<noteq> 0"
    using z by blast
  then show ?case
  proof cases
    case 2
    with r IH(1) show ?thesis by (cases "bs_searchNode cmp l key") auto
  next
    case 3
    with l IH(2) show ?thesis by (cases "bs_searchNode cmp r key") auto
  qed simp
qed simp

end

context compare_linear
begin

lemma bs_insert_ok:
  assumes "bs_ok cmp tree"
  shows "bs_ok cmp (bs_insert tree k)" "bs_bag (bs_insert tree k) = add_mset k (bs_bag tree)"
  using assms bs_insertNode_ok
  by (auto simp: bs_ok_def bs_bag_def bs_insert_def bs_createNode_def split: option.splits)

lemma bs_search_ok:
  assumes "bs_ok cmp tree"
  shows "bs_search tree (Some k) \<noteq> None \<longleftrightarrow> k \<in># bs_bag tree"
proof -
  obtain t where t: "tree = Some t" "compare_b t = cmp" "sorted_wrt (\<lambda>x y. cmp x y \<le> 0) (bs_inorder (root_b t))"
    using assms by (auto simp: bs_ok_def split: option.splits)
  from bs_searchNode_spec [OF t(3), of k] t(1,2) show ?thesis
    by (auto simp: bs_search_def bs_bag_def cmp_eq bs_inorder_split split: option.splits)
qed

lemma bs_remove_ok:
  assumes "bs_ok cmp tree"
  shows "bs_ok cmp (bs_remove tree (Some k)) \<and> bs_bag (bs_remove tree (Some k)) = bs_bag tree - {#k#}"
proof -
  obtain t where t: "tree = Some t" "compare_b t = cmp" "sorted_wrt (\<lambda>x y. cmp x y \<le> 0) (bs_inorder (root_b t))"
    using assms by (auto simp: bs_ok_def split: option.splits)
  show ?thesis
  proof (cases "bs_searchNode cmp (root_b t) k")
    case None
    with bs_searchNode_spec [OF t(3), of k] have "k \<notin># bs_bag tree"
      using t(1) by (auto simp: bs_bag_def cmp_eq)
    with assms None t(1,2) show ?thesis by (simp add: bs_remove_def bs_search_def diff_single_trivial)
  next
    case (Some p)
    with bs_searchNode_spec [OF t(3), of k] have p: "bs_at (root_b t) p \<noteq> BNull" "key_b (bs_at (root_b t) p) = k"
      by (auto simp: cmp_eq)
    from bs_inorder_split [OF p(1)] bs_removeNode_inorder [OF p(1)] p(2) Some t
    show ?thesis by (simp add: bs_ok_def bs_bag_def bs_remove_def bs_search_def sorted_wrt_append)
  qed
qed

end

lemma bs_key_bag:
  assumes "compare_linear cmp"
  shows "key_bag (bs_create (Some cmp)) bs_insert (\<lambda>t k. bs_remove t (Some k))
    (\<lambda>t k. bs_search t (Some k) \<noteq> None) bs_bag (bs_ok cmp)"
proof unfold_locales
  show "bs_ok cmp (bs_create (Some cmp))" "bs_bag (bs_create (Some cmp)) = {#}"
    by (simp_all add: bs_ok_def bs_bag_def bs_create_def)
qed (use compare_linear.bs_insert_ok [OF assms] compare_linear.bs_remove_ok [OF assms]
    compare_linear.bs_search_ok [OF assms] in auto)

interpretation bsbag: key_bag "bs_create (Some compareKey)" bs_insert "\<lambda>t k. bs_remove t (Some k)"
  "\<lambda>t k. bs_search t (Some k) \<noteq> None" bs_bag "bs_ok compareKey"
  by (rule bs_key_bag) unfold_locales

section \<open>Properties\<close>


text \<open>
  At every node, \<open>getSuccessor\<close> returns the next node of the in-order sequence and null
  exactly at the last one, and \<open>getPredecessor\<close> the previous node and null exactly at the first.
\<close>

theorem bs_neighbours:
  assumes "bs_at t p \<noteq> BNull"
  shows "(case bs_getSuccessor t p of
       None \<Rightarrow> bs_after t p = []
     | Some s \<Rightarrow> bs_at t s \<noteq> BNull \<and> bs_after t p = key_b (bs_at t s) # bs_after t s
         \<and> bs_before t s = bs_before t p @ [key_b (bs_at t p)])
   \<and> (case bs_getPredecessor t p of
       None \<Rightarrow> bs_before t p = []
     | Some s \<Rightarrow> bs_at t s \<noteq> BNull \<and> bs_before t p = bs_before t s @ [key_b (bs_at t s)]
         \<and> bs_after t s = key_b (bs_at t p) # bs_after t p)"
proof -
  have S: "bs_before t s = bs_before t p @ [key_b (bs_at t p)]"
    if "bs_at t s \<noteq> BNull" "bs_after t p = key_b (bs_at t s) # bs_after t s" for s
    using bs_inorder_split [OF assms] bs_inorder_split [OF that(1)] that(2) by simp
  have P: "bs_after t s = key_b (bs_at t p) # bs_after t p"
    if "bs_at t s \<noteq> BNull" "bs_before t p = bs_before t s @ [key_b (bs_at t s)]" for s
    using bs_inorder_split [OF assms] bs_inorder_split [OF that(1)] that(2) by simp
  show ?thesis
  proof (rule conjI, goal_cases)
    case 1
    show ?case using bs_getSuccessor_spec [OF assms] S
      by (cases "bs_getSuccessor t p") (simp_all del: bs_at_append)
  next
    case 2
    show ?case using bs_getPredecessor_spec [OF assms] P
      by (cases "bs_getPredecessor t p") (simp_all del: bs_at_append)
  qed
qed

theorem bs_neighbours_witness:
  "bs_getSuccessor (BNode (BNode BNull (BNode BNull BNull (3::int)) 1) BNull 5) [DLeft, DRight] = Some []
   \<and> bs_after (BNode (BNode BNull (BNode BNull BNull (3::int)) 1) BNull 5) [DLeft, DRight] = [5]"
  using bs_neighbours [of "BNode (BNode BNull (BNode BNull BNull (3::int)) 1) BNull 5" "[DLeft, DRight]"]
  by (simp add: bs_getSuccessor_def bs_after_def)

text \<open>
  \<open>removeNode\<close> takes exactly the given node out of the in-order sequence of the tree,
  whatever the number of its children and whatever the order of the keys.
\<close>

theorem bs_removeNode_correct:
  assumes "bs_at t p \<noteq> BNull"
  shows "bs_inorder t = bs_before t p @ key_b (bs_at t p) # bs_after t p
    \<and> bs_inorder (bs_removeNode t (Some p)) = bs_before t p @ bs_after t p"
  using bs_inorder_split [OF assms] bs_removeNode_inorder [OF assms] by simp

theorem bs_removeNode_correct_witness:
  "bs_inorder (bs_removeNode (BNode (BNode BNull BNull 1) (BNode BNull BNull 3) (2::int)) (Some [])) = [1, 3]"
  using bs_removeNode_correct [of "BNode (BNode BNull BNull 1) (BNode BNull BNull 3) (2::int)" "[]"]
  by (simp add: bs_before_def bs_after_def)

end
