(* ===== verification/DS_Cache_Spec.thy ===== *)
theory DS_Cache_Spec
  imports Foo_Prelude
begin

text \<open>
  What the three caches of \<open>src/data_structure/include/cache.hpp\<close> share: the parts of the
  standard containers they use, the loops over ranges of keys, and the contract of a bounded
  key-value store that each replacement policy keeps.

  A node of a \<open>std::list\<close> is a number, the position it was constructed at; the list is the
  sequence of these numbers and a store holds what the nodes contain. A list with an iterator
  into it that marks the end of the part in use is the pair of the nodes in front of the
  iterator and the nodes from it on. An iterator into the hash map is its key. \<open>Value{}\<close> is a
  parameter \<open>dflt\<close>. An operation that would dereference an end iterator returns \<open>None\<close>.
\<close>

section \<open>Container operations\<close>

text \<open>\<open>std::unordered_map::emplace\<close> keeps an entry that is already there.\<close>

definition emplace :: "('k \<rightharpoonup> 'i) \<Rightarrow> 'k \<Rightarrow> 'i \<Rightarrow> ('k \<rightharpoonup> 'i)" where
  "emplace m k i = (if m k = None then m(k \<mapsto> i) else m)"

text \<open>\<open>std::multimap::emplace\<close> inserts behind the entries with the same key.\<close>

fun mm_emplace :: "nat \<Rightarrow> 'a \<Rightarrow> (nat \<times> 'a) list \<Rightarrow> (nat \<times> 'a) list" where
  "mm_emplace n x [] = [(n, x)]"
| "mm_emplace n x ((m, y) # ys) = (if m \<le> n then (m, y) # mm_emplace n x ys else (n, x) # (m, y) # ys)"

section \<open>Ranges\<close>

text \<open>\<open>insertRange\<close>, \<open>eraseRange\<close>, \<open>findRange\<close> and \<open>resolveRange\<close> over the operations on one key.\<close>

fun insertRange_with :: "('c \<Rightarrow> 'k \<Rightarrow> 'v \<Rightarrow> 'c option) \<Rightarrow> 'c \<Rightarrow> ('k \<times> 'v) list \<Rightarrow> (nat \<times> 'c) option" where
  "insertRange_with ins c [] = Some (0, c)"
| "insertRange_with ins c ((k, v) # kvs) =
     (case ins c k v of
        None \<Rightarrow> None
      | Some c \<Rightarrow> map_option (apfst Suc) (insertRange_with ins c kvs))"

fun eraseRange_with :: "('c \<Rightarrow> 'k \<Rightarrow> bool \<times> 'c) \<Rightarrow> 'c \<Rightarrow> 'k list \<Rightarrow> nat \<times> 'c" where
  "eraseRange_with del c [] = (0, c)"
| "eraseRange_with del c (k # ks) =
     (case del c k of
        (erased, c) \<Rightarrow> apfst (\<lambda>n. if erased then Suc n else n) (eraseRange_with del c ks))"

fun findRange_with :: "('c \<Rightarrow> 'k \<Rightarrow> 'v option \<times> 'c) \<Rightarrow> 'c \<Rightarrow> 'k list \<Rightarrow> ('k \<times> 'v option) list \<times> 'c" where
  "findRange_with fnd c [] = ([], c)"
| "findRange_with fnd c (k # ks) =
     (case fnd c k of (v, c) \<Rightarrow> apfst (Cons (k, v)) (findRange_with fnd c ks))"

fun resolveRange_with ::
  "('c \<Rightarrow> 'k \<Rightarrow> 'v option \<times> 'c) \<Rightarrow> 'c \<Rightarrow> ('k \<times> 'v option) list \<Rightarrow> ('k \<times> 'v option) list \<times> 'c" where
  "resolveRange_with fnd c [] = ([], c)"
| "resolveRange_with fnd c ((k, old) # kvs) =
     (case fnd c k of (v, c) \<Rightarrow> apfst (Cons (k, v)) (resolveRange_with fnd c kvs))"

section \<open>Sequences of operations\<close>

datatype ('k, 'v) cacheOp = CInsert 'k 'v | CErase 'k | CFind 'k

fun run_cacheOps ::
  "('c \<Rightarrow> 'k \<Rightarrow> 'v \<Rightarrow> 'c option) \<Rightarrow> ('c \<Rightarrow> 'k \<Rightarrow> bool \<times> 'c) \<Rightarrow> ('c \<Rightarrow> 'k \<Rightarrow> 'v option \<times> 'c)
    \<Rightarrow> 'c \<Rightarrow> ('k, 'v) cacheOp list \<Rightarrow> 'c option" where
  "run_cacheOps ins del fnd c [] = Some c"
| "run_cacheOps ins del fnd c (CInsert k v # ops) =
     (case ins c k v of None \<Rightarrow> None | Some c \<Rightarrow> run_cacheOps ins del fnd c ops)"
| "run_cacheOps ins del fnd c (CErase k # ops) = run_cacheOps ins del fnd (snd (del c k)) ops"
| "run_cacheOps ins del fnd c (CFind k # ops) = run_cacheOps ins del fnd (snd (fnd c k)) ops"

text \<open>The same operations on a map without a bound.\<close>

fun map_cacheOps :: "('k \<rightharpoonup> 'v) \<Rightarrow> ('k, 'v) cacheOp list \<Rightarrow> ('k \<rightharpoonup> 'v)" where
  "map_cacheOps m [] = m"
| "map_cacheOps m (CInsert k v # ops) = map_cacheOps (m(k \<mapsto> v)) ops"
| "map_cacheOps m (CErase k # ops) = map_cacheOps (m(k := None)) ops"
| "map_cacheOps m (CFind k # ops) = map_cacheOps m ops"

fun inserted_keys :: "('k, 'v) cacheOp list \<Rightarrow> 'k set" where
  "inserted_keys [] = {}"
| "inserted_keys (CInsert k v # ops) = insert k (inserted_keys ops)"
| "inserted_keys (CErase k # ops) = inserted_keys ops"
| "inserted_keys (CFind k # ops) = inserted_keys ops"

section \<open>The contract\<close>

locale bounded_cache =
  fixes cap :: nat
    and empty :: 'c
    and ins :: "'c \<Rightarrow> 'k \<Rightarrow> 'v \<Rightarrow> 'c option"
    and del :: "'c \<Rightarrow> 'k \<Rightarrow> bool \<times> 'c"
    and fnd :: "'c \<Rightarrow> 'k \<Rightarrow> 'v option \<times> 'c"
    and sz :: "'c \<Rightarrow> nat"
    and view :: "'c \<Rightarrow> ('k \<rightharpoonup> 'v)"
    and invar :: "'c \<Rightarrow> bool"
  assumes empty_spec: "invar empty" "view empty = Map.empty"
    and ins_spec: "invar c \<Longrightarrow> \<exists>c'. ins c k v = Some c' \<and> invar c' \<and> view c' k = Some v
          \<and> view c' \<subseteq>\<^sub>m (view c)(k \<mapsto> v)
          \<and> (k \<in> dom (view c) \<or> sz c < cap \<longrightarrow> view c' = (view c)(k \<mapsto> v))"
    and del_spec: "invar c \<Longrightarrow> invar (snd (del c k))"
      "invar c \<Longrightarrow> view (snd (del c k)) = (view c)(k := None)"
      "invar c \<Longrightarrow> fst (del c k) \<longleftrightarrow> k \<in> dom (view c)"
    and fnd_spec: "invar c \<Longrightarrow> invar (snd (fnd c k))"
      "invar c \<Longrightarrow> view (snd (fnd c k)) = view c" "invar c \<Longrightarrow> fst (fnd c k) = view c k"
    and sz_spec: "invar c \<Longrightarrow> finite (dom (view c)) \<and> sz c = card (dom (view c)) \<and> sz c \<le> cap"
begin

text \<open>No operation fails, and what the cache holds agrees with the unbounded map.\<close>

lemma run_coherent_from:
  assumes "invar c" "view c \<subseteq>\<^sub>m m"
  shows "\<exists>c'. run_cacheOps ins del fnd c ops = Some c' \<and> invar c' \<and> view c' \<subseteq>\<^sub>m map_cacheOps m ops"
  using assms
proof (induction ops arbitrary: c m)
  case (Cons op ops)
  show ?case
  proof (cases op)
    case (CInsert k v)
    obtain c' where c': "ins c k v = Some c'" "invar c'" "view c' \<subseteq>\<^sub>m (view c)(k \<mapsto> v)"
      using ins_spec [OF Cons.prems(1)] by blast
    have "view c' \<subseteq>\<^sub>m m(k \<mapsto> v)"
      by (rule map_le_trans [OF c'(3) map_le_upd [OF Cons.prems(2)]])
    from Cons.IH [OF c'(2) this] show ?thesis
      using CInsert c'(1) by (simp del: fun_upd_apply)
  next
    case (CErase k)
    have "view (snd (del c k)) \<subseteq>\<^sub>m m(k := None)"
      using Cons.prems by (auto simp: del_spec map_le_def)
    from Cons.IH [OF del_spec(1) this] CErase Cons.prems(1) show ?thesis
      by (simp del: fun_upd_apply)
  next
    case (CFind k)
    from Cons.IH [OF fnd_spec(1)] fnd_spec(2) CFind Cons.prems show ?thesis by simp
  qed
qed simp

lemma run_coherent:
  "\<exists>c'. run_cacheOps ins del fnd empty ops = Some c' \<and> invar c' \<and> view c' \<subseteq>\<^sub>m map_cacheOps Map.empty ops
     \<and> sz c' \<le> cap"
  using run_coherent_from [OF empty_spec(1), of Map.empty ops] sz_spec by (auto simp: empty_spec)

text \<open>Nothing is evicted while the keys fit.\<close>

lemma run_complete_from:
  assumes "invar c" "dom (view c) \<subseteq> K" "inserted_keys ops \<subseteq> K" "finite K" "card K \<le> cap"
  shows "\<exists>c'. run_cacheOps ins del fnd c ops = Some c' \<and> invar c' \<and> view c' = map_cacheOps (view c) ops"
  using assms
proof (induction ops arbitrary: c)
  case (Cons op ops)
  show ?case
  proof (cases op)
    case (CInsert k v)
    then have k: "k \<in> K" "inserted_keys ops \<subseteq> K" using Cons.prems(3) by auto
    have "k \<in> dom (view c) \<or> sz c < cap"
    proof (cases "k \<in> dom (view c)")
      case False
      then have "dom (view c) \<subset> K" using Cons.prems(2) k(1) by blast
      then have "card (dom (view c)) < card K" using Cons.prems(4) by (rule psubset_card_mono [rotated])
      then show ?thesis using sz_spec [OF Cons.prems(1)] Cons.prems(5) by simp
    qed simp
    then obtain c' where c': "ins c k v = Some c'" "invar c'" "view c' = (view c)(k \<mapsto> v)"
      using ins_spec [OF Cons.prems(1)] by blast
    have "dom (view c') \<subseteq> K" using c'(3) Cons.prems(2) k(1) by auto
    from Cons.IH [OF c'(2) this k(2) Cons.prems(4,5)] show ?thesis
      unfolding c'(3) CInsert by (simp add: c'(1) del: fun_upd_apply)
  next
    case (CErase k)
    have "dom (view (snd (del c k))) \<subseteq> K" using Cons.prems(1,2) by (auto simp: del_spec)
    from Cons.IH [OF del_spec(1) [OF Cons.prems(1)] this _ Cons.prems(4,5)] Cons.prems(3) show ?thesis
      unfolding CErase del_spec(2) [OF Cons.prems(1)] by (simp del: fun_upd_apply)
  next
    case (CFind k)
    from Cons.IH [OF fnd_spec(1)] fnd_spec(2) CFind Cons.prems show ?thesis by simp
  qed
qed simp

lemma inserted_keys_finite: "finite (inserted_keys ops)"
  by (induction ops rule: inserted_keys.induct) auto

lemma run_complete:
  assumes "card (inserted_keys ops) \<le> cap"
  shows "\<exists>c'. run_cacheOps ins del fnd empty ops = Some c' \<and> invar c' \<and> view c' = map_cacheOps Map.empty ops"
  using run_complete_from [OF empty_spec(1) _ order_refl inserted_keys_finite assms]
  by (simp add: empty_spec(2))

lemma findRange_spec:
  "invar c \<Longrightarrow> fst (findRange_with fnd c ks) = map (\<lambda>k. (k, view c k)) ks
    \<and> invar (snd (findRange_with fnd c ks)) \<and> view (snd (findRange_with fnd c ks)) = view c"
  by (induction ks arbitrary: c) (auto simp: case_prod_beta fnd_spec)

lemma resolveRange_spec:
  "invar c \<Longrightarrow> fst (resolveRange_with fnd c kvs) = map (\<lambda>(k, _). (k, view c k)) kvs
    \<and> invar (snd (resolveRange_with fnd c kvs)) \<and> view (snd (resolveRange_with fnd c kvs)) = view c"
  by (induction kvs arbitrary: c) (auto simp: case_prod_beta fnd_spec)

lemma eraseRange_spec:
  "invar c \<Longrightarrow> invar (snd (eraseRange_with del c ks))
    \<and> view (snd (eraseRange_with del c ks)) = view c |` (- set ks)
    \<and> fst (eraseRange_with del c ks) = card (set ks \<inter> dom (view c))"
proof (induction ks arbitrary: c)
  case (Cons k ks)
  have "(view c)(k := None) |` (- set ks) = view c |` (- set (k # ks))"
    by (auto simp: restrict_map_def)
  moreover have "card (set (k # ks) \<inter> dom (view c)) =
      (if k \<in> dom (view c) then Suc (card (set ks \<inter> dom ((view c)(k := None))))
       else card (set ks \<inter> dom ((view c)(k := None))))"
  proof (cases "k \<in> dom (view c)")
    case True
    have "set (k # ks) \<inter> dom (view c) = insert k (set ks \<inter> dom ((view c)(k := None)))"
      using True by auto
    with True show ?thesis by simp
  next
    case False
    then have "set (k # ks) \<inter> dom (view c) = set ks \<inter> dom ((view c)(k := None))" by auto
    with False show ?thesis by simp
  qed
  moreover note Cons.IH [OF del_spec(1) [OF Cons.prems], of k, unfolded del_spec(2) [OF Cons.prems]]
  ultimately show ?case
    by (simp add: case_prod_beta del_spec(3) [OF Cons.prems] del: fun_upd_apply restrict_fun_upd dom_fun_upd)
qed (simp add: restrict_map_def)

lemma insertRange_spec:
  "invar c \<Longrightarrow> \<exists>c'. insertRange_with ins c kvs = Some (length kvs, c') \<and> invar c'
     \<and> view c' \<subseteq>\<^sub>m view c ++ map_of (rev kvs)"
proof (induction kvs arbitrary: c)
  case (Cons kv kvs)
  obtain k v where kv: "kv = (k, v)" by (cases kv)
  obtain c1 where c1: "ins c k v = Some c1" "invar c1" "view c1 \<subseteq>\<^sub>m (view c)(k \<mapsto> v)"
    using ins_spec [OF Cons.prems] by blast
  from Cons.IH [OF c1(2)] obtain c2 where c2: "insertRange_with ins c1 kvs = Some (length kvs, c2)"
    "invar c2" "view c2 \<subseteq>\<^sub>m view c1 ++ map_of (rev kvs)" by blast
  have "view c1 ++ map_of (rev kvs) \<subseteq>\<^sub>m (view c)(k \<mapsto> v) ++ map_of (rev kvs)"
    using c1(3) unfolding map_le_def map_add_def by (auto split: option.splits) (metis domI fun_upd_apply option.inject)+
  then have "view c2 \<subseteq>\<^sub>m view c ++ map_of (rev ((k, v) # kvs))"
    using c2(3) map_le_trans by (force simp: map_add_assoc)
  with c1(1) c2 kv show ?case by simp
qed simp

end

section \<open>Keyed slots\<close>

text \<open>
  The slots in use, the keys stored in them and the hash map agree: every used slot has a key,
  and the hash map sends exactly these keys to their slots.
\<close>

definition slots_ok :: "(nat \<Rightarrow> 'k option) \<Rightarrow> nat list \<Rightarrow> ('k \<rightharpoonup> nat) \<Rightarrow> bool" where
  "slots_ok ky used keyed =
     (distinct used \<and> (\<forall>i \<in> set used. ky i \<noteq> None)
      \<and> (\<forall>k i. keyed k = Some i \<longleftrightarrow> i \<in> set used \<and> ky i = Some k))"

definition slots_view :: "(nat \<Rightarrow> 'k option) \<Rightarrow> (nat \<Rightarrow> 'v) \<Rightarrow> nat list \<Rightarrow> ('k \<times> 'v) list" where
  "slots_view ky vl used = map (\<lambda>i. (the (ky i), vl i)) used"

lemma slots_perm: "slots_ok ky used keyed \<Longrightarrow> set used' = set used \<Longrightarrow> distinct used' \<Longrightarrow> slots_ok ky used' keyed"
  by (simp add: slots_ok_def)

lemma slots_keyed: "slots_ok ky used keyed \<Longrightarrow> keyed k = Some i \<longleftrightarrow> i \<in> set used \<and> ky i = Some k"
  by (simp add: slots_ok_def)

lemma slots_key_some: "slots_ok ky used keyed \<Longrightarrow> i \<in> set used \<Longrightarrow> ky i \<noteq> None"
  by (simp add: slots_ok_def)

lemma slots_distinct: "slots_ok ky used keyed \<Longrightarrow> distinct used"
  by (simp add: slots_ok_def)

lemma slots_inj:
  assumes "slots_ok ky used keyed" "i \<in> set used" "j \<in> set used" "ky i = ky j"
  shows "i = j"
proof -
  obtain k where "ky i = Some k" using assms(1,2) by (auto simp: slots_ok_def)
  then have "keyed k = Some i" "keyed k = Some j" using assms slots_keyed [OF assms(1)] by simp_all
  then show ?thesis by simp
qed

lemma slots_distinct_keys: "slots_ok ky used keyed \<Longrightarrow> distinct (map fst (slots_view ky vl used))"
proof -
  assume ok: "slots_ok ky used keyed"
  have "inj_on (\<lambda>i. the (ky i)) (set used)"
  proof (rule inj_onI)
    fix i j
    assume *: "i \<in> set used" "j \<in> set used" "the (ky i) = the (ky j)"
    then have "ky i \<noteq> None" "ky j \<noteq> None" using ok by (simp_all add: slots_ok_def)
    with *(3) have "ky i = ky j" by auto
    with * show "i = j" using slots_inj [OF ok] by blast
  qed
  moreover have "map fst (slots_view ky vl used) = map (\<lambda>i. the (ky i)) used"
    by (simp add: slots_view_def)
  ultimately show ?thesis using ok by (simp add: distinct_map slots_ok_def)
qed

lemma slots_lookup:
  assumes "slots_ok ky used keyed"
  shows "map_of (slots_view ky vl used) k = map_option vl (keyed k)"
proof (cases "keyed k")
  case None
  have "k \<notin> fst ` set (slots_view ky vl used)"
  proof
    assume "k \<in> fst ` set (slots_view ky vl used)"
    then obtain i where "i \<in> set used" "k = the (ky i)" by (auto simp: slots_view_def)
    moreover from this have "ky i \<noteq> None" using assms by (simp add: slots_ok_def)
    ultimately show False using slots_keyed [OF assms, of k i] None by simp
  qed
  then show ?thesis using None by (simp add: map_of_eq_None_iff)
next
  case (Some i)
  then have "(k, vl i) \<in> set (slots_view ky vl used)"
    using slots_keyed [OF assms, of k i] by (force simp: slots_view_def)
  with Some slots_distinct_keys [OF assms, of vl] show ?thesis by simp
qed

lemma slots_remove:
  assumes "slots_ok ky used keyed" "keyed k = Some i"
  shows "slots_ok ky (remove1 i used) (keyed(k := None))"
proof -
  have i: "i \<in> set used" "ky i = Some k" using slots_keyed [OF assms(1)] assms(2) by simp_all
  have "ky j = Some k \<Longrightarrow> j = i" if "j \<in> set used" for j
    using slots_inj [OF assms(1) that i(1)] i(2) by simp
  then show ?thesis using assms(1) i(2) by (auto simp: slots_ok_def)
qed

lemma slots_view_remove:
  assumes "slots_ok ky used keyed" "keyed k = Some i"
  shows "slots_view ky vl (remove1 i used) = filter (\<lambda>(k', v). k' \<noteq> k) (slots_view ky vl used)"
proof -
  have i: "i \<in> set used" "ky i = Some k" using slots_keyed [OF assms(1)] assms(2) by simp_all
  have eq: "the (ky j) \<noteq> k \<longleftrightarrow> j \<noteq> i" if "j \<in> set used" for j
    using slots_inj [OF assms(1) that i(1)] i(2) assms(1) that by (force simp: slots_ok_def)
  have "distinct used" using assms(1) by (simp add: slots_ok_def)
  then have "remove1 i used = filter (\<lambda>j. the (ky j) \<noteq> k) used"
    using eq by (auto simp: distinct_remove1_removeAll removeAll_filter_not_eq intro!: filter_cong)
  then show ?thesis by (simp add: slots_view_def filter_map o_def)
qed

lemma slots_add:
  assumes "slots_ok ky used keyed" "i \<notin> set used" "keyed k = None" "set used' = insert i (set used)" "distinct used'"
  shows "slots_ok (ky(i := Some k)) used' (keyed(k \<mapsto> i))"
proof -
  have "ky j \<noteq> Some k" if "j \<in> set used" for j
    using slots_keyed [OF assms(1), of k j] assms(3) that by simp
  then show ?thesis using assms by (auto simp: slots_ok_def)
qed

lemma slots_keys_cong:
  assumes "\<And>i. i \<in> set used \<Longrightarrow> ky' i = ky i" "slots_ok ky used keyed"
  shows "slots_ok ky' used keyed"
  using assms by (auto simp: slots_ok_def)

section \<open>Association lists with distinct keys\<close>

lemma map_of_filter_key: "map_of (filter (\<lambda>(k', _). k' \<noteq> k) xs) = (map_of xs)(k := None)"
  by (induction xs) (auto simp: fun_eq_iff)

lemma filter_key_id: "map_of xs k = None \<Longrightarrow> filter (\<lambda>(k', _). k' \<noteq> k) xs = xs"
  by (auto simp: filter_id_conv map_of_eq_None_iff image_iff)

lemma map_of_take_le: "map_of (take n xs) \<subseteq>\<^sub>m map_of xs"
  by (metis append_take_drop_id map_le_map_add map_of_append)

lemma map_of_tl_le:
  assumes "distinct (map fst xs)"
  shows "map_of (tl xs) \<subseteq>\<^sub>m map_of xs"
proof (cases xs)
  case (Cons x ys)
  then have "fst x \<notin> dom (map_of ys)" using assms by (simp add: dom_map_of_conv_image_fst)
  then show ?thesis using Cons by (auto simp: map_le_def)
qed simp

lemma card_dom_map_of: "distinct (map fst xs) \<Longrightarrow> card (dom (map_of xs)) = length xs"
  by (metis distinct_card dom_map_of_conv_image_fst length_map list.set_map)

end
