(* ===== verification/DS_Cache_LRU.thy ===== *)
theory DS_Cache_LRU
  imports DS_Cache_Spec
begin

text \<open>
  The least-recently-used cache: class \<open>LRU\<close> of \<open>src/data_structure/include/cache.hpp\<close>.

  \<open>lruList\<close> with its iterator \<open>lruListEnd\<close> is the pair of \<open>lruUsed\<close> (the indices in front of
  the iterator) and \<open>lruFree\<close> (from the iterator on). A node of \<open>lruList\<close> holds an index that
  never changes and that no other node holds, so an iterator into it is that index.
\<close>

section \<open>State and operations\<close>

record ('k, 'v) lruElement =
  keyedPosition_r :: "'k option"
  lruPosition :: nat
  value_r :: 'v

record ('k, 'v) lru =
  elements_r :: "('k, 'v) lruElement list"
  lruUsed :: "nat list"
  lruFree :: "nat list"
  keyedElements_r :: "'k \<rightharpoonup> nat"
  usedSize_r :: nat

definition lru_create :: "'v \<Rightarrow> nat \<Rightarrow> ('k, 'v) lru" where
  "lru_create dflt cap =
     \<lparr>elements_r = replicate cap \<lparr>keyedPosition_r = None, lruPosition = 0, value_r = dflt\<rparr>,
      lruUsed = [], lruFree = [0..<cap], keyedElements_r = Map.empty, usedSize_r = 0\<rparr>"

definition lru_empty :: "('k, 'v) lru \<Rightarrow> bool" where
  "lru_empty c = (usedSize_r c = 0)"

definition lru_size :: "('k, 'v) lru \<Rightarrow> nat" where
  "lru_size c = usedSize_r c"

definition lru_capacity :: "('k, 'v) lru \<Rightarrow> nat" where
  "lru_capacity c = length (elements_r c)"

text \<open>\<open>lruList.splice(lruList.cbegin(), lruList, elem.lruPosition)\<close>\<close>

definition lru_doAccess :: "('k, 'v) lru \<Rightarrow> ('k, 'v) lruElement \<Rightarrow> ('k, 'v) lru" where
  "lru_doAccess c elem =
     c\<lparr>lruUsed := lruPosition elem # remove1 (lruPosition elem) (lruUsed c),
       lruFree := remove1 (lruPosition elem) (lruFree c)\<rparr>"

definition lru_doUpdate :: "('k, 'v) lru \<Rightarrow> nat \<Rightarrow> 'v \<Rightarrow> ('k, 'v) lru" where
  "lru_doUpdate c elemIdx v =
     (let elem = (elements_r c ! elemIdx)\<lparr>value_r := v\<rparr>
      in lru_doAccess (c\<lparr>elements_r := (elements_r c)[elemIdx := elem]\<rparr>) elem)"

definition lru_doErase :: "('k, 'v) lru \<Rightarrow> nat \<Rightarrow> ('k, 'v) lru" where
  "lru_doErase c elemIdx =
     (let elem = elements_r c ! elemIdx;
          p = lruPosition elem;
          c = (if p \<noteq> last (lruUsed c)
               then c\<lparr>lruUsed := remove1 p (lruUsed c) @ [p]\<rparr> else c);
          c = c\<lparr>lruUsed := butlast (lruUsed c), lruFree := last (lruUsed c) # lruFree c\<rparr>
      in c\<lparr>keyedElements_r := (keyedElements_r c)(the (keyedPosition_r elem) := None),
           usedSize_r := usedSize_r c - 1\<rparr>)"

definition lru_doPrune :: "('k, 'v) lru \<Rightarrow> ('k, 'v) lru" where
  "lru_doPrune c =
     (if usedSize_r c > 0 then lru_doErase c (last (lruUsed c @ lruFree c)) else c)"

definition lru_doInsert :: "('k, 'v) lru \<Rightarrow> 'k \<Rightarrow> 'v \<Rightarrow> ('k, 'v) lru option" where
  "lru_doInsert c key v =
     (let c = (if usedSize_r c \<ge> length (elements_r c) then lru_doPrune c else c) in
      case lruFree c of
        [] \<Rightarrow> None
      | elemIdx # rest \<Rightarrow>
          (let elem = (elements_r c ! elemIdx)
                 \<lparr>value_r := v, lruPosition := elemIdx, keyedPosition_r := Some key\<rparr>;
               c = c\<lparr>keyedElements_r := emplace (keyedElements_r c) key elemIdx,
                     elements_r := (elements_r c)[elemIdx := elem],
                     lruUsed := lruUsed c @ [elemIdx], lruFree := rest,
                     usedSize_r := usedSize_r c + 1\<rparr>
           in Some (lru_doAccess c elem)))"

definition lru_doInsertOrUpdate :: "('k, 'v) lru \<Rightarrow> 'k \<Rightarrow> 'v \<Rightarrow> ('k, 'v) lru option" where
  "lru_doInsertOrUpdate c key v =
     (case keyedElements_r c key of
        Some i \<Rightarrow> Some (lru_doUpdate c i v)
      | None \<Rightarrow> lru_doInsert c key v)"

definition lru_doFind :: "('k, 'v) lru \<Rightarrow> 'k \<Rightarrow> bool \<Rightarrow> 'v option \<times> ('k, 'v) lru" where
  "lru_doFind c key peek =
     (case keyedElements_r c key of
        Some i \<Rightarrow>
          (let elem = elements_r c ! i; c = (if \<not> peek then lru_doAccess c elem else c)
           in (Some (value_r elem), c))
      | None \<Rightarrow> (None, c))"

definition lru_insert :: "('k, 'v) lru \<Rightarrow> 'k \<Rightarrow> 'v \<Rightarrow> ('k, 'v) lru option" where
  "lru_insert c key v = lru_doInsertOrUpdate c key v"

definition lru_erase :: "('k, 'v) lru \<Rightarrow> 'k \<Rightarrow> bool \<times> ('k, 'v) lru" where
  "lru_erase c key =
     (case keyedElements_r c key of
        Some i \<Rightarrow> (True, lru_doErase c i)
      | None \<Rightarrow> (False, c))"

definition lru_find :: "('k, 'v) lru \<Rightarrow> 'k \<Rightarrow> bool \<Rightarrow> 'v option \<times> ('k, 'v) lru" where
  "lru_find c key peek = lru_doFind c key peek"

definition lru_insertRange :: "('k, 'v) lru \<Rightarrow> ('k \<times> 'v) list \<Rightarrow> (nat \<times> ('k, 'v) lru) option" where
  "lru_insertRange = insertRange_with lru_doInsertOrUpdate"

definition lru_eraseRange :: "('k, 'v) lru \<Rightarrow> 'k list \<Rightarrow> nat \<times> ('k, 'v) lru" where
  "lru_eraseRange = eraseRange_with lru_erase"

definition lru_findRange ::
  "('k, 'v) lru \<Rightarrow> 'k list \<Rightarrow> bool \<Rightarrow> ('k \<times> 'v option) list \<times> ('k, 'v) lru" where
  "lru_findRange c ks peek = findRange_with (\<lambda>c k. lru_doFind c k peek) c ks"

definition lru_resolveRange ::
  "('k, 'v) lru \<Rightarrow> ('k \<times> 'v option) list \<Rightarrow> bool \<Rightarrow> ('k \<times> 'v option) list \<times> ('k, 'v) lru" where
  "lru_resolveRange c kvs peek = resolveRange_with (\<lambda>c k. lru_doFind c k peek) c kvs"

section \<open>Specification vocabulary\<close>

abbreviation lru_key :: "('k, 'v) lru \<Rightarrow> nat \<Rightarrow> 'k option" where
  "lru_key c i \<equiv> keyedPosition_r (elements_r c ! i)"

abbreviation lru_val :: "('k, 'v) lru \<Rightarrow> nat \<Rightarrow> 'v" where
  "lru_val c i \<equiv> value_r (elements_r c ! i)"

definition lru_ok :: "('k, 'v) lru \<Rightarrow> bool" where
  "lru_ok c =
     (distinct (lruUsed c @ lruFree c) \<and> set (lruUsed c @ lruFree c) = {..<length (elements_r c)}
      \<and> slots_ok (lru_key c) (lruUsed c) (keyedElements_r c)
      \<and> (\<forall>i \<in> set (lruUsed c). lruPosition (elements_r c ! i) = i)
      \<and> usedSize_r c = length (lruUsed c))"

text \<open>The pairs stored, most recently used first.\<close>

definition lru_abs :: "('k, 'v) lru \<Rightarrow> ('k \<times> 'v) list" where
  "lru_abs c = slots_view (lru_key c) (lru_val c) (lruUsed c)"

text \<open>The replacement policy as a function on that list.\<close>

definition recency_insert :: "nat \<Rightarrow> 'k \<Rightarrow> 'v \<Rightarrow> ('k \<times> 'v) list \<Rightarrow> ('k \<times> 'v) list" where
  "recency_insert cap k v xs = take cap ((k, v) # filter (\<lambda>(k', _). k' \<noteq> k) xs)"

definition recency_touch :: "'k \<Rightarrow> ('k \<times> 'v) list \<Rightarrow> ('k \<times> 'v) list" where
  "recency_touch k xs =
     (case map_of xs k of None \<Rightarrow> xs | Some v \<Rightarrow> (k, v) # filter (\<lambda>(k', _). k' \<noteq> k) xs)"

section \<open>Refinement\<close>

lemma lru_lookup:
  "lru_ok c \<Longrightarrow> map_of (lru_abs c) k = map_option (lru_val c) (keyedElements_r c k)"
  by (simp add: lru_abs_def lru_ok_def slots_lookup)

lemma lru_keyed:
  assumes "lru_ok c" "keyedElements_r c k = Some i"
  shows "i \<in> set (lruUsed c)" "lru_key c i = Some k" "lruPosition (elements_r c ! i) = i"
    "i < length (elements_r c)" "i \<notin> set (lruFree c)"
  using assms slots_keyed [of "lru_key c" "lruUsed c" "keyedElements_r c" k i] by (auto simp: lru_ok_def)

lemma lru_capacity_len:
  assumes "lru_ok c"
  shows "length (lruUsed c) + length (lruFree c) = length (elements_r c)"
proof -
  have "length (lruUsed c @ lruFree c) = card {..<length (elements_r c)}"
    using assms distinct_card unfolding lru_ok_def by metis
  then show ?thesis by simp
qed

lemma lru_doErase_eq:
  assumes "lru_ok c" "keyedElements_r c k = Some i"
  shows "lru_doErase c i =
    c\<lparr>lruUsed := remove1 i (lruUsed c), lruFree := i # lruFree c,
      keyedElements_r := (keyedElements_r c)(k := None), usedSize_r := usedSize_r c - 1\<rparr>"
proof -
  note i = lru_keyed [OF assms]
  have "i = last (lruUsed c) \<Longrightarrow> butlast (lruUsed c) = remove1 i (lruUsed c)"
    using i(1) assms(1) by (cases "lruUsed c" rule: rev_cases) (auto simp: lru_ok_def remove1_append)
  then show ?thesis using i by (auto simp: lru_doErase_def Let_def)
qed

lemma lru_doErase_ok:
  assumes "lru_ok c" "keyedElements_r c k = Some i"
  shows "lru_ok (lru_doErase c i)" "lru_abs (lru_doErase c i) = filter (\<lambda>(k', _). k' \<noteq> k) (lru_abs c)"
    "lruFree (lru_doErase c i) \<noteq> []" "elements_r (lru_doErase c i) = elements_r c"
proof -
  note i = lru_keyed [OF assms] and eq = lru_doErase_eq [OF assms]
  have s: "slots_ok (lru_key c) (lruUsed c) (keyedElements_r c)" using assms(1) by (simp add: lru_ok_def)
  show "lru_ok (lru_doErase c i)"
    using assms(1) i slots_remove [OF s assms(2)] unfolding eq
    by (auto simp: lru_ok_def length_remove1)
  show "lru_abs (lru_doErase c i) = filter (\<lambda>(k', _). k' \<noteq> k) (lru_abs c)"
    using slots_view_remove [OF s assms(2)] unfolding eq by (simp add: lru_abs_def)
qed (simp_all add: lru_doErase_eq [OF assms])

lemma lru_doAccess_ok:
  assumes "lru_ok c" "keyedElements_r c k = Some i"
  shows "lru_ok (lru_doAccess c (elements_r c ! i))"
    "lru_abs (lru_doAccess c (elements_r c ! i)) = (k, lru_val c i) # filter (\<lambda>(k', _). k' \<noteq> k) (lru_abs c)"
proof -
  note i = lru_keyed [OF assms]
  have s: "slots_ok (lru_key c) (lruUsed c) (keyedElements_r c)" using assms(1) by (simp add: lru_ok_def)
  have d: "distinct (i # remove1 i (lruUsed c))" "set (i # remove1 i (lruUsed c)) = set (lruUsed c)"
    using i(1) assms(1) by (auto simp: lru_ok_def)
  have free: "remove1 i (lruFree c) = lruFree c" using i(5) by (rule remove1_idem)
  show "lru_ok (lru_doAccess c (elements_r c ! i))"
    using assms(1) i d slots_perm [OF s d(2,1)] free length_pos_if_in_set [OF i(1)]
    by (auto simp: lru_ok_def lru_doAccess_def length_remove1)
  show "lru_abs (lru_doAccess c (elements_r c ! i)) = (k, lru_val c i) # filter (\<lambda>(k', _). k' \<noteq> k) (lru_abs c)"
    using i slots_view_remove [OF s assms(2), of "lru_val c"]
    by (simp add: lru_doAccess_def lru_abs_def slots_view_def)
qed

lemma lru_setValue_ok:
  assumes "lru_ok c" "keyedElements_r c k = Some i"
  shows "lru_ok (c\<lparr>elements_r := (elements_r c)[i := (elements_r c ! i)\<lparr>value_r := v\<rparr>]\<rparr>)"
    "filter (\<lambda>(k', _). k' \<noteq> k) (lru_abs (c\<lparr>elements_r := (elements_r c)[i := (elements_r c ! i)\<lparr>value_r := v\<rparr>]\<rparr>))
      = filter (\<lambda>(k', _). k' \<noteq> k) (lru_abs c)"
proof -
  let ?c = "c\<lparr>elements_r := (elements_r c)[i := (elements_r c ! i)\<lparr>value_r := v\<rparr>]\<rparr>"
  note i = lru_keyed [OF assms]
  have s: "slots_ok (lru_key c) (lruUsed c) (keyedElements_r c)" using assms(1) by (simp add: lru_ok_def)
  have key: "lru_key ?c j = lru_key c j" and pos: "lruPosition (elements_r ?c ! j) = lruPosition (elements_r c ! j)" for j
    using i(4) by (cases "j = i"; simp)+
  show ok: "lru_ok ?c"
    using assms(1) slots_keys_cong [of "lruUsed c" "lru_key ?c" "lru_key c"] key pos by (simp add: lru_ok_def)
  have s': "slots_ok (lru_key ?c) (lruUsed c) (keyedElements_r c)" using ok by (simp add: lru_ok_def)
  have "slots_view (lru_key ?c) (lru_val ?c) (remove1 i (lruUsed c))
      = slots_view (lru_key c) (lru_val c) (remove1 i (lruUsed c))"
    using assms(1) key by (auto simp: slots_view_def lru_ok_def)
  then show "filter (\<lambda>(k', _). k' \<noteq> k) (lru_abs ?c) = filter (\<lambda>(k', _). k' \<noteq> k) (lru_abs c)"
    using slots_view_remove [OF s assms(2), of "lru_val c"]
      slots_view_remove [OF s' assms(2), of "lru_val ?c"]
    by (simp add: lru_abs_def)
qed

lemma lru_abs_length: "length (lru_abs c) = length (lruUsed c)"
  by (simp add: lru_abs_def slots_view_def)

lemma filter_keys_length: "length (filter P xs) < length xs" if "x \<in> set xs" "\<not> P x"
  using that by (rule length_filter_less)

lemma lru_doUpdate_ok:
  assumes "lru_ok c" "keyedElements_r c k = Some i"
  shows "lru_ok (lru_doUpdate c i v)" "lru_abs (lru_doUpdate c i v) = recency_insert (length (elements_r c)) k v (lru_abs c)"
    "length (elements_r (lru_doUpdate c i v)) = length (elements_r c)"
proof -
  let ?c = "c\<lparr>elements_r := (elements_r c)[i := (elements_r c ! i)\<lparr>value_r := v\<rparr>]\<rparr>"
  note i = lru_keyed [OF assms]
  note set = lru_setValue_ok [OF assms, of v]
  have keyed: "keyedElements_r ?c k = Some i" using assms(2) by simp
  have eq: "lru_doUpdate c i v = lru_doAccess ?c (elements_r ?c ! i)"
    using i(4) by (simp add: lru_doUpdate_def Let_def)
  show "lru_ok (lru_doUpdate c i v)" unfolding eq by (rule lru_doAccess_ok [OF set(1) keyed])
  show "length (elements_r (lru_doUpdate c i v)) = length (elements_r c)" by (simp add: eq lru_doAccess_def)
  have "map_of (lru_abs c) k = Some (lru_val c i)" using lru_lookup [OF assms(1)] assms(2) by simp
  then have "(k, lru_val c i) \<in> set (lru_abs c)" by (rule map_of_SomeD)
  then have "length (filter (\<lambda>(k', _). k' \<noteq> k) (lru_abs c)) < length (lru_abs c)"
    by (rule filter_keys_length) simp
  also have "\<dots> \<le> length (elements_r c)" using lru_capacity_len [OF assms(1)] by (simp add: lru_abs_length)
  finally show "lru_abs (lru_doUpdate c i v) = recency_insert (length (elements_r c)) k v (lru_abs c)"
    unfolding eq using lru_doAccess_ok(2) [OF set(1) keyed] set(2) i(4) by (simp add: recency_insert_def)
qed

lemma lru_fill_ok:
  assumes "lru_ok c" "keyedElements_r c k = None" "lruFree c = i # rest"
    and elem: "elem = (elements_r c ! i)\<lparr>value_r := v, lruPosition := i, keyedPosition_r := Some k\<rparr>"
    and c': "c' = c\<lparr>keyedElements_r := emplace (keyedElements_r c) k i,
                     elements_r := (elements_r c)[i := elem],
                     lruUsed := lruUsed c @ [i], lruFree := rest, usedSize_r := usedSize_r c + 1\<rparr>"
  shows "lru_ok c'" "lru_abs c' = lru_abs c @ [(k, v)]" "elements_r c' ! i = elem"
    "keyedElements_r c' k = Some i"
proof -
  have i: "i \<notin> set (lruUsed c)" "i < length (elements_r c)" using assms(1,3) by (auto simp: lru_ok_def)
  have s: "slots_ok (lru_key c) (lruUsed c) (keyedElements_r c)" using assms(1) by (simp add: lru_ok_def)
  have key: "lru_key c' j = ((lru_key c)(i := Some k)) j" for j
    using i(2) by (simp add: c' elem nth_list_update)
  have pos: "lruPosition (elements_r c' ! j) = (if j = i then i else lruPosition (elements_r c ! j))" for j
    using i(2) by (simp add: c' elem nth_list_update)
  have "slots_ok ((lru_key c)(i := Some k)) (lruUsed c @ [i]) ((keyedElements_r c)(k \<mapsto> i))"
    using slots_add [OF s i(1) assms(2)] i(1) assms(1) by (simp add: lru_ok_def)
  then have "slots_ok (lru_key c') (lruUsed c') (keyedElements_r c')"
    using key assms(2) slots_keys_cong [of "lruUsed c @ [i]" "lru_key c'" "(lru_key c)(i := Some k)"]
    by (simp add: c' emplace_def)
  then show "lru_ok c'" using assms(1,3) i pos by (auto simp: lru_ok_def c')
  show "lru_abs c' = lru_abs c @ [(k, v)]"
    using i by (auto simp: lru_abs_def slots_view_def c' elem nth_list_update)
  show "elements_r c' ! i = elem" "keyedElements_r c' k = Some i"
    using i(2) assms(2) by (simp_all add: c' emplace_def)
qed

lemma lru_push_ok:
  assumes "lru_ok c" "keyedElements_r c k = None" "lruFree c = i # rest"
    "usedSize_r c < length (elements_r c)"
  shows "\<exists>c'. lru_doInsert c k v = Some c' \<and> lru_ok c' \<and> lru_abs c' = (k, v) # lru_abs c
     \<and> length (elements_r c') = length (elements_r c)"
proof -
  let ?elem = "(elements_r c ! i)\<lparr>value_r := v, lruPosition := i, keyedPosition_r := Some k\<rparr>"
  let ?c = "c\<lparr>keyedElements_r := emplace (keyedElements_r c) k i,
                     elements_r := (elements_r c)[i := ?elem],
                     lruUsed := lruUsed c @ [i], lruFree := rest, usedSize_r := usedSize_r c + 1\<rparr>"
  note fill = lru_fill_ok [OF assms(1-3) refl refl, of v]
  have eq: "lru_doInsert c k v = Some (lru_doAccess ?c (elements_r ?c ! i))"
    using assms(3,4) fill(3) by (simp add: lru_doInsert_def Let_def)
  have k: "(k', v') \<in> set (lru_abs c) \<Longrightarrow> k' \<noteq> k" for k' v'
    using lru_lookup [OF assms(1), of k] assms(2) by (auto simp: map_of_eq_None_iff image_iff)
  then have "filter (\<lambda>(k', _). k' \<noteq> k) (lru_abs c) = lru_abs c"
    by (auto simp: filter_id_conv)
  then have "lru_abs (lru_doAccess ?c (elements_r ?c ! i)) = (k, v) # lru_abs c"
    using lru_doAccess_ok(2) [OF fill(1,4)] fill(2,3) by simp
  moreover have "length (elements_r (lru_doAccess ?c (elements_r ?c ! i))) = length (elements_r c)"
    by (simp add: lru_doAccess_def)
  ultimately show ?thesis unfolding eq using lru_doAccess_ok(1) [OF fill(1,4)] by blast
qed

lemma lru_prune_ok:
  assumes "lru_ok c" "lruFree c = []" "0 < length (elements_r c)"
  shows "lru_ok (lru_doPrune c)" "lru_abs (lru_doPrune c) = butlast (lru_abs c)"
    "lruFree (lru_doPrune c) \<noteq> []" "length (elements_r (lru_doPrune c)) = length (elements_r c)"
    "usedSize_r (lru_doPrune c) < length (elements_r c)"
    "keyedElements_r c k = None \<Longrightarrow> keyedElements_r (lru_doPrune c) k = None"
proof -
  have len: "length (lruUsed c) = length (elements_r c)" using lru_capacity_len [OF assms(1)] assms(2) by simp
  let ?i = "last (lruUsed c)"
  have s: "slots_ok (lru_key c) (lruUsed c) (keyedElements_r c)" using assms(1) by (simp add: lru_ok_def)
  have ne: "lruUsed c \<noteq> []" using len assms(3) by auto
  then have mem: "?i \<in> set (lruUsed c)" by simp
  then obtain k0 where "lru_key c ?i = Some k0" using s by (auto simp: slots_ok_def)
  then have k0: "keyedElements_r c k0 = Some ?i" using slots_keyed [OF s] mem by simp
  have eq: "lru_doPrune c = lru_doErase c ?i"
    using assms(1-3) len ne by (simp add: lru_doPrune_def lru_ok_def)
  note e = lru_doErase_ok [OF assms(1) k0]
  show "lru_ok (lru_doPrune c)" "lruFree (lru_doPrune c) \<noteq> []"
    "length (elements_r (lru_doPrune c)) = length (elements_r c)" using e by (simp_all add: eq)
  have "remove1 ?i (lruUsed c) = butlast (lruUsed c)"
    using ne assms(1) by (cases "lruUsed c" rule: rev_cases) (auto simp: lru_ok_def remove1_append)
  then show "lru_abs (lru_doPrune c) = butlast (lru_abs c)"
    using slots_view_remove [OF s k0, of "lru_val c"] e(2)
    by (simp add: eq lru_abs_def slots_view_def map_butlast)
  show "usedSize_r (lru_doPrune c) < length (elements_r c)"
    using assms len by (simp add: eq lru_doErase_eq [OF assms(1) k0] lru_ok_def)
  show "keyedElements_r c k = None \<Longrightarrow> keyedElements_r (lru_doPrune c) k = None"
    by (simp add: eq lru_doErase_eq [OF assms(1) k0])
qed

lemma lru_insert_refines:
  assumes "lru_ok c" "0 < lru_capacity c"
  shows "\<exists>c'. lru_insert c k v = Some c' \<and> lru_ok c' \<and> lru_capacity c' = lru_capacity c
    \<and> lru_abs c' = recency_insert (lru_capacity c) k v (lru_abs c)"
proof (cases "keyedElements_r c k")
  case (Some i)
  then show ?thesis using lru_doUpdate_ok [OF assms(1) Some]
    by (simp add: lru_insert_def lru_doInsertOrUpdate_def lru_capacity_def)
next
  case None
  then have "filter (\<lambda>(k', _). k' \<noteq> k) (lru_abs c) = lru_abs c"
    using lru_lookup [OF assms(1), of k] by (auto simp: filter_id_conv map_of_eq_None_iff image_iff)
  then have spec: "recency_insert (lru_capacity c) k v (lru_abs c) = take (lru_capacity c) ((k, v) # lru_abs c)"
    by (simp add: recency_insert_def)
  note len = lru_capacity_len [OF assms(1)]
  have ins: "lru_insert c k v = lru_doInsert c k v"
    using None by (simp add: lru_insert_def lru_doInsertOrUpdate_def)
  show ?thesis
  proof (cases "lruFree c")
    case (Cons i rest)
    then have "usedSize_r c < length (elements_r c)" using len assms(1) by (simp add: lru_ok_def)
    from lru_push_ok [OF assms(1) None Cons this, of v] Cons len show ?thesis
      unfolding ins spec by (auto simp: lru_capacity_def lru_abs_length)
  next
    case Nil
    note p = lru_prune_ok [OF assms(1) Nil assms(2) [unfolded lru_capacity_def]]
    obtain i rest where f: "lruFree (lru_doPrune c) = i # rest" using p(3) by (cases "lruFree (lru_doPrune c)") auto
    have "usedSize_r c \<ge> length (elements_r c)" using Nil len assms(1) by (simp add: lru_ok_def)
    then have "lru_doInsert c k v = lru_doInsert (lru_doPrune c) k v"
      using p(4,5) by (simp add: lru_doInsert_def)
    moreover have "take (length (elements_r c)) ((k, v) # lru_abs c) = (k, v) # butlast (lru_abs c)"
      using len Nil assms(2) by (cases "length (elements_r c)") (simp_all add: lru_capacity_def butlast_conv_take lru_abs_length)
    ultimately show ?thesis
      using lru_push_ok [OF p(1) p(6) [OF None] f, of v] p(2,4,5) unfolding ins spec
      by (auto simp: lru_capacity_def)
  qed
qed

lemma lru_find_refines:
  assumes "lru_ok c"
  shows "fst (lru_find c k peek) = map_of (lru_abs c) k" "lru_ok (snd (lru_find c k peek))"
    "lru_abs (snd (lru_find c k peek)) = (if peek then lru_abs c else recency_touch k (lru_abs c))"
    "lru_capacity (snd (lru_find c k peek)) = lru_capacity c"
proof -
  note lookup = lru_lookup [OF assms, of k]
  show "fst (lru_find c k peek) = map_of (lru_abs c) k" "lru_ok (snd (lru_find c k peek))"
    "lru_capacity (snd (lru_find c k peek)) = lru_capacity c"
    using assms lookup lru_doAccess_ok(1) [OF assms]
    by (auto simp: lru_find_def lru_doFind_def Let_def lru_capacity_def lru_doAccess_def split: option.splits)
  show "lru_abs (snd (lru_find c k peek)) = (if peek then lru_abs c else recency_touch k (lru_abs c))"
    using lookup lru_doAccess_ok(2) [OF assms]
    by (auto simp: lru_find_def lru_doFind_def Let_def recency_touch_def split: option.splits)
qed

lemma lru_erase_refines:
  assumes "lru_ok c"
  shows "fst (lru_erase c k) \<longleftrightarrow> map_of (lru_abs c) k \<noteq> None" "lru_ok (snd (lru_erase c k))"
    "lru_abs (snd (lru_erase c k)) = filter (\<lambda>(k', _). k' \<noteq> k) (lru_abs c)"
    "lru_capacity (snd (lru_erase c k)) = lru_capacity c"
proof -
  note lookup = lru_lookup [OF assms, of k]
  show "fst (lru_erase c k) \<longleftrightarrow> map_of (lru_abs c) k \<noteq> None" "lru_ok (snd (lru_erase c k))"
    "lru_capacity (snd (lru_erase c k)) = lru_capacity c"
    using assms lookup lru_doErase_ok [OF assms]
    by (auto simp: lru_erase_def lru_capacity_def split: option.splits)
  show "lru_abs (snd (lru_erase c k)) = filter (\<lambda>(k', _). k' \<noteq> k) (lru_abs c)"
  proof (cases "keyedElements_r c k")
    case None
    with lookup have "filter (\<lambda>(k', _). k' \<noteq> k) (lru_abs c) = lru_abs c"
      by (auto simp: filter_id_conv map_of_eq_None_iff image_iff)
    with None show ?thesis by (simp add: lru_erase_def)
  qed (simp add: lru_erase_def lru_doErase_ok [OF assms])
qed

lemma lru_create_ok: "lru_ok (lru_create dflt cap)" "lru_abs (lru_create dflt cap) = []"
  "lru_capacity (lru_create dflt cap) = cap"
  by (auto simp: lru_ok_def lru_create_def lru_abs_def slots_ok_def slots_view_def lru_capacity_def)

section \<open>The contract\<close>

lemma recency_insert_view:
  assumes "0 < cap"
  shows "map_of (recency_insert cap k v xs) k = Some v"
    "map_of (recency_insert cap k v xs) \<subseteq>\<^sub>m (map_of xs)(k \<mapsto> v)"
    "length (filter (\<lambda>(k', _). k' \<noteq> k) xs) < cap \<Longrightarrow> map_of (recency_insert cap k v xs) = (map_of xs)(k \<mapsto> v)"
proof -
  let ?ys = "(k, v) # filter (\<lambda>(k', _). k' \<noteq> k) xs"
  have ys: "map_of ?ys = (map_of xs)(k \<mapsto> v)" by (simp add: map_of_filter_key)
  show "map_of (recency_insert cap k v xs) k = Some v"
    using assms by (cases cap) (simp_all add: recency_insert_def)
  show "map_of (recency_insert cap k v xs) \<subseteq>\<^sub>m (map_of xs)(k \<mapsto> v)"
    unfolding recency_insert_def ys [symmetric] by (rule map_of_take_le)
  show "length (filter (\<lambda>(k', _). k' \<noteq> k) xs) < cap \<Longrightarrow> map_of (recency_insert cap k v xs) = (map_of xs)(k \<mapsto> v)"
    unfolding recency_insert_def using ys by simp
qed

lemma recency_touch_view: "map_of (recency_touch k xs) = map_of xs"
  by (auto simp: recency_touch_def map_of_filter_key fun_eq_iff split: option.splits)

lemma lru_distinct: "lru_ok c \<Longrightarrow> distinct (map fst (lru_abs c))"
  unfolding lru_abs_def lru_ok_def by (blast intro: slots_distinct_keys)

lemma lru_size_abs: "lru_ok c \<Longrightarrow> lru_size c = length (lru_abs c)"
  by (simp add: lru_size_def lru_ok_def lru_abs_length)

lemma lru_size_le: "lru_ok c \<Longrightarrow> length (lru_abs c) \<le> lru_capacity c"
  using lru_capacity_len [of c] by (simp add: lru_capacity_def lru_abs_length)

interpretation lru: bounded_cache "Suc n" "lru_create dflt (Suc n)" lru_insert lru_erase
  "\<lambda>c k. lru_find c k False" lru_size "\<lambda>c. map_of (lru_abs c)" "\<lambda>c. lru_ok c \<and> lru_capacity c = Suc n"
  for n :: nat and dflt :: 'v
proof unfold_locales
  fix c :: "('k, 'v) lru" and k :: 'k and v :: 'v
  assume inv: "lru_ok c \<and> lru_capacity c = Suc n"
  let ?xs = "lru_abs c"
  have "length (filter (\<lambda>(k', _). k' \<noteq> k) ?xs) < Suc n"
    if "k \<in> dom (map_of ?xs) \<or> lru_size c < Suc n"
    using that
  proof
    assume "k \<in> dom (map_of ?xs)"
    then obtain w where "(k, w) \<in> set ?xs" by (auto dest: map_of_SomeD)
    then have "length (filter (\<lambda>(k', _). k' \<noteq> k) ?xs) < length ?xs" by (rule filter_keys_length) simp
    then show ?thesis using inv lru_size_le [of c] by simp
  next
    assume "lru_size c < Suc n"
    then show ?thesis using inv lru_size_abs [of c] le_less_trans [OF length_filter_le] by metis
  qed
  then show "\<exists>c'. lru_insert c k v = Some c' \<and> (lru_ok c' \<and> lru_capacity c' = Suc n)
      \<and> map_of (lru_abs c') k = Some v \<and> map_of (lru_abs c') \<subseteq>\<^sub>m (map_of ?xs)(k \<mapsto> v)
      \<and> (k \<in> dom (map_of ?xs) \<or> lru_size c < Suc n \<longrightarrow> map_of (lru_abs c') = (map_of ?xs)(k \<mapsto> v))"
    using lru_insert_refines [of c k v] recency_insert_view [where cap = "Suc n" and k = k and v = v and xs = ?xs] inv by auto
next
  fix c :: "('k, 'v) lru"
  assume "lru_ok c \<and> lru_capacity c = Suc n"
  then show "finite (dom (map_of (lru_abs c))) \<and> lru_size c = card (dom (map_of (lru_abs c))) \<and> lru_size c \<le> Suc n"
    using lru_size_abs [of c] lru_distinct [of c] lru_size_le [of c]
    by (simp add: card_dom_map_of finite_dom_map_of)
qed (auto simp: lru_create_ok lru_erase_refines lru_find_refines map_of_filter_key recency_touch_view)

section \<open>Properties\<close>

text \<open>
  C24: the LRU cache implements its replacement policy. With at least one slot, \<open>insert\<close> never
  fails and leaves the pairs in order of their last use: the new pair in front, the pair that was
  used least recently dropped when the cache was full and the key is new.
\<close>

theorem lru_insert_policy:
  assumes "lru_ok c" "0 < lru_capacity c"
  shows "\<exists>c'. lru_insert c k v = Some c' \<and> lru_ok c' \<and> lru_capacity c' = lru_capacity c
    \<and> lru_abs c' = recency_insert (lru_capacity c) k v (lru_abs c)"
  using assms by (rule lru_insert_refines)

theorem lru_insert_policy_witness:
  "\<exists>c'. lru_insert (lru_create (0::int) 2 :: (char, int) lru) CHR ''a'' 7 = Some c'
     \<and> lru_abs c' = [(CHR ''a'', 7)]"
  using lru_insert_policy [of "lru_create (0::int) 2 :: (char, int) lru" "CHR ''a''" 7]
  by (auto simp: lru_create_ok recency_insert_def)

text \<open>
  \<open>find\<close> returns what is stored under the key and, unless it peeks, makes the pair the most
  recently used; \<open>erase\<close> drops exactly the pair of the key and reports whether there was one.
\<close>

theorem lru_find_erase_policy:
  assumes "lru_ok c"
  shows "fst (lru_find c k peek) = map_of (lru_abs c) k
    \<and> lru_abs (snd (lru_find c k peek)) = (if peek then lru_abs c else recency_touch k (lru_abs c))
    \<and> lru_ok (snd (lru_find c k peek))
    \<and> (fst (lru_erase c k) \<longleftrightarrow> map_of (lru_abs c) k \<noteq> None)
    \<and> lru_abs (snd (lru_erase c k)) = filter (\<lambda>(k', _). k' \<noteq> k) (lru_abs c)
    \<and> lru_ok (snd (lru_erase c k))"
  using assms by (simp add: lru_find_refines lru_erase_refines)

theorem lru_find_erase_policy_witness:
  "fst (lru_find (lru_create (0::int) 2 :: (char, int) lru) CHR ''a'' False) = None"
  using lru_find_erase_policy [OF lru_create_ok(1) [where dflt = "0::int" and cap = 2], of "CHR ''a''" False]
  by (simp add: lru_create_ok)

text \<open>
  Over any sequence of \<open>insert\<close>, \<open>erase\<close> and \<open>find\<close> calls an LRU cache with at least one
  slot never fails, never holds more pairs than its capacity, and never returns anything but the
  value last inserted under the key; while the keys inserted fit, it returns that value always.
\<close>

theorem lru_coherent:
  "\<exists>c. run_cacheOps lru_insert lru_erase (\<lambda>c k. lru_find c k False) (lru_create dflt (Suc n)) ops = Some c
     \<and> lru_size c \<le> Suc n
     \<and> (fst (lru_find c k False) = None \<or> fst (lru_find c k False) = map_cacheOps Map.empty ops k)
     \<and> (card (inserted_keys ops) \<le> Suc n \<longrightarrow> fst (lru_find c k False) = map_cacheOps Map.empty ops k)"
proof -
  obtain c where c: "run_cacheOps lru_insert lru_erase (\<lambda>c k. lru_find c k False) (lru_create dflt (Suc n)) ops = Some c"
    "lru_ok c" "map_of (lru_abs c) \<subseteq>\<^sub>m map_cacheOps Map.empty ops" "lru_size c \<le> Suc n"
    using lru.run_coherent [where n = n and dflt = dflt and ops = ops] by blast
  have "map_of (lru_abs c) k = None \<or> map_of (lru_abs c) k = map_cacheOps Map.empty ops k"
    using c(3) unfolding map_le_def by (metis domIff)
  moreover have "map_of (lru_abs c) = map_cacheOps Map.empty ops" if "card (inserted_keys ops) \<le> Suc n"
    using lru.run_complete [OF that, where dflt = dflt] c(1) by auto
  ultimately show ?thesis using c by (auto simp: lru_find_refines)
qed

theorem lru_coherent_witness:
  "\<exists>c. run_cacheOps lru_insert lru_erase (\<lambda>c k. lru_find c k False) (lru_create (0::int) (Suc 0))
         [CInsert CHR ''a'' 7, CFind CHR ''a''] = Some c
     \<and> fst (lru_find c CHR ''a'' False) = Some 7"
  using lru_coherent [of "0::int" 0 "[CInsert CHR ''a'' 7, CFind CHR ''a'']" "CHR ''a''"] by auto

end
