(* ===== verification/DS_Cache_FIFO.thy ===== *)
theory DS_Cache_FIFO
  imports DS_Cache_Spec
begin

text \<open>
  The first-in-first-out cache: class \<open>FIFO\<close> of \<open>src/data_structure/include/cache.hpp\<close>.

  \<open>fifoList\<close> is the sequence of the node numbers and \<open>fifoNodes\<close> what the nodes contain; an
  iterator into the list (\<open>FIFOIter\<close>) is a node number. Free slots stand in front of the
  slots in use, which are in order of insertion.
\<close>

section \<open>State and operations\<close>

record ('k, 'v) fifoElement =
  keyedPosition_q :: "'k option"
  value_q :: 'v

record ('k, 'v) fifo =
  fifoNodes :: "('k, 'v) fifoElement list"
  fifoList :: "nat list"
  keyedElements_q :: "'k \<rightharpoonup> nat"
  usedSize_q :: nat

definition fifo_create :: "'v \<Rightarrow> nat \<Rightarrow> ('k, 'v) fifo" where
  "fifo_create dflt cap =
     \<lparr>fifoNodes = replicate cap \<lparr>keyedPosition_q = None, value_q = dflt\<rparr>,
      fifoList = [0..<cap], keyedElements_q = Map.empty, usedSize_q = 0\<rparr>"

definition fifo_empty :: "('k, 'v) fifo \<Rightarrow> bool" where
  "fifo_empty c = (usedSize_q c = 0)"

definition fifo_size :: "('k, 'v) fifo \<Rightarrow> nat" where
  "fifo_size c = usedSize_q c"

definition fifo_capacity :: "('k, 'v) fifo \<Rightarrow> nat" where
  "fifo_capacity c = length (fifoList c)"

definition fifo_doUpdate :: "('k, 'v) fifo \<Rightarrow> nat \<Rightarrow> 'v \<Rightarrow> ('k, 'v) fifo" where
  "fifo_doUpdate c i v = c\<lparr>fifoNodes := (fifoNodes c)[i := (fifoNodes c ! i)\<lparr>value_q := v\<rparr>]\<rparr>"

definition fifo_doInsert :: "('k, 'v) fifo \<Rightarrow> 'k \<Rightarrow> 'v \<Rightarrow> ('k, 'v) fifo option" where
  "fifo_doInsert c key v =
     (case fifoList c of
        [] \<Rightarrow> None
      | i # rest \<Rightarrow>
          (let c = c\<lparr>fifoList := rest @ [i]\<rparr>;
               elem = fifoNodes c ! i;
               c = (case keyedPosition_q elem of
                      Some old \<Rightarrow> c\<lparr>keyedElements_q := (keyedElements_q c)(old := None)\<rparr>
                    | None \<Rightarrow> c\<lparr>usedSize_q := usedSize_q c + 1\<rparr>);
               elem = elem\<lparr>value_q := v, keyedPosition_q := Some key\<rparr>
           in Some (c\<lparr>fifoNodes := (fifoNodes c)[i := elem],
                      keyedElements_q := emplace (keyedElements_q c) key i\<rparr>)))"

definition fifo_doErase :: "('k, 'v) fifo \<Rightarrow> nat \<Rightarrow> ('k, 'v) fifo" where
  "fifo_doErase c i =
     (let elem = fifoNodes c ! i;
          c = (if i \<noteq> hd (fifoList c) then c\<lparr>fifoList := i # remove1 i (fifoList c)\<rparr> else c);
          c = (case keyedPosition_q elem of
                 Some old \<Rightarrow>
                   c\<lparr>keyedElements_q := (keyedElements_q c)(old := None),
                     fifoNodes := (fifoNodes c)[i := elem\<lparr>keyedPosition_q := None\<rparr>]\<rparr>
               | None \<Rightarrow> c)
      in c\<lparr>usedSize_q := usedSize_q c - 1\<rparr>)"

definition fifo_doInsertOrUpdate :: "('k, 'v) fifo \<Rightarrow> 'k \<Rightarrow> 'v \<Rightarrow> ('k, 'v) fifo option" where
  "fifo_doInsertOrUpdate c key v =
     (case keyedElements_q c key of
        Some i \<Rightarrow> Some (fifo_doUpdate c i v)
      | None \<Rightarrow> fifo_doInsert c key v)"

definition fifo_doFind :: "('k, 'v) fifo \<Rightarrow> 'k \<Rightarrow> 'v option" where
  "fifo_doFind c key =
     (case keyedElements_q c key of Some i \<Rightarrow> Some (value_q (fifoNodes c ! i)) | None \<Rightarrow> None)"

definition fifo_insert :: "('k, 'v) fifo \<Rightarrow> 'k \<Rightarrow> 'v \<Rightarrow> ('k, 'v) fifo option" where
  "fifo_insert c key v = fifo_doInsertOrUpdate c key v"

definition fifo_erase :: "('k, 'v) fifo \<Rightarrow> 'k \<Rightarrow> bool \<times> ('k, 'v) fifo" where
  "fifo_erase c key =
     (case keyedElements_q c key of
        Some i \<Rightarrow> (True, fifo_doErase c i)
      | None \<Rightarrow> (False, c))"

definition fifo_find :: "('k, 'v) fifo \<Rightarrow> 'k \<Rightarrow> 'v option" where
  "fifo_find c key = fifo_doFind c key"

definition fifo_insertRange :: "('k, 'v) fifo \<Rightarrow> ('k \<times> 'v) list \<Rightarrow> (nat \<times> ('k, 'v) fifo) option" where
  "fifo_insertRange = insertRange_with fifo_doInsertOrUpdate"

definition fifo_eraseIter :: "('k, 'v) fifo \<Rightarrow> 'k list \<Rightarrow> nat \<times> ('k, 'v) fifo" where
  "fifo_eraseIter = eraseRange_with fifo_erase"

definition fifo_eraseRange :: "('k, 'v) fifo \<Rightarrow> 'k list \<Rightarrow> nat \<times> ('k, 'v) fifo" where
  "fifo_eraseRange c ks = fifo_eraseIter c ks"

definition fifo_findIter :: "('k, 'v) fifo \<Rightarrow> 'k list \<Rightarrow> ('k \<times> 'v option) list" where
  "fifo_findIter c ks = fst (findRange_with (\<lambda>c k. (fifo_doFind c k, c)) c ks)"

definition fifo_findRange :: "('k, 'v) fifo \<Rightarrow> 'k list \<Rightarrow> ('k \<times> 'v option) list" where
  "fifo_findRange c ks = fifo_findIter c ks"

definition fifo_resolveIter :: "('k, 'v) fifo \<Rightarrow> ('k \<times> 'v option) list \<Rightarrow> ('k \<times> 'v option) list" where
  "fifo_resolveIter c kvs = fst (resolveRange_with (\<lambda>c k. (fifo_doFind c k, c)) c kvs)"

definition fifo_resolveRange :: "('k, 'v) fifo \<Rightarrow> ('k \<times> 'v option) list \<Rightarrow> ('k \<times> 'v option) list" where
  "fifo_resolveRange c kvs = fifo_resolveIter c kvs"

section \<open>Specification vocabulary\<close>

abbreviation fifo_key :: "('k, 'v) fifo \<Rightarrow> nat \<Rightarrow> 'k option" where
  "fifo_key c i \<equiv> keyedPosition_q (fifoNodes c ! i)"

abbreviation fifo_val :: "('k, 'v) fifo \<Rightarrow> nat \<Rightarrow> 'v" where
  "fifo_val c i \<equiv> value_q (fifoNodes c ! i)"

definition fifo_used :: "('k, 'v) fifo \<Rightarrow> nat list" where
  "fifo_used c = filter (\<lambda>i. fifo_key c i \<noteq> None) (fifoList c)"

definition fifo_free :: "('k, 'v) fifo \<Rightarrow> nat list" where
  "fifo_free c = filter (\<lambda>i. fifo_key c i = None) (fifoList c)"

definition fifo_ok :: "('k, 'v) fifo \<Rightarrow> bool" where
  "fifo_ok c =
     (distinct (fifoList c) \<and> set (fifoList c) = {..<length (fifoNodes c)}
      \<and> fifoList c = fifo_free c @ fifo_used c
      \<and> slots_ok (fifo_key c) (fifo_used c) (keyedElements_q c)
      \<and> usedSize_q c = length (fifo_used c))"

text \<open>The pairs stored, in order of insertion.\<close>

definition fifo_abs :: "('k, 'v) fifo \<Rightarrow> ('k \<times> 'v) list" where
  "fifo_abs c = slots_view (fifo_key c) (fifo_val c) (fifo_used c)"

text \<open>The replacement policy as a function on that list.\<close>

definition arrival_insert :: "nat \<Rightarrow> 'k \<Rightarrow> 'v \<Rightarrow> ('k \<times> 'v) list \<Rightarrow> ('k \<times> 'v) list" where
  "arrival_insert cap k v xs =
     (if k \<in> fst ` set xs then map (\<lambda>(k', v'). (k', if k' = k then v else v')) xs
      else (if length xs \<ge> cap then tl xs else xs) @ [(k, v)])"

section \<open>Refinement\<close>

lemma fifo_okI:
  assumes "fifoList c = fr @ us" "\<forall>i \<in> set fr. fifo_key c i = None" "\<forall>i \<in> set us. fifo_key c i \<noteq> None"
    "distinct (fr @ us)" "set (fr @ us) = {..<length (fifoNodes c)}"
    "slots_ok (fifo_key c) us (keyedElements_q c)" "usedSize_q c = length us"
  shows "fifo_ok c \<and> fifo_free c = fr \<and> fifo_used c = us \<and> fifo_abs c = slots_view (fifo_key c) (fifo_val c) us"
proof -
  have "fifo_free c = fr" "fifo_used c = us"
    using assms(1-3) by (auto simp: fifo_free_def fifo_used_def filter_id_conv filter_empty_conv)
  with assms show ?thesis by (simp add: fifo_ok_def fifo_abs_def)
qed

lemma fifo_okE:
  assumes "fifo_ok c"
  obtains fr us where "fifoList c = fr @ us" "\<forall>i \<in> set fr. fifo_key c i = None"
    "\<forall>i \<in> set us. fifo_key c i \<noteq> None" "distinct (fr @ us)" "set (fr @ us) = {..<length (fifoNodes c)}"
    "slots_ok (fifo_key c) us (keyedElements_q c)" "usedSize_q c = length us"
    "fifo_abs c = slots_view (fifo_key c) (fifo_val c) us"
proof
  show "fifoList c = fifo_free c @ fifo_used c" using assms by (simp add: fifo_ok_def)
  then show "distinct (fifo_free c @ fifo_used c)"
    "set (fifo_free c @ fifo_used c) = {..<length (fifoNodes c)}"
    using assms unfolding fifo_ok_def by metis+
  show "\<forall>i \<in> set (fifo_free c). fifo_key c i = None" "\<forall>i \<in> set (fifo_used c). fifo_key c i \<noteq> None"
    by (auto simp: fifo_free_def fifo_used_def)
  show "slots_ok (fifo_key c) (fifo_used c) (keyedElements_q c)" "usedSize_q c = length (fifo_used c)"
    using assms by (simp_all add: fifo_ok_def)
qed (rule fifo_abs_def)

lemma fifo_lookup: "fifo_ok c \<Longrightarrow> map_of (fifo_abs c) k = map_option (fifo_val c) (keyedElements_q c k)"
  by (simp add: fifo_abs_def fifo_ok_def slots_lookup)

lemma fifo_find_refines: "fifo_ok c \<Longrightarrow> fifo_find c k = map_of (fifo_abs c) k"
  by (simp add: fifo_lookup fifo_find_def fifo_doFind_def split: option.split)

lemma fifo_create_ok:
  "fifo_ok (fifo_create dflt cap :: ('k, 'v) fifo)" "fifo_abs (fifo_create dflt cap :: ('k, 'v) fifo) = []"
  "fifo_capacity (fifo_create dflt cap) = cap"
proof -
  let ?c = "fifo_create dflt cap :: ('k, 'v) fifo"
  have "fifo_ok ?c \<and> fifo_free ?c = [0..<cap] \<and> fifo_used ?c = [] \<and> fifo_abs ?c = slots_view (fifo_key ?c) (fifo_val ?c) []"
    by (rule fifo_okI) (auto simp: fifo_create_def slots_ok_def)
  then show "fifo_ok ?c" "fifo_abs ?c = []" by (simp_all add: slots_view_def)
qed (simp add: fifo_capacity_def fifo_create_def)

lemma fifo_erase_step:
  assumes "fifo_ok c" "keyedElements_q c k = Some i"
  shows "fifo_ok (fifo_doErase c i)" "fifo_abs (fifo_doErase c i) = filter (\<lambda>(k', _). k' \<noteq> k) (fifo_abs c)"
    "fifo_capacity (fifo_doErase c i) = fifo_capacity c"
proof -
  let ?c = "fifo_doErase c i"
  obtain fr us where c: "fifoList c = fr @ us" "\<forall>i \<in> set fr. fifo_key c i = None"
    "\<forall>i \<in> set us. fifo_key c i \<noteq> None" "distinct (fr @ us)" "set (fr @ us) = {..<length (fifoNodes c)}"
    "slots_ok (fifo_key c) us (keyedElements_q c)" "usedSize_q c = length us"
    "fifo_abs c = slots_view (fifo_key c) (fifo_val c) us"
    using fifo_okE [OF assms(1)] .
  have i: "i \<in> set us" "fifo_key c i = Some k" "i < length (fifoNodes c)" "i \<notin> set fr"
    using slots_keyed [OF c(6), of k i] assms(2) c(4,5) by auto
  have list: "fifoList ?c = i # fr @ remove1 i us"
  proof (cases "i = hd (fifoList c)")
    case True
    then have "fr = []" using i(4) c(1) by (cases fr) auto
    moreover have "us = i # remove1 i us" using i(1) True c(1) \<open>fr = []\<close> by (cases us) auto
    ultimately show ?thesis using True c(1) i(2) by (simp add: fifo_doErase_def Let_def)
  next
    case False
    then show ?thesis using c(1) i(2,4) by (simp add: fifo_doErase_def Let_def remove1_append)
  qed
  have nodes: "fifoNodes ?c = (fifoNodes c)[i := (fifoNodes c ! i)\<lparr>keyedPosition_q := None\<rparr>]"
    and keyed: "keyedElements_q ?c = (keyedElements_q c)(k := None)"
    and used: "usedSize_q ?c = usedSize_q c - 1"
    using i(2) by (simp_all add: fifo_doErase_def Let_def)
  have same: "fifo_key ?c j = fifo_key c j" "fifo_val ?c j = fifo_val c j" if "j \<noteq> i" for j
    using that i(3) by (simp_all add: nodes nth_list_update)
  have ni: "i \<notin> set (remove1 i us)" using c(4) by simp
  have "slots_ok (fifo_key ?c) (remove1 i us) (keyedElements_q ?c)"
    unfolding keyed using slots_remove [OF c(6) assms(2)]
    by (rule slots_keys_cong [rotated]) (use ni same in metis)
  then have "fifo_ok ?c \<and> fifo_free ?c = i # fr \<and> fifo_used ?c = remove1 i us
      \<and> fifo_abs ?c = slots_view (fifo_key ?c) (fifo_val ?c) (remove1 i us)"
    using c i same ni list
    by (intro fifo_okI) (auto simp: nodes used length_remove1 nth_list_update)
  moreover have "slots_view (fifo_key ?c) (fifo_val ?c) (remove1 i us)
      = slots_view (fifo_key c) (fifo_val c) (remove1 i us)"
    unfolding slots_view_def using same ni by (intro map_cong refl) metis
  ultimately show "fifo_ok ?c" "fifo_abs ?c = filter (\<lambda>(k', _). k' \<noteq> k) (fifo_abs c)"
    using slots_view_remove [OF c(6) assms(2), of "fifo_val c"] c(8) by auto
  show "fifo_capacity ?c = fifo_capacity c"
    using list c(1) i(1) length_pos_if_in_set [OF i(1)] by (simp add: fifo_capacity_def length_remove1)
qed

lemma fifo_update_step:
  assumes "fifo_ok c" "keyedElements_q c k = Some i"
  shows "fifo_ok (fifo_doUpdate c i v)"
    "fifo_abs (fifo_doUpdate c i v) = map (\<lambda>(k', v'). (k', if k' = k then v else v')) (fifo_abs c)"
    "fifo_capacity (fifo_doUpdate c i v) = fifo_capacity c"
proof -
  let ?c = "fifo_doUpdate c i v"
  obtain fr us where c: "fifoList c = fr @ us" "\<forall>i \<in> set fr. fifo_key c i = None"
    "\<forall>i \<in> set us. fifo_key c i \<noteq> None" "distinct (fr @ us)" "set (fr @ us) = {..<length (fifoNodes c)}"
    "slots_ok (fifo_key c) us (keyedElements_q c)" "usedSize_q c = length us"
    "fifo_abs c = slots_view (fifo_key c) (fifo_val c) us"
    using fifo_okE [OF assms(1)] .
  have i: "i \<in> set us" "fifo_key c i = Some k" "i < length (fifoNodes c)"
    using slots_keyed [OF c(6), of k i] assms(2) c(5) by auto
  have key: "fifo_key ?c j = fifo_key c j" for j
    using i(3) by (cases "j = i") (simp_all add: fifo_doUpdate_def)
  have val: "fifo_val ?c j = (if j = i then v else fifo_val c j)" for j
    using i(3) by (simp add: fifo_doUpdate_def nth_list_update)
  have flds: "fifoList ?c = fifoList c" "keyedElements_q ?c = keyedElements_q c"
    "usedSize_q ?c = usedSize_q c" "length (fifoNodes ?c) = length (fifoNodes c)"
    by (simp_all add: fifo_doUpdate_def)
  have "fifo_ok ?c \<and> fifo_free ?c = fr \<and> fifo_used ?c = us
      \<and> fifo_abs ?c = slots_view (fifo_key ?c) (fifo_val ?c) us"
    by (rule fifo_okI) (use c(2,3) in \<open>auto simp only: key flds c(1,4-7)\<close>)
  moreover have "the (fifo_key c j) = k \<longleftrightarrow> j = i" if "j \<in> set us" for j
    using slots_inj [OF c(6) that i(1)] i(2) c(3) that by force
  ultimately show "fifo_ok ?c" "fifo_abs ?c = map (\<lambda>(k', v'). (k', if k' = k then v else v')) (fifo_abs c)"
    using c(8) by (simp_all add: slots_view_def key val)
  show "fifo_capacity ?c = fifo_capacity c" by (simp add: fifo_capacity_def fifo_doUpdate_def)
qed

text \<open>The front node moves to the back and takes the new pair, whatever it held before.\<close>

lemma fifo_fill:
  assumes c: "fifoList c = i # rest" "distinct (i # rest)" "set (i # rest) = {..<length (fifoNodes c)}"
    and us: "rest = fr @ us"
    and fr: "\<forall>j \<in> set fr. fifo_key c j = None" "\<forall>j \<in> set us. fifo_key c j \<noteq> None"
    and keyed: "slots_ok (fifo_key c) us keyed" "keyed k = None"
    and c': "c' = c\<lparr>fifoList := fr @ us @ [i], usedSize_q := length us + 1,
        fifoNodes := (fifoNodes c)[i := (fifoNodes c ! i)\<lparr>value_q := v, keyedPosition_q := Some k\<rparr>],
        keyedElements_q := emplace keyed k i\<rparr>"
  shows "fifo_ok c'" "fifo_abs c' = slots_view (fifo_key c) (fifo_val c) us @ [(k, v)]"
proof -
  have i: "i \<notin> set us" "i \<notin> set fr" "i < length (fifoNodes c)"
    and d: "distinct (fr @ us)" "insert i (set fr \<union> set us) = {..<length (fifoNodes c)}"
    using c us by auto
  have key: "fifo_key c' j = ((fifo_key c)(i := Some k)) j" for j
    using i(3) by (simp add: c' nth_list_update)
  have val: "fifo_val c' j = (if j = i then v else fifo_val c j)" for j
    using i(3) by (simp add: c' nth_list_update)
  have "slots_ok ((fifo_key c)(i := Some k)) (us @ [i]) (keyed(k \<mapsto> i))"
    using slots_add [OF keyed(1) i(1) keyed(2)] i(1) d(1) by simp
  then have "slots_ok (fifo_key c') (us @ [i]) (keyedElements_q c')"
    using slots_keys_cong [of "us @ [i]" "fifo_key c'" "(fifo_key c)(i := Some k)"] key keyed(2)
    by (simp add: c' emplace_def)
  then have ok: "fifo_ok c' \<and> fifo_free c' = fr \<and> fifo_used c' = us @ [i]
      \<and> fifo_abs c' = slots_view (fifo_key c') (fifo_val c') (us @ [i])"
    using fr i d by (intro fifo_okI) (auto simp: key, auto simp: c')
  moreover have "slots_view (fifo_key c') (fifo_val c') us = slots_view (fifo_key c) (fifo_val c) us"
    using i(1) by (auto simp: slots_view_def key val)
  ultimately show "fifo_ok c'" "fifo_abs c' = slots_view (fifo_key c) (fifo_val c) us @ [(k, v)]"
    by (simp_all add: slots_view_def key val)
qed

lemma fifo_insert_refines:
  assumes "fifo_ok c" "0 < fifo_capacity c"
  shows "\<exists>c'. fifo_insert c k v = Some c' \<and> fifo_ok c' \<and> fifo_capacity c' = fifo_capacity c
    \<and> fifo_abs c' = arrival_insert (fifo_capacity c) k v (fifo_abs c)"
proof (cases "keyedElements_q c k")
  case (Some i)
  have "map_of (fifo_abs c) k \<noteq> None" using fifo_lookup [OF assms(1), of k] Some by simp
  then have "k \<in> fst ` set (fifo_abs c)" by (simp add: map_of_eq_None_iff)
  with Some fifo_update_step [OF assms(1) Some, of v] show ?thesis
    by (simp add: fifo_insert_def fifo_doInsertOrUpdate_def arrival_insert_def)
next
  case None
  have nk: "k \<notin> fst ` set (fifo_abs c)"
    using fifo_lookup [OF assms(1), of k] None by (simp add: map_of_eq_None_iff)
  have ins: "fifo_insert c k v = fifo_doInsert c k v"
    using None by (simp add: fifo_insert_def fifo_doInsertOrUpdate_def)
  obtain fr us where c: "fifoList c = fr @ us" "\<forall>i \<in> set fr. fifo_key c i = None"
    "\<forall>i \<in> set us. fifo_key c i \<noteq> None" "distinct (fr @ us)" "set (fr @ us) = {..<length (fifoNodes c)}"
    "slots_ok (fifo_key c) us (keyedElements_q c)" "usedSize_q c = length us"
    "fifo_abs c = slots_view (fifo_key c) (fifo_val c) us"
    using fifo_okE [OF assms(1)] .
  have len: "length (fifo_abs c) = length us" by (simp add: c(8) slots_view_def)
  show ?thesis
  proof (cases fr)
    case (Cons i fr')
    let ?c = "c\<lparr>fifoList := fr' @ us @ [i], usedSize_q := length us + 1,
        fifoNodes := (fifoNodes c)[i := (fifoNodes c ! i)\<lparr>value_q := v, keyedPosition_q := Some k\<rparr>],
        keyedElements_q := emplace (keyedElements_q c) k i\<rparr>"
    have "fifo_doInsert c k v = Some ?c"
      using Cons c(1,2,7) by (simp add: fifo_doInsert_def Let_def)
    moreover have "fifo_ok ?c" "fifo_abs ?c = fifo_abs c @ [(k, v)]"
      using fifo_fill [OF _ _ _ refl _ c(3,6) None refl, of i fr' v] c Cons by auto
    ultimately show ?thesis
      using nk len Cons c(1) unfolding ins by (simp add: arrival_insert_def fifo_capacity_def)
  next
    case Nil
    then obtain i us' where us: "us = i # us'" using assms(2) c(1) by (cases us) (auto simp: fifo_capacity_def)
    then obtain k0 where k0: "fifo_key c i = Some k0" using c(3) by auto
    then have keyed0: "keyedElements_q c k0 = Some i" using slots_keyed [OF c(6)] us by simp
    let ?keyed = "(keyedElements_q c)(k0 := None)"
    let ?c = "c\<lparr>fifoList := [] @ us' @ [i], usedSize_q := length us' + 1,
        fifoNodes := (fifoNodes c)[i := (fifoNodes c ! i)\<lparr>value_q := v, keyedPosition_q := Some k\<rparr>],
        keyedElements_q := emplace ?keyed k i\<rparr>"
    have s: "slots_ok (fifo_key c) us' ?keyed" using slots_remove [OF c(6) keyed0] us by simp
    have "fifo_doInsert c k v = Some ?c"
      using Nil us k0 c(1,7) by (simp add: fifo_doInsert_def Let_def)
    moreover have "fifo_ok ?c" "fifo_abs ?c = slots_view (fifo_key c) (fifo_val c) us' @ [(k, v)]"
      using fifo_fill [OF _ _ _ refl, where c = c and i = i and fr = "[]" and us = us' and k = k and v = v, OF _ _ _ _ _ s _ refl]
        c Nil us None by auto
    moreover have "tl (fifo_abs c) = slots_view (fifo_key c) (fifo_val c) us'"
      by (simp add: c(8) us slots_view_def)
    ultimately show ?thesis
      using nk len Nil us c(1) unfolding ins by (simp add: arrival_insert_def fifo_capacity_def)
  qed
qed

lemma fifo_erase_refines:
  assumes "fifo_ok c"
  shows "fst (fifo_erase c k) \<longleftrightarrow> map_of (fifo_abs c) k \<noteq> None" "fifo_ok (snd (fifo_erase c k))"
    "fifo_abs (snd (fifo_erase c k)) = filter (\<lambda>(k', _). k' \<noteq> k) (fifo_abs c)"
    "fifo_capacity (snd (fifo_erase c k)) = fifo_capacity c"
proof -
  note lookup = fifo_lookup [OF assms, of k]
  show "fst (fifo_erase c k) \<longleftrightarrow> map_of (fifo_abs c) k \<noteq> None" "fifo_ok (snd (fifo_erase c k))"
    "fifo_capacity (snd (fifo_erase c k)) = fifo_capacity c"
    using assms lookup fifo_erase_step [OF assms] by (auto simp: fifo_erase_def split: option.splits)
  show "fifo_abs (snd (fifo_erase c k)) = filter (\<lambda>(k', _). k' \<noteq> k) (fifo_abs c)"
    using lookup fifo_erase_step(2) [OF assms] filter_key_id [of "fifo_abs c" k]
    by (cases "keyedElements_q c k") (simp_all add: fifo_erase_def)
qed

section \<open>The contract\<close>

lemma map_of_map_key: "map_of (map (\<lambda>(k, v). (k, f k v)) xs) x = map_option (f x) (map_of xs x)"
  by (induction xs) auto

lemma arrival_update_view:
  assumes "k \<in> fst ` set xs"
  shows "map_of (map (\<lambda>(k', v'). (k', if k' = k then v else v')) xs) = (map_of xs)(k \<mapsto> v)"
proof
  fix x
  have "map_of xs k \<noteq> None" using assms by (simp add: map_of_eq_None_iff)
  then show "map_of (map (\<lambda>(k', v'). (k', if k' = k then v else v')) xs) x = ((map_of xs)(k \<mapsto> v)) x"
    by (auto simp: map_of_map_key option.map_id0)
      (metis (full_types) option.map_ident)
qed

lemma arrival_insert_view:
  assumes "distinct (map fst xs)" "0 < cap"
  shows "map_of (arrival_insert cap k v xs) k = Some v"
    "map_of (arrival_insert cap k v xs) \<subseteq>\<^sub>m (map_of xs)(k \<mapsto> v)"
    "k \<in> dom (map_of xs) \<or> length xs < cap \<Longrightarrow> map_of (arrival_insert cap k v xs) = (map_of xs)(k \<mapsto> v)"
proof -
  show eq: "k \<in> dom (map_of xs) \<or> length xs < cap \<Longrightarrow> map_of (arrival_insert cap k v xs) = (map_of xs)(k \<mapsto> v)"
    using arrival_update_view [of k xs v]
    by (auto simp: arrival_insert_def fun_eq_iff map_add_def dom_map_of_conv_image_fst split: option.splits)
      (simp_all add: map_of_eq_None_iff image_iff, (metis map_of_SomeD fst_conv)+)
  have "map_of (arrival_insert cap k v xs) k = Some v \<and> map_of (arrival_insert cap k v xs) \<subseteq>\<^sub>m (map_of xs)(k \<mapsto> v)"
  proof (cases "k \<in> dom (map_of xs) \<or> length xs < cap")
    case True
    then show ?thesis using eq by simp
  next
    case False
    then have k: "map_of xs k = None" and arr: "arrival_insert cap k v xs = tl xs @ [(k, v)]"
      by (auto simp: arrival_insert_def dom_map_of_conv_image_fst map_of_eq_None_iff)
    note le = map_of_tl_le [OF assms(1)]
    then have "map_of (tl xs) k = None" using k by (auto simp: map_le_def dom_def)
    with le show ?thesis unfolding arr
      by (auto simp: map_le_def map_add_def dom_def split: option.splits if_splits) 
  qed
  then show "map_of (arrival_insert cap k v xs) k = Some v"
    "map_of (arrival_insert cap k v xs) \<subseteq>\<^sub>m (map_of xs)(k \<mapsto> v)" by simp_all
qed

lemma fifo_abs_facts:
  assumes "fifo_ok c"
  shows "distinct (map fst (fifo_abs c))" "fifo_size c = length (fifo_abs c)" "length (fifo_abs c) \<le> fifo_capacity c"
proof -
  have s: "slots_ok (fifo_key c) (fifo_used c) (keyedElements_q c)" using assms by (simp add: fifo_ok_def)
  show "distinct (map fst (fifo_abs c))" unfolding fifo_abs_def using s by (rule slots_distinct_keys)
  show "fifo_size c = length (fifo_abs c)"
    using assms by (simp add: fifo_size_def fifo_ok_def fifo_abs_def slots_view_def)
  show "length (fifo_abs c) \<le> fifo_capacity c"
    by (simp add: fifo_abs_def slots_view_def fifo_capacity_def fifo_used_def)
qed

interpretation fifo: bounded_cache "Suc n" "fifo_create dflt (Suc n)" fifo_insert fifo_erase
  "\<lambda>c k. (fifo_find c k, c)" fifo_size "\<lambda>c. map_of (fifo_abs c)" "\<lambda>c. fifo_ok c \<and> fifo_capacity c = Suc n"
  for n :: nat and dflt :: 'v
proof unfold_locales
  fix c :: "('k, 'v) fifo" and k :: 'k and v :: 'v
  assume inv: "fifo_ok c \<and> fifo_capacity c = Suc n"
  note facts = fifo_abs_facts [of c]
  show "\<exists>c'. fifo_insert c k v = Some c' \<and> (fifo_ok c' \<and> fifo_capacity c' = Suc n)
      \<and> map_of (fifo_abs c') k = Some v \<and> map_of (fifo_abs c') \<subseteq>\<^sub>m (map_of (fifo_abs c))(k \<mapsto> v)
      \<and> (k \<in> dom (map_of (fifo_abs c)) \<or> fifo_size c < Suc n \<longrightarrow>
           map_of (fifo_abs c') = (map_of (fifo_abs c))(k \<mapsto> v))"
    using fifo_insert_refines [of c k v] facts inv
      arrival_insert_view [where xs = "fifo_abs c" and cap = "Suc n" and k = k and v = v] by auto
next
  fix c :: "('k, 'v) fifo"
  assume "fifo_ok c \<and> fifo_capacity c = Suc n"
  then show "finite (dom (map_of (fifo_abs c))) \<and> fifo_size c = card (dom (map_of (fifo_abs c))) \<and> fifo_size c \<le> Suc n"
    using fifo_abs_facts [of c] by (simp add: card_dom_map_of finite_dom_map_of)
qed (auto simp: fifo_create_ok fifo_erase_refines fifo_find_refines map_of_filter_key)

section \<open>Properties\<close>

text \<open>
  The FIFO cache implements its replacement policy. With at least one slot, \<open>insert\<close> never
  fails; a key that is present gets the new value and keeps its place, a new key goes to the back,
  and when the cache is full the pair inserted first is dropped. \<open>erase\<close> drops exactly the pair
  of the key.
\<close>

theorem fifo_policy:
  assumes "fifo_ok c" "0 < fifo_capacity c"
  shows "(\<exists>c'. fifo_insert c k v = Some c' \<and> fifo_ok c' \<and> fifo_capacity c' = fifo_capacity c
      \<and> fifo_abs c' = arrival_insert (fifo_capacity c) k v (fifo_abs c))
    \<and> (fst (fifo_erase c k) \<longleftrightarrow> map_of (fifo_abs c) k \<noteq> None)
    \<and> fifo_ok (snd (fifo_erase c k))
    \<and> fifo_abs (snd (fifo_erase c k)) = filter (\<lambda>(k', _). k' \<noteq> k) (fifo_abs c)"
  using fifo_insert_refines [OF assms] fifo_erase_refines [OF assms(1)] by blast

theorem fifo_policy_witness:
  "\<exists>c'. fifo_insert (fifo_create (0::int) 2 :: (char, int) fifo) CHR ''a'' 7 = Some c'
     \<and> fifo_abs c' = [(CHR ''a'', 7)]"
  using fifo_policy [of "fifo_create (0::int) 2 :: (char, int) fifo" "CHR ''a''" 7]
  by (auto simp: fifo_create_ok arrival_insert_def)

text \<open>
  Over any sequence of \<open>insert\<close>, \<open>erase\<close> and \<open>find\<close> calls a FIFO cache with at least one
  slot never fails, never holds more pairs than its capacity, and never returns anything but the
  value last inserted under the key; while the keys inserted fit, it returns that value always.
\<close>

theorem fifo_coherent:
  "\<exists>c. run_cacheOps fifo_insert fifo_erase (\<lambda>c k. (fifo_find c k, c)) (fifo_create dflt (Suc n)) ops = Some c
     \<and> fifo_size c \<le> Suc n
     \<and> (fifo_find c k = None \<or> fifo_find c k = map_cacheOps Map.empty ops k)
     \<and> (card (inserted_keys ops) \<le> Suc n \<longrightarrow> fifo_find c k = map_cacheOps Map.empty ops k)"
proof -
  obtain c where c: "run_cacheOps fifo_insert fifo_erase (\<lambda>c k. (fifo_find c k, c)) (fifo_create dflt (Suc n)) ops = Some c"
    "fifo_ok c" "map_of (fifo_abs c) \<subseteq>\<^sub>m map_cacheOps Map.empty ops" "fifo_size c \<le> Suc n"
    using fifo.run_coherent [where n = n and dflt = dflt and ops = ops] by blast
  have "map_of (fifo_abs c) k = None \<or> map_of (fifo_abs c) k = map_cacheOps Map.empty ops k"
    using c(3) unfolding map_le_def by (metis domIff)
  moreover have "map_of (fifo_abs c) = map_cacheOps Map.empty ops" if "card (inserted_keys ops) \<le> Suc n"
    using fifo.run_complete [OF that, where dflt = dflt] c(1) by auto
  ultimately show ?thesis using c by (auto simp: fifo_find_refines)
qed

theorem fifo_coherent_witness:
  "\<exists>c. run_cacheOps fifo_insert fifo_erase (\<lambda>c k. (fifo_find c k, c)) (fifo_create (0::int) (Suc 0))
         [CInsert CHR ''a'' 7, CFind CHR ''a''] = Some c
     \<and> fifo_find c CHR ''a'' = Some 7"
  using fifo_coherent [of "0::int" 0 "[CInsert CHR ''a'' 7, CFind CHR ''a'']" "CHR ''a''"] by auto

end
