(* ===== verification/DS_Cache_LFU.thy ===== *)
theory DS_Cache_LFU
  imports DS_Cache_Spec
begin

text \<open>
  The least-frequently-used cache: class \<open>LFU\<close> of \<open>src/data_structure/include/cache.hpp\<close>.

  \<open>openSlotList\<close> with its iterator \<open>openSlotListEnd\<close> is the pair of \<open>openUsed\<close> (the nodes in
  front of the iterator) and \<open>openFree\<close> (from the iterator on); \<open>lfuNodes\<close> is what the nodes
  contain. The multimap \<open>lfuList\<close> is the list of its entries in order. An entry holds a node
  that no other entry holds, so an iterator into the multimap is the entry.
\<close>

section \<open>State and operations\<close>

record ('k, 'v) lfuElement =
  keyedPosition_u :: "'k option"
  lfuPosition :: "nat \<times> nat"
  value_u :: 'v

record ('k, 'v) lfu =
  lfuNodes :: "('k, 'v) lfuElement list"
  openUsed :: "nat list"
  openFree :: "nat list"
  lfuList :: "(nat \<times> nat) list"
  keyedElements_u :: "'k \<rightharpoonup> nat"
  usedSize_u :: nat

definition lfu_create :: "'v \<Rightarrow> nat \<Rightarrow> ('k, 'v) lfu" where
  "lfu_create dflt cap =
     \<lparr>lfuNodes = replicate cap \<lparr>keyedPosition_u = None, lfuPosition = (0, 0), value_u = dflt\<rparr>,
      openUsed = [], openFree = [0..<cap], lfuList = [], keyedElements_u = Map.empty, usedSize_u = 0\<rparr>"

definition lfu_empty :: "('k, 'v) lfu \<Rightarrow> bool" where
  "lfu_empty c = (usedSize_u c = 0)"

definition lfu_size :: "('k, 'v) lfu \<Rightarrow> nat" where
  "lfu_size c = usedSize_u c"

definition lfu_capacity :: "('k, 'v) lfu \<Rightarrow> nat" where
  "lfu_capacity c = length (openUsed c @ openFree c)"

definition lfu_doAccess :: "('k, 'v) lfu \<Rightarrow> nat \<Rightarrow> ('k, 'v) lfu" where
  "lfu_doAccess c i =
     (let elem = lfuNodes c ! i;
          refcount = fst (lfuPosition elem);
          slot = the (keyedElements_u c (the (keyedPosition_u elem)))
      in c\<lparr>lfuList := mm_emplace (refcount + 1) slot (remove1 (lfuPosition elem) (lfuList c)),
           lfuNodes := (lfuNodes c)[i := elem\<lparr>lfuPosition := (refcount + 1, slot)\<rparr>]\<rparr>)"

definition lfu_doUpdate :: "('k, 'v) lfu \<Rightarrow> nat \<Rightarrow> 'v \<Rightarrow> ('k, 'v) lfu" where
  "lfu_doUpdate c i v =
     lfu_doAccess (c\<lparr>lfuNodes := (lfuNodes c)[i := (lfuNodes c ! i)\<lparr>value_u := v\<rparr>]\<rparr>) i"

definition lfu_doErase :: "('k, 'v) lfu \<Rightarrow> nat \<Rightarrow> ('k, 'v) lfu" where
  "lfu_doErase c i =
     (let elem = lfuNodes c ! i;
          c = (if i \<noteq> last (openUsed c) then c\<lparr>openUsed := remove1 i (openUsed c) @ [i]\<rparr> else c);
          c = c\<lparr>openUsed := butlast (openUsed c), openFree := last (openUsed c) # openFree c\<rparr>
      in c\<lparr>keyedElements_u := (keyedElements_u c)(the (keyedPosition_u elem) := None),
           lfuList := remove1 (lfuPosition elem) (lfuList c),
           usedSize_u := usedSize_u c - 1\<rparr>)"

definition lfu_doPrune :: "('k, 'v) lfu \<Rightarrow> ('k, 'v) lfu" where
  "lfu_doPrune c = (if usedSize_u c > 0 then lfu_doErase c (snd (hd (lfuList c))) else c)"

definition lfu_doInsert :: "('k, 'v) lfu \<Rightarrow> 'k \<Rightarrow> 'v \<Rightarrow> ('k, 'v) lfu option" where
  "lfu_doInsert c key v =
     (let c = (if usedSize_u c \<ge> length (openUsed c @ openFree c) then lfu_doPrune c else c) in
      case openFree c of
        [] \<Rightarrow> None
      | i # rest \<Rightarrow>
          Some (c\<lparr>keyedElements_u := emplace (keyedElements_u c) key i,
                  lfuList := mm_emplace 1 i (lfuList c),
                  lfuNodes := (lfuNodes c)[i := (lfuNodes c ! i)
                    \<lparr>value_u := v, keyedPosition_u := Some key, lfuPosition := (1, i)\<rparr>],
                  openUsed := openUsed c @ [i], openFree := rest, usedSize_u := usedSize_u c + 1\<rparr>))"

definition lfu_doInsertOrUpdate :: "('k, 'v) lfu \<Rightarrow> 'k \<Rightarrow> 'v \<Rightarrow> ('k, 'v) lfu option" where
  "lfu_doInsertOrUpdate c key v =
     (case keyedElements_u c key of
        Some i \<Rightarrow> Some (lfu_doUpdate c i v)
      | None \<Rightarrow> lfu_doInsert c key v)"

definition lfu_doFind :: "('k, 'v) lfu \<Rightarrow> 'k \<Rightarrow> bool \<Rightarrow> 'v option \<times> ('k, 'v) lfu" where
  "lfu_doFind c key peek =
     (case keyedElements_u c key of
        Some i \<Rightarrow>
          (let c = (if \<not> peek then lfu_doAccess c i else c) in (Some (value_u (lfuNodes c ! i)), c))
      | None \<Rightarrow> (None, c))"

definition lfu_doFindWithRefcount ::
  "('k, 'v) lfu \<Rightarrow> 'k \<Rightarrow> bool \<Rightarrow> ('v \<times> nat) option \<times> ('k, 'v) lfu" where
  "lfu_doFindWithRefcount c key peek =
     (case keyedElements_u c key of
        Some i \<Rightarrow>
          (let c = (if \<not> peek then lfu_doAccess c i else c)
           in (Some (value_u (lfuNodes c ! i), fst (lfuPosition (lfuNodes c ! i))), c))
      | None \<Rightarrow> (None, c))"

definition lfu_insert :: "('k, 'v) lfu \<Rightarrow> 'k \<Rightarrow> 'v \<Rightarrow> ('k, 'v) lfu option" where
  "lfu_insert c key v = lfu_doInsertOrUpdate c key v"

definition lfu_erase :: "('k, 'v) lfu \<Rightarrow> 'k \<Rightarrow> bool \<times> ('k, 'v) lfu" where
  "lfu_erase c key =
     (case keyedElements_u c key of
        Some i \<Rightarrow> (True, lfu_doErase c i)
      | None \<Rightarrow> (False, c))"

definition lfu_find :: "('k, 'v) lfu \<Rightarrow> 'k \<Rightarrow> bool \<Rightarrow> 'v option \<times> ('k, 'v) lfu" where
  "lfu_find c key peek = lfu_doFind c key peek"

definition lfu_findWithRefcount ::
  "('k, 'v) lfu \<Rightarrow> 'k \<Rightarrow> bool \<Rightarrow> ('v \<times> nat) option \<times> ('k, 'v) lfu" where
  "lfu_findWithRefcount c key peek = lfu_doFindWithRefcount c key peek"

definition lfu_insertRange :: "('k, 'v) lfu \<Rightarrow> ('k \<times> 'v) list \<Rightarrow> (nat \<times> ('k, 'v) lfu) option" where
  "lfu_insertRange = insertRange_with lfu_doInsertOrUpdate"

definition lfu_eraseRange :: "('k, 'v) lfu \<Rightarrow> 'k list \<Rightarrow> nat \<times> ('k, 'v) lfu" where
  "lfu_eraseRange = eraseRange_with lfu_erase"

definition lfu_findRange ::
  "('k, 'v) lfu \<Rightarrow> 'k list \<Rightarrow> bool \<Rightarrow> ('k \<times> 'v option) list \<times> ('k, 'v) lfu" where
  "lfu_findRange c ks peek = findRange_with (\<lambda>c k. lfu_doFind c k peek) c ks"

definition lfu_resolveRange ::
  "('k, 'v) lfu \<Rightarrow> ('k \<times> 'v option) list \<Rightarrow> bool \<Rightarrow> ('k \<times> 'v option) list \<times> ('k, 'v) lfu" where
  "lfu_resolveRange c kvs peek = resolveRange_with (\<lambda>c k. lfu_doFind c k peek) c kvs"

section \<open>Specification vocabulary\<close>

abbreviation lfu_key :: "('k, 'v) lfu \<Rightarrow> nat \<Rightarrow> 'k option" where
  "lfu_key c i \<equiv> keyedPosition_u (lfuNodes c ! i)"

abbreviation lfu_val :: "('k, 'v) lfu \<Rightarrow> nat \<Rightarrow> 'v" where
  "lfu_val c i \<equiv> value_u (lfuNodes c ! i)"

definition lfu_ok :: "('k, 'v) lfu \<Rightarrow> bool" where
  "lfu_ok c =
     (distinct (openUsed c @ openFree c) \<and> set (openUsed c @ openFree c) = {..<length (lfuNodes c)}
      \<and> set (map snd (lfuList c)) = set (openUsed c) \<and> sorted (map fst (lfuList c))
      \<and> slots_ok (lfu_key c) (map snd (lfuList c)) (keyedElements_u c)
      \<and> (\<forall>(n, i) \<in> set (lfuList c). lfuPosition (lfuNodes c ! i) = (n, i))
      \<and> usedSize_u c = length (openUsed c))"

text \<open>The pairs stored with their use counts, in the order in which they are evicted.\<close>

definition lfu_abs :: "('k, 'v) lfu \<Rightarrow> (nat \<times> 'k \<times> 'v) list" where
  "lfu_abs c = map (apsnd (\<lambda>i. (the (lfu_key c i), lfu_val c i))) (lfuList c)"

definition freq_view :: "(nat \<times> 'k \<times> 'v) list \<Rightarrow> ('k \<rightharpoonup> 'v)" where
  "freq_view xs = map_of (map snd xs)"

definition freq_count :: "(nat \<times> 'k \<times> 'v) list \<Rightarrow> ('k \<rightharpoonup> nat)" where
  "freq_count xs = map_of (map (\<lambda>(n, k, v). (k, n)) xs)"

definition freq_erase :: "'k \<Rightarrow> (nat \<times> 'k \<times> 'v) list \<Rightarrow> (nat \<times> 'k \<times> 'v) list" where
  "freq_erase k xs = filter (\<lambda>(n, k', v). k' \<noteq> k) xs"

text \<open>The replacement policy as functions on that list.\<close>

definition freq_insert :: "nat \<Rightarrow> 'k \<Rightarrow> 'v \<Rightarrow> (nat \<times> 'k \<times> 'v) list \<Rightarrow> (nat \<times> 'k \<times> 'v) list" where
  "freq_insert cap k v xs =
     (case freq_count xs k of
        Some n \<Rightarrow> mm_emplace (n + 1) (k, v) (freq_erase k xs)
      | None \<Rightarrow> mm_emplace 1 (k, v) (if length xs \<ge> cap then tl xs else xs))"

definition freq_touch :: "'k \<Rightarrow> (nat \<times> 'k \<times> 'v) list \<Rightarrow> (nat \<times> 'k \<times> 'v) list" where
  "freq_touch k xs =
     (case (freq_count xs k, freq_view xs k) of
        (Some n, Some v) \<Rightarrow> mm_emplace (n + 1) (k, v) (freq_erase k xs)
      | _ \<Rightarrow> xs)"

section \<open>Multimaps\<close>

lemma mm_emplace_set [simp]: "set (mm_emplace n x l) = insert (n, x) (set l)"
  by (induction n x l rule: mm_emplace.induct) auto

lemma mm_emplace_mset [simp]: "mset (mm_emplace n x l) = add_mset (n, x) (mset l)"
  by (induction n x l rule: mm_emplace.induct) auto

lemma mm_emplace_length [simp]: "length (mm_emplace n x l) = Suc (length l)"
  by (induction n x l rule: mm_emplace.induct) auto

lemma mm_emplace_map: "map (apsnd f) (mm_emplace n x l) = mm_emplace n (f x) (map (apsnd f) l)"
  by (induction n x l rule: mm_emplace.induct) auto

lemma mm_emplace_sorted: "sorted (map fst l) \<Longrightarrow> sorted (map fst (mm_emplace n x l))"
  by (induction n x l rule: mm_emplace.induct) (auto dest: bspec intro: order_trans)

lemma mm_emplace_distinct:
  "distinct (map g (mm_emplace n x l)) \<longleftrightarrow> g (n, x) \<notin> g ` set l \<and> distinct (map g l)"
  by (induction n x l rule: mm_emplace.induct) auto

lemma remove1_snd:
  assumes "distinct (map snd l)" "(n, i) \<in> set l"
  shows "remove1 (n, i) l = filter (\<lambda>(m, j). j \<noteq> i) l" "map snd (remove1 (n, i) l) = remove1 i (map snd l)"
proof -
  show eq: "remove1 (n, i) l = filter (\<lambda>(m, j). j \<noteq> i) l"
    using assms
  proof (induction l)
    case (Cons p l)
    then show ?case
    proof (cases "p = (n, i)")
      case True
      then have "\<forall>(m, j) \<in> set l. j \<noteq> i" using Cons.prems(1) by force
      then have "filter (\<lambda>(m, j). j \<noteq> i) l = l" by (auto simp: filter_id_conv)
      with True show ?thesis by simp
    next
      case False
      then have "(n, i) \<in> set l" using Cons.prems(2) by simp
      then have "i \<in> snd ` set l" by (metis image_eqI snd_conv)
      then have "snd p \<noteq> i" using Cons.prems(1) by auto
      with False Cons show ?thesis by (cases p) auto
    qed
  qed simp
  show "map snd (remove1 (n, i) l) = remove1 i (map snd l)"
  proof -
    have "remove1 i (map snd l) = filter (\<lambda>j. j \<noteq> i) (map snd l)"
      using assms(1) by (auto simp: distinct_remove1_removeAll removeAll_filter_not_eq intro!: filter_cong)
    then show ?thesis by (simp add: eq filter_map o_def case_prod_unfold)
  qed
qed

section \<open>Refinement\<close>

lemma lfu_abs_snd: "map snd (lfu_abs c) = slots_view (lfu_key c) (lfu_val c) (map snd (lfuList c))"
  by (simp add: lfu_abs_def slots_view_def o_def)

lemma lfu_lookup:
  "lfu_ok c \<Longrightarrow> freq_view (lfu_abs c) k = map_option (lfu_val c) (keyedElements_u c k)"
  by (simp add: freq_view_def lfu_abs_snd lfu_ok_def slots_lookup)

lemma lfu_abs_length: "lfu_ok c \<Longrightarrow> length (lfu_abs c) = length (openUsed c)"
proof -
  assume "lfu_ok c"
  then have "set (map snd (lfuList c)) = set (openUsed c)" "distinct (map snd (lfuList c))" "distinct (openUsed c)"
    by (simp_all add: lfu_ok_def slots_ok_def)
  then have "length (map snd (lfuList c)) = length (openUsed c)" by (metis distinct_card)
  then show ?thesis by (simp add: lfu_abs_def)
qed

lemma lfu_entry:
  assumes "lfu_ok c" "keyedElements_u c k = Some i"
  obtains n where "(n, i) \<in> set (lfuList c)" "lfuPosition (lfuNodes c ! i) = (n, i)"
    "lfu_key c i = Some k" "i \<in> set (openUsed c)" "i < length (lfuNodes c)" "i \<notin> set (openFree c)"
    "freq_count (lfu_abs c) k = Some n"
proof -
  have s: "slots_ok (lfu_key c) (map snd (lfuList c)) (keyedElements_u c)" using assms(1) by (simp add: lfu_ok_def)
  then have i: "i \<in> set (map snd (lfuList c))" "lfu_key c i = Some k"
    using slots_keyed [OF s, of k i] assms(2) by simp_all
  then obtain n where n: "(n, i) \<in> set (lfuList c)" by auto
  have used: "i \<in> set (openUsed c)" using i(1) assms(1) by (simp add: lfu_ok_def)
  have mem: "(n, k, lfu_val c i) \<in> set (lfu_abs c)" using n i(2) by (force simp: lfu_abs_def)
  have keys: "map fst (map (\<lambda>(n, k, v). (k, n)) (lfu_abs c)) = map fst (map snd (lfu_abs c))"
    by (simp add: case_prod_beta)
  have "distinct (map fst (map (\<lambda>(n, k, v). (k, n)) (lfu_abs c)))"
    unfolding keys lfu_abs_snd using s by (rule slots_distinct_keys)
  moreover have "(k, n) \<in> set (map (\<lambda>(n, k, v). (k, n)) (lfu_abs c))" using mem by force
  ultimately have "freq_count (lfu_abs c) k = Some n"
    unfolding freq_count_def by (rule map_of_is_SomeI)
  with n i(2) used assms(1) show thesis
    by (intro that [of n]) (auto simp: lfu_ok_def)
qed

lemma lfu_remove_abs:
  assumes "lfu_ok c" "keyedElements_u c k = Some i" "(n, i) \<in> set (lfuList c)"
  shows "map (apsnd (\<lambda>i. (the (lfu_key c i), lfu_val c i))) (remove1 (n, i) (lfuList c)) = freq_erase k (lfu_abs c)"
proof -
  have s: "slots_ok (lfu_key c) (map snd (lfuList c)) (keyedElements_u c)" using assms(1) by (simp add: lfu_ok_def)
  have i: "i \<in> set (map snd (lfuList c))" "lfu_key c i = Some k"
    using slots_keyed [OF s, of k i] assms(2) by simp_all
  have eq: "the (lfu_key c j) \<noteq> k \<longleftrightarrow> j \<noteq> i" if "(m, j) \<in> set (lfuList c)" for m j
  proof -
    have j: "j \<in> set (map snd (lfuList c))" using that by force
    then have "lfu_key c j \<noteq> None" using slots_key_some [OF s] by blast
    then show ?thesis using slots_inj [OF s j i(1)] i(2) by auto
  qed
  have "distinct (map snd (lfuList c))" using s by (simp add: slots_ok_def)
  then have "remove1 (n, i) (lfuList c) = filter (\<lambda>(m, j). the (lfu_key c j) \<noteq> k) (lfuList c)"
    using remove1_snd(1) [OF _ assms(3)] eq by (auto intro!: filter_cong)
  then show ?thesis
    by (simp add: lfu_abs_def freq_erase_def filter_map o_def case_prod_unfold)
qed

lemma lfu_doErase_eq:
  assumes "lfu_ok c" "keyedElements_u c k = Some i" "(n, i) \<in> set (lfuList c)"
  shows "lfu_doErase c i =
    c\<lparr>openUsed := remove1 i (openUsed c), openFree := i # openFree c,
      keyedElements_u := (keyedElements_u c)(k := None), lfuList := remove1 (n, i) (lfuList c),
      usedSize_u := usedSize_u c - 1\<rparr>"
proof -
  obtain n' where e: "(n', i) \<in> set (lfuList c)" "lfuPosition (lfuNodes c ! i) = (n', i)"
    "lfu_key c i = Some k" "i \<in> set (openUsed c)" using lfu_entry [OF assms(1,2)] by metis
  have "n' = n" using assms(1,3) e(2) by (force simp: lfu_ok_def)
  have "i = last (openUsed c) \<Longrightarrow> butlast (openUsed c) = remove1 i (openUsed c)"
    using e(4) assms(1) by (cases "openUsed c" rule: rev_cases) (auto simp: lfu_ok_def remove1_append)
  then show ?thesis using e \<open>n' = n\<close> by (auto simp: lfu_doErase_def Let_def)
qed

lemma lfu_doErase_ok:
  assumes "lfu_ok c" "keyedElements_u c k = Some i"
  shows "lfu_ok (lfu_doErase c i)" "lfu_abs (lfu_doErase c i) = freq_erase k (lfu_abs c)"
    "openFree (lfu_doErase c i) \<noteq> []" "lfu_capacity (lfu_doErase c i) = lfu_capacity c"
    "usedSize_u (lfu_doErase c i) < lfu_capacity c"
    "keyedElements_u (lfu_doErase c i) = (keyedElements_u c)(k := None)"
proof -
  obtain n where e: "(n, i) \<in> set (lfuList c)" "lfu_key c i = Some k" "i \<in> set (openUsed c)"
    "i < length (lfuNodes c)" "i \<notin> set (openFree c)" using lfu_entry [OF assms] by metis
  note eq = lfu_doErase_eq [OF assms e(1)]
  have s: "slots_ok (lfu_key c) (map snd (lfuList c)) (keyedElements_u c)" using assms(1) by (simp add: lfu_ok_def)
  then have d: "distinct (map snd (lfuList c))" by (simp add: slots_ok_def)
  note snd = remove1_snd(2) [OF d e(1)]
  have used: "distinct (openUsed c)" "distinct (openFree c)" "set (openUsed c) \<inter> set (openFree c) = {}"
    "set (openUsed c) \<union> set (openFree c) = {..<length (lfuNodes c)}"
    "set (map snd (lfuList c)) = set (openUsed c)" "usedSize_u c = length (openUsed c)"
    "\<And>m j. (m, j) \<in> set (lfuList c) \<Longrightarrow> lfuPosition (lfuNodes c ! j) = (m, j)"
    using assms(1) by (auto simp: lfu_ok_def)
  have "sorted (map fst (remove1 (n, i) (lfuList c)))"
    using assms(1) remove1_snd(1) [OF d e(1)] by (simp add: lfu_ok_def sorted_filter)
  moreover have "set (remove1 i (map snd (lfuList c))) = set (remove1 i (openUsed c))"
    using set_remove1_eq [OF d] set_remove1_eq [OF used(1)] used(5) by simp
  moreover have "distinct (remove1 i (openUsed c) @ i # openFree c)"
    using used(1-3) e(5) by auto
  moreover have "set (remove1 i (openUsed c) @ i # openFree c) = {..<length (lfuNodes c)}"
    using set_remove1_eq [OF used(1)] used(4) e(3) by auto
  moreover have "\<forall>(m, j) \<in> set (remove1 (n, i) (lfuList c)). lfuPosition (lfuNodes c ! j) = (m, j)"
    using used(7) set_remove1_subset by fastforce
  ultimately show "lfu_ok (lfu_doErase c i)"
    using slots_remove [OF s assms(2)] e(3) used(6) unfolding eq lfu_ok_def
    by (simp add: snd length_remove1 del: set_map set_append distinct_append)
  show "lfu_abs (lfu_doErase c i) = freq_erase k (lfu_abs c)"
    using lfu_remove_abs [OF assms e(1)] unfolding eq by (simp add: lfu_abs_def)
  show "openFree (lfu_doErase c i) \<noteq> []" "keyedElements_u (lfu_doErase c i) = (keyedElements_u c)(k := None)"
    by (simp_all add: eq)
  have "0 < length (openUsed c)" using e(3) by (rule length_pos_if_in_set)
  then show "lfu_capacity (lfu_doErase c i) = lfu_capacity c" "usedSize_u (lfu_doErase c i) < lfu_capacity c"
    using e(3) used(6) by (simp_all add: eq lfu_capacity_def length_remove1 del: length_greater_0_conv)
qed

text \<open>An access gives the pair a new value and moves its entry behind the next use count.\<close>

lemma lfu_touch_ok:
  assumes "lfu_ok c" "keyedElements_u c k = Some i" "(n, i) \<in> set (lfuList c)"
    and c': "c' = c\<lparr>lfuList := mm_emplace (n + 1) i (remove1 (n, i) (lfuList c)),
      lfuNodes := (lfuNodes c)[i := (lfuNodes c ! i)\<lparr>value_u := v, lfuPosition := (n + 1, i)\<rparr>]\<rparr>"
  shows "lfu_ok c'" "lfu_abs c' = mm_emplace (n + 1) (k, v) (freq_erase k (lfu_abs c))"
proof -
  have e: "lfu_key c i = Some k" "i \<in> set (openUsed c)" "i < length (lfuNodes c)"
    using lfu_entry [OF assms(1,2)] by metis+
  have s: "slots_ok (lfu_key c) (map snd (lfuList c)) (keyedElements_u c)" using assms(1) by (simp add: lfu_ok_def)
  note d = slots_distinct [OF s]
  let ?l = "remove1 (n, i) (lfuList c)" and ?l' = "mm_emplace (n + 1) i (remove1 (n, i) (lfuList c))"
  have key: "lfu_key c' j = lfu_key c j" and val: "lfu_val c' j = (if j = i then v else lfu_val c j)"
    and pos: "lfuPosition (lfuNodes c' ! j) = (if j = i then (n + 1, i) else lfuPosition (lfuNodes c ! j))" for j
    using e(3) by (cases "j = i"; simp add: c')+
  have l: "?l = filter (\<lambda>(m, j). j \<noteq> i) (lfuList c)" by (rule remove1_snd(1) [OF d assms(3)])
  have ids: "set (map snd ?l') = set (map snd (lfuList c))" "distinct (map snd ?l')"
  proof -
    show "distinct (map snd ?l')" using d by (auto simp: mm_emplace_distinct l distinct_map_filter)
    have "i \<in> snd ` set (lfuList c)" using assms(3) by force
    then show "set (map snd ?l') = set (map snd (lfuList c))" unfolding l by (auto simp: image_iff)
  qed
  have "slots_ok (lfu_key c) (map snd ?l') (keyedElements_u c)" by (rule slots_perm [OF s ids])
  then have "slots_ok (lfu_key c') (map snd ?l') (keyedElements_u c)"
    by (rule slots_keys_cong [OF key])
  moreover have "\<forall>(m, j) \<in> set ?l'. lfuPosition (lfuNodes c' ! j) = (m, j)"
    using assms(1) unfolding pos by (auto simp: l lfu_ok_def)
  moreover have "sorted (map fst ?l')"
    using assms(1) by (auto intro!: mm_emplace_sorted simp: l lfu_ok_def sorted_filter)
  moreover have "distinct (openUsed c @ openFree c)" "set (openUsed c @ openFree c) = {..<length (lfuNodes c)}"
    "usedSize_u c = length (openUsed c)" "set (map snd (lfuList c)) = set (openUsed c)"
    using assms(1) unfolding lfu_ok_def by blast+
  ultimately show "lfu_ok c'"
    using ids(1) by (simp add: lfu_ok_def c' del: set_append distinct_append set_map)
  have "map (apsnd (\<lambda>j. (the (lfu_key c' j), lfu_val c' j))) ?l
      = map (apsnd (\<lambda>j. (the (lfu_key c j), lfu_val c j))) ?l"
    unfolding key val by (auto simp: l)
  then have "map (apsnd (\<lambda>j. (the (lfu_key c' j), lfu_val c' j))) ?l = freq_erase k (lfu_abs c)"
    using lfu_remove_abs [OF assms(1-3)] by simp
  moreover have "lfuList c' = ?l'" by (simp add: c')
  ultimately show "lfu_abs c' = mm_emplace (n + 1) (k, v) (freq_erase k (lfu_abs c))"
    unfolding lfu_abs_def [of c'] by (simp only: mm_emplace_map key val e(1) option.sel if_True refl)
qed

lemma lfu_doUpdate_ok:
  assumes "lfu_ok c" "keyedElements_u c k = Some i" "freq_count (lfu_abs c) k = Some n"
  shows "lfu_ok (lfu_doUpdate c i v)" "lfu_abs (lfu_doUpdate c i v) = mm_emplace (n + 1) (k, v) (freq_erase k (lfu_abs c))"
    "lfu_capacity (lfu_doUpdate c i v) = lfu_capacity c"
proof -
  obtain n' where e: "(n', i) \<in> set (lfuList c)" "lfuPosition (lfuNodes c ! i) = (n', i)" "lfu_key c i = Some k"
    "i < length (lfuNodes c)" "freq_count (lfu_abs c) k = Some n'" using lfu_entry [OF assms(1,2)] by metis
  have eq: "lfu_doUpdate c i v = c\<lparr>lfuList := mm_emplace (n' + 1) i (remove1 (n', i) (lfuList c)),
      lfuNodes := (lfuNodes c)[i := (lfuNodes c ! i)\<lparr>value_u := v, lfuPosition := (n' + 1, i)\<rparr>]\<rparr>"
    using e assms(2) by (simp add: lfu_doUpdate_def lfu_doAccess_def Let_def)
  show "lfu_ok (lfu_doUpdate c i v)" "lfu_abs (lfu_doUpdate c i v) = mm_emplace (n + 1) (k, v) (freq_erase k (lfu_abs c))"
    using lfu_touch_ok [OF assms(1,2) e(1) eq] e(5) assms(3) by simp_all
  show "lfu_capacity (lfu_doUpdate c i v) = lfu_capacity c" by (simp add: eq lfu_capacity_def)
qed

text \<open>Reading without peeking is an update with the value that is there.\<close>

lemma lfu_doAccess_update:
  assumes "lfu_ok c" "keyedElements_u c k = Some i"
  shows "lfu_doAccess c i = lfu_doUpdate c i (lfu_val c i)"
proof -
  have "i < length (lfuNodes c)" using lfu_entry [OF assms] by metis
  then show ?thesis by (simp add: lfu_doUpdate_def)
qed

lemma lfu_fill_ok:
  assumes "lfu_ok c" "keyedElements_u c k = None" "openFree c = i # rest"
    and c': "c' = c\<lparr>keyedElements_u := emplace (keyedElements_u c) k i,
                  lfuList := mm_emplace 1 i (lfuList c),
                  lfuNodes := (lfuNodes c)[i := (lfuNodes c ! i)
                    \<lparr>value_u := v, keyedPosition_u := Some k, lfuPosition := (1, i)\<rparr>],
                  openUsed := openUsed c @ [i], openFree := rest, usedSize_u := usedSize_u c + 1\<rparr>"
  shows "lfu_ok c'" "lfu_abs c' = mm_emplace 1 (k, v) (lfu_abs c)"
proof -
  have s: "slots_ok (lfu_key c) (map snd (lfuList c)) (keyedElements_u c)" using assms(1) by (simp add: lfu_ok_def)
  have i: "i \<notin> set (openUsed c)" "i < length (lfuNodes c)" "i \<notin> set (map snd (lfuList c))"
    using assms(1,3) by (auto simp: lfu_ok_def)
  have key: "lfu_key c' j = ((lfu_key c)(i := Some k)) j" and val: "lfu_val c' j = (if j = i then v else lfu_val c j)"
    and pos: "lfuPosition (lfuNodes c' ! j) = (if j = i then (1, i) else lfuPosition (lfuNodes c ! j))" for j
    using i(2) by (cases "j = i"; simp add: c')+
  let ?l' = "mm_emplace 1 i (lfuList c)"
  have ids: "set (map snd ?l') = insert i (set (map snd (lfuList c)))" "distinct (map snd ?l')"
    using slots_distinct [OF s] i(3) by (auto simp: mm_emplace_distinct)
  have "slots_ok (lfu_key c') (map snd ?l') ((keyedElements_u c)(k \<mapsto> i))"
    using slots_add [OF s i(3) assms(2) ids] by (rule slots_keys_cong [OF key])
  moreover have "\<forall>(m, j) \<in> set ?l'. lfuPosition (lfuNodes c' ! j) = (m, j)"
    using assms(1) i(3) unfolding pos by (force simp: lfu_ok_def)
  moreover have "sorted (map fst ?l')" using assms(1) by (auto intro!: mm_emplace_sorted simp: lfu_ok_def)
  moreover have "distinct (openUsed c @ openFree c)" "set (openUsed c @ openFree c) = {..<length (lfuNodes c)}"
    "usedSize_u c = length (openUsed c)" "set (map snd (lfuList c)) = set (openUsed c)"
    using assms(1) unfolding lfu_ok_def by blast+
  ultimately show "lfu_ok c'"
    using ids(1) assms(2,3) by (simp add: lfu_ok_def c' emplace_def del: set_map)
  have "map (apsnd (\<lambda>j. (the (lfu_key c' j), lfu_val c' j))) (lfuList c) = lfu_abs c"
    using i(3) unfolding key val lfu_abs_def by (auto simp: image_iff)
  moreover have "lfuList c' = ?l'" by (simp add: c')
  ultimately show "lfu_abs c' = mm_emplace 1 (k, v) (lfu_abs c)"
    unfolding lfu_abs_def [of c'] by (simp only: mm_emplace_map key val fun_upd_same option.sel if_True refl)
qed

lemma lfu_prune_ok:
  assumes "lfu_ok c" "openFree c = []" "0 < lfu_capacity c"
  shows "lfu_ok (lfu_doPrune c)" "lfu_abs (lfu_doPrune c) = tl (lfu_abs c)"
    "openFree (lfu_doPrune c) \<noteq> []" "lfu_capacity (lfu_doPrune c) = lfu_capacity c"
    "usedSize_u (lfu_doPrune c) < lfu_capacity c"
    "keyedElements_u c k = None \<Longrightarrow> keyedElements_u (lfu_doPrune c) k = None"
proof -
  have used: "usedSize_u c = length (openUsed c)" "0 < length (openUsed c)"
    using assms by (simp_all add: lfu_ok_def lfu_capacity_def)
  then have "length (lfuList c) > 0" using lfu_abs_length [OF assms(1)] by (simp add: lfu_abs_def)
  then obtain n i l where l: "lfuList c = (n, i) # l" by (cases "lfuList c") auto
  have s: "slots_ok (lfu_key c) (map snd (lfuList c)) (keyedElements_u c)" using assms(1) by (simp add: lfu_ok_def)
  obtain k0 where "lfu_key c i = Some k0" using slots_key_some [OF s, of i] l by auto
  then have k0: "keyedElements_u c k0 = Some i" using slots_keyed [OF s] l by simp
  have eq: "lfu_doPrune c = lfu_doErase c i" using used l by (simp add: lfu_doPrune_def)
  note e = lfu_doErase_ok [OF assms(1) k0]
  show "lfu_ok (lfu_doPrune c)" "openFree (lfu_doPrune c) \<noteq> []" "lfu_capacity (lfu_doPrune c) = lfu_capacity c"
    "usedSize_u (lfu_doPrune c) < lfu_capacity c" using e by (simp_all add: eq)
  show "keyedElements_u c k = None \<Longrightarrow> keyedElements_u (lfu_doPrune c) k = None" by (simp add: eq e(6))
  show "lfu_abs (lfu_doPrune c) = tl (lfu_abs c)"
    using lfu_remove_abs [OF assms(1) k0, of n] e(2) l by (simp add: eq lfu_abs_def)
qed

lemma lfu_count_None: "lfu_ok c \<Longrightarrow> keyedElements_u c k = None \<Longrightarrow> freq_count (lfu_abs c) k = None"
  using lfu_lookup [of c k] by (force simp: freq_count_def freq_view_def map_of_eq_None_iff image_iff)

lemma lfu_insert_refines:
  assumes "lfu_ok c" "0 < lfu_capacity c"
  shows "\<exists>c'. lfu_insert c k v = Some c' \<and> lfu_ok c' \<and> lfu_capacity c' = lfu_capacity c
    \<and> lfu_abs c' = freq_insert (lfu_capacity c) k v (lfu_abs c)"
proof (cases "keyedElements_u c k")
  case (Some i)
  then obtain n where n: "freq_count (lfu_abs c) k = Some n" using lfu_entry [OF assms(1) Some] by metis
  with Some lfu_doUpdate_ok [OF assms(1) Some n, of v] show ?thesis
    by (simp add: lfu_insert_def lfu_doInsertOrUpdate_def freq_insert_def)
next
  case None
  have ins: "lfu_insert c k v = lfu_doInsert c k v"
    using None by (simp add: lfu_insert_def lfu_doInsertOrUpdate_def)
  have spec: "freq_insert (lfu_capacity c) k v (lfu_abs c) =
      mm_emplace 1 (k, v) (if length (openUsed c) \<ge> lfu_capacity c then tl (lfu_abs c) else lfu_abs c)"
    using lfu_count_None [OF assms(1) None] lfu_abs_length [OF assms(1)] by (simp add: freq_insert_def)
  have used: "usedSize_u c = length (openUsed c)" using assms(1) by (simp add: lfu_ok_def)
  show ?thesis
  proof (cases "openFree c")
    case (Cons i rest)
    with lfu_fill_ok [OF assms(1) None Cons refl, of v] used show ?thesis
      unfolding ins spec by (simp add: lfu_doInsert_def lfu_capacity_def)
  next
    case Nil
    note p = lfu_prune_ok [OF assms(1) Nil assms(2)]
    obtain i rest where f: "openFree (lfu_doPrune c) = i # rest" using p(3) by (cases "openFree (lfu_doPrune c)") auto
    have full: "usedSize_u c \<ge> lfu_capacity c" using Nil used by (simp add: lfu_capacity_def)
    from lfu_fill_ok [OF p(1) p(6) [OF None] f refl, of v] p(2,4) full f used show ?thesis
      unfolding ins spec by (simp add: lfu_doInsert_def lfu_capacity_def Let_def)
  qed
qed

lemma lfu_find_refines:
  assumes "lfu_ok c"
  shows "fst (lfu_find c k peek) = freq_view (lfu_abs c) k" "lfu_ok (snd (lfu_find c k peek))"
    "lfu_abs (snd (lfu_find c k peek)) = (if peek then lfu_abs c else freq_touch k (lfu_abs c))"
    "lfu_capacity (snd (lfu_find c k peek)) = lfu_capacity c"
    "fst (lfu_findWithRefcount c k peek) =
      (case (freq_view (lfu_abs c) k, freq_count (lfu_abs c) k) of
         (Some v, Some n) \<Rightarrow> Some (v, if peek then n else n + 1) | _ \<Rightarrow> None)"
    "snd (lfu_findWithRefcount c k peek) = snd (lfu_find c k peek)"
proof -
  note lookup = lfu_lookup [OF assms, of k]
  have "fst (lfu_find c k peek) = freq_view (lfu_abs c) k \<and> lfu_ok (snd (lfu_find c k peek))
    \<and> lfu_abs (snd (lfu_find c k peek)) = (if peek then lfu_abs c else freq_touch k (lfu_abs c))
    \<and> lfu_capacity (snd (lfu_find c k peek)) = lfu_capacity c
    \<and> fst (lfu_findWithRefcount c k peek) =
      (case (freq_view (lfu_abs c) k, freq_count (lfu_abs c) k) of
         (Some v, Some n) \<Rightarrow> Some (v, if peek then n else n + 1) | _ \<Rightarrow> None)
    \<and> snd (lfu_findWithRefcount c k peek) = snd (lfu_find c k peek)"
  proof (cases "keyedElements_u c k")
    case None
    with lookup lfu_count_None [OF assms None] assms show ?thesis
      by (simp add: lfu_find_def lfu_doFind_def lfu_findWithRefcount_def lfu_doFindWithRefcount_def freq_touch_def)
  next
    case (Some i)
    obtain n where e: "lfuPosition (lfuNodes c ! i) = (n, i)" "lfu_key c i = Some k" "i < length (lfuNodes c)"
      "freq_count (lfu_abs c) k = Some n" using lfu_entry [OF assms Some] by metis
    have v: "freq_view (lfu_abs c) k = Some (lfu_val c i)" using lookup Some by simp
    have a: "lfu_val (lfu_doAccess c i) i = lfu_val c i" "lfuPosition (lfuNodes (lfu_doAccess c i) ! i) = (n + 1, i)"
      using e Some by (simp_all add: lfu_doAccess_def)
    show ?thesis
      using Some e v a assms lfu_doUpdate_ok [OF assms Some e(4), of "lfu_val c i"] lfu_doAccess_update [OF assms Some]
      by (simp add: lfu_find_def lfu_doFind_def lfu_findWithRefcount_def lfu_doFindWithRefcount_def
          freq_touch_def Let_def)
  qed
  then show "fst (lfu_find c k peek) = freq_view (lfu_abs c) k" "lfu_ok (snd (lfu_find c k peek))"
    "lfu_abs (snd (lfu_find c k peek)) = (if peek then lfu_abs c else freq_touch k (lfu_abs c))"
    "lfu_capacity (snd (lfu_find c k peek)) = lfu_capacity c"
    "fst (lfu_findWithRefcount c k peek) =
      (case (freq_view (lfu_abs c) k, freq_count (lfu_abs c) k) of
         (Some v, Some n) \<Rightarrow> Some (v, if peek then n else n + 1) | _ \<Rightarrow> None)"
    "snd (lfu_findWithRefcount c k peek) = snd (lfu_find c k peek)" by blast+
qed

lemma freq_erase_id: "freq_view xs k = None \<Longrightarrow> freq_erase k xs = xs"
  by (force simp: freq_view_def freq_erase_def filter_id_conv map_of_eq_None_iff image_iff)

lemma lfu_erase_refines:
  assumes "lfu_ok c"
  shows "fst (lfu_erase c k) \<longleftrightarrow> freq_view (lfu_abs c) k \<noteq> None" "lfu_ok (snd (lfu_erase c k))"
    "lfu_abs (snd (lfu_erase c k)) = freq_erase k (lfu_abs c)"
    "lfu_capacity (snd (lfu_erase c k)) = lfu_capacity c"
  using assms lfu_lookup [OF assms, of k] lfu_doErase_ok [OF assms] freq_erase_id [of "lfu_abs c" k]
  by (cases "keyedElements_u c k"; simp add: lfu_erase_def)+

lemma lfu_create_ok: "lfu_ok (lfu_create dflt cap)" "lfu_abs (lfu_create dflt cap) = []"
  "lfu_capacity (lfu_create dflt cap) = cap"
  by (auto simp: lfu_ok_def lfu_create_def lfu_abs_def slots_ok_def lfu_capacity_def)

section \<open>The contract\<close>

lemma freq_view_emplace:
  "freq_view xs k = None \<Longrightarrow> freq_view (mm_emplace n (k, v) xs) = (freq_view xs)(k \<mapsto> v)"
  unfolding freq_view_def
  by (induction n "(k, v)" xs rule: mm_emplace.induct) (auto simp: fun_eq_iff split: if_splits)

lemma freq_view_erase: "freq_view (freq_erase k xs) = (freq_view xs)(k := None)"
  unfolding freq_view_def freq_erase_def by (induction xs) (auto simp: fun_eq_iff)

lemma freq_touch_view: "freq_view (freq_touch k xs) = freq_view xs"
  by (auto simp: freq_touch_def freq_view_emplace freq_view_erase fun_eq_iff split: option.splits)

lemma freq_count_view: "freq_count xs k = None \<longleftrightarrow> freq_view xs k = None"
  by (force simp: freq_count_def freq_view_def map_of_eq_None_iff image_iff)

lemma freq_insert_view:
  assumes "distinct (map fst (map snd xs))" "0 < cap"
  shows "freq_view (freq_insert cap k v xs) k = Some v
    \<and> freq_view (freq_insert cap k v xs) \<subseteq>\<^sub>m (freq_view xs)(k \<mapsto> v)
    \<and> (k \<in> dom (freq_view xs) \<or> length xs < cap \<longrightarrow> freq_view (freq_insert cap k v xs) = (freq_view xs)(k \<mapsto> v))"
proof (cases "freq_count xs k")
  case (Some n)
  then have "freq_view (freq_insert cap k v xs) = (freq_view xs)(k \<mapsto> v)"
    by (simp add: freq_insert_def freq_view_emplace freq_view_erase fun_upd_def fun_eq_iff)
  then show ?thesis by simp
next
  case None
  then have k: "freq_view xs k = None" by (simp add: freq_count_view)
  have le: "freq_view (tl xs) \<subseteq>\<^sub>m freq_view xs"
    unfolding freq_view_def using map_of_tl_le [OF assms(1)] by (simp add: map_tl)
  then have "freq_view (tl xs) k = None" using k unfolding map_le_def by (metis domIff)
  then have "freq_view (freq_insert cap k v xs) =
      (if length xs \<ge> cap then (freq_view (tl xs))(k \<mapsto> v) else (freq_view xs)(k \<mapsto> v))"
    using None k by (simp add: freq_insert_def freq_view_emplace)
  with map_le_upd [OF le] k show ?thesis by (auto simp: dom_def)
qed

lemma lfu_abs_facts:
  assumes "lfu_ok c"
  shows "distinct (map fst (map snd (lfu_abs c)))" "lfu_size c = length (lfu_abs c)"
    "length (lfu_abs c) \<le> lfu_capacity c"
proof -
  have s: "slots_ok (lfu_key c) (map snd (lfuList c)) (keyedElements_u c)" using assms by (simp add: lfu_ok_def)
  show "distinct (map fst (map snd (lfu_abs c)))" unfolding lfu_abs_snd using s by (rule slots_distinct_keys)
  show "lfu_size c = length (lfu_abs c)" "length (lfu_abs c) \<le> lfu_capacity c"
    using assms lfu_abs_length [OF assms] by (simp_all add: lfu_size_def lfu_ok_def lfu_capacity_def)
qed

interpretation lfu: bounded_cache "Suc n" "lfu_create dflt (Suc n)" lfu_insert lfu_erase
  "\<lambda>c k. lfu_find c k False" lfu_size "\<lambda>c. freq_view (lfu_abs c)" "\<lambda>c. lfu_ok c \<and> lfu_capacity c = Suc n"
  for n :: nat and dflt :: 'v
proof unfold_locales
  fix c :: "('k, 'v) lfu" and k :: 'k and v :: 'v
  assume inv: "lfu_ok c \<and> lfu_capacity c = Suc n"
  then obtain c' where c': "lfu_insert c k v = Some c'" "lfu_ok c'" "lfu_capacity c' = Suc n"
    "lfu_abs c' = freq_insert (Suc n) k v (lfu_abs c)" using lfu_insert_refines [of c k v] by auto
  with freq_insert_view [OF lfu_abs_facts(1), of c "Suc n" k v] lfu_abs_facts(2) [of c] inv
  show "\<exists>c'. lfu_insert c k v = Some c' \<and> (lfu_ok c' \<and> lfu_capacity c' = Suc n)
      \<and> freq_view (lfu_abs c') k = Some v \<and> freq_view (lfu_abs c') \<subseteq>\<^sub>m (freq_view (lfu_abs c))(k \<mapsto> v)
      \<and> (k \<in> dom (freq_view (lfu_abs c)) \<or> lfu_size c < Suc n \<longrightarrow>
           freq_view (lfu_abs c') = (freq_view (lfu_abs c))(k \<mapsto> v))"
    by auto
next
  fix c :: "('k, 'v) lfu"
  assume "lfu_ok c \<and> lfu_capacity c = Suc n"
  then show "finite (dom (freq_view (lfu_abs c))) \<and> lfu_size c = card (dom (freq_view (lfu_abs c))) \<and> lfu_size c \<le> Suc n"
    using lfu_abs_facts [of c] unfolding freq_view_def by (simp only: card_dom_map_of finite_dom_map_of) simp
qed (auto simp: lfu_create_ok freq_view_def [of "[]"] lfu_erase_refines lfu_find_refines freq_view_erase freq_touch_view)

section \<open>Properties\<close>

text \<open>
  C25: the LFU cache implements its replacement policy. With at least one slot, \<open>insert\<close> never
  fails; a key that is present gets the new value and one more use, a new key starts with one use,
  and when the cache is full the entry with the smallest use count is dropped, the one that has
  had this count for the longest time among equals.
\<close>

theorem lfu_insert_policy:
  assumes "lfu_ok c" "0 < lfu_capacity c"
  shows "\<exists>c'. lfu_insert c k v = Some c' \<and> lfu_ok c' \<and> lfu_capacity c' = lfu_capacity c
    \<and> lfu_abs c' = freq_insert (lfu_capacity c) k v (lfu_abs c) \<and> sorted (map fst (lfu_abs c'))"
  using lfu_insert_refines [OF assms, of k v] by (auto simp: lfu_abs_def lfu_ok_def)

theorem lfu_insert_policy_witness:
  "\<exists>c'. lfu_insert (lfu_create (0::int) 2 :: (char, int) lfu) CHR ''a'' 7 = Some c'
     \<and> lfu_abs c' = [(1, CHR ''a'', 7)]"
  using lfu_insert_policy [of "lfu_create (0::int) 2 :: (char, int) lfu" "CHR ''a''" 7]
  by (auto simp: lfu_create_ok freq_insert_def freq_count_def)

text \<open>
  \<open>find\<close> and \<open>findWithRefcount\<close> return what is stored under the key, the latter with the use
  count this very call leaves; unless they peek they add one use; \<open>erase\<close> drops exactly the entry
  of the key.
\<close>

theorem lfu_find_erase_policy:
  assumes "lfu_ok c"
  shows "fst (lfu_find c k peek) = freq_view (lfu_abs c) k
    \<and> lfu_abs (snd (lfu_find c k peek)) = (if peek then lfu_abs c else freq_touch k (lfu_abs c))
    \<and> lfu_ok (snd (lfu_find c k peek))
    \<and> snd (lfu_findWithRefcount c k peek) = snd (lfu_find c k peek)
    \<and> fst (lfu_findWithRefcount c k peek) =
        (case (freq_view (lfu_abs c) k, freq_count (lfu_abs c) k) of
           (Some v, Some n) \<Rightarrow> Some (v, if peek then n else n + 1) | _ \<Rightarrow> None)
    \<and> (fst (lfu_erase c k) \<longleftrightarrow> freq_view (lfu_abs c) k \<noteq> None)
    \<and> lfu_abs (snd (lfu_erase c k)) = freq_erase k (lfu_abs c) \<and> lfu_ok (snd (lfu_erase c k))"
  using assms by (simp add: lfu_find_refines lfu_erase_refines)

theorem lfu_find_erase_policy_witness:
  "fst (lfu_find (lfu_create (0::int) 2 :: (char, int) lfu) CHR ''a'' False) = None"
  using lfu_find_erase_policy [OF lfu_create_ok(1) [where dflt = "0::int" and cap = 2], of "CHR ''a''" False]
  by (simp add: lfu_create_ok freq_view_def)

text \<open>
  Over any sequence of \<open>insert\<close>, \<open>erase\<close> and \<open>find\<close> calls an LFU cache with at least one
  slot never fails, never holds more pairs than its capacity, and never returns anything but the
  value last inserted under the key; while the keys inserted fit, it returns that value always.
\<close>

theorem lfu_coherent:
  "\<exists>c. run_cacheOps lfu_insert lfu_erase (\<lambda>c k. lfu_find c k False) (lfu_create dflt (Suc n)) ops = Some c
     \<and> lfu_size c \<le> Suc n
     \<and> (fst (lfu_find c k False) = None \<or> fst (lfu_find c k False) = map_cacheOps Map.empty ops k)
     \<and> (card (inserted_keys ops) \<le> Suc n \<longrightarrow> fst (lfu_find c k False) = map_cacheOps Map.empty ops k)"
proof -
  obtain c where c: "run_cacheOps lfu_insert lfu_erase (\<lambda>c k. lfu_find c k False) (lfu_create dflt (Suc n)) ops = Some c"
    "lfu_ok c" "freq_view (lfu_abs c) \<subseteq>\<^sub>m map_cacheOps Map.empty ops" "lfu_size c \<le> Suc n"
    using lfu.run_coherent [where n = n and dflt = dflt and ops = ops] by blast
  have "freq_view (lfu_abs c) k = None \<or> freq_view (lfu_abs c) k = map_cacheOps Map.empty ops k"
    using c(3) unfolding map_le_def by (metis domIff)
  moreover have "freq_view (lfu_abs c) = map_cacheOps Map.empty ops" if "card (inserted_keys ops) \<le> Suc n"
    using lfu.run_complete [OF that, where dflt = dflt] c(1) by auto
  ultimately show ?thesis using c by (auto simp: lfu_find_refines)
qed

theorem lfu_coherent_witness:
  "\<exists>c. run_cacheOps lfu_insert lfu_erase (\<lambda>c k. lfu_find c k False) (lfu_create (0::int) (Suc 0))
         [CInsert CHR ''a'' 7, CFind CHR ''a''] = Some c
     \<and> fst (lfu_find c CHR ''a'' False) = Some 7"
  using lfu_coherent [of "0::int" 0 "[CInsert CHR ''a'' 7, CFind CHR ''a'']" "CHR ''a''"] by auto

end
