(* ===== verification/DS_Linear.thy ===== *)
theory DS_Linear
  imports Foo_Prelude "HOL-Library.Monad_Syntax"
begin

text \<open>
  The circular doubly linked list, the stack and the queue of
  \<open>src/data_structure/source/linear.cpp\<close>.

  The nodes live in an explicit store, a map from addresses to nodes, because the code links and
  unlinks nodes in place. \<open>::new (std::nothrow)\<close> is a parameter \<open>alloc\<close> that looks at the
  store and returns an address or fails; the locale \<open>fresh_allocator\<close> states what operator \<open>new\<close>
  promises, an address that is not in use. Every operation returns an option: \<open>None\<close> is a
  dereference of an address that is not allocated, or a loop that never ends. A null head is
  \<open>None\<close> of type \<^typ>\<open>nat option\<close>, and so is a null value pointer.
\<close>

section \<open>State\<close>

record 'v node =
  prev :: nat
  nxt :: nat
  nodeValue :: "'v option"

type_synonym 'v store = "nat \<rightharpoonup> 'v node"
type_synonym 'v alloc = "'v store \<Rightarrow> nat option"

text \<open>\<open>p->prev = q\<close> and \<open>p->next = q\<close>\<close>

definition set_prev :: "'v store \<Rightarrow> nat \<Rightarrow> nat \<Rightarrow> 'v store option" where
  "set_prev s p q = (case s p of None \<Rightarrow> None | Some n \<Rightarrow> Some (s(p \<mapsto> n\<lparr>prev := q\<rparr>)))"

definition set_next :: "'v store \<Rightarrow> nat \<Rightarrow> nat \<Rightarrow> 'v store option" where
  "set_next s p q = (case s p of None \<Rightarrow> None | Some n \<Rightarrow> Some (s(p \<mapsto> n\<lparr>nxt := q\<rparr>)))"

section \<open>The doubly linked list\<close>

definition dll_createNode :: "'v alloc \<Rightarrow> 'v store \<Rightarrow> 'v option \<Rightarrow> nat option \<times> 'v store" where
  "dll_createNode alloc s v =
     (case alloc s of
        None \<Rightarrow> (None, s)
      | Some a \<Rightarrow> (Some a, s(a \<mapsto> \<lparr>prev = a, nxt = a, nodeValue = v\<rparr>)))"

text \<open>The loop that counts the nodes: \<open>while (nNext != head)\<close>.\<close>

partial_function (option) dll_count :: "'v store \<Rightarrow> nat \<Rightarrow> nat \<Rightarrow> int \<Rightarrow> int option" where
  "dll_count s head n counter =
     (if n \<noteq> head then do { nd \<leftarrow> s n; dll_count s head (nxt nd) (counter + 1) } else Some counter)"

text \<open>The loops that follow \<open>next\<close> or \<open>prev\<close> a given number of times.\<close>

fun dll_forward :: "'v store \<Rightarrow> nat \<Rightarrow> nat \<Rightarrow> nat option" where
  "dll_forward s n 0 = Some n"
| "dll_forward s n (Suc i) = (case s n of None \<Rightarrow> None | Some nd \<Rightarrow> dll_forward s (nxt nd) i)"

fun dll_backward :: "'v store \<Rightarrow> nat \<Rightarrow> nat \<Rightarrow> nat option" where
  "dll_backward s n 0 = Some n"
| "dll_backward s n (Suc i) = (case s n of None \<Rightarrow> None | Some nd \<Rightarrow> dll_backward s (prev nd) i)"

definition dll_getNode :: "'v store \<Rightarrow> nat option \<Rightarrow> int \<Rightarrow> nat option option" where
  "dll_getNode s head index =
     (case head of
        None \<Rightarrow> Some None
      | Some h \<Rightarrow>
          if index < 0 then Some None
          else do {
            hd \<leftarrow> s h;
            counter \<leftarrow> dll_count s h (nxt hd) 0;
            if index \<ge> counter then Some None
            else if index \<le> counter div 2 then map_option Some (dll_forward s (nxt hd) (nat index))
            else map_option Some (dll_backward s (prev hd) (nat (counter - index - 1)))
          })"

definition dll_create :: "'v alloc \<Rightarrow> 'v store \<Rightarrow> nat option \<times> 'v store" where
  "dll_create alloc s = dll_createNode alloc s None"

text \<open>\<open>destroy\<close> deletes the nodes behind the head one by one, then the head.\<close>

partial_function (option) dll_destroy_loop :: "'v store \<Rightarrow> nat \<Rightarrow> nat \<Rightarrow> 'v store option" where
  "dll_destroy_loop s head n =
     (if n \<noteq> head then do { nd \<leftarrow> s n; dll_destroy_loop (s(n := None)) head (nxt nd) } else Some s)"

definition dll_destroy :: "'v store \<Rightarrow> nat option \<Rightarrow> (bool \<times> nat option \<times> 'v store) option" where
  "dll_destroy s head =
     (case head of
        None \<Rightarrow> Some (False, None, s)
      | Some h \<Rightarrow>
          do { hd \<leftarrow> s h;
               s \<leftarrow> dll_destroy_loop s h (nxt hd);
               Some (True, None, s(h := None)) })"

definition dll_size :: "'v store \<Rightarrow> nat option \<Rightarrow> int option" where
  "dll_size s head =
     (case head of None \<Rightarrow> Some 0 | Some h \<Rightarrow> do { hd \<leftarrow> s h; dll_count s h (nxt hd) 0 })"

definition dll_empty :: "'v store \<Rightarrow> nat option \<Rightarrow> bool option" where
  "dll_empty s head = map_option (\<lambda>n. n = 0) (dll_size s head)"

definition dll_get :: "'v store \<Rightarrow> nat option \<Rightarrow> int \<Rightarrow> 'v option option" where
  "dll_get s head index =
     do { iNode \<leftarrow> dll_getNode s head index;
          case iNode of None \<Rightarrow> Some None | Some i \<Rightarrow> map_option nodeValue (s i) }"

definition dll_getFirst :: "'v store \<Rightarrow> nat option \<Rightarrow> 'v option option" where
  "dll_getFirst s head = dll_get s head 0"

definition dll_getLast :: "'v store \<Rightarrow> nat option \<Rightarrow> 'v option option" where
  "dll_getLast s head = do { n \<leftarrow> dll_size s head; dll_get s head (n - 1) }"

definition dll_insertFirst ::
  "'v alloc \<Rightarrow> 'v store \<Rightarrow> nat option \<Rightarrow> 'v option \<Rightarrow> (bool \<times> 'v store) option" where
  "dll_insertFirst alloc s head v =
     (case head of
        None \<Rightarrow> Some (False, s)
      | Some h \<Rightarrow>
          (case dll_createNode alloc s v of
             (None, s) \<Rightarrow> Some (False, s)
           | (Some a, s) \<Rightarrow>
               do { s \<leftarrow> set_prev s a h;
                    hd \<leftarrow> s h;
                    s \<leftarrow> set_next s a (nxt hd);
                    s \<leftarrow> set_prev s (nxt hd) a;
                    s \<leftarrow> set_next s h a;
                    Some (True, s) }))"

definition dll_insertLast ::
  "'v alloc \<Rightarrow> 'v store \<Rightarrow> nat option \<Rightarrow> 'v option \<Rightarrow> (bool \<times> 'v store) option" where
  "dll_insertLast alloc s head v =
     (case head of
        None \<Rightarrow> Some (False, s)
      | Some h \<Rightarrow>
          (case dll_createNode alloc s v of
             (None, s) \<Rightarrow> Some (False, s)
           | (Some a, s) \<Rightarrow>
               do { s \<leftarrow> set_next s a h;
                    hd \<leftarrow> s h;
                    s \<leftarrow> set_prev s a (prev hd);
                    s \<leftarrow> set_next s (prev hd) a;
                    s \<leftarrow> set_prev s h a;
                    Some (True, s) }))"

definition dll_insert ::
  "'v alloc \<Rightarrow> 'v store \<Rightarrow> nat option \<Rightarrow> int \<Rightarrow> 'v option \<Rightarrow> (bool \<times> 'v store) option" where
  "dll_insert alloc s head index v =
     (if index = 0 then dll_insertFirst alloc s head v
      else do {
        iNode \<leftarrow> dll_getNode s head index;
        case iNode of
          None \<Rightarrow> Some (False, s)
        | Some i \<Rightarrow>
            (case dll_createNode alloc s v of
               (None, s) \<Rightarrow> Some (False, s)
             | (Some a, s) \<Rightarrow>
                 do { nd \<leftarrow> s i;
                      s \<leftarrow> set_prev s a (prev nd);
                      s \<leftarrow> set_next s a i;
                      s \<leftarrow> set_next s (prev nd) a;
                      s \<leftarrow> set_prev s i a;
                      Some (True, s) }) })"

definition dll_remove :: "'v store \<Rightarrow> nat option \<Rightarrow> int \<Rightarrow> (bool \<times> 'v store) option" where
  "dll_remove s head index =
     do { iNode \<leftarrow> dll_getNode s head index;
          case iNode of
            None \<Rightarrow> Some (False, s)
          | Some i \<Rightarrow>
              do { nd \<leftarrow> s i;
                   s \<leftarrow> set_prev s (nxt nd) (prev nd);
                   s \<leftarrow> set_next s (prev nd) (nxt nd);
                   Some (True, s(i := None)) } }"

definition dll_removeFirst :: "'v store \<Rightarrow> nat option \<Rightarrow> (bool \<times> 'v store) option" where
  "dll_removeFirst s head = dll_remove s head 0"

definition dll_removeLast :: "'v store \<Rightarrow> nat option \<Rightarrow> (bool \<times> 'v store) option" where
  "dll_removeLast s head = do { n \<leftarrow> dll_size s head; dll_remove s head (n - 1) }"

section \<open>The stack and the queue\<close>

definition stack_create :: "'v alloc \<Rightarrow> 'v store \<Rightarrow> nat option \<times> 'v store" where
  "stack_create alloc s = dll_create alloc s"

definition stack_destroy :: "'v store \<Rightarrow> nat option \<Rightarrow> (bool \<times> nat option \<times> 'v store) option" where
  "stack_destroy s head = dll_destroy s head"

definition stack_size :: "'v store \<Rightarrow> nat option \<Rightarrow> int option" where
  "stack_size s head = dll_size s head"

definition stack_empty :: "'v store \<Rightarrow> nat option \<Rightarrow> bool option" where
  "stack_empty s head = dll_empty s head"

definition queue_create :: "'v alloc \<Rightarrow> 'v store \<Rightarrow> nat option \<times> 'v store" where
  "queue_create alloc s = dll_create alloc s"

definition queue_destroy :: "'v store \<Rightarrow> nat option \<Rightarrow> (bool \<times> nat option \<times> 'v store) option" where
  "queue_destroy s head = dll_destroy s head"

definition queue_size :: "'v store \<Rightarrow> nat option \<Rightarrow> int option" where
  "queue_size s head = dll_size s head"

definition queue_empty :: "'v store \<Rightarrow> nat option \<Rightarrow> bool option" where
  "queue_empty s head = dll_empty s head"

definition stack_push ::
  "'v alloc \<Rightarrow> 'v store \<Rightarrow> nat option \<Rightarrow> 'v option \<Rightarrow> (bool \<times> 'v store) option" where
  "stack_push alloc s head v = dll_insertFirst alloc s head v"

definition stack_top :: "'v store \<Rightarrow> nat option \<Rightarrow> 'v option option" where
  "stack_top s head = dll_getFirst s head"

definition stack_pop :: "'v store \<Rightarrow> nat option \<Rightarrow> ('v option \<times> 'v store) option" where
  "stack_pop s head =
     do { v \<leftarrow> stack_top s head; r \<leftarrow> dll_removeFirst s head; Some (v, snd r) }"

definition queue_push ::
  "'v alloc \<Rightarrow> 'v store \<Rightarrow> nat option \<Rightarrow> 'v option \<Rightarrow> (bool \<times> 'v store) option" where
  "queue_push alloc s head v = dll_insertLast alloc s head v"

definition queue_front :: "'v store \<Rightarrow> nat option \<Rightarrow> 'v option option" where
  "queue_front s head = dll_getFirst s head"

definition queue_pop :: "'v store \<Rightarrow> nat option \<Rightarrow> ('v option \<times> 'v store) option" where
  "queue_pop s head =
     do { v \<leftarrow> dll_getFirst s head; r \<leftarrow> dll_removeFirst s head; Some (v, snd r) }"

text \<open>\<open>Traverse::order\<close> asks for the size again before every element.\<close>

partial_function (option) linear_order_loop :: "'v store \<Rightarrow> nat option \<Rightarrow> int \<Rightarrow> 'v option list option" where
  "linear_order_loop s head i =
     do { n \<leftarrow> dll_size s head;
          if i < n
          then do { v \<leftarrow> dll_get s head i; vs \<leftarrow> linear_order_loop s head (i + 1); Some (v # vs) }
          else Some [] }"

definition linear_order :: "'v store \<Rightarrow> nat option \<Rightarrow> 'v option list option" where
  "linear_order s head = (case head of None \<Rightarrow> Some [] | Some h \<Rightarrow> linear_order_loop s (Some h) 0)"

section \<open>Rings\<close>

definition linked :: "'v store \<Rightarrow> nat \<Rightarrow> nat \<Rightarrow> bool" where
  "linked s x y = (map_option nxt (s x) = Some y \<and> map_option prev (s y) = Some x)"

definition dll_ok :: "'v store \<Rightarrow> nat \<Rightarrow> nat list \<Rightarrow> bool" where
  "dll_ok s h ns = (distinct (h # ns) \<and> successively (linked s) (h # ns @ [h]))"

definition dll_vals :: "'v store \<Rightarrow> nat list \<Rightarrow> 'v option list" where
  "dll_vals s ns = map (\<lambda>a. nodeValue (the (s a))) ns"

lemma successively_mono_pairs:
  assumes "successively P xs" "\<And>x y. x \<in> set (butlast xs) \<Longrightarrow> y \<in> set (tl xs) \<Longrightarrow> P x y \<Longrightarrow> Q x y"
  shows "successively Q xs"
  using assms
proof (induction xs rule: induct_list012)
  case (3 x y zs)
  have "successively Q (y # zs)"
    by (rule "3.IH"(2)) (use "3.prems" in \<open>auto dest: in_set_butlastD split: if_splits\<close>)
  then show ?case using "3.prems" by simp
qed auto

lemma successively_snoc2:
  "successively P (xs @ p # q # ys) \<longleftrightarrow> successively P (xs @ [p]) \<and> P p q \<and> successively P (q # ys)"
  by (induction xs rule: induct_list012) auto

lemma seg_cong:
  assumes "successively (linked s) zs"
    "\<And>x. x \<in> set (butlast zs) \<Longrightarrow> map_option nxt (s' x) = map_option nxt (s x)"
    "\<And>y. y \<in> set (tl zs) \<Longrightarrow> map_option prev (s' y) = map_option prev (s y)"
  shows "successively (linked s') zs"
  by (rule successively_mono_pairs [OF assms(1)]) (simp add: linked_def assms(2,3))

text \<open>What the assignments of the insertions make of the store: \<open>a\<close> goes between \<open>p\<close> and \<open>q\<close>.\<close>

definition relink :: "'v store \<Rightarrow> 'v store \<Rightarrow> nat \<Rightarrow> nat \<Rightarrow> nat \<Rightarrow> 'v option \<Rightarrow> bool" where
  "relink s s' a p q v =
     ((\<forall>x. map_option nxt (s' x) = (if x = a then Some q else if x = p then Some a else map_option nxt (s x)))
      \<and> (\<forall>x. map_option prev (s' x) = (if x = a then Some p else if x = q then Some a else map_option prev (s x)))
      \<and> (\<forall>x. map_option nodeValue (s' x) = (if x = a then Some v else map_option nodeValue (s x)))
      \<and> (\<forall>x. x \<notin> {a, p, q} \<longrightarrow> s' x = s x))"

text \<open>The same for a removal: \<open>a\<close> leaves its place between \<open>p\<close> and \<open>q\<close>.\<close>

definition unlink :: "'v store \<Rightarrow> 'v store \<Rightarrow> nat \<Rightarrow> nat \<Rightarrow> nat \<Rightarrow> bool" where
  "unlink s s' a p q =
     ((\<forall>x. x \<noteq> a \<longrightarrow> map_option nxt (s' x) = (if x = p then Some q else map_option nxt (s x)))
      \<and> (\<forall>x. x \<noteq> a \<longrightarrow> map_option prev (s' x) = (if x = q then Some p else map_option prev (s x)))
      \<and> (\<forall>x. x \<noteq> a \<longrightarrow> map_option nodeValue (s' x) = map_option nodeValue (s x))
      \<and> s' a = None \<and> (\<forall>x. x \<notin> {a, p, q} \<longrightarrow> s' x = s x))"

lemma ring_split: "h # us @ vs @ [h] = butlast (h # us) @ last (h # us) # hd (vs @ [h]) # tl (vs @ [h])"
  by (cases vs) (simp_all flip: append_assoc add: append_butlast_last_id del: butlast.simps last.simps)

lemma ring_outside:
  assumes "distinct (h # us @ vs)"
  shows "last (h # us) \<notin> set (butlast (h # us))" "last (h # us) \<notin> set (butlast (hd (vs @ [h]) # tl (vs @ [h])))"
    "hd (vs @ [h]) \<notin> set (tl (butlast (h # us) @ [last (h # us)]))" "hd (vs @ [h]) \<notin> set (tl (vs @ [h]))"
proof -
  have "butlast (h # us) @ [last (h # us)] = h # us" by simp
  moreover from assms have "distinct (butlast (h # us) @ [last (h # us)])" by (simp del: butlast.simps last.simps)
  ultimately show "last (h # us) \<notin> set (butlast (h # us))" by (metis disjoint_insert(1) distinct_append list.simps(15))
  have "hd (vs @ [h]) # tl (vs @ [h]) = vs @ [h]" by (cases vs) auto
  then show "last (h # us) \<notin> set (butlast (hd (vs @ [h]) # tl (vs @ [h])))"
    using assms by (auto simp: butlast_append split: if_splits dest: last_in_set)
  show "hd (vs @ [h]) \<notin> set (tl (butlast (h # us) @ [last (h # us)]))"
    using assms by (cases vs) (auto simp flip: append_assoc simp del: butlast.simps last.simps)
  show "hd (vs @ [h]) \<notin> set (tl (vs @ [h]))" using assms by (cases vs) auto
qed

lemma ring_segments:
  assumes "dll_ok s h (us @ vs)"
  shows "successively (linked s) (butlast (h # us) @ [last (h # us)])"
    "linked s (last (h # us)) (hd (vs @ [h]))" "successively (linked s) (hd (vs @ [h]) # tl (vs @ [h]))"
  using assms successively_snoc2 [of "linked s" "butlast (h # us)" "last (h # us)" "hd (vs @ [h])" "tl (vs @ [h])"]
    ring_split [of h us vs] by (auto simp: dll_ok_def)

lemma vals_cong:
  "(\<And>x. x \<in> set ns \<Longrightarrow> map_option nodeValue (s' x) = map_option nodeValue (s x))
   \<Longrightarrow> (\<And>x. x \<in> set ns \<Longrightarrow> s x \<noteq> None) \<Longrightarrow> dll_vals s' ns = dll_vals s ns"
  unfolding dll_vals_def by (rule map_cong) (auto, metis option.map_sel option.sel map_option_is_None option.simps(3))

lemma seg_allocated: "successively (linked s) zs \<Longrightarrow> x \<in> set (butlast zs) \<Longrightarrow> s x \<noteq> None"
  by (induction zs rule: induct_list012) (auto simp: linked_def split: if_splits)

lemma dll_allocated: "dll_ok s h ns \<Longrightarrow> x \<in> set (h # ns) \<Longrightarrow> s x \<noteq> None"
  using seg_allocated [of s "h # ns @ [h]" x] by (auto simp: dll_ok_def butlast_append)

lemma dll_ok_frame:
  assumes "dll_ok s h ns" "\<And>x. x \<in> set (h # ns) \<Longrightarrow> s' x = s x"
  shows "dll_ok s' h ns" "dll_vals s' ns = dll_vals s ns"
proof -
  have "successively (linked s) (h # ns @ [h])" using assms(1) by (simp add: dll_ok_def)
  then have "successively (linked s') (h # ns @ [h])"
  proof (rule seg_cong)
    show "map_option nxt (s' x) = map_option nxt (s x)" if "x \<in> set (butlast (h # ns @ [h]))" for x
      using that assms(2) [of x] by (simp add: butlast_append)
    show "map_option prev (s' y) = map_option prev (s y)" if "y \<in> set (tl (h # ns @ [h]))" for y
      using that assms(2) [of y] by auto
  qed
  then show "dll_ok s' h ns" using assms(1) by (simp add: dll_ok_def)
  show "dll_vals s' ns = dll_vals s ns" using assms(2) by (simp add: dll_vals_def)
qed

text \<open>A change next to \<open>p\<close> and \<open>q\<close> leaves the rest of the ring linked.\<close>

lemma ring_parts:
  assumes d: "distinct (h # us @ vs)" and a: "a \<notin> set (h # us @ vs)"
    and seg: "successively (linked s) (butlast (h # us) @ [last (h # us)])"
      "successively (linked s) (hd (vs @ [h]) # tl (vs @ [h]))"
    and N: "\<And>x. x \<noteq> a \<Longrightarrow> x \<noteq> last (h # us) \<Longrightarrow> map_option nxt (s' x) = map_option nxt (s x)"
    and P: "\<And>y. y \<noteq> a \<Longrightarrow> y \<noteq> hd (vs @ [h]) \<Longrightarrow> map_option prev (s' y) = map_option prev (s y)"
  shows "successively (linked s') (butlast (h # us) @ [last (h # us)])"
    "successively (linked s') (hd (vs @ [h]) # tl (vs @ [h]))"
proof -
  note out = ring_outside [OF d]
  have hu: "butlast (h # us) @ [last (h # us)] = h # us" by (simp del: butlast.simps last.simps)
  have vh: "hd (vs @ [h]) # tl (vs @ [h]) = vs @ [h]" by (cases vs) auto
  show "successively (linked s') (butlast (h # us) @ [last (h # us)])"
  proof (rule seg_cong [OF seg(1)])
    fix x assume "x \<in> set (butlast (butlast (h # us) @ [last (h # us)]))"
    then have x: "x \<in> set (butlast (h # us))" by (simp only: butlast_snoc)
    then have "x \<noteq> last (h # us)" using out(1) by metis
    moreover have "x \<noteq> a" using in_set_butlastD [OF x] a by auto
    ultimately show "map_option nxt (s' x) = map_option nxt (s x)" by (intro N)
  next
    fix y assume y: "y \<in> set (tl (butlast (h # us) @ [last (h # us)]))"
    then have "y \<noteq> hd (vs @ [h])" using out(3) by metis
    moreover have "y \<noteq> a" using y a unfolding hu by auto
    ultimately show "map_option prev (s' y) = map_option prev (s y)" by (intro P)
  qed
  show "successively (linked s') (hd (vs @ [h]) # tl (vs @ [h]))"
  proof (rule seg_cong [OF seg(2)])
    fix x assume x: "x \<in> set (butlast (hd (vs @ [h]) # tl (vs @ [h])))"
    then have "x \<noteq> last (h # us)" using out(2) by metis
    moreover have "x \<noteq> a" using x a unfolding vh by auto
    ultimately show "map_option nxt (s' x) = map_option nxt (s x)" by (intro N)
  next
    fix y assume y: "y \<in> set (tl (hd (vs @ [h]) # tl (vs @ [h])))"
    then have "y \<noteq> hd (vs @ [h])" using out(4) by auto
    moreover have "y \<noteq> a" using y a by (cases vs) auto
    ultimately show "map_option prev (s' y) = map_option prev (s y)" by (intro P)
  qed
qed

lemma insert_ring:
  assumes ok: "dll_ok s h (us @ vs)" and a: "a \<notin> set (h # us @ vs)"
    and s': "relink s s' a (last (h # us)) (hd (vs @ [h])) v"
  shows "dll_ok s' h (us @ a # vs)" "dll_vals s' (us @ a # vs) = dll_vals s us @ v # dll_vals s vs"
    "\<And>x. x \<notin> set (h # us @ a # vs) \<Longrightarrow> s' x = s x"
proof -
  let ?p = "last (h # us)" and ?q = "hd (vs @ [h])"
  have d: "distinct (h # us @ vs)" using ok by (simp add: dll_ok_def)
  note seg = ring_segments [OF ok]
  have p: "?p \<in> set (h # us)" and q: "?q \<in> set (h # vs)" by (simp, cases vs, auto)
  have L: "successively (linked s') (butlast (h # us) @ [?p])"
    and R: "successively (linked s') (?q # tl (vs @ [h]))"
    using ring_parts [OF d a seg(1,3), of s'] s' by (auto simp: relink_def simp del: butlast.simps last.simps)
  have "linked s' ?p a" "linked s' a ?q" using s' a p q by (auto simp: relink_def linked_def)
  then have "successively (linked s') (butlast (h # us) @ ?p # a # ?q # tl (vs @ [h]))"
    using L R by (simp only: successively_snoc2 successively.simps)
  moreover have "butlast (h # us) @ ?p # zs = h # us @ zs" for zs
    using append_butlast_last_id [of "h # us"] by (metis append_Cons append_assoc append_Nil list.simps(3))
  moreover have "?q # tl (vs @ [h]) = vs @ [h]" by (cases vs) auto
  ultimately have "successively (linked s') (h # us @ a # vs @ [h])" by metis
  then show "dll_ok s' h (us @ a # vs)" using d a by (simp add: dll_ok_def)
  have "map_option nodeValue (s' x) = map_option nodeValue (s x)" "s x \<noteq> None" if "x \<in> set (us @ vs)" for x
    using that a s' dll_allocated [OF ok, of x] by (auto simp: relink_def)
  then have "dll_vals s' us = dll_vals s us" "dll_vals s' vs = dll_vals s vs"
    by (auto intro!: vals_cong)
  moreover have "map_option nodeValue (s' a) = Some v" using s' by (simp add: relink_def)
  ultimately show "dll_vals s' (us @ a # vs) = dll_vals s us @ v # dll_vals s vs"
    by (auto simp: dll_vals_def)
  show "s' x = s x" if "x \<notin> set (h # us @ a # vs)" for x
  proof -
    have "x \<noteq> a" "x \<noteq> ?p" "x \<noteq> ?q" using that p q by (auto simp del: last.simps)
    then show ?thesis using s' by (auto simp: relink_def)
  qed
qed

lemma remove_ring:
  assumes ok: "dll_ok s h (us @ a # vs)" and s': "unlink s s' a (last (h # us)) (hd (vs @ [h]))"
  shows "dll_ok s' h (us @ vs)" "dll_vals s' (us @ vs) = dll_vals s us @ dll_vals s vs"
    "\<And>x. x \<notin> set (h # us @ a # vs) \<Longrightarrow> s' x = s x"
proof -
  let ?p = "last (h # us)" and ?q = "hd (vs @ [h])"
  have d: "distinct (h # us @ vs)" and a: "a \<notin> set (h # us @ vs)" using ok by (auto simp: dll_ok_def)
  have seg1: "successively (linked s) (butlast (h # us) @ [?p])" using ring_segments(1) [OF ok] .
  have seg2: "successively (linked s) (?q # tl (vs @ [h]))"
    using ring_segments(3) [of s h "us @ [a]" vs] ok by simp
  have p: "?p \<in> set (h # us)" and q: "?q \<in> set (h # vs)" by (simp, cases vs, auto)
  have L: "successively (linked s') (butlast (h # us) @ [?p])"
    and R: "successively (linked s') (?q # tl (vs @ [h]))"
    using ring_parts [OF d a seg1 seg2, of s'] s' by (auto simp: unlink_def simp del: butlast.simps last.simps)
  have "?p \<noteq> a" "?q \<noteq> a" using a p q by (auto simp del: last.simps)
  then have "linked s' ?p ?q" using s' by (auto simp: unlink_def linked_def)
  then have "successively (linked s') (h # us @ vs @ [h])"
    using L R unfolding ring_split [of h us vs] by (simp only: successively_snoc2)
  then show "dll_ok s' h (us @ vs)" using d by (simp add: dll_ok_def)
  have "map_option nodeValue (s' x) = map_option nodeValue (s x)" "s x \<noteq> None" if "x \<in> set (us @ vs)" for x
    using that a s' dll_allocated [OF ok, of x] by (auto simp: unlink_def)
  then have "dll_vals s' us = dll_vals s us" "dll_vals s' vs = dll_vals s vs"
    by (auto intro!: vals_cong)
  then show "dll_vals s' (us @ vs) = dll_vals s us @ dll_vals s vs" by (simp add: dll_vals_def)
  show "s' x = s x" if "x \<notin> set (h # us @ a # vs)" for x
  proof -
    have "x \<noteq> a" "x \<noteq> ?p" "x \<noteq> ?q" using that p q by (auto simp del: last.simps)
    then show ?thesis using s' by (auto simp: unlink_def)
  qed
qed

section \<open>Walking the ring\<close>

lemma dll_count_seg:
  assumes "successively (linked s) (zs @ [h])" "h \<notin> set zs"
  shows "dll_count s h (hd (zs @ [h])) c = Some (c + int (length zs))"
  using assms
proof (induction zs arbitrary: c)
  case Nil
  then show ?case by (simp add: dll_count.simps)
next
  case (Cons x zs)
  then have "linked s x (hd (zs @ [h]))" and ih: "successively (linked s) (zs @ [h])"
    by (cases zs; auto)+
  then obtain nd where "s x = Some nd" "nxt nd = hd (zs @ [h])" by (auto simp: linked_def)
  with Cons ih show ?case by (subst dll_count.simps) simp
qed

lemma dll_forward_seg: "successively (linked s) zs \<Longrightarrow> i < length zs \<Longrightarrow> dll_forward s (hd zs) i = Some (zs ! i)"
proof (induction i arbitrary: zs)
  case 0
  then show ?case by (cases zs) auto
next
  case (Suc i)
  then obtain x y ws where zs: "zs = x # y # ws" by (cases zs; cases "tl zs") auto
  with Suc.prems Suc.IH [of "y # ws"] show ?case by (auto simp: linked_def)
qed

lemma dll_backward_seg:
  "successively (linked s) (rev zs) \<Longrightarrow> i < length zs \<Longrightarrow> dll_backward s (hd zs) i = Some (zs ! i)"
proof (induction i arbitrary: zs)
  case 0
  then show ?case by (cases zs) auto
next
  case (Suc i)
  then obtain x y ws where zs: "zs = x # y # ws" by (cases zs; cases "tl zs") auto
  have "linked s y x" "successively (linked s) (rev (y # ws))"
    using Suc.prems(1) successively_snoc2 [of "linked s" "rev ws" y x "[]"] by (simp_all add: zs)
  with Suc.prems Suc.IH [of "y # ws"] show ?case by (auto simp: zs linked_def)
qed

lemma dll_head:
  assumes "dll_ok s h ns"
  obtains nd where "s h = Some nd" "nxt nd = hd (ns @ [h])" "prev nd = last (h # ns)"
proof -
  have "linked s h (hd (ns @ [h]))" using ring_segments(2) [of s h "[]" ns] assms by simp
  moreover have "linked s (last (h # ns)) h" using ring_segments(2) [of s h ns "[]"] assms by simp
  ultimately show thesis by (intro that [of "the (s h)"]) (auto simp: linked_def)
qed

lemma dll_size_ok: "dll_ok s h ns \<Longrightarrow> dll_size s (Some h) = Some (int (length ns))"
proof -
  assume ok: "dll_ok s h ns"
  then obtain nd where nd: "s h = Some nd" "nxt nd = hd (ns @ [h])" by (rule dll_head)
  have "successively (linked s) (ns @ [h])" "h \<notin> set ns"
    using ok by (auto simp: dll_ok_def successively_Cons)
  from dll_count_seg [OF this, of 0] nd show ?thesis by (simp add: dll_size_def)
qed

lemma dll_getNode_ok:
  assumes "dll_ok s h ns"
  shows "dll_getNode s (Some h) i =
    Some (if 0 \<le> i \<and> i < int (length ns) then Some (ns ! nat i) else None)"
proof -
  obtain nd where nd: "s h = Some nd" "nxt nd = hd (ns @ [h])" "prev nd = last (h # ns)"
    using dll_head [OF assms] .
  have seg: "successively (linked s) (ns @ [h])" "h \<notin> set ns"
    using assms by (auto simp: dll_ok_def successively_Cons)
  note count = dll_count_seg [OF seg, of 0]
  show ?thesis
  proof (cases "0 \<le> i \<and> i < int (length ns)")
    case True
    then obtain k where k: "i = int k" "k < length ns" by (metis nonneg_int_cases of_nat_less_iff)
    have fwd: "dll_forward s (nxt nd) k = Some (ns ! k)"
      using dll_forward_seg [OF seg(1), of k] nd(2) k(2) by (simp add: nth_append)
    have "ns \<noteq> []" using k(2) by auto
    then have rev: "hd (rev ns) = last ns" "prev nd = last ns" using nd(3) by (simp_all add: hd_rev)
    have "successively (linked s) ns" using seg(1) by (simp add: successively_append_iff)
    then have "dll_backward s (prev nd) (length ns - Suc k) = Some (ns ! k)"
      using dll_backward_seg [of s "rev ns" "length ns - Suc k"] k(2) rev by (simp add: rev_nth)
    moreover have "nat (int (length ns) - int k - 1) = length ns - Suc k" using k(2) by simp
    ultimately have bwd: "dll_backward s (prev nd) (nat (int (length ns) - int k - 1)) = Some (ns ! k)" by simp
    show ?thesis using k nd(1) count fwd bwd nd(2) by (simp add: dll_getNode_def)
  qed (use nd count in \<open>auto simp: dll_getNode_def\<close>)
qed

lemma dll_get_ok:
  assumes "dll_ok s h ns"
  shows "dll_get s (Some h) i =
    Some (if 0 \<le> i \<and> i < int (length ns) then dll_vals s ns ! nat i else None)"
proof (cases "0 \<le> i \<and> i < int (length ns)")
  case True
  then have "ns ! nat i \<in> set (h # ns)" by (auto intro!: nth_mem)
  then obtain nd where "s (ns ! nat i) = Some nd" using dll_allocated [OF assms] by blast
  with True show ?thesis using dll_getNode_ok [OF assms, of i]
    by (simp add: dll_get_def dll_vals_def nat_less_iff)
qed (use dll_getNode_ok [OF assms, of i] in \<open>auto simp: dll_get_def\<close>)

section \<open>Insertion and removal\<close>

lemmas store_ops = set_prev_def set_next_def

text \<open>What operator \<open>new\<close> promises.\<close>

locale fresh_allocator =
  fixes alloc :: "'v alloc"
  assumes fresh: "alloc s = Some a \<Longrightarrow> s a = None"
begin

lemma createNode_cases:
  obtains "alloc s = None" "dll_createNode alloc s v = (None, s)"
  | a where "alloc s = Some a" "s a = None"
    "dll_createNode alloc s v = (Some a, s(a \<mapsto> \<lparr>prev = a, nxt = a, nodeValue = v\<rparr>))"
  using fresh by (cases "alloc s") (auto simp: dll_createNode_def)

lemma fresh_outside: "dll_ok s h ns \<Longrightarrow> s a = None \<Longrightarrow> a \<notin> set (h # ns)"
  using dll_allocated by blast

lemma dll_insertFirst_ok:
  assumes "dll_ok s h ns"
  shows "(alloc s = None \<and> dll_insertFirst alloc s (Some h) v = Some (False, s))
    \<or> (\<exists>a s'. alloc s = Some a \<and> dll_insertFirst alloc s (Some h) v = Some (True, s') \<and> dll_ok s' h (a # ns)
         \<and> dll_vals s' (a # ns) = v # dll_vals s ns \<and> (\<forall>x. x \<notin> set (h # a # ns) \<longrightarrow> s' x = s x))"
proof (rule createNode_cases [of s v])
  assume "alloc s = None" "dll_createNode alloc s v = (None, s)"
  then show ?thesis by (simp add: dll_insertFirst_def)
next
  fix a
  let ?s = "s(a \<mapsto> \<lparr>prev = a, nxt = a, nodeValue = v\<rparr>)"
  assume a: "alloc s = Some a" "s a = None" "dll_createNode alloc s v = (Some a, ?s)"
  note ne = fresh_outside [OF assms a(2)]
  obtain hn where h: "s h = Some hn" "nxt hn = hd (ns @ [h])" using dll_head [OF assms] .
  let ?q = "hd (ns @ [h])"
  have q: "?q \<in> set (h # ns)" by (cases ns) auto
  then obtain qn where qn: "s ?q = Some qn" using dll_allocated [OF assms] by blast
  have "a \<noteq> h" "a \<noteq> ?q" using ne q by auto
  then have "\<exists>s'. dll_insertFirst alloc s (Some h) v = Some (True, s') \<and> relink s s' a h ?q v"
    using a h qn by (auto simp: dll_insertFirst_def store_ops relink_def)
  then obtain s' where s': "dll_insertFirst alloc s (Some h) v = Some (True, s')" "relink s s' a h ?q v" by blast
  from insert_ring [of s h "[]" ns a s' v] assms ne s'(2)
  have "dll_ok s' h (a # ns)" "dll_vals s' (a # ns) = v # dll_vals s ns" "\<forall>x. x \<notin> set (h # a # ns) \<longrightarrow> s' x = s x"
    by (simp_all add: dll_vals_def)
  with a(1) s'(1) show ?thesis by blast
qed

lemma dll_insertLast_ok:
  assumes "dll_ok s h ns"
  shows "(alloc s = None \<and> dll_insertLast alloc s (Some h) v = Some (False, s))
    \<or> (\<exists>a s'. alloc s = Some a \<and> dll_insertLast alloc s (Some h) v = Some (True, s') \<and> dll_ok s' h (ns @ [a])
         \<and> dll_vals s' (ns @ [a]) = dll_vals s ns @ [v] \<and> (\<forall>x. x \<notin> set (h # ns @ [a]) \<longrightarrow> s' x = s x))"
proof (rule createNode_cases [of s v])
  assume "alloc s = None" "dll_createNode alloc s v = (None, s)"
  then show ?thesis by (simp add: dll_insertLast_def)
next
  fix a
  let ?s = "s(a \<mapsto> \<lparr>prev = a, nxt = a, nodeValue = v\<rparr>)"
  assume a: "alloc s = Some a" "s a = None" "dll_createNode alloc s v = (Some a, ?s)"
  note ne = fresh_outside [OF assms a(2)]
  obtain hn where h: "s h = Some hn" "prev hn = last (h # ns)" using dll_head [OF assms] .
  let ?p = "last (h # ns)"
  have p: "?p \<in> set (h # ns)" by simp
  then obtain pn where pn: "s ?p = Some pn" using dll_allocated [OF assms] by blast
  have "a \<noteq> h" "a \<noteq> ?p" using ne p by (auto simp del: last.simps)
  then have "\<exists>s'. dll_insertLast alloc s (Some h) v = Some (True, s') \<and> relink s s' a ?p h v"
    using a h pn by (auto simp: dll_insertLast_def store_ops relink_def simp del: last.simps)
  then obtain s' where s': "dll_insertLast alloc s (Some h) v = Some (True, s')" "relink s s' a ?p h v" by blast
  from insert_ring [of s h ns "[]" a s' v] assms ne s'(2)
  have "dll_ok s' h (ns @ [a])" "dll_vals s' (ns @ [a]) = dll_vals s ns @ [v]"
    "\<forall>x. x \<notin> set (h # ns @ [a]) \<longrightarrow> s' x = s x"
    by (simp_all add: dll_vals_def del: last.simps)
  with a(1) s'(1) show ?thesis by blast
qed

lemma dll_insert_ok:
  assumes "dll_ok s h ns" "0 < k" "k < length ns"
  shows "(alloc s = None \<and> dll_insert alloc s (Some h) (int k) v = Some (False, s))
    \<or> (\<exists>a s'. alloc s = Some a \<and> dll_insert alloc s (Some h) (int k) v = Some (True, s')
         \<and> dll_ok s' h (take k ns @ a # drop k ns)
         \<and> dll_vals s' (take k ns @ a # drop k ns) = take k (dll_vals s ns) @ v # drop k (dll_vals s ns)
         \<and> (\<forall>x. x \<notin> set (h # a # ns) \<longrightarrow> s' x = s x))"
proof (rule createNode_cases [of s v])
  assume "alloc s = None" "dll_createNode alloc s v = (None, s)"
  then show ?thesis using dll_getNode_ok [OF assms(1), of "int k"] assms(2,3) by (simp add: dll_insert_def)
next
  fix a
  let ?s = "s(a \<mapsto> \<lparr>prev = a, nxt = a, nodeValue = v\<rparr>)"
  let ?us = "take k ns" and ?vs = "drop k ns"
  let ?p = "last (h # ?us)" and ?i = "ns ! k"
  assume a: "alloc s = Some a" "s a = None" "dll_createNode alloc s v = (Some a, ?s)"
  note ne = fresh_outside [OF assms(1) a(2)]
  have ok: "dll_ok s h (?us @ ?vs)" using assms(1) by simp
  have i: "hd (?vs @ [h]) = ?i" using assms(3) by (simp add: hd_append hd_drop_conv_nth)
  have "linked s ?p ?i" using ring_segments(2) [OF ok] i by simp
  then obtain nd pn where nd: "s ?i = Some nd" "prev nd = ?p" "s ?p = Some pn" by (auto simp: linked_def)
  have "?us \<noteq> []" using assms(2,3) by auto
  then have "?p \<in> set ?us" by simp
  then have "?p \<in> set (h # ns)" by (auto dest: in_set_takeD simp del: last.simps)
  then have ne': "a \<noteq> ?p" "a \<noteq> ?i" using ne assms(3) by auto
  have "dll_getNode s (Some h) (int k) = Some (Some ?i)" using dll_getNode_ok [OF assms(1), of "int k"] assms(3) by simp
  then have "\<exists>s'. dll_insert alloc s (Some h) (int k) v = Some (True, s') \<and> relink s s' a ?p ?i v"
    using a nd ne' assms(2) by (auto simp: dll_insert_def store_ops relink_def simp del: last.simps)
  then obtain s' where s': "dll_insert alloc s (Some h) (int k) v = Some (True, s')" "relink s s' a ?p ?i v" by blast
  have "a \<notin> set (h # ?us @ ?vs)" using ne by simp
  from insert_ring [OF ok this, of s' v] s'(2) i
  have "dll_ok s' h (?us @ a # ?vs)" "dll_vals s' (?us @ a # ?vs) = dll_vals s ?us @ v # dll_vals s ?vs"
    "\<And>x. x \<notin> set (h # ?us @ a # ?vs) \<Longrightarrow> s' x = s x"
    by auto
  moreover have "set (h # ?us @ a # ?vs) = set (h # a # ns)"
    using append_take_drop_id [of k ns] by (metis Un_insert_right list.simps(15) set_append insert_commute)
  ultimately show ?thesis using a(1) s'(1) by (auto simp: dll_vals_def take_map drop_map)
qed

end

lemma dll_remove_ok:
  assumes "dll_ok s h ns" "k < length ns"
  shows "\<exists>s'. dll_remove s (Some h) (int k) = Some (True, s') \<and> dll_ok s' h (take k ns @ drop (Suc k) ns)
    \<and> dll_vals s' (take k ns @ drop (Suc k) ns) = take k (dll_vals s ns) @ drop (Suc k) (dll_vals s ns)
    \<and> s' (ns ! k) = None \<and> (\<forall>x. x \<notin> set (h # ns) \<longrightarrow> s' x = s x)"
proof -
  let ?us = "take k ns" and ?a = "ns ! k" and ?vs = "drop (Suc k) ns"
  let ?p = "last (h # ?us)" and ?q = "hd (?vs @ [h])"
  have ns: "ns = ?us @ ?a # ?vs" using assms(2) by (simp add: id_take_nth_drop)
  have ok: "dll_ok s h (?us @ ?a # ?vs)" using assms(1) ns by simp
  have d: "distinct (h # ?us @ ?a # ?vs)" using ok by (simp add: dll_ok_def)
  have "linked s ?p ?a" using ring_segments(2) [OF ok] by simp
  moreover have "linked s ?a ?q" using ring_segments(2) [of s h "?us @ [?a]" ?vs] ok by simp
  ultimately obtain nd pn qn where nd: "s ?a = Some nd" "prev nd = ?p" "nxt nd = ?q" "s ?p = Some pn" "s ?q = Some qn"
    by (auto simp: linked_def)
  have p: "?p \<in> set (h # ?us)" and q: "?q \<in> set (h # ?vs)" by (simp, cases ?vs, auto)
  then have ne: "?p \<noteq> ?a" "?q \<noteq> ?a" using d by auto
  have "dll_getNode s (Some h) (int k) = Some (Some ?a)" using dll_getNode_ok [OF assms(1), of "int k"] assms(2) by simp
  then have "\<exists>s'. dll_remove s (Some h) (int k) = Some (True, s') \<and> unlink s s' ?a ?p ?q"
    using nd ne by (auto simp: dll_remove_def store_ops unlink_def simp del: last.simps)
  then obtain s' where s': "dll_remove s (Some h) (int k) = Some (True, s')" "unlink s s' ?a ?p ?q" by blast
  from remove_ring [OF ok s'(2)] have "dll_ok s' h (?us @ ?vs)" "dll_vals s' (?us @ ?vs) = dll_vals s ?us @ dll_vals s ?vs"
    "\<And>x. x \<notin> set (h # ?us @ ?a # ?vs) \<Longrightarrow> s' x = s x" by auto
  moreover have "s' ?a = None" using s'(2) by (simp add: unlink_def)
  ultimately show ?thesis using s'(1) ns by (auto simp: dll_vals_def take_map drop_map) 
qed

lemma dll_remove_fail:
  assumes "dll_ok s h ns" "\<not> (0 \<le> i \<and> i < int (length ns))"
  shows "dll_remove s (Some h) i = Some (False, s)"
  using dll_getNode_ok [OF assms(1), of i] assms(2) by (auto simp: dll_remove_def)

lemma dll_insert_fail:
  assumes "dll_ok s h ns" "i \<noteq> 0" "\<not> (0 \<le> i \<and> i < int (length ns))"
  shows "dll_insert alloc s (Some h) i v = Some (False, s)"
  using dll_getNode_ok [OF assms(1), of i] assms(2,3) by (auto simp: dll_insert_def)

lemma dll_removeFirst_ok:
  assumes "dll_ok s h ns"
  shows "\<exists>s'. dll_removeFirst s (Some h) = Some (ns \<noteq> [], s') \<and> dll_ok s' h (tl ns)
    \<and> dll_vals s' (tl ns) = tl (dll_vals s ns) \<and> (\<forall>x. x \<notin> set (h # ns) \<longrightarrow> s' x = s x)"
proof (cases ns)
  case Nil
  then show ?thesis using dll_remove_fail [OF assms, of 0] assms
    by (auto simp: dll_removeFirst_def dll_vals_def)
next
  case (Cons a vs)
  then show ?thesis using dll_remove_ok [OF assms, of 0] by (auto simp: dll_removeFirst_def drop_Suc)
qed

lemma dll_getFirst_ok:
  "dll_ok s h ns \<Longrightarrow> dll_getFirst s (Some h) = Some (case dll_vals s ns of [] \<Rightarrow> None | v # _ \<Rightarrow> v)"
  using dll_get_ok [of s h ns 0] by (cases ns) (auto simp: dll_getFirst_def dll_vals_def)

lemma dll_getLast_ok:
  assumes "dll_ok s h ns"
  shows "dll_getLast s (Some h) = Some (if ns = [] then None else last (dll_vals s ns))"
proof -
  have "nat (int (length ns) - 1) = length ns - 1" by simp
  then show ?thesis using dll_get_ok [OF assms, of "int (length ns) - 1"] dll_size_ok [OF assms]
    by (auto simp: dll_getLast_def dll_vals_def last_conv_nth nat_diff_distrib Suc_le_eq)
qed

lemma linear_order_loop_ok:
  assumes "dll_ok s h ns" "k \<le> length ns"
  shows "linear_order_loop s (Some h) (int k) = Some (drop k (dll_vals s ns))"
  using assms(2)
proof (induction "length ns - k" arbitrary: k)
  case 0
  then show ?case using dll_size_ok [OF assms(1)] by (subst linear_order_loop.simps) (simp add: dll_vals_def)
next
  case (Suc m)
  then have k: "k < length ns" by simp
  have ih: "linear_order_loop s (Some h) (int k + 1) = Some (drop (Suc k) (dll_vals s ns))"
    using Suc.hyps(1) [of "Suc k"] Suc.hyps(2) k by (simp add: add.commute)
  have "drop k (dll_vals s ns) = dll_vals s ns ! k # drop (Suc k) (dll_vals s ns)"
    using k Cons_nth_drop_Suc [of k "dll_vals s ns"] by (simp add: dll_vals_def)
  then show ?case using dll_size_ok [OF assms(1)] dll_get_ok [OF assms(1), of "int k"] ih k
    by (subst linear_order_loop.simps) simp
qed

lemma dll_destroy_seg:
  assumes "successively (linked s) (zs @ [h])" "h \<notin> set zs" "distinct zs"
  shows "dll_destroy_loop s h (hd (zs @ [h])) = Some (\<lambda>x. if x \<in> set zs then None else s x)"
  using assms
proof (induction zs arbitrary: s)
  case Nil
  then show ?case by (simp add: dll_destroy_loop.simps)
next
  case (Cons x zs)
  then have l: "linked s x (hd (zs @ [h]))" and seg: "successively (linked s) (zs @ [h])"
    by (cases zs; auto)+
  then obtain nd where nd: "s x = Some nd" "nxt nd = hd (zs @ [h])" by (auto simp: linked_def)
  have "successively (linked (s(x := None))) (zs @ [h])"
    by (rule seg_cong [OF seg]) (use Cons.prems in \<open>(cases zs; auto simp: butlast_append)+\<close>)
  with Cons have "dll_destroy_loop (s(x := None)) h (hd (zs @ [h])) =
      Some (\<lambda>y. if y \<in> set zs then None else (s(x := None)) y)" by simp
  with Cons.prems nd show ?case by (subst dll_destroy_loop.simps) (auto simp: fun_eq_iff)
qed

lemma dll_create_ok:
  assumes "dll_create alloc s = (Some h, s')" "fresh_allocator alloc"
  shows "dll_ok s' h []" "s h = None" "s' = s(h \<mapsto> \<lparr>prev = h, nxt = h, nodeValue = None\<rparr>)"
  using assms fresh_allocator.fresh [OF assms(2)]
  by (auto simp: dll_create_def dll_createNode_def dll_ok_def linked_def split: option.splits)

text \<open>
  The outcome \<open>r\<close> of an update: it returns, reports \<open>ok\<close>, leaves a well linked ring with the values
  \<open>vs\<close> on success and the store as it was on failure, and touches no address outside the ring
  and \<open>T\<close>.
\<close>

definition dll_effect ::
  "'v store \<Rightarrow> nat \<Rightarrow> nat list \<Rightarrow> nat set \<Rightarrow> (bool \<times> 'v store) option \<Rightarrow> bool \<Rightarrow> 'v option list \<Rightarrow> bool" where
  "dll_effect s h ns T r ok vs =
     (\<exists>ns' s'. r = Some (ok, s') \<and> dll_ok s' h ns' \<and> dll_vals s' ns' = (if ok then vs else dll_vals s ns)
        \<and> (\<forall>x. x \<notin> set (h # ns) \<union> T \<longrightarrow> s' x = s x) \<and> (\<not> ok \<longrightarrow> s' = s))"

lemma dll_effect_fail: "dll_ok s h ns \<Longrightarrow> \<not> ok \<Longrightarrow> r = Some (ok, s) \<Longrightarrow> dll_effect s h ns T r ok vs"
  by (auto simp: dll_effect_def)

lemma dll_effect_success:
  "\<lbrakk>r = Some (ok, s'); ok; dll_ok s' h ns'; dll_vals s' ns' = vs; \<And>x. x \<notin> set (h # ns) \<union> T \<Longrightarrow> s' x = s x\<rbrakk>
   \<Longrightarrow> dll_effect s h ns T r ok vs"
  unfolding dll_effect_def by (intro exI [of _ ns'] exI [of _ s']) simp

context fresh_allocator
begin

lemma dll_insertFirst_effect:
  assumes "dll_ok s h ns"
  shows "dll_effect s h ns (set_option (alloc s)) (dll_insertFirst alloc s (Some h) v) (alloc s \<noteq> None)
     (v # dll_vals s ns)"
  using dll_insertFirst_ok [OF assms, of v]
proof (elim disjE exE conjE)
  fix a s'
  assume "alloc s = Some a" "dll_insertFirst alloc s (Some h) v = Some (True, s')" "dll_ok s' h (a # ns)"
    "dll_vals s' (a # ns) = v # dll_vals s ns" "\<forall>x. x \<notin> set (h # a # ns) \<longrightarrow> s' x = s x"
  then show ?thesis by (intro dll_effect_success [where s' = s' and ns' = "a # ns"]) auto
qed (simp add: dll_effect_fail assms)

lemma dll_insertLast_effect:
  assumes "dll_ok s h ns"
  shows "dll_effect s h ns (set_option (alloc s)) (dll_insertLast alloc s (Some h) v) (alloc s \<noteq> None)
     (dll_vals s ns @ [v])"
  using dll_insertLast_ok [OF assms, of v]
proof (elim disjE exE conjE)
  fix a s'
  assume "alloc s = Some a" "dll_insertLast alloc s (Some h) v = Some (True, s')" "dll_ok s' h (ns @ [a])"
    "dll_vals s' (ns @ [a]) = dll_vals s ns @ [v]" "\<forall>x. x \<notin> set (h # ns @ [a]) \<longrightarrow> s' x = s x"
  then show ?thesis by (intro dll_effect_success [where s' = s' and ns' = "ns @ [a]"]) auto
qed (simp add: dll_effect_fail assms)

lemma dll_insert_effect:
  assumes "dll_ok s h ns"
  shows "dll_effect s h ns (set_option (alloc s)) (dll_insert alloc s (Some h) i v)
     (alloc s \<noteq> None \<and> (i = 0 \<or> 0 < i \<and> i < int (length ns)))
     (take (nat i) (dll_vals s ns) @ v # drop (nat i) (dll_vals s ns))"
proof -
  consider "i = 0" | k where "i = int k" "0 < k" "k < length ns" | "i \<noteq> 0" "\<not> (0 \<le> i \<and> i < int (length ns))"
    by (cases "i = 0"; cases "0 \<le> i \<and> i < int (length ns)") (auto elim: nonneg_int_cases)
  then show ?thesis
  proof cases
    case 1
    then show ?thesis using dll_insertFirst_effect [OF assms, of v] by (simp add: dll_insert_def)
  next
    case (2 k)
    from dll_insert_ok [OF assms 2(2,3), of v] show ?thesis
    proof (elim disjE exE conjE)
      fix a s'
      assume "alloc s = Some a" "dll_insert alloc s (Some h) (int k) v = Some (True, s')"
        "dll_ok s' h (take k ns @ a # drop k ns)"
        "dll_vals s' (take k ns @ a # drop k ns) = take k (dll_vals s ns) @ v # drop k (dll_vals s ns)"
        "\<forall>x. x \<notin> set (h # a # ns) \<longrightarrow> s' x = s x"
      with 2 show ?thesis by (intro dll_effect_success [where s' = s' and ns' = "take k ns @ a # drop k ns"]) auto
    qed (simp add: dll_effect_fail assms 2(1))
  next
    case 3
    then show ?thesis using dll_insert_fail [OF assms 3] by (intro dll_effect_fail [OF assms]) auto
  qed
qed

end

lemma dll_remove_effect:
  assumes "dll_ok s h ns"
  shows "dll_effect s h ns {} (dll_remove s (Some h) i) (0 \<le> i \<and> i < int (length ns))
     (take (nat i) (dll_vals s ns) @ drop (Suc (nat i)) (dll_vals s ns))"
proof (cases "0 \<le> i \<and> i < int (length ns)")
  case True
  then obtain k where k: "i = int k" "k < length ns" by (metis nonneg_int_cases of_nat_less_iff)
  from dll_remove_ok [OF assms k(2)] obtain s' where "dll_remove s (Some h) i = Some (True, s')"
    "dll_ok s' h (take k ns @ drop (Suc k) ns)"
    "dll_vals s' (take k ns @ drop (Suc k) ns) = take k (dll_vals s ns) @ drop (Suc k) (dll_vals s ns)"
    "\<forall>x. x \<notin> set (h # ns) \<longrightarrow> s' x = s x" using k(1) by blast
  with True k(1) show ?thesis by (intro dll_effect_success [where s' = s' and ns' = "take k ns @ drop (Suc k) ns"]) auto
next
  case False
  then show ?thesis using dll_remove_fail [OF assms False] by (intro dll_effect_fail [OF assms]) auto
qed

text \<open>A first-fit allocator over an arena of \<open>n\<close> cells keeps the promise.\<close>

definition arena_alloc :: "nat \<Rightarrow> 'v alloc" where
  "arena_alloc n s = find (\<lambda>a. s a = None) [0..<n]"

interpretation arena: fresh_allocator "arena_alloc n" for n
  by unfold_locales (auto simp: arena_alloc_def find_Some_iff)

section \<open>Properties\<close>

text \<open>
  On a store that holds the ring of a list, reading it agrees with the list: \<open>size\<close> is its
  length, \<open>get\<close> its element at every index inside the bounds and null outside (from whichever end
  the code walks), \<open>getFirst\<close> and \<open>getLast\<close> its ends, and \<open>Traverse::order\<close> visits it in order;
  no walk fails or runs forever.
\<close>

theorem dll_reads:
  assumes "dll_ok s h ns"
  shows "dll_size s (Some h) = Some (int (length (dll_vals s ns)))
    \<and> dll_empty s (Some h) = Some (dll_vals s ns = [])
    \<and> dll_get s (Some h) i =
        Some (if 0 \<le> i \<and> i < int (length (dll_vals s ns)) then dll_vals s ns ! nat i else None)
    \<and> dll_getFirst s (Some h) = Some (case dll_vals s ns of [] \<Rightarrow> None | v # _ \<Rightarrow> v)
    \<and> dll_getLast s (Some h) = Some (if dll_vals s ns = [] then None else last (dll_vals s ns))
    \<and> linear_order s (Some h) = Some (dll_vals s ns)"
  using dll_size_ok [OF assms] dll_get_ok [OF assms, of i] dll_getFirst_ok [OF assms]
    dll_getLast_ok [OF assms] linear_order_loop_ok [OF assms, of 0]
  by (simp add: dll_vals_def dll_empty_def linear_order_def)

theorem dll_reads_witness:
  "linear_order [0 \<mapsto> \<lparr>prev = 1, nxt = 1, nodeValue = None\<rparr>, 1 \<mapsto> \<lparr>prev = 0, nxt = 0, nodeValue = Some (5::int)\<rparr>]
     (Some 0) = Some [Some 5]"
  using dll_reads [of "[0 \<mapsto> \<lparr>prev = 1, nxt = 1, nodeValue = None\<rparr>, 1 \<mapsto> \<lparr>prev = 0, nxt = 0, nodeValue = Some (5::int)\<rparr>]" 0 "[1]"]
  by (simp add: dll_ok_def linked_def dll_vals_def)

text \<open>
  C27: with an allocator that never hands out an address in use, \<open>insertFirst\<close>, \<open>insertLast\<close>,
  \<open>insert\<close> and \<open>remove\<close> return (no bad dereference, no endless loop) and change the list as their
  names say. An insertion succeeds exactly where memory can be had and the index is 0 or that of an
  element, a removal exactly where there is an element at the index; on failure the store is
  untouched. The ring stays linked in both directions and nothing outside it changes.
\<close>

theorem dll_updates:
  assumes "fresh_allocator alloc" "dll_ok s h ns"
  shows "dll_effect s h ns (set_option (alloc s)) (dll_insertFirst alloc s (Some h) v) (alloc s \<noteq> None)
      (v # dll_vals s ns)
    \<and> dll_effect s h ns (set_option (alloc s)) (dll_insertLast alloc s (Some h) v) (alloc s \<noteq> None)
      (dll_vals s ns @ [v])
    \<and> dll_effect s h ns (set_option (alloc s)) (dll_insert alloc s (Some h) i v)
      (alloc s \<noteq> None \<and> (i = 0 \<or> 0 < i \<and> i < int (length ns)))
      (take (nat i) (dll_vals s ns) @ v # drop (nat i) (dll_vals s ns))
    \<and> dll_effect s h ns {} (dll_remove s (Some h) i) (0 \<le> i \<and> i < int (length ns))
      (take (nat i) (dll_vals s ns) @ drop (Suc (nat i)) (dll_vals s ns))"
  using fresh_allocator.dll_insertFirst_effect [OF assms] fresh_allocator.dll_insertLast_effect [OF assms]
    fresh_allocator.dll_insert_effect [OF assms] dll_remove_effect [OF assms(2)] by blast

theorem dll_updates_witness:
  "dll_effect [0 \<mapsto> \<lparr>prev = 0, nxt = 0, nodeValue = None :: int option\<rparr>] 0 [] {1}
     (dll_insertFirst (arena_alloc 2) [0 \<mapsto> \<lparr>prev = 0, nxt = 0, nodeValue = None\<rparr>] (Some 0) (Some 5)) True [Some 5]"
  using dll_updates [OF arena.fresh_allocator_axioms [of 2],
      of "[0 \<mapsto> \<lparr>prev = 0, nxt = 0, nodeValue = None :: int option\<rparr>]" 0 "[]" "Some 5" 0]
  by (simp add: dll_ok_def linked_def dll_vals_def arena_alloc_def upt_rec)

text \<open>
  The stack is last-in first-out and the queue first-in first-out: \<open>push\<close> adds the value at
  the front of the stack and at the back of the queue, \<open>pop\<close> returns the value at the front (null
  when there is none) and takes it away, and neither reaches outside the structure.
\<close>

theorem stack_queue_discipline:
  assumes "fresh_allocator alloc" "dll_ok s h ns"
  shows "dll_effect s h ns (set_option (alloc s)) (stack_push alloc s (Some h) v) (alloc s \<noteq> None)
      (v # dll_vals s ns)
    \<and> dll_effect s h ns (set_option (alloc s)) (queue_push alloc s (Some h) v) (alloc s \<noteq> None)
      (dll_vals s ns @ [v])
    \<and> (\<exists>s'. stack_pop s (Some h) = Some (case dll_vals s ns of [] \<Rightarrow> None | v # _ \<Rightarrow> v, s')
         \<and> queue_pop s (Some h) = stack_pop s (Some h)
         \<and> dll_ok s' h (tl ns) \<and> dll_vals s' (tl ns) = tl (dll_vals s ns)
         \<and> (\<forall>x. x \<notin> set (h # ns) \<longrightarrow> s' x = s x))"
proof -
  obtain s' where "dll_removeFirst s (Some h) = Some (ns \<noteq> [], s')" "dll_ok s' h (tl ns)"
    "dll_vals s' (tl ns) = tl (dll_vals s ns)" "\<forall>x. x \<notin> set (h # ns) \<longrightarrow> s' x = s x"
    using dll_removeFirst_ok [OF assms(2)] by blast
  then have "\<exists>s'. stack_pop s (Some h) = Some (case dll_vals s ns of [] \<Rightarrow> None | v # _ \<Rightarrow> v, s')
         \<and> queue_pop s (Some h) = stack_pop s (Some h)
         \<and> dll_ok s' h (tl ns) \<and> dll_vals s' (tl ns) = tl (dll_vals s ns)
         \<and> (\<forall>x. x \<notin> set (h # ns) \<longrightarrow> s' x = s x)"
    using dll_getFirst_ok [OF assms(2)]
    by (intro exI [of _ s']) (simp add: stack_pop_def stack_top_def queue_pop_def)
  then show ?thesis
    using fresh_allocator.dll_insertFirst_effect [OF assms, of v] fresh_allocator.dll_insertLast_effect [OF assms, of v]
    by (simp only: stack_push_def queue_push_def simp_thms)
qed

theorem stack_queue_discipline_witness:
  "\<exists>s'. stack_pop [0 \<mapsto> \<lparr>prev = 1, nxt = 1, nodeValue = None\<rparr>, 1 \<mapsto> \<lparr>prev = 0, nxt = 0, nodeValue = Some (5::int)\<rparr>]
     (Some 0) = Some (Some 5, s') \<and> dll_vals s' [] = []"
  using stack_queue_discipline [OF arena.fresh_allocator_axioms [of 2],
      of "[0 \<mapsto> \<lparr>prev = 1, nxt = 1, nodeValue = None\<rparr>, 1 \<mapsto> \<lparr>prev = 0, nxt = 0, nodeValue = Some (5::int)\<rparr>]" 0 "[1]" None]
  by (auto simp: dll_ok_def linked_def dll_vals_def)

text \<open>
  \<open>create\<close> makes an empty list at an address that was free, and \<open>destroy\<close> frees exactly the
  head and the nodes of the list: no node leaks and nothing else is freed.
\<close>

theorem dll_create_destroy:
  assumes "fresh_allocator alloc"
  shows "(dll_create alloc s = (Some a, s1) \<longrightarrow> s a = None \<and> dll_ok s1 a [] \<and> (\<forall>x. x \<noteq> a \<longrightarrow> s1 x = s x))
    \<and> (dll_ok s h ns \<longrightarrow>
        dll_destroy s (Some h) = Some (True, None, \<lambda>x. if x \<in> set (h # ns) then None else s x))"
proof -
  have "dll_destroy s (Some h) = Some (True, None, \<lambda>x. if x \<in> set (h # ns) then None else s x)" if ok: "dll_ok s h ns"
  proof -
    obtain nd where nd: "s h = Some nd" "nxt nd = hd (ns @ [h])" using dll_head [OF ok] .
    have "successively (linked s) (ns @ [h])" "h \<notin> set ns" "distinct ns"
      using ok by (auto simp: dll_ok_def successively_Cons)
    from dll_destroy_seg [OF this] nd show ?thesis by (auto simp: dll_destroy_def fun_eq_iff)
  qed
  moreover have "s a = None \<and> dll_ok s1 a [] \<and> (\<forall>x. x \<noteq> a \<longrightarrow> s1 x = s x)" if "dll_create alloc s = (Some a, s1)"
    using dll_create_ok [OF that assms] by auto
  ultimately show ?thesis by blast
qed

theorem dll_create_destroy_witness:
  "dll_ok (snd (dll_create (arena_alloc 1) (Map.empty :: int store))) 0 []"
  using dll_create_destroy [OF arena.fresh_allocator_axioms [of 1], of "Map.empty :: int store" 0]
  by (auto simp: dll_create_def dll_createNode_def arena_alloc_def)

end
