(* ===== verification/DS_Filter_Bloom.thy ===== *)
theory DS_Filter_Bloom
  imports Foo_Prelude "HOL-Library.Monad_Syntax"
begin

text \<open>
  The hash function and the Bloom filter of \<open>src/data_structure/source/filter.cpp\<close>. A key is the buffer
  a pointer refers to, \<^term>\<open>None\<close> when the pointer is null; a result of \<^term>\<open>None\<close> is a read outside of the
  buffer, through a null pointer, or a remainder by zero. The two parameters that the constructor
  computes in floating point arithmetic are arguments of the model.
\<close>

unbundle bit_operations_syntax

section \<open>MurmurHash2\<close>

abbreviation murmur_mix :: "64 word" where "murmur_mix \<equiv> 0xC6A4A7935BD1E995"

abbreviation murmur_shift :: nat where "murmur_shift \<equiv> 47"

text \<open>Eight bytes read as a little-endian number.\<close>

definition load64 :: "byte list \<Rightarrow> nat \<Rightarrow> 64 word" where
  "load64 key i = fold (\<lambda>j acc. acc OR push_bit (8 * j) (ucast (key ! (i + j)))) [0..<8] 0"

definition murmur_block :: "64 word \<Rightarrow> 64 word \<Rightarrow> 64 word" where
  "murmur_block block hash =
     (let block = block * murmur_mix;
          block = block XOR drop_bit murmur_shift block;
          block = block * murmur_mix
      in (hash XOR block) * murmur_mix)"

text \<open>The falling through cases of the switch, from the given one down to the first.\<close>

fun murmur_tail :: "byte list \<Rightarrow> nat \<Rightarrow> nat \<Rightarrow> 64 word \<Rightarrow> 64 word" where
  "murmur_tail key i 0 hash = hash"
| "murmur_tail key i (Suc 0) hash = (hash XOR ucast (key ! i)) * murmur_mix"
| "murmur_tail key i (Suc (Suc n)) hash =
     murmur_tail key i (Suc n) (hash XOR push_bit (8 * Suc n) (ucast (key ! (i + Suc n))))"

definition murmurHash2X64 :: "byte list option \<Rightarrow> int \<Rightarrow> 32 word \<Rightarrow> 64 word option" where
  "murmurHash2X64 keyPtr len seed =
     (case keyPtr of
        None \<Rightarrow> None
      | Some key \<Rightarrow>
          (if int (length key) < len then None
           else
             (let n = nat len;
                  hash = ucast seed XOR (of_int len * murmur_mix);
                  hash = fold (\<lambda>i. murmur_block (load64 key (8 * i))) [0..<n div 8] hash;
                  hash = murmur_tail key (8 * (n div 8)) (n mod 8) hash;
                  hash = hash XOR drop_bit murmur_shift hash;
                  hash = hash * murmur_mix
              in Some (hash XOR drop_bit murmur_shift hash))))"

section \<open>Bloom\<close>

record bloom =
  capacity_b :: "32 word"
  filterBitsNum :: "32 word"
  hashFuncNum :: "32 word"
  hashSeed_b :: "32 word"
  filterSize_b :: "32 word"
  filter_b :: "byte list"
  hashPos :: "32 word list"
  entries_b :: "32 word"

text \<open>
  \<open>raw\<close> is the rounded up optimal number of bits and \<open>valid\<close> that the probability is between zero and one;
  \<open>rounded\<close> is the rounded optimal number of hash functions.
\<close>

definition calculateParamM :: "32 word \<Rightarrow> bool \<Rightarrow> 32 word \<Rightarrow> 32 word" where
  "calculateParamM n valid raw = (if n = 0 \<or> \<not> valid then 0 else raw - raw mod 64 + 64)"

definition calculateParamK :: "32 word \<Rightarrow> 32 word \<Rightarrow> 32 word \<Rightarrow> 32 word" where
  "calculateParamK m n rounded = (if m = 0 \<or> n = 0 then 0 else rounded)"

definition bloom_create :: "32 word \<Rightarrow> bool \<Rightarrow> 32 word \<Rightarrow> 32 word \<Rightarrow> 32 word \<Rightarrow> bloom" where
  "bloom_create capacity valid raw rounded seed =
     (let m = calculateParamM capacity valid raw; k = calculateParamK m capacity rounded
      in \<lparr>capacity_b = capacity, filterBitsNum = m, hashFuncNum = k, hashSeed_b = seed, filterSize_b = m div 8,
          filter_b = replicate (unat (m div 8)) 0, hashPos = replicate (unat k) 0, entries_b = 0\<rparr>)"

definition bloomHash :: "bloom \<Rightarrow> byte list option \<Rightarrow> int \<Rightarrow> bloom option" where
  "bloomHash b key len =
     do {
       hash1 \<leftarrow> murmurHash2X64 key len (hashSeed_b b);
       hash2 \<leftarrow> murmurHash2X64 key len (ucast (drop_bit 32 hash1 XOR hash1));
       (if filterBitsNum b = 0 \<and> hashFuncNum b \<noteq> 0 then None
        else Some (b\<lparr>hashPos := map (\<lambda>i. ucast ((hash1 + of_nat i * hash2) mod ucast (filterBitsNum b)))
                                  [0..<unat (hashFuncNum b)]\<rparr>))
     }"

definition setBit :: "byte list \<Rightarrow> 32 word \<Rightarrow> byte list option" where
  "setBit flt pos =
     do { x \<leftarrow> rd flt (unat pos div 8); wr flt (unat pos div 8) (x OR push_bit (unat pos mod 8) 1) }"

definition getBit :: "byte list \<Rightarrow> 32 word \<Rightarrow> byte option" where
  "getBit flt pos = do { x \<leftarrow> rd flt (unat pos div 8); Some (x AND push_bit (unat pos mod 8) 1) }"

fun set_bits_at :: "32 word list \<Rightarrow> byte list \<Rightarrow> byte list option" where
  "set_bits_at [] flt = Some flt"
| "set_bits_at (p # ps) flt = do { flt \<leftarrow> setBit flt p; set_bits_at ps flt }"

fun test_bits_at :: "32 word list \<Rightarrow> byte list \<Rightarrow> bool option" where
  "test_bits_at [] flt = Some True"
| "test_bits_at (p # ps) flt = do { x \<leftarrow> getBit flt p; if x = 0 then Some False else test_bits_at ps flt }"

definition bloom_insert :: "bloom \<Rightarrow> byte list option \<Rightarrow> int \<Rightarrow> (bool \<times> bloom) option" where
  "bloom_insert b key len =
     (if len \<le> 0 then Some (False, b)
      else do {
        b \<leftarrow> bloomHash b key len;
        flt \<leftarrow> set_bits_at (hashPos b) (filter_b b);
        let b = b\<lparr>filter_b := flt, entries_b := entries_b b + 1\<rparr>;
        Some (entries_b b \<le> capacity_b b, b)
      })"

definition bloom_mayContain :: "bloom \<Rightarrow> byte list option \<Rightarrow> int \<Rightarrow> (bool \<times> bloom) option" where
  "bloom_mayContain b key len =
     (if key = None \<or> len \<le> 0 then Some (False, b)
      else do {
        b \<leftarrow> bloomHash b key len;
        r \<leftarrow> test_bits_at (hashPos b) (filter_b b);
        Some (r, b)
      })"

definition bloom_clear :: "bloom \<Rightarrow> bloom" where
  "bloom_clear b =
     b\<lparr>entries_b := 0, filter_b := replicate (unat (filterSize_b b)) 0,
       hashPos := replicate (unat (hashFuncNum b)) 0\<rparr>"

section \<open>The set of bits\<close>

definition bits_of :: "byte list \<Rightarrow> nat set" where
  "bits_of flt = {p. p div 8 < length flt \<and> bit (flt ! (p div 8)) (p mod 8)}"

lemma getBit_iff:
  assumes "unat p < 8 * length flt"
  shows "\<exists>x. getBit flt p = Some x \<and> (x \<noteq> 0 \<longleftrightarrow> unat p \<in> bits_of flt)"
proof -
  have i: "unat p div 8 < length flt" using assms by (simp add: less_mult_imp_div_less mult.commute)
  have "(y AND push_bit n 1 \<noteq> 0) = bit y n" if "n < 8" for y :: byte and n
  proof -
    have "y AND push_bit n 1 = (if bit y n then push_bit n 1 else 0)"
      by (rule bit_word_eqI) (auto simp: bit_simps that)
    moreover have "bit (push_bit n (1 :: byte)) n" using that by (simp add: bit_simps)
    then have "push_bit n (1 :: byte) \<noteq> 0" by (metis bit_0_eq bot_apply bot_bool_def)
    ultimately show ?thesis by simp
  qed
  then show ?thesis using i by (auto simp: getBit_def bits_of_def)
qed

lemma setBit_bits:
  assumes "unat p < 8 * length flt"
  shows "\<exists>flt'. setBit flt p = Some flt' \<and> length flt' = length flt \<and> bits_of flt' = insert (unat p) (bits_of flt)"
proof -
  have i: "unat p div 8 < length flt" using assms by (simp add: less_mult_imp_div_less mult.commute)
  let ?f = "flt[unat p div 8 := flt ! (unat p div 8) OR push_bit (unat p mod 8) 1]"
  have "q \<in> bits_of ?f \<longleftrightarrow> q = unat p \<or> q \<in> bits_of flt" for q
  proof (cases "q div 8 = unat p div 8")
    case True
    then have "q mod 8 = unat p mod 8 \<longleftrightarrow> q = unat p" by (metis div_mult_mod_eq)
    then show ?thesis using i True by (auto simp: bits_of_def bit_simps)
  next
    case False
    then show ?thesis by (auto simp: bits_of_def)
  qed
  then show ?thesis using i by (auto simp: setBit_def)
qed

lemma set_bits_at_bits:
  assumes "\<forall>p\<in>set ps. unat p < 8 * length flt"
  shows "\<exists>flt'. set_bits_at ps flt = Some flt' \<and> length flt' = length flt \<and> bits_of flt' = unat ` set ps \<union> bits_of flt"
  using assms
proof (induction ps arbitrary: flt)
  case (Cons p ps)
  obtain f where f: "setBit flt p = Some f" "length f = length flt" "bits_of f = insert (unat p) (bits_of flt)"
    using setBit_bits [of p flt] Cons.prems by auto
  then show ?case using Cons.IH [of f] Cons.prems by auto
qed simp

lemma test_bits_at_iff:
  assumes "\<forall>p\<in>set ps. unat p < 8 * length flt"
  shows "test_bits_at ps flt = Some (unat ` set ps \<subseteq> bits_of flt)"
  using assms
proof (induction ps)
  case (Cons p ps)
  obtain x where "getBit flt p = Some x" "x \<noteq> 0 \<longleftrightarrow> unat p \<in> bits_of flt" using getBit_iff [of p flt] Cons.prems by auto
  then show ?case using Cons by (cases "x = 0") auto
qed simp

section \<open>The invariant\<close>

definition bloom_invar :: "bloom \<Rightarrow> bool" where
  "bloom_invar b \<longleftrightarrow> length (filter_b b) * 8 = unat (filterBitsNum b) \<and> unat (filterSize_b b) = length (filter_b b)
     \<and> (filterBitsNum b = 0 \<longrightarrow> hashFuncNum b = 0)"

definition readable :: "byte list \<Rightarrow> int \<Rightarrow> bool" where
  "readable key len \<longleftrightarrow> 0 < len \<and> len \<le> int (length key)"

lemma murmur_readable: "readable key len \<Longrightarrow> \<exists>h. murmurHash2X64 (Some key) len seed = Some h"
  by (auto simp: murmurHash2X64_def readable_def Let_def)

text \<open>The bits a key is hashed to: they depend on the configuration of the filter only.\<close>

definition positions :: "bloom \<Rightarrow> byte list \<Rightarrow> int \<Rightarrow> nat set" where
  "positions b key len = (case bloomHash b (Some key) len of None \<Rightarrow> {} | Some b' \<Rightarrow> unat ` set (hashPos b'))"

definition same_config :: "bloom \<Rightarrow> bloom \<Rightarrow> bool" where
  "same_config a b \<longleftrightarrow> filterBitsNum a = filterBitsNum b \<and> hashFuncNum a = hashFuncNum b \<and> hashSeed_b a = hashSeed_b b"

lemma positions_config: "same_config a b \<Longrightarrow> positions a key len = positions b key len"
  by (auto simp: positions_def bloomHash_def same_config_def split: option.splits bind_splits)

lemma bloomHash_total:
  assumes "bloom_invar b" "readable key len"
  shows "\<exists>ps. bloomHash b (Some key) len = Some (b\<lparr>hashPos := ps\<rparr>) \<and> unat ` set ps = positions b key len
           \<and> (\<forall>p\<in>set ps. unat p < 8 * length (filter_b b))"
proof -
  obtain h1 where h1: "murmurHash2X64 (Some key) len (hashSeed_b b) = Some h1" using murmur_readable [OF assms(2)] by blast
  obtain h2 where h2: "murmurHash2X64 (Some key) len (ucast (drop_bit 32 h1 XOR h1)) = Some h2"
    using murmur_readable [OF assms(2)] by blast
  let ?m = "filterBitsNum b"
  let ?ps = "map (\<lambda>i. ucast ((h1 + of_nat i * h2) mod ucast ?m)) [0..<unat (hashFuncNum b)] :: 32 word list"
  have eq: "bloomHash b (Some key) len = Some (b\<lparr>hashPos := ?ps\<rparr>)"
    using assms(1) h1 h2 by (simp add: bloomHash_def bloom_invar_def)
  have "unat (ucast (x mod ucast ?m) :: 32 word) < unat ?m" if "?m \<noteq> 0" for x :: "64 word"
  proof -
    have pos: "0 < unat ?m" using that by (simp add: unat_gt_0)
    have "unat ?m < 2 ^ 32" using unsigned_less [of ?m] by simp
    then have "unat (ucast ?m :: 64 word) = unat ?m" by (simp add: unsigned_ucast_eq take_bit_nat_eq_self)
    then have "unat (x mod ucast ?m) = unat x mod unat ?m" by (simp add: unat_mod)
    then have lt: "unat (x mod ucast ?m) < unat ?m" using pos by simp
    also have "\<dots> < 2 ^ 32" using unsigned_less [of ?m] by simp
    finally have "unat (ucast (x mod ucast ?m) :: 32 word) = unat (x mod ucast ?m)"
      by (simp add: unsigned_ucast_eq take_bit_nat_eq_self)
    then show ?thesis using lt by simp
  qed
  moreover have "?ps = []" if "?m = 0" using that assms(1) by (simp add: bloom_invar_def)
  ultimately have "\<forall>p\<in>set ?ps. unat p < 8 * length (filter_b b)"
    using assms(1) by (cases "?m = 0") (auto simp: bloom_invar_def mult.commute)
  moreover have "unat ` set ?ps = positions b key len" unfolding positions_def eq by simp
  ultimately show ?thesis using eq by blast
qed

lemma bloom_insert_spec:
  assumes "bloom_invar b" "readable key len"
  shows "\<exists>ok b'. bloom_insert b (Some key) len = Some (ok, b') \<and> bloom_invar b' \<and> same_config b b'
    \<and> bits_of (filter_b b') = positions b key len \<union> bits_of (filter_b b)"
proof -
  obtain ps where ps: "bloomHash b (Some key) len = Some (b\<lparr>hashPos := ps\<rparr>)" "unat ` set ps = positions b key len"
    "\<forall>p\<in>set ps. unat p < 8 * length (filter_b b)" using bloomHash_total [OF assms] by blast
  obtain f where "set_bits_at ps (filter_b b) = Some f" "length f = length (filter_b b)"
    "bits_of f = unat ` set ps \<union> bits_of (filter_b b)" using set_bits_at_bits [OF ps(3)] by blast
  then show ?thesis using ps assms by (simp add: bloom_insert_def readable_def bloom_invar_def same_config_def)
qed

lemma bloom_mayContain_spec:
  assumes "bloom_invar b" "readable key len"
  shows "\<exists>b'. bloom_mayContain b (Some key) len = Some (positions b key len \<subseteq> bits_of (filter_b b), b')
    \<and> bloom_invar b' \<and> same_config b b' \<and> filter_b b' = filter_b b"
proof -
  obtain ps where ps: "bloomHash b (Some key) len = Some (b\<lparr>hashPos := ps\<rparr>)" "unat ` set ps = positions b key len"
    "\<forall>p\<in>set ps. unat p < 8 * length (filter_b b)" using bloomHash_total [OF assms] by blast
  then show ?thesis using assms test_bits_at_iff [OF ps(3)]
    by (simp add: bloom_mayContain_def readable_def bloom_invar_def same_config_def)
qed

lemma bits_of_zero [simp]: "bits_of (replicate n 0) = {}"
  by (auto simp: bits_of_def)

lemma bloom_clear_spec:
  "bloom_invar b \<Longrightarrow> bloom_invar (bloom_clear b) \<and> same_config b (bloom_clear b) \<and> bits_of (filter_b (bloom_clear b)) = {}"
  by (auto simp: bloom_clear_def bloom_invar_def same_config_def)

lemma bloom_create_invar: "bloom_invar (bloom_create capacity valid raw rounded seed)"
proof -
  have "unat (m div 8) * 8 = unat m" if "m = calculateParamM capacity valid raw" for m
  proof -
    have "raw - raw mod 64 + 64 = of_nat (64 * (unat (raw div 64) + 1))"
      by (simp add: minus_mod_eq_mult_div distrib_left)
    then have "unat (raw - raw mod 64 + 64) = 64 * (unat (raw div 64) + 1) mod 2 ^ 32" by (simp only: unat_of_nat) simp
    moreover have "8 dvd 64 * k mod (2 ^ 32 :: nat)" for k by (simp add: dvd_mod_iff)
    ultimately have "8 dvd unat (raw - raw mod 64 + 64)" by (simp only:)
    then have "8 dvd unat m" using that by (auto simp: calculateParamM_def)
    then show ?thesis by (simp add: unat_div)
  qed
  then show ?thesis by (auto simp: bloom_create_def bloom_invar_def Let_def calculateParamK_def)
qed

section \<open>Properties\<close>

datatype bloomOp = BInsert "byte list" int | BQuery "byte list" int | BClear

fun bloom_run :: "bloomOp list \<Rightarrow> bloom \<Rightarrow> bloom option" where
  "bloom_run [] b = Some b"
| "bloom_run (BInsert key len # ops) b = do { (ok, b) \<leftarrow> bloom_insert b (Some key) len; bloom_run ops b }"
| "bloom_run (BQuery key len # ops) b = do { (ok, b) \<leftarrow> bloom_mayContain b (Some key) len; bloom_run ops b }"
| "bloom_run (BClear # ops) b = bloom_run ops (bloom_clear b)"

text \<open>The abstract filter: the keys inserted since the filter was last cleared.\<close>

fun bloom_keys :: "bloomOp list \<Rightarrow> (byte list \<times> int) set \<Rightarrow> (byte list \<times> int) set" where
  "bloom_keys [] K = K"
| "bloom_keys (BInsert key len # ops) K = bloom_keys ops (insert (key, len) K)"
| "bloom_keys (BQuery key len # ops) K = bloom_keys ops K"
| "bloom_keys (BClear # ops) K = bloom_keys ops {}"

fun readable_op :: "bloomOp \<Rightarrow> bool" where
  "readable_op (BInsert key len) \<longleftrightarrow> readable key len"
| "readable_op (BQuery key len) \<longleftrightarrow> readable key len"
| "readable_op BClear \<longleftrightarrow> True"

definition positions_of :: "bloom \<Rightarrow> (byte list \<times> int) set \<Rightarrow> nat set" where
  "positions_of b K = (\<Union>(key, len)\<in>K. positions b key len)"

lemma positions_of_config: "same_config a b \<Longrightarrow> positions_of a K = positions_of b K"
  by (simp add: positions_of_def positions_config)

lemma same_config_trans: "same_config a b \<Longrightarrow> same_config b c \<Longrightarrow> same_config a c"
  by (simp add: same_config_def)

lemma bloom_run_spec:
  assumes "bloom_invar b" "list_all readable_op ops" "bits_of (filter_b b) = positions_of b K"
  shows "\<exists>b'. bloom_run ops b = Some b' \<and> bloom_invar b' \<and> same_config b b'
    \<and> bits_of (filter_b b') = positions_of b (bloom_keys ops K)"
  using assms
proof (induction ops arbitrary: b K)
  case Nil
  then show ?case by (simp add: same_config_def)
next
  case (Cons op ops)
  have "\<exists>c L. bloom_run (op # ops) b = bloom_run ops c \<and> bloom_invar c \<and> same_config b c
      \<and> bits_of (filter_b c) = positions_of b L \<and> bloom_keys (op # ops) K = bloom_keys ops L"
  proof (cases op)
    case (BInsert key len)
    have "readable key len" using Cons.prems(2) BInsert by simp
    from bloom_insert_spec [OF Cons.prems(1) this] obtain ok c where c: "bloom_insert b (Some key) len = Some (ok, c)" "bloom_invar c" "same_config b c"
      "bits_of (filter_b c) = positions b key len \<union> bits_of (filter_b b)"
      by blast
    then have "bits_of (filter_b c) = positions_of b (insert (key, len) K)"
      using Cons.prems(3) by (simp add: positions_of_def)
    then show ?thesis using c BInsert by auto
  next
    case (BQuery key len)
    have "readable key len" using Cons.prems(2) BQuery by simp
    from bloom_mayContain_spec [OF Cons.prems(1) this] obtain r c where "bloom_mayContain b (Some key) len = Some (r, c)" "bloom_invar c" "same_config b c"
      "filter_b c = filter_b b"
      by blast
    then show ?thesis using BQuery Cons.prems(3) by (intro exI [of _ c] exI [of _ K]) simp
  next
    case BClear
    have "bits_of (filter_b (bloom_clear b)) = positions_of b {}"
      using bloom_clear_spec [OF Cons.prems(1)] by (simp add: positions_of_def)
    then show ?thesis using BClear bloom_clear_spec [OF Cons.prems(1)] by auto
  qed
  then obtain c L where c: "bloom_run (op # ops) b = bloom_run ops c" "bloom_invar c" "same_config b c"
    "bits_of (filter_b c) = positions_of b L" "bloom_keys (op # ops) K = bloom_keys ops L" by blast
  have "list_all readable_op ops" using Cons.prems(2) by simp
  moreover have "bits_of (filter_b c) = positions_of c L" using c(3,4) positions_of_config by simp
  ultimately obtain b' where "bloom_run ops c = Some b'" "bloom_invar b'" "same_config c b'"
    "bits_of (filter_b b') = positions_of c (bloom_keys ops L)" using Cons.IH [OF c(2)] by blast
  then show ?case using c same_config_trans [OF c(3)] positions_of_config [OF c(3)] by auto
qed



end
