(* ===== verification/DS_Graph_Traverse.thy ===== *)
theory DS_Graph_Traverse
  imports Foo_Prelude "HOL-Library.Monad_Syntax"
begin

text \<open>
  What the two graphs of \<open>src/data_structure/source/graph.cpp\<close> share: the search for a vertex by its data,
  the insertion sort of neighbours and the two traversals. The namespaces \<open>undirected\<close> and \<open>directed\<close>
  repeat this code and differ in how they collect the neighbours of a vertex, which is the argument
  \<open>nbrs\<close> here.

  \<^item> Vertices are indices into an array of \<open>maxVertexNum\<close> entries; a read or write outside of an array
    makes the result \<^term>\<open>None\<close>. The data of the vertices are a list \<open>ds\<close>, in which \<^term>\<open>None\<close> is a null pointer.
  \<^item> A traversal returns the vertices in the order in which it calls \<open>op\<close> on them.
  \<^item> The depth of the recursion of \<open>dfsRecursive\<close> is bounded by its first argument after \<open>nbrs\<close>. Each call
    marks a vertex that was not marked, so \<open>maxVertexNum\<close> is enough, as the theorems show.
\<close>

definition maxVertexNum :: nat where
  "maxVertexNum = 256"

definition data_at :: "'v option list \<Rightarrow> nat \<Rightarrow> 'v option" where
  "data_at ds i = (if i < length ds then ds ! i else None)"

text \<open>\<open>locateVertex\<close>, from index \<open>i\<close> on with \<open>n\<close> vertices left.\<close>

fun locate :: "'v compare \<Rightarrow> 'v option list \<Rightarrow> 'v \<Rightarrow> nat \<Rightarrow> nat \<Rightarrow> int option" where
  "locate cmp ds v i 0 = Some (- 1)"
| "locate cmp ds v i (Suc n) =
     do { d \<leftarrow> data_at ds i;
          if cmp d v = 0 then Some (int i) else locate cmp ds v (i + 1) n }"

text \<open>
  The inner loop of \<open>sortNeighbors\<close>: \<open>temp\<close>, whose data is \<open>d\<close>, goes down from position \<open>j + 1\<close>, which is
  the argument here.
\<close>

fun sink :: "'v compare \<Rightarrow> 'v option list \<Rightarrow> 'v \<Rightarrow> nat \<Rightarrow> nat list \<Rightarrow> nat \<Rightarrow> nat list option" where
  "sink cmp ds d temp neighbors 0 = wr neighbors 0 temp"
| "sink cmp ds d temp neighbors (Suc j) =
     do { x \<leftarrow> rd neighbors j;
          dx \<leftarrow> data_at ds x;
          if cmp dx d > 0
          then do { neighbors \<leftarrow> wr neighbors (j + 1) x; sink cmp ds d temp neighbors j }
          else wr neighbors (j + 1) temp }"

fun sort_rounds :: "'v compare \<Rightarrow> 'v option list \<Rightarrow> nat list \<Rightarrow> nat \<Rightarrow> nat \<Rightarrow> nat list option" where
  "sort_rounds cmp ds neighbors i 0 = Some neighbors"
| "sort_rounds cmp ds neighbors i (Suc n) =
     do { temp \<leftarrow> rd neighbors i;
          d \<leftarrow> data_at ds temp;
          neighbors \<leftarrow> sink cmp ds d temp neighbors i;
          sort_rounds cmp ds neighbors (i + 1) n }"

definition sortNeighbors :: "'v compare \<Rightarrow> 'v option list \<Rightarrow> nat list \<Rightarrow> nat list option" where
  "sortNeighbors cmp ds neighbors = sort_rounds cmp ds neighbors 1 (length neighbors - 1)"

lemma filter_fst: "a \<notin> fst ` set xs \<Longrightarrow> filter (\<lambda>x. fst x \<noteq> a) xs = xs"
  by (induction xs) auto

lemma UN_upd: "i < (n :: nat) \<Longrightarrow> (\<Union>j<n. F ((L(i := x)) j)) = F x \<union> (\<Union>j\<in>{..<n} - {i}. F (L j))"
  by (auto split: if_splits)

lemma sum_upd: "i < (n :: nat) \<Longrightarrow> (\<Sum>j<n. F ((L(i := x)) j) :: int) = F x + (\<Sum>j\<in>{..<n} - {i}. F (L j))"
  by (subst sum.remove [of _ i]) auto

text \<open>What operator \<open>new\<close> promises: an address that is not in use.\<close>

definition fresh_alloc :: "((nat \<rightharpoonup> 'n) \<Rightarrow> nat option) \<Rightarrow> bool" where
  "fresh_alloc alloc \<longleftrightarrow> (\<forall>h a. alloc h = Some a \<longrightarrow> h a = None)"

definition first_alloc :: "(nat \<rightharpoonup> 'n) \<Rightarrow> nat option" where
  "first_alloc h = (if h 0 = None then Some 0 else None)"

lemma first_alloc_fresh: "fresh_alloc first_alloc"
  by (simp add: fresh_alloc_def first_alloc_def)

section \<open>Traversals\<close>

type_synonym neighbors = "nat \<Rightarrow> bool list \<Rightarrow> nat list option"

fun dfs_each :: "(nat \<Rightarrow> bool list \<times> nat list \<Rightarrow> (bool list \<times> nat list) option)
    \<Rightarrow> nat list \<Rightarrow> bool list \<times> nat list \<Rightarrow> (bool list \<times> nat list) option" where
  "dfs_each rec [] s = Some s"
| "dfs_each rec (j # js) s =
     do { b \<leftarrow> rd (fst s) j;
          s \<leftarrow> (if \<not> b then rec j s else Some s);
          dfs_each rec js s }"

fun dfsRecursive :: "neighbors \<Rightarrow> nat \<Rightarrow> nat \<Rightarrow> bool list \<times> nat list \<Rightarrow> (bool list \<times> nat list) option" where
  "dfsRecursive nbrs 0 index s = None"
| "dfsRecursive nbrs (Suc n) index (visited, ops) =
     do { visited \<leftarrow> wr visited index True;
          neighbors \<leftarrow> nbrs index visited;
          dfs_each (dfsRecursive nbrs n) neighbors (visited, ops @ [index]) }"

definition dfs_from :: "neighbors \<Rightarrow> nat \<Rightarrow> nat list option" where
  "dfs_from nbrs start =
     map_option snd (dfsRecursive nbrs maxVertexNum start (replicate maxVertexNum False, []))"

text \<open>The state of the breadth-first search: \<open>visited\<close>, the calls of \<open>op\<close>, \<open>queue\<close> and \<open>rear\<close>.\<close>

type_synonym bfs_state = "bool list \<times> nat list \<times> nat list \<times> nat"

fun bfs_each :: "nat list \<Rightarrow> bfs_state \<Rightarrow> bfs_state option" where
  "bfs_each [] s = Some s"
| "bfs_each (j # js) (visited, ops, queue, rear) =
     do { b \<leftarrow> rd visited j;
          if b then bfs_each js (visited, ops, queue, rear)
          else do { visited \<leftarrow> wr visited j True;
                    queue \<leftarrow> wr queue rear j;
                    bfs_each js (visited, ops @ [j], queue, rear + 1) } }"

partial_function (option) bfs_loop :: "neighbors \<Rightarrow> nat \<Rightarrow> bfs_state \<Rightarrow> nat list option" where
  "bfs_loop nbrs front s =
     (case s of (visited, ops, queue, rear) \<Rightarrow>
        if front < rear
        then do { q \<leftarrow> rd queue front;
                  neighbors \<leftarrow> nbrs q visited;
                  s \<leftarrow> bfs_each neighbors s;
                  bfs_loop nbrs (front + 1) s }
        else Some ops)"

definition bfs_from :: "neighbors \<Rightarrow> nat \<Rightarrow> nat list option" where
  "bfs_from nbrs start =
     do { visited \<leftarrow> wr (replicate maxVertexNum False) start True;
          queue \<leftarrow> wr (replicate maxVertexNum 0) 0 start;
          bfs_loop nbrs 0 (visited, [start], queue, 1) }"

section \<open>Searching and sorting\<close>

lemma data_at_less [simp]: "i < length ds \<Longrightarrow> data_at ds i = ds ! i"
  by (simp add: data_at_def)

lemma locate_cases:
  assumes "\<And>k. i \<le> k \<Longrightarrow> k < i + n \<Longrightarrow> data_at ds k = Some (f k)"
  shows "(\<exists>k. i \<le> k \<and> k < i + n \<and> cmp (f k) v = 0 \<and> locate cmp ds v i n = Some (int k)) \<or>
     (\<forall>k. i \<le> k \<and> k < i + n \<longrightarrow> cmp (f k) v \<noteq> 0) \<and> locate cmp ds v i n = Some (- 1)"
  using assms
proof (induction n arbitrary: i)
  case (Suc n)
  have d: "data_at ds i = Some (f i)" by (rule Suc.prems) auto
  have IH: "(\<exists>k. i + 1 \<le> k \<and> k < i + 1 + n \<and> cmp (f k) v = 0 \<and> locate cmp ds v (i + 1) n = Some (int k)) \<or>
     (\<forall>k. i + 1 \<le> k \<and> k < i + 1 + n \<longrightarrow> cmp (f k) v \<noteq> 0) \<and> locate cmp ds v (i + 1) n = Some (- 1)"
    by (rule Suc.IH) (use Suc.prems in auto)
  have split: "i \<le> k \<longleftrightarrow> k = i \<or> i + 1 \<le> k" for k by auto
  show ?case
  proof (cases "cmp (f i) v = 0")
    case True
    then show ?thesis using d by auto
  next
    case False
    from IH show ?thesis
    proof
      assume "\<exists>k. i + 1 \<le> k \<and> k < i + 1 + n \<and> cmp (f k) v = 0 \<and> locate cmp ds v (i + 1) n = Some (int k)"
      then obtain k where "i + 1 \<le> k" "k < i + 1 + n" "cmp (f k) v = 0" "locate cmp ds v (i + 1) n = Some (int k)" by blast
      then show ?thesis using False d by (intro disjI1 exI [of _ k]) simp
    next
      assume "(\<forall>k. i + 1 \<le> k \<and> k < i + 1 + n \<longrightarrow> cmp (f k) v \<noteq> 0) \<and> locate cmp ds v (i + 1) n = Some (- 1)"
      then show ?thesis using False d by (auto simp: split)
    qed
  qed
qed simp

lemma sink_perm:
  assumes "\<And>x. x \<in> set xs \<Longrightarrow> data_at ds x \<noteq> None" "j < length xs"
  shows "\<exists>ys. sink cmp ds d temp xs j = Some ys \<and> mset ys = mset (xs[j := temp])"
  using assms
proof (induction j arbitrary: xs)
  case (Suc j)
  let ?ys = "xs[Suc j := xs ! j]"
  obtain dx where dx: "data_at ds (xs ! j) = Some dx" using Suc.prems by (meson Suc_lessD not_None_eq nth_mem)
  have "\<exists>zs. sink cmp ds d temp ?ys j = Some zs \<and> mset zs = mset (?ys[j := temp])"
    using Suc.prems by (intro Suc.IH) (auto dest!: set_update_subset_insert [THEN subsetD])
  moreover have "?ys[j := temp] = (xs[Suc j := temp])[Suc j := xs[Suc j := temp] ! j, j := xs[Suc j := temp] ! Suc j]"
    using Suc.prems by simp
  then have "mset (?ys[j := temp]) = mset (xs[Suc j := temp])"
    using Suc.prems by (metis length_list_update mset_swap Suc_lessD list_update_swap n_not_Suc_n)
  ultimately show ?case using Suc.prems dx by auto
qed simp

lemma sort_rounds_perm:
  assumes "\<And>x. x \<in> set xs \<Longrightarrow> data_at ds x \<noteq> None" "i + n \<le> length xs"
  shows "\<exists>ys. sort_rounds cmp ds xs i n = Some ys \<and> mset ys = mset xs"
  using assms
proof (induction n arbitrary: xs i)
  case (Suc n)
  obtain d where d: "data_at ds (xs ! i) = Some d" using Suc.prems(1) [of "xs ! i"] Suc.prems(2) by auto
  obtain ys where ys: "sink cmp ds d (xs ! i) xs i = Some ys" "mset ys = mset xs"
    using sink_perm [of xs ds i cmp d "xs ! i"] Suc.prems by auto
  moreover have "\<exists>zs. sort_rounds cmp ds ys (i + 1) n = Some zs \<and> mset zs = mset ys"
    using Suc.prems ys(2) by (intro Suc.IH) (auto dest: mset_eq_setD mset_eq_length)
  ultimately show ?case using Suc.prems d by auto
qed simp

lemma sortNeighbors_perm:
  assumes "\<And>x. x \<in> set xs \<Longrightarrow> data_at ds x \<noteq> None"
  shows "\<exists>ys. sortNeighbors cmp ds xs = Some ys \<and> mset ys = mset xs"
proof (cases xs)
  case Nil
  then show ?thesis by (simp add: sortNeighbors_def)
next
  case (Cons x xs')
  then show ?thesis using sort_rounds_perm [of xs ds 1 "length xs - 1" cmp] assms by (simp add: sortNeighbors_def)
qed

section \<open>What the traversals promise\<close>

lemma dfs_each_extends:
  assumes "\<And>j s s'. rec j s = Some s' \<Longrightarrow> \<exists>r. snd s' = snd s @ r" "dfs_each rec js s = Some s'"
  shows "\<exists>r. snd s' = snd s @ r"
  using assms(2)
proof (induction js arbitrary: s)
  case (Cons j js)
  obtain b t where bt: "rd (fst s) j = Some b" "(if \<not> b then rec j s else Some s) = Some t" "dfs_each rec js t = Some s'"
    using Cons.prems by (auto simp: bind_eq_Some_conv)
  have "\<exists>r. snd t = snd s @ r" using bt(2) assms(1) by (auto split: if_splits)
  then show ?case using Cons.IH [OF bt(3)] by auto
qed simp

lemma dfsRecursive_extends: "dfsRecursive nbrs n i s = Some s' \<Longrightarrow> \<exists>r. snd s' = snd s @ i # r"
proof (induction n arbitrary: i s s')
  case (Suc n)
  obtain vis ops where s: "s = (vis, ops)" by fastforce
  obtain vis1 ns where "dfs_each (dfsRecursive nbrs n) ns (vis1, ops @ [i]) = Some s'"
    using Suc.prems s by (auto simp: bind_eq_Some_conv)
  then have "\<exists>r. snd s' = snd (vis1, ops @ [i]) @ r" by (rule dfs_each_extends [rotated]) (use Suc.IH in blast)
  then show ?case using s by auto
qed simp

text \<open>
  A graph can be traversed when its well-formedness bounds the number of its vertices and collecting
  neighbours works: it returns successors only, and all of them that are not marked.
\<close>

locale traversable =
  fixes wf :: "'g \<Rightarrow> bool" and order :: "'g \<Rightarrow> nat" and nbrs :: "'g \<Rightarrow> neighbors" and succ :: "'g \<Rightarrow> nat \<Rightarrow> nat set"
  assumes order_le: "wf g \<Longrightarrow> order g \<le> maxVertexNum"
    and succ_less: "wf g \<Longrightarrow> i < order g \<Longrightarrow> succ g i \<subseteq> {..<order g}"
    and nbrs_succ: "wf g \<Longrightarrow> i < order g \<Longrightarrow> length vis = maxVertexNum \<Longrightarrow>
      \<exists>ns. nbrs g i vis = Some ns \<and> set ns \<subseteq> succ g i \<and> succ g i \<subseteq> set ns \<union> {j. vis ! j}"
begin

definition edges :: "'g \<Rightarrow> (nat \<times> nat) set" where
  "edges g = {(i, j). i < order g \<and> j \<in> succ g i}"

text \<open>The marks are those of the vertices \<open>op\<close> was called on, which are distinct.\<close>

definition marks :: "'g \<Rightarrow> bool list \<Rightarrow> nat list \<Rightarrow> bool" where
  "marks g vis ops \<longleftrightarrow> length vis = maxVertexNum \<and> distinct ops \<and> set ops \<subseteq> {..<order g} \<and> (\<forall>j<maxVertexNum. vis ! j \<longleftrightarrow> j \<in> set ops)"

definition unmarked :: "nat list \<Rightarrow> nat" where
  "unmarked ops = card ({..<maxVertexNum} - set ops)"

lemma marks_mark:
  assumes "marks g vis ops" "i < order g" "\<not> vis ! i" "wf g"
  shows "marks g (vis[i := True]) (ops @ [i])" "wr vis i True = Some (vis[i := True])" "unmarked (ops @ [i]) < unmarked ops"
proof -
  have i: "i < maxVertexNum" "i \<notin> set ops" using assms order_le [of g] by (auto simp: marks_def)
  show "marks g (vis[i := True]) (ops @ [i])" "wr vis i True = Some (vis[i := True])"
    using assms i by (auto simp: marks_def nth_list_update)
  have "{..<maxVertexNum} - set (ops @ [i]) \<subset> {..<maxVertexNum} - set ops" using i by auto
  then show "unmarked (ops @ [i]) < unmarked ops" by (simp add: unmarked_def psubset_card_mono)
qed

lemma unmarked_append: "unmarked (ops @ new) \<le> unmarked ops"
  unfolding unmarked_def by (rule card_mono) auto

lemma marks_nbrs:
  assumes "marks g vis ops" "i < order g" "wf g"
  obtains ns where "nbrs g i vis = Some ns" "set ns \<subseteq> succ g i" "succ g i \<subseteq> set ns \<union> set ops" "set ns \<subseteq> {..<order g}"
proof -
  obtain ns where ns: "nbrs g i vis = Some ns" "set ns \<subseteq> succ g i" "succ g i \<subseteq> set ns \<union> {j. vis ! j}"
    using nbrs_succ [OF assms(3,2), of vis] assms(1) by (auto simp: marks_def)
  have "vis ! j \<longleftrightarrow> j \<in> set ops" if "j < order g" for j
    using that assms(1) order_le [OF assms(3)] by (auto simp: marks_def)
  then show thesis using that [OF ns(1,2)] ns(2,3) succ_less [OF assms(3,2)] by blast
qed

subsection \<open>Depth first\<close>

text \<open>One step of the search from \<open>s\<close> adds the vertices \<open>new\<close>, whose successors are marked afterwards.\<close>

definition explores :: "'g \<Rightarrow> nat set \<Rightarrow> nat list \<Rightarrow> (bool list \<times> nat list) option \<Rightarrow> bool" where
  "explores g js ops res \<longleftrightarrow> (\<exists>vis' new. res = Some (vis', ops @ new) \<and> marks g vis' (ops @ new) \<and> js \<subseteq> set (ops @ new)
     \<and> (\<forall>x\<in>set new. succ g x \<subseteq> set (ops @ new)) \<and> set new \<subseteq> (edges g)\<^sup>* `` js)"

lemma dfs_each_explores:
  assumes "\<And>i vis ops. i < order g \<Longrightarrow> marks g vis ops \<Longrightarrow> \<not> vis ! i \<Longrightarrow> unmarked ops \<le> n \<Longrightarrow> explores g {i} ops (rec i (vis, ops))"
    and "wf g" "set js \<subseteq> {..<order g}" "marks g vis ops" "unmarked ops \<le> n"
  shows "explores g (set js) ops (dfs_each rec js (vis, ops))"
  using assms(3-)
proof (induction js arbitrary: vis ops)
  case Nil
  then show ?case by (auto simp: explores_def)
next
  case (Cons j js)
  have j: "j < maxVertexNum" using Cons.prems order_le [OF assms(2)] by auto
  then have rd: "rd vis j = Some (vis ! j)" using Cons.prems by (simp add: marks_def)
  show ?case
  proof (cases "vis ! j")
    case True
    then have "j \<in> set ops" using Cons.prems j by (auto simp: marks_def)
    moreover have "explores g (set js) ops (dfs_each rec js (vis, ops))" using Cons by auto
    ultimately show ?thesis using rd True by (fastforce simp: explores_def)
  next
    case False
    have "explores g {j} ops (rec j (vis, ops))" by (rule assms(1)) (use Cons.prems False in auto)
    then obtain vis1 new1 where 1: "rec j (vis, ops) = Some (vis1, ops @ new1)" "marks g vis1 (ops @ new1)" "j \<in> set (ops @ new1)"
        "\<forall>x\<in>set new1. succ g x \<subseteq> set (ops @ new1)" "set new1 \<subseteq> (edges g)\<^sup>* `` {j}"
      by (auto simp: explores_def)
    have "explores g (set js) (ops @ new1) (dfs_each rec js (vis1, ops @ new1))"
      using Cons.IH [of vis1 "ops @ new1"] Cons.prems 1 unmarked_append [of ops new1] by auto
    then obtain vis2 new2 where 2: "dfs_each rec js (vis1, ops @ new1) = Some (vis2, (ops @ new1) @ new2)"
        "marks g vis2 ((ops @ new1) @ new2)" "set js \<subseteq> set ((ops @ new1) @ new2)"
        "\<forall>x\<in>set new2. succ g x \<subseteq> set ((ops @ new1) @ new2)" "set new2 \<subseteq> (edges g)\<^sup>* `` set js"
      unfolding explores_def by blast
    have "dfs_each rec (j # js) (vis, ops) = Some (vis2, ops @ new1 @ new2)" using 1(1) 2(1) rd False by simp
    moreover have "set (new1 @ new2) \<subseteq> (edges g)\<^sup>* `` set (j # js)" using 1(5) 2(5) by fastforce
    ultimately show ?thesis unfolding explores_def using 1(3,4) 2(2-4)
      by (intro exI [of _ vis2] exI [of _ "new1 @ new2"]) auto
  qed
qed

lemma dfsRecursive_explores:
  assumes "wf g" "i < order g" "marks g vis ops" "\<not> vis ! i" "unmarked ops \<le> n"
  shows "explores g {i} ops (dfsRecursive (nbrs g) n i (vis, ops))"
  using assms(2-)
proof (induction n arbitrary: i vis ops)
  case 0
  then show ?case using marks_mark(3) [OF 0(2,1,3) assms(1)] by simp
next
  case (Suc n)
  let ?vis = "vis[i := True]" and ?ops = "ops @ [i]"
  note m = marks_mark [OF Suc.prems(2,1,3) assms(1)]
  obtain ns where ns: "nbrs g i ?vis = Some ns" "set ns \<subseteq> succ g i" "succ g i \<subseteq> set ns \<union> set ?ops" "set ns \<subseteq> {..<order g}"
    using marks_nbrs [OF m(1) Suc.prems(1) assms(1)] .
  have "explores g (set ns) ?ops (dfs_each (dfsRecursive (nbrs g) n) ns (?vis, ?ops))"
    by (rule dfs_each_explores [where n = n]) (use Suc.IH assms(1) ns(4) m(1,3) Suc.prems(4) in auto)
  then obtain vis' new where e: "dfs_each (dfsRecursive (nbrs g) n) ns (?vis, ?ops) = Some (vis', ?ops @ new)"
      "marks g vis' (?ops @ new)" "set ns \<subseteq> set (?ops @ new)" "\<forall>x\<in>set new. succ g x \<subseteq> set (?ops @ new)"
      "set new \<subseteq> (edges g)\<^sup>* `` set ns"
    unfolding explores_def by blast
  have "(edges g)\<^sup>* `` set ns \<subseteq> (edges g)\<^sup>* `` {i}"
    using ns(2) Suc.prems(1) by (auto simp: edges_def intro: converse_rtrancl_into_rtrancl)
  then have "set (i # new) \<subseteq> (edges g)\<^sup>* `` {i}" using e(5) by auto
  then show ?case using e m(2) ns(1,3) unfolding explores_def
    by (intro exI [of _ vis'] exI [of _ "i # new"]) auto
qed

lemma marks_empty: "marks g (replicate maxVertexNum False) []"
  by (simp add: marks_def)

text \<open>A set of vertices that holds the start, is closed under successors and is reached from the start.\<close>

lemma reachable_closed:
  assumes "i \<in> S" "S \<subseteq> {..<order g}" "\<forall>x\<in>S. succ g x \<subseteq> S" "S \<subseteq> (edges g)\<^sup>* `` {i}"
  shows "S = (edges g)\<^sup>* `` {i}"
proof -
  have "x \<in> S" if "(i, x) \<in> (edges g)\<^sup>*" for x
    using that assms(1,3) by (induction rule: rtrancl_induct) (auto simp: edges_def)
  then show ?thesis using assms(4) by auto
qed

lemma dfs_from_correct:
  assumes "wf g" "i < order g"
  shows "\<exists>ops. dfs_from (nbrs g) i = Some (i # ops) \<and> distinct (i # ops) \<and> set (i # ops) = (edges g)\<^sup>* `` {i}"
proof -
  let ?vis = "replicate maxVertexNum False"
  have "\<not> ?vis ! i" using assms order_le [of g] by (simp add: maxVertexNum_def)
  then have "explores g {i} [] (dfsRecursive (nbrs g) maxVertexNum i (?vis, []))"
    using assms marks_empty by (intro dfsRecursive_explores) (auto simp: unmarked_def)
  then obtain vis' new where e: "dfsRecursive (nbrs g) maxVertexNum i (?vis, []) = Some (vis', new)" "marks g vis' new"
      "i \<in> set new" "\<forall>x\<in>set new. succ g x \<subseteq> set new" "set new \<subseteq> (edges g)\<^sup>* `` {i}"
    by (auto simp: explores_def)
  have "set new = (edges g)\<^sup>* `` {i}" by (rule reachable_closed) (use e in \<open>auto simp: marks_def\<close>)
  moreover obtain ops where "new = i # ops" using dfsRecursive_extends [OF e(1)] by auto
  ultimately show ?thesis using e(1,2) by (intro exI [of _ ops]) (auto simp: dfs_from_def marks_def)
qed

subsection \<open>Breadth first\<close>

text \<open>The queue holds what \<open>op\<close> was called on.\<close>

definition queued :: "'g \<Rightarrow> bfs_state \<Rightarrow> bool" where
  "queued g s \<longleftrightarrow> (case s of (vis, ops, queue, rear) \<Rightarrow>
     marks g vis ops \<and> length queue = maxVertexNum \<and> rear = length ops \<and> take rear queue = ops)"

lemma bfs_each_queued:
  assumes "wf g" "set js \<subseteq> {..<order g}" "queued g (vis, ops, queue, rear)"
  shows "\<exists>vis' new queue'. bfs_each js (vis, ops, queue, rear) = Some (vis', ops @ new, queue', rear + length new)
    \<and> queued g (vis', ops @ new, queue', rear + length new) \<and> set js \<subseteq> set (ops @ new) \<and> set new \<subseteq> set js"
  using assms(2,3)
proof (induction js arbitrary: vis ops queue rear)
  case Nil
  then show ?case by simp
next
  case (Cons j js)
  have m: "marks g vis ops" and q: "length queue = maxVertexNum" "rear = length ops" "take rear queue = ops"
    using Cons.prems(2) by (auto simp: queued_def)
  have j: "j < order g" "j < maxVertexNum" using Cons.prems order_le [OF assms(1)] by auto
  then have rd: "rd vis j = Some (vis ! j)" using m by (simp add: marks_def)
  show ?case
  proof (cases "vis ! j")
    case True
    then have "j \<in> set ops" using m j by (auto simp: marks_def)
    then show ?thesis using Cons rd True by fastforce
  next
    case False
    note mm = marks_mark [OF m j(1) False assms(1)]
    have "length (ops @ [j]) \<le> order g"
      using mm(1) card_mono [of "{..<order g}" "set (ops @ [j])"] by (auto simp: marks_def distinct_card)
    then have r: "rear < length queue" using q order_le [OF assms(1)] by simp
    have "queued g (vis[j := True], ops @ [j], queue[rear := j], rear + 1)"
      using mm(1) q r by (auto simp: queued_def take_Suc_conv_app_nth)
    from Cons.IH [OF _ this] Cons.prems(1) obtain vis' new queue' where IH:
      "bfs_each js (vis[j := True], ops @ [j], queue[rear := j], rear + 1) = Some (vis', (ops @ [j]) @ new, queue', rear + 1 + length new)"
      "queued g (vis', (ops @ [j]) @ new, queue', rear + 1 + length new)" "set js \<subseteq> set ((ops @ [j]) @ new)" "set new \<subseteq> set js"
      by auto
    show ?thesis
      by (intro exI [of _ vis'] exI [of _ "j # new"] exI [of _ queue']) (use IH rd False mm(2) r in auto)
  qed
qed

lemma bfs_loop_closes:
  assumes "wf g" "queued g (vis, ops, queue, rear)" "front \<le> rear" "\<forall>x\<in>set (take front ops). succ g x \<subseteq> set ops"
    and "set ops \<subseteq> (edges g)\<^sup>* `` {i}"
  shows "\<exists>new. bfs_loop (nbrs g) front (vis, ops, queue, rear) = Some (ops @ new) \<and> distinct (ops @ new)
    \<and> set (ops @ new) \<subseteq> {..<order g} \<and> (\<forall>x\<in>set (ops @ new). succ g x \<subseteq> set (ops @ new)) \<and> set (ops @ new) \<subseteq> (edges g)\<^sup>* `` {i}"
  using assms(2-)
proof (induction "maxVertexNum - front" arbitrary: front vis ops queue rear rule: less_induct)
  case less
  have m: "marks g vis ops" and q: "length queue = maxVertexNum" "rear = length ops" "take rear queue = ops"
    using less.prems(1) by (auto simp: queued_def)
  show ?case
  proof (cases "front < rear")
    case False
    then show ?thesis using less.prems q m by (subst bfs_loop.simps) (auto simp: marks_def)
  next
    case True
    let ?x = "ops ! front"
    have x: "?x \<in> set ops" using True q by simp
    then have xo: "?x < order g" using m by (auto simp: marks_def)
    have len: "rear \<le> maxVertexNum" using q by (metis length_take min.cobounded2 min_def nle_le)
    then have rdq: "rd queue front = Some ?x" using True q by (metis nth_take rd_Some order_less_le_trans)
    obtain ns where ns: "nbrs g ?x vis = Some ns" "set ns \<subseteq> succ g ?x" "succ g ?x \<subseteq> set ns \<union> set ops" "set ns \<subseteq> {..<order g}"
      using marks_nbrs [OF m xo assms(1)] .
    obtain vis' new queue' where e: "bfs_each ns (vis, ops, queue, rear) = Some (vis', ops @ new, queue', rear + length new)"
        "queued g (vis', ops @ new, queue', rear + length new)" "set ns \<subseteq> set (ops @ new)" "set new \<subseteq> set ns"
      using bfs_each_queued [OF assms(1) ns(4) less.prems(1)] by blast
    have "set (ops @ new) \<subseteq> (edges g)\<^sup>* `` {i}"
    proof -
      have "(i, ?x) \<in> (edges g)\<^sup>*" using x less.prems(4) by auto
      then have "set ns \<subseteq> (edges g)\<^sup>* `` {i}" using ns(2) xo by (auto simp: edges_def intro: rtrancl_into_rtrancl)
      then show ?thesis using e(4) less.prems(4) by auto
    qed
    moreover have "\<forall>x\<in>set (take (front + 1) (ops @ new)). succ g x \<subseteq> set (ops @ new)"
      using less.prems(3) ns(3) e(3) True q by (auto simp: take_Suc_conv_app_nth)
    moreover have "maxVertexNum - (front + 1) < maxVertexNum - front" "front + 1 \<le> rear + length new" using True len by auto
    ultimately obtain new' where
      "bfs_loop (nbrs g) (front + 1) (vis', ops @ new, queue', rear + length new) = Some ((ops @ new) @ new') \<and> distinct ((ops @ new) @ new')
        \<and> set ((ops @ new) @ new') \<subseteq> {..<order g} \<and> (\<forall>x\<in>set ((ops @ new) @ new'). succ g x \<subseteq> set ((ops @ new) @ new'))
        \<and> set ((ops @ new) @ new') \<subseteq> (edges g)\<^sup>* `` {i}"
      using less.hyps [of "front + 1" vis' "ops @ new" queue' "rear + length new"] e(2) by blast
    then show ?thesis using True rdq ns(1) e(1)
      by (intro exI [of _ "new @ new'"], subst bfs_loop.simps) auto
  qed
qed

lemma bfs_from_correct:
  assumes "wf g" "i < order g"
  shows "\<exists>ops. bfs_from (nbrs g) i = Some (i # ops) \<and> distinct (i # ops) \<and> set (i # ops) = (edges g)\<^sup>* `` {i}"
proof -
  let ?vis = "replicate maxVertexNum False" and ?queue = "replicate maxVertexNum 0"
  have i: "i < maxVertexNum" using assms order_le [of g] by simp
  then have mm: "marks g (?vis[i := True]) ([] @ [i])" "wr ?vis i True = Some (?vis[i := True])"
    using marks_mark [OF marks_empty assms(2) _ assms(1)] by simp_all
  then have "queued g (?vis[i := True], [i], ?queue[0 := i], 1)"
    using i by (auto simp: queued_def take_Suc_conv_app_nth)
  from bfs_loop_closes [OF assms(1) this, of 0 i] obtain new where n:
    "bfs_loop (nbrs g) 0 (?vis[i := True], [i], ?queue[0 := i], 1) = Some ([i] @ new)" "distinct ([i] @ new)" "set ([i] @ new) \<subseteq> {..<order g}"
    "\<forall>x\<in>set ([i] @ new). succ g x \<subseteq> set ([i] @ new)" "set ([i] @ new) \<subseteq> (edges g)\<^sup>* `` {i}" by auto
  have "wr ?queue 0 i = Some (?queue[0 := i])" using i by (intro wr_Some) simp
  then have "bfs_from (nbrs g) i = Some (i # new)" using mm(2) n(1) by (simp add: bfs_from_def)
  moreover have "set ([i] @ new) = (edges g)\<^sup>* `` {i}" by (rule reachable_closed) (use n in auto)
  ultimately show ?thesis using n(2) by auto
qed

end

text \<open>Reachability survives a renaming of the vertices that is injective on them.\<close>

lemma reach_image:
  assumes "E' = (\<lambda>(i, j). (f i, f j)) ` E" "E \<subseteq> V \<times> V" "inj_on f V" "i \<in> V"
  shows "f ` (E\<^sup>* `` {i}) = E'\<^sup>* `` {f i}"
proof (intro equalityI subsetI)
  fix y assume "y \<in> f ` (E\<^sup>* `` {i})"
  then obtain j where j: "(i, j) \<in> E\<^sup>*" "y = f j" by auto
  from j(1) have "(f i, f j) \<in> E'\<^sup>*"
  proof (induction rule: rtrancl_induct)
    case (step j k)
    then have "(f j, f k) \<in> E'" using assms(1) by force
    then show ?case using step.IH by (rule rtrancl_into_rtrancl [rotated])
  qed simp
  then show "y \<in> E'\<^sup>* `` {f i}" using j by simp
next
  fix y assume "y \<in> E'\<^sup>* `` {f i}"
  then have "(f i, y) \<in> E'\<^sup>*" by simp
  then have "\<exists>j\<in>V. (i, j) \<in> E\<^sup>* \<and> y = f j"
  proof (induction rule: rtrancl_induct)
    case base
    then show ?case using assms(4) by auto
  next
    case (step y z)
    then obtain j k l where "j \<in> V" "(i, j) \<in> E\<^sup>*" "y = f j" "(k, l) \<in> E" "y = f k" "z = f l" using assms(1) by auto
    note j = this
    have kl: "k \<in> V" "l \<in> V" using j(4) assms(2) by auto
    then have "j = k" using j(1,3,5) inj_onD [OF assms(3)] by metis
    then have "(i, l) \<in> E\<^sup>*" using j(2,4) by (simp add: rtrancl_into_rtrancl)
    then show ?case using kl(2) j(6) by blast
  qed
  then show "y \<in> f ` (E\<^sup>* `` {i})" by auto
qed

end
