(* ===== verification/DS_Graph_Directed.thy ===== *)
theory DS_Graph_Directed
  imports DS_Graph_Traverse
begin

text \<open>
  The directed graph of \<open>src/data_structure/source/graph.cpp\<close>, an orthogonal list of arcs.

  The arcs live in a store, a map from addresses to nodes, that belongs to the graph; \<open>::new\<close> is the
  argument \<open>alloc\<close>, which looks at the store and returns an address or fails. A null pointer is \<^term>\<open>None\<close>, and
  an operation whose result is \<^term>\<open>None\<close> follows a dangling pointer, leaves an array or does not end. The
  arguments \<open>graph\<close> and \<open>compare\<close> are not null.
\<close>

section \<open>State\<close>

record ArcNode =
  headVex :: nat
  tailVex :: nat
  headLink :: "nat option"
  tailLink :: "nat option"

record 'v d_VertexNode =
  firstIn :: "nat option"
  firstOut :: "nat option"
  d_data :: "'v option"

record 'v OLGraph =
  d_vexNum :: nat
  arcNum :: int
  xList :: "'v d_VertexNode list"
  arcs :: "nat \<rightharpoonup> ArcNode"

definition d_create :: "'v OLGraph" where
  "d_create =
     \<lparr>d_vexNum = 0, arcNum = 0,
      xList = replicate maxVertexNum \<lparr>firstIn = None, firstOut = None, d_data = None\<rparr>, arcs = Map.empty\<rparr>"

section \<open>Operations\<close>

definition d_locateVertex :: "'v compare \<Rightarrow> 'v OLGraph \<Rightarrow> 'v option \<Rightarrow> int option" where
  "d_locateVertex cmp g vert =
     (case vert of None \<Rightarrow> Some (- 1) | Some v \<Rightarrow> locate cmp (map d_data (xList g)) v 0 (d_vexNum g))"

text \<open>The loop that frees a list of outgoing arcs.\<close>

partial_function (option) free_out :: "(nat \<rightharpoonup> ArcNode) \<Rightarrow> nat option \<Rightarrow> int \<Rightarrow> ((nat \<rightharpoonup> ArcNode) \<times> int) option" where
  "free_out h cur n =
     (case cur of
        None \<Rightarrow> Some (h, n)
      | Some a \<Rightarrow> do { nd \<leftarrow> h a; free_out (h(a := None)) (tailLink nd) (n - 1) })"

definition deleteOutgoingArcs :: "'v OLGraph \<Rightarrow> nat \<Rightarrow> 'v OLGraph option" where
  "deleteOutgoingArcs g index =
     do { x \<leftarrow> rd (xList g) index;
          (h, n) \<leftarrow> free_out (arcs g) (firstOut x) (arcNum g);
          xs \<leftarrow> wr (xList g) index (x\<lparr>firstOut := None\<rparr>);
          Some (g\<lparr>arcs := h, arcNum := n, xList := xs\<rparr>) }"

text \<open>
  \<open>prev ? prev->tailLink = curr->tailLink : graph->xList[i].firstOut = curr->tailLink\<close>, and the deletion of
  \<open>curr\<close> behind it.
\<close>

definition unlink_arc :: "'v OLGraph \<Rightarrow> nat \<Rightarrow> nat option \<Rightarrow> nat \<Rightarrow> 'v OLGraph option" where
  "unlink_arc g i prev cur =
     do { nd \<leftarrow> arcs g cur;
          g \<leftarrow> (case prev of
                 Some p \<Rightarrow> do { pn \<leftarrow> arcs g p; Some (g\<lparr>arcs := (arcs g)(p \<mapsto> pn\<lparr>tailLink := tailLink nd\<rparr>)\<rparr>) }
               | None \<Rightarrow> do { x \<leftarrow> rd (xList g) i;
                             xs \<leftarrow> wr (xList g) i (x\<lparr>firstOut := tailLink nd\<rparr>);
                             Some (g\<lparr>xList := xs\<rparr>) });
          Some (g\<lparr>arcs := (arcs g)(cur := None), arcNum := arcNum g - 1\<rparr>) }"

partial_function (option) incoming_loop ::
  "nat \<Rightarrow> nat \<Rightarrow> 'v OLGraph \<Rightarrow> nat option \<Rightarrow> nat option \<Rightarrow> 'v OLGraph option" where
  "incoming_loop index i g prev cur =
     (case cur of
        None \<Rightarrow> Some g
      | Some a \<Rightarrow>
          do { nd \<leftarrow> arcs g a;
               if headVex nd \<noteq> index then incoming_loop index i g (Some a) (tailLink nd)
               else do {
                 g \<leftarrow> unlink_arc g i prev a;
                 cur \<leftarrow> (case prev of
                           Some p \<Rightarrow> map_option tailLink (arcs g p)
                         | None \<Rightarrow> map_option firstOut (rd (xList g) i));
                 incoming_loop index i g prev cur } })"

fun deleteIncoming_from :: "nat \<Rightarrow> nat \<Rightarrow> nat \<Rightarrow> 'v OLGraph \<Rightarrow> 'v OLGraph option" where
  "deleteIncoming_from index i 0 g = Some g"
| "deleteIncoming_from index i (Suc n) g =
     do { x \<leftarrow> rd (xList g) i;
          g \<leftarrow> incoming_loop index i g None (firstOut x);
          deleteIncoming_from index (i + 1) n g }"

definition deleteIncomingArcs :: "'v OLGraph \<Rightarrow> nat \<Rightarrow> 'v OLGraph option" where
  "deleteIncomingArcs g index = deleteIncoming_from index 0 (d_vexNum g) g"

fun d_destroy_from :: "nat \<Rightarrow> nat \<Rightarrow> 'v OLGraph \<Rightarrow> 'v OLGraph option" where
  "d_destroy_from i 0 g = Some g"
| "d_destroy_from i (Suc n) g =
     do { x \<leftarrow> rd (xList g) i;
          (h, _) \<leftarrow> free_out (arcs g) (firstOut x) (arcNum g);
          xs \<leftarrow> wr (xList g) i (x\<lparr>firstIn := None, firstOut := None\<rparr>);
          d_destroy_from (i + 1) n (g\<lparr>arcs := h, xList := xs\<rparr>) }"

text \<open>What is left in the store after \<open>destroy\<close>.\<close>

definition d_destroy :: "'v OLGraph \<Rightarrow> (nat \<rightharpoonup> ArcNode) option" where
  "d_destroy g = map_option arcs (d_destroy_from 0 (d_vexNum g) g)"

definition d_addVertex :: "'v compare \<Rightarrow> 'v OLGraph \<Rightarrow> 'v option \<Rightarrow> (bool \<times> 'v OLGraph) option" where
  "d_addVertex cmp g vert =
     (if vert = None \<or> d_vexNum g \<ge> maxVertexNum then Some (False, g)
      else do {
        index \<leftarrow> d_locateVertex cmp g vert;
        if index \<ge> 0 then Some (False, g)
        else do {
          xs \<leftarrow> wr (xList g) (d_vexNum g) \<lparr>firstIn = None, firstOut = None, d_data = vert\<rparr>;
          Some (True, g\<lparr>xList := xs, d_vexNum := d_vexNum g + 1\<rparr>) } })"

text \<open>The loop of \<open>addArc\<close> that looks for the arc.\<close>

partial_function (option) has_arc :: "(nat \<rightharpoonup> ArcNode) \<Rightarrow> nat option \<Rightarrow> nat \<Rightarrow> bool option" where
  "has_arc h cur index2 =
     (case cur of
        None \<Rightarrow> Some False
      | Some a \<Rightarrow> do { nd \<leftarrow> h a; if headVex nd = index2 then Some True else has_arc h (tailLink nd) index2 })"

definition link_arc :: "'v OLGraph \<Rightarrow> nat \<Rightarrow> nat \<Rightarrow> nat \<Rightarrow> 'v OLGraph option" where
  "link_arc g a index1 index2 =
     do { x2 \<leftarrow> rd (xList g) index2;
          x1 \<leftarrow> rd (xList g) index1;
          let g = g\<lparr>arcs := (arcs g)(a \<mapsto>
                \<lparr>headVex = index2, tailVex = index1, headLink = firstIn x2, tailLink = firstOut x1\<rparr>)\<rparr>;
          xs \<leftarrow> wr (xList g) index1 (x1\<lparr>firstOut := Some a\<rparr>);
          x2 \<leftarrow> rd xs index2;
          xs \<leftarrow> wr xs index2 (x2\<lparr>firstIn := Some a\<rparr>);
          Some (g\<lparr>xList := xs, arcNum := arcNum g + 1\<rparr>) }"

definition d_addArc ::
  "'v compare \<Rightarrow> ((nat \<rightharpoonup> ArcNode) \<Rightarrow> nat option) \<Rightarrow> 'v OLGraph \<Rightarrow> 'v option \<Rightarrow> 'v option \<Rightarrow> (bool \<times> 'v OLGraph) option" where
  "d_addArc cmp alloc g vert1 vert2 =
     (if vert1 = None \<or> vert2 = None then Some (False, g)
      else do {
        index1 \<leftarrow> d_locateVertex cmp g vert1;
        index2 \<leftarrow> d_locateVertex cmp g vert2;
        if index1 < 0 \<or> index2 < 0 then Some (False, g)
        else do {
          x \<leftarrow> rd (xList g) (nat index1);
          found \<leftarrow> has_arc (arcs g) (firstOut x) (nat index2);
          if found then Some (False, g)
          else case alloc (arcs g) of
            None \<Rightarrow> Some (False, g)
          | Some a \<Rightarrow> do { g \<leftarrow> link_arc g a (nat index1) (nat index2); Some (True, g) } } })"

text \<open>The loops of \<open>deleteVertex\<close> that close the gap in \<open>xList\<close> and renumber the arcs.\<close>

fun shift_vertices :: "'v d_VertexNode list \<Rightarrow> nat \<Rightarrow> nat \<Rightarrow> 'v d_VertexNode list option" where
  "shift_vertices xs i 0 = Some xs"
| "shift_vertices xs i (Suc n) =
     do { x \<leftarrow> rd xs (i + 1); xs \<leftarrow> wr xs i x; shift_vertices xs (i + 1) n }"

partial_function (option) renumber_arcs :: "nat \<Rightarrow> (nat \<rightharpoonup> ArcNode) \<Rightarrow> nat option \<Rightarrow> (nat \<rightharpoonup> ArcNode) option" where
  "renumber_arcs index h cur =
     (case cur of
        None \<Rightarrow> Some h
      | Some a \<Rightarrow>
          do { nd \<leftarrow> h a;
               let nd = (if tailVex nd > index then nd\<lparr>tailVex := tailVex nd - 1\<rparr> else nd);
               let nd = (if headVex nd > index then nd\<lparr>headVex := headVex nd - 1\<rparr> else nd);
               renumber_arcs index (h(a \<mapsto> nd)) (tailLink nd) })"

fun renumber_from :: "nat \<Rightarrow> nat \<Rightarrow> nat \<Rightarrow> 'v OLGraph \<Rightarrow> 'v OLGraph option" where
  "renumber_from index i 0 g = Some g"
| "renumber_from index i (Suc n) g =
     do { x \<leftarrow> rd (xList g) i;
          h \<leftarrow> renumber_arcs index (arcs g) (firstOut x);
          renumber_from index (i + 1) n (g\<lparr>arcs := h\<rparr>) }"

definition d_deleteVertex :: "'v compare \<Rightarrow> 'v OLGraph \<Rightarrow> 'v option \<Rightarrow> (bool \<times> 'v OLGraph) option" where
  "d_deleteVertex cmp g vert =
     (if vert = None then Some (False, g)
      else do {
        index \<leftarrow> d_locateVertex cmp g vert;
        if index < 0 then Some (False, g)
        else do {
          g \<leftarrow> deleteOutgoingArcs g (nat index);
          g \<leftarrow> deleteIncomingArcs g (nat index);
          xs \<leftarrow> shift_vertices (xList g) (nat index) (d_vexNum g - 1 - nat index);
          let g = g\<lparr>xList := xs, d_vexNum := d_vexNum g - 1\<rparr>;
          g \<leftarrow> renumber_from (nat index) 0 (d_vexNum g) g;
          Some (True, g) } })"

partial_function (option) arc_loop ::
  "'v OLGraph \<Rightarrow> nat \<Rightarrow> nat \<Rightarrow> nat option \<Rightarrow> nat option \<Rightarrow> (bool \<times> 'v OLGraph) option" where
  "arc_loop g index1 index2 prev cur =
     (case cur of
        None \<Rightarrow> Some (False, g)
      | Some a \<Rightarrow>
          do { nd \<leftarrow> arcs g a;
               if headVex nd \<noteq> index2 then arc_loop g index1 index2 (Some a) (tailLink nd)
               else do { g \<leftarrow> unlink_arc g index1 prev a; Some (True, g) } })"

definition d_deleteArc :: "'v compare \<Rightarrow> 'v OLGraph \<Rightarrow> 'v option \<Rightarrow> 'v option \<Rightarrow> (bool \<times> 'v OLGraph) option" where
  "d_deleteArc cmp g vert1 vert2 =
     (if vert1 = None \<or> vert2 = None then Some (False, g)
      else do {
        index1 \<leftarrow> d_locateVertex cmp g vert1;
        index2 \<leftarrow> d_locateVertex cmp g vert2;
        if index1 < 0 \<or> index2 < 0 then Some (False, g)
        else do { x \<leftarrow> rd (xList g) (nat index1);
                  arc_loop g (nat index1) (nat index2) None (firstOut x) } })"

text \<open>The neighbours that a traversal collects and sorts; the array for them has \<open>maxVertexNum\<close> entries.\<close>

partial_function (option) collect_heads :: "(nat \<rightharpoonup> ArcNode) \<Rightarrow> nat option \<Rightarrow> nat list \<Rightarrow> nat list option" where
  "collect_heads h cur neighbors =
     (case cur of
        None \<Rightarrow> Some neighbors
      | Some a \<Rightarrow>
          do { nd \<leftarrow> h a;
               if length neighbors < maxVertexNum then collect_heads h (tailLink nd) (neighbors @ [headVex nd]) else None })"

definition d_neighbors :: "'v compare \<Rightarrow> 'v OLGraph \<Rightarrow> neighbors" where
  "d_neighbors cmp g index visited =
     do { x \<leftarrow> rd (xList g) index;
          neighbors \<leftarrow> collect_heads (arcs g) (firstOut x) [];
          sortNeighbors cmp (map d_data (xList g)) neighbors }"

text \<open>The data \<open>op\<close> is called on, in order.\<close>

definition d_dfs :: "'v compare \<Rightarrow> 'v OLGraph \<Rightarrow> 'v option \<Rightarrow> 'v option list option" where
  "d_dfs cmp g vert =
     do { start \<leftarrow> d_locateVertex cmp g vert;
          if start < 0 then Some []
          else map_option (map (\<lambda>i. data_at (map d_data (xList g)) i)) (dfs_from (d_neighbors cmp g) (nat start)) }"

definition d_bfs :: "'v compare \<Rightarrow> 'v OLGraph \<Rightarrow> 'v option \<Rightarrow> 'v option list option" where
  "d_bfs cmp g vert =
     do { start \<leftarrow> d_locateVertex cmp g vert;
          if start < 0 then Some []
          else map_option (map (\<lambda>i. data_at (map d_data (xList g)) i)) (bfs_from (d_neighbors cmp g) (nat start)) }"

section \<open>Lists of arcs\<close>

text \<open>
  The list of arcs with tail \<open>i\<close> that starts at \<open>p\<close>: addresses with the heads of the arcs. Only the links
  through \<open>tailLink\<close> are followed by the code; deletion does not maintain those through \<open>headLink\<close>.
\<close>

fun out_chain :: "(nat \<rightharpoonup> ArcNode) \<Rightarrow> nat \<Rightarrow> nat option \<Rightarrow> (nat \<times> nat) list \<Rightarrow> bool" where
  "out_chain h i p [] \<longleftrightarrow> p = None"
| "out_chain h i p (x # as) \<longleftrightarrow>
     p = Some (fst x) \<and>
     (case h (fst x) of
        None \<Rightarrow> False
      | Some nd \<Rightarrow> headVex nd = snd x \<and> tailVex nd = i \<and> out_chain h i (tailLink nd) as)"

lemma out_chain_ConsE:
  assumes "out_chain h i p ((a, v) # as)"
  obtains nd where "h a = Some nd" "p = Some a" "headVex nd = v" "tailVex nd = i" "out_chain h i (tailLink nd) as"
  using assms by (auto split: option.splits)

definition first_of :: "(nat \<times> nat) list \<Rightarrow> nat option" where
  "first_of as = (if as = [] then None else Some (fst (hd as)))"

definition last_of :: "(nat \<times> nat) list \<Rightarrow> nat option" where
  "last_of as = (if as = [] then None else Some (fst (last as)))"

lemma first_of_simps [simp]: "first_of [] = None" "first_of (x # xs) = Some (fst x)"
  by (simp_all add: first_of_def)

lemma last_of_simps [simp]: "last_of [] = None" "last_of (xs @ [x]) = Some (fst x)"
  by (simp_all add: last_of_def)

lemma out_chain_frame:
  "(\<And>a. a \<in> fst ` set as \<Longrightarrow> h' a = h a) \<Longrightarrow> out_chain h' i p as = out_chain h i p as"
proof (induction as arbitrary: p)
  case (Cons x as)
  then show ?case by (auto split: option.splits)
qed simp

lemma out_chain_first: "out_chain h i p as \<Longrightarrow> p = first_of as"
  by (cases as) auto

lemma out_chain_dom: "out_chain h i p as \<Longrightarrow> fst ` set as \<subseteq> dom h"
proof (induction as arbitrary: p)
  case (Cons x as)
  then show ?case by (auto split: option.splits)
qed simp

lemma out_chain_next:
  "out_chain h i p (pre @ post) \<Longrightarrow> pre \<noteq> [] \<Longrightarrow> map_option tailLink (h (fst (last pre))) = Some (first_of post)"
proof (induction pre arbitrary: p)
  case (Cons x pre)
  then show ?case by (cases pre) (auto dest: out_chain_first split: option.splits)
qed simp

lemma out_chain_mid:
  assumes "out_chain h i p (pre @ (a, v) # post)"
  obtains nd where "h a = Some nd" "headVex nd = v" "tailVex nd = i" "tailLink nd = first_of post"
proof -
  have "\<exists>nd. h a = Some nd \<and> headVex nd = v \<and> tailVex nd = i \<and> tailLink nd = first_of post" using assms
  proof (induction pre arbitrary: p)
    case Nil
    then show ?case by (auto dest: out_chain_first split: option.splits)
  next
    case (Cons x pre)
    then show ?case by (auto split: option.splits)
  qed
  then show thesis using that by blast
qed

lemma out_chain_unlink:
  assumes "out_chain h i p (pre @ (a, v) # post)" "distinct (map fst (pre @ (a, v) # post))" "h a = Some nd" "pre \<noteq> []"
    "h (fst (last pre)) = Some pn"
  shows "out_chain (h(fst (last pre) \<mapsto> pn\<lparr>tailLink := tailLink nd\<rparr>, a := None)) i p (pre @ post)"
  using assms
proof (induction pre arbitrary: p)
  case (Cons x pre)
  obtain b w where x: "x = (b, w)" by fastforce
  show ?case
  proof (cases "pre = []")
    case True
    have "out_chain (h(b \<mapsto> pn\<lparr>tailLink := tailLink nd\<rparr>, a := None)) i (tailLink nd) post = out_chain h i (tailLink nd) post"
      by (rule out_chain_frame) (use Cons.prems(2) x True in auto)
    then show ?thesis using Cons.prems x True by (auto simp: fun_upd_def split: option.splits)
  next
    case False
    let ?h = "h(fst (last pre) \<mapsto> pn\<lparr>tailLink := tailLink nd\<rparr>, a := None)"
    obtain n where n: "h b = Some n" "headVex n = w" "tailVex n = i" "p = Some b" "out_chain h i (tailLink n) (pre @ (a, v) # post)"
      using Cons.prems(1) x by (auto split: option.splits)
    have "?h b = h b" using Cons.prems(2) x False by auto
    moreover have "out_chain ?h i (tailLink n) (pre @ post)"
      by (rule Cons.IH [OF n(5)]) (use Cons.prems False in auto)
    ultimately show ?thesis using n False unfolding x by (simp del: fun_upd_apply)
  qed
qed simp

lemma has_arc_chain: "out_chain h i p as \<Longrightarrow> has_arc h p j = Some (j \<in> snd ` set as)"
proof (induction as arbitrary: p)
  case Nil
  then show ?case by (simp add: has_arc.simps)
next
  case (Cons x as)
  then show ?case by (subst has_arc.simps) (auto split: option.splits)
qed

lemma free_out_chain:
  "out_chain h i p as \<Longrightarrow> distinct (map fst as) \<Longrightarrow> free_out h p n = Some (h |` (- fst ` set as), n - int (length as))"
proof (induction as arbitrary: p h n)
  case Nil
  then show ?case by (simp add: free_out.simps)
next
  case (Cons x as)
  obtain a v where x: "x = (a, v)" by fastforce
  then obtain nd where nd: "h a = Some nd" "p = Some a" "out_chain h i (tailLink nd) as"
    using Cons.prems(1) by (auto split: option.splits)
  have d: "distinct (map fst as)" "a \<notin> fst ` set as" using Cons.prems x by auto
  have "out_chain (h(a := None)) i (tailLink nd) as = out_chain h i (tailLink nd) as"
    by (rule out_chain_frame) (use d in auto)
  then have "out_chain (h(a := None)) i (tailLink nd) as" using nd(3) by blast
  then have "free_out (h(a := None)) (tailLink nd) (n - 1) = Some (h(a := None) |` (- fst ` set as), n - 1 - int (length as))"
    by (rule Cons.IH) (rule d)
  moreover have "h(a := None) |` (- fst ` set as) = h |` (- fst ` set (x # as))"
    using x by (auto simp: restrict_map_def fun_eq_iff)
  ultimately show ?case using nd by (subst free_out.simps) simp
qed

lemma collect_heads_chain:
  "out_chain h i p as \<Longrightarrow> length ns + length as \<le> maxVertexNum \<Longrightarrow> collect_heads h p ns = Some (ns @ map snd as)"
proof (induction as arbitrary: p ns)
  case Nil
  then show ?case by (simp add: collect_heads.simps)
next
  case (Cons x as)
  then show ?case by (subst collect_heads.simps) (auto split: option.splits)
qed

definition renumber :: "nat \<Rightarrow> ArcNode \<Rightarrow> ArcNode" where
  "renumber index nd =
     nd\<lparr>tailVex := (if tailVex nd > index then tailVex nd - 1 else tailVex nd),
        headVex := (if headVex nd > index then headVex nd - 1 else headVex nd)\<rparr>"

lemma renumber_arcs_chain:
  "out_chain h i p as \<Longrightarrow> distinct (map fst as) \<Longrightarrow>
     renumber_arcs index h p = Some (\<lambda>b. if b \<in> fst ` set as then map_option (renumber index) (h b) else h b)"
proof (induction as arbitrary: p h)
  case Nil
  then show ?case by (simp add: renumber_arcs.simps)
next
  case (Cons x as)
  obtain a v where x: "x = (a, v)" by fastforce
  then obtain nd where nd: "h a = Some nd" "p = Some a" "out_chain h i (tailLink nd) as"
    using Cons.prems(1) by (auto split: option.splits)
  let ?h = "h(a \<mapsto> renumber index nd)"
  have "out_chain ?h i (tailLink nd) as = out_chain h i (tailLink nd) as"
    by (rule out_chain_frame) (use Cons.prems x in auto)
  then have IH: "renumber_arcs index ?h (tailLink nd) = Some (\<lambda>b. if b \<in> fst ` set as then map_option (renumber index) (?h b) else ?h b)"
    using Cons.IH Cons.prems nd by auto
  have "(\<lambda>b. if b \<in> fst ` set as then map_option (renumber index) (?h b) else ?h b)
      = (\<lambda>b. if b \<in> fst ` set (x # as) then map_option (renumber index) (h b) else h b)"
    using Cons.prems x nd by (auto simp: fun_eq_iff)
  moreover have "renumber_arcs index h p = renumber_arcs index ?h (tailLink nd)"
    using nd by (subst renumber_arcs.simps) (auto simp: Let_def renumber_def)
  ultimately show ?case using IH by simp
qed

section \<open>Representation\<close>

text \<open>
  The vertices have the data \<open>ds\<close>, and \<open>L i\<close> is the list of arcs out of vertex \<open>i\<close>: the lists are disjoint,
  hold every arc in the store, and no list has two arcs with the same head.
\<close>

definition d_rep :: "'v OLGraph \<Rightarrow> (nat \<Rightarrow> (nat \<times> nat) list) \<Rightarrow> 'v list \<Rightarrow> bool" where
  "d_rep g L ds \<longleftrightarrow>
     length (xList g) = maxVertexNum \<and> d_vexNum g \<le> maxVertexNum \<and> length ds = d_vexNum g \<and> distinct ds
     \<and> (\<forall>i<d_vexNum g. d_data (xList g ! i) = Some (ds ! i))
     \<and> (\<forall>i<d_vexNum g. out_chain (arcs g) i (firstOut (xList g ! i)) (L i))
     \<and> (\<forall>i<d_vexNum g. distinct (map fst (L i)) \<and> distinct (map snd (L i)) \<and> snd ` set (L i) \<subseteq> {..<d_vexNum g})
     \<and> (\<forall>i<d_vexNum g. \<forall>j<d_vexNum g. i \<noteq> j \<longrightarrow> fst ` set (L i) \<inter> fst ` set (L j) = {})
     \<and> dom (arcs g) = (\<Union>i<d_vexNum g. fst ` set (L i))
     \<and> arcNum g = (\<Sum>i<d_vexNum g. int (length (L i)))"

lemma d_repD:
  assumes "d_rep g L ds"
  shows "length (xList g) = maxVertexNum" "d_vexNum g \<le> maxVertexNum" "length ds = d_vexNum g" "distinct ds"
    "i < d_vexNum g \<Longrightarrow> d_data (xList g ! i) = Some (ds ! i)"
    "i < d_vexNum g \<Longrightarrow> out_chain (arcs g) i (firstOut (xList g ! i)) (L i)"
    "i < d_vexNum g \<Longrightarrow> distinct (map fst (L i))" "i < d_vexNum g \<Longrightarrow> distinct (map snd (L i))"
    "i < d_vexNum g \<Longrightarrow> snd ` set (L i) \<subseteq> {..<d_vexNum g}"
    "i < d_vexNum g \<Longrightarrow> j < d_vexNum g \<Longrightarrow> i \<noteq> j \<Longrightarrow> fst ` set (L i) \<inter> fst ` set (L j) = {}"
    "dom (arcs g) = (\<Union>i<d_vexNum g. fst ` set (L i))" "arcNum g = (\<Sum>i<d_vexNum g. int (length (L i)))"
  using assms by (auto simp: d_rep_def)

text \<open>A change of the list of one vertex that only drops arcs from it.\<close>

lemma d_rep_shrink:
  assumes rep: "d_rep g L ds" and i: "i < d_vexNum g" and sub: "as = filter P (L i)"
    and g': "d_vexNum g' = d_vexNum g" "length (xList g') = length (xList g)"
      "\<And>j. j < d_vexNum g \<Longrightarrow> d_data (xList g' ! j) = d_data (xList g ! j)"
      "\<And>j. j < d_vexNum g \<Longrightarrow> j \<noteq> i \<Longrightarrow> firstOut (xList g' ! j) = firstOut (xList g ! j)"
    and chain: "out_chain (arcs g') i (firstOut (xList g' ! i)) as"
    and frame: "\<And>a. a \<notin> fst ` set (L i) \<Longrightarrow> arcs g' a = arcs g a"
    and doms: "dom (arcs g') = dom (arcs g) - (fst ` set (L i) - fst ` set as)"
    and num: "arcNum g' = arcNum g - int (length (L i)) + int (length as)"
  shows "d_rep g' (L(i := as)) ds"
proof -
  note r = d_repD [OF rep]
  have as: "set as \<subseteq> set (L i)" "distinct (map fst as)" "distinct (map snd as)"
    using sub r(7,8) [OF i] by (auto simp: distinct_map inj_on_def)
  have "out_chain (arcs g') j (firstOut (xList g' ! j)) ((L(i := as)) j)" if "j < d_vexNum g" for j
  proof (cases "j = i")
    case False
    then have "out_chain (arcs g') j (firstOut (xList g ! j)) (L j) = out_chain (arcs g) j (firstOut (xList g ! j)) (L j)"
      using that i r(10) by (intro out_chain_frame frame) blast
    then show ?thesis using r(6) [OF that] False g'(4) [OF that] by simp
  qed (use chain in simp)
  moreover have "dom (arcs g') = (\<Union>j<d_vexNum g. fst ` set ((L(i := as)) j))"
  proof -
    define A B U where "A = fst ` set (L i)" "B = fst ` set as" "U = (\<Union>j\<in>{..<d_vexNum g} - {i}. fst ` set (L j))"
    note ABU = this
    have "fst ` set (L j) \<inter> A = {}" if "j < d_vexNum g" "j \<noteq> i" for j using r(10) [OF that(1) i that(2)] unfolding ABU .
    then have "U \<inter> A = {}" unfolding ABU(3) by blast
    moreover have "B \<subseteq> A" using as(1) unfolding ABU by (rule image_mono)
    moreover have "dom (arcs g) = A \<union> U" using UN_upd [OF i, of "\<lambda>as. fst ` set as" L "L i"] unfolding r(11) fun_upd_triv ABU .
    moreover have "dom (arcs g') = dom (arcs g) - (A - B)" using doms unfolding ABU .
    ultimately have "dom (arcs g') = B \<union> U" by blast
    then show ?thesis using UN_upd [OF i, of "\<lambda>as. fst ` set as" L as] unfolding ABU by (rule trans [OF _ sym])
  qed
  moreover have "arcNum g' = (\<Sum>j<d_vexNum g. int (length ((L(i := as)) j)))"
  proof -
    note sum_upd [OF i, of "\<lambda>as. int (length as)" L as] sum_upd [OF i, of "\<lambda>as. int (length as)" L "L i"]
    then show ?thesis using num r(12) unfolding fun_upd_triv by linarith
  qed
  moreover have "fst ` set ((L(i := as)) j) \<inter> fst ` set ((L(i := as)) k) = {}" if "j < d_vexNum g" "k < d_vexNum g" "j \<noteq> k" for j k
  proof -
    have "fst ` set ((L(i := as)) j) \<subseteq> fst ` set (L j)" for j using image_mono [OF as(1), of fst] by simp
    then show ?thesis using r(10) [OF that] by blast
  qed
  moreover have "distinct (map fst ((L(i := as)) j)) \<and> distinct (map snd ((L(i := as)) j)) \<and> snd ` set ((L(i := as)) j) \<subseteq> {..<d_vexNum g}"
    if "j < d_vexNum g" for j
    using r(7-9) [OF that] as image_mono [OF as(1), of snd] by (cases "j = i") auto
  ultimately show ?thesis using r(1-4) r(5) g'(1-3) unfolding d_rep_def by simp
qed

lemma unlink_arc_rep:
  assumes rep: "d_rep g L ds" and i: "i < d_vexNum g" and L: "L i = pre @ (a, v) # post"
  obtains g' where "unlink_arc g i (last_of pre) a = Some g'" "d_rep g' (L(i := pre @ post)) ds" "d_vexNum g' = d_vexNum g"
proof -
  note r = d_repD [OF rep]
  have chain: "out_chain (arcs g) i (firstOut (xList g ! i)) (pre @ (a, v) # post)" using r(6) [OF i] L by simp
  have dist: "distinct (map fst (pre @ (a, v) # post))" "distinct (map snd (pre @ (a, v) # post))" using r(7,8) [OF i] L by auto
  have il: "i < length (xList g)" using r(1,2) i by simp
  obtain nd where nd: "arcs g a = Some nd" using out_chain_dom [OF chain] by auto
  have filt: "pre @ post = filter (\<lambda>x. fst x \<noteq> a) (L i)"
    using dist(1) L by (auto simp: image_iff intro!: arg_cong2 [of _ _ _ _ append] filter_True [symmetric])
  have doms: "dom (arcs g) - {a} = dom (arcs g) - (fst ` set (L i) - fst ` set (pre @ post))"
    using dist(1) L by auto
  show thesis
  proof (cases "pre = []")
    case True
    let ?g = "g\<lparr>xList := (xList g)[i := (xList g ! i)\<lparr>firstOut := tailLink nd\<rparr>], arcs := (arcs g)(a := None), arcNum := arcNum g - 1\<rparr>"
    have "out_chain ((arcs g)(a := None)) i (tailLink nd) post = out_chain (arcs g) i (tailLink nd) post"
      by (rule out_chain_frame) (use dist in auto)
    then have ch: "out_chain (arcs ?g) i (firstOut (xList ?g ! i)) (pre @ post)" using chain True nd il by simp
    have "d_rep ?g (L(i := pre @ post)) ds"
      by (rule d_rep_shrink [OF rep i filt]) (use ch il True doms L in \<open>auto simp: nth_list_update\<close>)
    moreover have "unlink_arc g i (last_of pre) a = Some ?g" using True nd il by (simp add: unlink_arc_def)
    ultimately show thesis using that by simp
  next
    case False
    let ?p = "fst (last pre)"
    have p: "?p \<in> fst ` set pre" using False by simp
    then obtain pn where pn: "arcs g ?p = Some pn" using out_chain_dom [OF chain] by auto
    let ?g = "g\<lparr>arcs := (arcs g)(?p \<mapsto> pn\<lparr>tailLink := tailLink nd\<rparr>, a := None), arcNum := arcNum g - 1\<rparr>"
    have ch: "out_chain (arcs ?g) i (firstOut (xList ?g ! i)) (pre @ post)"
      using out_chain_unlink [OF chain dist(1) nd False pn] by simp
    have pL: "?p \<in> fst ` set (L i)" "?p \<noteq> a" using p L dist(1) by auto
    then have pd: "?p \<in> dom (arcs g)" using pn by blast
    have "d_rep ?g (L(i := pre @ post)) ds"
    proof (rule d_rep_shrink [OF rep i filt])
      show "dom (arcs ?g) = dom (arcs g) - (fst ` set (L i) - fst ` set (pre @ post))"
        unfolding doms [symmetric] using pd by (simp add: insert_absorb)
      show "\<And>b. b \<notin> fst ` set (L i) \<Longrightarrow> arcs ?g b = arcs g b" using pL(1) L by auto
    qed (use ch L in simp_all)
    moreover have "unlink_arc g i (last_of pre) a = Some ?g" using False nd pn by (simp add: unlink_arc_def last_of_def)
    ultimately show thesis using that by simp
  qed
qed

lemma deleteOutgoingArcs_rep:
  assumes rep: "d_rep g L ds" and i: "i < d_vexNum g"
  obtains g' where "deleteOutgoingArcs g i = Some g'" "d_rep g' (L(i := [])) ds" "d_vexNum g' = d_vexNum g"
proof -
  note r = d_repD [OF rep]
  have il: "i < length (xList g)" using r(1,2) i by simp
  let ?g = "g\<lparr>arcs := arcs g |` (- fst ` set (L i)), arcNum := arcNum g - int (length (L i)),
      xList := (xList g)[i := (xList g ! i)\<lparr>firstOut := None\<rparr>]\<rparr>"
  have "deleteOutgoingArcs g i = Some ?g"
    using free_out_chain [OF r(6) [OF i] r(7) [OF i], of "arcNum g"] il by (simp add: deleteOutgoingArcs_def)
  moreover have "d_rep ?g (L(i := [])) ds"
    by (rule d_rep_shrink [OF rep i, where P = "\<lambda>_. False"]) (use il in \<open>simp_all add: nth_list_update Diff_eq\<close>)
  ultimately show thesis using that by simp
qed

text \<open>The pointer read behind an arc that was unlinked.\<close>

lemma next_arc:
  assumes "d_rep g L ds" "i < d_vexNum g" "L i = pre @ post"
  shows "(case last_of pre of Some p \<Rightarrow> map_option tailLink (arcs g p) | None \<Rightarrow> map_option firstOut (rd (xList g) i)) = Some (first_of post)"
proof -
  have chain: "out_chain (arcs g) i (firstOut (xList g ! i)) (pre @ post)" using d_repD(6) [OF assms(1,2)] assms(3) by simp
  show ?thesis
  proof (cases "pre = []")
    case True
    then show ?thesis using out_chain_first [OF chain] d_repD(1,2) [OF assms(1)] assms(2) by simp
  next
    case False
    then show ?thesis using out_chain_next [OF chain] by (simp add: last_of_def)
  qed
qed

lemma incoming_loop_rep:
  assumes "d_rep g L ds" "i < d_vexNum g" "L i = pre @ post"
  shows "\<exists>g'. incoming_loop index i g (last_of pre) (first_of post) = Some g'
    \<and> d_rep g' (L(i := pre @ filter (\<lambda>x. snd x \<noteq> index) post)) ds \<and> d_vexNum g' = d_vexNum g"
  using assms
proof (induction post arbitrary: g L pre)
  case Nil
  then have "L(i := pre) = L" by auto
  then show ?case using Nil by (subst incoming_loop.simps) simp
next
  case (Cons x post)
  obtain a v where x: "x = (a, v)" by fastforce
  have chain: "out_chain (arcs g) i (firstOut (xList g ! i)) (pre @ x # post)" using d_repD(6) [OF Cons.prems(1,2)] Cons.prems(3) by simp
  then obtain nd where nd: "arcs g a = Some nd" and hv: "headVex nd = v" "tailLink nd = first_of post"
    using out_chain_mid x by metis
  show ?case
  proof (cases "v = index")
    case False
    have "\<exists>g'. incoming_loop index i g (last_of (pre @ [x])) (first_of post) = Some g'
      \<and> d_rep g' (L(i := (pre @ [x]) @ filter (\<lambda>x. snd x \<noteq> index) post)) ds \<and> d_vexNum g' = d_vexNum g"
      by (rule Cons.IH [OF Cons.prems(1,2)]) (simp add: Cons.prems(3))
    then show ?thesis using False nd hv x by (subst incoming_loop.simps) simp
  next
    case True
    obtain g1 where g1: "unlink_arc g i (last_of pre) a = Some g1" "d_rep g1 (L(i := pre @ post)) ds" "d_vexNum g1 = d_vexNum g"
      using unlink_arc_rep [OF Cons.prems(1,2)] Cons.prems(3) x by metis
    have "\<exists>g'. incoming_loop index i g1 (last_of pre) (first_of post) = Some g'
      \<and> d_rep g' ((L(i := pre @ post))(i := pre @ filter (\<lambda>x. snd x \<noteq> index) post)) ds \<and> d_vexNum g' = d_vexNum g1"
      by (rule Cons.IH [OF g1(2)]) (use g1(3) Cons.prems(2) in simp_all)
    moreover have "(case last_of pre of Some p \<Rightarrow> map_option tailLink (arcs g1 p) | None \<Rightarrow> map_option firstOut (rd (xList g1) i)) = Some (first_of post)"
      by (rule next_arc [OF g1(2)]) (use g1(3) Cons.prems(2) in simp_all)
    ultimately show ?thesis using True nd hv x g1(1,3) by (subst incoming_loop.simps) simp
  qed
qed

lemma deleteIncoming_from_rep:
  assumes "d_rep g L ds" "i + n \<le> d_vexNum g"
  shows "\<exists>g'. deleteIncoming_from index i n g = Some g' \<and> d_vexNum g' = d_vexNum g
    \<and> d_rep g' (\<lambda>j. if i \<le> j \<and> j < i + n then filter (\<lambda>x. snd x \<noteq> index) (L j) else L j) ds"
  using assms
proof (induction n arbitrary: g L i)
  case (Suc n)
  have i: "i < d_vexNum g" using Suc.prems by simp
  then have il: "i < length (xList g)" using d_repD(1,2) [OF Suc.prems(1)] by simp
  let ?L = "L(i := filter (\<lambda>x. snd x \<noteq> index) (L i))"
  obtain g1 where g1: "incoming_loop index i g None (first_of (L i)) = Some g1" "d_rep g1 ?L ds" "d_vexNum g1 = d_vexNum g"
    using incoming_loop_rep [OF Suc.prems(1) i, of "[]" "L i" index] by auto
  have eq: "(\<lambda>j. if i + 1 \<le> j \<and> j < i + 1 + n then filter (\<lambda>x. snd x \<noteq> index) (?L j) else ?L j)
      = (\<lambda>j. if i \<le> j \<and> j < i + Suc n then filter (\<lambda>x. snd x \<noteq> index) (L j) else L j)"
    by (auto simp: fun_eq_iff)
  from Suc.IH [OF g1(2), of "i + 1"] g1(3) Suc.prems(2) obtain g2 where
    "deleteIncoming_from index (i + 1) n g1 = Some g2" "d_vexNum g2 = d_vexNum g"
    "d_rep g2 (\<lambda>j. if i \<le> j \<and> j < i + Suc n then filter (\<lambda>x. snd x \<noteq> index) (L j) else L j) ds"
    unfolding eq by auto
  then show ?case using g1 il out_chain_first [OF d_repD(6) [OF Suc.prems(1) i]] by auto
next
  case 0
  have "(\<lambda>j. if i \<le> j \<and> j < i + 0 then filter (\<lambda>x. snd x \<noteq> index) (L j) else L j) = L" by (auto simp: fun_eq_iff)
  then show ?case using 0 by simp
qed

lemma arc_loop_rep:
  assumes "d_rep g L ds" "i < d_vexNum g" "L i = pre @ post"
  shows "\<exists>g'. arc_loop g i index (last_of pre) (first_of post) = Some (index \<in> snd ` set post, g') \<and> d_vexNum g' = d_vexNum g
    \<and> d_rep g' (L(i := pre @ filter (\<lambda>x. snd x \<noteq> index) post)) ds"
  using assms
proof (induction post arbitrary: pre)
  case Nil
  then have "L(i := pre) = L" by auto
  then show ?case using Nil by (subst arc_loop.simps) simp
next
  case (Cons x post)
  obtain a v where x: "x = (a, v)" by fastforce
  have chain: "out_chain (arcs g) i (firstOut (xList g ! i)) (pre @ x # post)" using d_repD(6) [OF Cons.prems(1,2)] Cons.prems(3) by simp
  then obtain nd where nd: "arcs g a = Some nd" and hv: "headVex nd = v" "tailLink nd = first_of post"
    using out_chain_mid x by metis
  show ?case
  proof (cases "v = index")
    case False
    have "\<exists>g'. arc_loop g i index (last_of (pre @ [x])) (first_of post) = Some (index \<in> snd ` set post, g') \<and> d_vexNum g' = d_vexNum g
      \<and> d_rep g' (L(i := (pre @ [x]) @ filter (\<lambda>x. snd x \<noteq> index) post)) ds"
      by (rule Cons.IH [OF Cons.prems(1,2)]) (simp add: Cons.prems(3))
    then show ?thesis using False nd hv x by (subst arc_loop.simps) auto
  next
    case True
    obtain g1 where g1: "unlink_arc g i (last_of pre) a = Some g1" "d_rep g1 (L(i := pre @ post)) ds" "d_vexNum g1 = d_vexNum g"
      using unlink_arc_rep [OF Cons.prems(1,2)] Cons.prems(3) x by metis
    have "filter (\<lambda>x. snd x \<noteq> index) post = post"
      using d_repD(8) [OF Cons.prems(1,2)] Cons.prems(3) x True by (auto simp: filter_id_conv image_iff)
    then show ?thesis using True nd hv x g1 by (subst arc_loop.simps) simp
  qed
qed

section \<open>Closing the gap\<close>

lemma shift_vertices_nth:
  assumes "i + n < length xs"
  shows "\<exists>ys. shift_vertices xs i n = Some ys \<and> length ys = length xs
    \<and> (\<forall>j<length xs. ys ! j = (if i \<le> j \<and> j < i + n then xs ! (j + 1) else xs ! j))"
  using assms
proof (induction n arbitrary: xs i)
  case (Suc n)
  let ?xs = "xs[i := xs ! (i + 1)]"
  obtain ys where ys: "shift_vertices ?xs (i + 1) n = Some ys" "length ys = length xs"
      "\<forall>j<length xs. ys ! j = (if i + 1 \<le> j \<and> j < i + 1 + n then ?xs ! (j + 1) else ?xs ! j)"
    using Suc.IH [of "i + 1" ?xs] Suc.prems by auto
  have "ys ! j = (if i \<le> j \<and> j < i + Suc n then xs ! (j + 1) else xs ! j)" if "j < length xs" for j
    using ys(3) that Suc.prems by (cases "j = i") (auto simp: nth_list_update)
  then show ?case using ys(1,2) Suc.prems by auto
qed (simp, linarith)

definition down :: "nat \<Rightarrow> nat \<Rightarrow> nat" where
  "down index v = (if v > index then v - 1 else v)"

definition up :: "nat \<Rightarrow> nat \<Rightarrow> nat" where
  "up index j = (if j < index then j else j + 1)"

lemma up_down: "up index j \<noteq> index" "down index (up index j) = j" "v \<noteq> index \<Longrightarrow> up index (down index v) = v"
  by (auto simp: up_def down_def)

lemma up_less: "index < n \<Longrightarrow> j < n - 1 \<Longrightarrow> up index j < n"
  by (auto simp: up_def)

lemma up_eq: "up index j = up index k \<longleftrightarrow> j = k"
  by (auto simp: up_def)

lemma down_less: "index < n \<Longrightarrow> v < n \<Longrightarrow> v \<noteq> index \<Longrightarrow> down index v < n - 1"
  by (auto simp: down_def)

lemma inj_on_down: "index \<notin> A \<Longrightarrow> inj_on (down index) A"
  by (rule inj_on_inverseI [where g = "up index"]) (metis up_down(3))

lemma up_bij: "index < n \<Longrightarrow> bij_betw (up index) {..<n - 1} ({..<n} - {index})"
  by (rule bij_betw_byWitness [where f' = "down index"]) (use down_less up_less in \<open>auto simp: up_down\<close>)

lemma if_union:
  "U \<inter> A = {} \<Longrightarrow> (\<lambda>b. if b \<in> U then f (if b \<in> A then f (h b) else h b) else if b \<in> A then f (h b) else h b)
     = (\<lambda>b. if b \<in> A \<union> U then f (h b) else h b)"
  by (auto simp: fun_eq_iff)

lemma renumber_fields: "headVex (renumber index nd) = down index (headVex nd)" "tailVex (renumber index nd) = down index (tailVex nd)"
  "tailLink (renumber index nd) = tailLink nd"
  by (auto simp: renumber_def down_def)

lemma out_chain_renumber:
  assumes "out_chain h i p as" "fst ` set as \<subseteq> D"
  shows "out_chain (\<lambda>b. if b \<in> D then map_option (renumber index) (h b) else h b) (down index i) p (map (apsnd (down index)) as)"
  using assms
proof (induction as arbitrary: p)
  case (Cons x as)
  then show ?case by (auto simp: renumber_fields split: option.splits)
qed simp

lemma renumber_from_chains:
  assumes "i + n \<le> length (xList g)" "\<And>j. i \<le> j \<Longrightarrow> j < i + n \<Longrightarrow> out_chain (arcs g) (t j) (firstOut (xList g ! j)) (K j) \<and> distinct (map fst (K j))"
    "\<And>j k. i \<le> j \<Longrightarrow> j < i + n \<Longrightarrow> i \<le> k \<Longrightarrow> k < i + n \<Longrightarrow> j \<noteq> k \<Longrightarrow> fst ` set (K j) \<inter> fst ` set (K k) = {}"
  shows "renumber_from index i n g = Some (g\<lparr>arcs := \<lambda>b. if b \<in> (\<Union>j\<in>{i..<i + n}. fst ` set (K j)) then map_option (renumber index) (arcs g b) else arcs g b\<rparr>)"
  using assms
proof (induction n arbitrary: g i)
  case (Suc n)
  let ?h = "\<lambda>b. if b \<in> fst ` set (K i) then map_option (renumber index) (arcs g b) else arcs g b"
  have ch: "out_chain (arcs g) (t i) (firstOut (xList g ! i)) (K i)" "distinct (map fst (K i))" using Suc.prems(2) [of i] by auto
  have "renumber_from index (i + 1) n (g\<lparr>arcs := ?h\<rparr>) = Some (g\<lparr>arcs := ?h\<rparr>\<lparr>arcs := \<lambda>b.
      if b \<in> (\<Union>j\<in>{i + 1..<i + 1 + n}. fst ` set (K j)) then map_option (renumber index) (arcs (g\<lparr>arcs := ?h\<rparr>) b) else arcs (g\<lparr>arcs := ?h\<rparr>) b\<rparr>)"
  proof (rule Suc.IH)
    fix j assume j: "i + 1 \<le> j" "j < i + 1 + n"
    then have "fst ` set (K j) \<inter> fst ` set (K i) = {}" by (intro Suc.prems(3)) auto
    then have "out_chain ?h (t j) (firstOut (xList g ! j)) (K j) = out_chain (arcs g) (t j) (firstOut (xList g ! j)) (K j)"
      by (intro out_chain_frame) auto
    then show "out_chain (arcs (g\<lparr>arcs := ?h\<rparr>)) (t j) (firstOut (xList (g\<lparr>arcs := ?h\<rparr>) ! j)) (K j) \<and> distinct (map fst (K j))"
      using Suc.prems(2) [of j] j by simp
  qed (use Suc.prems(1,3) in auto)
  moreover have "(\<lambda>b. if b \<in> (\<Union>j\<in>{i + 1..<i + 1 + n}. fst ` set (K j)) then map_option (renumber index) (?h b) else ?h b)
      = (\<lambda>b. if b \<in> (\<Union>j\<in>{i..<i + Suc n}. fst ` set (K j)) then map_option (renumber index) (arcs g b) else arcs g b)"
  proof -
    have "fst ` set (K j) \<inter> fst ` set (K i) = {}" if "j \<in> {i + 1..<i + 1 + n}" for j
      using that by (intro Suc.prems(3)) auto
    then have "(\<Union>j\<in>{i + 1..<i + 1 + n}. fst ` set (K j)) \<inter> fst ` set (K i) = {}" by blast
    moreover have "{i..<i + Suc n} = insert i {i + 1..<i + 1 + n}" by auto
    ultimately show ?thesis by (simp only: if_union UN_insert)
  qed
  ultimately show ?case using Suc.prems(1) renumber_arcs_chain [OF ch, of index] by (simp cong: if_cong)
qed simp

definition drop_nth :: "nat \<Rightarrow> 'a list \<Rightarrow> 'a list" where
  "drop_nth index xs = take index xs @ drop (index + 1) xs"

lemma drop_nth_simps:
  assumes "index < length xs"
  shows "length (drop_nth index xs) = length xs - 1" "j < length xs - 1 \<Longrightarrow> drop_nth index xs ! j = xs ! up index j"
    "distinct xs \<Longrightarrow> distinct (drop_nth index xs)"
proof -
  show "length (drop_nth index xs) = length xs - 1" "j < length xs - 1 \<Longrightarrow> drop_nth index xs ! j = xs ! up index j"
    using assms by (auto simp: drop_nth_def up_def nth_append min_def)
  assume "distinct xs"
  then have "distinct (take index xs @ xs ! index # drop (index + 1) xs)" using id_take_nth_drop [OF assms] by simp
  then show "distinct (drop_nth index xs)" by (auto simp: drop_nth_def)
qed

lemma upt_without: "index < n \<Longrightarrow> filter (\<lambda>i. i \<noteq> index) [0..<n] = map (up index) [0..<n - 1]"
proof -
  assume i: "index < n"
  have "[0..<n] = [0..<index] @ index # [index + 1..<n]" using i upt_add_eq_append [of 0 index "n - index"] upt_conv_Cons by auto
  moreover have "map (up index) [0..<n - 1] = [0..<index] @ [index + 1..<n]"
  proof -
    have "[0..<n - 1] = [0..<index] @ [index..<n - 1]" using i upt_add_eq_append [of 0 index "n - 1 - index"] by auto
    moreover have "map (up index) [0..<index] = [0..<index]" by (auto simp: up_def intro: map_idI)
    moreover have "map (up index) [index..<n - 1] = map Suc [index..<n - 1]" by (rule map_cong) (auto simp: up_def)
    ultimately show ?thesis using i by (simp add: map_Suc_upt)
  qed
  ultimately show ?thesis by (auto simp: filter_id_conv)
qed

lemma close_gap_rep:
  assumes rep: "d_rep g L ds" and index: "index < d_vexNum g" "L index = []" "\<And>i. i < d_vexNum g \<Longrightarrow> index \<notin> snd ` set (L i)"
    and xs: "length xs = length (xList g)"
      "\<And>j. j < length (xList g) \<Longrightarrow> xs ! j = (if index \<le> j \<and> j < d_vexNum g - 1 then xList g ! (j + 1) else xList g ! j)"
  shows "\<exists>g'. renumber_from index 0 (d_vexNum g - 1) (g\<lparr>xList := xs, d_vexNum := d_vexNum g - 1\<rparr>) = Some g'
     \<and> d_rep g' (\<lambda>j. map (apsnd (down index)) (L (up index j))) (drop_nth index ds)"
proof -
  note r = d_repD [OF rep]
  let ?n = "d_vexNum g - 1" and ?u = "up index"
  let ?D = "\<Union>j\<in>{0..<0 + ?n}. fst ` set (L (?u j))"
  let ?h = "\<lambda>b. if b \<in> ?D then map_option (renumber index) (arcs g b) else arcs g b"
  let ?g = "g\<lparr>xList := xs, d_vexNum := ?n\<rparr>\<lparr>arcs := ?h\<rparr>"
  have u: "?u j < d_vexNum g" if "j < ?n" for j using up_less [OF index(1) that] .
  have xj: "xs ! j = xList g ! ?u j" if "j < ?n" for j using xs(2) [of j] that r(1,2) by (auto simp: up_def)
  have disj: "fst ` set (L (?u j)) \<inter> fst ` set (L (?u k)) = {}" if "j < ?n" "k < ?n" "j \<noteq> k" for j k
    using r(10) [OF u u] that by (simp add: up_eq)
  have ch: "out_chain (arcs g) (?u j) (firstOut (xs ! j)) (L (?u j))" if "j < ?n" for j using r(6) [OF u] that xj by simp
  have "renumber_from index 0 ?n (g\<lparr>xList := xs, d_vexNum := ?n\<rparr>) = Some ?g"
    using renumber_from_chains [of 0 ?n "g\<lparr>xList := xs, d_vexNum := ?n\<rparr>" ?u "\<lambda>j. L (?u j)" index]
      ch disj r(1,2) r(7) [OF u] xs(1) by (simp cong: if_cong)
  moreover have "d_rep ?g (\<lambda>j. map (apsnd (down index)) (L (?u j))) (drop_nth index ds)"
  proof -
    have dn: "index < length ds" using index(1) r(3) by simp
    have chain': "out_chain ?h j (firstOut (xs ! j)) (map (apsnd (down index)) (L (?u j)))" if "j < ?n" for j
    proof -
      have "fst ` set (L (?u j)) \<subseteq> ?D" by (rule UN_upper) (use that in simp)
      from out_chain_renumber [OF ch [OF that] this, of index] show ?thesis unfolding up_down(2) .
    qed
    have heads: "distinct (map snd (map (apsnd (down index)) (L (?u j))))" "snd ` set (map (apsnd (down index)) (L (?u j))) \<subseteq> {..<?n}"
      if "j < ?n" for j
    proof -
      have sub: "snd ` set (L (?u j)) \<subseteq> {..<d_vexNum g} - {index}" using r(9) [OF u [OF that]] index(3) [OF u [OF that]] by blast
      then have "inj_on (down index) (set (map snd (L (?u j))))" by (intro inj_on_down) auto
      moreover have sn: "map snd (map (apsnd (down index)) as) = map (down index) (map snd as)" for as :: "(nat \<times> nat) list" by simp
      ultimately show "distinct (map snd (map (apsnd (down index)) (L (?u j))))"
        using r(8) [OF u [OF that]] unfolding sn by (simp only: distinct_map)
      have "snd ` set (map (apsnd (down index)) (L (?u j))) = down index ` (snd ` set (L (?u j)))" by (simp add: image_image)
      also have "\<dots> \<subseteq> {..<?n}" using sub down_less [OF index(1)] by (auto simp only: subset_iff image_iff lessThan_iff Diff_iff singleton_iff)
      finally show "snd ` set (map (apsnd (down index)) (L (?u j))) \<subseteq> {..<?n}" .
    qed
    have fsts: "fst ` set (map (apsnd (down index)) as) = fst ` set as" "map fst (map (apsnd (down index)) as) = map fst as" for as :: "(nat \<times> nat) list"
      by (auto simp: image_image)
    have img: "?u ` {..<?n} = {..<d_vexNum g} - {index}" using up_bij [OF index(1)] by (simp add: bij_betw_def)
    have D: "dom ?h = (\<Union>j<?n. fst ` set (L (?u j)))"
    proof -
      have "dom ?h = dom (arcs g)" by (auto simp: dom_def)
      also have "\<dots> = (\<Union>i\<in>{..<d_vexNum g} - {index}. fst ` set (L i))" unfolding r(11) using index(1,2) by auto
      also have "\<dots> = (\<Union>j<?n. fst ` set (L (?u j)))" unfolding img [symmetric] by simp
      finally show ?thesis .
    qed
    have num: "arcNum g = (\<Sum>j<?n. int (length (L (?u j))))"
    proof -
      have "arcNum g = (\<Sum>i\<in>{..<d_vexNum g} - {index}. int (length (L i)))"
        using r(12) index(1,2) by (subst sum.mono_neutral_left [of "{..<d_vexNum g}"]) auto
      also have "\<dots> = (\<Sum>j<?n. int (length (L (?u j))))"
        by (rule sum.reindex_bij_betw [OF up_bij [OF index(1)], symmetric])
      finally show ?thesis .
    qed
    have data: "d_data (xs ! j) = Some (drop_nth index ds ! j)" if "j < ?n" for j
      using that drop_nth_simps(2) [OF dn] r(3) r(5) [OF u [OF that]] xj by simp
    show ?thesis
      using r(1-4) index(1) drop_nth_simps(1,3) [OF dn] data chain' heads disj D num r(7) [OF u] xs(1)
      unfolding d_rep_def fsts by (simp add: fsts)
  qed
  ultimately show ?thesis by blast
qed

section \<open>The abstract graph\<close>

text \<open>
  The graph that is stored: its vertices in the order of their indices, each with the data of its
  successors, the latest arc first.
\<close>

definition d_abs :: "(nat \<Rightarrow> (nat \<times> nat) list) \<Rightarrow> 'v list \<Rightarrow> ('v \<times> 'v list) list" where
  "d_abs L ds = map (\<lambda>i. (ds ! i, map (\<lambda>x. ds ! snd x) (L i))) [0..<length ds]"

definition d_represents :: "'v OLGraph \<Rightarrow> ('v \<times> 'v list) list \<Rightarrow> bool" where
  "d_represents g A \<longleftrightarrow> (\<exists>L ds. d_rep g L ds \<and> A = d_abs L ds)"

lemma d_abs_fst: "map fst (d_abs L ds) = ds"
  by (simp add: d_abs_def comp_def map_nth)

lemma d_abs_simps: "length (d_abs L ds) = length ds" "i < length ds \<Longrightarrow> d_abs L ds ! i = (ds ! i, map (\<lambda>x. ds ! snd x) (L i))"
  by (simp_all add: d_abs_def)

lemma d_locateVertex_rep:
  assumes "compare_linear cmp" "d_rep g L ds"
  shows "(\<exists>k<d_vexNum g. ds ! k = v \<and> d_locateVertex cmp g (Some v) = Some (int k)) \<or> v \<notin> set ds \<and> d_locateVertex cmp g (Some v) = Some (- 1)"
proof -
  note r = d_repD [OF assms(2)]
  have d: "data_at (map d_data (xList g)) k = Some (ds ! k)" if "0 \<le> k" "k < 0 + d_vexNum g" for k
    using that r(1,2,5) by simp
  note eq = compare_linear.cmp_eq [OF assms(1)]
  show ?thesis using locate_cases [of 0 "d_vexNum g" "map d_data (xList g)" "\<lambda>k. ds ! k" cmp v, OF d] r(3)
    by (auto simp: d_locateVertex_def eq in_set_conv_nth)
qed

lemma d_locateVertex_cases:
  assumes "compare_linear cmp" "d_rep g L ds"
  obtains k where "k < d_vexNum g" "ds ! k = v" "d_locateVertex cmp g (Some v) = Some (int k)" "v \<in> set ds"
  | "v \<notin> set ds" "d_locateVertex cmp g (Some v) = Some (- 1)"
  using d_locateVertex_rep [OF assms, of v] d_repD(3) [OF assms(2)] by (metis nth_mem)

lemma d_create_rep: "d_rep d_create (\<lambda>_. []) []"
  by (simp add: d_rep_def d_create_def)

lemma d_addVertex_rep:
  assumes "compare_linear cmp" "d_rep g L ds"
  shows "\<exists>g'. d_addVertex cmp g (Some v) = Some (length ds < maxVertexNum \<and> v \<notin> set ds, g')
    \<and> (if length ds < maxVertexNum \<and> v \<notin> set ds then d_rep g' (L(length ds := [])) (ds @ [v]) else g' = g)"
proof (cases "length ds < maxVertexNum \<and> v \<notin> set ds")
  case True
  note r = d_repD [OF assms(2)]
  have n: "d_vexNum g < length (xList g)" using True r(1,3) by simp
  have r9: "b < d_vexNum g" if "(a, b) \<in> set (L i)" "i < d_vexNum g" for a b i using r(9) [OF that(2)] that(1) by force
  let ?g = "g\<lparr>xList := (xList g)[d_vexNum g := \<lparr>firstIn = None, firstOut = None, d_data = Some v\<rparr>], d_vexNum := d_vexNum g + 1\<rparr>"
  have "d_addVertex cmp g (Some v) = Some (True, ?g)"
    using True n r(3) d_locateVertex_rep [OF assms, of v] by (auto simp: d_addVertex_def)
  moreover have "d_rep ?g (L(length ds := [])) (ds @ [v])"
    using True n r(1-8,10-12) unfolding d_rep_def
    by (auto simp: nth_append nth_list_update less_Suc_eq lessThan_Suc dest!: r9)
  ultimately show ?thesis using True by simp
next
  case False
  then show ?thesis using d_locateVertex_rep [OF assms, of v] d_repD(3) [OF assms(2)] by (auto simp: d_addVertex_def)
qed

lemma link_arc_rep:
  assumes rep: "d_rep g L ds" and ij: "i < d_vexNum g" "j < d_vexNum g" and new: "arcs g a = None" "j \<notin> snd ` set (L i)"
  obtains g' where "link_arc g a i j = Some g'" "d_rep g' (L(i := (a, j) # L i)) ds"
proof -
  note r = d_repD [OF rep]
  have il: "i < length (xList g)" "j < length (xList g)" using r(1,2) ij by auto
  let ?nd = "\<lparr>headVex = j, tailVex = i, headLink = firstIn (xList g ! j), tailLink = firstOut (xList g ! i)\<rparr>"
  let ?xs = "(xList g)[i := (xList g ! i)\<lparr>firstOut := Some a\<rparr>]"
  let ?ys = "?xs[j := (?xs ! j)\<lparr>firstIn := Some a\<rparr>]"
  let ?g = "g\<lparr>arcs := (arcs g)(a \<mapsto> ?nd), xList := ?ys, arcNum := arcNum g + 1\<rparr>"
  let ?L = "L(i := (a, j) # L i)"
  have "link_arc g a i j = Some ?g" using il by (simp add: link_arc_def Let_def)
  moreover have "d_rep ?g ?L ds"
  proof -
    have a: "a \<notin> fst ` set (L k)" if "k < d_vexNum g" for k using r(11) new(1) that by blast
    have ys: "d_data (?ys ! k) = d_data (xList g ! k)" "firstOut (?ys ! k) = (if k = i then Some a else firstOut (xList g ! k))"
      if "k < d_vexNum g" for k using that il r(1,2) by (auto simp: nth_list_update)
    have chain: "out_chain ((arcs g)(a \<mapsto> ?nd)) k (firstOut (?ys ! k)) (?L k)" if "k < d_vexNum g" for k
    proof -
      have "out_chain ((arcs g)(a \<mapsto> ?nd)) k p (L k) = out_chain (arcs g) k p (L k)" for p
        by (rule out_chain_frame) (use a [OF that] in auto)
      then show ?thesis using r(6) [OF that] ys(2) [OF that] by (cases "k = i") auto
    qed
    have one: "distinct (map fst (?L k)) \<and> distinct (map snd (?L k)) \<and> snd ` set (?L k) \<subseteq> {..<d_vexNum g}" if "k < d_vexNum g" for k
      using r(7-9) [OF that] a [OF that] new(2) ij by (cases "k = i") auto
    have disj: "fst ` set (?L k) \<inter> fst ` set (?L l) = {}" if "k < d_vexNum g" "l < d_vexNum g" "k \<noteq> l" for k l
      using r(10) [OF that] a [OF that(1)] a [OF that(2)] that(3) by (cases "k = i"; cases "l = i") auto
    have doms: "dom ((arcs g)(a \<mapsto> ?nd)) = (\<Union>k<d_vexNum g. fst ` set (?L k))"
      using UN_upd [OF ij(1), of "\<lambda>as. fst ` set as" L "(a, j) # L i"] UN_upd [OF ij(1), of "\<lambda>as. fst ` set as" L "L i"] r(11)
      by (simp only: dom_fun_upd fun_upd_triv list.set image_insert fst_conv option.distinct if_False) simp
    have num: "arcNum g + 1 = (\<Sum>k<d_vexNum g. int (length (?L k)))"
      using sum_upd [OF ij(1), of "\<lambda>as. int (length as)" L "(a, j) # L i"] sum_upd [OF ij(1), of "\<lambda>as. int (length as)" L "L i"] r(12)
      by (simp only: fun_upd_triv) simp
    show ?thesis unfolding d_rep_def using r(1-4) r(5) ys(1) chain one disj doms num by simp
  qed
  ultimately show thesis using that by blast
qed

lemma d_abs_upd:
  assumes "distinct ds" "i < length ds" "map (\<lambda>x. ds ! snd x) as = F (map (\<lambda>x. ds ! snd x) (L i))"
  shows "d_abs (L(i := as)) ds = map (\<lambda>(d, ws). (d, if d = ds ! i then F ws else ws)) (d_abs L ds)"
  using assms by (auto simp: d_abs_def nth_eq_iff_index_eq)

text \<open>The arcs of a graph as pairs of tail and head.\<close>

definition arcs_of :: "('v \<times> 'v list) list \<Rightarrow> ('v \<times> 'v) set" where
  "arcs_of A = {(u, v). \<exists>ws. (u, ws) \<in> set A \<and> v \<in> set ws}"

lemma arcs_of_abs:
  assumes "d_rep g L ds" "i < d_vexNum g" "j < d_vexNum g"
  shows "(ds ! i, ds ! j) \<in> arcs_of (d_abs L ds) \<longleftrightarrow> j \<in> snd ` set (L i)"
proof -
  note r = d_repD [OF assms(1)]
  have "ds ! j = ds ! snd x \<longleftrightarrow> j = snd x" if "x \<in> set (L i)" for x
    using r(3,4) r(9) [OF assms(2)] that assms(3) by (auto simp: nth_eq_iff_index_eq)
  moreover have "(ds ! i, ws) \<in> set (d_abs L ds) \<longleftrightarrow> ws = map (\<lambda>x. ds ! snd x) (L i)" for ws
    using r(3,4) assms(2) by (auto simp: d_abs_def nth_eq_iff_index_eq)
  ultimately show ?thesis by (auto simp: arcs_of_def image_iff)
qed

lemma filter_heads:
  assumes "d_rep g L ds" "i < d_vexNum g" "j < d_vexNum g"
  shows "map (\<lambda>x. ds ! snd x) (filter (\<lambda>x. snd x \<noteq> j) (L i)) = filter (\<lambda>w. w \<noteq> ds ! j) (map (\<lambda>x. ds ! snd x) (L i))"
proof -
  note r = d_repD [OF assms(1)]
  have "ds ! snd x = ds ! j \<longleftrightarrow> snd x = j" if "x \<in> set (L i)" for x
    using r(3,4) r(9) [OF assms(2)] that assms(3) by (auto simp: nth_eq_iff_index_eq)
  then show ?thesis by (simp add: filter_map comp_def cong: filter_cong)
qed

lemma d_addArc_abs:
  fixes u v :: 'v
  assumes "compare_linear cmp" "fresh_alloc alloc" "d_rep g L ds"
  defines "A \<equiv> d_abs L ds"
  defines "ok \<equiv> u \<in> set ds \<and> v \<in> set ds \<and> (u, v) \<notin> arcs_of A \<and> alloc (arcs g) \<noteq> None"
  shows "\<exists>g'. d_addArc cmp alloc g (Some u) (Some v) = Some (ok, g') \<and>
     d_represents g' (if ok then map (\<lambda>(d, ws). (d, if d = u then v # ws else ws)) A else A)"
proof -
  note r = d_repD [OF assms(3)]
  have same: "d_represents g A" using assms(3) unfolding d_represents_def A_def by blast
  show ?thesis
  proof (cases rule: d_locateVertex_cases [OF assms(1,3), of u, case_names found none])
    case none
    then show ?thesis using d_locateVertex_rep [OF assms(1,3), of v] same by (auto simp: d_addArc_def ok_def)
  next
    case (found i)
    show ?thesis
    proof (cases rule: d_locateVertex_cases [OF assms(1,3), of v, case_names found' none'])
      case none'
      then show ?thesis using found same by (auto simp: d_addArc_def ok_def)
    next
      case (found' j)
      have il: "i < length (xList g)" using r(1,2) found(1) by simp
      have has: "has_arc (arcs g) (firstOut (xList g ! i)) j = Some ((u, v) \<in> arcs_of A)"
        using has_arc_chain [OF r(6) [OF found(1)]] arcs_of_abs [OF assms(3) found(1) found'(1)] found(2) found'(2) by (simp add: A_def)
      show ?thesis
      proof (cases "ok")
        case False
        then show ?thesis using found found' il has same by (auto simp: d_addArc_def ok_def split: option.split)
      next
        case True
        then obtain a where a: "alloc (arcs g) = Some a" by (auto simp: ok_def)
        have "arcs g a = None" using assms(2) a by (simp add: fresh_alloc_def)
        moreover have "j \<notin> snd ` set (L i)"
          using True arcs_of_abs [OF assms(3) found(1) found'(1)] found(2) found'(2) by (simp add: ok_def A_def)
        ultimately obtain g' where g': "link_arc g a i j = Some g'" "d_rep g' (L(i := (a, j) # L i)) ds"
          using link_arc_rep [OF assms(3) found(1) found'(1)] by blast
        have "d_abs (L(i := (a, j) # L i)) ds = map (\<lambda>(d, ws). (d, if d = ds ! i then v # ws else ws)) A"
          unfolding A_def by (rule d_abs_upd) (use r(3,4) found(1) found'(2) in auto)
        then have "d_represents g' (map (\<lambda>(d, ws). (d, if d = u then v # ws else ws)) A)"
          using g'(2) found(2) unfolding d_represents_def by metis
        moreover have "d_addArc cmp alloc g (Some u) (Some v) = Some (True, g')"
          using found found' il has a g'(1) True by (simp add: d_addArc_def ok_def)
        ultimately show ?thesis using True by simp
      qed
    qed
  qed
qed

lemma d_deleteArc_abs:
  assumes "compare_linear cmp" "d_rep g L ds"
  defines "A \<equiv> d_abs L ds"
  shows "\<exists>g'. d_deleteArc cmp g (Some u) (Some v) = Some ((u, v) \<in> arcs_of A, g') \<and>
     d_represents g' (map (\<lambda>(d, ws). (d, if d = u then filter (\<lambda>w. w \<noteq> v) ws else ws)) A)"
proof -
  note r = d_repD [OF assms(2)]
  have vs: "u \<in> set ds \<and> v \<in> set ds" if h: "(u, v) \<in> arcs_of A"
  proof -
    obtain i where i: "i < length ds" "ds ! i = u" "v \<in> set (map (\<lambda>x. ds ! snd x) (L i))"
      using h by (auto simp: arcs_of_def A_def d_abs_def)
    then have "v \<in> set ds" using r(3) r(9) [of i] by fastforce
    then show ?thesis using i by auto
  qed
  have same: "map (\<lambda>(d, ws). (d, if d = u then filter (\<lambda>w. w \<noteq> v) ws else ws)) A = A" if "(u, v) \<notin> arcs_of A"
    using that by (auto simp: arcs_of_def intro!: map_idI filter_True)
  have g: "d_represents g A" using assms(2) unfolding d_represents_def A_def by blast
  show ?thesis
  proof (cases rule: d_locateVertex_cases [OF assms(1,2), of u, case_names found none])
    case none
    then have "(u, v) \<notin> arcs_of A" using vs by blast
    then show ?thesis using none d_locateVertex_rep [OF assms(1,2), of v] same g by (auto simp: d_deleteArc_def)
  next
    case (found i)
    show ?thesis
    proof (cases rule: d_locateVertex_cases [OF assms(1,2), of v, case_names found' none'])
      case none'
      then have "(u, v) \<notin> arcs_of A" using vs by blast
      then show ?thesis using none' found same g by (auto simp: d_deleteArc_def)
    next
      case (found' j)
      have il: "i < length (xList g)" using r(1,2) found(1) by simp
      have f: "firstOut (xList g ! i) = first_of (L i)" using out_chain_first [OF r(6) [OF found(1)]] .
      obtain g' where g': "arc_loop g i j None (firstOut (xList g ! i)) = Some (j \<in> snd ` set (L i), g')"
          "d_rep g' (L(i := filter (\<lambda>x. snd x \<noteq> j) (L i))) ds"
        using arc_loop_rep [OF assms(2) found(1), of "[]" "L i" j] f by auto
      have "d_abs (L(i := filter (\<lambda>x. snd x \<noteq> j) (L i))) ds = map (\<lambda>(d, ws). (d, if d = ds ! i then filter (\<lambda>w. w \<noteq> v) ws else ws)) A"
        unfolding A_def by (rule d_abs_upd) (use r(3,4) found(1) filter_heads [OF assms(2) found(1) found'(1)] found'(2) in auto)
      then have "d_represents g' (map (\<lambda>(d, ws). (d, if d = u then filter (\<lambda>w. w \<noteq> v) ws else ws)) A)"
        using g'(2) found(2) unfolding d_represents_def by metis
      moreover have "d_deleteArc cmp g (Some u) (Some v) = Some ((u, v) \<in> arcs_of A, g')"
        using found found' il g'(1) arcs_of_abs [OF assms(2) found(1) found'(1)] by (simp add: d_deleteArc_def A_def)
      ultimately show ?thesis by blast
    qed
  qed
qed

lemma d_deleteVertex_abs:
  assumes "compare_linear cmp" "d_rep g L ds"
  defines "A \<equiv> d_abs L ds"
  shows "\<exists>g'. d_deleteVertex cmp g (Some v) = Some (v \<in> set ds, g') \<and>
     d_represents g' (if v \<in> set ds then map (\<lambda>(d, ws). (d, filter (\<lambda>w. w \<noteq> v) ws)) (filter (\<lambda>(d, ws). d \<noteq> v) A) else A)"
proof (cases rule: d_locateVertex_cases [OF assms(1,2), of v, case_names found none])
  case none
  then show ?thesis using assms(2) unfolding A_def by (auto simp: d_deleteVertex_def d_represents_def)
next
  case (found k)
  note r = d_repD [OF assms(2)]
  let ?n = "d_vexNum g"
  obtain g1 where g1: "deleteOutgoingArcs g k = Some g1" "d_rep g1 (L(k := [])) ds" "d_vexNum g1 = ?n"
    using deleteOutgoingArcs_rep [OF assms(2) found(1)] .
  let ?L = "\<lambda>j. if 0 \<le> j \<and> j < 0 + d_vexNum g1 then filter (\<lambda>x. snd x \<noteq> k) ((L(k := [])) j) else (L(k := [])) j"
  obtain g2 where g2: "deleteIncomingArcs g1 k = Some g2" "d_vexNum g2 = ?n" "d_rep g2 ?L ds"
    using deleteIncoming_from_rep [OF g1(2), of 0 "d_vexNum g1" k] g1(3) by (auto simp: deleteIncomingArcs_def)
  note r2 = d_repD [OF g2(3)]
  have lt: "k + (?n - 1 - k) < length (xList g2)" using r2(1) r(2) found(1) by linarith
  obtain xs where xs: "shift_vertices (xList g2) k (?n - 1 - k) = Some xs" "length xs = length (xList g2)"
      "\<forall>j<length (xList g2). xs ! j = (if k \<le> j \<and> j < k + (?n - 1 - k) then xList g2 ! (j + 1) else xList g2 ! j)"
    using shift_vertices_nth [OF lt] by blast
  obtain g3 where g3: "renumber_from k 0 (?n - 1) (g2\<lparr>xList := xs, d_vexNum := ?n - 1\<rparr>) = Some g3"
      "d_rep g3 (\<lambda>j. map (apsnd (down k)) (?L (up k j))) (drop_nth k ds)"
    using close_gap_rep [OF g2(3), of k xs] found(1) g2(2) g1(3) xs(2,3) by auto
  have rep3: "d_represents g3 (d_abs (\<lambda>j. map (apsnd (down k)) (?L (up k j))) (drop_nth k ds))"
    unfolding d_represents_def by (intro exI conjI) (rule g3(2), rule refl)
  have abs3: "d_abs (\<lambda>j. map (apsnd (down k)) (?L (up k j))) (drop_nth k ds)
      = map (\<lambda>(d, ws). (d, filter (\<lambda>w. w \<noteq> v) ws)) (filter (\<lambda>(d, ws). d \<noteq> v) A)"
  proof -
    have k: "k < length ds" using found(1) r(3) by simp
    have "filter (\<lambda>(d, ws). d \<noteq> v) A = map (\<lambda>i. (ds ! i, map (\<lambda>x. ds ! snd x) (L i))) (filter (\<lambda>i. i \<noteq> k) [0..<length ds])"
      using found(2) r(4) k by (auto simp: A_def d_abs_def filter_map comp_def nth_eq_iff_index_eq intro!: arg_cong2 [of _ _ _ _ map] filter_cong)
    then have "map (\<lambda>(d, ws). (d, filter (\<lambda>w. w \<noteq> v) ws)) (filter (\<lambda>(d, ws). d \<noteq> v) A)
        = map (\<lambda>j. (ds ! up k j, filter (\<lambda>w. w \<noteq> v) (map (\<lambda>x. ds ! snd x) (L (up k j))))) [0..<length ds - 1]"
      using upt_without [OF k] by (simp add: comp_def)
    also have "\<dots> = d_abs (\<lambda>j. map (apsnd (down k)) (?L (up k j))) (drop_nth k ds)"
    proof (unfold d_abs_def drop_nth_simps(1) [OF k], rule map_cong [OF refl])
      fix j assume "j \<in> set [0..<length ds - 1]"
      then have j: "j < length ds - 1" by simp
      then have u: "up k j < ?n" "up k j \<noteq> k" using up_less [OF k] r(3) up_down(1) by auto
      have "map (\<lambda>x. drop_nth k ds ! snd x) (map (apsnd (down k)) (?L (up k j))) = map (\<lambda>x. ds ! snd x) (filter (\<lambda>x. snd x \<noteq> k) (L (up k j)))"
      proof -
        have "drop_nth k ds ! down k (snd x) = ds ! snd x" if "x \<in> set (L (up k j))" "snd x \<noteq> k" for x
        proof -
          have "down k (snd x) < length ds - 1" using r(3) r(9) [OF u(1)] that by (intro down_less) (use k in auto)
          then show ?thesis using drop_nth_simps(2) [OF k] up_down(3) that by simp
        qed
        then show ?thesis using u g1(3) by simp
      qed
      then show "(ds ! up k j, filter (\<lambda>w. w \<noteq> v) (map (\<lambda>x. ds ! snd x) (L (up k j))))
          = (drop_nth k ds ! j, map (\<lambda>x. drop_nth k ds ! snd x) (map (apsnd (down k)) (?L (up k j))))"
        using drop_nth_simps(2) [OF k j] filter_heads [OF assms(2) u(1) found(1)] found(2) by simp
    qed
    finally show ?thesis by simp
  qed
  then have "d_represents g3 (map (\<lambda>(d, ws). (d, filter (\<lambda>w. w \<noteq> v) ws)) (filter (\<lambda>(d, ws). d \<noteq> v) A))"
    using rep3 by (simp only: abs3)
  moreover have "d_deleteVertex cmp g (Some v) = Some (True, g3)"
    using found g1(1) g2(1,2) xs(1) g3(1) by (simp add: d_deleteVertex_def Let_def)
  ultimately show ?thesis using found(4) by auto
qed

lemma d_destroy_from_chains:
  assumes "i + n \<le> length (xList g)"
    "\<And>j. i \<le> j \<Longrightarrow> j < i + n \<Longrightarrow> out_chain (arcs g) j (firstOut (xList g ! j)) (L j) \<and> distinct (map fst (L j))"
    "\<And>j k. i \<le> j \<Longrightarrow> j < i + n \<Longrightarrow> i \<le> k \<Longrightarrow> k < i + n \<Longrightarrow> j \<noteq> k \<Longrightarrow> fst ` set (L j) \<inter> fst ` set (L k) = {}"
  shows "\<exists>g'. d_destroy_from i n g = Some g' \<and> arcs g' = arcs g |` (- (\<Union>j\<in>{i..<i + n}. fst ` set (L j)))"
  using assms
proof (induction n arbitrary: g i)
  case 0
  then show ?case by simp
next
  case (Suc n)
  let ?h = "arcs g |` (- fst ` set (L i))"
  let ?g = "g\<lparr>arcs := ?h, xList := (xList g)[i := (xList g ! i)\<lparr>firstIn := None, firstOut := None\<rparr>]\<rparr>"
  have ch: "out_chain (arcs g) i (firstOut (xList g ! i)) (L i)" "distinct (map fst (L i))" using Suc.prems(2) [of i] by auto
  have "\<exists>g'. d_destroy_from (i + 1) n ?g = Some g' \<and> arcs g' = arcs ?g |` (- (\<Union>j\<in>{i + 1..<i + 1 + n}. fst ` set (L j)))"
  proof (rule Suc.IH)
    fix j assume j: "i + 1 \<le> j" "j < i + 1 + n"
    then have "fst ` set (L j) \<inter> fst ` set (L i) = {}" by (intro Suc.prems(3)) auto
    then have "out_chain ?h j p (L j) = out_chain (arcs g) j p (L j)" for p
      by (intro out_chain_frame) (auto simp: restrict_map_def)
    then show "out_chain (arcs ?g) j (firstOut (xList ?g ! j)) (L j) \<and> distinct (map fst (L j))"
      using Suc.prems(2) [of j] j by simp
  qed (use Suc.prems(1,3) in auto)
  moreover have "{i..<i + Suc n} = insert i {i + 1..<i + 1 + n}" by auto
  ultimately show ?case using free_out_chain [OF ch, of "arcNum g"] Suc.prems(1) by (auto simp: Compl_Un)
qed

lemma d_destroy_rep:
  assumes "d_rep g L ds"
  shows "d_destroy g = Some Map.empty"
proof -
  note r = d_repD [OF assms]
  obtain g' where "d_destroy_from 0 (d_vexNum g) g = Some g'" "arcs g' = arcs g |` (- (\<Union>j\<in>{0..<0 + d_vexNum g}. fst ` set (L j)))"
    using d_destroy_from_chains [of 0 "d_vexNum g" g L] r(1,2,6,7,10) by auto
  moreover have "arcs g |` (- dom (arcs g)) = Map.empty" by (auto simp: restrict_map_def fun_eq_iff domIff)
  ultimately show ?thesis using r(11) by (simp add: d_destroy_def atLeast0LessThan)
qed

section \<open>Traversal\<close>

definition d_heads :: "'v OLGraph \<Rightarrow> nat \<Rightarrow> nat set" where
  "d_heads g i = {headVex nd | a nd. arcs g a = Some nd \<and> tailVex nd = i}"

lemma out_chain_nodes: "out_chain h i p as \<Longrightarrow> (a, v) \<in> set as \<Longrightarrow> \<exists>nd. h a = Some nd \<and> headVex nd = v \<and> tailVex nd = i"
  by (induction as arbitrary: p) (auto split: option.splits)

lemma d_heads_rep:
  assumes "d_rep g L ds" "i < d_vexNum g"
  shows "d_heads g i = snd ` set (L i)"
proof -
  note r = d_repD [OF assms(1)]
  note nodes = out_chain_nodes [OF r(6)]
  have "v \<in> snd ` set (L i)" if h: "arcs g a = Some nd" "tailVex nd = i" "headVex nd = v" for a nd v
  proof -
    have "a \<in> (\<Union>i<d_vexNum g. fst ` set (L i))" using h(1) unfolding r(11) [symmetric] by blast
    then obtain j w where j: "j < d_vexNum g" "(a, w) \<in> set (L j)" by auto
    then have "j = i" "w = v" using nodes [OF j] h by auto
    then show ?thesis using j(2) by (metis imageI snd_conv)
  qed
  moreover have "v \<in> d_heads g i" if "(a, v) \<in> set (L i)" for a v using nodes [OF assms(2) that] by (auto simp: d_heads_def)
  ultimately show ?thesis by (auto simp: d_heads_def)
qed

interpretation dg: traversable "\<lambda>g. \<exists>L ds. d_rep g L ds" d_vexNum "d_neighbors cmp" d_heads for cmp :: "'v compare"
proof unfold_locales
  fix g :: "'v OLGraph" and i and vis :: "bool list"
  assume "\<exists>L ds. d_rep g L ds"
  then obtain L ds where rep: "d_rep g L ds" by blast
  note r = d_repD [OF rep]
  show "d_vexNum g \<le> maxVertexNum" using r(2) .
  assume i: "i < d_vexNum g"
  show "d_heads g i \<subseteq> {..<d_vexNum g}" using d_heads_rep [OF rep i] r(9) [OF i] by simp
  have "length (L i) = card (snd ` set (L i))" using r(8) [OF i] by (metis distinct_card length_map set_map)
  also have "\<dots> \<le> d_vexNum g" using r(9) [OF i] card_mono [of "{..<d_vexNum g}"] by simp
  finally have "collect_heads (arcs g) (firstOut (xList g ! i)) [] = Some (map snd (L i))"
    using collect_heads_chain [OF r(6) [OF i], of "[]"] r(2) by simp
  moreover have "\<exists>ys. sortNeighbors cmp (map d_data (xList g)) (map snd (L i)) = Some ys \<and> mset ys = mset (map snd (L i))"
    by (rule sortNeighbors_perm) (use r(1,2,5) r(9) [OF i] in auto)
  ultimately obtain ys where "d_neighbors cmp g i vis = Some ys" "mset ys = mset (map snd (L i))"
    using i r(1,2) by (auto simp: d_neighbors_def)
  then show "\<exists>ns. d_neighbors cmp g i vis = Some ns \<and> set ns \<subseteq> d_heads g i \<and> d_heads g i \<subseteq> set ns \<union> {j. vis ! j}"
    using d_heads_rep [OF rep i] mset_eq_setD [of ys "map snd (L i)"] by auto
qed

text \<open>The vertices a traversal calls \<open>op\<close> on, from their indices.\<close>

lemma d_traversal_abs:
  assumes "d_rep g L ds" "k < d_vexNum g" "distinct (k # ks)" "set (k # ks) = (dg.edges g)\<^sup>* `` {k}"
  shows "map (data_at (map d_data (xList g))) (k # ks) = map Some (ds ! k # map ((!) ds) ks) \<and> distinct (ds ! k # map ((!) ds) ks)
    \<and> set (ds ! k # map ((!) ds) ks) = (arcs_of (d_abs L ds))\<^sup>* `` {ds ! k}"
proof -
  note r = d_repD [OF assms(1)]
  have E: "dg.edges g \<subseteq> {..<d_vexNum g} \<times> {..<d_vexNum g}" 
  proof -
    have "j < d_vexNum g" if "i < d_vexNum g" "j \<in> d_heads g i" for i j using that d_heads_rep [OF assms(1)] r(9) by blast
    then show ?thesis by (auto simp: dg.edges_def)
  qed
  have inj: "inj_on ((!) ds) {..<d_vexNum g}" using r(3,4) by (auto simp: inj_on_def nth_eq_iff_index_eq)
  have sub: "set (k # ks) \<subseteq> {..<d_vexNum g}"
  proof
    fix j assume "j \<in> set (k # ks)"
    then have "(k, j) \<in> (dg.edges g)\<^sup>*" unfolding assms(4) by simp
    then show "j \<in> {..<d_vexNum g}" using E assms(2) by (induction rule: rtrancl_induct) auto
  qed
  have "arcs_of (d_abs L ds) = (\<lambda>(i, j). (ds ! i, ds ! j)) ` dg.edges g"
  proof -
    have "(u, w) \<in> arcs_of (d_abs L ds) \<longleftrightarrow> (\<exists>i<d_vexNum g. u = ds ! i \<and> w \<in> (!) ds ` d_heads g i)" for u w
    proof -
      have "(u, w) \<in> arcs_of (d_abs L ds) \<longleftrightarrow> (\<exists>i<d_vexNum g. u = ds ! i \<and> w \<in> (\<lambda>x. ds ! snd x) ` set (L i))"
      proof -
        have "set (d_abs L ds) = {(ds ! i, map (\<lambda>x. ds ! snd x) (L i)) | i. i < d_vexNum g}" using r(3) by (auto simp: d_abs_def)
        then show ?thesis unfolding arcs_of_def by (simp only: mem_Collect_eq prod.case prod.inject set_map [symmetric]) blast
      qed
      then show ?thesis using d_heads_rep [OF assms(1)] by (simp add: image_image cong: conj_cong)
    qed
    moreover have "(u, w) \<in> (\<lambda>(i, j). (ds ! i, ds ! j)) ` dg.edges g \<longleftrightarrow> (\<exists>i<d_vexNum g. u = ds ! i \<and> w \<in> (!) ds ` d_heads g i)" for u w
      by (auto simp: dg.edges_def image_iff)
    ultimately show ?thesis by (intro set_eqI) (simp only: split_paired_all)
  qed
  from reach_image [OF this E inj, of k] assms(2)
  have "set (map ((!) ds) (k # ks)) = (arcs_of (d_abs L ds))\<^sup>* `` {ds ! k}" unfolding set_map assms(4) by simp
  moreover have "distinct (map ((!) ds) (k # ks))" using assms(3) inj_on_subset [OF inj sub] by (simp only: distinct_map)
  moreover have "data_at (map d_data (xList g)) j = Some (ds ! j)" if "j \<in> set (k # ks)" for j using that sub r(1,2,5) by auto
  ultimately show ?thesis by simp
qed

section \<open>Properties\<close>

text \<open>
  C38: The operations of the directed graph implement an abstract graph, a list of vertices each with
  its successors. \<open>create\<close> gives the empty graph. \<open>addVertex\<close> adds a vertex unless the data is there or 256
  vertices are; \<open>addArc\<close> adds an arc between two vertices unless it is there or \<open>new\<close> fails; \<open>deleteArc\<close>
  removes just that arc; \<open>deleteVertex\<close> removes the vertex with all arcs into and out of it and leaves
  every other vertex and arc. Each returns whether it changed the graph, none of them leaves an array or
  follows a dangling pointer, and \<open>destroy\<close> frees every arc.
\<close>

theorem directed_refines:
  fixes u v :: 'v
  assumes "compare_linear cmp" "fresh_alloc alloc" "d_represents g A"
  defines "add_vertex \<equiv> length A < maxVertexNum \<and> v \<notin> fst ` set A"
    and "add_arc \<equiv> u \<in> fst ` set A \<and> v \<in> fst ` set A \<and> (u, v) \<notin> arcs_of A \<and> alloc (arcs g) \<noteq> None"
    and "delete_vertex \<equiv> v \<in> fst ` set A"
  shows "d_represents d_create []
    \<and> (\<exists>g'. d_addVertex cmp g (Some v) = Some (add_vertex, g') \<and> d_represents g' (if add_vertex then A @ [(v, [])] else A))
    \<and> (\<exists>g'. d_addArc cmp alloc g (Some u) (Some v) = Some (add_arc, g') \<and>
         d_represents g' (if add_arc then map (\<lambda>(d, ws). (d, if d = u then v # ws else ws)) A else A))
    \<and> (\<exists>g'. d_deleteArc cmp g (Some u) (Some v) = Some ((u, v) \<in> arcs_of A, g') \<and>
         d_represents g' (map (\<lambda>(d, ws). (d, if d = u then filter (\<lambda>w. w \<noteq> v) ws else ws)) A))
    \<and> (\<exists>g'. d_deleteVertex cmp g (Some v) = Some (delete_vertex, g') \<and>
         d_represents g' (if delete_vertex then map (\<lambda>(d, ws). (d, filter (\<lambda>w. w \<noteq> v) ws)) (filter (\<lambda>(d, ws). d \<noteq> v) A) else A))
    \<and> d_destroy g = Some Map.empty"
proof -
  obtain L ds where L: "d_rep g L ds" "A = d_abs L ds" using assms(3) by (auto simp: d_represents_def)
  have ds: "set ds = fst ` set A" "length ds = length A" using d_abs_fst [of L ds] L(2) by (metis set_map, simp add: d_abs_simps)
  have "d_represents d_create []" using d_create_rep by (fastforce simp: d_represents_def d_abs_def)
  moreover have "\<exists>g'. d_addVertex cmp g (Some v) = Some (add_vertex, g') \<and> d_represents g' (if add_vertex then A @ [(v, [])] else A)"
  proof -
    obtain g' where g': "d_addVertex cmp g (Some v) = Some (add_vertex, g')" "if add_vertex then d_rep g' (L(length ds := [])) (ds @ [v]) else g' = g"
      using d_addVertex_rep [OF assms(1) L(1), of v] unfolding add_vertex_def ds by blast
    have "d_abs (L(length ds := [])) (ds @ [v]) = A @ [(v, [])]"
    proof -
      have "ds ! snd x = (ds @ [v]) ! snd x" if "x \<in> set (L i)" "i < length ds" for x i
        using that d_repD(3,9) [OF L(1)] by (auto simp: nth_append)
      then show ?thesis unfolding L(2) by (simp add: d_abs_def nth_append)
    qed
    then show ?thesis using g' assms(3) by (cases add_vertex) (auto simp: d_represents_def, metis)
  qed
  moreover note d_addArc_abs [OF assms(1,2) L(1), of u v] d_deleteArc_abs [OF assms(1) L(1), of u v] d_deleteVertex_abs [OF assms(1) L(1), of v]
    d_destroy_rep [OF L(1)]
  ultimately show ?thesis unfolding add_arc_def delete_vertex_def ds(1) L(2) [symmetric] by blast
qed

theorem directed_refines_witness:
  "\<exists>g'. d_addVertex compareKey d_create (Some 3) = Some (True, g') \<and> d_represents g' [(3, [])]"
  using directed_refines [OF ck.compare_linear_axioms first_alloc_fresh, of d_create "[]" 3 3] d_create_rep
  by (auto simp: d_represents_def d_abs_def maxVertexNum_def arcs_of_def)

text \<open>A graph with an arc from 1 to 2.\<close>

lemma directed_example: "\<exists>g. d_represents g [(1 :: int, [2]), (2, [])]"
proof -
  have e: "(\<lambda>_. [])(i := []) = (\<lambda>_. [])" for i :: nat by auto
  obtain g1 where g1: "d_rep g1 (\<lambda>_. []) [1 :: int]"
    using d_addVertex_rep [OF ck.compare_linear_axioms d_create_rep, of 1] by (auto simp: maxVertexNum_def e)
  obtain g2 where g2: "d_rep g2 (\<lambda>_. []) [1 :: int, 2]"
    using d_addVertex_rep [OF ck.compare_linear_axioms g1, of 2] by (auto simp: maxVertexNum_def e)
  have "d_abs (\<lambda>_. []) [1 :: int, 2] = [(1, []), (2, [])]" by (simp add: d_abs_def)
  moreover have "arcs g2 0 = None" using d_repD(11) [OF g2] by auto
  ultimately show ?thesis
    using d_addArc_abs [OF ck.compare_linear_axioms first_alloc_fresh g2, of 1 2] by (auto simp: arcs_of_def first_alloc_def)
qed

text \<open>
  Depth-first and breadth-first search of a directed graph return: from a vertex they call \<open>op\<close> on it
  first and then on every vertex that can be reached from it, on each exactly once; from data that is
  not in the graph, or from a null pointer, they do nothing.
\<close>

theorem directed_traversals:
  assumes "compare_linear cmp" "d_represents g A"
  shows "(if v \<in> fst ` set A
     then (\<exists>ws. d_dfs cmp g (Some v) = Some (map Some (v # ws)) \<and> distinct (v # ws) \<and> set (v # ws) = (arcs_of A)\<^sup>* `` {v})
       \<and> (\<exists>ws. d_bfs cmp g (Some v) = Some (map Some (v # ws)) \<and> distinct (v # ws) \<and> set (v # ws) = (arcs_of A)\<^sup>* `` {v})
     else d_dfs cmp g (Some v) = Some [] \<and> d_bfs cmp g (Some v) = Some [])
    \<and> d_dfs cmp g None = Some [] \<and> d_bfs cmp g None = Some []"
proof -
  obtain L ds where L: "d_rep g L ds" "A = d_abs L ds" using assms(2) by (auto simp: d_represents_def)
  have ds: "set ds = fst ` set A" using d_abs_fst [of L ds] L(2) by (metis set_map)
  show ?thesis
  proof (cases rule: d_locateVertex_cases [OF assms(1) L(1), of v, case_names found none])
    case none
    then show ?thesis using ds by (simp add: d_dfs_def d_bfs_def d_locateVertex_def)
  next
    case (found k)
    have wf: "\<exists>L ds. d_rep g L ds" using L(1) by blast
    obtain ks where i: "dfs_from (d_neighbors cmp g) k = Some (k # ks)" "distinct (k # ks)" "set (k # ks) = (dg.edges g)\<^sup>* `` {k}"
      using dg.dfs_from_correct [OF wf found(1), of cmp] by blast
    obtain js where j: "bfs_from (d_neighbors cmp g) k = Some (k # js)" "distinct (k # js)" "set (k # js) = (dg.edges g)\<^sup>* `` {k}"
      using dg.bfs_from_correct [OF wf found(1), of cmp] by blast
    note ik = d_traversal_abs [OF L(1) found(1) i(2,3), unfolded found(2) L(2) [symmetric]]
    note jk = d_traversal_abs [OF L(1) found(1) j(2,3), unfolded found(2) L(2) [symmetric]]
    have "d_dfs cmp g (Some v) = Some (map Some (v # map ((!) ds) ks))" "d_bfs cmp g (Some v) = Some (map Some (v # map ((!) ds) js))"
      using found(3) i(1) j(1) ik jk by (simp_all add: d_dfs_def d_bfs_def)
    moreover have "d_dfs cmp g None = Some [] \<and> d_bfs cmp g None = Some []" by (simp add: d_dfs_def d_bfs_def d_locateVertex_def)
    moreover have "v \<in> fst ` set A" using found(4) ds by blast
    ultimately show ?thesis using ik jk by (simp only: if_True) blast
  qed
qed

theorem directed_traversals_witness:
  "\<exists>g ws. d_represents g [(1 :: int, [2]), (2, [])] \<and> d_dfs compareKey g (Some 1) = Some (map Some (1 # ws)) \<and> 2 \<in> set ws"
proof -
  let ?A = "[(1 :: int, [2 :: int]), (2, [])]"
  obtain g where g: "d_represents g ?A" using directed_example by blast
  have "(1, 2) \<in> arcs_of ?A" by (auto simp: arcs_of_def)
  then have two: "2 \<in> (arcs_of ?A)\<^sup>* `` {1}" by auto
  obtain ws where "d_dfs compareKey g (Some 1) = Some (map Some (1 # ws))" "set (1 # ws) = (arcs_of ?A)\<^sup>* `` {1}"
    using directed_traversals [OF ck.compare_linear_axioms g, of 1] by auto
  note ws = this
  have "2 \<in> set (1 # ws)" using two unfolding ws(2) .
  then have "2 \<in> set ws" by simp
  then show ?thesis using g ws(1) by blast
qed

text \<open>
  Deleting an arc does not take it out of the list of arcs into its head: \<open>firstIn\<close> keeps pointing to
  freed memory. No operation follows these lists.
\<close>

lemma unlink_arc_stale:
  assumes "unlink_arc g i prv cur = Some g'" "j < length (xList g)"
  shows "arcs g' cur = None \<and> firstIn (xList g' ! j) = firstIn (xList g ! j)"
  using assms by (auto simp: unlink_arc_def bind_eq_Some_conv nth_list_update wr_def rd_def split: option.splits if_splits)

end
