(* ===== verification/DS_Graph_Undirected.thy ===== *)
theory DS_Graph_Undirected
  imports DS_Graph_Traverse
begin

text \<open>
  The undirected graph of \<open>src/data_structure/source/graph.cpp\<close>, an adjacency multi-list: an edge is one node
  that is linked into the lists of both of its ends.

  As for the directed graph, the edges live in a store that belongs to the graph, \<open>::new\<close> is the argument
  \<open>alloc\<close>, a null pointer is \<^term>\<open>None\<close>, and an operation whose result is \<^term>\<open>None\<close> follows a dangling pointer,
  leaves an array or does not end. The arguments \<open>graph\<close> and \<open>compare\<close> are not null.
\<close>

section \<open>State\<close>

record EdgeNode =
  iVex :: nat
  jVex :: nat
  iLink :: "nat option"
  jLink :: "nat option"

record 'v u_VertexNode =
  firstEdge :: "nat option"
  u_data :: "'v option"

record 'v AMLGraph =
  u_vexNum :: nat
  edgeNum :: int
  adjMultiList :: "'v u_VertexNode list"
  estore :: "nat \<rightharpoonup> EdgeNode"

definition u_create :: "'v AMLGraph" where
  "u_create =
     \<lparr>u_vexNum = 0, edgeNum = 0,
      adjMultiList = replicate maxVertexNum \<lparr>firstEdge = None, u_data = None\<rparr>, estore = Map.empty\<rparr>"

section \<open>Operations\<close>

definition u_locateVertex :: "'v compare \<Rightarrow> 'v AMLGraph \<Rightarrow> 'v option \<Rightarrow> int option" where
  "u_locateVertex cmp g vert =
     (case vert of None \<Rightarrow> Some (- 1) | Some v \<Rightarrow> locate cmp (map u_data (adjMultiList g)) v 0 (u_vexNum g))"

definition getNextEdge :: "EdgeNode \<Rightarrow> nat \<Rightarrow> nat option" where
  "getNextEdge nd index = (if iVex nd = index then iLink nd else jLink nd)"

text \<open>\<open>(prev->iVex == index) ? prev->iLink = next : prev->jLink = next\<close>\<close>

definition set_link :: "EdgeNode \<Rightarrow> nat \<Rightarrow> nat option \<Rightarrow> EdgeNode" where
  "set_link nd index q = (if iVex nd = index then nd\<lparr>iLink := q\<rparr> else nd\<lparr>jLink := q\<rparr>)"

partial_function (option) removeEdge_loop ::
  "'v AMLGraph \<Rightarrow> nat \<Rightarrow> nat \<Rightarrow> nat option \<Rightarrow> nat option \<Rightarrow> 'v AMLGraph option" where
  "removeEdge_loop g index eNode prv cur =
     (case cur of
        None \<Rightarrow> Some g
      | Some a \<Rightarrow>
          do { nd \<leftarrow> estore g a;
               if a \<noteq> eNode then removeEdge_loop g index eNode (Some a) (getNextEdge nd index)
               else case prv of
                 None \<Rightarrow> do { x \<leftarrow> rd (adjMultiList g) index;
                            xs \<leftarrow> wr (adjMultiList g) index (x\<lparr>firstEdge := getNextEdge nd index\<rparr>);
                            Some (g\<lparr>adjMultiList := xs\<rparr>) }
               | Some p \<Rightarrow> do { pn \<leftarrow> estore g p;
                              Some (g\<lparr>estore := (estore g)(p \<mapsto> set_link pn index (getNextEdge nd index))\<rparr>) } })"

definition removeEdgeFromList :: "'v AMLGraph \<Rightarrow> nat \<Rightarrow> nat \<Rightarrow> 'v AMLGraph option" where
  "removeEdgeFromList g index eNode =
     do { x \<leftarrow> rd (adjMultiList g) index; removeEdge_loop g index eNode None (firstEdge x) }"

definition u_addVertex :: "'v compare \<Rightarrow> 'v AMLGraph \<Rightarrow> 'v option \<Rightarrow> (bool \<times> 'v AMLGraph) option" where
  "u_addVertex cmp g vert =
     (if vert = None \<or> u_vexNum g \<ge> maxVertexNum then Some (False, g)
      else do {
        index \<leftarrow> u_locateVertex cmp g vert;
        if index \<ge> 0 then Some (False, g)
        else do {
          xs \<leftarrow> wr (adjMultiList g) (u_vexNum g) \<lparr>firstEdge = None, u_data = vert\<rparr>;
          Some (True, g\<lparr>adjMultiList := xs, u_vexNum := u_vexNum g + 1\<rparr>) } })"

text \<open>The loops of \<open>addEdge\<close> and \<open>deleteEdge\<close> that look for the edge.\<close>

partial_function (option) find_edge :: "(nat \<rightharpoonup> EdgeNode) \<Rightarrow> nat \<Rightarrow> nat \<Rightarrow> nat option \<Rightarrow> nat option option" where
  "find_edge h index1 index2 cur =
     (if cur = None then Some None
      else do { nd \<leftarrow> h (the cur);
                if iVex nd = index1 \<and> jVex nd = index2 \<or> iVex nd = index2 \<and> jVex nd = index1 then Some cur
                else find_edge h index1 index2 (getNextEdge nd index1) })"

definition link_edge :: "'v AMLGraph \<Rightarrow> nat \<Rightarrow> nat \<Rightarrow> nat \<Rightarrow> 'v AMLGraph option" where
  "link_edge g a index1 index2 =
     do { x1 \<leftarrow> rd (adjMultiList g) index1;
          let iL = firstEdge x1;
          xs \<leftarrow> wr (adjMultiList g) index1 (x1\<lparr>firstEdge := Some a\<rparr>);
          x2 \<leftarrow> rd xs index2;
          let jL = firstEdge x2;
          xs \<leftarrow> wr xs index2 (x2\<lparr>firstEdge := Some a\<rparr>);
          Some (g\<lparr>estore := (estore g)(a \<mapsto> \<lparr>iVex = index1, jVex = index2, iLink = iL, jLink = jL\<rparr>),
                  adjMultiList := xs, edgeNum := edgeNum g + 1\<rparr>) }"

definition u_addEdge ::
  "'v compare \<Rightarrow> ((nat \<rightharpoonup> EdgeNode) \<Rightarrow> nat option) \<Rightarrow> 'v AMLGraph \<Rightarrow> 'v option \<Rightarrow> 'v option \<Rightarrow> (bool \<times> 'v AMLGraph) option" where
  "u_addEdge cmp alloc g vert1 vert2 =
     (if vert1 = None \<or> vert2 = None then Some (False, g)
      else do {
        index1 \<leftarrow> u_locateVertex cmp g vert1;
        index2 \<leftarrow> u_locateVertex cmp g vert2;
        if index1 < 0 \<or> index2 < 0 then Some (False, g)
        else do {
          x \<leftarrow> rd (adjMultiList g) (nat index1);
          found \<leftarrow> find_edge (estore g) (nat index1) (nat index2) (firstEdge x);
          if found \<noteq> None then Some (False, g)
          else case alloc (estore g) of
            None \<Rightarrow> Some (False, g)
          | Some a \<Rightarrow> do { g \<leftarrow> link_edge g a (nat index1) (nat index2); Some (True, g) } } })"

definition u_deleteEdge :: "'v compare \<Rightarrow> 'v AMLGraph \<Rightarrow> 'v option \<Rightarrow> 'v option \<Rightarrow> (bool \<times> 'v AMLGraph) option" where
  "u_deleteEdge cmp g vert1 vert2 =
     (if vert1 = None \<or> vert2 = None then Some (False, g)
      else do {
        index1 \<leftarrow> u_locateVertex cmp g vert1;
        index2 \<leftarrow> u_locateVertex cmp g vert2;
        if index1 < 0 \<or> index2 < 0 then Some (False, g)
        else do {
          x \<leftarrow> rd (adjMultiList g) (nat index1);
          found \<leftarrow> find_edge (estore g) (nat index1) (nat index2) (firstEdge x);
          case found of
            None \<Rightarrow> Some (False, g)
          | Some a \<Rightarrow>
              do { g \<leftarrow> removeEdgeFromList g (nat index1) a;
                   g \<leftarrow> removeEdgeFromList g (nat index2) a;
                   Some (True, g\<lparr>estore := (estore g)(a := None), edgeNum := edgeNum g - 1\<rparr>) } } })"

text \<open>The loop of \<open>destroy\<close> over the list of vertex \<open>i\<close>; the result is what is left in the store.\<close>

partial_function (option) u_destroy_loop :: "'v compare \<Rightarrow> nat \<Rightarrow> 'v AMLGraph \<Rightarrow> nat option \<Rightarrow> 'v AMLGraph option" where
  "u_destroy_loop cmp i g cur =
     (case cur of
        None \<Rightarrow> Some g
      | Some del \<Rightarrow>
          do { nd \<leftarrow> estore g del;
               x1 \<leftarrow> rd (adjMultiList g) (iVex nd);
               x2 \<leftarrow> rd (adjMultiList g) (jVex nd);
               (_, g) \<leftarrow> u_deleteEdge cmp g (u_data x1) (u_data x2);
               u_destroy_loop cmp i g (getNextEdge nd i) })"

fun u_destroy_from :: "'v compare \<Rightarrow> nat \<Rightarrow> nat \<Rightarrow> 'v AMLGraph \<Rightarrow> 'v AMLGraph option" where
  "u_destroy_from cmp i 0 g = Some g"
| "u_destroy_from cmp i (Suc n) g =
     do { x \<leftarrow> rd (adjMultiList g) i;
          g \<leftarrow> u_destroy_loop cmp i g (firstEdge x);
          u_destroy_from cmp (i + 1) n g }"

definition u_destroy :: "'v compare \<Rightarrow> 'v AMLGraph \<Rightarrow> (nat \<rightharpoonup> EdgeNode) option" where
  "u_destroy cmp g = map_option estore (u_destroy_from cmp 0 (u_vexNum g) g)"

text \<open>The loops of \<open>deleteVertex\<close> that delete the edges of the vertex and rename the last vertex.\<close>

partial_function (option) delete_edges :: "'v compare \<Rightarrow> 'v option \<Rightarrow> nat \<Rightarrow> 'v AMLGraph \<Rightarrow> nat option \<Rightarrow> 'v AMLGraph option" where
  "delete_edges cmp vert index g cur =
     (case cur of
        None \<Rightarrow> Some g
      | Some a \<Rightarrow>
          do { nd \<leftarrow> estore g a;
               y \<leftarrow> rd (adjMultiList g) (if iVex nd = index then jVex nd else iVex nd);
               (_, g) \<leftarrow> u_deleteEdge cmp g vert (u_data y);
               x \<leftarrow> rd (adjMultiList g) index;
               delete_edges cmp vert index g (firstEdge x) })"

partial_function (option) rename_edges :: "nat \<Rightarrow> nat \<Rightarrow> nat \<Rightarrow> (nat \<rightharpoonup> EdgeNode) \<Rightarrow> nat option \<Rightarrow> (nat \<rightharpoonup> EdgeNode) option" where
  "rename_edges lst index i h adj =
     (case adj of
        None \<Rightarrow> Some h
      | Some a \<Rightarrow>
          do { nd \<leftarrow> h a;
               let nd = (if iVex nd = lst then nd\<lparr>iVex := index\<rparr> else nd);
               let nd = (if jVex nd = lst then nd\<lparr>jVex := index\<rparr> else nd);
               rename_edges lst index i (h(a \<mapsto> nd)) (getNextEdge nd i) })"

fun rename_from :: "nat \<Rightarrow> nat \<Rightarrow> nat \<Rightarrow> nat \<Rightarrow> 'v AMLGraph \<Rightarrow> 'v AMLGraph option" where
  "rename_from lst index i 0 g = Some g"
| "rename_from lst index i (Suc n) g =
     do { x \<leftarrow> rd (adjMultiList g) i;
          h \<leftarrow> rename_edges lst index i (estore g) (firstEdge x);
          rename_from lst index (i + 1) n (g\<lparr>estore := h\<rparr>) }"

definition u_deleteVertex :: "'v compare \<Rightarrow> 'v AMLGraph \<Rightarrow> 'v option \<Rightarrow> (bool \<times> 'v AMLGraph) option" where
  "u_deleteVertex cmp g vert =
     (if vert = None then Some (False, g)
      else do {
        index \<leftarrow> u_locateVertex cmp g vert;
        if index < 0 then Some (False, g)
        else do {
          let index = nat index;
          x \<leftarrow> rd (adjMultiList g) index;
          g \<leftarrow> delete_edges cmp vert index g (firstEdge x);
          if index = u_vexNum g - 1 then Some (True, g\<lparr>u_vexNum := u_vexNum g - 1\<rparr>)
          else do {
            y \<leftarrow> rd (adjMultiList g) (u_vexNum g - 1);
            xs \<leftarrow> wr (adjMultiList g) index y;
            g \<leftarrow> rename_from (u_vexNum g - 1) index 0 (u_vexNum g) (g\<lparr>adjMultiList := xs\<rparr>);
            Some (True, g\<lparr>u_vexNum := u_vexNum g - 1\<rparr>) } } })"

text \<open>The neighbours that are not visited yet; the array for them has \<open>maxVertexNum\<close> entries.\<close>

partial_function (option) collect_ends :: "(nat \<rightharpoonup> EdgeNode) \<Rightarrow> nat \<Rightarrow> bool list \<Rightarrow> nat option \<Rightarrow> nat list \<Rightarrow> nat list option" where
  "collect_ends h index visited cur neighbors =
     (case cur of
        None \<Rightarrow> Some neighbors
      | Some a \<Rightarrow>
          do { nd \<leftarrow> h a;
               let nbrIdx = (if iVex nd = index then jVex nd else iVex nd);
               b \<leftarrow> rd visited nbrIdx;
               if b then collect_ends h index visited (getNextEdge nd index) neighbors
               else if length neighbors < maxVertexNum
               then collect_ends h index visited (getNextEdge nd index) (neighbors @ [nbrIdx])
               else None })"

definition u_neighbors :: "'v compare \<Rightarrow> 'v AMLGraph \<Rightarrow> neighbors" where
  "u_neighbors cmp g index visited =
     do { x \<leftarrow> rd (adjMultiList g) index;
          neighbors \<leftarrow> collect_ends (estore g) index visited (firstEdge x) [];
          sortNeighbors cmp (map u_data (adjMultiList g)) neighbors }"

definition u_dfs :: "'v compare \<Rightarrow> 'v AMLGraph \<Rightarrow> 'v option \<Rightarrow> 'v option list option" where
  "u_dfs cmp g vert =
     do { start \<leftarrow> u_locateVertex cmp g vert;
          if start < 0 then Some []
          else map_option (map (\<lambda>i. data_at (map u_data (adjMultiList g)) i)) (dfs_from (u_neighbors cmp g) (nat start)) }"

definition u_bfs :: "'v compare \<Rightarrow> 'v AMLGraph \<Rightarrow> 'v option \<Rightarrow> 'v option list option" where
  "u_bfs cmp g vert =
     do { start \<leftarrow> u_locateVertex cmp g vert;
          if start < 0 then Some []
          else map_option (map (\<lambda>i. data_at (map u_data (adjMultiList g)) i)) (bfs_from (u_neighbors cmp g) (nat start)) }"

section \<open>Lists of edges\<close>

text \<open>An edge: its address with the two ends. The list of vertex \<open>i\<close> that starts at \<open>p\<close>.\<close>

type_synonym edge = "nat \<times> nat \<times> nat"

fun edge_chain :: "(nat \<rightharpoonup> EdgeNode) \<Rightarrow> nat \<Rightarrow> nat option \<Rightarrow> edge list \<Rightarrow> bool" where
  "edge_chain h i p [] \<longleftrightarrow> p = None"
| "edge_chain h i p (x # es) \<longleftrightarrow>
     p = Some (fst x) \<and>
     (case h (fst x) of
        None \<Rightarrow> False
      | Some nd \<Rightarrow> iVex nd = fst (snd x) \<and> jVex nd = snd (snd x) \<and> edge_chain h i (getNextEdge nd i) es)"

definition inc :: "nat \<Rightarrow> edge \<Rightarrow> bool" where
  "inc i x \<longleftrightarrow> fst (snd x) = i \<or> snd (snd x) = i"

definition head_of :: "edge list \<Rightarrow> nat option" where
  "head_of es = (if es = [] then None else Some (fst (hd es)))"

definition tail_of :: "edge list \<Rightarrow> nat option" where
  "tail_of es = (if es = [] then None else Some (fst (last es)))"

lemma head_of_simps [simp]: "head_of [] = None" "head_of (x # xs) = Some (fst x)"
  by (simp_all add: head_of_def)

lemma tail_of_simps [simp]: "tail_of [] = None" "tail_of (xs @ [x]) = Some (fst x)"
  by (simp_all add: tail_of_def)

lemma edge_chain_frame:
  "(\<And>x. x \<in> set es \<Longrightarrow> h' (fst x) = h (fst x)) \<Longrightarrow> edge_chain h' i p es = edge_chain h i p es"
  by (induction es arbitrary: p) (auto split: option.splits)

text \<open>A chain only depends on the ends of its nodes and on their links for its vertex.\<close>

lemma edge_chain_cong:
  assumes "\<And>x nd. x \<in> set es \<Longrightarrow> h (fst x) = Some nd \<Longrightarrow> \<exists>nd'. h' (fst x) = Some nd' \<and> iVex nd' = iVex nd \<and> jVex nd' = jVex nd \<and> getNextEdge nd' i = getNextEdge nd i"
  shows "edge_chain h i p es \<Longrightarrow> edge_chain h' i p es"
  using assms
proof (induction es arbitrary: p)
  case (Cons x es)
  then obtain nd where nd: "p = Some (fst x)" "h (fst x) = Some nd" "iVex nd = fst (snd x)" "jVex nd = snd (snd x)"
      "edge_chain h i (getNextEdge nd i) es" by (auto split: option.splits)
  obtain nd' where nd': "h' (fst x) = Some nd'" "iVex nd' = iVex nd" "jVex nd' = jVex nd" "getNextEdge nd' i = getNextEdge nd i"
    using Cons.prems(2) [of x nd] nd(2) by auto
  have "edge_chain h' i (getNextEdge nd i) es" by (rule Cons.IH [OF nd(5)]) (use Cons.prems(2) in auto)
  then show ?case using nd nd' by simp
qed simp

lemma edge_chain_head: "edge_chain h i p es \<Longrightarrow> p = head_of es"
  by (cases es) auto

lemma edge_chain_node: "edge_chain h i p es \<Longrightarrow> x \<in> set es \<Longrightarrow> \<exists>nd. h (fst x) = Some nd \<and> iVex nd = fst (snd x) \<and> jVex nd = snd (snd x)"
  by (induction es arbitrary: p) (auto split: option.splits)

lemma edge_chain_mid:
  "edge_chain h i p (pre @ x # post) \<Longrightarrow>
     \<exists>nd. h (fst x) = Some nd \<and> iVex nd = fst (snd x) \<and> jVex nd = snd (snd x) \<and> getNextEdge nd i = head_of post \<and> edge_chain h i (head_of post) post"
proof (induction pre arbitrary: p)
  case Nil
  then show ?case using edge_chain_head by (auto split: option.splits)
next
  case (Cons y pre)
  then show ?case by (auto split: option.splits)
qed

lemma set_link_fields [simp]: "iVex (set_link nd i q) = iVex nd" "jVex (set_link nd i q) = jVex nd" "getNextEdge (set_link nd i q) i = q"
  by (auto simp: set_link_def getNextEdge_def)

lemma set_link_other: "i \<noteq> k \<Longrightarrow> iVex nd = i \<or> jVex nd = i \<Longrightarrow> iVex nd = k \<or> jVex nd = k \<Longrightarrow> getNextEdge (set_link nd i q) k = getNextEdge nd k"
  by (auto simp: set_link_def getNextEdge_def)

lemma edge_chain_unlink:
  assumes "edge_chain h i p (pre @ x # post)" "distinct (map fst (pre @ x # post))" "pre \<noteq> []" "h (fst (last pre)) = Some pn"
  shows "edge_chain (h(fst (last pre) \<mapsto> set_link pn i (head_of post))) i p (pre @ post)"
  using assms
proof (induction pre arbitrary: p)
  case (Cons y pre)
  let ?h = "h(fst (last (y # pre)) \<mapsto> set_link pn i (head_of post))"
  obtain n where n: "p = Some (fst y)" "h (fst y) = Some n" "iVex n = fst (snd y)" "jVex n = snd (snd y)"
      "edge_chain h i (getNextEdge n i) (pre @ x # post)"
    using Cons.prems(1) by (auto split: option.splits)
  show ?case
  proof (cases "pre = []")
    case True
    have "edge_chain ?h i (head_of post) post = edge_chain h i (head_of post) post"
    proof (rule edge_chain_frame)
      fix z assume "z \<in> set post"
      then have "fst z \<in> fst ` set post" by simp
      moreover have "fst y \<notin> fst ` set post" using Cons.prems(2) True by simp
      ultimately have "fst z \<noteq> fst y" by metis
      then show "?h (fst z) = h (fst z)" using True by simp
    qed
    then have "edge_chain ?h i (head_of post) post" using edge_chain_mid [OF Cons.prems(1)] by blast
    then show ?thesis using n True Cons.prems(4) by (simp del: fun_upd_apply) simp
  next
    case False
    have "fst (last pre) \<in> fst ` set pre" using False by simp
    moreover have "fst y \<notin> fst ` set pre" using Cons.prems(2) by simp
    ultimately have ne: "fst (last pre) \<noteq> fst y" by metis
    have "edge_chain (h(fst (last pre) \<mapsto> set_link pn i (head_of post))) i (getNextEdge n i) (pre @ post)"
      by (rule Cons.IH [OF n(5)]) (use Cons.prems False in auto)
    then show ?thesis using n False ne by (simp del: fun_upd_apply) simp
  qed
qed simp

lemma find_edge_chain:
  "edge_chain h i p es \<Longrightarrow> find_edge h i j p
     = Some (case filter (\<lambda>x. {fst (snd x), snd (snd x)} = {i, j}) es of [] \<Rightarrow> None | x # _ \<Rightarrow> Some (fst x))"
proof (induction es arbitrary: p)
  case Nil
  then show ?case by (simp add: find_edge.simps)
next
  case (Cons x es)
  then show ?case by (subst find_edge.simps) (auto simp: doubleton_eq_iff split: option.splits)
qed

section \<open>Representation\<close>

text \<open>
  The lists \<open>C k\<close> of all vertices, each holding edges of its vertex only, each address once.
\<close>

definition u_chains :: "'v AMLGraph \<Rightarrow> (nat \<Rightarrow> edge list) \<Rightarrow> bool" where
  "u_chains g C \<longleftrightarrow> length (adjMultiList g) = maxVertexNum \<and> u_vexNum g \<le> maxVertexNum
     \<and> (\<forall>k<u_vexNum g. edge_chain (estore g) k (firstEdge (adjMultiList g ! k)) (C k) \<and> distinct (map fst (C k)) \<and> (\<forall>x\<in>set (C k). inc k x))"

lemma chainsD:
  assumes "u_chains g C" "k < u_vexNum g"
  shows "edge_chain (estore g) k (firstEdge (adjMultiList g ! k)) (C k)" "distinct (map fst (C k))" "\<forall>x\<in>set (C k). inc k x"
    "k < length (adjMultiList g)"
  using assms by (simp_all add: u_chains_def)

text \<open>What taking an edge out of one list leaves alone.\<close>

definition same_ends :: "'v AMLGraph \<Rightarrow> 'v AMLGraph \<Rightarrow> bool" where
  "same_ends g g' \<longleftrightarrow> u_vexNum g' = u_vexNum g \<and> edgeNum g' = edgeNum g \<and> map u_data (adjMultiList g') = map u_data (adjMultiList g)
     \<and> dom (estore g') = dom (estore g)"

lemma removeEdge_loop_chains:
  assumes "u_chains g C" "i < u_vexNum g" "C i = pre @ post"
  shows "\<exists>g'. removeEdge_loop g i a (tail_of pre) (head_of post) = Some g' \<and> same_ends g g'
    \<and> u_chains g' (C(i := pre @ filter (\<lambda>x. fst x \<noteq> a) post))"
  using assms(3)
proof (induction post arbitrary: pre)
  case Nil
  then have "C(i := pre) = C" by auto
  then show ?case using assms(1) by (subst removeEdge_loop.simps) (simp add: same_ends_def)
next
  case (Cons x post)
  have ch: "edge_chain (estore g) i (firstEdge (adjMultiList g ! i)) (pre @ x # post)" "distinct (map fst (pre @ x # post))"
      "\<forall>y\<in>set (pre @ x # post). inc i y" and il: "i < length (adjMultiList g)"
    using chainsD [OF assms(1,2)] Cons.prems by simp_all
  obtain nd where nd: "estore g (fst x) = Some nd" "getNextEdge nd i = head_of post" "edge_chain (estore g) i (head_of post) post"
    using edge_chain_mid [OF ch(1)] by blast
  show ?case
  proof (cases "fst x = a")
    case False
    have "\<exists>g'. removeEdge_loop g i a (tail_of (pre @ [x])) (head_of post) = Some g' \<and> same_ends g g'
      \<and> u_chains g' (C(i := (pre @ [x]) @ filter (\<lambda>x. fst x \<noteq> a) post))"
      by (rule Cons.IH) (simp add: Cons.prems)
    then show ?thesis using False nd by (subst removeEdge_loop.simps) simp
  next
    case True
    have post: "filter (\<lambda>y. fst y \<noteq> a) post = post" by (rule filter_fst) (use ch(2) True in simp)
    show ?thesis
    proof (cases "pre = []")
      case pre: True
      let ?g = "g\<lparr>adjMultiList := (adjMultiList g)[i := (adjMultiList g ! i)\<lparr>firstEdge := head_of post\<rparr>]\<rparr>"
      have "removeEdge_loop g i a (tail_of pre) (head_of (x # post)) = Some ?g"
        using True pre nd il by (subst removeEdge_loop.simps) simp
      moreover have "u_chains ?g (C(i := post))"
        using assms(1) nd(3) ch(2,3) pre il by (auto simp: u_chains_def nth_list_update)
      moreover have "map u_data (adjMultiList ?g) = map u_data (adjMultiList g)"
        by (rule nth_equalityI) (use il in \<open>auto simp: nth_list_update\<close>)
      ultimately show ?thesis using post pre True by (intro exI [of _ ?g]) (simp add: same_ends_def del: fun_upd_apply)
    next
      case pre: False
      let ?p = "fst (last pre)"
      have lp: "last pre \<in> set pre" using pre by simp
      then obtain pn where pn: "estore g ?p = Some pn" "iVex pn = fst (snd (last pre))" "jVex pn = snd (snd (last pre))"
        using edge_chain_node [OF ch(1), of "last pre"] by auto
      have pinc: "iVex pn = i \<or> jVex pn = i" using ch(3) lp pn by (auto simp: inc_def)
      let ?g = "g\<lparr>estore := (estore g)(?p \<mapsto> set_link pn i (head_of post))\<rparr>"
      have "removeEdge_loop g i a (tail_of pre) (head_of (x # post)) = Some ?g"
        using True pre nd pn by (subst removeEdge_loop.simps) (simp add: tail_of_def)
      moreover have "u_chains ?g (C(i := pre @ post))"
      proof -
        have "edge_chain (estore ?g) k (firstEdge (adjMultiList g ! k)) (C k)" if k: "k < u_vexNum g" "k \<noteq> i" for k
        proof (rule edge_chain_cong [where h = "estore g"])
          show "edge_chain (estore g) k (firstEdge (adjMultiList g ! k)) (C k)" using assms(1) k by (simp add: u_chains_def)
          fix y n assume y: "y \<in> set (C k)" "estore g (fst y) = Some n"
          have "iVex n = k \<or> jVex n = k"
            using edge_chain_node [OF chainsD(1) [OF assms(1) k(1)] y(1)] chainsD(3) [OF assms(1) k(1)] y by (auto simp: inc_def)
          then show "\<exists>n'. estore ?g (fst y) = Some n' \<and> iVex n' = iVex n \<and> jVex n' = jVex n \<and> getNextEdge n' k = getNextEdge n k"
            using y(2) pn(1) pinc k(2) set_link_other [of i k pn "head_of post"] by auto
        qed
        moreover have "edge_chain (estore ?g) i (firstEdge (adjMultiList g ! i)) (pre @ post)"
          using edge_chain_unlink [OF ch(1,2) pre pn(1)] by simp
        ultimately show ?thesis using assms(1) ch(2,3) by (auto simp: u_chains_def)
      qed
      moreover have "dom (estore ?g) = dom (estore g)" using pn(1) by auto
      ultimately show ?thesis using post True by (intro exI [of _ ?g]) (simp add: same_ends_def del: fun_upd_apply dom_fun_upd)
    qed
  qed
qed

lemma removeEdgeFromList_chains:
  assumes "u_chains g C" "i < u_vexNum g"
  shows "\<exists>g'. removeEdgeFromList g i a = Some g' \<and> same_ends g g' \<and> u_chains g' (C(i := filter (\<lambda>x. fst x \<noteq> a) (C i)))"
proof -
  have "firstEdge (adjMultiList g ! i) = head_of (C i)" "i < length (adjMultiList g)"
    using assms edge_chain_head by (auto simp: u_chains_def)
  then show ?thesis using removeEdge_loop_chains [OF assms, of "[]" "C i" a] by (simp add: removeEdgeFromList_def)
qed

definition ends :: "edge \<Rightarrow> nat set" where
  "ends x = {fst (snd x), snd (snd x)}"

lemma inc_ends: "inc k x \<longleftrightarrow> k \<in> ends x"
  by (auto simp: inc_def ends_def)

text \<open>
  The graph holds the edges \<open>es\<close>, the latest first, between vertices with the data \<open>ds\<close>: the list of a
  vertex is the edges that have it as an end, in that order, and no two edges have the same ends.
\<close>

definition u_rep :: "'v AMLGraph \<Rightarrow> edge list \<Rightarrow> 'v list \<Rightarrow> bool" where
  "u_rep g es ds \<longleftrightarrow> u_chains g (\<lambda>k. filter (inc k) es) \<and> length ds = u_vexNum g \<and> distinct ds
     \<and> (\<forall>k<u_vexNum g. u_data (adjMultiList g ! k) = Some (ds ! k))
     \<and> distinct (map fst es) \<and> dom (estore g) = fst ` set es \<and> (\<forall>x\<in>set es. ends x \<subseteq> {..<u_vexNum g})
     \<and> distinct (map ends es) \<and> edgeNum g = int (length es)"

lemma u_repD:
  assumes "u_rep g es ds"
  shows "u_chains g (\<lambda>k. filter (inc k) es)" "length ds = u_vexNum g" "distinct ds"
    "k < u_vexNum g \<Longrightarrow> u_data (adjMultiList g ! k) = Some (ds ! k)" "distinct (map fst es)" "dom (estore g) = fst ` set es"
    "x \<in> set es \<Longrightarrow> ends x \<subseteq> {..<u_vexNum g}" "distinct (map ends es)" "edgeNum g = int (length es)"
    "length (adjMultiList g) = maxVertexNum" "u_vexNum g \<le> maxVertexNum"
  using assms by (simp_all add: u_rep_def u_chains_def)

lemma u_rep_first: "u_rep g es ds \<Longrightarrow> k < u_vexNum g \<Longrightarrow> firstEdge (adjMultiList g ! k) = head_of (filter (inc k) es)"
  using edge_chain_head [OF chainsD(1) [OF u_repD(1)]] by blast

lemma same_data:
  assumes "map u_data xs = map u_data ys" "k < length ys"
  shows "u_data (xs ! k) = u_data (ys ! k)"
  using assms by (metis length_map nth_map)

lemma ends_distinct: "distinct (map ends es) \<Longrightarrow> x \<in> set es \<Longrightarrow> y \<in> set es \<Longrightarrow> ends x = ends y \<Longrightarrow> x = y"
  by (simp add: distinct_map inj_on_def)

lemma fst_distinct: "distinct (map fst es) \<Longrightarrow> x \<in> set es \<Longrightarrow> y \<in> set es \<Longrightarrow> fst x = fst y \<Longrightarrow> x = y"
  by (simp add: distinct_map inj_on_def)

lemma delete_edge_rep:
  assumes rep: "u_rep g es ds" and x: "x \<in> set es" "ends x = {i, j}"
  shows "\<exists>g1 g2. removeEdgeFromList g i (fst x) = Some g1 \<and> removeEdgeFromList g1 j (fst x) = Some g2
    \<and> u_vexNum g2 = u_vexNum g
    \<and> u_rep (g2\<lparr>estore := (estore g2)(fst x := None), edgeNum := edgeNum g2 - 1\<rparr>) (filter (\<lambda>y. fst y \<noteq> fst x) es) ds"
proof -
  note r = u_repD [OF rep]
  let ?C = "\<lambda>k. filter (inc k) es" and ?P = "\<lambda>y :: edge. fst y \<noteq> fst x"
  have ij: "i < u_vexNum g" "j < u_vexNum g" using r(7) [OF x(1)] x(2) by auto
  obtain g1 where g1: "removeEdgeFromList g i (fst x) = Some g1" "same_ends g g1" "u_chains g1 (?C(i := filter ?P (?C i)))"
    using removeEdgeFromList_chains [OF r(1) ij(1)] by blast
  have j1: "j < u_vexNum g1" using g1(2) ij by (simp add: same_ends_def)
  let ?C1 = "?C(i := filter ?P (?C i))"
  obtain g2 where g2: "removeEdgeFromList g1 j (fst x) = Some g2" "same_ends g1 g2" "u_chains g2 (?C1(j := filter ?P (?C1 j)))"
    using removeEdgeFromList_chains [OF g1(3) j1] by blast
  have n: "u_vexNum g2 = u_vexNum g" "edgeNum g2 = edgeNum g" "map u_data (adjMultiList g2) = map u_data (adjMultiList g)" "dom (estore g2) = dom (estore g)"
    using g1(2) g2(2) by (simp_all add: same_ends_def)
  have C: "(?C1(j := filter ?P (?C1 j))) k = filter (inc k) (filter ?P es)" for k
  proof (cases "k = i \<or> k = j")
    case True
    then show ?thesis by (auto intro!: filter_cong)
  next
    case False
    then have "\<not> inc k x" using x(2) by (simp add: inc_ends)
    then have "y \<in> set es \<Longrightarrow> inc k y \<Longrightarrow> fst y \<noteq> fst x" for y using fst_distinct [OF r(5) x(1)] by metis
    then have "filter (inc k) es = filter (inc k) (filter ?P es)" by (auto intro: filter_cong)
    then show ?thesis using False by simp
  qed
  let ?g = "g2\<lparr>estore := (estore g2)(fst x := None), edgeNum := edgeNum g2 - 1\<rparr>"
  have "u_chains ?g (\<lambda>k. filter (inc k) (filter ?P es))"
  proof -
    have "edge_chain ((estore g2)(fst x := None)) k p (filter (inc k) (filter ?P es)) = edge_chain (estore g2) k p (filter (inc k) (filter ?P es))" for k p
      by (rule edge_chain_frame) auto
    then show ?thesis using g2(3) unfolding u_chains_def C by simp
  qed
  moreover have "int (length (filter ?P es)) = int (length es) - 1"
  proof -
    have "length (filter ?P es) + length (filter (\<lambda>y. \<not> ?P y) es) = length es" by (rule sum_length_filter_compl)
    moreover have "filter (\<lambda>y. \<not> ?P y) es = filter (\<lambda>y. y = x) es" using fst_distinct [OF r(5) _ x(1)] by (auto intro: filter_cong)
    moreover have "length (filter (\<lambda>y. y = x) es) = 1"
    proof -
      obtain ys zs where "es = ys @ x # zs" using split_list [OF x(1)] by blast
      moreover have "distinct es" using r(5) by (simp add: distinct_map)
      ultimately show ?thesis by (auto simp: filter_empty_conv)
    qed
    ultimately have "length (filter ?P es) + 1 = length es" by (simp only:)
    then show ?thesis by linarith
  qed
  moreover have "u_data (adjMultiList g2 ! k) = Some (ds ! k)" if "k < u_vexNum g" for k
    using r(4) [OF that] same_data [OF n(3), of k] that r(10,11) by simp
  moreover have "dom ((estore g2)(fst x := None)) = fst ` set (filter ?P es)" using n(4) r(6) by auto
  ultimately have "u_rep ?g (filter ?P es) ds"
    using r n unfolding u_rep_def by (simp add: distinct_map_filter del: dom_fun_upd)
  then show ?thesis using g1(1) g2(1) n(1) by blast
qed

lemma u_locateVertex_rep:
  assumes "compare_linear cmp" "u_rep g es ds"
  shows "(\<exists>k<u_vexNum g. ds ! k = v \<and> u_locateVertex cmp g (Some v) = Some (int k)) \<or> v \<notin> set ds \<and> u_locateVertex cmp g (Some v) = Some (- 1)"
proof -
  note r = u_repD [OF assms(2)]
  have d: "data_at (map u_data (adjMultiList g)) k = Some (ds ! k)" if "0 \<le> k" "k < 0 + u_vexNum g" for k
    using that r(4,10,11) by simp
  note eq = compare_linear.cmp_eq [OF assms(1)]
  show ?thesis using locate_cases [of 0 "u_vexNum g" "map u_data (adjMultiList g)" "\<lambda>k. ds ! k" cmp v, OF d] r(2)
    by (auto simp: u_locateVertex_def eq in_set_conv_nth)
qed

lemma u_locateVertex_cases:
  assumes "compare_linear cmp" "u_rep g es ds"
  obtains k where "k < u_vexNum g" "ds ! k = v" "u_locateVertex cmp g (Some v) = Some (int k)" "v \<in> set ds"
  | "v \<notin> set ds" "u_locateVertex cmp g (Some v) = Some (- 1)"
  using u_locateVertex_rep [OF assms, of v] u_repD(2) [OF assms(2)] by (metis nth_mem)

lemma u_locateVertex_nth:
  assumes "compare_linear cmp" "u_rep g es ds" "k < u_vexNum g"
  shows "u_locateVertex cmp g (Some (ds ! k)) = Some (int k)"
  using u_locateVertex_rep [OF assms(1,2), of "ds ! k"] u_repD(2,3) [OF assms(2)] assms(3) by (auto simp: nth_eq_iff_index_eq)

lemma u_create_rep: "u_rep u_create [] []"
  by (simp add: u_rep_def u_create_def u_chains_def)

lemma u_addVertex_rep:
  assumes "compare_linear cmp" "u_rep g es ds"
  shows "\<exists>g'. u_addVertex cmp g (Some v) = Some (length ds < maxVertexNum \<and> v \<notin> set ds, g')
    \<and> (if length ds < maxVertexNum \<and> v \<notin> set ds then u_rep g' es (ds @ [v]) else g' = g)"
proof (cases "length ds < maxVertexNum \<and> v \<notin> set ds")
  case True
  note r = u_repD [OF assms(2)]
  have n: "u_vexNum g < length (adjMultiList g)" using True r(2,10) by simp
  let ?g = "g\<lparr>adjMultiList := (adjMultiList g)[u_vexNum g := \<lparr>firstEdge = None, u_data = Some v\<rparr>], u_vexNum := u_vexNum g + 1\<rparr>"
  have "u_addVertex cmp g (Some v) = Some (True, ?g)"
    using True n r(2) u_locateVertex_rep [OF assms, of v] by (auto simp: u_addVertex_def)
  moreover have "u_rep ?g es (ds @ [v])"
  proof -
    have "filter (inc (u_vexNum g)) es = []" using r(7) by (auto simp: filter_empty_conv inc_ends)
    then have "u_chains ?g (\<lambda>k. filter (inc k) es)" using r(1) n True r(2) by (auto simp: u_chains_def nth_list_update less_Suc_eq)
    moreover have "ends x \<subseteq> {..<u_vexNum ?g}" if "x \<in> set es" for x using r(7) [OF that] by auto
    moreover have "u_data (adjMultiList ?g ! k) = Some ((ds @ [v]) ! k)" if "k < u_vexNum ?g" for k
      using that r(2,4) n by (auto simp: nth_append nth_list_update less_Suc_eq)
    ultimately show ?thesis using r(2,3,5,6,8,9) True unfolding u_rep_def by simp
  qed
  ultimately show ?thesis using True by simp
next
  case False
  then show ?thesis using u_locateVertex_rep [OF assms, of v] u_repD(2) [OF assms(2)] by (auto simp: u_addVertex_def)
qed

lemma link_edge_rep:
  assumes rep: "u_rep g es ds" and ij: "i < u_vexNum g" "j < u_vexNum g" and new: "estore g a = None" "{i, j} \<notin> ends ` set es"
  obtains g' where "link_edge g a i j = Some g'" "u_rep g' ((a, i, j) # es) ds"
proof -
  note r = u_repD [OF rep]
  have il: "i < length (adjMultiList g)" "j < length (adjMultiList g)" using r(10,11) ij by auto
  let ?xs = "(adjMultiList g)[i := (adjMultiList g ! i)\<lparr>firstEdge := Some a\<rparr>]"
  let ?ys = "?xs[j := (?xs ! j)\<lparr>firstEdge := Some a\<rparr>]"
  let ?nd = "\<lparr>iVex = i, jVex = j, iLink = firstEdge (adjMultiList g ! i), jLink = firstEdge (?xs ! j)\<rparr>"
  let ?g = "g\<lparr>estore := (estore g)(a \<mapsto> ?nd), adjMultiList := ?ys, edgeNum := edgeNum g + 1\<rparr>"
  let ?e = "(a, i, j)"
  have "link_edge g a i j = Some ?g" using il by (simp add: link_edge_def Let_def)
  moreover have "u_rep ?g (?e # es) ds"
  proof -
    have a: "a \<notin> fst ` set es" using r(6) new(1) by blast
    have ys: "u_data (?ys ! k) = u_data (adjMultiList g ! k)" "firstEdge (?ys ! k) = (if inc k ?e then Some a else firstEdge (adjMultiList g ! k))"
      if "k < u_vexNum g" for k using that il r(10,11) by (auto simp: nth_list_update inc_def)
    have chain: "edge_chain ((estore g)(a \<mapsto> ?nd)) k (firstEdge (?ys ! k)) (filter (inc k) (?e # es))" if k: "k < u_vexNum g" for k
    proof -
      have fr: "edge_chain ((estore g)(a \<mapsto> ?nd)) k p (filter (inc k) es) = edge_chain (estore g) k p (filter (inc k) es)" for p
      proof (rule edge_chain_frame)
        fix x assume "x \<in> set (filter (inc k) es)"
        then have "fst x \<in> fst ` set es" by simp
        then have "fst x \<noteq> a" using a by metis
        then show "((estore g)(a \<mapsto> ?nd)) (fst x) = estore g (fst x)" by simp
      qed
      have nx: "getNextEdge ?nd k = firstEdge (adjMultiList g ! k)" if "inc k ?e"
        using that il by (auto simp: getNextEdge_def inc_def nth_list_update)
      show ?thesis using fr chainsD(1) [OF r(1) k] ys(2) [OF k] nx by (cases "inc k ?e") (auto simp del: fun_upd_apply, auto)
    qed
    have "distinct (map fst (filter (inc k) (?e # es)))" for k using r(5) a by (auto simp: distinct_map_filter)
    then have "u_chains ?g (\<lambda>k. filter (inc k) (?e # es))" using chain r(10,11) unfolding u_chains_def by simp
    moreover have "ends x \<subseteq> {..<u_vexNum ?g}" if "x \<in> set (?e # es)" for x
      using that r(7) ij by (cases "x = ?e") (auto simp: ends_def [of ?e])
    moreover have "distinct (map ends (?e # es))" using r(8) new(2) by (simp add: ends_def)
    moreover have "dom (estore ?g) = fst ` set (?e # es)" using r(6) by simp
    moreover have "distinct (map fst (?e # es))" using r(5) a by simp
    ultimately show ?thesis using r(2-4,9) ys(1) unfolding u_rep_def by simp
  qed
  ultimately show thesis using that by blast
qed

lemma ends_head:
  assumes "u_rep g es ds" "i < u_vexNum g"
  shows "find_edge (estore g) i j (firstEdge (adjMultiList g ! i))
     = Some (case filter (\<lambda>x. ends x = {i, j}) es of [] \<Rightarrow> None | x # _ \<Rightarrow> Some (fst x))"
proof -
  have "filter (\<lambda>x. {fst (snd x), snd (snd x)} = {i, j}) (filter (inc i) es) = filter (\<lambda>x. ends x = {i, j}) es"
    by (auto simp: inc_ends ends_def intro!: filter_cong)
  then show ?thesis using find_edge_chain [OF chainsD(1) [OF u_repD(1) [OF assms(1)] assms(2)], of j] by simp
qed

lemma u_deleteEdge_rep:
  assumes "compare_linear cmp" "u_rep g es ds" "i < u_vexNum g" "j < u_vexNum g"
  shows "\<exists>g'. u_deleteEdge cmp g (Some (ds ! i)) (Some (ds ! j)) = Some ({i, j} \<in> ends ` set es, g') \<and> u_vexNum g' = u_vexNum g
    \<and> u_rep g' (filter (\<lambda>x. ends x \<noteq> {i, j}) es) ds"
proof -
  note r = u_repD [OF assms(2)]
  have il: "i < length (adjMultiList g)" using r(10,11) assms(3) by simp
  note loc = u_locateVertex_nth [OF assms(1,2)]
  show ?thesis
  proof (cases "filter (\<lambda>x. ends x = {i, j}) es")
    case Nil
    then have "filter (\<lambda>x. ends x \<noteq> {i, j}) es = es" "{i, j} \<notin> ends ` set es" by (auto simp: filter_empty_conv filter_id_conv)
    then show ?thesis using ends_head [OF assms(2,3), of j] Nil loc assms il by (simp add: u_deleteEdge_def)
  next
    case (Cons x xs)
    then have x: "x \<in> set es" "ends x = {i, j}" by (auto simp: filter_eq_Cons_iff)
    then have mem: "{i, j} \<in> ends ` set es" by (metis imageI)
    have "filter (\<lambda>y. fst y \<noteq> fst x) es = filter (\<lambda>y. ends y \<noteq> {i, j}) es"
    proof (rule filter_cong [OF refl])
      fix y assume "y \<in> set es"
      then show "(fst y \<noteq> fst x) = (ends y \<noteq> {i, j})" using ends_distinct [OF r(8), of x y] fst_distinct [OF r(5), of x y] x by metis
    qed
    then show ?thesis using delete_edge_rep [OF assms(2) x] ends_head [OF assms(2,3), of j] Cons loc assms il mem
      by (auto simp: u_deleteEdge_def)
  qed
qed

lemma delete_edges_rep:
  assumes "compare_linear cmp" "u_rep g es ds" "i < u_vexNum g"
  shows "\<exists>g'. delete_edges cmp (Some (ds ! i)) i g (head_of (filter (inc i) es)) = Some g' \<and> u_vexNum g' = u_vexNum g
    \<and> u_rep g' (filter (\<lambda>x. \<not> inc i x) es) ds"
  using assms(2,3)
proof (induction "length (filter (inc i) es)" arbitrary: g es rule: less_induct)
  case less
  note r = u_repD [OF less.prems(1)]
  show ?case
  proof (cases "filter (inc i) es")
    case Nil
    then have "filter (\<lambda>x. \<not> inc i x) es = es" by (auto simp: filter_empty_conv filter_id_conv)
    then show ?thesis using Nil less.prems by (subst delete_edges.simps) simp
  next
    case (Cons x xs)
    then have x: "x \<in> set es" "inc i x" by (auto simp: filter_eq_Cons_iff)
    obtain nd where nd: "estore g (fst x) = Some nd" "iVex nd = fst (snd x)" "jVex nd = snd (snd x)"
      using edge_chain_node [OF chainsD(1) [OF r(1) less.prems(2)], of x] Cons by auto
    let ?o = "if iVex nd = i then jVex nd else iVex nd"
    have e: "ends x = {i, ?o}" using x(2) nd by (auto simp: inc_def ends_def)
    then have o: "?o < u_vexNum g" using r(7) [OF x(1)] by auto
    let ?es = "filter (\<lambda>y. ends y \<noteq> {i, ?o}) es"
    obtain b g1 where g1: "u_deleteEdge cmp g (Some (ds ! i)) (Some (ds ! ?o)) = Some (b, g1)" "u_vexNum g1 = u_vexNum g" "u_rep g1 ?es ds"
      using u_deleteEdge_rep [OF assms(1) less.prems o] by blast
    have "length (filter (inc i) ?es) < length (filter (inc i) es)"
    proof -
      have "filter (inc i) ?es = filter (\<lambda>y. ends y \<noteq> {i, ?o}) (filter (inc i) es)" by (simp add: conj_commute)
      moreover have "x \<in> set (filter (inc i) es)" using x by simp
      ultimately show ?thesis using length_filter_less [of x "filter (inc i) es" "\<lambda>y. ends y \<noteq> {i, ?o}"] e by simp
    qed
    from less.hyps [OF this g1(3)] g1(2) less.prems(2) obtain g2 where g2:
      "delete_edges cmp (Some (ds ! i)) i g1 (head_of (filter (inc i) ?es)) = Some g2" "u_vexNum g2 = u_vexNum g"
      "u_rep g2 (filter (\<lambda>x. \<not> inc i x) ?es) ds" by auto
    have "filter (\<lambda>x. \<not> inc i x) ?es = filter (\<lambda>x. \<not> inc i x) es" by (auto simp: inc_ends intro!: filter_cong)
    moreover have "rd (adjMultiList g) ?o = Some (adjMultiList g ! ?o)" "u_data (adjMultiList g ! ?o) = Some (ds ! ?o)" using o r(4,10,11) by auto
    moreover have "rd (adjMultiList g1) i = Some (adjMultiList g1 ! i)" "firstEdge (adjMultiList g1 ! i) = head_of (filter (inc i) ?es)"
      using u_repD(10,11) [OF g1(3)] u_rep_first [OF g1(3)] g1(2) less.prems(2) by auto
    ultimately show ?thesis using g2 g1(1) nd(1) Cons by (subst delete_edges.simps) simp
  qed
qed

section \<open>Renaming the last vertex\<close>

definition move :: "nat \<Rightarrow> nat \<Rightarrow> nat \<Rightarrow> nat" where
  "move lst index v = (if v = lst then index else v)"

definition move_node :: "nat \<Rightarrow> nat \<Rightarrow> EdgeNode \<Rightarrow> EdgeNode" where
  "move_node lst index nd = nd\<lparr>iVex := move lst index (iVex nd), jVex := move lst index (jVex nd)\<rparr>"

definition move_edge :: "nat \<Rightarrow> nat \<Rightarrow> edge \<Rightarrow> edge" where
  "move_edge lst index x = (fst x, move lst index (fst (snd x)), move lst index (snd (snd x)))"

text \<open>The store in which the nodes at the addresses \<open>D\<close> are renamed.\<close>

definition moved :: "nat \<Rightarrow> nat \<Rightarrow> (nat \<rightharpoonup> EdgeNode) \<Rightarrow> nat set \<Rightarrow> (nat \<rightharpoonup> EdgeNode)" where
  "moved lst index h D = (\<lambda>b. if b \<in> D then map_option (move_node lst index) (h b) else h b)"

text \<open>The vertex whose list is found at index \<open>k\<close> after the last vertex was copied.\<close>

definition origin :: "nat \<Rightarrow> nat \<Rightarrow> nat \<Rightarrow> nat" where
  "origin lst index k = (if k = index then lst else k)"

lemma move_node_fields [simp]:
  "iVex (move_node lst index nd) = move lst index (iVex nd)" "jVex (move_node lst index nd) = move lst index (jVex nd)"
  "iLink (move_node lst index nd) = iLink nd" "jLink (move_node lst index nd) = jLink nd"
  by (simp_all add: move_node_def)

lemma move_node_next:
  assumes "k \<noteq> lst" "iVex nd \<noteq> index"
  shows "getNextEdge (move_node lst index nd) k = getNextEdge nd (origin lst index k)"
  using assms by (auto simp: getNextEdge_def origin_def move_def)

lemma rename_step:
  assumes "index \<noteq> lst" "h a = Some nd"
  shows "rename_edges lst index i (moved lst index h D) (Some a) = rename_edges lst index i (moved lst index h (insert a D)) (getNextEdge (move_node lst index nd) i)"
proof -
  let ?s = "\<lambda>nd. if iVex nd = lst then nd\<lparr>iVex := index\<rparr> else nd" and ?t = "\<lambda>nd. if jVex nd = lst then nd\<lparr>jVex := index\<rparr> else nd"
  have st: "?t (?s n) = move_node lst index n" for n by (simp add: move_node_def move_def)
  have idem: "move_node lst index (move_node lst index n) = move_node lst index n" for n
    using assms(1) by (simp add: move_node_def move_def)
  obtain n where n: "moved lst index h D a = Some n" "move_node lst index n = move_node lst index nd"
    using assms(2) idem by (cases "a \<in> D") (auto simp: moved_def)
  have "(moved lst index h D)(a \<mapsto> move_node lst index nd) = moved lst index h (insert a D)"
    using assms(2) by (auto simp: moved_def fun_eq_iff)
  then show ?thesis using n st [of n] by (subst rename_edges.simps) (simp add: Let_def)
qed

lemma rename_edges_chain:
  assumes "index \<noteq> lst" "i \<noteq> lst" "edge_chain h (origin lst index i) p L" "\<And>x. x \<in> set L \<Longrightarrow> \<not> inc index x"
  shows "rename_edges lst index i (moved lst index h D) p = Some (moved lst index h (D \<union> fst ` set L))"
  using assms(3,4)
proof (induction L arbitrary: p D)
  case Nil
  then show ?case by (simp add: rename_edges.simps)
next
  case (Cons x L)
  obtain nd where nd: "p = Some (fst x)" "h (fst x) = Some nd" "iVex nd = fst (snd x)" "edge_chain h (origin lst index i) (getNextEdge nd (origin lst index i)) L"
    using Cons.prems(1) by (auto split: option.splits)
  have "iVex nd \<noteq> index" using Cons.prems(2) [of x] nd(3) by (auto simp: inc_def)
  then show ?case using Cons.IH [OF nd(4), of "insert (fst x) D"] Cons.prems(2) rename_step [of index lst h "fst x" nd i D, OF assms(1) nd(2)] move_node_next [OF assms(2)] nd(1)
    by simp
qed

text \<open>
  The walk over the slot the last vertex was copied from: every edge is renamed already, so it follows the
  links of the second ends. They lead to older edges, unless an edge is a loop.
\<close>

lemma rename_stale:
  assumes "index \<noteq> lst" "es = pre @ x # post" "\<And>y. y \<in> set es \<Longrightarrow> fst (snd y) \<noteq> snd (snd y)"
    and "\<And>y. y \<in> set es \<Longrightarrow> edge_chain h (snd (snd y)) (first (snd (snd y))) (filter (inc (snd (snd y))) es)"
  shows "rename_edges lst index lst (moved lst index h UNIV) (Some (fst x)) = Some (moved lst index h UNIV)"
  using assms(2)
proof (induction "length post" arbitrary: pre x post rule: less_induct)
  case less
  let ?c = "snd (snd x)"
  have x: "x \<in> set es" using less.prems by simp
  have "filter (inc ?c) es = filter (inc ?c) pre @ x # filter (inc ?c) post" using less.prems by (simp add: inc_def)
  then obtain nd where nd: "h (fst x) = Some nd" "iVex nd = fst (snd x)" "jVex nd = ?c" "getNextEdge nd ?c = head_of (filter (inc ?c) post)"
    using edge_chain_mid assms(4) [OF x] by metis
  then have "jLink nd = head_of (filter (inc ?c) post)" using assms(3) [OF x] by (simp add: getNextEdge_def)
  moreover have "getNextEdge (move_node lst index nd) lst = jLink nd" using assms(1) by (simp add: getNextEdge_def move_def)
  ultimately have step: "rename_edges lst index lst (moved lst index h UNIV) (Some (fst x))
      = rename_edges lst index lst (moved lst index h UNIV) (head_of (filter (inc ?c) post))"
    using rename_step [of index lst h "fst x" nd lst UNIV, OF assms(1) nd(1)] by simp
  show ?case
  proof (cases "filter (inc ?c) post")
    case Nil
    then show ?thesis unfolding step by (simp add: rename_edges.simps)
  next
    case (Cons y ys)
    then have "y \<in> set post" by (auto simp: filter_eq_Cons_iff)
    then obtain us vs where "post = us @ y # vs" using split_list by metis
    then show ?thesis unfolding step Cons using less.hyps [of vs "pre @ x # us" y] less.prems by simp
  qed
qed

lemma rename_from_add: "rename_from lst index i (m + n) g = Option.bind (rename_from lst index i m g) (rename_from lst index (i + m) n)"
  by (induction m arbitrary: i g) (simp_all add: Option.bind_assoc)

lemma rename_from_vexNum: "rename_from lst index i n g = Some g' \<Longrightarrow> u_vexNum g' = u_vexNum g"
  by (induction n arbitrary: i g) (fastforce simp: bind_eq_Some_conv)+

lemma rename_from_chains:
  assumes "index \<noteq> lst" "i + m \<le> lst" "lst < length (adjMultiList g)"
    and "\<And>k. k < lst \<Longrightarrow> edge_chain h (origin lst index k) (firstEdge (adjMultiList g ! k)) (K k) \<and> (\<forall>x\<in>set (K k). \<not> inc index x)"
  shows "rename_from lst index i m (g\<lparr>estore := moved lst index h D\<rparr>) = Some (g\<lparr>estore := moved lst index h (D \<union> (\<Union>k\<in>{i..<i + m}. fst ` set (K k)))\<rparr>)"
  using assms(2)
proof (induction m arbitrary: i D)
  case (Suc m)
  have i: "i < lst" using Suc.prems by simp
  have "rename_edges lst index i (moved lst index h D) (firstEdge (adjMultiList g ! i)) = Some (moved lst index h (D \<union> fst ` set (K i)))"
    by (rule rename_edges_chain) (use assms(1,4) i in auto)
  moreover have "rename_from lst index (i + 1) m (g\<lparr>estore := moved lst index h (D \<union> fst ` set (K i))\<rparr>)
      = Some (g\<lparr>estore := moved lst index h ((D \<union> fst ` set (K i)) \<union> (\<Union>k\<in>{i + 1..<i + 1 + m}. fst ` set (K k)))\<rparr>)"
    by (rule Suc.IH) (use Suc.prems in simp)
  moreover have "{i..<i + Suc m} = insert i {i + 1..<i + 1 + m}" by auto
  ultimately show ?case using i assms(3) by (simp add: Un_assoc)
qed simp

lemma move_chain:
  assumes "edge_chain h (origin lst index k) p L" "k \<noteq> lst" "\<And>x. x \<in> set L \<Longrightarrow> \<not> inc index x"
  shows "edge_chain (moved lst index h UNIV) k p (map (move_edge lst index) L)"
  using assms(1,3)
proof (induction L arbitrary: p)
  case (Cons x L)
  obtain nd where nd: "p = Some (fst x)" "h (fst x) = Some nd" "iVex nd = fst (snd x)" "jVex nd = snd (snd x)"
      "edge_chain h (origin lst index k) (getNextEdge nd (origin lst index k)) L"
    using Cons.prems(1) by (auto split: option.splits)
  have "iVex nd \<noteq> index" using Cons.prems(2) [of x] nd(3) by (auto simp: inc_def)
  then show ?case using Cons.IH [OF nd(5)] Cons.prems(2) move_node_next [OF assms(2)] nd by (simp add: moved_def move_edge_def)
qed simp

lemma ends_move: "ends (move_edge lst index x) = move lst index ` ends x"
  by (simp add: ends_def move_edge_def)

lemma move_inj: "index \<notin> A \<Longrightarrow> inj_on (move lst index) A"
  by (auto simp: inj_on_def move_def)

lemma filter_move:
  assumes "\<And>x. x \<in> set es \<Longrightarrow> \<not> inc index x" "k \<noteq> lst" "index \<noteq> lst"
  shows "filter (inc k) (map (move_edge lst index) es) = map (move_edge lst index) (filter (inc (origin lst index k)) es)"
proof -
  have "inc k (move_edge lst index x) = inc (origin lst index k) x" if "x \<in> set es" for x
    using assms(1) [OF that] assms(2,3) by (auto simp: inc_def move_edge_def move_def origin_def split: if_splits)
  then show ?thesis by (simp add: filter_map comp_def cong: filter_cong)
qed

lemma move_last_rep:
  assumes rep: "u_rep g es ds" and index: "index < lst" "u_vexNum g = lst + 1" "\<And>x. x \<in> set es \<Longrightarrow> \<not> inc index x"
    and no_loop: "\<And>x. x \<in> set es \<Longrightarrow> fst (snd x) \<noteq> snd (snd x)"
  defines "g1 \<equiv> g\<lparr>adjMultiList := (adjMultiList g)[index := adjMultiList g ! lst]\<rparr>"
  shows "\<exists>g'. rename_from lst index 0 (u_vexNum g) g1 = Some g'
    \<and> u_rep (g'\<lparr>u_vexNum := lst\<rparr>) (map (move_edge lst index) es) ((take lst ds)[index := ds ! lst])"
proof -
  note r = u_repD [OF rep]
  let ?h = "estore g" and ?o = "origin lst index" and ?m = "move_edge lst index"
  let ?h' = "moved lst index ?h UNIV"
  have il: "index < length (adjMultiList g)" "lst < length (adjMultiList g)" "index \<noteq> lst" using r(10,11) index by auto
  have adj: "adjMultiList g1 ! k = adjMultiList g ! ?o k" if "k \<le> lst" for k
    using il that by (auto simp: g1_def origin_def nth_list_update)
  have o: "?o k < u_vexNum g" if "k \<le> lst" for k using that index by (auto simp: origin_def)
  have ch: "edge_chain ?h (?o k) (firstEdge (adjMultiList g1 ! k)) (filter (inc (?o k)) es)" if "k \<le> lst" for k
    using chainsD(1) [OF r(1) o [OF that]] adj [OF that] by simp
  have all: "(\<Union>k\<in>{0..<0 + lst}. fst ` set (filter (inc (?o k)) es)) = dom ?h"
  proof -
    have "\<exists>k<lst. inc (?o k) x" if "x \<in> set es" for x
    proof -
      have "fst (snd x) \<noteq> lst \<or> snd (snd x) \<noteq> lst" using no_loop [OF that] by auto
      moreover have "fst (snd x) \<le> lst" "snd (snd x) \<le> lst" using r(7) [OF that] index(2) by (auto simp: ends_def)
      ultimately obtain v where "v < lst" "inc v x" by (auto simp: inc_def le_less)
      moreover have "?o v = v" using index(3) [OF that] \<open>inc v x\<close> by (auto simp: origin_def)
      ultimately show ?thesis by auto
    qed
    then show ?thesis unfolding r(6) by fastforce
  qed
  have h0: "g1 = g1\<lparr>estore := moved lst index ?h {}\<rparr>" by (simp add: moved_def g1_def)
  have full: "moved lst index ?h (dom ?h) = ?h'" by (auto simp: moved_def fun_eq_iff domIff)
  have "rename_from lst index 0 lst (g1\<lparr>estore := moved lst index ?h {}\<rparr>)
      = Some (g1\<lparr>estore := moved lst index ?h ({} \<union> (\<Union>k\<in>{0..<0 + lst}. fst ` set (filter (inc (?o k)) es)))\<rparr>)"
    by (rule rename_from_chains) (use il ch index(3) in \<open>auto simp: g1_def\<close>)
  then have first: "rename_from lst index 0 lst g1 = Some (g1\<lparr>estore := ?h'\<rparr>)" unfolding all full h0 [symmetric] by (simp add: full)
  have stale: "rename_edges lst index lst ?h' (firstEdge (adjMultiList g1 ! lst)) = Some ?h'"
  proof -
    have f: "firstEdge (adjMultiList g1 ! lst) = head_of (filter (inc lst) es)"
      using edge_chain_head [OF ch, of lst] il(3) by (simp add: origin_def)
    show ?thesis
    proof (cases "filter (inc lst) es")
      case Nil
      then show ?thesis unfolding f by (simp add: rename_edges.simps)
    next
      case (Cons x xs)
      then have "x \<in> set es" by (auto simp: filter_eq_Cons_iff)
      then obtain pre post where split: "es = pre @ x # post" using split_list by metis
      have "rename_edges lst index lst ?h' (Some (fst x)) = Some ?h'"
      proof (rule rename_stale [OF il(3) split])
        fix y assume "y \<in> set es"
        then have "snd (snd y) < u_vexNum g" using r(7) by (auto simp: ends_def)
        then show "edge_chain ?h (snd (snd y)) (firstEdge (adjMultiList g ! snd (snd y))) (filter (inc (snd (snd y))) es)"
          using chainsD(1) [OF r(1)] by blast
      qed (use no_loop in blast)
      then show ?thesis unfolding f Cons by simp
    qed
  qed
  have "rename_from lst index 0 (u_vexNum g) g1 = Some (g1\<lparr>estore := ?h'\<rparr>)"
    using rename_from_add [of lst index 0 lst 1 g1] first stale il index(2) by (simp add: g1_def)
  moreover have "u_rep (g1\<lparr>estore := ?h'\<rparr>\<lparr>u_vexNum := lst\<rparr>) (map ?m es) ((take lst ds)[index := ds ! lst])"
  proof -
    let ?g = "g1\<lparr>estore := ?h'\<rparr>\<lparr>u_vexNum := lst\<rparr>" and ?ds = "(take lst ds)[index := ds ! lst]"
    have fsts: "map fst (map ?m es) = map fst es" by (simp add: move_edge_def comp_def)
    have "u_chains ?g (\<lambda>k. filter (inc k) (map ?m es))"
    proof -
      have "edge_chain ?h' k (firstEdge (adjMultiList g1 ! k)) (filter (inc k) (map ?m es))" if "k < lst" for k
        using move_chain [OF ch, of k] that filter_move [of es index k lst] index(3) il(3) by auto
      moreover have "distinct (map fst (filter (inc k) (map ?m es)))" for k by (rule distinct_map_filter) (simp only: fsts r(5))
      ultimately show ?thesis using r(10,11) index(2) by (auto simp: u_chains_def g1_def)
    qed
    moreover have "u_data (adjMultiList ?g ! k) = Some (?ds ! k)" if "k < lst" for k
    proof -
      have "u_data (adjMultiList g1 ! k) = Some (ds ! ?o k)" using adj [of k] r(4) [OF o] that by simp
      moreover have "?ds ! k = ds ! ?o k" using that r(2) index by (auto simp: origin_def nth_list_update)
      ultimately show ?thesis by simp
    qed
    moreover have "distinct ?ds"
    proof -
      have "ds ! lst \<notin> set (take lst ds)" using r(2,3) index(2) by (auto simp: in_set_conv_nth nth_eq_iff_index_eq)
      then show ?thesis using r(3) by (auto simp: distinct_list_update)
    qed
    moreover have "dom ?h' = fst ` set (map ?m es)"
    proof -
      have "dom ?h' = dom ?h" by (auto simp: moved_def)
      then show ?thesis using r(6) by (simp add: image_image move_edge_def)
    qed
    moreover have "ends y \<subseteq> {..<lst}" if y: "y \<in> set (map ?m es)" for y
    proof -
      obtain x where x: "x \<in> set es" "y = ?m x" using y by auto
      then show ?thesis using r(7) [OF x(1)] index by (auto simp: ends_move move_def)
    qed
    moreover have "distinct (map ends (map ?m es))"
    proof -
      have "inj_on ((`) (move lst index)) (set (map ends es))"
      proof (rule inj_onI)
        fix A B assume AB: "A \<in> set (map ends es)" "B \<in> set (map ends es)" "move lst index ` A = move lst index ` B"
        have "inj_on (move lst index) (A \<union> B)" by (rule move_inj) (use AB(1,2) index(3) in \<open>auto simp: inc_ends\<close>)
        then show "A = B" using AB(3) by (simp add: inj_on_Un_image_eq_iff)
      qed
      moreover have "map ends (map ?m es) = map ((`) (move lst index)) (map ends es)" by (simp add: ends_move)
      ultimately show ?thesis using r(8) by (simp only: distinct_map)
    qed
    ultimately show ?thesis using r(2,5,9) index fsts unfolding u_rep_def by (simp add: g1_def del: map_map)
  qed
  ultimately show ?thesis by blast
qed

text \<open>The edges between data.\<close>

definition edges_of :: "edge list \<Rightarrow> 'v list \<Rightarrow> 'v set set" where
  "edges_of es ds = (\<lambda>x. (!) ds ` ends x) ` set es"

definition u_represents :: "'v AMLGraph \<Rightarrow> 'v set \<Rightarrow> 'v set set \<Rightarrow> bool" where
  "u_represents g V E \<longleftrightarrow> (\<exists>es ds. u_rep g es ds \<and> V = set ds \<and> E = edges_of es ds)"

lemma nth_image_eq:
  assumes "distinct ds" "A \<subseteq> {..<length ds}" "B \<subseteq> {..<length ds}"
  shows "(!) ds ` A = (!) ds ` B \<longleftrightarrow> A = B"
proof -
  have "inj_on ((!) ds) (A \<union> B)" using assms by (auto simp: inj_on_def nth_eq_iff_index_eq subset_iff)
  then show ?thesis by (rule inj_on_Un_image_eq_iff)
qed

lemma edges_of_mem:
  assumes "u_rep g es ds" "i < u_vexNum g" "j < u_vexNum g"
  shows "{ds ! i, ds ! j} \<in> edges_of es ds \<longleftrightarrow> {i, j} \<in> ends ` set es"
proof -
  note r = u_repD [OF assms(1)]
  have "(!) ds ` {i, j} = (!) ds ` ends x \<longleftrightarrow> {i, j} = ends x" if "x \<in> set es" for x
    by (rule nth_image_eq) (use r(2,3) r(7) [OF that] assms(2,3) in auto)
  then show ?thesis by (auto simp: edges_of_def image_iff)
qed

lemma edges_of_filter:
  assumes "u_rep g es ds" "i < u_vexNum g" "j < u_vexNum g"
  shows "edges_of (filter (\<lambda>x. ends x \<noteq> {i, j}) es) ds = edges_of es ds - {{ds ! i, ds ! j}}"
proof -
  note r = u_repD [OF assms(1)]
  have "(!) ds ` ends x = (!) ds ` {i, j} \<longleftrightarrow> ends x = {i, j}" if "x \<in> set es" for x
    by (rule nth_image_eq) (use r(2,3) r(7) [OF that] assms(2,3) in auto)
  then show ?thesis by (auto simp: edges_of_def)
qed

lemma edges_of_without:
  assumes "u_rep g es ds" "i < u_vexNum g"
  shows "edges_of (filter (\<lambda>x. \<not> inc i x) es) ds = {e \<in> edges_of es ds. ds ! i \<notin> e}"
proof -
  note r = u_repD [OF assms(1)]
  have "ds ! i \<in> (!) ds ` ends x \<longleftrightarrow> inc i x" if "x \<in> set es" for x
    using r(2,3) r(7) [OF that] assms(2) by (auto simp: inc_ends image_iff subset_iff nth_eq_iff_index_eq)
  then show ?thesis by (auto simp: edges_of_def)
qed

section \<open>Effects on the abstract graph\<close>

lemma u_addEdge_abs:
  fixes u v :: 'v
  assumes "compare_linear cmp" "fresh_alloc alloc" "u_rep g es ds"
  defines "ok \<equiv> u \<in> set ds \<and> v \<in> set ds \<and> {u, v} \<notin> edges_of es ds \<and> alloc (estore g) \<noteq> None"
  shows "\<exists>g'. u_addEdge cmp alloc g (Some u) (Some v) = Some (ok, g') \<and>
     u_represents g' (set ds) (if ok then insert {u, v} (edges_of es ds) else edges_of es ds)"
proof -
  note r = u_repD [OF assms(3)]
  have same: "u_represents g (set ds) (edges_of es ds)" using assms(3) unfolding u_represents_def by blast
  show ?thesis
  proof (cases rule: u_locateVertex_cases [OF assms(1,3), of u, case_names found none])
    case none
    then show ?thesis using u_locateVertex_rep [OF assms(1,3), of v] same by (auto simp: u_addEdge_def ok_def)
  next
    case (found i)
    show ?thesis
    proof (cases rule: u_locateVertex_cases [OF assms(1,3), of v, case_names found' none'])
      case none'
      then show ?thesis using found same by (auto simp: u_addEdge_def ok_def)
    next
      case (found' j)
      have il: "i < length (adjMultiList g)" using r(10,11) found(1) by simp
      have mem: "{u, v} \<in> edges_of es ds \<longleftrightarrow> {i, j} \<in> ends ` set es" using edges_of_mem [OF assms(3) found(1) found'(1)] found(2) found'(2) by simp
      obtain res where res: "find_edge (estore g) i j (firstEdge (adjMultiList g ! i)) = Some res" "res \<noteq> None \<longleftrightarrow> {u, v} \<in> edges_of es ds"
      proof
        show "find_edge (estore g) i j (firstEdge (adjMultiList g ! i)) = Some (case filter (\<lambda>x. ends x = {i, j}) es of [] \<Rightarrow> None | x # _ \<Rightarrow> Some (fst x))"
          by (rule ends_head [OF assms(3) found(1)])
        have "filter (\<lambda>x. ends x = {i, j}) es = [] \<longleftrightarrow> {i, j} \<notin> ends ` set es" by (auto simp: filter_empty_conv image_iff)
        then show "(case filter (\<lambda>x. ends x = {i, j}) es of [] \<Rightarrow> None | x # _ \<Rightarrow> Some (fst x)) \<noteq> None \<longleftrightarrow> {u, v} \<in> edges_of es ds"
          unfolding mem by (auto split: list.splits)
      qed
      show ?thesis
      proof (cases ok)
        case False
        then show ?thesis using found found' il res same by (auto simp: u_addEdge_def ok_def split: option.split)
      next
        case True
        then obtain a where a: "alloc (estore g) = Some a" by (auto simp: ok_def)
        have "estore g a = None" using assms(2) a by (simp add: fresh_alloc_def)
        moreover have "{i, j} \<notin> ends ` set es" using True mem by (simp add: ok_def)
        ultimately obtain g' where g': "link_edge g a i j = Some g'" "u_rep g' ((a, i, j) # es) ds"
          using link_edge_rep [OF assms(3) found(1) found'(1)] by blast
        have "edges_of ((a, i, j) # es) ds = insert {u, v} (edges_of es ds)" using found(2) found'(2) by (simp add: edges_of_def ends_def)
        then have "u_represents g' (set ds) (insert {u, v} (edges_of es ds))" using g'(2) unfolding u_represents_def by metis
        moreover have "u_addEdge cmp alloc g (Some u) (Some v) = Some (True, g')"
          using found found' il res a g'(1) True by (simp add: u_addEdge_def ok_def)
        ultimately show ?thesis using True by simp
      qed
    qed
  qed
qed

lemma edges_of_ends:
  assumes "u_rep g es ds" "e \<in> edges_of es ds"
  shows "e \<subseteq> set ds"
proof -
  obtain x where x: "x \<in> set es" "e = (!) ds ` ends x" using assms(2) unfolding edges_of_def by blast
  then show ?thesis using u_repD(2) [OF assms(1)] u_repD(7) [OF assms(1) x(1)] by auto
qed

lemma u_deleteEdge_abs:
  assumes "compare_linear cmp" "u_rep g es ds"
  shows "\<exists>g'. u_deleteEdge cmp g (Some u) (Some v) = Some ({u, v} \<in> edges_of es ds, g') \<and> u_represents g' (set ds) (edges_of es ds - {{u, v}})"
proof (cases "u \<in> set ds \<and> v \<in> set ds")
  case False
  then have "{u, v} \<notin> edges_of es ds" using edges_of_ends [OF assms(2)] by blast
  moreover have "u_represents g (set ds) (edges_of es ds)" using assms(2) unfolding u_represents_def by blast
  moreover have "ds ! k \<in> set ds" if "k < u_vexNum g" for k using that u_repD(2) [OF assms(2)] by simp
  ultimately show ?thesis using False u_locateVertex_rep [OF assms, of u] u_locateVertex_rep [OF assms, of v] by (auto simp: u_deleteEdge_def)
next
  case True
  then obtain i j where ij: "i < u_vexNum g" "j < u_vexNum g" "u = ds ! i" "v = ds ! j"
    using u_repD(2) [OF assms(2)] by (metis in_set_conv_nth)
  obtain g' where g': "u_deleteEdge cmp g (Some (ds ! i)) (Some (ds ! j)) = Some ({i, j} \<in> ends ` set es, g')"
      "u_rep g' (filter (\<lambda>x. ends x \<noteq> {i, j}) es) ds"
    using u_deleteEdge_rep [OF assms ij(1,2)] by blast
  have "u_represents g' (set ds) (edges_of (filter (\<lambda>x. ends x \<noteq> {i, j}) es) ds)" using g'(2) unfolding u_represents_def by blast
  then show ?thesis using g'(1) unfolding edges_of_filter [OF assms(2) ij(1,2)] edges_of_mem [OF assms(2) ij(1,2), symmetric] ij(3,4) by blast
qed

lemma drop_last_rep:
  assumes rep: "u_rep g es ds" and n: "u_vexNum g = Suc n" "\<And>x. x \<in> set es \<Longrightarrow> \<not> inc n x"
  shows "u_rep (g\<lparr>u_vexNum := n\<rparr>) es (take n ds)"
proof -
  note r = u_repD [OF rep]
  have "ends x \<subseteq> {..<n}" if "x \<in> set es" for x
    using r(7) [OF that] n(2) [OF that] n(1) by (auto simp: inc_ends subset_iff less_Suc_eq)
  moreover have "u_chains (g\<lparr>u_vexNum := n\<rparr>) (\<lambda>k. filter (inc k) es)" using r(1) n(1) by (simp add: u_chains_def)
  ultimately show ?thesis using r(2-6,8,9) n(1) unfolding u_rep_def by simp
qed

lemma u_deleteVertex_abs:
  assumes "compare_linear cmp" "u_rep g es ds" "\<And>x. x \<in> set es \<Longrightarrow> fst (snd x) \<noteq> snd (snd x)"
  shows "\<exists>g'. u_deleteVertex cmp g (Some v) = Some (v \<in> set ds, g') \<and> u_represents g' (set ds - {v}) {e \<in> edges_of es ds. v \<notin> e}"
proof (cases rule: u_locateVertex_cases [OF assms(1,2), of v, case_names found none])
  case none
  moreover have "{e \<in> edges_of es ds. v \<notin> e} = edges_of es ds" using edges_of_ends [OF assms(2)] none(1) by blast
  ultimately show ?thesis using assms(2) by (auto simp: u_deleteVertex_def u_represents_def)
next
  case (found k)
  note r = u_repD [OF assms(2)]
  let ?es = "filter (\<lambda>x. \<not> inc k x) es"
  obtain n where n: "u_vexNum g = Suc n" using found(1) by (cases "u_vexNum g") auto
  have kl: "rd (adjMultiList g) k = Some (adjMultiList g ! k)" using r(10,11) found(1) by simp
  obtain g1 where g1: "delete_edges cmp (Some v) k g (firstEdge (adjMultiList g ! k)) = Some g1" "u_vexNum g1 = Suc n" "u_rep g1 ?es ds"
    using delete_edges_rep [OF assms(1,2) found(1)] u_rep_first [OF assms(2) found(1)] found(2) n by auto
  have E: "edges_of ?es ds = {e \<in> edges_of es ds. v \<notin> e}" using edges_of_without [OF assms(2) found(1)] found(2) by simp
  have none: "\<not> inc k x" if "x \<in> set ?es" for x using that by simp
  show ?thesis
  proof (cases "k = n")
    case True
    have rep: "u_rep (g1\<lparr>u_vexNum := n\<rparr>) ?es (take n ds)" by (rule drop_last_rep [OF g1(3,2)]) (use none True in blast)
    moreover have "ds = take n ds @ [v]" using r(2) n found(2) True by (metis lessI take_Suc_conv_app_nth take_all order_refl)
    then have "set (take n ds) = set ds - {v}" using r(3) by (metis distinct_append Diff_insert_absorb Un_insert_right list.set(1,2) set_append sup_bot_right disjoint_insert(1) )
    moreover have "edges_of ?es (take n ds) = edges_of ?es ds"
    proof -
      have same: "(!) (take n ds) ` ends x = (!) ds ` ends x" if "x \<in> set ?es" for x
        using u_repD(7) [OF rep that] by (intro image_cong) auto
      show ?thesis unfolding edges_of_def by (rule image_cong [OF refl]) (rule same)
    qed
    moreover have "u_represents (g1\<lparr>u_vexNum := n\<rparr>) (set (take n ds)) (edges_of ?es (take n ds))"
      using rep unfolding u_represents_def by blast
    ultimately have "u_represents (g1\<lparr>u_vexNum := n\<rparr>) (set ds - {v}) {e \<in> edges_of es ds. v \<notin> e}" by (simp only: E)
    moreover have "u_deleteVertex cmp g (Some v) = Some (True, g1\<lparr>u_vexNum := n\<rparr>)"
      using found(3) kl g1(1,2) True by (simp add: u_deleteVertex_def Let_def)
    ultimately show ?thesis using found(4) by auto
  next
    case False
    then have kn: "k < n" using found(1) n by simp
    have n1: "u_vexNum g1 = n + 1" and nl: "\<And>x. x \<in> set ?es \<Longrightarrow> fst (snd x) \<noteq> snd (snd x)" using g1(2) assms(3) by simp_all
    let ?ds = "(take n ds)[k := ds ! n]" and ?g = "g1\<lparr>adjMultiList := (adjMultiList g1)[k := adjMultiList g1 ! n]\<rparr>"
    obtain g2 where g2: "rename_from n k 0 (u_vexNum g1) ?g = Some g2" "u_rep (g2\<lparr>u_vexNum := n\<rparr>) (map (move_edge n k) ?es) ?ds"
      using move_last_rep [OF g1(3) kn n1 none nl] by blast
    have ren: "?ds ! move n k w = ds ! w" if "w \<noteq> k" "w \<le> n" for w using that kn r(2) n by (auto simp: move_def nth_list_update)
    have "edges_of (map (move_edge n k) ?es) ?ds = edges_of ?es ds"
    proof -
      have "(!) ?ds ` ends (move_edge n k x) = (!) ds ` ends x" if x: "x \<in> set ?es" for x
      proof -
        have "(!) ?ds ` (move n k ` ends x) = (\<lambda>w. ?ds ! move n k w) ` ends x" by (simp add: image_image)
        also have "\<dots> = (!) ds ` ends x"
          by (intro image_cong refl ren) (use u_repD(7) [OF g1(3) x] g1(2) none [OF x] in \<open>auto simp: inc_ends subset_iff\<close>)
        finally show ?thesis by (simp add: ends_move)
      qed
      then show ?thesis unfolding edges_of_def by (simp add: image_image)
    qed
    moreover have "set ?ds = set ds - {v}"
    proof -
      have len: "length ds = Suc n" using r(2) n by simp
      have "set ?ds = (\<lambda>w. ?ds ! move n k w) ` ({..<Suc n} - {k})"
      proof -
        have "move n k ` ({..<Suc n} - {k}) = {..<n}" using kn by (auto simp: move_def image_iff)
        moreover have "set ?ds = (!) ?ds ` {..<n}" using len by (auto simp: set_conv_nth image_iff)
        ultimately show ?thesis by (simp add: image_image [symmetric])
      qed
      also have "\<dots> = (!) ds ` ({..<Suc n} - {k})" by (intro image_cong refl ren) auto
      also have "\<dots> = set ds - {v}" using len found(2) r(3) kn by (auto simp: in_set_conv_nth nth_eq_iff_index_eq image_iff)
      finally show ?thesis .
    qed
    moreover have "u_represents (g2\<lparr>u_vexNum := n\<rparr>) (set ?ds) (edges_of (map (move_edge n k) ?es) ?ds)"
      using g2(2) unfolding u_represents_def by blast
    ultimately have "u_represents (g2\<lparr>u_vexNum := n\<rparr>) (set ds - {v}) {e \<in> edges_of es ds. v \<notin> e}" by (simp only: E)
    moreover have "u_deleteVertex cmp g (Some v) = Some (True, g2\<lparr>u_vexNum := u_vexNum g2 - 1\<rparr>)"
      using found(3) kl g1(1,2) g2(1) False u_repD(10,11) [OF g1(3)] kn by (simp add: u_deleteVertex_def Let_def del: rename_from.simps)
    moreover have "u_vexNum g2 = Suc n" using rename_from_vexNum [OF g2(1)] g1(2) by simp
    ultimately show ?thesis using found(4) by auto
  qed
qed

lemma u_destroy_loop_rep:
  assumes "compare_linear cmp" "u_rep g es ds" "i < u_vexNum g" "filter (inc i) es = L"
  shows "\<exists>g'. u_destroy_loop cmp i g (head_of L) = Some g' \<and> u_vexNum g' = u_vexNum g \<and> u_rep g' (filter (\<lambda>x. \<not> inc i x) es) ds"
  using assms(2-)
proof (induction L arbitrary: g es)
  case Nil
  then have "filter (\<lambda>x. \<not> inc i x) es = es" by (auto simp: filter_empty_conv filter_id_conv)
  then show ?case using Nil by (subst u_destroy_loop.simps) simp
next
  case (Cons x L)
  note r = u_repD [OF Cons.prems(1)]
  have x: "x \<in> set es" "inc i x" using Cons.prems(3) by (auto simp: filter_eq_Cons_iff)
  obtain nd where nd: "estore g (fst x) = Some nd" "iVex nd = fst (snd x)" "jVex nd = snd (snd x)" "getNextEdge nd i = head_of L"
    using edge_chain_mid [of "estore g" i _ "[]" x L] chainsD(1) [OF r(1) Cons.prems(2)] Cons.prems(3) by auto
  have lt: "iVex nd < u_vexNum g" "jVex nd < u_vexNum g" using r(7) [OF x(1)] nd(2,3) by (auto simp: ends_def)
  let ?es = "filter (\<lambda>y. ends y \<noteq> {iVex nd, jVex nd}) es"
  have e: "ends x = {iVex nd, jVex nd}" using nd(2,3) by (simp add: ends_def)
  obtain b g1 where g1: "u_deleteEdge cmp g (Some (ds ! iVex nd)) (Some (ds ! jVex nd)) = Some (b, g1)" "u_vexNum g1 = u_vexNum g" "u_rep g1 ?es ds"
    using u_deleteEdge_rep [OF assms(1) Cons.prems(1) lt] by blast
  have L: "filter (inc i) ?es = L"
  proof -
    have "filter (inc i) ?es = filter (\<lambda>y. ends y \<noteq> ends x) (filter (inc i) es)" unfolding e by (simp add: conj_commute)
    also have "\<dots> = filter (\<lambda>y. ends y \<noteq> ends x) L" unfolding Cons.prems(3) by simp
    also have "\<dots> = L"
    proof -
      have "distinct (map ends (x # L))" using r(8) distinct_map_filter [of ends es "inc i"] Cons.prems(3) by simp
      then show ?thesis by (auto simp: filter_id_conv image_iff)
    qed
    finally show ?thesis .
  qed
  have inc: "inc i y" if "ends y = {iVex nd, jVex nd}" for y using that x(2) unfolding e [symmetric] by (simp add: inc_ends)
  obtain g2 where g2: "u_destroy_loop cmp i g1 (head_of L) = Some g2" "u_vexNum g2 = u_vexNum g" "u_rep g2 (filter (\<lambda>x. \<not> inc i x) ?es) ds"
    using Cons.IH [OF g1(3) _ L] g1(2) Cons.prems(2) by auto
  have "filter (\<lambda>x. \<not> inc i x) ?es = filter (\<lambda>x. \<not> inc i x) es" using inc by (auto intro!: filter_cong)
  moreover have "rd (adjMultiList g) k = Some (adjMultiList g ! k)" "u_data (adjMultiList g ! k) = Some (ds ! k)" if "k < u_vexNum g" for k
    using that r(4,10,11) by auto
  ultimately show ?case using g2 g1(1) nd(1,4) lt by (subst u_destroy_loop.simps) simp
qed

lemma u_destroy_from_rep:
  assumes "compare_linear cmp" "u_rep g es ds" "i + n = u_vexNum g" "\<And>x k. x \<in> set es \<Longrightarrow> k < i \<Longrightarrow> \<not> inc k x"
  shows "\<exists>g'. u_destroy_from cmp i n g = Some g' \<and> estore g' = Map.empty"
  using assms(2-)
proof (induction n arbitrary: i g es)
  case 0
  have "es = []"
  proof (rule ccontr)
    assume "es \<noteq> []"
    then obtain x where x: "x \<in> set es" by (cases es) auto
    then have "fst (snd x) < i" "inc (fst (snd x)) x" using u_repD(7) [OF 0(1) x] 0(2) by (auto simp: ends_def inc_def)
    then show False using 0(3) x by blast
  qed
  then show ?case using u_repD(6) [OF 0(1)] by simp
next
  case (Suc n)
  have i: "i < u_vexNum g" using Suc.prems(2) by simp
  obtain g1 where g1: "u_destroy_loop cmp i g (firstEdge (adjMultiList g ! i)) = Some g1" "u_vexNum g1 = u_vexNum g" "u_rep g1 (filter (\<lambda>x. \<not> inc i x) es) ds"
    using u_destroy_loop_rep [OF assms(1) Suc.prems(1) i refl] u_rep_first [OF Suc.prems(1) i] by auto
  have "\<exists>g'. u_destroy_from cmp (i + 1) n g1 = Some g' \<and> estore g' = Map.empty"
    by (rule Suc.IH [OF g1(3)]) (use g1(2) Suc.prems(2,3) in \<open>auto simp: less_Suc_eq\<close>)
  then show ?case using g1(1) u_repD(10,11) [OF Suc.prems(1)] i by simp
qed

section \<open>Traversal\<close>

definition u_adj :: "'v AMLGraph \<Rightarrow> nat \<Rightarrow> nat set" where
  "u_adj g i = {j. \<exists>a nd. estore g a = Some nd \<and> {iVex nd, jVex nd} = {i, j}}"

definition other :: "nat \<Rightarrow> edge \<Rightarrow> nat" where
  "other i x = (if fst (snd x) = i then snd (snd x) else fst (snd x))"

lemma other_ends: "inc i x \<Longrightarrow> ends x = {i, other i x}"
  by (auto simp: inc_def ends_def other_def)

lemma rep_node:
  assumes "u_rep g es ds" "x \<in> set es"
  shows "\<exists>nd. estore g (fst x) = Some nd \<and> {iVex nd, jVex nd} = ends x"
proof -
  have "fst (snd x) < u_vexNum g" using u_repD(7) [OF assms] by (auto simp: ends_def)
  then show ?thesis using edge_chain_node [OF chainsD(1) [OF u_repD(1) [OF assms(1)]], of "fst (snd x)" x] assms(2)
    by (auto simp: inc_def ends_def)
qed

lemma u_adj_rep:
  assumes "u_rep g es ds"
  shows "u_adj g i = {j. {i, j} \<in> ends ` set es}"
proof -
  have "\<exists>x\<in>set es. fst x = a \<and> {iVex nd, jVex nd} = ends x" if "estore g a = Some nd" for a nd
  proof -
    have "a \<in> fst ` set es" using that u_repD(6) [OF assms] by blast
    then obtain x where "x \<in> set es" "fst x = a" by blast
    then show ?thesis using rep_node [OF assms, of x] that by auto
  qed
  note node = this
  show ?thesis
  proof (intro set_eqI iffI)
    fix j assume "j \<in> u_adj g i"
    then obtain a nd where "estore g a = Some nd" "{iVex nd, jVex nd} = {i, j}" unfolding u_adj_def by blast
    then show "j \<in> {j. {i, j} \<in> ends ` set es}" using node [of a nd] by blast
  next
    fix j assume "j \<in> {j. {i, j} \<in> ends ` set es}"
    then obtain x where "x \<in> set es" "{i, j} = ends x" by blast
    then show "j \<in> u_adj g i" using rep_node [OF assms, of x] unfolding u_adj_def by blast
  qed
qed

lemma u_adj_other:
  assumes "u_rep g es ds"
  shows "u_adj g i = other i ` set (filter (inc i) es)"
proof -
  have "{i, j} = ends x \<longleftrightarrow> inc i x \<and> j = other i x" for j x
    by (auto simp: inc_def ends_def other_def doubleton_eq_iff)
  then show ?thesis unfolding u_adj_rep [OF assms] by (auto simp: image_iff)
qed

lemma collect_ends_chain:
  assumes "edge_chain h i p L" "\<And>x. x \<in> set L \<Longrightarrow> other i x < length vis" "length ns + length L \<le> maxVertexNum"
  shows "collect_ends h i vis p ns = Some (ns @ filter (\<lambda>j. \<not> vis ! j) (map (other i) L))"
  using assms
proof (induction L arbitrary: p ns)
  case Nil
  then show ?case by (simp add: collect_ends.simps)
next
  case (Cons x L)
  obtain nd where nd: "p = Some (fst x)" "h (fst x) = Some nd" "iVex nd = fst (snd x)" "jVex nd = snd (snd x)" "edge_chain h i (getNextEdge nd i) L"
    using Cons.prems(1) by (auto split: option.splits)
  have o: "(if iVex nd = i then jVex nd else iVex nd) = other i x" using nd by (simp add: other_def)
  have "rd vis (other i x) = Some (vis ! other i x)" using Cons.prems(2) by simp
  then show ?case using Cons.IH [OF nd(5)] Cons.prems(2,3) nd(1,2) by (subst collect_ends.simps) (simp add: o Let_def)
qed

interpretation ug: traversable "\<lambda>g. \<exists>es ds. u_rep g es ds" u_vexNum "u_neighbors cmp" u_adj for cmp :: "'v compare"
proof unfold_locales
  fix g :: "'v AMLGraph" and i and vis :: "bool list"
  assume "\<exists>es ds. u_rep g es ds"
  then obtain es ds where rep: "u_rep g es ds" by blast
  note r = u_repD [OF rep]
  show "u_vexNum g \<le> maxVertexNum" using r(11) .
  let ?L = "filter (inc i) es"
  have less: "other i x < u_vexNum g" if "x \<in> set ?L" for x
    using that other_ends [of i x] r(7) [of x] by auto
  assume i: "i < u_vexNum g"
  show "u_adj g i \<subseteq> {..<u_vexNum g}" using u_adj_other [OF rep] less by auto
  assume vis: "length vis = maxVertexNum"
  have "length ?L \<le> u_vexNum g"
  proof -
    have "x = y" if "x \<in> set ?L" "y \<in> set ?L" "other i x = other i y" for x y
      using that ends_distinct [OF r(8), of x y] other_ends [of i x] other_ends [of i y] by auto
    then have "inj_on (other i) (set ?L)" by (rule inj_onI)
    moreover have "distinct ?L" using r(5) by (simp add: distinct_map)
    ultimately have "length ?L = card (other i ` set ?L)" by (simp only: card_image distinct_card)
    also have "\<dots> \<le> card {..<u_vexNum g}" by (rule card_mono) (use less in auto)
    finally show ?thesis by simp
  qed
  then have "collect_ends (estore g) i vis (firstEdge (adjMultiList g ! i)) [] = Some (filter (\<lambda>j. \<not> vis ! j) (map (other i) ?L))"
    using collect_ends_chain [OF chainsD(1) [OF r(1) i], of vis "[]"] less r(11) vis by fastforce
  moreover have "\<exists>ys. sortNeighbors cmp (map u_data (adjMultiList g)) (filter (\<lambda>j. \<not> vis ! j) (map (other i) ?L)) = Some ys
      \<and> mset ys = mset (filter (\<lambda>j. \<not> vis ! j) (map (other i) ?L))"
    by (rule sortNeighbors_perm) (use r(4,10,11) less in fastforce)
  ultimately obtain ys where ys: "u_neighbors cmp g i vis = Some ys" "mset ys = mset (filter (\<lambda>j. \<not> vis ! j) (map (other i) ?L))"
    using i r(10,11) by (auto simp: u_neighbors_def)
  then have "set ys = {j \<in> other i ` set ?L. \<not> vis ! j}" using mset_eq_setD [OF ys(2)] by auto
  then show "\<exists>ns. u_neighbors cmp g i vis = Some ns \<and> set ns \<subseteq> u_adj g i \<and> u_adj g i \<subseteq> set ns \<union> {j. vis ! j}"
    using ys(1) u_adj_other [OF rep] by auto
qed

lemma u_traversal_abs:
  assumes "u_rep g es ds" "k < u_vexNum g" "distinct (k # ks)" "set (k # ks) = (ug.edges g)\<^sup>* `` {k}"
  shows "map (data_at (map u_data (adjMultiList g))) (k # ks) = map Some (ds ! k # map ((!) ds) ks) \<and> distinct (ds ! k # map ((!) ds) ks)
    \<and> set (ds ! k # map ((!) ds) ks) = {(u, v). {u, v} \<in> edges_of es ds}\<^sup>* `` {ds ! k}"
proof -
  note r = u_repD [OF assms(1)]
  let ?n = "u_vexNum g"
  have E: "ug.edges g = {(i, j). {i, j} \<in> ends ` set es}"
    using r(7) unfolding ug.edges_def u_adj_rep [OF assms(1)] by (auto simp: subset_iff) (metis (no_types, lifting) insertI1)
  have sub: "ug.edges g \<subseteq> {..<?n} \<times> {..<?n}"
  proof -
    have "i < ?n \<and> j < ?n" if ij: "{i, j} \<in> ends ` set es" for i j
    proof -
      obtain x where "x \<in> set es" "{i, j} = ends x" using ij by blast
      then show ?thesis using r(7) [of x] by auto
    qed
    then show ?thesis unfolding E by blast
  qed
  have inj: "inj_on ((!) ds) {..<?n}" using r(2,3) by (auto simp: inj_on_def nth_eq_iff_index_eq)
  have reach: "set (k # ks) \<subseteq> {..<?n}"
  proof
    fix j assume "j \<in> set (k # ks)"
    then have "(k, j) \<in> (ug.edges g)\<^sup>*" unfolding assms(4) by simp
    then show "j \<in> {..<?n}" using sub assms(2) by (induction rule: rtrancl_induct) auto
  qed
  have "{(u, v). {u, v} \<in> edges_of es ds} = (\<lambda>(i, j). (ds ! i, ds ! j)) ` ug.edges g"
  proof (intro set_eqI iffI)
    fix p assume "p \<in> {(u, v). {u, v} \<in> edges_of es ds}"
    then obtain u v where p: "p = (u, v)" "{u, v} \<in> edges_of es ds" by blast
    then have "{u, v} \<subseteq> set ds" using edges_of_ends [OF assms(1)] by blast
    then obtain i j where ij: "i < ?n" "j < ?n" "u = ds ! i" "v = ds ! j" using r(2) by (auto simp: in_set_conv_nth)
    then have "(i, j) \<in> ug.edges g" using p(2) edges_of_mem [OF assms(1) ij(1,2)] unfolding E by simp
    then show "p \<in> (\<lambda>(i, j). (ds ! i, ds ! j)) ` ug.edges g" using p(1) ij by force
  next
    fix p assume "p \<in> (\<lambda>(i, j). (ds ! i, ds ! j)) ` ug.edges g"
    then obtain i j where ij: "(i, j) \<in> ug.edges g" "p = (ds ! i, ds ! j)" by auto
    then have "i < ?n" "j < ?n" using sub by auto
    then show "p \<in> {(u, v). {u, v} \<in> edges_of es ds}" using ij edges_of_mem [OF assms(1)] unfolding E by simp
  qed
  from reach_image [OF this sub inj, of k] assms(2)
  have "set (map ((!) ds) (k # ks)) = {(u, v). {u, v} \<in> edges_of es ds}\<^sup>* `` {ds ! k}" unfolding set_map assms(4) by simp
  moreover have "distinct (map ((!) ds) (k # ks))" using assms(3) inj_on_subset [OF inj reach] by (simp only: distinct_map)
  moreover have "data_at (map u_data (adjMultiList g)) j = Some (ds ! j)" if "j \<in> set (k # ks)" for j using that reach r(4,10,11) by auto
  ultimately show ?thesis by simp
qed

section \<open>Properties\<close>

text \<open>
  C37: The operations of the undirected graph implement a set of vertices and a set of edges, each the
  set of its two ends. \<open>create\<close> gives the empty graph. \<open>addVertex\<close> adds a vertex unless the data is there or
  256 vertices are; \<open>addEdge\<close> adds an edge between two vertices unless it is there, in either direction,
  or \<open>new\<close> fails; \<open>deleteEdge\<close> removes just that edge; \<open>deleteVertex\<close>, in a graph without loops, removes the
  vertex with all of its edges. Each returns whether it changed the graph, none of them leaves an array
  or follows a dangling pointer, the two counters are the numbers of vertices and edges, and \<open>destroy\<close>
  frees every edge.
\<close>

theorem undirected_refines:
  fixes u v :: 'v
  assumes "compare_linear cmp" "fresh_alloc alloc" "u_represents g V E"
  defines "add_vertex \<equiv> card V < maxVertexNum \<and> v \<notin> V"
    and "add_edge \<equiv> u \<in> V \<and> v \<in> V \<and> {u, v} \<notin> E \<and> alloc (estore g) \<noteq> None"
  shows "u_represents u_create {} {}
    \<and> (\<exists>g'. u_addVertex cmp g (Some v) = Some (add_vertex, g') \<and> u_represents g' (if add_vertex then insert v V else V) E)
    \<and> (\<exists>g'. u_addEdge cmp alloc g (Some u) (Some v) = Some (add_edge, g') \<and> u_represents g' V (if add_edge then insert {u, v} E else E))
    \<and> (\<exists>g'. u_deleteEdge cmp g (Some u) (Some v) = Some ({u, v} \<in> E, g') \<and> u_represents g' V (E - {{u, v}}))
    \<and> ((\<forall>e\<in>E. card e = 2) \<longrightarrow>
        (\<exists>g'. u_deleteVertex cmp g (Some v) = Some (v \<in> V, g') \<and> u_represents g' (V - {v}) {e \<in> E. v \<notin> e}))
    \<and> u_vexNum g = card V \<and> edgeNum g = int (card E)
    \<and> u_destroy cmp g = Some Map.empty"
proof -
  obtain es ds where es: "u_rep g es ds" "V = set ds" "E = edges_of es ds" using assms(3) by (auto simp: u_represents_def)
  note r = u_repD [OF es(1)]
  have V: "card (set ds) = length ds" using r(3) by (rule distinct_card)
  have "u_represents u_create {} {}" using u_create_rep by (fastforce simp: u_represents_def edges_of_def)
  moreover have "\<exists>g'. u_addVertex cmp g (Some v) = Some (add_vertex, g') \<and> u_represents g' (if add_vertex then insert v V else V) E"
  proof -
    obtain g' where g': "u_addVertex cmp g (Some v) = Some (add_vertex, g')" "if add_vertex then u_rep g' es (ds @ [v]) else g' = g"
      using u_addVertex_rep [OF assms(1) es(1), of v] unfolding add_vertex_def es(2) V by blast
    have "edges_of es (ds @ [v]) = E"
    proof -
      have same: "(!) (ds @ [v]) ` ends x = (!) ds ` ends x" if "x \<in> set es" for x
        using r(2) r(7) [OF that] by (intro image_cong) (auto simp: nth_append)
      show ?thesis unfolding es(3) edges_of_def by (rule image_cong [OF refl]) (rule same)
    qed
    moreover have "set (ds @ [v]) = insert v V" using es(2) by simp
    moreover have "u_represents g' (set (ds @ [v])) (edges_of es (ds @ [v]))" if add_vertex
      using that g'(2) unfolding u_represents_def by (simp only: if_True) blast
    ultimately show ?thesis using g' assms(3) by (cases add_vertex) auto
  qed
  moreover have "\<exists>g'. u_addEdge cmp alloc g (Some u) (Some v) = Some (add_edge, g') \<and> u_represents g' V (if add_edge then insert {u, v} E else E)"
    using u_addEdge_abs [OF assms(1,2) es(1), of u v] unfolding add_edge_def es(2,3) .
  moreover have "\<exists>g'. u_deleteEdge cmp g (Some u) (Some v) = Some ({u, v} \<in> E, g') \<and> u_represents g' V (E - {{u, v}})"
    using u_deleteEdge_abs [OF assms(1) es(1), of u v] unfolding es(2,3) .
  moreover have "\<exists>g'. u_deleteVertex cmp g (Some v) = Some (v \<in> V, g') \<and> u_represents g' (V - {v}) {e \<in> E. v \<notin> e}" if two: "\<forall>e\<in>E. card e = 2"
  proof -
    have "fst (snd x) \<noteq> snd (snd x)" if "x \<in> set es" for x
    proof
      assume "fst (snd x) = snd (snd x)"
      then have "(!) ds ` ends x = {ds ! fst (snd x)}" by (simp add: ends_def)
      moreover have "(!) ds ` ends x \<in> E" using that unfolding es(3) edges_of_def by (rule imageI)
      ultimately show False using two by fastforce
    qed
    then show ?thesis using u_deleteVertex_abs [OF assms(1) es(1), of v] unfolding es(2,3) by blast
  qed
  moreover have "u_vexNum g = card V \<and> edgeNum g = int (card E)"
  proof -
    have "inj_on (\<lambda>x. (!) ds ` ends x) (set es)"
    proof (rule inj_onI)
      fix x y assume xy: "x \<in> set es" "y \<in> set es" "(!) ds ` ends x = (!) ds ` ends y"
      then have "ends x = ends y" using nth_image_eq [OF r(3), of "ends x" "ends y"] r(2) r(7) [OF xy(1)] r(7) [OF xy(2)] by simp
      then show "x = y" using ends_distinct [OF r(8) xy(1,2)] by simp
    qed
    moreover have "distinct es" using r(5) by (simp add: distinct_map)
    ultimately have "card E = length es" unfolding es(3) edges_of_def by (simp add: card_image distinct_card)
    then show ?thesis using r(2,9) V es(2) by simp
  qed
  moreover have "u_destroy cmp g = Some Map.empty"
    using u_destroy_from_rep [OF assms(1) es(1), of 0 "u_vexNum g"] by (auto simp: u_destroy_def)
  ultimately show ?thesis by blast
qed

text \<open>
  Depth-first and breadth-first search of an undirected graph return: from a vertex they call \<open>op\<close> on
  it first and then on every vertex connected with it, on each exactly once; from data that is not in
  the graph, or from a null pointer, they do nothing.
\<close>

theorem undirected_traversals:
  assumes "compare_linear cmp" "u_represents g V E"
  shows "(if v \<in> V
     then (\<exists>ws. u_dfs cmp g (Some v) = Some (map Some (v # ws)) \<and> distinct (v # ws) \<and> set (v # ws) = {(u, w). {u, w} \<in> E}\<^sup>* `` {v})
       \<and> (\<exists>ws. u_bfs cmp g (Some v) = Some (map Some (v # ws)) \<and> distinct (v # ws) \<and> set (v # ws) = {(u, w). {u, w} \<in> E}\<^sup>* `` {v})
     else u_dfs cmp g (Some v) = Some [] \<and> u_bfs cmp g (Some v) = Some [])
    \<and> u_dfs cmp g None = Some [] \<and> u_bfs cmp g None = Some []"
proof -
  obtain es ds where es: "u_rep g es ds" "V = set ds" "E = edges_of es ds" using assms(2) by (auto simp: u_represents_def)
  show ?thesis
  proof (cases rule: u_locateVertex_cases [OF assms(1) es(1), of v, case_names found none])
    case none
    then show ?thesis using es(2) by (simp add: u_dfs_def u_bfs_def u_locateVertex_def)
  next
    case (found k)
    have wf: "\<exists>es ds. u_rep g es ds" using es(1) by blast
    obtain ks where i: "dfs_from (u_neighbors cmp g) k = Some (k # ks)" "distinct (k # ks)" "set (k # ks) = (ug.edges g)\<^sup>* `` {k}"
      using ug.dfs_from_correct [OF wf found(1), of cmp] by blast
    obtain js where j: "bfs_from (u_neighbors cmp g) k = Some (k # js)" "distinct (k # js)" "set (k # js) = (ug.edges g)\<^sup>* `` {k}"
      using ug.bfs_from_correct [OF wf found(1), of cmp] by blast
    note ik = u_traversal_abs [OF es(1) found(1) i(2,3), unfolded found(2) es(3) [symmetric]]
    note jk = u_traversal_abs [OF es(1) found(1) j(2,3), unfolded found(2) es(3) [symmetric]]
    have "u_dfs cmp g (Some v) = Some (map Some (v # map ((!) ds) ks))" "u_bfs cmp g (Some v) = Some (map Some (v # map ((!) ds) js))"
      using found(3) i(1) j(1) ik jk by (simp_all add: u_dfs_def u_bfs_def)
    moreover have "u_dfs cmp g None = Some [] \<and> u_bfs cmp g None = Some []" by (simp add: u_dfs_def u_bfs_def u_locateVertex_def)
    moreover have "v \<in> V" using found(4) es(2) by blast
    ultimately show ?thesis using ik jk by (simp only: if_True) blast
  qed
qed

text \<open>
  Walking over the copied slot never ends when it reaches a loop, whose second link points to itself.
\<close>

lemma rename_edges_diverges:
  assumes "h a = Some nd" "iVex nd \<noteq> lst" "jVex nd \<noteq> lst" "iVex nd \<noteq> i" "jLink nd = Some a"
  shows "rename_edges lst index i h (Some a) = None"
proof -
  have "l = lst \<longrightarrow> k = i \<longrightarrow> \<not> (cur = Some a \<and> h a = Some nd)" if "rename_edges l x k h cur = Some r" for l x k h cur r
  proof (rule rename_edges.raw_induct [of "\<lambda>l x k h cur r. l = lst \<longrightarrow> k = i \<longrightarrow> \<not> (cur = Some a \<and> h a = Some nd)", OF _ that], intro impI notI)
    fix f l x k h cur and r :: "nat \<rightharpoonup> EdgeNode"
    assume IH: "\<And>l x k h cur r. f l x k h cur = Some r \<Longrightarrow> l = lst \<longrightarrow> k = i \<longrightarrow> \<not> (cur = Some a \<and> h a = Some nd)"
      and eq: "(case cur of None \<Rightarrow> Some h | Some a \<Rightarrow>
          do { nd \<leftarrow> h a;
               let nd = (if iVex nd = l then nd\<lparr>iVex := x\<rparr> else nd);
               let nd = (if jVex nd = l then nd\<lparr>jVex := x\<rparr> else nd);
               f l x k (h(a \<mapsto> nd)) (getNextEdge nd k) }) = Some r"
      and l: "l = lst" "k = i" "cur = Some a \<and> h a = Some nd"
    have "f lst x i (h(a \<mapsto> nd)) (Some a) = Some r" using eq assms(2-) l by (simp add: getNextEdge_def)
    then show False using IH [of lst x i "h(a \<mapsto> nd)" "Some a" r] by simp
  qed
  then show ?thesis using assms(1) by (metis not_None_eq)
qed

theorem undirected_refines_witness:
  "\<exists>g'. u_addVertex compareKey u_create (Some 3) = Some (True, g') \<and> u_represents g' {3} {}"
  using undirected_refines [OF ck.compare_linear_axioms first_alloc_fresh, of u_create "{}" "{}" 3 3] u_create_rep
  by (auto simp: u_represents_def edges_of_def maxVertexNum_def)

text \<open>A graph with an edge between 1 and 2.\<close>

lemma undirected_example: "\<exists>g. u_represents g {1 :: int, 2} {{1, 2}}"
proof -
  obtain g1 where g1: "u_rep g1 [] [1 :: int]"
    using u_addVertex_rep [OF ck.compare_linear_axioms u_create_rep, of 1] by (auto simp: maxVertexNum_def)
  obtain g2 where g2: "u_rep g2 [] [1 :: int, 2]"
    using u_addVertex_rep [OF ck.compare_linear_axioms g1, of 2] by (auto simp: maxVertexNum_def)
  have "estore g2 0 = None" using u_repD(6) [OF g2] by auto
  then show ?thesis
    using u_addEdge_abs [OF ck.compare_linear_axioms first_alloc_fresh g2, of 1 2] by (auto simp: edges_of_def first_alloc_def)
qed

theorem undirected_traversals_witness:
  "\<exists>g ws. u_represents g {1 :: int, 2} {{1, 2}} \<and> u_bfs compareKey g (Some 2) = Some (map Some (2 # ws)) \<and> 1 \<in> set ws"
proof -
  let ?E = "{{1 :: int, 2}}"
  obtain g where g: "u_represents g {1, 2} ?E" using undirected_example by blast
  have "(2, 1) \<in> {(u, w). {u, w} \<in> ?E}" by auto
  then have one: "1 \<in> {(u, w). {u, w} \<in> ?E}\<^sup>* `` {2}" by blast
  obtain ws where ws: "u_bfs compareKey g (Some 2) = Some (map Some (2 # ws))" "set (2 # ws) = {(u, w). {u, w} \<in> ?E}\<^sup>* `` {2}"
    using undirected_traversals [OF ck.compare_linear_axioms g, of 2] by auto
  have "1 \<in> set (2 # ws)" using one unfolding ws(2) .
  then have "1 \<in> set ws" by simp
  then show ?thesis using g ws(1) by blast
qed

text \<open>
  \<open>deleteVertex\<close> of the undirected graph does not terminate when the graph has a loop at its last
  vertex: with two vertices and a loop at the second, deleting the first never returns.
\<close>

theorem undirected_loop_diverges:
  "Option.bind (u_addVertex compareKey u_create (Some 0)) (\<lambda>(_, g).
   Option.bind (u_addVertex compareKey g (Some 1)) (\<lambda>(_, g).
   Option.bind (u_addEdge compareKey first_alloc g (Some 1) (Some 1)) (\<lambda>(b, g).
     Some (b, u_deleteVertex compareKey g (Some 0))))) = Some (True, None)"
proof -
  let ?v = "\<lparr>firstEdge = None, u_data = None\<rparr> :: int u_VertexNode" and ?r = "\<lambda>p d. \<lparr>firstEdge = p, u_data = Some d\<rparr> :: int u_VertexNode"
  let ?G = "\<lambda>n m xs h. \<lparr>u_vexNum = n, edgeNum = m, adjMultiList = xs @ replicate (maxVertexNum - length xs) ?v, estore = h\<rparr>"
  let ?e = "\<lparr>iVex = 1, jVex = 1, iLink = None, jLink = Some 0\<rparr>"
  let ?g2 = "?G 2 0 [?r None 0, ?r None 1] Map.empty" and ?g3 = "?G 2 1 [?r None 0, ?r (Some 0) 1] [0 \<mapsto> ?e]"
  define K where "K = maxVertexNum - 2"
  have m: "maxVertexNum = Suc (Suc K)" by (simp add: K_def maxVertexNum_def)
  have 1: "u_addVertex compareKey u_create (Some 0) = Some (True, ?G 1 0 [?r None 0] Map.empty)"
    by (simp add: u_addVertex_def u_create_def u_locateVertex_def m)
  have 2: "u_addVertex compareKey (?G 1 0 [?r None 0] Map.empty) (Some 1) = Some (True, ?g2)"
    by (simp add: u_addVertex_def u_locateVertex_def m compareKey_def data_at_def)
  have 3: "u_addEdge compareKey first_alloc ?g2 (Some 1) (Some 1) = Some (True, ?g3)"
    by (simp add: u_addEdge_def u_locateVertex_def m compareKey_def data_at_def find_edge.simps first_alloc_def link_edge_def numeral_2_eq_2)
  have 4: "u_deleteVertex compareKey ?g3 (Some 0) = None"
  proof -
    have "delete_edges compareKey (Some 0) 0 ?g3 None = Some ?g3" by (simp add: delete_edges.simps)
    moreover have "rename_from 1 0 0 2 (?G 2 1 [?r (Some 0) 1, ?r (Some 0) 1] [0 \<mapsto> ?e]) = None"
    proof -
      let ?f = "\<lparr>iVex = 0, jVex = 0, iLink = None, jLink = Some 0\<rparr>"
      have "rename_edges 1 0 0 [0 \<mapsto> ?e] (Some 0) = Some [0 \<mapsto> ?f]"
        by (simp add: rename_edges.simps getNextEdge_def)
      moreover have "rename_edges 1 0 1 [0 \<mapsto> ?f] (Some 0) = None"
        by (rule rename_edges_diverges [where nd = ?f]) simp_all
      ultimately show ?thesis by (simp add: numeral_2_eq_2 m)
    qed
    ultimately show ?thesis by (simp add: u_deleteVertex_def u_locateVertex_def m compareKey_def data_at_def numeral_2_eq_2 del: rename_from.simps)
  qed
  show ?thesis using 1 2 3 4 by simp
qed

end
