(* ===== verification/AL_Sort_Simple.thy ===== *)
theory AL_Sort_Simple
  imports Foo_Prelude
begin

text \<open>
  The quadratic sorting methods of \<open>src/algorithm/include/sort.hpp\<close>: \<open>bubble\<close>, \<open>selection\<close>,
  \<open>insertion\<close> and \<open>shell\<close>, and the contract \<open>sorting_method\<close> that all methods of the class \<open>Sort\<close>
  keep.

  An array with its length is a list (a null pointer behaves as the empty one), the working copy
  \<open>sorting\<close> a list that is updated by index, \<open>for\<close> loops with fixed bounds are folds over their
  index range. The \<open>std::uint32_t\<close> indices are natural numbers: the code never lets one leave
  \<open>0 .. length\<close>, which the length lemmas below show for the indices it computes.
\<close>

section \<open>Shared parts\<close>

text \<open>\<open>std::swap(sorting[i], sorting[j])\<close>\<close>

definition swap :: "'a list \<Rightarrow> nat \<Rightarrow> nat \<Rightarrow> 'a list" where
  "swap s i j = s[i := s ! j, j := s ! i]"

section \<open>Bubble, selection, insertion and shell sort\<close>

definition bubble_pass :: "nat \<Rightarrow> 'a::linorder list \<Rightarrow> 'a list" where
  "bubble_pass m s = fold (\<lambda>j s. if s ! j > s ! (j + 1) then swap s j (j + 1) else s) [0..<m] s"

definition bubble :: "'a::linorder list \<Rightarrow> 'a list" where
  "bubble array =
     (if length array = 0 then []
      else fold (\<lambda>i s. bubble_pass (length array - 1 - i) s) [0..<length array - 1] array)"

definition selection_min :: "'a::linorder list \<Rightarrow> nat \<Rightarrow> nat" where
  "selection_min s i = fold (\<lambda>j m. if s ! j < s ! m then j else m) [i + 1..<length s] i"

definition selection :: "'a::linorder list \<Rightarrow> 'a list" where
  "selection array =
     (if length array = 0 then []
      else fold (\<lambda>i s. swap s i (selection_min s i)) [0..<length array - 1] array)"

text \<open>The inner loop of \<open>insertion\<close>; the argument is \<open>n + 1\<close>.\<close>

fun insertion_loop :: "'a::linorder \<Rightarrow> 'a list \<Rightarrow> nat \<Rightarrow> 'a list" where
  "insertion_loop temp s 0 = s[0 := temp]"
| "insertion_loop temp s (Suc n) =
     (if s ! n > temp then insertion_loop temp (s[Suc n := s ! n]) n else s[Suc n := temp])"

definition insertion :: "'a::linorder list \<Rightarrow> 'a list" where
  "insertion array =
     (if length array = 0 then []
      else fold (\<lambda>i s. insertion_loop (s ! i) s i) [1..<length array] array)"

text \<open>The inner loops of \<open>shell\<close> are only entered with a gap of at least one.\<close>

function shell_inner :: "nat \<Rightarrow> 'a::linorder list \<Rightarrow> nat \<Rightarrow> 'a list" where
  "shell_inner gap s j =
     (if 0 < gap \<and> j \<ge> gap \<and> s ! j < s ! (j - gap)
      then shell_inner gap (swap s j (j - gap)) (j - gap) else s)"
  by pat_completeness auto
termination by (relation "measure (\<lambda>(gap, s, j). j)") auto

definition shell_pass :: "nat \<Rightarrow> 'a::linorder list \<Rightarrow> 'a list" where
  "shell_pass gap s = fold (\<lambda>i s. shell_inner gap s i) [gap..<length s] s"

function shell_loop :: "nat \<Rightarrow> 'a::linorder list \<Rightarrow> 'a list" where
  "shell_loop gap s = (if gap \<ge> 1 then shell_loop (gap div 2) (shell_pass gap s) else s)"
  by pat_completeness auto
termination by (relation "measure (\<lambda>(gap, s). gap)") auto

declare shell_inner.simps [simp del] shell_loop.simps [simp del]

definition shell :: "'a::linorder list \<Rightarrow> 'a list" where
  "shell array = (if length array = 0 then [] else shell_loop (length array div 2) array)"

section \<open>The contract\<close>

locale sorting_method =
  fixes srt :: "'a::linorder list \<Rightarrow> 'a list"
  assumes result_sorted: "sorted (srt xs)" and result_mset: "mset (srt xs) = mset xs"
begin

lemma is_sort: "srt xs = sort xs"
  by (metis properties_for_sort result_mset result_sorted sort_key_simps)

lemma result_length: "length (srt xs) = length xs"
  by (metis mset_eq_length result_mset)

lemma idempotent: "srt (srt xs) = srt xs"
  using is_sort result_sorted sorted_sort_id by metis

lemma sorted_fixpoint: "srt xs = xs \<longleftrightarrow> sorted xs"
  by (metis is_sort result_sorted sorted_sort_id)

lemma permutation_invariant: "mset xs = mset ys \<Longrightarrow> srt xs = srt ys"
  by (metis is_sort properties_for_sort result_mset result_sorted)

end

section \<open>Permutations by index\<close>

lemma length_swap [simp]: "length (swap s i j) = length s"
  by (simp add: swap_def)

lemma mset_swap [simp]: "i < length s \<Longrightarrow> j < length s \<Longrightarrow> mset (swap s i j) = mset s"
  unfolding swap_def by (rule Multiset.mset_swap)

lemma swap_nth:
  "i < length s \<Longrightarrow> j < length s \<Longrightarrow> swap s i j ! k = (if k = i then s ! j else if k = j then s ! i else s ! k)"
  by (auto simp: swap_def nth_list_update)

text \<open>A fold over an index range keeps what each step keeps.\<close>

lemma fold_upt_induct:
  assumes "a \<le> b" and "P a s" and "\<And>i s. a \<le> i \<Longrightarrow> i < b \<Longrightarrow> P i s \<Longrightarrow> P (Suc i) (f i s)"
  shows "P b (fold f [a..<b] s)"
proof -
  have "P (a + d) (fold f [a..<a + d] s)" if "a + d \<le> b" for d
    using that
  proof (induction d)
    case (Suc d)
    then show ?case using assms(3) [of "a + d"] by simp
  qed (simp add: assms(2))
  from this [of "b - a"] assms(1) show ?thesis by simp
qed

text \<open>Every position is at least all earlier ones: sortedness by index.\<close>

lemma sorted_index: "sorted s \<longleftrightarrow> (\<forall>q < length s. \<forall>p < q. s ! p \<le> s ! q)"
  by (auto simp: sorted_iff_nth_mono_less)

section \<open>Bubble sort\<close>

lemma bubble_pass_spec:
  assumes "m < length s"
  shows "length (bubble_pass m s) = length s \<and> mset (take (Suc m) (bubble_pass m s)) = mset (take (Suc m) s)
    \<and> (\<forall>q > m. bubble_pass m s ! q = s ! q) \<and> (\<forall>p \<le> m. bubble_pass m s ! p \<le> bubble_pass m s ! m)"
proof -
  let ?P = "\<lambda>j t. length t = length s \<and> mset (take (Suc m) t) = mset (take (Suc m) s)
      \<and> (\<forall>q > m. t ! q = s ! q) \<and> (\<forall>p \<le> j. t ! p \<le> t ! j)"
  have "?P m (bubble_pass m s)"
    unfolding bubble_pass_def
  proof (rule fold_upt_induct [where P = ?P], goal_cases)
    case (3 j t)
    note step = 3
    show ?case
    proof (cases "t ! j > t ! (j + 1)")
      case True
      have "mset (take (Suc m) (swap t j (j + 1))) = mset (take (Suc m) t)"
        unfolding swap_def using step assms by (intro mset_take_swap) auto
      with True step assms show ?thesis by (auto simp: swap_nth le_Suc_eq)
    next
      case False
      with step show ?thesis by (auto simp: le_Suc_eq intro: order_trans)
    qed
  qed auto
  then show ?thesis by simp
qed

lemma bubble_inv:
  assumes "array \<noteq> []"
  shows "length (bubble array) = length array \<and> mset (bubble array) = mset array \<and> sorted (bubble array)"
proof -
  let ?n = "length array"
  let ?P = "\<lambda>i s. length s = ?n \<and> mset s = mset array \<and> (\<forall>q < ?n. ?n - i \<le> q \<longrightarrow> (\<forall>p < q. s ! p \<le> s ! q))"
  have "?P (?n - 1) (fold (\<lambda>i s. bubble_pass (?n - 1 - i) s) [0..<?n - 1] array)"
  proof (rule fold_upt_induct [where P = ?P], goal_cases)
    case (3 i s)
    note step = 3
    let ?m = "?n - 1 - i"
    let ?s = "bubble_pass ?m s"
    have m: "?m < length s" using step by auto
    note b = bubble_pass_spec [OF m]
    have "drop (Suc ?m) ?s = drop (Suc ?m) s"
      using b by (intro nth_equalityI) auto
    then have "mset ?s = mset s" using b by (metis append_take_drop_id mset_append)
    moreover have "?s ! p \<le> ?s ! q" if q: "q < ?n" "?n - Suc i \<le> q" "p < q" for p q
    proof (cases "q = ?m")
      case True
      then show ?thesis using b that(3) by auto
    next
      case False
      then have gt: "?m < q" using q(2) by auto
      have "?s ! p \<in> set (take (Suc ?m) s) \<or> ?s ! p = s ! p \<and> ?m < p"
      proof (cases "p \<le> ?m")
        case True
        then have "?s ! p \<in> set (take (Suc ?m) ?s)" using m b by (auto simp: in_set_conv_nth intro!: exI [of _ p])
        then show ?thesis using b by (metis mset_eq_setD)
      qed (use b in auto)
      then obtain p' where "p' < q" "?s ! p = s ! p'"
      proof
        assume "?s ! p \<in> set (take (Suc ?m) s)"
        then obtain k where "k < Suc ?m" "?s ! p = s ! k" by (auto simp: in_set_conv_nth)
        then show thesis using gt that [of k] by simp
      qed (use q(3) that in blast)
      moreover have "?s ! q = s ! q" using b gt by simp
      ultimately show ?thesis using step(3) q gt by auto
    qed
    ultimately show ?case using step b by auto
  qed auto
  then show ?thesis using assms by (auto simp: bubble_def sorted_index)
qed

interpretation bubble: sorting_method "bubble :: 'a::linorder list \<Rightarrow> 'a list"
proof
  fix xs :: "'a list"
  show "sorted (bubble xs)" "mset (bubble xs) = mset xs"
    using bubble_inv [of xs] by (cases "xs = []"; simp add: bubble_def)+
qed

section \<open>Selection sort\<close>

lemma selection_min_spec:
  assumes "i < length s"
  shows "i \<le> selection_min s i \<and> selection_min s i < length s \<and> (\<forall>q. i \<le> q \<and> q < length s \<longrightarrow> s ! selection_min s i \<le> s ! q)"
proof -
  let ?P = "\<lambda>j m. i \<le> m \<and> m < length s \<and> (\<forall>q. i \<le> q \<and> q < j \<longrightarrow> s ! m \<le> s ! q)"
  have "?P (length s) (selection_min s i)"
    unfolding selection_min_def
  proof (rule fold_upt_induct [where P = ?P], goal_cases)
    case (3 j m)
    then show ?case by (auto simp: less_Suc_eq intro: less_imp_le order_trans)
  qed (use assms in \<open>auto simp: less_Suc_eq_le dest!: le_antisym\<close>)
  then show ?thesis by auto
qed

lemma selection_inv:
  assumes "array \<noteq> []"
  shows "mset (selection array) = mset array \<and> sorted (selection array)"
proof -
  let ?n = "length array"
  let ?P = "\<lambda>i s. length s = ?n \<and> mset s = mset array \<and> (\<forall>p < i. \<forall>q < ?n. p < q \<longrightarrow> s ! p \<le> s ! q)"
  have "?P (?n - 1) (fold (\<lambda>i s. swap s i (selection_min s i)) [0..<?n - 1] array)"
  proof (rule fold_upt_induct [where P = ?P], goal_cases)
    case (3 i s)
    note step = 3
    from step have i: "i < length s" by auto
    note m = selection_min_spec [OF i]
    let ?m = "selection_min s i"
    have "swap s i ?m ! p \<le> swap s i ?m ! q" if "p < Suc i" "q < ?n" "p < q" for p q
    proof (cases "p = i")
      case True
      then show ?thesis using m that i step by (auto simp: swap_nth)
    next
      case False
      then have "p < i" using that by simp
      moreover have "swap s i ?m ! p = s ! p" using m i \<open>p < i\<close> by (auto simp: swap_nth)
      moreover have "\<exists>q' < ?n. p < q' \<and> swap s i ?m ! q = s ! q'"
        using m i that \<open>p < i\<close> step
        by (intro exI [of _ "if q = i then ?m else if q = ?m then i else q"]) (auto simp: swap_nth)
      ultimately show ?thesis using step(3) by auto
    qed
    then show ?case using step m i by auto
  qed auto
  then show ?thesis using assms by (auto simp: selection_def sorted_index)
qed

interpretation selection: sorting_method "selection :: 'a::linorder list \<Rightarrow> 'a list"
proof
  fix xs :: "'a list"
  show "sorted (selection xs)" "mset (selection xs) = mset xs"
    using selection_inv [of xs] by (cases "xs = []"; simp add: selection_def)+
qed

section \<open>Insertion sort\<close>

text \<open>
  The loop shifts the larger part of a sorted prefix by one and puts the value into the gap:
  the slot \<open>k\<close> is free while the prefix in front of it and the part behind it stay sorted.
\<close>

lemma insertion_loop_spec:
  assumes "k \<le> i" "i < length s" "\<forall>q \<le> i. \<forall>p < q. p \<noteq> k \<longrightarrow> q \<noteq> k \<longrightarrow> s ! p \<le> s ! q"
    "\<forall>q \<le> i. k < q \<longrightarrow> temp < s ! q"
  shows "length (insertion_loop temp s k) = length s
    \<and> mset (insertion_loop temp s k) = mset (s[k := temp])
    \<and> (\<forall>q > i. insertion_loop temp s k ! q = s ! q)
    \<and> (\<forall>q \<le> i. \<forall>p < q. insertion_loop temp s k ! p \<le> insertion_loop temp s k ! q)"
  using assms
proof (induction temp s k rule: insertion_loop.induct)
  case (1 temp s)
  then have "0 < length s" by auto
  with 1 show ?case by (auto simp: nth_list_update intro: less_imp_le)
next
  case (2 temp s n)
  show ?case
  proof (cases "s ! n > temp")
    case True
    let ?s = "s[Suc n := s ! n]"
    have "\<forall>q \<le> i. \<forall>p < q. p \<noteq> n \<longrightarrow> q \<noteq> n \<longrightarrow> ?s ! p \<le> ?s ! q"
    proof (intro allI impI)
      fix q p
      assume *: "q \<le> i" "p < q" "p \<noteq> n" "q \<noteq> n"
      show "?s ! p \<le> ?s ! q"
      proof (cases "q = Suc n")
        case True
        then have "p < n" using * by simp
        then show ?thesis using 2 True * by auto
      next
        case False
        then show ?thesis using 2 * by (cases "p = Suc n") auto
      qed
    qed
    moreover have "\<forall>q \<le> i. n < q \<longrightarrow> temp < ?s ! q"
      using 2 True by (auto simp: nth_list_update Suc_lessI)
    ultimately have ih: "length (insertion_loop temp ?s n) = length s
      \<and> mset (insertion_loop temp ?s n) = mset (?s[n := temp])
      \<and> (\<forall>q > i. insertion_loop temp ?s n ! q = ?s ! q)
      \<and> (\<forall>q \<le> i. \<forall>p < q. insertion_loop temp ?s n ! p \<le> insertion_loop temp ?s n ! q)"
      using "2.IH" [OF True] "2.prems"(1,2) by simp
    have "?s[n := temp] = swap (s[Suc n := temp]) n (Suc n)"
      using "2.prems"(1,2) by (simp add: swap_def list_update_swap)
    then have "mset (?s[n := temp]) = mset (s[Suc n := temp])" using "2.prems"(1,2) by simp
    with ih True "2.prems"(1) show ?thesis by auto
  next
    case False
    have *: "s ! p \<le> temp" if "p \<le> n" for p
    proof -
      have "s ! p \<le> s ! n" using that "2.prems"(1,3) by (cases "p = n") auto
      with False show ?thesis by simp
    qed
    have "s[Suc n := temp] ! p \<le> s[Suc n := temp] ! q" if "q \<le> i" "p < q" for p q
    proof (cases "q = Suc n")
      case True
      then show ?thesis using * [of p] that "2.prems"(2) by auto
    next
      case False
      then show ?thesis using that "2.prems" by (cases "p = Suc n") (auto intro: less_imp_le)
    qed
    with False "2.prems"(1) show ?thesis by auto
  qed
qed

lemma insertion_inv:
  assumes "array \<noteq> []"
  shows "mset (insertion array) = mset array \<and> sorted (insertion array)"
proof -
  let ?n = "length array"
  let ?P = "\<lambda>i s. length s = ?n \<and> mset s = mset array \<and> (\<forall>q < i. \<forall>p < q. s ! p \<le> s ! q)"
  have "?P ?n (fold (\<lambda>i s. insertion_loop (s ! i) s i) [1..<?n] array)"
  proof (rule fold_upt_induct [where P = ?P], goal_cases)
    case (3 i s)
    have "length (insertion_loop (s ! i) s i) = length s
      \<and> mset (insertion_loop (s ! i) s i) = mset (s[i := s ! i])
      \<and> (\<forall>q > i. insertion_loop (s ! i) s i ! q = s ! q)
      \<and> (\<forall>q \<le> i. \<forall>p < q. insertion_loop (s ! i) s i ! p \<le> insertion_loop (s ! i) s i ! q)"
      by (rule insertion_loop_spec) (use 3 in \<open>auto simp: le_less\<close>)
    with 3 show ?case by (simp add: less_Suc_eq_le)
  qed (use assms in \<open>auto simp: Suc_le_eq\<close>)
  then show ?thesis using assms by (auto simp: insertion_def sorted_index)
qed

interpretation insertion: sorting_method "insertion :: 'a::linorder list \<Rightarrow> 'a list"
proof
  fix xs :: "'a list"
  show "sorted (insertion xs)" "mset (insertion xs) = mset xs"
    using insertion_inv [of xs] by (cases "xs = []"; simp add: insertion_def)+
qed

section \<open>Shell sort\<close>

lemma shell_inner_stop: "\<not> (0 < gap \<and> j \<ge> gap \<and> s ! j < s ! (j - gap)) \<Longrightarrow> shell_inner gap s j = s"
  by (subst shell_inner.simps) (rule if_not_P)

lemma shell_inner_move:
  "0 < gap \<and> j \<ge> gap \<and> s ! j < s ! (j - gap)
   \<Longrightarrow> shell_inner gap s j = shell_inner gap (swap s j (j - gap)) (j - gap)"
  by (subst shell_inner.simps) (rule if_P)

lemma shell_inner_perm:
  "j < length s \<Longrightarrow> length (shell_inner gap s j) = length s \<and> mset (shell_inner gap s j) = mset s
     \<and> (\<forall>q > j. shell_inner gap s j ! q = s ! q)"
proof (induction gap s j rule: shell_inner.induct)
  case (1 gap s j)
  show ?case
  proof (cases "0 < gap \<and> j \<ge> gap \<and> s ! j < s ! (j - gap)")
    case True
    then have "j - gap < length s" "j - gap \<noteq> j" using "1.prems" by auto
    with 1 True show ?thesis by (auto simp: shell_inner_move [OF True] swap_nth)
  qed (simp add: shell_inner_stop)
qed

text \<open>With gap one the inner loop sinks the element into the sorted part in front of it.\<close>

lemma shell_inner_sorts:
  assumes "j \<le> i" "i < length s" "\<forall>q \<le> i. \<forall>p < q. q \<noteq> j \<longrightarrow> s ! p \<le> s ! q"
  shows "\<forall>q \<le> i. \<forall>p < q. shell_inner 1 s j ! p \<le> shell_inner 1 s j ! q"
  using assms
proof (induction "1::nat" s j rule: shell_inner.induct)
  case (1 s j)
  show ?case
  proof (cases "j \<ge> 1 \<and> s ! j < s ! (j - 1)")
    case True
    let ?s = "swap s j (j - 1)"
    have "\<forall>q \<le> i. \<forall>p < q. q \<noteq> j - 1 \<longrightarrow> ?s ! p \<le> ?s ! q"
    proof (intro allI impI)
      fix q p
      assume *: "q \<le> i" "p < q" "q \<noteq> j - 1"
      have "s ! p \<le> s ! (j - 1)" if "p < j - 1" using that 1 True by auto
      then show "?s ! p \<le> ?s ! q" using * 1 True by (auto simp: swap_nth intro: less_imp_le)
    qed
    with 1 True have "\<forall>q \<le> i. \<forall>p < q. shell_inner 1 ?s (j - 1) ! p \<le> shell_inner 1 ?s (j - 1) ! q" by auto
    moreover have "shell_inner 1 s j = shell_inner 1 ?s (j - 1)" by (rule shell_inner_move) (use True in auto)
    ultimately show ?thesis by simp
  next
    case False
    then have *: "s ! p \<le> s ! j" if "p < j" for p
    proof -
      have "s ! (j - 1) \<le> s ! j" using False that by auto
      moreover have "s ! p \<le> s ! (j - 1)" using that 1 by (cases "p = j - 1") auto
      ultimately show ?thesis by (rule order_trans [rotated])
    qed
    have "shell_inner 1 s j = s" by (rule shell_inner_stop) (use False in auto)
    moreover have "s ! p \<le> s ! q" if "q \<le> i" "p < q" for p q
      using that 1(4) * by (cases "q = j") auto
    ultimately show ?thesis by simp
  qed
qed

lemma shell_pass_perm:
  "0 < gap \<Longrightarrow> length (shell_pass gap s) = length s \<and> mset (shell_pass gap s) = mset s"
proof (cases "gap \<le> length s")
  case True
  let ?P = "\<lambda>i t. length t = length s \<and> mset t = mset s"
  assume "0 < gap"
  then have "?P (length s) (shell_pass gap s)"
    unfolding shell_pass_def
  proof (intro fold_upt_induct [where P = ?P], goal_cases)
    case (3 i t)
    then show ?case using shell_inner_perm [of i t gap] by auto
  qed (use True in auto)
  then show ?thesis .
qed (simp add: shell_pass_def)

lemma shell_pass_sorts: "s \<noteq> [] \<Longrightarrow> sorted (shell_pass 1 s)"
proof -
  assume ne: "s \<noteq> []"
  let ?P = "\<lambda>i t. length t = length s \<and> (\<forall>q < i. \<forall>p < q. t ! p \<le> t ! q)"
  have "?P (length s) (shell_pass 1 s)"
    unfolding shell_pass_def
  proof (rule fold_upt_induct [where P = ?P], goal_cases)
    case (3 i t)
    have "\<forall>q \<le> i. \<forall>p < q. shell_inner 1 t i ! p \<le> shell_inner 1 t i ! q"
      by (rule shell_inner_sorts) (use 3 in \<open>auto simp: le_less\<close>)
    then show ?case using 3 shell_inner_perm [of i t 1] by (simp add: less_Suc_eq_le)
  qed (use ne in \<open>auto simp: Suc_le_eq\<close>)
  then show ?thesis by (simp add: sorted_index)
qed

lemma shell_loop_spec:
  "mset (shell_loop gap s) = mset s \<and> (0 < gap \<longrightarrow> s \<noteq> [] \<longrightarrow> sorted (shell_loop gap s))"
proof (induction gap s rule: shell_loop.induct)
  case (1 gap s)
  show ?case
  proof (cases "gap \<ge> 1")
    case True
    note ih = 1 [OF True] and perm = shell_pass_perm [of gap s]
    have "sorted (shell_loop (gap div 2) (shell_pass gap s))" if "s \<noteq> []"
    proof (cases "gap = 1")
      case True
      then show ?thesis using shell_pass_sorts [OF that] by (simp add: shell_loop.simps)
    next
      case False
      then have "0 < gap div 2" using \<open>gap \<ge> 1\<close> by auto
      moreover have "shell_pass gap s \<noteq> []" using perm True that by auto
      ultimately show ?thesis using ih by simp
    qed
    with True ih perm show ?thesis by (subst (1 2) shell_loop.simps) simp
  qed (simp add: shell_loop.simps)
qed

interpretation shell: sorting_method "shell :: 'a::linorder list \<Rightarrow> 'a list"
proof
  fix xs :: "'a list"
  show "mset (shell xs) = mset xs" by (auto simp: shell_def shell_loop_spec)
  show "sorted (shell xs)"
  proof (cases "length xs div 2 = 0")
    case True
    then have "length xs \<le> 1" by auto
    then show ?thesis using True by (cases xs) (auto simp: shell_def shell_loop.simps)
  next
    case False
    then show ?thesis using shell_loop_spec [of "length xs div 2" xs] by (auto simp: shell_def)
  qed
qed

end
