(* ===== verification/AL_Sort_Divide.thy ===== *)
theory AL_Sort_Divide
  imports AL_Sort_Simple
begin

text \<open>
  The recursive and heap based sorting methods of \<open>src/algorithm/include/sort.hpp\<close>: \<open>merge\<close>,
  \<open>quick\<close> and \<open>heap\<close>. Bounds \<open>begin\<close> and \<open>end\<close> are inclusive, as in the code.
\<close>

section \<open>Operations\<close>

text \<open>\<open>std::vector(sorting + begin, sorting + end + 1)\<close>\<close>

definition seg :: "'a list \<Rightarrow> nat \<Rightarrow> nat \<Rightarrow> 'a list" where
  "seg s b e = take (Suc e - b) (drop b s)"

text \<open>The three loops that write the smaller head of the two parts to \<open>sorting[pos++]\<close>.\<close>

fun merge_write :: "'a::linorder list \<Rightarrow> 'a list \<Rightarrow> 'a list \<Rightarrow> nat \<Rightarrow> 'a list" where
  "merge_write s (a # l) (b # r) pos =
     (if a < b then merge_write (s[pos := a]) l (b # r) (pos + 1)
      else merge_write (s[pos := b]) (a # l) r (pos + 1))"
| "merge_write s (a # l) [] pos = merge_write (s[pos := a]) l [] (pos + 1)"
| "merge_write s [] (b # r) pos = merge_write (s[pos := b]) [] r (pos + 1)"
| "merge_write s [] [] pos = s"

function mergeSortRecursive :: "'a::linorder list \<Rightarrow> nat \<Rightarrow> nat \<Rightarrow> 'a list" where
  "mergeSortRecursive s b e =
     (if b \<ge> e then s
      else
        (let mid = b + (e - b) div 2;
             s = mergeSortRecursive s b mid;
             s = mergeSortRecursive s (mid + 1) e
         in merge_write s (seg s b mid) (seg s (mid + 1) e) b))"
  by pat_completeness auto
termination by (relation "measure (\<lambda>(s, b, e). e - b)") auto

definition merge_sort :: "'a::linorder list \<Rightarrow> 'a list" where
  "merge_sort array = (if length array = 0 then [] else mergeSortRecursive array 0 (length array - 1))"

text \<open>The two scans of \<open>quickSortRecursive\<close> and the loop around them.\<close>

function quick_left :: "'a::linorder list \<Rightarrow> 'a \<Rightarrow> nat \<Rightarrow> nat \<Rightarrow> nat" where
  "quick_left s pivot l r = (if l < r \<and> s ! l < pivot then quick_left s pivot (l + 1) r else l)"
  by pat_completeness auto
termination by (relation "measure (\<lambda>(s, pivot, l, r). r - l)") auto

function quick_right :: "'a::linorder list \<Rightarrow> 'a \<Rightarrow> nat \<Rightarrow> nat \<Rightarrow> nat" where
  "quick_right s pivot l r = (if l < r \<and> s ! r \<ge> pivot then quick_right s pivot l (r - 1) else r)"
  by pat_completeness auto
termination by (relation "measure (\<lambda>(s, pivot, l, r). r)") auto

declare mergeSortRecursive.simps [simp del] quick_left.simps [simp del] quick_right.simps [simp del]

lemma quick_left_spec:
  "l \<le> r \<Longrightarrow> l \<le> quick_left s pivot l r \<and> quick_left s pivot l r \<le> r
     \<and> (\<forall>k. l \<le> k \<and> k < quick_left s pivot l r \<longrightarrow> s ! k < pivot)
     \<and> (quick_left s pivot l r < r \<longrightarrow> pivot \<le> s ! quick_left s pivot l r)"
proof (induction s pivot l r rule: quick_left.induct)
  case (1 s pivot l r)
  show ?case
  proof (cases "l < r \<and> s ! l < pivot")
    case True
    then have "quick_left s pivot l r = quick_left s pivot (l + 1) r" by (subst quick_left.simps) simp
    moreover have "k = l \<or> l + 1 \<le> k" if "l \<le> k" for k using that by auto
    ultimately show ?thesis using 1 True by auto
  next
    case False
    then have "quick_left s pivot l r = l" by (subst quick_left.simps) (rule if_not_P)
    with False 1 show ?thesis by auto
  qed
qed

lemma quick_right_spec:
  "l \<le> r \<Longrightarrow> l \<le> quick_right s pivot l r \<and> quick_right s pivot l r \<le> r
     \<and> (\<forall>k. quick_right s pivot l r < k \<and> k \<le> r \<longrightarrow> pivot \<le> s ! k)
     \<and> (l < quick_right s pivot l r \<longrightarrow> s ! quick_right s pivot l r < pivot)"
proof (induction s pivot l r rule: quick_right.induct)
  case (1 s pivot l r)
  show ?case
  proof (cases "l < r \<and> s ! r \<ge> pivot")
    case True
    then have eq: "quick_right s pivot l r = quick_right s pivot l (r - 1)" by (subst quick_right.simps) simp
    have "l \<le> r - 1" using True by linarith
    note ih = "1.IH" [OF True this]
    have "pivot \<le> s ! k" if "quick_right s pivot l (r - 1) < k" "k \<le> r" for k
      using that ih True by (cases "k = r") auto
    with ih show ?thesis unfolding eq by auto
  next
    case False
    then have "quick_right s pivot l r = r" by (subst quick_right.simps) (rule if_not_P)
    with False 1 show ?thesis by auto
  qed
qed

text \<open>
  Outside the array (\<open>r \<ge> length s\<close>, never reached) the loop stops. An iteration that moves
  neither index swaps a large element for a small one, so the next one moves \<open>l\<close>.
\<close>

function quick_loop :: "'a::linorder list \<Rightarrow> 'a \<Rightarrow> nat \<Rightarrow> nat \<Rightarrow> 'a list \<times> nat" where
  "quick_loop s pivot l r =
     (if l < r \<and> r < length s then
        (let l' = quick_left s pivot l r; r' = quick_right s pivot l' r
         in quick_loop (swap s l' r') pivot l' r')
      else (s, l))"
  by pat_completeness auto
termination
proof (relation "measure (\<lambda>(s, pivot, l, r). 2 * (r - l) + (if s ! l \<ge> pivot then 1 else 0))", goal_cases)
  case (2 s pivot l r l' r')
  then have L: "l \<le> l'" "l' \<le> r" "l' < r \<longrightarrow> pivot \<le> s ! l'" using quick_left_spec [of l r s pivot] by auto
  then have R: "l' \<le> r'" "r' \<le> r" "l' < r' \<longrightarrow> s ! r' < pivot" using quick_right_spec [of l' r s pivot] 2(3) by auto
  show ?case
  proof (cases "l' = l \<and> r' = r")
    case True
    then have "swap s l' r' ! l' = s ! r'" using 2(1) L by (simp add: swap_nth)
    then show ?thesis using True L R 2(1) by auto
  next
    case False
    then have "r' - l' < r - l" using L R by auto
    then show ?thesis by auto
  qed
qed simp

declare quick_loop.simps [simp del]

definition quick_partition :: "'a::linorder list \<Rightarrow> nat \<Rightarrow> nat \<Rightarrow> 'a list \<times> nat" where
  "quick_partition s b e =
     (case quick_loop s (s ! e) b (e - 1) of
        (s, l) \<Rightarrow> if s ! l \<ge> s ! e then (swap s l e, l) else (s, l + 1))"

lemma quick_loop_range:
  "l \<le> r \<Longrightarrow> r < length s \<Longrightarrow> l \<le> snd (quick_loop s pivot l r) \<and> snd (quick_loop s pivot l r) \<le> r"
proof (induction s pivot l r rule: quick_loop.induct)
  case (1 s pivot l r)
  let ?l = "quick_left s pivot l r"
  let ?r = "quick_right s pivot ?l r"
  have L: "l \<le> ?l" "?l \<le> r" using quick_left_spec [OF 1(2)] by auto
  then have R: "?l \<le> ?r" "?r \<le> r" using quick_right_spec [of ?l r] by auto
  show ?case
  proof (cases "l < r")
    case True
    then have "quick_loop s pivot l r = quick_loop (swap s ?l ?r) pivot ?l ?r"
      using 1(3) by (subst quick_loop.simps) (simp add: Let_def)
    then show ?thesis using 1(1) [OF _ refl refl] True 1(3) L R by auto
  next
    case False
    then show ?thesis using 1(2) by (subst (1 2) quick_loop.simps) simp
  qed
qed

lemma quick_loop_outside: "\<not> r < length s \<Longrightarrow> quick_loop s pivot l r = (s, l)"
  by (subst quick_loop.simps) simp

lemma quick_partition_range:
  assumes "b < e"
  shows "b \<le> snd (quick_partition s b e) \<and> snd (quick_partition s b e) \<le> e"
proof (cases "e - 1 < length s")
  case True
  have "b \<le> e - 1" using assms by simp
  from quick_loop_range [OF this True, of "s ! e"] assms show ?thesis
    by (auto simp: quick_partition_def case_prod_beta)
next
  case False
  then show ?thesis using assms by (auto simp: quick_partition_def quick_loop_outside)
qed

function quickSortRecursive :: "'a::linorder list \<Rightarrow> nat \<Rightarrow> nat \<Rightarrow> 'a list" where
  "quickSortRecursive s b e =
     (if b \<ge> e then s
      else
        (let p = quick_partition s b e;
             s = quickSortRecursive (fst p) b (if snd p > 0 then snd p - 1 else 0)
         in quickSortRecursive s (snd p + 1) e))"
  by pat_completeness auto
termination
proof (relation "measure (\<lambda>(s, b, e). e - b)", goal_cases)
  case (2 s b e p)
  then show ?case using quick_partition_range [of b e s] by auto
next
  case (3 s b e p sa)
  then show ?case using quick_partition_range [of b e s] by auto
qed simp

declare quickSortRecursive.simps [simp del]

definition quick :: "'a::linorder list \<Rightarrow> 'a list" where
  "quick array = (if length array = 0 then [] else quickSortRecursive array 0 (length array - 1))"

definition heap_child :: "'a::linorder list \<Rightarrow> nat \<Rightarrow> nat \<Rightarrow> nat" where
  "heap_child s parent e =
     (let child = parent * 2 + 1
      in if child + 1 \<le> e \<and> s ! child < s ! (child + 1) then child + 1 else child)"

function buildMaxHeap :: "'a::linorder list \<Rightarrow> nat \<Rightarrow> nat \<Rightarrow> 'a list" where
  "buildMaxHeap s parent e =
     (if parent * 2 + 1 \<le> e then
        (if s ! parent > s ! heap_child s parent e then s
         else buildMaxHeap (swap s parent (heap_child s parent e)) (heap_child s parent e) e)
      else s)"
  by pat_completeness auto
termination by (relation "measure (\<lambda>(s, parent, e). e - parent)") (auto simp: heap_child_def Let_def)

declare buildMaxHeap.simps [simp del]

definition heap_sort :: "'a::linorder list \<Rightarrow> 'a list" where
  "heap_sort array =
     (if length array = 0 then []
      else
        (let s = fold (\<lambda>i s. buildMaxHeap s i (length array - 1)) (rev [0..<length array div 2 + 2]) array
         in fold (\<lambda>i s. buildMaxHeap (swap s 0 i) 0 (i - 1)) (rev [1..<length array]) s))"

section \<open>Merge sort\<close>

fun merge_lists :: "'a::linorder list \<Rightarrow> 'a list \<Rightarrow> 'a list" where
  "merge_lists (a # l) (b # r) = (if a < b then a # merge_lists l (b # r) else b # merge_lists (a # l) r)"
| "merge_lists l [] = l"
| "merge_lists [] r = r"

lemma merge_lists_mset [simp]: "mset (merge_lists l r) = mset l + mset r"
  by (induction l r rule: merge_lists.induct) auto

lemma merge_lists_set: "set (merge_lists l r) = set l \<union> set r"
  by (metis merge_lists_mset set_mset_mset set_mset_union)

lemma merge_lists_length: "length (merge_lists l r) = length l + length r"
  by (metis merge_lists_mset size_mset size_union)

lemma merge_lists_sorted: "sorted l \<Longrightarrow> sorted r \<Longrightarrow> sorted (merge_lists l r)"
  by (induction l r rule: merge_lists.induct) (auto simp: merge_lists_set)

lemma write_step:
  "pos < length s \<Longrightarrow> take (Suc pos) (s[pos := a]) = take pos s @ [a]
     \<and> drop (Suc pos + n) (s[pos := a]) = drop (Suc pos + n) s"
  by (simp add: take_Suc_conv_app_nth)

lemma merge_write_spec:
  "pos + length l + length r \<le> length s
   \<Longrightarrow> merge_write s l r pos = take pos s @ merge_lists l r @ drop (pos + length l + length r) s"
proof (induction s l r pos rule: merge_write.induct)
  case (1 s a l b r pos)
  then show ?case
    using write_step [of pos s a "length l + length r + 1"] write_step [of pos s b "length l + length r + 1"]
    by (auto simp: add.assoc)
next
  case (2 s a l pos)
  have "merge_lists l [] = l" for l :: "'a list" by (cases l) auto
  with 2 show ?case using write_step [of pos s a "length l"] by simp
next
  case (3 s b r pos)
  have "merge_lists [] r = r" for r :: "'a list" by (cases r) auto
  with 3 show ?case using write_step [of pos s b "length r"] by simp
qed simp

lemma seg_append: "length xs = b \<Longrightarrow> length ys = Suc e - b \<Longrightarrow> seg (xs @ ys @ zs) b e = ys"
  by (simp add: seg_def)

lemma mergeSort_spec:
  "b \<le> e \<Longrightarrow> e < length s \<Longrightarrow>
   \<exists>ys. mergeSortRecursive s b e = take b s @ ys @ drop (Suc e) s \<and> mset ys = mset (seg s b e) \<and> sorted ys"
proof (induction s b e rule: mergeSortRecursive.induct)
  case (1 s b e)
  show ?case
  proof (cases "b = e")
    case True
    have "s = take b s @ [s ! b] @ drop (Suc b) s" using 1 True by (simp add: id_take_nth_drop)
    moreover have "seg s b b = [s ! b]" using 1 True by (simp add: seg_def take_Suc_conv_app_nth flip: Cons_nth_drop_Suc)
    ultimately show ?thesis using True by (intro exI [of _ "[s ! b]"]) (simp add: mergeSortRecursive.simps)
  next
    case False
    then have lt: "\<not> b \<ge> e" using 1 by simp
    define mid where "mid = b + (e - b) div 2"
    have mid: "b \<le> mid" "mid < e" using lt by (auto simp: mid_def)
    obtain ys1 where ys1: "mergeSortRecursive s b mid = take b s @ ys1 @ drop (Suc mid) s"
      "mset ys1 = mset (seg s b mid)" "sorted ys1"
      using "1.IH"(1) [OF lt mid_def] mid "1.prems" by auto
    let ?s1 = "mergeSortRecursive s b mid"
    have len1: "length ys1 = Suc mid - b" using mset_eq_length [OF ys1(2)] mid "1.prems" by (simp add: seg_def)
    then have l1: "length ?s1 = length s" using ys1(1) mid "1.prems" by simp
    obtain ys2 where ys2: "mergeSortRecursive ?s1 (mid + 1) e = take (mid + 1) ?s1 @ ys2 @ drop (Suc e) ?s1"
      "mset ys2 = mset (seg ?s1 (mid + 1) e)" "sorted ys2"
      using "1.IH"(2) [OF lt mid_def refl] mid "1.prems" l1 by auto
    let ?s2 = "mergeSortRecursive ?s1 (mid + 1) e"
    have tk: "take (mid + 1) ?s1 = take b s @ ys1" using ys1(1) len1 mid "1.prems" by simp
    have dr: "drop (Suc e) ?s1 = drop (Suc e) s" using ys1(1) len1 mid "1.prems" by simp
    have sg: "seg ?s1 (mid + 1) e = seg s (mid + 1) e" using ys1(1) len1 mid "1.prems" by (simp add: seg_def)
    have len2: "length ys2 = e - mid" using mset_eq_length [OF ys2(2)] mid "1.prems" l1 by (simp add: seg_def)
    have s2: "?s2 = take b s @ ys1 @ ys2 @ drop (Suc e) s" using ys2(1) tk dr by simp
    have "seg ?s2 b mid = ys1" unfolding s2 using len1 mid "1.prems" by (intro seg_append) auto
    moreover have "seg ?s2 (mid + 1) e = ys2"
      unfolding s2 using seg_append [of "take b s @ ys1" "mid + 1" ys2 e "drop (Suc e) s"] len1 len2 mid "1.prems" by simp
    moreover have "mergeSortRecursive s b e = merge_write ?s2 (seg ?s2 b mid) (seg ?s2 (mid + 1) e) b"
      using lt by (subst mergeSortRecursive.simps) (simp add: Let_def mid_def)
    ultimately have "mergeSortRecursive s b e = take b ?s2 @ merge_lists ys1 ys2 @ drop (b + length ys1 + length ys2) ?s2"
      using merge_write_spec [of b ys1 ys2 ?s2] len1 len2 mid "1.prems" s2 by simp
    also have "\<dots> = take b s @ merge_lists ys1 ys2 @ drop (Suc e) s"
      unfolding s2 using len1 len2 mid "1.prems" by simp
    finally have "mergeSortRecursive s b e = take b s @ merge_lists ys1 ys2 @ drop (Suc e) s" .
    moreover have "seg s b e = seg s b mid @ seg s (mid + 1) e"
    proof -
      have eq: "Suc e - b = (Suc mid - b) + (e - mid)" and "(Suc mid - b) + b = Suc mid" using mid by auto
      then have "drop (Suc mid - b) (drop b s) = drop (Suc mid) s" by simp
      then show ?thesis by (simp only: seg_def eq take_add) simp
    qed
    ultimately show ?thesis using ys1 ys2 sg merge_lists_sorted by (intro exI [of _ "merge_lists ys1 ys2"]) simp
  qed
qed

interpretation merge: sorting_method "merge_sort :: 'a::linorder list \<Rightarrow> 'a list"
proof
  fix xs :: "'a list"
  have "sorted (merge_sort xs) \<and> mset (merge_sort xs) = mset xs"
  proof (cases "xs = []")
    case False
    then show ?thesis using mergeSort_spec [of 0 "length xs - 1" xs] by (auto simp: merge_sort_def seg_def)
  qed (simp add: merge_sort_def)
  then show "sorted (merge_sort xs)" "mset (merge_sort xs) = mset xs" by auto
qed

section \<open>Changes inside a range\<close>

definition only_in :: "nat \<Rightarrow> nat \<Rightarrow> 'a list \<Rightarrow> 'a list \<Rightarrow> bool" where
  "only_in b e s t = (length t = length s \<and> mset t = mset s \<and> (\<forall>k. k < b \<or> e < k \<longrightarrow> t ! k = s ! k))"

lemma only_in_refl: "only_in b e s s"
  by (simp add: only_in_def)

lemma only_in_trans: "only_in b e s t \<Longrightarrow> only_in b e t u \<Longrightarrow> only_in b e s u"
  by (auto simp: only_in_def)

lemma only_in_mono: "only_in b' e' s t \<Longrightarrow> b \<le> b' \<Longrightarrow> e' \<le> e \<Longrightarrow> only_in b e s t"
  by (auto simp: only_in_def)

lemma only_in_swap:
  "i < length s \<Longrightarrow> j < length s \<Longrightarrow> b \<le> i \<Longrightarrow> i \<le> e \<Longrightarrow> b \<le> j \<Longrightarrow> j \<le> e \<Longrightarrow> only_in b e s (swap s i j)"
  by (auto simp: only_in_def swap_nth)

text \<open>The elements of the range are the same before and after.\<close>

lemma only_in_elem:
  assumes "only_in b e s t" "b \<le> k" "k \<le> e" "e < length s"
  obtains k' where "b \<le> k'" "k' \<le> e" "t ! k = s ! k'"
proof -
  have len: "length t = length s" and out: "\<And>k. k < b \<or> e < k \<Longrightarrow> t ! k = s ! k" and m: "mset t = mset s"
    using assms(1) by (auto simp: only_in_def)
  have split: "xs = take b xs @ take (Suc e - b) (drop b xs) @ drop (Suc e) xs" if "length xs = length s" for xs :: "'a list"
    using assms(2-4) that
    by (metis (no_types, opaque_lifting) append_take_drop_id drop_drop le_SucI le_add_diff_inverse2 le_trans)
  have "take b t = take b s" using len out assms(2-4) by (intro nth_equalityI) auto
  moreover have "drop (Suc e) t = drop (Suc e) s" using len out by (intro nth_equalityI) auto
  ultimately have "mset (take (Suc e - b) (drop b t)) = mset (take (Suc e - b) (drop b s))"
    using m split [of t] split [of s] len by (metis add_left_cancel add_right_cancel mset_append)
  moreover have "t ! k \<in> set (take (Suc e - b) (drop b t))"
    using assms(2-4) len by (auto simp: in_set_conv_nth intro!: exI [of _ "k - b"])
  ultimately have "t ! k \<in> set (take (Suc e - b) (drop b s))" by (metis mset_eq_setD)
  then obtain j where "j < Suc e - b" "t ! k = s ! (b + j)"
    using assms(4) by (auto simp: in_set_conv_nth)
  then show thesis using that [of "b + j"] by auto
qed

section \<open>Quick sort\<close>

text \<open>
  Behind the right index everything is at least the pivot, in front of the left one everything
  is smaller, and the element at the right index is at least the pivot as soon as it has moved.
\<close>

lemma quick_loop_spec:
  assumes "b \<le> l" "l \<le> r" "r < e" "e < length s"
    "\<forall>k. b \<le> k \<and> k < l \<longrightarrow> s ! k < pivot" "\<forall>k. r < k \<and> k < e \<longrightarrow> pivot \<le> s ! k"
    "r = e - 1 \<or> pivot \<le> s ! r" "quick_loop s pivot l r = (t, l')"
  shows "only_in b (e - 1) s t \<and> l \<le> l' \<and> l' \<le> r \<and> (\<forall>k. b \<le> k \<and> k < l' \<longrightarrow> t ! k < pivot)
    \<and> (\<forall>k. l' < k \<and> k < e \<longrightarrow> pivot \<le> t ! k) \<and> (l' = e - 1 \<or> pivot \<le> t ! l')"
  using assms
proof (induction s pivot l r rule: quick_loop.induct)
  case (1 s pivot l r)
  show ?case
  proof (cases "l < r")
    case False
    then have "quick_loop s pivot l r = (s, l)" "l = r" using "1.prems"(2) by (subst quick_loop.simps, auto)
    with "1.prems" show ?thesis by (auto simp: only_in_refl)
  next
    case True
    let ?l = "quick_left s pivot l r"
    let ?r = "quick_right s pivot ?l r"
    let ?s = "swap s ?l ?r"
    have guard: "l < r \<and> r < length s" using True "1.prems"(3,4) by auto
    have L: "l \<le> ?l" "?l \<le> r" "\<And>k. l \<le> k \<Longrightarrow> k < ?l \<Longrightarrow> s ! k < pivot" "?l < r \<Longrightarrow> pivot \<le> s ! ?l"
      using quick_left_spec [OF "1.prems"(2), of s pivot] by auto
    have R: "?l \<le> ?r" "?r \<le> r" "\<And>k. ?r < k \<Longrightarrow> k \<le> r \<Longrightarrow> pivot \<le> s ! k"
      using quick_right_spec [OF L(2), of s pivot] by auto
    have in_s: "?l < length s" "?r < length s" using L R guard by auto
    have loop: "quick_loop ?s pivot ?l ?r = (t, l')"
      using "1.prems"(8) guard by (subst (asm) quick_loop.simps) (simp add: Let_def)
    have "?s ! k < pivot" if "b \<le> k" "k < ?l" for k
      using that L R "1.prems"(5) in_s by (cases "k < l") (auto simp: swap_nth)
    moreover have "pivot \<le> ?s ! k" if "?r < k" "k < e" for k
      using that L R "1.prems"(6) in_s by (cases "k \<le> r") (auto simp: swap_nth)
    moreover have "?r = e - 1 \<or> pivot \<le> ?s ! ?r"
    proof (cases "?l < r")
      case True
      then show ?thesis using L in_s by (auto simp: swap_nth)
    next
      case False
      then have "?l = r" "?r = r" using L R by auto
      then show ?thesis using "1.prems"(7) in_s by (auto simp: swap_nth)
    qed
    ultimately have "only_in b (e - 1) ?s t \<and> ?l \<le> l' \<and> l' \<le> ?r \<and> (\<forall>k. b \<le> k \<and> k < l' \<longrightarrow> t ! k < pivot)
        \<and> (\<forall>k. l' < k \<and> k < e \<longrightarrow> pivot \<le> t ! k) \<and> (l' = e - 1 \<or> pivot \<le> t ! l')"
      using "1.IH" [OF guard refl refl] "1.prems"(1-4) L R loop by simp
    moreover have "only_in b (e - 1) s ?s" using L R in_s "1.prems"(1-3) by (intro only_in_swap) auto
    ultimately show ?thesis using L R only_in_trans by (metis order_trans)
  qed
qed

lemma quick_partition_spec:
  assumes "b < e" "e < length s" "quick_partition s b e = (t, l)"
  shows "only_in b e s t \<and> b \<le> l \<and> l \<le> e \<and> (\<forall>k. b \<le> k \<and> k < l \<longrightarrow> t ! k \<le> t ! l)
    \<and> (\<forall>k. l < k \<and> k \<le> e \<longrightarrow> t ! l \<le> t ! k)"
proof -
  obtain u j where u: "quick_loop s (s ! e) b (e - 1) = (u, j)" by fastforce
  have j: "only_in b (e - 1) s u" "b \<le> j" "j \<le> e - 1" "\<And>k. b \<le> k \<Longrightarrow> k < j \<Longrightarrow> u ! k < s ! e"
    "\<And>k. j < k \<Longrightarrow> k < e \<Longrightarrow> s ! e \<le> u ! k" "j = e - 1 \<or> s ! e \<le> u ! j"
  proof -
    have "b \<le> e - 1" "e - 1 < e" "\<forall>k. b \<le> k \<and> k < b \<longrightarrow> s ! k < s ! e" "\<forall>k. e - 1 < k \<and> k < e \<longrightarrow> s ! e \<le> s ! k"
      using assms(1) by auto
    from quick_loop_spec [OF order_refl this(1,2) assms(2) this(3,4) _ u]
    show "only_in b (e - 1) s u" "b \<le> j" "j \<le> e - 1" "\<And>k. b \<le> k \<Longrightarrow> k < j \<Longrightarrow> u ! k < s ! e"
      "\<And>k. j < k \<Longrightarrow> k < e \<Longrightarrow> s ! e \<le> u ! k" "j = e - 1 \<or> s ! e \<le> u ! j" by simp_all
  qed
  have e: "u ! e = s ! e" "length u = length s" using j(1) assms(1) by (auto simp: only_in_def)
  have je: "j < e" using j(3) assms(1) by simp
  have in_u: "only_in b e s u" using j(1) by (rule only_in_mono) auto
  show ?thesis
  proof (cases "u ! j \<ge> u ! e")
    case True
    then have t: "t = swap u j e" "l = j" using assms(3) u by (auto simp: quick_partition_def)
    have "only_in b e u t" unfolding t using je j(2) e assms(2) by (intro only_in_swap) auto
    moreover have "t ! k \<le> t ! j" if "b \<le> k" "k < j" for k
      using j(4) [OF that] that je e assms(2) by (auto simp: t swap_nth)
    moreover have "t ! j \<le> t ! k" if "j < k" "k \<le> e" for k
      using j(5) [of k] that je e assms(2) True by (auto simp: t swap_nth)
    ultimately show ?thesis using in_u only_in_trans je j(2) t(2) by (metis less_imp_le)
  next
    case False
    then have "j = e - 1" using j(6) e by auto
    then have t: "t = u" "l = e" using False assms(1,3) u by (auto simp: quick_partition_def)
    have "u ! k \<le> u ! e" if "b \<le> k" "k < e" for k
    proof -
      have "k = j \<or> k < j" using that(2) \<open>j = e - 1\<close> by linarith
      then show ?thesis using that(1) j(4) [of k] False e(1) by auto
    qed
    then show ?thesis using in_u t assms(1) by auto
  qed
qed

lemma quickSort_spec:
  assumes "e < length s"
  shows "only_in b e s (quickSortRecursive s b e)
    \<and> (\<forall>p q. b \<le> p \<and> p < q \<and> q \<le> e \<longrightarrow> quickSortRecursive s b e ! p \<le> quickSortRecursive s b e ! q)"
  using assms
proof (induction s b e rule: quickSortRecursive.induct)
  case (1 s b e)
  show ?case
  proof (cases "b \<ge> e")
    case True
    then show ?thesis by (auto simp: quickSortRecursive.simps only_in_refl)
  next
    case False
    obtain t l where tl: "quick_partition s b e = (t, l)" by fastforce
    note part = quick_partition_spec [OF _ "1.prems" tl]
    have part: "only_in b e s t" "b \<le> l" "l \<le> e" "\<And>k. b \<le> k \<Longrightarrow> k < l \<Longrightarrow> t ! k \<le> t ! l"
      "\<And>k. l < k \<Longrightarrow> k \<le> e \<Longrightarrow> t ! l \<le> t ! k" using part False by auto
    define e' where "e' = (if l > 0 then l - 1 else 0)"
    let ?u = "quickSortRecursive t b e'"
    let ?v = "quickSortRecursive ?u (l + 1) e"
    have len: "length t = length s" using part(1) by (simp add: only_in_def)
    have e': "e' \<le> e" "l > 0 \<Longrightarrow> e' < l" using part(3) by (auto simp: e'_def)
    have et: "e' < length t" using len "1.prems" e'(1) by simp
    then have U: "only_in b e' t ?u" "\<And>p q. b \<le> p \<Longrightarrow> p < q \<Longrightarrow> q \<le> e' \<Longrightarrow> ?u ! p \<le> ?u ! q"
      using "1.IH"(1) [OF False refl, unfolded tl fst_conv snd_conv] unfolding e'_def by simp_all
    then have lenu: "length ?u = length s" using len by (simp add: only_in_def)
    have V: "only_in (l + 1) e ?u ?v" "\<And>p q. l < p \<Longrightarrow> p < q \<Longrightarrow> q \<le> e \<Longrightarrow> ?v ! p \<le> ?v ! q"
      using "1.IH"(2) [OF False refl refl, unfolded tl fst_conv snd_conv] lenu "1.prems"
      unfolding e'_def by simp_all
    have eq: "quickSortRecursive s b e = ?v"
      using False tl by (subst quickSortRecursive.simps) (simp add: Let_def e'_def)
    have low: "?v ! k = ?u ! k" if "k \<le> l" for k using V(1) that by (simp add: only_in_def)
    have ul: "?u ! l = t ! l"
    proof (cases "l = 0")
      case True
      then have "e' = 0" "b = 0" using part(2) by (auto simp: e'_def)
      then show ?thesis by (simp add: quickSortRecursive.simps)
    next
      case False
      then show ?thesis using U(1) e'(2) by (simp add: only_in_def)
    qed
    have left: "?u ! k \<le> t ! l" if bk: "b \<le> k" "k < l" for k
    proof -
      have "k \<le> e'" using bk by (auto simp: e'_def)
      then obtain k' where "b \<le> k'" "k' \<le> e'" "?u ! k = t ! k'"
        using only_in_elem [OF U(1) bk(1) _ et] by blast
      then show ?thesis using part(4) e'(2) bk by auto
    qed
    have right: "t ! l \<le> ?v ! k" if lk: "l < k" "k \<le> e" for k
    proof -
      obtain k' where k': "l + 1 \<le> k'" "k' \<le> e" "?v ! k = ?u ! k'"
        by (rule only_in_elem [OF V(1), of k]) (use lk lenu "1.prems" in auto)
      then have "e' < k'" using e'(2) by (auto simp: e'_def)
      then have "?u ! k' = t ! k'" using U(1) by (simp add: only_in_def)
      then show ?thesis using part(5) k' by auto
    qed
    have "?v ! p \<le> ?v ! q" if "b \<le> p" "p < q" "q \<le> e" for p q
    proof -
      consider "q < l" | "q = l" | "p < l" "l < q" | "p = l" | "l < p" using that by linarith
      then show ?thesis
      proof cases
        case 1
        then have "q \<le> e'" by (auto simp: e'_def)
        then show ?thesis using 1 that low U(2) by auto
      next
        case 2
        then show ?thesis using that low ul left by auto
      next
        case 3
        then show ?thesis using that low left right order_trans by (metis less_imp_le)
      next
        case 4
        then show ?thesis using that low ul right by auto
      next
        case 5
        then show ?thesis using that V(2) by auto
      qed
    qed
    moreover have "only_in b e t ?u" using U(1) by (rule only_in_mono) (auto simp: e'(1))
    moreover have "only_in b e ?u ?v" using V(1) by (rule only_in_mono) (use part(2) in auto)
    ultimately show ?thesis unfolding eq using part(1) only_in_trans by metis
  qed
qed

interpretation quick: sorting_method "quick :: 'a::linorder list \<Rightarrow> 'a list"
proof
  fix xs :: "'a list"
  have "sorted (quick xs) \<and> mset (quick xs) = mset xs"
  proof (cases "xs = []")
    case False
    then show ?thesis using quickSort_spec [of "length xs - 1" xs 0]
      by (auto simp: quick_def only_in_def sorted_index)
  qed (simp add: quick_def)
  then show "sorted (quick xs)" "mset (quick xs) = mset xs" by auto
qed

section \<open>Heap sort\<close>

text \<open>
  The heap order on the positions up to \<open>e\<close>, for the parents from \<open>lo\<close> on, except at the parent
  \<open>p\<close>; the children of \<open>p\<close> are at most the parent of \<open>p\<close>.
\<close>

definition heap_except :: "nat \<Rightarrow> nat \<Rightarrow> nat option \<Rightarrow> 'a::linorder list \<Rightarrow> bool" where
  "heap_except lo e p s =
     (\<forall>c. 0 < c \<and> c \<le> e \<and> lo \<le> (c - 1) div 2 \<longrightarrow>
        (if Some ((c - 1) div 2) = p
         then 0 < (c - 1) div 2 \<and> lo \<le> ((c - 1) div 2 - 1) div 2 \<longrightarrow> s ! c \<le> s ! (((c - 1) div 2 - 1) div 2)
         else s ! c \<le> s ! ((c - 1) div 2)))"

abbreviation max_heap :: "nat \<Rightarrow> nat \<Rightarrow> 'a::linorder list \<Rightarrow> bool" where
  "max_heap lo e s \<equiv> heap_except lo e None s"

lemma heap_child_cases:
  assumes "p * 2 + 1 \<le> e"
  shows "(heap_child s p e - 1) div 2 = p" "p < heap_child s p e" "heap_child s p e \<le> e"
    "\<And>c. 0 < c \<Longrightarrow> c \<le> e \<Longrightarrow> (c - 1) div 2 = p \<Longrightarrow> s ! c \<le> s ! heap_child s p e"
proof -
  have c: "c = p * 2 + 1 \<or> c = p * 2 + 2" if "0 < c" "(c - 1) div 2 = p" for c using that by linarith
  show "(heap_child s p e - 1) div 2 = p" "p < heap_child s p e" "heap_child s p e \<le> e"
    using assms by (auto simp: heap_child_def Let_def)
  show "s ! c \<le> s ! heap_child s p e" if "0 < c" "c \<le> e" "(c - 1) div 2 = p" for c
    using c [OF that(1,3)] that(2) by (auto simp: heap_child_def Let_def)
qed

lemma heap_sift_step:
  assumes "heap_except lo e (Some p) s" "lo \<le> p" "e < length s" "p * 2 + 1 \<le> e" "\<not> s ! p > s ! heap_child s p e"
  shows "heap_except lo e (Some (heap_child s p e)) (swap s p (heap_child s p e))"
proof -
  let ?m = "heap_child s p e"
  note ch = heap_child_cases [OF assms(4), where s = s]
  have len: "p < length s" "?m < length s" using assms(3,4) ch by auto
  have nth: "swap s p ?m ! k = (if k = p then s ! ?m else if k = ?m then s ! p else s ! k)" for k
    using len by (rule swap_nth)
  show ?thesis
    unfolding heap_except_def
  proof (intro allI impI, elim conjE)
    fix c
    assume c: "0 < c" "c \<le> e" "lo \<le> (c - 1) div 2"
    let ?q = "(c - 1) div 2"
    have qc: "?q < c" using c(1) by linarith
    show "if Some ?q = Some ?m
      then 0 < ?q \<and> lo \<le> (?q - 1) div 2 \<longrightarrow> swap s p ?m ! c \<le> swap s p ?m ! ((?q - 1) div 2)
      else swap s p ?m ! c \<le> swap s p ?m ! ?q"
    proof (cases "?q = ?m")
      case True
      then have "s ! c \<le> s ! ?m" using assms(1) c ch(2) by (auto simp: heap_except_def)
      moreover have "(?q - 1) div 2 = p" using True ch(1) by simp
      moreover have "c \<noteq> p" "c \<noteq> ?m" using True qc ch(2) by auto
      ultimately show ?thesis using True by (simp add: nth)
    next
      case False
      have "swap s p ?m ! c \<le> swap s p ?m ! ?q"
      proof (cases "?q = p")
        case True
        then have "s ! c \<le> s ! ?m" using ch(4) c by auto
        then show ?thesis using True qc assms(5) by (auto simp: nth)
      next
        case qp: False
        show ?thesis
        proof (cases "c = p")
          case True
          have "0 < ?m" "0 < p" using ch(2) True c(1) by auto
          then have "s ! ?m \<le> s ! ?q" using assms(1) ch(1,3) True c(3) assms(2) by (auto simp: heap_except_def)
          then show ?thesis using True qp False ch(2) by (auto simp: nth)
        next
          case cp: False
          have "c \<noteq> ?m" using qp ch(1) by auto
          then show ?thesis using assms(1) c cp qp False by (auto simp: heap_except_def nth)
        qed
      qed
      then show ?thesis using False by simp
    qed
  qed
qed

lemma buildMaxHeap_spec:
  "heap_except lo e (Some p) s \<Longrightarrow> lo \<le> p \<Longrightarrow> e < length s
   \<Longrightarrow> max_heap lo e (buildMaxHeap s p e) \<and> only_in lo e s (buildMaxHeap s p e)"
proof (induction s p e rule: buildMaxHeap.induct)
  case (1 s p e)
  let ?m = "heap_child s p e"
  show ?case
  proof (cases "p * 2 + 1 \<le> e")
    case True
    note ch = heap_child_cases [OF True, where s = s]
    show ?thesis
    proof (cases "s ! p > s ! ?m")
      case gt: True
      have "max_heap lo e s"
        unfolding heap_except_def
      proof (intro allI impI, elim conjE)
        fix c assume c: "0 < c" "c \<le> e" "lo \<le> (c - 1) div 2"
        have "s ! c \<le> s ! ((c - 1) div 2)"
        proof (cases "(c - 1) div 2 = p")
          case True
          then show ?thesis using ch(4) [OF c(1,2) True] gt by auto
        next
          case False
          then show ?thesis using 1(2) c by (auto simp: heap_except_def)
        qed
        then show "if Some ((c - 1) div 2) = None
          then 0 < (c - 1) div 2 \<and> lo \<le> ((c - 1) div 2 - 1) div 2 \<longrightarrow> s ! c \<le> s ! (((c - 1) div 2 - 1) div 2)
          else s ! c \<le> s ! ((c - 1) div 2)" by simp
      qed
      moreover have "buildMaxHeap s p e = s" using True gt by (subst buildMaxHeap.simps) simp
      ultimately show ?thesis by (simp add: only_in_refl)
    next
      case le: False
      have eq: "buildMaxHeap s p e = buildMaxHeap (swap s p ?m) ?m e"
        using True le by (subst buildMaxHeap.simps) simp
      have "max_heap lo e (buildMaxHeap (swap s p ?m) ?m e) \<and> only_in lo e (swap s p ?m) (buildMaxHeap (swap s p ?m) ?m e)"
        using "1.IH" [OF True le] heap_sift_step [OF "1.prems" True le] "1.prems"(2,3) ch(2) by simp
      moreover have "only_in lo e s (swap s p ?m)"
        using "1.prems"(2,3) ch True by (intro only_in_swap) auto
      ultimately show ?thesis unfolding eq using only_in_trans by metis
    qed
  next
    case False
    then have "c \<le> e \<Longrightarrow> 0 < c \<Longrightarrow> (c - 1) div 2 \<noteq> p" for c by linarith
    then have "max_heap lo e s" using "1.prems"(1) by (simp add: heap_except_def)
    moreover have "buildMaxHeap s p e = s" using False by (subst buildMaxHeap.simps) simp
    ultimately show ?thesis by (simp add: only_in_refl)
  qed
qed

lemma max_heap_root:
  assumes "max_heap 0 e s"
  shows "c \<le> e \<Longrightarrow> s ! c \<le> s ! 0"
proof (induction c rule: less_induct)
  case (less c)
  show ?case
  proof (cases "c = 0")
    case False
    then have "s ! c \<le> s ! ((c - 1) div 2)" using assms less.prems by (simp add: heap_except_def)
    moreover have "s ! ((c - 1) div 2) \<le> s ! 0" using less.IH [of "(c - 1) div 2"] less.prems False by auto
    ultimately show ?thesis by (rule order_trans)
  qed simp
qed

lemma fold_downto_induct:
  assumes "a \<le> b" and "P b s" and "\<And>i s. a \<le> i \<Longrightarrow> i < b \<Longrightarrow> P (Suc i) s \<Longrightarrow> P i (f i s)"
  shows "P a (fold f (rev [a..<b]) s)"
  using assms
proof (induction "b - a" arbitrary: b s)
  case 0
  then show ?case by simp
next
  case (Suc n)
  then obtain b' where b': "b = Suc b'" "a \<le> b'" by (cases b) auto
  then have "P b' (f b' s)" using Suc.prems by simp
  with Suc b' show ?case by simp
qed

lemma heap_build:
  assumes "array \<noteq> []"
  shows "max_heap 0 (length array - 1) (fold (\<lambda>i s. buildMaxHeap s i (length array - 1)) (rev [0..<length array div 2 + 2]) array)
    \<and> only_in 0 (length array - 1) array (fold (\<lambda>i s. buildMaxHeap s i (length array - 1)) (rev [0..<length array div 2 + 2]) array)"
proof -
  let ?e = "length array - 1"
  let ?P = "\<lambda>i s. max_heap i ?e s \<and> only_in 0 ?e array s"
  show ?thesis
  proof (rule fold_downto_induct [where P = ?P], goal_cases)
    case 2
    have "max_heap (length array div 2 + 2) ?e array"
      unfolding heap_except_def
    proof (intro allI impI, elim conjE)
      fix c assume "c \<le> ?e" "length array div 2 + 2 \<le> (c - 1) div 2"
      then have False by linarith
      then show "if Some ((c - 1) div 2) = None
        then 0 < (c - 1) div 2 \<and> length array div 2 + 2 \<le> ((c - 1) div 2 - 1) div 2
          \<longrightarrow> array ! c \<le> array ! (((c - 1) div 2 - 1) div 2)
        else array ! c \<le> array ! ((c - 1) div 2)" ..
    qed
    then show ?case by (simp add: only_in_refl)
  next
    case (3 i s)
    have "heap_except i ?e (Some i) s"
      unfolding heap_except_def
    proof (intro allI impI, elim conjE)
      fix c assume c: "0 < c" "c \<le> ?e" "i \<le> (c - 1) div 2"
      show "if Some ((c - 1) div 2) = Some i
        then 0 < (c - 1) div 2 \<and> i \<le> ((c - 1) div 2 - 1) div 2 \<longrightarrow> s ! c \<le> s ! (((c - 1) div 2 - 1) div 2)
        else s ! c \<le> s ! ((c - 1) div 2)"
      proof (cases "(c - 1) div 2 = i")
        case True
        then have "\<not> (0 < i \<and> i \<le> (i - 1) div 2)" by linarith
        with True show ?thesis by auto
      next
        case False
        then show ?thesis using 3 c by (auto simp: heap_except_def)
      qed
    qed
    moreover have "?e < length s" using 3 assms by (simp add: only_in_def)
    ultimately have "max_heap i ?e (buildMaxHeap s i ?e) \<and> only_in i ?e s (buildMaxHeap s i ?e)"
      by (intro buildMaxHeap_spec) auto
    then show ?case using 3 only_in_mono [of i ?e s _ 0 ?e] only_in_trans by blast
  qed simp
qed

lemma heap_extract:
  assumes "array \<noteq> []" "max_heap 0 (length array - 1) s0" "only_in 0 (length array - 1) array s0"
  shows "mset (fold (\<lambda>i s. buildMaxHeap (swap s 0 i) 0 (i - 1)) (rev [1..<length array]) s0) = mset array
    \<and> sorted (fold (\<lambda>i s. buildMaxHeap (swap s 0 i) 0 (i - 1)) (rev [1..<length array]) s0)"
proof -
  let ?n = "length array"
  let ?P = "\<lambda>i s. length s = ?n \<and> mset s = mset array \<and> max_heap 0 (i - 1) s
      \<and> (\<forall>q < ?n. i \<le> q \<longrightarrow> (\<forall>p < q. s ! p \<le> s ! q))"
  have "?P 1 (fold (\<lambda>i s. buildMaxHeap (swap s 0 i) 0 (i - 1)) (rev [1..<?n]) s0)"
  proof (rule fold_downto_induct [where P = ?P], goal_cases)
    case (3 i s)
    then have i: "0 < i" "i < ?n" "length s = ?n" "max_heap 0 i s" by auto
    let ?t = "swap s 0 i"
    let ?u = "buildMaxHeap ?t 0 (i - 1)"
    have nth: "?t ! k = (if k = 0 then s ! i else if k = i then s ! 0 else s ! k)" for k
      using i by (intro swap_nth) auto
    have "heap_except 0 (i - 1) (Some 0) ?t"
      unfolding heap_except_def
    proof (intro allI impI, elim conjE)
      fix c assume c: "0 < c" "c \<le> i - 1"
      have "s ! c \<le> s ! ((c - 1) div 2)" using i(4) c by (simp add: heap_except_def)
      moreover have "c < i" "(c - 1) div 2 < i" using c i(1) by linarith+
      ultimately show "if Some ((c - 1) div 2) = Some 0
        then 0 < (c - 1) div 2 \<and> 0 \<le> ((c - 1) div 2 - 1) div 2 \<longrightarrow> ?t ! c \<le> ?t ! (((c - 1) div 2 - 1) div 2)
        else ?t ! c \<le> ?t ! ((c - 1) div 2)" using c(1) by (auto simp: nth)
    qed
    then have u: "max_heap 0 (i - 1) ?u" "only_in 0 (i - 1) ?t ?u"
      using buildMaxHeap_spec [of 0 "i - 1" 0 ?t] i by auto
    have hi: "?u ! q = ?t ! q" if "i \<le> q" for q using u(2) that i(1) by (simp add: only_in_def)
    have lo: "?u ! p \<le> s ! 0 \<and> (\<exists>p' \<le> i. ?u ! p = s ! p')" if p: "p < i" for p
    proof -
      obtain k where k: "k \<le> i - 1" "?u ! p = ?t ! k"
        by (rule only_in_elem [OF u(2), of p]) (use p i in auto)
      have "\<exists>p' \<le> i. ?t ! k = s ! p'"
        using k(1) by (intro exI [of _ "if k = 0 then i else if k = i then 0 else k"]) (auto simp: nth)
      then show ?thesis using k(2) max_heap_root [OF i(4)] by auto
    qed
    have "?u ! p \<le> ?u ! q" if q: "q < ?n" "i \<le> q" "p < q" for p q
    proof (cases "q = i")
      case True
      then show ?thesis using lo [of p] q hi [of i] i(1) by (simp add: nth)
    next
      case False
      then have q': "Suc i \<le> q" "?u ! q = s ! q" using q hi [OF q(2)] i(1) by (auto simp: nth)
      have "\<exists>p' < q. ?u ! p = s ! p'"
      proof (cases "p < i")
        case True
        then obtain p' where "p' \<le> i" "?u ! p = s ! p'" using lo by blast
        then show ?thesis using q'(1) by (intro exI [of _ p']) auto
      next
        case False
        then show ?thesis using hi [of p] q i(1) q'(1)
          by (intro exI [of _ "if p = i then 0 else p"]) (auto simp: nth)
      qed
      then show ?thesis using 3(3) q(1) q' by auto
    qed
    moreover have "mset ?t = mset s" using i by (intro mset_swap) auto
    then have "length ?u = ?n" "mset ?u = mset array" using u(2) i 3(3) by (simp_all add: only_in_def)
    ultimately show ?case using u(1) by auto
  qed (use assms in \<open>auto simp: only_in_def Suc_le_eq\<close>)
  then show ?thesis by (auto simp: sorted_index)
qed

interpretation heap: sorting_method "heap_sort :: 'a::linorder list \<Rightarrow> 'a list"
proof
  fix xs :: "'a list"
  have "sorted (heap_sort xs) \<and> mset (heap_sort xs) = mset xs"
  proof (cases "xs = []")
    case False
    then show ?thesis using heap_extract [OF False] heap_build [OF False] by (simp add: heap_sort_def Let_def)
  qed (simp add: heap_sort_def)
  then show "sorted (heap_sort xs)" "mset (heap_sort xs) = mset xs" by auto
qed

section \<open>Properties\<close>


text \<open>
  The partition step of quick sort permutes only the range it was given and returns the
  final place of the pivot: nothing in front of it is larger, nothing behind it smaller; and the
  recursion leaves the rest of the array untouched.
\<close>

theorem quick_partition_correct:
  assumes "b < e" "e < length s"
  shows "case quick_partition s b e of (t, l) \<Rightarrow>
      mset t = mset s \<and> (\<forall>k. k < b \<or> e < k \<longrightarrow> t ! k = s ! k) \<and> b \<le> l \<and> l \<le> e
      \<and> (\<forall>k. b \<le> k \<and> k < l \<longrightarrow> t ! k \<le> t ! l) \<and> (\<forall>k. l < k \<and> k \<le> e \<longrightarrow> t ! l \<le> t ! k)
      \<and> (\<forall>k. k < b \<or> e < k \<longrightarrow> quickSortRecursive s b e ! k = s ! k)"
proof -
  obtain t l where "quick_partition s b e = (t, l)" by fastforce
  with quick_partition_spec [OF assms this] quickSort_spec [OF assms(2), of b] show ?thesis
    by (simp add: only_in_def)
qed

theorem quick_partition_correct_witness:
  "quick_partition [3 :: int, 1, 2] 0 2 = ([1, 2, 3], 1) \<and> mset (fst (quick_partition [3 :: int, 1, 2] 0 2)) = mset [3, 1, 2]"
proof -
  have "quick_partition [3 :: int, 1, 2] 0 2 = ([1, 2, 3], 1)" by code_simp
  with quick_partition_correct [of 0 2 "[3 :: int, 1, 2]"] show ?thesis by simp
qed

end
