(* ===== verification/AL_Sort_Digit.thy ===== *)
theory AL_Sort_Digit
  imports AL_Sort_Simple "HOL-Library.Monad_Syntax"
begin

text \<open>
  The sorting methods of \<open>src/algorithm/include/sort.hpp\<close> that look at the values of integral elements:
  \<open>counting\<close> and \<open>radix\<close>, for \<open>Elem = std::int32_t\<close>, the type the program uses them with. Arithmetic on
  elements is undefined (\<^term>\<open>None\<close>) outside of 32 bits, as are accesses outside of a vector.
\<close>

section \<open>Operations\<close>

definition i32 :: "int \<Rightarrow> int option" where
  "i32 x = (if - (2 ^ 31) \<le> x \<and> x < 2 ^ 31 then Some x else None)"

text \<open>The counters of the elements, each at its index.\<close>

fun count_all :: "('a \<Rightarrow> nat) \<Rightarrow> 'a list \<Rightarrow> nat list \<Rightarrow> nat list option" where
  "count_all idx [] cnt = Some cnt"
| "count_all idx (x # xs) cnt =
     do { c \<leftarrow> rd cnt (idx x); cnt \<leftarrow> wr cnt (idx x) (c + 1); count_all idx xs cnt }"

text \<open>\<open>while (count[i]--) sorting[pos++] = i + min\<close>\<close>

fun counting_emit :: "int \<Rightarrow> nat \<Rightarrow> int list \<times> nat \<Rightarrow> (int list \<times> nat) option" where
  "counting_emit v 0 st = Some st"
| "counting_emit v (Suc n) st =
     do { sorting \<leftarrow> wr (fst st) (snd st) v; counting_emit v n (sorting, snd st + 1) }"

fun counting_write :: "int \<Rightarrow> nat list \<Rightarrow> nat list \<Rightarrow> int list \<times> nat \<Rightarrow> (int list \<times> nat) option" where
  "counting_write mn cnt [] st = Some st"
| "counting_write mn cnt (i # is) st =
     do {
       n \<leftarrow> rd cnt i;
       v \<leftarrow> i32 (int i + mn);
       st \<leftarrow> counting_emit v n st;
       counting_write mn cnt is st
     }"

definition counting :: "int list \<Rightarrow> int list option" where
  "counting array =
     (if length array = 0 then Some []
      else if Max (set array) = Min (set array) then Some array
      else do {
        d \<leftarrow> i32 (Max (set array) - Min (set array));
        countRange \<leftarrow> i32 (d + 1);
        cnt \<leftarrow> count_all (\<lambda>x. nat (x - Min (set array))) array (replicate (nat countRange) 0);
        st \<leftarrow> counting_write (Min (set array)) cnt [0..<nat countRange] (array, 0);
        Some (fst st)
      })"

definition digit :: "int \<Rightarrow> int \<Rightarrow> nat" where
  "digit ex x = nat (x div ex mod 10)"

text \<open>\<open>for (i = 1; i < base; ++i) count[i] += count[i - 1]\<close>\<close>

definition prefix_sums :: "nat list \<Rightarrow> nat list" where
  "prefix_sums cnt = fold (\<lambda>i c. c[i := c ! i + c ! (i - 1)]) [1..<10] cnt"

text \<open>The placing loop, over the elements from the last to the first.\<close>

fun radix_place :: "int \<Rightarrow> int list \<Rightarrow> nat list \<times> int list \<Rightarrow> (nat list \<times> int list) option" where
  "radix_place ex [] st = Some st"
| "radix_place ex (x # xs) st =
     do {
       c \<leftarrow> rd (fst st) (digit ex x);
       cnt \<leftarrow> wr (fst st) (digit ex x) (c - 1);
       temp \<leftarrow> wr (snd st) (c - 1) x;
       radix_place ex xs (cnt, temp)
     }"

definition radix_pass :: "int \<Rightarrow> int list \<Rightarrow> int list option" where
  "radix_pass ex sorting =
     do {
       cnt \<leftarrow> count_all (digit ex) sorting (replicate 10 0);
       st \<leftarrow> radix_place ex (rev sorting) (prefix_sums cnt, replicate (length sorting) 0);
       Some (snd st)
     }"

partial_function (option) radix_loop :: "int \<Rightarrow> int \<Rightarrow> int list \<Rightarrow> int list option" where
  "radix_loop mx ex sorting =
     (if mx div ex > 0 then
        do { sorting \<leftarrow> radix_pass ex sorting; ex \<leftarrow> i32 (ex * 10); radix_loop mx ex sorting }
      else Some sorting)"

fun shift_all :: "int \<Rightarrow> int list \<Rightarrow> int list option" where
  "shift_all d [] = Some []"
| "shift_all d (x # xs) = do { y \<leftarrow> i32 (x + d); ys \<leftarrow> shift_all d xs; Some (y # ys) }"

definition radix :: "int list \<Rightarrow> int list option" where
  "radix array =
     (if length array = 0 then Some []
      else
        (let mn = Min (set array); mx = Max (set array) in
         if mx = mn then Some array
         else do {
           sorting \<leftarrow> (if mn < 0 then shift_all (- mn) array else Some array);
           sorting \<leftarrow> radix_loop mx 1 sorting;
           (if mn < 0 then shift_all mn sorting else Some sorting)
         }))"

lemmas [code] = radix_loop.simps

section \<open>Counting\<close>

lemma i32_Some [simp]: "- (2 ^ 31) \<le> x \<Longrightarrow> x < 2 ^ 31 \<Longrightarrow> i32 x = Some x"
  by (simp add: i32_def)

definition occurrences :: "('a \<Rightarrow> nat) \<Rightarrow> 'a list \<Rightarrow> nat \<Rightarrow> nat" where
  "occurrences idx xs d = length (filter (\<lambda>x. idx x = d) xs)"

lemma occurrences_simps [simp]:
  "occurrences idx [] d = 0" "occurrences idx (x # xs) d = (if idx x = d then 1 else 0) + occurrences idx xs d"
  "occurrences idx (xs @ ys) d = occurrences idx xs d + occurrences idx ys d"
  by (simp_all add: occurrences_def)

lemma count_all_spec:
  assumes "\<forall>x\<in>set xs. idx x < length cnt"
  shows "count_all idx xs cnt = Some (map (\<lambda>d. cnt ! d + occurrences idx xs d) [0..<length cnt])"
  using assms
proof (induction xs arbitrary: cnt)
  case Nil
  then show ?case by (simp add: map_nth)
next
  case (Cons x xs)
  have "count_all idx (x # xs) cnt = count_all idx xs (cnt[idx x := cnt ! idx x + 1])"
    using Cons.prems by simp
  also have "\<dots> = Some (map (\<lambda>d. cnt[idx x := cnt ! idx x + 1] ! d + occurrences idx xs d) [0..<length cnt])"
    using Cons.IH [of "cnt[idx x := cnt ! idx x + 1]"] Cons.prems by simp
  also have "\<dots> = Some (map (\<lambda>d. cnt ! d + occurrences idx (x # xs) d) [0..<length cnt])"
    using Cons.prems by (auto simp: nth_list_update)
  finally show ?case .
qed

lemma count_all_zero:
  "\<forall>x\<in>set xs. idx x < n \<Longrightarrow> count_all idx xs (replicate n 0) = Some (map (occurrences idx xs) [0..<n])"
  using count_all_spec [of xs idx "replicate n 0"] by simp

lemma counting_emit_spec:
  assumes "snd st + n \<le> length (fst st)"
  shows "counting_emit v n st =
    Some (take (snd st) (fst st) @ replicate n v @ drop (snd st + n) (fst st), snd st + n)"
  using assms
proof (induction n arbitrary: st)
  case (Suc n)
  let ?t = "((fst st)[snd st := v], snd st + 1)"
  have "counting_emit v (Suc n) st = counting_emit v n ?t" using Suc.prems by simp
  also have "\<dots> = Some (take (snd st + 1) ((fst st)[snd st := v]) @ replicate n v @ drop (snd st + 1 + n) (fst st), snd st + 1 + n)"
    using Suc.IH [of ?t] Suc.prems by simp
  finally show ?case using Suc.prems by (simp add: take_Suc_conv_app_nth replicate_app_Cons_same)
qed (cases st, simp)

lemma counting_write_spec:
  assumes "\<forall>i\<in>set is. i < length cnt \<and> - (2 ^ 31) \<le> int i + mn \<and> int i + mn < 2 ^ 31"
    and "snd st + sum_list (map (\<lambda>i. cnt ! i) is) \<le> length (fst st)"
  shows "counting_write mn cnt is st =
    Some (take (snd st) (fst st) @ concat (map (\<lambda>i. replicate (cnt ! i) (int i + mn)) is)
            @ drop (snd st + sum_list (map (\<lambda>i. cnt ! i) is)) (fst st),
          snd st + sum_list (map (\<lambda>i. cnt ! i) is))"
  using assms
proof (induction "is" arbitrary: st)
  case (Cons i "is")
  let ?t = "(take (snd st) (fst st) @ replicate (cnt ! i) (int i + mn) @ drop (snd st + cnt ! i) (fst st), snd st + cnt ! i)"
  have "counting_write mn cnt (i # is) st = counting_write mn cnt is ?t"
    using Cons.prems counting_emit_spec [of st "cnt ! i" "int i + mn"] by simp
  also have "\<dots> = Some (take (snd ?t) (fst ?t) @ concat (map (\<lambda>i. replicate (cnt ! i) (int i + mn)) is)
            @ drop (snd ?t + sum_list (map (\<lambda>i. cnt ! i) is)) (fst ?t), snd ?t + sum_list (map (\<lambda>i. cnt ! i) is))"
    by (rule Cons.IH) (use Cons.prems in auto)
  finally show ?case using Cons.prems by (simp add: ac_simps)
qed (cases st, simp)

text \<open>The elements of a list, counted by their place in a range, and written out again.\<close>

lemma mset_counted:
  assumes "\<forall>x\<in>set xs. 0 \<le> x - mn \<and> x - mn < int n"
  shows "mset (concat (map (\<lambda>i. replicate (occurrences (\<lambda>x. nat (x - mn)) xs i) (int i + mn)) [0..<n])) = mset xs"
proof (rule multiset_eqI)
  fix y
  have one: "count (mset (concat (map (\<lambda>i. replicate (c i) (int i + mn)) [0..<m]))) y =
      (if 0 \<le> y - mn \<and> y - mn < int m then c (nat (y - mn)) else 0)" for c m
    by (induction m) (auto simp: le_less)
  have "occurrences (\<lambda>x. nat (x - mn)) xs (nat (y - mn)) = count (mset xs) y" if "0 \<le> y - mn"
    using assms by (induction xs) (use that in auto)
  moreover have "count (mset xs) y = 0" if "\<not> (0 \<le> y - mn \<and> y - mn < int n)"
    using assms that by (auto simp: count_eq_zero_iff)
  ultimately show "count (mset (concat (map (\<lambda>i. replicate (occurrences (\<lambda>x. nat (x - mn)) xs i) (int i + mn)) [0..<n]))) y
      = count (mset xs) y" unfolding one by auto
qed

lemma sorted_counted: "sorted (concat (map (\<lambda>i. replicate (c i) (int i + mn)) [0..<n]))"
  by (induction n) (auto simp: sorted_append)

lemma sum_occurrences:
  "\<forall>x\<in>set xs. idx x < n \<Longrightarrow> sum_list (map (occurrences idx xs) [0..<n]) = length xs"
proof (induction xs)
  case (Cons x xs)
  have "sum_list (map (\<lambda>d. (if idx x = d then 1 else 0) + occurrences idx xs d) [0..<n]) =
      sum_list (map (\<lambda>d. if idx x = d then 1 else 0) [0..<n]) + sum_list (map (occurrences idx xs) [0..<n])"
    by (rule sum_list_addf)
  moreover have "sum_list (map (\<lambda>d. if k = d then 1 else 0) [0..<n]) = (if k < n then 1 else 0 :: nat)" for k
    by (induction n) auto
  ultimately show ?case using Cons by simp
qed simp

lemma counting_sorts:
  assumes "\<forall>x\<in>set array. - (2 ^ 31) \<le> x \<and> x < 2 ^ 31"
    and "\<forall>x\<in>set array. \<forall>y\<in>set array. x - y < 2 ^ 31 - 1"
  shows "counting array = Some (sort array)"
proof (cases "array = [] \<or> Max (set array) = Min (set array)")
  case True
  have "sorted array" if "Max (set array) = Min (set array)"
  proof -
    have "x = Min (set array)" if "x \<in> set array" for x
      using Max_ge [OF finite_set that] Min_le [OF finite_set that] \<open>Max (set array) = Min (set array)\<close> by linarith
    then show ?thesis unfolding sorted_iff_nth_mono by (metis nth_mem order_refl order.strict_trans1)
  qed
  then show ?thesis using True by (auto simp: counting_def sorted_sort_id)
next
  case False
  define mn where "mn = Min (set array)"
  define n where "n = nat (Max (set array) - mn + 1)"
  have mem: "Max (set array) \<in> set array" "mn \<in> set array" unfolding mn_def using False by auto
  have rng: "0 \<le> x - mn \<and> x - mn < int n" if "x \<in> set array" for x
    using Max_ge [OF finite_set that] Min_le [OF finite_set that] unfolding mn_def n_def by linarith
  have d: "Max (set array) - mn < 2 ^ 31 - 1" "0 \<le> Max (set array) - mn" using assms(2) mem rng by auto
  let ?occ = "occurrences (\<lambda>x. nat (x - mn)) array"
  let ?out = "concat (map (\<lambda>i. replicate (?occ i) (int i + mn)) [0..<n])"
  have "count_all (\<lambda>x. nat (x - mn)) array (replicate n 0) = Some (map ?occ [0..<n])"
    by (rule count_all_zero) (use rng in \<open>auto simp: nat_less_iff\<close>)
  moreover have "counting_write mn (map ?occ [0..<n]) [0..<n] (array, 0) = Some (?out, length array)"
  proof -
    have sum: "sum_list (map (\<lambda>i. map ?occ [0..<n] ! i) [0..<n]) = length array"
    proof -
      have eq: "map (\<lambda>i. map ?occ [0..<n] ! i) [0..<n] = map ?occ [0..<n]" by (rule nth_equalityI) simp_all
      show ?thesis unfolding eq by (rule sum_occurrences) (use rng in \<open>auto simp: nat_less_iff\<close>)
    qed
    have idx: "\<forall>i\<in>set [0..<n]. i < length (map ?occ [0..<n]) \<and> - (2 ^ 31) \<le> int i + mn \<and> int i + mn < 2 ^ 31"
      using assms(1) mem d unfolding n_def by force
    have same: "map (\<lambda>i. replicate (map ?occ [0..<n] ! i) (int i + mn)) [0..<n] = map (\<lambda>i. replicate (?occ i) (int i + mn)) [0..<n]"
      by simp
    show ?thesis using counting_write_spec [OF idx, of "(array, 0)"] unfolding sum same by simp
  qed
  ultimately have "counting array = Some ?out"
    using False d by (simp add: counting_def mn_def [symmetric] n_def [symmetric])
  moreover have "mset ?out = mset array" by (rule mset_counted) (use rng in auto)
  ultimately show ?thesis using sorted_counted by (simp add: properties_for_sort)
qed

section \<open>One pass of radix sort\<close>

definition offset_of :: "('a \<Rightarrow> nat) \<Rightarrow> 'a list \<Rightarrow> nat \<Rightarrow> nat" where
  "offset_of f s d = (\<Sum>k<d. occurrences f s k)"

lemma offset_of_simps [simp]: "offset_of f s 0 = 0" "offset_of f s (Suc d) = offset_of f s d + occurrences f s d"
  by (simp_all add: offset_of_def)

lemma offset_of_mono: "d \<le> e \<Longrightarrow> offset_of f s d \<le> offset_of f s e"
  unfolding offset_of_def by (rule sum_mono2) auto

lemma offset_of_total: "\<forall>x\<in>set s. f x < n \<Longrightarrow> offset_of f s n = length s"
  using sum_occurrences [of s f n] by (simp add: offset_of_def interv_sum_list_conv_sum_set_nat atLeast0LessThan)

lemma slot_unique:
  assumes "offset_of f s d + k = offset_of f s e + l" "k < occurrences f s d" "l < occurrences f s e"
  shows "d = e \<and> k = l"
proof (cases d e rule: linorder_cases)
  case less
  then show ?thesis using offset_of_mono [of "Suc d" e f s] assms by simp
next
  case greater
  then show ?thesis using offset_of_mono [of "Suc e" d f s] assms by simp
qed (use assms in simp)

lemma prefix_sums_spec:
  assumes "length cnt = 10" "d < 10"
  shows "prefix_sums cnt ! d = (\<Sum>k<Suc d. cnt ! k)"
proof -
  have "length (fold (\<lambda>i c. c[i := c ! i + c ! (i - 1)]) [1..<n] cnt) = 10 \<and>
      (\<forall>d<10. fold (\<lambda>i c. c[i := c ! i + c ! (i - 1)]) [1..<n] cnt ! d = (if d < n then \<Sum>k<Suc d. cnt ! k else cnt ! d))"
    if "1 \<le> n" "n \<le> 10" for n
    using that
  proof (induction n rule: dec_induct)
    case base
    then show ?case using assms(1) by (simp add: less_Suc_eq)
  next
    case (step n)
    then show ?case by (auto simp: nth_list_update less_Suc_eq)
  qed
  from this [of 10] show ?thesis using assms(2) by (simp add: prefix_sums_def)
qed

lemma length_prefix_sums [simp]: "length (prefix_sums cnt) = length cnt"
proof -
  have "length (fold (\<lambda>i c. c[i := c ! i + c ! (i - 1)]) is cnt) = length cnt" for "is"
    by (induction "is" arbitrary: cnt) auto
  then show ?thesis by (simp add: prefix_sums_def)
qed

definition bucket :: "('a \<Rightarrow> nat) \<Rightarrow> 'a list \<Rightarrow> nat \<Rightarrow> 'a list" where
  "bucket f s d = filter (\<lambda>x. f x = d) s"

lemma length_bucket [simp]: "length (bucket f s d) = occurrences f s d"
  by (simp add: bucket_def occurrences_def)

definition place_inv :: "int \<Rightarrow> int list \<Rightarrow> int list \<Rightarrow> nat list \<times> int list \<Rightarrow> bool" where
  "place_inv ex s p st \<longleftrightarrow> length (fst st) = 10 \<and> length (snd st) = length s
     \<and> (\<forall>d<10. fst st ! d = offset_of (digit ex) s d + occurrences (digit ex) p d)
     \<and> (\<forall>d<10. \<forall>k. occurrences (digit ex) p d \<le> k \<longrightarrow> k < occurrences (digit ex) s d \<longrightarrow>
          snd st ! (offset_of (digit ex) s d + k) = bucket (digit ex) s d ! k)"

lemma digit_less: "digit ex x < 10"
  by (simp add: digit_def nat_less_iff)

lemma place_step:
  assumes "place_inv ex s (p @ [x]) st" "s = p @ x # q"
  shows "\<exists>st'. radix_place ex (x # xs) st = radix_place ex xs st' \<and> place_inv ex s p st'"
proof -
  let ?f = "digit ex" and ?d = "digit ex x"
  let ?i = "offset_of ?f s ?d + occurrences ?f p ?d"
  have d: "?d < 10" by (rule digit_less)
  have cnt: "length (fst st) = 10" "fst st ! ?d = ?i + 1" using assms(1) d by (auto simp: place_inv_def)
  have own: "occurrences ?f p ?d < occurrences ?f s ?d" using assms(2) by simp
  have "?i < offset_of ?f s (Suc ?d)" using own by simp
  also have "\<dots> \<le> offset_of ?f s 10" using d by (intro offset_of_mono) simp
  also have "\<dots> = length s" by (rule offset_of_total) (simp add: digit_less)
  finally have i: "?i < length (snd st)" using assms(1) by (simp add: place_inv_def)
  let ?st = "((fst st)[?d := ?i], (snd st)[?i := x])"
  have "radix_place ex (x # xs) st = radix_place ex xs ?st" using cnt d i by simp
  moreover have "bucket ?f s ?d ! occurrences ?f p ?d = x"
    using assms(2) by (simp add: bucket_def occurrences_def nth_append)
  then have "snd ?st ! (offset_of ?f s e + k) = bucket ?f s e ! k"
    if "e < 10" "occurrences ?f p e \<le> k" "k < occurrences ?f s e" for e k
  proof (cases "offset_of ?f s e + k = ?i")
    case True
    then have "e = ?d \<and> k = occurrences ?f p ?d" using slot_unique that(3) own by blast
    then show ?thesis using i \<open>bucket ?f s ?d ! occurrences ?f p ?d = x\<close> by simp
  next
    case False
    then have "occurrences ?f (p @ [x]) e \<le> k" using that(2) by (cases "?d = e") auto
    then show ?thesis using False assms(1) that by (simp add: place_inv_def)
  qed
  then have "place_inv ex s p ?st"
    using assms(1) d by (auto simp: place_inv_def nth_list_update)
  ultimately show ?thesis by blast
qed

lemma place_all:
  assumes "place_inv ex s p st" "s = p @ q"
  shows "\<exists>st'. radix_place ex (rev p) st = Some st' \<and> place_inv ex s [] st'"
  using assms
proof (induction p arbitrary: st q rule: rev_induct)
  case (snoc x p)
  then show ?case using place_step [of ex s p x st q "rev p"] by (metis append.assoc append_Cons append_Nil rev.simps(2) rev_append rev_singleton_conv)
qed auto

lemma concat_nth:
  assumes "length t = length (concat bs)"
    and "\<And>d k. d < length bs \<Longrightarrow> k < length (bs ! d) \<Longrightarrow> t ! (length (concat (take d bs)) + k) = bs ! d ! k"
  shows "t = concat bs"
  using assms
proof (induction bs arbitrary: t)
  case (Cons b bs)
  have "take (length b) t = b" by (rule nth_equalityI) (use Cons.prems Cons.prems(2) [of 0] in auto)
  moreover have "drop (length b) t = concat bs"
    by (rule Cons.IH) (use Cons.prems(1) Cons.prems(2) [of "Suc d" for d] in \<open>auto simp: ac_simps\<close>)
  ultimately show ?case by (metis append_take_drop_id concat.simps(2))
qed simp

abbreviation buckets :: "('a \<Rightarrow> nat) \<Rightarrow> 'a list \<Rightarrow> nat \<Rightarrow> 'a list" where
  "buckets f s n \<equiv> concat (map (bucket f s) [0..<n])"

lemma length_buckets: "length (buckets f s n) = offset_of f s n"
  by (induction n) auto

lemma buckets_sort:
  assumes "\<forall>x\<in>set s. f x < n"
  shows "buckets f s n = sort_key f s"
proof (rule properties_for_sort_key [symmetric])
  have "mset (buckets f s m) = mset (filter (\<lambda>x. f x < m) s)" for m
  proof (induction m)
    case (Suc m)
    have "mset (filter (\<lambda>x. f x < Suc m) s) = mset (filter (\<lambda>x. f x < m) s) + mset (filter (\<lambda>x. f x = m) s)"
      by (induction s) auto
    then show ?case using Suc by (simp add: bucket_def)
  qed simp
  then show "mset (buckets f s n) = mset s" using assms filter_True [of s "\<lambda>x. f x < n"] by metis
  have part: "filter (\<lambda>x. j = f x) (buckets f s m) = (if j < m then bucket f s j else [])" for j m
    by (induction m) (auto simp: bucket_def filter_empty_conv filter_id_conv less_Suc_eq intro!: filter_cong)
  have "f k < n" if "k \<in> set (buckets f s n)" for k using that assms by (auto simp: bucket_def)
  then show "filter (\<lambda>x. f k = f x) (buckets f s n) = filter (\<lambda>x. f k = f x) s" if "k \<in> set (buckets f s n)" for k
    using that unfolding part by (auto simp: bucket_def intro!: filter_cong)
  have "sorted (map f (bucket f s d))" for d by (induction s) (auto simp: bucket_def)
  then show "sorted (map f (buckets f s n))"
    by (induction n) (auto simp: sorted_append, auto simp: bucket_def)
qed

lemma radix_pass_stable: "radix_pass ex s = Some (sort_key (digit ex) s)"
proof -
  let ?f = "digit ex"
  let ?cnt = "map (occurrences ?f s) [0..<10]"
  have "count_all ?f s (replicate 10 0) = Some ?cnt" by (rule count_all_zero) (simp add: digit_less)
  moreover have "place_inv ex s s (prefix_sums ?cnt, replicate (length s) 0)"
    unfolding place_inv_def by (simp add: prefix_sums_spec) (simp add: offset_of_def)
  then obtain st where st: "radix_place ex (rev s) (prefix_sums ?cnt, replicate (length s) 0) = Some st"
    "place_inv ex s [] st" using place_all [of ex s s _ "[]"] by (metis append_Nil2)
  have "snd st = buckets ?f s 10"
  proof (rule concat_nth)
    show "length (snd st) = length (buckets ?f s 10)"
      using st(2) offset_of_total [of s ?f 10] by (simp only: length_buckets) (simp add: place_inv_def digit_less)
  next
    fix d k assume "d < length (map (bucket ?f s) [0..<10])" "k < length (map (bucket ?f s) [0..<10] ! d)"
    then have dk: "d < 10" "k < occurrences ?f s d" by auto
    have "length (concat (take d (map (bucket ?f s) [0..<10]))) = offset_of ?f s d"
      using dk(1) length_buckets [of ?f s d] by (simp add: take_map)
    then show "snd st ! (length (concat (take d (map (bucket ?f s) [0..<10]))) + k) = map (bucket ?f s) [0..<10] ! d ! k"
      using st(2) dk by (simp add: place_inv_def)
  qed
  then have "snd st = sort_key ?f s" using buckets_sort [of s ?f 10] by (simp only:) (simp add: digit_less)
  then show ?thesis using st(1) calculation by (simp add: radix_pass_def)
qed

section \<open>All passes\<close>

lemma sorted_filter_nth:
  assumes "sorted_wrt R (filter P ys)" "i < j" "j < length ys" "P (ys ! i)" "P (ys ! j)"
  shows "R (ys ! i) (ys ! j)"
  using assms
proof (induction ys arbitrary: i j)
  case (Cons y ys)
  then obtain j' where j: "j = Suc j'" by (cases j) auto
  show ?case
  proof (cases i)
    case 0
    then have "ys ! j' \<in> set (filter P ys)" using Cons.prems j by auto
    then show ?thesis using Cons.prems(1,4) 0 j by auto
  next
    case (Suc i')
    then show ?thesis using Cons.IH [of i' j'] Cons.prems j by (auto split: if_splits)
  qed
qed simp

text \<open>A stable sort by the next digit after a sort by the digits below it sorts by all of them.\<close>

lemma next_digit:
  assumes "0 < m" "\<forall>x\<in>set s. (0 :: int) \<le> x"
  shows "sort_key (digit m) (sort_key (\<lambda>x. x mod m) s) = sort_key (\<lambda>x. x mod (m * 10)) s"
proof (rule properties_for_sort_key [symmetric])
  let ?t = "sort_key (\<lambda>x. x mod m) s"
  let ?ys = "sort_key (digit m) ?t"
  have split: "x mod (m * 10) = m * int (digit m x) + x mod m" if "0 \<le> x" for x
    using zmod_zmult2_eq [of 10 x m] by (simp add: digit_def)
  have low: "x mod (m * 10) mod m = x mod m" "digit m (x mod (m * 10)) = digit m x" if "0 \<le> x" for x
  proof -
    show "x mod (m * 10) mod m = x mod m" by (rule mod_mod_cancel) simp
    have "x mod (m * 10) div m = x div m mod 10"
      using split [OF that] assms(1) pos_mod_sign [OF assms(1), of x] pos_mod_bound [OF assms(1), of x]
      by (simp add: digit_def div_add1_eq)
    then show "digit m (x mod (m * 10)) = digit m x" by (simp add: digit_def)
  qed
  show "mset ?ys = mset s" by simp
  fix k assume "k \<in> set ?ys"
  then have k: "0 \<le> k" using assms(2) by simp
  have cls: "k mod (m * 10) = x mod (m * 10) \<longleftrightarrow> digit m x = digit m k \<and> x mod m = k mod m" if "0 \<le> x" for x
    using low [OF that] low [OF k] split [OF that] split [OF k] by metis
  have eq: "filter (\<lambda>x. k mod (m * 10) = x mod (m * 10)) l = filter (\<lambda>x. x mod m = k mod m) (filter (\<lambda>x. digit m x = digit m k) l)"
    if "set l \<subseteq> set s" for l
    using that assms(2) by (auto simp: cls intro!: filter_cong)
  let ?L = "\<lambda>x. x mod m = k mod m" and ?D = "\<lambda>x. digit m x = digit m k"
  have "filter ?L (filter ?D ?ys) = filter ?L (filter ?D ?t)" by (simp only: sort_key_stable)
  also have "\<dots> = filter ?D (filter ?L ?t)" by (simp add: conj_commute)
  also have "\<dots> = filter ?D (filter ?L s)" by (simp only: sort_key_stable)
  also have "\<dots> = filter ?L (filter ?D s)" by (simp add: conj_commute)
  finally show "filter (\<lambda>x. k mod (m * 10) = x mod (m * 10)) ?ys = filter (\<lambda>x. k mod (m * 10) = x mod (m * 10)) s"
    using eq [of ?ys] eq [of s] by simp
next
  let ?t = "sort_key (\<lambda>x. x mod m) s"
  let ?ys = "sort_key (digit m) ?t"
  have "?ys ! i mod (m * 10) \<le> ?ys ! j mod (m * 10)" if ij: "i < j" "j < length ?ys" for i j
  proof -
    have mem: "?ys ! i \<in> set s" "?ys ! j \<in> set s" using ij by (metis nth_mem set_sort order.strict_trans)+
    have dig: "digit m (?ys ! i) \<le> digit m (?ys ! j)"
      using sorted_nth_mono [of "map (digit m) ?ys" i j] ij by simp
    have split: "x mod (m * 10) = m * int (digit m x) + x mod m" for x
      using zmod_zmult2_eq [of 10 x m] by (simp add: digit_def)
    show ?thesis
    proof (cases "digit m (?ys ! i) = digit m (?ys ! j)")
      case True
      let ?P = "\<lambda>x. digit m x = digit m (?ys ! j)"
      have "sorted_wrt (\<lambda>a b. a mod m \<le> b mod m) (filter ?P ?ys)"
        using sorted_wrt_filter [of "\<lambda>a b. a mod m \<le> b mod m" ?t ?P] sorted_sort_key [of "\<lambda>x. x mod m" s]
        by (simp add: sort_key_stable sorted_map)
      from sorted_filter_nth [OF this ij True] show ?thesis using True by (simp add: split)
    next
      case False
      then have "int (digit m (?ys ! i)) + 1 \<le> int (digit m (?ys ! j))" using dig by simp
      then have "m * (int (digit m (?ys ! i)) + 1) \<le> m * int (digit m (?ys ! j))" using assms(1) by simp
      moreover have "?ys ! i mod m < m" "0 \<le> ?ys ! j mod m" using assms(1) by simp_all
      ultimately show ?thesis unfolding split by (simp add: distrib_left)
    qed
  qed
  then show "sorted (map (\<lambda>x. x mod (m * 10)) ?ys)" by (simp add: sorted_iff_nth_mono_less)
qed

lemma radix_loop_spec:
  assumes "\<forall>x\<in>set s. 0 \<le> x" "mx < 10 ^ 9" "k \<le> 9"
  shows "\<exists>m. mx < 10 ^ m \<and> radix_loop mx (10 ^ k) (sort_key (\<lambda>x. x mod 10 ^ k) s) = Some (sort_key (\<lambda>x. x mod 10 ^ m) s)"
  using assms(3)
proof (induction "9 - k" arbitrary: k rule: less_induct)
  case less
  show ?case
  proof (cases "mx div 10 ^ k > 0")
    case True
    then have "10 ^ k \<le> mx" by (simp add: pos_imp_zdiv_pos_iff)
    then have "(10 :: int) ^ k < 10 ^ 9" using assms(2) by linarith
    then have k: "k < 9" by (rule power_less_imp_less_exp [rotated]) simp
    then have "(10 :: int) ^ Suc k \<le> 10 ^ 9" by (intro power_increasing) auto
    moreover have "- (2 ^ 31) \<le> (0 :: int)" "(0 :: int) \<le> 10 ^ Suc k" "(10 :: int) ^ 9 < 2 ^ 31" by simp_all
    ultimately have "i32 (10 ^ Suc k) = Some (10 ^ Suc k)" by (intro i32_Some) linarith+
    then have e: "i32 (10 * 10 ^ k) = Some (10 * 10 ^ k)" by simp
    have "radix_loop mx (10 ^ k) (sort_key (\<lambda>x. x mod 10 ^ k) s)
        = radix_loop mx (10 ^ Suc k) (sort_key (\<lambda>x. x mod 10 ^ Suc k) s)"
      using next_digit [of "10 ^ k" s] assms(1)
      by (subst radix_loop.simps, subst if_P [OF True]) (simp add: radix_pass_stable e mult.commute [of _ 10])
    then show ?thesis using less.hyps [of "Suc k"] k by simp
  next
    case False
    then have "mx < 10 ^ k" by (simp add: pos_imp_zdiv_pos_iff)
    moreover have "radix_loop mx (10 ^ k) (sort_key (\<lambda>x. x mod 10 ^ k) s) = Some (sort_key (\<lambda>x. x mod 10 ^ k) s)"
      by (subst radix_loop.simps, subst if_not_P [OF False]) simp
    ultimately show ?thesis by blast
  qed
qed

lemma shift_all_spec:
  "\<forall>x\<in>set xs. - (2 ^ 31) \<le> x + d \<and> x + d < 2 ^ 31 \<Longrightarrow> shift_all d xs = Some (map (\<lambda>x. x + d) xs)"
  by (induction xs) auto

section \<open>Properties\<close>

lemma sort_shift: "map (\<lambda>x. x + d) (sort (map (\<lambda>x. x - d) xs)) = sort (xs :: int list)"
proof (rule properties_for_sort [symmetric])
  have "mset (map (\<lambda>x. x + d) (sort (map (\<lambda>x. x - d) xs))) = mset (map (\<lambda>x. x + d) (map (\<lambda>x. x - d) xs))"
    by (simp only: mset_map mset_sort)
  then show "mset (map (\<lambda>x. x + d) (sort (map (\<lambda>x. x - d) xs))) = mset xs" by (simp add: o_def)
  show "sorted (map (\<lambda>x. x + d) (sort (map (\<lambda>x. x - d) xs)))" by (simp add: sorted_map)
qed

lemma radix_shifted:
  assumes "\<forall>x\<in>set s. 0 \<le> x" "mx < 10 ^ 9" "\<And>m x. mx < 10 ^ m \<Longrightarrow> x \<in> set s \<Longrightarrow> x < 10 ^ m"
  shows "radix_loop mx 1 s = Some (sort s)"
proof -
  have "sort_key (\<lambda>x. x mod 1) s = s" using sort_key_const [of "0 :: int" s] by simp
  then obtain m where m: "mx < 10 ^ m" "radix_loop mx 1 s = Some (sort_key (\<lambda>x. x mod 10 ^ m) s)"
    using radix_loop_spec [OF assms(1,2), of 0] by auto
  let ?t = "sort_key (\<lambda>x. x mod 10 ^ m) s"
  have "map (\<lambda>x. x mod 10 ^ m) ?t = ?t" by (rule map_idI) (use assms(1,3) m(1) in auto)
  then have "sorted ?t" using sorted_sort_key [of "\<lambda>x. x mod 10 ^ m" s] by simp
  then have "sort s = ?t" by (intro properties_for_sort) simp
  then show ?thesis using m(2) by simp
qed



text \<open>
  Radix sort leaves an array of negative numbers as it is: it shifts the elements by the
  smallest one, but takes the number of passes from the largest one before the shift.
\<close>

theorem radix_negative: "radix [- 1, - 2] = Some [- 1, - 2] \<and> counting [- 1, - 2] = Some [- 2, - 1]"
proof -
  have "\<not> (- 1 :: int) div 1 > 0" by simp
  then have "radix_loop (- 1) 1 xs = Some xs" for xs by (subst radix_loop.simps, subst if_not_P) auto
  then show ?thesis by (simp add: radix_def counting_sorts i32_def)
qed

end
