(* ===== verification/AL_Search.thy ===== *)
theory AL_Search
  imports Foo_Prelude
begin

text \<open>
  The search methods of \<open>src/algorithm/include/search.hpp\<close> that do not compute with the values of
  the elements: \<open>binary\<close> and \<open>fibonacci\<close>. Arrays are lists; the \<open>std::uint32_t\<close> indices are natural
  numbers with the wrap-around at \<open>2 ^ 32\<close> written out. The loops are partial functions: \<open>None\<close> is an
  endless loop or an access outside the array.
\<close>

section \<open>Operations\<close>

partial_function (option) binary_loop :: "'a::linorder list \<Rightarrow> 'a \<Rightarrow> nat \<Rightarrow> nat \<Rightarrow> int option" where
  "binary_loop array key lower upper =
     (if lower \<le> upper then
        (let mid = lower + (upper - lower) div 2 in
         if mid \<ge> length array then None
         else if key = array ! mid then Some (int mid)
         else if key > array ! mid then binary_loop array key (mid + 1) upper
         else binary_loop array key lower (if mid = 0 then 2 ^ 32 - 1 else mid - 1))
      else Some (- 1))"

definition search_binary :: "'a::linorder list \<Rightarrow> 'a \<Rightarrow> int option" where
  "search_binary array key =
     (if length array = 0 then Some (- 1)
      else
        (let lower = 0; upper = length array - 1 in
         if key < array ! lower \<or> key > array ! upper then Some (- 1)
         else binary_loop array key lower upper))"

text \<open>
  \<open>generateFibonacciNumber\<close>: the loop starts with \<open>f1 = 0, f2 = 1\<close>; a round appends the old \<open>f2\<close>
  and ends the loop when that exceeds the limit. The reserved capacity has no effect on the result.
\<close>

partial_function (option) fibonacci_loop :: "nat \<Rightarrow> nat \<Rightarrow> nat \<Rightarrow> nat list option" where
  "fibonacci_loop limit f1 f2 =
     (if f2 > limit then Some [f2]
      else Option.bind (fibonacci_loop limit f2 ((f1 + f2) mod 2 ^ 32)) (\<lambda>fs. Some (f2 # fs)))"

definition generateFibonacciNumber :: "nat \<Rightarrow> nat list option" where
  "generateFibonacciNumber limit = (if limit = 0 then Some [] else fibonacci_loop limit 0 1)"

partial_function (option) fib_search_loop ::
  "'a::linorder list \<Rightarrow> nat list \<Rightarrow> 'a \<Rightarrow> nat \<Rightarrow> nat \<Rightarrow> nat \<Rightarrow> int option" where
  "fib_search_loop complement fib key lower upper n =
     (if lower \<le> upper \<and> n \<ge> 2 then
        (let mid = (lower + fib ! (n - 1) - 1) mod 2 ^ 32;
             mid = (if mid \<ge> length complement then length complement - 1 else mid) in
         if complement ! mid > key then
           (if mid = 0 then Some (- 1)
            else fib_search_loop complement fib key lower (mid - 1) (n - 1))
         else if complement ! mid < key then
           fib_search_loop complement fib key (mid + 1) upper (n - 2)
         else Some (int (if mid \<le> upper then mid else upper)))
      else Some (- 1))"

definition search_fibonacci :: "'a::linorder list \<Rightarrow> 'a \<Rightarrow> int option" where
  "search_fibonacci array key =
     (if length array = 0 then Some (- 1)
      else
        (let lower = 0; upper = length array - 1 in
         if key < array ! lower \<or> key > array ! upper then Some (- 1)
         else
           Option.bind (generateFibonacciNumber (length array)) (\<lambda>fib.
             if length fib < 3 then Some (- 1)
             else
               (let n = length fib - 1;
                    paddedSize = fib ! n - 1;
                    complement = array @ replicate (paddedSize - length array) (array ! upper)
                in fib_search_loop complement fib key lower upper n))))"

lemmas [code] = binary_loop.simps fibonacci_loop.simps fib_search_loop.simps

section \<open>The contract\<close>

text \<open>
  On a sorted array a search method returns an index of the key, or \<open>-1\<close> exactly when the key is
  absent. The bound on the length keeps the sums of two indices inside 32 bits.
\<close>

definition search_result :: "'a list \<Rightarrow> 'a \<Rightarrow> int \<Rightarrow> bool" where
  "search_result array key i =
     (if key \<in> set array then 0 \<le> i \<and> nat i < length array \<and> array ! nat i = key else i = - 1)"

locale search_method =
  fixes srch :: "'a::linorder list \<Rightarrow> 'a \<Rightarrow> int option"
  assumes finds: "sorted array \<Longrightarrow> length array < 2 ^ 31 \<Longrightarrow>
    \<exists>i. srch array key = Some i \<and> search_result array key i"
begin

lemma decides: "sorted array \<Longrightarrow> length array < 2 ^ 31 \<Longrightarrow> srch array key \<noteq> Some (- 1) \<longleftrightarrow> key \<in> set array"
  using finds [of array key] by (auto simp: search_result_def split: if_splits)

lemma returned_index: "sorted array \<Longrightarrow> length array < 2 ^ 31 \<Longrightarrow>
  srch array key = Some (int i) \<Longrightarrow> i < length array \<and> array ! i = key"
  using finds [of array key] by (auto simp: search_result_def split: if_splits)

end

section \<open>Binary search\<close>

lemma binary_loop_spec:
  assumes "array \<noteq> []" "upper < length array" "array ! 0 \<le> key" "lower \<le> Suc upper"
  shows "\<exists>i. binary_loop array key lower upper = Some i
    \<and> (i = - 1 \<or> 0 \<le> i \<and> nat i < length array \<and> array ! nat i = key)
    \<and> (sorted array \<longrightarrow> i = - 1 \<longrightarrow> (\<forall>k. lower \<le> k \<and> k \<le> upper \<longrightarrow> array ! k \<noteq> key))"
  using assms
proof (induction "Suc upper - lower" arbitrary: lower upper rule: less_induct)
  case less
  show ?case
  proof (cases "lower \<le> upper")
    case False
    have "binary_loop array key lower upper = Some (- 1)"
      by (subst binary_loop.simps) (rule if_not_P [OF False])
    then show ?thesis using False by auto
  next
    case True
    define mid where "mid = lower + (upper - lower) div 2"
    have mid: "lower \<le> mid" "mid \<le> upper" using True by (auto simp: mid_def)
    have unf: "binary_loop array key lower upper =
        (if mid \<ge> length array then None
         else if key = array ! mid then Some (int mid)
         else if key > array ! mid then binary_loop array key (mid + 1) upper
         else binary_loop array key lower (if mid = 0 then 2 ^ 32 - 1 else mid - 1))"
      unfolding mid_def by (subst binary_loop.simps) (simp only: if_P [OF True] Let_def)
    consider "key = array ! mid" | "key > array ! mid" | "key < array ! mid" by force
    then show ?thesis
    proof cases
      case 1
      then show ?thesis using unf mid less.prems by auto
    next
      case 2
      obtain i where i: "binary_loop array key (mid + 1) upper = Some i"
        "i = - 1 \<or> 0 \<le> i \<and> nat i < length array \<and> array ! nat i = key"
        "sorted array \<longrightarrow> i = - 1 \<longrightarrow> (\<forall>k. mid + 1 \<le> k \<and> k \<le> upper \<longrightarrow> array ! k \<noteq> key)"
        using less.hyps [of upper "mid + 1"] less.prems mid by force
      have "array ! k \<noteq> key" if "sorted array" "k \<le> mid" for k
        using that 2 sorted_nth_mono [of array k mid] mid less.prems(2) by auto
      then have "sorted array \<longrightarrow> i = - 1 \<longrightarrow> (\<forall>k. lower \<le> k \<and> k \<le> upper \<longrightarrow> array ! k \<noteq> key)"
        using i(3) by (metis Suc_eq_plus1 not_less_eq_eq)
      then show ?thesis using unf i(1,2) 2 mid less.prems(2) by auto
    next
      case 3
      then have pos: "mid \<noteq> 0" using less.prems(3) by (cases mid) auto
      obtain i where i: "binary_loop array key lower (mid - 1) = Some i"
        "i = - 1 \<or> 0 \<le> i \<and> nat i < length array \<and> array ! nat i = key"
        "sorted array \<longrightarrow> i = - 1 \<longrightarrow> (\<forall>k. lower \<le> k \<and> k \<le> mid - 1 \<longrightarrow> array ! k \<noteq> key)"
        using less.hyps [of "mid - 1" lower] less.prems mid pos by force
      have "array ! k \<noteq> key" if "sorted array" "mid \<le> k" "k \<le> upper" for k
        using that 3 sorted_nth_mono [of array mid k] mid less.prems(2) by auto
      moreover have "k \<le> mid - 1 \<or> mid \<le> k" for k using pos by linarith
      ultimately have "sorted array \<longrightarrow> i = - 1 \<longrightarrow> (\<forall>k. lower \<le> k \<and> k \<le> upper \<longrightarrow> array ! k \<noteq> key)"
        using i(3) by metis
      then show ?thesis using unf i(1,2) 3 mid less.prems(2) pos by auto
    qed
  qed
qed

lemma sorted_key_bounds:
  assumes "sorted array" "key \<in> set array"
  shows "array ! 0 \<le> key" "key \<le> array ! (length array - 1)"
proof -
  obtain k where "k < length array" "array ! k = key" using assms(2) by (auto simp: in_set_conv_nth)
  then show "array ! 0 \<le> key" "key \<le> array ! (length array - 1)"
    using sorted_nth_mono [OF assms(1), of 0 k] sorted_nth_mono [OF assms(1), of k "length array - 1"] by auto
qed

interpretation binary_search: search_method "search_binary :: 'a::linorder list \<Rightarrow> 'a \<Rightarrow> int option"
proof
  fix array :: "'a list" and key :: 'a
  assume sorted: "sorted array"
  show "\<exists>i. search_binary array key = Some i \<and> search_result array key i"
  proof (cases "array = [] \<or> key < array ! 0 \<or> key > array ! (length array - 1)")
    case True
    then have "key \<notin> set array" using sorted_key_bounds [OF sorted, of key] by auto
    then show ?thesis using True by (auto simp: search_binary_def search_result_def)
  next
    case False
    then obtain i where i: "binary_loop array key 0 (length array - 1) = Some i"
      "i = - 1 \<or> 0 \<le> i \<and> nat i < length array \<and> array ! nat i = key"
      "i = - 1 \<longrightarrow> (\<forall>k \<le> length array - 1. array ! k \<noteq> key)"
      using binary_loop_spec [of array "length array - 1" key 0] sorted by (auto simp: not_less)
    have "key \<notin> set array" if "i = - 1"
      using i(3) that by (metis in_set_conv_nth One_nat_def Suc_pred length_pos_if_in_set less_Suc_eq_le)
    then show ?thesis using False i(1,2) by (auto simp: search_binary_def search_result_def)
  qed
qed

section \<open>Fibonacci search\<close>

definition fib_rec :: "nat list \<Rightarrow> bool" where
  "fib_rec fs = (\<forall>k. k + 2 < length fs \<longrightarrow> fs ! (k + 2) = fs ! k + fs ! (k + 1))"

lemma fib_rec_Cons: "fib_rec (b # fs) \<Longrightarrow> fs = [] \<or> hd fs = a + b \<Longrightarrow> fib_rec (a # b # fs)"
  unfolding fib_rec_def
proof (intro allI impI)
  fix k
  assume hyps: "\<forall>k. k + 2 < length (b # fs) \<longrightarrow> (b # fs) ! (k + 2) = (b # fs) ! k + (b # fs) ! (k + 1)"
    "fs = [] \<or> hd fs = a + b" "k + 2 < length (a # b # fs)"
  show "(a # b # fs) ! (k + 2) = (a # b # fs) ! k + (a # b # fs) ! (k + 1)"
  proof (cases k)
    case 0
    then show ?thesis using hyps by (auto simp: hd_conv_nth)
  next
    case (Suc j)
    then show ?thesis using hyps(1) [rule_format, of j] hyps(3) by simp
  qed
qed

lemma fibonacci_loop_spec:
  assumes "1 \<le> f1" "f1 \<le> f2" "f1 \<le> limit" "limit < 2 ^ 31" "f2 < 2 ^ 32"
  shows "\<exists>fs. fibonacci_loop limit f1 f2 = Some fs \<and> fs \<noteq> [] \<and> hd fs = f2 \<and> fib_rec (f1 # fs)
    \<and> limit < last fs \<and> last fs < 2 ^ 32"
  using assms
proof (induction "Suc limit - f2" arbitrary: f1 f2 rule: less_induct)
  case less
  show ?case
  proof (cases "f2 > limit")
    case True
    have "fibonacci_loop limit f1 f2 = Some [f2]" by (subst fibonacci_loop.simps) (rule if_P [OF True])
    then show ?thesis using True less.prems by (auto simp: fib_rec_def)
  next
    case False
    have sum: "(f1 + f2) mod 2 ^ 32 = f1 + f2" using False less.prems by simp
    have "fibonacci_loop limit f1 f2
        = Option.bind (fibonacci_loop limit f2 ((f1 + f2) mod 2 ^ 32)) (\<lambda>fs. Some (f2 # fs))"
      by (subst fibonacci_loop.simps) (rule if_not_P [OF False])
    then have unf: "fibonacci_loop limit f1 f2
        = Option.bind (fibonacci_loop limit f2 (f1 + f2)) (\<lambda>fs. Some (f2 # fs))"
      using sum by simp
    obtain fs where fs: "fibonacci_loop limit f2 (f1 + f2) = Some fs" "fs \<noteq> []" "hd fs = f1 + f2"
      "fib_rec (f2 # fs)" "limit < last fs" "last fs < 2 ^ 32"
      using less.hyps [of "f1 + f2" f2] less.prems False by force
    show ?thesis using fs fib_rec_Cons [OF fs(4), of f1] by (auto simp: unf)
  qed
qed

lemma generateFibonacciNumber_spec:
  assumes "0 < limit" "limit < 2 ^ 31"
  obtains fib where "generateFibonacciNumber limit = Some fib" "3 \<le> length fib" "fib ! 0 = 1" "fib ! 1 = 1"
    "fib_rec fib" "limit < last fib" "last fib < 2 ^ 32"
proof -
  obtain fs where fs: "fibonacci_loop limit 1 1 = Some fs" "fs \<noteq> []" "hd fs = 1" "fib_rec (1 # fs)"
    "limit < last fs" "last fs < 2 ^ 32"
    using fibonacci_loop_spec [of 1 1 limit] assms by auto
  have "fibonacci_loop limit 0 1
      = Option.bind (fibonacci_loop limit 1 ((0 + 1) mod 2 ^ 32)) (\<lambda>fs. Some (1 # fs))"
    by (subst fibonacci_loop.simps) (rule if_not_P, use assms in simp)
  then have "generateFibonacciNumber limit = Some (1 # fs)"
    using fs(1) assms by (simp add: generateFibonacciNumber_def)
  moreover have "3 \<le> length (1 # fs)"
  proof (rule ccontr)
    assume "\<not> ?thesis"
    then obtain x where "fs = [x]" using fs(2) by (cases fs rule: remdups_adj.cases) auto
    then show False using fs(3,5) assms by simp
  qed
  ultimately show thesis using that [of "1 # fs"] fs by (simp add: hd_conv_nth)
qed

lemma fib_rec_pos:
  assumes "fib_rec fib" "fib ! 0 = 1" "fib ! 1 = 1" "k < length fib"
  shows "1 \<le> fib ! k"
  using assms(4)
proof (induction k rule: less_induct)
  case (less k)
  show ?case
  proof (cases "k < 2")
    case True
    then have "k = 0 \<or> k = 1" by auto
    then show ?thesis using assms(2,3) by auto
  next
    case False
    then have "fib ! k = fib ! (k - 2) + fib ! (k - 1)"
      using assms(1) [unfolded fib_rec_def, rule_format, of "k - 2"] less.prems
      by (simp add: numeral_2_eq_2 Suc_diff_Suc)
    moreover have "1 \<le> fib ! (k - 2)" using less.IH [of "k - 2"] less.prems False by simp
    ultimately show ?thesis by simp
  qed
qed

lemma fib_search_loop_stop:
  "\<not> (lower \<le> upper \<and> n \<ge> 2) \<Longrightarrow> fib_search_loop c fib key lower upper n = Some (- 1)"
  by (subst fib_search_loop.simps) (rule if_not_P)

lemma fib_search_loop_step:
  assumes run: "lower \<le> upper \<and> n \<ge> 2"
    and mid: "mid = lower + fib ! (n - 1) - 1" "mid < length c" "length c < 2 ^ 32"
  shows "fib_search_loop c fib key lower upper n =
    (if c ! mid > key then
       (if mid = 0 then Some (- 1) else fib_search_loop c fib key lower (mid - 1) (n - 1))
     else if c ! mid < key then fib_search_loop c fib key (mid + 1) upper (n - 2)
     else Some (int (if mid \<le> upper then mid else upper)))"
proof -
  have m: "(lower + fib ! (n - 1) - 1) mod 2 ^ 32 = mid" using mid by (simp add: mod_less)
  have "\<not> mid \<ge> length c" using mid(2) by simp
  then show ?thesis
    by (subst fib_search_loop.simps) (simp only: if_P [OF run] m Let_def if_False)
qed

text \<open>
  The invariant of the loop: everything left of \<open>lower\<close> is smaller than the key, everything from
  \<open>lower + fib ! n - 1\<close> on and everything of the array right of \<open>upper\<close> is larger. \<open>upper\<close> leaves the
  array only when the last element is larger than the key.
\<close>

definition fib_inv :: "'a::linorder list \<Rightarrow> nat \<Rightarrow> nat list \<Rightarrow> 'a \<Rightarrow> nat \<Rightarrow> nat \<Rightarrow> nat \<Rightarrow> bool" where
  "fib_inv c len fib key lower upper n \<longleftrightarrow>
     n < length fib \<and> (upper < len \<or> key < c ! (len - 1)) \<and> lower + fib ! n \<le> Suc (length c)
     \<and> (\<forall>k < length c. k < lower \<longrightarrow> c ! k < key)
     \<and> (\<forall>k < length c. lower + fib ! n \<le> Suc k \<longrightarrow> key < c ! k)
     \<and> (\<forall>k < len. upper < k \<longrightarrow> key < c ! k)"

definition padded :: "'a::linorder list \<Rightarrow> nat \<Rightarrow> nat list \<Rightarrow> 'a \<Rightarrow> bool" where
  "padded c len fib key \<longleftrightarrow> sorted c \<and> 0 < len \<and> len \<le> length c \<and> length c < 2 ^ 32
     \<and> (\<forall>k < length c. len \<le> k \<longrightarrow> c ! k = c ! (len - 1)) \<and> c ! 0 \<le> key
     \<and> fib_rec fib \<and> fib ! 0 = 1 \<and> fib ! 1 = 1"

lemma padded_right_of: "padded c len fib key \<Longrightarrow> i < length c \<Longrightarrow> key < c ! i \<Longrightarrow> i \<le> k \<Longrightarrow> k < length c \<Longrightarrow> key < c ! k"
  using sorted_nth_mono [of c i k] by (simp add: padded_def order.strict_trans2)

lemma padded_left_of: "padded c len fib key \<Longrightarrow> i < length c \<Longrightarrow> c ! i < key \<Longrightarrow> k \<le> i \<Longrightarrow> c ! k < key"
  using sorted_nth_mono [of c k i] by (simp add: padded_def order.strict_trans1)

lemma padded_fib_split:
  "padded c len fib key \<Longrightarrow> 2 \<le> n \<Longrightarrow> n < length fib \<Longrightarrow> fib ! n = fib ! (n - 2) + fib ! (n - 1)"
  unfolding padded_def fib_rec_def
  by (elim conjE, drule spec [of _ "n - 2"]) (simp add: numeral_2_eq_2 Suc_diff_Suc)

lemma padded_fib_pos: "padded c len fib key \<Longrightarrow> n < length fib \<Longrightarrow> 1 \<le> fib ! n"
  using fib_rec_pos [of fib n] by (simp add: padded_def)

lemma fib_inv_mid:
  assumes "padded c len fib key" "fib_inv c len fib key lower upper n" "2 \<le> n"
  shows "lower + fib ! (n - 1) - 1 < length c" "lower + fib ! (n - 1) - 1 + 1 = lower + fib ! (n - 1)"
proof -
  have "n < length fib" "lower + fib ! n \<le> Suc (length c)" using assms(2) by (simp_all add: fib_inv_def)
  moreover from this have "fib ! n = fib ! (n - 2) + fib ! (n - 1)" "1 \<le> fib ! (n - 1)" "1 \<le> fib ! (n - 2)"
    using padded_fib_split [OF assms(1,3)] padded_fib_pos [OF assms(1)] by simp_all
  ultimately show "lower + fib ! (n - 1) - 1 < length c" "lower + fib ! (n - 1) - 1 + 1 = lower + fib ! (n - 1)"
    by linarith+
qed

lemma fib_inv_left:
  assumes pa: "padded c len fib key" and inv: "fib_inv c len fib key lower upper n" and n: "2 \<le> n"
    and mid: "mid = lower + fib ! (n - 1) - 1" "mid \<noteq> 0" "key < c ! mid"
  shows "fib_inv c len fib key lower (mid - 1) (n - 1)"
proof -
  have m: "mid < length c" "mid + 1 = lower + fib ! (n - 1)" using fib_inv_mid [OF pa inv n] mid(1) by auto
  have rest: "key < c ! k" if "mid \<le> k" "k < length c" for k
    by (rule padded_right_of [OF pa m(1) mid(3) that])
  have last: "mid - 1 < len \<or> key < c ! (len - 1)"
  proof (cases "mid < len")
    case True
    then show ?thesis by linarith
  next
    case False
    then have "c ! mid = c ! (len - 1)" using pa m(1) by (simp add: padded_def)
    then show ?thesis using mid(3) by simp
  qed
  have "n - 1 < length fib" "lower + fib ! (n - 1) \<le> Suc (length c)"
    "\<forall>k < length c. k < lower \<longrightarrow> c ! k < key"
    using inv n m by (auto simp: fib_inv_def)
  moreover have "\<forall>k < length c. lower + fib ! (n - 1) \<le> Suc k \<longrightarrow> key < c ! k"
    using rest m(2) by (metis Suc_eq_plus1 Suc_le_mono)
  moreover have "key < c ! k" if "k < len" "mid - 1 < k" for k
    using rest [of k] that pa by (simp add: padded_def)
  ultimately show ?thesis using last by (simp add: fib_inv_def)
qed

lemma fib_inv_right:
  assumes pa: "padded c len fib key" and inv: "fib_inv c len fib key lower upper n" and n: "2 \<le> n"
    and mid: "mid = lower + fib ! (n - 1) - 1" "c ! mid < key"
  shows "fib_inv c len fib key (mid + 1) upper (n - 2)"
proof -
  have m: "mid < length c" "mid + 1 = lower + fib ! (n - 1)" using fib_inv_mid [OF pa inv n] mid(1) by auto
  have rest: "c ! k < key" if "k < mid + 1" for k
    by (rule padded_left_of [OF pa m(1) mid(2)]) (use that in simp)
  have "n < length fib" using inv by (simp add: fib_inv_def)
  then have "mid + 1 + fib ! (n - 2) = lower + fib ! n" "n - 2 < length fib"
    using padded_fib_split [OF pa n] m(2) by simp_all
  then show ?thesis using inv rest by (simp add: fib_inv_def)
qed

lemma fib_inv_found:
  assumes pa: "padded c len fib key" and inv: "fib_inv c len fib key lower upper n"
    and mid: "mid < length c" "c ! mid = key" and i: "i = (if mid \<le> upper then mid else upper)"
  shows "i < len \<and> c ! i = key"
proof (cases "mid < len")
  case True
  then have "mid \<le> upper" using inv mid(2) by (auto simp: fib_inv_def not_le)
  then show ?thesis using True i mid(2) by simp
next
  case False
  then have lst: "c ! (len - 1) = key" and len: "0 < len" using pa mid by (simp_all add: padded_def)
  have "upper < len" using inv lst by (simp add: fib_inv_def)
  moreover have "key < c ! (len - 1)" if "upper < len - 1" using inv len that by (simp add: fib_inv_def)
  ultimately have "upper = len - 1" using lst by (cases "upper < len - 1") auto
  then show ?thesis using False lst i len by simp
qed

lemma fib_inv_absent:
  assumes pa: "padded c len fib key" and inv: "fib_inv c len fib key lower upper n"
    and stop: "\<not> (lower \<le> upper \<and> 2 \<le> n)" and k: "k < len"
  shows "c ! k \<noteq> key"
proof -
  have kc: "k < length c" using pa k by (simp add: padded_def)
  have lo: "c ! k < key" if "k < lower" using inv kc that by (simp add: fib_inv_def)
  have up: "key < c ! k" if "upper < k" using inv k that by (simp add: fib_inv_def)
  show ?thesis
  proof (cases "lower \<le> upper")
    case False
    then show ?thesis using lo up by fastforce
  next
    case True
    then have "n = 0 \<or> n = 1" using stop by auto
    then have "fib ! n = 1" using pa by (auto simp: padded_def)
    then have "key < c ! k" if "lower \<le> k" using inv kc that by (simp add: fib_inv_def)
    then show ?thesis using lo by fastforce
  qed
qed

lemma fib_search_loop_correct:
  assumes pa: "padded c len fib key" and "fib_inv c len fib key lower upper n"
  shows "(\<exists>i. fib_search_loop c fib key lower upper n = Some (int i) \<and> i < len \<and> c ! i = key)
    \<or> fib_search_loop c fib key lower upper n = Some (- 1) \<and> (\<forall>k < len. c ! k \<noteq> key)"
  using assms(2)
proof (induction n arbitrary: lower upper rule: less_induct)
  case (less n)
  define mid where "mid = lower + fib ! (n - 1) - 1"
  show ?case
  proof (cases "lower \<le> upper \<and> 2 \<le> n")
    case False
    then show ?thesis
      using fib_inv_absent [OF pa less.prems False] fib_search_loop_stop [OF False, of c fib key] by blast
  next
    case True
    then have n: "2 \<le> n" by simp
    have m: "mid < length c" using fib_inv_mid [OF pa less.prems n] by (simp add: mid_def)
    have small: "length c < 2 ^ 32" "c ! 0 \<le> key" using pa by (simp_all add: padded_def)
    note step = fib_search_loop_step [OF True mid_def m small(1)]
    consider (left) "key < c ! mid" | (right) "c ! mid < key" | (found) "c ! mid = key" by force
    then show ?thesis
    proof cases
      case left
      then have "mid \<noteq> 0" using small(2) by (cases mid) auto
      then show ?thesis
        using less.IH [OF _ fib_inv_left [OF pa less.prems n mid_def _ left]] step left n by simp
    next
      case right
      then have "\<not> key < c ! mid" by simp
      then show ?thesis
        using right less.IH [OF _ fib_inv_right [OF pa less.prems n mid_def right]] step n by simp
    next
      case found
      then show ?thesis using fib_inv_found [OF pa less.prems m found refl] step by auto
    qed
  qed
qed

lemma padded_start:
  assumes sorted: "sorted array" "array \<noteq> []" "array ! 0 \<le> key" "length array < p" "p < 2 ^ 32"
    and fib: "fib_rec fib" "fib ! 0 = 1" "fib ! 1 = 1" "3 \<le> length fib" "last fib = p"
    and c: "c = array @ replicate (p - 1 - length array) (array ! (length array - 1))"
  shows "padded c (length array) fib key"
    "fib_inv c (length array) fib key 0 (length array - 1) (length fib - 1)"
proof -
  have len: "length c = p - 1" using sorted(4) by (simp add: c)
  have "c ! k = array ! (length array - 1)" if "length array \<le> k" "k < length c" for k
    using that by (simp add: c nth_append)
  moreover have "c ! (length array - 1) = array ! (length array - 1)" "c ! 0 = array ! 0"
    using sorted(2) by (simp_all add: c nth_append)
  moreover have "sorted c"
    unfolding c sorted_append
    using sorted(1,2) sorted_nth_mono [OF sorted(1), of _ "length array - 1"]
    by (auto simp: in_set_conv_nth sorted_replicate)
  moreover have "length array \<le> p - 1" "p - 1 < 2 ^ 32" using sorted(4,5) by linarith+
  ultimately show "padded c (length array) fib key"
    using sorted fib len by (simp add: padded_def)
  have "fib ! (length fib - 1) = p" using fib(4,5) by (metis last_conv_nth list.size(3) not_numeral_le_zero)
  then show "fib_inv c (length array) fib key 0 (length array - 1) (length fib - 1)"
    using sorted(2,4) fib(4) len unfolding fib_inv_def
    by (intro conjI allI impI; (linarith | simp))
qed

interpretation fibonacci_search: search_method "search_fibonacci :: 'a::linorder list \<Rightarrow> 'a \<Rightarrow> int option"
proof
  fix array :: "'a list" and key :: 'a
  assume sorted: "sorted array" and small: "length array < 2 ^ 31"
  show "\<exists>i. search_fibonacci array key = Some i \<and> search_result array key i"
  proof (cases "array = [] \<or> key < array ! 0 \<or> key > array ! (length array - 1)")
    case True
    then have "key \<notin> set array" using sorted_key_bounds [OF sorted, of key] by auto
    then show ?thesis using True by (auto simp: search_fibonacci_def search_result_def)
  next
    case False
    obtain fib where gen: "generateFibonacciNumber (length array) = Some fib" and
      fib: "3 \<le> length fib" "fib ! 0 = 1" "fib ! 1 = 1" "fib_rec fib" "length array < last fib" "last fib < 2 ^ 32"
      using generateFibonacciNumber_spec [of "length array"] False small by auto
    define c where
      "c = array @ replicate (last fib - 1 - length array) (array ! (length array - 1))"
    have "fib ! (length fib - 1) = last fib" using fib(1) by (metis last_conv_nth list.size(3) not_numeral_le_zero)
    then have run: "search_fibonacci array key = fib_search_loop c fib key 0 (length array - 1) (length fib - 1)"
      using False gen fib(1) by (simp add: search_fibonacci_def c_def Let_def)
    have "array \<noteq> []" "array ! 0 \<le> key" using False by auto
    note start = padded_start [OF sorted this fib(5,6,4,2,3,1) refl c_def]
    have same: "c ! k = array ! k" if "k < length array" for k using that by (simp add: c_def nth_append)
    consider i where "search_fibonacci array key = Some (int i)" "i < length array" "array ! i = key"
      | "search_fibonacci array key = Some (- 1)" "\<forall>k < length array. array ! k \<noteq> key"
      using fib_search_loop_correct [OF start] same run by auto
    then show ?thesis
    proof cases
      case 1
      then show ?thesis using nth_mem [of i array] by (simp add: search_result_def)
    next
      case 2
      then show ?thesis by (auto simp: search_result_def in_set_conv_nth)
    qed
  qed
qed



end
