(* ===== verification/AL_Notation.thy ===== *)
theory AL_Notation
  imports Foo_Prelude "HOL-Library.Monad_Syntax"
begin

text \<open>
  The conversion of infix expressions to postfix and prefix notation in
  \<open>src/algorithm/source/notation.cpp\<close>. The stack of characters is a list with its top first; the top
  of an empty stack is undefined, \<^term>\<open>None\<close>. The expressions a string may stand for are given by a
  grammar of trees with redundant parentheses.
\<close>

section \<open>Priorities\<close>

datatype Priority = Priority_none | Priority_low | Priority_medium | Priority_high

fun priority_rank :: "Priority \<Rightarrow> nat" where
  "priority_rank Priority_none = 0"
| "priority_rank Priority_low = 1"
| "priority_rank Priority_medium = 2"
| "priority_rank Priority_high = 3"

lemma priority_rank_inject: "priority_rank p = priority_rank q \<Longrightarrow> p = q"
  by (cases p; cases q) auto

text \<open>Enumerators compare by their value.\<close>

instantiation Priority :: linorder
begin

definition less_eq_Priority :: "Priority \<Rightarrow> Priority \<Rightarrow> bool" where
  "p \<le> q \<longleftrightarrow> priority_rank p \<le> priority_rank q"

definition less_Priority :: "Priority \<Rightarrow> Priority \<Rightarrow> bool" where
  "p < q \<longleftrightarrow> priority_rank p < priority_rank q"

instance
  by standard (auto simp: less_eq_Priority_def less_Priority_def intro: priority_rank_inject)

end

section \<open>Operations\<close>

definition isalpha :: "char \<Rightarrow> bool" where
  "isalpha c \<longleftrightarrow> (of_char c :: nat) \<in> {65..90} \<or> (of_char c :: nat) \<in> {97..122}"

definition isdigit :: "char \<Rightarrow> bool" where
  "isdigit c \<longleftrightarrow> (of_char c :: nat) \<in> {48..57}"

definition isOperator :: "char \<Rightarrow> bool" where
  "isOperator c \<longleftrightarrow> \<not> isalpha c \<and> \<not> isdigit c"

definition getPriority :: "char \<Rightarrow> Priority" where
  "getPriority c =
     (if c = CHR ''+'' \<or> c = CHR ''-'' then Priority_low
      else if c = CHR ''*'' \<or> c = CHR ''/'' then Priority_medium
      else if c = CHR ''^'' then Priority_high
      else Priority_none)"

text \<open>The two inner loops: up to the opening parenthesis, and down to a lower priority.\<close>

fun pop_group :: "string \<Rightarrow> string \<Rightarrow> (string \<times> string) option" where
  "pop_group postfix [] = None"
| "pop_group postfix (x # charStack) =
     (if x \<noteq> CHR ''('' then pop_group (postfix @ [x]) charStack else Some (postfix, charStack))"

fun pop_higher :: "char \<Rightarrow> string \<Rightarrow> string \<Rightarrow> string \<times> string" where
  "pop_higher c postfix [] = (postfix, [])"
| "pop_higher c postfix (x # charStack) =
     (if getPriority c \<le> getPriority x then pop_higher c (postfix @ [x]) charStack
      else (postfix, x # charStack))"

definition convert_char :: "char \<Rightarrow> string \<times> string \<Rightarrow> (string \<times> string) option" where
  "convert_char c st =
     (if \<not> isOperator c then Some (fst st @ [c], snd st)
      else if c = CHR ''('' then Some (fst st, CHR ''('' # snd st)
      else if c = CHR '')'' then pop_group (fst st) (snd st)
      else (let (postfix, charStack) = pop_higher c (fst st) (snd st) in Some (postfix, c # charStack)))"

fun convert :: "string \<Rightarrow> string \<times> string \<Rightarrow> (string \<times> string) option" where
  "convert [] st = Some st"
| "convert (c # infx) st = do { st \<leftarrow> convert_char c st; convert infx st }"

definition infixToPostfix :: "string \<Rightarrow> string option" where
  "infixToPostfix infx = do { (postfix, charStack) \<leftarrow> convert infx ([], []); Some (postfix @ charStack) }"

definition notation_postfix :: "string \<Rightarrow> string option" where
  "notation_postfix infx = infixToPostfix infx"

definition swap_paren :: "char \<Rightarrow> char" where
  "swap_paren c = (if c = CHR ''('' then CHR '')'' else if c = CHR '')'' then CHR ''('' else c)"

definition notation_prefix :: "string \<Rightarrow> string option" where
  "notation_prefix infx =
     do { converted \<leftarrow> infixToPostfix (map swap_paren (rev infx)); Some (rev converted) }"

section \<open>Expressions\<close>

datatype expr = Operand char | Paren expr | Binary expr char expr

fun print :: "expr \<Rightarrow> string" where
  "print (Operand c) = [c]"
| "print (Paren e) = CHR ''('' # print e @ [CHR '')'']"
| "print (Binary l c r) = print l @ c # print r"

fun postorder :: "expr \<Rightarrow> string" where
  "postorder (Operand c) = [c]"
| "postorder (Paren e) = postorder e"
| "postorder (Binary l c r) = postorder l @ postorder r @ [c]"

fun preorder :: "expr \<Rightarrow> string" where
  "preorder (Operand c) = [c]"
| "preorder (Paren e) = preorder e"
| "preorder (Binary l c r) = c # preorder l @ preorder r"

definition arithmetic_op :: "char \<Rightarrow> bool" where
  "arithmetic_op c \<longleftrightarrow> c \<in> set ''+-*/^''"

text \<open>Operand and parenthesis bind closest; otherwise the operator at the root decides.\<close>

fun binds :: "(Priority \<Rightarrow> Priority \<Rightarrow> bool) \<Rightarrow> char \<Rightarrow> expr \<Rightarrow> bool" where
  "binds rel c (Binary l d r) \<longleftrightarrow> rel (getPriority c) (getPriority d)"
| "binds rel c e \<longleftrightarrow> True"

text \<open>
  The trees the grammar assigns to a string: operators of the same priority associate to the left,
  respectively to the right.
\<close>

fun left_assoc :: "expr \<Rightarrow> bool" where
  "left_assoc (Operand c) \<longleftrightarrow> \<not> isOperator c"
| "left_assoc (Paren e) \<longleftrightarrow> left_assoc e"
| "left_assoc (Binary l c r) \<longleftrightarrow>
     arithmetic_op c \<and> left_assoc l \<and> left_assoc r \<and> binds (\<le>) c l \<and> binds (<) c r"

fun right_assoc :: "expr \<Rightarrow> bool" where
  "right_assoc (Operand c) \<longleftrightarrow> \<not> isOperator c"
| "right_assoc (Paren e) \<longleftrightarrow> right_assoc e"
| "right_assoc (Binary l c r) \<longleftrightarrow>
     arithmetic_op c \<and> right_assoc l \<and> right_assoc r \<and> binds (<) c l \<and> binds (\<le>) c r"

fun mirror :: "expr \<Rightarrow> expr" where
  "mirror (Operand c) = Operand c"
| "mirror (Paren e) = Paren (mirror e)"
| "mirror (Binary l c r) = Binary (mirror r) c (mirror l)"

section \<open>The stack during a conversion\<close>

lemma convert_append: "convert (xs @ ys) st = do { st \<leftarrow> convert xs st; convert ys st }"
proof (induction xs arbitrary: st)
  case (Cons x xs)
  then show ?case by (cases "convert_char x st") simp_all
qed simp

lemma arithmetic_opD:
  assumes "arithmetic_op c"
  shows "isOperator c" "c \<noteq> CHR ''(''" "c \<noteq> CHR '')''" "Priority_none < getPriority c"
proof -
  have "c = CHR ''+'' \<or> c = CHR ''-'' \<or> c = CHR ''*'' \<or> c = CHR ''/'' \<or> c = CHR ''^''"
    using assms by (simp add: arithmetic_op_def)
  then show "isOperator c" "c \<noteq> CHR ''(''" "c \<noteq> CHR '')''" "Priority_none < getPriority c"
    by (auto simp: isOperator_def isalpha_def isdigit_def getPriority_def less_Priority_def)
qed

text \<open>The operators a converted expression leaves on the stack, and the least priority below them.\<close>

definition below :: "Priority \<Rightarrow> string \<Rightarrow> bool" where
  "below p st \<longleftrightarrow> (case st of [] \<Rightarrow> True | x # _ \<Rightarrow> getPriority x < p)"

lemma pop_higher_run:
  assumes "\<forall>x\<in>set p. getPriority c \<le> getPriority x" "below (getPriority c) st"
  shows "pop_higher c out (p @ st) = (out @ p, st)"
  using assms
proof (induction p arbitrary: out)
  case Nil
  then show ?case by (cases st) (auto simp: below_def not_le)
qed simp

lemma pop_group_run: "CHR ''('' \<notin> set p \<Longrightarrow> pop_group out (p @ CHR ''('' # st) = Some (out @ p, st)"
  by (induction p arbitrary: out) auto

lemma paren_priority [simp]: "getPriority CHR ''('' = Priority_none"
  by (simp add: getPriority_def)

lemma isOperator_parens [simp]: "isOperator CHR ''(''" "isOperator CHR '')''"
  by (simp_all add: isOperator_def isalpha_def isdigit_def)

text \<open>The least priority that an expression may meet on the stack.\<close>

fun root_priority :: "expr \<Rightarrow> Priority" where
  "root_priority (Binary l c r) = getPriority c"
| "root_priority e = Priority_high"

definition leaves :: "expr \<Rightarrow> string \<Rightarrow> string \<Rightarrow> bool" where
  "leaves e out p \<longleftrightarrow> out @ p = postorder e \<and> CHR ''('' \<notin> set p \<and> (\<forall>x\<in>set p. root_priority e \<le> getPriority x)"

definition admits :: "expr \<Rightarrow> string \<Rightarrow> bool" where
  "admits e st \<longleftrightarrow> (case e of Binary l c r \<Rightarrow> below (getPriority c) st | _ \<Rightarrow> True)"

lemma convert_print:
  assumes "left_assoc e" "admits e st"
  shows "\<exists>o' p. convert (print e) (out, st) = Some (out @ o', p @ st) \<and> leaves e o' p
     \<and> (p = [] \<or> (\<exists>l c r. e = Binary l c r))"
  using assms
proof (induction e arbitrary: out st)
  case (Operand c)
  then show ?case by (simp add: convert_char_def leaves_def)
next
  case (Paren e)
  have "admits e (CHR ''('' # st)"
    using Paren.prems(1) by (cases e) (auto simp: admits_def below_def dest: arithmetic_opD)
  then obtain o' p where run: "convert (print e) (out, CHR ''('' # st) = Some (out @ o', p @ CHR ''('' # st)"
    and p: "leaves e o' p" using Paren.IH [of "CHR ''('' # st" out] Paren.prems(1) by auto
  have "convert (print (Paren e)) (out, st) = Some (out @ (o' @ p), st)"
    using run p by (simp add: convert_char_def convert_append leaves_def pop_group_run)
  then show ?case using p by (auto simp: leaves_def)
next
  case (Binary l c r)
  note c = arithmetic_opD [of c]
  have op: "arithmetic_op c" and st: "below (getPriority c) st"
    using Binary.prems by (auto simp: admits_def)
  have "admits l st" using Binary.prems st by (cases l) (auto simp: admits_def below_def split: list.splits)
  then obtain ol pl where l: "convert (print l) (out, st) = Some (out @ ol, pl @ st)" "leaves l ol pl"
    "pl = [] \<or> (\<exists>a d b. l = Binary a d b)" using Binary.IH(1) [of st out] Binary.prems(1) by auto
  have "\<forall>x\<in>set pl. getPriority c \<le> getPriority x"
    using l(2,3) Binary.prems(1) by (auto simp: leaves_def intro: order_trans)
  then have pop: "pop_higher c (out @ ol) (pl @ st) = (out @ ol @ pl, st)" using pop_higher_run st by simp
  have "admits r (c # st)" using Binary.prems(1) by (cases r) (auto simp: admits_def below_def)
  then obtain or pr where r: "convert (print r) (out @ ol @ pl, c # st) = Some ((out @ ol @ pl) @ or, pr @ c # st)"
    "leaves r or pr" "pr = [] \<or> (\<exists>a d b. r = Binary a d b)"
    using Binary.IH(2) [of "c # st" "out @ ol @ pl"] Binary.prems(1) by auto
  have "convert (print (Binary l c r)) (out, st) = Some (out @ (ol @ pl @ or), (pr @ [c]) @ st)"
    using l(1) pop r(1) c [OF op] by (simp add: convert_append convert_char_def)
  moreover have "leaves (Binary l c r) (ol @ pl @ or) (pr @ [c])"
    using l(2) r(2,3) Binary.prems(1) c [OF op] by (auto simp: leaves_def intro: order_trans less_imp_le)
  ultimately show ?case by blast
qed

lemma postfix_correct: "left_assoc e \<Longrightarrow> infixToPostfix (print e) = Some (postorder e)"
proof -
  assume "left_assoc e"
  moreover have "admits e []" by (cases e) (simp_all add: admits_def below_def)
  ultimately show ?thesis using convert_print [of e "[]" "[]"] by (auto simp: infixToPostfix_def leaves_def)
qed

section \<open>Prefix notation by reversal\<close>

lemma isOperator_swap: "\<not> isOperator c \<Longrightarrow> swap_paren c = c"
  by (auto simp: swap_paren_def)

lemma arithmetic_swap: "arithmetic_op c \<Longrightarrow> swap_paren c = c"
  by (auto simp: swap_paren_def dest: arithmetic_opD)

lemma print_mirror: "right_assoc e \<Longrightarrow> map swap_paren (rev (print e)) = print (mirror e)"
  by (induction e) (auto simp: isOperator_swap arithmetic_swap, auto simp: swap_paren_def)

lemma binds_mirror: "binds rel c (mirror e) \<longleftrightarrow> binds rel c e"
  by (cases e) auto

lemma left_assoc_mirror: "right_assoc e \<Longrightarrow> left_assoc (mirror e)"
  by (induction e) (auto simp: binds_mirror)

lemma postorder_mirror: "rev (postorder (mirror e)) = preorder e"
  by (induction e) auto

section \<open>Properties\<close>

text \<open>
  C35: for every expression, with any redundant parentheses, \<open>postfix\<close> returns the post-order of its
  tree when operators of equal priority associate to the left, and \<open>prefix\<close> the pre-order of its
  tree when they associate to the right.
\<close>

theorem notation_correct:
  assumes "left_assoc e" "right_assoc f"
  shows "notation_postfix (print e) = Some (postorder e) \<and> notation_prefix (print f) = Some (preorder f)"
  using postfix_correct [OF assms(1)] postfix_correct [OF left_assoc_mirror [OF assms(2)]]
  by (simp add: notation_postfix_def notation_prefix_def print_mirror [OF assms(2)] postorder_mirror)

theorem notation_correct_witness:
  "notation_postfix ''a*(b+c)-d-e'' = Some ''abc+*d-e-'' \<and> notation_prefix ''a*(b+c)-d-e'' = Some ''-*a+bc-de''"
proof -
  let ?bc = "Paren (Binary (Operand CHR ''b'') CHR ''+'' (Operand CHR ''c''))"
  let ?abc = "Binary (Operand CHR ''a'') CHR ''*'' ?bc"
  have "left_assoc (Binary (Binary ?abc CHR ''-'' (Operand CHR ''d'')) CHR ''-'' (Operand CHR ''e''))"
    "right_assoc (Binary ?abc CHR ''-'' (Binary (Operand CHR ''d'') CHR ''-'' (Operand CHR ''e'')))"
    by code_simp+
  from notation_correct [OF this] show ?thesis by simp
qed

text \<open>
  \<open>prefix\<close> and \<open>postfix\<close> read the same expression differently: \<open>a-b-c\<close> is \<open>(a-b)-c\<close> in postfix
  notation and \<open>a-(b-c)\<close> in prefix notation. A closing parenthesis without an opening one makes the
  conversion read the top of an empty stack.
\<close>

theorem notation_disagree:
  "notation_postfix ''a-b-c'' = Some ''ab-c-'' \<and> notation_prefix ''a-b-c'' = Some ''-a-bc''
    \<and> notation_postfix ''a)'' = None"
  by (intro conjI) code_simp+

end
