(* ===== verification/AL_Match.thy ===== *)
theory AL_Match
  imports Foo_Prelude "HOL-Library.Monad_Syntax" "HOL-Library.Signed_Division"
begin

text \<open>
  The string matching methods of \<open>src/algorithm/source/match.cpp\<close> that compare a window of the text
  with the pattern: Rabin-Karp, Horspool and Sunday. A text or pattern is a buffer of bytes with a
  length next to it, as in the code; a read outside the buffer is \<^term>\<open>None\<close>, and so is a loop that
  does not end. The shift tables are arrays of 256 entries indexed by a byte. Sums of the
  \<open>std::uint32_t\<close> positions wrap at \<open>2 ^ 32\<close>; the \<open>std::int64_t\<close> hashes stay below \<open>2 ^ 47\<close> in absolute
  value and are integers, \<open>%\<close> on them is the remainder of the truncated division. A null pointer
  takes the same early return as length 0.
\<close>

section \<open>Operations\<close>

definition no_search :: "nat \<Rightarrow> nat \<Rightarrow> bool" where
  "no_search textLen patternLen \<longleftrightarrow> textLen = 0 \<or> patternLen = 0 \<or> textLen < patternLen"

subsection \<open>Rabin-Karp\<close>

abbreviation rollingHashBase :: int where "rollingHashBase \<equiv> 256"

abbreviation rollingHashMod :: int where "rollingHashMod \<equiv> 1000000007"

definition rk_pow :: "nat \<Rightarrow> int" where
  "rk_pow patternLen = fold (\<lambda>_ pow. (pow * rollingHashBase) smod rollingHashMod) [0..<patternLen - 1] 1"

fun rk_hash :: "byte list \<Rightarrow> nat \<Rightarrow> nat \<Rightarrow> int \<Rightarrow> int option" where
  "rk_hash buf i 0 hash = Some hash"
| "rk_hash buf i (Suc n) hash =
     do { c \<leftarrow> rd buf i; rk_hash buf (i + 1) n ((rollingHashBase * hash + uint c) smod rollingHashMod) }"

definition rk_roll :: "byte list \<Rightarrow> nat \<Rightarrow> int \<Rightarrow> nat \<Rightarrow> int \<Rightarrow> int option" where
  "rk_roll text patternLen pow i textHash =
     do {
       c \<leftarrow> rd text i;
       d \<leftarrow> rd text (i + patternLen);
       let h = (rollingHashBase * (textHash - uint c * pow) + uint d) smod rollingHashMod;
       Some (if h < 0 then h + rollingHashMod else h)
     }"

function rk_loop ::
  "byte list \<Rightarrow> byte list \<Rightarrow> nat \<Rightarrow> nat \<Rightarrow> int \<Rightarrow> int \<Rightarrow> nat \<Rightarrow> int \<Rightarrow> int option" where
  "rk_loop text pattern textLen patternLen pow patternHash i textHash =
     (if i \<le> textLen - patternLen then
        (if patternHash = textHash \<and> take patternLen (drop i text) = take patternLen pattern
         then Some (int i)
         else if i < textLen - patternLen then
           do {
             h \<leftarrow> rk_roll text patternLen pow i textHash;
             rk_loop text pattern textLen patternLen pow patternHash (i + 1) h
           }
         else rk_loop text pattern textLen patternLen pow patternHash (i + 1) textHash)
      else Some (- 1))"
  by pat_completeness auto
termination
  by (relation "measure (\<lambda>(text, pattern, n, m, pow, ph, i, h). Suc (n - m) - i)") auto

definition rk :: "byte list \<Rightarrow> byte list \<Rightarrow> nat \<Rightarrow> nat \<Rightarrow> int option" where
  "rk text pattern textLen patternLen =
     (if no_search textLen patternLen then Some (- 1)
      else do {
        patternHash \<leftarrow> rk_hash pattern 0 patternLen 0;
        textHash \<leftarrow> rk_hash text 0 patternLen 0;
        rk_loop text pattern textLen patternLen (rk_pow patternLen) patternHash 0 textHash
      })"

subsection \<open>Horspool\<close>

definition fillHorspoolBadCharShiftTable :: "byte list \<Rightarrow> nat \<Rightarrow> nat list" where
  "fillHorspoolBadCharShiftTable pattern patternLen =
     fold (\<lambda>i table. table[unat (pattern ! i) := patternLen - 1 - i]) [0..<patternLen - 1]
       (replicate 256 patternLen)"

partial_function (option) horspool_match :: "byte list \<Rightarrow> byte list \<Rightarrow> nat \<Rightarrow> nat \<Rightarrow> nat \<Rightarrow> nat option" where
  "horspool_match text pattern patternLen moveLen matchLen =
     (if matchLen \<le> patternLen - 1 then
        do {
          p \<leftarrow> rd pattern (patternLen - 1 - matchLen);
          c \<leftarrow> rd text (moveLen - matchLen);
          if p = c then horspool_match text pattern patternLen moveLen (matchLen + 1) else Some matchLen
        }
      else Some matchLen)"

partial_function (option) horspool_loop ::
  "byte list \<Rightarrow> byte list \<Rightarrow> nat \<Rightarrow> nat \<Rightarrow> nat list \<Rightarrow> nat \<Rightarrow> int option" where
  "horspool_loop text pattern textLen patternLen table moveLen =
     (if moveLen \<le> textLen - 1 then
        do {
          matchLen \<leftarrow> horspool_match text pattern patternLen moveLen 0;
          if matchLen = patternLen then Some (int ((moveLen + 2 ^ 32 - patternLen + 1) mod 2 ^ 32))
          else do {
            c \<leftarrow> rd text moveLen;
            horspool_loop text pattern textLen patternLen table ((moveLen + table ! unat c) mod 2 ^ 32)
          }
        }
      else Some (- 1))"

definition horspool :: "byte list \<Rightarrow> byte list \<Rightarrow> nat \<Rightarrow> nat \<Rightarrow> int option" where
  "horspool text pattern textLen patternLen =
     (if no_search textLen patternLen then Some (- 1)
      else horspool_loop text pattern textLen patternLen
             (fillHorspoolBadCharShiftTable pattern patternLen) (patternLen - 1))"

subsection \<open>Sunday\<close>

definition fillSundayBadCharShiftTable :: "byte list \<Rightarrow> nat \<Rightarrow> nat list" where
  "fillSundayBadCharShiftTable pattern patternLen =
     fold (\<lambda>i table. table[unat (pattern ! i) := patternLen - i]) [0..<patternLen]
       (replicate 256 (patternLen + 1))"

text \<open>The inner loop: \<open>Some True\<close> when it reaches the end of the pattern.\<close>

partial_function (option) sunday_match :: "byte list \<Rightarrow> byte list \<Rightarrow> nat \<Rightarrow> nat \<Rightarrow> nat \<Rightarrow> bool option" where
  "sunday_match text pattern patternLen textIdx matchLen =
     do {
       c \<leftarrow> rd text (textIdx + matchLen);
       p \<leftarrow> rd pattern matchLen;
       if c = p then
         (if matchLen + 1 = patternLen then Some True
          else sunday_match text pattern patternLen textIdx (matchLen + 1))
       else Some False
     }"

partial_function (option) sunday_loop ::
  "byte list \<Rightarrow> byte list \<Rightarrow> nat \<Rightarrow> nat \<Rightarrow> nat list \<Rightarrow> nat \<Rightarrow> int option" where
  "sunday_loop text pattern textLen patternLen table textIdx =
     (if textIdx \<le> textLen - patternLen then
        do {
          found \<leftarrow> sunday_match text pattern patternLen textIdx 0;
          if found then Some (int textIdx)
          else do {
            c \<leftarrow> rd text (textIdx + patternLen);
            sunday_loop text pattern textLen patternLen table ((textIdx + table ! unat c) mod 2 ^ 32)
          }
        }
      else Some (- 1))"

definition sunday :: "byte list \<Rightarrow> byte list \<Rightarrow> nat \<Rightarrow> nat \<Rightarrow> int option" where
  "sunday text pattern textLen patternLen =
     (if no_search textLen patternLen then Some (- 1)
      else sunday_loop text pattern textLen patternLen (fillSundayBadCharShiftTable pattern patternLen) 0)"

lemmas [code] = horspool_match.simps horspool_loop.simps sunday_match.simps sunday_loop.simps

section \<open>The contract\<close>

text \<open>
  \<open>occ text pattern m t\<close>: the pattern occurs in the text with shift \<open>t\<close>. A matching method answers
  with the least shift at which the pattern occurs inside the text, and with \<open>-1\<close> when there is none.
\<close>

definition occ :: "'a list \<Rightarrow> 'a list \<Rightarrow> nat \<Rightarrow> nat \<Rightarrow> bool" where
  "occ text pattern m t \<longleftrightarrow> (\<forall>k < m. text ! (t + k) = pattern ! k)"

definition first_match :: "'a list \<Rightarrow> 'a list \<Rightarrow> nat \<Rightarrow> nat \<Rightarrow> int \<Rightarrow> bool" where
  "first_match text pattern n m r \<longleftrightarrow>
     (if 0 < m \<and> m \<le> n
      then if r = - 1 then \<forall>t \<le> n - m. \<not> occ text pattern m t
           else 0 \<le> r \<and> nat r \<le> n - m \<and> occ text pattern m (nat r) \<and> (\<forall>t < nat r. \<not> occ text pattern m t)
      else r = - 1)"

text \<open>
  The bounds a call has to respect: the buffers hold the announced lengths, one more byte after the
  text can be read, and the pattern fits the tables.
\<close>

definition match_call :: "'a list \<Rightarrow> 'a list \<Rightarrow> nat \<Rightarrow> nat \<Rightarrow> bool" where
  "match_call text pattern n m \<longleftrightarrow> n < length text \<and> m \<le> length pattern \<and> n < 2 ^ 31 \<and> m \<le> 256"

locale match_method =
  fixes search :: "byte list \<Rightarrow> byte list \<Rightarrow> nat \<Rightarrow> nat \<Rightarrow> int option"
  assumes first: "match_call text pattern n m \<Longrightarrow> \<exists>r. search text pattern n m = Some r \<and> first_match text pattern n m r"
begin

lemma found_iff:
  "match_call text pattern n m \<Longrightarrow> 0 < m \<Longrightarrow> m \<le> n \<Longrightarrow>
    search text pattern n m \<noteq> Some (- 1) \<longleftrightarrow> (\<exists>t \<le> n - m. occ text pattern m t)"
  using first [of "text" pattern n m] by (auto simp: first_match_def split: if_splits)

end

lemma first_match_unique:
  "first_match text pattern n m r \<Longrightarrow> first_match text pattern n m s \<Longrightarrow> r = s"
  unfolding first_match_def
  by (smt (verit, best) linorder_neqE_nat nat_eq_iff nat_le_eq_zle)

lemma first_match_least:
  "0 < m \<Longrightarrow> m \<le> n \<Longrightarrow> occ text pattern m t \<Longrightarrow> t \<le> n - m \<Longrightarrow> (\<And>s. s < t \<Longrightarrow> \<not> occ text pattern m s) \<Longrightarrow>
    first_match text pattern n m (int t)"
  by (auto simp: first_match_def)

lemma first_match_none:
  "0 < m \<Longrightarrow> m \<le> n \<Longrightarrow> (\<And>t. t \<le> n - m \<Longrightarrow> \<not> occ text pattern m t) \<Longrightarrow> first_match text pattern n m (- 1)"
  by (auto simp: first_match_def)

lemma occ_take_drop:
  "t + m \<le> length text \<Longrightarrow> m \<le> length pattern \<Longrightarrow>
    occ text pattern m t \<longleftrightarrow> take m (drop t text) = take m pattern"
  by (auto simp: occ_def list_eq_iff_nth_eq)

lemma window_cases:
  assumes "u < t + (s :: nat)"
  obtains "u < t" | "u = t" | d where "0 < d" "d < s" "u = t + d"
  using assms that(3) [of "u - t"] by (cases rule: linorder_cases [of u t]) auto

section \<open>Shift tables\<close>

lemma fold_table_if_length [simp]: "length (fold (\<lambda>i T. if C i then T[f i := g i] else T) is T0) = length T0"
  by (induction "is" arbitrary: T0) auto

lemma fold_table_if:
  fixes C :: "nat \<Rightarrow> bool" and f :: "nat \<Rightarrow> nat" and g :: "nat \<Rightarrow> 'a"
  assumes "c < length T0"
  defines "T \<equiv> \<lambda>k. fold (\<lambda>i T. if C i then T[f i := g i] else T) [0..<k] T0"
  shows "(\<exists>i < k. C i \<and> f i = c \<and> T k ! c = g i \<and> (\<forall>j. i < j \<and> j < k \<and> C j \<longrightarrow> f j \<noteq> c))
    \<or> (\<forall>i < k. C i \<longrightarrow> f i \<noteq> c) \<and> T k ! c = T0 ! c"
proof (induction k)
  case 0
  then show ?case by (simp add: T_def)
next
  case (Suc k)
  have step: "T (Suc k) = (if C k then (T k)[f k := g k] else T k)" by (simp add: T_def)
  have len: "length (T k) = length T0" by (simp add: T_def)
  show ?case
  proof (cases "C k \<and> f k = c")
    case True
    then have "T (Suc k) ! c = g k" using assms(1) len by (simp add: step)
    then show ?thesis using True by auto
  next
    case False
    then have same: "T (Suc k) ! c = T k ! c" by (auto simp: step)
    show ?thesis unfolding same using Suc False by (auto simp: less_Suc_eq)
  qed
qed

lemmas fold_table = fold_table_if [where C = "\<lambda>_. True", unfolded if_True simp_thms]

lemma unat_byte [simp]: "unat (c :: byte) < 256"
  using unsigned_less [of c] by simp

lemma unat_byte_eq [simp]: "unat (c :: byte) = unat d \<longleftrightarrow> c = d"
  by (simp add: word_unat_eq_iff)

section \<open>Horspool\<close>

lemma horspool_table:
  fixes c :: byte and pattern :: "byte list"
  assumes "0 < m"
  defines "s \<equiv> fillHorspoolBadCharShiftTable pattern m ! unat c"
  shows "1 \<le> s" "s \<le> m" "\<And>d. 0 < d \<Longrightarrow> d < s \<Longrightarrow> pattern ! (m - 1 - d) \<noteq> c"
proof -
  have cases: "(\<exists>i < m - 1. pattern ! i = c \<and> s = m - 1 - i \<and> (\<forall>j. i < j \<and> j < m - 1 \<longrightarrow> pattern ! j \<noteq> c))
    \<or> (\<forall>i < m - 1. pattern ! i \<noteq> c) \<and> s = m"
    using fold_table [of "unat c" "replicate 256 m" "m - 1" "\<lambda>i. unat (pattern ! i)" "\<lambda>i. m - 1 - i"]
    unfolding s_def fillHorspoolBadCharShiftTable_def by simp
  then show "1 \<le> s" "s \<le> m" using assms(1) by auto
  fix d
  assume d: "0 < d" "d < s"
  from cases show "pattern ! (m - 1 - d) \<noteq> c"
  proof
    assume "\<exists>i < m - 1. pattern ! i = c \<and> s = m - 1 - i \<and> (\<forall>j. i < j \<and> j < m - 1 \<longrightarrow> pattern ! j \<noteq> c)"
    then obtain i where i: "i < m - 1" "s = m - 1 - i" "\<forall>j. i < j \<and> j < m - 1 \<longrightarrow> pattern ! j \<noteq> c" by blast
    have "i < m - 1 - d \<and> m - 1 - d < m - 1" using i(1,2) d by linarith
    then show ?thesis using i(3) by blast
  next
    assume "(\<forall>i < m - 1. pattern ! i \<noteq> c) \<and> s = m"
    moreover from this have "m - 1 - d < m - 1" using d by linarith
    ultimately show ?thesis by blast
  qed
qed

lemma horspool_match_spec:
  assumes "m \<le> length pattern" "move < length tx" "m - 1 \<le> move" "0 < m" "k \<le> m"
    "\<And>j. j < k \<Longrightarrow> pattern ! (m - 1 - j) = tx ! (move - j)"
  shows "\<exists>r. horspool_match tx pattern m move k = Some r
    \<and> (r = m \<longleftrightarrow> occ tx pattern m (move - (m - 1))) \<and> r \<le> m"
  using assms(5,6)
proof (induction "m - k" arbitrary: k)
  case 0
  then have k: "k = m" by simp
  have "horspool_match tx pattern m move k = Some m"
    by (subst horspool_match.simps, subst if_not_P) (use k assms(4) in auto)
  moreover have "occ tx pattern m (move - (m - 1))" unfolding occ_def
  proof (intro allI impI)
    fix i assume "i < m"
    then have "pattern ! (m - 1 - (m - 1 - i)) = tx ! (move - (m - 1 - i))"
      using 0(3) [of "m - 1 - i"] k by simp
    moreover have "m - 1 - (m - 1 - i) = i" "move - (m - 1 - i) = move - (m - 1) + i"
      using \<open>i < m\<close> assms(3) by simp_all
    ultimately show "tx ! (move - (m - 1) + i) = pattern ! i" by simp
  qed
  ultimately show ?case by simp
next
  case (Suc n)
  then have k: "k < m" by simp
  have unf: "horspool_match tx pattern m move k =
      (if pattern ! (m - 1 - k) = tx ! (move - k) then horspool_match tx pattern m move (k + 1) else Some k)"
    by (subst horspool_match.simps, subst if_P) (use k assms(1-3) in auto)
  show ?case
  proof (cases "pattern ! (m - 1 - k) = tx ! (move - k)")
    case True
    have "\<And>j. j < k + 1 \<Longrightarrow> pattern ! (m - 1 - j) = tx ! (move - j)"
      using Suc.prems(2) True by (metis Suc_eq_plus1 less_Suc_eq)
    then show ?thesis using Suc.hyps(1) [of "k + 1"] Suc.hyps(2) k unf True by simp
  next
    case False
    have "\<not> occ tx pattern m (move - (m - 1))"
    proof
      assume "occ tx pattern m (move - (m - 1))"
      then have "tx ! (move - (m - 1) + (m - 1 - k)) = pattern ! (m - 1 - k)"
        unfolding occ_def using k by (elim allE [of _ "m - 1 - k"] mp) simp
      moreover have "move - (m - 1) + (m - 1 - k) = move - k" using k assms(3) by simp
      ultimately show False using False by simp
    qed
    then show ?thesis using unf False k by simp
  qed
qed

lemma horspool_skip:
  assumes "0 < m" "m - 1 \<le> move" "c = tx ! move" "0 < d" "d < fillHorspoolBadCharShiftTable pattern m ! unat c"
  shows "\<not> occ tx pattern m (move - (m - 1) + d)"
proof
  assume o: "occ tx pattern m (move - (m - 1) + d)"
  have d: "d < m" using horspool_table(2) [OF assms(1)] assms(5) by (metis order_less_le_trans)
  then have "move - (m - 1) + d + (m - 1 - d) = move" "m - 1 - d < m" using assms(2) by simp_all
  then have "tx ! move = pattern ! (m - 1 - d)" using o by (metis occ_def)
  then show False using horspool_table(3) [OF assms(1,4,5)] assms(3) by simp
qed

lemma horspool_loop_spec:
  assumes call: "match_call tx pattern n m" and "0 < m" "m \<le> n"
    and "m - 1 \<le> move" "\<And>t. t < move - (m - 1) \<Longrightarrow> \<not> occ tx pattern m t"
  shows "\<exists>r. horspool_loop tx pattern n m (fillHorspoolBadCharShiftTable pattern m) move = Some r
    \<and> first_match tx pattern n m r"
  using assms(4,5)
proof (induction "n - move" arbitrary: move rule: less_induct)
  case less
  show ?case
  proof (cases "move \<le> n - 1")
    case False
    have "horspool_loop tx pattern n m (fillHorspoolBadCharShiftTable pattern m) move = Some (- 1)"
      by (subst horspool_loop.simps) (rule if_not_P [OF False])
    moreover have "\<not> occ tx pattern m t" if "t \<le> n - m" for t
      using that False assms(2,3) by (intro less.prems(2)) linarith
    ultimately show ?thesis using first_match_none [OF assms(2,3)] by blast
  next
    case True
    define s where "s = fillHorspoolBadCharShiftTable pattern m ! unat (tx ! move)"
    have bounds: "m \<le> length pattern" "move < length tx" "move < 2 ^ 31" "m \<le> 256" "move < n"
      using call True assms(2,3) by (auto simp: match_call_def)
    obtain r where r: "horspool_match tx pattern m move 0 = Some r"
      "r = m \<longleftrightarrow> occ tx pattern m (move - (m - 1))"
      using horspool_match_spec [of m pattern move tx 0] bounds less.prems(1) assms(2) by auto
    have s: "1 \<le> s" "s \<le> m" using horspool_table [OF assms(2)] by (simp_all add: s_def)
    have "(move + s) mod 2 ^ 32 = move + s" using bounds(3,4) s(2) by simp
    then have unf: "horspool_loop tx pattern n m (fillHorspoolBadCharShiftTable pattern m) move =
        (if r = m then Some (int ((move + 2 ^ 32 - m + 1) mod 2 ^ 32))
         else horspool_loop tx pattern n m (fillHorspoolBadCharShiftTable pattern m) (move + s))"
      by (subst horspool_loop.simps, subst if_P [OF True]) (simp add: r(1) bounds(2) s_def)
    show ?thesis
    proof (cases "r = m")
      case True
      have "move + 2 ^ 32 - m + 1 = move - (m - 1) + 2 ^ 32"
        using bounds(4) assms(2) less.prems(1) by simp
      moreover have "(move - (m - 1) + 2 ^ 32) mod 2 ^ 32 = move - (m - 1)" using bounds(3) by simp
      ultimately have "(move + 2 ^ 32 - m + 1) mod 2 ^ 32 = move - (m - 1)" by (simp only:)
      moreover have "move - (m - 1) \<le> n - m" using bounds(5) assms(2) less.prems(1) by linarith
      ultimately have "(move + 2 ^ 32 - m + 1) mod 2 ^ 32 = move - (m - 1)" "move - (m - 1) \<le> n - m" .
      then show ?thesis
        using True unf r(2) first_match_least [OF assms(2,3) _ _ less.prems(2)] by simp
    next
      case False
      have "\<not> occ tx pattern m t" if "t < move - (m - 1) + s" for t
        using that
      proof (cases rule: window_cases)
        case (3 d)
        then show ?thesis using horspool_skip [OF assms(2) less.prems(1) refl 3(1) 3(2) [unfolded s_def]] by blast
      qed (use less.prems(2) r(2) False in blast)+
      then have "\<not> occ tx pattern m t" if "t < move + s - (m - 1)" for t using that less.prems(1) by simp
      moreover have "n - (move + s) < n - move" using s(1) bounds(5) by linarith
      ultimately show ?thesis using less.hyps [of "move + s"] less.prems(1) unf False by simp
    qed
  qed
qed

interpretation horspool: match_method horspool
proof
  fix tx pattern :: "byte list" and n m
  assume "match_call tx pattern n m"
  then show "\<exists>r. horspool tx pattern n m = Some r \<and> first_match tx pattern n m r"
    using horspool_loop_spec [of tx pattern n m "m - 1"]
    by (auto simp: horspool_def no_search_def first_match_def)
qed

section \<open>Sunday\<close>

lemma sunday_table:
  fixes c :: byte and pattern :: "byte list" and m :: nat
  defines "s \<equiv> fillSundayBadCharShiftTable pattern m ! unat c"
  shows "1 \<le> s" "s \<le> m + 1" "\<And>d. 0 < d \<Longrightarrow> d < s \<Longrightarrow> pattern ! (m - d) \<noteq> c"
proof -
  have cases: "(\<exists>i < m. pattern ! i = c \<and> s = m - i \<and> (\<forall>j. i < j \<and> j < m \<longrightarrow> pattern ! j \<noteq> c))
    \<or> (\<forall>i < m. pattern ! i \<noteq> c) \<and> s = m + 1"
    using fold_table [of "unat c" "replicate 256 (m + 1)" m "\<lambda>i. unat (pattern ! i)" "\<lambda>i. m - i"]
    unfolding s_def fillSundayBadCharShiftTable_def by simp
  then show "1 \<le> s" "s \<le> m + 1" by auto
  fix d
  assume d: "0 < d" "d < s"
  from cases show "pattern ! (m - d) \<noteq> c"
  proof
    assume "\<exists>i < m. pattern ! i = c \<and> s = m - i \<and> (\<forall>j. i < j \<and> j < m \<longrightarrow> pattern ! j \<noteq> c)"
    then obtain i where i: "i < m" "s = m - i" "\<forall>j. i < j \<and> j < m \<longrightarrow> pattern ! j \<noteq> c" by blast
    have "i < m - d \<and> m - d < m" using i(1,2) d by linarith
    then show ?thesis using i(3) by blast
  next
    assume "(\<forall>i < m. pattern ! i \<noteq> c) \<and> s = m + 1"
    then show ?thesis using d by (metis Suc_eq_plus1 diff_less less_Suc_eq_le order_less_le_trans)
  qed
qed

lemma sunday_match_spec:
  assumes "m \<le> length pattern" "t + m \<le> length tx" "k < m" "\<And>j. j < k \<Longrightarrow> tx ! (t + j) = pattern ! j"
  shows "sunday_match tx pattern m t k = Some (occ tx pattern m t)"
  using assms(3,4)
proof (induction "m - k" arbitrary: k)
  case (Suc n)
  have unf: "sunday_match tx pattern m t k =
      (if tx ! (t + k) = pattern ! k
       then if k + 1 = m then Some True else sunday_match tx pattern m t (k + 1) else Some False)"
    by (subst sunday_match.simps) (use Suc.prems(1) assms in simp)
  show ?case
  proof (cases "tx ! (t + k) = pattern ! k")
    case True
    then have eq: "\<And>j. j < k + 1 \<Longrightarrow> tx ! (t + j) = pattern ! j"
      using Suc.prems(2) by (metis Suc_eq_plus1 less_Suc_eq)
    show ?thesis
    proof (cases "k + 1 = m")
      case True
      then show ?thesis using unf eq \<open>tx ! (t + k) = pattern ! k\<close> by (auto simp: occ_def)
    next
      case False
      then show ?thesis
        using Suc.hyps(1) [of "k + 1"] Suc.hyps(2) Suc.prems(1) eq unf True by simp
    qed
  next
    case False
    then show ?thesis using unf Suc.prems(1) by (auto simp: occ_def)
  qed
qed simp

lemma sunday_skip:
  assumes "c = tx ! (t + m)" "0 < d" "d < fillSundayBadCharShiftTable pattern m ! unat c"
  shows "\<not> occ tx pattern m (t + d)"
proof
  assume o: "occ tx pattern m (t + d)"
  have "d \<le> m" using sunday_table(2) [where pattern = pattern and m = m and c = c] assms(3) by linarith
  then have "t + d + (m - d) = t + m" "m - d < m" using assms(2) by simp_all
  then have "tx ! (t + m) = pattern ! (m - d)" using o by (metis occ_def)
  then show False using sunday_table(3) [OF assms(2,3)] assms(1) by simp
qed

lemma sunday_loop_spec:
  assumes call: "match_call tx pattern n m" and "0 < m" "m \<le> n"
    and "\<And>s. s < t \<Longrightarrow> \<not> occ tx pattern m s"
  shows "\<exists>r. sunday_loop tx pattern n m (fillSundayBadCharShiftTable pattern m) t = Some r
    \<and> first_match tx pattern n m r"
  using assms(4)
proof (induction "Suc n - t" arbitrary: t rule: less_induct)
  case less
  show ?case
  proof (cases "t \<le> n - m")
    case False
    have "sunday_loop tx pattern n m (fillSundayBadCharShiftTable pattern m) t = Some (- 1)"
      by (subst sunday_loop.simps) (rule if_not_P [OF False])
    moreover have "\<not> occ tx pattern m s" if "s \<le> n - m" for s
      using that False by (intro less.prems) linarith
    ultimately show ?thesis using first_match_none [OF assms(2,3)] by blast
  next
    case True
    define s where "s = fillSundayBadCharShiftTable pattern m ! unat (tx ! (t + m))"
    have bounds: "m \<le> length pattern" "t + m < length tx" "t < 2 ^ 31" "m \<le> 256" "t < n"
      using call True assms(2,3) by (auto simp: match_call_def)
    have s: "1 \<le> s" "s \<le> m + 1" unfolding s_def by (rule sunday_table)+
    have "(t + s) mod 2 ^ 32 = t + s" using bounds(3,4) s(2) by simp
    moreover have "sunday_match tx pattern m t 0 = Some (occ tx pattern m t)"
      using bounds assms(2) by (intro sunday_match_spec) auto
    ultimately have unf: "sunday_loop tx pattern n m (fillSundayBadCharShiftTable pattern m) t =
        (if occ tx pattern m t then Some (int t)
         else sunday_loop tx pattern n m (fillSundayBadCharShiftTable pattern m) (t + s))"
      by (subst sunday_loop.simps, subst if_P [OF True]) (simp add: bounds(2) s_def)
    show ?thesis
    proof (cases "occ tx pattern m t")
      case found: True
      then show ?thesis using unf first_match_least [OF assms(2,3) found True less.prems] by simp
    next
      case False
      have "\<not> occ tx pattern m u" if "u < t + s" for u
        using that
      proof (cases rule: window_cases)
        case (3 d)
        then show ?thesis using sunday_skip [OF refl 3(1) 3(2) [unfolded s_def]] by blast
      qed (use less.prems False in blast)+
      moreover have "Suc n - (t + s) < Suc n - t" using s(1) bounds(5) by linarith
      ultimately show ?thesis using less.hyps [of "t + s"] unf False by simp
    qed
  qed
qed

interpretation sunday: match_method sunday
proof
  fix tx pattern :: "byte list" and n m
  assume "match_call tx pattern n m"
  then show "\<exists>r. sunday tx pattern n m = Some r \<and> first_match tx pattern n m r"
    using sunday_loop_spec [of tx pattern n m 0]
    by (auto simp: sunday_def no_search_def first_match_def)
qed

section \<open>Rabin-Karp\<close>

text \<open>The value of a window as a number in base 256; the hashes are its residues.\<close>

fun base256 :: "byte list \<Rightarrow> int" where
  "base256 [] = 0"
| "base256 (c # cs) = uint c * 256 ^ length cs + base256 cs"

definition window :: "'a list \<Rightarrow> nat \<Rightarrow> nat \<Rightarrow> 'a list" where
  "window xs i m = take m (drop i xs)"

lemma base256_snoc: "base256 (cs @ [d]) = 256 * base256 cs + uint d"
  by (induction cs) (auto simp: algebra_simps)

lemma window_Suc: "i < length xs \<Longrightarrow> window xs i (Suc m) = xs ! i # window xs (i + 1) m"
  by (simp add: window_def take_Suc_conv_app_nth Cons_nth_drop_Suc [symmetric])

lemma window_snoc: "i + m < length xs \<Longrightarrow> window xs i (Suc m) = window xs i m @ [xs ! (i + m)]"
  by (simp add: window_def take_Suc_conv_app_nth)

lemma smod_nonneg: "0 \<le> a \<Longrightarrow> a smod rollingHashMod = a mod rollingHashMod" for a :: int
  by (simp add: signed_modulo_int_def sgn_if)

lemma smod_adjust:
  "(if a smod rollingHashMod < 0 then a smod rollingHashMod + rollingHashMod else a smod rollingHashMod)
    = a mod rollingHashMod" for a :: int
proof (cases "0 \<le> a")
  case True
  then show ?thesis by (simp add: smod_nonneg)
next
  case False
  have neg: "a smod rollingHashMod = - ((- a) mod rollingHashMod)" using False by (simp add: signed_modulo_int_def)
  have "a mod rollingHashMod = (- (- a)) mod rollingHashMod" by simp
  also have "\<dots> = (if (- a) mod rollingHashMod = 0 then 0 else rollingHashMod - (- a) mod rollingHashMod)"
    by (rule zmod_zminus1_eq_if)
  finally show ?thesis using neg pos_mod_sign [of rollingHashMod "- a"] by (simp only:) (auto split: if_splits)
qed

lemma rk_pow_eq: "rk_pow m = 256 ^ (m - 1) mod rollingHashMod"
proof -
  have "fold (\<lambda>_ pow. (pow * rollingHashBase) smod rollingHashMod) [0..<k] 1 = 256 ^ k mod rollingHashMod" for k
  proof (induction k)
    case (Suc k)
    then show ?case
      using mod_mult_left_eq [of "256 ^ k" rollingHashMod 256] by (simp add: smod_nonneg mult.commute)
  qed simp
  then show ?thesis by (simp add: rk_pow_def)
qed

lemma rk_hash_eq:
  "i + m \<le> length buf \<Longrightarrow> 0 \<le> hash \<Longrightarrow> hash < rollingHashMod \<Longrightarrow>
    rk_hash buf i m hash = Some ((hash * 256 ^ m + base256 (window buf i m)) mod rollingHashMod)"
proof (induction m arbitrary: i hash)
  case 0
  then show ?case by (simp add: window_def)
next
  case (Suc m)
  define h where "h = (rollingHashBase * hash + uint (buf ! i)) mod rollingHashMod"
  have "length (window buf (i + 1) m) = m" using Suc.prems(1) by (simp add: window_def)
  then have val: "base256 (window buf i (Suc m)) = uint (buf ! i) * 256 ^ m + base256 (window buf (i + 1) m)"
    using Suc.prems(1) by (simp add: window_Suc)
  have "rk_hash buf i (Suc m) hash = rk_hash buf (i + 1) m h"
    using Suc.prems by (simp add: smod_nonneg h_def)
  also have "\<dots> = Some ((h * 256 ^ m + base256 (window buf (i + 1) m)) mod rollingHashMod)"
    using Suc.IH [of "i + 1" h] Suc.prems(1) by (simp add: h_def)
  also have "(h * 256 ^ m + base256 (window buf (i + 1) m)) mod rollingHashMod
      = ((rollingHashBase * hash + uint (buf ! i)) * 256 ^ m + base256 (window buf (i + 1) m)) mod rollingHashMod"
    unfolding h_def by (intro mod_add_cong mod_mult_cong refl) simp
  finally show ?case by (simp add: val algebra_simps)
qed

lemma rk_roll_eq:
  assumes "0 < m" "i + m < length tx" "h = base256 (window tx i m) mod rollingHashMod"
  shows "rk_roll tx m (rk_pow m) i h = Some (base256 (window tx (i + 1) m) mod rollingHashMod)"
proof -
  obtain k where m: "m = Suc k" using assms(1) by (cases m) auto
  define w where "w = window tx (i + 1) k"
  have len: "length w = k" using assms(2) by (simp add: w_def window_def m)
  have old: "window tx i m = tx ! i # w" using assms(2) by (simp add: m window_Suc w_def)
  have new: "window tx (i + 1) m = w @ [tx ! (i + m)]" using assms(2) by (simp add: m window_snoc w_def)
  let ?a = "uint (tx ! i)" and ?d = "uint (tx ! (i + m))"
  have "(256 * (h - ?a * rk_pow m) + ?d) mod rollingHashMod
      = (256 * ((?a * 256 ^ k + base256 w) - ?a * 256 ^ k) + ?d) mod rollingHashMod"
    unfolding assms(3) rk_pow_eq old base256.simps len unfolding m diff_Suc_1
    by (intro mod_add_cong mod_mult_cong mod_diff_cong refl) simp_all
  then have "(256 * (h - ?a * rk_pow m) + ?d) mod rollingHashMod = base256 (window tx (i + 1) m) mod rollingHashMod"
    unfolding new base256_snoc by simp
  then show ?thesis using assms(2) by (simp add: rk_roll_def Let_def smod_adjust)
qed

lemma rk_loop_spec:
  assumes call: "match_call tx pattern n m" and "0 < m" "m \<le> n"
    and ph: "ph = base256 (window pattern 0 m) mod rollingHashMod"
    and "i \<le> n - m \<Longrightarrow> h = base256 (window tx i m) mod rollingHashMod"
    and "\<And>t. t < i \<Longrightarrow> \<not> occ tx pattern m t"
  shows "\<exists>r. rk_loop tx pattern n m (rk_pow m) ph i h = Some r \<and> first_match tx pattern n m r"
  using assms(5,6)
proof (induction "Suc (n - m) - i" arbitrary: i h rule: less_induct)
  case less
  show ?case
  proof (cases "i \<le> n - m")
    case False
    have "rk_loop tx pattern n m (rk_pow m) ph i h = Some (- 1)"
      by (subst rk_loop.simps) (rule if_not_P [OF False])
    moreover have "first_match tx pattern n m (- 1)"
      by (rule first_match_none [OF assms(2,3)]) (use less.prems(2) False in auto)
    ultimately show ?thesis by blast
  next
    case True
    have bounds: "i + m < length tx" "m \<le> length pattern" using call True assms(3) by (auto simp: match_call_def)
    have win: "occ tx pattern m i \<longleftrightarrow> window tx i m = window pattern 0 m"
      using bounds by (simp add: occ_take_drop window_def)
    have test: "ph = h \<and> take m (drop i tx) = take m pattern \<longleftrightarrow> occ tx pattern m i"
      using less.prems(1) True win ph by (auto simp: window_def)
    show ?thesis
    proof (cases "occ tx pattern m i")
      case found: True
      have "rk_loop tx pattern n m (rk_pow m) ph i h = Some (int i)"
        by (subst rk_loop.simps, subst if_P [OF True], subst if_P) (use test found in auto)
      then show ?thesis using first_match_least [OF assms(2,3) found True less.prems(2)] by blast
    next
      case False
      have none: "\<And>t. t < i + 1 \<Longrightarrow> \<not> occ tx pattern m t"
        using less.prems(2) False by (metis Suc_eq_plus1 less_Suc_eq)
      obtain h' where h': "rk_loop tx pattern n m (rk_pow m) ph i h = rk_loop tx pattern n m (rk_pow m) ph (i + 1) h'"
        "i + 1 \<le> n - m \<Longrightarrow> h' = base256 (window tx (i + 1) m) mod rollingHashMod"
      proof (cases "i < n - m")
        case lt: True
        have "rk_loop tx pattern n m (rk_pow m) ph i h =
          rk_loop tx pattern n m (rk_pow m) ph (i + 1) (base256 (window tx (i + 1) m) mod rollingHashMod)"
          by (subst rk_loop.simps, subst if_P [OF True], subst if_not_P)
            (use test False lt rk_roll_eq [OF assms(2) bounds(1) less.prems(1) [OF True]] in auto)
        then show ?thesis by (rule that) simp
      next
        case ge: False
        have "rk_loop tx pattern n m (rk_pow m) ph i h = rk_loop tx pattern n m (rk_pow m) ph (i + 1) h"
          by (subst rk_loop.simps, subst if_P [OF True], subst if_not_P) (use test False ge in auto)
        then show ?thesis by (rule that) (use ge in simp)
      qed
      have "\<exists>r. rk_loop tx pattern n m (rk_pow m) ph (i + 1) h' = Some r \<and> first_match tx pattern n m r"
        by (rule less.hyps) (use True h'(2) none in auto)
      then show ?thesis using h'(1) by simp
    qed
  qed
qed

interpretation rk: match_method rk
proof
  fix tx pattern :: "byte list" and n m
  assume call: "match_call tx pattern n m"
  show "\<exists>r. rk tx pattern n m = Some r \<and> first_match tx pattern n m r"
  proof (cases "0 < m \<and> m \<le> n")
    case True
    have "rk_hash pattern 0 m 0 = Some (base256 (window pattern 0 m) mod rollingHashMod)"
      "rk_hash tx 0 m 0 = Some (base256 (window tx 0 m) mod rollingHashMod)"
      using call True by (simp_all add: rk_hash_eq match_call_def)
    then have "rk tx pattern n m = rk_loop tx pattern n m (rk_pow m)
        (base256 (window pattern 0 m) mod rollingHashMod) 0 (base256 (window tx 0 m) mod rollingHashMod)"
      using True by (simp add: rk_def no_search_def)
    then show ?thesis
      using rk_loop_spec [OF call _ _ refl, of 0 "base256 (window tx 0 m) mod rollingHashMod"] True by auto
  next
    case False
    then show ?thesis by (auto simp: rk_def no_search_def first_match_def)
  qed
qed

end
