(* ===== verification/AL_Match_Skip.thy ===== *)
theory AL_Match_Skip
  imports AL_Match
begin

text \<open>
  Boyer-Moore and Knuth-Morris-Pratt of \<open>src/algorithm/source/match.cpp\<close>. Boyer-Moore keeps the
  contract of the other matching methods. Knuth-Morris-Pratt fills its table from entries that are
  still zero, so that no entry exceeds 1: what it reports is an occurrence, but it misses some.
\<close>

section \<open>Operations\<close>

subsection \<open>Boyer-Moore\<close>

definition fillBadCharRuleTable :: "byte list \<Rightarrow> nat \<Rightarrow> nat list" where
  "fillBadCharRuleTable pattern patternLen =
     fold (\<lambda>i table. table[unat (pattern ! i) := patternLen - 1 - i]) [0..<patternLen]
       (replicate 256 patternLen)"

definition bm_isPrefix :: "byte list \<Rightarrow> nat \<Rightarrow> nat \<Rightarrow> bool" where
  "bm_isPrefix pattern patternLen pos \<longleftrightarrow>
     (let suffixLen = patternLen - (pos + 1) in \<forall>i < suffixLen. pattern ! i = pattern ! (pos + 1 + i))"

text \<open>The first loop of \<open>fillGoodSuffixRuleTable\<close>, for the positions below the third argument.\<close>

fun bm_prefix_loop :: "byte list \<Rightarrow> nat \<Rightarrow> nat \<Rightarrow> nat \<Rightarrow> nat list \<Rightarrow> nat list" where
  "bm_prefix_loop pattern patternLen 0 lastPrefixIdx table = table"
| "bm_prefix_loop pattern patternLen (Suc pos) lastPrefixIdx table =
     (let lastPrefixIdx = (if bm_isPrefix pattern patternLen pos then pos + 1 else lastPrefixIdx)
      in bm_prefix_loop pattern patternLen pos lastPrefixIdx
           (table[pos := lastPrefixIdx + (patternLen - 1 - pos)]))"

function bm_suffixLen :: "byte list \<Rightarrow> nat \<Rightarrow> nat \<Rightarrow> nat \<Rightarrow> nat" where
  "bm_suffixLen pattern patternLen pos suffixLen =
     (if suffixLen \<le> pos \<and> suffixLen \<le> patternLen - 1
         \<and> pattern ! (pos - suffixLen) = pattern ! (patternLen - 1 - suffixLen)
      then bm_suffixLen pattern patternLen pos (suffixLen + 1) else suffixLen)"
  by pat_completeness auto
termination
  by (relation "measure (\<lambda>(pattern, m, pos, k). Suc pos - k)") auto

declare bm_suffixLen.simps [simp del]

definition bm_stops :: "byte list \<Rightarrow> nat \<Rightarrow> nat \<Rightarrow> nat \<Rightarrow> bool" where
  "bm_stops pattern patternLen pos suffixLen \<longleftrightarrow>
     suffixLen \<le> pos \<and> suffixLen \<le> patternLen - 1
     \<and> pattern ! (pos - suffixLen) \<noteq> pattern ! (patternLen - 1 - suffixLen)"

definition bm_suffix_loop :: "byte list \<Rightarrow> nat \<Rightarrow> nat list \<Rightarrow> nat list" where
  "bm_suffix_loop pattern patternLen =
     fold (\<lambda>pos table.
             if bm_stops pattern patternLen pos (bm_suffixLen pattern patternLen pos 0)
             then table[patternLen - 1 - bm_suffixLen pattern patternLen pos 0 :=
                        patternLen - 1 - pos + bm_suffixLen pattern patternLen pos 0]
             else table)
       [0..<patternLen - 1]"

text \<open>A pattern longer than the table makes the first store of the first loop an access outside of it.\<close>

definition fillGoodSuffixRuleTable :: "byte list \<Rightarrow> nat \<Rightarrow> nat list option" where
  "fillGoodSuffixRuleTable pattern patternLen =
     (if patternLen > 256 then None
      else Some (bm_suffix_loop pattern patternLen
                   (bm_prefix_loop pattern patternLen patternLen 1 (replicate 256 0))))"

fun bm_match :: "byte list \<Rightarrow> byte list \<Rightarrow> nat \<Rightarrow> nat \<Rightarrow> (nat \<times> nat) option" where
  "bm_match tx pattern textIdx 0 = Some (textIdx, 0)"
| "bm_match tx pattern textIdx (Suc j) =
     do {
       c \<leftarrow> rd tx textIdx;
       p \<leftarrow> rd pattern (Suc j);
       if c = p then bm_match tx pattern (if textIdx = 0 then 2 ^ 32 - 1 else textIdx - 1) j
       else Some (textIdx, Suc j)
     }"

partial_function (option) bm_loop ::
  "byte list \<Rightarrow> byte list \<Rightarrow> nat \<Rightarrow> nat \<Rightarrow> nat list \<Rightarrow> nat list \<Rightarrow> nat \<Rightarrow> int option" where
  "bm_loop tx pattern textLen patternLen bad good textIdx =
     (if textIdx < textLen then
        do {
          w \<leftarrow> bm_match tx pattern textIdx (patternLen - 1);
          c \<leftarrow> rd tx (fst w);
          p \<leftarrow> rd pattern (snd w);
          if snd w = 0 \<and> c = p then Some (int (fst w))
          else bm_loop tx pattern textLen patternLen bad good
                 ((fst w + max (bad ! unat c) (good ! snd w)) mod 2 ^ 32)
        }
      else Some (- 1))"

definition bm :: "byte list \<Rightarrow> byte list \<Rightarrow> nat \<Rightarrow> nat \<Rightarrow> int option" where
  "bm tx pattern textLen patternLen =
     (if no_search textLen patternLen then Some (- 1)
      else do {
        good \<leftarrow> fillGoodSuffixRuleTable pattern patternLen;
        bm_loop tx pattern textLen patternLen (fillBadCharRuleTable pattern patternLen) good (patternLen - 1)
      })"

subsection \<open>Knuth-Morris-Pratt\<close>

partial_function (option) kmp_fall :: "byte list \<Rightarrow> nat list \<Rightarrow> nat \<Rightarrow> nat \<Rightarrow> nat option" where
  "kmp_fall pattern next i j =
     (if j > 0 then
        do {
          pj \<leftarrow> rd pattern j;
          pi \<leftarrow> rd pattern i;
          if pj \<noteq> pi then do { k \<leftarrow> rd next j; kmp_fall pattern next i k } else Some j
        }
      else Some j)"

definition kmp_step :: "byte list \<Rightarrow> nat \<Rightarrow> nat list \<Rightarrow> nat list option" where
  "kmp_step pattern i next =
     do {
       j0 \<leftarrow> rd next (i + 1);
       j \<leftarrow> kmp_fall pattern next i j0;
       pj \<leftarrow> rd pattern j;
       pi \<leftarrow> rd pattern i;
       Some (if j > 0 \<or> pj = pi then next[i + 1 := j + 1] else next)
     }"

fun kmp_table :: "byte list \<Rightarrow> nat list \<Rightarrow> nat list \<Rightarrow> nat list option" where
  "kmp_table pattern [] next = Some next"
| "kmp_table pattern (i # is) next = do { next' \<leftarrow> kmp_step pattern i next; kmp_table pattern is next' }"

partial_function (option) kmp_loop ::
  "byte list \<Rightarrow> byte list \<Rightarrow> nat \<Rightarrow> nat \<Rightarrow> nat list \<Rightarrow> nat \<Rightarrow> nat \<Rightarrow> int option" where
  "kmp_loop tx pattern textLen patternLen next i j =
     (if i < textLen then
        do {
          c \<leftarrow> rd tx i;
          p \<leftarrow> rd pattern j;
          if c = p then
            (if j + 1 = patternLen then Some (int ((i + 2 ^ 32 - (j + 1) + 1) mod 2 ^ 32))
             else kmp_loop tx pattern textLen patternLen next (i + 1) (j + 1))
          else if j > 0 then
            do { k \<leftarrow> rd next j; kmp_loop tx pattern textLen patternLen next i k }
          else kmp_loop tx pattern textLen patternLen next (i + 1) j
        }
      else Some (- 1))"

definition kmp :: "byte list \<Rightarrow> byte list \<Rightarrow> nat \<Rightarrow> nat \<Rightarrow> int option" where
  "kmp tx pattern textLen patternLen =
     (if no_search textLen patternLen then Some (- 1)
      else do {
        next \<leftarrow> kmp_table pattern [1..<patternLen] (replicate (patternLen + 1) 0);
        kmp_loop tx pattern textLen patternLen next 0 0
      })"

lemmas [code] = bm_loop.simps kmp_fall.simps kmp_loop.simps

section \<open>Boyer-Moore: the tables\<close>

text \<open>
  A shift \<open>d\<close> is compatible with a mismatch at position \<open>q\<close> when a pattern moved by \<open>d\<close> agrees with what
  is known of the text: the characters right of \<open>q\<close>, and that the one at \<open>q\<close> is not the pattern's.
\<close>

definition compatible :: "byte list \<Rightarrow> nat \<Rightarrow> nat \<Rightarrow> nat \<Rightarrow> bool" where
  "compatible pattern m q d \<longleftrightarrow>
     (\<forall>i. q < i \<and> i < m \<and> d \<le> i \<longrightarrow> pattern ! (i - d) = pattern ! i) \<and> (d \<le> q \<longrightarrow> pattern ! (q - d) \<noteq> pattern ! q)"

lemma occ_compatible:
  assumes "occ tx pattern m (t + d)" "0 < d" "q < m" "tx ! (t + q) \<noteq> pattern ! q"
    "\<And>i. q < i \<Longrightarrow> i < m \<Longrightarrow> tx ! (t + i) = pattern ! i"
  shows "compatible pattern m q d"
proof -
  have move: "tx ! (t + i) = pattern ! (i - d)" if "d \<le> i" "i < m" for i
    using assms(1) [unfolded occ_def, rule_format, of "i - d"] that by simp
  have "pattern ! (i - d) = pattern ! i" if "q < i" "i < m" "d \<le> i" for i
    using move [OF that(3,2)] assms(5) [OF that(1,2)] by simp
  moreover have "pattern ! (q - d) \<noteq> pattern ! q" if "d \<le> q"
    using move [OF that assms(3)] assms(4) by simp
  ultimately show ?thesis by (simp add: compatible_def)
qed

definition border :: "byte list \<Rightarrow> nat \<Rightarrow> nat \<Rightarrow> bool" where
  "border pattern m p \<longleftrightarrow> (\<forall>i < m - p. pattern ! i = pattern ! (p + i))"

lemma compatible_border: "compatible pattern m q d \<Longrightarrow> q < d \<Longrightarrow> border pattern m d"
  unfolding border_def
proof (intro allI impI)
  fix i
  assume "compatible pattern m q d" "q < d" "i < m - d"
  then have "q < d + i \<and> d + i < m \<and> d \<le> d + i" by linarith
  then have "pattern ! (d + i - d) = pattern ! (d + i)"
    using \<open>compatible pattern m q d\<close> unfolding compatible_def by blast
  then show "pattern ! i = pattern ! (d + i)" by simp
qed

definition prefix_shift :: "byte list \<Rightarrow> nat \<Rightarrow> nat \<Rightarrow> nat \<Rightarrow> bool" where
  "prefix_shift pattern m q l \<longleftrightarrow> q < l \<and> l \<le> m \<and> (\<forall>p. q < p \<and> p < l \<longrightarrow> \<not> border pattern m p)"

lemma bm_isPrefix_border: "bm_isPrefix pattern m pos = border pattern m (pos + 1)"
  by (simp add: bm_isPrefix_def border_def)

lemma bm_prefix_loop_length [simp]: "length (bm_prefix_loop pattern m j l T) = length T"
  by (induction pattern m j l T rule: bm_prefix_loop.induct) (simp_all add: Let_def)

lemma bm_prefix_loop_spec:
  assumes "j \<le> m" "m \<le> length T" "j < m \<Longrightarrow> prefix_shift pattern m j l"
    "\<And>q. j \<le> q \<Longrightarrow> q < m \<Longrightarrow> \<exists>k. T ! q = k + (m - 1 - q) \<and> prefix_shift pattern m q k"
  shows "q < m \<Longrightarrow> \<exists>k. bm_prefix_loop pattern m j l T ! q = k + (m - 1 - q) \<and> prefix_shift pattern m q k"
  using assms
proof (induction j arbitrary: l T)
  case (Suc pos)
  define l' where "l' = (if bm_isPrefix pattern m pos then pos + 1 else l)"
  define T' where "T' = T[pos := l' + (m - 1 - pos)]"
  have pos: "pos < m" using Suc.prems(2) by simp
  have l': "prefix_shift pattern m pos l'"
  proof (cases "border pattern m (pos + 1)")
    case True
    then show ?thesis using pos by (auto simp: l'_def bm_isPrefix_border prefix_shift_def)
  next
    case False
    then have "Suc pos < m" using pos by (auto simp: border_def not_less le_Suc_eq)
    then have "prefix_shift pattern m (Suc pos) l" by (rule Suc.prems(4))
    then have "\<not> border pattern m p" if "pos < p" "p < l" for p
      using False that by (cases "p = Suc pos") (auto simp: prefix_shift_def)
    then show ?thesis
      using False \<open>prefix_shift pattern m (Suc pos) l\<close> by (simp add: l'_def bm_isPrefix_border prefix_shift_def)
  qed
  have "\<exists>k. T' ! q = k + (m - 1 - q) \<and> prefix_shift pattern m q k" if "pos \<le> q" "q < m" for q
  proof (cases "q = pos")
    case True
    then show ?thesis using l' Suc.prems(3) pos by (auto simp: T'_def)
  next
    case False
    then show ?thesis using Suc.prems(5) [of q] that by (simp add: T'_def)
  qed
  moreover have "m \<le> length T'" using Suc.prems(3) by (simp add: T'_def)
  ultimately have "\<exists>k. bm_prefix_loop pattern m pos l' T' ! q = k + (m - 1 - q) \<and> prefix_shift pattern m q k"
    using Suc.IH [of T' l'] Suc.prems(1) pos l' by simp
  then show ?case by (simp add: Let_def l'_def T'_def)
qed simp

lemma bm_suffixLen_spec:
  assumes "\<And>i. i < k \<Longrightarrow> i \<le> pos \<and> i \<le> m - 1 \<and> pattern ! (pos - i) = pattern ! (m - 1 - i)"
  defines "r \<equiv> bm_suffixLen pattern m pos k"
  shows "\<And>i. i < r \<Longrightarrow> i \<le> pos \<and> i \<le> m - 1 \<and> pattern ! (pos - i) = pattern ! (m - 1 - i)"
    "\<not> (r \<le> pos \<and> r \<le> m - 1 \<and> pattern ! (pos - r) = pattern ! (m - 1 - r))"
proof -
  have "(\<forall>i < r. i \<le> pos \<and> i \<le> m - 1 \<and> pattern ! (pos - i) = pattern ! (m - 1 - i))
    \<and> \<not> (r \<le> pos \<and> r \<le> m - 1 \<and> pattern ! (pos - r) = pattern ! (m - 1 - r))"
    unfolding r_def using assms(1)
  proof (induction pattern m pos k rule: bm_suffixLen.induct)
    case (1 pattern m pos k)
    show ?case
    proof (cases "k \<le> pos \<and> k \<le> m - 1 \<and> pattern ! (pos - k) = pattern ! (m - 1 - k)")
      case True
      have unf: "bm_suffixLen pattern m pos k = bm_suffixLen pattern m pos (k + 1)"
        by (subst bm_suffixLen.simps) (rule if_P [OF True])
      show ?thesis
        unfolding unf by (rule "1.IH" [OF True]) (use True "1.prems" in \<open>metis Suc_eq_plus1 less_Suc_eq\<close>)
    next
      case False
      have unf: "bm_suffixLen pattern m pos k = k" by (subst bm_suffixLen.simps) (rule if_not_P [OF False])
      show ?thesis unfolding unf using "1.prems" False by blast
    qed
  qed
  then show "\<And>i. i < r \<Longrightarrow> i \<le> pos \<and> i \<le> m - 1 \<and> pattern ! (pos - i) = pattern ! (m - 1 - i)"
    "\<not> (r \<le> pos \<and> r \<le> m - 1 \<and> pattern ! (pos - r) = pattern ! (m - 1 - r))" by blast+
qed

text \<open>A shift inside the mismatch position is compatible exactly when the second loop stops there.\<close>

lemma compatible_stops:
  assumes "compatible pattern m q d" "0 < d" "d \<le> q" "q < m"
  shows "bm_suffixLen pattern m (m - 1 - d) 0 = m - 1 - q \<and> bm_stops pattern m (m - 1 - d) (m - 1 - q)"
proof -
  define r where "r = bm_suffixLen pattern m (m - 1 - d) 0"
  note spec = bm_suffixLen_spec [of 0 "m - 1 - d" m pattern, folded r_def]
  have eq: "pattern ! (m - 1 - d - i) = pattern ! (m - 1 - i)" if "i < m - 1 - q" for i
  proof -
    have "q < m - 1 - i \<and> m - 1 - i < m \<and> d \<le> m - 1 - i" using that assms by linarith
    then have "pattern ! (m - 1 - i - d) = pattern ! (m - 1 - i)" using assms(1) unfolding compatible_def by blast
    then show ?thesis by (simp add: add.commute)
  qed
  have ne: "pattern ! (m - 1 - d - (m - 1 - q)) \<noteq> pattern ! (m - 1 - (m - 1 - q))"
  proof -
    have "pattern ! (q - d) \<noteq> pattern ! q" using assms(1,3) by (simp add: compatible_def)
    moreover have "m - 1 - d - (m - 1 - q) = q - d" "m - 1 - (m - 1 - q) = q" using assms(3,4) by simp_all
    ultimately show ?thesis by simp
  qed
  have "\<not> r < m - 1 - q"
  proof
    assume "r < m - 1 - q"
    moreover from this have "r \<le> m - 1 - d" "r \<le> m - 1" using assms by linarith+
    ultimately show False using spec(2) eq by blast
  qed
  moreover have "\<not> m - 1 - q < r" using spec(1) [of "m - 1 - q"] ne by blast
  ultimately have "r = m - 1 - q" by simp
  moreover have "m - 1 - q \<le> m - 1 - d" "m - 1 - q \<le> m - 1" using assms(3) by linarith+
  then have "bm_stops pattern m (m - 1 - d) (m - 1 - q)" using ne unfolding bm_stops_def by blast
  ultimately show ?thesis by (simp add: r_def)
qed

definition good_shift :: "byte list \<Rightarrow> nat \<Rightarrow> nat \<Rightarrow> nat \<Rightarrow> bool" where
  "good_shift pattern m q v \<longleftrightarrow>
     (\<exists>d. v = d + (m - 1 - q) \<and> 0 < d \<and> d \<le> m \<and> (\<forall>e. 0 < e \<and> e < d \<longrightarrow> \<not> compatible pattern m q e))"

lemma bm_suffix_loop_spec:
  assumes "m \<le> length T" "q < m" "T ! q = l + (m - 1 - q)" "prefix_shift pattern m q l"
  shows "good_shift pattern m q (bm_suffix_loop pattern m T ! q)"
proof -
  let ?k = "\<lambda>pos. bm_suffixLen pattern m pos 0"
  let ?C = "\<lambda>pos. bm_stops pattern m pos (?k pos)"
  have hit: "?C (m - 1 - e)" "m - 1 - ?k (m - 1 - e) = q" if "compatible pattern m q e" "0 < e" "e \<le> q" for e
    using compatible_stops [OF that assms(2)] assms(2) by auto
  have "(\<exists>pos < m - 1. ?C pos \<and> m - 1 - ?k pos = q \<and> bm_suffix_loop pattern m T ! q = m - 1 - pos + ?k pos
        \<and> (\<forall>j. pos < j \<and> j < m - 1 \<and> ?C j \<longrightarrow> m - 1 - ?k j \<noteq> q))
    \<or> (\<forall>pos < m - 1. ?C pos \<longrightarrow> m - 1 - ?k pos \<noteq> q) \<and> bm_suffix_loop pattern m T ! q = T ! q"
    unfolding bm_suffix_loop_def
    by (rule fold_table_if [where f = "\<lambda>pos. m - 1 - ?k pos" and g = "\<lambda>pos. m - 1 - pos + ?k pos"])
      (use assms in simp)
  then show ?thesis
  proof
    assume "\<exists>pos < m - 1. ?C pos \<and> m - 1 - ?k pos = q \<and> bm_suffix_loop pattern m T ! q = m - 1 - pos + ?k pos
        \<and> (\<forall>j. pos < j \<and> j < m - 1 \<and> ?C j \<longrightarrow> m - 1 - ?k j \<noteq> q)"
    then obtain pos where pos: "pos < m - 1" "?C pos" "m - 1 - ?k pos = q"
      "bm_suffix_loop pattern m T ! q = m - 1 - pos + ?k pos"
      "\<forall>j. pos < j \<and> j < m - 1 \<and> ?C j \<longrightarrow> m - 1 - ?k j \<noteq> q" by blast
    have k: "?k pos = m - 1 - q" "?k pos \<le> pos" using pos(2,3) by (auto simp: bm_stops_def)
    have "\<not> compatible pattern m q e" if "0 < e" "e < m - 1 - pos" for e
    proof
      assume "compatible pattern m q e"
      moreover have "e \<le> q" "pos < m - 1 - e" "m - 1 - e < m - 1" using that k assms(2) by linarith+
      ultimately show False using hit [of e] that(1) pos(5) by blast
    qed
    then show ?thesis
      unfolding good_shift_def by (intro exI [of _ "m - 1 - pos"]) (use pos(1,4) k in auto)
  next
    assume no: "(\<forall>pos < m - 1. ?C pos \<longrightarrow> m - 1 - ?k pos \<noteq> q) \<and> bm_suffix_loop pattern m T ! q = T ! q"
    have "\<not> compatible pattern m q e" if "0 < e" "e < l" for e
    proof
      assume c: "compatible pattern m q e"
      show False
      proof (cases "e \<le> q")
        case True
        moreover have "m - 1 - e < m - 1" using that(1) True assms(2) by linarith
        ultimately show False using hit [OF c that(1)] no by blast
      next
        case False
        then show False using compatible_border [OF c] assms(4) that(2) by (auto simp: prefix_shift_def)
      qed
    qed
    then show ?thesis
      unfolding good_shift_def using no assms(3,4) by (intro exI [of _ l]) (auto simp: prefix_shift_def)
  qed
qed

lemma fillGoodSuffixRuleTable_spec:
  assumes "m \<le> 256"
  obtains good where "fillGoodSuffixRuleTable pattern m = Some good"
    "\<And>q. q < m \<Longrightarrow> good_shift pattern m q (good ! q)"
proof
  define T where "T = bm_prefix_loop pattern m m 1 (replicate 256 (0 :: nat))"
  show "fillGoodSuffixRuleTable pattern m = Some (bm_suffix_loop pattern m T)"
    using assms by (simp add: fillGoodSuffixRuleTable_def T_def)
  fix q
  assume q: "q < m"
  obtain l where "T ! q = l + (m - 1 - q)" "prefix_shift pattern m q l"
    using bm_prefix_loop_spec [of m m "replicate 256 0" pattern 1 q] q assms by (auto simp: T_def)
  moreover have "m \<le> length T" using assms by (simp add: T_def)
  ultimately show "good_shift pattern m q (bm_suffix_loop pattern m T ! q)"
    using bm_suffix_loop_spec q by blast
qed

lemma bad_table:
  fixes c :: byte and pattern :: "byte list" and m :: nat
  defines "v \<equiv> fillBadCharRuleTable pattern m ! unat c"
  shows "v \<le> m" "\<And>i. m - 1 - v < i \<Longrightarrow> i < m \<Longrightarrow> v < m \<Longrightarrow> pattern ! i \<noteq> c"
    "\<And>i. i < m \<Longrightarrow> v = m \<Longrightarrow> pattern ! i \<noteq> c"
proof -
  have cases: "(\<exists>i < m. pattern ! i = c \<and> v = m - 1 - i \<and> (\<forall>j. i < j \<and> j < m \<longrightarrow> pattern ! j \<noteq> c))
    \<or> (\<forall>i < m. pattern ! i \<noteq> c) \<and> v = m"
    using fold_table [of "unat c" "replicate 256 m" m "\<lambda>i. unat (pattern ! i)" "\<lambda>i. m - 1 - i"]
    unfolding v_def fillBadCharRuleTable_def by simp
  then show "v \<le> m" by auto
  show "pattern ! i \<noteq> c" if i: "m - 1 - v < i" "i < m" "v < m" for i
  proof -
    obtain k where k: "k < m" "v = m - 1 - k" "\<forall>j. k < j \<and> j < m \<longrightarrow> pattern ! j \<noteq> c"
      using cases i(3) by auto
    then have "k < i" using i(1) by linarith
    then show ?thesis using k(3) i(2) by blast
  qed
  show "pattern ! i \<noteq> c" if "i < m" "v = m" for i
  proof -
    have "\<not> (\<exists>i < m. v = m - 1 - i)" using that by auto
    then show ?thesis using cases that(1) by blast
  qed
qed

lemma bad_skip:
  assumes "q < m" "0 < d" "d + (m - 1) < q + fillBadCharRuleTable pattern m ! unat (tx ! (t + q))"
  shows "\<not> occ tx pattern m (t + d)"
proof
  assume o: "occ tx pattern m (t + d)"
  define v where "v = fillBadCharRuleTable pattern m ! unat (tx ! (t + q))"
  note tab = bad_table [where pattern = pattern and m = m and c = "tx ! (t + q)", folded v_def]
  have le: "d \<le> q" using assms tab(1) by (simp add: v_def [symmetric])
  have "tx ! (t + d + (q - d)) = pattern ! (q - d)"
    using o assms(1) unfolding occ_def by (metis less_imp_diff_less)
  then have eq: "tx ! (t + q) = pattern ! (q - d)" using le by simp
  show False
  proof (cases "v = m")
    case True
    then show False using tab(3) [OF less_imp_diff_less [OF assms(1)]] eq by metis
  next
    case False
    then have "v < m" using tab(1) by simp
    moreover have "m - 1 - v < q - d" using assms(3) \<open>v < m\<close> by (simp add: v_def [symmetric])
    ultimately show False using tab(2) [OF _ less_imp_diff_less [OF assms(1)]] eq by metis
  qed
qed

section \<open>Boyer-Moore: the search\<close>

lemma bm_match_spec:
  "j < length pattern \<Longrightarrow> t + j < length tx \<Longrightarrow>
    \<exists>q \<le> j. bm_match tx pattern (t + j) j = Some (t + q, q) \<and> (\<forall>i. q < i \<and> i \<le> j \<longrightarrow> tx ! (t + i) = pattern ! i)
      \<and> (q = 0 \<or> tx ! (t + q) \<noteq> pattern ! q)"
proof (induction j)
  case (Suc j)
  show ?case
  proof (cases "tx ! (t + Suc j) = pattern ! Suc j")
    case True
    obtain q where q: "q \<le> j" "bm_match tx pattern (t + j) j = Some (t + q, q)"
      "\<forall>i. q < i \<and> i \<le> j \<longrightarrow> tx ! (t + i) = pattern ! i" "q = 0 \<or> tx ! (t + q) \<noteq> pattern ! q"
      using Suc by auto
    have "bm_match tx pattern (t + Suc j) (Suc j) = Some (t + q, q)" using Suc.prems True q(2) by simp
    moreover have "\<forall>i. q < i \<and> i \<le> Suc j \<longrightarrow> tx ! (t + i) = pattern ! i" using q(3) True by (auto simp: le_Suc_eq)
    ultimately show ?thesis using q(1,4) by (intro exI [of _ q]) simp
  next
    case False
    then have "bm_match tx pattern (t + Suc j) (Suc j) = Some (t + Suc j, Suc j)" using Suc.prems by simp
    then show ?thesis using False by (intro exI [of _ "Suc j"]) auto
  qed
qed simp

lemma bm_window:
  assumes "0 < m" "m \<le> length pattern" "t + m \<le> length tx"
  obtains (found) "bm_match tx pattern (t + (m - 1)) (m - 1) = Some (t, 0)" "tx ! t = pattern ! 0" "occ tx pattern m t"
  | (mismatch) q where "bm_match tx pattern (t + (m - 1)) (m - 1) = Some (t + q, q)" "q < m"
    "tx ! (t + q) \<noteq> pattern ! q" "\<And>i. q < i \<Longrightarrow> i < m \<Longrightarrow> tx ! (t + i) = pattern ! i" "\<not> occ tx pattern m t"
proof -
  have "m - 1 < length pattern" "t + (m - 1) < length tx" using assms by linarith+
  obtain q where q: "q \<le> m - 1" "bm_match tx pattern (t + (m - 1)) (m - 1) = Some (t + q, q)"
    "\<forall>i. q < i \<and> i \<le> m - 1 \<longrightarrow> tx ! (t + i) = pattern ! i" "q = 0 \<or> tx ! (t + q) \<noteq> pattern ! q"
    using bm_match_spec [of "m - 1" pattern t tx] \<open>m - 1 < length pattern\<close> \<open>t + (m - 1) < length tx\<close> by blast
  have right: "tx ! (t + i) = pattern ! i" if "q < i" "i < m" for i using q(3) that by auto
  show thesis
  proof (cases "tx ! (t + q) = pattern ! q")
    case True
    then have "q = 0" using q(4) by simp
    then have "occ tx pattern m t" using right True unfolding occ_def by (metis gr0I)
    then show thesis using found q(2) True \<open>q = 0\<close> by simp
  next
    case False
    have "q < m" using q(1) assms(1) by simp
    then have "\<not> occ tx pattern m t" using False by (auto simp: occ_def)
    then show thesis using mismatch [OF q(2) \<open>q < m\<close> False right] by blast
  qed
qed

lemma bm_loop_spec:
  assumes call: "match_call tx pattern n m" and "0 < m" "m \<le> n"
    and good: "\<And>q. q < m \<Longrightarrow> good_shift pattern m q (good ! q)"
    and "\<And>s. s < t \<Longrightarrow> \<not> occ tx pattern m s"
  shows "\<exists>r. bm_loop tx pattern n m (fillBadCharRuleTable pattern m) good (t + (m - 1)) = Some r
    \<and> first_match tx pattern n m r"
  using assms(5)
proof (induction "Suc n - t" arbitrary: t rule: less_induct)
  case less
  let ?bad = "fillBadCharRuleTable pattern m"
  show ?case
  proof (cases "t + (m - 1) < n")
    case False
    have "bm_loop tx pattern n m ?bad good (t + (m - 1)) = Some (- 1)"
      by (subst bm_loop.simps) (rule if_not_P [OF False])
    moreover have "first_match tx pattern n m (- 1)"
      by (rule first_match_none [OF assms(2,3)]) (use less.prems False assms(2,3) in auto)
    ultimately show ?thesis by blast
  next
    case True
    have bounds: "m \<le> length pattern" "t + m \<le> length tx" "t < 2 ^ 31" "m \<le> 256" "t \<le> n - m" "t < n"
      using call True assms(2,3) by (auto simp: match_call_def)
    have ends: "t < length tx" "0 < length pattern" using bounds(1,2) assms(2) by linarith+
    from assms(2) bounds(1,2) show ?thesis
    proof (cases rule: bm_window)
      case found
      have "bm_loop tx pattern n m ?bad good (t + (m - 1)) = Some (int t)"
        by (subst bm_loop.simps, subst if_P [OF True]) (simp only: found(1), use found(2) ends in simp)
      then show ?thesis using first_match_least [OF assms(2,3) found(3) bounds(5) less.prems] by blast
    next
      case (mismatch q)
      obtain d where d: "good ! q = d + (m - 1 - q)" "0 < d" "d \<le> m"
        "\<forall>e. 0 < e \<and> e < d \<longrightarrow> \<not> compatible pattern m q e"
        using good [OF mismatch(2)] by (auto simp: good_shift_def)
      define v where "v = ?bad ! unat (tx ! (t + q))"
      define s where "s = max (q + v - (m - 1)) d"
      have v: "v \<le> m" unfolding v_def by (rule bad_table)
      have sum: "t + q + max v (good ! q) = t + s + (m - 1)"
      proof (cases "v \<le> d + (m - 1 - q)")
        case True
        then have "q + v - (m - 1) \<le> d" using mismatch(2) by linarith
        then show ?thesis using True d(1) mismatch(2) by (simp add: s_def max_absorb2)
      next
        case False
        then have "d \<le> q + v - (m - 1)" "m - 1 \<le> q + v" using mismatch(2) by linarith+
        then show ?thesis using False d(1) by (simp add: s_def max_absorb1)
      qed
      have s: "0 < s" "s \<le> 2 * m" using d(2,3) v mismatch(2) by (auto simp: s_def max_def)
      have "(t + s + (m - 1)) mod 2 ^ 32 = t + s + (m - 1)" using bounds(3,4) s(2) by simp
      then have unf: "bm_loop tx pattern n m ?bad good (t + (m - 1)) = bm_loop tx pattern n m ?bad good (t + s + (m - 1))"
        by (subst bm_loop.simps, subst if_P [OF True])
          (use mismatch(1-3) bounds(1,2) in \<open>simp add: v_def [symmetric] sum\<close>)
      have "\<not> occ tx pattern m u" if "u < t + s" for u
        using that
      proof (cases rule: window_cases)
        case (3 e)
        show ?thesis
        proof (cases "e < d")
          case True
          then show ?thesis
            using occ_compatible [OF _ 3(1) mismatch(2,3,4)] d(4) 3 by blast
        next
          case False
          then have "e + (m - 1) < q + v" using 3(2) by (simp add: s_def max_def split: if_splits)
          then show ?thesis using bad_skip [OF mismatch(2) 3(1)] 3(3) by (simp add: v_def)
        qed
      qed (use less.prems mismatch(5) in blast)+
      moreover have "Suc n - (t + s) < Suc n - t" using s(1) bounds(6) by linarith
      ultimately show ?thesis using less.hyps [of "t + s"] unf by simp
    qed
  qed
qed

interpretation bm: match_method bm
proof
  fix tx pattern :: "byte list" and n m
  assume call: "match_call tx pattern n m"
  show "\<exists>r. bm tx pattern n m = Some r \<and> first_match tx pattern n m r"
  proof (cases "0 < m \<and> m \<le> n")
    case True
    have "m \<le> 256" using call by (simp add: match_call_def)
    then obtain good where good: "fillGoodSuffixRuleTable pattern m = Some good"
      "\<And>q. q < m \<Longrightarrow> good_shift pattern m q (good ! q)" using fillGoodSuffixRuleTable_spec by blast
    have "bm tx pattern n m = bm_loop tx pattern n m (fillBadCharRuleTable pattern m) good (0 + (m - 1))"
      using True good(1) by (simp add: bm_def no_search_def)
    then show ?thesis using bm_loop_spec [OF call _ _ good(2), of 0] True by simp
  next
    case False
    then show ?thesis by (auto simp: bm_def no_search_def first_match_def)
  qed
qed

section \<open>Knuth-Morris-Pratt\<close>

definition kmp_next_ok :: "byte list \<Rightarrow> nat \<Rightarrow> nat list \<Rightarrow> bool" where
  "kmp_next_ok pattern m nx \<longleftrightarrow>
     length nx = m + 1 \<and> (\<forall>j \<le> m. nx ! j = 0 \<or> nx ! j = 1 \<and> 2 \<le> j \<and> pattern ! (j - 1) = pattern ! 0)"

lemma kmp_step_spec:
  assumes "kmp_next_ok pattern m nx" "nx ! (i + 1) = 0" "0 < i" "i < m" "m \<le> length pattern"
  obtains nx' where "kmp_step pattern i nx = Some nx'" "kmp_next_ok pattern m nx'"
    "\<And>k. k \<noteq> i + 1 \<Longrightarrow> nx' ! k = nx ! k"
proof
  let ?nx = "if pattern ! 0 = pattern ! i then nx[i + 1 := 1] else nx"
  have "kmp_fall pattern nx i 0 = Some 0" by (subst kmp_fall.simps) simp
  moreover have "rd nx (i + 1) = Some 0" "rd pattern 0 = Some (pattern ! 0)" "rd pattern i = Some (pattern ! i)"
    using assms by (auto simp: kmp_next_ok_def rd_def)
  ultimately show "kmp_step pattern i nx = Some ?nx" by (simp add: kmp_step_def)
  show "kmp_next_ok pattern m ?nx"
    using assms by (auto simp: kmp_next_ok_def nth_list_update)
  show "\<And>k. k \<noteq> i + 1 \<Longrightarrow> ?nx ! k = nx ! k" by simp
qed

lemma kmp_table_spec:
  assumes "m \<le> length pattern" "kmp_next_ok pattern m nx" "0 < i" "\<And>k. i < k \<Longrightarrow> k \<le> m \<Longrightarrow> nx ! k = 0"
  shows "\<exists>nx'. kmp_table pattern [i..<m] nx = Some nx' \<and> kmp_next_ok pattern m nx'"
  using assms(2-4)
proof (induction "m - i" arbitrary: i nx)
  case (Suc n)
  have i: "i < m" "nx ! (i + 1) = 0" using Suc.hyps(2) Suc.prems(3) by auto
  obtain nx' where nx': "kmp_step pattern i nx = Some nx'" "kmp_next_ok pattern m nx'"
    "\<And>k. k \<noteq> i + 1 \<Longrightarrow> nx' ! k = nx ! k"
    using kmp_step_spec [OF Suc.prems(1) i(2) Suc.prems(2) i(1) assms(1)] by blast
  have "\<exists>nx''. kmp_table pattern [i + 1..<m] nx' = Some nx'' \<and> kmp_next_ok pattern m nx''"
    by (rule Suc.hyps(1)) (use Suc.hyps(2) Suc.prems(3) nx' in auto)
  then show ?case using nx'(1) i(1) by (simp add: upt_conv_Cons)
qed simp

lemma kmp_loop_sound:
  assumes call: "match_call tx pattern n m" and m: "0 < m" "m \<le> n" and nx: "kmp_next_ok pattern m nx"
    and "j < m" "j \<le> i" "i \<le> n" "\<And>k. k < j \<Longrightarrow> tx ! (i - j + k) = pattern ! k"
  shows "\<exists>r. kmp_loop tx pattern n m nx i j = Some r
    \<and> (r = - 1 \<or> 0 \<le> r \<and> nat r \<le> n - m \<and> occ tx pattern m (nat r))"
  using assms(5-8)
proof (induction "(n - i, j)" arbitrary: i j rule: wf_induct_rule [OF wf_lex_prod [OF wf_less_than wf_less_than]])
  case (1 i j)
  note IH = "1.hyps" and j = "1.prems"(1,2) and pre = "1.prems"(4)
  show ?case
  proof (cases "i < n")
    case False
    have "kmp_loop tx pattern n m nx i j = Some (- 1)" by (subst kmp_loop.simps) (rule if_not_P [OF False])
    then show ?thesis by simp
  next
    case True
    have rds: "rd tx i = Some (tx ! i)" "rd pattern j = Some (pattern ! j)" "i < 2 ^ 31" "m \<le> 256"
      "rd nx j = Some (nx ! j)"
      using call True j nx by (auto simp: match_call_def kmp_next_ok_def)
    have unf: "kmp_loop tx pattern n m nx i j =
        (if tx ! i = pattern ! j then
           (if j + 1 = m then Some (int ((i + 2 ^ 32 - (j + 1) + 1) mod 2 ^ 32)) else kmp_loop tx pattern n m nx (i + 1) (j + 1))
         else if j > 0 then kmp_loop tx pattern n m nx i (nx ! j) else kmp_loop tx pattern n m nx (i + 1) j)"
      by (subst kmp_loop.simps, subst if_P [OF True]) (simp only: rds Option.bind.bind_lunit)
    consider (last) "tx ! i = pattern ! j" "j + 1 = m" | (next_char) "tx ! i = pattern ! j" "j + 1 \<noteq> m"
      | (fall) "tx ! i \<noteq> pattern ! j" "j > 0" | (advance) "tx ! i \<noteq> pattern ! j" "j = 0" by blast
    then show ?thesis
    proof cases
      case last
      have "i + 2 ^ 32 - (j + 1) + 1 = i - j + 2 ^ 32" using j(2) last(2) rds(4) by simp
      then have "(i + 2 ^ 32 - (j + 1) + 1) mod 2 ^ 32 = (i - j + 2 ^ 32) mod 2 ^ 32" by (simp only:)
      also have "\<dots> = i - j" using rds(3) by simp
      finally have pos: "(i + 2 ^ 32 - (j + 1) + 1) mod 2 ^ 32 = i - j" .
      have "tx ! (i - j + k) = pattern ! k" if "k < m" for k
        using pre [of k] last j(2) that by (cases "k = j") auto
      then have "occ tx pattern m (i - j)" by (simp add: occ_def)
      moreover have "i - j \<le> n - m" using last(2) True j(2) by linarith
      moreover have "kmp_loop tx pattern n m nx i j = Some (int (i - j))"
        unfolding unf if_P [OF last(1)] if_P [OF last(2)] pos ..
      ultimately show ?thesis by simp
    next
      case next_char
      have "tx ! (i + 1 - (j + 1) + k) = pattern ! k" if "k < j + 1" for k
        using pre [of k] next_char(1) j(2) that by (cases "k = j") auto
      then show ?thesis using IH [of "i + 1" "j + 1"] next_char True j unf by simp
    next
      case fall
      have "nx ! j = 0 \<or> nx ! j = 1 \<and> 2 \<le> j \<and> pattern ! (j - 1) = pattern ! 0"
        using nx j(1) by (simp add: kmp_next_ok_def)
      moreover from this have "nx ! j < j" using fall(2) by auto
      moreover have "tx ! (i - nx ! j + k) = pattern ! k" if "k < nx ! j" for k
        using calculation that pre [of "j - 1"] j(2) by auto
      ultimately show ?thesis using IH [of i "nx ! j"] fall j True unf by simp
    next
      case advance
      then show ?thesis using IH [of "i + 1" 0] True m(1) unf by simp
    qed
  qed
qed

lemma kmp_loop_stop: "\<not> i < n \<Longrightarrow> kmp_loop tx pattern n m nx i j = Some (- 1)"
  by (subst kmp_loop.simps) (rule if_not_P)

lemma kmp_loop_step:
  "i < n \<Longrightarrow> i < length tx \<Longrightarrow> j < length pattern \<Longrightarrow> j < length nx \<Longrightarrow>
    kmp_loop tx pattern n m nx i j =
      (if tx ! i = pattern ! j then
         (if j + 1 = m then Some (int ((i + 2 ^ 32 - (j + 1) + 1) mod 2 ^ 32))
          else kmp_loop tx pattern n m nx (i + 1) (j + 1))
       else if j > 0 then kmp_loop tx pattern n m nx i (nx ! j) else kmp_loop tx pattern n m nx (i + 1) j)"
  by (subst kmp_loop.simps, subst if_P, assumption) simp

lemma kmp_fall_zero: "kmp_fall pattern nx i 0 = Some 0"
  by (subst kmp_fall.simps) simp

section \<open>Properties\<close>

text \<open>
  C23: Rabin-Karp, Boyer-Moore, Horspool and Sunday return, for every text and pattern within the
  bounds of a call, the same position: that of the first occurrence of the pattern in the text, and
  \<open>-1\<close> when it does not occur, when one of the two is empty or the pattern is the longer one.
\<close>

theorem match_methods_agree:
  assumes "match_call tx pattern textLen patternLen"
  shows "\<exists>r. first_match tx pattern textLen patternLen r
    \<and> rk tx pattern textLen patternLen = Some r \<and> bm tx pattern textLen patternLen = Some r
    \<and> horspool tx pattern textLen patternLen = Some r \<and> sunday tx pattern textLen patternLen = Some r"
  using rk.first [OF assms] bm.first [OF assms] horspool.first [OF assms] sunday.first [OF assms]
  by (metis first_match_unique)

theorem match_methods_agree_witness:
  "\<exists>r. first_match [1, 2, 1, 2, 3, 0 :: byte] [1, 2, 3] 5 3 r
    \<and> rk [1, 2, 1, 2, 3, 0 :: byte] [1, 2, 3] 5 3 = Some r \<and> bm [1, 2, 1, 2, 3, 0 :: byte] [1, 2, 3] 5 3 = Some r
    \<and> horspool [1, 2, 1, 2, 3, 0 :: byte] [1, 2, 3] 5 3 = Some r \<and> sunday [1, 2, 1, 2, 3, 0 :: byte] [1, 2, 3] 5 3 = Some r"
  by (rule match_methods_agree) (simp add: match_call_def)

text \<open>
  Knuth-Morris-Pratt returns for every text and pattern within the bounds of a call, and a
  position it reports is an occurrence of the pattern inside the text.
\<close>

theorem kmp_sound:
  assumes "match_call tx pattern textLen patternLen"
  shows "\<exists>r. kmp tx pattern textLen patternLen = Some r
    \<and> (r = - 1 \<or> 0 \<le> r \<and> nat r + patternLen \<le> textLen \<and> occ tx pattern patternLen (nat r))"
proof (cases "0 < patternLen \<and> patternLen \<le> textLen")
  case True
  let ?zero = "replicate (patternLen + 1) 0"
  have "kmp_next_ok pattern patternLen ?zero" by (simp add: kmp_next_ok_def del: replicate_Suc)
  moreover have "?zero ! k = 0" if "1 < k" "k \<le> patternLen" for k using that by (simp del: replicate_Suc)
  moreover have "patternLen \<le> length pattern" using assms by (simp add: match_call_def)
  ultimately obtain nx where nx: "kmp_table pattern [1..<patternLen] ?zero = Some nx" "kmp_next_ok pattern patternLen nx"
    using kmp_table_spec [of patternLen pattern ?zero 1] by (metis zero_less_one)
  have "kmp tx pattern textLen patternLen = kmp_loop tx pattern textLen patternLen nx 0 0"
    using True nx(1) by (simp add: kmp_def no_search_def)
  then show ?thesis using kmp_loop_sound [OF assms _ _ nx(2), of 0 0] True by auto
next
  case False
  then show ?thesis by (auto simp: kmp_def no_search_def)
qed

theorem kmp_sound_witness:
  "\<exists>r. kmp [1, 2, 1, 2, 3, 0 :: byte] [1, 2, 3] 5 3 = Some r
    \<and> (r = - 1 \<or> 0 \<le> r \<and> nat r + 3 \<le> 5 \<and> occ [1, 2, 1, 2, 3, 0 :: byte] [1, 2, 3] 3 (nat r))"
  by (rule kmp_sound) (simp add: match_call_def)

text \<open>
  Knuth-Morris-Pratt misses occurrences, because each entry of its table is computed from an
  entry that has not been filled yet: it does not find \<open>aaab\<close> in \<open>aaaab\<close>, where the pattern occurs
  at position 1.
\<close>

theorem kmp_misses:
  "kmp [97, 97, 97, 97, 98] [97, 97, 97, 98] 5 4 = Some (- 1) \<and> occ [97, 97, 97, 97, 98 :: byte] [97, 97, 97, 98] 4 1"
proof
  have "[1..<4] = [1, 2, 3 :: nat]" "replicate (4 + 1) (0 :: nat) = [0, 0, 0, 0, 0]" by code_simp+
  then have "kmp_table [97, 97, 97, 98] [1..<4] (replicate (4 + 1) 0) = Some [0, 0, 1, 1, 0]"
    by (simp only: kmp_table.simps) (simp add: kmp_step_def kmp_fall_zero)
  moreover have "kmp_loop [97, 97, 97, 97, 98] [97, 97, 97, 98] 5 4 [0, 0, 1, 1, 0] 0 0 = Some (- 1)"
    by (simp add: kmp_loop_step kmp_loop_stop)
  moreover have "\<not> no_search 5 4" by (simp add: no_search_def)
  ultimately show "kmp [97, 97, 97, 97, 98] [97, 97, 97, 98] 5 4 = Some (- 1)"
    by (simp only: kmp_def if_False Option.bind.bind_lunit)
  show "occ [97, 97, 97, 97, 98 :: byte] [97, 97, 97, 98] 4 1" by (simp add: occ_take_drop)
qed

end
