(* ===== verification/NU_Arithmetic.thy ===== *)
theory NU_Arithmetic
  imports Foo_Prelude "HOL-Library.Signed_Division" "HOL-Library.Monad_Syntax"
begin

text \<open>
  The arithmetic of \<open>src/numeric/source/arithmetic.cpp\<close>: addition, subtraction, multiplication and
  division of \<open>std::int32_t\<close> values by bit operations. The values are \<^typ>\<open>32 word\<close>s read with \<^const>\<open>sint\<close>;
  left shifts drop the bits that leave the word and \<open>>>\<close> copies the sign, as the language defines
  them. The one operation that can overflow is the subtraction in \<open>bitAbs\<close>, for the smallest number:
  its behaviour is undefined and modelled by \<^term>\<open>None\<close>.
\<close>

unbundle bit_operations_syntax

type_synonym int32 = "32 word"

section \<open>Operations\<close>

text \<open>The carries move up by at least one bit in each round, so \<open>bitAdd\<close> returns.\<close>

definition reach_bits :: "int32 \<Rightarrow> nat set" where
  "reach_bits b = {k. k < 32 \<and> (\<exists>j \<le> k. bit b j)}"

lemma carry_moves_up:
  assumes "push_bit 1 (a AND b) \<noteq> (0 :: int32)"
  shows "card (reach_bits (push_bit 1 (a AND b))) < card (reach_bits b)"
proof -
  let ?c = "push_bit 1 (a AND b)"
  have bits: "bit b (j - 1) \<and> 0 < j" if "bit ?c j" for j
    using that unfolding bit_push_bit_iff bit_and_iff by auto
  obtain n where n: "bit ?c n" using assms by (metis bit_0_eq bit_word_eqI bot_apply bot_bool_def)
  define l where "l = (LEAST j. bit b j)"
  have l: "bit b l" unfolding l_def using bits [OF n] by (metis LeastI)
  have "l \<notin> reach_bits ?c"
  proof
    assume "l \<in> reach_bits ?c"
    then obtain j where "j \<le> l" "bit ?c j" by (auto simp: reach_bits_def)
    then have "bit b (j - 1)" "j - 1 < l" using bits [of j] by auto
    then show False unfolding l_def using not_less_Least by blast
  qed
  moreover have "l \<in> reach_bits b" using l bit_imp_le_length [OF l] by (auto simp: reach_bits_def)
  moreover have "reach_bits ?c \<subseteq> reach_bits b"
    using bits unfolding reach_bits_def by (smt (verit) diff_le_self mem_Collect_eq order_trans subsetI)
  moreover have "finite (reach_bits b)" by (simp add: reach_bits_def)
  ultimately show ?thesis by (metis psubset_card_mono psubsetI)
qed

function bitAdd :: "int32 \<Rightarrow> int32 \<Rightarrow> int32" where
  "bitAdd a b =
     (let total = a XOR b; carry = push_bit 1 (a AND b)
      in if total AND carry \<noteq> 0 then bitAdd total carry else total XOR carry)"
  by pat_completeness auto
termination
proof (relation "measure (\<lambda>(a, b). card (reach_bits b))", goal_cases)
  case (2 a b total carry)
  then have "push_bit 1 (a AND b) \<noteq> (0 :: int32)" by (metis and_zero_eq)
  then show ?case using 2(2) carry_moves_up by (simp only: in_measure prod.case)
qed simp

declare bitAdd.simps [simp del]

definition bitSub :: "int32 \<Rightarrow> int32 \<Rightarrow> int32" where
  "bitSub a b = bitAdd a (bitAdd (NOT b) 1)"

definition bitAbs :: "int32 \<Rightarrow> int32 option" where
  "bitAbs a =
     (let mask = signed_drop_bit 31 a
      in if sint (a XOR mask) - sint mask \<ge> 2 ^ 31 then None else Some ((a XOR mask) - mask))"

definition addition :: "int32 \<Rightarrow> int32 \<Rightarrow> int32" where
  "addition augend addend = bitAdd augend addend"

definition subtraction :: "int32 \<Rightarrow> int32 \<Rightarrow> int32" where
  "subtraction minuend subtrahend = bitAdd minuend (bitAdd (NOT subtrahend) 1)"

text \<open>The loops run over \<open>i = 31, ..., 0\<close>; the argument of the recursion is \<open>i + 1\<close>.\<close>

fun multiplication_loop :: "int32 \<Rightarrow> int32 \<Rightarrow> nat \<Rightarrow> int32 \<Rightarrow> int32" where
  "multiplication_loop multiplier multiplicand 0 product = product"
| "multiplication_loop multiplier multiplicand (Suc i) product =
     (let shifted = push_bit 1 product;
          product' = (if signed_drop_bit i (multiplicand AND push_bit i 1) \<noteq> 0
                      then bitAdd shifted multiplier else shifted)
      in multiplication_loop multiplier multiplicand i product')"

definition multiplication :: "int32 \<Rightarrow> int32 \<Rightarrow> int32" where
  "multiplication multiplier multiplicand = multiplication_loop multiplier multiplicand 32 0"

fun division_loop :: "int32 \<Rightarrow> int32 \<Rightarrow> nat \<Rightarrow> int32 \<Rightarrow> int32 \<Rightarrow> int32" where
  "division_loop absDividend absDivisor 0 quot rem = quot"
| "division_loop absDividend absDivisor (Suc i) quot rem =
     (let q = push_bit 1 quot;
          r = push_bit 1 rem OR signed_drop_bit i (absDividend AND push_bit i 1)
      in if sint r \<ge> sint absDivisor
         then division_loop absDividend absDivisor i (q OR 1) (bitSub r absDivisor)
         else division_loop absDividend absDivisor i q r)"

definition division :: "int32 \<Rightarrow> int32 \<Rightarrow> int32 option" where
  "division dividend divisor =
     (if divisor = 0 then Some 0
      else do {
        absDividend \<leftarrow> bitAbs dividend;
        absDivisor \<leftarrow> bitAbs divisor;
        let quot = division_loop absDividend absDivisor 32 0 0;
        Some (if sint (dividend XOR divisor) < 0 then bitSub 0 quot else quot)
      })"

section \<open>Addition and subtraction\<close>

lemma plus_xor_carry: "(a XOR b) + push_bit 1 (a AND b) = a + b" for a b :: int32
proof -
  have x: "(a XOR b) + (a AND b) = a OR b"
    by (subst disjunctive_add_eq_or; rule bit_word_eqI; auto simp: bit_simps)
  have o: "b + (a AND NOT b) = a OR b"
    by (subst disjunctive_add_eq_or; rule bit_word_eqI; auto simp: bit_simps)
  have n: "(a AND NOT b) + (a AND b) = a"
    by (subst disjunctive_add_eq_or; rule bit_word_eqI; auto simp: bit_simps)
  have "push_bit 1 (a AND b) = (a AND b) + (a AND b)" by (simp only: push_bit_eq_mult power_one_right mult_2_right)
  then have "(a XOR b) + push_bit 1 (a AND b) = ((a XOR b) + (a AND b)) + (a AND b)" by (simp only: add.assoc)
  also have "\<dots> = b + ((a AND NOT b) + (a AND b))" by (simp only: x o [symmetric] add.assoc)
  also have "\<dots> = a + b" unfolding n by (rule add.commute)
  finally show ?thesis .
qed

lemma bitAdd_eq: "bitAdd a b = a + b"
proof (induction a b rule: bitAdd.induct)
  case (1 a b)
  let ?t = "a XOR b" and ?c = "push_bit 1 (a AND b)"
  show ?case
  proof (cases "?t AND ?c = 0")
    case True
    then have "?t XOR ?c = ?t + ?c" by (rule disjunctive_add_eq_xor [symmetric])
    then show ?thesis using True plus_xor_carry [of a b] by (subst bitAdd.simps) (simp add: Let_def)
  next
    case False
    then show ?thesis using "1.IH" [OF refl refl] plus_xor_carry [of a b] by (subst bitAdd.simps) (simp add: Let_def)
  qed
qed

lemma NOT_plus_one: "NOT b + 1 = - b" for b :: int32
  by (simp add: not_eq_complement)

lemma bitSub_eq: "bitSub a b = a - b"
  by (simp add: bitSub_def bitAdd_eq NOT_plus_one)

section \<open>Multiplication\<close>

lemma bit_single: "i < 32 \<Longrightarrow> bit (w AND push_bit i 1) j \<longleftrightarrow> j = i \<and> bit w i" for w :: int32
  unfolding bit_and_iff bit_push_bit_iff bit_1_iff by auto

lemma bit_test: "i < 32 \<Longrightarrow> signed_drop_bit i (w AND push_bit i 1) \<noteq> 0 \<longleftrightarrow> bit w i" for w :: int32
proof -
  assume i: "i < 32"
  have single: "bit (w AND push_bit i 1) j \<longleftrightarrow> j = i \<and> bit w i" for j
    using i by (rule bit_single)
  have "bit (signed_drop_bit i (w AND push_bit i 1)) 0 \<longleftrightarrow> bit w i"
    unfolding bit_signed_drop_bit_iff single using i by auto
  moreover have "w AND push_bit i 1 = 0" if "\<not> bit w i"
    using that single by (intro bit_word_eqI) simp
  ultimately show ?thesis by (metis bit_0_eq bot_apply bot_bool_def signed_drop_bit_of_0)
qed

lemma drop_bit_split: "drop_bit i w = 2 * drop_bit (Suc i) w + of_bool (bit w i)" for w :: int32
proof -
  have "drop_bit i w div 2 = drop_bit (Suc i) w" by (simp add: drop_bit_Suc drop_bit_half)
  moreover have "drop_bit i w mod 2 = of_bool (bit w i)"
    by (simp add: mod_2_eq_odd bit_iff_odd_drop_bit)
  ultimately show ?thesis using mult_div_mod_eq [of 2 "drop_bit i w"] by simp
qed

lemma multiplication_loop_eq:
  "n \<le> 32 \<Longrightarrow> multiplication_loop x y n (x * drop_bit n y) = x * y"
proof (induction n)
  case (Suc i)
  have step: "push_bit 1 (x * drop_bit (Suc i) y) + of_bool (bit y i) * x = x * drop_bit i y"
    by (simp add: drop_bit_split [of i y] push_bit_eq_mult algebra_simps)
  have "(if bit y i then push_bit 1 (x * drop_bit (Suc i) y) + x else push_bit 1 (x * drop_bit (Suc i) y)) = x * drop_bit i y"
    using step by (cases "bit y i") simp_all
  moreover have "i < 32" "i \<le> 32" using Suc.prems by simp_all
  ultimately show ?case using Suc.IH by (simp only: multiplication_loop.simps Let_def bitAdd_eq bit_test)
qed simp

lemma multiplication_eq: "multiplication x y = x * y"
  using multiplication_loop_eq [of 32 x y] by (simp add: multiplication_def drop_bit_word_beyond)

section \<open>Division\<close>

lemma sint_neg_range: "sint (- w) = - sint w" if "sint w \<noteq> - (2 ^ 31)" for w :: int32
  using that sint_ge [of w] sint_lt [of w]
  by (simp add: sint_word_minus signed_take_bit_int_eq_self)

lemma bitAbs_eq:
  assumes "sint a \<noteq> - (2 ^ 31)"
  shows "\<exists>r. bitAbs a = Some r \<and> sint r = \<bar>sint a\<bar>"
proof (cases "0 \<le> sint a")
  case True
  have "sint (signed_drop_bit 31 a) = drop_bit 31 (sint a)" by (rule sint_signed_drop_bit_eq)
  also have "\<dots> = 0" using True sint_lt [of a] by (simp add: drop_bit_eq_div)
  finally have "signed_drop_bit 31 a = 0" by (simp only: signed_eq_0_iff)
  then show ?thesis using True sint_lt [of a] by (simp add: bitAbs_def)
next
  case False
  have "sint (signed_drop_bit 31 a) = drop_bit 31 (sint a)" by (rule sint_signed_drop_bit_eq)
  also have "\<dots> = - 1" using False sint_ge [of a] by (simp add: drop_bit_eq_div)
  also have "(- 1 :: int) = sint (- 1 :: int32)" by simp
  finally have mask: "signed_drop_bit 31 a = - 1" by (simp only: signed_word_eqI)
  have flip: "a XOR - 1 = - a - 1" by (simp add: not_eq_complement)
  have "sint (- a - 1) = - sint a - 1"
    using False sint_ge [of a] sint_neg_range [OF assms] by (simp add: sint_word_diff signed_take_bit_int_eq_self)
  moreover have "\<not> 2 ^ 31 \<le> - sint a - 1 - sint (- 1 :: int32)" using assms sint_ge [of a] by simp
  moreover have "- a - 1 - (- 1) = - a" by simp
  ultimately have "bitAbs a = Some (- a)" unfolding bitAbs_def mask Let_def flip by (simp only: if_False)
  then show ?thesis using False sint_neg_range [OF assms] by simp
qed

lemma bitAbs_undefined: "sint a = - (2 ^ 31) \<Longrightarrow> bitAbs a = None"
proof -
  assume a: "sint a = - (2 ^ 31)"
  have "sint (signed_drop_bit 31 a) = - 1" by (simp add: sint_signed_drop_bit_eq a drop_bit_eq_div)
  also have "(- 1 :: int) = sint (- 1 :: int32)" by simp
  finally have mask: "signed_drop_bit 31 a = - 1" by (simp only: signed_word_eqI)
  have "sint (a XOR - 1) = sint a XOR sint (- 1 :: int32)" by (simp only: signed_xor_eq)
  also have "\<dots> = 2 ^ 31 - 1" by (simp add: a not_int_def)
  finally show ?thesis by (simp add: bitAbs_def mask)
qed

lemma sint_of_nat: "n < 2 ^ 31 \<Longrightarrow> sint (of_nat n :: int32) = int n"
  by (simp add: signed_of_nat signed_take_bit_int_eq_self)

lemma div_double:
  fixes p v b :: nat
  assumes "0 < v" "b \<le> 1" and R: "R = 2 * (p mod v) + b"
  shows "(2 * p + b) div v = 2 * (p div v) + of_bool (v \<le> R)" "(2 * p + b) mod v = (if v \<le> R then R - v else R)"
proof -
  have eq: "2 * p + b = v * (2 * (p div v)) + R"
    using mult_div_mod_eq [of v p] R by (metis add.assoc distrib_left mult.left_commute)
  have "R < 2 * v" using mod_less_divisor [OF assms(1), of p] assms(2) R by linarith
  then have "R div v = of_bool (v \<le> R)" "R mod v = (if v \<le> R then R - v else R)"
    using assms(1) by (auto simp: div_nat_eqI le_mod_geq not_le)
  then show "(2 * p + b) div v = 2 * (p div v) + of_bool (v \<le> R)" "(2 * p + b) mod v = (if v \<le> R then R - v else R)"
    unfolding eq using assms(1) by simp_all
qed

lemma division_bit:
  assumes "i < 32" "d < 2 ^ 31"
  shows "signed_drop_bit i (of_nat d AND push_bit i 1) = (of_nat (d div 2 ^ i mod 2) :: int32)"
proof -
  have bit: "bit (of_nat d :: int32) i \<longleftrightarrow> odd (d div 2 ^ i)"
    using assms(1) bit_iff_odd [of d i] by (simp add: bit_of_nat_iff del: bit_of_nat_iff_bit)
  show ?thesis
  proof (cases "i = 31")
    case True
    then have "d div 2 ^ i = 0" using assms(2) by simp
    then show ?thesis using bit_test [OF assms(1), of "of_nat d"] bit by simp
  next
    case False
    have "d div 2 ^ i mod 2 = of_bool (bit (of_nat d :: int32) i)" by (simp add: bit mod_2_eq_odd)
    then have "bit (of_nat (d div 2 ^ i mod 2) :: int32) n \<longleftrightarrow> n = 0 \<and> bit (of_nat d :: int32) i" for n
      by (cases "bit (of_nat d :: int32) i") (auto simp: bit_1_iff)
    moreover have "bit (signed_drop_bit i (of_nat d AND push_bit i 1) :: int32) n \<longleftrightarrow> n = 0 \<and> bit (of_nat d :: int32) i" for n
      unfolding bit_signed_drop_bit_iff bit_single [OF assms(1)] using False assms(1) by auto
    ultimately show ?thesis by (intro bit_word_eqI) blast
  qed
qed

lemma shift_in: "b \<le> 1 \<Longrightarrow> push_bit 1 (of_nat r) OR of_nat b = (of_nat (2 * r + b) :: int32)"
proof -
  assume "b \<le> 1"
  then have b: "b = 0 \<or> b = 1" by auto
  then have "push_bit 1 (of_nat r) AND of_nat b = (0 :: int32)"
    by (auto simp: and_one_eq mod_2_eq_odd)
  then have "push_bit 1 (of_nat r) OR of_nat b = push_bit 1 (of_nat r) + (of_nat b :: int32)"
    by (rule disjunctive_add_eq_or [symmetric])
  then show ?thesis by (simp add: push_bit_eq_mult mult.commute)
qed

lemma division_loop_eq:
  assumes "d < 2 ^ 31" "0 < v" "v < 2 ^ 31"
  shows "n \<le> 32 \<Longrightarrow> division_loop (of_nat d) (of_nat v) n (of_nat (d div 2 ^ n div v)) (of_nat (d div 2 ^ n mod v))
    = of_nat (d div v)"
proof (induction n)
  case (Suc i)
  define p where "p = d div 2 ^ Suc i"
  define b where "b = d div 2 ^ i mod 2"
  define R where "R = 2 * (p mod v) + b"
  have b: "b \<le> 1" by (simp add: b_def)
  have half: "d div 2 ^ i = 2 * p + b"
    unfolding p_def b_def using mult_div_mod_eq [of 2 "d div 2 ^ i"] by (simp add: div_mult2_eq [symmetric] mult.commute)
  have "R \<le> d div 2 ^ i" using mod_less_eq_dividend [of p v] by (simp add: R_def half)
  also have "\<dots> \<le> d" by simp
  finally have R: "R < 2 ^ 31" using assms(1) by simp
  have i: "i < 32" "i \<le> 32" using Suc.prems by simp_all
  have cmp: "sint (of_nat R :: int32) \<ge> sint (of_nat v :: int32) \<longleftrightarrow> v \<le> R"
    using R assms(3) by (simp only: sint_of_nat of_nat_le_iff)
  have r: "push_bit 1 (of_nat (p mod v)) OR signed_drop_bit i (of_nat d AND push_bit i 1) = (of_nat R :: int32)"
    unfolding division_bit [OF i(1) assms(1)] b_def [symmetric] shift_in [OF b] R_def ..
  have q: "push_bit 1 (of_nat (p div v)) OR (of_nat 1 :: int32) = of_nat (2 * (p div v) + 1)" by (rule shift_in) simp
  have q0: "push_bit 1 (of_nat (p div v)) = (of_nat (2 * (p div v)) :: int32)" by (simp add: push_bit_eq_mult mult.commute)
  note dd = div_double [OF assms(2) b R_def]
  show ?case
  proof (cases "v \<le> R")
    case True
    then have "of_nat R - of_nat v = (of_nat (R - v) :: int32)" by simp
    then show ?thesis
      using Suc.IH [OF i(2)] True dd q r cmp
      by (simp only: division_loop.simps Let_def p_def [symmetric] half bitSub_eq if_True of_bool_eq of_nat_1)
  next
    case False
    then show ?thesis
      using Suc.IH [OF i(2)] dd q0 r cmp
      by (simp only: division_loop.simps Let_def p_def [symmetric] half if_False of_bool_eq add_0_right)
  qed
qed simp

lemma xor_sign: "sint (a XOR b) < 0 \<longleftrightarrow> (sint a < 0) \<noteq> (sint b < 0)" for a b :: int32
proof -
  have "sint w < 0 \<longleftrightarrow> bit w 31" for w :: int32
    using bit_last_iff [of w] by simp
  then show ?thesis by (simp only: bit_xor_iff)
qed

lemma sdiv_abs: "x sdiv y = (if (x < 0) \<noteq> (y < 0) then - (\<bar>x\<bar> div \<bar>y\<bar>) else \<bar>x\<bar> div \<bar>y\<bar>)" for x y :: int
  by (cases "x = 0"; cases "y = 0") (auto simp: signed_divide_int_def sgn_if)

lemma division_defined:
  assumes "divisor \<noteq> 0" "sint dividend \<noteq> - (2 ^ 31)" "sint divisor \<noteq> - (2 ^ 31)"
  shows "\<exists>q. division dividend divisor = Some q \<and> sint q = sint dividend sdiv sint divisor"
proof -
  define d where "d = nat \<bar>sint dividend\<bar>"
  define v where "v = nat \<bar>sint divisor\<bar>"
  have d: "d < 2 ^ 31" "int d = \<bar>sint dividend\<bar>" and v: "v < 2 ^ 31" "int v = \<bar>sint divisor\<bar>"
    using sint_ge [of dividend] sint_lt [of dividend] sint_ge [of divisor] sint_lt [of divisor] assms(2,3)
    by (auto simp: d_def v_def)
  have "sint divisor \<noteq> 0" using assms(1) by (simp only: signed_eq_0_iff not_False_eq_True)
  then have v0: "0 < v" by (simp add: v_def)
  obtain x y where x: "bitAbs dividend = Some x" "sint x = int d" and y: "bitAbs divisor = Some y" "sint y = int v"
    using bitAbs_eq [OF assms(2)] bitAbs_eq [OF assms(3)] d(2) v(2) by metis
  have words: "x = of_nat d" "y = of_nat v"
    using x(2) y(2) sint_of_nat [OF d(1)] sint_of_nat [OF v(1)] by (metis signed_word_eqI)+
  define q where "q = d div v"
  have q: "q < 2 ^ 31" unfolding q_def using order.strict_trans1 [OF div_le_dividend d(1)] .
  have "d div 2 ^ 32 = 0" using d(1) by simp
  then have loop: "division_loop x y 32 0 0 = of_nat q"
    using division_loop_eq [OF d(1) v0 v(1), of 32] by (simp add: words q_def)
  have val: "sint dividend sdiv sint divisor = (if (sint dividend < 0) \<noteq> (sint divisor < 0) then - int q else int q)"
    by (simp add: sdiv_abs d(2) [symmetric] v(2) [symmetric] q_def zdiv_int)
  have neg: "sint (- of_nat q :: int32) = - int q" using sint_neg_range [of "of_nat q"] sint_of_nat [OF q] by simp
  have "division dividend divisor = Some (if (sint dividend < 0) \<noteq> (sint divisor < 0) then - of_nat q else of_nat q)"
    using assms(1) x(1) y(1) loop by (simp add: division_def xor_sign bitSub_eq)
  then show ?thesis using val neg sint_of_nat [OF q] by auto
qed

section \<open>Properties\<close>

text \<open>
  Addition, subtraction and multiplication compute, for all pairs of 32-bit numbers, the sum,
  the difference and the product modulo 2^32; no pair makes \<open>bitAdd\<close> recurse for ever.
\<close>

theorem arithmetic_wraps:
  "addition a b = a + b \<and> subtraction a b = a - b \<and> multiplication a b = a * b"
  by (simp add: addition_def subtraction_def bitAdd_eq NOT_plus_one multiplication_eq)

text \<open>
  Division rounds towards zero, as the language's own operator does, and yields 0 for the
  divisor 0. Its only undefined cases are those in which one operand is the smallest number.
\<close>

theorem division_truncates:
  "division dividend divisor =
     (if divisor = 0 then Some 0
      else if sint dividend = - (2 ^ 31) \<or> sint divisor = - (2 ^ 31) then None
      else Some (of_int (sint dividend sdiv sint divisor)))"
proof (cases "divisor = 0 \<or> sint dividend = - (2 ^ 31) \<or> sint divisor = - (2 ^ 31)")
  case True
  then show ?thesis
  proof (elim disjE)
    assume a: "sint divisor = - (2 ^ 31)"
    show ?thesis by (cases "bitAbs dividend") (use a in \<open>auto simp: division_def bitAbs_undefined\<close>)
  qed (auto simp: division_def bitAbs_undefined)
next
  case False
  then obtain q where "division dividend divisor = Some q" "sint q = sint dividend sdiv sint divisor"
    using division_defined by blast
  then show ?thesis using False by (metis of_int_sint scast_id)
qed

end
