(* ===== verification/NU_Divisor.thy ===== *)
theory NU_Divisor
  imports Foo_Prelude "HOL-Library.Signed_Division" "HOL-Library.Monad_Syntax"
begin

text \<open>
  The common divisors of \<open>src/numeric/source/divisor.cpp\<close>, by Euclid's and by Stein's method. An
  \<open>std::int32_t\<close> is an integer; \<open>std::abs\<close> of the smallest one is undefined (\<^term>\<open>None\<close>), no other
  operation of the component leaves the range. \<open>%\<close> and \<open>/\<close> are the operators of the truncated
  division. A \<open>std::set\<close> is a set. The loop bound \<open>i <= std::sqrt(gcd)\<close> is computed in \<open>double\<close>, where the
  square root of a 32-bit number is at most half a unit in the last place off and therefore on the
  same side of every integer: it is \<open>i * i \<le> gcd\<close>.
\<close>

section \<open>Operations\<close>

definition abs32 :: "int \<Rightarrow> int option" where
  "abs32 a = (if a = - (2 ^ 31) then None else Some \<bar>a\<bar>)"

function divisors_loop :: "int \<Rightarrow> int \<Rightarrow> int set \<Rightarrow> int set" where
  "divisors_loop g i divisors =
     (if i * i \<le> g
      then divisors_loop g (i + 1)
             (if g smod i = 0
              then (if g sdiv i \<noteq> i then insert (g sdiv i) (insert i divisors) else insert i divisors)
              else divisors)
      else divisors)"
  by pat_completeness auto
termination
proof (relation "measure (\<lambda>(g, i, divisors). nat (g + 1 - i))", goal_cases)
  case (2 g i divisors)
  then have "i \<le> g" using self_le_power [of i 2] by (smt (verit) mult_le_cancel_left1)
  then show ?case by simp
qed simp

declare divisors_loop.simps [simp del]

definition getAllDivisors :: "int \<Rightarrow> int set" where
  "getAllDivisors g = divisors_loop g 1 {}"

function euclidean_loop :: "int \<Rightarrow> int \<Rightarrow> int" where
  "euclidean_loop x y = (if y \<noteq> 0 then euclidean_loop y (x smod y) else x)"
  by pat_completeness auto
termination
proof (relation "measure (\<lambda>(x, y). nat \<bar>y\<bar>)", goal_cases)
  case (2 x y)
  then have "\<bar>x smod y\<bar> < \<bar>y\<bar>" using smod_int_range [of y x] by auto
  then show ?case by simp
qed simp

declare euclidean_loop.simps [simp del]

definition euclidean :: "int \<Rightarrow> int \<Rightarrow> int set option" where
  "euclidean a b = do { x \<leftarrow> abs32 a; y \<leftarrow> abs32 b; Some (getAllDivisors (euclidean_loop x y)) }"

definition isEven :: "int \<Rightarrow> bool" where
  "isEven n \<longleftrightarrow> and n 1 = 0"

partial_function (option) halve_both :: "int \<Rightarrow> int \<Rightarrow> nat \<Rightarrow> (int \<times> int \<times> nat) option" where
  "halve_both x y c =
     (if isEven x \<and> isEven y then halve_both (drop_bit 1 x) (drop_bit 1 y) (c + 1) else Some (x, y, c))"

partial_function (option) halve :: "int \<Rightarrow> int option" where
  "halve a = (if isEven a then halve (drop_bit 1 a) else Some a)"

partial_function (option) steinRecursive :: "int \<Rightarrow> int \<Rightarrow> int option" where
  "steinRecursive a b =
     (if a = 0 then Some b
      else if b = 0 then Some a
      else do {
        a' \<leftarrow> halve a;
        if a' < b then steinRecursive (drop_bit 1 (b - a')) a'
        else steinRecursive (drop_bit 1 (a' - b)) b
      })"

definition stein :: "int \<Rightarrow> int \<Rightarrow> int set option" where
  "stein a b =
     do {
       x0 \<leftarrow> abs32 a;
       y0 \<leftarrow> abs32 b;
       (x, y, c) \<leftarrow> halve_both x0 y0 0;
       g \<leftarrow> (if isEven x then steinRecursive (drop_bit 1 x) y else steinRecursive y x);
       Some (getAllDivisors (push_bit c g))
     }"

lemmas [code] = halve_both.simps halve.simps steinRecursive.simps

section \<open>Divisors\<close>

lemma sdiv_smod_pos: "0 \<le> g \<Longrightarrow> 0 < i \<Longrightarrow> g sdiv i = g div i \<and> g smod i = g mod i" for g i :: int
  by (cases "g = 0") (auto simp: signed_divide_int_def signed_modulo_int_def)

lemma divisors_loop_eq:
  assumes "0 < g" "0 < i"
  shows "divisors_loop g i D = D \<union> {d. 0 < d \<and> d dvd g \<and> (i \<le> d \<and> d * d \<le> g \<or> i \<le> g div d \<and> g div d * (g div d) \<le> g)}"
  using assms
proof (induction g i D rule: divisors_loop.induct)
  case (1 g i D)
  let ?S = "\<lambda>i. {d. 0 < d \<and> d dvd g \<and> (i \<le> d \<and> d * d \<le> g \<or> i \<le> g div d \<and> g div d * (g div d) \<le> g)}"
  show ?case
  proof (cases "i * i \<le> g")
    case False
    have "\<not> (i \<le> d \<and> d * d \<le> g)" for d
      using False "1.prems"(2) by (smt (verit) mult_mono)
    then show ?thesis using False by (subst divisors_loop.simps) auto
  next
    case True
    define D' where "D' = (if g smod i = 0 then (if g sdiv i \<noteq> i then insert (g sdiv i) (insert i D) else insert i D) else D)"
    have "?S i = ?S (i + 1) \<union> {d. 0 < d \<and> d dvd g \<and> (d = i \<or> g div d = i)}"
      using True by (auto simp: order_le_less)
    moreover have "D' = D \<union> {d. 0 < d \<and> d dvd g \<and> (d = i \<or> g div d = i)}"
    proof (cases "i dvd g")
      case True
      have "0 < d \<and> d dvd g \<and> g div d = i \<longleftrightarrow> d = g div i" for d
        using True "1.prems" by (auto simp: dvd_def pos_imp_zdiv_pos_iff zero_less_mult_iff)
      then have "{d. 0 < d \<and> d dvd g \<and> (d = i \<or> g div d = i)} = {i, g div i}" using True "1.prems" by auto
      then show ?thesis using True "1.prems" sdiv_smod_pos [of g i] by (auto simp: D'_def)
    next
      case False
      have "\<not> (0 < d \<and> d dvd g \<and> (d = i \<or> g div d = i))" for d using False by (metis dvd_div_mult_self dvd_triv_left dvd_triv_right)
      then show ?thesis using False "1.prems" sdiv_smod_pos [of g i] by (auto simp: D'_def dvd_eq_mod_eq_0)
    qed
    moreover have "divisors_loop g i D = divisors_loop g (i + 1) D'"
      using True by (subst divisors_loop.simps) (simp add: D'_def)
    moreover have "divisors_loop g (i + 1) D' = D' \<union> ?S (i + 1)"
      unfolding D'_def by (rule "1.IH" [OF True]) (use "1.prems" in auto)
    ultimately show ?thesis by auto
  qed
qed

lemma getAllDivisors_eq:
  assumes "0 < g"
  shows "getAllDivisors g = {d. 0 < d \<and> d dvd g}"
proof -
  have "d * d \<le> g \<or> g div d * (g div d) \<le> g" if "0 < d" "d dvd g" for d
  proof (rule ccontr)
    assume "\<not> ?thesis"
    then have "g < d * d" "g < g div d * (g div d)" by auto
    moreover have "d * (g div d) = g" using that(2) by simp
    ultimately have "(d * (g div d)) * (d * (g div d)) < (d * d) * (g div d * (g div d))"
      using assms by (smt (verit) mult_strict_mono)
    then show False by (simp add: ac_simps)
  qed
  moreover have "1 \<le> g div d" if "0 < d" "d dvd g" for d
    using that assms by (simp add: int_one_le_iff_zero_less pos_imp_zdiv_pos_iff zdvd_imp_le)
  ultimately show ?thesis
    using divisors_loop_eq [OF assms, of 1 "{}"] by (fastforce simp: getAllDivisors_def)
qed

section \<open>Greatest common divisors\<close>

lemma euclidean_loop_eq: "0 \<le> x \<Longrightarrow> 0 \<le> y \<Longrightarrow> euclidean_loop x y = gcd x y"
proof (induction x y rule: euclidean_loop.induct)
  case (1 x y)
  show ?case
  proof (cases "y = 0")
    case True
    then show ?thesis using "1.prems" by (subst euclidean_loop.simps) simp
  next
    case False
    then have "x smod y = x mod y" using "1.prems" sdiv_smod_pos [of x y] by simp
    then have "euclidean_loop y (x mod y) = gcd y (x mod y)" using "1.IH" [OF False] "1.prems" False by simp
    then show ?thesis using False \<open>x smod y = x mod y\<close>
      by (subst euclidean_loop.simps) (simp add: gcd_red_int [symmetric])
  qed
qed

lemma isEven_iff: "isEven n \<longleftrightarrow> even n"
  by (simp add: isEven_def and_one_eq mod_2_eq_odd)

lemma half: "drop_bit (Suc 0) n = n div 2" for n :: int
  by (simp add: drop_bit_eq_div)

lemma gcd_half_odd: "odd b \<Longrightarrow> even a \<Longrightarrow> gcd (a div 2) b = gcd a b" for a b :: int
proof -
  assume "odd b" "even a"
  then obtain k where k: "a = 2 * k" by (auto elim: evenE)
  have "coprime 2 b" using \<open>odd b\<close> by simp
  then show ?thesis by (simp add: k gcd_mult_left_left_cancel coprime_commute)
qed

lemma halve_spec: "0 < a \<Longrightarrow> \<exists>a'. halve a = Some a' \<and> odd a' \<and> 0 < a' \<and> a' \<le> a \<and> (\<forall>b. odd b \<longrightarrow> gcd a' b = gcd a b)"
proof (induction "nat a" arbitrary: a rule: less_induct)
  case less
  show ?case
  proof (cases "even a")
    case False
    then have "halve a = Some a" by (subst halve.simps) (simp add: isEven_iff)
    then show ?thesis using False less.prems by auto
  next
    case True
    then have pos: "0 < a div 2" "a div 2 < a" using less.prems by auto
    obtain a' where a': "halve (a div 2) = Some a'" "odd a'" "0 < a'" "a' \<le> a div 2"
      "\<forall>b. odd b \<longrightarrow> gcd a' b = gcd (a div 2) b"
      using less.hyps [of "a div 2"] pos by auto
    have "halve a = halve (a div 2)" using True by (subst halve.simps) (simp add: isEven_iff half)
    then show ?thesis using a' pos gcd_half_odd True by fastforce
  qed
qed

lemma steinRecursive_eq:
  "0 \<le> a \<Longrightarrow> 0 < b \<Longrightarrow> odd b \<Longrightarrow> steinRecursive a b = Some (gcd a b)"
proof (induction "nat (a + b)" arbitrary: a b rule: less_induct)
  case less
  show ?case
  proof (cases "a = 0")
    case True
    then show ?thesis using less.prems by (subst steinRecursive.simps) simp
  next
    case False
    obtain a' where a': "halve a = Some a'" "odd a'" "0 < a'" "a' \<le> a" "gcd a' b = gcd a b"
      using halve_spec [of a] less.prems False by auto
    have unf: "steinRecursive a b =
        (if a' < b then steinRecursive ((b - a') div 2) a' else steinRecursive ((a' - b) div 2) b)"
      by (subst steinRecursive.simps) (use False less.prems a'(1) in \<open>simp add: half\<close>)
    show ?thesis
    proof (cases "a' < b")
      case True
      have "steinRecursive ((b - a') div 2) a' = Some (gcd ((b - a') div 2) a')"
        by (rule less.hyps) (use True a' less.prems in auto)
      also have "gcd ((b - a') div 2) a' = gcd (b - a') a'" using a'(2) less.prems(3) by (intro gcd_half_odd) auto
      also have "\<dots> = gcd a b" using a'(5) by (metis gcd.commute gcd_diff1)
      finally show ?thesis using True unf by simp
    next
      case F: False
      have "steinRecursive ((a' - b) div 2) b = Some (gcd ((a' - b) div 2) b)"
        by (rule less.hyps) (use F a' less.prems in auto)
      also have "gcd ((a' - b) div 2) b = gcd (a' - b) b" using a'(2) less.prems(3) by (intro gcd_half_odd) auto
      also have "\<dots> = gcd a b" using a'(5) by (metis gcd_diff1)
      finally show ?thesis using F unf by simp
    qed
  qed
qed

lemma halve_both_spec:
  assumes "0 \<le> x" "0 \<le> y" "x \<noteq> 0 \<or> y \<noteq> 0"
  shows "\<exists>x' y' c'. halve_both x y c = Some (x', y', c + c') \<and> 0 \<le> x' \<and> 0 \<le> y' \<and> (odd x' \<or> odd y')
    \<and> x = x' * 2 ^ c' \<and> y = y' * 2 ^ c'"
  using assms
proof (induction "nat (x + y)" arbitrary: x y c rule: less_induct)
  case less
  show ?case
  proof (cases "even x \<and> even y")
    case False
    then have "halve_both x y c = Some (x, y, c + 0)" by (subst halve_both.simps) (auto simp: isEven_iff)
    then show ?thesis using False less.prems by (intro exI [of _ x] exI [of _ y] exI [of _ 0]) auto
  next
    case True
    have unf: "halve_both x y c = halve_both (x div 2) (y div 2) (c + 1)"
      using True by (subst halve_both.simps) (simp add: isEven_iff half)
    have "nat (x div 2 + y div 2) < nat (x + y)" "x div 2 \<noteq> 0 \<or> y div 2 \<noteq> 0" using True less.prems by auto
    then obtain x' y' c' where "halve_both (x div 2) (y div 2) (c + 1) = Some (x', y', c + 1 + c')" "0 \<le> x'" "0 \<le> y'"
      "odd x' \<or> odd y'" "x div 2 = x' * 2 ^ c'" "y div 2 = y' * 2 ^ c'"
      using less.hyps [of "x div 2" "y div 2" "c + 1"] less.prems by auto
    moreover have "x = 2 * (x div 2)" "y = 2 * (y div 2)" using True by auto
    ultimately show ?thesis
      using unf by (intro exI [of _ x'] exI [of _ y'] exI [of _ "Suc c'"]) (auto simp: mult.left_commute)
  qed
qed

lemma stein_gcd:
  assumes "0 \<le> x" "0 \<le> y" "odd x \<or> odd y"
  shows "(if isEven x then steinRecursive (drop_bit 1 x) y else steinRecursive y x) = Some (gcd x y)"
proof (cases "even x")
  case True
  then have "odd y" using assms(3) by simp
  then have "0 < y" using assms(2) by (cases "y = 0") auto
  then have "steinRecursive (x div 2) y = Some (gcd (x div 2) y)"
    using \<open>odd y\<close> assms(1) by (intro steinRecursive_eq) auto
  then show ?thesis using True \<open>odd y\<close> by (simp add: isEven_iff half gcd_half_odd)
next
  case False
  then have "0 < x" using assms(1) by (cases "x = 0") auto
  then show ?thesis using False steinRecursive_eq [of y x] assms(2) by (simp add: isEven_iff gcd.commute)
qed

text \<open>
  Euclid's and Stein's method return the same set for every pair of 32-bit numbers that is not
  the pair of zeros and has no smallest number: all the positive common divisors of the two.
\<close>

theorem divisors_agree:
  assumes "\<bar>a\<bar> < 2 ^ 31" "\<bar>b\<bar> < 2 ^ 31" "a \<noteq> 0 \<or> b \<noteq> 0"
  shows "euclidean a b = Some {d. 0 < d \<and> d dvd a \<and> d dvd b} \<and> stein a b = euclidean a b"
proof -
  have abs: "abs32 a = Some \<bar>a\<bar>" "abs32 b = Some \<bar>b\<bar>" using assms(1,2) by (auto simp: abs32_def)
  have "0 < gcd a b" using assms(3) by (simp add: gcd_pos_int)
  then have divs: "getAllDivisors (gcd a b) = {d. 0 < d \<and> d dvd a \<and> d dvd b}"
    by (auto simp: getAllDivisors_eq)
  have e: "euclidean a b = Some {d. 0 < d \<and> d dvd a \<and> d dvd b}"
    using divs by (simp add: euclidean_def abs euclidean_loop_eq)
  obtain x y c where h: "halve_both \<bar>a\<bar> \<bar>b\<bar> 0 = Some (x, y, 0 + c)" "0 \<le> x" "0 \<le> y" "odd x \<or> odd y"
    "\<bar>a\<bar> = x * 2 ^ c" "\<bar>b\<bar> = y * 2 ^ c"
    using halve_both_spec [of "\<bar>a\<bar>" "\<bar>b\<bar>" 0] assms(3) by auto
  have "gcd a b = gcd \<bar>a\<bar> \<bar>b\<bar>" by simp
  also have "\<dots> = gcd (2 ^ c * x) (2 ^ c * y)" by (simp only: h(5,6) mult.commute)
  also have "\<dots> = push_bit c (gcd x y)" using gcd_mult_distrib_int [of "2 ^ c" x y] by (simp add: push_bit_eq_mult mult.commute)
  finally have "push_bit c (gcd x y) = gcd a b" ..
  then have "stein a b = Some (getAllDivisors (gcd a b))"
    using stein_gcd [OF h(2-4)] h(1) by (simp add: stein_def abs)
  then show ?thesis using e divs by simp
qed

theorem divisors_agree_witness:
  "euclidean 12 (- 18) = Some {d. 0 < d \<and> d dvd 12 \<and> d dvd - 18} \<and> stein 12 (- 18) = euclidean 12 (- 18)"
  by (rule divisors_agree) simp_all

text \<open>
  For two zeros Stein's method never returns: both numbers stay even for ever. Euclid's method
  returns the empty set.
\<close>

theorem stein_zero_diverges: "stein 0 0 = None \<and> euclidean 0 0 = Some {}"
proof
  have "x \<noteq> 0 \<or> y \<noteq> 0" if "halve_both x y c = Some r" for x y c r
  proof (rule halve_both.raw_induct [where P = "\<lambda>x y c r. x \<noteq> 0 \<or> y \<noteq> 0" and xa = "((x, y), c)" and ya = r, unfolded prod.case])
    fix f and x y :: int and c :: nat and r :: "int \<times> int \<times> nat"
    assume IH: "\<And>x y c r. f x y c = Some r \<Longrightarrow> x \<noteq> 0 \<or> y \<noteq> 0"
      and eq: "(if isEven x \<and> isEven y then f (drop_bit 1 x) (drop_bit 1 y) (c + 1) else Some (x, y, c)) = Some r"
    show "x \<noteq> 0 \<or> y \<noteq> 0"
    proof (cases "isEven x \<and> isEven y")
      case True
      then show ?thesis using eq IH [of "drop_bit 1 x" "drop_bit 1 y" "c + 1" r] by auto
    next
      case False
      then show ?thesis by (auto simp: isEven_iff)
    qed
  qed (rule that)
  then have "halve_both 0 0 0 = None" by (metis not_None_eq)
  then show "stein 0 0 = None" by (simp add: stein_def abs32_def)
  have "getAllDivisors 0 = {}" unfolding getAllDivisors_def by (subst divisors_loop.simps) simp
  then show "euclidean 0 0 = Some {}" by (simp add: euclidean_def abs32_def euclidean_loop_eq)
qed

end
