(* ===== verification/NU_Prime.thy ===== *)
theory NU_Prime
  imports Foo_Prelude "HOL-Library.Monad_Syntax"
begin

text \<open>
  The prime number sieves of \<open>src/numeric/source/prime.cpp\<close>: the sieve of Eratosthenes and Euler's
  linear sieve. A \<open>std::uint32_t\<close> is a natural number, its sums and products wrap at \<open>2 ^ 32\<close>; the
  vector of flags is a list, and an access outside of it is \<^term>\<open>None\<close>.
\<close>

section \<open>Operations\<close>

definition flags_init :: "nat \<Rightarrow> bool list option" where
  "flags_init limit =
     do { isPrime \<leftarrow> wr (replicate ((limit + 1) mod 2 ^ 32) True) 0 False; wr isPrime 1 False }"

text \<open>The inner loop of Eratosthenes, from \<open>j\<close> in steps of \<open>i\<close>.\<close>

partial_function (option) mark :: "nat \<Rightarrow> nat \<Rightarrow> nat \<Rightarrow> bool list \<Rightarrow> bool list option" where
  "mark limit i j isPrime =
     (if j \<le> limit
      then do { isPrime' \<leftarrow> wr isPrime j False; mark limit i ((j + i) mod 2 ^ 32) isPrime' }
      else Some isPrime)"

definition eratosthenes_step :: "nat \<Rightarrow> nat \<Rightarrow> bool list \<times> nat list \<Rightarrow> (bool list \<times> nat list) option" where
  "eratosthenes_step limit i st =
     do {
       p \<leftarrow> rd (fst st) i;
       if p then do {
         isPrime \<leftarrow> mark limit i (i * i mod 2 ^ 32) (fst st);
         Some (isPrime, snd st @ [i])
       }
       else Some st
     }"

fun run_for :: "(nat \<Rightarrow> 's \<Rightarrow> 's option) \<Rightarrow> nat list \<Rightarrow> 's \<Rightarrow> 's option" where
  "run_for f [] s = Some s"
| "run_for f (i # is) s = do { s' \<leftarrow> f i s; run_for f is s' }"

definition eratosthenes :: "nat \<Rightarrow> nat list option" where
  "eratosthenes limit =
     do {
       isPrime \<leftarrow> flags_init limit;
       st \<leftarrow> run_for (eratosthenes_step limit) [2..<limit + 1] (isPrime, []);
       Some (snd st)
     }"

text \<open>The inner loop of Euler's sieve over the primes found so far.\<close>

fun euler_mark :: "nat \<Rightarrow> nat \<Rightarrow> nat list \<Rightarrow> bool list \<Rightarrow> bool list option" where
  "euler_mark limit i [] isPrime = Some isPrime"
| "euler_mark limit i (p # ps) isPrime =
     (if i * p mod 2 ^ 32 \<le> limit then
        do {
          isPrime' \<leftarrow> wr isPrime (i * p mod 2 ^ 32) False;
          if i mod p = 0 then Some isPrime' else euler_mark limit i ps isPrime'
        }
      else Some isPrime)"

definition euler_step :: "nat \<Rightarrow> nat \<Rightarrow> bool list \<times> nat list \<Rightarrow> (bool list \<times> nat list) option" where
  "euler_step limit i st =
     do {
       p \<leftarrow> rd (fst st) i;
       let storage = (if p then snd st @ [i] else snd st);
       isPrime \<leftarrow> euler_mark limit i storage (fst st);
       Some (isPrime, storage)
     }"

definition euler :: "nat \<Rightarrow> nat list option" where
  "euler limit =
     do {
       isPrime \<leftarrow> flags_init limit;
       st \<leftarrow> run_for (euler_step limit) [2..<limit + 1] (isPrime, []);
       Some (snd st)
     }"

lemmas [code] = mark.simps

section \<open>Prime numbers\<close>

definition is_prime :: "nat \<Rightarrow> bool" where
  "is_prime p \<longleftrightarrow> 1 < p \<and> (\<forall>d. d dvd p \<longrightarrow> d = 1 \<or> d = p)"

definition primes_upto :: "nat \<Rightarrow> nat list" where
  "primes_upto n = filter is_prime [0..<n + 1]"

definition lpf :: "nat \<Rightarrow> nat" where
  "lpf n = (LEAST d. 1 < d \<and> d dvd n)"

lemma lpf:
  assumes "1 < n"
  shows "1 < lpf n" "lpf n dvd n" "\<And>d. 1 < d \<Longrightarrow> d dvd n \<Longrightarrow> lpf n \<le> d"
proof -
  have "1 < lpf n \<and> lpf n dvd n" unfolding lpf_def by (rule LeastI [of _ n]) (use assms in simp)
  then show "1 < lpf n" "lpf n dvd n" by simp_all
  show "\<And>d. 1 < d \<Longrightarrow> d dvd n \<Longrightarrow> lpf n \<le> d" unfolding lpf_def by (rule Least_le) simp
qed

lemma lpf_prime: "1 < n \<Longrightarrow> is_prime (lpf n)"
proof -
  assume n: "1 < n"
  have "d = 1 \<or> d = lpf n" if "d dvd lpf n" for d
  proof (cases "1 < d")
    case True
    have "lpf n \<le> d" using lpf(3) [OF n True] that lpf(2) [OF n] dvd_trans by blast
    moreover have "d \<le> lpf n" using that lpf(1) [OF n] by (intro dvd_imp_le) auto
    ultimately show ?thesis by simp
  next
    case False
    then show ?thesis using that lpf(1) [OF n] by (cases "d = 0") auto
  qed
  then show ?thesis using lpf(1) [OF n] by (auto simp: is_prime_def)
qed

lemma is_prime_lpf: "1 < n \<Longrightarrow> is_prime n \<longleftrightarrow> lpf n = n"
  using lpf lpf_prime by (metis is_prime_def less_irrefl_nat)

lemma composite_square: "1 < n \<Longrightarrow> \<not> is_prime n \<Longrightarrow> lpf n * lpf n \<le> n"
proof -
  assume n: "1 < n" and "\<not> is_prime n"
  then have ne: "lpf n \<noteq> n" by (simp add: is_prime_lpf)
  obtain k where k: "n = lpf n * k" using lpf(2) [OF n] by (auto simp: dvd_def)
  then have "1 < k" using n ne by (cases k; cases "k = 1") auto
  then have "lpf n \<le> k" using lpf(3) [OF n, of k] k by (metis dvd_triv_right)
  then show ?thesis using k by (metis mult_le_mono2)
qed

lemma primes_upto_Suc: "primes_upto (Suc n) = primes_upto n @ (if is_prime (Suc n) then [Suc n] else [])"
  by (simp add: primes_upto_def)

lemma primes_upto_1: "primes_upto 1 = []"
  by (simp add: primes_upto_def is_prime_def)

text \<open>A rule for the counting loops: an invariant indexed by the counter.\<close>

lemma run_for_invariant:
  assumes "I a s" "\<And>i s. a \<le> i \<Longrightarrow> i < b \<Longrightarrow> I i s \<Longrightarrow> \<exists>s'. f i s = Some s' \<and> I (i + 1) s'" "a \<le> b"
  shows "\<exists>s'. run_for f [a..<b] s = Some s' \<and> I b s'"
  using assms
proof (induction "b - a" arbitrary: a s)
  case (Suc n)
  then have ab: "a < b" by simp
  obtain t where t: "f a s = Some t" "I (a + 1) t" using Suc.prems(2) [OF order_refl ab Suc.prems(1)] by blast
  have "\<exists>s'. run_for f [a + 1..<b] t = Some s' \<and> I b s'"
    by (rule Suc.hyps(1)) (use Suc.hyps(2) Suc.prems(2) t(2) ab in auto)
  then show ?case using t(1) ab by (simp add: upt_conv_Cons)
qed auto

section \<open>The sieve of Eratosthenes\<close>

lemma mark_correct:
  assumes "limit < 65536" "0 < i" "i \<le> limit" "length fl = limit + 1"
  shows "\<exists>fl'. mark limit i j fl = Some fl' \<and> length fl' = limit + 1 \<and>
           (\<forall>k\<le>limit. fl' ! k \<longleftrightarrow> fl ! k \<and> \<not> (j \<le> k \<and> i dvd k - j))"
  using assms
proof (induction "limit + 1 - j" arbitrary: j fl rule: less_induct)
  case less
  show ?case
  proof (cases "j \<le> limit")
    case True
    have nowrap: "(j + i) mod 2 ^ 32 = j + i" using True less.prems by (intro mod_less) simp
    have "\<exists>fl'. mark limit i (j + i) (fl[j := False]) = Some fl' \<and> length fl' = limit + 1 \<and>
           (\<forall>k\<le>limit. fl' ! k \<longleftrightarrow> fl[j := False] ! k \<and> \<not> (j + i \<le> k \<and> i dvd k - (j + i)))"
      by (rule less.hyps) (use True less.prems in auto)
    then obtain fl' where fl': "mark limit i (j + i) (fl[j := False]) = Some fl'" "length fl' = limit + 1"
      "\<And>k. k \<le> limit \<Longrightarrow> fl' ! k \<longleftrightarrow> fl[j := False] ! k \<and> \<not> (j + i \<le> k \<and> i dvd k - (j + i))" by blast
    have eq: "mark limit i j fl = Some fl'"
      by (subst mark.simps, subst if_P [OF True]) (use True less.prems(4) nowrap fl'(1) in simp)
    have split: "j \<le> k \<and> i dvd k - j \<longleftrightarrow> k = j \<or> (j + i \<le> k \<and> i dvd k - (j + i))" for k
    proof (cases "j + i \<le> k")
      case True
      then have "k - j = (k - (j + i)) + i" by simp
      then show ?thesis using True less.prems(2) by (metis add_leD1 dvd_add_left_iff dvd_refl le_antisym
          le_add1 add.commute add_cancel_left_right not_gr_zero)
    next
      case False
      then have "\<not> i dvd k - j" if "j < k" using that nat_dvd_not_less [of "k - j" i] by simp
      then show ?thesis using False by (cases "j < k") auto
    qed
    have upd: "fl[j := False] ! k \<longleftrightarrow> fl ! k \<and> k \<noteq> j" if "k \<le> limit" for k
      using that less.prems(4) by (cases "k = j") auto
    have "\<forall>k\<le>limit. fl' ! k \<longleftrightarrow> fl ! k \<and> \<not> (j \<le> k \<and> i dvd k - j)"
      unfolding split using fl'(3) upd by auto
    then show ?thesis using eq fl'(2) by blast
  next
    case False
    have "mark limit i j fl = Some fl" by (subst mark.simps, subst if_not_P [OF False]) simp
    then show ?thesis using False less.prems(4) by auto
  qed
qed

text \<open>What the flags say before the outer loop visits \<open>i\<close>.\<close>

definition erat_inv :: "nat \<Rightarrow> nat \<Rightarrow> bool list \<times> nat list \<Rightarrow> bool" where
  "erat_inv limit i st \<longleftrightarrow>
     length (fst st) = limit + 1 \<and> snd st = primes_upto (i - 1) \<and>
     (\<forall>k. 2 \<le> k \<longrightarrow> k \<le> limit \<longrightarrow> (fst st ! k \<longleftrightarrow> \<not> (\<exists>p<i. is_prime p \<and> p * p \<le> k \<and> p dvd k)))"

lemma sieved_prime:
  assumes "2 \<le> i"
  shows "\<not> (\<exists>p<i. is_prime p \<and> p * p \<le> i \<and> p dvd i) \<longleftrightarrow> is_prime i"
proof
  assume none: "\<not> (\<exists>p<i. is_prime p \<and> p * p \<le> i \<and> p dvd i)"
  show "is_prime i"
  proof (rule ccontr)
    assume c: "\<not> is_prime i"
    have "lpf i \<noteq> i" using c assms by (simp add: is_prime_lpf)
    moreover have "lpf i \<le> i" using lpf(2) [of i] assms by (intro dvd_imp_le) auto
    ultimately have "lpf i < i" by simp
    then show False using none c assms composite_square [of i] lpf_prime [of i] lpf(2) [of i] by auto
  qed
next
  assume "is_prime i"
  then show "\<not> (\<exists>p<i. is_prime p \<and> p * p \<le> i \<and> p dvd i)" unfolding is_prime_def by (metis nat_neq_iff)
qed

lemma dvd_from_square: "(i * i \<le> k \<and> i dvd k - i * i) \<longleftrightarrow> (i * i \<le> k \<and> i dvd k)" for i k :: nat
  using dvd_diff_nat dvd_diffD by (metis dvd_triv_left)

lemma erat_step:
  assumes "limit < 65536" "2 \<le> i" "i < limit + 1" "erat_inv limit i st"
  shows "\<exists>st'. eratosthenes_step limit i st = Some st' \<and> erat_inv limit (i + 1) st'"
proof -
  have len: "length (fst st) = limit + 1" and sto: "snd st = primes_upto (i - 1)"
    and fl: "\<And>k. 2 \<le> k \<Longrightarrow> k \<le> limit \<Longrightarrow> fst st ! k \<longleftrightarrow> \<not> (\<exists>p<i. is_prime p \<and> p * p \<le> k \<and> p dvd k)"
    using assms(4) by (auto simp: erat_inv_def)
  have here: "fst st ! i \<longleftrightarrow> is_prime i" using fl [of i] sieved_prime [OF assms(2)] assms by simp
  have rd: "rd (fst st) i = Some (fst st ! i)" using len assms(3) by (simp add: rd_def)
  have sto': "primes_upto i = primes_upto (i - 1) @ (if is_prime i then [i] else [])"
    using primes_upto_Suc [of "i - 1"] assms(2) by simp
  have step: "(\<exists>p<i + 1. is_prime p \<and> p * p \<le> k \<and> p dvd k) \<longleftrightarrow>
      (\<exists>p<i. is_prime p \<and> p * p \<le> k \<and> p dvd k) \<or> (is_prime i \<and> i * i \<le> k \<and> i dvd k)" for k
    by (auto simp: less_Suc_eq)
  show ?thesis
  proof (cases "is_prime i")
    case True
    have "i * i \<le> 65535 * 65535" using assms by (intro mult_le_mono) auto
    then have nowrap: "i * i mod 2 ^ 32 = i * i" by (intro mod_less) simp
    obtain fl' where fl': "mark limit i (i * i) (fst st) = Some fl'" "length fl' = limit + 1"
      "\<And>k. k \<le> limit \<Longrightarrow> fl' ! k \<longleftrightarrow> fst st ! k \<and> \<not> (i * i \<le> k \<and> i dvd k - i * i)"
      using mark_correct [of limit i "fst st" "i * i"] assms len by auto
    have "eratosthenes_step limit i st = Some (fl', snd st @ [i])"
      unfolding eratosthenes_step_def nowrap using True here rd fl'(1) by simp
    moreover have "erat_inv limit (i + 1) (fl', snd st @ [i])"
      unfolding erat_inv_def step using fl'(2,3) fl sto sto' True by (simp add: dvd_from_square)
    ultimately show ?thesis by blast
  next
    case False
    have "erat_inv limit (i + 1) st"
      unfolding erat_inv_def step using fl len sto sto' False by simp
    then show ?thesis using False here rd by (simp add: eratosthenes_step_def)
  qed
qed

lemma flags_init: "1 \<le> limit \<Longrightarrow> limit < 65536 \<Longrightarrow>
    flags_init limit = Some (((replicate (limit + 1) True)[0 := False])[1 := False])"
  by (simp add: flags_init_def)

lemma erat_init:
  "1 \<le> limit \<Longrightarrow> erat_inv limit 2 (((replicate (limit + 1) True)[0 := False])[1 := False], [])"
proof -
  have "\<not> is_prime p" if "p < 2" for p using that by (simp add: is_prime_def)
  then show ?thesis using primes_upto_1 by (auto simp: erat_inv_def nth_list_update nth_append simp del: replicate_Suc)
qed

lemma eratosthenes_correct: "1 \<le> limit \<Longrightarrow> limit < 65536 \<Longrightarrow> eratosthenes limit = Some (primes_upto limit)"
proof -
  assume l: "1 \<le> limit" "limit < 65536"
  let ?s = "((replicate (limit + 1) True)[0 := False])[1 := False]"
  have "\<exists>s'. run_for (eratosthenes_step limit) [2..<limit + 1] (?s, []) = Some s' \<and> erat_inv limit (limit + 1) s'"
    by (rule run_for_invariant [where I = "erat_inv limit"]) (use l erat_init erat_step in auto)
  then show ?thesis using l by (auto simp: eratosthenes_def flags_init erat_inv_def)
qed

section \<open>Euler's sieve\<close>

text \<open>The inner loop stops at the least prime factor of \<open>i\<close>, so it marks \<open>i * p\<close> for the primes up to it.\<close>

lemma euler_mark_correct:
  assumes "limit < 65536" "1 < i" "i \<le> limit" "length fl = limit + 1" "sorted_wrt (<) ps"
    "\<forall>p\<in>set ps. 1 < p \<and> p \<le> limit" "lpf i \<in> set ps"
  shows "\<exists>fl'. euler_mark limit i ps fl = Some fl' \<and> length fl' = limit + 1 \<and>
           (\<forall>k\<le>limit. fl' ! k \<longleftrightarrow> fl ! k \<and> \<not> (\<exists>p\<in>set ps. p \<le> lpf i \<and> k = i * p))"
  using assms
proof (induction ps arbitrary: fl)
  case (Cons p ps)
  have p: "1 < p" "p \<le> limit" and later: "\<And>q. q \<in> set ps \<Longrightarrow> p < q" using Cons.prems(5,6) by auto
  have "i * p \<le> 65535 * 65535" using Cons.prems p by (intro mult_le_mono) auto
  then have nowrap: "i * p mod 2 ^ 32 = i * p" by (intro mod_less) simp
  show ?case
  proof (cases "i * p \<le> limit")
    case le: True
    have upd: "fl[i * p := False] ! k \<longleftrightarrow> fl ! k \<and> k \<noteq> i * p" if "k \<le> limit" for k
      using that Cons.prems(4) le by (cases "k = i * p") auto
    show ?thesis
    proof (cases "p dvd i")
      case True
      then have "p = lpf i" using lpf(3) [OF Cons.prems(2) p(1)] later Cons.prems(7) by fastforce
      then have "(\<exists>q\<in>set (p # ps). q \<le> lpf i \<and> k = i * q) \<longleftrightarrow> k = i * p" for k using later by fastforce
      moreover have "euler_mark limit i (p # ps) fl = Some (fl[i * p := False])"
        unfolding euler_mark.simps nowrap using le True Cons.prems(4) by (simp add: mod_eq_0_iff_dvd)
      ultimately show ?thesis using upd Cons.prems(4) by auto
    next
      case False
      then have neq: "p \<noteq> lpf i" using lpf(2) [OF Cons.prems(2)] by auto
      then have in_ps: "lpf i \<in> set ps" using Cons.prems(7) by auto
      obtain fl' where fl': "euler_mark limit i ps (fl[i * p := False]) = Some fl'" "length fl' = limit + 1"
        "\<And>k. k \<le> limit \<Longrightarrow> fl' ! k \<longleftrightarrow> fl[i * p := False] ! k \<and> \<not> (\<exists>p\<in>set ps. p \<le> lpf i \<and> k = i * p)"
        using Cons.IH [of "fl[i * p := False]"] Cons.prems in_ps by auto
      have "euler_mark limit i (p # ps) fl = Some fl'"
        unfolding euler_mark.simps nowrap using le False Cons.prems(4) fl'(1) by (simp add: mod_eq_0_iff_dvd)
      moreover have "p \<le> lpf i" using later [OF in_ps] by simp
      ultimately show ?thesis using fl'(2,3) upd by auto
    qed
  next
    case False
    have far: "limit < i * q" if "q \<in> set (p # ps)" for q
    proof -
      have "p \<le> q" using that later by (auto simp: less_imp_le)
      then have "i * p \<le> i * q" by simp
      then show ?thesis using False by linarith
    qed
    have "euler_mark limit i (p # ps) fl = Some fl"
      unfolding euler_mark.simps nowrap using False by simp
    moreover have "\<not> (\<exists>q\<in>set (p # ps). q \<le> lpf i \<and> k = i * q)" if "k \<le> limit" for k
      using far that by (metis leD)
    ultimately show ?thesis using Cons.prems(4) by blast
  qed
qed simp

definition euler_marked :: "nat \<Rightarrow> nat \<Rightarrow> bool" where
  "euler_marked i k \<longleftrightarrow> (\<exists>m p. 2 \<le> m \<and> m < i \<and> is_prime p \<and> p \<le> lpf m \<and> k = m * p)"

definition euler_inv :: "nat \<Rightarrow> nat \<Rightarrow> bool list \<times> nat list \<Rightarrow> bool" where
  "euler_inv limit i st \<longleftrightarrow>
     length (fst st) = limit + 1 \<and> snd st = primes_upto (i - 1) \<and>
     (\<forall>k. 2 \<le> k \<longrightarrow> k \<le> limit \<longrightarrow> (fst st ! k \<longleftrightarrow> \<not> euler_marked i k))"

lemma euler_marked_self:
  assumes "2 \<le> i"
  shows "euler_marked i i \<longleftrightarrow> \<not> is_prime i"
proof
  assume "euler_marked i i"
  then obtain m p where mp: "2 \<le> m" "m < i" "is_prime p" "i = m * p" by (auto simp: euler_marked_def)
  then have "m dvd i" "m \<noteq> 1" "m \<noteq> i" by auto
  then show "\<not> is_prime i" by (auto simp: is_prime_def)
next
  assume c: "\<not> is_prime i"
  have i: "1 < i" using assms by simp
  obtain m where m: "i = lpf i * m" using lpf(2) [OF i] by (auto simp: dvd_def)
  have "lpf i \<noteq> i" using c i by (simp add: is_prime_lpf)
  then have m1: "1 < m" using m i by (cases m; cases "m = 1") auto
  have "lpf m dvd i" using lpf(2) [OF m1] m by (metis dvd_mult)
  then have "lpf i \<le> lpf m" using lpf(3) [OF i lpf(1) [OF m1]] by simp
  moreover have "m < i" using m lpf(1) [OF i] m1 by (metis less_mult_imp_div_less nat_mult_1 mult_less_cancel2 gr_implies_not0 not_gr_zero)
  ultimately show "euler_marked i i"
    unfolding euler_marked_def using m m1 lpf_prime [OF i] by (intro exI [of _ m] exI [of _ "lpf i"]) (auto simp: mult.commute)
qed

lemma primes_upto_sorted: "sorted_wrt (<) (primes_upto n)"
  unfolding primes_upto_def by (intro sorted_wrt_filter) (rule sorted_wrt_upt)

lemma in_primes_upto: "p \<in> set (primes_upto n) \<longleftrightarrow> is_prime p \<and> p \<le> n"
  by (auto simp: primes_upto_def le_less)

lemma euler_step_correct:
  assumes "limit < 65536" "2 \<le> i" "i < limit + 1" "euler_inv limit i st"
  shows "\<exists>st'. euler_step limit i st = Some st' \<and> euler_inv limit (i + 1) st'"
proof -
  have i: "1 < i" using assms(2) by simp
  have len: "length (fst st) = limit + 1" and sto: "snd st = primes_upto (i - 1)"
    and fl: "\<And>k. 2 \<le> k \<Longrightarrow> k \<le> limit \<Longrightarrow> fst st ! k \<longleftrightarrow> \<not> euler_marked i k"
    using assms(4) by (auto simp: euler_inv_def)
  have here: "fst st ! i \<longleftrightarrow> is_prime i" using fl [of i] euler_marked_self [OF assms(2)] assms by simp
  have rd: "rd (fst st) i = Some (fst st ! i)" using len assms(3) by (simp add: rd_def)
  have sto': "(if fst st ! i then snd st @ [i] else snd st) = primes_upto i"
    using primes_upto_Suc [of "i - 1"] assms(2) here sto by simp
  have "lpf i \<le> i" using lpf(2) [OF i] i by (intro dvd_imp_le) auto
  then have lpf_in: "lpf i \<in> set (primes_upto i)" using lpf_prime [OF i] by (simp add: in_primes_upto)
  have bnd: "\<forall>p\<in>set (primes_upto i). 1 < p \<and> p \<le> limit"
    using assms(3) by (auto simp: in_primes_upto is_prime_def)
  obtain fl' where fl': "euler_mark limit i (primes_upto i) (fst st) = Some fl'" "length fl' = limit + 1"
    "\<And>k. k \<le> limit \<Longrightarrow> fl' ! k \<longleftrightarrow> fst st ! k \<and> \<not> (\<exists>p\<in>set (primes_upto i). p \<le> lpf i \<and> k = i * p)"
    using euler_mark_correct [OF assms(1) i _ len primes_upto_sorted bnd lpf_in] assms(3) by auto
  have step: "euler_marked (i + 1) k \<longleftrightarrow>
      euler_marked i k \<or> (\<exists>p\<in>set (primes_upto i). p \<le> lpf i \<and> k = i * p)" for k
    using \<open>lpf i \<le> i\<close> assms(2) unfolding euler_marked_def in_primes_upto Bex_def
    by (auto simp: less_Suc_eq intro: order_trans)
  have "euler_step limit i st = Some (fl', primes_upto i)"
    unfolding euler_step_def using rd sto' fl'(1) by (simp add: Let_def)
  moreover have "euler_inv limit (i + 1) (fl', primes_upto i)"
    unfolding euler_inv_def step using fl'(2,3) fl by simp
  ultimately show ?thesis by blast
qed

lemma euler_init:
  "1 \<le> limit \<Longrightarrow> euler_inv limit 2 (((replicate (limit + 1) True)[0 := False])[1 := False], [])"
  using primes_upto_1
  by (auto simp: euler_inv_def euler_marked_def nth_list_update nth_append simp del: replicate_Suc)

lemma euler_correct: "1 \<le> limit \<Longrightarrow> limit < 65536 \<Longrightarrow> euler limit = Some (primes_upto limit)"
proof -
  assume l: "1 \<le> limit" "limit < 65536"
  let ?s = "((replicate (limit + 1) True)[0 := False])[1 := False]"
  have "\<exists>s'. run_for (euler_step limit) [2..<limit + 1] (?s, []) = Some s' \<and> euler_inv limit (limit + 1) s'"
    by (rule run_for_invariant [where I = "euler_inv limit"]) (use l euler_init euler_step_correct in auto)
  then show ?thesis using l by (auto simp: euler_def flags_init euler_inv_def)
qed

section \<open>Properties\<close>

text \<open>
  C32: below the limit at which \<open>i * i\<close> wraps around, both sieves return, access no flag outside of
  their vector, and give exactly the primes up to the limit in increasing order. A limit of zero makes
  both write one past their one flag.
\<close>

theorem sieves_agree:
  assumes "limit < 65536"
  shows "eratosthenes limit = (if limit = 0 then None else Some (filter is_prime [0..<limit + 1]))
    \<and> euler limit = (if limit = 0 then None else Some (filter is_prime [0..<limit + 1]))"
proof (cases "limit = 0")
  case True
  then show ?thesis by (simp add: eratosthenes_def euler_def flags_init_def wr_def)
next
  case False
  then show ?thesis
    using assms eratosthenes_correct [of limit] euler_correct [of limit] unfolding primes_upto_def by simp
qed

theorem sieves_agree_witness:
  "eratosthenes 12 = Some (filter is_prime [0..<13]) \<and> euler 12 = Some (filter is_prime [0..<13])"
  using sieves_agree [of 12] by simp

end
