(* ===== verification/UT_Encoding.thy ===== *)
theory UT_Encoding
  imports Foo_Prelude "HOL-Library.Monad_Syntax"
begin

text \<open>
  The encoders of \<open>src/utility/source/common.cpp\<close> and \<open>src/utility/include/common.hpp\<close>: the BKDR hash
  in its iterative and its recursive (compile-time) form, Base64 and the CRC-32 checksum. Characters
  are bytes (\<^typ>\<open>8 word\<close>); \<open>std::uint32_t\<close> and \<open>std::size_t\<close> are 32 and 64 bit words, so that the
  arithmetic wraps as in the code. Errors are values of a sum type.
\<close>

unbundle bit_operations_syntax

section \<open>BKDR hash\<close>

abbreviation bkdrHashSeed :: "64 word" where "bkdrHashSeed \<equiv> 131"

abbreviation bkdrHashMask :: "64 word" where "bkdrHashMask \<equiv> 0x7FFFFFFF"

text \<open>A plain \<open>char\<close> is signed: it is sign extended before it is added. The string ends at its first \<open>0\<close>.\<close>

fun bkdrHash_loop :: "byte list \<Rightarrow> 64 word \<Rightarrow> 64 word" where
  "bkdrHash_loop [] hash = hash"
| "bkdrHash_loop (c # str) hash = (if c \<noteq> 0 then bkdrHash_loop str (hash * bkdrHashSeed + scast c) else hash)"

definition bkdrHash :: "byte list option \<Rightarrow> 64 word" where
  "bkdrHash p = (case p of None \<Rightarrow> 0 | Some str \<Rightarrow> bkdrHash_loop str 0 AND bkdrHashMask)"

fun bkdrHashRecursive :: "byte list \<Rightarrow> 64 word \<Rightarrow> 64 word" where
  "bkdrHashRecursive [] hash = hash"
| "bkdrHashRecursive (c # str) hash =
     (if c \<noteq> 0 then bkdrHashRecursive str ((hash * bkdrHashSeed + scast c) AND bkdrHashMask) else hash)"

definition bkdrHash_literal :: "byte list option \<Rightarrow> 64 word" where
  "bkdrHash_literal p = (case p of None \<Rightarrow> 0 | Some str \<Rightarrow> bkdrHashRecursive str 0)"

text \<open>String literals as bytes.\<close>

definition bytes_of :: "string \<Rightarrow> byte list" where
  "bytes_of s = map of_char s"

text \<open>The hash of a string, and of a string literal in a case label.\<close>

definition hash_of :: "byte list \<Rightarrow> 64 word" where
  "hash_of s = bkdrHash (Some s)"

definition literal_hash :: "string \<Rightarrow> 64 word" where
  "literal_hash s = bkdrHash_literal (Some (bytes_of s))"

section \<open>Base64\<close>

definition base64Alphabet :: "byte list" where
  "base64Alphabet = map (\<lambda>c. of_char c)
     ''ABCDEFGHIJKLMNOPQRSTUVWXYZabcdefghijklmnopqrstuvwxyz0123456789+/''"

text \<open>The character \<open>=\<close>.\<close>

abbreviation pad :: byte where "pad \<equiv> 61"

definition sextet :: "32 word \<Rightarrow> nat \<Rightarrow> byte" where
  "sextet bitStream sh = base64Alphabet ! unat (drop_bit sh bitStream AND 0x3F)"

text \<open>The state of both loops: \<open>counter\<close>, \<open>offset\<close>, \<open>bitStream\<close> and the output so far.\<close>

record codec =
  counter :: nat
  offset :: nat
  bitStream :: "32 word"
  coded :: "byte list"

definition codec_init :: codec where
  "codec_init = \<lparr>counter = 0, offset = 0, bitStream = 0, coded = []\<rparr>"

definition encode_step :: "byte \<Rightarrow> codec \<Rightarrow> codec" where
  "encode_step c s =
     (let off = 16 - counter s mod 3 * 8;
          bits = bitStream s + push_bit off (ucast c);
          s1 = s\<lparr>offset := off, bitStream := bits\<rparr>;
          s2 = (if off = 16 then s1\<lparr>coded := coded s1 @ [sextet bits 18]\<rparr>
                else if off = 8 then s1\<lparr>coded := coded s1 @ [sextet bits 12]\<rparr>
                else if off = 0 \<and> counter s \<noteq> 3
                then s1\<lparr>coded := coded s1 @ [sextet bits 6, sextet bits 0], bitStream := 0\<rparr>
                else s1)
      in s2\<lparr>counter := counter s + 1\<rparr>)"

definition encode_end :: "codec \<Rightarrow> byte list" where
  "encode_end s =
     (if offset s = 16 then coded s @ [sextet (bitStream s) 12, pad, pad]
      else if offset s = 8 then coded s @ [sextet (bitStream s) 6, pad]
      else coded s)"

definition base64Encode :: "byte list \<Rightarrow> byte list" where
  "base64Encode data = encode_end (fold encode_step data codec_init)"

datatype decodeError = InvalidBase64

text \<open>\<open>std::string_view::find\<close>: the position of the first occurrence, \<open>npos\<close> as \<^term>\<open>None\<close>.\<close>

fun find_char :: "byte list \<Rightarrow> byte \<Rightarrow> nat option" where
  "find_char [] c = None"
| "find_char (x # xs) c = (if x = c then Some 0 else map_option Suc (find_char xs c))"

definition octet :: "32 word \<Rightarrow> nat \<Rightarrow> byte" where
  "octet bits sh = ucast (drop_bit sh bits AND 0xFF)"

definition decode_step :: "byte \<Rightarrow> codec \<Rightarrow> decodeError + codec" where
  "decode_step c s =
     (case find_char base64Alphabet c of
        Some v \<Rightarrow>
          (let off = 18 - counter s mod 4 * 6;
               bits = bitStream s + push_bit off (of_nat v);
               s1 = s\<lparr>offset := off, bitStream := bits\<rparr>;
               s2 = (if off = 12 then s1\<lparr>coded := coded s1 @ [octet bits 16]\<rparr>
                     else if off = 6 then s1\<lparr>coded := coded s1 @ [octet bits 8]\<rparr>
                     else if off = 0 \<and> counter s \<noteq> 4
                     then s1\<lparr>coded := coded s1 @ [octet bits 0], bitStream := 0\<rparr>
                     else s1)
           in Inr (s2\<lparr>counter := counter s + 1\<rparr>))
      | None \<Rightarrow> if c \<noteq> pad then Inl InvalidBase64 else Inr (s\<lparr>counter := counter s + 1\<rparr>))"

fun decode_loop :: "byte list \<Rightarrow> codec \<Rightarrow> decodeError + codec" where
  "decode_loop [] s = Inr s"
| "decode_loop (c # cs) s = (case decode_step c s of Inl e \<Rightarrow> Inl e | Inr s' \<Rightarrow> decode_loop cs s')"

definition base64Decode :: "byte list \<Rightarrow> decodeError + byte list" where
  "base64Decode data = map_sum id coded (decode_loop data codec_init)"

section \<open>CRC-32\<close>

definition crc32Table :: "32 word list" where
  "crc32Table = [
     0x00000000, 0x77073096, 0xee0e612c, 0x990951ba, 0x076dc419, 0x706af48f, 0xe963a535, 0x9e6495a3,
     0x0edb8832, 0x79dcb8a4, 0xe0d5e91e, 0x97d2d988, 0x09b64c2b, 0x7eb17cbd, 0xe7b82d07, 0x90bf1d91,
     0x1db71064, 0x6ab020f2, 0xf3b97148, 0x84be41de, 0x1adad47d, 0x6ddde4eb, 0xf4d4b551, 0x83d385c7,
     0x136c9856, 0x646ba8c0, 0xfd62f97a, 0x8a65c9ec, 0x14015c4f, 0x63066cd9, 0xfa0f3d63, 0x8d080df5,
     0x3b6e20c8, 0x4c69105e, 0xd56041e4, 0xa2677172, 0x3c03e4d1, 0x4b04d447, 0xd20d85fd, 0xa50ab56b,
     0x35b5a8fa, 0x42b2986c, 0xdbbbc9d6, 0xacbcf940, 0x32d86ce3, 0x45df5c75, 0xdcd60dcf, 0xabd13d59,
     0x26d930ac, 0x51de003a, 0xc8d75180, 0xbfd06116, 0x21b4f4b5, 0x56b3c423, 0xcfba9599, 0xb8bda50f,
     0x2802b89e, 0x5f058808, 0xc60cd9b2, 0xb10be924, 0x2f6f7c87, 0x58684c11, 0xc1611dab, 0xb6662d3d,
     0x76dc4190, 0x01db7106, 0x98d220bc, 0xefd5102a, 0x71b18589, 0x06b6b51f, 0x9fbfe4a5, 0xe8b8d433,
     0x7807c9a2, 0x0f00f934, 0x9609a88e, 0xe10e9818, 0x7f6a0dbb, 0x086d3d2d, 0x91646c97, 0xe6635c01,
     0x6b6b51f4, 0x1c6c6162, 0x856530d8, 0xf262004e, 0x6c0695ed, 0x1b01a57b, 0x8208f4c1, 0xf50fc457,
     0x65b0d9c6, 0x12b7e950, 0x8bbeb8ea, 0xfcb9887c, 0x62dd1ddf, 0x15da2d49, 0x8cd37cf3, 0xfbd44c65,
     0x4db26158, 0x3ab551ce, 0xa3bc0074, 0xd4bb30e2, 0x4adfa541, 0x3dd895d7, 0xa4d1c46d, 0xd3d6f4fb,
     0x4369e96a, 0x346ed9fc, 0xad678846, 0xda60b8d0, 0x44042d73, 0x33031de5, 0xaa0a4c5f, 0xdd0d7cc9,
     0x5005713c, 0x270241aa, 0xbe0b1010, 0xc90c2086, 0x5768b525, 0x206f85b3, 0xb966d409, 0xce61e49f,
     0x5edef90e, 0x29d9c998, 0xb0d09822, 0xc7d7a8b4, 0x59b33d17, 0x2eb40d81, 0xb7bd5c3b, 0xc0ba6cad,
     0xedb88320, 0x9abfb3b6, 0x03b6e20c, 0x74b1d29a, 0xead54739, 0x9dd277af, 0x04db2615, 0x73dc1683,
     0xe3630b12, 0x94643b84, 0x0d6d6a3e, 0x7a6a5aa8, 0xe40ecf0b, 0x9309ff9d, 0x0a00ae27, 0x7d079eb1,
     0xf00f9344, 0x8708a3d2, 0x1e01f268, 0x6906c2fe, 0xf762575d, 0x806567cb, 0x196c3671, 0x6e6b06e7,
     0xfed41b76, 0x89d32be0, 0x10da7a5a, 0x67dd4acc, 0xf9b9df6f, 0x8ebeeff9, 0x17b7be43, 0x60b08ed5,
     0xd6d6a3e8, 0xa1d1937e, 0x38d8c2c4, 0x4fdff252, 0xd1bb67f1, 0xa6bc5767, 0x3fb506dd, 0x48b2364b,
     0xd80d2bda, 0xaf0a1b4c, 0x36034af6, 0x41047a60, 0xdf60efc3, 0xa867df55, 0x316e8eef, 0x4669be79,
     0xcb61b38c, 0xbc66831a, 0x256fd2a0, 0x5268e236, 0xcc0c7795, 0xbb0b4703, 0x220216b9, 0x5505262f,
     0xc5ba3bbe, 0xb2bd0b28, 0x2bb45a92, 0x5cb36a04, 0xc2d7ffa7, 0xb5d0cf31, 0x2cd99e8b, 0x5bdeae1d,
     0x9b64c2b0, 0xec63f226, 0x756aa39c, 0x026d930a, 0x9c0906a9, 0xeb0e363f, 0x72076785, 0x05005713,
     0x95bf4a82, 0xe2b87a14, 0x7bb12bae, 0x0cb61b38, 0x92d28e9b, 0xe5d5be0d, 0x7cdcefb7, 0x0bdbdf21,
     0x86d3d2d4, 0xf1d4e242, 0x68ddb3f8, 0x1fda836e, 0x81be16cd, 0xf6b9265b, 0x6fb077e1, 0x18b74777,
     0x88085ae6, 0xff0f6a70, 0x66063bca, 0x11010b5c, 0x8f659eff, 0xf862ae69, 0x616bffd3, 0x166ccf45,
     0xa00ae278, 0xd70dd2ee, 0x4e048354, 0x3903b3c2, 0xa7672661, 0xd06016f7, 0x4969474d, 0x3e6e77db,
     0xaed16a4a, 0xd9d65adc, 0x40df0b66, 0x37d83bf0, 0xa9bcae53, 0xdebb9ec5, 0x47b2cf7f, 0x30b5ffe9,
     0xbdbdf21c, 0xcabac28a, 0x53b39330, 0x24b4a3a6, 0xbad03605, 0xcdd70693, 0x54de5729, 0x23d967bf,
     0xb3667a2e, 0xc4614ab8, 0x5d681b02, 0x2a6f2b94, 0xb40bbe37, 0xc30c8ea1, 0x5a05df1b, 0x2d02ef8d]"

definition crc_step :: "byte \<Rightarrow> 32 word \<Rightarrow> 32 word" where
  "crc_step b crc = crc32Table ! unat ((crc XOR ucast b) AND 0xFF) XOR drop_bit 8 crc"

text \<open>The buffer may be longer than the size given; \<^term>\<open>None\<close> is a read outside of it.\<close>

fun crc_loop :: "byte list \<Rightarrow> nat \<Rightarrow> nat \<Rightarrow> 32 word \<Rightarrow> 32 word option" where
  "crc_loop buffer i 0 crc = Some crc"
| "crc_loop buffer i (Suc n) crc = do { b \<leftarrow> rd buffer i; crc_loop buffer (i + 1) n (crc_step b crc) }"

definition calculateCRC32 :: "byte list option \<Rightarrow> nat \<Rightarrow> 32 word option" where
  "calculateCRC32 data sz =
     (case data of
        None \<Rightarrow> Some 0
      | Some buffer \<Rightarrow>
          (if sz = 0 then Some 0
           else map_option (\<lambda>crc. crc XOR 0xFFFFFFFF) (crc_loop buffer 0 sz 0xFFFFFFFF)))"

section \<open>The hash\<close>

lemma bkdr_mask: "bkdrHashMask = mask 31"
  by (simp add: mask_eq_exp_minus_1)

lemma take_bit_step: "take_bit 31 (take_bit 31 h * s + c) = take_bit 31 (h * s + c)" for h s c :: "64 word"
proof -
  have tb: "uint (take_bit 31 w) = uint w mod 2 ^ 31" for w :: "64 word"
    by (simp only: unsigned_take_bit_eq) (simp add: take_bit_eq_mod)
  have ar: "uint (x * y + z) mod 2 ^ 31 = (uint x * uint y + uint z) mod 2 ^ 31" for x y z :: "64 word"
    by (simp add: uint_word_ariths mod_mod_cancel mod_simps)
  have "uint (take_bit 31 (take_bit 31 h * s + c)) = uint (take_bit 31 (h * s + c))"
    unfolding tb ar by (intro mod_add_cong mod_mult_cong) simp_all
  then show ?thesis by (simp only: word_uint_eq_iff)
qed

lemma bkdr_masked:
  "bkdrHashRecursive str (take_bit 31 hash) = take_bit 31 (bkdrHash_loop str hash)"
proof (induction str arbitrary: hash)
  case (Cons c str)
  have "(take_bit 31 hash * bkdrHashSeed + scast c) AND bkdrHashMask = take_bit 31 (hash * bkdrHashSeed + scast c)"
    unfolding bkdr_mask take_bit_eq_mask [symmetric] by (rule take_bit_step)
  then show ?case using Cons by simp
qed simp

text \<open>
  The hash computed at run time and the one the compiler computes for a literal are the same
  number, although the first masks the result once at the end and the second after every character:
  a switch over literal hashes selects the branch of the string.
\<close>

theorem bkdrHash_literal_agrees: "bkdrHash p = bkdrHash_literal p"
proof (cases p)
  case (Some str)
  then show ?thesis
    using bkdr_masked [of str 0] by (simp add: bkdrHash_def bkdrHash_literal_def bkdr_mask take_bit_eq_mask)
qed (simp add: bkdrHash_def bkdrHash_literal_def)

section \<open>Base64\<close>

lemma ucast_of_nat_unat: "(ucast c :: 32 word) = of_nat (unat c)" for c :: byte
  by simp

lemma unat_field:
  "N < 2 ^ 32 \<Longrightarrow> unat (take_bit k (drop_bit sh (of_nat N :: 32 word))) = N div 2 ^ sh mod 2 ^ k"
  by (simp add: unsigned_take_bit_eq unsigned_drop_bit_eq unsigned_of_nat take_bit_nat_eq_self)
    (simp add: take_bit_eq_mod drop_bit_eq_div)

lemma sextet_of_nat:
  assumes "N < 2 ^ 32"
  shows "sextet (of_nat N) sh = base64Alphabet ! (N div 2 ^ sh mod 64)"
proof -
  have "(0x3F :: 32 word) = mask 6" by (simp add: mask_eq_exp_minus_1)
  then show ?thesis using unat_field [OF assms, of 6] by (simp add: sextet_def take_bit_eq_mask)
qed

lemma octet_of_nat:
  assumes "N < 2 ^ 32"
  shows "octet (of_nat N) sh = of_nat (N div 2 ^ sh mod 256)"
proof -
  have "(0xFF :: 32 word) = mask 8" by (simp add: mask_eq_exp_minus_1)
  then have "unat (drop_bit sh (of_nat N :: 32 word) AND 0xFF) = N div 2 ^ sh mod 256"
    using unat_field [OF assms, of 8] by (simp add: take_bit_eq_mask)
  then show ?thesis unfolding octet_def by (metis of_nat_unat)
qed

lemma push_byte: "push_bit k (ucast c :: 32 word) = of_nat (unat c * 2 ^ k)" for c :: byte
  by (simp add: push_bit_eq_mult)

lemma push_value: "push_bit k (of_nat v :: 32 word) = of_nat (v * 2 ^ k)"
  by (simp add: push_bit_eq_mult)

lemma byte_bound: "unat (c :: byte) < 256"
  using unsigned_less [of c] by simp

lemma byte_div_bounds: "unat (c :: byte) div 4 < 64" "unat c div 16 < 16" "unat c div 64 < 4"
  using byte_bound [of c] by linarith+

lemma find_alphabet: "i < 64 \<Longrightarrow> find_char base64Alphabet (base64Alphabet ! i) = Some i"
proof -
  have "list_all (\<lambda>i. find_char base64Alphabet (base64Alphabet ! i) = Some i) [0..<64]" by code_simp
  then show "i < 64 \<Longrightarrow> ?thesis" by (simp add: list_all_iff)
qed

lemma find_pad: "find_char base64Alphabet pad = None"
  by code_simp

lemma field_mod: "z < m \<Longrightarrow> (x * m + z) mod (m * k) = x mod k * m + z" for x z m k :: nat
  by (simp add: mod_mult2_eq)

lemma field_second: "y < 256 \<Longrightarrow> (x * 65536 + y * 256) div 4096 mod 64 = x mod 4 * 16 + y div 16" for x y :: nat
proof -
  assume y: "y < 256"
  have "(x * 65536 + y * 256) div 4096 = x * 16 + y div 16" by linarith
  moreover have "y div 16 < 16" using y by linarith
  ultimately show ?thesis using field_mod [of "y div 16" 16 x 4] by simp
qed

lemma field_third: "z < 256 \<Longrightarrow> (x * 65536 + y * 256 + z) div 64 mod 64 = y mod 16 * 4 + z div 64" for x y :: nat
proof -
  assume y: "z < 256"
  have "x * 65536 + y * 256 + z = ((x * 256 + y) * 4) * 64 + z" by simp
  then have "(x * 65536 + y * 256 + z) div 64 = (x * 256 + y) * 4 + z div 64"
    by (simp only: div_mult_self3 zero_neq_numeral not_False_eq_True)
  moreover have "z div 64 < 4" using y by linarith
  moreover have "x * 256 + y = x * 16 * 16 + y" by simp
  then have "(x * 256 + y) mod 16 = y mod 16" by (simp only: mod_mult_self3)
  ultimately show ?thesis using field_mod [of "z div 64" 4 "x * 256 + y" 16] by simp
qed

lemma field_fourth: "(x * 65536 + y * 256 + z) mod 64 = z mod 64" for x y z :: nat 
proof -
  have "x * 65536 + y * 256 + z = (x * 1024 + y * 4) * 64 + z" by simp
  then show ?thesis by (simp only: mod_mult_self3)
qed

text \<open>The positions in the alphabet of one full group: three bytes become four characters.\<close>

definition quad :: "byte \<Rightarrow> byte \<Rightarrow> byte \<Rightarrow> nat list" where
  "quad a b c = [unat a div 4, unat a mod 4 * 16 + unat b div 16, unat b mod 16 * 4 + unat c div 64, unat c mod 64]"

definition idle :: "nat \<Rightarrow> codec \<Rightarrow> bool" where
  "idle n s \<longleftrightarrow> counter s mod n = 0 \<and> bitStream s = 0"

lemma encode_first:
  assumes "idle 3 s"
  shows "encode_step a s = \<lparr>counter = counter s + 1, offset = 16, bitStream = of_nat (unat a * 65536),
    coded = coded s @ [base64Alphabet ! (unat a div 4)]\<rparr>"
  using assms sextet_of_nat [of "unat a * 65536" 18] byte_bound [of a]
  by (simp add: idle_def encode_step_def push_byte byte_div_bounds Let_def)

lemma encode_second:
  fixes a b :: byte
  assumes "counter s mod 3 = 1" "bitStream s = of_nat (unat a * 65536)"
  shows "encode_step b s = \<lparr>counter = counter s + 1, offset = 8, bitStream = of_nat (unat a * 65536 + unat b * 256),
    coded = coded s @ [base64Alphabet ! (unat a mod 4 * 16 + unat b div 16)]\<rparr>"
proof -
  have "unat a * 65536 + unat b * 256 < 2 ^ 32"
    using byte_bound [of a] byte_bound [of b] by simp
  then show ?thesis
    using assms sextet_of_nat [of "unat a * 65536 + unat b * 256" 12] field_second [OF byte_bound, of "unat a" b]
    by (simp add: encode_step_def push_byte Let_def)
qed

lemma encode_third:
  fixes a b :: byte
  assumes "counter s mod 3 = 2" "bitStream s = of_nat (unat a * 65536 + unat b * 256)"
  shows "encode_step c s = \<lparr>counter = counter s + 1, offset = 0, bitStream = 0,
    coded = coded s @ [base64Alphabet ! (unat b mod 16 * 4 + unat c div 64), base64Alphabet ! (unat c mod 64)]\<rparr>"
proof -
  have "unat a * 65536 + unat b * 256 + unat c < 2 ^ 32"
    using byte_bound [of a] byte_bound [of b] byte_bound [of c] by simp
  moreover have "counter s \<noteq> 3" using assms(1) by auto
  ultimately show ?thesis
    using assms sextet_of_nat [of "unat a * 65536 + unat b * 256 + unat c" 6]
      sextet_of_nat [of "unat a * 65536 + unat b * 256 + unat c" 0]
      field_third [OF byte_bound, of "unat a" "unat b" c] field_fourth [of "unat a" "unat b" "unat c"]
    by (simp add: encode_step_def push_byte Let_def)
qed

text \<open>The reference encoder, group by group.\<close>

fun groups :: "byte list \<Rightarrow> byte list" where
  "groups [] = []"
| "groups [a] = map ((!) base64Alphabet) (take 2 (quad a 0 0)) @ [pad, pad]"
| "groups [a, b] = map ((!) base64Alphabet) (take 3 (quad a b 0)) @ [pad]"
| "groups (a # b # c # ds) = map ((!) base64Alphabet) (quad a b c) @ groups ds"

lemma encode_tail_one:
  "sextet (of_nat (unat a * 65536)) 12 = base64Alphabet ! (unat a mod 4 * 16)" for a :: byte
  using sextet_of_nat [of "unat a * 65536" 12] field_second [of 0 "unat a"] byte_bound [of a] by simp

lemma encode_tail_two:
  "sextet (of_nat (unat a * 65536 + unat b * 256)) 6 = base64Alphabet ! (unat b mod 16 * 4)" for a b :: byte
  using sextet_of_nat [of "unat a * 65536 + unat b * 256" 6] field_third [of 0 "unat a" "unat b"]
    byte_bound [of a] byte_bound [of b] by simp

lemma encode_loop:
  "idle 3 s \<Longrightarrow> offset s = 0 \<Longrightarrow> encode_end (fold encode_step data s) = coded s @ groups data"
proof (induction data arbitrary: s rule: groups.induct)
  case 1
  then show ?case by (simp add: encode_end_def)
next
  case (2 a)
  then show ?case using encode_tail_one [of a] by (simp add: encode_first encode_end_def quad_def)
next
  case (3 a b)
  let ?s = "encode_step a s"
  have "counter ?s mod 3 = 1" "bitStream ?s = of_nat (unat a * 65536)"
    "coded ?s = coded s @ [base64Alphabet ! (unat a div 4)]"
    using 3 by (simp_all add: encode_first idle_def mod_Suc)
  then show ?case using encode_second [of ?s a b] encode_tail_two [of a b] by (simp add: encode_end_def quad_def)
next
  case (4 a b c ds)
  let ?s = "encode_step a s" and ?t = "encode_step b (encode_step a s)" and ?u = "encode_step c (encode_step b (encode_step a s))"
  have s: "counter ?s mod 3 = 1" "bitStream ?s = of_nat (unat a * 65536)"
    "coded ?s = coded s @ [base64Alphabet ! (unat a div 4)]"
    using 4(2) by (simp_all add: encode_first idle_def mod_Suc)
  have t: "counter ?t mod 3 = 2" "bitStream ?t = of_nat (unat a * 65536 + unat b * 256)"
    "coded ?t = coded ?s @ [base64Alphabet ! (unat a mod 4 * 16 + unat b div 16)]"
    using s(1) encode_second [OF s(1,2), of b] by (simp_all add: mod_Suc)
  have u: "idle 3 ?u" "offset ?u = 0" "coded ?u = coded s @ map ((!) base64Alphabet) (quad a b c)"
    using t(1) encode_third [OF t(1,2), of c] t(3) s(3) by (simp_all add: idle_def mod_Suc quad_def)
  show ?case using "4.IH" [OF u(1,2)] u(3) by simp
qed

lemma base64Encode_groups: "base64Encode data = groups data"
  using encode_loop [of codec_init data] by (simp add: base64Encode_def codec_init_def idle_def)

lemma decode_value:
  assumes "v < 64"
  shows "decode_step (base64Alphabet ! v) s =
    (let off = 18 - counter s mod 4 * 6;
         bits = bitStream s + of_nat (v * 2 ^ off)
     in Inr \<lparr>counter = counter s + 1, offset = off,
          bitStream = (if off = 0 \<and> counter s \<noteq> 4 then 0 else bits),
          coded = coded s @ (if off = 12 then [octet bits 16] else if off = 6 then [octet bits 8]
            else if off = 0 \<and> counter s \<noteq> 4 then [octet bits 0] else [])\<rparr>)"
  using find_alphabet [OF assms] by (simp add: decode_step_def push_value Let_def)

lemma decode_pad: "decode_step pad s = Inr (s\<lparr>counter := counter s + 1\<rparr>)"
  by (simp add: decode_step_def find_pad)

lemma decode_first:
  assumes "idle 4 s" "v < 64"
  shows "decode_step (base64Alphabet ! v) s =
    Inr \<lparr>counter = counter s + 1, offset = 18, bitStream = of_nat (v * 262144), coded = coded s\<rparr>"
  using assms by (simp add: decode_value idle_def Let_def)

lemma decode_second:
  assumes "counter s mod 4 = 1" "bitStream s = of_nat (v * 262144)" "v < 64" "w < 64"
  shows "decode_step (base64Alphabet ! w) s =
    Inr \<lparr>counter = counter s + 1, offset = 12, bitStream = of_nat (v * 262144 + w * 4096),
      coded = coded s @ [of_nat (v * 4 + w div 16)]\<rparr>"
proof -
  have "v * 262144 + w * 4096 < 2 ^ 32" using assms(3,4) by simp
  moreover have "(v * 262144 + w * 4096) div 65536 = v * 4 + w div 16" "v * 4 + w div 16 < 256"
    using assms(3,4) by linarith+
  ultimately show ?thesis
    using assms octet_of_nat [of "v * 262144 + w * 4096" 16] by (simp add: decode_value Let_def)
qed

lemma decode_third:
  assumes "counter s mod 4 = 2" "bitStream s = of_nat (v * 262144 + w * 4096)" "v < 64" "w < 64" "x < 64"
  shows "decode_step (base64Alphabet ! x) s =
    Inr \<lparr>counter = counter s + 1, offset = 6, bitStream = of_nat (v * 262144 + w * 4096 + x * 64),
      coded = coded s @ [of_nat (w mod 16 * 16 + x div 4)]\<rparr>"
proof -
  let ?N = "v * 262144 + w * 4096 + x * 64"
  have "?N < 2 ^ 32" using assms(3-5) by simp
  moreover have "?N div 256 mod 256 = w mod 16 * 16 + x div 4"
  proof -
    have "?N = (v * 64 + w) * 16 * 256 + x * 64" by simp
    then have "?N div 256 = (v * 64 + w) * 16 + x * 64 div 256"
      by (simp only: div_mult_self3 zero_neq_numeral not_False_eq_True)
    moreover have "x * 64 div 256 = x div 4" "x div 4 < 16" using assms(5) by linarith+
    moreover have "v * 64 + w = v * 4 * 16 + w" by simp
    then have "(v * 64 + w) mod 16 = w mod 16" by (simp only: mod_mult_self3)
    ultimately show ?thesis using field_mod [of "x div 4" 16 "v * 64 + w" 16] by simp
  qed
  ultimately show ?thesis
    using assms octet_of_nat [of ?N 8] by (simp add: decode_value Let_def)
qed

lemma decode_fourth:
  assumes "counter s mod 4 = 3" "bitStream s = of_nat (v * 262144 + w * 4096 + x * 64)" "v < 64" "w < 64" "x < 64" "y < 64"
  shows "decode_step (base64Alphabet ! y) s =
    Inr \<lparr>counter = counter s + 1, offset = 0, bitStream = 0, coded = coded s @ [of_nat (x mod 4 * 64 + y)]\<rparr>"
proof -
  let ?N = "v * 262144 + w * 4096 + x * 64 + y"
  have "?N < 2 ^ 32" using assms(3-6) by simp
  moreover have "?N mod 256 = x mod 4 * 64 + y"
  proof -
    have "?N = (v * 1024 + w * 16) * 256 + (x * 64 + y)" by simp
    then have "?N mod 256 = (x * 64 + y) mod 256" by (simp only: mod_mult_self3)
    then show ?thesis using field_mod [of y 64 x 4] assms(6) by simp
  qed
  moreover have "counter s \<noteq> 4" using assms(1) by auto
  ultimately show ?thesis
    using assms octet_of_nat [of ?N 0] by (simp add: decode_value Let_def)
qed

text \<open>The bytes come back from the positions of their group.\<close>

lemma quad_bytes:
  fixes a b c :: byte
  shows "unat a div 4 * 4 + (unat a mod 4 * 16 + unat b div 16) div 16 = unat a"
    "(unat a mod 4 * 16 + unat b div 16) mod 16 * 16 + (unat b mod 16 * 4 + unat c div 64) div 4 = unat b"
    "(unat b mod 16 * 4 + unat c div 64) mod 4 * 64 + unat c mod 64 = unat c"
    "unat a div 4 < 64" "unat a mod 4 * 16 + unat b div 16 < 64" "unat b mod 16 * 4 + unat c div 64 < 64" "unat c mod 64 < 64"
proof -
  have b: "unat b div 16 < 16" and c: "unat c div 64 < 4" by (rule byte_div_bounds)+
  show "unat a div 4 * 4 + (unat a mod 4 * 16 + unat b div 16) div 16 = unat a" using b by simp
  have "(unat a mod 4 * 16 + unat b div 16) mod 16 = unat b div 16" using b by simp
  moreover have "(unat b mod 16 * 4 + unat c div 64) div 4 = unat b mod 16" using c by simp
  ultimately show "(unat a mod 4 * 16 + unat b div 16) mod 16 * 16 + (unat b mod 16 * 4 + unat c div 64) div 4 = unat b"
    by simp
  have "(unat b mod 16 * 4 + unat c div 64) mod 4 = unat c div 64" using c by simp
  then show "(unat b mod 16 * 4 + unat c div 64) mod 4 * 64 + unat c mod 64 = unat c" by simp
  show "unat a div 4 < 64" by (rule byte_div_bounds)
  have "unat a mod 4 < 4" "unat b mod 16 < 16" by simp_all
  then show "unat a mod 4 * 16 + unat b div 16 < 64" "unat b mod 16 * 4 + unat c div 64 < 64"
    using b c by linarith+
qed simp

lemma byte_quotients [simp]:
  "unat b div 16 div 16 = 0" "unat b div 16 mod 16 = unat b div 16" "unat c div 64 div 4 = 0"
  "unat c div 64 mod 4 = unat c div 64" for b c :: byte
  using byte_div_bounds [of b] byte_div_bounds [of c] by simp_all

lemma decode_quad:
  assumes "idle 4 s"
  shows "decode_loop (map ((!) base64Alphabet) (quad a b c) @ cs) s =
    decode_loop cs \<lparr>counter = Suc (Suc (Suc (Suc (counter s)))), offset = 0, bitStream = 0, coded = coded s @ [a, b, c]\<rparr>"
  using assms
  by (simp add: quad_def quad_bytes decode_first decode_second [where v = "unat a div 4"]
      decode_third [where v = "unat a div 4" and w = "unat a mod 4 * 16 + unat b div 16"]
      decode_fourth [where v = "unat a div 4" and w = "unat a mod 4 * 16 + unat b div 16"
        and x = "unat b mod 16 * 4 + unat c div 64"] idle_def mod_Suc del: of_nat_add of_nat_mult)

lemma decode_groups:
  "idle 4 s \<Longrightarrow> \<exists>t. decode_loop (groups data) s = Inr t \<and> coded t = coded s @ data"
proof (induction data arbitrary: s rule: groups.induct)
  case (2 a)
  then show ?case
    using quad_bytes(1,5) [of a 0]
    by (simp add: quad_def quad_bytes(4) decode_first decode_second [where v = "unat a div 4"] decode_pad idle_def mod_Suc
        del: of_nat_add of_nat_mult)
next
  case (3 a b)
  then show ?case
    using quad_bytes(2) [of a b 0] quad_bytes(6) [of b 0]
    by (simp add: quad_def quad_bytes(1,4,5) decode_first decode_second [where v = "unat a div 4"]
        decode_third [where v = "unat a div 4" and w = "unat a mod 4 * 16 + unat b div 16"]
        decode_pad idle_def mod_Suc del: of_nat_add of_nat_mult)
next
  case (4 a b c ds)
  let ?t = "\<lparr>counter = Suc (Suc (Suc (Suc (counter s)))), offset = 0, bitStream = 0, coded = coded s @ [a, b, c]\<rparr>"
  have "idle 4 ?t" using "4.prems" by (simp add: idle_def mod_Suc)
  then obtain t where "decode_loop (groups ds) ?t = Inr t" "coded t = coded ?t @ ds" using "4.IH" by blast
  then show ?case using decode_quad [OF "4.prems"] by simp
qed simp

lemma base64_decode_encode: "base64Decode (base64Encode data) = Inr data"
  using decode_groups [of codec_init data]
  by (auto simp: base64Decode_def base64Encode_groups codec_init_def idle_def)

text \<open>
  C3: Base64 round trip. Whatever bytes are encoded, decoding the result succeeds and gives them
  back.
\<close>

theorem base64_roundtrip: "base64Decode (base64Encode data) = Inr data"
  by (rule base64_decode_encode)

lemma find_char_None: "find_char xs c = None \<longleftrightarrow> c \<notin> set xs"
  by (induction xs) auto

lemma decode_loop_error:
  "(\<exists>e. decode_loop data s = Inl e) \<longleftrightarrow> (\<exists>c \<in> set data. c \<notin> set base64Alphabet \<and> c \<noteq> pad)"
proof (induction data arbitrary: s)
  case (Cons c cs)
  show ?case
  proof (cases "find_char base64Alphabet c = None \<and> c \<noteq> pad")
    case True
    then have "decode_step c s = Inl InvalidBase64" by (simp add: decode_step_def)
    then show ?thesis using True by (auto simp: find_char_None)
  next
    case False
    then obtain t where "decode_step c s = Inr t" by (cases "c = pad") (auto simp: decode_step_def Let_def find_pad split: option.splits)
    then show ?thesis using Cons [of t] False by (auto simp: find_char_None)
  qed
qed simp

text \<open>
  Base64 errors and sizes. Decoding fails, with the one error the code throws, exactly when the
  input has a byte that is neither in the alphabet nor the padding character; what the encoder
  produces has four characters for every started group of three bytes and never such a byte.
\<close>

theorem base64_error:
  "(base64Decode cs = Inl InvalidBase64 \<longleftrightarrow> (\<exists>c \<in> set cs. c \<notin> set base64Alphabet \<and> c \<noteq> pad))
    \<and> length (base64Encode data) = (length data + 2) div 3 * 4"
proof
  have "base64Decode cs = Inl InvalidBase64 \<longleftrightarrow> (\<exists>e. decode_loop cs codec_init = Inl e)"
    by (cases "decode_loop cs codec_init") (auto simp: base64Decode_def intro: decodeError.exhaust)
  then show "base64Decode cs = Inl InvalidBase64 \<longleftrightarrow> (\<exists>c \<in> set cs. c \<notin> set base64Alphabet \<and> c \<noteq> pad)"
    by (simp add: decode_loop_error)
  have "length (groups data) = (length data + 2) div 3 * 4"
  proof (induction data rule: groups.induct)
    case (4 a b c ds)
    have "(length (a # b # c # ds) + 2) div 3 = (length ds + 2) div 3 + 1" by simp
    then show ?case using 4 by (simp add: quad_def)
  qed (simp_all add: quad_def)
  then show "length (base64Encode data) = (length data + 2) div 3 * 4" by (simp add: base64Encode_groups)
qed

section \<open>CRC-32\<close>

text \<open>
  The reference: the checksum as polynomial division, one bit at a time, with the reflected
  polynomial \<open>0xEDB88320\<close>.
\<close>

definition crc_bit :: "32 word \<Rightarrow> 32 word" where
  "crc_bit x = (if bit x 0 then drop_bit 1 x XOR 0xEDB88320 else drop_bit 1 x)"

definition crc_byte :: "byte \<Rightarrow> 32 word \<Rightarrow> 32 word" where
  "crc_byte b crc = (crc_bit ^^ 8) (crc XOR ucast b)"

definition crc_reference :: "byte list \<Rightarrow> 32 word" where
  "crc_reference data = fold crc_byte data 0xFFFFFFFF XOR 0xFFFFFFFF"

lemma byte_values: "map of_nat [0..<256] =
    ([
     0, 1, 2, 3, 4, 5, 6, 7, 8, 9, 10, 11, 12, 13, 14, 15,
     16, 17, 18, 19, 20, 21, 22, 23, 24, 25, 26, 27, 28, 29, 30, 31,
     32, 33, 34, 35, 36, 37, 38, 39, 40, 41, 42, 43, 44, 45, 46, 47,
     48, 49, 50, 51, 52, 53, 54, 55, 56, 57, 58, 59, 60, 61, 62, 63,
     64, 65, 66, 67, 68, 69, 70, 71, 72, 73, 74, 75, 76, 77, 78, 79,
     80, 81, 82, 83, 84, 85, 86, 87, 88, 89, 90, 91, 92, 93, 94, 95,
     96, 97, 98, 99, 100, 101, 102, 103, 104, 105, 106, 107, 108, 109, 110, 111,
     112, 113, 114, 115, 116, 117, 118, 119, 120, 121, 122, 123, 124, 125, 126, 127,
     128, 129, 130, 131, 132, 133, 134, 135, 136, 137, 138, 139, 140, 141, 142, 143,
     144, 145, 146, 147, 148, 149, 150, 151, 152, 153, 154, 155, 156, 157, 158, 159,
     160, 161, 162, 163, 164, 165, 166, 167, 168, 169, 170, 171, 172, 173, 174, 175,
     176, 177, 178, 179, 180, 181, 182, 183, 184, 185, 186, 187, 188, 189, 190, 191,
     192, 193, 194, 195, 196, 197, 198, 199, 200, 201, 202, 203, 204, 205, 206, 207,
     208, 209, 210, 211, 212, 213, 214, 215, 216, 217, 218, 219, 220, 221, 222, 223,
     224, 225, 226, 227, 228, 229, 230, 231, 232, 233, 234, 235, 236, 237, 238, 239,
     240, 241, 242, 243, 244, 245, 246, 247, 248, 249, 250, 251, 252, 253, 254, 255] :: 32 word list)"
  by code_simp

lemma crc_bit_num: "crc_bit x = (if odd x then (x div 2) XOR 0xEDB88320 else x div 2)"
  by (simp add: crc_bit_def drop_bit_eq_div flip: bit_0)

definition crc8 :: "32 word \<Rightarrow> 32 word" where
  "crc8 x = crc_bit (crc_bit (crc_bit (crc_bit (crc_bit (crc_bit (crc_bit (crc_bit x)))))))"

lemma crc8_table: "map crc8 (map of_nat [0..<256]) = crc32Table"
  unfolding byte_values crc32Table_def by (simp add: crc8_def crc_bit_num)

lemma crc8_funpow: "(crc_bit ^^ 8) x = crc8 x"
  by (simp add: crc8_def numeral_eq_Suc)

lemma crc_table: "i < 256 \<Longrightarrow> crc32Table ! i = crc8 (of_nat i)"
  unfolding crc8_table [symmetric] by simp

lemma crc_bit_xor: "crc_bit (x XOR y) = crc_bit x XOR crc_bit y"
  by (auto simp: crc_bit_def bit_xor_iff drop_bit_xor ac_simps)

lemma crc8_xor: "crc8 (x XOR y) = crc8 x XOR crc8 y"
  by (simp add: crc8_def crc_bit_xor)

lemma crc_bit_even: "\<not> bit x 0 \<Longrightarrow> crc_bit x = drop_bit 1 x"
  by (simp add: crc_bit_def)

lemma crc8_high:
  assumes "take_bit 8 x = 0"
  shows "crc8 x = drop_bit 8 x"
proof -
  have low: "\<not> bit x i" if "i < 8" for i
    using assms that by (metis bit_0_eq bit_take_bit_iff bot_apply bot_bool_def)
  have "(crc_bit ^^ k) x = drop_bit k x" if "k \<le> 8" for k
    using that
  proof (induction k)
    case (Suc k)
    then show ?case using low [of k] by (simp add: crc_bit_even bit_drop_bit_eq drop_bit_drop_bit)
  qed simp
  then show ?thesis using crc8_funpow [of x] by simp
qed

lemma word_split_xor: "x = take_bit 8 x XOR push_bit 8 (drop_bit 8 x)" for x :: "32 word"
  by (rule bit_word_eqI) (auto simp: bit_xor_iff bit_take_bit_iff bit_push_bit_iff bit_drop_bit_eq)

text \<open>One table look-up is eight steps of the division.\<close>

lemma crc_step_byte: "crc_step b crc = crc_byte b crc"
proof -
  define x where "x = crc XOR ucast b"
  have low: "take_bit 8 (push_bit 8 (drop_bit 8 x)) = 0"
    by (rule bit_word_eqI) (auto simp: bit_take_bit_iff bit_push_bit_iff)
  have "crc8 x = crc8 (take_bit 8 x) XOR drop_bit 8 (push_bit 8 (drop_bit 8 x))"
    using word_split_xor [of x] crc8_xor crc8_high [OF low] by metis
  also have "drop_bit 8 (push_bit 8 (drop_bit 8 x)) = drop_bit 8 x"
    by (rule bit_word_eqI) (auto simp: bit_push_bit_iff bit_drop_bit_eq dest: bit_imp_le_length)
  also have "drop_bit 8 x = drop_bit 8 crc"
    by (rule bit_word_eqI)
      (auto simp: x_def bit_xor_iff bit_drop_bit_eq bit_ucast_iff dest: bit_imp_le_length)
  finally have step: "crc8 x = crc8 (take_bit 8 x) XOR drop_bit 8 crc" .
  have idx: "x AND 0xFF = take_bit 8 x" by (simp add: take_bit_eq_mask mask_eq_exp_minus_1)
  have "unat (take_bit 8 x) < 256" using take_bit_nat_less_exp [of 8 "unat x"] by (simp add: unsigned_take_bit_eq)
  then have "crc32Table ! unat (take_bit 8 x) = crc8 (take_bit 8 x)" by (simp add: crc_table)
  then show ?thesis using step by (simp add: crc_step_def crc_byte_def crc8_funpow idx x_def [symmetric])
qed

lemma crc_loop_fold:
  "i + n \<le> length buffer \<Longrightarrow> crc_loop buffer i n crc = Some (fold crc_byte (take n (drop i buffer)) crc)"
proof (induction n arbitrary: i crc)
  case (Suc n)
  then have "take (Suc n) (drop i buffer) = buffer ! i # take n (drop (i + 1) buffer)"
    by (simp add: Cons_nth_drop_Suc [symmetric])
  then show ?case using Suc by (simp add: crc_step_byte)
qed simp

lemma calculateCRC32_reference:
  "calculateCRC32 (Some data) (length data) = Some (crc_reference data)"
  using crc_loop_fold [of 0 "length data" data] by (auto simp: calculateCRC32_def crc_reference_def)

text \<open>
  C28: CRC-32. The table-driven checksum of a buffer is the one obtained by dividing bit by bit with
  the polynomial, for every buffer: all 256 constants of the table are right.
\<close>

theorem crc32_matches_division:
  "calculateCRC32 (Some data) (length data) = Some (crc_reference data)"
  by (rule calculateCRC32_reference)

lemma xor_cancel: "x XOR z = y XOR z \<Longrightarrow> x = y" for x y z :: "32 word"
proof -
  assume "x XOR z = y XOR z"
  then have "(x XOR z) XOR z = (y XOR z) XOR z" by (rule arg_cong)
  then show "x = y" by (simp only: xor.assoc xor_self_eq xor.right_neutral)
qed

lemma xor_cancel_left: "z XOR x = z XOR y \<Longrightarrow> x = y" for x y z :: "32 word"
  using xor_cancel [of x z y] by (simp only: xor.commute)

lemma crc_bit_inj: "crc_bit x = crc_bit y \<Longrightarrow> x = y"
proof -
  have high: "\<not> bit (drop_bit 1 z) 31" for z :: "32 word" by (simp add: bit_drop_bit_eq impossible_bit)
  have poly: "bit (0xEDB88320 :: 32 word) 31" by simp
  assume eq: "crc_bit x = crc_bit y"
  have par: "bit x 0 \<longleftrightarrow> bit y 0"
  proof (rule ccontr)
    assume "bit x 0 \<noteq> bit y 0"
    then have "bit (crc_bit x) 31 \<noteq> bit (crc_bit y) 31" using high poly by (auto simp: crc_bit_def bit_xor_iff)
    then show False using eq by simp
  qed
  then have "drop_bit 1 x = drop_bit 1 y"
    using eq xor_cancel [of "drop_bit 1 x" _ "drop_bit 1 y"] by (auto simp: crc_bit_def split: if_splits)
  then have "bit x (Suc n) = bit y (Suc n)" for n by (metis bit_drop_bit_eq comp_apply plus_1_eq_Suc)
  then show "x = y" using par by (metis bit_word_eqI not0_implies_Suc)
qed

lemma crc8_inj: "crc8 x = crc8 y \<Longrightarrow> x = y"
  by (auto simp: crc8_def dest!: crc_bit_inj)

lemma crc_byte_inj: "crc_byte b x = crc_byte b y \<Longrightarrow> x = y"
  unfolding crc_byte_def crc8_funpow by (drule crc8_inj) (rule xor_cancel)

lemma crc_byte_differs: "b \<noteq> c \<Longrightarrow> crc_byte b x \<noteq> crc_byte c x"
proof
  assume "b \<noteq> c" "crc_byte b x = crc_byte c x"
  then have "x XOR ucast b = x XOR ucast c" unfolding crc_byte_def crc8_funpow by (blast dest: crc8_inj)
  then have "(ucast b :: 32 word) = ucast c" by (rule xor_cancel_left)
  then have "unat (ucast b :: 32 word) = unat (ucast c :: 32 word)" by simp
  moreover have "unat (ucast x :: 32 word) = unat x" for x :: byte
    using byte_bound [of x] by (simp add: unsigned_ucast_eq take_bit_nat_eq_self)
  ultimately show False using \<open>b \<noteq> c\<close> by (simp add: word_unat_eq_iff)
qed

lemma crc_fold_inj: "fold crc_byte data x = fold crc_byte data y \<Longrightarrow> x = y"
  by (induction data arbitrary: x y) (auto dest: crc_byte_inj)

text \<open>
  The checksum detects every error that is confined to one byte: a buffer and the same buffer
  with one byte replaced by another value have different checksums.
\<close>

theorem crc32_detects_byte:
  assumes "i < length data" "c \<noteq> data ! i"
  shows "calculateCRC32 (Some (data[i := c])) (length data) \<noteq> calculateCRC32 (Some data) (length data)"
proof
  assume eq: "calculateCRC32 (Some (data[i := c])) (length data) = calculateCRC32 (Some data) (length data)"
  let ?x = "fold crc_byte (take i data) 0xFFFFFFFF"
  have split: "data = take i data @ data ! i # drop (Suc i) data" using assms(1) by (simp add: id_take_nth_drop)
  have "data[i := c] = take i data @ c # drop (Suc i) data" using assms(1) by (simp add: upd_conv_take_nth_drop)
  then have "fold crc_byte (data[i := c]) 0xFFFFFFFF = fold crc_byte (drop (Suc i) data) (crc_byte c ?x)" by simp
  moreover have "fold crc_byte data 0xFFFFFFFF = fold crc_byte (drop (Suc i) data) (crc_byte (data ! i) ?x)"
    using arg_cong [OF split, of "\<lambda>d. fold crc_byte d 0xFFFFFFFF"] by simp
  moreover have "crc_reference (data[i := c]) = crc_reference data"
    using eq calculateCRC32_reference [of data] calculateCRC32_reference [of "data[i := c]"] by simp
  then have "fold crc_byte (data[i := c]) 0xFFFFFFFF = fold crc_byte data 0xFFFFFFFF"
    unfolding crc_reference_def by (rule xor_cancel)
  ultimately have "crc_byte c ?x = crc_byte (data ! i) ?x" using crc_fold_inj by metis
  then show False using crc_byte_differs [OF assms(2)] by blast
qed

theorem crc32_detects_byte_witness:
  "calculateCRC32 (Some ([49, 50, 51][1 := 0])) (length [49, 50, 51 :: byte])
    \<noteq> calculateCRC32 (Some [49, 50, 51]) (length [49, 50, 51 :: byte])"
  by (rule crc32_detects_byte) simp_all

end
