(* ===== verification/UT_Lock.thy ===== *)
theory UT_Lock
  imports Foo_Prelude
begin

text \<open>
  The locks of \<open>src/utility/source/common.cpp\<close> as step relations over the threads that use them:
  \<open>SpinLock\<close>, and \<open>ReadWriteLock\<close> driven by \<open>LockGuard\<close>. A thread is a number, its program counter says
  how far it is in the member function it executes; one step is one operation on a shared object
  (the atomic flag, the \<open>std::shared_mutex\<close>, the \<open>std::mutex\<close> with the counters it protects, the
  condition variable). The interleaving of the threads is arbitrary.

  The counters are \<open>std::atomic_uint_fast64_t\<close>: natural numbers with the wrap-around at \<open>2 ^ 64\<close>
  written out. A thread that waits on the condition variable goes on only after a notification.
\<close>

inductive steps :: "('s \<Rightarrow> 's \<Rightarrow> bool) \<Rightarrow> 's \<Rightarrow> 's \<Rightarrow> bool" for r where
  steps_refl: "steps r s s"
| steps_step: "steps r s t \<Longrightarrow> r t u \<Longrightarrow> steps r s u"

lemma steps_invariant:
  assumes "steps r s t" "I s" "\<And>s t. I s \<Longrightarrow> r s t \<Longrightarrow> I t"
  shows "I t"
  using assms by (induction rule: steps.induct) auto

section \<open>SpinLock\<close>

datatype spinPC = SIdle | SSpin | SHeld

record spin =
  flag :: bool
  spc :: "nat \<Rightarrow> spinPC"

definition test_and_set :: "spin \<Rightarrow> bool \<times> spin" where
  "test_and_set s = (flag s, s\<lparr>flag := True\<rparr>)"

definition spin_lock :: "nat \<Rightarrow> spin \<Rightarrow> spin" where
  "spin_lock t s =
     (case test_and_set s of (old, s') \<Rightarrow> s'\<lparr>spc := (spc s')(t := if old then SSpin else SHeld)\<rparr>)"

definition spin_tryLock :: "nat \<Rightarrow> spin \<Rightarrow> spin" where
  "spin_tryLock t s =
     (case test_and_set s of (old, s') \<Rightarrow> s'\<lparr>spc := (spc s')(t := if \<not> old then SHeld else SIdle)\<rparr>)"

definition spin_unlock :: "nat \<Rightarrow> spin \<Rightarrow> spin" where
  "spin_unlock t s = s\<lparr>flag := False, spc := (spc s)(t := SIdle)\<rparr>"

text \<open>
  A thread that does not hold the lock calls \<open>lock\<close> (and, while it spins, repeats the test) or
  \<open>tryLock\<close>; the holder calls \<open>unlock\<close>.
\<close>

inductive spin_step :: "spin \<Rightarrow> spin \<Rightarrow> bool" where
  "spc s t \<in> {SIdle, SSpin} \<Longrightarrow> spin_step s (spin_lock t s)"
| "spc s t = SIdle \<Longrightarrow> spin_step s (spin_tryLock t s)"
| "spc s t = SHeld \<Longrightarrow> spin_step s (spin_unlock t s)"

definition spin_init :: spin where
  "spin_init = \<lparr>flag = False, spc = (\<lambda>_. SIdle)\<rparr>"

definition spin_inv :: "spin \<Rightarrow> bool" where
  "spin_inv s \<longleftrightarrow> (flag s \<longleftrightarrow> (\<exists>t. spc s t = SHeld)) \<and> (\<forall>t u. spc s t = SHeld \<and> spc s u = SHeld \<longrightarrow> t = u)"

lemma spin_inv_step:
  assumes "spin_step s s'" "spin_inv s"
  shows "spin_inv s'"
  using assms
proof (induction rule: spin_step.induct)
  case (1 s t)
  then show ?case by (cases "flag s") (force simp: spin_inv_def spin_lock_def test_and_set_def)+
next
  case (2 s t)
  then show ?case by (cases "flag s") (force simp: spin_inv_def spin_tryLock_def test_and_set_def)+
next
  case (3 s t)
  then show ?case by (auto simp: spin_inv_def spin_unlock_def split: if_splits)
qed

section \<open>ReadWriteLock and LockGuard\<close>

datatype LockMode = LockMode_read | LockMode_write

text \<open>
  Program counters. \<open>RBegin\<close> to \<open>RDone\<close> is \<open>readLock\<close>: before the shared lock, before the mutex, with the
  mutex at the predicate, waiting, counted but with the shared lock still held. \<open>RUBegin\<close> to \<open>RUNotify\<close>
  is \<open>readUnlock\<close>: before the mutex, with the mutex, before the notification.
\<close>

datatype pc =
    Idle
  | RBegin | RWant | RCheck | RBlocked | RDone | Reading | RUBegin | RUMtx | RUNotify
  | WBegin | WWant | WCheck | WBlocked | WDone | Writing | WUBegin | WUMtx | WUNotify

record rwlock =
  shared :: "nat set"
  excl :: "nat option"
  mtx :: "nat option"
  reader :: nat
  writer :: nat
  pcs :: "nat \<Rightarrow> pc"

definition goto :: "nat \<Rightarrow> pc \<Rightarrow> rwlock \<Rightarrow> rwlock" where
  "goto t p s = s\<lparr>pcs := (pcs s)(t := p)\<rparr>"

definition fetch_add :: "nat \<Rightarrow> nat" where
  "fetch_add n = (n + 1) mod 2 ^ 64"

definition fetch_sub :: "nat \<Rightarrow> nat" where
  "fetch_sub n = (n + (2 ^ 64 - 1)) mod 2 ^ 64"

text \<open>A waiting thread that is woken competes for the mutex again.\<close>

definition wake :: "pc \<Rightarrow> pc" where
  "wake p = (if p = RBlocked then RWant else if p = WBlocked then WWant else p)"

definition notify_all :: "rwlock \<Rightarrow> rwlock" where
  "notify_all s = s\<lparr>pcs := (\<lambda>t. wake (pcs s t))\<rparr>"

fun guard_ctor :: "LockMode \<Rightarrow> pc" where
  "guard_ctor LockMode_read = RBegin"
| "guard_ctor LockMode_write = WBegin"

fun guard_dtor :: "LockMode \<Rightarrow> pc" where
  "guard_dtor LockMode_read = RUBegin"
| "guard_dtor LockMode_write = WUBegin"

fun held :: "LockMode \<Rightarrow> pc" where
  "held LockMode_read = Reading"
| "held LockMode_write = Writing"

text \<open>The steps of one thread inside the four member functions.\<close>

inductive readLock :: "nat \<Rightarrow> rwlock \<Rightarrow> rwlock \<Rightarrow> bool" for t s where
  "pcs s t = RBegin \<Longrightarrow> excl s = None \<Longrightarrow> readLock t s (goto t RWant (s\<lparr>shared := insert t (shared s)\<rparr>))"
| "pcs s t = RWant \<Longrightarrow> mtx s = None \<Longrightarrow> readLock t s (goto t RCheck (s\<lparr>mtx := Some t\<rparr>))"
| "pcs s t = RCheck \<Longrightarrow> writer s = 0 \<Longrightarrow>
    readLock t s (goto t RDone (s\<lparr>reader := fetch_add (reader s), mtx := None\<rparr>))"
| "pcs s t = RCheck \<Longrightarrow> writer s \<noteq> 0 \<Longrightarrow> readLock t s (goto t RBlocked (s\<lparr>mtx := None\<rparr>))"
| "pcs s t = RDone \<Longrightarrow> readLock t s (goto t Reading (s\<lparr>shared := shared s - {t}\<rparr>))"

inductive readUnlock :: "nat \<Rightarrow> rwlock \<Rightarrow> rwlock \<Rightarrow> bool" for t s where
  "pcs s t = RUBegin \<Longrightarrow> mtx s = None \<Longrightarrow> readUnlock t s (goto t RUMtx (s\<lparr>mtx := Some t\<rparr>))"
| "pcs s t = RUMtx \<Longrightarrow>
    readUnlock t s (goto t RUNotify (s\<lparr>reader := fetch_sub (reader s), mtx := None\<rparr>))"
| "pcs s t = RUNotify \<Longrightarrow> readUnlock t s (goto t Idle (notify_all s))"

inductive writeLock :: "nat \<Rightarrow> rwlock \<Rightarrow> rwlock \<Rightarrow> bool" for t s where
  "pcs s t = WBegin \<Longrightarrow> excl s = None \<Longrightarrow> shared s = {} \<Longrightarrow> writeLock t s (goto t WWant (s\<lparr>excl := Some t\<rparr>))"
| "pcs s t = WWant \<Longrightarrow> mtx s = None \<Longrightarrow> writeLock t s (goto t WCheck (s\<lparr>mtx := Some t\<rparr>))"
| "pcs s t = WCheck \<Longrightarrow> reader s = 0 \<Longrightarrow> writer s = 0 \<Longrightarrow>
    writeLock t s (goto t WDone (s\<lparr>writer := fetch_add (writer s), mtx := None\<rparr>))"
| "pcs s t = WCheck \<Longrightarrow> \<not> (reader s = 0 \<and> writer s = 0) \<Longrightarrow>
    writeLock t s (goto t WBlocked (s\<lparr>mtx := None\<rparr>))"
| "pcs s t = WDone \<Longrightarrow> writeLock t s (goto t Writing (s\<lparr>excl := None\<rparr>))"

inductive writeUnlock :: "nat \<Rightarrow> rwlock \<Rightarrow> rwlock \<Rightarrow> bool" for t s where
  "pcs s t = WUBegin \<Longrightarrow> mtx s = None \<Longrightarrow> writeUnlock t s (goto t WUMtx (s\<lparr>mtx := Some t\<rparr>))"
| "pcs s t = WUMtx \<Longrightarrow>
    writeUnlock t s (goto t WUNotify (s\<lparr>writer := fetch_sub (writer s), mtx := None\<rparr>))"
| "pcs s t = WUNotify \<Longrightarrow> writeUnlock t s (goto t Idle (notify_all s))"

text \<open>A thread constructs a guard, goes through the lock function, and destroys the guard.\<close>

inductive guard_step :: "nat \<Rightarrow> rwlock \<Rightarrow> rwlock \<Rightarrow> bool" for t s where
  ctor: "pcs s t = Idle \<Longrightarrow> guard_step t s (goto t (guard_ctor mode) s)"
| dtor: "pcs s t = held mode \<Longrightarrow> guard_step t s (goto t (guard_dtor mode) s)"
| rlock: "readLock t s s' \<Longrightarrow> guard_step t s s'"
| runlock: "readUnlock t s s' \<Longrightarrow> guard_step t s s'"
| wlock: "writeLock t s s' \<Longrightarrow> guard_step t s s'"
| wunlock: "writeUnlock t s s' \<Longrightarrow> guard_step t s s'"

text \<open>
  A program with the threads below \<open>N\<close>. A condition variable may also wake a thread that nobody
  notified.
\<close>

inductive rw_step :: "nat \<Rightarrow> rwlock \<Rightarrow> rwlock \<Rightarrow> bool" for N where
  thread: "t < N \<Longrightarrow> guard_step t s s' \<Longrightarrow> rw_step N s s'"
| spurious: "pcs s t = RBlocked \<or> pcs s t = WBlocked \<Longrightarrow> rw_step N s (goto t (wake (pcs s t)) s)"

definition rw_init :: rwlock where
  "rw_init = \<lparr>shared = {}, excl = None, mtx = None, reader = 0, writer = 0, pcs = (\<lambda>_. Idle)\<rparr>"

section \<open>The invariant of ReadWriteLock\<close>

definition in_pcs :: "pc set \<Rightarrow> rwlock \<Rightarrow> nat set" where
  "in_pcs P s = {t. pcs s t \<in> P}"

abbreviation r_locking :: "pc set" where "r_locking \<equiv> {RWant, RCheck, RBlocked, RDone}"
abbreviation w_locking :: "pc set" where "w_locking \<equiv> {WWant, WCheck, WBlocked, WDone}"
abbreviation in_mtx :: "pc set" where "in_mtx \<equiv> {RCheck, WCheck, RUMtx, WUMtx}"
abbreviation r_counted :: "pc set" where "r_counted \<equiv> {RDone, Reading, RUBegin, RUMtx}"
abbreviation w_counted :: "pc set" where "w_counted \<equiv> {WDone, Writing, WUBegin, WUMtx}"

lemma in_pcs_goto: "in_pcs P (goto t p s) = (if p \<in> P then insert t (in_pcs P s) else in_pcs P s - {t})"
  by (auto simp: in_pcs_def goto_def)

lemma in_pcs_fields [simp]:
  "in_pcs P (s\<lparr>shared := a\<rparr>) = in_pcs P s" "in_pcs P (s\<lparr>excl := b\<rparr>) = in_pcs P s"
  "in_pcs P (s\<lparr>mtx := c\<rparr>) = in_pcs P s" "in_pcs P (s\<lparr>reader := d\<rparr>) = in_pcs P s"
  "in_pcs P (s\<lparr>writer := e\<rparr>) = in_pcs P s"
  by (simp_all add: in_pcs_def)

lemma goto_fields [simp]:
  "shared (goto t p s) = shared s" "excl (goto t p s) = excl s" "mtx (goto t p s) = mtx s"
  "reader (goto t p s) = reader s" "writer (goto t p s) = writer s"
  by (simp_all add: goto_def)

lemma notify_fields [simp]:
  "shared (notify_all s) = shared s" "excl (notify_all s) = excl s" "mtx (notify_all s) = mtx s"
  "reader (notify_all s) = reader s" "writer (notify_all s) = writer s"
  by (simp_all add: notify_all_def wake_def)

lemma in_pcs_notify:
  "(RBlocked \<in> P \<longleftrightarrow> RWant \<in> P) \<Longrightarrow> (WBlocked \<in> P \<longleftrightarrow> WWant \<in> P) \<Longrightarrow> in_pcs P (notify_all s) = in_pcs P s"
  by (auto simp: in_pcs_def notify_all_def wake_def)

lemma in_pcs_iff: "t \<in> in_pcs P s \<longleftrightarrow> pcs s t \<in> P"
  by (simp add: in_pcs_def)

definition locks_inv :: "rwlock \<Rightarrow> bool" where
  "locks_inv s \<longleftrightarrow> (\<forall>t. t \<in> shared s \<longleftrightarrow> pcs s t \<in> r_locking) \<and> (\<forall>t. excl s = Some t \<longleftrightarrow> pcs s t \<in> w_locking)
     \<and> (\<forall>t. mtx s = Some t \<longleftrightarrow> pcs s t \<in> in_mtx) \<and> (shared s = {} \<or> excl s = None)"

definition count_inv :: "nat \<Rightarrow> rwlock \<Rightarrow> bool" where
  "count_inv N s \<longleftrightarrow> in_pcs (- {Idle}) s \<subseteq> {..<N} \<and> reader s = card (in_pcs r_counted s)
     \<and> writer s = card (in_pcs w_counted s) \<and> (writer s = 0 \<or> writer s = 1 \<and> reader s = 0)"

definition wake_inv :: "rwlock \<Rightarrow> bool" where
  "wake_inv s \<longleftrightarrow>
     (in_pcs {RBlocked} s = {} \<or> writer s \<noteq> 0 \<or> in_pcs {RUNotify, WUNotify} s \<noteq> {})
     \<and> (in_pcs {WBlocked} s = {} \<or> reader s \<noteq> 0 \<or> writer s \<noteq> 0 \<or> in_pcs {RUNotify, WUNotify} s \<noteq> {})"

lemma mtx_unique: "locks_inv s \<Longrightarrow> pcs s x \<in> in_mtx \<Longrightarrow> pcs s y \<in> in_mtx \<Longrightarrow> x = y"
  unfolding locks_inv_def by (metis option.inject)

lemma excl_unique: "locks_inv s \<Longrightarrow> pcs s x \<in> w_locking \<Longrightarrow> pcs s y \<in> w_locking \<Longrightarrow> x = y"
  unfolding locks_inv_def by (metis option.inject)

lemma locks_inv_step:
  assumes "guard_step t s s'" "locks_inv s"
  shows "locks_inv s'"
proof -
  have um: "x = t" if "pcs s t \<in> in_mtx" "pcs s x \<in> in_mtx" for x using mtx_unique assms(2) that by blast
  have ue: "x = t" if "pcs s t \<in> w_locking" "pcs s x \<in> w_locking" for x using excl_unique assms(2) that by blast
  from assms(1) show ?thesis
  proof cases
    case (ctor mode)
    then show ?thesis using assms(2) by (cases mode) (auto simp: locks_inv_def goto_def)
  next
    case (dtor mode)
    then show ?thesis using assms(2) by (cases mode) (auto simp: locks_inv_def goto_def)
  next
    case rlock
    then show ?thesis using assms(2) um by cases (auto simp: locks_inv_def goto_def)
  next
    case runlock
    then show ?thesis using assms(2) um by cases (auto simp: locks_inv_def goto_def notify_all_def wake_def)
  next
    case wlock
    then show ?thesis using assms(2) um ue by cases (auto simp: locks_inv_def goto_def)
  next
    case wunlock
    then show ?thesis using assms(2) um by cases (auto simp: locks_inv_def goto_def notify_all_def wake_def)
  qed
qed

lemma fetch_sub_add [simp]: "fetch_sub (Suc n) = n" if "n < 2 ^ 64"
proof -
  have "Suc n + (2 ^ 64 - 1) = n + 2 ^ 64" by simp
  then have "fetch_sub (Suc n) = (n + 2 ^ 64) mod 2 ^ 64" by (simp only: fetch_sub_def)
  then show ?thesis using that by simp
qed

lemma fetch_add_small: "n + 1 < 2 ^ 64 \<Longrightarrow> fetch_add n = n + 1"
  by (simp add: fetch_add_def)

lemma in_pcs_bound:
  "count_inv N s \<Longrightarrow> Idle \<notin> P \<Longrightarrow> finite (in_pcs P s) \<and> in_pcs P s \<subseteq> {..<N}"
proof -
  assume "count_inv N s" "Idle \<notin> P"
  then have "in_pcs P s \<subseteq> in_pcs (- {Idle}) s" "in_pcs (- {Idle}) s \<subseteq> {..<N}"
    by (auto simp: in_pcs_def count_inv_def)
  then have "in_pcs P s \<subseteq> {..<N}" by blast
  then show ?thesis using finite_subset [of _ "{..<N}"] by blast
qed

lemma count_add:
  assumes "count_inv N s" "Idle \<notin> P" "pcs s t \<notin> P" "t < N" "N < 2 ^ 64"
  shows "fetch_add (card (in_pcs P s)) = card (insert t (in_pcs P s))"
proof -
  have fin: "finite (in_pcs P s)" "t \<notin> in_pcs P s" "insert t (in_pcs P s) \<subseteq> {..<N}"
    using in_pcs_bound [OF assms(1,2)] assms(3,4) by (auto simp: in_pcs_def)
  then have "card (insert t (in_pcs P s)) \<le> N" using card_mono [OF finite_lessThan fin(3)] by simp
  then show ?thesis using fin assms(5) by (simp add: fetch_add_small)
qed

lemma count_sub:
  assumes "count_inv N s" "Idle \<notin> P" "pcs s t \<in> P" "N < 2 ^ 64"
  shows "fetch_sub (card (in_pcs P s)) = card (in_pcs P s - {t})"
proof -
  have fin: "finite (in_pcs P s)" "t \<in> in_pcs P s" "in_pcs P s \<subseteq> {..<N}"
    using in_pcs_bound [OF assms(1,2)] assms(3) by (auto simp: in_pcs_def)
  then have "card (in_pcs P s) = Suc (card (in_pcs P s - {t}))" using card_Suc_Diff1 by metis
  moreover have "card (in_pcs P s) \<le> N" using card_mono [OF finite_lessThan fin(3)] by simp
  ultimately show ?thesis using assms(4) by simp
qed

lemma count_inv_step:
  assumes "guard_step t s s'" "count_inv N s" "t < N" "N < 2 ^ 64"
  shows "count_inv N s'"
proof -
  let ?R = "in_pcs r_counted s" and ?W = "in_pcs w_counted s"
  have add: "fetch_add (card (in_pcs P s)) = card (insert t (in_pcs P s))" if "Idle \<notin> P" "pcs s t \<notin> P" for P
    using count_add assms that by blast
  have sub: "fetch_sub (card (in_pcs P s)) = card (in_pcs P s - {t})" if "Idle \<notin> P" "pcs s t \<in> P" for P
    using count_sub assms that by blast
  have fin: "finite ?R" "finite ?W" using in_pcs_bound [OF assms(2)] by auto
  have self: "t \<in> in_pcs P s \<longleftrightarrow> pcs s t \<in> P" for P by (rule in_pcs_iff)
  from assms(1) show ?thesis
  proof cases
    case (ctor mode)
    then show ?thesis using assms(2,3) by (cases mode) (auto simp: count_inv_def in_pcs_goto self)
  next
    case (dtor mode)
    then show ?thesis using assms(2,3)
      by (cases mode) (auto simp: count_inv_def in_pcs_goto self insert_absorb)
  next
    case rlock
    then show ?thesis
    proof cases
      case 3
      then show ?thesis using assms(2,3) add [of r_counted] by (auto simp: count_inv_def in_pcs_goto self)
    qed (use assms(2,3) in \<open>auto simp: count_inv_def in_pcs_goto self insert_absorb\<close>)
  next
    case runlock
    then show ?thesis
    proof cases
      case 2
      then show ?thesis using assms(2,3) sub [of r_counted] by (auto simp: count_inv_def in_pcs_goto self)
    qed (use assms(2,3) in \<open>auto simp: count_inv_def in_pcs_goto in_pcs_notify self insert_absorb\<close>)
  next
    case wlock
    then show ?thesis
    proof cases
      case 3
      then show ?thesis using assms(2,3) add [of w_counted] fin by (auto simp: count_inv_def in_pcs_goto self)
    qed (use assms(2,3) in \<open>auto simp: count_inv_def in_pcs_goto self insert_absorb\<close>)
  next
    case wunlock
    then show ?thesis
    proof cases
      case 2
      then show ?thesis using assms(2,3) sub [of w_counted] fin by (auto simp: count_inv_def in_pcs_goto self)
    qed (use assms(2,3) in \<open>auto simp: count_inv_def in_pcs_goto in_pcs_notify self insert_absorb\<close>)
  qed
qed

lemma counted_pos: "count_inv N s \<Longrightarrow> Idle \<notin> P \<Longrightarrow> pcs s t \<in> P \<Longrightarrow> card (in_pcs P s) \<noteq> 0"
  using in_pcs_bound [of N s P] in_pcs_iff [of t P s] by (metis card_eq_0_iff empty_iff)

lemma wake_inv_step:
  assumes "guard_step t s s'" "wake_inv s" "count_inv N s'"
  shows "wake_inv s'"
proof -
  have r: "reader s' \<noteq> 0" if "pcs s' t \<in> r_counted"
    using counted_pos [OF assms(3), of r_counted] that assms(3) by (simp add: count_inv_def)
  have w: "writer s' \<noteq> 0" if "pcs s' t \<in> w_counted"
    using counted_pos [OF assms(3), of w_counted] that assms(3) by (simp add: count_inv_def)
  have self: "t \<in> in_pcs P s \<longleftrightarrow> pcs s t \<in> P" for P by (rule in_pcs_iff)
  have woken: "in_pcs {RBlocked} (notify_all s) = {}" "in_pcs {WBlocked} (notify_all s) = {}"
    by (auto simp: in_pcs_def notify_all_def wake_def)
  have pc: "pcs (goto t p x) t = p" for p x by (simp add: goto_def)
  from assms(1) show ?thesis
  proof cases
    case (ctor mode)
    then show ?thesis using assms(2) by (cases mode) (auto simp: wake_inv_def in_pcs_goto self)
  next
    case (dtor mode)
    then show ?thesis using assms(2) by (cases mode) (auto simp: wake_inv_def in_pcs_goto self)
  next
    case rlock
    then show ?thesis
    proof cases
      case 3
      then show ?thesis using assms(2) r by (simp add: pc wake_inv_def in_pcs_goto self)
    qed (use assms(2) in \<open>auto simp: wake_inv_def in_pcs_goto self\<close>)
  next
    case runlock
    then show ?thesis
      using assms(2) by cases (auto simp: wake_inv_def in_pcs_goto self woken)
  next
    case wlock
    then show ?thesis
    proof cases
      case 3
      then show ?thesis using w by (simp add: pc wake_inv_def in_pcs_goto self)
    qed (use assms(2) in \<open>auto simp: wake_inv_def in_pcs_goto self\<close>)
  next
    case wunlock
    then show ?thesis
      using assms(2) by cases (auto simp: wake_inv_def in_pcs_goto self woken)
  qed
qed

definition rw_inv :: "nat \<Rightarrow> rwlock \<Rightarrow> bool" where
  "rw_inv N s \<longleftrightarrow> locks_inv s \<and> count_inv N s \<and> wake_inv s"

lemma rw_inv_init: "rw_inv N rw_init"
  by (auto simp: rw_inv_def locks_inv_def count_inv_def wake_inv_def rw_init_def in_pcs_def)

lemma rw_inv_spurious:
  assumes "rw_inv N s" "pcs s t = RBlocked \<or> pcs s t = WBlocked"
  shows "rw_inv N (goto t (wake (pcs s t)) s)"
proof -
  have same: "in_pcs P (goto t (wake (pcs s t)) s) = in_pcs P s"
    if "RBlocked \<in> P \<longleftrightarrow> RWant \<in> P" "WBlocked \<in> P \<longleftrightarrow> WWant \<in> P" for P
    using assms(2) that by (auto simp: in_pcs_goto in_pcs_iff wake_def)
  have less: "in_pcs {p} (goto t (wake (pcs s t)) s) \<subseteq> in_pcs {p} s" if "p = RBlocked \<or> p = WBlocked" for p
    using assms(2) that by (auto simp: in_pcs_goto wake_def)
  have "locks_inv (goto t (wake (pcs s t)) s)"
    using assms unfolding rw_inv_def locks_inv_def by (auto simp: goto_def wake_def)
  moreover have "count_inv N (goto t (wake (pcs s t)) s)"
    using assms(1) unfolding rw_inv_def count_inv_def by (auto simp: same)
  moreover have "wake_inv (goto t (wake (pcs s t)) s)"
    using assms(1) less [of RBlocked] less [of WBlocked] unfolding rw_inv_def wake_inv_def by (auto simp: same)
  ultimately show ?thesis by (simp add: rw_inv_def)
qed

lemma rw_inv_step:
  assumes "rw_inv N s" "rw_step N s s'" "N < 2 ^ 64"
  shows "rw_inv N s'"
  using assms(2)
proof cases
  case (thread t)
  then show ?thesis using assms(1,3) unfolding rw_inv_def
    by (blast intro: locks_inv_step count_inv_step wake_inv_step)
next
  case (spurious t)
  then show ?thesis using rw_inv_spurious [OF assms(1)] by blast
qed

lemma rw_reachable: "steps (rw_step N) rw_init s \<Longrightarrow> N < 2 ^ 64 \<Longrightarrow> rw_inv N s"
  using steps_invariant [of "rw_step N" rw_init s "rw_inv N"] rw_inv_init rw_inv_step by blast

section \<open>Properties\<close>

text \<open>
  The spin lock excludes. In every state that threads calling \<open>lock\<close>, \<open>tryLock\<close> and \<open>unlock\<close> can
  reach, at most one thread holds the lock, and the flag is set exactly when one does.
\<close>

theorem spin_mutual_exclusion:
  assumes "steps spin_step spin_init s"
  shows "(spc s t = SHeld \<longrightarrow> spc s u = SHeld \<longrightarrow> t = u) \<and> (flag s \<longleftrightarrow> (\<exists>v. spc s v = SHeld))"
proof -
  have "spin_inv spin_init" by (simp add: spin_inv_def spin_init_def)
  then have "spin_inv s" using steps_invariant [OF assms, of spin_inv] spin_inv_step by blast
  then show ?thesis by (auto simp: spin_inv_def)
qed

theorem spin_mutual_exclusion_witness:
  "spc (spin_lock 1 spin_init) 1 = SHeld \<and> spc (spin_lock 1 spin_init) 2 \<noteq> SHeld \<and> flag (spin_lock 1 spin_init)"
proof -
  have "steps spin_step spin_init (spin_lock 1 spin_init)"
    by (rule steps_step [OF steps_refl], rule spin_step.intros(1)) (simp add: spin_init_def)
  moreover have "spc (spin_lock 1 spin_init) 1 = SHeld" by (simp add: spin_lock_def spin_init_def test_and_set_def)
  ultimately show ?thesis using spin_mutual_exclusion [of "spin_lock 1 spin_init" 1 2] by auto
qed

text \<open>
  C4: the read-write lock excludes. In every state that any number of threads below 2^64 can reach
  through guards, while a thread writes no other thread writes or reads, and the two counters are
  the numbers of threads that have been let in and not yet signed off.
\<close>

theorem rw_mutual_exclusion:
  assumes "steps (rw_step N) rw_init s" "N < 2 ^ 64"
  shows "(pcs s t = Writing \<longrightarrow> u \<noteq> t \<longrightarrow> pcs s u \<noteq> Writing \<and> pcs s u \<noteq> Reading)
    \<and> reader s = card {v. pcs s v \<in> {RDone, Reading, RUBegin, RUMtx}}
    \<and> writer s = card {v. pcs s v \<in> {WDone, Writing, WUBegin, WUMtx}}"
proof -
  have inv: "count_inv N s" using rw_reachable [OF assms] by (simp add: rw_inv_def)
  have fin: "finite (in_pcs r_counted s)" "finite (in_pcs w_counted s)" using in_pcs_bound [OF inv] by auto
  have "pcs s u \<noteq> Writing \<and> pcs s u \<noteq> Reading" if tw: "pcs s t = Writing" and ne: "u \<noteq> t"
  proof -
    have "t \<in> in_pcs w_counted s" using tw by (simp add: in_pcs_iff)
    then have "writer s \<noteq> 0" using inv fin(2) by (auto simp: count_inv_def)
    then have one: "card (in_pcs w_counted s) = 1" and none: "card (in_pcs r_counted s) = 0"
      using inv by (auto simp: count_inv_def)
    have "u \<notin> in_pcs w_counted s" using one \<open>t \<in> in_pcs w_counted s\<close> ne by (auto simp: card_1_singleton_iff)
    moreover have "u \<notin> in_pcs r_counted s" using none fin(1) by auto
    ultimately show ?thesis by (auto simp: in_pcs_iff)
  qed
  then show ?thesis using inv by (simp add: count_inv_def in_pcs_def)
qed

text \<open>A run in which thread 0 acquires the lock for writing.\<close>

definition writing :: rwlock where
  "writing = rw_init\<lparr>writer := 1, pcs := (\<lambda>_. Idle)(0 := Writing)\<rparr>"

lemma writing_reachable: "steps (rw_step 2) rw_init writing"
proof -
  have run: "steps (rw_step 2) rw_init s'" if "steps (rw_step 2) rw_init s" "guard_step 0 s s'" for s s'
    by (rule steps_step [OF that(1) rw_step.thread [OF _ that(2)]]) simp
  let ?at = "\<lambda>p s. s\<lparr>pcs := (\<lambda>_. Idle)(0 := p)\<rparr>"
  have "steps (rw_step 2) rw_init (?at WBegin rw_init)"
    by (rule run [OF steps_refl [of _ rw_init]]) (use guard_step.ctor [of rw_init 0 LockMode_write] in \<open>simp add: goto_def rw_init_def\<close>)
  then have "steps (rw_step 2) rw_init (?at WWant (rw_init\<lparr>excl := Some 0\<rparr>))"
    by (rule run) (use guard_step.wlock [OF writeLock.intros(1), of "?at WBegin rw_init" 0] in \<open>simp add: goto_def rw_init_def\<close>)
  then have "steps (rw_step 2) rw_init (?at WCheck (rw_init\<lparr>excl := Some 0, mtx := Some 0\<rparr>))"
    by (rule run) (use guard_step.wlock [OF writeLock.intros(2), of "?at WWant (rw_init\<lparr>excl := Some 0\<rparr>)" 0]
        in \<open>simp add: goto_def rw_init_def\<close>)
  then have "steps (rw_step 2) rw_init (?at WDone (rw_init\<lparr>excl := Some 0, writer := 1\<rparr>))"
    by (rule run) (use guard_step.wlock [OF writeLock.intros(3), of "?at WCheck (rw_init\<lparr>excl := Some 0, mtx := Some 0\<rparr>)" 0]
        in \<open>simp add: goto_def rw_init_def fetch_add_def\<close>)
  then show ?thesis unfolding writing_def
    by (rule run) (use guard_step.wlock [OF writeLock.intros(5), of "?at WDone (rw_init\<lparr>excl := Some 0, writer := 1\<rparr>)" 0]
        in \<open>simp add: goto_def rw_init_def\<close>)
qed

theorem rw_mutual_exclusion_witness:
  "pcs writing 0 = Writing \<and> pcs writing 1 \<noteq> Writing \<and> pcs writing 1 \<noteq> Reading
    \<and> writer writing = card {v. pcs writing v \<in> {WDone, Writing, WUBegin, WUMtx}}"
proof -
  have w: "pcs writing 0 = Writing" by (simp add: writing_def)
  have "(2 :: nat) < 2 ^ 64" by simp
  note inv = rw_mutual_exclusion [OF writing_reachable this, of 0 1]
  have "pcs writing 1 \<noteq> Writing \<and> pcs writing 1 \<noteq> Reading" using conjunct1 [OF inv] w by simp
  then show ?thesis using w conjunct2 [OF conjunct2 [OF inv]] by blast
qed

lemma mtx_holder: "locks_inv s \<Longrightarrow> mtx s = Some u \<longleftrightarrow> pcs s u \<in> in_mtx"
  unfolding locks_inv_def by blast

lemma progress_with_mutex:
  assumes "locks_inv s" "mtx s = Some u"
  shows "\<exists>s'. guard_step u s s'"
proof -
  have "pcs s u \<in> in_mtx" using assms mtx_holder by blast
  then consider "pcs s u = RCheck" | "pcs s u = WCheck" | "pcs s u = RUMtx" | "pcs s u = WUMtx" by blast
  then show ?thesis
    by cases (metis guard_step.rlock guard_step.wlock guard_step.runlock guard_step.wunlock
        readLock.intros(3,4) writeLock.intros(3,4) readUnlock.intros(2) writeUnlock.intros(2))+
qed

lemma progress_without_mutex:
  assumes "mtx s = None" "pcs s u \<in> {RWant, WWant, RDone, WDone, RUBegin, WUBegin, RUNotify, WUNotify}"
  shows "\<exists>s'. guard_step u s s'"
  using assms(2)
  by (elim insertE emptyE)
    (metis assms(1) guard_step.rlock guard_step.wlock guard_step.runlock guard_step.wunlock
      readLock.intros(2,5) writeLock.intros(2,5) readUnlock.intros(1,3) writeUnlock.intros(1,3))+

text \<open>Threads that all wait for each other: nobody is left to notify, so nobody can have been blocked.\<close>

lemma waiting_begins:
  assumes "count_inv N s" "wake_inv s" "\<And>u. pcs s u \<in> {Idle, RBegin, WBegin, RBlocked, WBlocked}"
  shows "pcs s u \<in> {Idle, RBegin, WBegin}"
proof -
  have none: "in_pcs P s = {}" if "P \<inter> {Idle, RBegin, WBegin, RBlocked, WBlocked} = {}" for P
    unfolding in_pcs_def using assms(3) that by blast
  have "reader s = 0" "writer s = 0"
    using assms(1) none [of r_counted] none [of w_counted] by (auto simp: count_inv_def)
  moreover have "in_pcs {RUNotify, WUNotify} s = {}" by (rule none) simp
  ultimately have "in_pcs {RBlocked} s = {}" "in_pcs {WBlocked} s = {}" using assms(2) by (auto simp: wake_inv_def)
  then have "pcs s u \<noteq> RBlocked" "pcs s u \<noteq> WBlocked" by (auto simp: in_pcs_def)
  then show ?thesis using assms(3) [of u] by simp
qed

lemma begin_progress:
  assumes "locks_inv s" "\<And>u. pcs s u \<in> {Idle, RBegin, WBegin}" "pcs s t \<noteq> Idle"
  shows "\<exists>s'. guard_step t s s'"
proof -
  have "excl s = None" using assms(1,2) unfolding locks_inv_def
    by (metis (no_types, lifting) insertE empty_iff not_Some_eq pc.distinct)
  moreover have "shared s = {}"
  proof (rule equals0I)
    fix u assume "u \<in> shared s"
    then have "pcs s u \<in> r_locking" using assms(1) by (simp add: locks_inv_def)
    then show False using assms(2) [of u] by auto
  qed
  moreover have "pcs s t = RBegin \<or> pcs s t = WBegin" using assms(2) [of t] assms(3) by simp
  ultimately show ?thesis
    by (metis guard_step.rlock guard_step.wlock readLock.intros(1) writeLock.intros(1))
qed

text \<open>
  C33: the read-write lock does not deadlock and loses no wake-up. In every reachable state in which
  some thread is inside \<open>readLock\<close>, \<open>writeLock\<close> or an unlock function and no thread is reading or
  writing, a thread inside these functions can make a step: no thread waits for a notification
  that nobody will send.
\<close>

theorem rw_no_deadlock:
  assumes "steps (rw_step N) rw_init s" "N < 2 ^ 64"
    and "pcs s t \<noteq> Idle" "\<And>u. pcs s u \<noteq> Reading \<and> pcs s u \<noteq> Writing"
  shows "\<exists>u s'. u < N \<and> pcs s u \<noteq> Idle \<and> guard_step u s s'"
proof -
  have inv: "locks_inv s" "count_inv N s" "wake_inv s" using rw_reachable [OF assms(1,2)] by (simp_all add: rw_inv_def)
  have range: "u < N" if "pcs s u \<noteq> Idle" for u using inv(2) that by (auto simp: count_inv_def in_pcs_def)
  show ?thesis
  proof (cases "mtx s")
    case (Some u)
    moreover from this have "pcs s u \<noteq> Idle" using mtx_holder [OF inv(1), of u] by auto
    ultimately show ?thesis using progress_with_mutex [OF inv(1)] range by blast
  next
    case None
    have free: "pcs s u \<notin> in_mtx" for u using None inv(1) by (simp add: locks_inv_def)
    show ?thesis
    proof (cases "\<exists>u. pcs s u \<in> {RWant, WWant, RDone, WDone, RUBegin, WUBegin, RUNotify, WUNotify}")
      case True
      then obtain u where u: "pcs s u \<in> {RWant, WWant, RDone, WDone, RUBegin, WUBegin, RUNotify, WUNotify}" ..
      then have "pcs s u \<noteq> Idle" by auto
      then show ?thesis using progress_without_mutex [OF None u] range by blast
    next
      case False
      have "pcs s u \<in> {Idle, RBegin, WBegin, RBlocked, WBlocked}" for u
        using False assms(4) [of u] free [of u] by (cases "pcs s u") auto
      then have "pcs s u \<in> {Idle, RBegin, WBegin}" for u using waiting_begins [OF inv(2,3)] by blast
      then show ?thesis using begin_progress [OF inv(1) _ assms(3)] assms(3) range by blast
    qed
  qed
qed

theorem rw_no_deadlock_witness:
  "\<exists>u s'. u < 2 \<and> pcs (goto 0 RBegin rw_init) u \<noteq> Idle \<and> guard_step u (goto 0 RBegin rw_init) s'"
proof (rule rw_no_deadlock [of _ _ 0])
  have "guard_step 0 rw_init (goto 0 (guard_ctor LockMode_read) rw_init)"
    by (rule guard_step.ctor) (simp add: rw_init_def)
  then show "steps (rw_step 2) rw_init (goto 0 RBegin rw_init)"
    by (intro steps_step [OF steps_refl] rw_step.thread [of 0]) simp_all
qed (simp_all add: goto_def rw_init_def)

end
