(* ===== verification/UT_Json.thy ===== *)
theory UT_Json
  imports Foo_Prelude "HOL-Library.Char_ord" "HOL-Library.List_Lexorder"
begin

text \<open>
  The JSON library of \<open>src/utility/source/json.cpp\<close>: values, the recursive descent parser behind \<open>load\<close>,
  the two printers and the conversions.

  \<^item> A value is a tree; an object is its \<open>std::map\<close>, an association list in the order of its keys. The
    library shares containers between copies of a value; here a value is not shared.
  \<^item> Floating point numbers are an arbitrary type, and what the standard library computes on them is
    the argument \<open>ops\<close>.
  \<^item> The position \<open>offset\<close> is passed and returned. Every \<open>throw\<close> is a value of \<open>jsonError\<close>; \<open>OutOfRange\<close> is the
    exception of \<open>std::string_view::at\<close>.
  \<^item> The parser may recurse for ever, so its functions take a bound on the depth of calls; \<^term>\<open>None\<close> means
    that the bound was reached.
\<close>

section \<open>Values and errors\<close>

datatype 'f json =
    Null
  | Object "(string \<times> 'f json) list"
  | Array "'f json list"
  | String string
  | Floating 'f
  | Integral int
  | Boolean bool

datatype jsonError =
    ExpectedColon char
  | ExpectedCommaOrBrace char
  | ExpectedCommaOrBracket char
  | ExpectedHex char
  | StringSyntax string
  | ExpectedExponent char
  | UnexpectedInNumber char
  | ExpectedBoolean string
  | ExpectedNull string
  | UnknownStart char
  | ExpectedEOF string
  | OutOfRange
  | InvalidNumber
  | NumberOutOfRange
  | FormatFailed
  | ConversionFailed
  | BadVariantAccess

record 'f floatOps =
  stod :: "string \<Rightarrow> jsonError + 'f"
  scale10 :: "'f \<Rightarrow> int \<Rightarrow> 'f"
  of_long :: "int \<Rightarrow> 'f"
  to_long :: "'f \<Rightarrow> int"
  is_zero :: "'f \<Rightarrow> bool"
  to_chars :: "'f \<Rightarrow> string option"

type_synonym 'a outcome = "(jsonError + 'a) option"

definition ret :: "'a \<Rightarrow> 'a outcome" where
  "ret x = Some (Inr x)"

definition throw :: "jsonError \<Rightarrow> 'a outcome" where
  "throw e = Some (Inl e)"

definition andThen :: "'a outcome \<Rightarrow> ('a \<Rightarrow> 'b outcome) \<Rightarrow> 'b outcome" where
  "andThen m k = (case m of None \<Rightarrow> None | Some (Inl e) \<Rightarrow> Some (Inl e) | Some (Inr x) \<Rightarrow> k x)"

lemma andThen_simps [simp]:
  "andThen None k = None" "andThen (throw e) k = throw e" "andThen (ret x) k = k x"
  "andThen (Some (Inr x)) k = k x" "andThen (Some (Inl e)) k = throw e" "ret x = ret y \<longleftrightarrow> x = y"
  by (simp_all add: andThen_def ret_def throw_def)

section \<open>Characters and numbers\<close>

abbreviation quote :: char where "quote \<equiv> CHR 0x22"

abbreviation backslash :: char where "backslash \<equiv> CHR 0x5C"

definition isspace :: "char \<Rightarrow> bool" where
  "isspace c \<longleftrightarrow> c = CHR 0x20 \<or> c = CHR 0x09 \<or> c = CHR 0x0A \<or> c = CHR 0x0B \<or> c = CHR 0x0C \<or> c = CHR 0x0D"

definition isdigit_c :: "char \<Rightarrow> bool" where
  "isdigit_c c \<longleftrightarrow> CHR ''0'' \<le> c \<and> c \<le> CHR ''9''"

definition isHexCharacter :: "char \<Rightarrow> bool" where
  "isHexCharacter c \<longleftrightarrow> CHR ''0'' \<le> c \<and> c \<le> CHR ''9'' \<or> CHR ''a'' \<le> c \<and> c \<le> CHR ''f'' \<or> CHR ''A'' \<le> c \<and> c \<le> CHR ''F''"

text \<open>\<open>fmt.at(i)\<close>\<close>

definition at :: "string \<Rightarrow> nat \<Rightarrow> char outcome" where
  "at fmt i = (if i < length fmt then ret (fmt ! i) else throw OutOfRange)"

text \<open>\<open>std::stol\<close>, \<open>std::from_chars\<close> and \<open>std::to_string\<close> on decimal numbers.\<close>

fun read_digits :: "string \<Rightarrow> nat \<Rightarrow> nat" where
  "read_digits [] acc = acc"
| "read_digits (c # cs) acc = (if isdigit_c c then read_digits cs (acc * 10 + (of_char c - 48)) else acc)"

definition digits_at :: "string \<Rightarrow> (jsonError + nat)" where
  "digits_at cs = (case cs of c # _ \<Rightarrow> if isdigit_c c then Inr (read_digits cs 0) else Inl InvalidNumber | [] \<Rightarrow> Inl InvalidNumber)"

definition in_range :: "nat \<Rightarrow> int \<Rightarrow> jsonError + int" where
  "in_range w i = (if - (2 ^ (w - 1)) \<le> i \<and> i < 2 ^ (w - 1) then Inr i else Inl NumberOutOfRange)"

definition from_chars :: "nat \<Rightarrow> string \<Rightarrow> jsonError + int" where
  "from_chars w s =
     (case s of
        c # cs \<Rightarrow>
          (if c = CHR ''-'' then (case digits_at cs of Inl e \<Rightarrow> Inl e | Inr n \<Rightarrow> in_range w (- int n))
           else (case digits_at s of Inl e \<Rightarrow> Inl e | Inr n \<Rightarrow> in_range w (int n)))
      | [] \<Rightarrow> Inl InvalidNumber)"

text \<open>The strings that reach \<open>std::stol\<close> hold digits, minus signs and points only.\<close>

definition stol :: "string \<Rightarrow> int outcome" where
  "stol s = Some (from_chars 64 s)"

fun show_nat :: "nat \<Rightarrow> string" where
  "show_nat n = (if n < 10 then [char_of (48 + n)] else show_nat (n div 10) @ [char_of (48 + n mod 10)])"

declare show_nat.simps [simp del]

definition to_string :: "int \<Rightarrow> string" where
  "to_string i = (if i < 0 then CHR ''-'' # show_nat (nat (- i)) else show_nat (nat i))"

section \<open>Printing\<close>

fun escape_char :: "char \<Rightarrow> string" where
  "escape_char c =
     (if c = quote then [backslash, quote]
      else if c = backslash then [backslash, backslash]
      else if c = CHR 0x08 then backslash # ''b''
      else if c = CHR 0x0C then backslash # ''f''
      else if c = CHR 0x0A then backslash # ''n''
      else if c = CHR 0x0D then backslash # ''r''
      else if c = CHR 0x09 then backslash # ''t''
      else [c])"

declare escape_char.simps [simp del]

definition jsonEscape :: "string \<Rightarrow> string" where
  "jsonEscape s = concat (map escape_char s)"

definition toRoundTripString :: "'f floatOps \<Rightarrow> 'f \<Rightarrow> string outcome" where
  "toRoundTripString ops val =
     (case to_chars ops val of
        None \<Rightarrow> throw FormatFailed
      | Some s \<Rightarrow> ret (if \<exists>c\<in>set s. c \<in> set ''.eE'' then s else s @ ''.0''))"

text \<open>The loops over a container, with the flag \<open>skip\<close> and the separator.\<close>

fun dumpMinified :: "'f floatOps \<Rightarrow> 'f json \<Rightarrow> string outcome"
and minify_members :: "'f floatOps \<Rightarrow> bool \<Rightarrow> (string \<times> 'f json) list \<Rightarrow> string outcome"
and minify_elements :: "'f floatOps \<Rightarrow> bool \<Rightarrow> 'f json list \<Rightarrow> string outcome" where
  "dumpMinified ops Null = ret ''null''"
| "dumpMinified ops (Object ms) = andThen (minify_members ops True ms) (\<lambda>s. ret (''{'' @ s @ ''}''))"
| "dumpMinified ops (Array vs) = andThen (minify_elements ops True vs) (\<lambda>s. ret (''['' @ s @ '']''))"
| "dumpMinified ops (String s) = ret (quote # jsonEscape s @ [quote])"
| "dumpMinified ops (Floating f) = toRoundTripString ops f"
| "dumpMinified ops (Integral i) = ret (to_string i)"
| "dumpMinified ops (Boolean b) = ret (if b then ''true'' else ''false'')"
| "minify_members ops skip [] = ret []"
| "minify_members ops skip ((k, v) # ms) =
     andThen (dumpMinified ops v) (\<lambda>s. andThen (minify_members ops False ms) (\<lambda>t.
       ret ((if skip then [] else '','') @ (quote # k @ [quote] @ '':'' @ s) @ t)))"
| "minify_elements ops skip [] = ret []"
| "minify_elements ops skip (v # vs) =
     andThen (dumpMinified ops v) (\<lambda>s. andThen (minify_elements ops False vs) (\<lambda>t.
       ret ((if skip then [] else '','') @ s @ t)))"

abbreviation newline :: string where "newline \<equiv> [CHR 0x0A]"

definition pad_of :: "nat \<Rightarrow> string \<Rightarrow> string" where
  "pad_of depth tab = concat (replicate depth tab)"

fun dump :: "'f floatOps \<Rightarrow> nat \<Rightarrow> string \<Rightarrow> 'f json \<Rightarrow> string outcome"
and dump_members :: "'f floatOps \<Rightarrow> nat \<Rightarrow> string \<Rightarrow> bool \<Rightarrow> (string \<times> 'f json) list \<Rightarrow> string outcome"
and dump_elements :: "'f floatOps \<Rightarrow> nat \<Rightarrow> string \<Rightarrow> bool \<Rightarrow> 'f json list \<Rightarrow> string outcome" where
  "dump ops depth tab Null = ret ''null''"
| "dump ops depth tab (Object ms) =
     andThen (dump_members ops depth tab True ms) (\<lambda>s.
       ret (''{'' @ newline @ s @ newline @ drop (length tab) (pad_of depth tab) @ ''}''))"
| "dump ops depth tab (Array vs) =
     andThen (dump_elements ops depth tab True vs) (\<lambda>s.
       ret (''['' @ newline @ s @ newline @ drop (length tab) (pad_of depth tab) @ '']''))"
| "dump ops depth tab (String s) = ret (quote # jsonEscape s @ [quote])"
| "dump ops depth tab (Floating f) = toRoundTripString ops f"
| "dump ops depth tab (Integral i) = ret (to_string i)"
| "dump ops depth tab (Boolean b) = ret (if b then ''true'' else ''false'')"
| "dump_members ops depth tab skip [] = ret []"
| "dump_members ops depth tab skip ((k, v) # ms) =
     andThen (dump ops (depth + 1) tab v) (\<lambda>s. andThen (dump_members ops depth tab False ms) (\<lambda>t.
       ret ((if skip then [] else '','' @ newline) @ (pad_of depth tab @ quote # k @ [quote] @ '': '' @ s) @ t)))"
| "dump_elements ops depth tab skip [] = ret []"
| "dump_elements ops depth tab skip (v # vs) =
     andThen (dump ops (depth + 1) tab v) (\<lambda>s. andThen (dump_elements ops depth tab False vs) (\<lambda>t.
       ret ((if skip then [] else '','' @ newline) @ (pad_of depth tab @ s) @ t)))"

section \<open>Types\<close>

datatype Type = Type_null | Type_object | Type_array | Type_string | Type_floating | Type_integral | Type_boolean

fun holdsData :: "Type \<Rightarrow> 'f json \<Rightarrow> bool" where
  "holdsData t Null = (t = Type_null)"
| "holdsData t (Object _) = (t = Type_object)"
| "holdsData t (Array _) = (t = Type_array)"
| "holdsData t (String _) = (t = Type_string)"
| "holdsData t (Floating _) = (t = Type_floating)"
| "holdsData t (Integral _) = (t = Type_integral)"
| "holdsData t (Boolean _) = (t = Type_boolean)"

definition ensureType :: "'f floatOps \<Rightarrow> Type \<Rightarrow> 'f json \<Rightarrow> 'f json" where
  "ensureType ops t j =
     (if holdsData t j then j
      else case t of
        Type_null \<Rightarrow> Null
      | Type_object \<Rightarrow> Object []
      | Type_array \<Rightarrow> Array []
      | Type_string \<Rightarrow> String []
      | Type_floating \<Rightarrow> Floating (of_long ops 0)
      | Type_integral \<Rightarrow> Integral 0
      | Type_boolean \<Rightarrow> Boolean False)"

text \<open>\<open>JSON(type)\<close>: a new value holds null.\<close>

definition json_make :: "'f floatOps \<Rightarrow> Type \<Rightarrow> 'f json" where
  "json_make ops t = ensureType ops t Null"

definition isNullType :: "'f json \<Rightarrow> bool" where
  "isNullType j \<longleftrightarrow> (case j of Null \<Rightarrow> True | _ \<Rightarrow> False)"

definition isObjectType :: "'f json \<Rightarrow> bool" where
  "isObjectType j \<longleftrightarrow> (case j of Object _ \<Rightarrow> True | _ \<Rightarrow> False)"

definition isArrayType :: "'f json \<Rightarrow> bool" where
  "isArrayType j \<longleftrightarrow> (case j of Array _ \<Rightarrow> True | _ \<Rightarrow> False)"

definition isStringType :: "'f json \<Rightarrow> bool" where
  "isStringType j \<longleftrightarrow> (case j of String _ \<Rightarrow> True | _ \<Rightarrow> False)"

definition isFloatingType :: "'f json \<Rightarrow> bool" where
  "isFloatingType j \<longleftrightarrow> (case j of Floating _ \<Rightarrow> True | _ \<Rightarrow> False)"

definition isIntegralType :: "'f json \<Rightarrow> bool" where
  "isIntegralType j \<longleftrightarrow> (case j of Integral _ \<Rightarrow> True | _ \<Rightarrow> False)"

definition isBooleanType :: "'f json \<Rightarrow> bool" where
  "isBooleanType j \<longleftrightarrow> (case j of Boolean _ \<Rightarrow> True | _ \<Rightarrow> False)"

section \<open>Conversions\<close>

definition asString :: "'f floatOps \<Rightarrow> 'f json \<Rightarrow> string outcome" where
  "asString ops v = (case v of String s \<Rightarrow> ret (jsonEscape s) | _ \<Rightarrow> dumpMinified ops v)"

definition asUnescapedString :: "'f floatOps \<Rightarrow> 'f json \<Rightarrow> string outcome" where
  "asUnescapedString ops v = (case v of String s \<Rightarrow> ret s | _ \<Rightarrow> dumpMinified ops v)"

definition asFloating :: "'f floatOps \<Rightarrow> 'f json \<Rightarrow> 'f outcome" where
  "asFloating ops v =
     (case v of
        Floating f \<Rightarrow> ret f
      | Integral i \<Rightarrow> ret (of_long ops i)
      | Boolean b \<Rightarrow> ret (of_long ops (of_bool b))
      | String s \<Rightarrow> (case stod ops s of Inl _ \<Rightarrow> throw ConversionFailed | Inr f \<Rightarrow> ret f)
      | _ \<Rightarrow> throw ConversionFailed)"

definition asIntegral :: "'f floatOps \<Rightarrow> 'f json \<Rightarrow> int outcome" where
  "asIntegral ops v =
     (case v of
        Integral i \<Rightarrow> ret i
      | Boolean b \<Rightarrow> ret (of_bool b)
      | Floating f \<Rightarrow> ret (to_long ops f)
      | String s \<Rightarrow> (case from_chars 64 s of Inl _ \<Rightarrow> throw ConversionFailed | Inr i \<Rightarrow> ret i)
      | _ \<Rightarrow> throw ConversionFailed)"

text \<open>\<open>val->find(lit) != std::string::npos\<close>\<close>

definition contains_lit :: "string \<Rightarrow> string \<Rightarrow> bool" where
  "contains_lit s lit \<longleftrightarrow> (\<exists>i\<in>set [0..<length s + 1]. take (length lit) (drop i s) = lit)"

definition asBoolean :: "'f floatOps \<Rightarrow> 'f json \<Rightarrow> bool outcome" where
  "asBoolean ops v =
     (case v of
        Boolean b \<Rightarrow> ret b
      | Floating f \<Rightarrow> ret (\<not> is_zero ops f)
      | Integral i \<Rightarrow> ret (i \<noteq> 0)
      | String s \<Rightarrow>
          (if contains_lit s ''true'' then ret True
           else if contains_lit s ''false'' then ret False
           else (case from_chars 32 s of Inl _ \<Rightarrow> throw ConversionFailed | Inr i \<Rightarrow> ret (i \<noteq> 0)))
      | _ \<Rightarrow> throw ConversionFailed)"

section \<open>Access\<close>

text \<open>\<open>std::map::operator[]\<close> with an assignment, on a list in the order of its keys.\<close>

fun map_assign :: "string \<Rightarrow> 'v \<Rightarrow> (string \<times> 'v) list \<Rightarrow> (string \<times> 'v) list" where
  "map_assign k v [] = [(k, v)]"
| "map_assign k v ((k', v') # ms) =
     (if k < k' then (k, v) # (k', v') # ms else if k = k' then (k, v) # ms else (k', v') # map_assign k v ms)"

text \<open>\<open>json[key] = val\<close> and \<open>json[index] = val\<close>: a value of another type is replaced first.\<close>

definition assign_key :: "'f json \<Rightarrow> string \<Rightarrow> 'f json \<Rightarrow> 'f json" where
  "assign_key j k v = Object (map_assign k v (case j of Object ms \<Rightarrow> ms | _ \<Rightarrow> []))"

definition assign_index :: "'f json \<Rightarrow> nat \<Rightarrow> 'f json \<Rightarrow> 'f json" where
  "assign_index j i v =
     (let vs = (case j of Array vs \<Rightarrow> vs | _ \<Rightarrow> []);
          vs = (if i \<ge> length vs then vs @ replicate (i + 1 - length vs) Null else vs)
      in Array (vs[i := v]))"

definition json_append :: "'f json \<Rightarrow> 'f json \<Rightarrow> 'f json" where
  "json_append j v = Array ((case j of Array vs \<Rightarrow> vs | _ \<Rightarrow> []) @ [v])"

text \<open>
  The constructor from a list of alternating keys and values. A list of odd length is read past its
  end, for which the result is \<^term>\<open>None\<close>.
\<close>

fun init_loop :: "'f floatOps \<Rightarrow> 'f json \<Rightarrow> 'f json list \<Rightarrow> 'f json outcome" where
  "init_loop ops j [] = ret j"
| "init_loop ops j [_] = None"
| "init_loop ops j (key # val # list) = andThen (asString ops key) (\<lambda>k. init_loop ops (assign_key j k val) list)"

definition json_init :: "'f floatOps \<Rightarrow> 'f json list \<Rightarrow> 'f json outcome" where
  "json_init ops list = init_loop ops (ensureType ops Type_object Null) list"

definition objectRange :: "'f json \<Rightarrow> (string \<times> 'f json) list" where
  "objectRange j = (case j of Object ms \<Rightarrow> ms | _ \<Rightarrow> [])"

definition arrayRange :: "'f json \<Rightarrow> 'f json list" where
  "arrayRange j = (case j of Array vs \<Rightarrow> vs | _ \<Rightarrow> [])"

definition json_size :: "'f json \<Rightarrow> int" where
  "json_size j = (case j of Object ms \<Rightarrow> int (length ms) | Array vs \<Rightarrow> int (length vs) | _ \<Rightarrow> - 1)"

definition json_length :: "'f json \<Rightarrow> int" where
  "json_length j = (case j of Array vs \<Rightarrow> int (length vs) | _ \<Rightarrow> - 1)"

definition hasKey :: "'f json \<Rightarrow> string \<Rightarrow> bool" where
  "hasKey j k \<longleftrightarrow> (case j of Object ms \<Rightarrow> k \<in> fst ` set ms | _ \<Rightarrow> False)"

definition at_key :: "'f json \<Rightarrow> string \<Rightarrow> 'f json outcome" where
  "at_key j k =
     (case j of Object ms \<Rightarrow> (case map_of ms k of None \<Rightarrow> throw OutOfRange | Some v \<Rightarrow> ret v) | _ \<Rightarrow> throw BadVariantAccess)"

definition at_index :: "'f json \<Rightarrow> nat \<Rightarrow> 'f json outcome" where
  "at_index j i =
     (case j of Array vs \<Rightarrow> (if i < length vs then ret (vs ! i) else throw OutOfRange) | _ \<Rightarrow> throw BadVariantAccess)"

section \<open>Parsing\<close>

fun skip_space :: "string \<Rightarrow> nat \<Rightarrow> nat \<Rightarrow> nat" where
  "skip_space fmt off 0 = off"
| "skip_space fmt off (Suc n) = (if off < length fmt \<and> isspace (fmt ! off) then skip_space fmt (off + 1) n else off)"

text \<open>At the end of the input the position steps back by one.\<close>

definition consumeWhitespace :: "string \<Rightarrow> nat \<Rightarrow> nat" where
  "consumeWhitespace fmt off =
     (let off = skip_space fmt off (length fmt)
      in if off = length fmt then (off + (2 ^ 64 - 1)) mod 2 ^ 64 else off)"

text \<open>The loop over the four characters of a Unicode escape, from the \<open>i\<close>th on.\<close>

fun unicode_loop :: "string \<Rightarrow> nat \<Rightarrow> nat \<Rightarrow> nat \<Rightarrow> string \<Rightarrow> string outcome" where
  "unicode_loop fmt off i 0 val = ret val"
| "unicode_loop fmt off i (Suc n) val =
     andThen (at fmt (off + i)) (\<lambda>c.
       if \<not> isHexCharacter c then throw (ExpectedHex c) else unicode_loop fmt off (i + 1) n (val @ [c]))"

text \<open>An escape sequence with \<open>off\<close> at its backslash.\<close>

definition parse_escape :: "string \<Rightarrow> nat \<Rightarrow> string \<Rightarrow> (string \<times> nat) outcome" where
  "parse_escape fmt off val =
     andThen (at fmt (off + 1)) (\<lambda>c.
       if c = quote then ret (val @ [quote], off + 1)
       else if c = backslash then ret (val @ [backslash], off + 1)
       else if c = CHR ''/'' then ret (val @ ''/'', off + 1)
       else if c = CHR ''b'' then ret (val @ [CHR 0x08], off + 1)
       else if c = CHR ''f'' then ret (val @ [CHR 0x0C], off + 1)
       else if c = CHR ''n'' then ret (val @ [CHR 0x0A], off + 1)
       else if c = CHR ''r'' then ret (val @ [CHR 0x0D], off + 1)
       else if c = CHR ''t'' then ret (val @ [CHR 0x09], off + 1)
       else if c = CHR ''u'' then
         andThen (unicode_loop fmt (off + 1) 1 4 (val @ backslash # ''u'')) (\<lambda>val. ret (val, off + 1 + 4))
       else ret (val @ [backslash], off + 1))"

text \<open>The loop of \<open>parseString\<close>, with \<open>off\<close> at the character \<open>c\<close> just read.\<close>

fun string_loop :: "nat \<Rightarrow> string \<Rightarrow> nat \<Rightarrow> string \<Rightarrow> (string \<times> nat) outcome" where
  "string_loop 0 fmt off val = None"
| "string_loop (Suc n) fmt off val =
     andThen (at fmt off) (\<lambda>c.
       if c = quote then ret (val, off + 1)
       else
         andThen (if c = backslash then parse_escape fmt off val else ret (val @ [c], off)) (\<lambda>(val, off).
           if off + 1 = length fmt then throw (StringSyntax val) else string_loop n fmt (off + 1) val))"

definition parseString :: "string \<Rightarrow> nat \<Rightarrow> ('f json \<times> nat) outcome" where
  "parseString fmt off =
     andThen (string_loop (length fmt + 1) fmt (off + 1) []) (\<lambda>(val, off). ret (String val, off))"

text \<open>A character that may follow a number.\<close>

definition ends_number :: "char \<Rightarrow> bool" where
  "ends_number c \<longleftrightarrow> isspace c \<or> c = CHR '','' \<or> c = CHR '']'' \<or> c = CHR ''}''"

fun exponent_loop :: "nat \<Rightarrow> string \<Rightarrow> nat \<Rightarrow> string \<Rightarrow> (string \<times> nat) outcome" where
  "exponent_loop 0 fmt off expStr = None"
| "exponent_loop (Suc n) fmt off expStr =
     (if off < length fmt then
        andThen (at fmt off) (\<lambda>c.
          if isdigit_c c then exponent_loop n fmt (off + 1) (expStr @ [c])
          else if \<not> ends_number c then throw (ExpectedExponent c)
          else ret (expStr, off + 1))
      else ret (expStr, off))"

definition extractExponent :: "string \<Rightarrow> nat \<Rightarrow> (string \<times> nat) outcome" where
  "extractExponent fmt off =
     andThen (at fmt off) (\<lambda>c.
       if c = CHR ''-'' then exponent_loop (length fmt + 1) fmt (off + 1) ''-''
       else if c = CHR ''+'' then exponent_loop (length fmt + 1) fmt (off + 1) []
       else exponent_loop (length fmt + 1) fmt off [])"

text \<open>The loop that collects a number returns its text, whether it has a point, the last character and the position.\<close>

fun number_loop :: "nat \<Rightarrow> string \<Rightarrow> nat \<Rightarrow> string \<Rightarrow> char \<Rightarrow> bool \<Rightarrow> (string \<times> char \<times> bool \<times> nat) outcome" where
  "number_loop 0 fmt off val c isFloating = None"
| "number_loop (Suc n) fmt off val c isFloating =
     (if off < length fmt then
        andThen (at fmt off) (\<lambda>c.
          if isdigit_c c \<or> c = CHR ''-'' then number_loop n fmt (off + 1) (val @ [c]) c isFloating
          else if c = CHR ''.'' then number_loop n fmt (off + 1) (val @ [c]) c True
          else ret (val, c, isFloating, off + 1))
      else ret (val, c, isFloating, off))"

definition make_number :: "'f floatOps \<Rightarrow> string \<Rightarrow> bool \<Rightarrow> string \<Rightarrow> int \<Rightarrow> 'f json outcome" where
  "make_number ops val isFloating expStr ex =
     (if isFloating then (case stod ops val of Inl e \<Rightarrow> throw e | Inr f \<Rightarrow> ret (Floating (scale10 ops f ex)))
      else if expStr \<noteq> [] then andThen (stol val) (\<lambda>i. ret (Floating (scale10 ops (of_long ops i) ex)))
      else andThen (stol val) (\<lambda>i. ret (Integral i)))"

definition parseNumber :: "'f floatOps \<Rightarrow> string \<Rightarrow> nat \<Rightarrow> ('f json \<times> nat) outcome" where
  "parseNumber ops fmt off =
     andThen (number_loop (length fmt + 1) fmt off [] (CHR 0x00) False) (\<lambda>(val, c, isFloating, off).
       andThen (if c = CHR ''e'' \<or> c = CHR ''E''
                then andThen (extractExponent fmt off) (\<lambda>(expStr, off).
                       andThen (stol expStr) (\<lambda>ex. ret (expStr, ex, off)))
                else if \<not> ends_number c then throw (UnexpectedInNumber c)
                else ret ([], 0, off)) (\<lambda>(expStr, ex, off).
         andThen (make_number ops val isFloating expStr ex) (\<lambda>v. ret (v, off - 1))))"

definition parseBoolean :: "string \<Rightarrow> nat \<Rightarrow> ('f json \<times> nat) outcome" where
  "parseBoolean fmt off =
     (if take 4 (drop off fmt) = ''true'' then ret (Boolean True, off + 4)
      else if take 5 (drop off fmt) = ''false'' then ret (Boolean False, off + 5)
      else throw (ExpectedBoolean (take 5 (drop off fmt))))"

definition parseNull :: "string \<Rightarrow> nat \<Rightarrow> ('f json \<times> nat) outcome" where
  "parseNull fmt off =
     (if take 4 (drop off fmt) \<noteq> ''null'' then throw (ExpectedNull (take 4 (drop off fmt)))
      else ret (Null, off + 4))"

text \<open>
  The loops of \<open>parseObject\<close> and \<open>parseArray\<close>. Their calls of \<open>parseNext\<close> are the argument \<open>nxt\<close>; \<open>n\<close> bounds
  the rounds of the loop.
\<close>

type_synonym 'f parser = "string \<Rightarrow> nat \<Rightarrow> ('f json \<times> nat) outcome"

fun object_loop :: "'f floatOps \<Rightarrow> 'f parser \<Rightarrow> nat \<Rightarrow> string \<Rightarrow> nat \<Rightarrow> 'f json \<Rightarrow> ('f json \<times> nat) outcome" where
  "object_loop ops nxt 0 fmt off obj = None"
| "object_loop ops nxt (Suc n) fmt off obj =
     andThen (nxt fmt off) (\<lambda>(key, off).
       let off = consumeWhitespace fmt off in
       andThen (at fmt off) (\<lambda>c.
         if c \<noteq> CHR '':'' then throw (ExpectedColon c)
         else
           andThen (nxt fmt (consumeWhitespace fmt (off + 1))) (\<lambda>(val, off).
             andThen (asString ops key) (\<lambda>k.
               let obj = assign_key obj k val; off = consumeWhitespace fmt off in
               andThen (at fmt off) (\<lambda>c.
                 if c = CHR '','' then object_loop ops nxt n fmt (off + 1) obj
                 else if c = CHR ''}'' then ret (obj, off + 1)
                 else throw (ExpectedCommaOrBrace c))))))"

definition parseObject :: "'f floatOps \<Rightarrow> 'f parser \<Rightarrow> nat \<Rightarrow> 'f parser" where
  "parseObject ops nxt n fmt off =
     (let off = consumeWhitespace fmt (off + 1) in
      andThen (at fmt off) (\<lambda>c.
        if c = CHR ''}'' then ret (Object [], off + 1) else object_loop ops nxt n fmt off (Object [])))"

fun array_loop :: "'f parser \<Rightarrow> nat \<Rightarrow> string \<Rightarrow> nat \<Rightarrow> nat \<Rightarrow> 'f json \<Rightarrow> ('f json \<times> nat) outcome" where
  "array_loop nxt 0 fmt off index arr = None"
| "array_loop nxt (Suc n) fmt off index arr =
     andThen (nxt fmt off) (\<lambda>(val, off).
       let arr = assign_index arr index val; off = consumeWhitespace fmt off in
       andThen (at fmt off) (\<lambda>c.
         if c = CHR '','' then array_loop nxt n fmt (off + 1) (index + 1) arr
         else if c = CHR '']'' then ret (arr, off + 1)
         else throw (ExpectedCommaOrBracket c)))"

definition parseArray :: "'f parser \<Rightarrow> nat \<Rightarrow> 'f parser" where
  "parseArray nxt n fmt off =
     (let off = consumeWhitespace fmt (off + 1) in
      andThen (at fmt off) (\<lambda>c.
        if c = CHR '']'' then ret (Array [], off + 1) else array_loop nxt n fmt off 0 (Array [])))"

fun parseNext :: "'f floatOps \<Rightarrow> nat \<Rightarrow> 'f parser" where
  "parseNext ops 0 fmt off = None"
| "parseNext ops (Suc n) fmt off =
     (let off = consumeWhitespace fmt off in
      andThen (at fmt off) (\<lambda>c.
        if c = CHR ''{'' then parseObject ops (parseNext ops n) n fmt off
        else if c = CHR ''['' then parseArray (parseNext ops n) n fmt off
        else if c = quote then parseString fmt off
        else if c = CHR ''t'' \<or> c = CHR ''f'' then parseBoolean fmt off
        else if c = CHR ''n'' then parseNull fmt off
        else if isdigit_c c \<or> c = CHR ''-'' then parseNumber ops fmt off
        else throw (UnknownStart c)))"

definition load :: "'f floatOps \<Rightarrow> nat \<Rightarrow> string \<Rightarrow> 'f json outcome" where
  "load ops n fmt =
     andThen (parseNext ops n fmt 0) (\<lambda>(object, off).
       if off + 1 \<le> length fmt then throw (ExpectedEOF fmt) else ret object)"

end
