(* ===== verification/UT_Json_Load.thy ===== *)
theory UT_Json_Load
  imports UT_Json
begin

text \<open>
  What \<open>load\<close> does with the texts the printers produce. The relation \<open>renders\<close> describes the texts of a
  value with any white space between the tokens; both printers produce such a text, and the parser
  reads it back.
\<close>

section \<open>Positions\<close>

lemma at_app [simp]: "at (pre @ c # rest) (length pre) = ret c"
  by (simp add: at_def nth_append)

definition all_space :: "string \<Rightarrow> bool" where
  "all_space ws \<longleftrightarrow> (\<forall>c\<in>set ws. isspace c)"

lemma skip_space_run:
  "all_space ws \<Longrightarrow> \<not> isspace c \<Longrightarrow> length ws < n \<Longrightarrow>
    skip_space (pre @ ws @ c # rest) (length pre) n = length pre + length ws"
proof (induction ws arbitrary: pre n)
  case Nil
  then show ?case by (cases n) (simp_all add: nth_append)
next
  case (Cons w ws)
  then obtain m where m: "n = Suc m" by (cases n) auto
  have "skip_space (pre @ (w # ws) @ c # rest) (length pre) n = skip_space ((pre @ [w]) @ ws @ c # rest) (length (pre @ [w])) m"
    using Cons.prems m by (simp add: nth_append all_space_def)
  also have "\<dots> = length (pre @ [w]) + length ws" by (rule Cons.IH) (use Cons.prems m in \<open>simp_all add: all_space_def\<close>)
  finally show ?case by simp
qed

lemma consumeWhitespace_run:
  assumes "all_space ws" "\<not> isspace c"
  shows "consumeWhitespace (pre @ ws @ c # rest) (length pre) = length pre + length ws"
  using skip_space_run [OF assms, of "length (pre @ ws @ c # rest)" pre rest]
  by (simp add: consumeWhitespace_def Let_def)

text \<open>The same with the white space and the position as one prefix.\<close>

lemma consumeWhitespace_at:
  assumes "fmt = pre @ ws @ c # rest" "off = length pre" "all_space ws" "\<not> isspace c"
  shows "consumeWhitespace fmt off = length (pre @ ws) \<and> at fmt (length (pre @ ws)) = ret c"
  using consumeWhitespace_run [OF assms(3,4), of pre rest] at_app [of "pre @ ws" c rest] assms(1,2) by simp

lemma consumeWhitespace_end:
  assumes "fmt \<noteq> []" "length fmt < 2 ^ 64"
  shows "consumeWhitespace fmt (length fmt) = length fmt - 1"
proof -
  have "skip_space fmt (length fmt) n = length fmt" for n by (cases n) simp_all
  moreover have "length fmt + (2 ^ 64 - 1) = (length fmt - 1) + 2 ^ 64" using assms(1) by (cases fmt) simp_all
  moreover have "(length fmt - 1) mod 2 ^ 64 = length fmt - 1" using assms(2) by (intro mod_less) simp
  ultimately show ?thesis unfolding consumeWhitespace_def Let_def by (simp only: mod_add_self2 refl if_True)
qed

section \<open>Numbers\<close>

lemma isdigit_c_iff: "isdigit_c c \<longleftrightarrow> 48 \<le> (of_char c :: nat) \<and> (of_char c :: nat) \<le> 57"
  by (simp add: isdigit_c_def less_eq_char_def)

lemma isdigit_digit: "d < 10 \<Longrightarrow> isdigit_c (char_of (48 + d :: nat))"
  by (simp add: isdigit_c_iff)

lemma read_digits_append:
  "\<forall>c\<in>set xs. isdigit_c c \<Longrightarrow> read_digits (xs @ ys) acc = read_digits ys (read_digits xs acc)"
  by (induction xs arbitrary: acc) auto

lemma show_nat_digits: "c \<in> set (show_nat n) \<Longrightarrow> isdigit_c c"
proof (induction n rule: show_nat.induct)
  case (1 n)
  then show ?case by (subst (asm) show_nat.simps) (auto simp: isdigit_digit split: if_splits)
qed

lemma read_show_nat: "read_digits (show_nat n) 0 = n"
proof (induction n rule: show_nat.induct)
  case (1 n)
  show ?case
  proof (cases "n < 10")
    case True
    then show ?thesis by (subst show_nat.simps) (simp add: isdigit_digit)
  next
    case False
    have "n mod 10 < 10" by simp
    then show ?thesis using False 1
      by (subst show_nat.simps) (simp add: read_digits_append show_nat_digits isdigit_digit)
  qed
qed

lemma show_nat_Cons: "\<exists>c cs. show_nat n = c # cs \<and> isdigit_c c"
proof -
  have "show_nat n \<noteq> []" by (subst show_nat.simps) simp
  then obtain c cs where "show_nat n = c # cs" by (cases "show_nat n") auto
  then show ?thesis using show_nat_digits [of c n] by auto
qed

lemma digits_at_show: "digits_at (show_nat n) = Inr n"
  using show_nat_Cons [of n] read_show_nat [of n] by (auto simp: digits_at_def)

lemma minus_not_digit: "\<not> isdigit_c (CHR ''-'')"
  by (simp add: isdigit_c_iff)

lemma from_chars_to_string: "- (2 ^ (w - 1)) \<le> i \<Longrightarrow> i < 2 ^ (w - 1) \<Longrightarrow> from_chars w (to_string i) = Inr i"
  using show_nat_Cons [of "nat i"] digits_at_show [of "nat i"] digits_at_show [of "nat (- i)"] minus_not_digit
  by (auto simp: from_chars_def to_string_def in_range_def)

definition number_char :: "char \<Rightarrow> bool" where
  "number_char c \<longleftrightarrow> isdigit_c c \<or> c = CHR ''-''"

lemma to_string_chars: "c \<in> set (to_string i) \<Longrightarrow> number_char c"
  by (auto simp: to_string_def number_char_def dest: show_nat_digits split: if_splits)

lemma to_string_Cons: "\<exists>c cs. to_string i = c # cs \<and> number_char c"
  using show_nat_Cons [of "nat i"] by (auto simp: to_string_def number_char_def)

lemma ends_number_other:
  assumes "ends_number d"
  shows "\<not> number_char d" "d \<noteq> CHR ''.''" "d \<noteq> CHR ''e''" "d \<noteq> CHR ''E''"
  using assms by (auto simp: ends_number_def isspace_def number_char_def isdigit_c_iff)

lemma number_loop_run:
  assumes "\<forall>c\<in>set ds. number_char c" "ends_number d" "length ds < n"
  shows "number_loop n (pre @ ds @ d # suf) (length pre) acc c0 fl = ret (acc @ ds, d, fl, length pre + length ds + 1)"
  using assms
proof (induction ds arbitrary: pre acc c0 n)
  case Nil
  then show ?case using ends_number_other [of d]
    by (cases n) (simp_all add: number_char_def)
next
  case (Cons x ds)
  then obtain m where m: "n = Suc m" by (cases n) auto
  have "number_loop n (pre @ (x # ds) @ d # suf) (length pre) acc c0 fl
      = number_loop m ((pre @ [x]) @ ds @ d # suf) (length (pre @ [x])) (acc @ [x]) x fl"
    using Cons.prems(1) m at_app [of pre x "ds @ d # suf"] by (auto simp: number_char_def)
  also have "\<dots> = ret ((acc @ [x]) @ ds, d, fl, length (pre @ [x]) + length ds + 1)"
    by (rule Cons.IH) (use Cons.prems m in auto)
  finally show ?case by simp
qed

lemma number_loop_end:
  assumes "\<forall>c\<in>set ds. number_char c" "length ds < n"
  shows "number_loop n (pre @ ds) (length pre) acc c0 fl
    = ret (acc @ ds, (if ds = [] then c0 else last ds), fl, length (pre @ ds))"
  using assms
proof (induction ds arbitrary: pre acc c0 n)
  case Nil
  then show ?case by (cases n) simp_all
next
  case (Cons x ds)
  then obtain m where m: "n = Suc m" by (cases n) auto
  have "number_loop n (pre @ (x # ds)) (length pre) acc c0 fl
      = number_loop m ((pre @ [x]) @ ds) (length (pre @ [x])) (acc @ [x]) x fl"
    using Cons.prems(1) m at_app [of pre x ds] by (auto simp: number_char_def)
  also have "\<dots> = ret ((acc @ [x]) @ ds, (if ds = [] then x else last ds), fl, length ((pre @ [x]) @ ds))"
    by (rule Cons.IH) (use Cons.prems m in auto)
  finally show ?case by simp
qed

lemma parseNumber_run:
  assumes "- (2 ^ 63) \<le> i" "i < 2 ^ 63" "ends_number d"
  shows "parseNumber ops (pre @ to_string i @ d # suf) (length pre) = ret (Integral i, length pre + length (to_string i))"
proof -
  have "number_loop (length (pre @ to_string i @ d # suf) + 1) (pre @ to_string i @ d # suf) (length pre) [] (CHR 0x00) False
      = ret ([] @ to_string i, d, False, length pre + length (to_string i) + 1)"
    by (rule number_loop_run) (use to_string_chars assms(3) in auto)
  then show ?thesis using ends_number_other [OF assms(3)] assms from_chars_to_string [of 64 i]
    by (simp add: parseNumber_def make_number_def stol_def)
qed

section \<open>The bounds of the inner loops\<close>

text \<open>
  The loops over the characters of a string or a number never exhaust the bounds they are given: only
  the nesting of values needs one.
\<close>

definition settles :: "('a \<Rightarrow> bool) \<Rightarrow> 'a outcome \<Rightarrow> bool" where
  "settles P m \<longleftrightarrow> m \<noteq> None \<and> (\<forall>x. m = ret x \<longrightarrow> P x)"

lemma settles_simps [simp]: "settles P (ret x) \<longleftrightarrow> P x" "settles P (throw e)"
  by (auto simp: settles_def ret_def throw_def)

lemma settles_mono: "settles P m \<Longrightarrow> (\<And>x. P x \<Longrightarrow> Q x) \<Longrightarrow> settles Q m"
  by (auto simp: settles_def)

lemma settles_at: "settles (\<lambda>c. i < length fmt) (at fmt i)"
  by (simp add: at_def)

lemma settles_andThen: "settles Q m \<Longrightarrow> (\<And>x. Q x \<Longrightarrow> settles P (k x)) \<Longrightarrow> settles P (andThen m k)"
  unfolding settles_def ret_def by (cases m rule: option.exhaust) (auto simp: andThen_def ret_def split: sum.splits)

lemma unicode_loop_settles: "settles (\<lambda>_. True) (unicode_loop fmt off i n val)"
  by (induction n arbitrary: i val) (auto intro!: settles_andThen [OF settles_at])

lemma parse_escape_settles: "settles (\<lambda>(val', off'). off < off') (parse_escape fmt off val)"
  unfolding parse_escape_def
  by (rule settles_andThen [OF settles_at]) (auto intro!: settles_andThen [OF unicode_loop_settles])

lemma string_loop_settles: "length fmt < off + n \<Longrightarrow> 0 < n \<Longrightarrow> settles (\<lambda>_. True) (string_loop n fmt off val)"
proof (induction n arbitrary: off val)
  case (Suc n)
  have more: "settles (\<lambda>_. True) (string_loop n fmt (o' + 1) v)" if "off \<le> o'" "off < length fmt" for o' v
    by (rule Suc.IH) (use Suc.prems that in auto)
  have step: "settles (\<lambda>(val', off'). off \<le> off') (if c = backslash then parse_escape fmt off val else ret (val @ [c], off))" for c
    using settles_mono [OF parse_escape_settles [of off fmt val], of "\<lambda>(val', off'). off \<le> off'"] by auto
  show ?case unfolding string_loop.simps
  proof (rule settles_andThen [OF settles_at])
    fix c assume "off < length fmt"
    then have "settles (\<lambda>_. True) (andThen (if c = backslash then parse_escape fmt off val else ret (val @ [c], off))
        (\<lambda>(val, off). if off + 1 = length fmt then throw (StringSyntax val) else string_loop n fmt (off + 1) val))"
      by (intro settles_andThen [OF step]) (use more in fastforce)
    then show "settles (\<lambda>_. True) (if c = quote then ret (val, off + 1)
        else andThen (if c = backslash then parse_escape fmt off val else ret (val @ [c], off))
          (\<lambda>(val, off). if off + 1 = length fmt then throw (StringSyntax val) else string_loop n fmt (off + 1) val))"
      by (cases "c = quote") simp_all
  qed
qed simp

lemma number_loop_settles: "length fmt < off + n \<Longrightarrow> 0 < n \<Longrightarrow> settles (\<lambda>_. True) (number_loop n fmt off val c fl)"
proof (induction n arbitrary: off val c fl)
  case (Suc n)
  have more: "settles (\<lambda>_. True) (number_loop n fmt (off + 1) v c fl)" if "off < length fmt" for v c fl
    by (rule Suc.IH) (use Suc.prems that in auto)
  then show ?case by (auto intro!: settles_andThen [OF settles_at])
qed simp

lemma exponent_loop_settles: "length fmt < off + n \<Longrightarrow> 0 < n \<Longrightarrow> settles (\<lambda>_. True) (exponent_loop n fmt off val)"
proof (induction n arbitrary: off val)
  case (Suc n)
  have more: "settles (\<lambda>_. True) (exponent_loop n fmt (off + 1) v)" if "off < length fmt" for v
    by (rule Suc.IH) (use Suc.prems that in auto)
  then show ?case by (auto intro!: settles_andThen [OF settles_at])
qed simp

section \<open>Strings\<close>

lemma escape_char_cases:
  obtains "escape_char c = [c]" "c \<noteq> quote" "c \<noteq> backslash"
  | x where "escape_char c = [backslash, x]"
      "\<And>pre rest val. parse_escape (pre @ backslash # x # rest) (length pre) val = ret (val @ [c], length pre + 1)"
proof -
  have esc: "parse_escape (pre @ backslash # x # rest) (length pre) val =
      andThen (ret x) (\<lambda>c. if c = quote then ret (val @ [quote], length pre + 1)
       else if c = backslash then ret (val @ [backslash], length pre + 1)
       else if c = CHR ''/'' then ret (val @ ''/'', length pre + 1)
       else if c = CHR ''b'' then ret (val @ [CHR 0x08], length pre + 1)
       else if c = CHR ''f'' then ret (val @ [CHR 0x0C], length pre + 1)
       else if c = CHR ''n'' then ret (val @ [CHR 0x0A], length pre + 1)
       else if c = CHR ''r'' then ret (val @ [CHR 0x0D], length pre + 1)
       else if c = CHR ''t'' then ret (val @ [CHR 0x09], length pre + 1)
       else ret (val @ [backslash], length pre + 1))" if "x \<noteq> CHR ''u''" for pre x rest val
    using that at_app [of "pre @ [backslash]" x rest] by (simp add: parse_escape_def)
  have "escape_char c = [c] \<and> c \<noteq> quote \<and> c \<noteq> backslash \<or> c = quote \<or> c = backslash \<or> c = CHR 0x08
    \<or> c = CHR 0x0C \<or> c = CHR 0x0A \<or> c = CHR 0x0D \<or> c = CHR 0x09"
    by (simp add: escape_char.simps)
  then consider "escape_char c = [c] \<and> c \<noteq> quote \<and> c \<noteq> backslash"
    | "c = quote" | "c = backslash" | "c = CHR 0x08" | "c = CHR 0x0C" | "c = CHR 0x0A" | "c = CHR 0x0D" | "c = CHR 0x09"
    by blast
  then show thesis
  proof cases
    case 1
    then show thesis using that(1) by blast
  next
    case 2
    then show thesis by (intro that(2) [of quote]) (simp_all add: escape_char.simps esc)
  next
    case 3
    then show thesis by (intro that(2) [of backslash]) (simp_all add: escape_char.simps esc)
  next
    case 4
    then show thesis by (intro that(2) [of "CHR ''b''"]) (simp_all add: escape_char.simps esc)
  next
    case 5
    then show thesis by (intro that(2) [of "CHR ''f''"]) (simp_all add: escape_char.simps esc)
  next
    case 6
    then show thesis by (intro that(2) [of "CHR ''n''"]) (simp_all add: escape_char.simps esc)
  next
    case 7
    then show thesis by (intro that(2) [of "CHR ''r''"]) (simp_all add: escape_char.simps esc)
  next
    case 8
    then show thesis by (intro that(2) [of "CHR ''t''"]) (simp_all add: escape_char.simps esc)
  qed
qed

lemma jsonEscape_Cons [simp]: "jsonEscape (c # s) = escape_char c @ jsonEscape s" "jsonEscape [] = []"
  by (simp_all add: jsonEscape_def)

lemma string_loop_run:
  "length s < n \<Longrightarrow>
    string_loop n (pre @ jsonEscape s @ quote # suf) (length pre) acc = ret (acc @ s, length pre + length (jsonEscape s) + 1)"
proof (induction s arbitrary: pre acc n)
  case Nil
  then show ?case by (cases n) simp_all
next
  case (Cons c s)
  then obtain m where m: "n = Suc m" "length s < m" by (cases n) auto
  show ?case
  proof (cases c rule: escape_char_cases)
    case 1
    have "string_loop n (pre @ jsonEscape (c # s) @ quote # suf) (length pre) acc
        = string_loop m ((pre @ [c]) @ jsonEscape s @ quote # suf) (length (pre @ [c])) (acc @ [c])"
      using 1 m by simp
    also have "\<dots> = ret ((acc @ [c]) @ s, length (pre @ [c]) + length (jsonEscape s) + 1)"
      by (rule Cons.IH) (rule m)
    finally show ?thesis using 1 by simp
  next
    case (2 x)
    have "string_loop n (pre @ jsonEscape (c # s) @ quote # suf) (length pre) acc
        = string_loop m ((pre @ [backslash, x]) @ jsonEscape s @ quote # suf) (length (pre @ [backslash, x])) (acc @ [c])"
      using 2 m by simp
    also have "\<dots> = ret ((acc @ [c]) @ s, length (pre @ [backslash, x]) + length (jsonEscape s) + 1)"
      by (rule Cons.IH) (rule m)
    finally show ?thesis using 2 by simp
  qed
qed

lemma length_jsonEscape: "length s \<le> length (jsonEscape s)"
proof (induction s)
  case (Cons c s)
  then show ?case by (cases c rule: escape_char_cases) simp_all
qed simp

lemma parseString_run:
  "parseString (pre @ (quote # jsonEscape s @ [quote]) @ suf) (length pre)
     = ret (String s, length pre + length (quote # jsonEscape s @ [quote]))"
proof -
  let ?fmt = "pre @ (quote # jsonEscape s @ [quote]) @ suf"
  have "string_loop (length ?fmt + 1) ((pre @ [quote]) @ jsonEscape s @ quote # suf) (length (pre @ [quote])) []
      = ret ([] @ s, length (pre @ [quote]) + length (jsonEscape s) + 1)"
    by (rule string_loop_run) (use length_jsonEscape [of s] in simp)
  then show ?thesis by (simp add: parseString_def)
qed

section \<open>Texts of a value\<close>

inductive renders :: "'f json \<Rightarrow> string \<Rightarrow> bool"
  and renders_members :: "(string \<times> 'f json) list \<Rightarrow> string \<Rightarrow> bool"
  and renders_elements :: "'f json list \<Rightarrow> string \<Rightarrow> bool" where
  null: "renders Null ''null''"
| boolean: "renders (Boolean b) (if b then ''true'' else ''false'')"
| string: "renders (String s) (quote # jsonEscape s @ [quote])"
| integral: "- (2 ^ 63) \<le> i \<Longrightarrow> i < 2 ^ 63 \<Longrightarrow> renders (Integral i) (to_string i)"
| object_empty: "all_space ws \<Longrightarrow> renders (Object []) (CHR ''{'' # ws @ ''}'')"
| object: "renders_members ms s \<Longrightarrow> sorted_wrt (<) (map fst ms) \<Longrightarrow> renders (Object ms) (CHR ''{'' # s @ ''}'')"
| array_empty: "all_space ws \<Longrightarrow> renders (Array []) (CHR ''['' # ws @ '']'')"
| array: "renders_elements vs s \<Longrightarrow> renders (Array vs) (CHR ''['' # s @ '']'')"
| member_last: "renders v s \<Longrightarrow> all_space w1 \<Longrightarrow> all_space w2 \<Longrightarrow> all_space w3 \<Longrightarrow> all_space w4 \<Longrightarrow>
    renders_members [(jsonEscape k, v)] (w1 @ (quote # jsonEscape k @ [quote]) @ w2 @ '':'' @ w3 @ s @ w4)"
| member_more: "renders v s \<Longrightarrow> renders_members ms t \<Longrightarrow> all_space w1 \<Longrightarrow> all_space w2 \<Longrightarrow> all_space w3 \<Longrightarrow> all_space w4 \<Longrightarrow>
    renders_members ((jsonEscape k, v) # ms)
      (w1 @ (quote # jsonEscape k @ [quote]) @ w2 @ '':'' @ w3 @ s @ w4 @ '','' @ t)"
| element_last: "renders v s \<Longrightarrow> all_space w1 \<Longrightarrow> all_space w2 \<Longrightarrow> renders_elements [v] (w1 @ s @ w2)"
| element_more: "renders v s \<Longrightarrow> renders_elements vs t \<Longrightarrow> all_space w1 \<Longrightarrow> all_space w2 \<Longrightarrow>
    renders_elements (v # vs) (w1 @ s @ w2 @ '','' @ t)"

definition first_char :: "char \<Rightarrow> bool" where
  "first_char c \<longleftrightarrow> c \<in> set ''{[tfn'' \<or> c = quote \<or> number_char c"

lemma first_char_props: "first_char c \<Longrightarrow> \<not> isspace c \<and> c \<noteq> CHR ''}'' \<and> c \<noteq> CHR '']''"
  by (auto simp: first_char_def isspace_def number_char_def isdigit_c_iff)

lemma renders_first:
  assumes "renders v s"
  shows "\<exists>c cs. s = c # cs \<and> first_char c"
  using assms
proof cases
  case (integral i)
  then show ?thesis using to_string_Cons [of i] by (auto simp: first_char_def)
qed (auto simp: first_char_def)

lemma renders_members_first:
  assumes "renders_members ms s"
  shows "\<exists>ws c cs. s = ws @ c # cs \<and> all_space ws \<and> \<not> isspace c \<and> c \<noteq> CHR ''}''"
  using assms
proof cases
  case (member_last v t w1 w2 w3 w4 k)
  then show ?thesis by (fastforce simp: isspace_def)
next
  case (member_more v t ms u w1 w2 w3 w4 k)
  then show ?thesis by (fastforce simp: isspace_def)
qed

lemma renders_elements_first:
  assumes "renders_elements vs s"
  shows "\<exists>ws c cs. s = ws @ c # cs \<and> all_space ws \<and> \<not> isspace c \<and> c \<noteq> CHR '']''"
  using assms
proof cases
  case (element_last v t w1 w2)
  then show ?thesis using renders_first [of v t] first_char_props by fastforce
next
  case (element_more v t vs u w1 w2)
  then show ?thesis using renders_first [of v t] first_char_props by fastforce
qed

section \<open>Reading a text back\<close>

text \<open>What may follow a value: anything after a value that ends itself, the end of a number otherwise.\<close>

definition follows :: "'f json \<Rightarrow> string \<Rightarrow> bool" where
  "follows v suf \<longleftrightarrow> (case v of Integral i \<Rightarrow> \<exists>d ds. suf = d # ds \<and> ends_number d | _ \<Rightarrow> True)"

lemma follows_space: "all_space ws \<Longrightarrow> c \<in> set '',]}'' \<Longrightarrow> follows v (ws @ c # rest)"
  by (cases ws) (auto simp: follows_def ends_number_def all_space_def split: json.splits)

definition reads :: "(nat \<Rightarrow> 'a outcome) \<Rightarrow> 'a \<Rightarrow> bool" where
  "reads p r \<longleftrightarrow> (\<exists>N. \<forall>n\<ge>N. p n = ret r)"

lemma reads_Suc: "(\<And>n. N \<le> n \<Longrightarrow> p (Suc n) = ret r) \<Longrightarrow> reads p r"
  unfolding reads_def by (rule exI [of _ "Suc N"]) (metis Suc_le_D Suc_le_mono)

text \<open>White space in front of a value is consumed by \<open>parseNext\<close> itself.\<close>

lemma parseNext_space:
  assumes "fmt = pre @ ws @ c # rest" "all_space ws" "\<not> isspace c"
  shows "parseNext ops n fmt (length pre) = parseNext ops n fmt (length (pre @ ws))"
proof (cases n)
  case (Suc m)
  have "consumeWhitespace fmt (length pre) = length (pre @ ws)"
    using consumeWhitespace_at [OF assms(1) refl assms(2,3)] by simp
  moreover have "consumeWhitespace fmt (length (pre @ ws)) = length (pre @ ws)"
    using consumeWhitespace_at [of fmt "pre @ ws" "[]" c rest] assms by (simp add: all_space_def)
  ultimately show ?thesis using Suc by simp
qed simp

lemma parseNext_first:
  assumes "fmt = pre @ c # rest" "\<not> isspace c"
  shows "parseNext ops (Suc n) fmt (length pre) =
     (if c = CHR ''{'' then parseObject ops (parseNext ops n) n fmt (length pre)
      else if c = CHR ''['' then parseArray (parseNext ops n) n fmt (length pre)
      else if c = quote then parseString fmt (length pre)
      else if c = CHR ''t'' \<or> c = CHR ''f'' then parseBoolean fmt (length pre)
      else if c = CHR ''n'' then parseNull fmt (length pre)
      else if number_char c then parseNumber ops fmt (length pre)
      else throw (UnknownStart c))"
  using consumeWhitespace_at [of fmt pre "[]" c rest] assms by (simp add: all_space_def number_char_def)

definition parses :: "'f floatOps \<Rightarrow> 'f json \<Rightarrow> string \<Rightarrow> bool" where
  "parses ops v s \<longleftrightarrow> (\<forall>pre suf. follows v suf \<longrightarrow>
     reads (\<lambda>n. parseNext ops n (pre @ s @ suf) (length pre)) (v, length (pre @ s)))"

definition parses_members :: "'f floatOps \<Rightarrow> (string \<times> 'f json) list \<Rightarrow> string \<Rightarrow> bool" where
  "parses_members ops ms s \<longleftrightarrow> (\<forall>pre suf acc. sorted_wrt (<) (map fst (acc @ ms)) \<longrightarrow>
     (\<exists>N. \<forall>n m. N \<le> n \<longrightarrow> N \<le> m \<longrightarrow>
        object_loop ops (parseNext ops n) m (pre @ s @ CHR ''}'' # suf) (length pre) (Object acc)
          = ret (Object (acc @ ms), length (pre @ s) + 1)))"

definition parses_elements :: "'f floatOps \<Rightarrow> 'f json list \<Rightarrow> string \<Rightarrow> bool" where
  "parses_elements ops vs s \<longleftrightarrow> (\<forall>pre suf acc.
     (\<exists>N. \<forall>n m. N \<le> n \<longrightarrow> N \<le> m \<longrightarrow>
        array_loop (parseNext ops n) m (pre @ s @ CHR '']'' # suf) (length pre) (length acc) (Array acc)
          = ret (Array (acc @ vs), length (pre @ s) + 1)))"

lemma loop_Suc:
  assumes "\<And>n m. N \<le> n \<Longrightarrow> M \<le> m \<Longrightarrow> f n (Suc m) = r"
  shows "\<exists>N. \<forall>n m. N \<le> n \<longrightarrow> N \<le> m \<longrightarrow> f n m = r"
proof (intro exI [of _ "Suc (max N M)"] allI impI)
  fix n m assume "Suc (max N M) \<le> n" "Suc (max N M) \<le> m"
  then show "f n m = r" using assms [of n "m - 1"] by (cases m) simp_all
qed

lemma assign_index_end: "assign_index (Array acc) (length acc) v = Array (acc @ [v])"
  by (simp add: assign_index_def)

lemma map_assign_end: "sorted_wrt (<) (map fst acc @ [k]) \<Longrightarrow> map_assign k v acc = acc @ [(k, v)]"
  by (induction acc) auto

lemma parses_nested:
  assumes "parses ops v s" "renders v s" "all_space w1" "all_space w2" "c \<in> set '',]}''"
  shows "\<exists>N. \<forall>n\<ge>N. parseNext ops n (pre @ w1 @ s @ w2 @ c # suf) (length pre) = ret (v, length (pre @ w1 @ s))
    \<and> consumeWhitespace (pre @ w1 @ s @ w2 @ c # suf) (length (pre @ w1 @ s)) = length (pre @ w1 @ s @ w2)
    \<and> at (pre @ w1 @ s @ w2 @ c # suf) (length (pre @ w1 @ s @ w2)) = ret c"
proof -
  let ?fmt = "pre @ w1 @ s @ w2 @ c # suf"
  obtain d cs where d: "s = d # cs" "\<not> isspace d" using renders_first [OF assms(2)] first_char_props by blast
  have skip: "parseNext ops n ?fmt (length pre) = parseNext ops n ?fmt (length (pre @ w1))" for n
    by (rule parseNext_space [of _ _ _ d "cs @ w2 @ c # suf"]) (use d assms(3) in simp_all)
  have "reads (\<lambda>n. parseNext ops n ((pre @ w1) @ s @ (w2 @ c # suf)) (length (pre @ w1))) (v, length ((pre @ w1) @ s))"
    using assms(1) follows_space [OF assms(4,5)] unfolding parses_def by blast
  then obtain N where "\<forall>n\<ge>N. parseNext ops n ?fmt (length (pre @ w1)) = ret (v, length (pre @ w1 @ s))"
    by (auto simp: reads_def)
  moreover have "\<not> isspace c" using assms(5) by (auto simp: isspace_def)
  ultimately show ?thesis
    using skip consumeWhitespace_at [of ?fmt "pre @ w1 @ s" w2 c suf] assms(4) by auto
qed

lemma parses_elements_Cons:
  assumes "parses ops v s" "renders v s" "all_space w1" "all_space w2" "parses_elements ops vs t"
  shows "parses_elements ops (v # vs) (w1 @ s @ w2 @ '','' @ t)"
  unfolding parses_elements_def
proof (intro allI)
  fix pre suf and acc :: "'a json list"
  let ?fmt = "pre @ w1 @ s @ w2 @ CHR '','' # t @ CHR '']'' # suf"
  obtain N1 where N1: "\<And>n. N1 \<le> n \<Longrightarrow> parseNext ops n ?fmt (length pre) = ret (v, length (pre @ w1 @ s))
      \<and> consumeWhitespace ?fmt (length (pre @ w1 @ s)) = length (pre @ w1 @ s @ w2)
      \<and> at ?fmt (length (pre @ w1 @ s @ w2)) = ret (CHR '','')"
    using parses_nested [OF assms(1-4), of "CHR '',''"] by fastforce
  obtain N2 where N2: "\<And>n m. N2 \<le> n \<Longrightarrow> N2 \<le> m \<Longrightarrow>
      array_loop (parseNext ops n) m ((pre @ w1 @ s @ w2 @ '','') @ t @ CHR '']'' # suf) (length (pre @ w1 @ s @ w2 @ '',''))
        (length (acc @ [v])) (Array (acc @ [v])) = ret (Array ((acc @ [v]) @ vs), length ((pre @ w1 @ s @ w2 @ '','') @ t) + 1)"
    using assms(5) unfolding parses_elements_def by blast
  have "array_loop (parseNext ops n) (Suc m) ?fmt (length pre) (length acc) (Array acc)
      = ret (Array (acc @ v # vs), length (pre @ w1 @ s @ w2 @ '','' @ t) + 1)" if "max N1 N2 \<le> n" "N2 \<le> m" for n m
    using N1 [of n] N2 [of n m] that by (simp add: assign_index_end)
  then have "\<exists>N. \<forall>n m. N \<le> n \<longrightarrow> N \<le> m \<longrightarrow> array_loop (parseNext ops n) m ?fmt (length pre) (length acc) (Array acc)
      = ret (Array (acc @ v # vs), length (pre @ w1 @ s @ w2 @ '','' @ t) + 1)" by (rule loop_Suc)
  then show "\<exists>N. \<forall>n m. N \<le> n \<longrightarrow> N \<le> m \<longrightarrow>
      array_loop (parseNext ops n) m (pre @ (w1 @ s @ w2 @ '','' @ t) @ CHR '']'' # suf) (length pre) (length acc) (Array acc)
        = ret (Array (acc @ v # vs), length (pre @ w1 @ s @ w2 @ '','' @ t) + 1)"
    by simp
qed

lemma parses_elements_single:
  assumes "parses ops v s" "renders v s" "all_space w1" "all_space w2"
  shows "parses_elements ops [v] (w1 @ s @ w2)"
  unfolding parses_elements_def
proof (intro allI)
  fix pre suf and acc :: "'a json list"
  let ?fmt = "pre @ w1 @ s @ w2 @ CHR '']'' # suf"
  obtain N where N: "\<And>n. N \<le> n \<Longrightarrow> parseNext ops n ?fmt (length pre) = ret (v, length (pre @ w1 @ s))
      \<and> consumeWhitespace ?fmt (length (pre @ w1 @ s)) = length (pre @ w1 @ s @ w2)
      \<and> at ?fmt (length (pre @ w1 @ s @ w2)) = ret (CHR '']'')"
    using parses_nested [OF assms, of "CHR '']''"] by fastforce
  have "array_loop (parseNext ops n) (Suc m) ?fmt (length pre) (length acc) (Array acc)
      = ret (Array (acc @ [v]), length (pre @ w1 @ s @ w2) + 1)" if "N \<le> n" "0 \<le> m" for n m
    using N [of n] that by (simp add: assign_index_end)
  then have "\<exists>N. \<forall>n m. N \<le> n \<longrightarrow> N \<le> m \<longrightarrow> array_loop (parseNext ops n) m ?fmt (length pre) (length acc) (Array acc)
      = ret (Array (acc @ [v]), length (pre @ w1 @ s @ w2) + 1)" by (rule loop_Suc)
  then show "\<exists>N. \<forall>n m. N \<le> n \<longrightarrow> N \<le> m \<longrightarrow>
      array_loop (parseNext ops n) m (pre @ (w1 @ s @ w2) @ CHR '']'' # suf) (length pre) (length acc) (Array acc)
        = ret (Array (acc @ [v]), length (pre @ w1 @ s @ w2) + 1)"
    by simp
qed

text \<open>One member, up to the character behind its value.\<close>

lemma parses_member:
  assumes "parses ops v s" "renders v s" "all_space w1" "all_space w2" "all_space w3" "all_space w4" "c \<in> set '',]}''"
  shows "\<exists>N. \<forall>n m. N \<le> n \<longrightarrow>
    object_loop ops (parseNext ops n) (Suc m)
      (pre @ w1 @ (quote # jsonEscape k @ [quote]) @ w2 @ '':'' @ w3 @ s @ w4 @ c # suf) (length pre) obj =
    (let fmt = pre @ w1 @ (quote # jsonEscape k @ [quote]) @ w2 @ '':'' @ w3 @ s @ w4 @ c # suf;
         off = length (pre @ w1 @ (quote # jsonEscape k @ [quote]) @ w2 @ '':'' @ w3 @ s @ w4);
         obj = assign_key obj (jsonEscape k) v
     in if c = CHR '','' then object_loop ops (parseNext ops n) m fmt (off + 1) obj
        else if c = CHR ''}'' then ret (obj, off + 1) else throw (ExpectedCommaOrBrace c))"
proof -
  let ?q = "quote # jsonEscape k @ [quote]"
  let ?p1 = "pre @ w1 @ ?q" and ?p2 = "pre @ w1 @ ?q @ w2 @ '':''"
  let ?fmt = "pre @ w1 @ ?q @ w2 @ '':'' @ w3 @ s @ w4 @ c # suf"
  have key: "parseNext ops (Suc n) ?fmt (length pre) = ret (String k, length ?p1)" for n
  proof -
    have "parseNext ops (Suc n) ?fmt (length pre) = parseNext ops (Suc n) ?fmt (length (pre @ w1))"
      by (rule parseNext_space [of _ _ _ quote]) (use assms(3) in \<open>simp_all add: isspace_def\<close>)
    also have "\<dots> = parseString ?fmt (length (pre @ w1))"
      by (subst parseNext_first [of _ _ quote]) (simp_all add: isspace_def)
    also have "\<dots> = ret (String k, length ?p1)"
      using parseString_run [of "pre @ w1" k "w2 @ '':'' @ w3 @ s @ w4 @ c # suf"] by (simp add: add.assoc)
    finally show ?thesis .
  qed
  have colon: "consumeWhitespace ?fmt (length ?p1) = length (?p1 @ w2) \<and> at ?fmt (length (?p1 @ w2)) = ret (CHR '':'')"
    by (rule consumeWhitespace_at) (use assms(4) in \<open>simp_all add: isspace_def\<close>)
  obtain d cs where d: "s = d # cs" "\<not> isspace d" using renders_first [OF assms(2)] first_char_props by blast
  have skip: "consumeWhitespace ?fmt (length ?p2) = length (?p2 @ w3)"
    using consumeWhitespace_at [of ?fmt ?p2 w3 d "cs @ w4 @ c # suf"] d assms(5) by simp
  obtain N where N: "\<And>n. N \<le> n \<Longrightarrow> parseNext ops n ?fmt (length (?p2 @ w3)) = ret (v, length (?p2 @ w3 @ s))
      \<and> consumeWhitespace ?fmt (length (?p2 @ w3 @ s)) = length (?p2 @ w3 @ s @ w4)
      \<and> at ?fmt (length (?p2 @ w3 @ s @ w4)) = ret c"
    using parses_nested [OF assms(1,2) _ assms(6,7), of "[]" "?p2 @ w3" suf] by (fastforce simp: all_space_def)
  have "object_loop ops (parseNext ops n) (Suc m) ?fmt (length pre) obj =
      (let off = length (?p2 @ w3 @ s @ w4); obj = assign_key obj (jsonEscape k) v
       in if c = CHR '','' then object_loop ops (parseNext ops n) m ?fmt (off + 1) obj
          else if c = CHR ''}'' then ret (obj, off + 1) else throw (ExpectedCommaOrBrace c))"
    if big: "Suc N \<le> n" for n m
  proof -
    obtain n' where n': "n = Suc n'" using big by (cases n) auto
    have k: "parseNext ops n ?fmt (length pre) = ret (String k, length ?p1)" unfolding n' by (rule key)
    have "length (?p1 @ w2) + 1 = length ?p2" by simp
    then show ?thesis using N [of n] k colon skip big
      by (simp only: object_loop.simps andThen_simps prod.case Let_def asString_def json.case) simp
  qed
  then show ?thesis unfolding Let_def by (intro exI [of _ "Suc N"]) simp
qed

lemma assign_key_end:
  "sorted_wrt (<) (map fst acc @ [k]) \<Longrightarrow> assign_key (Object acc) k v = Object (acc @ [(k, v)])"
  by (simp add: assign_key_def map_assign_end)

lemma parses_members_single:
  assumes "parses ops v s" "renders v s" "all_space w1" "all_space w2" "all_space w3" "all_space w4"
  shows "parses_members ops [(jsonEscape k, v)] (w1 @ (quote # jsonEscape k @ [quote]) @ w2 @ '':'' @ w3 @ s @ w4)"
  unfolding parses_members_def
proof (intro allI impI)
  fix pre suf and acc :: "(string \<times> 'a json) list"
  assume srt: "sorted_wrt (<) (map fst (acc @ [(jsonEscape k, v)]))"
  let ?t = "w1 @ (quote # jsonEscape k @ [quote]) @ w2 @ '':'' @ w3 @ s @ w4"
  let ?fmt = "pre @ w1 @ (quote # jsonEscape k @ [quote]) @ w2 @ '':'' @ w3 @ s @ w4 @ CHR ''}'' # suf"
  have end_char: "CHR ''}'' \<in> set '',]}''" by simp
  obtain N where N: "\<And>n m. N \<le> n \<Longrightarrow> object_loop ops (parseNext ops n) (Suc m) ?fmt (length pre) (Object acc)
      = ret (Object (acc @ [(jsonEscape k, v)]), length (pre @ ?t) + 1)"
    using parses_member [OF assms end_char, of pre k suf "Object acc"] assign_key_end [of acc "jsonEscape k" v] srt
    by (auto simp: Let_def)
  then have "\<exists>N. \<forall>n m. N \<le> n \<longrightarrow> N \<le> m \<longrightarrow> object_loop ops (parseNext ops n) m ?fmt (length pre) (Object acc)
      = ret (Object (acc @ [(jsonEscape k, v)]), length (pre @ ?t) + 1)"
    by (intro loop_Suc [of N 0]) blast
  then show "\<exists>N. \<forall>n m. N \<le> n \<longrightarrow> N \<le> m \<longrightarrow> object_loop ops (parseNext ops n) m (pre @ ?t @ CHR ''}'' # suf) (length pre) (Object acc)
      = ret (Object (acc @ [(jsonEscape k, v)]), length (pre @ ?t) + 1)"
    by simp
qed

lemma parses_members_Cons:
  assumes "parses ops v s" "renders v s" "all_space w1" "all_space w2" "all_space w3" "all_space w4"
    "parses_members ops ms t"
  shows "parses_members ops ((jsonEscape k, v) # ms)
    (w1 @ (quote # jsonEscape k @ [quote]) @ w2 @ '':'' @ w3 @ s @ w4 @ '','' @ t)"
  unfolding parses_members_def
proof (intro allI impI)
  fix pre suf and acc :: "(string \<times> 'a json) list"
  assume srt: "sorted_wrt (<) (map fst (acc @ (jsonEscape k, v) # ms))"
  let ?u = "w1 @ (quote # jsonEscape k @ [quote]) @ w2 @ '':'' @ w3 @ s @ w4 @ '',''"
  let ?fmt = "pre @ w1 @ (quote # jsonEscape k @ [quote]) @ w2 @ '':'' @ w3 @ s @ w4 @ CHR '','' # t @ CHR ''}'' # suf"
  have srt': "sorted_wrt (<) (map fst acc @ [jsonEscape k])" using srt by (auto simp: sorted_wrt_append)
  have comma: "CHR '','' \<in> set '',]}''" by simp
  obtain N1 where N1: "\<And>n m. N1 \<le> n \<Longrightarrow> object_loop ops (parseNext ops n) (Suc m) ?fmt (length pre) (Object acc)
      = object_loop ops (parseNext ops n) m ?fmt (length (pre @ ?u)) (Object (acc @ [(jsonEscape k, v)]))"
    using parses_member [OF assms(1-6) comma, of pre k "t @ CHR ''}'' # suf" "Object acc"] assign_key_end [OF srt']
    by (auto simp: Let_def)
  have "sorted_wrt (<) (map fst ((acc @ [(jsonEscape k, v)]) @ ms))" using srt by simp
  then obtain N2 where N2: "\<And>n m. N2 \<le> n \<Longrightarrow> N2 \<le> m \<Longrightarrow>
      object_loop ops (parseNext ops n) m ((pre @ ?u) @ t @ CHR ''}'' # suf) (length (pre @ ?u)) (Object (acc @ [(jsonEscape k, v)]))
        = ret (Object ((acc @ [(jsonEscape k, v)]) @ ms), length ((pre @ ?u) @ t) + 1)"
    using assms(7) unfolding parses_members_def by blast
  have "object_loop ops (parseNext ops n) (Suc m) ?fmt (length pre) (Object acc)
      = ret (Object (acc @ (jsonEscape k, v) # ms), length (pre @ ?u @ t) + 1)" if "max N1 N2 \<le> n" "N2 \<le> m" for n m
    using N1 [of n m] N2 [of n m] that by simp
  then have "\<exists>N. \<forall>n m. N \<le> n \<longrightarrow> N \<le> m \<longrightarrow> object_loop ops (parseNext ops n) m ?fmt (length pre) (Object acc)
      = ret (Object (acc @ (jsonEscape k, v) # ms), length (pre @ ?u @ t) + 1)" by (rule loop_Suc)
  then show "\<exists>N. \<forall>n m. N \<le> n \<longrightarrow> N \<le> m \<longrightarrow> object_loop ops (parseNext ops n) m
        (pre @ (w1 @ (quote # jsonEscape k @ [quote]) @ w2 @ '':'' @ w3 @ s @ w4 @ '','' @ t) @ CHR ''}'' # suf) (length pre) (Object acc)
      = ret (Object (acc @ (jsonEscape k, v) # ms),
          length (pre @ w1 @ (quote # jsonEscape k @ [quote]) @ w2 @ '':'' @ w3 @ s @ w4 @ '','' @ t) + 1)"
    by simp
qed

lemma readsI_Suc:
  assumes "\<And>n. N \<le> n \<Longrightarrow> parseNext ops (Suc n) fmt off = ret r"
  shows "reads (\<lambda>n. parseNext ops n fmt off) r"
  by (rule reads_Suc) (rule assms)

lemma parses_object:
  assumes "parses_members ops ms s" "renders_members ms s" "sorted_wrt (<) (map fst ms)"
  shows "parses ops (Object ms) (CHR ''{'' # s @ ''}'')"
  unfolding parses_def
proof (intro allI impI)
  fix pre suf
  let ?fmt = "pre @ (CHR ''{'' # s @ ''}'') @ suf"
  obtain ws c cs where c: "s = ws @ c # cs" "all_space ws" "\<not> isspace c" "c \<noteq> CHR ''}''"
    using renders_members_first [OF assms(2)] by blast
  have skip: "consumeWhitespace ?fmt (length (pre @ ''{'')) = length ((pre @ ''{'') @ ws)
      \<and> at ?fmt (length ((pre @ ''{'') @ ws)) = ret c"
    by (rule consumeWhitespace_at [of _ _ _ _ "cs @ ''}'' @ suf"]) (use c in simp_all)
  obtain N where N: "\<And>n m. N \<le> n \<Longrightarrow> N \<le> m \<Longrightarrow>
      object_loop ops (parseNext ops n) m ((pre @ ''{'') @ s @ CHR ''}'' # suf) (length (pre @ ''{'')) (Object [])
        = ret (Object ([] @ ms), length ((pre @ ''{'') @ s) + 1)"
    using assms(1,3) unfolding parses_members_def by (metis append_Nil)
  have shift: "object_loop ops (parseNext ops n) m ?fmt (length (pre @ ''{'')) obj
      = object_loop ops (parseNext ops n) m ?fmt (length ((pre @ ''{'') @ ws)) obj" for n m obj
    using parseNext_space [of ?fmt "pre @ ''{''" ws c "cs @ ''}'' @ suf" ops n] c by (cases m) simp_all
  have "parseNext ops (Suc n) ?fmt (length pre) = ret (Object ms, length (pre @ CHR ''{'' # s @ ''}''))" if "N \<le> n" for n
  proof -
    have "parseNext ops (Suc n) ?fmt (length pre) = parseObject ops (parseNext ops n) n ?fmt (length pre)"
      by (subst parseNext_first [of _ _ "CHR ''{''"]) (simp_all add: isspace_def)
    also have "\<dots> = object_loop ops (parseNext ops n) n ?fmt (length ((pre @ ''{'') @ ws)) (Object [])"
      using skip c(4) by (simp add: parseObject_def Let_def)
    also have "\<dots> = ret (Object ms, length (pre @ CHR ''{'' # s @ ''}''))"
      using N [of n n] that shift [of n n "Object []"] by simp
    finally show ?thesis .
  qed
  then show "reads (\<lambda>n. parseNext ops n ?fmt (length pre)) (Object ms, length (pre @ CHR ''{'' # s @ ''}''))"
    by (rule readsI_Suc)
qed

lemma parses_array:
  assumes "parses_elements ops vs s" "renders_elements vs s"
  shows "parses ops (Array vs) (CHR ''['' # s @ '']'')"
  unfolding parses_def
proof (intro allI impI)
  fix pre suf
  let ?fmt = "pre @ (CHR ''['' # s @ '']'') @ suf"
  obtain ws c cs where c: "s = ws @ c # cs" "all_space ws" "\<not> isspace c" "c \<noteq> CHR '']''"
    using renders_elements_first [OF assms(2)] by blast
  have skip: "consumeWhitespace ?fmt (length (pre @ ''['')) = length ((pre @ ''['') @ ws)
      \<and> at ?fmt (length ((pre @ ''['') @ ws)) = ret c"
    by (rule consumeWhitespace_at [of _ _ _ _ "cs @ '']'' @ suf"]) (use c in simp_all)
  obtain N where N: "\<And>n m. N \<le> n \<Longrightarrow> N \<le> m \<Longrightarrow>
      array_loop (parseNext ops n) m ((pre @ ''['') @ s @ CHR '']'' # suf) (length (pre @ ''['')) (length ([] :: 'a json list)) (Array [])
        = ret (Array ([] @ vs), length ((pre @ ''['') @ s) + 1)"
    using assms(1) unfolding parses_elements_def by metis
  have shift: "array_loop (parseNext ops n) m ?fmt (length (pre @ ''['')) i arr
      = array_loop (parseNext ops n) m ?fmt (length ((pre @ ''['') @ ws)) i arr" for n m i arr
    using parseNext_space [of ?fmt "pre @ ''[''" ws c "cs @ '']'' @ suf" ops n] c by (cases m) simp_all
  have "parseNext ops (Suc n) ?fmt (length pre) = ret (Array vs, length (pre @ CHR ''['' # s @ '']''))" if "N \<le> n" for n
  proof -
    have "parseNext ops (Suc n) ?fmt (length pre) = parseArray (parseNext ops n) n ?fmt (length pre)"
      by (subst parseNext_first [of _ _ "CHR ''[''"]) (simp_all add: isspace_def)
    also have "\<dots> = array_loop (parseNext ops n) n ?fmt (length ((pre @ ''['') @ ws)) 0 (Array [])"
      using skip c(4) by (simp add: parseArray_def Let_def)
    also have "\<dots> = ret (Array vs, length (pre @ CHR ''['' # s @ '']''))"
      using N [of n n] that shift [of n n 0 "Array []"] by simp
    finally show ?thesis .
  qed
  then show "reads (\<lambda>n. parseNext ops n ?fmt (length pre)) (Array vs, length (pre @ CHR ''['' # s @ '']''))"
    by (rule readsI_Suc)
qed

text \<open>Values without parts.\<close>

lemma parses_atom:
  assumes "\<And>pre suf n. follows v suf \<Longrightarrow> parseNext ops (Suc n) (pre @ s @ suf) (length pre) = ret (v, length (pre @ s))"
  shows "parses ops v s"
  unfolding parses_def by (intro allI impI readsI_Suc) (rule assms)

lemma parses_null: "parses ops Null ''null''"
proof (rule parses_atom)
  fix pre suf n
  show "parseNext ops (Suc n) (pre @ ''null'' @ suf) (length pre) = ret (Null, length (pre @ ''null''))"
    by (subst parseNext_first [of _ _ "CHR ''n''"]) (simp_all add: isspace_def parseNull_def ret_def)
qed

lemma parses_boolean: "parses ops (Boolean b) (if b then ''true'' else ''false'')"
proof (cases b)
  case True
  have "parses ops (Boolean True) ''true''"
  proof (rule parses_atom)
    fix pre suf n
    show "parseNext ops (Suc n) (pre @ ''true'' @ suf) (length pre) = ret (Boolean True, length (pre @ ''true''))"
      by (subst parseNext_first [of _ _ "CHR ''t''"]) (simp_all add: isspace_def parseBoolean_def ret_def)
  qed
  then show ?thesis using True by simp
next
  case False
  have "parses ops (Boolean False) ''false''"
  proof (rule parses_atom)
    fix pre suf n
    show "parseNext ops (Suc n) (pre @ ''false'' @ suf) (length pre) = ret (Boolean False, length (pre @ ''false''))"
      by (subst parseNext_first [of _ _ "CHR ''f''"]) (simp_all add: isspace_def parseBoolean_def ret_def)
  qed
  then show ?thesis using False by simp
qed

lemma parses_string: "parses ops (String s) (quote # jsonEscape s @ [quote])"
proof (rule parses_atom)
  fix pre suf n
  show "parseNext ops (Suc n) (pre @ (quote # jsonEscape s @ [quote]) @ suf) (length pre)
      = ret (String s, length (pre @ quote # jsonEscape s @ [quote]))"
    using parseString_run [of pre s suf]
    by (subst parseNext_first [of _ _ quote]) (simp_all add: isspace_def)
qed

lemma number_char_not: "number_char c \<Longrightarrow> \<not> isspace c \<and> c \<notin> set ''{[tfn'' \<and> c \<noteq> quote"
  by (auto simp: number_char_def isdigit_c_iff isspace_def)

lemma parses_integral:
  assumes "- (2 ^ 63) \<le> i" "i < 2 ^ 63"
  shows "parses ops (Integral i) (to_string i)"
proof -
  obtain c cs where c: "to_string i = c # cs" "number_char c" using to_string_Cons by blast
  show ?thesis
  proof (rule parses_atom)
    fix pre suf n
    assume "follows (Integral i :: 'a json) suf"
    then obtain d ds where d: "suf = d # ds" "ends_number d" by (auto simp: follows_def)
    show "parseNext ops (Suc n) (pre @ to_string i @ suf) (length pre) = ret (Integral i, length (pre @ to_string i))"
      using parseNumber_run [OF assms d(2), of ops pre ds] number_char_not [OF c(2)] c d(1)
      by (subst parseNext_first [of _ _ c "cs @ suf"]) auto
  qed
qed

lemma parses_empty:
  assumes "all_space ws"
  shows "parses ops (Object []) (CHR ''{'' # ws @ ''}'')" "parses ops (Array []) (CHR ''['' # ws @ '']'')"
proof -
  show "parses ops (Object []) (CHR ''{'' # ws @ ''}'')"
  proof (rule parses_atom)
    fix pre suf n
    let ?fmt = "pre @ (CHR ''{'' # ws @ ''}'') @ suf"
    have "consumeWhitespace ?fmt (length (pre @ ''{'')) = length ((pre @ ''{'') @ ws)
        \<and> at ?fmt (length ((pre @ ''{'') @ ws)) = ret (CHR ''}'')"
      by (rule consumeWhitespace_at) (use assms in \<open>simp_all add: isspace_def\<close>)
    then show "parseNext ops (Suc n) ?fmt (length pre) = ret (Object [], length (pre @ CHR ''{'' # ws @ ''}''))"
      by (subst parseNext_first [of _ _ "CHR ''{''"]) (simp_all add: isspace_def parseObject_def)
  qed
  show "parses ops (Array []) (CHR ''['' # ws @ '']'')"
  proof (rule parses_atom)
    fix pre suf n
    let ?fmt = "pre @ (CHR ''['' # ws @ '']'') @ suf"
    have "consumeWhitespace ?fmt (length (pre @ ''['')) = length ((pre @ ''['') @ ws)
        \<and> at ?fmt (length ((pre @ ''['') @ ws)) = ret (CHR '']'')"
      by (rule consumeWhitespace_at) (use assms in \<open>simp_all add: isspace_def\<close>)
    then show "parseNext ops (Suc n) ?fmt (length pre) = ret (Array [], length (pre @ CHR ''['' # ws @ '']''))"
      by (subst parseNext_first [of _ _ "CHR ''[''"]) (simp_all add: isspace_def parseArray_def)
  qed
qed

lemma renders_parses:
  "renders v s \<Longrightarrow> parses ops v s"
  "renders_members ms t \<Longrightarrow> parses_members ops ms t"
  "renders_elements vs u \<Longrightarrow> parses_elements ops vs u"
proof (induction rule: renders_renders_members_renders_elements.inducts)
  case (object ms s)
  then show ?case using parses_object by blast
next
  case (array vs s)
  then show ?case using parses_array by blast
next
  case (member_last v s w1 w2 w3 w4 k)
  then show ?case using parses_members_single by blast
next
  case (member_more v s ms t w1 w2 w3 w4 k)
  then show ?case using parses_members_Cons by blast
next
  case (element_last v s w1 w2)
  then show ?case using parses_elements_single by blast
next
  case (element_more v s vs t w1 w2)
  then show ?case using parses_elements_Cons by blast
qed (simp_all only: parses_null parses_boolean parses_string parses_integral parses_empty)

section \<open>The printers render\<close>

text \<open>
  The values the parser can produce without floating point numbers: integers of 64 bits, and objects
  whose keys are escaped and in order.
\<close>

fun json_ok :: "'f json \<Rightarrow> bool"
and members_ok :: "(string \<times> 'f json) list \<Rightarrow> bool"
and elements_ok :: "'f json list \<Rightarrow> bool" where
  "json_ok Null \<longleftrightarrow> True"
| "json_ok (Object ms) \<longleftrightarrow> sorted_wrt (<) (map fst ms) \<and> members_ok ms"
| "json_ok (Array vs) \<longleftrightarrow> elements_ok vs"
| "json_ok (String s) \<longleftrightarrow> True"
| "json_ok (Floating f) \<longleftrightarrow> False"
| "json_ok (Integral i) \<longleftrightarrow> - (2 ^ 63) \<le> i \<and> i < 2 ^ 63"
| "json_ok (Boolean b) \<longleftrightarrow> True"
| "members_ok [] \<longleftrightarrow> True"
| "members_ok ((k, v) # ms) \<longleftrightarrow> k \<in> range jsonEscape \<and> json_ok v \<and> members_ok ms"
| "elements_ok [] \<longleftrightarrow> True"
| "elements_ok (v # vs) \<longleftrightarrow> json_ok v \<and> elements_ok vs"

lemma all_space_simps [simp]:
  "all_space []" "all_space (c # ws) \<longleftrightarrow> isspace c \<and> all_space ws" "all_space (v @ w) \<longleftrightarrow> all_space v \<and> all_space w"
  by (auto simp: all_space_def)

lemma minified_renders:
  fixes ops :: "'f floatOps"
  shows "json_ok v \<Longrightarrow> \<exists>s. dumpMinified ops v = ret s \<and> renders v s"
    and "members_ok ms \<Longrightarrow> \<exists>t. minify_members ops skip ms =
          ret ((if skip \<or> ms = [] then [] else '','') @ t) \<and> (if ms = [] then t = [] else renders_members ms t)"
    and "elements_ok vs \<Longrightarrow> \<exists>u. minify_elements ops skip vs =
          ret ((if skip \<or> vs = [] then [] else '','') @ u) \<and> (if vs = [] then u = [] else renders_elements vs u)"
proof (induction ops v and ops skip ms and ops skip vs rule: dumpMinified_minify_members_minify_elements.induct)
  case (2 ops ms)
  then obtain t where "minify_members ops True ms = ret t" "if ms = [] then t = [] else renders_members ms t" by auto
  then show ?case using 2(2) object_empty [of "[]"] object [of ms t] by (cases "ms = []") auto
next
  case (3 ops vs)
  then obtain t where "minify_elements ops True vs = ret t" "if vs = [] then t = [] else renders_elements vs t" by auto
  then show ?case using array_empty [of "[]"] array [of vs t] by (cases "vs = []") auto
next
  case (9 ops skip k v ms)
  then obtain k' where k: "k = jsonEscape k'" by auto
  obtain s where s: "dumpMinified ops v = ret s" "renders v s" using 9 by auto
  obtain t where t: "minify_members ops False ms = ret ((if ms = [] then [] else '','') @ t)"
    "if ms = [] then t = [] else renders_members ms t" using 9 s by auto
  show ?case
  proof (cases "ms = []")
    case True
    then show ?thesis using s t k member_last [OF s(2), of "[]" "[]" "[]" "[]" k'] by auto
  next
    case False
    then show ?thesis using s t k member_more [OF s(2), of ms t "[]" "[]" "[]" "[]" k'] by auto
  qed
next
  case (11 ops skip v vs)
  obtain s where s: "dumpMinified ops v = ret s" "renders v s" using 11 by auto
  obtain t where t: "minify_elements ops False vs = ret ((if vs = [] then [] else '','') @ t)"
    "if vs = [] then t = [] else renders_elements vs t" using 11 s by auto
  show ?case
  proof (cases "vs = []")
    case True
    then show ?thesis using s t element_last [OF s(2), of "[]" "[]"] by auto
  next
    case False
    then show ?thesis using s t element_more [OF s(2), of vs t "[]" "[]"] by auto
  qed
next
  case (7 ops b)
  show ?case using boolean [of b] by (simp only: dumpMinified.simps) blast
qed (simp_all add: null string integral)

lemma all_space_concat: "\<forall>w\<in>set ws. all_space w \<Longrightarrow> all_space (concat ws)"
  by (auto simp: all_space_def)

lemma pad_space: "all_space tab \<Longrightarrow> all_space (pad_of depth tab) \<and> all_space (drop n (pad_of depth tab))"
  using all_space_concat [of "replicate depth tab"] set_drop_subset [of n "pad_of depth tab"]
  by (auto simp: pad_of_def all_space_def)

lemma space_newline [simp]: "isspace (CHR 0x0A)" "isspace (CHR 0x20)"
  by (simp_all add: isspace_def)

lemma dump_renders:
  fixes ops :: "'f floatOps"
  shows "json_ok v \<Longrightarrow> all_space tab \<Longrightarrow> \<exists>s. dump ops depth tab v = ret s \<and> renders v s"
    and "members_ok ms \<Longrightarrow> all_space tab \<Longrightarrow> \<exists>t. dump_members ops depth tab skip ms =
          ret ((if skip \<or> ms = [] then [] else '','' @ newline) @ t) \<and> (ms = [] \<longrightarrow> t = [])
          \<and> (ms \<noteq> [] \<longrightarrow> (\<forall>w w'. all_space w \<longrightarrow> all_space w' \<longrightarrow> renders_members ms (w @ t @ w')))"
    and "elements_ok vs \<Longrightarrow> all_space tab \<Longrightarrow> \<exists>u. dump_elements ops depth tab skip vs =
          ret ((if skip \<or> vs = [] then [] else '','' @ newline) @ u) \<and> (vs = [] \<longrightarrow> u = [])
          \<and> (vs \<noteq> [] \<longrightarrow> (\<forall>w w'. all_space w \<longrightarrow> all_space w' \<longrightarrow> renders_elements vs (w @ u @ w')))"
proof (induction ops depth tab v and ops depth tab skip ms and ops depth tab skip vs
    rule: dump_dump_members_dump_elements.induct)
  case (2 ops depth tab ms)
  let ?e = "newline @ drop (length tab) (pad_of depth tab)"
  have sp: "all_space newline" "all_space ?e" using pad_space [OF 2(3)] by simp_all
  obtain t where t: "dump_members ops depth tab True ms = ret t" "ms = [] \<longrightarrow> t = []"
    "ms \<noteq> [] \<longrightarrow> (\<forall>w w'. all_space w \<longrightarrow> all_space w' \<longrightarrow> renders_members ms (w @ t @ w'))" using 2 by auto
  show ?case
  proof (cases "ms = []")
    case True
    then show ?thesis using t object_empty [of "newline @ ?e"] sp by simp
  next
    case False
    have "renders_members ms (newline @ t @ ?e)" using t(3) False sp by blast
    then show ?thesis using object [of ms "newline @ t @ ?e"] t(1) 2(2) by simp
  qed
next
  case (3 ops depth tab vs)
  let ?e = "newline @ drop (length tab) (pad_of depth tab)"
  have sp: "all_space newline" "all_space ?e" using pad_space [OF 3(3)] by simp_all
  obtain t where t: "dump_elements ops depth tab True vs = ret t" "vs = [] \<longrightarrow> t = []"
    "vs \<noteq> [] \<longrightarrow> (\<forall>w w'. all_space w \<longrightarrow> all_space w' \<longrightarrow> renders_elements vs (w @ t @ w'))" using 3 by auto
  show ?case
  proof (cases "vs = []")
    case True
    then show ?thesis using t array_empty [of "newline @ ?e"] sp by simp
  next
    case False
    have "renders_elements vs (newline @ t @ ?e)" using t(3) False sp by blast
    then show ?thesis using array [of vs "newline @ t @ ?e"] t(1) by simp
  qed
next
  case (9 ops depth tab skip k v ms)
  then obtain k' where k: "k = jsonEscape k'" by auto
  let ?p = "pad_of depth tab"
  have pad: "all_space ?p" using pad_space [OF 9(4)] by simp
  obtain s where s: "dump ops (depth + 1) tab v = ret s" "renders v s" using 9 by auto
  obtain t where t: "dump_members ops depth tab False ms = ret ((if ms = [] then [] else '','' @ newline) @ t)" "ms = [] \<longrightarrow> t = []"
    "ms \<noteq> [] \<longrightarrow> (\<forall>w w'. all_space w \<longrightarrow> all_space w' \<longrightarrow> renders_members ms (w @ t @ w'))" using 9 s by auto
  show ?case
  proof (cases "ms = []")
    case True
    have "renders_members [(k, v)] (w @ (?p @ quote # k @ [quote] @ '': '' @ s) @ w')" if "all_space w" "all_space w'" for w w'
      using member_last [OF s(2), of "w @ ?p" "[]" "'' ''" w' k'] pad that k by simp
    then show ?thesis using True s t by simp
  next
    case False
    have "renders_members ((k, v) # ms) (w @ (?p @ quote # k @ [quote] @ '': '' @ s @ '','' @ newline @ t) @ w')"
      if "all_space w" "all_space w'" for w w'
    proof -
      have "all_space newline" by simp
      then have "renders_members ms (newline @ t @ w')" using t(3) False that by blast
      then show ?thesis using member_more [OF s(2), of ms "newline @ t @ w'" "w @ ?p" "[]" "'' ''" "[]" k'] pad that k by simp
    qed
    then show ?thesis using False s t(1) by simp
  qed
next
  case (11 ops depth tab skip v vs)
  let ?p = "pad_of depth tab"
  have pad: "all_space ?p" using pad_space [OF 11(4)] by simp
  obtain s where s: "dump ops (depth + 1) tab v = ret s" "renders v s" using 11 by auto
  obtain t where t: "dump_elements ops depth tab False vs = ret ((if vs = [] then [] else '','' @ newline) @ t)" "vs = [] \<longrightarrow> t = []"
    "vs \<noteq> [] \<longrightarrow> (\<forall>w w'. all_space w \<longrightarrow> all_space w' \<longrightarrow> renders_elements vs (w @ t @ w'))" using 11 s by auto
  show ?case
  proof (cases "vs = []")
    case True
    have "renders_elements [v] (w @ (?p @ s) @ w')" if "all_space w" "all_space w'" for w w'
      using element_last [OF s(2), of "w @ ?p" w'] pad that by simp
    then show ?thesis using True s t by simp
  next
    case False
    have "renders_elements (v # vs) (w @ (?p @ s @ '','' @ newline @ t) @ w')" if "all_space w" "all_space w'" for w w'
    proof -
      have "all_space newline" by simp
      then have "renders_elements vs (newline @ t @ w')" using t(3) False that by blast
      then show ?thesis using element_more [OF s(2), of vs "newline @ t @ w'" "w @ ?p" "[]"] pad that by simp
    qed
    then show ?thesis using False s t(1) by simp
  qed
next
  case (7 ops depth tab b)
  show ?case using boolean [of b] by (simp only: dump.simps) blast
qed (simp_all add: null string integral)

section \<open>Properties\<close>

lemma load_renders:
  assumes "renders v s" "\<And>i. v \<noteq> Integral i"
  shows "\<exists>N. \<forall>n\<ge>N. load ops n s = ret v"
proof -
  have "follows v []" using assms(2) by (simp add: follows_def split: json.splits)
  then have "reads (\<lambda>n. parseNext ops n ([] @ s @ []) (length ([] :: string))) (v, length ([] @ s))"
    using renders_parses(1) [OF assms(1), of ops] unfolding parses_def by blast
  then obtain N where N: "\<forall>n\<ge>N. parseNext ops n s 0 = ret (v, length s)" by (auto simp: reads_def)
  then have "load ops n s = ret v" if "N \<le> n" for n using that by (simp add: load_def)
  then show ?thesis by blast
qed

text \<open>
  C39: JSON round trip. A value without floating point numbers that is not a bare number, with 64-bit
  integers and escaped keys, is printed without error by both \<open>dumpMinified\<close> and \<open>dump\<close>, with any
  indentation depth and white space, and \<open>load\<close> terminates on either text and returns the value.
\<close>

theorem json_roundtrip:
  assumes "json_ok v" "\<And>i. v \<noteq> Integral i" "\<forall>c\<in>set tab. isspace c"
  shows "\<exists>s t N. dumpMinified ops v = ret s \<and> dump ops depth tab v = ret t
    \<and> (\<forall>n\<ge>N. load ops n s = ret v \<and> load ops n t = ret v)"
proof -
  obtain s where s: "dumpMinified ops v = ret s" "renders v s" using minified_renders(1) [OF assms(1)] by blast
  obtain t where t: "dump ops depth tab v = ret t" "renders v t"
    using dump_renders(1) [OF assms(1), of tab ops depth] assms(3) unfolding all_space_def by blast
  obtain N M where "\<forall>n\<ge>N. load ops n s = ret v" "\<forall>n\<ge>M. load ops n t = ret v"
    using load_renders [OF s(2) assms(2), of ops] load_renders [OF t(2) assms(2), of ops] by blast
  then have "\<forall>n\<ge>max N M. load ops n s = ret v \<and> load ops n t = ret v" by simp
  then show ?thesis using s(1) t(1) by blast
qed

text \<open>An instance of the operations on numbers, for examples: integers.\<close>

definition integer_ops :: "int floatOps" where
  "integer_ops = \<lparr>stod = from_chars 64, scale10 = (\<lambda>f e. f * 10 ^ nat e), of_long = id, to_long = id,
     is_zero = (\<lambda>f. f = 0), to_chars = (\<lambda>f. Some (to_string f))\<rparr>"

theorem json_roundtrip_witness:
  "\<exists>s t N. dumpMinified integer_ops (Object [(''a'', Array [Integral (- 7), Null])]) = ret s
    \<and> dump integer_ops 1 ''  '' (Object [(''a'', Array [Integral (- 7), Null])]) = ret t
    \<and> (\<forall>n\<ge>N. load integer_ops n s = ret (Object [(''a'', Array [Integral (- 7), Null])])
              \<and> load integer_ops n t = ret (Object [(''a'', Array [Integral (- 7), Null])]))"
proof (rule json_roundtrip)
  have "''a'' = jsonEscape ''a''" by (simp add: escape_char.simps)
  then have "''a'' \<in> range jsonEscape" by (rule range_eqI)
  then show "json_ok (Object [(''a'', Array [Integral (- 7), Null])])" by simp
qed (simp_all add: isspace_def)

text \<open>
  \<open>load\<close> does not terminate on a text that ends in an opening bracket: at the end of the input the
  position steps back onto the bracket, which is parsed again. For the same reason it accepts an array
  whose last bracket is missing.
\<close>

theorem json_load_end_of_input:
  "load ops n ''['' = None \<and> load ops (n + 4) ''[[]'' = ret (Array [Array []])"
proof
  have "consumeWhitespace ''['' 0 = 0" "consumeWhitespace ''['' (Suc 0) = 0"
    using consumeWhitespace_at [of "''[''" "[]" "[]" "CHR ''[''"] consumeWhitespace_end [of "''[''"] by (simp_all add: isspace_def)
  then have "parseNext ops n ''['' 0 = None" for n
  proof (induction n)
    case (Suc n)
    have "array_loop (parseNext ops n) n ''['' 0 0 (Array []) = None" using Suc by (cases n) simp_all
    then show ?case using Suc.prems by (simp add: parseArray_def at_def)
  qed simp
  then show "load ops n ''['' = None" by (simp add: load_def)
  let ?fmt = "''[[]''"
  have ws: "consumeWhitespace ?fmt 0 = 0" "consumeWhitespace ?fmt (Suc 0) = Suc 0"
    "consumeWhitespace ?fmt (Suc (Suc 0)) = Suc (Suc 0)" "consumeWhitespace ?fmt (Suc (Suc (Suc 0))) = Suc (Suc 0)"
    using consumeWhitespace_at [of ?fmt "[]" "[]" "CHR ''[''"] consumeWhitespace_at [of ?fmt "''[''" "[]" "CHR ''[''"]
      consumeWhitespace_at [of ?fmt "''[[''" "[]" "CHR '']''"] consumeWhitespace_end [of ?fmt] by (simp_all add: isspace_def)
  have "n + 4 = Suc (Suc (Suc (Suc n)))" by simp
  then show "load ops (n + 4) ?fmt = ret (Array [Array []])"
    by (simp only:) (simp add: load_def parseArray_def at_def ws assign_index_def)
qed

text \<open>
  \<open>load\<close> rejects every bare integer, so it does not read back what the printers make of one: behind
  the last digit it expects a character that ends a number.
\<close>

theorem json_bare_number:
  "dumpMinified ops (Integral i) = ret (to_string i) \<and> (\<exists>e. load ops (Suc n) (to_string i) = throw e)"
proof
  obtain c cs where c: "to_string i = c # cs" "number_char c" using to_string_Cons by blast
  let ?l = "last (to_string i)"
  have l: "number_char ?l" using to_string_chars [of ?l i] c by simp
  have "number_loop (length (to_string i) + 1) ([] @ to_string i) (length ([] :: string)) [] (CHR 0x00) False
      = ret ([] @ to_string i, (if to_string i = [] then CHR 0x00 else ?l), False, length ([] @ to_string i))"
    by (rule number_loop_end) (use to_string_chars in auto)
  then have num: "parseNumber ops (to_string i) (length ([] :: string)) = throw (UnexpectedInNumber ?l)"
    using l c ends_number_other [of ?l] by (auto simp: parseNumber_def number_char_def isdigit_c_iff)
  have "parseNext ops (Suc n) (to_string i) (length ([] :: string)) = throw (UnexpectedInNumber ?l)"
    using number_char_not [OF c(2)] c num by (subst parseNext_first [of _ "[]" c cs]) auto
  then show "\<exists>e. load ops (Suc n) (to_string i) = throw e" by (simp add: load_def del: parseNext.simps) blast
qed simp

section \<open>Access\<close>

lemma map_of_assign: "sorted_wrt (<) (map fst ms) \<Longrightarrow> map_of (map_assign k v ms) = (map_of ms)(k \<mapsto> v)"
  by (induction ms) (auto simp: fun_eq_iff)

lemma map_assign_keys: "fst ` set (map_assign k v ms) = insert k (fst ` set ms)"
proof (induction ms)
  case (Cons m ms)
  then show ?case by (cases m) auto
qed simp

lemma map_assign_sorted: "sorted_wrt (<) (map fst ms) \<Longrightarrow> sorted_wrt (<) (map fst (map_assign k v ms))"
proof (induction ms)
  case (Cons m ms)
  obtain k' v' where m: "m = (k', v')" by (cases m)
  have "k' < x" if "x \<in> fst ` set (map_assign k v ms)" "k' < k" for x
    using that Cons.prems m by (auto simp: map_assign_keys)
  then show ?case using Cons m by (cases "k < k'"; cases "k = k'") auto
qed simp

lemma init_loop_pairs:
  "init_loop ops (Object ms) (concat (map (\<lambda>(k, v). [String k, v]) kvs))
     = ret (Object (fold (\<lambda>(k, v). map_assign (jsonEscape k) v) kvs ms))"
  by (induction kvs arbitrary: ms) (auto simp: asString_def assign_key_def)

text \<open>
  A list of keys and values makes an object whose members are assigned in the order of the list, under
  the escaped keys; a list of odd length makes nothing.
\<close>

lemma json_init_pairs:
  "json_init ops (concat (map (\<lambda>(k, v). [String k, v]) kvs))
     = ret (Object (fold (\<lambda>(k, v). map_assign (jsonEscape k) v) kvs []))"
  by (simp add: json_init_def ensureType_def init_loop_pairs)

text \<open>
  Reading a JSON container after writing it. Assigning a key keeps an object's keys in order,
  makes \<open>at\<close> return the value under that key and leaves every other key alone, whatever the value was
  before; assigning an index makes \<open>at\<close> return the value there, keeps the elements in front and pads a
  shorter array with nulls; \<open>append\<close> adds exactly one element at the end.
\<close>

theorem json_access:
  assumes "\<And>ms. j = Object ms \<Longrightarrow> sorted_wrt (<) (map fst ms)"
  shows "(\<exists>ms. assign_key j k v = Object ms \<and> sorted_wrt (<) (map fst ms))
    \<and> at_key (assign_key j k v) k = ret v
    \<and> (k' = k \<or> at_key (assign_key j k v) k' = (if isObjectType j then at_key j k' else throw OutOfRange))
    \<and> at_index (assign_index j i v) i = ret v
    \<and> json_length (assign_index j i v) = max (json_length j) (int i + 1)
    \<and> (i' = i \<or> at_index (assign_index j i v) i' =
         (if isArrayType j \<and> i' < nat (json_length j) then at_index j i'
          else if i' < i then ret Null else throw OutOfRange))
    \<and> json_append j v = assign_index j (nat (json_length j)) v"
proof (intro conjI)
  let ?ms = "case j of Object ms \<Rightarrow> ms | _ \<Rightarrow> []" and ?vs = "case j of Array vs \<Rightarrow> vs | _ \<Rightarrow> []"
  have srt: "sorted_wrt (<) (map fst ?ms)" using assms by (auto split: json.splits)
  show "\<exists>ms. assign_key j k v = Object ms \<and> sorted_wrt (<) (map fst ms)"
    using map_assign_sorted [OF srt] by (simp add: assign_key_def)
  show "at_key (assign_key j k v) k = ret v"
    using map_of_assign [OF srt, of k v] by (simp add: assign_key_def at_key_def)
  show "k' = k \<or> at_key (assign_key j k v) k' = (if isObjectType j then at_key j k' else throw OutOfRange)"
    using map_of_assign [OF srt, of k v]
    by (cases j) (auto simp: assign_key_def at_key_def isObjectType_def)
  show "at_index (assign_index j i v) i = ret v" by (auto simp: assign_index_def at_index_def Let_def)
  show "json_length (assign_index j i v) = max (json_length j) (int i + 1)"
    by (cases j) (auto simp: assign_index_def json_length_def Let_def simp del: list_update.simps replicate_Suc)
  show "i' = i \<or> at_index (assign_index j i v) i' =
         (if isArrayType j \<and> i' < nat (json_length j) then at_index j i'
          else if i' < i then ret Null else throw OutOfRange)"
    by (cases j) (auto simp: assign_index_def at_index_def isArrayType_def json_length_def Let_def nth_append nth_list_update
        simp del: list_update.simps replicate_Suc)
  show "json_append j v = assign_index j (nat (json_length j)) v"
    by (cases j) (auto simp: json_append_def assign_index_def json_length_def Let_def)
qed

theorem json_access_witness:
  "at_key (assign_key (Object [(''b'', Null)] :: int json) ''a'' (Boolean True)) ''a'' = ret (Boolean True)"
  by (rule json_access [of "Object [(''b'', Null)]", THEN conjunct2, THEN conjunct1]) simp

end
