(* ===== verification/UT_Fsm.thy ===== *)
theory UT_Fsm
  imports Foo_Prelude
begin

text \<open>
  The finite state machine template of src/utility/include/fsm.hpp: the adaptive call of guards and
  actions, the rows of a transition table, the filter of the table by the type of the event, the search
  for the first row that applies, and \<open>processEvent\<close>.

  The derived object is \<open>self\<close> and the current state is kept beside it. An action may throw: its outcome
  is then \<open>Threw\<close> with what it left of the object. The lock of \<open>processEvent\<close> is recursive and held for the
  whole call, so a call is one step for every other thread.
\<close>

subsection \<open>Calls of guards and actions\<close>

datatype ('d, 'e, 'r) callable =
    Invoke0 'r
  | Invoke1 "'d \<Rightarrow> 'r"
  | Invoke2 "'e \<Rightarrow> 'r"
  | Invoke12 "'d \<Rightarrow> 'e \<Rightarrow> 'r"

fun adaptiveInvoke :: "('d, 'e, 'r) callable \<Rightarrow> 'd \<Rightarrow> 'e \<Rightarrow> 'r" where
  "adaptiveInvoke (Invoke0 r) self event = r"
| "adaptiveInvoke (Invoke1 f) self event = f self"
| "adaptiveInvoke (Invoke2 f) self event = f event"
| "adaptiveInvoke (Invoke12 f) self event = f self event"

datatype 'd fsm_outcome = Done 'd | Threw 'd

subsection \<open>Rows and the machine\<close>

record ('s, 't, 'd, 'e) Row =
  sourceState :: 's
  eventType :: 't
  targetState :: 's
  rowAction :: "('d, 'e, 'd \<Rightarrow> 'd fsm_outcome) callable option"
  rowGuard :: "('d, 'e, bool) callable option"

text \<open>No action does nothing and no guard passes, as for \<open>nullptr\<close> in the template. An action works on
  the object by reference: called in either way, it yields a transformer of the object.\<close>

definition memberAction :: "('d \<Rightarrow> 'd fsm_outcome) \<Rightarrow> ('d, 'e, 'd \<Rightarrow> 'd fsm_outcome) callable" where
  "memberAction f = Invoke1 (\<lambda>self _. f self)"

definition row_process :: "('s, 't, 'd, 'e) Row \<Rightarrow> 'd \<Rightarrow> 'e \<Rightarrow> 'd fsm_outcome" where
  "row_process r self event =
     (case rowAction r of None \<Rightarrow> Done self | Some action \<Rightarrow> adaptiveInvoke action self event self)"

definition checkGuard :: "('s, 't, 'd, 'e) Row \<Rightarrow> 'd \<Rightarrow> 'e \<Rightarrow> bool" where
  "checkGuard r self event =
     (case rowGuard r of None \<Rightarrow> True | Some guard \<Rightarrow> adaptiveInvoke guard self event)"

primrec fsm_filter :: "('b \<Rightarrow> bool) \<Rightarrow> 'b list \<Rightarrow> 'b list" where
  "fsm_filter Predicate [] = []"
| "fsm_filter Predicate (b # bs) =
     (if Predicate b then b # fsm_filter Predicate bs else fsm_filter Predicate bs)"

definition byEvent :: "'t \<Rightarrow> ('s, 't, 'd, 'e) Row list \<Rightarrow> ('s, 't, 'd, 'e) Row list" where
  "byEvent ty = fsm_filter (\<lambda>r. eventType r = ty)"

text \<open>The state is assigned only when the action has returned.\<close>

fun execute :: "('s, 't, 'd, 'e) Row list \<Rightarrow> 'd \<Rightarrow> 'e \<Rightarrow> 's \<Rightarrow> ('s \<times> 'd) fsm_outcome" where
  "execute [] self event state = Done (state, self)"
| "execute (b # bs) self event state =
     (if sourceState b = state \<and> checkGuard b self event then
        (case row_process b self event of
           Done self' \<Rightarrow> Done (targetState b, self') | Threw self' \<Rightarrow> Threw (state, self'))
      else execute bs self event state)"

definition processEvent ::
  "('e \<Rightarrow> 't) \<Rightarrow> ('s, 't, 'd, 'e) Row list \<Rightarrow> 'e \<Rightarrow> 's \<times> 'd \<Rightarrow> ('s \<times> 'd) fsm_outcome" where
  "processEvent typeOf table event m = execute (byEvent (typeOf event) table) (snd m) event (fst m)"

subsection \<open>The first row that applies decides\<close>

definition applies :: "'t \<Rightarrow> 's \<Rightarrow> 'd \<Rightarrow> 'e \<Rightarrow> ('s, 't, 'd, 'e) Row \<Rightarrow> bool" where
  "applies ty state self event r \<longleftrightarrow> eventType r = ty \<and> sourceState r = state \<and> checkGuard r self event"

lemma execute_find:
  "execute (byEvent ty table) self event state =
     (case List.find (applies ty state self event) table of
        None \<Rightarrow> Done (state, self)
      | Some r \<Rightarrow> (case row_process r self event of
          Done self' \<Rightarrow> Done (targetState r, self') | Threw self' \<Rightarrow> Threw (state, self')))"
  by (induction table) (auto simp: byEvent_def applies_def)


lemma processEvent_cases:
  obtains "processEvent typeOf table event (state, self) = Done (state, self)"
  | r self' where "r \<in> set table" "applies (typeOf event) state self event r"
      "row_process r self event = Done self'" "processEvent typeOf table event (state, self) = Done (targetState r, self')"
  | r self' where "r \<in> set table" "applies (typeOf event) state self event r"
      "row_process r self event = Threw self'" "processEvent typeOf table event (state, self) = Threw (state, self')"
proof (cases "List.find (applies (typeOf event) state self event) table")
  case None
  then show thesis
    using that(1) by (simp add: processEvent_def execute_find)
next
  case (Some r)
  then have r: "r \<in> set table" "applies (typeOf event) state self event r"
    by (auto simp: find_Some_iff)
  show thesis
    using that(2,3) [OF r] Some
    by (cases "row_process r self event") (simp_all add: processEvent_def execute_find)
qed

text \<open>What the rows of a table keep, the machine keeps.\<close>

locale table_invariant =
  fixes typeOf :: "'e \<Rightarrow> 't"
    and table :: "('s, 't, 'd, 'e) Row list"
    and inv :: "'s \<Rightarrow> 'd \<Rightarrow> bool"
  assumes row_done: "r \<in> set table \<Longrightarrow> inv (sourceState r) d \<Longrightarrow> checkGuard r d e
      \<Longrightarrow> row_process r d e = Done d' \<Longrightarrow> inv (targetState r) d'"
    and row_threw: "r \<in> set table \<Longrightarrow> inv (sourceState r) d \<Longrightarrow> checkGuard r d e
      \<Longrightarrow> row_process r d e = Threw d' \<Longrightarrow> inv (sourceState r) d'"
begin

lemma event_done:
  assumes "inv s d" "processEvent typeOf table e (s, d) = Done (s', d')"
  shows "inv s' d'"
  using assms by (cases rule: processEvent_cases [of typeOf table e s d]) (auto simp: applies_def dest: row_done)

lemma event_threw:
  assumes "inv s d" "processEvent typeOf table e (s, d) = Threw (s', d')"
  shows "s' = s" "inv s' d'"
  using assms by (cases rule: processEvent_cases [of typeOf table e s d]; auto simp: applies_def dest: row_threw)+

end

end
