(* ===== verification/AP_Helper.thy ===== *)
theory AP_Helper
  imports UT_Fsm
begin

text \<open>
  What the logger and the viewer have in common, written once: the states and the events of their
  machines, the \<open>service\<close> loop with its retries, the three calls of the access controller, and the flags
  through which controller and service talk.

  The service, one controller and the other threads of the program run interleaved; a step is what one
  of them does without giving up the lock it holds or between two accesses to shared data. A class
  is given by the set of its transition tables (one for every way in which the system calls of the
  actions can end), the condition and the body of its notification loop, and what other threads may do to
  the object.
\<close>

datatype State = initial | active | established | inactive | idle

text \<open>\<open>Create\<close> is \<open>OpenFile\<close> of the logger and \<open>CreateServer\<close> of the viewer, \<open>Go\<close> is \<open>GoLogging\<close> and
  \<open>GoViewing\<close>, \<open>Destroy\<close> is \<open>CloseFile\<close> and \<open>DestroyServer\<close>, \<open>Quit\<close> is \<open>NoLogging\<close> and \<open>NoViewing\<close>.\<close>

datatype Event = Create | Go | Destroy | Quit | Standby | Relaunch

record helper =
  isOngoing :: bool
  inResetting :: bool

type_synonym 'z table = "(State, Event, 'z helper_scheme, Event) Row list"

text \<open>A row whose action is a member function without arguments, and one with a guard on the event.\<close>

definition row :: "State \<Rightarrow> Event \<Rightarrow> State \<Rightarrow> ('d \<Rightarrow> 'd fsm_outcome) \<Rightarrow> (State, Event, 'd, Event) Row" where
  "row src ev tgt act =
     \<lparr>sourceState = src, eventType = ev, targetState = tgt, rowAction = Some (memberAction act), rowGuard = None\<rparr>"

definition guarded_row ::
  "State \<Rightarrow> Event \<Rightarrow> State \<Rightarrow> ('d \<Rightarrow> 'd fsm_outcome) \<Rightarrow> ('d \<Rightarrow> bool) \<Rightarrow> (State, Event, 'd, Event) Row" where
  "guarded_row src ev tgt act grd =
     \<lparr>sourceState = src, eventType = ev, targetState = tgt, rowAction = Some (memberAction act),
      rowGuard = Some (Invoke12 (\<lambda>self _. grd self))\<rparr>"

lemmas table_defs = processEvent_def byEvent_def row_def guarded_row_def checkGuard_def row_process_def memberAction_def

text \<open>The service is at one of these points; \<open>Aborted\<close> is a failed assertion, \<open>Escaped\<close> an exception
  that leaves \<open>service\<close>.\<close>

datatype point = AtRelaunch | AtCreate | AtAwait | AtGo | AtLoop | AtWait | AtCheck | AtDestroy | AtQuit
  | AtCatch | AtSleep | Asleep | AtWoken | Finished | Aborted | Escaped

text \<open>The calls of the controller: the two reads of \<open>isInServingState\<close> for the idle state and for the
  target, in turn.\<close>

datatype goal = StartActive | StartEstablished | StopInactive

datatype test = TestIdle | SawIdle | TestTarget | SawTarget

datatype control = Returned bool | WaitFor goal test
  | StoreStart | NotifyStart | StoreStop | NotifyStop | StoreReload | NotifyReload | Countdown

record 'd system =
  fsmState :: State
  self :: 'd
  pc :: point
  ctl :: control

primrec goal_state :: "goal \<Rightarrow> State" where
  "goal_state StartActive = active"
| "goal_state StartEstablished = established"
| "goal_state StopInactive = inactive"

primrec after_goal :: "goal \<Rightarrow> control" where
  "after_goal StartActive = StoreStart"
| "after_goal StartEstablished = Returned True"
| "after_goal StopInactive = Returned True"

text \<open>Events the service processes on its way, with the state it asserts and where it goes on.\<close>

fun script :: "point \<Rightarrow> (Event \<times> State \<times> point) option" where
  "script AtRelaunch = Some (Relaunch, initial, AtCreate)"
| "script AtCreate = Some (Create, active, AtAwait)"
| "script AtGo = Some (Go, established, AtLoop)"
| "script AtDestroy = Some (Destroy, active, AtQuit)"
| "script AtQuit = Some (Quit, inactive, Finished)"
| "script _ = None"

definition wake_service :: "'d system \<Rightarrow> 'd system" where
  "wake_service s = (if pc s = Asleep then s\<lparr>pc := AtWoken\<rparr> else s)"

subsection \<open>The service\<close>

inductive service_step ::
  "'z table set \<Rightarrow> ('z helper_scheme \<Rightarrow> bool) \<Rightarrow> ('z helper_scheme \<Rightarrow> 'z helper_scheme fsm_outcome)
     \<Rightarrow> 'z helper_scheme system \<Rightarrow> 'z helper_scheme system \<Rightarrow> bool"
  for tables ready body where
  event_done: "script (pc s) = Some (e, expected, p) \<Longrightarrow> t \<in> tables
    \<Longrightarrow> processEvent id t e (fsmState s, self s) = Done (st', d')
    \<Longrightarrow> service_step tables ready body s
          (s\<lparr>fsmState := st', self := d', pc := if st' = expected then p else Aborted\<rparr>)"
| event_threw: "script (pc s) = Some (e, expected, p) \<Longrightarrow> t \<in> tables
    \<Longrightarrow> processEvent id t e (fsmState s, self s) = Threw (st', d')
    \<Longrightarrow> service_step tables ready body s (s\<lparr>fsmState := st', self := d', pc := AtCatch\<rparr>)"
| proceed: "pc s = AtAwait \<Longrightarrow> isOngoing (self s)
    \<Longrightarrow> service_step tables ready body s (s\<lparr>pc := AtGo\<rparr>)"
| loop_enter: "pc s = AtLoop \<Longrightarrow> isOngoing (self s)
    \<Longrightarrow> service_step tables ready body s (s\<lparr>pc := AtWait\<rparr>)"
| loop_exit: "pc s = AtLoop \<Longrightarrow> \<not> isOngoing (self s)
    \<Longrightarrow> service_step tables ready body s (s\<lparr>pc := AtCheck\<rparr>)"
| loop_break: "pc s = AtWait \<Longrightarrow> inResetting (self s)
    \<Longrightarrow> service_step tables ready body s (s\<lparr>pc := AtCheck\<rparr>)"
| loop_done: "pc s = AtWait \<Longrightarrow> \<not> inResetting (self s) \<Longrightarrow> \<not> isOngoing (self s) \<or> ready (self s)
    \<Longrightarrow> body (self s) = Done d' \<Longrightarrow> service_step tables ready body s (s\<lparr>self := d', pc := AtLoop\<rparr>)"
| loop_threw: "pc s = AtWait \<Longrightarrow> \<not> inResetting (self s) \<Longrightarrow> \<not> isOngoing (self s) \<or> ready (self s)
    \<Longrightarrow> body (self s) = Threw d' \<Longrightarrow> service_step tables ready body s (s\<lparr>self := d', pc := AtCatch\<rparr>)"
| check_retry: "pc s = AtCheck \<Longrightarrow> inResetting (self s)
    \<Longrightarrow> service_step tables ready body s (s\<lparr>pc := AtRelaunch\<rparr>)"
| check_close: "pc s = AtCheck \<Longrightarrow> \<not> inResetting (self s)
    \<Longrightarrow> service_step tables ready body s (s\<lparr>pc := AtDestroy\<rparr>)"
| catch_done: "pc s = AtCatch \<Longrightarrow> t \<in> tables
    \<Longrightarrow> processEvent id t Standby (fsmState s, self s) = Done (st', d')
    \<Longrightarrow> service_step tables ready body s (s\<lparr>fsmState := st', self := d', pc := AtSleep\<rparr>)"
| catch_threw: "pc s = AtCatch \<Longrightarrow> t \<in> tables
    \<Longrightarrow> processEvent id t Standby (fsmState s, self s) = Threw (st', d')
    \<Longrightarrow> service_step tables ready body s (s\<lparr>fsmState := st', self := d', pc := Escaped\<rparr>)"
| fall_asleep: "pc s = AtSleep \<Longrightarrow> service_step tables ready body s (s\<lparr>pc := Asleep\<rparr>)"
| woken_retry: "pc s = AtWoken \<Longrightarrow> inResetting (self s)
    \<Longrightarrow> service_step tables ready body s (s\<lparr>pc := AtRelaunch\<rparr>)"
| woken_return: "pc s = AtWoken \<Longrightarrow> \<not> inResetting (self s)
    \<Longrightarrow> service_step tables ready body s (s\<lparr>pc := Finished\<rparr>)"

subsection \<open>The controller\<close>

inductive control_step :: "'z helper_scheme system \<Rightarrow> 'z helper_scheme system \<Rightarrow> bool" where
  call_startup: "ctl s = Returned b \<Longrightarrow> control_step s (s\<lparr>ctl := WaitFor StartActive TestIdle\<rparr>)"
| call_shutdown: "ctl s = Returned b \<Longrightarrow> control_step s (s\<lparr>ctl := StoreStop\<rparr>)"
| call_reload: "ctl s = Returned b \<Longrightarrow> control_step s (s\<lparr>ctl := StoreReload\<rparr>)"
| test_idle: "ctl s = WaitFor g TestIdle
    \<Longrightarrow> control_step s (s\<lparr>ctl := WaitFor g (if fsmState s = idle then SawIdle else TestTarget)\<rparr>)"
| saw_idle: "ctl s = WaitFor g SawIdle
    \<Longrightarrow> control_step s (s\<lparr>ctl := if inResetting (self s) then WaitFor g TestTarget else Returned False\<rparr>)"
| test_target: "ctl s = WaitFor g TestTarget
    \<Longrightarrow> control_step s (s\<lparr>ctl := WaitFor g (if fsmState s = goal_state g then SawTarget else TestIdle)\<rparr>)"
| saw_target: "ctl s = WaitFor g SawTarget
    \<Longrightarrow> control_step s (s\<lparr>ctl := if inResetting (self s) then WaitFor g TestIdle else after_goal g\<rparr>)"
| store_start: "ctl s = StoreStart
    \<Longrightarrow> control_step s (s\<lparr>self := (self s)\<lparr>isOngoing := True\<rparr>, ctl := NotifyStart\<rparr>)"
| notify_start: "ctl s = NotifyStart
    \<Longrightarrow> control_step s ((wake_service s)\<lparr>ctl := WaitFor StartEstablished TestIdle\<rparr>)"
| store_stop: "ctl s = StoreStop
    \<Longrightarrow> control_step s (s\<lparr>self := (self s)\<lparr>isOngoing := False\<rparr>, ctl := NotifyStop\<rparr>)"
| notify_stop: "ctl s = NotifyStop
    \<Longrightarrow> control_step s ((wake_service s)\<lparr>ctl := WaitFor StopInactive TestIdle\<rparr>)"
| store_reload: "ctl s = StoreReload
    \<Longrightarrow> control_step s (s\<lparr>self := (self s)\<lparr>inResetting := True\<rparr>, ctl := NotifyReload\<rparr>)"
| notify_reload: "ctl s = NotifyReload \<Longrightarrow> control_step s ((wake_service s)\<lparr>ctl := Countdown\<rparr>)"
| countdown_met: "ctl s = Countdown \<Longrightarrow> \<not> inResetting (self s) \<Longrightarrow> control_step s (s\<lparr>ctl := Returned True\<rparr>)"
| countdown_over: "ctl s = Countdown \<Longrightarrow> control_step s (s\<lparr>ctl := Returned False\<rparr>)"

subsection \<open>All threads\<close>

datatype actor = Service | Controller | Others | Spurious

inductive step ::
  "'z table set \<Rightarrow> ('z helper_scheme \<Rightarrow> bool) \<Rightarrow> ('z helper_scheme \<Rightarrow> 'z helper_scheme fsm_outcome)
     \<Rightarrow> (State \<Rightarrow> 'z helper_scheme \<Rightarrow> 'z helper_scheme \<Rightarrow> bool)
     \<Rightarrow> actor \<Rightarrow> 'z helper_scheme system \<Rightarrow> 'z helper_scheme system \<Rightarrow> bool"
  for tables ready body others where
  service: "service_step tables ready body s s' \<Longrightarrow> step tables ready body others Service s s'"
| controller: "control_step s s' \<Longrightarrow> step tables ready body others Controller s s'"
| other: "others (fsmState s) (self s) d' \<Longrightarrow> step tables ready body others Others s (s\<lparr>self := d'\<rparr>)"
| spurious: "pc s = Asleep \<Longrightarrow> step tables ready body others Spurious s (wake_service s)"

definition system_init :: "'d \<Rightarrow> 'd system" where
  "system_init d = \<lparr>fsmState = initial, self = d, pc = AtRelaunch, ctl = Returned True\<rparr>"

inductive reachable ::
  "(actor \<Rightarrow> 'd system \<Rightarrow> 'd system \<Rightarrow> bool) \<Rightarrow> 'd system \<Rightarrow> 'd system \<Rightarrow> bool"
  for stp s0 where
  start: "reachable stp s0 s0"
| more: "reachable stp s0 s \<Longrightarrow> stp a s s' \<Longrightarrow> reachable stp s0 s'"

inductive_cases service_stepE: "service_step tables ready body s s'"
inductive_cases control_stepE: "control_step s s'"
inductive_cases stepE: "step tables ready body others a s s'"

subsection \<open>Requests that are never served\<close>

text \<open>A reload is pending, the start-up that follows it waits for the active state, and the service
  either sleeps in the idle state or waits to proceed in the active one: neither of the two looks
  at the request.\<close>

definition stuck :: "'z helper_scheme system \<Rightarrow> bool" where
  "stuck s \<longleftrightarrow> inResetting (self s) \<and> (\<exists>tst. ctl s = WaitFor StartActive tst) \<and>
     (pc s \<in> {AtSleep, Asleep} \<and> fsmState s = idle
      \<or> pc s = AtAwait \<and> fsmState s = active \<and> \<not> isOngoing (self s))"

text \<open>The service sleeps while the only call under way, if any, is a shut-down that has already notified it.\<close>

definition resting :: "'z helper_scheme system \<Rightarrow> bool" where
  "resting s \<longleftrightarrow> pc s \<in> {AtSleep, Asleep} \<and> (\<exists>b tst. ctl s \<in> {Returned b, WaitFor StopInactive tst})"

text \<open>No wake-up out of nothing; no further call of the controller.\<close>

definition awake_only :: "(actor \<Rightarrow> 'd system \<Rightarrow> 'd system \<Rightarrow> bool) \<Rightarrow> actor \<Rightarrow> 'd system \<Rightarrow> 'd system \<Rightarrow> bool" where
  "awake_only stp a s s' \<longleftrightarrow> a \<noteq> Spurious \<and> stp a s s'"

definition no_call :: "(actor \<Rightarrow> 'd system \<Rightarrow> 'd system \<Rightarrow> bool) \<Rightarrow> actor \<Rightarrow> 'd system \<Rightarrow> 'd system \<Rightarrow> bool" where
  "no_call stp a s s' \<longleftrightarrow> a \<noteq> Spurious \<and> stp a s s' \<and> \<not> (a = Controller \<and> (\<exists>b. ctl s = Returned b))"

subsection \<open>What a class has to provide\<close>

text \<open>\<open>prepared\<close> holds between creation and \<open>Go\<close>, \<open>serving\<close> while the notification loop runs, \<open>closed\<close> between
  destruction and \<open>Quit\<close>.\<close>

locale helper_class =
  fixes tables :: "'z table set"
    and ready :: "'z helper_scheme \<Rightarrow> bool"
    and body :: "'z helper_scheme \<Rightarrow> 'z helper_scheme fsm_outcome"
    and others :: "State \<Rightarrow> 'z helper_scheme \<Rightarrow> 'z helper_scheme \<Rightarrow> bool"
    and prepared :: "'z helper_scheme \<Rightarrow> bool"
    and serving :: "'z helper_scheme \<Rightarrow> bool"
    and closed :: "'z helper_scheme \<Rightarrow> bool"
  assumes some_table: "tables \<noteq> {}"
    and relaunch: "t \<in> tables \<Longrightarrow> st \<in> {initial, established, idle} \<Longrightarrow> processEvent id t Relaunch (st, d) = Done (st', d') \<Longrightarrow> st' = initial"
    and create: "t \<in> tables \<Longrightarrow> processEvent id t Create (initial, d) = Done (st', d') \<Longrightarrow> st' = active \<and> prepared d'"
    and go: "t \<in> tables \<Longrightarrow> prepared d \<Longrightarrow> processEvent id t Go (active, d) = Done (st', d') \<Longrightarrow> st' = established \<and> serving d'"
    and destroy: "t \<in> tables \<Longrightarrow> serving d \<Longrightarrow> processEvent id t Destroy (established, d) = Done (st', d') \<Longrightarrow> st' = active \<and> closed d'"
    and quit: "t \<in> tables \<Longrightarrow> closed d \<Longrightarrow> processEvent id t Quit (active, d) = Done (st', d') \<Longrightarrow> st' = inactive"
    and standby: "t \<in> tables \<Longrightarrow> st \<noteq> inactive \<Longrightarrow> \<exists>d'. processEvent id t Standby (st, d) = Done (idle, d')"
    and body_serving: "serving d \<Longrightarrow> body d = Done d' \<Longrightarrow> serving d'"
    and others_keep: "others st d d' \<Longrightarrow> prepared d' = prepared d \<and> serving d' = serving d \<and> closed d' = closed d"
    and others_flags: "others st d d' \<Longrightarrow> isOngoing d' = isOngoing d \<and> inResetting d' = inResetting d"
    and flags_keep: "prepared (d\<lparr>isOngoing := b\<rparr>) = prepared d" "serving (d\<lparr>isOngoing := b\<rparr>) = serving d"
      "closed (d\<lparr>isOngoing := b\<rparr>) = closed d" "prepared (d\<lparr>inResetting := b\<rparr>) = prepared d"
      "serving (d\<lparr>inResetting := b\<rparr>) = serving d" "closed (d\<lparr>inResetting := b\<rparr>) = closed d"
begin

abbreviation stp where "stp \<equiv> step tables ready body others"

text \<open>The state of the machine and of the object at every point of the service.\<close>

definition placed :: "'z helper_scheme system \<Rightarrow> bool" where
  "placed s \<longleftrightarrow>
     (case pc s of
        AtRelaunch \<Rightarrow> fsmState s \<in> {initial, established, idle}
      | AtCreate \<Rightarrow> fsmState s = initial
      | AtAwait \<Rightarrow> fsmState s = active \<and> prepared (self s)
      | AtGo \<Rightarrow> fsmState s = active \<and> prepared (self s)
      | AtQuit \<Rightarrow> fsmState s = active \<and> closed (self s)
      | AtCatch \<Rightarrow> fsmState s \<noteq> inactive
      | AtSleep \<Rightarrow> fsmState s = idle
      | Asleep \<Rightarrow> fsmState s = idle
      | AtWoken \<Rightarrow> fsmState s = idle
      | Finished \<Rightarrow> fsmState s \<in> {inactive, idle}
      | Aborted \<Rightarrow> False
      | Escaped \<Rightarrow> False
      | _ \<Rightarrow> fsmState s = established \<and> serving (self s))"

lemma threw_state: "processEvent id t e (st, d) = Threw (st', d') \<Longrightarrow> st' = st"
  by (cases rule: processEvent_cases [of id t e st d]) auto

lemma placed_event:
  assumes "placed s" "script (pc s) = Some (e, expected, p)" "t \<in> tables"
    and "processEvent id t e (fsmState s, self s) = Done (st', d')"
  shows "st' = expected" "placed (s\<lparr>fsmState := st', self := d', pc := p\<rparr>)"
proof -
  have "st' = expected \<and> placed (s\<lparr>fsmState := st', self := d', pc := p\<rparr>)"
  proof (cases "pc s")
    case AtRelaunch
    then show ?thesis
      using assms relaunch [of t "fsmState s" "self s" st' d'] by (auto simp: placed_def)
  next
    case AtCreate
    then show ?thesis
      using assms create [of t "self s" st' d'] by (auto simp: placed_def)
  next
    case AtGo
    then show ?thesis
      using assms go [of t "self s" st' d'] by (auto simp: placed_def)
  next
    case AtDestroy
    then show ?thesis
      using assms destroy [of t "self s" st' d'] by (auto simp: placed_def)
  next
    case AtQuit
    then show ?thesis
      using assms quit [of t "self s" st' d'] by (auto simp: placed_def)
  qed (use assms(2) in auto)
  then show "st' = expected" "placed (s\<lparr>fsmState := st', self := d', pc := p\<rparr>)"
    by auto
qed

lemma placed_threw:
  assumes "placed s" "script (pc s) = Some (e, expected, p)"
    and "processEvent id t e (fsmState s, self s) = Threw (st', d')"
  shows "placed (s\<lparr>fsmState := st', self := d', pc := AtCatch\<rparr>)"
  using assms threw_state [OF assms(3)] by (cases "pc s"; auto simp: placed_def)

lemma placed_standby:
  assumes "placed s" "pc s = AtCatch" "t \<in> tables"
  obtains d' where "processEvent id t Standby (fsmState s, self s) = Done (idle, d')"
  using assms standby [of t "fsmState s" "self s"] by (auto simp: placed_def)

lemma placed_service:
  assumes "service_step tables ready body s s'" "placed s"
  shows "placed s'"
  using assms
proof (cases rule: service_step.cases)
  case (event_done e expected p t st' d')
  then show ?thesis
    using placed_event [OF assms(2), of e expected p t st' d'] by simp
next
  case (event_threw e expected p t st' d')
  then show ?thesis
    using placed_threw [OF assms(2)] by simp
next
  case (catch_done t st' d')
  then show ?thesis
    using placed_standby [OF assms(2), of t] by (auto simp: placed_def)
next
  case (catch_threw t st' d')
  then show ?thesis
    using placed_standby [OF assms(2), of t] by auto
qed (use assms(2) in \<open>auto simp: placed_def body_serving\<close>)

lemma placed_control:
  assumes "control_step s s'" "placed s"
  shows "placed s'"
  using assms by (cases rule: control_step.cases) (auto simp: placed_def wake_service_def flags_keep split: point.splits)

lemma placed_step:
  assumes "stp a s s'" "placed s"
  shows "placed s'"
  using assms(1)
proof (cases rule: step.cases)
  case service
  then show ?thesis using placed_service assms(2) by blast
next
  case controller
  then show ?thesis using placed_control assms(2) by blast
next
  case (other d')
  then show ?thesis
    using assms(2) others_keep [of "fsmState s" "self s" d'] by (simp add: placed_def split: point.splits)
next
  case spurious
  then show ?thesis using assms(2) by (simp add: placed_def wake_service_def)
qed

lemma reachable_placed: "reachable stp (system_init d) s \<Longrightarrow> placed s"
proof (induction rule: reachable.induct)
  case start
  show ?case by (simp add: placed_def system_init_def)
next
  case (more s a s')
  then show ?case by (blast intro: placed_step)
qed

text \<open>No assertion fails and no exception leaves the service.\<close>

lemma never_aborts: "reachable stp (system_init d) s \<Longrightarrow> pc s \<notin> {Aborted, Escaped}"
  by (drule reachable_placed) (auto simp: placed_def)

lemma serving_established:
  "reachable stp (system_init d) s \<Longrightarrow> fsmState s = established \<Longrightarrow> pc s \<notin> {AtRelaunch, AtCatch} \<Longrightarrow> serving (self s)"
  by (drule reachable_placed) (auto simp: placed_def split: point.splits)

text \<open>The service blocks only where it waits for a flag or for a notification.\<close>

lemma service_enabled:
  assumes "pc s \<notin> {AtAwait, AtWait, Asleep, Finished, Aborted, Escaped}"
  shows "\<exists>s'. service_step tables ready body s s'"
proof -
  obtain t where t: "t \<in> tables"
    using some_table by blast
  have ev: "\<exists>s'. service_step tables ready body s s'" if "script (pc s) = Some (e, ex, p)" for e ex p
  proof (cases "processEvent id t e (fsmState s, self s)")
    case (Done m)
    then show ?thesis
      using service_step.event_done [OF that t] by (cases m) blast
  next
    case (Threw m)
    then show ?thesis
      using service_step.event_threw [OF that t] by (cases m) blast
  qed
  have catch: "\<exists>s'. service_step tables ready body s s'" if "pc s = AtCatch"
  proof (cases "processEvent id t Standby (fsmState s, self s)")
    case (Done m)
    then show ?thesis
      using service_step.catch_done [OF that t] by (cases m) blast
  next
    case (Threw m)
    then show ?thesis
      using service_step.catch_threw [OF that t] by (cases m) blast
  qed
  show ?thesis
    using assms ev catch
    by (cases "pc s"; cases "isOngoing (self s)"; cases "inResetting (self s)")
       (auto intro: service_step.intros)
qed

text \<open>Reload requests that nobody serves stay unserved, and the start-up behind them never returns.\<close>

lemma stuck_step:
  assumes "stp a s s'" "a \<noteq> Spurious" "stuck s"
  shows "stuck s'"
  using assms(1)
proof (cases rule: step.cases)
  case service
  from service(2) show ?thesis
    using assms(3) by (cases rule: service_step.cases) (auto simp: stuck_def)
next
  case controller
  from controller(2) show ?thesis
    using assms(3) by (cases rule: control_step.cases) (auto simp: stuck_def)
next
  case (other d')
  then show ?thesis
    using assms(3) others_flags [of "fsmState s" "self s" d'] by (auto simp: stuck_def)
next
  case spurious
  then show ?thesis using assms(2) by simp
qed

lemma stuck_forever: "reachable (awake_only stp) s s' \<Longrightarrow> stuck s \<Longrightarrow> stuck s'"
  by (induction rule: reachable.induct) (auto simp: awake_only_def intro: stuck_step)

lemma resting_step:
  assumes "no_call stp a s s'" "placed s" "resting s"
  shows "resting s'"
proof -
  have "stp a s s'" "a \<noteq> Spurious" "\<not> (a = Controller \<and> (\<exists>b. ctl s = Returned b))"
    using assms(1) by (auto simp: no_call_def)
  then show ?thesis
  proof (cases rule: step.cases)
    case service
    from service(2) show ?thesis
      using assms(3) by (cases rule: service_step.cases) (auto simp: resting_def)
  next
    case controller
    from controller(2) show ?thesis
      using assms(3) \<open>\<not> (a = Controller \<and> _)\<close> controller(1)
      by (cases rule: control_step.cases) (auto simp: resting_def)
  next
    case other
    then show ?thesis using assms(3) by (simp add: resting_def)
  qed simp
qed

lemma resting_forever: "reachable (no_call stp) s s' \<Longrightarrow> placed s \<Longrightarrow> resting s \<Longrightarrow> resting s' \<and> placed s'"
proof (induction rule: reachable.induct)
  case (more s1 a s2)
  then show ?case
    using resting_step [of a s1 s2] placed_step [of a s1 s2] by (auto simp: no_call_def)
qed simp

end

subsection \<open>Classes whose shutdown cannot fail\<close>

fun stop_rank :: "point \<Rightarrow> nat" where
  "stop_rank AtWait = 5"
| "stop_rank AtLoop = 4"
| "stop_rank AtCheck = 3"
| "stop_rank AtDestroy = 2"
| "stop_rank AtQuit = 1"
| "stop_rank _ = 0"

locale reliable_class = helper_class +
  fixes ended :: "'a helper_scheme \<Rightarrow> bool"
  assumes body_total: "serving d \<Longrightarrow> \<exists>d'. body d = Done d'"
    and body_flags: "body d = Done d' \<Longrightarrow> isOngoing d' = isOngoing d \<and> inResetting d' = inResetting d"
    and destroy_total: "t \<in> tables \<Longrightarrow> serving d \<Longrightarrow> \<exists>d'. processEvent id t Destroy (established, d) = Done (active, d')
        \<and> isOngoing d' = isOngoing d \<and> inResetting d' = inResetting d"
    and quit_total: "t \<in> tables \<Longrightarrow> closed d \<Longrightarrow> \<exists>d'. processEvent id t Quit (active, d) = Done (inactive, d')
        \<and> \<not> isOngoing d' \<and> \<not> inResetting d' \<and> ended d'"
begin

definition stopping :: "'a helper_scheme system \<Rightarrow> bool" where
  "stopping s \<longleftrightarrow> placed s \<and> \<not> isOngoing (self s) \<and> \<not> inResetting (self s)
     \<and> pc s \<in> {AtWait, AtLoop, AtCheck, AtDestroy, AtQuit, Finished}
     \<and> (pc s = Finished \<longrightarrow> fsmState s = inactive \<and> ended (self s))"

lemma stopping_event:
  assumes "stopping s" "script (pc s) = Some (e, expected, p)" "t \<in> tables"
  obtains d' where "processEvent id t e (fsmState s, self s) = Done (expected, d')"
    "\<not> isOngoing d'" "\<not> inResetting d'" "p = Finished \<longrightarrow> ended d'"
    "stop_rank (pc s) = Suc (stop_rank p)" "p \<in> {AtQuit, Finished}"
proof -
  have "pc s = AtDestroy \<or> pc s = AtQuit"
    using assms(1,2) by (cases "pc s") (auto simp: stopping_def)
  then show thesis
  proof
    assume pc: "pc s = AtDestroy"
    then have "serving (self s)" "fsmState s = established" "\<not> isOngoing (self s)" "\<not> inResetting (self s)"
      using assms(1) by (auto simp: stopping_def placed_def)
    then obtain d' where "processEvent id t Destroy (fsmState s, self s) = Done (active, d')"
      "\<not> isOngoing d'" "\<not> inResetting d'"
      using destroy_total [OF assms(3), of "self s"] by auto
    then show thesis
      using that [of d'] assms(2) pc by simp
  next
    assume pc: "pc s = AtQuit"
    then have "closed (self s)" "fsmState s = active"
      using assms(1) by (auto simp: stopping_def placed_def)
    then obtain d' where "processEvent id t Quit (fsmState s, self s) = Done (inactive, d')"
      "\<not> isOngoing d'" "\<not> inResetting d'" "ended d'"
      using quit_total [OF assms(3), of "self s"] by auto
    then show thesis
      using that [of d'] assms(2) pc by simp
  qed
qed

lemma stopping_step:
  assumes "stopping s" "service_step tables ready body s s'"
  shows "stopping s' \<and> stop_rank (pc s) = Suc (stop_rank (pc s'))"
proof -
  have placed: "placed s'"
    using placed_service [OF assms(2)] assms(1) by (simp add: stopping_def)
  from assms(2) show ?thesis
  proof (cases rule: service_step.cases)
    case (event_done e expected p t st' d')
    from stopping_event [OF assms(1) event_done(2,3)] obtain d
      where d: "processEvent id t e (fsmState s, self s) = Done (expected, d)"
        "\<not> isOngoing d" "\<not> inResetting d" "p = Finished \<longrightarrow> ended d"
        "stop_rank (pc s) = Suc (stop_rank p)" "p \<in> {AtQuit, Finished}"
      by blast
    then have s': "s' = s\<lparr>fsmState := expected, self := d, pc := p\<rparr>"
      using event_done by simp
    have "p = Finished \<longrightarrow> expected = inactive"
      using event_done(2) by (cases "pc s") auto
    then show ?thesis
      using placed d unfolding s' stopping_def by auto
  next
    case (event_threw e expected p t st' d')
    from stopping_event [OF assms(1) event_threw(2,3)] show ?thesis
      using event_threw(4) by (metis fsm_outcome.distinct(1))
  next
    case (loop_done d')
    then show ?thesis
      using assms(1) placed body_flags [of "self s" d'] by (auto simp: stopping_def)
  next
    case (loop_threw d')
    then show ?thesis
      using assms(1) body_total [of "self s"] by (auto simp: stopping_def placed_def)
  qed (use assms(1) placed in \<open>auto simp: stopping_def\<close>)
qed

lemma stopping_moves:
  assumes "stopping s" "pc s \<noteq> Finished"
  shows "\<exists>s'. service_step tables ready body s s'"
proof (cases "pc s = AtWait")
  case True
  then obtain d' where "body (self s) = Done d'"
    using assms(1) body_total [of "self s"] by (auto simp: stopping_def placed_def)
  then show ?thesis
    using service_step.loop_done [of s ready body d' tables] True assms(1) by (auto simp: stopping_def)
next
  case False
  then show ?thesis
    using assms service_enabled [of s] by (auto simp: stopping_def)
qed

lemma stopping_runs:
  "stopping s \<Longrightarrow> (\<exists>s'. (service_step tables ready body ^^ stop_rank (pc s)) s s')
    \<and> (\<forall>s'. (service_step tables ready body ^^ stop_rank (pc s)) s s' \<longrightarrow> stopping s' \<and> pc s' = Finished)"
proof (induction "stop_rank (pc s)" arbitrary: s)
  case 0
  then have "pc s = Finished"
    by (auto simp: stopping_def)
  with 0 show ?case
    by auto
next
  case (Suc n)
  have "pc s \<noteq> Finished"
    using Suc.hyps(2) by auto
  then obtain s1 where s1: "service_step tables ready body s s1"
    using stopping_moves Suc.prems by blast
  have rest: "stopping s2 \<and> stop_rank (pc s2) = n" if "service_step tables ready body s s2" for s2
    using stopping_step [OF Suc.prems that] Suc.hyps(2) by simp
  have "\<exists>s'. (service_step tables ready body ^^ n) s1 s'"
    using Suc.hyps(1) [of s1] rest [OF s1] by simp
  then have "\<exists>s'. (service_step tables ready body ^^ Suc n) s s'"
    using s1 relpowp_Suc_I2 [of "service_step tables ready body" s s1 n] by blast
  moreover have "stopping s' \<and> pc s' = Finished" if run: "(service_step tables ready body ^^ Suc n) s s'" for s'
  proof -
    obtain s2 where s2: "service_step tables ready body s s2" "(service_step tables ready body ^^ n) s2 s'"
      using relpowp_Suc_D2 [OF run] by blast
    then show ?thesis
      using Suc.hyps(1) [of s2] rest [OF s2(1)] by simp
  qed
  ultimately show ?case
    unfolding Suc.hyps(2) [symmetric] by blast
qed

lemma reachable_stopping:
  assumes "reachable stp (system_init d) s" "pc s \<in> {AtWait, AtLoop, AtCheck, AtDestroy, AtQuit}"
    and "\<not> isOngoing (self s)" "\<not> inResetting (self s)"
  shows "stopping s"
  using reachable_placed [OF assms(1)] assms(2-4) by (auto simp: stopping_def)

text \<open>Switched off and not reset, the service left alone ends.\<close>

lemma service_ends:
  assumes "reachable stp (system_init d) s" "pc s \<in> {AtWait, AtLoop, AtCheck, AtDestroy, AtQuit}"
    and "\<not> isOngoing (self s)" "\<not> inResetting (self s)"
  shows "(\<exists>s'. (service_step tables ready body ^^ stop_rank (pc s)) s s')
    \<and> (\<forall>s'. (service_step tables ready body ^^ stop_rank (pc s)) s s'
         \<longrightarrow> pc s' = Finished \<and> fsmState s' = inactive \<and> ended (self s'))"
  using stopping_runs [OF reachable_stopping [OF assms]] by (auto simp: stopping_def)

end

subsection \<open>Building runs\<close>

abbreviation sys_at :: "State \<Rightarrow> 'd \<Rightarrow> point \<Rightarrow> control \<Rightarrow> 'd system" where
  "sys_at st d p c \<equiv> \<lparr>fsmState = st, self = d, pc = p, ctl = c\<rparr>"

lemma run_event:
  assumes "script p = Some (e, st', q)" "t \<in> tables" "processEvent id t e (st, d) = Done (st', d')"
  shows "step tables ready body others Service (sys_at st d p c) (sys_at st' d' q c)"
  using service_step.event_done [of "sys_at st d p c" e st' q t tables st' d'] assms by (auto intro: step.service)

lemma run_threw:
  assumes "script p = Some (e, ex, q)" "t \<in> tables" "processEvent id t e (st, d) = Threw (st', d')"
  shows "step tables ready body others Service (sys_at st d p c) (sys_at st' d' AtCatch c)"
  using service_step.event_threw [of "sys_at st d p c" e ex q t tables st' d'] assms by (auto intro: step.service)

lemma run_catch:
  assumes "t \<in> tables" "processEvent id t Standby (st, d) = Done (idle, d')"
  shows "step tables ready body others Service (sys_at st d AtCatch c) (sys_at idle d' AtSleep c)"
  using service_step.catch_done [of "sys_at st d AtCatch c" t tables idle d'] assms by (auto intro: step.service)

lemma run_other:
  assumes "others st d d'"
  shows "step tables ready body others Others (sys_at st d p c) (sys_at st d' p c)"
  using step.other [of others "sys_at st d p c" d'] assms by simp

lemma reach_control:
  assumes "reachable (step tables ready body others) s0 s" "control_step s s'"
  shows "reachable (step tables ready body others) s0 s'"
  using reachable.more [OF assms(1) step.controller [OF assms(2)]] .

lemma startup_requested:
  assumes "reachable (step tables ready body others) s0 (sys_at st d p (Returned b))"
  shows "reachable (step tables ready body others) s0 (sys_at st d p (WaitFor StartActive TestIdle))"
  using reach_control [OF assms control_step.call_startup] by simp

lemma reload_over:
  assumes "reachable (step tables ready body others) s0 (sys_at st d p (Returned b))" "p \<noteq> Asleep"
  shows "reachable (step tables ready body others) s0 (sys_at st (d\<lparr>inResetting := True\<rparr>) p (Returned False))"
proof -
  let ?R = "\<lambda>d c. reachable (step tables ready body others) s0 (sys_at st d p c)"
  have "?R d StoreReload"
    using reach_control [OF assms(1) control_step.call_reload] by simp
  from reach_control [OF this control_step.store_reload] have "?R (d\<lparr>inResetting := True\<rparr>) NotifyReload"
    by simp
  from reach_control [OF this control_step.notify_reload] have "?R (d\<lparr>inResetting := True\<rparr>) Countdown"
    using assms(2) by (simp add: wake_service_def)
  from reach_control [OF this control_step.countdown_over] show ?thesis
    by simp
qed

lemma shutdown_notified:
  assumes "reachable (step tables ready body others) s0 (sys_at st d p (Returned b))" "p \<noteq> Asleep"
  shows "reachable (step tables ready body others) s0
    (sys_at st (d\<lparr>isOngoing := False\<rparr>) p (WaitFor StopInactive TestIdle))"
proof -
  let ?R = "\<lambda>d c. reachable (step tables ready body others) s0 (sys_at st d p c)"
  have "?R d StoreStop"
    using reach_control [OF assms(1) control_step.call_shutdown] by simp
  from reach_control [OF this control_step.store_stop] have "?R (d\<lparr>isOngoing := False\<rparr>) NotifyStop"
    by simp
  from reach_control [OF this control_step.notify_stop] show ?thesis
    using assms(2) by (simp add: wake_service_def)
qed

end
