(* ===== verification/AP_Log.thy ===== *)
theory AP_Log
  imports AP_Helper "HOL-Library.Sublist"
begin

text \<open>
  The logger of src/application/core/include/log.hpp and src/application/core/source/log.cpp: its
  messages, the file writer it owns (src/utility/source/io.cpp), the actions and guards of its transition
  table, its notification loop, and what a thread that logs does to it.

  The log file is the list of its lines; \<open>backups\<close> holds the numbered copies beside it. What the
  system calls of one event answer is a record \<open>sysEnv\<close>, and the table of the class is taken for every such
  record. The terminal holds the lines before they are coloured.
\<close>

subsection \<open>Messages\<close>

datatype OutputLevel = debug | info | warning | error

datatype OutputMode = append_mode | overwrite_mode

datatype OutputType = to_file | to_terminal | to_all

primrec level_rank :: "OutputLevel \<Rightarrow> nat" where
  "level_rank debug = 0"
| "level_rank info = 1"
| "level_rank warning = 2"
| "level_rank error = 3"

primrec getPrefix :: "OutputLevel \<Rightarrow> string" where
  "getPrefix debug = ''[DBG]''"
| "getPrefix info = ''[INF]''"
| "getPrefix warning = ''[WRN]''"
| "getPrefix error = ''[ERR]''"

definition traceLevelPrefix :: string where
  "traceLevelPrefix = ''[TRC]''"

abbreviation nl_char :: char where "nl_char \<equiv> CHR 0x0A"
abbreviation cr_char :: char where "cr_char \<equiv> CHR 0x0D"

text \<open>The loop of \<open>reformatContents\<close> on what is left of the text behind \<open>prev\<close>.\<close>

function split_rows :: "string \<Rightarrow> string list" where
  "split_rows left =
     (case dropWhile (\<lambda>c. c \<noteq> nl_char) left of
        [] \<Rightarrow> if left = [] then [] else [left]
      | _ # behind \<Rightarrow> (takeWhile (\<lambda>c. c \<noteq> nl_char) left @ [nl_char]) # split_rows behind)"
  by pat_completeness auto
termination
proof (relation "measure length")
  show "(behind, left) \<in> measure length"
    if "dropWhile (\<lambda>c. c \<noteq> nl_char) left = c # behind" for left c behind
    using that length_dropWhile_le [of "\<lambda>c. c \<noteq> nl_char" left] by simp
qed simp

declare split_rows.simps [simp del]

definition erase_breaks :: "string \<Rightarrow> string" where
  "erase_breaks ln = filter (\<lambda>c. \<not> (c = nl_char \<or> c = cr_char)) ln"

definition reformatContents :: "string \<Rightarrow> string \<Rightarrow> string list" where
  "reformatContents label formatted =
     (let rows = (if nl_char \<notin> set formatted then [formatted] else split_rows formatted) in
      map (\<lambda>row. takeWhile (\<lambda>c. c \<noteq> CHR 0x00) label @ row) (filter (\<lambda>row. row \<noteq> []) (map erase_breaks rows)))"

text \<open>The label template of \<open>createLabelTemplate\<close> is what stands before and behind its placeholder. The
  path of the source file is cut behind the last occurrence of the name of the source directory.\<close>

fun after_last :: "string \<Rightarrow> string \<Rightarrow> string option" where
  "after_last key [] = (if key = [] then Some [] else None)"
| "after_last key (c # cs) =
     (case after_last key cs of Some r \<Rightarrow> Some r
      | None \<Rightarrow> if take (length key) (c # cs) = key then Some (drop (length key) (c # cs)) else None)"

definition sourceDirectory :: string where
  "sourceDirectory = ''/foo/''"

definition createLabelTemplate :: "string \<Rightarrow> string \<Rightarrow> string \<Rightarrow> string \<times> string" where
  "createLabelTemplate time srcFile srcLine =
     (''['' @ time @ ''] '',
      '' ['' @ (case after_last sourceDirectory srcFile of Some r \<Rightarrow> r | None \<Rightarrow> srcFile) @ ''#'' @ srcLine @ ''] '')"

record message =
  severity :: OutputLevel
  labelTpl :: "string \<times> string"
  formatted :: string

definition message_rows :: "string \<Rightarrow> message \<Rightarrow> string list" where
  "message_rows lvl m = reformatContents (fst (labelTpl m) @ lvl @ snd (labelTpl m)) (formatted m)"

subsection \<open>The object\<close>

record config =
  priorityLevel :: OutputLevel
  targetType :: OutputType
  writeMode :: OutputMode

record sysEnv =
  folderOk :: bool
  renameOk :: bool
  openOk :: bool
  lockOk :: bool

text \<open>\<open>seen\<close> and \<open>cleared\<close> hold the messages of threads that are inside \<open>flush\<close>: they have read the state
  as established, and have also read that no reset is requested. \<open>enqueuing\<close> is the content of the spin lock
  \<open>cacheSwitch\<close>: the rows of the thread that holds it.\<close>

record Log = helper +
  logQueue :: "string list"
  pendingCache :: "string list"
  enqueuing :: "string list option"
  opened :: bool
  lockActive :: bool
  lines :: "string list"
  backups :: "(nat \<times> string list) list"
  terminal :: "string list"
  errorOutput :: "string list"
  seen :: "message list"
  cleared :: "message list"

definition log_init :: "string list \<Rightarrow> (nat \<times> string list) list \<Rightarrow> Log" where
  "log_init old olds =
     \<lparr>isOngoing = False, inResetting = False, logQueue = [], pendingCache = [], enqueuing = None,
      opened = False, lockActive = False, lines = old, backups = olds, terminal = [], errorOutput = [],
      seen = [], cleared = []\<rparr>"

subsection \<open>The file writer\<close>

definition writer_open :: "bool \<Rightarrow> bool \<Rightarrow> Log \<Rightarrow> Log fsm_outcome" where
  "writer_open ok overwrite l =
     (if opened l then Done l
      else if \<not> ok then Threw l
      else Done (l\<lparr>opened := True, lines := if overwrite then [] else lines l\<rparr>))"

definition writer_lock :: "bool \<Rightarrow> Log \<Rightarrow> Log fsm_outcome" where
  "writer_lock ok l =
     (if lockActive l then Done l else if \<not> ok then Threw l else Done (l\<lparr>lockActive := True\<rparr>))"

definition writer_unlock :: "Log \<Rightarrow> Log" where
  "writer_unlock l = (if \<not> lockActive l then l else l\<lparr>lockActive := False\<rparr>)"

definition writer_close :: "Log \<Rightarrow> Log" where
  "writer_close l = (if \<not> opened l then l else l\<lparr>opened := False\<rparr>)"

subsection \<open>Actions and guards\<close>

definition file_size :: "string list \<Rightarrow> nat" where
  "file_size ls = sum_list (map (\<lambda>l. length l + 1) ls)"

definition maxFileSize :: nat where
  "maxFileSize = 512 * 1024"

definition backUpLogFileIfNeeded :: "bool \<Rightarrow> Log \<Rightarrow> Log fsm_outcome" where
  "backUpLogFileIfNeeded ok l =
     (if file_size (lines l) < maxFileSize then Done l
      else let index = fold max (map fst (backups l)) 0 in
        if \<not> ok then Threw l
        else Done (l\<lparr>backups := (index + 1, lines l) # backups l, lines := []\<rparr>))"

definition openLogFile :: "config \<Rightarrow> sysEnv \<Rightarrow> Log \<Rightarrow> Log fsm_outcome" where
  "openLogFile cfg env l =
     (if \<not> folderOk env then Threw l
      else case backUpLogFileIfNeeded (renameOk env) l of Threw l' \<Rightarrow> Threw l'
      | Done l' \<Rightarrow> writer_open (openOk env) (writeMode cfg = overwrite_mode) l')"

definition closeLogFile :: "Log \<Rightarrow> Log" where
  "closeLogFile l = writer_close (writer_unlock l)"

definition dequeueOutputs :: "Log \<Rightarrow> Log" where
  "dequeueOutputs l =
     (if enqueuing l \<noteq> None then l else l\<lparr>terminal := terminal l @ pendingCache l, pendingCache := []\<rparr>)"

definition startLogging :: "sysEnv \<Rightarrow> Log \<Rightarrow> Log fsm_outcome" where
  "startLogging env l =
     (case writer_lock (lockOk env) l of Threw l' \<Rightarrow> Threw l' | Done l' \<Rightarrow> Done (dequeueOutputs l'))"

definition stopLogging :: "Log \<Rightarrow> Log" where
  "stopLogging l = l\<lparr>isOngoing := False, inResetting := False, logQueue := []\<rparr>"

definition doToggle :: "Log \<Rightarrow> Log" where
  "doToggle l = l"

definition doRollback :: "Log \<Rightarrow> Log" where
  "doRollback l =
     (let l = l\<lparr>isOngoing := False, logQueue := []\<rparr>;
          l = (if opened l then
                 let needClear = lockActive l; l = closeLogFile l in
                 if needClear then l\<lparr>lines := []\<rparr> else l
               else l)
      in l\<lparr>inResetting := False\<rparr>)"

definition isLogFileOpened :: "Log \<Rightarrow> bool" where
  "isLogFileOpened l \<longleftrightarrow> opened l"

definition isLogFileClosed :: "Log \<Rightarrow> bool" where
  "isLogFileClosed l \<longleftrightarrow> \<not> opened l"

definition log_table :: "config \<Rightarrow> sysEnv \<Rightarrow> (State, Event, Log, Event) Row list" where
  "log_table cfg env =
     [row initial Create active (openLogFile cfg env),
      guarded_row active Go established (startLogging env) isLogFileOpened,
      row established Destroy active (\<lambda>l. Done (closeLogFile l)),
      guarded_row active Quit inactive (\<lambda>l. Done (stopLogging l)) isLogFileClosed,
      row initial Standby idle (\<lambda>l. Done (doToggle l)),
      row active Standby idle (\<lambda>l. Done (doToggle l)),
      row established Standby idle (\<lambda>l. Done (doToggle l)),
      row established Relaunch initial (\<lambda>l. Done (doRollback l)),
      row inactive Relaunch initial (\<lambda>l. Done (doRollback l)),
      row idle Relaunch initial (\<lambda>l. Done (doRollback l))]"

definition log_tables :: "config \<Rightarrow> (State, Event, Log, Event) Row list set" where
  "log_tables cfg = range (log_table cfg)"

subsection \<open>The notification loop\<close>

definition write_line :: "OutputType \<Rightarrow> string \<Rightarrow> Log \<Rightarrow> Log" where
  "write_line ty x l =
     (case ty of
        to_file \<Rightarrow> l\<lparr>lines := lines l @ [x]\<rparr>
      | to_terminal \<Rightarrow> l\<lparr>terminal := terminal l @ [x]\<rparr>
      | to_all \<Rightarrow> l\<lparr>lines := lines l @ [x], terminal := terminal l @ [x]\<rparr>)"

primrec drain_queue :: "OutputType \<Rightarrow> string list \<Rightarrow> Log \<Rightarrow> Log" where
  "drain_queue ty [] l = l\<lparr>logQueue := []\<rparr>"
| "drain_queue ty (x # xs) l = drain_queue ty xs ((write_line ty x l)\<lparr>logQueue := xs\<rparr>)"

definition log_ready :: "Log \<Rightarrow> bool" where
  "log_ready l \<longleftrightarrow> logQueue l \<noteq> []"

definition log_body :: "config \<Rightarrow> Log \<Rightarrow> Log fsm_outcome" where
  "log_body cfg l = Done (drain_queue (targetType cfg) (logQueue l) l)"

subsection \<open>Threads that log\<close>

definition enqueue_lock :: "string list \<Rightarrow> Log \<Rightarrow> Log" where
  "enqueue_lock outputs l = (if enqueuing l \<noteq> None then l else l\<lparr>enqueuing := Some outputs\<rparr>)"

inductive log_others :: "config \<Rightarrow> State \<Rightarrow> Log \<Rightarrow> Log \<Rightarrow> bool" for cfg where
  flush_saw: "level_rank (priorityLevel cfg) \<le> level_rank (severity m) \<Longrightarrow> st = established
    \<Longrightarrow> log_others cfg st l (l\<lparr>seen := seen l @ [m]\<rparr>)"
| flush_other: "level_rank (priorityLevel cfg) \<le> level_rank (severity m) \<Longrightarrow> st \<noteq> established
    \<Longrightarrow> log_others cfg st l (enqueue_lock (message_rows traceLevelPrefix m) l)"
| flush_clear: "m \<in> set (seen l) \<Longrightarrow> \<not> inResetting l
    \<Longrightarrow> log_others cfg st l (l\<lparr>seen := remove1 m (seen l), cleared := cleared l @ [m]\<rparr>)"
| flush_reset: "m \<in> set (seen l) \<Longrightarrow> inResetting l
    \<Longrightarrow> log_others cfg st l (enqueue_lock (message_rows traceLevelPrefix m) (l\<lparr>seen := remove1 m (seen l)\<rparr>))"
| flush_push: "m \<in> set (cleared l)
    \<Longrightarrow> log_others cfg st l (l\<lparr>cleared := remove1 m (cleared l),
          logQueue := logQueue l @ message_rows (getPrefix (severity m)) m\<rparr>)"
| enqueue_end: "enqueuing l = Some outputs
    \<Longrightarrow> log_others cfg st l (l\<lparr>pendingCache := rev outputs @ pendingCache l,
          errorOutput := errorOutput l @ outputs, enqueuing := None\<rparr>)"

definition log_step :: "config \<Rightarrow> actor \<Rightarrow> Log system \<Rightarrow> Log system \<Rightarrow> bool" where
  "log_step cfg = step (log_tables cfg) log_ready (log_body cfg) (log_others cfg)"

subsection \<open>The table at work\<close>

lemma log_create:
  "processEvent id (log_table cfg env) Create (initial, l) =
     (case openLogFile cfg env l of Done l' \<Rightarrow> Done (active, l') | Threw l' \<Rightarrow> Threw (initial, l'))"
  by (simp add: log_table_def table_defs split: fsm_outcome.split)

lemma log_go:
  "processEvent id (log_table cfg env) Go (active, l) =
     (if opened l then case startLogging env l of Done l' \<Rightarrow> Done (established, l') | Threw l' \<Rightarrow> Threw (active, l')
      else Done (active, l))"
  by (simp add: log_table_def table_defs isLogFileOpened_def split: fsm_outcome.split)

lemma log_destroy: "processEvent id (log_table cfg env) Destroy (established, l) = Done (active, closeLogFile l)"
  by (simp add: log_table_def table_defs)

lemma log_quit:
  "processEvent id (log_table cfg env) Quit (active, l) = (if opened l then Done (active, l) else Done (inactive, stopLogging l))"
  by (simp add: log_table_def table_defs isLogFileClosed_def)

lemma log_standby:
  "st \<noteq> inactive \<Longrightarrow> processEvent id (log_table cfg env) Standby (st, l) = Done (idle, l)"
  by (cases st) (simp_all add: log_table_def table_defs doToggle_def)

lemma log_relaunch:
  "processEvent id (log_table cfg env) Relaunch (st, l) =
     (if st \<in> {established, inactive, idle} then Done (initial, doRollback l) else Done (st, l))"
  by (cases st) (simp_all add: log_table_def table_defs)

lemmas log_events = log_create log_go log_destroy log_quit log_standby log_relaunch

lemmas writer_defs = writer_open_def writer_lock_def writer_unlock_def writer_close_def

lemma openLogFile_opened: "openLogFile cfg env l = Done l' \<Longrightarrow> opened l'"
  by (auto simp: openLogFile_def backUpLogFileIfNeeded_def writer_open_def Let_def split: if_splits fsm_outcome.splits)

lemma startLogging_locked: "startLogging env l = Done l' \<Longrightarrow> lockActive l' \<and> opened l' = opened l"
  by (auto simp: startLogging_def writer_lock_def dequeueOutputs_def split: if_splits fsm_outcome.splits)

lemma closeLogFile_fields [simp]:
  "opened (closeLogFile l) = False" "lockActive (closeLogFile l) = False" "logQueue (closeLogFile l) = logQueue l"
  "isOngoing (closeLogFile l) = isOngoing l" "inResetting (closeLogFile l) = inResetting l"
  by (simp_all add: closeLogFile_def writer_close_def writer_unlock_def)

lemma write_line_fields [simp]:
  "opened (write_line ty x l) = opened l" "lockActive (write_line ty x l) = lockActive l"
  "isOngoing (write_line ty x l) = isOngoing l" "inResetting (write_line ty x l) = inResetting l"
  by (cases ty; simp add: write_line_def)+

lemma drain_queue_fields [simp]:
  "opened (drain_queue ty xs l) = opened l" "lockActive (drain_queue ty xs l) = lockActive l"
  "isOngoing (drain_queue ty xs l) = isOngoing l" "inResetting (drain_queue ty xs l) = inResetting l" "logQueue (drain_queue ty xs l) = []"
  by (induction xs arbitrary: l) simp_all

lemma drain_queue_output:
  "lines (drain_queue ty xs l) = (if ty = to_terminal then lines l else lines l @ xs)"
  "terminal (drain_queue ty xs l) = (if ty = to_file then terminal l else terminal l @ xs)"
  by (induction xs arbitrary: l) (cases ty; simp add: write_line_def)+

lemma log_others_fields:
  assumes "log_others cfg st l l'"
  shows "opened l' = opened l" "lockActive l' = lockActive l" "isOngoing l' = isOngoing l" "inResetting l' = inResetting l"
  using assms by (cases rule: log_others.cases; simp add: enqueue_lock_def)+

definition log_serving :: "Log \<Rightarrow> bool" where
  "log_serving l \<longleftrightarrow> opened l \<and> lockActive l"

definition log_closed :: "Log \<Rightarrow> bool" where
  "log_closed l \<longleftrightarrow> \<not> opened l \<and> \<not> lockActive l"

interpretation logger: helper_class "log_tables cfg" log_ready "log_body cfg" "log_others cfg"
    opened log_serving log_closed for cfg
proof unfold_locales
  show "st' = active \<and> opened d'" if "t \<in> log_tables cfg" "processEvent id t Create (initial, d) = Done (st', d')" for t d st' d'
    using that by (auto simp: log_tables_def log_create dest: openLogFile_opened split: fsm_outcome.splits)
  show "st' = established \<and> log_serving d'"
    if "t \<in> log_tables cfg" "opened d" "processEvent id t Go (active, d) = Done (st', d')" for t d st' d'
    using that by (auto simp: log_tables_def log_go log_serving_def dest: startLogging_locked split: fsm_outcome.splits)
qed (auto simp: log_tables_def log_events log_serving_def log_closed_def log_body_def log_others_fields split: if_splits)

text \<open>Every row of the table keeps a locked file open.\<close>

definition locked_open :: "Log \<Rightarrow> bool" where
  "locked_open l \<longleftrightarrow> (lockActive l \<longrightarrow> opened l)"

lemma openLogFile_lock: "openLogFile cfg env l \<in> {Done l', Threw l'} \<Longrightarrow> lockActive l' = lockActive l \<and> (opened l \<longrightarrow> opened l')"
  by (auto simp: openLogFile_def backUpLogFileIfNeeded_def writer_open_def Let_def split: if_splits fsm_outcome.splits)

lemma startLogging_threw: "startLogging env l = Threw l' \<Longrightarrow> l' = l"
  by (auto simp: startLogging_def writer_lock_def split: if_splits)

lemma doRollback_lock: "locked_open l \<Longrightarrow> locked_open (doRollback l)"
  by (simp add: locked_open_def doRollback_def Let_def)

interpretation log_rows: table_invariant id "log_table cfg env" "\<lambda>_. locked_open" for cfg env
proof unfold_locales
  fix r d e d'
  assume r: "r \<in> set (log_table cfg env)" "locked_open d" "checkGuard r d e"
  have "locked_open l'" if "openLogFile cfg env d \<in> {Done l', Threw l'}" for l'
    using openLogFile_lock [OF that] r(2) by (auto simp: locked_open_def)
  moreover have "locked_open l'" if "startLogging env d = Done l'" "opened d" for l'
    using startLogging_locked [OF that(1)] that(2) by (auto simp: locked_open_def)
  moreover have "locked_open l'" if "startLogging env d = Threw l'" for l'
    using startLogging_threw [OF that] r(2) by simp
  moreover have "locked_open (closeLogFile d)" "locked_open (stopLogging d)" "locked_open (doRollback d)"
    using r(2) doRollback_lock by (simp_all add: locked_open_def stopLogging_def)
  ultimately show "row_process r d e = Done d' \<Longrightarrow> locked_open d'" "row_process r d e = Threw d' \<Longrightarrow> locked_open d'"
    using r by (auto simp: log_table_def table_defs isLogFileOpened_def doToggle_def)
qed

lemma locked_open_event:
  assumes "t \<in> log_tables cfg" "locked_open d" "processEvent id t e (st, d) \<in> {Done (st', d'), Threw (st', d')}"
  shows "locked_open d'"
  using assms log_rows.event_done [of d cfg _ e st st' d'] log_rows.event_threw(2) [of d cfg _ e st st' d']
  by (auto simp: log_tables_def)

lemma locked_open_body: "locked_open d \<Longrightarrow> log_body cfg d = Done d' \<Longrightarrow> locked_open d'"
  by (auto simp: log_body_def locked_open_def)

lemma locked_open_step:
  assumes "log_step cfg a s s'" "locked_open (self s)"
  shows "locked_open (self s')"
  using assms(1) unfolding log_step_def
proof (cases rule: step.cases)
  case service
  from service(2) show ?thesis
    by (cases rule: service_step.cases)
       (use assms(2) in \<open>auto simp: log_body_def intro: locked_open_event [of _ cfg] locked_open_body\<close>)
next
  case controller
  from controller(2) show ?thesis
    by (cases rule: control_step.cases) (use assms(2) in \<open>simp_all add: locked_open_def wake_service_def\<close>)
next
  case (other d')
  then show ?thesis
    using assms(2) log_others_fields [of cfg "fsmState s" "self s" d'] by (simp add: locked_open_def)
next
  case spurious
  then show ?thesis
    using assms(2) by (simp add: wake_service_def)
qed

lemma reachable_locked_open: "reachable (log_step cfg) (system_init (log_init old olds)) s \<Longrightarrow> locked_open (self s)"
proof (induction rule: reachable.induct)
  case start
  show ?case
    by (simp add: system_init_def log_init_def locked_open_def)
next
  case (more s a s')
  then show ?case
    by (blast intro: locked_open_step)
qed

text \<open>C5: whatever the system calls answer and however the threads interleave, no assertion of the
  service fails, no exception leaves it, a locked file is open, and the notification loop runs only on an
  open and locked file.\<close>

theorem log_service_safe:
  assumes "reachable (log_step cfg) (system_init (log_init old olds)) s"
  shows "pc s \<notin> {Aborted, Escaped} \<and> (lockActive (self s) \<longrightarrow> opened (self s))
    \<and> (pc s \<in> {AtLoop, AtWait, AtCheck, AtDestroy} \<longrightarrow> fsmState s = established \<and> opened (self s) \<and> lockActive (self s))"
  using logger.reachable_placed [of cfg "log_init old olds" s] reachable_locked_open [OF assms] assms
  by (auto simp: log_step_def logger.placed_def log_serving_def locked_open_def)

subsection \<open>Order of the lines\<close>

text \<open>What a step puts into the queue, and what it takes out of it to write it.\<close>

definition pushed_by :: "Log system \<Rightarrow> Log system \<Rightarrow> string list" where
  "pushed_by s s' = drop (length (logQueue (self s))) (logQueue (self s'))"

definition drained_by :: "Log system \<Rightarrow> Log system \<Rightarrow> string list" where
  "drained_by s s' = (if pc s = AtWait \<and> pc s' = AtLoop then logQueue (self s) else [])"

inductive log_history :: "config \<Rightarrow> Log system \<Rightarrow> Log system \<Rightarrow> string list \<Rightarrow> string list \<Rightarrow> bool" for cfg s0 where
  none: "log_history cfg s0 s0 [] []"
| further: "log_history cfg s0 s pushed drained \<Longrightarrow> log_step cfg a s s'
    \<Longrightarrow> log_history cfg s0 s' (pushed @ pushed_by s s') (drained @ drained_by s s')"

lemma backUp_queue: "backUpLogFileIfNeeded ok l \<in> {Done l', Threw l'} \<Longrightarrow> logQueue l' = logQueue l \<and> lines l' \<in> {lines l, []}"
  by (auto simp: backUpLogFileIfNeeded_def Let_def split: if_splits)

lemma writer_open_queue: "writer_open ok ow l \<in> {Done l', Threw l'} \<Longrightarrow> logQueue l' = logQueue l \<and> lines l' \<in> {lines l, []}"
  by (auto simp: writer_open_def split: if_splits)

lemma openLogFile_queue:
  assumes "openLogFile cfg env l \<in> {Done l', Threw l'}"
  shows "logQueue l' = logQueue l \<and> lines l' \<in> {lines l, []}"
proof (cases "backUpLogFileIfNeeded (renameOk env) l")
  case (Done l1)
  then show ?thesis
    using assms backUp_queue [of "renameOk env" l l1] writer_open_queue [of "openOk env" "writeMode cfg = overwrite_mode" l1 l']
    by (auto simp: openLogFile_def split: if_splits)
next
  case (Threw l1)
  then show ?thesis
    using assms backUp_queue [of "renameOk env" l l1] by (auto simp: openLogFile_def split: if_splits)
qed

lemma startLogging_queue:
  "startLogging env l \<in> {Done l', Threw l'} \<Longrightarrow> logQueue l' = logQueue l \<and> lines l' = lines l"
  by (auto simp: startLogging_def writer_lock_def dequeueOutputs_def split: if_splits fsm_outcome.splits)

lemma action_queue:
  "logQueue (doRollback l) = []" "lines (doRollback l) \<in> {lines l, []}" "logQueue (stopLogging l) = []"
  "lines (stopLogging l) = lines l" "lines (closeLogFile l) = lines l"
  by (simp_all add: doRollback_def stopLogging_def closeLogFile_def writer_close_def writer_unlock_def Let_def)

text \<open>An event of the service leaves the queue alone or empties it, and the file likewise.\<close>

lemma event_queue:
  assumes "processEvent id t e (st, l) \<in> {Done (st', l'), Threw (st', l')}" "t \<in> log_tables cfg"
  shows "logQueue l' \<in> {logQueue l, []} \<and> lines l' \<in> {lines l, []}"
proof -
  obtain env where t: "t = log_table cfg env"
    using assms(2) by (auto simp: log_tables_def)
  have "l' = l \<or> openLogFile cfg env l \<in> {Done l', Threw l'} \<or> startLogging env l \<in> {Done l', Threw l'}
      \<or> l' = closeLogFile l \<or> l' = stopLogging l \<or> l' = doRollback l"
    using assms(1) unfolding t
    by (cases st; cases e) (auto simp: log_table_def table_defs doToggle_def split: if_splits fsm_outcome.splits)
  then show ?thesis
    using openLogFile_queue [of cfg env l l'] startLogging_queue [of env l l']
    using action_queue(2) [of l] by (auto simp: action_queue(1,3-5))
qed

lemma log_others_queue:
  assumes "log_others cfg st l l'"
  shows "prefix (logQueue l) (logQueue l') \<and> lines l' = lines l"
  using assms by (cases rule: log_others.cases) (simp_all add: enqueue_lock_def)

lemma event_queue_split:
  assumes "processEvent id t e (st, l) \<in> {Done (st', l'), Threw (st', l')}" "t \<in> log_tables cfg"
  shows "logQueue l' = logQueue l \<or> logQueue l' = []" "lines l' = lines l \<or> lines l' = []"
  using event_queue [OF assms] by auto

text \<open>Every step either extends the queue, empties it, or writes all of it.\<close>

lemma log_step_queue:
  assumes "log_step cfg a s s'"
  obtains (extends) "logQueue (self s') = logQueue (self s) @ pushed_by s s'" "drained_by s s' = []"
      "lines (self s') \<in> {lines (self s), []}"
  | (empties) "logQueue (self s') = []" "pushed_by s s' = []" "drained_by s s' = []"
      "lines (self s') \<in> {lines (self s), []}"
  | (drains) "logQueue (self s') = []" "pushed_by s s' = []" "drained_by s s' = logQueue (self s)"
      "lines (self s') = lines (drain_queue (targetType cfg) (logQueue (self s)) (self s))"
proof -
  have quiet: thesis if "logQueue (self s') \<in> {logQueue (self s), []}" "drained_by s s' = []"
    "lines (self s') \<in> {lines (self s), []}"
    using that extends empties by (auto simp: pushed_by_def)
  have "step (log_tables cfg) log_ready (log_body cfg) (log_others cfg) a s s'"
    using assms by (simp add: log_step_def)
  then show thesis
  proof (cases rule: step.cases)
    case service
    from service(2) show thesis
    proof (cases rule: service_step.cases)
      case (event_done e expected p t st' d')
      then show thesis
        using event_queue [of t e "fsmState s" "self s" st' d' cfg] by (intro quiet) (auto simp: drained_by_def)
    next
      case (event_threw e expected p t st' d')
      then show thesis
        using event_queue [of t e "fsmState s" "self s" st' d' cfg] by (intro quiet) (auto simp: drained_by_def)
    next
      case (catch_done t st' d')
      then show thesis
        using event_queue [of t Standby "fsmState s" "self s" st' d' cfg] by (intro quiet) (auto simp: drained_by_def)
    next
      case (catch_threw t st' d')
      then show thesis
        using event_queue [of t Standby "fsmState s" "self s" st' d' cfg] by (intro quiet) (auto simp: drained_by_def)
    next
      case (loop_done d')
      then show thesis
        by (intro drains) (auto simp: log_body_def pushed_by_def drained_by_def)
    next
      case (loop_threw d')
      then show thesis
        by (simp add: log_body_def)
    qed (rule quiet; simp add: drained_by_def)+
  next
    case controller
    from controller(2)
    have "logQueue (self s') = logQueue (self s) \<and> lines (self s') = lines (self s) \<and> (pc s = Asleep \<or> pc s' = pc s)"
      by (cases rule: control_step.cases) (simp_all add: wake_service_def)
    then show thesis
      by (intro quiet) (auto simp: drained_by_def)
  next
    case (other d')
    then show thesis
      using log_others_queue [of cfg "fsmState s" "self s" d']
      by (intro extends) (auto simp: pushed_by_def drained_by_def prefix_def)
  next
    case spurious
    then show thesis
      by (intro quiet) (auto simp: drained_by_def wake_service_def)
  qed
qed

text \<open>A file with an unbroken last part of the written lines behind its old contents, or without these.\<close>

definition holds_recent :: "string list \<Rightarrow> string list \<Rightarrow> string list \<Rightarrow> bool" where
  "holds_recent old drained ls \<longleftrightarrow>
     (\<exists>front recent before. drained = front @ recent \<and> before \<in> {old, []} \<and> ls = before @ recent)"

lemma holds_recent_append: "holds_recent old drained ls \<Longrightarrow> holds_recent old (drained @ q) (ls @ q)"
  unfolding holds_recent_def by (metis append.assoc)

lemma holds_recent_clear: "holds_recent old drained []"
  unfolding holds_recent_def by auto


subsection \<open>Stopping\<close>

abbreviation log_service :: "config \<Rightarrow> Log system \<Rightarrow> Log system \<Rightarrow> bool" where
  "log_service cfg \<equiv> service_step (log_tables cfg) log_ready (log_body cfg)"

definition log_ended :: "Log \<Rightarrow> bool" where
  "log_ended l \<longleftrightarrow> log_closed l \<and> logQueue l = []"

interpretation logger: reliable_class "log_tables cfg" log_ready "log_body cfg" "log_others cfg"
    opened log_serving log_closed log_ended for cfg
  by unfold_locales
    (auto simp: log_tables_def log_events log_body_def log_closed_def log_ended_def stopLogging_def)


subsection \<open>Runs\<close>

lemma log_table_in [simp]: "log_table cfg env \<in> log_tables cfg"
  by (simp add: log_tables_def)

lemma failed_opening:
  "reachable (log_step cfg) (system_init (log_init old olds)) (sys_at idle (log_init old olds) AtSleep (Returned True))"
proof -
  let ?l = "log_init old olds"
  let ?t = "log_table cfg \<lparr>folderOk = False, renameOk = False, openOk = False, lockOk = False\<rparr>"
  have "reachable (log_step cfg) (system_init ?l) (sys_at initial ?l AtRelaunch (Returned True))"
    using reachable.start [of "log_step cfg" "system_init ?l"] by (simp add: system_init_def)
  moreover have "log_step cfg Service (sys_at initial ?l AtRelaunch (Returned True)) (sys_at initial ?l AtCreate (Returned True))"
    unfolding log_step_def by (rule run_event [where t = ?t], simp, simp, simp add: log_relaunch)
  moreover have "log_step cfg Service (sys_at initial ?l AtCreate (Returned True)) (sys_at initial ?l AtCatch (Returned True))"
    unfolding log_step_def by (rule run_threw [where t = ?t], simp, simp, simp add: log_create openLogFile_def)
  moreover have "log_step cfg Service (sys_at initial ?l AtCatch (Returned True)) (sys_at idle ?l AtSleep (Returned True))"
    unfolding log_step_def by (rule run_catch [where t = ?t]) (simp_all add: log_standby)
  ultimately show ?thesis
    by (blast intro: reachable.more)
qed



text \<open>A run that starts the logger, logs one line, writes it and is told to stop.\<close>

lemma history_reachable: "log_history cfg s0 s pushed drained \<Longrightarrow> reachable (log_step cfg) s0 s"
  by (induction rule: log_history.induct) (auto intro: reachable.intros)

lemma history_control:
  assumes "log_history cfg s0 (sys_at st l p c) pushed drained" "control_step (sys_at st l p c) (sys_at st' l' p c')"
    and "logQueue l' = logQueue l"
  shows "log_history cfg s0 (sys_at st' l' p c') pushed drained"
  using log_history.further [OF assms(1), of Controller "sys_at st' l' p c'"] step.controller [OF assms(2)] assms(3)
  by (cases "p = AtWait") (simp_all add: log_step_def pushed_by_def drained_by_def)

lemma history_event:
  assumes "log_history cfg s0 (sys_at st l p c) pushed drained" "script p = Some (e, st', q)"
    and "processEvent id (log_table cfg env) e (st, l) = Done (st', l')" "logQueue l' = logQueue l"
  shows "log_history cfg s0 (sys_at st' l' q c) pushed drained"
  using log_history.further [OF assms(1), of Service "sys_at st' l' q c"] run_event [OF assms(2) log_table_in assms(3)] assms(2,4)
  by (cases p) (auto simp: log_step_def pushed_by_def drained_by_def)

lemma history_service:
  assumes "log_history cfg s0 (sys_at st l p c) pushed drained" "log_service cfg (sys_at st l p c) (sys_at st l q c)" "q \<noteq> AtLoop"
  shows "log_history cfg s0 (sys_at st l q c) pushed drained"
  using log_history.further [OF assms(1), of Service "sys_at st l q c"] step.service [OF assms(2)] assms(3)
  by (simp add: log_step_def pushed_by_def drained_by_def)

lemma history_other:
  assumes "log_history cfg s0 (sys_at st l p c) pushed drained" "log_others cfg st l l'" "logQueue l' = logQueue l @ rows"
  shows "log_history cfg s0 (sys_at st l' p c) (pushed @ rows) drained"
  using log_history.further [OF assms(1), of Others "sys_at st l' p c"] run_other [of "log_others cfg", OF assms(2)] assms(3)
  by (cases "p = AtWait") (simp_all add: log_step_def pushed_by_def drained_by_def)

definition demo_config :: config where
  "demo_config = \<lparr>priorityLevel = info, targetType = to_all, writeMode = append_mode\<rparr>"

definition demo_message :: message where
  "demo_message = \<lparr>severity = warning, labelTpl = ('''', '' ''), formatted = ''low''\<rparr>"

definition demo_log :: Log where
  "demo_log = (log_init [] [])\<lparr>isOngoing := True, opened := True, lockActive := True\<rparr>"

lemma demo_started:
  "log_history demo_config (system_init (log_init [] []))
     (sys_at established demo_log AtLoop (WaitFor StartEstablished TestIdle)) [] []"
proof -
  let ?s0 = "system_init (log_init [] [])" and ?l0 = "log_init [] []"
  let ?l1 = "?l0\<lparr>opened := True\<rparr>" let ?l2 = "?l1\<lparr>isOngoing := True\<rparr>"
  let ?env = "\<lparr>folderOk = True, renameOk = True, openOk = True, lockOk = True\<rparr>"
  let ?H = "\<lambda>st l p c. log_history demo_config ?s0 (sys_at st l p c) [] []"
  have "?H initial ?l0 AtRelaunch (Returned True)"
    using log_history.none [of demo_config ?s0] by (simp add: system_init_def)
  then have "?H initial ?l0 AtCreate (Returned True)"
    by (rule history_event [where env = ?env], simp, simp_all add: log_relaunch)
  then have "?H active ?l1 AtAwait (Returned True)"
    by (rule history_event [where env = ?env], simp,
        simp_all add: log_create openLogFile_def backUpLogFileIfNeeded_def writer_open_def log_init_def
          file_size_def maxFileSize_def demo_config_def)
  then have "?H active ?l1 AtAwait (WaitFor StartActive TestIdle)"
    using control_step.call_startup [of "sys_at active ?l1 AtAwait (Returned True)"] by (auto intro: history_control)
  then have "?H active ?l1 AtAwait (WaitFor StartActive TestTarget)"
    using control_step.test_idle [of "sys_at active ?l1 AtAwait (WaitFor StartActive TestIdle)"] by (auto intro: history_control)
  then have "?H active ?l1 AtAwait (WaitFor StartActive SawTarget)"
    using control_step.test_target [of "sys_at active ?l1 AtAwait (WaitFor StartActive TestTarget)"] by (auto intro: history_control)
  then have "?H active ?l1 AtAwait StoreStart"
    using control_step.saw_target [of "sys_at active ?l1 AtAwait (WaitFor StartActive SawTarget)" StartActive]
    by (auto simp: log_init_def intro: history_control)
  then have "?H active ?l2 AtAwait NotifyStart"
    using control_step.store_start [of "sys_at active ?l1 AtAwait StoreStart"] by (auto intro: history_control)
  then have "?H active ?l2 AtAwait (WaitFor StartEstablished TestIdle)"
    using control_step.notify_start [of "sys_at active ?l2 AtAwait NotifyStart"] by (auto simp: wake_service_def intro: history_control)
  then have "?H active ?l2 AtGo (WaitFor StartEstablished TestIdle)"
    by (rule history_service) (use service_step.proceed [of "sys_at active ?l2 AtAwait (WaitFor StartEstablished TestIdle)"] in auto)
  then show ?thesis
    by (rule history_event [where env = ?env], simp,
        simp_all add: log_go startLogging_def writer_lock_def dequeueOutputs_def demo_log_def log_init_def)
qed

definition demo_row :: string where
  "demo_row = ''[WRN] low''"

lemma demo_rows: "message_rows (getPrefix warning) demo_message = [demo_row]"
  by (simp add: message_rows_def demo_message_def reformatContents_def erase_breaks_def demo_row_def Let_def)

lemma demo_written:
  "log_history demo_config (system_init (log_init [] []))
     (sys_at established (demo_log\<lparr>lines := [demo_row], terminal := [demo_row]\<rparr>) AtLoop (WaitFor StartEstablished TestIdle))
     [demo_row] [demo_row]"
proof -
  let ?s0 = "system_init (log_init [] [])" and ?c = "WaitFor StartEstablished TestIdle"
  let ?q = "demo_log\<lparr>logQueue := [demo_row]\<rparr>"
  have w: "log_history demo_config ?s0 (sys_at established demo_log AtWait ?c) [] []"
    by (rule history_service [OF demo_started])
       (use service_step.loop_enter [of "sys_at established demo_log AtLoop ?c"] in \<open>auto simp: demo_log_def\<close>)
  have "log_history demo_config ?s0 (sys_at established (demo_log\<lparr>seen := [demo_message]\<rparr>) AtWait ?c) ([] @ []) []"
    by (rule history_other [OF w])
       (use log_others.flush_saw [of demo_config demo_message established demo_log]
        in \<open>auto simp: demo_log_def log_init_def demo_config_def demo_message_def\<close>)
  from history_other [OF this log_others.flush_clear [of demo_message], of "[]"]
  have "log_history demo_config ?s0 (sys_at established (demo_log\<lparr>cleared := [demo_message]\<rparr>) AtWait ?c) [] []"
    by (simp add: demo_log_def log_init_def)
  from history_other [OF this log_others.flush_push [of demo_message], of "[demo_row]"]
  have q: "log_history demo_config ?s0 (sys_at established ?q AtWait ?c) [demo_row] []"
    using demo_rows by (simp add: demo_log_def log_init_def) (simp add: demo_message_def)
  have "log_service demo_config (sys_at established ?q AtWait ?c)
      (sys_at established (demo_log\<lparr>lines := [demo_row], terminal := [demo_row]\<rparr>) AtLoop ?c)"
    using service_step.loop_done [of "sys_at established ?q AtWait ?c" log_ready "log_body demo_config"
        "demo_log\<lparr>lines := [demo_row], terminal := [demo_row]\<rparr>" "log_tables demo_config"]
    by (simp add: demo_log_def log_init_def log_ready_def log_body_def demo_config_def write_line_def)
  from log_history.further [OF q, unfolded log_step_def, OF step.service [OF this]] show ?thesis
    by (simp add: pushed_by_def drained_by_def demo_log_def log_init_def)
qed


theorem log_service_safe_witness:
  "\<exists>s. reachable (log_step demo_config) (system_init (log_init [] [])) s \<and> pc s = AtLoop \<and> opened (self s) \<and> lockActive (self s)"
  using log_service_safe [OF history_reachable [OF demo_written]] history_reachable [OF demo_written] by fastforce

lemma demo_stopped:
  "reachable (log_step demo_config) (system_init (log_init [] []))
     (sys_at established (demo_log\<lparr>lines := [demo_row], terminal := [demo_row], isOngoing := False\<rparr>) AtLoop
       (WaitFor StopInactive TestIdle))"
proof -
  let ?R = "\<lambda>l c. reachable (step (log_tables demo_config) log_ready (log_body demo_config) (log_others demo_config))
    (system_init (log_init [] [])) (sys_at established l AtLoop c)"
  let ?l = "demo_log\<lparr>lines := [demo_row], terminal := [demo_row]\<rparr>"
  have "?R ?l (WaitFor StartEstablished TestIdle)"
    using history_reachable [OF demo_written] by (simp add: log_step_def)
  from reach_control [OF this control_step.test_idle] have "?R ?l (WaitFor StartEstablished TestTarget)"
    by simp
  from reach_control [OF this control_step.test_target] have "?R ?l (WaitFor StartEstablished SawTarget)"
    by simp
  from reach_control [OF this control_step.saw_target] have "?R ?l (Returned True)"
    by (simp add: demo_log_def log_init_def)
  from shutdown_notified [OF this] show ?thesis
    by (simp add: log_step_def)
qed


text \<open>On its way from the test of the loop to the end the service writes nothing: lines that are in the queue at
  that moment are discarded.\<close>

lemma stopping_silent:
  assumes "logger.stopping s" "pc s \<noteq> AtWait" "log_service cfg s s'"
  shows "lines (self s') = lines (self s) \<and> terminal (self s') = terminal (self s) \<and> pc s' \<noteq> AtWait"
  using assms(3)
proof (cases rule: service_step.cases)
  case (event_done e expected p t st' d')
  then obtain env where t: "t = log_table cfg env"
    by (auto simp: log_tables_def)
  show ?thesis
    using assms(1) event_done
    by (cases "pc s") (auto simp: logger.stopping_def logger.placed_def t log_destroy log_quit stopLogging_def
        closeLogFile_def writer_close_def writer_unlock_def split: if_splits)
next
  case (event_threw e expected p t st' d')
  then obtain env where t: "t = log_table cfg env"
    by (auto simp: log_tables_def)
  show ?thesis
    using assms(1) event_threw
    by (cases "pc s") (auto simp: logger.stopping_def logger.placed_def t log_destroy log_quit split: if_splits)
qed (use assms in \<open>auto simp: logger.stopping_def\<close>)

lemma stopping_runs_silent:
  "(log_service cfg ^^ n) s s' \<Longrightarrow> logger.stopping s \<Longrightarrow> pc s \<noteq> AtWait
    \<Longrightarrow> lines (self s') = lines (self s) \<and> terminal (self s') = terminal (self s)"
proof (induction n arbitrary: s)
  case (Suc n)
  obtain s1 where s1: "log_service cfg s s1" "(log_service cfg ^^ n) s1 s'"
    using relpowp_Suc_D2 [OF Suc.prems(1)] by blast
  then show ?case
    using Suc.IH [OF s1(2)] logger.stopping_step [OF Suc.prems(2) s1(1)] stopping_silent [OF Suc.prems(2,3) s1(1)] by simp
qed simp

lemma log_stop_discards:
  assumes "reachable (log_step cfg) (system_init (log_init old olds)) s"
    and "pc s = AtLoop" "\<not> isOngoing (self s)" "\<not> inResetting (self s)" "(log_service cfg ^^ 4) s s'"
  shows "logQueue (self s') = [] \<and> lines (self s') = lines (self s) \<and> terminal (self s') = terminal (self s)"
proof -
  have s: "logger.stopping s"
    using logger.reachable_stopping [of cfg "log_init old olds" s] assms by (simp add: log_step_def)
  then show ?thesis
    using logger.stopping_runs [OF s] stopping_runs_silent [OF assms(5) s] assms(2,5)
    by (auto simp: logger.stopping_def log_ended_def)
qed

subsection \<open>Lines of a message\<close>

lemma concat_split_rows: "concat (split_rows left) = left"
proof (induction left rule: split_rows.induct)
  case (1 left)
  show ?case
  proof (cases "dropWhile (\<lambda>c. c \<noteq> nl_char) left")
    case Nil
    show ?thesis
      by (subst split_rows.simps, subst Nil) simp
  next
    case (Cons c behind)
    then have "c = nl_char"
      using hd_dropWhile [of "\<lambda>c. c \<noteq> nl_char" left] by auto
    then have "left = takeWhile (\<lambda>c. c \<noteq> nl_char) left @ nl_char # behind"
      using takeWhile_dropWhile_id [of "\<lambda>c. c \<noteq> nl_char" left] Cons by simp
    then show ?thesis
      using "1.IH" [OF Cons] Cons by (subst split_rows.simps) simp
  qed
qed

lemma concat_erase: "concat (map erase_breaks rows) = erase_breaks (concat rows)"
  by (induction rows) (simp_all add: erase_breaks_def)

lemma concat_nonempty: "concat (filter (\<lambda>r. r \<noteq> []) rows) = concat rows"
  by (induction rows) auto

text \<open>Every line of a message starts with the label and goes on with some text without line
  breaks; the texts of the lines, put together, are the text of the message without its line breaks.\<close>

theorem reformatContents_lines:
  assumes "CHR 0x00 \<notin> set label"
  shows "concat (map (drop (length label)) (reformatContents label body_text)) = erase_breaks body_text
    \<and> (\<forall>x \<in> set (reformatContents label body_text).
        \<exists>body. x = label @ body \<and> body \<noteq> [] \<and> nl_char \<notin> set body \<and> cr_char \<notin> set body)"
proof -
  define rows where "rows = (if nl_char \<notin> set body_text then [body_text] else split_rows body_text)"
  have label: "takeWhile (\<lambda>c. c \<noteq> CHR 0x00) label = label"
    using assms by (auto simp: takeWhile_eq_all_conv)
  have ref: "reformatContents label body_text = map (\<lambda>r. label @ r) (filter (\<lambda>r. r \<noteq> []) (map erase_breaks rows))"
    by (simp add: reformatContents_def rows_def label Let_def)
  have "concat rows = body_text"
    by (simp add: rows_def concat_split_rows)
  then have "concat (filter (\<lambda>r. r \<noteq> []) (map erase_breaks rows)) = erase_breaks body_text"
    by (simp only: concat_nonempty concat_erase)
  then show ?thesis
    unfolding ref by (auto simp: comp_def erase_breaks_def)
qed

theorem reformatContents_lines_witness:
  "concat (map (drop (length ''x: '')) (reformatContents ''x: '' [CHR ''a'', nl_char, nl_char, CHR ''b''])) = ''ab''"
  using reformatContents_lines [of "''x: ''" "[CHR ''a'', nl_char, nl_char, CHR ''b'']"]
  by (simp add: erase_breaks_def)

subsection \<open>Copies of the log file\<close>

lemma fold_max_bound: "x \<le> fold max xs m \<longleftrightarrow> x \<le> m \<or> (\<exists>y \<in> set xs. x \<le> y)" for x m :: nat
proof (induction xs arbitrary: m)
  case (Cons a xs)
  show ?case
    using Cons.IH [of "max a m"] by (simp add: le_max_iff_disj) blast
qed simp

text \<open>A backup takes a number that no copy has, keeps every other copy, and loses no line of the log.\<close>

lemma backUp_keeps:
  assumes "backUpLogFileIfNeeded ok l = Done l'"
  shows "set (backups l) \<subseteq> set (backups l')"
    and "l' = l \<or> (\<exists>n. n \<notin> fst ` set (backups l) \<and> backups l' = (n, lines l) # backups l \<and> lines l' = [])"
proof -
  let ?index = "fold max (map fst (backups l)) 0"
  have "x \<le> ?index" if "x \<in> fst ` set (backups l)" for x
    using that by (subst fold_max_bound) auto
  then have "?index + 1 \<notin> fst ` set (backups l)"
    by fastforce
  then show "set (backups l) \<subseteq> set (backups l')"
    and "l' = l \<or> (\<exists>n. n \<notin> fst ` set (backups l) \<and> backups l' = (n, lines l) # backups l \<and> lines l' = [])"
    using assms by (auto simp: backUpLogFileIfNeeded_def Let_def split: if_splits)
qed

end
