(* ===== verification/AP_View.thy ===== *)
theory AP_View
  imports AP_Helper
begin

text \<open>
  The service of the viewer, src/application/core/include/view.hpp and
  src/application/core/source/view.cpp: its two servers, the actions of its transition table, its
  notification loop, and what the threads that print answers do to the object.

  A server is present or not, and if present its flag \<open>exitReady\<close> (src/utility/source/socket.cpp) says
  whether it was told to stop; only \<open>close\<close> sets it. What the socket calls of one event answer is a record
  \<open>netEnv\<close>. The task of a closed server is taken to end, so that \<open>join\<close> returns.
\<close>

record netEnv =
  tcpSocketOk :: bool
  udpSocketOk :: bool
  tcpBindOk :: bool
  tcpListenOk :: bool
  udpBindOk :: bool

record View = helper +
  permSessServer :: "bool option"
  tempSessServer :: "bool option"
  outputCompleted :: bool
  reminderRunning :: bool
  usedIds :: "int set"

definition view_init :: View where
  "view_init =
     \<lparr>isOngoing = False, inResetting = False, permSessServer = None, tempSessServer = None,
      outputCompleted = True, reminderRunning = False, usedIds = {}\<rparr>"

subsection \<open>Actions\<close>

definition cleanUpShmInUse :: "View \<Rightarrow> View" where
  "cleanUpShmInUse v = (if usedIds v = {} then v else v\<lparr>usedIds := {}\<rparr>)"

definition stopReminderTimer :: "View \<Rightarrow> View" where
  "stopReminderTimer v = (if \<not> reminderRunning v then v else v\<lparr>reminderRunning := False\<rparr>)"

definition startReminderTimer :: "View \<Rightarrow> View" where
  "startReminderTimer v = (if reminderRunning v then v else v\<lparr>reminderRunning := True\<rparr>)"

definition renewServer_tcp :: "netEnv \<Rightarrow> View \<Rightarrow> View fsm_outcome" where
  "renewServer_tcp env v = (if \<not> tcpSocketOk env then Threw v else Done (v\<lparr>permSessServer := Some False\<rparr>))"

definition renewServer_udp :: "netEnv \<Rightarrow> View \<Rightarrow> View fsm_outcome" where
  "renewServer_udp env v = (if \<not> udpSocketOk env then Threw v else Done (v\<lparr>tempSessServer := Some False\<rparr>))"

definition createViewServer :: "netEnv \<Rightarrow> View \<Rightarrow> View fsm_outcome" where
  "createViewServer env v =
     (case renewServer_tcp env (stopReminderTimer (cleanUpShmInUse v)) of
        Threw v' \<Rightarrow> Threw v' | Done v' \<Rightarrow> renewServer_udp env v')"

text \<open>\<open>close\<close> asks a server to stop before \<open>join\<close> waits for that flag.\<close>

definition server_close :: "bool option \<Rightarrow> bool option" where
  "server_close srv = map_option (\<lambda>_. True) srv"

definition destroyViewServer :: "View \<Rightarrow> View" where
  "destroyViewServer v =
     (let v = stopReminderTimer (cleanUpShmInUse v);
          v = (if permSessServer v \<noteq> None then v\<lparr>permSessServer := server_close (permSessServer v)\<rparr> else v);
          v = v\<lparr>permSessServer := None\<rparr>;
          v = (if tempSessServer v \<noteq> None then v\<lparr>tempSessServer := server_close (tempSessServer v)\<rparr> else v)
      in v\<lparr>tempSessServer := None\<rparr>)"

definition startViewing :: "netEnv \<Rightarrow> View \<Rightarrow> View fsm_outcome" where
  "startViewing env v =
     (if permSessServer v \<noteq> None \<and> (\<not> tcpBindOk env \<or> \<not> tcpListenOk env) then Threw v
      else if tempSessServer v \<noteq> None \<and> \<not> udpBindOk env then Threw v
      else Done v)"

definition stopViewing :: "View \<Rightarrow> View" where
  "stopViewing v = v\<lparr>isOngoing := False, inResetting := False, outputCompleted := True\<rparr>"

definition view_doToggle :: "View \<Rightarrow> View" where
  "view_doToggle v = v"

definition view_doRollback :: "View \<Rightarrow> View" where
  "view_doRollback v =
     (destroyViewServer (v\<lparr>isOngoing := False\<rparr>))\<lparr>inResetting := False, outputCompleted := True\<rparr>"

definition view_table :: "netEnv \<Rightarrow> (State, Event, View, Event) Row list" where
  "view_table env =
     [row initial Create active (createViewServer env),
      row active Go established (startViewing env),
      row established Destroy active (\<lambda>v. Done (destroyViewServer v)),
      row active Quit inactive (\<lambda>v. Done (stopViewing v)),
      row initial Standby idle (\<lambda>v. Done (view_doToggle v)),
      row active Standby idle (\<lambda>v. Done (view_doToggle v)),
      row established Standby idle (\<lambda>v. Done (view_doToggle v)),
      row established Relaunch initial (\<lambda>v. Done (view_doRollback v)),
      row inactive Relaunch initial (\<lambda>v. Done (view_doRollback v)),
      row idle Relaunch initial (\<lambda>v. Done (view_doRollback v))]"

definition view_tables :: "(State, Event, View, Event) Row list set" where
  "view_tables = range view_table"

subsection \<open>The notification loop and other threads\<close>

definition view_ready :: "View \<Rightarrow> bool" where
  "view_ready v = False"

definition view_body :: "View \<Rightarrow> View fsm_outcome" where
  "view_body v =
     (if (case permSessServer v of None \<Rightarrow> True | Some stopRequested \<Rightarrow> stopRequested)
         \<or> (case tempSessServer v of None \<Rightarrow> True | Some stopRequested \<Rightarrow> stopRequested)
      then Threw v else Done v)"

inductive view_others :: "State \<Rightarrow> View \<Rightarrow> View \<Rightarrow> bool" where
  wait_task: "view_others st v (v\<lparr>outputCompleted := False\<rparr>)"
| notify_task: "view_others st v (v\<lparr>outputCompleted := True\<rparr>)"
| start_reminder: "view_others st v (startReminderTimer v)"
| stop_reminder: "view_others st v (stopReminderTimer v)"
| create_segment: "view_others st v (v\<lparr>usedIds := insert i (usedIds v)\<rparr>)"
| remove_segment: "view_others st v (v\<lparr>usedIds := usedIds v - {i}\<rparr>)"

definition view_step :: "actor \<Rightarrow> View system \<Rightarrow> View system \<Rightarrow> bool" where
  "view_step = step view_tables view_ready view_body view_others"

abbreviation view_service :: "View system \<Rightarrow> View system \<Rightarrow> bool" where
  "view_service \<equiv> service_step view_tables view_ready view_body"

subsection \<open>The contract of the service\<close>

definition servers_up :: "View \<Rightarrow> bool" where
  "servers_up v \<longleftrightarrow> permSessServer v = Some False \<and> tempSessServer v = Some False"

definition servers_down :: "View \<Rightarrow> bool" where
  "servers_down v \<longleftrightarrow> permSessServer v = None \<and> tempSessServer v = None"

definition view_ended :: "View \<Rightarrow> bool" where
  "view_ended v \<longleftrightarrow> servers_down v \<and> outputCompleted v"

lemma view_events:
  "processEvent id (view_table env) Create (initial, v) =
     (case createViewServer env v of Done v' \<Rightarrow> Done (active, v') | Threw v' \<Rightarrow> Threw (initial, v'))"
  "processEvent id (view_table env) Go (active, v) =
     (case startViewing env v of Done v' \<Rightarrow> Done (established, v') | Threw v' \<Rightarrow> Threw (active, v'))"
  "processEvent id (view_table env) Destroy (established, v) = Done (active, destroyViewServer v)"
  "processEvent id (view_table env) Quit (active, v) = Done (inactive, stopViewing v)"
  "st \<noteq> inactive \<Longrightarrow> processEvent id (view_table env) Standby (st, v) = Done (idle, v)"
  "processEvent id (view_table env) Relaunch (st, v) =
     (if st \<in> {established, inactive, idle} then Done (initial, view_doRollback v) else Done (st, v))"
  by (simp_all add: view_table_def table_defs split: fsm_outcome.split)
     (cases st; simp add: view_table_def table_defs view_doToggle_def)+

lemma createViewServer_up: "createViewServer env v = Done v' \<Longrightarrow> servers_up v'"
  by (auto simp: createViewServer_def renewServer_tcp_def renewServer_udp_def servers_up_def split: if_splits)

lemma startViewing_same: "startViewing env v = Done v' \<Longrightarrow> v' = v"
  by (auto simp: startViewing_def split: if_splits)

lemma destroyViewServer_down:
  "servers_down (destroyViewServer v)" "isOngoing (destroyViewServer v) = isOngoing v"
  "inResetting (destroyViewServer v) = inResetting v"
  by (simp_all add: destroyViewServer_def servers_down_def stopReminderTimer_def cleanUpShmInUse_def Let_def)

lemma view_body_up: "servers_up v \<Longrightarrow> view_body v = Done v"
  by (simp add: view_body_def servers_up_def)

lemma view_body_done: "view_body v = Done v' \<Longrightarrow> v' = v"
  by (simp add: view_body_def split: if_splits)

lemma view_others_keep:
  assumes "view_others st v v'"
  shows "servers_up v' = servers_up v" "servers_down v' = servers_down v" "isOngoing v' = isOngoing v" "inResetting v' = inResetting v"
  using assms by (cases rule: view_others.cases;
    simp add: servers_up_def servers_down_def startReminderTimer_def stopReminderTimer_def)+

lemma servers_flags [simp]:
  "servers_up (v\<lparr>isOngoing := b\<rparr>) = servers_up v" "servers_up (v\<lparr>inResetting := b\<rparr>) = servers_up v"
  "servers_down (v\<lparr>isOngoing := b\<rparr>) = servers_down v" "servers_down (v\<lparr>inResetting := b\<rparr>) = servers_down v"
  "servers_down (stopViewing v) = servers_down v"
  by (simp_all add: servers_up_def servers_down_def stopViewing_def)

lemma stopViewing_fields [simp]:
  "isOngoing (stopViewing v) = False" "inResetting (stopViewing v) = False" "outputCompleted (stopViewing v) = True"
  by (simp_all add: stopViewing_def)

interpretation viewer: reliable_class view_tables view_ready view_body view_others servers_up servers_up servers_down view_ended
proof unfold_locales
  show "st' = active \<and> servers_up d'"
    if "t \<in> view_tables" "processEvent id t Create (initial, d) = Done (st', d')" for t d st' d'
    using that by (auto simp: view_tables_def view_events dest: createViewServer_up split: fsm_outcome.splits)
  show "st' = established \<and> servers_up d'"
    if "t \<in> view_tables" "servers_up d" "processEvent id t Go (active, d) = Done (st', d')" for t d st' d'
    using that by (auto simp: view_tables_def view_events dest: startViewing_same split: fsm_outcome.splits)
qed (auto simp: view_tables_def view_events destroyViewServer_down view_body_up view_others_keep view_ended_def
      split: if_splits dest: view_body_done)

text \<open>C21: whatever the socket calls answer and however the threads interleave, no assertion of the
  service fails and no exception leaves it; while the notification loop runs both servers are up, so
  that its check of the servers never raises an exception.\<close>

theorem view_service_safe:
  assumes "reachable view_step (system_init view_init) s"
  shows "pc s \<notin> {Aborted, Escaped}
    \<and> (pc s \<in> {AtLoop, AtWait, AtCheck, AtDestroy} \<longrightarrow> fsmState s = established \<and> view_body (self s) = Done (self s))"
  using viewer.reachable_placed [of view_init s] assms
  by (auto simp: view_step_def viewer.placed_def view_body_up)

text \<open>Once viewing is switched off and no reset is requested, the service left alone ends after at most
  five steps: the machine is then inactive, both servers are gone and no thread waits for an output.\<close>

theorem view_stops:
  assumes "reachable view_step (system_init view_init) s"
    and "pc s \<in> {AtWait, AtLoop, AtCheck, AtDestroy, AtQuit}" "\<not> isOngoing (self s)" "\<not> inResetting (self s)"
  shows "(\<exists>s'. (view_service ^^ stop_rank (pc s)) s s')
    \<and> (\<forall>s'. (view_service ^^ stop_rank (pc s)) s s'
         \<longrightarrow> pc s' = Finished \<and> fsmState s' = inactive \<and> servers_down (self s') \<and> outputCompleted (self s'))"
  using viewer.service_ends [of view_init s] assms unfolding view_step_def view_ended_def by blast

subsection \<open>Runs\<close>

lemma view_table_in [simp]: "view_table env \<in> view_tables"
  by (simp add: view_tables_def)

lemma view_failed_creation:
  "reachable view_step (system_init view_init) (sys_at idle view_init AtSleep (Returned True))"
proof -
  let ?t = "view_table \<lparr>tcpSocketOk = False, udpSocketOk = False, tcpBindOk = False, tcpListenOk = False, udpBindOk = False\<rparr>"
  have "reachable view_step (system_init view_init) (sys_at initial view_init AtRelaunch (Returned True))"
    using reachable.start [of view_step "system_init view_init"] by (simp add: system_init_def)
  moreover have "view_step Service (sys_at initial view_init AtRelaunch (Returned True)) (sys_at initial view_init AtCreate (Returned True))"
    unfolding view_step_def by (rule run_event [where t = ?t], simp, simp, simp add: view_events)
  moreover have "view_step Service (sys_at initial view_init AtCreate (Returned True)) (sys_at initial view_init AtCatch (Returned True))"
    unfolding view_step_def
    by (rule run_threw [where t = ?t], simp, simp,
        simp add: view_events createViewServer_def renewServer_tcp_def stopReminderTimer_def cleanUpShmInUse_def view_init_def)
  moreover have "view_step Service (sys_at initial view_init AtCatch (Returned True)) (sys_at idle view_init AtSleep (Returned True))"
    unfolding view_step_def by (rule run_catch [where t = ?t]) (simp_all add: view_events)
  ultimately show ?thesis
    by (blast intro: reachable.more)
qed

text \<open>A shut-down whose notification comes between the failure of the service and its sleep is lost: the
  state is reachable, and from then on, without another call and short of a spurious wake-up, the
  service never ends, so that the program that waits for it does not end either.\<close>

theorem view_shutdown_lost:
  "\<exists>s. reachable view_step (system_init view_init) s \<and> ctl s = WaitFor StopInactive TestIdle
    \<and> (\<forall>s'. reachable (no_call view_step) s s' \<longrightarrow> pc s' \<in> {AtSleep, Asleep})"
proof -
  let ?s = "sys_at idle (view_init\<lparr>isOngoing := False\<rparr>) AtSleep (WaitFor StopInactive TestIdle)"
  have s: "reachable view_step (system_init view_init) ?s"
    using view_failed_creation unfolding view_step_def by (intro shutdown_notified) simp_all
  have "resting ?s"
    by (simp add: resting_def)
  moreover have "viewer.placed ?s"
    using viewer.reachable_placed s by (simp add: view_step_def)
  ultimately have "pc s' \<in> {AtSleep, Asleep}" if "reachable (no_call view_step) ?s s'" for s'
    using viewer.resting_forever [of ?s s'] that unfolding view_step_def resting_def by blast
  with s show ?thesis
    by (intro exI [of _ ?s]) simp
qed

theorem view_shutdown_lost_witness:
  "\<exists>s. reachable view_step (system_init view_init) s \<and> ctl s = WaitFor StopInactive TestIdle \<and> pc s \<in> {AtSleep, Asleep}"
  using view_shutdown_lost reachable.start by blast

text \<open>A run that starts the viewer and is told to stop.\<close>

definition demo_view :: View where
  "demo_view = view_init\<lparr>permSessServer := Some False, tempSessServer := Some False\<rparr>"

lemma demo_view_stopped:
  "reachable view_step (system_init view_init) (sys_at established demo_view AtLoop (WaitFor StopInactive TestIdle))"
proof -
  let ?t = "view_table \<lparr>tcpSocketOk = True, udpSocketOk = True, tcpBindOk = True, tcpListenOk = True, udpBindOk = True\<rparr>"
  let ?v = "demo_view\<lparr>isOngoing := True\<rparr>"
  let ?R = "\<lambda>st v p c. reachable (step view_tables view_ready view_body view_others) (system_init view_init) (sys_at st v p c)"
  have "?R initial view_init AtRelaunch (Returned True)"
    using reachable.start [of "step view_tables view_ready view_body view_others" "system_init view_init"]
    by (simp add: system_init_def)
  then have "?R initial view_init AtCreate (Returned True)"
    by (rule reachable.more) (rule run_event [where t = ?t], simp, simp, simp add: view_events)
  then have "?R active demo_view AtAwait (Returned True)"
    by (rule reachable.more)
       (rule run_event [where t = ?t], simp, simp, simp add: view_events createViewServer_def renewServer_tcp_def
          renewServer_udp_def stopReminderTimer_def cleanUpShmInUse_def view_init_def demo_view_def)
  from startup_requested [OF this] have "?R active demo_view AtAwait (WaitFor StartActive TestIdle)" .
  from reach_control [OF this control_step.test_idle] have "?R active demo_view AtAwait (WaitFor StartActive TestTarget)"
    by simp
  from reach_control [OF this control_step.test_target] have "?R active demo_view AtAwait (WaitFor StartActive SawTarget)"
    by simp
  from reach_control [OF this control_step.saw_target] have "?R active demo_view AtAwait StoreStart"
    by (simp add: demo_view_def view_init_def)
  from reach_control [OF this control_step.store_start] have "?R active ?v AtAwait NotifyStart"
    by simp
  from reach_control [OF this control_step.notify_start] have "?R active ?v AtAwait (WaitFor StartEstablished TestIdle)"
    by (simp add: wake_service_def)
  from reachable.more [OF this step.service [OF service_step.proceed]] have "?R active ?v AtGo (WaitFor StartEstablished TestIdle)"
    by simp
  then have "?R established ?v AtLoop (WaitFor StartEstablished TestIdle)"
    by (rule reachable.more) (rule run_event [where t = ?t], simp, simp, simp add: view_events startViewing_def)
  from reach_control [OF this control_step.test_idle] have "?R established ?v AtLoop (WaitFor StartEstablished TestTarget)"
    by simp
  from reach_control [OF this control_step.test_target] have "?R established ?v AtLoop (WaitFor StartEstablished SawTarget)"
    by simp
  from reach_control [OF this control_step.saw_target] have "?R established ?v AtLoop (Returned True)"
    by (simp add: demo_view_def view_init_def)
  from shutdown_notified [OF this] show ?thesis
    by (simp add: view_step_def demo_view_def view_init_def)
qed

theorem view_service_safe_witness:
  "\<exists>s. reachable view_step (system_init view_init) s \<and> pc s = AtLoop \<and> view_body (self s) = Done (self s)"
  using view_service_safe [OF demo_view_stopped] demo_view_stopped by fastforce

theorem view_stops_witness:
  "\<exists>s s'. reachable view_step (system_init view_init) s \<and> pc s = AtLoop
    \<and> (view_service ^^ 4) s s' \<and> pc s' = Finished \<and> fsmState s' = inactive \<and> servers_down (self s')"
  using view_stops [OF demo_view_stopped] demo_view_stopped by (fastforce simp: demo_view_def view_init_def)

end
