(* ===== verification/AP_Tlv.thy ===== *)
theory AP_Tlv
  imports Foo_Prelude "HOL-Library.Word" "HOL-Library.Monad_Syntax"
begin

text \<open>
  The type-length-value packets of src/application/core/include/data.hpp and
  src/application/core/source/data.cpp, with which the viewer answers a request: the cursor
  pair of the class \<open>Packet\<close>, the serialisation templates, \<open>encodeTLV\<close> and \<open>decodeTLV\<close>.

  A buffer is the list of its bytes. \<open>memcpy\<close> is not guarded by the source, so a copy that
  leaves the buffer has the result \<^term>\<open>None\<close>: the behaviour of the program is undefined there.
  An \<open>int\<close> is a \<^typ>\<open>32 word\<close> and the bytes of \<open>htonl\<close> are the big-endian ones, on either host.
  Error codes are the values of the enumeration of the source.
\<close>

unbundle bit_operations_syntax

subsection \<open>The packet\<close>

record Packet =
  mem :: "byte list"
  tail :: nat
  writer :: nat
  reader :: nat

definition packet_init :: "byte list \<Rightarrow> nat \<Rightarrow> Packet" where
  "packet_init pktBuf pktLen = \<lparr>mem = pktBuf, tail = pktLen, writer = 0, reader = 0\<rparr>"

text \<open>\<open>write(dst, offset)\<close> and \<open>read(dst, offset)\<close>; the flag says whether the packet goes on.\<close>

definition pkt_write :: "byte list \<Rightarrow> Packet \<Rightarrow> (bool \<times> Packet) option" where
  "pkt_write src p =
     (let offset = length src; w = writer p in
      if offset = 0 then Some (False, p)
      else if w + offset \<le> length (mem p)
      then Some (w + offset < tail p,
                 p\<lparr>mem := take w (mem p) @ src @ drop (w + offset) (mem p), writer := w + offset\<rparr>)
      else None)"

definition pkt_read :: "nat \<Rightarrow> Packet \<Rightarrow> (bool \<times> byte list \<times> Packet) option" where
  "pkt_read offset p =
     (let r = reader p in
      if offset = 0 then Some (False, [], p)
      else if r + offset \<le> length (mem p)
      then Some (r + offset < tail p, take offset (drop r (mem p)), p\<lparr>reader := r + offset\<rparr>)
      else None)"

text \<open>The bytes of \<open>htonl(v)\<close> in memory, and \<open>ntohl\<close> of four bytes.\<close>

definition htonl :: "32 word \<Rightarrow> byte list" where
  "htonl v = [ucast (drop_bit 24 v), ucast (drop_bit 16 v), ucast (drop_bit 8 v), ucast v]"

definition ntohl :: "byte list \<Rightarrow> 32 word" where
  "ntohl bs = fold (\<lambda>b acc. push_bit 8 acc OR ucast b) bs 0"

definition pkt_write_int :: "32 word \<Rightarrow> Packet \<Rightarrow> (bool \<times> Packet) option" where
  "pkt_write_int v = pkt_write (htonl v)"

definition pkt_write_bool :: "bool \<Rightarrow> Packet \<Rightarrow> (bool \<times> Packet) option" where
  "pkt_write_bool b = pkt_write [of_bool b]"

definition pkt_read_int :: "Packet \<Rightarrow> (bool \<times> 32 word \<times> Packet) option" where
  "pkt_read_int p = do { (go, bs, p') \<leftarrow> pkt_read 4 p; Some (go, ntohl bs, p') }"

text \<open>A byte other than 0 and 1 is no value of type \<open>bool\<close>.\<close>

definition pkt_read_bool :: "Packet \<Rightarrow> (bool \<times> bool \<times> Packet) option" where
  "pkt_read_bool p =
     do { (go, bs, p') \<leftarrow> pkt_read 1 p;
          if hd bs = 0 then Some (go, False, p')
          else if hd bs = 1 then Some (go, True, p')
          else None }"

subsection \<open>The value and its serialisation\<close>

definition magicNumber :: "32 word" where
  "magicNumber = 0x3B9ACA07"

definition invalidShmId :: "32 word" where
  "invalidShmId = - 1"

definition defInfoSize :: nat where
  "defInfoSize = 256"

record TLVValue =
  stopTag :: bool
  libInfo :: "byte list"
  bashShmId :: "32 word"
  logShmId :: "32 word"
  statusShmId :: "32 word"
  configInfo :: "byte list"

definition tlv_default :: TLVValue where
  "tlv_default =
     \<lparr>stopTag = False, libInfo = replicate defInfoSize 0, bashShmId = invalidShmId,
      logShmId = invalidShmId, statusShmId = invalidShmId, configInfo = replicate (defInfoSize * 2) 0\<rparr>"

datatype ErrCode = noError | nullBuffer | insufficientLength | badHeader | unknownType
  | failSerialize | failDeserialize

definition err_message :: "ErrCode \<Rightarrow> string" where
  "err_message e =
     (case e of noError \<Rightarrow> ''no TLV error''
      | nullBuffer \<Rightarrow> ''null TLV buffer''
      | insufficientLength \<Rightarrow> ''insufficient TLV-length''
      | badHeader \<Rightarrow> ''invalid TLV header''
      | unknownType \<Rightarrow> ''unknown TLV-type''
      | failSerialize \<Rightarrow> ''TLV-value serialization failure''
      | failDeserialize \<Rightarrow> ''TLV-value deserialization failure'')"

definition strnlen :: "byte list \<Rightarrow> nat \<Rightarrow> nat" where
  "strnlen str maxlen = length (takeWhile (\<lambda>b. b \<noteq> 0) (take maxlen str))"

text \<open>The two templates \<open>serialize\<close>, the first at its two payload types.\<close>

definition serialize_bool :: "bool \<Rightarrow> Packet \<Rightarrow> (32 word \<times> Packet) option" where
  "serialize_bool b pkt =
     do { (_, pkt) \<leftarrow> pkt_write_int 1 pkt; (_, pkt) \<leftarrow> pkt_write_bool b pkt; Some (4 + 1, pkt) }"

definition serialize_int :: "32 word \<Rightarrow> Packet \<Rightarrow> (32 word \<times> Packet) option" where
  "serialize_int v pkt =
     do { (_, pkt) \<leftarrow> pkt_write_int 4 pkt; (_, pkt) \<leftarrow> pkt_write_int v pkt; Some (4 + 4, pkt) }"

definition serialize_chars :: "byte list \<Rightarrow> nat \<Rightarrow> Packet \<Rightarrow> (32 word \<times> Packet) option" where
  "serialize_chars str sz pkt =
     (let len = strnlen str sz in
      do { (_, pkt) \<leftarrow> pkt_write_int (of_nat len) pkt;
           (_, pkt) \<leftarrow> pkt_write (take len str) pkt;
           Some (4 + of_nat len, pkt) })"

definition deserialize_bool :: "bool \<Rightarrow> Packet \<Rightarrow> (32 word \<times> bool \<times> Packet) option" where
  "deserialize_bool _ pkt =
     do { (_, len, pkt) \<leftarrow> pkt_read_int pkt; (_, b, pkt) \<leftarrow> pkt_read_bool pkt; Some (4 + len, b, pkt) }"

definition deserialize_int :: "32 word \<Rightarrow> Packet \<Rightarrow> (32 word \<times> 32 word \<times> Packet) option" where
  "deserialize_int _ pkt =
     do { (_, len, pkt) \<leftarrow> pkt_read_int pkt; (_, v, pkt) \<leftarrow> pkt_read_int pkt; Some (4 + len, v, pkt) }"

definition deserialize_chars :: "nat \<Rightarrow> byte list \<Rightarrow> Packet \<Rightarrow> (32 word \<times> byte list \<times> Packet) option" where
  "deserialize_chars sz str pkt =
     do { (_, len, pkt) \<leftarrow> pkt_read_int pkt;
          (_, bs, pkt) \<leftarrow> pkt_read (min (unat (scast len :: 64 word)) sz) pkt;
          Some (4 + len, bs @ drop (length bs) str, pkt) }"

subsection \<open>Encoding\<close>

text \<open>The closure \<open>serializer\<close> after the type of the entry has been written.\<close>

definition encode_entry ::
  "32 word \<Rightarrow> (Packet \<Rightarrow> (32 word \<times> Packet) option) \<Rightarrow> Packet \<times> 32 word
     \<Rightarrow> (ErrCode \<times> Packet \<times> 32 word) option" where
  "encode_entry ty ser = (\<lambda>(enc, tot).
     do { (_, enc) \<leftarrow> pkt_write_int ty enc;
          (res, enc) \<leftarrow> ser enc;
          if 0 < sint res then Some (noError, enc, tot + (4 + res)) else Some (failSerialize, enc, tot) })"

fun encode_entries ::
  "(32 word \<times> (Packet \<Rightarrow> (32 word \<times> Packet) option)) list \<Rightarrow> Packet \<times> 32 word
     \<Rightarrow> (ErrCode \<times> Packet \<times> 32 word) option" where
  "encode_entries [] (enc, tot) = Some (noError, enc, tot)"
| "encode_entries ((ty, ser) # es) (enc, tot) =
     do { (ec, enc, tot) \<leftarrow> encode_entry ty ser (enc, tot);
          if ec \<noteq> noError then Some (ec, enc, tot) else encode_entries es (enc, tot) }"

definition tlv_entries :: "TLVValue \<Rightarrow> (32 word \<times> (Packet \<Rightarrow> (32 word \<times> Packet) option)) list" where
  "tlv_entries val =
     [(0, serialize_bool (stopTag val)),
      (1, serialize_chars (libInfo val) defInfoSize),
      (2, serialize_int (bashShmId val)),
      (3, serialize_int (logShmId val)),
      (4, serialize_int (statusShmId val)),
      (5, serialize_chars (configInfo val) (defInfoSize * 2))]"

text \<open>The result holds the error code, the buffer and the length it is left with.\<close>

definition encodeTLV :: "byte list option \<Rightarrow> nat \<Rightarrow> TLVValue \<Rightarrow> (ErrCode \<times> byte list \<times> nat) option" where
  "encodeTLV buf len val =
     (case buf of None \<Rightarrow> Some (nullBuffer, [], len)
      | Some b \<Rightarrow>
        do { (go, enc) \<leftarrow> pkt_write_int magicNumber (packet_init b len);
             if \<not> go then Some (insufficientLength, mem enc, len) else
             do { (go, enc) \<leftarrow> pkt_write_int 0 enc;
                  if \<not> go then Some (insufficientLength, mem enc, len) else
                  do { (ec, enc, tot) \<leftarrow> encode_entries (tlv_entries val) (enc, 0);
                       if ec \<noteq> noError then Some (ec, mem enc, len) else
                       Some (noError, take 4 (mem enc) @ htonl tot @ drop 8 (mem enc),
                             unat (4 + 4 + scast tot :: 64 word)) } } })"

subsection \<open>Decoding\<close>

text \<open>The closure \<open>deserializer\<close>: it reads one payload into its field and takes the entry off the sum.\<close>

definition decode_payload ::
  "('f \<Rightarrow> Packet \<Rightarrow> (32 word \<times> 'f \<times> Packet) option) \<Rightarrow> 'f \<Rightarrow> ('f \<Rightarrow> TLVValue) \<Rightarrow> Packet \<Rightarrow> 32 word
     \<Rightarrow> (ErrCode \<times> Packet \<times> 32 word \<times> TLVValue) option" where
  "decode_payload des old upd dec tot =
     do { (res, fld, dec) \<leftarrow> des old dec;
          if 0 < sint res then Some (noError, dec, tot - (4 + res), upd fld)
          else Some (failDeserialize, dec, tot, upd fld) }"

definition decode_entry ::
  "Packet \<Rightarrow> 32 word \<Rightarrow> TLVValue \<Rightarrow> (ErrCode \<times> Packet \<times> 32 word \<times> TLVValue) option" where
  "decode_entry dec tot val =
     do { (_, ty, dec) \<leftarrow> pkt_read_int dec;
          if ty = 0 then decode_payload deserialize_bool (stopTag val) (\<lambda>b. val\<lparr>stopTag := b\<rparr>) dec tot
          else if ty = 1 then decode_payload (deserialize_chars defInfoSize) (libInfo val)
            (\<lambda>s. val\<lparr>libInfo := s\<rparr>) dec tot
          else if ty = 2 then decode_payload deserialize_int (bashShmId val) (\<lambda>v. val\<lparr>bashShmId := v\<rparr>) dec tot
          else if ty = 3 then decode_payload deserialize_int (logShmId val) (\<lambda>v. val\<lparr>logShmId := v\<rparr>) dec tot
          else if ty = 4 then decode_payload deserialize_int (statusShmId val) (\<lambda>v. val\<lparr>statusShmId := v\<rparr>) dec tot
          else if ty = 5 then decode_payload (deserialize_chars (defInfoSize * 2)) (configInfo val)
            (\<lambda>s. val\<lparr>configInfo := s\<rparr>) dec tot
          else Some (unknownType, dec, tot, val) }"

text \<open>A read moves the reader forward inside the buffer, so the loop ends.\<close>

definition advances :: "Packet \<Rightarrow> Packet \<Rightarrow> bool" where
  "advances p p' \<longleftrightarrow> mem p' = mem p \<and> reader p \<le> reader p' \<and> (reader p' = reader p \<or> reader p' \<le> length (mem p))"

lemma advances_trans: "advances p q \<Longrightarrow> advances q s \<Longrightarrow> advances p s"
  by (auto simp: advances_def)

lemma pkt_read_advances: "pkt_read n p = Some (go, bs, p') \<Longrightarrow> advances p p'"
  by (auto simp: pkt_read_def Let_def advances_def split: if_splits)

lemma pkt_read_int_advances:
  assumes "pkt_read_int p = Some (go, v, p')"
  shows "advances p p'" "reader p < reader p'"
  using assms by (auto simp: pkt_read_int_def pkt_read_def Let_def advances_def split: if_splits bind_splits)

lemma decode_payload_advances:
  assumes "decode_payload des old upd dec tot = Some (ec, dec', tot', val')"
    and "\<And>res fld d. des old dec = Some (res, fld, d) \<Longrightarrow> advances dec d"
  shows "advances dec dec'"
  using assms by (auto simp: decode_payload_def split: if_splits bind_splits)

lemma deserialize_advances:
  "deserialize_bool b p = Some (res, fld, p') \<Longrightarrow> advances p p'"
  "deserialize_int v p = Some (res, fld', p') \<Longrightarrow> advances p p'"
  "deserialize_chars sz s p = Some (res, fld'', p') \<Longrightarrow> advances p p'"
  by (auto simp: deserialize_bool_def deserialize_int_def deserialize_chars_def pkt_read_bool_def
      split: if_splits bind_splits dest!: pkt_read_int_advances(1) pkt_read_advances)
    (blast intro: advances_trans)+

lemma decode_entry_advances:
  assumes "decode_entry dec tot val = Some (ec, dec', tot', val')"
  shows "advances dec dec'" "reader dec < reader dec'"
proof -
  obtain go ty d where d: "pkt_read_int dec = Some (go, ty, d)"
    using assms by (auto simp: decode_entry_def split: bind_splits)
  have "advances d dec'"
    using assms d
    by (auto simp: decode_entry_def split: if_splits
        elim!: decode_payload_advances dest: deserialize_advances)
       (auto simp: advances_def)
  with pkt_read_int_advances [OF d] show "advances dec dec'" "reader dec < reader dec'"
    by (auto simp: advances_def)
qed

lemma decode_entry_progress:
  assumes "decode_entry dec tot val = Some (ec, dec', tot', val')"
  shows "length (mem dec') - reader dec' < length (mem dec) - reader dec"
  using decode_entry_advances [OF assms] by (auto simp: advances_def)

function tlv_decode_loop :: "Packet \<Rightarrow> 32 word \<Rightarrow> TLVValue \<Rightarrow> (ErrCode \<times> TLVValue) option" where
  "tlv_decode_loop dec tot val =
     (if 0 < sint tot then
        (case decode_entry dec tot val of None \<Rightarrow> None
         | Some (ec, dec', tot', val') \<Rightarrow>
             if ec \<noteq> noError then Some (ec, val') else tlv_decode_loop dec' tot' val')
      else Some (noError, val))"
  by pat_completeness auto
termination
  by (relation "measure (\<lambda>(dec, _, _). length (mem dec) - reader dec)")
     (auto dest: decode_entry_advances simp: advances_def intro!: decode_entry_progress)

declare tlv_decode_loop.simps [simp del]

definition decodeTLV :: "byte list option \<Rightarrow> nat \<Rightarrow> TLVValue \<Rightarrow> (ErrCode \<times> TLVValue) option" where
  "decodeTLV buf len val =
     (case buf of None \<Rightarrow> Some (nullBuffer, val)
      | Some b \<Rightarrow>
        if len = 0 then Some (nullBuffer, val) else
        do { (go, ty, dec) \<leftarrow> pkt_read_int (packet_init b len);
             if \<not> go then Some (insufficientLength, val) else
             do { (go, tot, dec) \<leftarrow> pkt_read_int dec;
                  if \<not> go then Some (insufficientLength, val)
                  else if ty \<noteq> magicNumber then Some (badHeader, val)
                  else tlv_decode_loop dec tot val } })"

subsection \<open>Words of four bytes\<close>

lemma ntohl_htonl [simp]: "ntohl (htonl v) = v"
proof (rule bit_word_eqI)
  fix n
  assume "n < LENGTH(32)"
  then consider "n < 8" | "8 \<le> n" "n < 16" | "16 \<le> n" "n < 24" | "24 \<le> n" "n < 32"
    by fastforce
  then show "bit (ntohl (htonl v)) n = bit v n"
    by cases (auto simp: ntohl_def htonl_def bit_simps)
qed

lemma length_htonl [simp]: "length (htonl v) = 4"
  by (simp add: htonl_def)

lemma sint_of_nat_small: "n < 2 ^ 31 \<Longrightarrow> sint (of_nat n :: 32 word) = int n"
  by (simp add: sint_uint unsigned_of_nat take_bit_nat_eq_self signed_take_bit_int_eq_self)

lemma scast_of_nat_small: "n < 2 ^ 31 \<Longrightarrow> (scast (of_nat n :: 32 word) :: 64 word) = of_nat n"
  using sint_of_nat_small [of n] by (metis of_int_of_nat_eq scast_eq)

lemma unat_of_nat_64: "n < 2 ^ 31 \<Longrightarrow> unat (of_nat n :: 64 word) = n"
  by (simp add: unsigned_of_nat take_bit_nat_eq_self)

subsection \<open>The layout of a packet\<close>

definition cstr :: "nat \<Rightarrow> byte list \<Rightarrow> byte list" where
  "cstr sz s = takeWhile (\<lambda>b. b \<noteq> 0) (take sz s)"

definition entry_bytes :: "32 word \<Rightarrow> byte list \<Rightarrow> byte list" where
  "entry_bytes ty payload = htonl ty @ htonl (of_nat (length payload)) @ payload"

definition tlv_body :: "TLVValue \<Rightarrow> byte list" where
  "tlv_body val =
     entry_bytes 0 [of_bool (stopTag val)] @ entry_bytes 1 (cstr defInfoSize (libInfo val))
     @ entry_bytes 2 (htonl (bashShmId val)) @ entry_bytes 3 (htonl (logShmId val))
     @ entry_bytes 4 (htonl (statusShmId val)) @ entry_bytes 5 (cstr (defInfoSize * 2) (configInfo val))"

definition tlv_bytes :: "TLVValue \<Rightarrow> byte list" where
  "tlv_bytes val = htonl magicNumber @ htonl (of_nat (length (tlv_body val))) @ tlv_body val"

text \<open>The value as C strings: what stands behind the first NUL does not matter.\<close>

definition c_pad :: "nat \<Rightarrow> byte list \<Rightarrow> byte list" where
  "c_pad sz s = cstr sz s @ replicate (sz - length (cstr sz s)) 0"

definition c_value :: "TLVValue \<Rightarrow> TLVValue" where
  "c_value val = val\<lparr>libInfo := c_pad defInfoSize (libInfo val),
                     configInfo := c_pad (defInfoSize * 2) (configInfo val)\<rparr>"

lemma length_cstr: "length (cstr sz s) \<le> sz"
  unfolding cstr_def by (metis length_take length_takeWhile_le min.boundedE)

lemma length_entry [simp]: "length (entry_bytes ty payload) = 8 + length payload"
  by (simp add: entry_bytes_def)

lemma length_tlv_body:
  "length (tlv_body val) = 61 + length (cstr defInfoSize (libInfo val)) + length (cstr (defInfoSize * 2) (configInfo val))"
  by (simp add: tlv_body_def)

lemma length_tlv_body_le: "length (tlv_body val) \<le> 829"
  using length_cstr [of defInfoSize "libInfo val"] length_cstr [of "defInfoSize * 2" "configInfo val"]
  by (simp add: length_tlv_body defInfoSize_def)

lemma length_tlv_bytes: "length (tlv_bytes val) = 8 + length (tlv_body val)"
  by (simp add: tlv_bytes_def)

lemma strnlen_cstr: "strnlen s sz = length (cstr sz s)"
  by (simp add: strnlen_def cstr_def)

lemma take_strnlen: "take (length (cstr sz s)) s = cstr sz s"
proof -
  have "cstr sz s = take (length (cstr sz s)) (take sz s)"
    unfolding cstr_def by (rule takeWhile_eq_take)
  then show ?thesis
    using length_cstr [of sz s] by (metis min.absorb1 take_take)
qed

subsection \<open>Writing\<close>

definition put :: "byte list \<Rightarrow> Packet \<Rightarrow> Packet" where
  "put xs p = p\<lparr>mem := take (writer p) (mem p) @ xs @ drop (writer p + length xs) (mem p),
                writer := writer p + length xs\<rparr>"

lemma put_fields [simp]:
  "writer (put xs p) = writer p + length xs" "tail (put xs p) = tail p"
  "writer p + length xs \<le> length (mem p) \<Longrightarrow> length (mem (put xs p)) = length (mem p)"
  by (simp_all add: put_def)

lemma put_put:
  assumes "writer p + (length xs + length ys) \<le> length (mem p)"
  shows "put ys (put xs p) = put (xs @ ys) p"
  using assms by (simp add: put_def add.commute add.left_commute)

lemma pkt_write_put:
  assumes "writer p + length xs \<le> length (mem p)"
  shows "pkt_write xs p = Some (xs \<noteq> [] \<and> writer p + length xs < tail p, put xs p)"
  using assms by (cases xs) (auto simp: pkt_write_def put_def Let_def)

lemma pkt_write_int_put:
  assumes "writer p + 4 \<le> length (mem p)"
  shows "pkt_write_int v p = Some (writer p + 4 < tail p, put (htonl v) p)"
  using assms by (simp add: pkt_write_int_def pkt_write_put) (simp add: htonl_def)

lemma of_nat_add4: "4 + (of_nat n :: 32 word) = of_nat (4 + n)"
  by simp

lemma encode_entry_put:
  assumes "ser (put (htonl ty) enc) = Some (4 + of_nat (length payload), put (htonl (of_nat (length payload)) @ payload) (put (htonl ty) enc))"
    and "writer enc + (8 + length payload) \<le> length (mem enc)" "length payload \<le> 512"
  shows "encode_entry ty ser (enc, tot)
    = Some (noError, put (entry_bytes ty payload) enc, tot + of_nat (length (entry_bytes ty payload)))"
proof -
  have "0 < sint (of_nat (4 + length payload) :: 32 word)"
    using assms(3) by (subst sint_of_nat_small) auto
  then have "0 < sint (4 + of_nat (length payload) :: 32 word)"
    by simp
  then show ?thesis
    using assms by (simp add: encode_entry_def pkt_write_int_put put_put entry_bytes_def add.assoc)
qed

lemma serialize_bool_put:
  assumes "writer p + 5 \<le> length (mem p)"
  shows "serialize_bool b p = Some (4 + of_nat (length [of_bool b :: byte]), put (htonl (of_nat (length [of_bool b :: byte])) @ [of_bool b]) p)"
  using assms by (simp add: serialize_bool_def pkt_write_int_put pkt_write_bool_def pkt_write_put put_put)

lemma serialize_int_put:
  assumes "writer p + 8 \<le> length (mem p)"
  shows "serialize_int v p = Some (4 + of_nat (length (htonl v)), put (htonl (of_nat (length (htonl v))) @ htonl v) p)"
  using assms by (simp add: serialize_int_def pkt_write_int_put put_put)

lemma serialize_chars_put:
  assumes "writer p + (4 + length (cstr sz s)) \<le> length (mem p)"
  shows "serialize_chars s sz p
    = Some (4 + of_nat (length (cstr sz s)), put (htonl (of_nat (length (cstr sz s))) @ cstr sz s) p)"
  using assms by (simp add: serialize_chars_def strnlen_cstr take_strnlen pkt_write_int_put pkt_write_put put_put Let_def)

definition serves :: "(Packet \<Rightarrow> (32 word \<times> Packet) option) \<Rightarrow> byte list \<Rightarrow> bool" where
  "serves ser payload \<longleftrightarrow> length payload \<le> 512 \<and>
     (\<forall>p. writer p + (4 + length payload) \<le> length (mem p) \<longrightarrow>
       ser p = Some (4 + of_nat (length payload), put (htonl (of_nat (length payload)) @ payload) p))"

lemma serves_instances:
  "serves (serialize_bool b) [of_bool b]"
  "serves (serialize_int v) (htonl v)"
  "sz \<le> 512 \<Longrightarrow> serves (serialize_chars s sz) (cstr sz s)"
  using length_cstr [of sz s]
  by (simp_all only: serves_def) (simp_all add: serialize_bool_put [simplified] serialize_int_put [simplified] serialize_chars_put)

lemma put_Nil [simp]: "put [] p = p"
  by (simp add: put_def)

lemma encode_entries_put:
  assumes "list_all2 (\<lambda>(ty, ser) (ty', payload). ty = ty' \<and> serves ser payload) es ps"
    and "writer enc + length (concat (map (case_prod entry_bytes) ps)) \<le> length (mem enc)"
  shows "encode_entries es (enc, tot) =
    Some (noError, put (concat (map (case_prod entry_bytes) ps)) enc, tot + of_nat (length (concat (map (case_prod entry_bytes) ps))))"
  using assms
proof (induction es ps arbitrary: enc tot rule: list_all2_induct)
  case (Cons e es q ps)
  obtain ty ser payload where e: "e = (ty, ser)" "q = (ty, payload)" and ser: "serves ser payload"
    using Cons.hyps by (cases e; cases q) auto
  have fit: "writer enc + (8 + length payload) \<le> length (mem enc)"
    using Cons.prems e by simp
  have "encode_entry ty ser (enc, tot)
      = Some (noError, put (entry_bytes ty payload) enc, tot + of_nat (length (entry_bytes ty payload)))"
    using ser fit by (intro encode_entry_put) (auto simp: serves_def)
  moreover have "encode_entries es (put (entry_bytes ty payload) enc, tot + of_nat (length (entry_bytes ty payload)))
      = Some (noError, put (concat (map (case_prod entry_bytes) ps)) (put (entry_bytes ty payload) enc),
              tot + of_nat (length (entry_bytes ty payload)) + of_nat (length (concat (map (case_prod entry_bytes) ps))))"
    using Cons.prems e fit by (intro Cons.IH) simp
  ultimately show ?case
    using Cons.prems e by (simp add: put_put algebra_simps)
qed simp

definition tlv_payloads :: "TLVValue \<Rightarrow> (32 word \<times> byte list) list" where
  "tlv_payloads val =
     [(0, [of_bool (stopTag val)]), (1, cstr defInfoSize (libInfo val)), (2, htonl (bashShmId val)),
      (3, htonl (logShmId val)), (4, htonl (statusShmId val)), (5, cstr (defInfoSize * 2) (configInfo val))]"

lemma tlv_body_payloads: "tlv_body val = concat (map (case_prod entry_bytes) (tlv_payloads val))"
  by (simp add: tlv_body_def tlv_payloads_def)

lemma tlv_entries_serve:
  "list_all2 (\<lambda>(ty, ser) (ty', payload). ty = ty' \<and> serves ser payload) (tlv_entries val) (tlv_payloads val)"
  by (simp add: tlv_entries_def tlv_payloads_def serves_instances defInfoSize_def)

lemma encodeTLV_layout:
  assumes "8 < len" "length (tlv_bytes val) \<le> length buf"
  shows "encodeTLV (Some buf) len val
    = Some (noError, tlv_bytes val @ drop (length (tlv_bytes val)) buf, length (tlv_bytes val))"
proof -
  let ?n = "length (tlv_body val)"
  let ?enc = "put (htonl 0) (put (htonl magicNumber) (packet_init buf len))"
  have fit: "8 + ?n \<le> length buf"
    using assms(2) by (simp add: length_tlv_bytes)
  have n: "8 + ?n < 2 ^ 31"
    using length_tlv_body_le [of val] by simp
  have heads: "pkt_write_int magicNumber (packet_init buf len) = Some (True, put (htonl magicNumber) (packet_init buf len))"
    "pkt_write_int 0 (put (htonl magicNumber) (packet_init buf len)) = Some (True, ?enc)"
    using fit assms(1) by (simp_all add: pkt_write_int_put packet_init_def)
  have "encode_entries (tlv_entries val) (?enc, 0) = Some (noError, put (tlv_body val) ?enc, 0 + of_nat ?n)"
    unfolding tlv_body_payloads
    using fit by (intro encode_entries_put tlv_entries_serve)
      (simp add: packet_init_def flip: tlv_body_payloads)
  moreover have "mem (put (tlv_body val) ?enc) = htonl magicNumber @ htonl 0 @ tlv_body val @ drop (8 + ?n) buf"
    using fit by (simp add: put_put packet_init_def) (simp add: put_def)
  moreover have "unat (8 + scast (of_nat ?n :: 32 word) :: 64 word) = 8 + ?n"
    using n unat_of_nat_64 [of "8 + ?n"] scast_of_nat_small [of ?n] by simp
  ultimately show ?thesis
    using heads by (simp add: encodeTLV_def length_tlv_bytes) (simp add: tlv_bytes_def)
qed

subsection \<open>Reading\<close>

definition skip :: "nat \<Rightarrow> Packet \<Rightarrow> Packet" where
  "skip n p = p\<lparr>reader := reader p + n\<rparr>"

definition rest :: "Packet \<Rightarrow> byte list" where
  "rest p = drop (reader p) (mem p)"

lemma rest_skip [simp]: "rest (skip n p) = drop n (rest p)"
  by (simp add: rest_def skip_def add.commute)

lemma skip_fields [simp]:
  "skip 0 p = p" "skip m (skip n p) = skip (n + m) p" "reader (skip n p) = reader p + n" "tail (skip n p) = tail p"
  by (simp_all add: skip_def)

lemma pkt_read_skip:
  assumes "rest p = xs @ ys"
  shows "pkt_read (length xs) p = Some (xs \<noteq> [] \<and> reader p + length xs < tail p, xs, skip (length xs) p)"
proof (cases "xs = []")
  case False
  have "length (rest p) = length xs + length ys"
    using assms by simp
  then have "reader p + length xs \<le> length (mem p)"
    using False by (cases xs) (auto simp: rest_def)
  moreover have "take (length xs) (drop (reader p) (mem p)) = xs"
    using assms by (simp add: rest_def)
  ultimately show ?thesis
    using False by (simp add: pkt_read_def skip_def Let_def)
qed (simp add: pkt_read_def)

lemma pkt_read_int_skip:
  assumes "rest p = htonl v @ ys"
  shows "pkt_read_int p = Some (reader p + 4 < tail p, v, skip 4 p)"
  using pkt_read_skip [OF assms] by (simp add: pkt_read_int_def) (simp add: htonl_def)

lemma deserialize_bool_skip:
  assumes "rest p = htonl n @ [of_bool b] @ ys"
  shows "deserialize_bool old p = Some (4 + n, b, skip 5 p)"
proof -
  have "rest (skip 4 p) = [of_bool b] @ ys"
    using assms by simp
  from pkt_read_skip [OF this] show ?thesis
    using pkt_read_int_skip [OF assms] by (cases b) (simp_all add: deserialize_bool_def pkt_read_bool_def)
qed

lemma deserialize_int_skip:
  assumes "rest p = htonl n @ htonl v @ ys"
  shows "deserialize_int old p = Some (4 + n, v, skip 8 p)"
  using pkt_read_int_skip [OF assms] assms by (simp add: deserialize_int_def pkt_read_int_skip)

lemma deserialize_chars_skip:
  assumes "rest p = htonl (of_nat (length xs)) @ xs @ ys" "length xs \<le> sz" "sz \<le> 512"
  shows "deserialize_chars sz old p = Some (4 + of_nat (length xs), xs @ drop (length xs) old, skip (4 + length xs) p)"
proof -
  have "rest (skip 4 p) = xs @ ys"
    using assms by simp
  from pkt_read_skip [OF this]
  have "pkt_read (length xs) (skip 4 p) = Some (xs \<noteq> [] \<and> reader p + 4 + length xs < tail p, xs, skip (4 + length xs) p)"
    by simp
  moreover have "min (unat (scast (of_nat (length xs) :: 32 word) :: 64 word)) sz = length xs"
    using assms(2,3) by (simp add: scast_of_nat_small unat_of_nat_64)
  ultimately show ?thesis
    using pkt_read_int_skip [OF assms(1)] by (simp add: deserialize_chars_def)
qed

lemma decode_payload_skip:
  assumes "des old dec = Some (4 + of_nat n, fld, dec')" "n \<le> 512"
  shows "decode_payload des old upd dec tot = Some (noError, dec', tot - of_nat (8 + n), upd fld)"
proof -
  have "sint (4 + of_nat n :: 32 word) = int (4 + n)"
    using sint_of_nat_small [of "4 + n"] assms(2) by simp
  then show ?thesis
    using assms by (simp add: decode_payload_def)
qed

lemma tlv_decode_loop_step:
  assumes "decode_entry dec tot val = Some (noError, dec', tot', val')" "0 < sint tot"
  shows "tlv_decode_loop dec tot val = tlv_decode_loop dec' tot' val'"
  using assms by (subst tlv_decode_loop.simps) simp

lemma rest_entry:
  assumes "rest dec = entry_bytes ty payload @ ys"
  shows "pkt_read_int dec = Some (reader dec + 4 < tail dec, ty, skip 4 dec)"
    and "rest (skip 4 dec) = htonl (of_nat (length payload)) @ payload @ ys"
  using assms pkt_read_int_skip [of dec ty] by (simp_all add: entry_bytes_def)

lemmas skip_payload = deserialize_bool_skip deserialize_int_skip deserialize_chars_skip

text \<open>One round of the loop takes one entry off the packet, and its length off the sum.\<close>

definition takes :: "32 word \<Rightarrow> byte list \<Rightarrow> (TLVValue \<Rightarrow> TLVValue) \<Rightarrow> bool" where
  "takes ty payload upd \<longleftrightarrow> length payload \<le> 512 \<and>
     (\<forall>dec ys tot val. rest dec = entry_bytes ty payload @ ys \<longrightarrow>
       decode_entry dec tot val
         = Some (noError, skip (8 + length payload) dec, tot - of_nat (8 + length payload), upd val))"

lemma takes_bool: "takes 0 [of_bool b] (\<lambda>val. val\<lparr>stopTag := b\<rparr>)"
  unfolding takes_def
proof (intro conjI allI impI)
  fix dec ys tot and val :: TLVValue
  assume r: "rest dec = entry_bytes 0 [of_bool b] @ ys"
  have "deserialize_bool (stopTag val) (skip 4 dec) = Some (4 + of_nat 1, b, skip 9 dec)"
    using deserialize_bool_skip [of "skip 4 dec" 1 b ys "stopTag val"] rest_entry(2) [OF r] by simp
  from decode_payload_skip [where des = deserialize_bool, OF this] show "decode_entry dec tot val
    = Some (noError, skip (8 + length [of_bool b :: byte]) dec, tot - of_nat (8 + length [of_bool b :: byte]), val\<lparr>stopTag := b\<rparr>)"
    by (simp add: decode_entry_def rest_entry(1) [OF r])
qed simp

lemma takes_int:
  "takes 2 (htonl v) (\<lambda>val. val\<lparr>bashShmId := v\<rparr>)"
  "takes 3 (htonl v) (\<lambda>val. val\<lparr>logShmId := v\<rparr>)"
  "takes 4 (htonl v) (\<lambda>val. val\<lparr>statusShmId := v\<rparr>)"
proof -
  have d: "deserialize_int old (skip 4 dec) = Some (4 + of_nat 4, v, skip 12 dec)"
    if "rest dec = entry_bytes ty (htonl v) @ ys" for old dec ty ys
    using deserialize_int_skip [of "skip 4 dec" 4 v ys old] rest_entry(2) [OF that] by simp
  show "takes 2 (htonl v) (\<lambda>val. val\<lparr>bashShmId := v\<rparr>)"
    "takes 3 (htonl v) (\<lambda>val. val\<lparr>logShmId := v\<rparr>)"
    "takes 4 (htonl v) (\<lambda>val. val\<lparr>statusShmId := v\<rparr>)"
    unfolding takes_def
    by (auto simp: decode_entry_def rest_entry(1) decode_payload_skip [where des = deserialize_int, OF d, simplified])
qed

lemma takes_chars:
  "length xs \<le> defInfoSize \<Longrightarrow> takes 1 xs (\<lambda>val. val\<lparr>libInfo := xs @ drop (length xs) (libInfo val)\<rparr>)"
  "length xs \<le> defInfoSize * 2 \<Longrightarrow> takes 5 xs (\<lambda>val. val\<lparr>configInfo := xs @ drop (length xs) (configInfo val)\<rparr>)"
proof -
  have d: "deserialize_chars sz old (skip 4 dec)
      = Some (4 + of_nat (length xs), xs @ drop (length xs) old, skip (8 + length xs) dec)"
    if "rest dec = entry_bytes ty xs @ ys" "length xs \<le> sz" "sz \<le> 512" for sz old dec ty ys
    using deserialize_chars_skip [of "skip 4 dec" xs ys sz old] rest_entry(2) [OF that(1)] that by simp
  show "length xs \<le> defInfoSize \<Longrightarrow> takes 1 xs (\<lambda>val. val\<lparr>libInfo := xs @ drop (length xs) (libInfo val)\<rparr>)"
    "length xs \<le> defInfoSize * 2 \<Longrightarrow> takes 5 xs (\<lambda>val. val\<lparr>configInfo := xs @ drop (length xs) (configInfo val)\<rparr>)"
    unfolding takes_def defInfoSize_def
    by (auto simp: decode_entry_def rest_entry(1) decode_payload_skip [where des = "deserialize_chars sz" for sz, OF d] defInfoSize_def)
qed

lemma tlv_decode_loop_take:
  assumes "takes ty payload upd" "rest dec = entry_bytes ty payload @ ys"
    and "length (entry_bytes ty payload @ ys) < 2 ^ 31"
  shows "tlv_decode_loop dec (of_nat (length (entry_bytes ty payload @ ys))) val
    = tlv_decode_loop (skip (8 + length payload) dec) (of_nat (length ys)) (upd val)"
proof (rule tlv_decode_loop_step)
  show "decode_entry dec (of_nat (length (entry_bytes ty payload @ ys))) val
    = Some (noError, skip (8 + length payload) dec, of_nat (length ys), upd val)"
    using assms(1,2) by (auto simp: takes_def)
  show "0 < sint (of_nat (length (entry_bytes ty payload @ ys)) :: 32 word)"
    by (subst sint_of_nat_small [OF assms(3)]) simp
qed

lemma tlv_decode_loop_takes:
  assumes "list_all (\<lambda>(ty, payload, upd). takes ty payload upd) es"
    and "rest dec = concat (map (\<lambda>(ty, payload, _). entry_bytes ty payload) es)"
    and "length (concat (map (\<lambda>(ty, payload, _). entry_bytes ty payload) es)) < 2 ^ 31"
  shows "tlv_decode_loop dec (of_nat (length (concat (map (\<lambda>(ty, payload, _). entry_bytes ty payload) es)))) val
    = Some (noError, fold (\<lambda>(_, _, upd). upd) es val)"
  using assms
proof (induction es arbitrary: dec val)
  case Nil
  then show ?case by (subst tlv_decode_loop.simps) simp
next
  case (Cons e es)
  obtain ty payload upd where e: "e = (ty, payload, upd)"
    by (cases e)
  let ?ys = "concat (map (\<lambda>(ty, payload, _). entry_bytes ty payload) es)"
  have "tlv_decode_loop dec (of_nat (length (entry_bytes ty payload @ ?ys))) val
      = tlv_decode_loop (skip (8 + length payload) dec) (of_nat (length ?ys)) (upd val)"
    using Cons.prems e by (intro tlv_decode_loop_take) auto
  also have "\<dots> = Some (noError, fold (\<lambda>(_, _, upd). upd) es (upd val))"
    using Cons.prems e by (intro Cons.IH) auto
  finally show ?case
    using e by simp
qed

definition tlv_updates :: "TLVValue \<Rightarrow> (32 word \<times> byte list \<times> (TLVValue \<Rightarrow> TLVValue)) list" where
  "tlv_updates v =
     (let lib = cstr defInfoSize (libInfo v); config = cstr (defInfoSize * 2) (configInfo v) in
     [(0, [of_bool (stopTag v)], \<lambda>val. val\<lparr>stopTag := stopTag v\<rparr>),
      (1, lib, \<lambda>val. val\<lparr>libInfo := lib @ drop (length lib) (libInfo val)\<rparr>),
      (2, htonl (bashShmId v), \<lambda>val. val\<lparr>bashShmId := bashShmId v\<rparr>),
      (3, htonl (logShmId v), \<lambda>val. val\<lparr>logShmId := logShmId v\<rparr>),
      (4, htonl (statusShmId v), \<lambda>val. val\<lparr>statusShmId := statusShmId v\<rparr>),
      (5, config, \<lambda>val. val\<lparr>configInfo := config @ drop (length config) (configInfo val)\<rparr>)])"

lemma tlv_updates_take: "list_all (\<lambda>(ty, payload, upd). takes ty payload upd) (tlv_updates v)"
  by (simp add: tlv_updates_def Let_def takes_bool takes_int takes_chars length_cstr)

lemma tlv_body_updates: "tlv_body v = concat (map (\<lambda>(ty, payload, _). entry_bytes ty payload) (tlv_updates v))"
  by (simp add: tlv_body_def tlv_updates_def Let_def)

lemma tlv_updates_default: "fold (\<lambda>(_, _, upd). upd) (tlv_updates v) tlv_default = c_value v"
  by (cases v) (simp add: tlv_updates_def Let_def tlv_default_def c_value_def c_pad_def)

lemma decodeTLV_bytes: "decodeTLV (Some (tlv_bytes v)) (length (tlv_bytes v)) tlv_default = Some (noError, c_value v)"
proof -
  let ?p = "packet_init (tlv_bytes v) (length (tlv_bytes v))"
  have n: "length (tlv_body v) < 2 ^ 31"
    using length_tlv_body_le [of v] by simp
  have r: "rest ?p = htonl magicNumber @ htonl (of_nat (length (tlv_body v))) @ tlv_body v"
    by (simp add: rest_def packet_init_def tlv_bytes_def)
  have body: "0 < length (tlv_body v)"
    by (simp add: length_tlv_body)
  have "pkt_read_int ?p = Some (True, magicNumber, skip 4 ?p)"
    using pkt_read_int_skip [OF r] body by (simp add: packet_init_def length_tlv_bytes)
  moreover have "pkt_read_int (skip 4 ?p) = Some (True, of_nat (length (tlv_body v)), skip 8 ?p)"
    using pkt_read_int_skip [of "skip 4 ?p"] r body by (simp add: packet_init_def length_tlv_bytes)
  moreover have "tlv_decode_loop (skip 8 ?p) (of_nat (length (tlv_body v))) tlv_default = Some (noError, c_value v)"
    unfolding tlv_body_updates tlv_updates_default [symmetric]
    using n r by (intro tlv_decode_loop_takes tlv_updates_take) (simp_all flip: tlv_body_updates)
  ultimately show ?thesis
    using body by (simp add: decodeTLV_def length_tlv_bytes)
qed

subsection \<open>Encoding and decoding are inverse\<close>

text \<open>C13: every value is encoded inside any buffer of at least 837 bytes, whatever it held, and
  decoding the packet gives the value back, its character arrays read as C strings.\<close>

theorem tlv_roundtrip:
  assumes "837 \<le> length buf" "8 < len"
  shows "\<exists>buf' n. encodeTLV (Some buf) len val = Some (noError, buf', n) \<and> length buf' = length buf \<and> n \<le> 837
    \<and> drop n buf' = drop n buf \<and> decodeTLV (Some (take n buf')) n tlv_default = Some (noError, c_value val)"
proof -
  have "length (tlv_bytes val) \<le> 837"
    using length_tlv_body_le [of val] by (simp add: length_tlv_bytes)
  with assms show ?thesis
    by (simp add: encodeTLV_layout decodeTLV_bytes)
qed

theorem tlv_roundtrip_witness:
  "\<exists>buf' n. encodeTLV (Some (replicate 1024 0)) 1024 (tlv_default\<lparr>stopTag := True, logShmId := 7\<rparr>) = Some (noError, buf', n)
    \<and> n \<le> 837
    \<and> decodeTLV (Some (take n buf')) n tlv_default
        = Some (noError, c_value (tlv_default\<lparr>stopTag := True, logShmId := 7\<rparr>))"
  using tlv_roundtrip [of "replicate 1024 0" 1024 "tlv_default\<lparr>stopTag := True, logShmId := 7\<rparr>"] by auto

text \<open>A value whose arrays hold a string and zeros behind it comes back unchanged.\<close>

lemma c_pad_string:
  assumes "0 \<notin> set s" "length s \<le> sz"
  shows "c_pad sz (s @ replicate (sz - length s) 0) = s @ replicate (sz - length s) 0"
proof -
  have "cstr sz (s @ replicate (sz - length s) 0) = s"
    using assms by (cases "sz - length s") (auto simp: cstr_def takeWhile_append takeWhile_eq_all_conv)
  then show ?thesis
    by (simp add: c_pad_def)
qed

subsection \<open>The bounds of the buffer\<close>

definition writes_past :: "(Packet \<Rightarrow> (32 word \<times> Packet) option) \<Rightarrow> byte list \<Rightarrow> bool" where
  "writes_past ser payload \<longleftrightarrow>
     (\<forall>p. writer p \<le> length (mem p) \<longrightarrow> length (mem p) < writer p + (4 + length payload) \<longrightarrow> ser p = None)"

lemma pkt_write_past:
  "writer p \<le> length (mem p) \<Longrightarrow> length (mem p) < writer p + length xs \<Longrightarrow> pkt_write xs p = None"
  by (auto simp: pkt_write_def Let_def)

lemma pkt_write_then:
  assumes "writer p \<le> length (mem p)" "length (mem p) < writer p + (length xs + length ys)"
  shows "do { (_, p) \<leftarrow> pkt_write xs p; (_, p) \<leftarrow> pkt_write ys p; f p } = None"
proof (cases "writer p + length xs \<le> length (mem p)")
  case True
  then show ?thesis
    using assms by (simp add: pkt_write_put pkt_write_past)
next
  case False
  then show ?thesis
    using assms by (simp add: pkt_write_past)
qed

lemma writes_past_instances:
  "writes_past (serialize_bool b) [of_bool b]"
  "writes_past (serialize_int v) (htonl v)"
  "writes_past (serialize_chars s sz) (cstr sz s)"
  unfolding writes_past_def serialize_bool_def serialize_int_def serialize_chars_def
    pkt_write_int_def pkt_write_bool_def strnlen_cstr take_strnlen Let_def
  by (intro allI impI pkt_write_then; simp)+

lemma encode_entry_past:
  assumes "writes_past ser payload" "writer enc \<le> length (mem enc)"
    and "length (mem enc) < writer enc + length (entry_bytes ty payload)"
  shows "encode_entry ty ser (enc, tot) = None"
proof (cases "writer enc + 4 \<le> length (mem enc)")
  case True
  then have "ser (put (htonl ty) enc) = None"
    using assms by (simp add: writes_past_def)
  then show ?thesis
    using True by (simp add: encode_entry_def pkt_write_int_put)
next
  case False
  then have "pkt_write_int ty enc = None"
    using assms(2) by (simp add: pkt_write_int_def pkt_write_past)
  then show ?thesis
    by (simp add: encode_entry_def)
qed

lemma encode_entries_past:
  assumes "list_all2 (\<lambda>(ty, ser) (ty', payload). ty = ty' \<and> serves ser payload \<and> writes_past ser payload) es ps"
    and "writer enc \<le> length (mem enc)"
    and "length (mem enc) < writer enc + length (concat (map (case_prod entry_bytes) ps))"
  shows "encode_entries es (enc, tot) = None"
  using assms
proof (induction es ps arbitrary: enc tot rule: list_all2_induct)
  case (Cons e es q ps)
  obtain ty ser payload where e: "e = (ty, ser)" "q = (ty, payload)"
    and ser: "serves ser payload" "writes_past ser payload"
    using Cons.hyps by (cases e; cases q) auto
  show ?case
  proof (cases "writer enc + (8 + length payload) \<le> length (mem enc)")
    case True
    then have "encode_entry ty ser (enc, tot)
      = Some (noError, put (entry_bytes ty payload) enc, tot + of_nat (length (entry_bytes ty payload)))"
      using ser by (intro encode_entry_put) (auto simp: serves_def)
    moreover have "encode_entries es (put (entry_bytes ty payload) enc, tot + of_nat (length (entry_bytes ty payload))) = None"
      using Cons.prems e True by (intro Cons.IH) auto
    ultimately show ?thesis
      using e by simp
  next
    case False
    then have "encode_entry ty ser (enc, tot) = None"
      using ser Cons.prems by (intro encode_entry_past) auto
    then show ?thesis
      using e by simp
  qed
qed simp

text \<open>Beyond the first eight bytes the encoder never looks at the length it is given: with a
  buffer that the packet does not fit, it writes outside the buffer.\<close>

theorem encodeTLV_overrun:
  assumes "8 < len" "8 \<le> length buf" "length buf < length (tlv_bytes val)"
  shows "encodeTLV (Some buf) len val = None"
proof -
  let ?enc = "put (htonl 0) (put (htonl magicNumber) (packet_init buf len))"
  have "pkt_write_int magicNumber (packet_init buf len) = Some (True, put (htonl magicNumber) (packet_init buf len))"
    "pkt_write_int 0 (put (htonl magicNumber) (packet_init buf len)) = Some (True, ?enc)"
    using assms by (simp_all add: pkt_write_int_put packet_init_def)
  moreover have "encode_entries (tlv_entries val) (?enc, 0) = None"
    using assms
    by (intro encode_entries_past [where ps = "tlv_payloads val"])
       (simp_all add: packet_init_def length_tlv_bytes flip: tlv_body_payloads,
        simp add: tlv_entries_def tlv_payloads_def serves_instances writes_past_instances defInfoSize_def)
  ultimately show ?thesis
    by (simp add: encodeTLV_def)
qed

theorem encodeTLV_overrun_witness: "encodeTLV (Some (replicate 60 0)) 60 tlv_default = None"
  by (rule encodeTLV_overrun) (simp_all add: length_tlv_bytes length_tlv_body)

text \<open>A message of nine to eleven bytes that starts with a valid header and announces any
  positive length makes the decoder read outside the buffer.\<close>

theorem decodeTLV_overread:
  assumes "0 < sint n" "body \<noteq> []" "length body < 4"
  shows "decodeTLV (Some (htonl magicNumber @ htonl n @ body)) (8 + length body) val = None"
proof -
  let ?p = "packet_init (htonl magicNumber @ htonl n @ body) (8 + length body)"
  have r: "rest ?p = htonl magicNumber @ htonl n @ body"
    by (simp add: rest_def packet_init_def)
  have "pkt_read_int ?p = Some (True, magicNumber, skip 4 ?p)"
    using pkt_read_int_skip [OF r] assms by (simp add: packet_init_def)
  moreover have "pkt_read_int (skip 4 ?p) = Some (True, n, skip 8 ?p)"
    using pkt_read_int_skip [of "skip 4 ?p"] r assms by (simp add: packet_init_def)
  moreover have "pkt_read_int (skip 8 ?p) = None"
    using assms(3) by (simp add: pkt_read_int_def pkt_read_def packet_init_def skip_def Let_def)
  ultimately show ?thesis
    using assms(1) by (simp add: decodeTLV_def decode_entry_def) (subst tlv_decode_loop.simps, simp add: decode_entry_def)
qed

theorem decodeTLV_overread_witness: "decodeTLV (Some (htonl magicNumber @ htonl 1 @ [0])) (8 + length [0 :: byte]) tlv_default = None"
  by (rule decodeTLV_overread) simp_all

subsection \<open>The arrays of the value\<close>

definition tlv_wf :: "TLVValue \<Rightarrow> bool" where
  "tlv_wf val \<longleftrightarrow> length (libInfo val) = defInfoSize \<and> length (configInfo val) = defInfoSize * 2"

lemma length_pkt_read: "pkt_read n p = Some (go, bs, p') \<Longrightarrow> length bs = n"
  by (auto simp: pkt_read_def Let_def split: if_splits)

lemma length_deserialize_chars:
  "deserialize_chars sz str p = Some (res, str', p') \<Longrightarrow> length str = sz \<Longrightarrow> length str' = sz"
  by (auto simp: deserialize_chars_def split: bind_splits dest!: length_pkt_read)

lemma decode_payload_field:
  assumes "decode_payload des old upd dec tot = Some (ec, dec', tot', val')"
  obtains res fld d where "des old dec = Some (res, fld, d)" "val' = upd fld"
  using assms by (auto simp: decode_payload_def split: bind_splits if_splits)

lemma decode_entry_wf:
  assumes "decode_entry dec tot val = Some (ec, dec', tot', val')" "tlv_wf val"
  shows "tlv_wf val'"
  using assms
  by (auto simp: decode_entry_def tlv_wf_def split: bind_splits if_splits
      elim!: decode_payload_field)
    (erule length_deserialize_chars, assumption)+

lemma tlv_decode_loop_wf: "tlv_decode_loop dec tot val = Some (ec, val') \<Longrightarrow> tlv_wf val \<Longrightarrow> tlv_wf val'"
proof (induction dec tot val rule: tlv_decode_loop.induct)
  case (1 dec tot val)
  show ?case
  proof (cases "0 < sint tot")
    case True
    with "1.prems" show ?thesis
      by (subst (asm) tlv_decode_loop.simps)
         (auto split: option.splits prod.splits if_splits intro: "1.IH" dest: decode_entry_wf)
  next
    case False
    with "1.prems" show ?thesis
      by (subst (asm) tlv_decode_loop.simps) simp
  qed
qed



end
