(* ===== verification/AP_Shm.thy ===== *)
theory AP_Shm
  imports AP_Tlv UT_Encoding
begin

text \<open>
  The shared memory segments in which the viewer hands over long answers
  (\<open>fillSharedMemory\<close> and \<open>fetchSharedMemory\<close> of src/application/core/source/view.cpp) and the functions of
  src/application/core/source/data.cpp they use.

  The cipher and the compressor are external libraries, so they are arguments: \<open>enc\<close> and \<open>dec\<close>, the
  initialisation, the update in place and the finalisation together, answer whether every call succeeded and the
  buffer they leave; \<open>lz4c\<close> and \<open>lz4d\<close> answer a size and the output buffer. The segments of the system are a map from identifiers to blocks; \<open>shmEnv\<close>
  holds what the system calls answer.
\<close>

subsection \<open>Encryption and compression\<close>

definition encryptMessage :: "(byte list \<Rightarrow> bool \<times> byte list) \<Rightarrow> byte list \<Rightarrow> bool \<times> byte list" where
  "encryptMessage enc buffer =
     (if buffer = [] then (False, buffer) else enc buffer)"

definition decryptMessage :: "(byte list \<Rightarrow> bool \<times> byte list) \<Rightarrow> byte list \<Rightarrow> bool \<times> byte list" where
  "decryptMessage dec buffer =
     (if buffer = [] then (False, buffer) else dec buffer)"

definition compressData :: "(byte list \<Rightarrow> int \<times> byte list) \<Rightarrow> byte list \<Rightarrow> bool \<times> byte list" where
  "compressData lz4c cache =
     (if cache = [] then (False, cache)
      else let (compressedSize, compressed) = lz4c cache in
        if compressedSize < 0 then (False, cache) else (True, take (nat compressedSize) compressed))"

definition decompressedCap :: nat where
  "decompressedCap = 65536 * 10 * 10"

definition decompressData :: "(byte list \<Rightarrow> nat \<Rightarrow> int \<times> byte list) \<Rightarrow> byte list \<Rightarrow> bool \<times> byte list" where
  "decompressData lz4d cache =
     (if cache = [] then (False, cache)
      else let (decompressedSize, decompressed) = lz4d cache decompressedCap in
        if decompressedSize < 0 then (False, cache) else (True, take (nat decompressedSize) decompressed))"

subsection \<open>Segments\<close>

definition shmLimitSize :: nat where
  "shmLimitSize = 65536 * 10"

record ShrMemBlock =
  blk_magic :: "32 word"
  blk_crc32 :: "32 word"
  blk_size :: nat
  blk_data :: "byte list"

record shm =
  segments :: "int \<Rightarrow> ShrMemBlock option"
  tracked :: "int set"

record shmEnv =
  newId :: int
  attachOk :: bool
  mutexOk :: bool

datatype shmError = createFailed | attachFailed | lockFailed | tooLarge | corrupted

definition zero_block :: ShrMemBlock where
  "zero_block = \<lparr>blk_magic = 0, blk_crc32 = 0, blk_size = 0, blk_data = replicate shmLimitSize 0\<rparr>"

definition createShmSegment :: "shmEnv \<Rightarrow> nat \<Rightarrow> shm \<Rightarrow> int \<times> shm" where
  "createShmSegment env sz w =
     (if sz = 0 then (- 1, w)
      else if newId env \<noteq> - 1
      then (newId env, w\<lparr>segments := (segments w)(newId env := Some zero_block), tracked := insert (newId env) (tracked w)\<rparr>)
      else (- 1, w))"

definition removeShmSegment :: "int \<Rightarrow> shm \<Rightarrow> shm" where
  "removeShmSegment i w =
     (if i < 0 then w else w\<lparr>segments := (segments w)(i := None), tracked := tracked w - {i}\<rparr>)"

text \<open>The size of the block in memory is positive; only that matters to \<open>createShmSegment\<close>.\<close>

definition block_bytes :: nat where
  "block_bytes = 128 + shmLimitSize"

definition fillSharedMemory ::
  "(byte list \<Rightarrow> bool \<times> byte list) \<Rightarrow> (byte list \<Rightarrow> int \<times> byte list) \<Rightarrow> shmEnv \<Rightarrow> byte list \<Rightarrow> shm
     \<Rightarrow> (shm \<times> (shmError + int)) option" where
  "fillSharedMemory enc lz4c env contents w =
     (let (shmId, w) = createShmSegment env block_bytes w in
      if shmId = - 1 then Some (w, Inl createFailed)
      else if \<not> attachOk env then Some (removeShmSegment shmId w, Inl attachFailed)
      else if \<not> mutexOk env then Some (removeShmSegment shmId w, Inl lockFailed)
      else
        let processed = snd (compressData lz4c contents) in
        if shmLimitSize < length processed then Some (removeShmSegment shmId w, Inl tooLarge)
        else
          let processed = snd (encryptMessage enc processed);
              stored = processed @ replicate (shmLimitSize - length processed) 0
          in do { crc \<leftarrow> calculateCRC32 (Some stored) (length processed);
                  Some (w\<lparr>segments := (segments w)(shmId := Some
                          \<lparr>blk_magic = magicNumber, blk_crc32 = crc, blk_size = length processed, blk_data = stored\<rparr>)\<rparr>,
                        Inr shmId) })"

definition fetchSharedMemory ::
  "(byte list \<Rightarrow> bool \<times> byte list) \<Rightarrow> (byte list \<Rightarrow> nat \<Rightarrow> int \<times> byte list) \<Rightarrow> bool \<Rightarrow> int \<Rightarrow> shm
     \<Rightarrow> (shm \<times> (shmError + byte list)) option" where
  "fetchSharedMemory dec lz4d attached shmId w =
     (case segments w shmId of
        None \<Rightarrow> Some (removeShmSegment shmId w, Inl attachFailed)
      | Some b \<Rightarrow>
        if \<not> attached then Some (removeShmSegment shmId w, Inl attachFailed)
        else if blk_magic b \<noteq> magicNumber then Some (removeShmSegment shmId w, Inl corrupted)
        else do { crc \<leftarrow> calculateCRC32 (Some (blk_data b)) (blk_size b);
                  if blk_crc32 b \<noteq> crc \<or> blk_size b > shmLimitSize
                  then Some (removeShmSegment shmId w, Inl corrupted)
                  else
                    let processed = take (blk_size b) (blk_data b);
                        processed = snd (decryptMessage dec processed);
                        processed = snd (decompressData lz4d processed)
                    in Some (removeShmSegment shmId w, Inr processed) })"

subsection \<open>What the external libraries promise\<close>

text \<open>The cipher keeps lengths and is inverted by decryption.\<close>

definition cipher_ok :: "(byte list \<Rightarrow> bool \<times> byte list) \<Rightarrow> (byte list \<Rightarrow> bool \<times> byte list) \<Rightarrow> bool" where
  "cipher_ok enc dec \<longleftrightarrow> (\<forall>x. x \<noteq> [] \<longrightarrow> (\<exists>y. enc x = (True, y) \<and> length y = length x \<and> dec y = (True, x)))"

text \<open>Compressing gives a non-empty result; it decompresses to the input when that fits the capacity.\<close>

definition lz4_ok :: "(byte list \<Rightarrow> int \<times> byte list) \<Rightarrow> (byte list \<Rightarrow> nat \<Rightarrow> int \<times> byte list) \<Rightarrow> bool" where
  "lz4_ok lz4c lz4d \<longleftrightarrow>
     (\<forall>x n out. x \<noteq> [] \<longrightarrow> lz4c x = (n, out) \<longrightarrow> 0 < n \<and> nat n \<le> length out
       \<and> (\<forall>cap. length x \<le> cap \<longrightarrow> (\<exists>junk. lz4d (take (nat n) out) cap = (int (length x), x @ junk))))"

lemma cipher_inverse:
  "cipher_ok enc dec \<Longrightarrow> snd (decryptMessage dec (snd (encryptMessage enc x))) = x"
  "cipher_ok enc dec \<Longrightarrow> length (snd (encryptMessage enc x)) = length x"
  by (cases "x = []"; force simp: cipher_ok_def encryptMessage_def decryptMessage_def)+

lemma lz4_inverse:
  assumes "lz4_ok lz4c lz4d" "length x \<le> decompressedCap"
  shows "snd (decompressData lz4d (snd (compressData lz4c x))) = x"
proof (cases "x = []")
  case False
  obtain n out where c: "lz4c x = (n, out)"
    by fastforce
  with assms False obtain junk where "0 < n" "nat n \<le> length out" "lz4d (take (nat n) out) decompressedCap = (int (length x), x @ junk)"
    unfolding lz4_ok_def by blast
  then show ?thesis
    using c False by (cases "take (nat n) out = []") (auto simp: compressData_def decompressData_def)
qed (simp add: compressData_def decompressData_def)

text \<open>The compressor answers 0 for a failure, which \<open>compressData\<close> takes for a success: the data are lost.\<close>

lemma compress_failure_empties: "cache \<noteq> [] \<Longrightarrow> fst (lz4c cache) = 0 \<Longrightarrow> compressData lz4c cache = (True, [])"
  by (simp add: compressData_def split_beta)

subsection \<open>Filling and fetching\<close>

lemma calculateCRC32_defined: "sz \<le> length xs \<Longrightarrow> \<exists>crc. calculateCRC32 (Some xs) sz = Some crc"
  using crc_loop_fold [of 0 sz xs] by (auto simp: calculateCRC32_def)

lemma crc_loop_outside: "i \<le> length xs \<Longrightarrow> length xs < i + n \<Longrightarrow> crc_loop xs i n crc = None"
proof (induction n arbitrary: i crc)
  case (Suc n)
  then show ?case
    by (cases "i < length xs") auto
qed simp

lemma fill_stores:
  assumes "fillSharedMemory enc lz4c env contents w = Some (w', Inr shmId)" "cipher_ok enc dec"
  obtains b where "shmId = newId env" "shmId \<noteq> - 1"
    "w' = w\<lparr>segments := (segments w)(shmId := Some b), tracked := insert shmId (tracked w)\<rparr>"
    "blk_magic b = magicNumber" "blk_size b = length (snd (compressData lz4c contents))"
    "blk_size b \<le> shmLimitSize" "length (blk_data b) = shmLimitSize"
    "take (blk_size b) (blk_data b) = snd (encryptMessage enc (snd (compressData lz4c contents)))"
    "calculateCRC32 (Some (blk_data b)) (blk_size b) = Some (blk_crc32 b)"
proof -
  let ?c = "snd (compressData lz4c contents)"
  let ?e = "snd (encryptMessage enc ?c)"
  let ?stored = "?e @ replicate (shmLimitSize - length ?e) 0"
  have len: "length ?e = length ?c"
    by (rule cipher_inverse(2) [OF assms(2)])
  have ok: "newId env \<noteq> - 1" "attachOk env" "mutexOk env" "length ?c \<le> shmLimitSize"
    using assms(1) by (auto simp: fillSharedMemory_def createShmSegment_def block_bytes_def Let_def split: if_splits)
  then obtain crc where crc: "calculateCRC32 (Some ?stored) (length ?e) = Some crc"
    using calculateCRC32_defined [of "length ?e" ?stored] by auto
  let ?b = "\<lparr>blk_magic = magicNumber, blk_crc32 = crc, blk_size = length ?e, blk_data = ?stored\<rparr>"
  have "w' = w\<lparr>segments := (segments w)(newId env := Some ?b), tracked := insert (newId env) (tracked w)\<rparr>" "shmId = newId env"
    using assms(1) ok crc len by (auto simp: fillSharedMemory_def createShmSegment_def block_bytes_def Let_def)
  then show thesis
    using that [of ?b] ok crc len by simp
qed

lemma fill_fetch:
  assumes "cipher_ok enc dec" "lz4_ok lz4c lz4d" "length contents \<le> decompressedCap"
    and "fillSharedMemory enc lz4c env contents w = Some (w', Inr shmId)"
  shows "fetchSharedMemory dec lz4d True shmId w' = Some (removeShmSegment shmId w', Inr contents)"
proof -
  from fill_stores [OF assms(4,1)] obtain b where
    "w' = w\<lparr>segments := (segments w)(shmId := Some b), tracked := insert shmId (tracked w)\<rparr>"
    "blk_magic b = magicNumber" "blk_size b \<le> shmLimitSize"
    "take (blk_size b) (blk_data b) = snd (encryptMessage enc (snd (compressData lz4c contents)))"
    "calculateCRC32 (Some (blk_data b)) (blk_size b) = Some (blk_crc32 b)"
    by metis
  then show ?thesis
    using lz4_inverse [OF assms(2,3)] by (simp add: fetchSharedMemory_def cipher_inverse [OF assms(1)])
qed

lemma fill_remove:
  assumes "cipher_ok enc dec" "fillSharedMemory enc lz4c env contents w = Some (w', Inr shmId)" "0 \<le> shmId"
  shows "removeShmSegment shmId w' = w\<lparr>segments := (segments w)(shmId := None), tracked := tracked w - {shmId}\<rparr>"
proof -
  from fill_stores [OF assms(2,1)] obtain b where
    "w' = w\<lparr>segments := (segments w)(shmId := Some b), tracked := insert shmId (tracked w)\<rparr>"
    by metis
  then show ?thesis
    using assms(3) by (simp add: removeShmSegment_def insert_Diff_if)
qed

text \<open>C9: what is filled into a segment is fetched from it unchanged, whatever bytes it holds, and fetching gives the
  segment back to the system; contents longer than what the decompressor has room for are excluded.\<close>

theorem shm_roundtrip:
  assumes "cipher_ok enc dec" "lz4_ok lz4c lz4d" "length contents \<le> decompressedCap"
    and "fillSharedMemory enc lz4c env contents w = Some (w', Inr shmId)" "0 \<le> shmId"
  shows "fetchSharedMemory dec lz4d True shmId w'
    = Some (w\<lparr>segments := (segments w)(shmId := None), tracked := tracked w - {shmId}\<rparr>, Inr contents)"
  using fill_fetch [OF assms(1-4)] fill_remove [OF assms(1,4,5)] by simp

text \<open>Filling succeeds when the system gives the segment and the compressed contents fit.\<close>

lemma fill_succeeds:
  assumes "cipher_ok enc dec" "newId env \<noteq> - 1" "attachOk env" "mutexOk env"
    and "length (snd (compressData lz4c contents)) \<le> shmLimitSize"
  shows "\<exists>w'. fillSharedMemory enc lz4c env contents w = Some (w', Inr (newId env))"
proof -
  let ?e = "snd (encryptMessage enc (snd (compressData lz4c contents)))"
  obtain crc where "calculateCRC32 (Some (?e @ replicate (shmLimitSize - length ?e) 0)) (length ?e) = Some crc"
    using calculateCRC32_defined [of "length ?e" "?e @ replicate (shmLimitSize - length ?e) 0"] by auto
  then show ?thesis
    using assms by (simp add: fillSharedMemory_def createShmSegment_def block_bytes_def Let_def)
qed

text \<open>A cipher that changes nothing and a compressor that copies satisfy the promises.\<close>

lemma plain_cipher_ok: "cipher_ok (Pair True) (Pair True)"
  by (simp add: cipher_ok_def)

definition copy_compress :: "byte list \<Rightarrow> int \<times> byte list" where
  "copy_compress x = (int (length x), x)"

definition copy_decompress :: "byte list \<Rightarrow> nat \<Rightarrow> int \<times> byte list" where
  "copy_decompress y cap = (if length y \<le> cap then (int (length y), y) else (- 1, []))"

lemma copy_ok: "lz4_ok copy_compress copy_decompress"
  by (auto simp: lz4_ok_def copy_compress_def copy_decompress_def)

theorem shm_roundtrip_witness:
  "\<exists>w'. fillSharedMemory (Pair True) copy_compress \<lparr>newId = 7, attachOk = True, mutexOk = True\<rparr> [65, 66]
          \<lparr>segments = (\<lambda>_. None), tracked = {}\<rparr> = Some (w', Inr 7)
      \<and> fetchSharedMemory (Pair True) copy_decompress True 7 w'
          = Some (\<lparr>segments = (\<lambda>_. None), tracked = {}\<rparr>, Inr [65, 66])"
proof -
  let ?w = "\<lparr>segments = (\<lambda>_. None), tracked = {}\<rparr>"
  let ?env = "\<lparr>newId = 7, attachOk = True, mutexOk = True\<rparr>"
  obtain w' where "fillSharedMemory (Pair True) copy_compress ?env [65, 66] ?w = Some (w', Inr 7)"
    using fill_succeeds [OF plain_cipher_ok, of ?env copy_compress "[65, 66]" ?w]
    by (auto simp: compressData_def copy_compress_def shmLimitSize_def)
  then show ?thesis
    using shm_roundtrip [OF plain_cipher_ok copy_ok, of "[65, 66]" ?env ?w w' 7]
    by (auto simp: decompressedCap_def fun_upd_def)
qed

text \<open>Contents that the decompressor has no room for come back compressed, and no error is reported.\<close>

lemma shm_large_contents:
  assumes "cipher_ok enc dec" "fillSharedMemory enc lz4c env contents w = Some (w', Inr shmId)"
    and "fst (lz4d (snd (compressData lz4c contents)) decompressedCap) < 0"
  shows "\<exists>w''. fetchSharedMemory dec lz4d True shmId w' = Some (w'', Inr (snd (compressData lz4c contents)))"
proof -
  from fill_stores [OF assms(2,1)] obtain b where b: "shmId = newId env" "shmId \<noteq> - 1"
    "w' = w\<lparr>segments := (segments w)(shmId := Some b), tracked := insert shmId (tracked w)\<rparr>"
    "blk_magic b = magicNumber" "blk_size b \<le> shmLimitSize"
    "take (blk_size b) (blk_data b) = snd (encryptMessage enc (snd (compressData lz4c contents)))"
    "calculateCRC32 (Some (blk_data b)) (blk_size b) = Some (blk_crc32 b)"
    by metis
  then show ?thesis
    using assms(3) by (simp add: fetchSharedMemory_def cipher_inverse [OF assms(1)] decompressData_def split_beta Let_def)
qed

text \<open>The checksum is computed before the size is checked: a block whose size is beyond its data is read
  outside of it.\<close>

lemma fetch_reads_outside:
  assumes "segments w shmId = Some b" "blk_magic b = magicNumber"
    and "length (blk_data b) = shmLimitSize" "shmLimitSize < blk_size b"
  shows "fetchSharedMemory dec lz4d True shmId w = None"
  using assms crc_loop_outside [of 0 "blk_data b" "blk_size b"]
  by (auto simp: fetchSharedMemory_def calculateCRC32_def)

end
