(* ===== verification/UT_Io.thy ===== *)
theory UT_Io
  imports Foo_Prelude "HOL-Library.Monad_Syntax"
begin

text \<open>
  The line oriented functions of src/utility/source/io.cpp: \<open>readFileLines\<close> and \<open>waitForUserInput\<close>. A stream is the list of its
  characters, of any type with a character that ends lines; what the user types is a list of lines, and the
  system calls of \<open>epoll\<close> succeed.
\<close>

subsection \<open>Lines\<close>

text \<open>What repeated calls of \<open>std::getline\<close> deliver.\<close>

lemma next_line_shorter: "xs \<noteq> [] \<Longrightarrow> length (dropWhile P xs) - 1 < length xs"
  using length_dropWhile_le [of P xs] by (cases xs) (simp_all add: less_Suc_eq_le le_diff_conv)

function getlines :: "'a \<Rightarrow> 'a list \<Rightarrow> 'a list list" where
  "getlines nl xs =
     (if xs = [] then [] else takeWhile (\<lambda>b. b \<noteq> nl) xs # getlines nl (drop 1 (dropWhile (\<lambda>b. b \<noteq> nl) xs)))"
  by auto
termination
  by (relation "measure (length \<circ> snd)") (auto simp del: One_nat_def intro: next_line_shorter)

declare getlines.simps [simp del]

lemma getlines_line: "nl \<notin> set l \<Longrightarrow> getlines nl (l @ nl # xs) = l # getlines nl xs"
  by (subst getlines.simps) (simp add: takeWhile_append dropWhile_append takeWhile_eq_all_conv)

lemma getlines_last: "nl \<notin> set l \<Longrightarrow> getlines nl l = (if l = [] then [] else [l])"
proof -
  assume "nl \<notin> set l"
  then have "takeWhile (\<lambda>b. b \<noteq> nl) l = l" "dropWhile (\<lambda>b. b \<noteq> nl) l = []"
    by (auto simp: takeWhile_eq_all_conv)
  then have "getlines nl l = (if l = [] then [] else l # getlines nl [])"
    by (subst getlines.simps) (simp only: drop_Nil)
  then show ?thesis
    by (simp add: getlines.simps [of nl "[]"])
qed

text \<open>Lines that are written one by one are read back.\<close>

lemma getlines_written: "\<forall>l\<in>set ls. nl \<notin> set l \<Longrightarrow> getlines nl (concat (map (\<lambda>l. l @ [nl]) ls)) = ls"
  by (induction ls) (simp_all add: getlines_line getlines_last)

subsection \<open>Reading a file\<close>

text \<open>The loop that reads forwards and the one that keeps the last lines in a queue.\<close>

fun read_forward :: "int \<Rightarrow> 'a list list \<Rightarrow> 'a list list \<Rightarrow> 'a list list" where
  "read_forward limit [] contents = contents"
| "read_forward limit (line # lines) contents =
     (if limit \<ge> 0 \<and> int (length contents) = limit then contents else read_forward limit lines (contents @ [line]))"

fun read_last :: "int \<Rightarrow> 'a list list \<Rightarrow> 'a list list \<Rightarrow> 'a list list" where
  "read_last limit [] buffer = buffer"
| "read_last limit (line # lines) buffer =
     (let buffer = buffer @ [line] in
      read_last limit lines (if limit \<ge> 0 \<and> int (length buffer) > limit then drop 1 buffer else buffer))"

definition readFileLines :: "'a \<Rightarrow> 'a list \<Rightarrow> bool \<Rightarrow> int \<Rightarrow> 'a list list" where
  "readFileLines nl stream reversed limit =
     (if \<not> reversed then read_forward limit (getlines nl stream) [] else rev (read_last limit (getlines nl stream) []))"

lemma read_forward_take:
  assumes "limit \<ge> 0 \<Longrightarrow> int (length contents) \<le> limit"
  shows "read_forward limit lines contents
    = contents @ (if limit \<ge> 0 then take (nat limit - length contents) lines else lines)"
  using assms
proof (induction lines arbitrary: contents)
  case (Cons line lines)
  show ?case
  proof (cases "limit \<ge> 0 \<and> int (length contents) = limit")
    case False
    then have room: "length contents < nat limit" if "limit \<ge> 0"
      using Cons.prems that by linarith
    then have "take (nat limit - length contents) (line # lines) = line # take (nat limit - length (contents @ [line])) lines"
      if "limit \<ge> 0"
      using that by (simp add: take_Cons' flip: Suc_diff_Suc)
    moreover have "int (length (contents @ [line])) \<le> limit" if "limit \<ge> 0"
      using room [OF that] by simp
    note Cons.IH [OF this]
    moreover have "read_forward limit (line # lines) contents = read_forward limit lines (contents @ [line])"
      using False by auto
    ultimately show ?thesis
      by (cases "limit \<ge> 0") simp_all
  qed auto
qed simp

lemma read_last_drop:
  assumes "limit \<ge> 0 \<Longrightarrow> int (length buffer) \<le> limit"
  shows "read_last limit lines buffer
    = (if limit \<ge> 0 then drop (length buffer + length lines - nat limit) (buffer @ lines) else buffer @ lines)"
  using assms
proof (induction lines arbitrary: buffer)
  case (Cons line lines)
  show ?case
  proof (cases "limit \<ge> 0 \<and> int (length (buffer @ [line])) > limit")
    case True
    then have full: "length buffer = nat limit" "limit \<ge> 0"
      using Cons.prems by auto
    let ?b = "drop 1 (buffer @ [line])"
    have "length ?b = nat limit"
      using full by simp
    then have "read_last limit lines ?b = drop (length lines) (?b @ lines)"
      using Cons.IH [of ?b] full(2) by (simp only: simp_thms if_True) simp
    then have "read_last limit (line # lines) buffer = drop (length lines) (?b @ lines)"
      using True by (simp only: read_last.simps Let_def if_True simp_thms)
    also have "\<dots> = drop (Suc (length lines)) (buffer @ line # lines)"
      by (cases buffer) auto
    finally show ?thesis
      using full by simp
  next
    case False
    then have "limit \<ge> 0 \<Longrightarrow> int (length (buffer @ [line])) \<le> limit"
      by auto
    note Cons.IH [OF this]
    moreover have "read_last limit (line # lines) buffer = read_last limit lines (buffer @ [line])"
      using False by (auto simp: Let_def)
    ultimately show ?thesis
      by simp
  qed
next
  case Nil
  then have "limit \<ge> 0 \<Longrightarrow> length buffer - nat limit = 0"
    by linarith
  then show ?case
    by simp
qed

text \<open>
  Reading a file by lines. Forwards, it gives the lines from the first on, up to the limit; backwards, the same number of
  lines from the last on, the last one first. A negative limit is none.
\<close>

theorem readFileLines_limit:
  "readFileLines nl stream False limit = (let ls = getlines nl stream in if limit \<ge> 0 then take (nat limit) ls else ls)"
  "readFileLines nl stream True limit = (let ls = rev (getlines nl stream) in if limit \<ge> 0 then take (nat limit) ls else ls)"
  by (simp_all add: readFileLines_def read_forward_take read_last_drop take_rev)

subsection \<open>Waiting for the user\<close>

text \<open>
  The loop calls \<open>operation\<close> on each line until it says that the wait is over. When nothing more is typed it returns
  after the timeout, and waits for ever if there is none.
\<close>

fun waitForUserInput :: "('i \<Rightarrow> 's \<Rightarrow> 's \<times> bool) \<Rightarrow> int \<Rightarrow> 'i list \<Rightarrow> 's \<Rightarrow> ('s \<times> 'i list) option" where
  "waitForUserInput operation timeout [] s = (if timeout \<ge> 0 then Some (s, []) else None)"
| "waitForUserInput operation timeout (inp # typed) s =
     (let (s, over) = operation inp s in
      if over then Some (s, typed) else waitForUserInput operation timeout typed s)"

text \<open>What every call of the operation keeps holds after the wait.\<close>

lemma wait_invariant:
  assumes "waitForUserInput operation timeout typed s = Some (s', left)" "P s"
    and "\<And>inp s s' over. inp \<in> set typed \<Longrightarrow> operation inp s = (s', over) \<Longrightarrow> P s \<Longrightarrow> P s'"
  shows "P s'" "\<exists>used. typed = used @ left"
proof -
  have "P s' \<and> (\<exists>used. typed = used @ left)"
    using assms
  proof (induction typed arbitrary: s)
    case (Cons inp typed)
    obtain s1 over where op: "operation inp s = (s1, over)"
      by fastforce
    then have s1: "P s1"
      using Cons.prems by auto
    show ?case
    proof (cases over)
      case True
      then show ?thesis
        using Cons.prems(1) op s1 by (auto intro: exI [of _ "[inp]"])
    next
      case False
      then have "waitForUserInput operation timeout typed s1 = Some (s', left)"
        using Cons.prems(1) op by simp
      then show ?thesis
        using Cons.IH s1 Cons.prems(3) by (metis append_Cons list.set_intros(2))
    qed
  qed (simp split: if_splits)
  then show "P s'" "\<exists>used. typed = used @ left"
    by auto
qed

lemma wait_over:
  "snd (operation inp s) \<Longrightarrow> waitForUserInput operation timeout (inp # typed) s = Some (fst (operation inp s), typed)"
  by (simp add: split_beta)

end
