(* ===== verification/AP_Message.thy ===== *)
theory AP_Message
  imports AP_Shm UT_Json_Load UT_Io
begin

text \<open>
  The requests and answers of the viewer in src/application/core/source/view.cpp: what the client sends
  (\<open>onForwarding\<close>), what the servers do with it (the handlers of \<open>renewServer\<close>: \<open>validateRequest\<close>, \<open>extractOption\<close>,
  \<open>buildResponse\<close>, the packets) and what the client does with the answer (\<open>parseTLVMessage\<close>, \<open>printShmContent\<close> and the pager
  \<open>segmentedOutput\<close>).

  Strings are lists of bytes. What comes from outside is in the record \<open>viewEnv\<close>: the cipher and the compressor, the answers
  of the system calls, the output of a shell command, the text of the log and the status report, each
  \<^term>\<open>None\<close> when getting it throws. Handlers answer \<^term>\<open>None\<close> where the program has undefined behaviour or does not
  return, and the error inside otherwise. What the user types at a prompt is a list of lines.
\<close>

subsection \<open>Strings\<close>

definition chars_of :: "byte list \<Rightarrow> string" where
  "chars_of bs = map (\<lambda>b. char_of (unat b)) bs"

definition messagePrefix :: "byte list" where
  "messagePrefix = bytes_of ''foo > ''"

definition exitSymbol :: "byte list" where
  "exitSymbol = bytes_of ''stop''"

text \<open>The folds that put one space between the tokens.\<close>

definition join_step :: "byte list \<Rightarrow> byte list \<Rightarrow> byte list" where
  "join_step token acc = (if acc = [] then token else acc @ 32 # token)"

definition join_tokens :: "byte list list \<Rightarrow> byte list" where
  "join_tokens ts = fold join_step ts []"

definition is_blank :: "byte \<Rightarrow> bool" where
  "is_blank b \<longleftrightarrow> b = 32 \<or> b = 9 \<or> b = 10 \<or> b = 11 \<or> b = 12 \<or> b = 13"

text \<open>The tokens an \<open>istream_iterator\<close> delivers; \<open>cur\<close> is the token being read.\<close>

fun read_tokens :: "byte list \<Rightarrow> byte list \<Rightarrow> byte list list" where
  "read_tokens cur [] = (if cur = [] then [] else [cur])"
| "read_tokens cur (c # cs) =
     (if is_blank c then (if cur = [] then read_tokens [] cs else cur # read_tokens [] cs)
      else read_tokens (cur @ [c]) cs)"

subsection \<open>Requests\<close>

definition onForwarding :: "byte list list \<Rightarrow> byte list" where
  "onForwarding inputs = base64Encode (messagePrefix @ join_tokens inputs)"

definition buildDisconnectRequest :: "byte list" where
  "buildDisconnectRequest = base64Encode (messagePrefix @ exitSymbol)"

datatype OptionType = OptBase | OptDepend | OptExecute "byte list list" | OptJournal | OptMonitor "byte list list" | OptProfile

datatype viewError = badEncoding | unknownRequest | badArguments | noContents | shmFailure shmError | packetFailure ErrCode
  | unprocessed

definition validateRequest :: "byte list \<Rightarrow> viewError + byte list" where
  "validateRequest message =
     (case base64Decode message of
        Inl _ \<Rightarrow> Inl badEncoding
      | Inr reqBuffer \<Rightarrow>
          if take (length messagePrefix) reqBuffer = messagePrefix then Inr (drop (length messagePrefix) reqBuffer)
          else Inl unknownRequest)"

definition extractOption :: "byte list \<Rightarrow> OptionType" where
  "extractOption reqPlaintext =
     (case read_tokens [] reqPlaintext of
        [] \<Rightarrow> OptBase
      | optName # args \<Rightarrow>
          (let h = hash_of optName in
           if h = literal_hash ''depend'' then OptDepend
           else if h = literal_hash ''execute'' then OptExecute args
           else if h = literal_hash ''journal'' then OptJournal
           else if h = literal_hash ''monitor'' then OptMonitor args
           else if h = literal_hash ''profile'' then OptProfile
           else OptBase))"

subsection \<open>Answers\<close>

record 'f viewEnv =
  cipher_enc :: "byte list \<Rightarrow> bool \<times> byte list"
  cipher_dec :: "byte list \<Rightarrow> bool \<times> byte list"
  lz_comp :: "byte list \<Rightarrow> int \<times> byte list"
  lz_decomp :: "byte list \<Rightarrow> nat \<Rightarrow> int \<times> byte list"
  sysCalls :: shmEnv
  attaches :: bool
  extLibraries :: "byte list"
  executeCommand :: "byte list \<Rightarrow> byte list option"
  logContextPreview :: "byte list option"
  statusReportPreview :: "nat \<Rightarrow> byte list option"
  float_ops :: "'f floatOps"
  dataRepo :: "'f json"

text \<open>\<open>encryptMessage(buffer.data(), used)\<close> changes the first \<open>used\<close> bytes of the buffer.\<close>

definition seal :: "'f viewEnv \<Rightarrow> nat \<Rightarrow> byte list \<Rightarrow> byte list" where
  "seal env used buffer = snd (encryptMessage (cipher_enc env) (take used buffer)) @ drop used buffer"

text \<open>\<open>strncpy\<close> into an array of \<open>sz\<close> characters, the last of which is cleared.\<close>

definition copy_text :: "nat \<Rightarrow> byte list \<Rightarrow> byte list" where
  "copy_text sz s = (let c = takeWhile (\<lambda>b. b \<noteq> 0) (take (sz - 1) s) in c @ replicate (sz - length c) 0)"

type_synonym reply = "(shm \<times> byte list \<times> (viewError + nat)) option"

text \<open>The encoding common to the packets; \<open>undo\<close> is what a failure does to the segments.\<close>

definition encode_packet :: "'f viewEnv \<Rightarrow> TLVValue \<Rightarrow> (shm \<Rightarrow> shm) \<Rightarrow> byte list \<Rightarrow> shm \<Rightarrow> reply" where
  "encode_packet env val undo buffer w =
     do { (ec, buffer, used) \<leftarrow> encodeTLV (Some buffer) (length buffer) val;
          if ec \<noteq> noError then Some (undo w, buffer, Inl (packetFailure ec))
          else Some (w, seal env used buffer, Inr used) }"

text \<open>The part common to the packets that name a segment: \<open>field\<close> sets the identifier.\<close>

definition segment_packet ::
  "'f viewEnv \<Rightarrow> (32 word \<Rightarrow> TLVValue) \<Rightarrow> byte list option \<Rightarrow> byte list \<Rightarrow> shm \<Rightarrow> reply" where
  "segment_packet env field contents buffer w =
     (case contents of
        None \<Rightarrow> Some (w, buffer, Inl noContents)
      | Some c \<Rightarrow>
          do { (w, res) \<leftarrow> fillSharedMemory (cipher_enc env) (lz_comp env) (sysCalls env) c w;
               case res of
                 Inl e \<Rightarrow> Some (w, buffer, Inl (shmFailure e))
               | Inr shmId \<Rightarrow> encode_packet env (field (word_of_int shmId)) (removeShmSegment shmId) buffer w })"

definition buildCustomTLVPacket_depend :: "'f viewEnv \<Rightarrow> byte list \<Rightarrow> shm \<Rightarrow> reply" where
  "buildCustomTLVPacket_depend env =
     encode_packet env (tlv_default\<lparr>libInfo := copy_text defInfoSize (extLibraries env)\<rparr>) id"

definition find_first_not_of :: "byte \<Rightarrow> byte list \<Rightarrow> nat option" where
  "find_first_not_of q s = find (\<lambda>i. s ! i \<noteq> q) [0..<length s]"

definition find_last_not_of :: "byte \<Rightarrow> byte list \<Rightarrow> nat option" where
  "find_last_not_of q s = find (\<lambda>i. s ! i \<noteq> q) (rev [0..<length s])"

text \<open>For the empty string \<open>length() - 1\<close> is \<open>npos\<close>.\<close>

definition not_quoted :: "byte \<Rightarrow> byte list \<Rightarrow> bool" where
  "not_quoted q cmd \<longleftrightarrow>
     find_first_not_of q cmd = Some 0 \<or> find_last_not_of q cmd = (if cmd = [] then None else Some (length cmd - 1))"

definition buildCustomTLVPacket_execute :: "'f viewEnv \<Rightarrow> byte list list \<Rightarrow> byte list \<Rightarrow> shm \<Rightarrow> reply" where
  "buildCustomTLVPacket_execute env args buffer w =
     (let cmd = join_tokens args in
      if not_quoted 39 cmd \<and> not_quoted 34 cmd then Some (w, buffer, Inl badArguments)
      else segment_packet env (\<lambda>i. tlv_default\<lparr>bashShmId := i\<rparr>)
             (executeCommand env (bytes_of ''/bin/bash -c '' @ cmd)) buffer w)"

definition buildCustomTLVPacket_journal :: "'f viewEnv \<Rightarrow> byte list \<Rightarrow> shm \<Rightarrow> reply" where
  "buildCustomTLVPacket_journal env =
     segment_packet env (\<lambda>i. tlv_default\<lparr>logShmId := i\<rparr>) (logContextPreview env)"

text \<open>A single digit is what reaches \<open>std::stoul\<close>.\<close>

definition buildCustomTLVPacket_monitor :: "'f viewEnv \<Rightarrow> byte list list \<Rightarrow> byte list \<Rightarrow> shm \<Rightarrow> reply" where
  "buildCustomTLVPacket_monitor env args buffer w =
     (if args \<noteq> [] \<and> (length (hd args) \<noteq> 1 \<or> \<not> (48 \<le> hd (hd args) \<and> hd (hd args) \<le> 57))
      then Some (w, buffer, Inl badArguments)
      else segment_packet env (\<lambda>i. tlv_default\<lparr>statusShmId := i\<rparr>)
             (statusReportPreview env (if args = [] then 0 else unat (hd (hd args)) - 48)) buffer w)"

definition buildCustomTLVPacket_profile :: "'f viewEnv \<Rightarrow> byte list \<Rightarrow> shm \<Rightarrow> reply" where
  "buildCustomTLVPacket_profile env buffer w =
     do { res \<leftarrow> asUnescapedString (float_ops env) (dataRepo env);
          case res of
            Inl _ \<Rightarrow> Some (w, buffer, Inl noContents)
          | Inr s \<Rightarrow> encode_packet env (tlv_default\<lparr>configInfo := copy_text (defInfoSize * 2) (bytes_of s)\<rparr>) id buffer w }"

definition buildResponse :: "'f viewEnv \<Rightarrow> byte list \<Rightarrow> byte list \<Rightarrow> shm \<Rightarrow> reply" where
  "buildResponse env reqPlaintext respBuffer w =
     (case extractOption reqPlaintext of
        OptDepend \<Rightarrow> buildCustomTLVPacket_depend env respBuffer w
      | OptExecute args \<Rightarrow> buildCustomTLVPacket_execute env args respBuffer w
      | OptJournal \<Rightarrow> buildCustomTLVPacket_journal env respBuffer w
      | OptMonitor args \<Rightarrow> buildCustomTLVPacket_monitor env args respBuffer w
      | OptProfile \<Rightarrow> buildCustomTLVPacket_profile env respBuffer w
      | OptBase \<Rightarrow> Some (w, respBuffer, Inl unprocessed))"

text \<open>The two packets whose error code is ignored.\<close>

definition plain_packet :: "'f viewEnv \<Rightarrow> TLVValue \<Rightarrow> byte list \<Rightarrow> (byte list \<times> nat) option" where
  "plain_packet env val buffer =
     do { (_, buffer, used) \<leftarrow> encodeTLV (Some buffer) (length buffer) val; Some (seal env used buffer, used) }"

definition buildAckTLVPacket :: "'f viewEnv \<Rightarrow> byte list \<Rightarrow> (byte list \<times> nat) option" where
  "buildAckTLVPacket env = plain_packet env tlv_default"

definition buildFinTLVPacket :: "'f viewEnv \<Rightarrow> byte list \<Rightarrow> (byte list \<times> nat) option" where
  "buildFinTLVPacket env = plain_packet env (tlv_default\<lparr>stopTag := True\<rparr>)"

text \<open>The handlers that \<open>renewServer\<close> subscribes, the same for both servers: what is sent for a message.\<close>

definition bufferSize :: nat where
  "bufferSize = 1024"

definition acknowledge :: "'f viewEnv \<Rightarrow> byte list \<Rightarrow> shm \<Rightarrow> (shm \<times> byte list option) option" where
  "acknowledge env respBuffer w =
     do { (respBuffer, used) \<leftarrow> buildAckTLVPacket env respBuffer; Some (w, Some (take used respBuffer)) }"

definition onMessage :: "'f viewEnv \<Rightarrow> byte list \<Rightarrow> shm \<Rightarrow> (shm \<times> byte list option) option" where
  "onMessage env message w =
     (if message = [] then Some (w, None)
      else
        let respBuffer = replicate bufferSize 0 in
        case validateRequest message of
          Inl _ \<Rightarrow> acknowledge env respBuffer w
        | Inr reqPlaintext \<Rightarrow>
            if reqPlaintext \<noteq> exitSymbol then
              do { (w, respBuffer, res) \<leftarrow> buildResponse env reqPlaintext respBuffer w;
                   case res of
                     Inl _ \<Rightarrow> acknowledge env respBuffer w
                   | Inr used \<Rightarrow> Some (w, Some (take used respBuffer)) }
            else
              do { (respBuffer, used) \<leftarrow> buildFinTLVPacket env respBuffer;
                   Some (w, Some (take used respBuffer)) })"

subsection \<open>The pager\<close>

datatype screen = Line "byte list" | Prompt | ClearPrompt | ResetStyle | EndLine | Shown "byte list" | ShownConfig string

record pager =
  moreRows :: bool
  forcedCancel :: bool
  withoutPaging :: bool
  counter_rows :: nat

definition terminalRows :: nat where
  "terminalRows = 24"

text \<open>The closure \<open>handling\<close>, on what has been printed and the state.\<close>

definition handling :: "byte list \<Rightarrow> screen list \<times> pager \<Rightarrow> (screen list \<times> pager) \<times> bool" where
  "handling inp s =
     (let (out, p) = s; out = out @ [ClearPrompt] in
      if inp = [] then ((out, p\<lparr>moreRows := True, counter_rows := 0\<rparr>), True)
      else
        let p = p\<lparr>moreRows := False\<rparr>; h = hash_of inp in
        if h = literal_hash ''c'' then ((out, p\<lparr>withoutPaging := True\<rparr>), True)
        else if h = literal_hash ''n'' then ((out, p\<lparr>counter_rows := 0\<rparr>), True)
        else if h = literal_hash ''q'' then ((out, p\<lparr>forcedCancel := True\<rparr>), True)
        else ((out @ [Prompt], p), False))"

fun page_loop :: "byte list list \<Rightarrow> byte list list \<Rightarrow> pager \<Rightarrow> (screen list \<times> byte list list) option" where
  "page_loop [] typed p = Some ([], typed)"
| "page_loop (line # lines) typed p =
     (if forcedCancel p then Some ([], typed)
      else
        let p = p\<lparr>counter_rows := counter_rows p + 1\<rparr> in
        if \<not> withoutPaging p \<and> (moreRows p \<or> counter_rows p = terminalRows) then
          do { ((out, p), typed) \<leftarrow> waitForUserInput handling (- 1) typed ([Line line, Prompt], p);
               (out', typed) \<leftarrow> page_loop lines typed p;
               Some (out @ out', typed) }
        else do { (out, typed) \<leftarrow> page_loop lines typed p; Some (Line line # out, typed) })"

definition segmentedOutput :: "byte list list \<Rightarrow> byte list \<Rightarrow> (screen list \<times> byte list list) option" where
  "segmentedOutput typed cache =
     (let lineNum = count_list cache 10 in
      do { (out, typed) \<leftarrow> page_loop (getlines 10 cache) typed
             \<lparr>moreRows = False, forcedCancel = False, withoutPaging = lineNum \<le> terminalRows, counter_rows = 0\<rparr>;
           Some (out @ [ResetStyle] @ (if terminalRows < lineNum then [EndLine] else []), typed) })"

subsection \<open>The client\<close>

text \<open>The state of the client while it handles an answer; \<open>thrown\<close> says that an exception is on its way.\<close>

record client =
  memory :: shm
  display :: "screen list"
  pending :: "byte list list"
  thrown :: bool
  stopped :: bool

definition printShmContent :: "'f viewEnv \<Rightarrow> 32 word \<Rightarrow> bool \<Rightarrow> client \<Rightarrow> client option" where
  "printShmContent env shmId plain s =
     do { (w, res) \<leftarrow> fetchSharedMemory (cipher_dec env) (lz_decomp env) (attaches env) (sint shmId) (memory s);
          case res of
            Inl _ \<Rightarrow> Some (s\<lparr>memory := w, thrown := True\<rparr>)
          | Inr contents \<Rightarrow>
              if \<not> plain then
                do { (out, typed) \<leftarrow> segmentedOutput (pending s) contents;
                     Some (s\<lparr>memory := w, display := display s @ out, pending := typed\<rparr>) }
              else Some (s\<lparr>memory := w,
                 display := display s @ map Line (getlines 10 (takeWhile (\<lambda>b. b \<noteq> 0) contents)) @ [ResetStyle]\<rparr>) }"

definition show_segment :: "'f viewEnv \<Rightarrow> 32 word \<Rightarrow> bool \<Rightarrow> client \<Rightarrow> client option" where
  "show_segment env shmId plain s =
     (if thrown s \<or> shmId = invalidShmId then Some s else printShmContent env shmId plain s)"

definition show_config :: "'f viewEnv \<Rightarrow> nat \<Rightarrow> byte list \<Rightarrow> client \<Rightarrow> client option" where
  "show_config env n info s =
     (let len = strnlen info (defInfoSize * 2) in
      if thrown s \<or> len = 0 \<or> len = defInfoSize * 2 then Some s
      else do { res \<leftarrow> andThen (load (float_ops env) n (chars_of (take len info))) (dump (float_ops env) 1 ''  '');
                case res of
                  Inl _ \<Rightarrow> Some (s\<lparr>thrown := True\<rparr>)
                | Inr v \<Rightarrow> Some (s\<lparr>display := display s @ [ShownConfig v]\<rparr>) })"

definition show_libraries :: "byte list \<Rightarrow> client \<Rightarrow> client" where
  "show_libraries info s =
     (let len = strnlen info defInfoSize in
      if len \<noteq> 0 \<and> len < defInfoSize then s\<lparr>display := display s @ [Shown (take len info)]\<rparr> else s)"

text \<open>\<open>established\<close> says whether the viewer is in that state, \<open>n\<close> bounds the parser of the configuration.\<close>

definition parseTLVMessage :: "'f viewEnv \<Rightarrow> nat \<Rightarrow> bool \<Rightarrow> byte list \<Rightarrow> client \<Rightarrow> client option" where
  "parseTLVMessage env n established bytes s =
     (if stopped s \<or> bytes = [] then Some s
      else
        let bytes = snd (decryptMessage (cipher_dec env) bytes); s = s\<lparr>thrown := False\<rparr> in
        do { (ec, val) \<leftarrow> decodeTLV (Some bytes) (length bytes) tlv_default;
             if ec \<noteq> noError then Some (s\<lparr>thrown := True\<rparr>)
             else
               do { s \<leftarrow> show_segment env (bashShmId val) True (show_libraries (libInfo val) s);
                    s \<leftarrow> show_segment env (logShmId val) (\<not> established) s;
                    s \<leftarrow> show_segment env (statusShmId val) True s;
                    s \<leftarrow> show_config env n (configInfo val) s;
                    Some (if \<not> thrown s \<and> stopTag val then s\<lparr>stopped := True\<rparr> else s) } })"

subsection \<open>Tokens\<close>

definition clean :: "byte list list \<Rightarrow> bool" where
  "clean ts \<longleftrightarrow> (\<forall>t\<in>set ts. t \<noteq> [] \<and> (\<forall>b\<in>set t. \<not> is_blank b))"

lemma read_tokens_word: "(\<forall>b\<in>set t. \<not> is_blank b) \<Longrightarrow> read_tokens cur (t @ cs) = read_tokens (cur @ t) cs"
  by (induction t arbitrary: cur) auto

lemma join_fold: "acc \<noteq> [] \<Longrightarrow> fold join_step ts acc = acc @ concat (map (Cons 32) ts)"
  by (induction ts arbitrary: acc) (auto simp: join_step_def)

lemma read_joined:
  assumes "clean ts" "cur \<noteq> []"
  shows "read_tokens cur (concat (map (Cons 32) ts)) = cur # ts"
  using assms
proof (induction ts arbitrary: cur)
  case (Cons t ts)
  then have "t \<noteq> []" "\<forall>b\<in>set t. \<not> is_blank b" "clean ts"
    by (auto simp: clean_def)
  with Cons show ?case
    by (simp add: is_blank_def [of 32] read_tokens_word)
qed simp

text \<open>The tokens the client joins are those the server reads.\<close>

lemma read_tokens_join: "clean ts \<Longrightarrow> read_tokens [] (join_tokens ts) = ts"
proof (cases ts)
  case (Cons t us)
  assume "clean ts"
  then have "t \<noteq> []" "\<forall>b\<in>set t. \<not> is_blank b" "clean us"
    by (auto simp: clean_def Cons)
  then show ?thesis
    by (simp add: Cons join_tokens_def join_step_def [of _ "[]"] join_fold read_tokens_word read_joined)
qed (simp add: join_tokens_def)

lemma validate_request: "validateRequest (base64Encode (messagePrefix @ req)) = Inr req"
  by (simp add: validateRequest_def base64_decode_encode)

lemma encode_nonempty: "data \<noteq> [] \<Longrightarrow> base64Encode data \<noteq> []"
  using base64_decode_encode [of data] base64_decode_encode [of "[]"] by (auto simp: base64Encode_groups)

subsection \<open>Packets\<close>

lemma encodeTLV_buffer:
  assumes "length buffer = bufferSize"
  shows "encodeTLV (Some buffer) (length buffer) val
    = Some (noError, tlv_bytes val @ drop (length (tlv_bytes val)) buffer, length (tlv_bytes val))"
  using assms length_tlv_body_le [of val] by (intro encodeTLV_layout) (simp_all add: bufferSize_def length_tlv_bytes)

lemma seal_bytes:
  assumes "cipher_ok (cipher_enc env) (cipher_dec env)"
  shows "take (length xs) (seal env (length xs) (xs @ ys)) = snd (encryptMessage (cipher_enc env) xs)"
  using cipher_inverse(2) [OF assms, of xs] by (simp add: seal_def)

text \<open>The bytes that are sent for a value.\<close>

definition packet_of :: "'f viewEnv \<Rightarrow> TLVValue \<Rightarrow> byte list" where
  "packet_of env val = snd (encryptMessage (cipher_enc env) (tlv_bytes val))"

lemma packet_nonempty: "cipher_ok (cipher_enc env) (cipher_dec env) \<Longrightarrow> packet_of env val \<noteq> []"
  using cipher_inverse(2) [of "cipher_enc env" "cipher_dec env" "tlv_bytes val"]
  by (auto simp: packet_of_def length_tlv_bytes simp flip: length_0_conv)

lemma encode_packet_sends:
  assumes "cipher_ok (cipher_enc env) (cipher_dec env)" "length buffer = bufferSize"
  shows "\<exists>buffer' used. encode_packet env val undo buffer w = Some (w, buffer', Inr used) \<and> take used buffer' = packet_of env val"
  by (simp add: encode_packet_def encodeTLV_buffer [OF assms(2)] seal_bytes [OF assms(1)] packet_of_def)

lemma plain_packet_sends:
  assumes "cipher_ok (cipher_enc env) (cipher_dec env)" "length buffer = bufferSize"
  shows "\<exists>buffer' used. plain_packet env val buffer = Some (buffer', used) \<and> take used buffer' = packet_of env val"
  by (simp add: plain_packet_def encodeTLV_buffer [OF assms(2)] seal_bytes [OF assms(1)] packet_of_def)

lemma acknowledge_sends:
  assumes "cipher_ok (cipher_enc env) (cipher_dec env)" "length buffer = bufferSize"
  shows "acknowledge env buffer w = Some (w, Some (packet_of env tlv_default))"
  using plain_packet_sends [OF assms, of tlv_default] by (auto simp: acknowledge_def buildAckTLVPacket_def)

text \<open>The client reads the value that was sent.\<close>

lemma decode_packet:
  assumes "cipher_ok (cipher_enc env) (cipher_dec env)"
  shows "decodeTLV (Some (snd (decryptMessage (cipher_dec env) (packet_of env val))))
           (length (snd (decryptMessage (cipher_dec env) (packet_of env val)))) tlv_default = Some (noError, c_value val)"
  using cipher_inverse(1) [OF assms] by (simp add: packet_of_def decodeTLV_bytes)

subsection \<open>What the client shows\<close>

lemma strnlen_c_pad: "strnlen (c_pad sz s) sz = length (cstr sz s)"
proof -
  have "\<forall>b\<in>set (cstr sz s). b \<noteq> 0"
    unfolding cstr_def by (blast dest: set_takeWhileD)
  then have "takeWhile (\<lambda>b. b \<noteq> 0) (cstr sz s @ replicate m 0) = cstr sz s" for m
    by (subst takeWhile_append2) (simp_all add: takeWhile_replicate)
  then show ?thesis
    using length_cstr [of sz s] by (simp add: strnlen_def c_pad_def)
qed

lemma cstr_zeros [simp]: "cstr sz (replicate m 0) = []"
  by (simp add: cstr_def takeWhile_replicate)

text \<open>A segment is printed, through the pager or line by line.\<close>

definition printed :: "bool \<Rightarrow> byte list list \<Rightarrow> byte list \<Rightarrow> (screen list \<times> byte list list) option" where
  "printed paged typed contents =
     (if paged then segmentedOutput typed contents
      else Some (map Line (getlines 10 (takeWhile (\<lambda>b. b \<noteq> 0) contents)) @ [ResetStyle], typed))"

lemma parse_packet:
  assumes "cipher_ok (cipher_enc env) (cipher_dec env)" "\<not> stopped s"
  shows "parseTLVMessage env n established (packet_of env val) s =
     do { s \<leftarrow> show_segment env (bashShmId val) True
                 (show_libraries (c_pad defInfoSize (libInfo val)) (s\<lparr>thrown := False\<rparr>));
          s \<leftarrow> show_segment env (logShmId val) (\<not> established) s;
          s \<leftarrow> show_segment env (statusShmId val) True s;
          s \<leftarrow> show_config env n (c_pad (defInfoSize * 2) (configInfo val)) s;
          Some (if \<not> thrown s \<and> stopTag val then s\<lparr>stopped := True\<rparr> else s) }"
  using assms packet_nonempty [OF assms(1), of val] decode_packet [OF assms(1), of val]
  by (simp add: parseTLVMessage_def c_value_def)

lemma show_nothing [simp]:
  "show_libraries (c_pad defInfoSize (replicate m 0)) s = s"
  "show_config env n (c_pad (defInfoSize * 2) (replicate m 0)) s = Some s"
  "show_segment env invalidShmId plain s = Some s"
  using strnlen_c_pad [of "2 * defInfoSize" "replicate m 0"]
  by (simp_all add: show_libraries_def show_config_def show_segment_def strnlen_c_pad mult.commute)

lemma show_segment_prints:
  assumes "fetchSharedMemory (cipher_dec env) (lz_decomp env) (attaches env) (sint shmId) (memory s) = Some (w, Inr contents)"
    and "shmId \<noteq> invalidShmId" "\<not> thrown s"
  shows "show_segment env shmId (\<not> paged) s =
    (case printed paged (pending s) contents of None \<Rightarrow> None
     | Some (out, typed) \<Rightarrow> Some (s\<lparr>memory := w, display := display s @ out, pending := typed\<rparr>))"
  using assms by (simp add: show_segment_def printShmContent_def printed_def split: bind_splits option.splits)

subsection \<open>A request and its answer\<close>

text \<open>The system gives segments, and the cipher and the compressor keep their promises.\<close>

definition view_ok :: "'f viewEnv \<Rightarrow> bool" where
  "view_ok env \<longleftrightarrow> cipher_ok (cipher_enc env) (cipher_dec env) \<and> lz4_ok (lz_comp env) (lz_decomp env)
     \<and> 0 \<le> newId (sysCalls env) \<and> newId (sysCalls env) < 2 ^ 31
     \<and> attachOk (sysCalls env) \<and> mutexOk (sysCalls env) \<and> attaches env"

definition fits :: "'f viewEnv \<Rightarrow> byte list \<Rightarrow> bool" where
  "fits env c \<longleftrightarrow> length c \<le> decompressedCap \<and> length (snd (compressData (lz_comp env) c)) \<le> shmLimitSize"

lemma view_okD:
  assumes "view_ok env"
  shows "cipher_ok (cipher_enc env) (cipher_dec env)" "sint (word_of_int (newId (sysCalls env)) :: 32 word) = newId (sysCalls env)"
    "(word_of_int (newId (sysCalls env)) :: 32 word) \<noteq> invalidShmId"
proof -
  show s: "sint (word_of_int (newId (sysCalls env)) :: 32 word) = newId (sysCalls env)"
    using assms sint_of_nat_small [of "nat (newId (sysCalls env))"] by (auto simp: view_ok_def)
  have "sint invalidShmId = - 1"
    by (simp add: invalidShmId_def)
  then show "(word_of_int (newId (sysCalls env)) :: 32 word) \<noteq> invalidShmId"
    using s assms by (auto simp: view_ok_def)
qed (use assms in \<open>simp add: view_ok_def\<close>)

text \<open>The contents an option asks for, and whether they go through the pager.\<close>

definition answer_text :: "'f viewEnv \<Rightarrow> OptionType \<Rightarrow> byte list option" where
  "answer_text env opt =
     (case opt of
        OptExecute args \<Rightarrow>
          (if not_quoted 39 (join_tokens args) \<and> not_quoted 34 (join_tokens args) then None
           else executeCommand env (bytes_of ''/bin/bash -c '' @ join_tokens args))
      | OptJournal \<Rightarrow> logContextPreview env
      | OptMonitor args \<Rightarrow>
          (case args of [] \<Rightarrow> statusReportPreview env 0
           | a # _ \<Rightarrow> (case a of [d] \<Rightarrow> if 48 \<le> d \<and> d \<le> 57 then statusReportPreview env (unat d - 48) else None | _ \<Rightarrow> None))
      | _ \<Rightarrow> None)"

definition answer_paged :: "bool \<Rightarrow> OptionType \<Rightarrow> bool" where
  "answer_paged established opt \<longleftrightarrow> established \<and> opt = OptJournal"

definition answer_value :: "OptionType \<Rightarrow> 32 word \<Rightarrow> TLVValue" where
  "answer_value opt i =
     (case opt of OptExecute _ \<Rightarrow> tlv_default\<lparr>bashShmId := i\<rparr>
      | OptJournal \<Rightarrow> tlv_default\<lparr>logShmId := i\<rparr> | _ \<Rightarrow> tlv_default\<lparr>statusShmId := i\<rparr>)"

lemma response_is_segment:
  assumes "answer_text env (extractOption req) = Some c"
  shows "buildResponse env req buffer w = segment_packet env (answer_value (extractOption req)) (Some c) buffer w"
  using assms
  by (auto simp: buildResponse_def answer_text_def answer_value_def [abs_def] buildCustomTLVPacket_execute_def
      buildCustomTLVPacket_journal_def buildCustomTLVPacket_monitor_def split: OptionType.splits if_splits list.splits)

lemma segment_packet_sends:
  assumes "view_ok env" "fits env c" "length buffer = bufferSize"
  defines "i \<equiv> newId (sysCalls env)"
  shows "\<exists>w' buffer' used. segment_packet env field (Some c) buffer w = Some (w', buffer', Inr used)
    \<and> take used buffer' = packet_of env (field (word_of_int i))
    \<and> fetchSharedMemory (cipher_dec env) (lz_decomp env) (attaches env) i w'
      = Some (w\<lparr>segments := (segments w)(i := None), tracked := tracked w - {i}\<rparr>, Inr c)"
proof -
  obtain w' where fill: "fillSharedMemory (cipher_enc env) (lz_comp env) (sysCalls env) c w = Some (w', Inr i)"
    using fill_succeeds [of "cipher_enc env" "cipher_dec env" "sysCalls env" "lz_comp env" c w] assms
    by (auto simp: view_ok_def fits_def)
  moreover obtain buffer' used where
    "encode_packet env (field (word_of_int i)) (removeShmSegment i) buffer w' = Some (w', buffer', Inr used)"
    "take used buffer' = packet_of env (field (word_of_int i))"
    using encode_packet_sends [OF view_okD(1) [OF assms(1)] assms(3)] by blast
  moreover have "fetchSharedMemory (cipher_dec env) (lz_decomp env) True i w' = Some (removeShmSegment i w', Inr c)"
    using fill_fetch [OF _ _ _ fill] assms by (simp add: view_ok_def fits_def)
  moreover have "removeShmSegment i w' = w\<lparr>segments := (segments w)(i := None), tracked := tracked w - {i}\<rparr>"
    using fill_remove [OF view_okD(1) [OF assms(1)] fill] assms by (simp add: view_ok_def)
  ultimately show ?thesis
    using assms by (simp add: segment_packet_def view_ok_def)
qed

lemma exit_is_no_option: "extractOption exitSymbol = OptBase"
  by code_simp

lemma parse_answer:
  assumes "view_ok env" "answer_text env opt = Some c" "\<not> stopped s"
    and "fetchSharedMemory (cipher_dec env) (lz_decomp env) (attaches env) (newId (sysCalls env)) (memory s) = Some (w, Inr c)"
  shows "parseTLVMessage env n established (packet_of env (answer_value opt (word_of_int (newId (sysCalls env))))) s =
    (case printed (answer_paged established opt) (pending s) c of None \<Rightarrow> None
     | Some (out, typed) \<Rightarrow> Some (s\<lparr>memory := w, display := display s @ out, pending := typed, thrown := False\<rparr>))"
proof -
  let ?i = "word_of_int (newId (sysCalls env)) :: 32 word"
  let ?s = "s\<lparr>thrown := False\<rparr>"
  have seg: "show_segment env ?i (\<not> paged) ?s =
    (case printed paged (pending s) c of None \<Rightarrow> None
     | Some (out, typed) \<Rightarrow> Some (s\<lparr>memory := w, display := display s @ out, pending := typed, thrown := False\<rparr>))" for paged
    using show_segment_prints [of env ?i ?s w c paged] assms(4) view_okD [OF assms(1)]
    by (simp split: option.splits)
  consider args where "opt = OptExecute args" | "opt = OptJournal" | args where "opt = OptMonitor args"
    using assms(2) by (auto simp: answer_text_def split: OptionType.splits)
  then show ?thesis
    using seg [of False] seg [of established]
    by cases (simp_all add: parse_packet [OF view_okD(1) [OF assms(1)] assms(3)] answer_value_def tlv_default_def
        answer_paged_def split: option.splits)
qed


text \<open>Leaving. The request to disconnect makes the server answer with the stop tag, and the client stops.\<close>

theorem view_disconnect:
  assumes "cipher_ok (cipher_enc env) (cipher_dec env)" "\<not> stopped s"
  shows "\<exists>bytes. onMessage env buildDisconnectRequest w = Some (w, Some bytes)
    \<and> parseTLVMessage env n established bytes s = Some (s\<lparr>thrown := False, stopped := True\<rparr>)"
proof -
  let ?v = "tlv_default\<lparr>stopTag := True\<rparr>"
  obtain buffer used where "plain_packet env ?v (replicate bufferSize 0) = Some (buffer, used)" "take used buffer = packet_of env ?v"
    using plain_packet_sends [OF assms(1), of "replicate bufferSize 0" ?v] by auto
  moreover have "buildDisconnectRequest \<noteq> []"
    unfolding buildDisconnectRequest_def by (rule encode_nonempty) (simp add: messagePrefix_def bytes_of_def)
  ultimately have "onMessage env buildDisconnectRequest w = Some (w, Some (packet_of env ?v))"
    by (simp add: onMessage_def) (simp add: buildDisconnectRequest_def validate_request buildFinTLVPacket_def)
  moreover have "parseTLVMessage env n established (packet_of env ?v) s = Some (s\<lparr>thrown := False, stopped := True\<rparr>)"
    by (simp add: parse_packet [OF assms] tlv_default_def)
  ultimately show ?thesis
    by blast
qed

subsection \<open>The server always answers\<close>

lemma fill_returns:
  assumes "cipher_ok enc dec" "- 1 \<le> newId sys"
  shows "\<exists>w' res. fillSharedMemory enc lz4c sys c w = Some (w', res)
    \<and> (case res of Inl _ \<Rightarrow> tracked w' \<subseteq> tracked w | Inr i \<Rightarrow> i = newId sys)"
proof (cases "newId sys \<noteq> - 1 \<and> attachOk sys \<and> mutexOk sys \<and> length (snd (compressData lz4c c)) \<le> shmLimitSize")
  case True
  then show ?thesis
    using fill_succeeds [OF assms(1), of sys lz4c c w] by auto
next
  case False
  then show ?thesis
    using assms(2)
    by (auto simp: fillSharedMemory_def createShmSegment_def block_bytes_def removeShmSegment_def Let_def)
qed

lemma andThen_defined: "m \<noteq> None \<Longrightarrow> (\<And>x. k x \<noteq> None) \<Longrightarrow> andThen m k \<noteq> None"
  by (auto simp: andThen_def split: sum.splits)

lemma dumpMinified_defined:
  "dumpMinified ops v \<noteq> None" "minify_members ops b ms \<noteq> None" "minify_elements ops b vs \<noteq> None"
  by (induction ops v and ops b ms and ops b vs rule: dumpMinified_minify_members_minify_elements.induct)
     (auto simp: ret_def toRoundTripString_def throw_def andThen_def split: option.splits sum.splits)

text \<open>What an answer leaves behind: nothing new, or the segment that its value names.\<close>

definition good_reply :: "'f viewEnv \<Rightarrow> shm \<Rightarrow> reply \<Rightarrow> bool" where
  "good_reply env w r \<longleftrightarrow>
     (\<exists>w' buffer res. r = Some (w', buffer, res)
        \<and> (case res of
             Inl _ \<Rightarrow> tracked w' \<subseteq> tracked w \<and> length buffer = bufferSize
           | Inr used \<Rightarrow> \<exists>val. take used buffer = packet_of env val
               \<and> (tracked w' \<subseteq> tracked w \<or> (\<exists>opt. val = answer_value opt (word_of_int (newId (sysCalls env)))))))"

definition server_ok :: "'f viewEnv \<Rightarrow> bool" where
  "server_ok env \<longleftrightarrow> cipher_ok (cipher_enc env) (cipher_dec env) \<and> - 1 \<le> newId (sysCalls env)"

lemma good_encode:
  assumes "server_ok env" "length buffer = bufferSize"
    and "tracked w \<subseteq> tracked w0 \<or> (\<exists>opt. val = answer_value opt (word_of_int (newId (sysCalls env))))"
  shows "good_reply env w0 (encode_packet env val undo buffer w)"
  using encode_packet_sends [of env buffer val undo w] assms by (fastforce simp: good_reply_def server_ok_def)

lemma good_error:
  "length buffer = bufferSize \<Longrightarrow> tracked w \<subseteq> tracked w0 \<Longrightarrow> good_reply env w0 (Some (w, buffer, Inl e))"
  by (simp add: good_reply_def)

lemma good_segment:
  assumes "server_ok env" "length buffer = bufferSize"
    and "\<And>i. \<exists>opt. field i = answer_value opt i"
  shows "good_reply env w (segment_packet env field contents buffer w)"
proof (cases contents)
  case (Some c)
  obtain w' res where
    "fillSharedMemory (cipher_enc env) (lz_comp env) (sysCalls env) c w = Some (w', res)"
    "case res of Inl _ \<Rightarrow> tracked w' \<subseteq> tracked w | Inr i \<Rightarrow> i = newId (sysCalls env)"
    using fill_returns [of "cipher_enc env" "cipher_dec env" "sysCalls env" "lz_comp env" c w] assms(1)
    by (auto simp: server_ok_def)
  then show ?thesis
    using Some assms by (auto simp: segment_packet_def good_error good_encode split: sum.splits)
qed (simp add: segment_packet_def good_error assms)

lemma good_response:
  assumes "server_ok env" "length buffer = bufferSize"
  shows "good_reply env w (buildResponse env req buffer w)"
proof -
  have field: "\<exists>opt. tlv_default\<lparr>bashShmId := i\<rparr> = answer_value opt i" "\<exists>opt. tlv_default\<lparr>logShmId := i\<rparr> = answer_value opt i"
    "\<exists>opt. tlv_default\<lparr>statusShmId := i\<rparr> = answer_value opt i" for i
    by (rule exI [of _ "OptExecute []"], simp add: answer_value_def)
       (rule exI [of _ OptJournal], simp add: answer_value_def, rule exI [of _ OptBase], simp add: answer_value_def)
  obtain r where "asUnescapedString (float_ops env) (dataRepo env) = Some r"
    using dumpMinified_defined(1) [of "float_ops env" "dataRepo env"]
    by (cases "dataRepo env") (auto simp: asUnescapedString_def ret_def)
  then show ?thesis
    using assms field
    by (auto simp: buildResponse_def buildCustomTLVPacket_depend_def buildCustomTLVPacket_execute_def
        buildCustomTLVPacket_journal_def buildCustomTLVPacket_monitor_def buildCustomTLVPacket_profile_def Let_def
        good_error good_encode good_segment split: OptionType.splits sum.splits)
qed


definition example_env :: "int viewEnv" where
  "example_env =
     \<lparr>cipher_enc = Pair True, cipher_dec = Pair True, lz_comp = copy_compress, lz_decomp = copy_decompress,
      sysCalls = \<lparr>newId = 7, attachOk = True, mutexOk = True\<rparr>, attaches = True, extLibraries = [],
      executeCommand = (\<lambda>_. None), logContextPreview = Some [97, 10, 98], statusReportPreview = (\<lambda>_. None),
      float_ops = integer_ops, dataRepo = Null\<rparr>"

definition example_client :: "client" where
  "example_client = \<lparr>memory = \<lparr>segments = (\<lambda>_. None), tracked = {}\<rparr>, display = [], pending = [], thrown = False, stopped = False\<rparr>"

lemma example_ok: "view_ok example_env" "server_ok example_env" "fits example_env [97, 10, 98]"
  using plain_cipher_ok copy_ok
  by (simp_all add: view_ok_def server_ok_def fits_def example_env_def compressData_def copy_compress_def
      decompressedCap_def shmLimitSize_def)

lemma example_journal: "extractOption (join_tokens [bytes_of ''journal'']) = OptJournal" "clean [bytes_of ''journal'']"
  by code_simp+

lemma example_printed: "printed True [] [97, 10, 98] = Some ([Line [97], Line [98], ResetStyle], [])"
  by (simp add: printed_def segmentedOutput_def terminalRows_def getlines.simps Let_def)


theorem view_disconnect_witness:
  "\<exists>bytes. onMessage example_env buildDisconnectRequest (memory example_client) = Some (memory example_client, Some bytes)
    \<and> parseTLVMessage example_env 0 True bytes example_client = Some (example_client\<lparr>stopped := True\<rparr>)"
  using view_disconnect [of example_env example_client "memory example_client" 0 True] plain_cipher_ok
  by (simp add: example_env_def example_client_def)


subsection \<open>The pager\<close>

fun shown_lines :: "screen list \<Rightarrow> byte list list" where
  "shown_lines [] = []"
| "shown_lines (x # xs) = (case x of Line l \<Rightarrow> l # shown_lines xs | _ \<Rightarrow> shown_lines xs)"

lemma shown_append [simp]: "shown_lines (xs @ ys) = shown_lines xs @ shown_lines ys"
  by (induction xs) (auto split: screen.splits)

definition quits :: "byte list \<Rightarrow> bool" where
  "quits inp \<longleftrightarrow> inp \<noteq> [] \<and> hash_of inp = literal_hash ''q''"

definition is_key :: "byte list \<Rightarrow> bool" where
  "is_key inp \<longleftrightarrow> inp = [] \<or> hash_of inp \<in> {literal_hash ''c'', literal_hash ''n'', literal_hash ''q''}"

lemma handling_key:
  assumes "handling inp (out, p) = ((out', p'), over)"
  shows "shown_lines out' = shown_lines out" "over \<longleftrightarrow> is_key inp" "forcedCancel p' \<longrightarrow> forcedCancel p \<or> quits inp"
  using assms by (auto simp: handling_def is_key_def quits_def Let_def split: if_splits)

lemma wait_input:
  assumes "waitForUserInput handling (- 1) typed (out, p) = Some ((out', p'), left)"
  shows "shown_lines out' = shown_lines out" "forcedCancel p' \<longrightarrow> forcedCancel p \<or> (\<exists>inp\<in>set typed. quits inp)"
    "\<exists>used. typed = used @ left"
proof -
  let ?P = "\<lambda>(o', p'). shown_lines o' = shown_lines out \<and> (forcedCancel p' \<longrightarrow> forcedCancel p \<or> (\<exists>inp\<in>set typed. quits inp))"
  have step: "?P s'" if "inp \<in> set typed" "handling inp s = (s', over)" "?P s" for inp s s' over
    using handling_key [of inp "fst s" "snd s" "fst s'" "snd s'" over] that by (auto simp: split_beta)
  have "?P (out', p')"
    by (rule wait_invariant(1) [where P = ?P, OF assms]) (simp, rule step)
  then show "shown_lines out' = shown_lines out" "forcedCancel p' \<longrightarrow> forcedCancel p \<or> (\<exists>inp\<in>set typed. quits inp)"
    by auto
  show "\<exists>used. typed = used @ left"
    by (rule wait_invariant(2) [where P = "\<lambda>_. True", OF assms]) simp_all
qed

lemma wait_key:
  assumes "is_key inp"
  shows "\<exists>out' p'. waitForUserInput handling (- 1) (inp # typed) (out, p) = Some ((out', p'), typed)"
proof -
  obtain out' p' over where "handling inp (out, p) = ((out', p'), over)"
    by (metis surj_pair)
  then show ?thesis
    using handling_key(2) assms by auto
qed

lemma page_loop_shows:
  "page_loop lines typed p = Some (out, left) \<Longrightarrow>
    (\<exists>k. shown_lines out = take k lines)
    \<and> (\<not> forcedCancel p \<and> (\<forall>inp\<in>set typed. \<not> quits inp) \<longrightarrow> shown_lines out = lines)"
proof (induction lines arbitrary: typed p out)
  case (Cons line lines)
  let ?p = "p\<lparr>counter_rows := counter_rows p + 1\<rparr>"
  consider "forcedCancel p"
    | out2 where "\<not> forcedCancel p" "page_loop lines typed ?p = Some (out2, left)" "out = Line line # out2"
    | out1 p1 typed1 out2 where "\<not> forcedCancel p" "waitForUserInput handling (- 1) typed ([Line line, Prompt], ?p) = Some ((out1, p1), typed1)"
      "page_loop lines typed1 p1 = Some (out2, left)" "out = out1 @ out2"
    using Cons.prems by (auto simp: Let_def split: if_splits bind_splits)
  then show ?case
  proof cases
    case 1
    then show ?thesis
      using Cons.prems by (auto intro: exI [of _ 0])
  next
    case 2
    from Cons.IH [OF 2(2)] obtain k where "shown_lines out2 = take k lines"
      by blast
    with Cons.IH [OF 2(2)] 2 show ?thesis
      by (auto intro: exI [of _ "Suc k"])
  next
    case 3
    from Cons.IH [OF 3(3)] obtain k where "shown_lines out2 = take k lines"
      by blast
    with Cons.IH [OF 3(3)] 3 wait_input [OF 3(2)] show ?thesis
      by (auto intro: exI [of _ "Suc k"])
  qed
qed simp

lemma page_loop_returns:
  "\<forall>inp\<in>set typed. is_key inp \<Longrightarrow> withoutPaging p \<or> length lines \<le> length typed \<Longrightarrow> \<exists>r. page_loop lines typed p = Some r"
proof (induction lines arbitrary: typed p)
  case (Cons line lines)
  let ?p = "p\<lparr>counter_rows := counter_rows p + 1\<rparr>"
  show ?case
  proof (cases "\<not> withoutPaging ?p \<and> (moreRows ?p \<or> counter_rows ?p = terminalRows)")
    case True
    then obtain inp left where typed: "typed = inp # left" "length lines \<le> length left"
      using Cons.prems(2) by (cases typed) auto
    with Cons.prems(1) obtain out p1 where "waitForUserInput handling (- 1) typed ([Line line, Prompt], ?p) = Some ((out, p1), left)"
      using wait_key [of inp left "[Line line, Prompt]" ?p] by auto
    moreover obtain r where "page_loop lines left p1 = Some r"
      using Cons.IH [of left p1] Cons.prems(1) typed by auto
    ultimately show ?thesis
      using True by (auto simp: split_beta)
  next
    case False
    moreover have "withoutPaging ?p \<or> length lines \<le> length typed"
      using Cons.prems(2) by auto
    then obtain r where "page_loop lines typed ?p = Some r"
      using Cons.IH [OF Cons.prems(1)] by blast
    ultimately show ?thesis
      by (auto simp: split_beta)
  qed
qed simp

text \<open>
  The pager. A text of at most 24 lines is shown without a prompt; a longer one is shown if the user types
  a key for each line at most. What is shown is a front part of the lines in their order, and all of them
  unless the user quits.
\<close>

theorem pager_shows:
  assumes "\<forall>inp\<in>set typed. is_key inp" "count_list cache 10 \<le> terminalRows \<or> length (getlines 10 cache) \<le> length typed"
  shows "\<exists>out left. segmentedOutput typed cache = Some (out, left)
    \<and> (\<exists>k. shown_lines out = take k (getlines 10 cache))
    \<and> ((\<forall>inp\<in>set typed. \<not> quits inp) \<longrightarrow> shown_lines out = getlines 10 cache)"
proof -
  let ?p = "\<lparr>moreRows = False, forcedCancel = False, withoutPaging = count_list cache 10 \<le> terminalRows, counter_rows = 0\<rparr>"
  obtain out left where "page_loop (getlines 10 cache) typed ?p = Some (out, left)"
    using page_loop_returns [OF assms(1), of ?p "getlines 10 cache"] assms(2) by auto
  then show ?thesis
    using page_loop_shows [of "getlines 10 cache" typed ?p out left] by (auto simp: segmentedOutput_def Let_def)
qed

lemma getlines_newlines: "getlines 10 (replicate n 10) = replicate n []"
  by (induction n) (subst getlines.simps, simp)+

theorem pager_shows_witness:
  "\<exists>out left. segmentedOutput (replicate 30 []) (replicate 30 10) = Some (out, left) \<and> shown_lines out = replicate 30 []"
proof -
  have "\<forall>inp\<in>set (replicate 30 [] :: byte list list). is_key inp \<and> \<not> quits inp"
    by (simp add: is_key_def quits_def)
  then show ?thesis
    using pager_shows [of "replicate 30 []" "replicate 30 10"] by (auto simp only: getlines_newlines length_replicate)
qed

subsection \<open>The configuration\<close>

lemma of_char_byte: "unat (of_char c :: byte) = of_char c"
proof -
  have "(of_char c :: byte) = of_nat (of_char c)"
    by (rule of_nat_of_char [symmetric])
  then show ?thesis
    by (simp only: unsigned_of_nat) (simp add: take_bit_eq_mod)
qed

lemma chars_of_bytes [simp]: "chars_of (bytes_of t) = t"
  by (simp add: chars_of_def bytes_of_def of_char_byte comp_def)

lemma take_bytes: "take k (bytes_of t) = bytes_of (take k t)"
  by (simp add: bytes_of_def take_map)

definition no_nul :: "string \<Rightarrow> bool" where
  "no_nul t \<longleftrightarrow> CHR 0x00 \<notin> set t"

lemma bytes_no_nul:
  assumes "no_nul t"
  shows "takeWhile (\<lambda>b. b \<noteq> 0) (bytes_of t) = bytes_of t"
proof -
  have "(of_char c :: byte) \<noteq> 0" if "c \<in> set t" for c
  proof
    assume "(of_char c :: byte) = 0"
    then have "(of_char c :: nat) = 0"
      using of_char_byte [of c] by simp
    then have "c = char_of (0 :: nat)"
      by (metis char_of_char)
    then show False
      using assms that by (simp add: no_nul_def char_of_def)
  qed
  then show ?thesis
    by (simp add: bytes_of_def takeWhile_eq_all_conv)
qed

lemma copied_text:
  assumes "no_nul t" "0 < sz"
  shows "cstr sz (copy_text sz (bytes_of t)) = bytes_of (take (sz - 1) t)"
proof -
  let ?u = "take (sz - 1) t"
  have "no_nul ?u"
    using assms(1) by (auto simp: no_nul_def dest: in_set_takeD)
  note u = bytes_no_nul [OF this]
  have len: "length (bytes_of ?u) \<le> sz - 1"
    by (simp add: bytes_of_def)
  have "copy_text sz (bytes_of t) = bytes_of ?u @ replicate (sz - length (bytes_of ?u)) 0"
    by (simp only: copy_text_def take_bytes u Let_def)
  moreover have "takeWhile (\<lambda>b. b \<noteq> 0) (bytes_of ?u @ replicate m 0) = bytes_of ?u" for m
    using u by (simp add: takeWhile_append takeWhile_eq_all_conv takeWhile_replicate)
  ultimately show ?thesis
    using len by (simp add: cstr_def)
qed

lemma show_config_text:
  assumes "cstr (defInfoSize * 2) info = bytes_of u" "u \<noteq> []" "length u < defInfoSize * 2" "\<not> thrown s"
  shows "show_config env n (c_pad (defInfoSize * 2) info) s =
    (case andThen (load (float_ops env) n u) (dump (float_ops env) 1 ''  '') of
       None \<Rightarrow> None
     | Some (Inl _) \<Rightarrow> Some (s\<lparr>thrown := True\<rparr>)
     | Some (Inr out) \<Rightarrow> Some (s\<lparr>display := display s @ [ShownConfig out]\<rparr>))"
proof -
  have len: "strnlen (c_pad (defInfoSize * 2) info) (defInfoSize * 2) = length u"
    by (simp only: strnlen_c_pad assms(1)) (simp add: bytes_of_def)
  have body: "take (length u) (c_pad (defInfoSize * 2) info) = bytes_of u"
    by (simp only: c_pad_def assms(1)) (simp add: bytes_of_def)
  show ?thesis
    unfolding show_config_def Let_def len body
    using assms(2-4) by (simp split: option.splits sum.splits)
qed

text \<open>
  The configuration is cut after 511 characters: what the client parses is the front part of the text of the configuration,
  which is all of it only when that is shorter than 512 characters.
\<close>

lemma view_profile:
  assumes "cipher_ok (cipher_enc env) (cipher_dec env)" "\<not> stopped s" "extractOption (join_tokens inputs) = OptProfile"
    and "asUnescapedString (float_ops env) (dataRepo env) = ret t" "no_nul t" "t \<noteq> []"
  shows "\<exists>bytes. onMessage env (onForwarding inputs) w = Some (w, Some bytes)
    \<and> parseTLVMessage env n established bytes s =
      (case andThen (load (float_ops env) n (take 511 t)) (dump (float_ops env) 1 ''  '') of
         None \<Rightarrow> None
       | Some (Inl _) \<Rightarrow> Some (s\<lparr>thrown := True\<rparr>)
       | Some (Inr out) \<Rightarrow> Some (s\<lparr>thrown := False, display := display s @ [ShownConfig out]\<rparr>))"
proof -
  let ?req = "join_tokens inputs" and ?buffer = "replicate bufferSize 0 :: byte list"
  let ?v = "tlv_default\<lparr>configInfo := copy_text (defInfoSize * 2) (bytes_of t)\<rparr>"
  have "?req \<noteq> exitSymbol"
    using assms(3) exit_is_no_option by auto
  moreover have "onForwarding inputs \<noteq> []"
    unfolding onForwarding_def by (rule encode_nonempty) (simp add: messagePrefix_def bytes_of_def)
  moreover obtain buffer used where
    "buildResponse env ?req ?buffer w = Some (w, buffer, Inr used)" "take used buffer = packet_of env ?v"
    using encode_packet_sends [OF assms(1), of ?buffer ?v id w] assms(3,4)
    by (auto simp: buildResponse_def buildCustomTLVPacket_profile_def ret_def)
  ultimately have "onMessage env (onForwarding inputs) w = Some (w, Some (packet_of env ?v))"
    by (simp add: onMessage_def) (simp add: onForwarding_def validate_request)
  moreover have "cstr (defInfoSize * 2) (configInfo ?v) = bytes_of (take 511 t)"
    using copied_text [OF assms(5), of "defInfoSize * 2"] by (simp add: defInfoSize_def)
  then have "show_config env n (c_pad (defInfoSize * 2) (configInfo ?v)) (s\<lparr>thrown := False\<rparr>) =
      (case andThen (load (float_ops env) n (take 511 t)) (dump (float_ops env) 1 ''  '') of
         None \<Rightarrow> None
       | Some (Inl _) \<Rightarrow> Some (s\<lparr>thrown := True\<rparr>)
       | Some (Inr out) \<Rightarrow> Some (s\<lparr>thrown := False, display := display s @ [ShownConfig out]\<rparr>))"
    using show_config_text [of "configInfo ?v" "take 511 t" "s\<lparr>thrown := False\<rparr>" env n] assms(6)
    by (simp add: defInfoSize_def split: option.splits sum.splits)
  then have "parseTLVMessage env n established (packet_of env ?v) s =
      (case andThen (load (float_ops env) n (take 511 t)) (dump (float_ops env) 1 ''  '') of
         None \<Rightarrow> None
       | Some (Inl _) \<Rightarrow> Some (s\<lparr>thrown := True\<rparr>)
       | Some (Inr out) \<Rightarrow> Some (s\<lparr>thrown := False, display := display s @ [ShownConfig out]\<rparr>))"
    by (simp add: parse_packet [OF assms(1,2)] tlv_default_def split: option.splits sum.splits)
  ultimately show ?thesis
    by blast
qed

subsection \<open>Arguments\<close>

lemma not_quoted_ends: "not_quoted q cmd \<longleftrightarrow> cmd = [] \<or> hd cmd \<noteq> q \<or> last cmd \<noteq> q"
proof (cases "cmd = []")
  case False
  then have upt: "[0..<length cmd] = 0 # [1..<length cmd]" "[0..<length cmd] = [0..<length cmd - 1] @ [length cmd - 1]"
    by (simp_all add: upt_conv_Cons flip: upt_Suc_append)
  have "find_first_not_of q cmd = Some 0 \<longleftrightarrow> hd cmd \<noteq> q"
    unfolding find_first_not_of_def upt(1) using False by (auto simp: hd_conv_nth find_Some_iff)
  moreover have "find_last_not_of q cmd = Some (length cmd - 1) \<longleftrightarrow> last cmd \<noteq> q"
    unfolding find_last_not_of_def upt(2) using False by (auto simp: last_conv_nth find_Some_iff)
  ultimately show ?thesis
    using False by (simp add: not_quoted_def)
qed (simp add: not_quoted_def find_last_not_of_def)

text \<open>A shell command is accepted exactly when it starts and ends with the same kind of quote.\<close>

lemma execute_quotes:
  "buildCustomTLVPacket_execute env args buffer w = Some (w, buffer, Inl badArguments)
    \<or> (\<exists>q \<in> {39, 34}. join_tokens args \<noteq> [] \<and> hd (join_tokens args) = q \<and> last (join_tokens args) = q)"
  by (auto simp: buildCustomTLVPacket_execute_def not_quoted_ends Let_def split: if_splits)

text \<open>Without the pager, contents are shown up to their first NUL only.\<close>

lemma printed_cuts: "printed False typed (xs @ 0 # ys) = printed False typed (xs @ [0])"
proof -
  have "takeWhile (\<lambda>b. b \<noteq> 0) (xs @ 0 # ys) = takeWhile (\<lambda>b. b \<noteq> 0) (xs @ [0])"
    by (induction xs) simp_all
  then show ?thesis
    by (simp only: printed_def if_False)
qed

end
