(* ===== verification/AP_Setting.thy ===== *)
theory AP_Setting
  imports UT_Json_Load UT_Encoding UT_Io
begin

text \<open>
  The configuration of src/application/core/source/setting.cpp and src/application/core/include/setting.hpp: the checks that
  \<open>verifyConfigData\<close> makes of a configuration, the queries of the namespace \<open>config\<close>, the default configuration and \<open>loadSettings\<close>
  with its dialogue.

  Configurations are the JSON values of the theory UT_Json. Whether a number is negative is the argument \<open>neg\<close>, like the other
  operations on floating point numbers. The texts of the exceptions are not modelled, only which check fails. The
  configuration file is its list of characters, or \<^term>\<open>None\<close> when there is none; the functions of the file system succeed.
\<close>

subsection \<open>Verification\<close>

datatype settingError =
    Incomplete1 | Illegal1 | Incomplete2 | Illegal2 | Incomplete3 string | Illegal3 string | Failed jsonError | Missing

type_synonym 'a checked = "(settingError + 'a) option"

definition withJson :: "'a outcome \<Rightarrow> ('a \<Rightarrow> 'b checked) \<Rightarrow> 'b checked" where
  "withJson m k = (case m of None \<Rightarrow> None | Some (Inl e) \<Rightarrow> Some (Inl (Failed e)) | Some (Inr x) \<Rightarrow> k x)"

lemma withJson_simps [simp]:
  "withJson (ret x) k = k x" "withJson (throw e) k = Some (Inl (Failed e))" "withJson None k = None"
  by (simp_all add: withJson_def ret_def throw_def)

definition key_hash :: "string \<Rightarrow> 64 word" where
  "key_hash k = hash_of (bytes_of k)"

definition integral_in :: "'f json \<Rightarrow> (int \<Rightarrow> bool) \<Rightarrow> bool" where
  "integral_in item P \<longleftrightarrow> (case item of Integral i \<Rightarrow> P i | _ \<Rightarrow> False)"

fun EnumCheck_has :: "int list \<Rightarrow> int \<Rightarrow> bool" where
  "EnumCheck_has [] val \<longleftrightarrow> False"
| "EnumCheck_has (e # nexts) val \<longleftrightarrow> e = val \<or> EnumCheck_has nexts val"

definition minPortNumber :: int where
  "minPortNumber = 1024"

definition maxPortNumber :: int where
  "maxPortNumber = 65535"

definition port_ok :: "int \<Rightarrow> bool" where
  "port_ok i \<longleftrightarrow> i \<ge> minPortNumber \<and> i \<le> maxPortNumber"

text \<open>The cases of the two switches over the properties.\<close>

definition logger_item :: "string \<Rightarrow> 'f json \<Rightarrow> bool" where
  "logger_item key item \<longleftrightarrow>
     (let h = key_hash key in
      if h = literal_hash ''filePath'' then isStringType item
      else if h = literal_hash ''priorityLevel'' then integral_in item (EnumCheck_has [0, 1, 2, 3])
      else if h = literal_hash ''targetType'' then integral_in item (EnumCheck_has [0, 1, 2])
      else if h = literal_hash ''writeMode'' then integral_in item (EnumCheck_has [0, 1])
      else False)"

definition viewer_item :: "string \<Rightarrow> 'f json \<Rightarrow> bool" where
  "viewer_item key item \<longleftrightarrow>
     (let h = key_hash key in
      if h = literal_hash ''tcpHost'' then isStringType item
      else if h = literal_hash ''tcpPort'' then integral_in item port_ok
      else if h = literal_hash ''udpHost'' then isStringType item
      else if h = literal_hash ''udpPort'' then integral_in item port_ok
      else False)"

definition required_item :: "'f json \<Rightarrow> 'f json \<Rightarrow> bool" where
  "required_item props item \<longleftrightarrow> (case item of String s \<Rightarrow> hasKey props (jsonEscape s) | _ \<Rightarrow> False)"

text \<open>The two specialisations of \<open>checkObjectInHelperList\<close> differ in the name and in the switch.\<close>

definition checkObject :: "string \<Rightarrow> (string \<Rightarrow> 'f json \<Rightarrow> bool) \<Rightarrow> 'f json \<Rightarrow> unit checked" where
  "checkObject name item_ok helper =
     (if \<not> hasKey helper ''properties'' \<or> \<not> hasKey helper ''required'' then Some (Inl (Incomplete3 name))
      else
        withJson (at_key helper ''properties'') (\<lambda>props.
        withJson (at_key helper ''required'') (\<lambda>required.
          let isVerified = isObjectType helper;
              isVerified = (isVerified \<and> (isObjectType props \<and> isArrayType required \<and> json_size props = json_length required));
              isVerified = (isVerified \<and> list_all (required_item props) (arrayRange required));
              isVerified = (isVerified \<and> list_all (\<lambda>(key, item). item_ok key item) (objectRange props))
          in if \<not> isVerified then Some (Inl (Illegal3 name)) else Some (Inr ()))))"

definition checkObjectInHelperList_logger :: "'f json \<Rightarrow> unit checked" where
  "checkObjectInHelperList_logger = checkObject ''logger'' logger_item"

definition checkObjectInHelperList_viewer :: "'f json \<Rightarrow> unit checked" where
  "checkObjectInHelperList_viewer = checkObject ''viewer'' viewer_item"

fun verify_helpers :: "(string \<times> 'f json) list \<Rightarrow> unit checked" where
  "verify_helpers [] = Some (Inr ())"
| "verify_helpers ((key, item) # ms) =
     (let h = key_hash key in
      do { r \<leftarrow> (if h = literal_hash ''logger'' then checkObjectInHelperList_logger item
                 else if h = literal_hash ''viewer'' then checkObjectInHelperList_viewer item
                 else Some (Inl Illegal2));
           case r of Inl e \<Rightarrow> Some (Inl e) | Inr _ \<Rightarrow> verify_helpers ms })"

definition verifyConfigData :: "'f floatOps \<Rightarrow> ('f \<Rightarrow> bool) \<Rightarrow> 'f json \<Rightarrow> unit checked" where
  "verifyConfigData ops neg configData =
     (if \<not> hasKey configData ''activateHelper'' \<or> \<not> hasKey configData ''helperList'' \<or> \<not> hasKey configData ''helperTimeout''
      then Some (Inl Incomplete1)
      else
        withJson (at_key configData ''activateHelper'') (\<lambda>activate.
        withJson (at_key configData ''helperList'') (\<lambda>helpers.
        withJson (at_key configData ''helperTimeout'') (\<lambda>timeout.
          if \<not> isBooleanType activate \<or> \<not> isObjectType helpers \<or> \<not> isFloatingType timeout then Some (Inl Illegal1)
          else withJson (asFloating ops timeout) (\<lambda>t.
            if neg t then Some (Inl Illegal1)
            else if \<not> hasKey helpers ''logger'' \<or> \<not> hasKey helpers ''viewer'' then Some (Inl Incomplete2)
            else verify_helpers (objectRange helpers))))))"

subsection \<open>Queries\<close>

text \<open>Each query is declared \<open>noexcept\<close>: where its value throws, the program is terminated.\<close>

definition path_of :: "'f json \<Rightarrow> string list \<Rightarrow> 'f json outcome" where
  "path_of repo ks = fold (\<lambda>k m. andThen m (\<lambda>j. at_key j k)) ks (ret repo)"

definition activateHelper :: "'f floatOps \<Rightarrow> 'f json \<Rightarrow> bool outcome" where
  "activateHelper ops repo = andThen (path_of repo [''activateHelper'']) (asBoolean ops)"

definition filePath4Logger :: "'f floatOps \<Rightarrow> 'f json \<Rightarrow> string outcome" where
  "filePath4Logger ops repo =
     andThen (path_of repo [''helperList'', ''logger'', ''properties'', ''filePath'']) (asString ops)"

definition priorityLevel4Logger :: "'f floatOps \<Rightarrow> 'f json \<Rightarrow> int outcome" where
  "priorityLevel4Logger ops repo =
     andThen (path_of repo [''helperList'', ''logger'', ''properties'', ''priorityLevel'']) (asIntegral ops)"

definition targetType4Logger :: "'f floatOps \<Rightarrow> 'f json \<Rightarrow> int outcome" where
  "targetType4Logger ops repo =
     andThen (path_of repo [''helperList'', ''logger'', ''properties'', ''targetType'']) (asIntegral ops)"

definition writeMode4Logger :: "'f floatOps \<Rightarrow> 'f json \<Rightarrow> int outcome" where
  "writeMode4Logger ops repo =
     andThen (path_of repo [''helperList'', ''logger'', ''properties'', ''writeMode'']) (asIntegral ops)"

definition tcpHost4Viewer :: "'f floatOps \<Rightarrow> 'f json \<Rightarrow> string outcome" where
  "tcpHost4Viewer ops repo =
     andThen (path_of repo [''helperList'', ''viewer'', ''properties'', ''tcpHost'']) (asString ops)"

definition tcpPort4Viewer :: "'f floatOps \<Rightarrow> 'f json \<Rightarrow> int outcome" where
  "tcpPort4Viewer ops repo =
     andThen (path_of repo [''helperList'', ''viewer'', ''properties'', ''tcpPort'']) (asIntegral ops)"

definition udpHost4Viewer :: "'f floatOps \<Rightarrow> 'f json \<Rightarrow> string outcome" where
  "udpHost4Viewer ops repo =
     andThen (path_of repo [''helperList'', ''viewer'', ''properties'', ''udpHost'']) (asString ops)"

definition udpPort4Viewer :: "'f floatOps \<Rightarrow> 'f json \<Rightarrow> int outcome" where
  "udpPort4Viewer ops repo =
     andThen (path_of repo [''helperList'', ''viewer'', ''properties'', ''udpPort'']) (asIntegral ops)"

definition helperTimeout :: "'f floatOps \<Rightarrow> 'f json \<Rightarrow> 'f outcome" where
  "helperTimeout ops repo = andThen (path_of repo [''helperTimeout'']) (asFloating ops)"

subsection \<open>The default configuration\<close>

definition default_logger_properties :: "'f json" where
  "default_logger_properties =
     fold (\<lambda>(k, v) j. assign_key j k v)
       [(''filePath'', String ''log/foo.log''), (''priorityLevel'', Integral 0), (''targetType'', Integral 2),
        (''writeMode'', Integral 0)] (Object [])"

definition default_viewer_properties :: "'f json" where
  "default_viewer_properties =
     fold (\<lambda>(k, v) j. assign_key j k v)
       [(''tcpHost'', String ''localhost''), (''tcpPort'', Integral 61501), (''udpHost'', String ''localhost''),
        (''udpPort'', Integral 61502)] (Object [])"

definition json_strings :: "string list \<Rightarrow> 'f json" where
  "json_strings ss = fold (\<lambda>s j. json_append j (String s)) ss (Array [])"

definition default_helper :: "'f floatOps \<Rightarrow> 'f json \<Rightarrow> string list \<Rightarrow> 'f json outcome" where
  "default_helper ops props required =
     json_init ops [String ''properties'', props, String ''required'', json_strings required]"

definition dumpDefaultConfig :: "'f floatOps \<Rightarrow> 'f json outcome" where
  "dumpDefaultConfig ops =
     andThen (default_helper ops default_logger_properties [''filePath'', ''priorityLevel'', ''targetType'', ''writeMode'']) (\<lambda>l.
     andThen (default_helper ops default_viewer_properties [''tcpHost'', ''tcpPort'', ''udpHost'', ''udpPort'']) (\<lambda>v.
     andThen (json_init ops [String ''logger'', l, String ''viewer'', v]) (\<lambda>helpers.
       json_init ops [String ''activateHelper'', Boolean True, String ''helperList'', helpers,
                      String ''helperTimeout'', Floating (of_long ops 1)])))"

subsection \<open>Loading\<close>

definition parseConfigFile :: "'f floatOps \<Rightarrow> ('f \<Rightarrow> bool) \<Rightarrow> nat \<Rightarrow> string option \<Rightarrow> 'f json checked" where
  "parseConfigFile ops neg n configFile =
     (case configFile of
        None \<Rightarrow> Some (Inl Missing)
      | Some stream \<Rightarrow>
          withJson (load ops n (concat (readFileLines (CHR 0x0A) stream False (- 1)))) (\<lambda>preprocessedData.
            do { r \<leftarrow> verifyConfigData ops neg preprocessedData;
                 case r of Inl e \<Rightarrow> Some (Inl e) | Inr _ \<Rightarrow> Some (Inr preprocessedData) }))"

text \<open>
  \<open>configWriter.stream() << dumpDefaultConfig() << std::endl\<close> over the emptied file: the file it leaves and what it throws.
  Printing always returns.
\<close>

definition forcedConfigUpdateByDefault :: "'f floatOps \<Rightarrow> string \<times> jsonError option" where
  "forcedConfigUpdateByDefault ops =
     (case andThen (dumpDefaultConfig ops) (dump ops 1 ''  '') of
        Some (Inr s) \<Rightarrow> (s @ [CHR 0x0A], None)
      | Some (Inl e) \<Rightarrow> ([], Some e)
      | None \<Rightarrow> ([], None))"

text \<open>The closure of \<open>promptConfigRecovery\<close>, on the file, the flag \<open>keepThrowing\<close> and what was thrown.\<close>

record recovery =
  file_text :: "string option"
  keepThrowing :: bool
  raised :: "jsonError option"

definition recover :: "'f floatOps \<Rightarrow> string \<Rightarrow> recovery \<Rightarrow> recovery \<times> bool" where
  "recover ops inp s =
     (let h = key_hash inp in
      if h = literal_hash ''y'' then
        (case forcedConfigUpdateByDefault ops of
           (t, None) \<Rightarrow> (s\<lparr>file_text := Some t, keepThrowing := False\<rparr>, True)
         | (t, Some e) \<Rightarrow> (s\<lparr>file_text := Some t, raised := Some e\<rparr>, True))
      else if h = literal_hash ''n'' then (s\<lparr>keepThrowing := False\<rparr>, True)
      else (s, False))"

definition promptConfigRecovery :: "'f floatOps \<Rightarrow> string list \<Rightarrow> string option \<Rightarrow> (recovery \<times> string list) option" where
  "promptConfigRecovery ops typed filePath =
     waitForUserInput (recover ops) 5000 typed \<lparr>file_text = filePath, keepThrowing = True, raised = None\<rparr>"

datatype 'f loaded = Loaded "'f json" | NotLoaded | Rethrown settingError

text \<open>
  The first call of \<open>getInstance\<close>, on the file and the lines the user types; the file afterwards is part of the result.
\<close>

definition load_attempt :: "'f floatOps \<Rightarrow> ('f \<Rightarrow> bool) \<Rightarrow> nat \<Rightarrow> string option \<Rightarrow> string option \<times> 'f json checked" where
  "load_attempt ops neg n filePath =
     (case filePath of
        Some _ \<Rightarrow> (filePath, parseConfigFile ops neg n filePath)
      | None \<Rightarrow>
          (case forcedConfigUpdateByDefault ops of
             (t, None) \<Rightarrow> (Some t, parseConfigFile ops neg n (Some t))
           | (t, Some e) \<Rightarrow> (Some t, Some (Inl (Failed e)))))"

definition loadSettings ::
  "'f floatOps \<Rightarrow> ('f \<Rightarrow> bool) \<Rightarrow> nat \<Rightarrow> string list \<Rightarrow> string option \<Rightarrow> (string option \<times> 'f loaded) option" where
  "loadSettings ops neg n typed filePath =
     (let (filePath, res) = load_attempt ops neg n filePath in
      do { r \<leftarrow> res;
           case r of
             Inr j \<Rightarrow> Some (filePath, Loaded j)
           | Inl e \<Rightarrow>
               do { (s, _) \<leftarrow> promptConfigRecovery ops typed filePath;
                    Some (file_text s,
                      case raised s of Some e' \<Rightarrow> Rethrown (Failed e')
                      | None \<Rightarrow> if keepThrowing s then Rethrown e else NotLoaded) } })"

subsection \<open>What a verified configuration promises\<close>

lemma ret_not_throw [simp]: "ret x \<noteq> throw e" "throw e \<noteq> ret x"
  by (simp_all add: ret_def throw_def)

lemma hasKey_at: "hasKey j k \<longleftrightarrow> (\<exists>v. at_key j k = ret v)"
  by (cases j) (auto simp: hasKey_def at_key_def throw_def ret_def simp flip: dom_map_of_conv_image_fst split: option.splits)

lemma at_key_member: "at_key j k = ret v \<Longrightarrow> (k, v) \<in> set (objectRange j)"
  by (cases j) (auto simp: at_key_def objectRange_def throw_def ret_def split: option.splits dest: map_of_SomeD)

lemma checkObject_ok:
  assumes "checkObject name item_ok helper = Some (Inr ())"
  obtains props where "at_key helper ''properties'' = ret props"
    "\<And>k v. at_key props k = ret v \<Longrightarrow> item_ok k v" "isObjectType props"
proof -
  obtain props req where p: "at_key helper ''properties'' = ret props" "at_key helper ''required'' = ret req"
    using assms by (auto simp: checkObject_def hasKey_at split: if_splits)
  then have "isObjectType props" "list_all (\<lambda>(key, item). item_ok key item) (objectRange props)"
    using assms by (auto simp: checkObject_def Let_def split: if_splits)
  then show thesis
    using that [OF p(1)] by (fastforce simp: list_all_iff dest: at_key_member)
qed

lemma verify_helpers_ok:
  assumes "verify_helpers ms = Some (Inr ())" "(k, v) \<in> set ms"
  shows "key_hash k = literal_hash ''logger'' \<and> checkObjectInHelperList_logger v = Some (Inr ())
    \<or> key_hash k = literal_hash ''viewer'' \<and> checkObjectInHelperList_viewer v = Some (Inr ())"
  using assms
  by (induction ms) (auto simp: Let_def split: if_splits bind_splits sum.splits)

lemma verify_ok:
  assumes "verifyConfigData ops neg cfg = Some (Inr ())"
  obtains b helpers t l v where "at_key cfg ''activateHelper'' = ret (Boolean b)" "at_key cfg ''helperList'' = ret helpers"
    "at_key cfg ''helperTimeout'' = ret (Floating t)" "\<not> neg t"
    "at_key helpers ''logger'' = ret l" "at_key helpers ''viewer'' = ret v" "verify_helpers (objectRange helpers) = Some (Inr ())"
proof -
  obtain a helpers t where *: "at_key cfg ''activateHelper'' = ret a" "at_key cfg ''helperList'' = ret helpers"
    "at_key cfg ''helperTimeout'' = ret t"
    using assms by (auto simp: verifyConfigData_def hasKey_at split: if_splits)
  then have "isBooleanType a" "isFloatingType t"
    using assms by (auto simp: verifyConfigData_def split: if_splits)
  then obtain b f where "a = Boolean b" "t = Floating f"
    by (cases a; cases t) (auto simp: isBooleanType_def isFloatingType_def)
  then show thesis
    using assms * that by (auto simp: verifyConfigData_def asFloating_def hasKey_at split: if_splits)
qed

lemma literal_hashes:
  "literal_hash ''logger'' = 1177176000"
  "literal_hash ''viewer'' = 801278386"
  "literal_hash ''filePath'' = 1129780601"
  "literal_hash ''priorityLevel'' = 757591244"
  "literal_hash ''targetType'' = 381844727"
  "literal_hash ''writeMode'' = 1591904486"
  "literal_hash ''tcpHost'' = 1557835529"
  "literal_hash ''tcpPort'' = 1575820126"
  "literal_hash ''udpHost'' = 219256405"
  "literal_hash ''udpPort'' = 237241002"
  by code_simp+

lemma key_hash_literal: "key_hash k = literal_hash k"
  by (simp add: key_hash_def hash_of_def literal_hash_def bkdrHash_literal_agrees)

lemma logger_items:
  "logger_item ''filePath'' v \<longleftrightarrow> isStringType v"
  "logger_item ''priorityLevel'' v \<longleftrightarrow> integral_in v (EnumCheck_has [0, 1, 2, 3])"
  "logger_item ''targetType'' v \<longleftrightarrow> integral_in v (EnumCheck_has [0, 1, 2])"
  "logger_item ''writeMode'' v \<longleftrightarrow> integral_in v (EnumCheck_has [0, 1])"
  by (simp_all only: logger_item_def key_hash_literal literal_hashes Let_def) simp_all

lemma viewer_items:
  "viewer_item ''tcpHost'' v \<longleftrightarrow> isStringType v"
  "viewer_item ''tcpPort'' v \<longleftrightarrow> integral_in v port_ok"
  "viewer_item ''udpHost'' v \<longleftrightarrow> isStringType v"
  "viewer_item ''udpPort'' v \<longleftrightarrow> integral_in v port_ok"
  by (simp_all only: viewer_item_def key_hash_literal literal_hashes Let_def) simp_all

text \<open>A query returns a value with the property \<open>P\<close> if its field is set, and throws otherwise.\<close>

definition query_ok :: "'f json \<Rightarrow> string \<Rightarrow> string \<Rightarrow> 'a outcome \<Rightarrow> ('a \<Rightarrow> bool) \<Rightarrow> bool" where
  "query_ok cfg helper key m P \<longleftrightarrow>
     (if \<exists>props. path_of cfg [''helperList'', helper, ''properties''] = ret props \<and> hasKey props key
      then \<exists>x. m = ret x \<and> P x else m = throw OutOfRange)"

lemma path_split: "path_of cfg (ks @ [k]) = andThen (path_of cfg ks) (\<lambda>j. at_key j k)"
  by (simp add: path_of_def)

lemma query_okI:
  assumes "path_of cfg [''helperList'', helper, ''properties''] = ret props" "isObjectType props"
    and "\<And>v. at_key props key = ret v \<Longrightarrow> \<exists>x. f v = ret x \<and> P x"
  shows "query_ok cfg helper key (andThen (path_of cfg [''helperList'', helper, ''properties'', key]) f) P"
proof -
  have "path_of cfg [''helperList'', helper, ''properties'', key] = at_key props key"
    using path_split [of cfg "[''helperList'', helper, ''properties'']" key] assms(1) by simp
  moreover have "at_key props key = throw OutOfRange \<or> (\<exists>v. at_key props key = ret v)"
    using assms(2) by (cases props) (auto simp: isObjectType_def at_key_def split: option.splits)
  ultimately show ?thesis
    using assms(1,3) by (auto simp: query_ok_def hasKey_at)
qed

lemma integral_query: "integral_in v P \<Longrightarrow> \<exists>i. asIntegral ops v = ret i \<and> P i"
  by (cases v) (auto simp: integral_in_def asIntegral_def)

lemma string_query: "isStringType v \<Longrightarrow> \<exists>s. asString ops v = ret s"
  by (cases v) (auto simp: isStringType_def asString_def)

lemma verified_helper:
  assumes "verifyConfigData ops neg cfg = Some (Inr ())"
  obtains lp vp where "path_of cfg [''helperList'', ''logger'', ''properties''] = ret lp" "isObjectType lp"
    "path_of cfg [''helperList'', ''viewer'', ''properties''] = ret vp" "isObjectType vp"
    "\<And>k v. at_key lp k = ret v \<Longrightarrow> logger_item k v" "\<And>k v. at_key vp k = ret v \<Longrightarrow> viewer_item k v"
proof -
  from verify_ok [OF assms] obtain helpers l v where *: "at_key cfg ''helperList'' = ret helpers"
    "at_key helpers ''logger'' = ret l" "at_key helpers ''viewer'' = ret v" "verify_helpers (objectRange helpers) = Some (Inr ())"
    by metis
  have "checkObject ''logger'' logger_item l = Some (Inr ())" "checkObject ''viewer'' viewer_item v = Some (Inr ())"
    using verify_helpers_ok [OF *(4) at_key_member [OF *(2)]] verify_helpers_ok [OF *(4) at_key_member [OF *(3)]]
    by (auto simp: key_hash_literal literal_hashes checkObjectInHelperList_logger_def checkObjectInHelperList_viewer_def)
  then obtain lp vp where "at_key l ''properties'' = ret lp" "\<And>k v. at_key lp k = ret v \<Longrightarrow> logger_item k v" "isObjectType lp"
    "at_key v ''properties'' = ret vp" "\<And>k v. at_key vp k = ret v \<Longrightarrow> viewer_item k v" "isObjectType vp"
    using checkObject_ok by metis
  then show thesis
    using that [of lp vp] * by (auto simp: path_of_def)
qed

text \<open>
  C7: what a verified configuration promises to the rest of the program. The two queries of the first level always return, the
  timeout is not negative; each query of a property returns a value of its range (a level of the logger, an output type, a mode,
  a port from 1024 to 65535) if the property is set.
\<close>

theorem config_queries:
  assumes "verifyConfigData ops neg cfg = Some (Inr ())"
  shows "(\<exists>b. activateHelper ops cfg = ret b) \<and> (\<exists>t. helperTimeout ops cfg = ret t \<and> \<not> neg t)
    \<and> query_ok cfg ''logger'' ''filePath'' (filePath4Logger ops cfg) (\<lambda>_. True)
    \<and> query_ok cfg ''logger'' ''priorityLevel'' (priorityLevel4Logger ops cfg) (\<lambda>i. 0 \<le> i \<and> i \<le> 3)
    \<and> query_ok cfg ''logger'' ''targetType'' (targetType4Logger ops cfg) (\<lambda>i. 0 \<le> i \<and> i \<le> 2)
    \<and> query_ok cfg ''logger'' ''writeMode'' (writeMode4Logger ops cfg) (\<lambda>i. 0 \<le> i \<and> i \<le> 1)
    \<and> query_ok cfg ''viewer'' ''tcpHost'' (tcpHost4Viewer ops cfg) (\<lambda>_. True)
    \<and> query_ok cfg ''viewer'' ''tcpPort'' (tcpPort4Viewer ops cfg) (\<lambda>i. 1024 \<le> i \<and> i \<le> 65535)
    \<and> query_ok cfg ''viewer'' ''udpHost'' (udpHost4Viewer ops cfg) (\<lambda>_. True)
    \<and> query_ok cfg ''viewer'' ''udpPort'' (udpPort4Viewer ops cfg) (\<lambda>i. 1024 \<le> i \<and> i \<le> 65535)"
proof -
  obtain b t where top: "at_key cfg ''activateHelper'' = ret (Boolean b)" "at_key cfg ''helperTimeout'' = ret (Floating t)" "\<not> neg t"
    using verify_ok [OF assms] by metis
  obtain lp vp where l: "path_of cfg [''helperList'', ''logger'', ''properties''] = ret lp" "isObjectType lp"
    and v: "path_of cfg [''helperList'', ''viewer'', ''properties''] = ret vp" "isObjectType vp"
    and items: "\<And>k v. at_key lp k = ret v \<Longrightarrow> logger_item k v" "\<And>k v. at_key vp k = ret v \<Longrightarrow> viewer_item k v"
    using verified_helper [OF assms] by metis
  have logger: "query_ok cfg ''logger'' key (andThen (path_of cfg [''helperList'', ''logger'', ''properties'', key]) f) P"
    if "\<And>v. logger_item key v \<Longrightarrow> \<exists>x. f v = ret x \<and> P x" for key f and P :: "'x \<Rightarrow> bool"
    by (rule query_okI [OF l]) (rule that, rule items)
  have viewer: "query_ok cfg ''viewer'' key (andThen (path_of cfg [''helperList'', ''viewer'', ''properties'', key]) f) P"
    if "\<And>v. viewer_item key v \<Longrightarrow> \<exists>x. f v = ret x \<and> P x" for key f and P :: "'x \<Rightarrow> bool"
    by (rule query_okI [OF v]) (rule that, rule items)
  have ports: "\<exists>i. asIntegral ops v = ret i \<and> 1024 \<le> i \<and> i \<le> 65535" if "integral_in v port_ok" for v
    using integral_query [OF that] by (auto simp: port_ok_def minPortNumber_def maxPortNumber_def)
  show ?thesis
    unfolding filePath4Logger_def priorityLevel4Logger_def targetType4Logger_def writeMode4Logger_def
      tcpHost4Viewer_def tcpPort4Viewer_def udpHost4Viewer_def udpPort4Viewer_def
  proof (intro conjI)
    show "\<exists>b. activateHelper ops cfg = ret b" "\<exists>t. helperTimeout ops cfg = ret t \<and> \<not> neg t"
      using top by (auto simp: activateHelper_def helperTimeout_def path_of_def asBoolean_def asFloating_def)
  qed (rule logger viewer; force simp: logger_items viewer_items dest: string_query integral_query ports)+
qed

subsection \<open>The default configuration is verified\<close>

definition default_config :: "'f floatOps \<Rightarrow> 'f json" where
  "default_config ops =
     Object [(''activateHelper'', Boolean True),
       (''helperList'', Object
          [(''logger'', Object
              [(''properties'', Object [(''filePath'', String ''log/foo.log''), (''priorityLevel'', Integral 0),
                                        (''targetType'', Integral 2), (''writeMode'', Integral 0)]),
               (''required'', Array [String ''filePath'', String ''priorityLevel'', String ''targetType'', String ''writeMode''])]),
           (''viewer'', Object
              [(''properties'', Object [(''tcpHost'', String ''localhost''), (''tcpPort'', Integral 61501),
                                        (''udpHost'', String ''localhost''), (''udpPort'', Integral 61502)]),
               (''required'', Array [String ''tcpHost'', String ''tcpPort'', String ''udpHost'', String ''udpPort''])])]),
       (''helperTimeout'', Floating (of_long ops 1))]"

lemma dumpDefaultConfig_value: "dumpDefaultConfig ops = ret (default_config ops)"
  by (simp add: dumpDefaultConfig_def default_config_def default_helper_def default_logger_properties_def
      default_viewer_properties_def json_strings_def json_init_def assign_key_def json_append_def ensureType_def asString_def
      jsonEscape_def escape_char.simps)

lemmas json_evals = hasKey_def at_key_def objectRange_def arrayRange_def json_size_def json_length_def isObjectType_def isArrayType_def
  isStringType_def isBooleanType_def isFloatingType_def asFloating_def

lemmas config_evals = verifyConfigData_def checkObjectInHelperList_logger_def checkObjectInHelperList_viewer_def checkObject_def
  required_item_def key_hash_literal literal_hashes(1,2) logger_items viewer_items integral_in_def port_ok_def
  minPortNumber_def maxPortNumber_def jsonEscape_def escape_char.simps

text \<open>The default configuration passes the verification.\<close>

theorem default_verified:
  assumes "\<not> neg (of_long ops 1)"
  shows "dumpDefaultConfig ops = ret (default_config ops) \<and> verifyConfigData ops neg (default_config ops) = Some (Inr ())"
  using assms
  by (simp add: dumpDefaultConfig_value) (simp add: default_config_def json_evals config_evals)

theorem default_verified_witness:
  "dumpDefaultConfig integer_ops = ret (default_config integer_ops)
    \<and> verifyConfigData integer_ops (\<lambda>i. i < 0) (default_config integer_ops) = Some (Inr ())"
  by (rule default_verified) (simp add: integer_ops_def)

lemma default_config_ok: "verifyConfigData integer_ops (\<lambda>i. i < 0) (default_config integer_ops) = Some (Inr ())"
  by (simp add: default_config_def json_evals config_evals integer_ops_def)

theorem config_queries_witness:
  "(\<exists>t. helperTimeout integer_ops (default_config integer_ops) = ret t \<and> \<not> t < 0)
    \<and> query_ok (default_config integer_ops) ''viewer'' ''tcpPort'' (tcpPort4Viewer integer_ops (default_config integer_ops))
        (\<lambda>i. 1024 \<le> i \<and> i \<le> 65535)"
  using config_queries [OF default_config_ok] by blast

text \<open>
  The field \<open>required\<close> only has to name as many properties as there are: a configuration without any property is
  accepted, and then a query that is declared \<open>noexcept\<close> throws.
\<close>

definition bare_config :: "'f floatOps \<Rightarrow> 'f json" where
  "bare_config ops =
     (let helper = Object [(''properties'', Object []), (''required'', Array [])] in
      Object [(''activateHelper'', Boolean True), (''helperList'', Object [(''logger'', helper), (''viewer'', helper)]),
              (''helperTimeout'', Floating (of_long ops 1))])"

text \<open>A configuration that sets no property passes the verification, and every query of a property terminates the program.\<close>

theorem bare_config_accepted:
  assumes "\<not> neg (of_long ops 1)"
  shows "verifyConfigData ops neg (bare_config ops) = Some (Inr ()) \<and> filePath4Logger ops (bare_config ops) = throw OutOfRange
    \<and> tcpPort4Viewer ops (bare_config ops) = throw OutOfRange"
  using assms
  by (simp add: bare_config_def json_evals config_evals filePath4Logger_def tcpPort4Viewer_def path_of_def Let_def)

theorem bare_config_accepted_witness:
  "verifyConfigData integer_ops (\<lambda>i. i < 0) (bare_config integer_ops) = Some (Inr ())
    \<and> filePath4Logger integer_ops (bare_config integer_ops) = throw OutOfRange
    \<and> tcpPort4Viewer integer_ops (bare_config integer_ops) = throw OutOfRange"
  by (rule bare_config_accepted) (simp add: integer_ops_def)

subsection \<open>Loading\<close>

lemma prompt_returns: "\<exists>s left. promptConfigRecovery ops typed f = Some (s, left)"
proof -
  have "\<exists>s' left. waitForUserInput (recover ops) 5000 typed s = Some (s', left)" for s
    by (induction typed arbitrary: s) (auto simp: split_beta Let_def)
  then show ?thesis
    by (simp add: promptConfigRecovery_def)
qed

text \<open>The file changes only to the default configuration, and without an answer of the user the exception goes on.\<close>

lemma prompt_result:
  assumes "promptConfigRecovery ops typed f = Some (s, left)"
  shows "file_text s = f \<or> file_text s = Some (fst (forcedConfigUpdateByDefault ops))"
    "(\<forall>inp\<in>set typed. key_hash inp \<noteq> literal_hash ''y'' \<and> key_hash inp \<noteq> literal_hash ''n'') \<Longrightarrow>
      s = \<lparr>file_text = f, keepThrowing = True, raised = None\<rparr>"
proof -
  note w = assms [unfolded promptConfigRecovery_def]
  show "file_text s = f \<or> file_text s = Some (fst (forcedConfigUpdateByDefault ops))"
    by (rule wait_invariant(1) [where P = "\<lambda>s. file_text s = f \<or> file_text s = Some (fst (forcedConfigUpdateByDefault ops))", OF w])
       (auto simp: recover_def Let_def split: if_splits prod.splits option.splits)
  assume "\<forall>inp\<in>set typed. key_hash inp \<noteq> literal_hash ''y'' \<and> key_hash inp \<noteq> literal_hash ''n''"
  then show "s = \<lparr>file_text = f, keepThrowing = True, raised = None\<rparr>"
    by (intro wait_invariant(1) [where P = "\<lambda>s. s = \<lparr>file_text = f, keepThrowing = True, raised = None\<rparr>", OF w])
       (auto simp: recover_def Let_def)
qed


lemma example_attempt:
  "load_attempt integer_ops (\<lambda>i. i < 0) 1 (Some ''x'') = (Some ''x'', Some (Inl (Failed (UnknownStart CHR ''x''))))"
proof -
  have "concat (readFileLines (CHR 0x0A) ''x'' False (- 1)) = ''x''"
    by (simp add: readFileLines_limit getlines_last)
  moreover have "load integer_ops 1 ''x'' = throw (UnknownStart CHR ''x'')"
    by (simp add: load_def consumeWhitespace_def at_def isspace_def isdigit_c_def less_eq_char_def)
  ultimately show ?thesis
    by (simp add: load_attempt_def parseConfigFile_def)
qed

lemma example_answer: "key_hash ''maybe'' \<notin> {literal_hash ''y'', literal_hash ''n''}"
  by code_simp


end
