(* ===== verification/UT_Argument.thy ===== *)
theory UT_Argument
  imports Foo_Prelude "HOL-Library.AList"
begin

text \<open>
  The command line parser of src/utility/source/argument.cpp and src/utility/include/argument.hpp: the traits of an argument and
  how it consumes its values, the parser with its map from names to traits, sub-commands and the queries.

  A value (\<open>std::any\<close>) is of the type \<^typ>\<open>'v\<close>, \<^term>\<open>None\<close> when it is empty. An action maps the text to a value or throws; of
  one without a value only whether it throws is known. The traits of a parser are one list, iterators into it are positions, and the lists of
  optional and positional arguments hold positions. Sub-parsers are references to parsers that are in no other
  place: a parser and its sub-parsers are a tree. After an exception the state of the parser is left open.
\<close>

subsection \<open>Traits\<close>

datatype argError =
    BadRange | Required string | NoValueProvided string | WrongNumber string | DuplicateArgument | TooFew | TooFewFor string
  | ActionThrew string | UnknownArgument string | TooManyPositional | NoSuchArgument string | OutOfRangeAt | NothingParsed
  | NoValue string | AlwaysPresent | NoSuchSubParser string

definition sizeMax :: nat where
  "sizeMax = 2 ^ 64 - 1"

record ArgsNumRange =
  numMin :: nat
  numMax :: nat

definition ArgsNumRange_new :: "nat \<Rightarrow> nat \<Rightarrow> argError + ArgsNumRange" where
  "ArgsNumRange_new minimum maximum =
     (if minimum > maximum then Inl BadRange else Inr \<lparr>numMin = minimum, numMax = maximum\<rparr>)"

definition within :: "nat \<Rightarrow> ArgsNumRange \<Rightarrow> bool" where
  "within val r \<longleftrightarrow> val \<ge> numMin r \<and> val \<le> numMax r"

datatype 'v action = ValuedAction "string \<Rightarrow> string + 'v" | VoidAction "string \<Rightarrow> string option"

record 'v ArgTrait =
  names :: "string list"
  usedName :: string
  defaultVal :: "'v option"
  implicitVal :: "'v option"
  actions :: "'v action"
  vals :: "'v option list"
  optionalAsValue :: bool
  isOptional :: bool
  isRequired :: bool
  isRepeatable :: bool
  isUsed :: bool
  prefixes :: string
  argsNumRange :: ArgsNumRange

definition checkIfPositional :: "string \<Rightarrow> string \<Rightarrow> bool" where
  "checkIfPositional name prefix =
     (case name of
        [] \<Rightarrow> True
      | c # remain \<Rightarrow> if c \<in> set prefix then remain = [] else True)"

definition checkIfOptional :: "string \<Rightarrow> string \<Rightarrow> bool" where
  "checkIfOptional name prefix \<longleftrightarrow> \<not> checkIfPositional name prefix"

text \<open>The order of the names: by length first.\<close>

fun lex_less :: "string \<Rightarrow> string \<Rightarrow> bool" where
  "lex_less [] r = (r \<noteq> [])"
| "lex_less (a # l) [] = False"
| "lex_less (a # l) (b # r) = ((of_char a :: nat) < of_char b \<or> a = b \<and> lex_less l r)"

definition name_less :: "string \<Rightarrow> string \<Rightarrow> bool" where
  "name_less l r \<longleftrightarrow> (if length l = length r then lex_less l r else length l < length r)"

fun insert_name :: "string \<Rightarrow> string list \<Rightarrow> string list" where
  "insert_name n [] = [n]"
| "insert_name n (m # ms) = (if name_less m n then m # insert_name n ms else n # m # ms)"

definition ArgTrait_new :: "string \<Rightarrow> (string \<Rightarrow> string + 'v) \<Rightarrow> string list \<Rightarrow> 'v ArgTrait" where
  "ArgTrait_new prefix text_value collection =
     \<lparr>names = foldr insert_name collection [], usedName = [], defaultVal = None, implicitVal = None,
      actions = ValuedAction text_value, vals = [], optionalAsValue = False,
      isOptional = list_ex (\<lambda>n. checkIfOptional n prefix) collection, isRequired = False, isRepeatable = False, isUsed = False,
      prefixes = prefix, argsNumRange = \<lparr>numMin = 1, numMax = 1\<rparr>\<rparr>"

text \<open>The calls that configure a trait.\<close>

definition arg_defaultValue :: "'v \<Rightarrow> 'v ArgTrait \<Rightarrow> 'v ArgTrait" where
  "arg_defaultValue v t = t\<lparr>defaultVal := Some v\<rparr>"

definition arg_implicitValue :: "'v option \<Rightarrow> 'v ArgTrait \<Rightarrow> 'v ArgTrait" where
  "arg_implicitValue v t = t\<lparr>implicitVal := v, argsNumRange := \<lparr>numMin = 0, numMax = 0\<rparr>\<rparr>"

definition arg_required :: "'v ArgTrait \<Rightarrow> 'v ArgTrait" where
  "arg_required t = t\<lparr>isRequired := True\<rparr>"

definition arg_appending :: "'v ArgTrait \<Rightarrow> 'v ArgTrait" where
  "arg_appending t = t\<lparr>isRepeatable := True\<rparr>"

definition arg_action :: "'v action \<Rightarrow> 'v ArgTrait \<Rightarrow> 'v ArgTrait" where
  "arg_action a t = t\<lparr>actions := a\<rparr>"

definition argsNum :: "nat \<Rightarrow> nat \<Rightarrow> 'v ArgTrait \<Rightarrow> argError + 'v ArgTrait" where
  "argsNum lo hi t = (case ArgsNumRange_new lo hi of Inl e \<Rightarrow> Inl e | Inr r \<Rightarrow> Inr (t\<lparr>argsNumRange := r\<rparr>))"

datatype ArgsNumPattern = optional | anyNumber | atLeastOne

definition argsNum_pattern :: "ArgsNumPattern \<Rightarrow> 'v ArgTrait \<Rightarrow> argError + 'v ArgTrait" where
  "argsNum_pattern p =
     (case p of optional \<Rightarrow> argsNum 0 1 | anyNumber \<Rightarrow> argsNum 0 sizeMax | atLeastOne \<Rightarrow> argsNum 1 sizeMax)"

definition arg_remaining :: "'v ArgTrait \<Rightarrow> argError + 'v ArgTrait" where
  "arg_remaining t = argsNum_pattern anyNumber (t\<lparr>optionalAsValue := True\<rparr>)"

subsection \<open>Consuming values\<close>

fun transform_values :: "(string \<Rightarrow> string + 'v) \<Rightarrow> string list \<Rightarrow> argError + 'v option list" where
  "transform_values f [] = Inr []"
| "transform_values f (s # ss) =
     (case f s of Inl e \<Rightarrow> Inl (ActionThrew e)
      | Inr v \<Rightarrow> (case transform_values f ss of Inl e \<Rightarrow> Inl e | Inr vs \<Rightarrow> Inr (Some v # vs)))"

fun call_each :: "(string \<Rightarrow> string option) \<Rightarrow> string list \<Rightarrow> argError option" where
  "call_each f [] = None"
| "call_each f (s # ss) = (case f s of Some e \<Rightarrow> Some (ActionThrew e) | None \<Rightarrow> call_each f ss)"

definition applyAction :: "string list \<Rightarrow> 'v ArgTrait \<Rightarrow> argError + 'v ArgTrait" where
  "applyAction ss t =
     (case actions t of
        ValuedAction f \<Rightarrow> (case transform_values f ss of Inl e \<Rightarrow> Inl e | Inr vs \<Rightarrow> Inr (t\<lparr>vals := vals t @ vs\<rparr>))
      | VoidAction f \<Rightarrow>
          (case call_each f ss of
             Some e \<Rightarrow> Inl e
           | None \<Rightarrow>
               if defaultVal t = None \<and> \<not> optionalAsValue t
               then Inr (t\<lparr>vals := take (length ss) (vals t) @ replicate (length ss - length (vals t)) None\<rparr>)
               else Inr t))"

definition call_empty :: "'v ArgTrait \<Rightarrow> argError option" where
  "call_empty t =
     (case actions t of
        ValuedAction f \<Rightarrow> (case f [] of Inl e \<Rightarrow> Some (ActionThrew e) | Inr _ \<Rightarrow> None)
      | VoidAction f \<Rightarrow> (case f [] of Some e \<Rightarrow> Some (ActionThrew e) | None \<Rightarrow> None))"

text \<open>The part of the range that an argument takes.\<close>

definition arg_window :: "'v ArgTrait \<Rightarrow> string list \<Rightarrow> string list" where
  "arg_window t todo =
     (let window = take (numMax (argsNumRange t)) todo in
      if optionalAsValue t then window else takeWhile (\<lambda>s. \<not> checkIfOptional s (prefixes t)) window)"

text \<open>\<open>consume(start, end, argName)\<close>; the range is the list of arguments, what is left of it is the second result.\<close>

definition consume :: "'v ArgTrait \<Rightarrow> string list \<Rightarrow> string \<Rightarrow> argError + ('v ArgTrait \<times> string list)" where
  "consume t todo argName =
     (if \<not> isRepeatable t \<and> isUsed t then Inl DuplicateArgument
      else
        let t = t\<lparr>isUsed := True, usedName := argName\<rparr>; r = argsNumRange t in
        if numMax r = 0 then
          (case call_empty t of Some e \<Rightarrow> Inl e | None \<Rightarrow> Inr (t\<lparr>vals := vals t @ [implicitVal t]\<rparr>, todo))
        else if length todo \<ge> numMin r then
          let window = arg_window t todo
          in if length window < numMin r then Inl TooFew
             else (case applyAction window t of Inl e \<Rightarrow> Inl e | Inr t \<Rightarrow> Inr (t, drop (length window) todo))
        else if defaultVal t \<noteq> None then Inr (t, todo)
        else Inl (TooFewFor argName))"

definition arg_validate :: "'v ArgTrait \<Rightarrow> argError option" where
  "arg_validate t =
     (if isOptional t then
        if \<not> isUsed t \<and> defaultVal t = None \<and> isRequired t then Some (Required (hd (names t)))
        else if isUsed t \<and> isRequired t \<and> vals t = [] then Some (NoValueProvided (usedName t))
        else None
      else if \<not> within (length (vals t)) (argsNumRange t) \<and> defaultVal t = None
      then Some (WrongNumber (if usedName t = [] then hd (names t) else usedName t))
      else None)"

subsection \<open>The parser\<close>

record 'v level =
  titleName :: string
  prefixChars :: string
  assignChars :: string
  isParsed :: bool
  traits :: "'v ArgTrait list"
  optionalArgs :: "nat list"
  positionalArgs :: "nat list"
  argumentMap :: "(string \<times> nat) list"
  subParserUsed :: "(string \<times> bool) list"

text \<open>\<open>subParserMap\<close>: the sub-parsers by their title.\<close>

datatype 'v Argument = Argument (top: "'v level") (subParserMap: "(string \<times> 'v Argument) list")

definition Argument_new :: "string \<Rightarrow> 'v Argument" where
  "Argument_new title =
     Argument \<lparr>titleName = title, prefixChars = ''-'', assignChars = ''='', isParsed = False, traits = [], optionalArgs = [],
       positionalArgs = [], argumentMap = [], subParserUsed = []\<rparr> []"

definition indexArgument :: "nat \<Rightarrow> string list \<Rightarrow> 'v level \<Rightarrow> 'v level" where
  "indexArgument i ns l = l\<lparr>argumentMap := fold (\<lambda>n m. AList.update n i m) ns (argumentMap l)\<rparr>"

definition addArgument :: "(string \<Rightarrow> string + 'v) \<Rightarrow> string list \<Rightarrow> 'v level \<Rightarrow> 'v level" where
  "addArgument text_value fewArgs l =
     (let t = ArgTrait_new (prefixChars l) text_value fewArgs; i = length (traits l);
          l = l\<lparr>traits := traits l @ [t]\<rparr>;
          l = (if isOptional t then l\<lparr>optionalArgs := optionalArgs l @ [i]\<rparr> else l\<lparr>positionalArgs := positionalArgs l @ [i]\<rparr>)
      in indexArgument i (names t) l)"

definition addSubParser :: "'v Argument \<Rightarrow> 'v Argument \<Rightarrow> 'v Argument" where
  "addSubParser parser p =
     (let n = titleName (top parser) in
      Argument ((top p)\<lparr>subParserUsed := AList.update n False (subParserUsed (top p))\<rparr>)
               (AList.update n parser (subParserMap p)))"

definition find_first_of :: "string \<Rightarrow> string \<Rightarrow> nat option" where
  "find_first_of cs s = (let k = length (takeWhile (\<lambda>c. c \<notin> set cs) s) in if k < length s then Some k else None)"

definition startWithPrefixChars :: "'v level \<Rightarrow> string \<Rightarrow> bool" where
  "startWithPrefixChars l s \<longleftrightarrow> length s > 1 \<and> s ! 0 \<in> set (prefixChars l) \<and> s ! 1 \<in> set (prefixChars l)"

definition preprocess_one :: "'v level \<Rightarrow> string \<Rightarrow> string list" where
  "preprocess_one l arg =
     (case find_first_of (assignChars l) arg of
        None \<Rightarrow> [arg]
      | Some k \<Rightarrow>
          if map_of (argumentMap l) arg = None \<and> startWithPrefixChars l arg \<and> map_of (argumentMap l) (take k arg) \<noteq> None
          then [take k arg, drop (k + 1) arg] else [arg])"

definition preprocessArguments :: "'v level \<Rightarrow> string list \<Rightarrow> string list" where
  "preprocessArguments l rawArguments = concat (map (preprocess_one l) rawArguments)"

definition consume_at :: "nat \<Rightarrow> string list \<Rightarrow> string \<Rightarrow> 'v level \<Rightarrow> argError + ('v level \<times> string list)" where
  "consume_at i todo argName l =
     (case consume (traits l ! i) todo argName of
        Inl e \<Rightarrow> Inl e
      | Inr (t, todo) \<Rightarrow> Inr (l\<lparr>traits := (traits l)[i := t]\<rparr>, todo))"

text \<open>The loop over the characters of a compound argument, with \<open>argName\<close> for the message.\<close>

fun compound_loop :: "string \<Rightarrow> string \<Rightarrow> string list \<Rightarrow> 'v level \<Rightarrow> argError + ('v level \<times> string list)" where
  "compound_loop argName [] todo l = Inr (l, todo)"
| "compound_loop argName (c # cs) todo l =
     (case map_of (argumentMap l) [CHR ''-'', c] of
        None \<Rightarrow> Inl (UnknownArgument argName)
      | Some i \<Rightarrow>
          (case consume_at i todo [CHR ''-'', c] l of
             Inl e \<Rightarrow> Inl e
           | Inr (l, todo) \<Rightarrow> compound_loop argName cs todo l))"

definition processRegArgument :: "string \<Rightarrow> string list \<Rightarrow> 'v level \<Rightarrow> argError + ('v level \<times> string list)" where
  "processRegArgument argName todo l =
     (case map_of (argumentMap l) argName of
        Some i \<Rightarrow> consume_at i todo argName l
      | None \<Rightarrow>
          if length argName > 1 \<and> argName ! 0 \<in> set (prefixChars l) \<and> argName ! 1 \<notin> set (prefixChars l)
          then compound_loop argName (drop 1 argName) todo l
          else Inl (UnknownArgument argName))"

datatype 'v progress = Finished "'v level" | Dispatch string "string list" "'v level"

lemma consume_shorter: "consume t todo argName = Inr (t', todo') \<Longrightarrow> length todo' \<le> length todo"
  by (auto simp: consume_def Let_def split: if_splits option.splits sum.splits)

lemma consume_at_shorter: "consume_at i todo argName l = Inr (l', todo') \<Longrightarrow> length todo' \<le> length todo"
  by (auto simp: consume_at_def split: sum.splits dest: consume_shorter)

lemma compound_shorter: "compound_loop argName cs todo l = Inr (l', todo') \<Longrightarrow> length todo' \<le> length todo"
  by (induction cs arbitrary: todo l) (fastforce split: option.splits sum.splits dest: consume_at_shorter)+

lemma process_shorter: "processRegArgument argName todo l = Inr (l', todo') \<Longrightarrow> length todo' \<le> length todo"
  by (auto simp: processRegArgument_def split: option.splits if_splits dest: consume_at_shorter compound_shorter)

text \<open>
  The loop of \<open>parseArgsInternal\<close>, with the positions of the positional arguments that are left and the names of the sub-parsers. It
  ends: every round uses up a positional argument or an element of the list.
\<close>

function parse_loop :: "string list \<Rightarrow> nat list \<Rightarrow> string list \<Rightarrow> 'v level \<Rightarrow> argError + 'v progress" where
  "parse_loop commands ps [] l = Inr (Finished (l\<lparr>isParsed := True\<rparr>))"
| "parse_loop commands ps (currentArg # todo) l =
     (if checkIfPositional currentArg (prefixChars l) then
        (case ps of
           p # ps' \<Rightarrow>
             (case consume_at p (currentArg # todo) [] l of Inl e \<Rightarrow> Inl e | Inr (l', todo') \<Rightarrow> parse_loop commands ps' todo' l')
         | [] \<Rightarrow>
             if currentArg \<in> set commands
             then Inr (Dispatch currentArg (currentArg # todo)
                    (l\<lparr>isParsed := True, subParserUsed := AList.update currentArg True (subParserUsed l)\<rparr>))
             else Inl TooManyPositional)
      else
        (case processRegArgument currentArg todo l of Inl e \<Rightarrow> Inl e | Inr (l', todo') \<Rightarrow> parse_loop commands ps todo' l'))"
  by pat_completeness auto
termination
  by (relation "measure (\<lambda>(_, ps, todo, _). length ps + length todo)")
     (auto dest!: consume_at_shorter process_shorter)

declare parse_loop.simps [simp del]

text \<open>The result is \<^term>\<open>None\<close> when there is not even the name of the program: then the source steps past the end.\<close>

definition parse_level :: "string list \<Rightarrow> string list \<Rightarrow> 'v level \<Rightarrow> (argError + 'v progress) option" where
  "parse_level commands rawArguments l =
     (case preprocessArguments l rawArguments of
        [] \<Rightarrow> None
      | first # todo \<Rightarrow>
          let l = (if titleName l = [] then l\<lparr>titleName := first\<rparr> else l) in
          Some (parse_loop commands (positionalArgs l) todo l))"

fun validate_all :: "'v ArgTrait list \<Rightarrow> (string \<times> nat) list \<Rightarrow> argError option" where
  "validate_all ts [] = None"
| "validate_all ts ((n, i) # m) = (case arg_validate (ts ! i) of Some e \<Rightarrow> Some e | None \<Rightarrow> validate_all ts m)"

definition finish :: "'v level \<Rightarrow> (string \<times> 'v Argument) list \<Rightarrow> argError + 'v Argument" where
  "finish l subs = (case validate_all (traits l) (argumentMap l) of Some e \<Rightarrow> Inl e | None \<Rightarrow> Inr (Argument l subs))"

text \<open>\<open>parseArgs\<close> of a parser and, for a sub-command, of the sub-parser.\<close>

fun parseArgs :: "string list \<Rightarrow> 'v Argument \<Rightarrow> (argError + 'v Argument) option"
and parse_sub :: "string \<Rightarrow> string list \<Rightarrow> (string \<times> 'v Argument) list \<Rightarrow> (argError + (string \<times> 'v Argument) list) option" where
  "parseArgs arguments (Argument l subs) =
     (case parse_level (map fst subs) arguments l of
        None \<Rightarrow> None
      | Some (Inl e) \<Rightarrow> Some (Inl e)
      | Some (Inr (Finished l')) \<Rightarrow> Some (finish l' subs)
      | Some (Inr (Dispatch n todo l')) \<Rightarrow>
          (case parse_sub n todo subs of
             None \<Rightarrow> None
           | Some (Inl e) \<Rightarrow> Some (Inl e)
           | Some (Inr subs') \<Rightarrow> Some (finish l' subs')))"
| "parse_sub n todo [] = Some (Inr [])"
| "parse_sub n todo ((m, p) # subs) =
     (if m = n then
        (case parseArgs todo p of None \<Rightarrow> None | Some (Inl e) \<Rightarrow> Some (Inl e) | Some (Inr p') \<Rightarrow> Some (Inr ((m, p') # subs)))
      else
        (case parse_sub n todo subs of None \<Rightarrow> None | Some (Inl e) \<Rightarrow> Some (Inl e) | Some (Inr subs') \<Rightarrow> Some (Inr ((m, p) # subs'))))"

subsection \<open>Queries\<close>

definition resetting :: "'v ArgTrait \<Rightarrow> 'v ArgTrait" where
  "resetting t = t\<lparr>isUsed := False, usedName := [], vals := []\<rparr>"

definition clear_level :: "'v level \<Rightarrow> 'v level" where
  "clear_level l =
     l\<lparr>isParsed := False, traits := map resetting (traits l), subParserUsed := map (\<lambda>(n, _). (n, False)) (subParserUsed l)\<rparr>"

fun clearUsed :: "'v Argument \<Rightarrow> 'v Argument" where
  "clearUsed (Argument l subs) = Argument (clear_level l) (map (\<lambda>(n, p). (n, clearUsed p)) subs)"

definition findArgument :: "string \<Rightarrow> 'v level \<Rightarrow> argError + nat" where
  "findArgument argName l =
     (case map_of (argumentMap l) argName of
        Some i \<Rightarrow> Inr i
      | None \<Rightarrow>
          if argName = [] then Inl OutOfRangeAt
          else if hd argName \<notin> set (prefixChars l) then
            (case prefixChars l of
               [] \<Rightarrow> Inl OutOfRangeAt
             | c # _ \<Rightarrow>
                 (case map_of (argumentMap l) (c # argName) of
                    Some i \<Rightarrow> Inr i
                  | None \<Rightarrow>
                      (case map_of (argumentMap l) (c # c # argName) of Some i \<Rightarrow> Inr i | None \<Rightarrow> Inl (NoSuchArgument argName))))
          else Inl (NoSuchArgument argName))"

definition arg_isUsed :: "string \<Rightarrow> 'v Argument \<Rightarrow> argError + bool" where
  "arg_isUsed argName p = (case findArgument argName (top p) of Inl e \<Rightarrow> Inl e | Inr i \<Rightarrow> Inr (isUsed (traits (top p) ! i)))"

text \<open>\<open>get\<close> of one value and of a container of values; the cast of a value to its type is not modelled.\<close>

definition trait_get :: "'v ArgTrait \<Rightarrow> argError + 'v option" where
  "trait_get t =
     (if vals t \<noteq> [] then Inr (hd (vals t))
      else if defaultVal t \<noteq> None then Inr (defaultVal t)
      else Inl (NoValue (last (names t))))"

definition arg_get :: "string \<Rightarrow> 'v Argument \<Rightarrow> argError + 'v option" where
  "arg_get argName p =
     (if \<not> isParsed (top p) then Inl NothingParsed
      else case findArgument argName (top p) of Inl e \<Rightarrow> Inl e | Inr i \<Rightarrow> trait_get (traits (top p) ! i))"

definition trait_present :: "'v ArgTrait \<Rightarrow> argError + 'v option option" where
  "trait_present t =
     (if defaultVal t \<noteq> None then Inl AlwaysPresent else if vals t = [] then Inr None else Inr (Some (hd (vals t))))"

definition arg_present :: "string \<Rightarrow> 'v Argument \<Rightarrow> argError + 'v option option" where
  "arg_present argName p =
     (case findArgument argName (top p) of Inl e \<Rightarrow> Inl e | Inr i \<Rightarrow> trait_present (traits (top p) ! i))"

definition isSubcommandUsed :: "string \<Rightarrow> 'v Argument \<Rightarrow> argError + bool" where
  "isSubcommandUsed parserName p =
     (case map_of (subParserUsed (top p)) parserName of None \<Rightarrow> Inl OutOfRangeAt | Some b \<Rightarrow> Inr b)"

definition sub_parser_at :: "string \<Rightarrow> 'v Argument \<Rightarrow> argError + 'v Argument" where
  "sub_parser_at name p =
     (case map_of (subParserMap p) name of None \<Rightarrow> Inl (NoSuchSubParser name) | Some q \<Rightarrow> Inr q)"

text \<open>The conversion to \<open>bool\<close>.\<close>

definition anything_used :: "'v Argument \<Rightarrow> bool" where
  "anything_used p \<longleftrightarrow>
     isParsed (top p) \<and> (list_ex (\<lambda>(_, i). isUsed (traits (top p) ! i)) (argumentMap (top p))
                         \<or> list_ex (\<lambda>(_, b). b) (subParserUsed (top p)))"

text \<open>Without the name of the program the parser steps past the end of the list.\<close>

lemma parse_nothing: "parseArgs [] p = None"
  by (cases p) (simp add: parse_level_def preprocessArguments_def)

subsection \<open>What parsing keeps\<close>

text \<open>Consuming changes the values, the name used and the flag of a trait only.\<close>

lemma applyAction_vals:
  assumes "applyAction ss t = Inr t'"
  shows "\<exists>vs. t' = t\<lparr>vals := vs\<rparr>"
  using assms by (auto simp: applyAction_def split: action.splits sum.splits option.splits if_splits intro: exI [of _ "vals t"])

lemma consume_config:
  assumes "consume t todo n = Inr (t', todo')"
  shows "\<exists>vs. t' = t\<lparr>isUsed := True, usedName := n, vals := vs\<rparr>"
  using assms
  by (auto simp: consume_def Let_def split: if_splits option.splits sum.splits dest!: applyAction_vals intro: exI [of _ "vals t"])

lemma resetting_consume: "consume t todo n = Inr (t', todo') \<Longrightarrow> resetting t' = resetting t"
  by (auto simp: resetting_def dest!: consume_config)

lemma clear_consume_at:
  assumes "consume_at i todo n l = Inr (l', todo')"
  shows "clear_level l' = clear_level l" "argumentMap l' = argumentMap l" "prefixChars l' = prefixChars l"
    "subParserUsed l' = subParserUsed l" "titleName l' = titleName l"
proof -
  obtain t where t: "consume (traits l ! i) todo n = Inr (t, todo')" "l' = l\<lparr>traits := (traits l)[i := t]\<rparr>"
    using assms by (auto simp: consume_at_def split: sum.splits)
  have "map resetting ((traits l)[i := t]) = map resetting (traits l)"
    using resetting_consume [OF t(1)] by (cases "i < length (traits l)") (auto simp: map_update list_update_beyond intro: list_update_same_conv [THEN iffD2])
  then show "clear_level l' = clear_level l"
    by (simp add: t clear_level_def)
qed (use assms in \<open>auto simp: consume_at_def split: sum.splits\<close>)

lemma clear_parsed: "clear_level (l\<lparr>isParsed := b\<rparr>) = clear_level l"
  by (simp add: clear_level_def)

lemma clear_flag:
  "n \<in> fst ` set m \<Longrightarrow> map (\<lambda>(n, _). (n, False)) (AList.update n True m) = map (\<lambda>(n, _). (n, False)) m"
  by (induction m) auto

text \<open>The level that a successful loop leaves.\<close>

fun progress_level :: "'v progress \<Rightarrow> 'v level" where
  "progress_level (Finished l) = l"
| "progress_level (Dispatch n todo l) = l"

text \<open>One round of the loop.\<close>

lemma parse_loop_cases:
  assumes "parse_loop commands ps (currentArg # todo) l = Inr r"
  obtains
    (positional) p ps' l' todo' where "checkIfPositional currentArg (prefixChars l)" "ps = p # ps'"
      "consume_at p (currentArg # todo) [] l = Inr (l', todo')" "parse_loop commands ps' todo' l' = Inr r"
  | (command) "currentArg \<in> set commands" "ps = []"
      "r = Dispatch currentArg (currentArg # todo)
         (l\<lparr>isParsed := True, subParserUsed := AList.update currentArg True (subParserUsed l)\<rparr>)"
  | (option) l' todo' where "\<not> checkIfPositional currentArg (prefixChars l)"
      "processRegArgument currentArg todo l = Inr (l', todo')" "parse_loop commands ps todo' l' = Inr r"
  using assms
  by (auto simp: parse_loop.simps split: if_splits list.splits sum.splits)

text \<open>What every consumption keeps, the loop keeps.\<close>

lemma parse_loop_invariant:
  assumes "parse_loop commands ps todo l = Inr r" "P l"
    and consume: "\<And>i todo n l l' todo'. consume_at i todo n l = Inr (l', todo') \<Longrightarrow> P l \<Longrightarrow> P l'"
    and flag: "\<And>l n. n \<in> set commands \<Longrightarrow> P l \<Longrightarrow> P (l\<lparr>isParsed := True, subParserUsed := AList.update n True (subParserUsed l)\<rparr>)"
    and parsed: "\<And>l. P l \<Longrightarrow> P (l\<lparr>isParsed := True\<rparr>)"
  shows "P (progress_level r)"
proof -
  have compound: "compound_loop a cs todo l = Inr (l', todo') \<Longrightarrow> P l \<Longrightarrow> P l'" for a cs todo l l' todo'
    by (induction cs arbitrary: todo l) (auto split: option.splits sum.splits dest: consume)
  have process: "processRegArgument a todo l = Inr (l', todo') \<Longrightarrow> P l \<Longrightarrow> P l'" for a todo l l' todo'
    by (auto simp: processRegArgument_def split: option.splits if_splits dest: consume compound)
  have "parse_loop commands ps todo l = Inr r \<Longrightarrow> P l \<Longrightarrow> P (progress_level r)" for ps todo l
  proof (induction "length ps + length todo" arbitrary: ps todo l rule: less_induct)
    case less
    show ?case
    proof (cases todo)
      case Nil
      then show ?thesis
        using less.prems parsed by (auto simp: parse_loop.simps)
    next
      case (Cons currentArg rest)
      from less.prems(1) [unfolded Cons] show ?thesis
      proof (cases rule: parse_loop_cases)
        case (positional p ps' l' todo')
        then show ?thesis
          using less.hyps [of ps' todo' l'] consume_at_shorter [OF positional(3)] consume [OF positional(3) less.prems(2)] Cons by simp
      next
        case command
        then show ?thesis
          using flag less.prems(2) by simp
      next
        case (option l' todo')
        then show ?thesis
          using less.hyps [of ps todo' l'] process_shorter [OF option(2)] process [OF option(2) less.prems(2)] Cons by simp
      qed
    qed
  qed
  then show ?thesis
    using assms(1,2) .
qed

lemma clear_parse_loop:
  assumes "parse_loop commands ps todo l = Inr r" "set commands \<subseteq> fst ` set (subParserUsed l)"
  shows "clear_level (progress_level r) = clear_level l"
proof -
  let ?P = "\<lambda>l'. clear_level l' = clear_level l \<and> set commands \<subseteq> fst ` set (subParserUsed l')"
  have "?P (progress_level r)"
  proof (rule parse_loop_invariant [OF assms(1)])
    show "?P l'" if "consume_at i todo n k = Inr (l', todo')" "?P k" for i todo n k l' todo'
      using clear_consume_at(1,4) [OF that(1)] that(2) by simp
    show "?P (k\<lparr>isParsed := True, subParserUsed := AList.update n True (subParserUsed k)\<rparr>)"
      if "n \<in> set commands" "?P k" for k n
      using that by (auto simp: clear_level_def clear_flag subset_iff dom_update)
  qed (use assms(2) in \<open>simp_all add: clear_parsed\<close>)
  then show ?thesis
    by simp
qed

text \<open>A parser whose sub-parsers are registered, with titles throughout.\<close>

fun wf_parser :: "'v Argument \<Rightarrow> bool" where
  "wf_parser (Argument l subs) \<longleftrightarrow>
     titleName l \<noteq> [] \<and> set (map fst subs) \<subseteq> fst ` set (subParserUsed l) \<and> list_all (\<lambda>(n, p). wf_parser p) subs"

lemma parse_level_clear:
  assumes "parse_level commands args l = Some (Inr r)" "titleName l \<noteq> []" "set commands \<subseteq> fst ` set (subParserUsed l)"
  shows "clear_level (progress_level r) = clear_level l"
  using assms by (auto simp: parse_level_def Let_def split: list.splits dest: clear_parse_loop)

lemma finish_result: "finish l subs = Inr p \<Longrightarrow> p = Argument l subs"
  by (simp add: finish_def split: option.splits)

lemma clear_parse:
  fixes p :: "'v Argument" and subs :: "(string \<times> 'v Argument) list"
  shows "parseArgs args p = Some (Inr p') \<Longrightarrow> wf_parser p \<Longrightarrow> clearUsed p' = clearUsed p"
    and "parse_sub n todo subs = Some (Inr subs') \<Longrightarrow> list_all (\<lambda>(n, p). wf_parser p) subs \<Longrightarrow>
    map (\<lambda>(n, p). (n, clearUsed p)) subs' = map (\<lambda>(n, p). (n, clearUsed p)) subs"
proof (induction args p and n todo subs arbitrary: p' and subs' rule: parseArgs_parse_sub.induct)
  case (1 args l subs)
  note wf = "1.prems"(2) [simplified]
  obtain r where r: "parse_level (map fst subs) args l = Some (Inr r)"
    using "1.prems"(1) by (auto split: option.splits sum.splits)
  have l: "clear_level (progress_level r) = clear_level l"
    using parse_level_clear [OF r] wf by simp
  show ?case
  proof (cases r)
    case (Finished l')
    then show ?thesis
      using "1.prems"(1) r l by (auto dest: finish_result)
  next
    case (Dispatch n todo l')
    then obtain subs' where "parse_sub n todo subs = Some (Inr subs')" "p' = Argument l' subs'"
      using "1.prems"(1) r by (auto split: option.splits sum.splits dest: finish_result)
    then show ?thesis
      using "1.IH" [OF r] Dispatch wf l by auto
  qed
next
  case (3 n todo m p subs)
  then show ?case
    by (auto split: if_splits option.splits sum.splits)
qed simp


subsection \<open>The number of values\<close>

definition isValued :: "'v ArgTrait \<Rightarrow> bool" where
  "isValued t \<longleftrightarrow> (case actions t of ValuedAction _ \<Rightarrow> True | VoidAction _ \<Rightarrow> False)"

definition trait_ok :: "'v ArgTrait \<Rightarrow> bool" where
  "trait_ok t \<longleftrightarrow>
     (isUsed t \<or> vals t = []) \<and>
     (isUsed t \<and> \<not> isRepeatable t \<longrightarrow>
        length (vals t) \<le> max 1 (numMax (argsNumRange t))
        \<and> (defaultVal t = None \<and> isValued t \<longrightarrow> numMin (argsNumRange t) \<le> length (vals t)))"

lemma transform_length: "transform_values f ss = Inr vs \<Longrightarrow> length vs = length ss"
  by (induction ss arbitrary: vs) (auto split: sum.splits)

lemma applyAction_length:
  assumes "applyAction ss t = Inr t'" "vals t = []"
  shows "length (vals t') \<le> length ss" "isValued t \<Longrightarrow> length (vals t') = length ss"
  using assms
  by (auto simp: applyAction_def isValued_def split: action.splits sum.splits option.splits if_splits dest: transform_length)

lemma arg_window_length: "length (arg_window t todo) \<le> numMax (argsNumRange t)"
  using length_takeWhile_le [of _ "take (numMax (argsNumRange t)) todo"]
  by (auto simp: arg_window_def Let_def intro: order_trans)

lemma consume_ok:
  assumes "consume t todo n = Inr (t', todo')" "trait_ok t" "numMin (argsNumRange t) \<le> numMax (argsNumRange t)"
  shows "trait_ok t'"
proof (cases "isRepeatable t")
  case True
  then show ?thesis
    using consume_config [OF assms(1)] by (auto simp: trait_ok_def)
next
  case False
  let ?t = "t\<lparr>isUsed := True, usedName := n\<rparr>" and ?r = "argsNumRange t"
  have fresh: "vals t = []" "\<not> isUsed t"
    using assms(1,2) False by (auto simp: consume_def trait_ok_def split: if_splits)
  consider "numMax ?r = 0" | "numMax ?r \<noteq> 0" "numMin ?r \<le> length todo" | "numMax ?r \<noteq> 0" "\<not> numMin ?r \<le> length todo"
    by blast
  then show ?thesis
  proof cases
    case 2
    let ?w = "arg_window ?t todo"
    have w: "numMin ?r \<le> length ?w" "applyAction ?w ?t = Inr t'"
      using assms(1) fresh 2 by (auto simp: consume_def Let_def split: if_splits sum.splits)
    moreover have "isValued ?t = isValued t"
      by (simp add: isValued_def)
    ultimately have "length (vals t') \<le> numMax ?r" "isValued t \<Longrightarrow> numMin ?r \<le> length (vals t')"
      using applyAction_length [OF w(2)] arg_window_length [of ?t todo] fresh by auto
    then show ?thesis
      using consume_config [OF assms(1)] by (auto simp: trait_ok_def isValued_def)
  qed (use assms(1,3) fresh in \<open>auto simp: consume_def Let_def trait_ok_def split: if_splits option.splits\<close>)
qed

definition traits_ok :: "'v level \<Rightarrow> bool" where
  "traits_ok l \<longleftrightarrow> (\<forall>t\<in>set (traits l). trait_ok t \<and> numMin (argsNumRange t) \<le> numMax (argsNumRange t))"

lemma consume_at_ok:
  assumes "consume_at i todo n l = Inr (l', todo')" "traits_ok l"
  shows "traits_ok l'"
proof (cases "i < length (traits l)")
  case True
  obtain t where t: "consume (traits l ! i) todo n = Inr (t, todo')" "l' = l\<lparr>traits := (traits l)[i := t]\<rparr>"
    using assms(1) by (auto simp: consume_at_def split: sum.splits)
  have "trait_ok (traits l ! i)" "numMin (argsNumRange (traits l ! i)) \<le> numMax (argsNumRange (traits l ! i))"
    using True assms(2) by (auto simp: traits_ok_def)
  then have "trait_ok t" "numMin (argsNumRange t) \<le> numMax (argsNumRange t)"
    using consume_ok [OF t(1)] consume_config [OF t(1)] by auto
  then show ?thesis
    using assms(2) True by (auto simp: t traits_ok_def set_update_memI dest: set_update_subset_insert [THEN subsetD])
next
  case False
  then show ?thesis
    using assms by (auto simp: consume_at_def traits_ok_def list_update_beyond split: sum.splits)
qed

lemma parse_loop_ok:
  assumes "parse_loop commands ps todo l = Inr r" "traits_ok l"
  shows "traits_ok (progress_level r)"
  by (rule parse_loop_invariant [where P = traits_ok, OF assms]) (erule (1) consume_at_ok, simp_all add: traits_ok_def)

lemma parse_loop_parsed: "parse_loop commands ps todo l = Inr r \<Longrightarrow> isParsed (progress_level r)"
proof (induction "length ps + length todo" arbitrary: ps todo l rule: less_induct)
  case less
  show ?case
  proof (cases todo)
    case Nil
    then show ?thesis
      using less.prems by (auto simp: parse_loop.simps)
  next
    case (Cons currentArg others)
    from less.prems [unfolded Cons] show ?thesis
    proof (cases rule: parse_loop_cases)
      case (positional p ps' l' todo')
      then show ?thesis
        using less.hyps [of ps' todo' l'] consume_at_shorter [OF positional(3)] Cons by simp
    next
      case (option l' todo')
      then show ?thesis
        using less.hyps [of ps todo' l'] process_shorter [OF option(2)] Cons by simp
    qed simp
  qed
qed

lemma validate_all_None: "validate_all ts m = None \<longleftrightarrow> (\<forall>(n, i)\<in>set m. arg_validate (ts ! i) = None)"
  by (induction ts m rule: validate_all.induct) (auto split: option.splits)

lemma parseArgs_top:
  assumes "parseArgs args p = Some (Inr p')" "traits_ok (top p)"
  shows "isParsed (top p')" "traits_ok (top p')" "validate_all (traits (top p')) (argumentMap (top p')) = None"
proof -
  obtain l subs where p: "p = Argument l subs"
    by (cases p)
  obtain r where r: "parse_level (map fst subs) args l = Some (Inr r)"
    using assms(1) by (auto simp: p split: option.splits sum.splits)
  obtain ps todo k where k: "parse_loop (map fst subs) ps todo k = Inr r" "traits_ok k"
    using r assms(2) by (auto simp: p parse_level_def Let_def traits_ok_def split: list.splits if_splits)
  have fin: "\<exists>subs'. finish (progress_level r) subs' = Inr p'"
    using assms(1) r by (cases r) (auto simp: p split: option.splits sum.splits)
  then have "top p' = progress_level r" "validate_all (traits (top p')) (argumentMap (top p')) = None"
    by (auto simp: finish_def split: option.splits)
  then show "isParsed (top p')" "traits_ok (top p')" "validate_all (traits (top p')) (argumentMap (top p')) = None"
    using parse_loop_ok [OF k] parse_loop_parsed [OF k(1)] by auto
qed


subsection \<open>Equivalent command lines\<close>

lemma find_first_of_None: "set s \<inter> set cs = {} \<Longrightarrow> find_first_of cs s = None"
proof -
  assume "set s \<inter> set cs = {}"
  then have whole: "takeWhile (\<lambda>c. c \<notin> set cs) s = s"
    by (auto simp: takeWhile_eq_all_conv)
  show ?thesis
    unfolding find_first_of_def Let_def whole by simp
qed

lemma find_first_of_Some: "set s \<inter> set cs = {} \<Longrightarrow> c \<in> set cs \<Longrightarrow> find_first_of cs (s @ c # v) = Some (length s)"
  by (auto simp: find_first_of_def Let_def disjoint_iff takeWhile_append takeWhile_eq_all_conv)

text \<open>
  An option and its value may be given as one argument with an assignment character between them, or as two: the parser does the
  same, if the option is known, its name has two prefix characters and the value is not of that form itself.
\<close>

theorem assign_form:
  assumes "map_of (argumentMap (top p)) opt \<noteq> None" "startWithPrefixChars (top p) opt"
    and "set opt \<inter> set (assignChars (top p)) = {}" "c \<in> set (assignChars (top p))"
    and "map_of (argumentMap (top p)) (opt @ c # v) = None" "preprocess_one (top p) v = [v]"
  shows "parseArgs (xs @ (opt @ c # v) # ys) p = parseArgs (xs @ opt # v # ys) p"
proof -
  have "preprocess_one (top p) (opt @ c # v) = [opt, v]"
    using assms by (auto simp: preprocess_one_def find_first_of_Some startWithPrefixChars_def nth_append)
  moreover have "preprocess_one (top p) opt = [opt]"
    using assms(3) by (simp add: preprocess_one_def find_first_of_None)
  ultimately have "preprocessArguments (top p) (xs @ (opt @ c # v) # ys) = preprocessArguments (top p) (xs @ opt # v # ys)"
    using assms(6) by (simp add: preprocessArguments_def)
  then show ?thesis
    by (cases p) (simp add: parse_level_def)
qed

lemma flag_consume_at:
  assumes "consume_at i todo n l = Inr (l', todo')" "numMax (argsNumRange (traits l ! i)) = 0"
  shows "todo' = todo"
  using assms by (auto simp: consume_at_def consume_def Let_def split: if_splits sum.splits option.splits)

lemma consume_at_range:
  assumes "consume_at i todo n l = Inr (l', todo')"
  shows "argsNumRange (traits l' ! j) = argsNumRange (traits l ! j)"
proof -
  obtain t where t: "consume (traits l ! i) todo n = Inr (t, todo')" "l' = l\<lparr>traits := (traits l)[i := t]\<rparr>"
    using assms by (auto simp: consume_at_def split: sum.splits)
  then show ?thesis
    using consume_config [OF t(1)] by (cases "i < length (traits l)") (auto simp: nth_list_update list_update_beyond)
qed

text \<open>A character that names a flag: an option that takes no value.\<close>

definition is_flag :: "'v level \<Rightarrow> char \<Rightarrow> bool" where
  "is_flag l c \<longleftrightarrow> (\<exists>i. map_of (argumentMap l) [CHR ''-'', c] = Some i \<and> numMax (argsNumRange (traits l ! i)) = 0)"

lemma flags_separately:
  assumes "CHR ''-'' \<in> set (prefixChars l)" "\<forall>c\<in>set cs. is_flag l c"
  shows "parse_loop commands ps (map (\<lambda>c. [CHR ''-'', c]) cs @ todo) l =
    (case compound_loop a cs todo l of Inl e \<Rightarrow> Inl e | Inr (l', todo') \<Rightarrow> parse_loop commands ps todo' l')"
  using assms
proof (induction cs arbitrary: l)
  case (Cons c cs)
  obtain i where i: "map_of (argumentMap l) [CHR ''-'', c] = Some i" "numMax (argsNumRange (traits l ! i)) = 0"
    using Cons.prems(2) by (auto simp: is_flag_def)
  let ?flags = "map (\<lambda>c. [CHR ''-'', c]) cs @ todo"
  have same: "consume_at i ?flags n l = (case consume_at i todo n l of Inl e \<Rightarrow> Inl e | Inr (l', _) \<Rightarrow> Inr (l', ?flags))" for n
    using i(2) by (auto simp: consume_at_def consume_def Let_def split: sum.splits option.splits)
  show ?case
  proof (cases "consume_at i todo [CHR ''-'', c] l")
    case (Inl e)
    then show ?thesis
      using Cons.prems(1) i same by (simp add: parse_loop.simps checkIfPositional_def processRegArgument_def)
  next
    case (Inr x)
    then obtain l' where l': "consume_at i todo [CHR ''-'', c] l = Inr (l', todo)"
      using flag_consume_at [OF _ i(2)] by (cases x) auto
    have "\<forall>c\<in>set cs. is_flag l' c"
      using Cons.prems(2) by (auto simp: is_flag_def clear_consume_at(2) [OF l'] consume_at_range [OF l'])
    then show ?thesis
      using Cons.IH [of l'] Cons.prems(1) i same l' clear_consume_at(3) [OF l']
      by (simp add: parse_loop.simps checkIfPositional_def processRegArgument_def)
  qed
qed simp

text \<open>
  Flags may be given one by one or together behind one prefix character; also the errors are the same.
\<close>

theorem compound_flags:
  assumes "CHR ''-'' \<in> set (prefixChars l)" "\<forall>c\<in>set cs. is_flag l c"
    and "cs \<noteq> []" "hd cs \<notin> set (prefixChars l)" "map_of (argumentMap l) (CHR ''-'' # cs) = None"
  shows "parse_loop commands ps ((CHR ''-'' # cs) # todo) l = parse_loop commands ps (map (\<lambda>c. [CHR ''-'', c]) cs @ todo) l"
proof -
  have "cs ! 0 = hd cs"
    using assms(3) by (simp add: hd_conv_nth)
  then show ?thesis
    using assms flags_separately [OF assms(1,2), of commands ps todo "CHR ''-'' # cs"]
    by (simp add: parse_loop.simps checkIfPositional_def processRegArgument_def)
qed

subsection \<open>Examples\<close>

definition example_parser :: "string Argument" where
  "example_parser =
     (let l = top (Argument_new ''foo'');
          l = addArgument Inr [''--num'', ''-n''] l;
          l = addArgument Inr [''-a''] l;
          l = addArgument Inr [''-b''] l;
          l = addArgument Inr [''file''] l;
          l = l\<lparr>traits := (traits l)[0 := arg_required (traits l ! 0), 1 := arg_implicitValue (Some ''on'') (traits l ! 1),
                                      2 := arg_implicitValue (Some ''on'') (traits l ! 2)]\<rparr>
      in addSubParser (Argument_new ''run'') (Argument l []))"

definition example_line :: "string list" where
  "example_line = [''foo'', ''--num=7'', ''-ab'', ''x'', ''run'']"

lemma example_wf: "wf_parser example_parser" "traits_ok (top example_parser)"
  by code_simp+

lemma example_parses:
  "case parseArgs example_line example_parser of
     Some (Inr p') \<Rightarrow> map_of (argumentMap (top p')) ''--num'' = Some 0 \<and> 0 < length (traits (top p'))
       \<and> arg_get ''num'' p' = Inr (Some ''7'') \<and> arg_isUsed ''b'' p' = Inr True \<and> map_of (subParserUsed (top p')) ''run'' = Some True
   | _ \<Rightarrow> False"
  by code_simp



lemma example_assign:
  "map_of (argumentMap (top example_parser)) ''--num'' \<noteq> None" "startWithPrefixChars (top example_parser) ''--num''"
  "set ''--num'' \<inter> set (assignChars (top example_parser)) = {}" "CHR ''='' \<in> set (assignChars (top example_parser))"
  "map_of (argumentMap (top example_parser)) (''--num'' @ CHR ''='' # ''7'') = None"
  "preprocess_one (top example_parser) ''7'' = [''7'']"
  by code_simp+

theorem assign_form_witness:
  "parseArgs ([''foo''] @ (''--num'' @ CHR ''='' # ''7'') # [''x'']) example_parser
    = parseArgs ([''foo''] @ ''--num'' # ''7'' # [''x'']) example_parser"
  by (rule assign_form [OF example_assign])

lemma example_flags:
  "CHR ''-'' \<in> set (prefixChars (top example_parser))" "hd ''ab'' \<notin> set (prefixChars (top example_parser))"
  "map_of (argumentMap (top example_parser)) ''-a'' = Some 1" "map_of (argumentMap (top example_parser)) ''-b'' = Some 2"
  "numMax (argsNumRange (traits (top example_parser) ! 1)) = 0" "numMax (argsNumRange (traits (top example_parser) ! 2)) = 0"
  "map_of (argumentMap (top example_parser)) (CHR ''-'' # ''ab'') = None"
  by code_simp+

theorem compound_flags_witness:
  "parse_loop [] [3] [''-ab'', ''x''] (top example_parser) = parse_loop [] [3] [''-a'', ''-b'', ''x''] (top example_parser)"
  using compound_flags [of "top example_parser" "''ab''" "[]" "[3]" "[''x'']"] example_flags by (simp add: is_flag_def)

end
