(* ===== verification/UT_Memory.thy ===== *)
theory UT_Memory
  imports Foo_Prelude
begin

text \<open>
  The memory pool of src/utility/include/memory.hpp. Addresses are natural numbers, 0 is the null pointer. The pool keeps its blocks
  in the order of \<open>currentBlock\<close> and the \<open>next\<close> pointers behind it, and its free slots in the order of \<open>freeSlots\<close>; both lists are
  threaded through the blocks and slots themselves in the source. The resources that are in use are recorded
  in \<open>live\<close>, which the source does not have. What \<open>operator new\<close> answers is an argument.
\<close>

subsection \<open>The pool\<close>

text \<open>\<open>BlockSize\<close>, \<open>sizeof(Slot)\<close>, \<open>alignof(Slot)\<close> and \<open>sizeof(Slot*)\<close>.\<close>

record layout =
  blockSize :: nat
  slotSize :: nat
  slotAlign :: nat
  pointerSize :: nat

record Memory =
  blocks :: "nat list"
  currentSlot :: nat
  lastSlot :: nat
  freeSlots :: "nat list"
  live :: "nat set"

definition memory_init :: Memory where
  "memory_init = \<lparr>blocks = [], currentSlot = 0, lastSlot = 0, freeSlots = [], live = {}\<rparr>"

definition pointerPadding :: "nat \<Rightarrow> nat \<Rightarrow> nat" where
  "pointerPadding addr align = (if align \<noteq> 0 then (align - addr mod align) mod align else 0)"

definition createBlock :: "layout \<Rightarrow> nat \<Rightarrow> Memory \<Rightarrow> Memory" where
  "createBlock lay newBlock m =
     (let body = newBlock + pointerSize lay; offset = pointerPadding body (slotAlign lay) in
      m\<lparr>blocks := newBlock # blocks m, currentSlot := body + offset, lastSlot := newBlock + blockSize lay\<rparr>)"

text \<open>\<open>fresh\<close> is what \<open>operator new(BlockSize)\<close> answers if it is called.\<close>

definition pool_allocate :: "layout \<Rightarrow> nat \<Rightarrow> Memory \<Rightarrow> nat \<times> Memory" where
  "pool_allocate lay fresh m =
     (case freeSlots m of
        s # free \<Rightarrow> (s, m\<lparr>freeSlots := free\<rparr>)
      | [] \<Rightarrow>
          let m = (if currentSlot m = 0 \<or> currentSlot m \<ge> lastSlot m then createBlock lay fresh m else m)
          in (currentSlot m, m\<lparr>currentSlot := currentSlot m + slotSize lay\<rparr>))"

definition pool_deallocate :: "nat \<Rightarrow> Memory \<Rightarrow> Memory" where
  "pool_deallocate res m = (if res \<noteq> 0 then m\<lparr>freeSlots := res # freeSlots m\<rparr> else m)"

definition acquire :: "layout \<Rightarrow> nat \<Rightarrow> Memory \<Rightarrow> nat \<times> Memory" where
  "acquire lay fresh m = (let (res, m) = pool_allocate lay fresh m in (res, m\<lparr>live := insert res (live m)\<rparr>))"

definition release :: "nat \<Rightarrow> Memory \<Rightarrow> Memory" where
  "release res m = (if res \<noteq> 0 then pool_deallocate res (m\<lparr>live := live m - {res}\<rparr>) else m)"

text \<open>The move constructor and the move assignment: the pool that is moved from comes second.\<close>

definition memory_move :: "Memory \<Rightarrow> Memory \<times> Memory" where
  "memory_move m = (m, memory_init)"

definition memory_assign :: "Memory \<Rightarrow> Memory \<Rightarrow> Memory \<times> Memory" where
  "memory_assign self m = (m, self)"

text \<open>The destructor gives back the blocks, in this order.\<close>

definition memory_destroy :: "Memory \<Rightarrow> nat list" where
  "memory_destroy m = blocks m"

subsection \<open>What the pool keeps\<close>

text \<open>What \<open>operator new\<close> and the types guarantee: a block is aligned and does not overlap the others.\<close>

definition overlaps :: "nat \<Rightarrow> nat \<Rightarrow> nat \<Rightarrow> bool" where
  "overlaps sz a b \<longleftrightarrow> a < b + sz \<and> b < a + sz"

definition layout_ok :: "layout \<Rightarrow> bool" where
  "layout_ok lay \<longleftrightarrow> 0 < slotSize lay \<and> 0 < slotAlign lay \<and> slotSize lay mod slotAlign lay = 0
     \<and> 2 * slotSize lay \<le> blockSize lay \<and> pointerSize lay + slotAlign lay \<le> blockSize lay"

definition fresh_ok :: "layout \<Rightarrow> nat \<Rightarrow> Memory \<Rightarrow> bool" where
  "fresh_ok lay a m \<longleftrightarrow> 0 < a \<and> (\<forall>b\<in>set (blocks m). \<not> overlaps (blockSize lay) a b)"

text \<open>The first slot of a block.\<close>

definition first_slot :: "layout \<Rightarrow> nat \<Rightarrow> nat" where
  "first_slot lay b = b + pointerSize lay + pointerPadding (b + pointerSize lay) (slotAlign lay)"

text \<open>The starts of the slots the pool hands out of a block: they begin inside of it.\<close>

definition slots_of :: "layout \<Rightarrow> nat \<Rightarrow> nat set" where
  "slots_of lay b = {s. \<exists>k. s = first_slot lay b + k * slotSize lay \<and> s < b + blockSize lay}"

definition known :: "Memory \<Rightarrow> nat set" where
  "known m = live m \<union> set (freeSlots m)"

definition blocks_ok :: "layout \<Rightarrow> Memory \<Rightarrow> bool" where
  "blocks_ok lay m \<longleftrightarrow> distinct (blocks m) \<and> (\<forall>b\<in>set (blocks m). 0 < b) \<and>
     (\<forall>a\<in>set (blocks m). \<forall>b\<in>set (blocks m). a \<noteq> b \<longrightarrow> \<not> overlaps (blockSize lay) a b)"

definition pool_slots_ok :: "layout \<Rightarrow> Memory \<Rightarrow> bool" where
  "pool_slots_ok lay m \<longleftrightarrow> distinct (freeSlots m) \<and> live m \<inter> set (freeSlots m) = {} \<and>
     (\<forall>s\<in>known m. \<exists>b\<in>set (blocks m). s \<in> slots_of lay b)"

text \<open>The current slot is the next one of the newest block, and no slot of that block behind it has been handed out.\<close>

definition front_ok :: "layout \<Rightarrow> nat \<Rightarrow> Memory \<Rightarrow> bool" where
  "front_ok lay b m \<longleftrightarrow> lastSlot m = b + blockSize lay \<and> (\<exists>k. currentSlot m = first_slot lay b + k * slotSize lay)
     \<and> (\<forall>s\<in>known m. s \<in> slots_of lay b \<longrightarrow> s < currentSlot m)"

definition pool_ok :: "layout \<Rightarrow> Memory \<Rightarrow> bool" where
  "pool_ok lay m \<longleftrightarrow> blocks_ok lay m \<and> pool_slots_ok lay m \<and>
     (case blocks m of [] \<Rightarrow> currentSlot m = 0 | b # _ \<Rightarrow> front_ok lay b m)"

lemma padding_less: "0 < align \<Longrightarrow> pointerPadding addr align < align"
  by (simp add: pointerPadding_def)

lemma first_slot_inside: "layout_ok lay \<Longrightarrow> first_slot lay b < b + blockSize lay"
  using padding_less [of "slotAlign lay" "b + pointerSize lay"] by (simp add: first_slot_def layout_ok_def)

lemma first_slot_aligned: "0 < slotAlign lay \<Longrightarrow> first_slot lay b mod slotAlign lay = 0"
proof -
  assume pos: "0 < slotAlign lay"
  let ?a = "b + pointerSize lay" and ?n = "slotAlign lay"
  have "(?a + (?n - ?a mod ?n) mod ?n) mod ?n = (?a mod ?n + (?n - ?a mod ?n)) mod ?n"
    by (simp add: mod_add_left_eq mod_add_right_eq)
  also have "\<dots> = 0"
    using pos mod_less_divisor [OF pos, of ?a] by simp
  finally show ?thesis
    using pos by (simp add: first_slot_def pointerPadding_def)
qed

lemma slot_aligned:
  assumes "layout_ok lay" "s \<in> slots_of lay b"
  shows "s mod slotAlign lay = 0"
proof -
  obtain k where s: "s = first_slot lay b + k * slotSize lay"
    using assms(2) by (auto simp: slots_of_def)
  have "slotAlign lay dvd first_slot lay b" "slotAlign lay dvd slotSize lay"
    using assms(1) first_slot_aligned [of lay b] by (auto simp: layout_ok_def)
  then show ?thesis
    by (simp add: s)
qed

lemma slots_apart:
  assumes "s \<in> slots_of lay b" "t \<in> slots_of lay b" "s \<noteq> t"
  shows "\<not> overlaps (slotSize lay) s t"
proof -
  obtain i j where ij: "s = first_slot lay b + i * slotSize lay" "t = first_slot lay b + j * slotSize lay"
    using assms by (auto simp: slots_of_def)
  then have "i < j \<or> j < i"
    using assms(3) by auto
  then have "Suc i * slotSize lay \<le> j * slotSize lay \<or> Suc j * slotSize lay \<le> i * slotSize lay"
    using mult_le_mono1 [of "Suc i" j] mult_le_mono1 [of "Suc j" i] by auto
  then show ?thesis
    by (auto simp: overlaps_def ij)
qed

text \<open>Whether the slots fill the block: only then the last one ends inside of it.\<close>

definition slots_fit :: "layout \<Rightarrow> nat \<Rightarrow> bool" where
  "slots_fit lay b \<longleftrightarrow> slotSize lay dvd (b + blockSize lay - first_slot lay b)"

lemma slot_inside:
  assumes "layout_ok lay" "slots_fit lay b" "s \<in> slots_of lay b"
  shows "b \<le> s" "s + slotSize lay \<le> b + blockSize lay"
proof -
  obtain k q where s: "s = first_slot lay b + k * slotSize lay" "s < b + blockSize lay"
    and q: "b + blockSize lay - first_slot lay b = q * slotSize lay"
    using assms(2,3) by (auto simp: slots_of_def slots_fit_def dvd_def mult.commute)
  then have "k * slotSize lay < q * slotSize lay"
    using first_slot_inside [OF assms(1), of b] by linarith
  then have "Suc k * slotSize lay \<le> q * slotSize lay"
    by (intro mult_le_mono1) simp
  then show "b \<le> s" "s + slotSize lay \<le> b + blockSize lay"
    using s q first_slot_inside [OF assms(1), of b] by (auto simp: first_slot_def)
qed

lemma new_slot_member:
  assumes "currentSlot m = first_slot lay b + k * slotSize lay" "currentSlot m < b + blockSize lay"
  shows "currentSlot m \<in> slots_of lay b"
  using assms by (auto simp: slots_of_def)

lemma createBlock_fields:
  "blocks (createBlock lay a m) = a # blocks m" "currentSlot (createBlock lay a m) = first_slot lay a"
  "lastSlot (createBlock lay a m) = a + blockSize lay" "freeSlots (createBlock lay a m) = freeSlots m"
  "live (createBlock lay a m) = live m"
  by (simp_all add: createBlock_def first_slot_def Let_def)

lemma slots_disjoint_blocks:
  assumes "\<not> overlaps (blockSize lay) a b" "s \<in> slots_of lay a" "s \<in> slots_of lay b"
  shows False
  using assms by (auto simp: overlaps_def slots_of_def first_slot_def)

text \<open>A pool with a current slot that is free to be handed out: after a block has been created, or when the current one has room.\<close>

lemma createBlock_ok:
  assumes "layout_ok lay" "pool_ok lay m" "fresh_ok lay a m"
  shows "pool_ok lay (createBlock lay a m)"
proof -
  have fresh: "\<And>b. b \<in> set (blocks m) \<Longrightarrow> \<not> overlaps (blockSize lay) a b" "0 < a" "a \<notin> set (blocks m)"
    using assms(1,3) by (auto simp: fresh_ok_def overlaps_def layout_ok_def)
  have other: "s \<notin> slots_of lay a" if "s \<in> known m" for s
    using assms(2) fresh(1) slots_disjoint_blocks that unfolding pool_ok_def pool_slots_ok_def by metis
  have sym: "\<not> overlaps (blockSize lay) b a" if "b \<in> set (blocks m)" for b
    using fresh(1) [OF that] by (auto simp: overlaps_def)
  have known: "known (createBlock lay a m) = known m"
    by (simp add: known_def createBlock_fields)
  have "blocks_ok lay (createBlock lay a m)"
    using assms(2) fresh sym by (auto simp: pool_ok_def blocks_ok_def createBlock_fields)
  moreover have "pool_slots_ok lay (createBlock lay a m)"
    using assms(2) by (auto simp: pool_ok_def pool_slots_ok_def createBlock_fields known)
  moreover have "front_ok lay a (createBlock lay a m)"
    using other by (auto simp: front_ok_def createBlock_fields known intro: exI [of _ 0])
  ultimately show ?thesis
    by (simp add: pool_ok_def createBlock_fields)
qed

definition bump :: "layout \<Rightarrow> Memory \<Rightarrow> Memory" where
  "bump lay m = m\<lparr>currentSlot := currentSlot m + slotSize lay, live := insert (currentSlot m) (live m)\<rparr>"

lemma bump_ok:
  assumes "layout_ok lay" "pool_ok lay m" "freeSlots m = []" "blocks m = b # bs" "currentSlot m < lastSlot m"
  shows "pool_ok lay (bump lay m) \<and> currentSlot m \<notin> live m"
proof -
  have ok: "blocks_ok lay m" "pool_slots_ok lay m" "front_ok lay b m"
    using assms(2,4) by (auto simp: pool_ok_def)
  then obtain k where k: "currentSlot m = first_slot lay b + k * slotSize lay"
    unfolding front_ok_def by blast
  have mem: "currentSlot m \<in> slots_of lay b"
    using assms(5) ok(3) k by (intro new_slot_member [where k = k]) (auto simp: front_ok_def)
  have new: "currentSlot m \<notin> live m"
    using ok(3) mem unfolding front_ok_def known_def by blast
  have step: "currentSlot m + slotSize lay = first_slot lay b + Suc k * slotSize lay"
    by (simp add: k)
  have known: "known (bump lay m) = insert (currentSlot m) (known m)"
    by (simp add: known_def bump_def)
  have "\<forall>s\<in>known (bump lay m). s \<in> slots_of lay b \<longrightarrow> s < currentSlot (bump lay m)"
    using ok(3) assms(1) unfolding known front_ok_def layout_ok_def by (fastforce simp: bump_def)
  moreover have "currentSlot (bump lay m) = first_slot lay b + Suc k * slotSize lay" "lastSlot (bump lay m) = lastSlot m"
    using step by (simp_all add: bump_def)
  ultimately have "front_ok lay b (bump lay m)"
    using ok(3) unfolding front_ok_def by (intro conjI exI [of _ "Suc k"]) simp_all
  moreover have "pool_slots_ok lay (bump lay m)"
    using ok(2) assms(3,4) mem unfolding pool_slots_ok_def known by (simp add: bump_def)
  moreover have "blocks_ok lay (bump lay m)"
    using ok(1) by (simp add: blocks_ok_def bump_def)
  ultimately show ?thesis
    using new assms(4) by (simp add: pool_ok_def bump_def)
qed

text \<open>Moving a slot between the free ones and those in use keeps the pool.\<close>

lemma swap_ok:
  assumes "pool_ok lay m" "blocks m' = blocks m" "currentSlot m' = currentSlot m" "lastSlot m' = lastSlot m"
    and "known m' = known m" "distinct (freeSlots m')" "live m' \<inter> set (freeSlots m') = {}"
  shows "pool_ok lay m'"
  using assms by (simp add: pool_ok_def blocks_ok_def pool_slots_ok_def front_ok_def split: list.splits)

lemma reuse_ok:
  assumes "pool_ok lay m" "freeSlots m = s # free"
  shows "pool_ok lay (m\<lparr>freeSlots := free, live := insert s (live m)\<rparr>) \<and> s \<notin> live m"
proof -
  have "distinct (s # free)" "live m \<inter> set (s # free) = {}"
    using assms by (auto simp: pool_ok_def pool_slots_ok_def)
  then show ?thesis
    using assms by (intro conjI swap_ok [OF assms(1)]) (auto simp: known_def)
qed

lemma acquire_cases:
  "acquire lay fresh m =
     (case freeSlots m of
        s # free \<Rightarrow> (s, m\<lparr>freeSlots := free, live := insert s (live m)\<rparr>)
      | [] \<Rightarrow>
          let n = (if currentSlot m = 0 \<or> currentSlot m \<ge> lastSlot m then createBlock lay fresh m else m)
          in (currentSlot n, bump lay n))"
  by (simp add: acquire_def pool_allocate_def bump_def Let_def split: list.split)

lemma acquire_keeps:
  assumes "layout_ok lay" "pool_ok lay m" "fresh_ok lay fresh m" "acquire lay fresh m = (res, m')"
  shows "pool_ok lay m' \<and> res \<notin> live m \<and> live m' = insert res (live m)"
proof (cases "freeSlots m")
  case (Cons s free)
  then show ?thesis
    using assms(4) reuse_ok [OF assms(2) Cons] by (auto simp: acquire_cases)
next
  case Nil
  define n where "n = (if currentSlot m = 0 \<or> currentSlot m \<ge> lastSlot m then createBlock lay fresh m else m)"
  have n: "pool_ok lay n" "freeSlots n = []" "live n = live m"
    using createBlock_ok [OF assms(1-3)] assms(2) Nil by (auto simp: n_def createBlock_fields)
  have "\<exists>b bs. blocks n = b # bs"
    using assms(2) by (auto simp: n_def createBlock_fields pool_ok_def split: list.splits)
  then obtain b bs where b: "blocks n = b # bs"
    by blast
  have "currentSlot n < lastSlot n"
    using first_slot_inside [OF assms(1), of fresh] by (auto simp: n_def createBlock_fields)
  note ok = bump_ok [OF assms(1) n(1,2) b this]
  have acq: "acquire lay fresh m = (currentSlot n, bump lay n)"
    using Nil by (simp add: acquire_cases n_def Let_def)
  from ok
  show ?thesis
    using acq assms(4) n(3) by (simp add: bump_def)
qed

lemma release_keeps:
  assumes "pool_ok lay m" "res \<in> live m" "0 < res"
  shows "pool_ok lay (release res m) \<and> live (release res m) = live m - {res}"
proof -
  have "distinct (freeSlots m)" "live m \<inter> set (freeSlots m) = {}"
    using assms(1) by (auto simp: pool_ok_def pool_slots_ok_def)
  then show ?thesis
    using assms by (intro conjI swap_ok [OF assms(1)]) (auto simp: known_def release_def pool_deallocate_def)
qed

lemma live_in_block:
  assumes "pool_ok lay m" "s \<in> live m"
  obtains b where "b \<in> set (blocks m)" "s \<in> slots_of lay b"
  using assms unfolding pool_ok_def pool_slots_ok_def known_def by blast

lemma live_apart:
  assumes "layout_ok lay" "pool_ok lay m" "\<And>b. b \<in> set (blocks m) \<Longrightarrow> slots_fit lay b"
    and "s \<in> live m" "t \<in> live m" "s \<noteq> t"
  shows "\<not> overlaps (slotSize lay) s t"
proof -
  obtain a b where ab: "a \<in> set (blocks m)" "s \<in> slots_of lay a" "b \<in> set (blocks m)" "t \<in> slots_of lay b"
    using live_in_block [OF assms(2)] assms(4,5) by metis
  show ?thesis
  proof (cases "a = b")
    case True
    then show ?thesis
      using slots_apart ab assms(6) by blast
  next
    case False
    then have "\<not> overlaps (blockSize lay) a b"
      using assms(2) ab unfolding pool_ok_def blocks_ok_def by blast
    then show ?thesis
      using slot_inside [OF assms(1) assms(3) [OF ab(1)] ab(2)] slot_inside [OF assms(1) assms(3) [OF ab(3)] ab(4)]
      by (auto simp: overlaps_def)
  qed
qed

lemma live_inside:
  assumes "layout_ok lay" "pool_ok lay m" "\<And>b. b \<in> set (blocks m) \<Longrightarrow> slots_fit lay b" "s \<in> live m"
  shows "0 < s \<and> s mod slotAlign lay = 0
    \<and> (\<exists>b\<in>set (blocks m). b + pointerSize lay \<le> s \<and> s + slotSize lay \<le> b + blockSize lay)"
proof -
  obtain b where b: "b \<in> set (blocks m)" "s \<in> slots_of lay b"
    using live_in_block [OF assms(2,4)] .
  have "b + pointerSize lay \<le> s"
    using b(2) by (auto simp: slots_of_def first_slot_def)
  moreover have "0 < b"
    using assms(2) b(1) by (simp add: pool_ok_def blocks_ok_def)
  ultimately show ?thesis
    using b slot_inside(2) [OF assms(1) assms(3) [OF b(1)] b(2)] slot_aligned [OF assms(1) b(2)] by auto
qed

subsection \<open>Any use of the pool\<close>

text \<open>A client acquires resources, and releases the ones it holds, once each; \<open>Fresh\<close> carries what \<open>operator new\<close> would answer.\<close>

datatype pool_call = Acquire nat | Release nat

fun pool_run :: "layout \<Rightarrow> pool_call list \<Rightarrow> Memory \<Rightarrow> Memory" where
  "pool_run lay [] m = m"
| "pool_run lay (Acquire fresh # cs) m = pool_run lay cs (snd (acquire lay fresh m))"
| "pool_run lay (Release res # cs) m = pool_run lay cs (release res m)"

fun calls_ok :: "layout \<Rightarrow> pool_call list \<Rightarrow> Memory \<Rightarrow> bool" where
  "calls_ok lay [] m \<longleftrightarrow> True"
| "calls_ok lay (Acquire fresh # cs) m \<longleftrightarrow> fresh_ok lay fresh m \<and> calls_ok lay cs (snd (acquire lay fresh m))"
| "calls_ok lay (Release res # cs) m \<longleftrightarrow> (res = 0 \<or> res \<in> live m) \<and> calls_ok lay cs (release res m)"

lemma pool_run_ok: "layout_ok lay \<Longrightarrow> pool_ok lay m \<Longrightarrow> calls_ok lay cs m \<Longrightarrow> pool_ok lay (pool_run lay cs m)"
proof (induction lay cs m rule: pool_run.induct)
  case (2 lay fresh cs m)
  then show ?case
    using acquire_keeps [of lay m fresh] by (metis calls_ok.simps(2) pool_run.simps(2) prod.collapse)
next
  case (3 lay res cs m)
  then have "pool_ok lay (release res m)"
    using release_keeps [of lay m res] by (cases "res = 0") (auto simp: release_def)
  then show ?case
    using 3 by simp
qed auto

lemma memory_init_ok: "pool_ok lay memory_init"
  by (simp add: pool_ok_def blocks_ok_def pool_slots_ok_def memory_init_def known_def)


text \<open>The slots of 8 bytes fill a block of 4096 bytes.\<close>

definition lay8 :: layout where
  "lay8 = \<lparr>blockSize = 4096, slotSize = 8, slotAlign = 8, pointerSize = 8\<rparr>"

lemmas pool_eval = acquire_cases bump_def createBlock_def pointerPadding_def memory_init_def release_def pool_deallocate_def
  fresh_ok_def overlaps_def slots_fit_def first_slot_def Let_def


text \<open>A block of 4096 bytes holds 170 slots of 24 bytes behind its pointer, and 8 bytes more. The pool hands out a 171st
  slot there, which ends 16 bytes behind the end of the block.\<close>

definition lay24 :: layout where
  "lay24 = \<lparr>blockSize = 4096, slotSize = 24, slotAlign = 8, pointerSize = 8\<rparr>"

lemma acquire_many:
  assumes "freeSlots m = []" "0 < currentSlot m" "currentSlot m + n * slotSize lay < lastSlot m + slotSize lay"
    and "fresh_ok lay a m"
  shows "blocks (pool_run lay (replicate n (Acquire a)) m) = blocks m
    \<and> live (pool_run lay (replicate n (Acquire a)) m) = live m \<union> {currentSlot m + k * slotSize lay | k. k < n}
    \<and> calls_ok lay (replicate n (Acquire a)) m"
  using assms
proof (induction n arbitrary: m)
  case (Suc n)
  then have acq: "acquire lay a m = (currentSlot m, bump lay m)"
    by (simp add: acquire_cases)
  have "blocks (pool_run lay (replicate n (Acquire a)) (bump lay m)) = blocks (bump lay m)
    \<and> live (pool_run lay (replicate n (Acquire a)) (bump lay m))
        = live (bump lay m) \<union> {currentSlot (bump lay m) + k * slotSize lay | k. k < n}
    \<and> calls_ok lay (replicate n (Acquire a)) (bump lay m)"
    using Suc.prems by (intro Suc.IH) (auto simp: bump_def fresh_ok_def)
  moreover have "{c + k * s | k. k < Suc n} = insert c {c + s + k * s | k. k < n}" for c s :: nat
    by (auto simp: less_Suc_eq_0_disj intro: exI [of _ "Suc _"])
  ultimately show ?case
    using Suc.prems(4) acq by (simp add: bump_def)
qed simp

theorem pool_overrun:
  "\<exists>cs. calls_ok lay24 cs memory_init \<and> blocks (pool_run lay24 cs memory_init) = [8192]
     \<and> 12280 \<in> live (pool_run lay24 cs memory_init) \<and> 12280 + slotSize lay24 = 8192 + blockSize lay24 + 16"
proof (intro exI conjI)
  let ?m = "snd (acquire lay24 8192 memory_init)" and ?cs = "Acquire 8192 # replicate 170 (Acquire 16384)"
  have m: "?m = \<lparr>blocks = [8192], currentSlot = 8224, lastSlot = 12288, freeSlots = [], live = {8200}\<rparr>"
    by (simp add: pool_eval lay24_def)
  have many: "blocks (pool_run lay24 (replicate 170 (Acquire 16384)) ?m) = blocks ?m
    \<and> live (pool_run lay24 (replicate 170 (Acquire 16384)) ?m) = live ?m \<union> {currentSlot ?m + k * slotSize lay24 | k. k < 170}
    \<and> calls_ok lay24 (replicate 170 (Acquire 16384)) ?m"
    unfolding m by (rule acquire_many) (simp_all add: lay24_def fresh_ok_def overlaps_def)
  have "fresh_ok lay24 8192 memory_init"
    by (simp add: fresh_ok_def memory_init_def)
  then show "calls_ok lay24 ?cs memory_init"
    using many by simp
  show "blocks (pool_run lay24 ?cs memory_init) = [8192]"
    using many by (simp add: m)
  have "12280 \<in> {currentSlot ?m + k * slotSize lay24 | k. k < 170}"
    unfolding m by (rule CollectI, rule exI [of _ 169]) (simp add: lay24_def)
  then show "12280 \<in> live (pool_run lay24 ?cs memory_init)"
    using many by simp
  show "12280 + slotSize lay24 = 8192 + blockSize lay24 + 16"
    by (simp add: lay24_def)
qed

end
