(* ===== verification/UT_Thread.thy ===== *)
theory UT_Thread
  imports UT_Lock "HOL-Library.Multiset"
begin

text \<open>
  The thread pool and the timer of the utilities. The thread pool of \<open>src/utility/include/thread.hpp\<close> and \<open>src/utility/source/thread.cpp\<close> as a step relation over its workers, its
  destructor and the threads that call \<open>enqueue\<close>. What a thread does while it holds \<open>mtx\<close> is one step: the mutex lets nothing
  come between. The notifications are steps of their own, as they are sent after the mutex has been released. A thread that
  waits goes on after a notification, or, as the standard allows, without a cause.

  A task is its name and a number for the work; that the work ends is assumed. \<open>accepted\<close>, \<open>started\<close> and \<open>finished\<close> record the order of
  events and are not part of the code.
\<close>

subsection \<open>The pool and its threads\<close>

type_synonym pool_task = "string \<times> nat"

text \<open>Where a worker is in \<open>workLoop\<close>: before its critical section, in \<open>cond.wait\<close>, before \<open>producer.notify_one\<close>, before
  the call of its task, behind the return.\<close>

datatype workPC = WLock | WWait | WNotify pool_task | WRun pool_task | WExit

text \<open>Where the destructor is: not called, before its critical section, in \<open>producer.wait\<close>, before \<open>cond.notify_all\<close>, in
  the joins, behind them.\<close>

datatype dtorPC = DIdle | DLock | DWait | DNotify | DJoin | DDone

record thdPool =
  thdColl :: "workPC list"
  thdNames :: "string list"
  taskQueue :: "pool_task list"
  releaseReady :: bool
  notifies :: nat
  dtor :: dtorPC
  accepted :: "pool_task list"
  started :: "pool_task list"
  finished :: "pool_task list"

definition pool_create :: "nat \<Rightarrow> thdPool" where
  "pool_create capacity =
     \<lparr>thdColl = replicate capacity WLock, thdNames = replicate capacity '''', taskQueue = [], releaseReady = False,
      notifies = 0, dtor = DIdle, accepted = [], started = [], finished = []\<rparr>"

definition pool_enqueue :: "pool_task \<Rightarrow> thdPool \<Rightarrow> string + thdPool" where
  "pool_enqueue t p =
     (if releaseReady p then Inl ''The thread resource is coming to be released.''
      else Inr (p\<lparr>taskQueue := taskQueue p @ [t], notifies := notifies p + 1, accepted := accepted p @ [t]\<rparr>))"

text \<open>\<open>notifies\<close> counts the calls of \<open>cond.notify_one\<close> to come: one reaches a worker that waits, if there is one.\<close>

definition wake_one :: "nat \<Rightarrow> thdPool \<Rightarrow> thdPool" where
  "wake_one i p = p\<lparr>notifies := notifies p - 1, thdColl := (thdColl p)[i := WLock]\<rparr>"

definition wake_none :: "thdPool \<Rightarrow> thdPool" where
  "wake_none p = p\<lparr>notifies := notifies p - 1\<rparr>"

text \<open>The steps of \<open>workLoop\<close>.\<close>

definition work_lock :: "nat \<Rightarrow> thdPool \<Rightarrow> thdPool" where
  "work_lock i p =
     (case taskQueue p of
        [] \<Rightarrow> p\<lparr>thdColl := (thdColl p)[i := if releaseReady p then WExit else WWait]\<rparr>
      | t # q \<Rightarrow> p\<lparr>taskQueue := q, started := started p @ [t],
                   thdColl := (thdColl p)[i := if q = [] then WNotify t else WRun t]\<rparr>)"

definition work_notify :: "nat \<Rightarrow> pool_task \<Rightarrow> thdPool \<Rightarrow> thdPool" where
  "work_notify i t p = p\<lparr>thdColl := (thdColl p)[i := WRun t], dtor := (if dtor p = DWait then DLock else dtor p)\<rparr>"

definition nameLen :: nat where
  "nameLen = 15"

definition thread_name :: "string \<Rightarrow> string \<Rightarrow> string" where
  "thread_name name old = (if name \<noteq> '''' then if length name > nameLen then take nameLen name else name else old)"

definition work_run :: "nat \<Rightarrow> pool_task \<Rightarrow> thdPool \<Rightarrow> thdPool" where
  "work_run i t p =
     p\<lparr>thdColl := (thdColl p)[i := WLock], thdNames := (thdNames p)[i := thread_name (fst t) (thdNames p ! i)],
       finished := finished p @ [t]\<rparr>"

text \<open>The steps of the destructor.\<close>

definition dtor_lock :: "thdPool \<Rightarrow> thdPool" where
  "dtor_lock p = (if taskQueue p = [] then p\<lparr>releaseReady := True, dtor := DNotify\<rparr> else p\<lparr>dtor := DWait\<rparr>)"

definition woken :: "workPC \<Rightarrow> workPC" where
  "woken w = (if w = WWait then WLock else w)"

definition dtor_notify :: "thdPool \<Rightarrow> thdPool" where
  "dtor_notify p = p\<lparr>thdColl := map woken (thdColl p), dtor := DJoin\<rparr>"

text \<open>The steps the pool takes by itself. The last worker to be joined ends the destructor.\<close>

inductive pool_step :: "thdPool \<Rightarrow> thdPool \<Rightarrow> bool" where
  step_wake: "0 < notifies p \<Longrightarrow> i < length (thdColl p) \<Longrightarrow> thdColl p ! i = WWait \<Longrightarrow> pool_step p (wake_one i p)"
| step_unheard: "0 < notifies p \<Longrightarrow> WWait \<notin> set (thdColl p) \<Longrightarrow> pool_step p (wake_none p)"
| step_lock: "i < length (thdColl p) \<Longrightarrow> thdColl p ! i = WLock \<Longrightarrow> pool_step p (work_lock i p)"
| step_notify: "i < length (thdColl p) \<Longrightarrow> thdColl p ! i = WNotify t \<Longrightarrow> pool_step p (work_notify i t p)"
| step_run: "i < length (thdColl p) \<Longrightarrow> thdColl p ! i = WRun t \<Longrightarrow> pool_step p (work_run i t p)"
| step_dlock: "dtor p = DLock \<Longrightarrow> pool_step p (dtor_lock p)"
| step_dnotify: "dtor p = DNotify \<Longrightarrow> pool_step p (dtor_notify p)"
| step_join: "dtor p = DJoin \<Longrightarrow> set (thdColl p) \<subseteq> {WExit} \<Longrightarrow> pool_step p (p\<lparr>dtor := DDone\<rparr>)"

text \<open>The steps from outside: a task is added, by a thread of the program or by a task that runs; the destructor is called;
  a thread wakes up without a cause.\<close>

inductive pool_event :: "thdPool \<Rightarrow> thdPool \<Rightarrow> bool" where
  event_step: "pool_step p p' \<Longrightarrow> pool_event p p'"
| event_enqueue: "dtor p \<noteq> DDone \<Longrightarrow> pool_enqueue t p = Inr p' \<Longrightarrow> pool_event p p'"
| event_destroy: "dtor p = DIdle \<Longrightarrow> pool_event p (p\<lparr>dtor := DLock\<rparr>)"
| event_spurious: "i < length (thdColl p) \<Longrightarrow> thdColl p ! i = WWait \<Longrightarrow> pool_event p (p\<lparr>thdColl := (thdColl p)[i := WLock]\<rparr>)"
| event_spurious_dtor: "dtor p = DWait \<Longrightarrow> pool_event p (p\<lparr>dtor := DLock\<rparr>)"

subsection \<open>The tasks\<close>

fun task_held :: "workPC \<Rightarrow> pool_task multiset" where
  "task_held (WNotify t) = {#t#}"
| "task_held (WRun t) = {#t#}"
| "task_held w = {#}"

definition in_hand :: "workPC list \<Rightarrow> pool_task multiset" where
  "in_hand ws = (\<Sum>w\<leftarrow>ws. task_held w)"

lemma in_hand_update:
  "i < length ws \<Longrightarrow> in_hand (ws[i := w]) + task_held (ws ! i) = in_hand ws + task_held w"
proof (induction ws arbitrary: i)
  case (Cons v ws)
  then show ?case
    by (cases i) (auto simp: in_hand_def ac_simps)
qed simp

lemma in_hand_idle: "i < length ws \<Longrightarrow> task_held (ws ! i) = {#} \<Longrightarrow> in_hand (ws[i := w]) = in_hand ws + task_held w"
  using in_hand_update [of i ws w] by simp

lemma in_hand_woken: "in_hand (map woken ws) = in_hand ws"
proof -
  have "task_held (woken w) = task_held w" for w
    by (cases w) (simp_all add: woken_def)
  then show ?thesis
    by (simp add: in_hand_def o_def)
qed

text \<open>Tasks start in the order in which they were added, and a started one is in the hands of one worker or finished.\<close>

definition tasks_inv :: "thdPool \<Rightarrow> bool" where
  "tasks_inv p \<longleftrightarrow> accepted p = started p @ taskQueue p \<and> mset (started p) = in_hand (thdColl p) + mset (finished p)
     \<and> length (thdNames p) = length (thdColl p)"

lemma tasks_inv_step: "pool_step p p' \<Longrightarrow> tasks_inv p \<Longrightarrow> tasks_inv p'"
proof (induction rule: pool_step.induct)
  case (step_lock i p)
  then show ?case
    by (auto simp: tasks_inv_def work_lock_def in_hand_idle split: list.splits)
next
  case (step_notify i p t)
  then show ?case
    using in_hand_update [of i "thdColl p" "WRun t"] by (simp add: tasks_inv_def work_notify_def)
next
  case (step_run i p t)
  then show ?case
    using in_hand_update [of i "thdColl p" WLock] by (simp add: tasks_inv_def work_run_def)
qed (auto simp: tasks_inv_def wake_one_def wake_none_def dtor_lock_def dtor_notify_def in_hand_idle in_hand_woken)

lemma tasks_inv_event: "tasks_inv p \<Longrightarrow> pool_event p p' \<Longrightarrow> tasks_inv p'"
  by (erule pool_event.cases)
    (auto simp: tasks_inv_def pool_enqueue_def in_hand_idle dest: tasks_inv_step split: if_splits)

subsection \<open>The wake-ups\<close>

text \<open>
  After the release the queue stays empty and no worker waits once the destructor has notified them all; before it no worker leaves.
  When there are tasks, a worker is awake or about to be notified; when the destructor waits though there are none,
  a worker is about to notify it.
\<close>

definition release_inv :: "thdPool \<Rightarrow> bool" where
  "release_inv p \<longleftrightarrow>
     (releaseReady p \<longleftrightarrow> dtor p \<in> {DNotify, DJoin, DDone}) \<and> (releaseReady p \<longrightarrow> taskQueue p = []) \<and>
     (\<forall>i<length (thdColl p). (thdColl p ! i = WExit \<longrightarrow> releaseReady p) \<and>
        (dtor p \<in> {DJoin, DDone} \<longrightarrow> thdColl p ! i \<noteq> WWait) \<and> (dtor p = DDone \<longrightarrow> thdColl p ! i = WExit))"

definition awake_inv :: "thdPool \<Rightarrow> bool" where
  "awake_inv p \<longleftrightarrow> taskQueue p = [] \<or> 0 < notifies p \<or> thdColl p = [] \<or> (\<exists>i<length (thdColl p). thdColl p ! i \<noteq> WWait)"

definition notify_inv :: "thdPool \<Rightarrow> bool" where
  "notify_inv p \<longleftrightarrow> dtor p = DWait \<and> taskQueue p = [] \<longrightarrow> (\<exists>i<length (thdColl p). \<exists>t. thdColl p ! i = WNotify t)"

lemmas pool_ops = wake_one_def wake_none_def work_lock_def work_notify_def work_run_def dtor_lock_def dtor_notify_def

lemma release_inv_step:
  assumes "pool_step p p'" "release_inv p"
  shows "release_inv p'"
  using assms
proof (induction rule: pool_step.induct)
  case (step_lock i p)
  then show ?case
    by (cases "taskQueue p") (auto simp: release_inv_def work_lock_def nth_list_update)
next
  case (step_dnotify p)
  then show ?case
    by (auto simp: release_inv_def dtor_notify_def woken_def)
next
  case (step_join p)
  then show ?case
    using nth_mem by (fastforce simp: release_inv_def)
qed (auto simp: release_inv_def pool_ops nth_list_update)

lemma awake_inv_step:
  assumes "pool_step p p'" "awake_inv p"
  shows "awake_inv p'"
  using assms
proof (induction rule: pool_step.induct)
  case (step_unheard p)
  then have "thdColl p = [] \<or> thdColl p ! 0 \<noteq> WWait"
    by (cases "thdColl p") auto
  then show ?case
    by (auto simp: awake_inv_def wake_none_def)
next
  case (step_dnotify p)
  then show ?case
    by (auto simp: awake_inv_def dtor_notify_def woken_def)
next
  case (step_lock i p)
  then show ?case
    by (auto simp: awake_inv_def work_lock_def intro!: exI [of _ i] split: list.splits)
next
  case (step_wake p i)
  then show ?case
    by (auto simp: awake_inv_def wake_one_def intro!: exI [of _ i])
next
  case (step_notify i p t)
  then show ?case
    by (auto simp: awake_inv_def work_notify_def intro!: exI [of _ i])
next
  case (step_run i p t)
  then show ?case
    by (auto simp: awake_inv_def work_run_def intro!: exI [of _ i])
qed (auto simp: awake_inv_def dtor_lock_def)

text \<open>A worker that is about to notify the destructor stays so while the others move.\<close>

lemma notifier_stays:
  assumes "\<exists>j<length ws. \<exists>t. ws ! j = WNotify t" "\<And>t. ws ! i \<noteq> WNotify t"
  shows "\<exists>j<length (ws[i := w]). \<exists>t. ws[i := w] ! j = WNotify t"
proof -
  obtain j t where "j < length ws" "ws ! j = WNotify t" "j \<noteq> i"
    using assms by metis
  then show ?thesis
    by (auto intro!: exI [of _ j])
qed

lemma notify_inv_step:
  assumes "pool_step p p'" "notify_inv p"
  shows "notify_inv p'"
  using assms
proof (induction rule: pool_step.induct)
  case (step_lock i p)
  show ?case
  proof (cases "taskQueue p")
    case Nil
    then show ?thesis
      using step_lock notifier_stays [of "thdColl p" i] by (simp add: notify_inv_def work_lock_def)
  next
    case (Cons t q)
    then show ?thesis
      using step_lock(1) by (auto simp: notify_inv_def work_lock_def intro!: exI [of _ i])
  qed
next
  case (step_wake p i)
  then show ?case
    using notifier_stays [of "thdColl p" i] by (simp add: notify_inv_def wake_one_def)
next
  case (step_run i p t)
  then show ?case
    using notifier_stays [of "thdColl p" i] by (simp add: notify_inv_def work_run_def)
qed (auto simp: notify_inv_def wake_none_def work_notify_def dtor_lock_def dtor_notify_def)

definition pool_inv :: "thdPool \<Rightarrow> bool" where
  "pool_inv p \<longleftrightarrow> tasks_inv p \<and> release_inv p \<and> awake_inv p \<and> notify_inv p"

lemma sum_list_replicate_empty: "sum_list (replicate n {#}) = {#}"
  by (induction n) auto

lemma pool_inv_create: "pool_inv (pool_create n)"
  by (simp add: pool_inv_def pool_create_def tasks_inv_def release_inv_def awake_inv_def notify_inv_def in_hand_def
      sum_list_replicate_empty)

lemma pool_inv_step: "pool_inv p \<Longrightarrow> pool_step p p' \<Longrightarrow> pool_inv p'"
  by (simp add: pool_inv_def tasks_inv_step release_inv_step awake_inv_step notify_inv_step)

lemma pool_inv_event:
  assumes "pool_event p p'" "pool_inv p"
  shows "pool_inv p'"
  using assms
proof (induction rule: pool_event.induct)
  case (event_step p p')
  then show ?case
    using pool_inv_step by blast
next
  case (event_enqueue p t p')
  then show ?case
    by (auto simp: pool_inv_def tasks_inv_event [OF _ pool_event.event_enqueue] pool_enqueue_def
        tasks_inv_def release_inv_def awake_inv_def notify_inv_def split: if_splits)
next
  case (event_spurious i p)
  then have "awake_inv (p\<lparr>thdColl := (thdColl p)[i := WLock]\<rparr>)"
    by (auto simp: awake_inv_def intro!: exI [of _ i])
  then show ?case
    using event_spurious tasks_inv_event [OF _ pool_event.event_spurious] notifier_stays [of "thdColl p" i]
    by (auto simp: pool_inv_def release_inv_def notify_inv_def nth_list_update)
qed (auto simp: pool_inv_def tasks_inv_def release_inv_def awake_inv_def notify_inv_def)

lemma pool_inv_reach: "steps pool_event (pool_create n) p \<Longrightarrow> pool_inv p"
  using steps_invariant [of pool_event "pool_create n" p pool_inv] pool_inv_create pool_inv_event by blast

subsection \<open>The end of the pool\<close>

text \<open>What is left to do. A step of the pool takes something off.\<close>

fun work_left :: "workPC \<Rightarrow> nat" where
  "work_left WExit = 0"
| "work_left WWait = 1"
| "work_left WLock = 2"
| "work_left (WRun t) = 3"
| "work_left (WNotify t) = 5"

fun dtor_left :: "nat \<Rightarrow> dtorPC \<Rightarrow> nat" where
  "dtor_left n DDone = 0"
| "dtor_left n DJoin = 1"
| "dtor_left n DNotify = 2 + n"
| "dtor_left n DWait = 3 + n"
| "dtor_left n DLock = 4 + n"
| "dtor_left n DIdle = 5 + n"

definition pool_left :: "thdPool \<Rightarrow> nat" where
  "pool_left p = 4 * length (taskQueue p) + 2 * notifies p + (\<Sum>w\<leftarrow>thdColl p. work_left w)
     + dtor_left (length (thdColl p)) (dtor p)"

lemma work_left_update:
  "i < length ws \<Longrightarrow> (\<Sum>w\<leftarrow>ws[i := v]. work_left w) + work_left (ws ! i) = (\<Sum>w\<leftarrow>ws. work_left w) + work_left v"
proof (induction ws arbitrary: i)
  case (Cons v ws)
  then show ?case
    by (cases i) (auto simp: ac_simps)
qed simp

lemma work_left_woken: "(\<Sum>w\<leftarrow>map woken ws. work_left w) \<le> (\<Sum>w\<leftarrow>ws. work_left w) + length ws"
proof (induction ws)
  case (Cons w ws)
  then show ?case
    by (cases w) (auto simp: woken_def)
qed simp

lemma pool_left_step:
  assumes "pool_step p p'"
  shows "pool_left p' < pool_left p"
  using assms
proof (induction rule: pool_step.induct)
  case (step_lock i p)
  note left = work_left_update [OF step_lock(1)]
  show ?case
    using step_lock left [of WExit] left [of WWait] left [of "WNotify (hd (taskQueue p))"] left [of "WRun (hd (taskQueue p))"]
    by (cases "taskQueue p") (auto simp: pool_left_def work_lock_def)
next
  case (step_notify i p t)
  then show ?case
    using work_left_update [OF step_notify(1), of "WRun t"] by (simp add: pool_left_def work_notify_def)
next
  case (step_run i p t)
  then show ?case
    using work_left_update [OF step_run(1), of WLock] by (simp add: pool_left_def work_run_def)
next
  case (step_wake p i)
  then show ?case
    using work_left_update [OF step_wake(2), of WLock] by (simp add: pool_left_def wake_one_def)
next
  case (step_dnotify p)
  then show ?case
    using work_left_woken [of "thdColl p"] by (simp add: pool_left_def dtor_notify_def)
qed (auto simp: pool_left_def wake_none_def dtor_lock_def)

lemma worker_moves: "i < length (thdColl p) \<Longrightarrow> thdColl p ! i \<notin> {WWait, WExit} \<Longrightarrow> \<exists>p'. pool_step p p'"
  by (cases "thdColl p ! i") (auto intro: pool_step.intros)

lemma notification_moves: "0 < notifies p \<Longrightarrow> \<exists>p'. pool_step p p'"
  by (metis in_set_conv_nth step_unheard step_wake)

text \<open>From the call of the destructor to its end some thread can always go on: no wake-up is lost.\<close>

lemma pool_progress:
  assumes "pool_inv p" "thdColl p \<noteq> []" "dtor p \<notin> {DIdle, DDone}"
  shows "\<exists>p'. pool_step p p'"
proof (cases "dtor p")
  case DWait
  show ?thesis
  proof (cases "taskQueue p = []")
    case True
    then obtain i t where "i < length (thdColl p)" "thdColl p ! i = WNotify t"
      using assms(1) DWait by (auto simp: pool_inv_def notify_inv_def)
    then show ?thesis
      by (intro worker_moves [of i]) auto
  next
    case False
    then have "0 < notifies p \<or> (\<exists>i<length (thdColl p). thdColl p ! i \<noteq> WWait)"
      using assms(1,2) by (auto simp: pool_inv_def awake_inv_def)
    moreover have "thdColl p ! i \<noteq> WExit" if "i < length (thdColl p)" for i
      using assms(1) that DWait by (auto simp: pool_inv_def release_inv_def)
    ultimately show ?thesis
      using worker_moves notification_moves by blast
  qed
next
  case DJoin
  show ?thesis
  proof (cases "set (thdColl p) \<subseteq> {WExit}")
    case True
    then show ?thesis
      using DJoin step_join by blast
  next
    case False
    then obtain i where "i < length (thdColl p)" "thdColl p ! i \<noteq> WExit"
      by (metis in_set_conv_nth singletonI subsetI)
    moreover from this have "thdColl p ! i \<noteq> WWait"
      using assms(1) DJoin by (simp add: pool_inv_def release_inv_def)
    ultimately show ?thesis
      by (intro worker_moves [of i]) auto
  qed
qed (use assms(3) in \<open>auto intro: pool_step.intros\<close>)

lemma step_keeps:
  "pool_step p p' \<Longrightarrow> length (thdColl p') = length (thdColl p) \<and> (dtor p \<noteq> DIdle \<longrightarrow> dtor p' \<noteq> DIdle) \<and> accepted p' = accepted p"
  by (induction rule: pool_step.induct) (auto simp: pool_ops split: list.split)

lemma event_keeps: "pool_event p p' \<Longrightarrow> length (thdColl p') = length (thdColl p)"
  by (induction rule: pool_event.induct) (auto simp: step_keeps pool_enqueue_def split: if_splits)

lemma reach_length: "steps pool_event (pool_create n) p \<Longrightarrow> length (thdColl p) = n"
  using steps_invariant [of pool_event "pool_create n" p "\<lambda>p. length (thdColl p) = n"] event_keeps
  by (auto simp: pool_create_def)

lemma pool_steps:
  "(pool_step ^^ k) p q \<Longrightarrow> pool_inv p \<Longrightarrow> dtor p \<noteq> DIdle \<Longrightarrow>
   pool_inv q \<and> dtor q \<noteq> DIdle \<and> length (thdColl q) = length (thdColl p) \<and> accepted q = accepted p
   \<and> k + pool_left q \<le> pool_left p"
proof (induction k arbitrary: q)
  case (Suc k)
  then obtain r where r: "(pool_step ^^ k) p r" "pool_step r q"
    by auto
  then show ?case
    using Suc.IH [OF r(1) Suc.prems(2,3)] pool_inv_step step_keeps [OF r(2)] pool_left_step [OF r(2)] by auto
qed simp

lemma pool_done:
  assumes "pool_inv p" "dtor p = DDone"
  shows "set (thdColl p) \<subseteq> {WExit} \<and> started p = accepted p \<and> mset (finished p) = mset (accepted p)"
proof -
  have exits: "set (thdColl p) \<subseteq> {WExit}"
    using assms by (auto simp: pool_inv_def release_inv_def in_set_conv_nth)
  have "in_hand ws = {#}" if "set ws \<subseteq> {WExit}" for ws
    using that by (induction ws) (auto simp: in_hand_def)
  then show ?thesis
    using assms exits by (auto simp: pool_inv_def tasks_inv_def release_inv_def)
qed

text \<open>In every state any callers can bring the pool into, the tasks have been started in the order in which they
  were accepted, and each that was started is in the hands of one worker or has been run once.\<close>

theorem pool_tasks:
  assumes "steps pool_event (pool_create capacity) p"
  shows "accepted p = started p @ taskQueue p \<and> mset (started p) = in_hand (thdColl p) + mset (finished p)"
  using pool_inv_reach [OF assms] by (auto simp: pool_inv_def tasks_inv_def)

text \<open>C17: the destructor of the thread pool. Whatever state it is called in, a pool with a worker ends after a bounded number of steps of its own, and it
  does not end before the destructor has returned, every worker has left, and every accepted task has been run exactly once.\<close>

theorem pool_shutdown:
  assumes "0 < capacity" "steps pool_event (pool_create capacity) p" "dtor p \<noteq> DIdle" "(pool_step ^^ k) p q"
  shows "k \<le> pool_left p \<and>
    ((\<exists>q'. pool_step q q') \<or>
     dtor q = DDone \<and> set (thdColl q) \<subseteq> {WExit} \<and> started q = accepted p \<and> mset (finished q) = mset (accepted p))"
proof -
  have q: "pool_inv q" "dtor q \<noteq> DIdle" "length (thdColl q) = capacity" "accepted q = accepted p" "k \<le> pool_left p"
    using pool_steps [OF assms(4) pool_inv_reach [OF assms(2)] assms(3)] reach_length [OF assms(2)] by auto
  then have "(\<exists>q'. pool_step q q') \<or> dtor q = DDone"
    using assms(1) pool_progress [OF q(1)] by fastforce
  then show ?thesis
    using pool_done [OF q(1)] q(4,5) by auto
qed

text \<open>A pool with one worker and one task whose destructor is called before the worker has looked at the queue.\<close>

definition pool_one :: thdPool where
  "pool_one = \<lparr>thdColl = [WLock], thdNames = [''''], taskQueue = [(''task'', 7)], releaseReady = False, notifies = 1,
     dtor = DLock, accepted = [(''task'', 7)], started = [], finished = []\<rparr>"

lemma pool_one_reach: "steps pool_event (pool_create 1) pool_one"
proof -
  define p where "p = (pool_create 1)\<lparr>taskQueue := [(''task'', 7)], notifies := 1, accepted := [(''task'', 7)]\<rparr>"
  have "pool_event (pool_create 1) p"
    by (rule event_enqueue [of _ "(''task'', 7)"]) (simp_all add: p_def pool_create_def pool_enqueue_def)
  moreover have "pool_event p (p\<lparr>dtor := DLock\<rparr>)"
    by (rule event_destroy) (simp add: p_def pool_create_def)
  moreover have "p\<lparr>dtor := DLock\<rparr> = pool_one"
    by (simp add: p_def pool_create_def pool_one_def)
  ultimately show ?thesis
    using steps_refl steps_step by metis
qed

lemma pool_shutdown_witness:
  "dtor pool_one = DLock \<and> pool_left pool_one = 13 \<and>
   (\<exists>q. (pool_step ^^ 1) pool_one q \<and> taskQueue q = [] \<and> (\<exists>q'. pool_step q q'))"
proof -
  let ?q = "work_lock 0 pool_one"
  have "(pool_step ^^ 1) pool_one ?q"
    unfolding relpowp_1 by (rule step_lock) (simp_all add: pool_one_def)
  moreover have "\<exists>q'. pool_step ?q q'"
    using pool_shutdown [OF _ pool_one_reach _ \<open>(pool_step ^^ 1) pool_one ?q\<close>]
    by (auto simp: pool_one_def work_lock_def)
  moreover have "taskQueue ?q = []" "dtor pool_one = DLock" "pool_left pool_one = 13"
    by (simp_all add: pool_one_def pool_left_def work_lock_def)
  ultimately show ?thesis
    by blast
qed

text \<open>A pool without workers that has accepted a task: its destructor never returns.\<close>

lemma no_workers_step: "pool_step p p' \<Longrightarrow> thdColl p = [] \<Longrightarrow> thdColl p' = [] \<and> started p' = started p"
  by (induction rule: pool_step.induct) (auto simp: pool_ops)

theorem pool_without_workers:
  assumes "steps pool_event (pool_create 0) p" "accepted p \<noteq> []"
  shows "dtor p \<noteq> DDone"
proof
  assume ended: "dtor p = DDone"
  have "thdColl p = [] \<and> started p = []"
  proof (rule steps_invariant [OF assms(1)])
    show "thdColl (pool_create 0) = [] \<and> started (pool_create 0) = []"
      by (simp add: pool_create_def)
  next
    fix p p' assume "thdColl p = [] \<and> started p = []" "pool_event p p'"
    then show "thdColl p' = [] \<and> started p' = []"
      by (auto elim!: pool_event.cases dest: no_workers_step simp: pool_enqueue_def split: if_splits)
  qed
  then show False
    using pool_done [OF pool_inv_reach [OF assms(1)] ended] assms(2) by simp
qed

section \<open>The timer\<close>

text \<open>
  \<open>Timer\<close> of \<open>src/utility/source/time.cpp\<close>. The worker waits for the interval or for a stop request; it looks at the request
  when the wait ends. \<open>worker\<close> is \<open>None\<close> when the thread is not joinable. \<open>fired\<close> counts the calls of the callback; \<open>callback\<close> says
  whether there is one. One thread uses the timer; while it is in \<open>stop\<close> (\<open>in_stop\<close>) it waits for the join.
\<close>

datatype timerPC = TWait bool | TEnd

record Timer =
  callback :: bool
  worker :: "timerPC option"
  stop_requested :: bool
  in_stop :: bool
  fired :: nat

definition timer_init :: "bool \<Rightarrow> Timer" where
  "timer_init cb = \<lparr>callback = cb, worker = None, stop_requested = False, in_stop = False, fired = 0\<rparr>"

definition isRunning :: "Timer \<Rightarrow> bool" where
  "isRunning t \<longleftrightarrow> worker t \<noteq> None"

definition timer_start :: "bool \<Rightarrow> Timer \<Rightarrow> Timer" where
  "timer_start isPeriodic t =
     (if isRunning t then t else t\<lparr>worker := Some (TWait isPeriodic), stop_requested := False\<rparr>)"

text \<open>The end of one \<open>waitTimeout\<close> and what follows it in the worker.\<close>

definition timer_expire :: "Timer \<Rightarrow> Timer" where
  "timer_expire t =
     (case worker t of
        Some (TWait isPeriodic) \<Rightarrow>
          if \<not> stop_requested t \<and> callback t
          then t\<lparr>fired := fired t + 1, worker := Some (if isPeriodic then TWait True else TEnd)\<rparr>
          else t\<lparr>worker := Some TEnd\<rparr>
      | _ \<Rightarrow> t)"

text \<open>\<open>stop\<close> in two steps: the request, and the join when the worker has ended.\<close>

definition timer_stop :: "Timer \<Rightarrow> Timer" where
  "timer_stop t = (if \<not> isRunning t then t else t\<lparr>stop_requested := True, in_stop := True\<rparr>)"

definition timer_join :: "Timer \<Rightarrow> Timer" where
  "timer_join t = (if in_stop t \<and> worker t = Some TEnd then t\<lparr>worker := None, in_stop := False\<rparr> else t)"

datatype timer_event = Start bool | Expire | Stop | Join

fun timer_do :: "timer_event \<Rightarrow> Timer \<Rightarrow> Timer" where
  "timer_do (Start b) t = (if in_stop t then t else timer_start b t)"
| "timer_do Expire t = timer_expire t"
| "timer_do Stop t = (if in_stop t then t else timer_stop t)"
| "timer_do Join t = timer_join t"

definition timer_after :: "timer_event list \<Rightarrow> Timer \<Rightarrow> Timer" where
  "timer_after es t = fold timer_do es t"

text \<open>Once \<open>stop\<close> is called the callback is not called again, and one more end of the wait lets \<open>stop\<close> return.\<close>

lemma in_stop_quiet: "in_stop t \<Longrightarrow> stop_requested t \<Longrightarrow> Join \<notin> set es \<Longrightarrow>
  fired (timer_after es t) = fired t \<and> in_stop (timer_after es t) \<and> stop_requested (timer_after es t)"
proof (induction es arbitrary: t)
  case (Cons e es)
  have "fired (timer_do e t) = fired t \<and> in_stop (timer_do e t) \<and> stop_requested (timer_do e t)"
    using Cons.prems by (cases e) (auto simp: timer_expire_def split: option.split timerPC.split)
  then show ?case
    using Cons by (simp add: timer_after_def)
qed (simp add: timer_after_def)

theorem timer_stop_returns:
  assumes "isRunning t" "\<not> in_stop t"
  shows "worker (timer_after [Stop, Expire, Join] t) = None" "\<not> in_stop (timer_after [Stop, Expire, Join] t)"
    and "fired (timer_after [Stop, Expire, Join] t) = fired t"
  using assms
  by (auto simp: timer_after_def timer_stop_def timer_expire_def timer_join_def isRunning_def split: option.splits timerPC.splits)

text \<open>A timer that is not periodic keeps its worker after it has fired: it counts as running, and a further \<open>start\<close> does
  nothing, whatever else happens before \<open>stop\<close> is called.\<close>

lemma ended_stays:
  "worker t = Some TEnd \<Longrightarrow> \<not> in_stop t \<Longrightarrow> Stop \<notin> set es \<Longrightarrow> timer_after es t = t"
proof (induction es arbitrary: t)
  case (Cons e es)
  then have "timer_do e t = t"
    by (cases e) (auto simp: timer_start_def isRunning_def timer_expire_def timer_join_def)
  then show ?case
    using Cons by (simp add: timer_after_def)
qed (simp add: timer_after_def)

theorem timer_fires_once:
  assumes "Stop \<notin> set es"
  shows "fired (timer_after (Start False # Expire # es) (timer_init True)) = 1"
    and "isRunning (timer_after (Start False # Expire # es) (timer_init True))"
proof -
  let ?t = "timer_after [Start False, Expire] (timer_init True)"
  have t: "worker ?t = Some TEnd" "\<not> in_stop ?t" "fired ?t = 1"
    by (simp_all add: timer_after_def timer_start_def timer_init_def isRunning_def timer_expire_def)
  have "timer_after (Start False # Expire # es) (timer_init True) = timer_after es ?t"
    by (simp add: timer_after_def)
  then show "fired (timer_after (Start False # Expire # es) (timer_init True)) = 1"
    "isRunning (timer_after (Start False # Expire # es) (timer_init True))"
    using ended_stays [OF t(1,2) assms] t by (simp_all add: isRunning_def)
qed

end
