(* ===== verification/AP_Console.thy ===== *)
theory AP_Console
  imports UT_Io UT_Json
begin

text \<open>
  The console of \<open>src/application/core/source/console.cpp\<close>: the table of options, the execution of a line and of a batch file, and
  the completion of an option's name. What is printed is appended to a string. The handlers that a client registers are
  arguments: they take the words of the line and the output so far. The files, the banner and the history list of the line editor come
  with the environment. The change of the line editor's history between two consoles is not modelled.

  A batch file may run a batch file. \<open>optionExecutor n\<close> allows \<open>n\<close> of them inside of each other; \<open>None\<close> stands for a call that has
  not returned by then.
\<close>

subsection \<open>The table of options\<close>

datatype RetCode = RetCode_quit | RetCode_success | RetCode_error

datatype consoleError = ConsoleRuntime string | ConsoleRange

text \<open>The actions of the default options, one of the client, and the empty \<open>std::function\<close>.\<close>

datatype 'h Action = ShowUsage | DoQuit | DoTrace | DoClean | DoBatch | Client 'h | NoAction

record 'h Terminal =
  greeting :: string
  orderList :: "string list"
  regTable :: "string \<rightharpoonup> string \<times> 'h Action"
  helpAlign :: nat

definition getOptionHelpPairs :: "'h Terminal \<Rightarrow> (string \<times> string) list option" where
  "getOptionHelpPairs t = those (map (\<lambda>opt. map_option (\<lambda>(help, _). (opt, help)) (regTable t opt)) (orderList t))"

text \<open>\<open>emplace\<close> keeps an entry that is there. \<open>helpAlign\<close> has eight bits.\<close>

definition registerOption :: "string \<Rightarrow> string \<Rightarrow> 'h Action \<Rightarrow> 'h Terminal \<Rightarrow> consoleError + 'h Terminal" where
  "registerOption name description handler t =
     (let t = t\<lparr>orderList := orderList t @ [name],
                regTable := (if regTable t name = None then (regTable t)(name \<mapsto> (description, handler)) else regTable t)\<rparr>
      in case getOptionHelpPairs t of
           None \<Rightarrow> Inl ConsoleRange
         | Some ps \<Rightarrow> Inr (t\<lparr>helpAlign := fold max (map (\<lambda>(opt, _). length opt) ps) 0 mod 2 ^ 8\<rparr>))"

definition default_option :: "string \<Rightarrow> string \<Rightarrow> 'h Action \<Rightarrow> 'h Terminal \<Rightarrow> 'h Terminal" where
  "default_option name help act t = t\<lparr>regTable := (regTable t)(name \<mapsto> (help, act)), orderList := orderList t @ [name]\<rparr>"

definition setDefaultOptions :: "'h Terminal \<Rightarrow> 'h Terminal" where
  "setDefaultOptions t =
     default_option ''batch'' ''run lines from the file [inputs: FILE]'' DoBatch
       (default_option ''clean'' ''clear full screen'' DoClean
         (default_option ''trace'' ''get history of applied options'' DoTrace
           (default_option ''quit'' ''exit the console'' DoQuit
             (default_option ''usage'' ''show help message'' ShowUsage t))))"

definition console_create :: "string \<Rightarrow> 'h Terminal" where
  "console_create hello = setDefaultOptions \<lparr>greeting = hello, orderList = [], regTable = Map.empty, helpAlign = 0\<rparr>"

definition setGreeting :: "string \<Rightarrow> 'h Terminal \<Rightarrow> 'h Terminal" where
  "setGreeting hello t = t\<lparr>greeting := hello\<rparr>"

subsection \<open>Lines and batch files\<close>

text \<open>The words that \<open>std::istream_iterator<std::string>\<close> reads.\<close>

function stream_words :: "string \<Rightarrow> string list" where
  "stream_words s =
     (let s = dropWhile isspace s in
      if s = [] then [] else takeWhile (\<lambda>c. \<not> isspace c) s # stream_words (dropWhile (\<lambda>c. \<not> isspace c) s))"
  by pat_completeness auto
termination
proof (relation "measure length")
  fix s x :: string
  assume "x = dropWhile isspace s" "x \<noteq> []"
  then have "\<not> isspace (hd x)" "length x \<le> length s"
    using hd_dropWhile [of isspace s] length_dropWhile_le [of isspace s] by auto
  then have "length (dropWhile (\<lambda>c. \<not> isspace c) x) < length x"
    using \<open>x \<noteq> []\<close> length_dropWhile_le [of "\<lambda>c. \<not> isspace c" "tl x"] by (cases x) auto
  then show "(dropWhile (\<lambda>c. \<not> isspace c) x, s) \<in> measure length"
    using \<open>length x \<le> length s\<close> by simp
qed simp

declare stream_words.simps [simp del]

record consoleEnv =
  fileOf :: "string \<Rightarrow> string option"
  banner :: string
  historyList :: "string list option"
  historyBase :: nat

type_synonym 'r executed = "((consoleError + 'r) \<times> string) option"

abbreviation newline :: char where "newline \<equiv> CHR 0x0A"

definition left_aligned :: "nat \<Rightarrow> string \<Rightarrow> string" where
  "left_aligned w s = s @ replicate (w - length s) CHR '' ''"

definition right_aligned :: "nat \<Rightarrow> string \<Rightarrow> string" where
  "right_aligned w s = replicate (w - length s) CHR '' '' @ s"

definition usage_text :: "nat \<Rightarrow> (string \<times> string) list \<Rightarrow> string" where
  "usage_text w ps = concat (map (\<lambda>(opt, help). ''- '' @ left_aligned w opt @ ''    '' @ help @ [newline]) ps)"

definition trace_text :: "nat \<Rightarrow> string list \<Rightarrow> string" where
  "trace_text base hs =
     (let align = length (show_nat (length hs)) + 1 in
      concat (map (\<lambda>(i, h). right_aligned align (show_nat (i + base)) @ ''  '' @ h @ [newline]) (enumerate 0 hs)))"

text \<open>The callbacks of \<open>setDefaultOptions\<close> and of the client; \<open>runBatch\<close> is \<open>fileExecutor\<close>.\<close>

fun run_action ::
  "(string \<Rightarrow> string \<Rightarrow> RetCode executed) \<Rightarrow> consoleEnv \<Rightarrow> ('h \<Rightarrow> string list \<Rightarrow> string \<Rightarrow> (consoleError + RetCode) \<times> string) \<Rightarrow>
   'h Terminal \<Rightarrow> 'h Action \<Rightarrow> string list \<Rightarrow> string \<Rightarrow> RetCode executed" where
  "run_action runBatch env handler t ShowUsage inputs out =
     Some (case getOptionHelpPairs t of
             None \<Rightarrow> (Inl ConsoleRange, out)
           | Some ps \<Rightarrow> (Inr RetCode_success, out @ usage_text (helpAlign t) ps))"
| "run_action runBatch env handler t DoQuit inputs out = Some (Inr RetCode_quit, out @ ''exit'' @ [newline])"
| "run_action runBatch env handler t DoTrace inputs out =
     Some (Inr RetCode_success,
       out @ (case historyList env of Some hs \<Rightarrow> trace_text (historyBase env) hs | None \<Rightarrow> ''no history'' @ [newline]))"
| "run_action runBatch env handler t DoClean inputs out =
     Some (Inr RetCode_success, out @ CHR 0x1B # ''[2J'' @ CHR 0x1B # ''[1;1H'' @ banner env @ [newline])"
| "run_action runBatch env handler t DoBatch inputs out =
     (if length inputs < 2
      then Some (Inl (ConsoleRuntime (''Please enter the '' @ [quote] @ ''batch'' @ [quote] @ '' and append with FILE (full path).'')), out)
      else runBatch (inputs ! 1) out)"
| "run_action runBatch env handler t (Client h) inputs out = Some (handler h inputs out)"
| "run_action runBatch env handler t NoAction inputs out = Some (Inr RetCode_success, out)"

definition run_option ::
  "(string \<Rightarrow> string \<Rightarrow> RetCode executed) \<Rightarrow> consoleEnv \<Rightarrow> ('h \<Rightarrow> string list \<Rightarrow> string \<Rightarrow> (consoleError + RetCode) \<times> string) \<Rightarrow>
   'h Terminal \<Rightarrow> string \<Rightarrow> string \<Rightarrow> RetCode executed" where
  "run_option runBatch env handler t option out =
     (case stream_words option of
        [] \<Rightarrow> Some (Inr RetCode_success, out)
      | w # ws \<Rightarrow>
          (case regTable t w of
             None \<Rightarrow> Some (Inl (ConsoleRuntime (''The console option ('' @ w @ '') could not be found. Enter the '' @ [quote] @ ''usage''
                       @ [quote] @ '' for help.'')), out)
           | Some (_, act) \<Rightarrow> run_action runBatch env handler t act (w # ws) out))"

definition skipped :: "string \<Rightarrow> bool" where
  "skipped input \<longleftrightarrow> input = [] \<or> hd input = CHR ''#''"

definition line_head :: "nat \<Rightarrow> string \<Rightarrow> string" where
  "line_head counter input = CHR ''#'' # show_nat counter @ CHR '' '' # input @ [newline]"

fun run_lines :: "(string \<Rightarrow> string \<Rightarrow> RetCode executed) \<Rightarrow> string list \<Rightarrow> nat \<Rightarrow> string \<Rightarrow> RetCode executed" where
  "run_lines exec [] counter out = Some (Inr RetCode_success, out)"
| "run_lines exec (input # inputs) counter out =
     (if skipped input then run_lines exec inputs counter out
      else let counter = (counter + 1) mod 2 ^ 32 in
           case exec input (out @ line_head counter input) of
             None \<Rightarrow> None
           | Some (Inl e, out) \<Rightarrow> Some (Inl e, out)
           | Some (Inr result, out) \<Rightarrow>
               if result \<noteq> RetCode_success then Some (Inr result, out)
               else run_lines exec inputs counter (out @ [newline]))"

definition fileExecutor :: "(string \<Rightarrow> string \<Rightarrow> RetCode executed) \<Rightarrow> consoleEnv \<Rightarrow> string \<Rightarrow> string \<Rightarrow> RetCode executed" where
  "fileExecutor exec env filename out =
     (case fileOf env filename of
        None \<Rightarrow> Some (Inl (ConsoleRuntime (''Could not find the '' @ filename @ '' file to run.'')), out)
      | Some content \<Rightarrow> run_lines exec (getlines newline content) 0 out)"

primrec optionExecutor ::
  "nat \<Rightarrow> consoleEnv \<Rightarrow> ('h \<Rightarrow> string list \<Rightarrow> string \<Rightarrow> (consoleError + RetCode) \<times> string) \<Rightarrow> 'h Terminal \<Rightarrow> string \<Rightarrow> string \<Rightarrow>
   RetCode executed" where
  "optionExecutor 0 env handler t = run_option (\<lambda>_ _. None) env handler t"
| "optionExecutor (Suc n) env handler t = run_option (fileExecutor (optionExecutor n env handler t) env) env handler t"

text \<open>\<open>readLine\<close>: \<open>buffer\<close> is what the line editor returns, \<open>None\<close> at the end of the input. The second result is the line added to the history.\<close>

definition readLine ::
  "nat \<Rightarrow> consoleEnv \<Rightarrow> ('h \<Rightarrow> string list \<Rightarrow> string \<Rightarrow> (consoleError + RetCode) \<times> string) \<Rightarrow> 'h Terminal \<Rightarrow> string option \<Rightarrow> string \<Rightarrow>
   RetCode executed \<times> string option" where
  "readLine n env handler t buffer out =
     (case buffer of
        None \<Rightarrow> (Some (Inr RetCode_quit, out @ [newline]), None)
      | Some input \<Rightarrow> (optionExecutor n env handler t input out, if input \<noteq> [] then Some input else None))"

subsection \<open>Completion\<close>

text \<open>\<open>customCompentry\<close>: \<open>table\<close> is the order in which the table is traversed, \<open>it\<close> what is left of it. The second component is the new iterator.\<close>

definition starts_with :: "string \<Rightarrow> string \<Rightarrow> bool" where
  "starts_with opt s \<longleftrightarrow> take (length s) opt = s"

definition customCompentry :: "string \<Rightarrow> nat \<Rightarrow> string list \<Rightarrow> string list \<Rightarrow> string option \<times> string list" where
  "customCompentry word state table it =
     (let it = (if state = 0 then table else it) in
      case dropWhile (\<lambda>opt. \<not> starts_with opt word) it of
        [] \<Rightarrow> (None, [])
      | opt # it \<Rightarrow> (Some opt, it))"

text \<open>The line editor asks with the states 0, 1, and so on, up to the first null pointer; \<open>n\<close> bounds the number of its calls.\<close>

fun completions :: "nat \<Rightarrow> string \<Rightarrow> nat \<Rightarrow> string list \<Rightarrow> string list \<Rightarrow> string list option" where
  "completions 0 word state table it = None"
| "completions (Suc n) word state table it =
     (case customCompentry word state table it of
        (None, it) \<Rightarrow> Some []
      | (Some opt, it) \<Rightarrow> map_option ((#) opt) (completions n word (state + 1) table it))"

text \<open>\<open>customCompleter\<close>, for a console that is the current session: the name of an option is completed at the start of the line; behind an option and blanks
  its help is printed. The first result says whether the names are to be matched.\<close>

definition customCompleter :: "'h Terminal \<Rightarrow> nat \<Rightarrow> string \<Rightarrow> string \<Rightarrow> bool \<times> string" where
  "customCompleter t start buffer out =
     (if start = 0 then (True, out)
      else if CHR '' '' \<notin> set buffer then (False, out)
      else let opt = takeWhile (\<lambda>c. c \<noteq> CHR '' '') buffer; behind = drop (length opt + 1) buffer in
           if \<exists>c\<in>set behind. c \<noteq> CHR '' '' then (False, out)
           else case regTable t opt of
                  None \<Rightarrow> (False, out)
                | Some (help, _) \<Rightarrow>
                    (False, out @ newline # ''- '' @ left_aligned (helpAlign t) opt @ ''    '' @ help @ [newline]))"

subsection \<open>What the table holds\<close>

type_synonym 'h registration = "string \<times> string \<times> 'h Action"

definition default_entries :: "'h registration list" where
  "default_entries = [(''usage'', ''show help message'', ShowUsage), (''quit'', ''exit the console'', DoQuit),
     (''trace'', ''get history of applied options'', DoTrace), (''clean'', ''clear full screen'', DoClean),
     (''batch'', ''run lines from the file [inputs: FILE]'', DoBatch)]"

fun register_all :: "'h registration list \<Rightarrow> 'h Terminal \<Rightarrow> consoleError + 'h Terminal" where
  "register_all [] t = Inr t"
| "register_all ((name, description, handler) # rs) t =
     (case registerOption name description handler t of Inl e \<Rightarrow> Inl e | Inr t \<Rightarrow> register_all rs t)"

text \<open>A console that has the entries \<open>es\<close>, in this order; the first of a name counts.\<close>

definition holds_entries :: "'h registration list \<Rightarrow> 'h Terminal \<Rightarrow> bool" where
  "holds_entries es t \<longleftrightarrow> orderList t = map fst es \<and> regTable t = map_of es"

lemma those_known: "(\<And>x. x \<in> set xs \<Longrightarrow> f x \<noteq> None) \<Longrightarrow> those (map f xs) = Some (map (the \<circ> f) xs)"
  by (induction xs) fastforce+

lemma help_pairs:
  assumes "holds_entries es t"
  shows "getOptionHelpPairs t = Some (map (\<lambda>(opt, _). (opt, fst (the (map_of es opt)))) es)"
proof -
  have known: "map_of es opt \<noteq> None" if "opt \<in> set (map fst es)" for opt
    using that by (simp add: map_of_eq_None_iff)
  have "getOptionHelpPairs t = those (map (\<lambda>opt. map_option (\<lambda>(help, _). (opt, help)) (map_of es opt)) (map fst es))"
    using assms by (simp add: getOptionHelpPairs_def holds_entries_def)
  also have "\<dots> = Some (map (the \<circ> (\<lambda>opt. map_option (\<lambda>(help, _). (opt, help)) (map_of es opt))) (map fst es))"
    using known by (intro those_known) simp
  also have "\<dots> = Some (map (\<lambda>(opt, _). (opt, fst (the (map_of es opt)))) es)"
    using known by (force simp: case_prod_beta option.map_sel)
  finally show ?thesis .
qed

lemma map_of_snoc: "map_of (es @ [(k, v)]) = (if map_of es k = None then (map_of es)(k \<mapsto> v) else map_of es)"
  by (auto simp: map_of_append map_add_def fun_eq_iff split: option.splits)

definition longest :: "'h registration list \<Rightarrow> nat" where
  "longest es = fold max (map (\<lambda>(opt, _). length opt) es) 0"

lemma registerOption_holds:
  assumes "holds_entries es t"
  shows "\<exists>t'. registerOption name description handler t = Inr t' \<and> holds_entries (es @ [(name, description, handler)]) t'
    \<and> helpAlign t' = longest (es @ [(name, description, handler)]) mod 2 ^ 8 \<and> greeting t' = greeting t"
proof -
  let ?es = "es @ [(name, description, handler)]"
  let ?t = "t\<lparr>orderList := orderList t @ [name],
    regTable := (if regTable t name = None then (regTable t)(name \<mapsto> (description, handler)) else regTable t)\<rparr>"
  have holds: "holds_entries ?es ?t"
    using assms by (simp add: holds_entries_def map_of_snoc del: map_of_append)
  then show ?thesis
    using help_pairs [OF holds]
    by (simp add: registerOption_def holds_entries_def longest_def case_prod_beta' o_def)
qed

lemma console_create_holds: "holds_entries default_entries (console_create hello)"
  by (simp add: holds_entries_def default_entries_def console_create_def setDefaultOptions_def default_option_def fun_eq_iff)

lemma register_all_holds:
  "holds_entries es t \<Longrightarrow> \<exists>t'. register_all rs t = Inr t' \<and> holds_entries (es @ rs) t' \<and> (rs \<noteq> [] \<longrightarrow> helpAlign t' = longest (es @ rs) mod 2 ^ 8)"
proof (induction rs arbitrary: es t)
  case (Cons r rs)
  obtain name description handler where r: "r = (name, description, handler)"
    by (cases r) auto
  obtain t1 where t1: "registerOption name description handler t = Inr t1" "holds_entries (es @ [r]) t1"
    "helpAlign t1 = longest (es @ [r]) mod 2 ^ 8"
    using registerOption_holds [OF Cons.prems, of name description handler] r by auto
  then show ?case
    using Cons.IH [OF t1(2)] by (cases rs) (auto simp: r)
qed simp

text \<open>C19: whatever a client registers, in whatever order, registration succeeds, and the console behaves as the list of the default
  options and the registrations in which the first one of a name counts: a line runs the action of the first entry with its first word,
  and the help lists one line for every entry, of the width of the longest name modulo 256.\<close>

theorem console_table:
  "\<exists>t. register_all (r # rs) (console_create hello) = Inr t \<and>
     (\<forall>n w ws line out. stream_words line = w # ws \<longrightarrow>
        optionExecutor (Suc n) env handler t line out =
          (case map_of (default_entries @ r # rs) w of
             None \<Rightarrow> Some (Inl (ConsoleRuntime (''The console option ('' @ w @ '') could not be found. Enter the '' @ [quote] @ ''usage''
                       @ [quote] @ '' for help.'')), out)
           | Some (_, act) \<Rightarrow>
               run_action (fileExecutor (optionExecutor n env handler t) env) env handler t act (w # ws) out)) \<and>
     (\<forall>n out. optionExecutor n env handler t ''usage'' out = Some (Inr RetCode_success, out @
        usage_text (longest (default_entries @ r # rs) mod 2 ^ 8)
          (map (\<lambda>(opt, _). (opt, fst (the (map_of (default_entries @ r # rs) opt)))) (default_entries @ r # rs))))"
proof -
  let ?es = "default_entries @ r # rs"
  obtain t where t: "register_all (r # rs) (console_create hello) = Inr t" "holds_entries ?es t"
    "helpAlign t = longest ?es mod 2 ^ 8"
    using register_all_holds [OF console_create_holds, of "r # rs" hello] by auto
  have table: "regTable t = map_of ?es"
    using t(2) by (simp add: holds_entries_def)
  have usage: "map_of ?es ''usage'' = Some (''show help message'', ShowUsage)"
    by (simp add: default_entries_def)
  have words: "stream_words ''usage'' = [''usage'']"
    by (simp add: stream_words.simps isspace_def)
  have run: "run_option b env handler t ''usage'' out = Some (Inr RetCode_success, out @
      usage_text (longest ?es mod 2 ^ 8) (map (\<lambda>(opt, _). (opt, fst (the (map_of ?es opt)))) ?es))" for b out
    unfolding run_option_def words table by (simp only: list.case usage option.case prod.case run_action.simps help_pairs [OF t(2)] t(3))
  have "optionExecutor n env handler t ''usage'' out = Some (Inr RetCode_success, out @
      usage_text (longest ?es mod 2 ^ 8) (map (\<lambda>(opt, _). (opt, fst (the (map_of ?es opt)))) ?es))" for n out
    by (cases n) (simp_all only: optionExecutor.simps run)
  moreover have "optionExecutor (Suc n) env handler t line out =
          (case map_of ?es w of
             None \<Rightarrow> Some (Inl (ConsoleRuntime (''The console option ('' @ w @ '') could not be found. Enter the '' @ [quote] @ ''usage''
                       @ [quote] @ '' for help.'')), out)
           | Some (_, act) \<Rightarrow>
               run_action (fileExecutor (optionExecutor n env handler t) env) env handler t act (w # ws) out)"
    if "stream_words line = w # ws" for n w ws line out
    unfolding optionExecutor.simps run_option_def that table list.case ..
  ultimately show ?thesis
    using t(1) by blast
qed

text \<open>Registering a name again lists it twice and keeps the first action.\<close>

lemma registered_twice:
  assumes "register_all [(name, h1, Client a), (name, h2, Client b)] (console_create hello) = Inr t" "name \<notin> fst ` set (default_entries :: 'h registration list)"
  shows "regTable t name = Some (h1, Client (a :: 'h))" "orderList t = [''usage'', ''quit'', ''trace'', ''clean'', ''batch'', name, name]"
proof -
  have "holds_entries (default_entries @ [(name, h1, Client a), (name, h2, Client b)]) t"
    using register_all_holds [OF console_create_holds, of "[(name, h1, Client a), (name, h2, Client b)]" hello] assms(1) by auto
  then show "regTable t name = Some (h1, Client a)" "orderList t = [''usage'', ''quit'', ''trace'', ''clean'', ''batch'', name, name]"
    using assms(2) by (auto simp: holds_entries_def default_entries_def)
qed

subsection \<open>Batch files\<close>

text \<open>More room for batch files inside of each other does not change what has been computed.\<close>

lemma run_lines_mono:
  assumes "\<And>l out r. exec l out = Some r \<Longrightarrow> exec' l out = Some r" "run_lines exec ls c out = Some r"
  shows "run_lines exec' ls c out = Some r"
  using assms(2)
proof (induction ls arbitrary: c out)
  case (Cons l ls)
  then show ?case
    using assms(1) by (auto simp: Let_def split: if_splits option.splits sum.splits)
qed simp

lemma run_option_mono:
  assumes "\<And>f out r. b f out = Some r \<Longrightarrow> b' f out = Some r" "run_option b env handler t l out = Some r"
  shows "run_option b' env handler t l out = Some r"
proof -
  have "run_action b env handler t act ws out = Some r \<Longrightarrow> run_action b' env handler t act ws out = Some r" for act ws
    using assms(1) by (cases act) (auto split: if_splits)
  then show ?thesis
    using assms(2) by (auto simp: run_option_def split: list.splits option.splits)
qed

lemma fileExecutor_mono:
  "(\<And>l out r. exec l out = Some r \<Longrightarrow> exec' l out = Some r) \<Longrightarrow> fileExecutor exec env f out = Some r \<Longrightarrow> fileExecutor exec' env f out = Some r"
  by (cases "fileOf env f") (simp_all add: fileExecutor_def run_lines_mono [of exec exec'])

lemma optionExecutor_mono:
  "optionExecutor n env handler t l out = Some r \<Longrightarrow> optionExecutor (Suc n) env handler t l out = Some r"
proof (induction n arbitrary: l out r)
  case 0
  then show ?case
    by (auto intro: run_option_mono)
next
  case (Suc n)
  have "run_option (fileExecutor (optionExecutor n env handler t) env) env handler t l out = Some r"
    using Suc.prems by simp
  then have "run_option (fileExecutor (optionExecutor (Suc n) env handler t) env) env handler t l out = Some r"
    by (rule run_option_mono [rotated]) (erule fileExecutor_mono [rotated], rule Suc.IH)
  then show ?case
    by (simp only: optionExecutor.simps)
qed

text \<open>A batch file, on actions that return a code and append to the output: the lines that are neither empty nor comments are numbered and run up to
  the first that does not succeed; its code is the result, and the later lines have no effect.\<close>

definition transcript :: "(string \<Rightarrow> string) \<Rightarrow> nat \<Rightarrow> string list \<Rightarrow> string" where
  "transcript says c ls = concat (map (\<lambda>(i, l). line_head i l @ says l @ [newline]) (enumerate c ls))"

definition batch_spec :: "(string \<Rightarrow> RetCode) \<Rightarrow> (string \<Rightarrow> string) \<Rightarrow> nat \<Rightarrow> string list \<Rightarrow> RetCode \<times> string" where
  "batch_spec code says c ls =
     (let good = takeWhile (\<lambda>l. code l = RetCode_success) ls in
      case drop (length good) ls of
        [] \<Rightarrow> (RetCode_success, transcript says c ls)
      | l # _ \<Rightarrow> (code l, transcript says c good @ line_head (c + length good) l @ says l))"

lemma batch_spec_stop: "code l \<noteq> RetCode_success \<Longrightarrow> batch_spec code says c (l # ls) = (code l, line_head c l @ says l)"
  by (simp add: batch_spec_def transcript_def)

lemma batch_spec_next:
  assumes "code l = RetCode_success"
  shows "batch_spec code says c (l # ls) =
    (fst (batch_spec code says (c + 1) ls), line_head c l @ says l @ newline # snd (batch_spec code says (c + 1) ls))"
  using assms by (simp add: batch_spec_def transcript_def Let_def split: list.split)

lemma run_lines_spec:
  assumes "\<And>l out. l \<in> set ls \<Longrightarrow> exec l out = Some (Inr (code l), out @ says l)" "c + length ls < 2 ^ 32"
  shows "run_lines exec ls c out =
    (case batch_spec code says (c + 1) (filter (\<lambda>l. \<not> skipped l) ls) of (r, txt) \<Rightarrow> Some (Inr r, out @ txt))"
  using assms
proof (induction ls arbitrary: c out)
  case Nil
  then show ?case
    by (simp add: batch_spec_def transcript_def)
next
  case (Cons l ls)
  have l: "exec l out = Some (Inr (code l), out @ says l)" for out
    using Cons.prems(1) by simp
  have c: "Suc c mod 4294967296 = Suc c"
    using Cons.prems(2) by (intro mod_less) simp
  show ?case
  proof (cases "skipped l")
    case True
    then show ?thesis
      using Cons.IH [of c out] Cons.prems by simp
  next
    case False
    note IH = Cons.IH [of "c + 1" "out @ line_head (c + 1) l @ says l @ [newline]"]
    show ?thesis
    proof (cases "code l = RetCode_success")
      case True
      then show ?thesis
        using False IH Cons.prems by (simp add: l c Let_def batch_spec_next case_prod_beta)
    next
      case False
      then show ?thesis
        using \<open>\<not> skipped l\<close> by (simp add: l c Let_def batch_spec_stop)
    qed
  qed
qed

theorem batch_transcript:
  assumes "fileOf env f = Some content" "length (getlines newline content) < 2 ^ 32"
    and "\<forall>l\<in>set (getlines newline content). \<forall>out. exec l out = Some (Inr (code l), out @ says l)"
  shows "fileExecutor exec env f out =
    (case batch_spec code says 1 (filter (\<lambda>l. \<not> skipped l) (getlines newline content)) of (r, txt) \<Rightarrow> Some (Inr r, out @ txt))"
  using assms run_lines_spec [of "getlines newline content" exec code says 0 out] by (simp add: fileExecutor_def)

text \<open>The words of a line.\<close>

lemma stream_words_Nil: "stream_words [] = []"
  by (simp add: stream_words.simps)

lemma stream_words_word: "w \<noteq> [] \<Longrightarrow> \<forall>c\<in>set w. \<not> isspace c \<Longrightarrow> stream_words w = [w]"
proof -
  assume w: "w \<noteq> []" "\<forall>c\<in>set w. \<not> isspace c"
  then have d: "dropWhile isspace w = w" "takeWhile (\<lambda>c. \<not> isspace c) w = w" "dropWhile (\<lambda>c. \<not> isspace c) w = []"
    by (cases w; simp)+
  then show ?thesis
    using w(1) by (simp only: stream_words.simps [of w] d Let_def if_False stream_words_Nil)
qed

lemma stream_words_space: "isspace c \<Longrightarrow> stream_words (c # s) = stream_words s"
  by (simp add: stream_words.simps [of "c # s"] stream_words.simps [of s])

lemma stream_words_first:
  assumes "w \<noteq> []" "\<forall>c\<in>set w. \<not> isspace c" "isspace c"
  shows "stream_words (w @ c # s) = w # stream_words s"
proof -
  have "dropWhile isspace (w @ c # s) = w @ c # s"
    using assms(1,2) by (cases w) auto
  moreover have "takeWhile (\<lambda>c. \<not> isspace c) (w @ c # s) = w" "dropWhile (\<lambda>c. \<not> isspace c) (w @ c # s) = c # s"
    using assms(2,3) by (auto simp: takeWhile_append dropWhile_append takeWhile_eq_all_conv dropWhile_eq_Nil_conv)
  ultimately show ?thesis
    using assms(1,3) by (subst stream_words.simps) (simp add: stream_words_space)
qed

text \<open>A file whose first line runs the file itself never returns.\<close>

theorem batch_of_itself:
  assumes "regTable t ''batch'' = Some (help, DoBatch)" "fileOf env f = Some (''batch '' @ f @ [newline])"
    and "f \<noteq> []" "\<forall>c\<in>set f. \<not> isspace c"
  shows "optionExecutor n env handler t (''batch '' @ f) out = None"
proof -
  have words: "stream_words (''batch '' @ f) = [''batch'', f]"
    using stream_words_first [of "''batch''" "CHR '' ''" f] assms(3,4) by (simp add: stream_words_word isspace_def)
  have lines: "getlines newline (''batch '' @ f @ [newline]) = [''batch '' @ f]"
    using getlines_line [of newline "''batch '' @ f" "[]"] assms(4) by (auto simp: isspace_def getlines_last [of newline "[]"])
  have content: "fileOf env f = Some (''batch '' @ f @ [newline])"
    by (rule assms(2))
  show ?thesis
  proof (induction n arbitrary: out)
    case 0
    show ?case
      unfolding optionExecutor.simps run_option_def words by (simp add: assms(1))
  next
    case (Suc n)
    have "skipped (''batch '' @ f) = False"
      by (simp add: skipped_def)
    then have "run_lines (optionExecutor n env handler t) [''batch '' @ f] 0 out = None" for out
      by (simp only: run_lines.simps Let_def Suc if_False option.case)
    then show ?case
      unfolding optionExecutor.simps run_option_def words
      by (simp add: assms(1) fileExecutor_def content lines del: append_Cons append_Nil)
  qed
qed

text \<open>The file \<open>f\<close> that runs itself.\<close>

definition env_self :: consoleEnv where
  "env_self = \<lparr>fileOf = (\<lambda>f. if f = ''f'' then Some (''batch f'' @ [newline]) else None), banner = [], historyList = None, historyBase = 1\<rparr>"

lemma batch_of_itself_witness:
  "\<forall>n. optionExecutor n env_self (\<lambda>(_::nat) _ out. (Inr RetCode_success, out)) (console_create ''>'') ''batch f'' [] = None"
proof
  fix n
  have "regTable (console_create ''>'' :: nat Terminal) ''batch'' = Some (''run lines from the file [inputs: FILE]'', DoBatch)"
    by (simp add: console_create_def setDefaultOptions_def default_option_def)
  moreover have "fileOf env_self ''f'' = Some (''batch '' @ ''f'' @ [newline])"
    by (simp add: env_self_def)
  ultimately show "optionExecutor n env_self (\<lambda>(_::nat) _ out. (Inr RetCode_success, out)) (console_create ''>'') ''batch f'' [] = None"
    using batch_of_itself [of "console_create ''>''" _ env_self "''f''" n "\<lambda>(_::nat) _ out. (Inr RetCode_success, out)" "[]"]
    by (simp add: isspace_def)
qed

lemma console_table_witness:
  "\<exists>t. register_all [(''go'', ''help'', Client (0::nat))] (console_create ''>'') = Inr t \<and>
     optionExecutor 1 env_self (\<lambda>h ws out. (Inr RetCode_quit, out @ concat ws)) t ''go 7'' ''.'' = Some (Inr RetCode_quit, ''.go7'')"
proof -
  have words: "stream_words ''go 7'' = [''go'', ''7'']"
    by (simp add: stream_words.simps isspace_def)
  show ?thesis
    using console_table [of "(''go'', ''help'', Client (0::nat))" "[]" "''>''" env_self "\<lambda>h ws out. (Inr RetCode_quit, out @ concat ws)"]
    apply (elim exE conjE)
    subgoal premises reg for t
      using reg(1) reg(2) [rule_format, OF words, of 0 "''.''"]
      by (intro exI [of _ t] conjI) (simp_all add: default_entries_def del: optionExecutor.simps)
    done
qed

subsection \<open>Completions\<close>

text \<open>The line editor gets every option that begins with the word, once for each entry of the table, and no other.\<close>

lemma completions_all:
  "length (if state = 0 then table else it) < n \<Longrightarrow>
   completions n word state table it = Some (filter (\<lambda>opt. starts_with opt word) (if state = 0 then table else it))"
proof (induction n arbitrary: state it)
  case (Suc n)
  define xs where "xs = (if state = 0 then table else it)"
  show ?case
  proof (cases "dropWhile (\<lambda>opt. \<not> starts_with opt word) xs")
    case Nil
    have "customCompentry word state table it = (None, [])"
      by (simp only: customCompentry_def Let_def xs_def [symmetric] Nil list.case)
    moreover have "filter (\<lambda>opt. starts_with opt word) xs = []"
      using Nil by (simp add: dropWhile_eq_Nil_conv filter_empty_conv)
    ultimately show ?thesis
      by (simp add: xs_def [symmetric])
  next
    case (Cons opt it')
    have xs: "xs = takeWhile (\<lambda>opt. \<not> starts_with opt word) xs @ opt # it'"
      using takeWhile_dropWhile_id [of "\<lambda>opt. \<not> starts_with opt word" xs] Cons by simp
    have "starts_with opt word"
      using hd_dropWhile [of "\<lambda>opt. \<not> starts_with opt word" xs] Cons by simp
    moreover have "filter (\<lambda>opt. starts_with opt word) (takeWhile (\<lambda>opt. \<not> starts_with opt word) xs) = []"
      by (auto simp: filter_empty_conv dest: set_takeWhileD)
    ultimately have "filter (\<lambda>opt. starts_with opt word) xs = opt # filter (\<lambda>opt. starts_with opt word) it'"
      by (subst xs) simp
    moreover have "length it' < n"
      using Suc.prems arg_cong [OF xs, of length] by (simp add: xs_def [symmetric])
    moreover have "customCompentry word state table it = (Some opt, it')"
      by (simp only: customCompentry_def Let_def xs_def [symmetric] Cons list.case)
    ultimately show ?thesis
      using Suc.IH [of "state + 1" it'] by (simp add: xs_def [symmetric])
  qed
qed simp

end
