(* ===== verification/Spec2Isabelle.thy ===== *)
theory Spec2Isabelle
  imports DS_Heap_Mergeable DS_Heap_Binary DS_Tree_AVL DS_Tree_Splay DS_Tree_BS
    DS_Cache_LRU DS_Cache_FIFO DS_Cache_LFU DS_Linear DS_Filter_Bloom DS_Graph_Directed DS_Graph_Undirected AL_Sort_Divide AL_Sort_Digit AL_Search AL_Notation
    AL_Match_Skip NU_Arithmetic NU_Divisor NU_Prime UT_Encoding UT_Lock UT_Json_Load
    AP_Log AP_View AP_Message AP_Setting UT_Argument
    UT_Memory UT_Thread AP_Console
begin

text \<open>
  A verification library for the C++ program \<open>foo\<close>: its algorithm, data structure, numeric and utility
  modules, which the application exercises through its examples, and the logger and the viewer of the
  application itself, which run as services beside them, with the viewer's protocol, the configuration and
  the console.

  \<^bold>\<open>Parts and their theories.\<close> One theory holds one component. Names follow the source; a
  prefix or suffix tells apart functions of the same name in different namespaces.

  \<^item> \<open>Foo_Prelude\<close>: the compare callbacks the containers are used with
    (\<open>apply_data_structure.hpp\<close>), preorders on their results, buffer reads, lemmas on lists.
  \<^item> \<open>DS_Heap_Mergeable\<close>, \<open>DS_Heap_Binary\<close>: \<open>heap.cpp\<close>. Leftist and skew heaps are trees, the binary
    heap is its array with size and capacity. The mergeable heaps share a locale of what merging
    promises; draining a heap sorts its keys.
  \<^item> \<open>DS_Tree_Spec\<close>, \<open>DS_Tree_BS\<close>, \<open>DS_Tree_AVL\<close>, \<open>DS_Tree_Splay\<close>: \<open>tree.cpp\<close>. A tree of nodes is a
    datatype; a node that a function takes only for its key is passed as a tree. \<open>DS_Tree_Spec\<close> states
    what an ordered container promises; the AVL and the splay tree implement sets, the plain search
    tree implements bags. The AVL tree also keeps its balance, hence a logarithmic height.
  \<^item> \<open>DS_Cache_Spec\<close>, \<open>DS_Cache_FIFO\<close>, \<open>DS_Cache_LRU\<close>, \<open>DS_Cache_LFU\<close>: \<open>cache.hpp\<close>. The lists, maps,
    slots and iterators of the three caches, their invariant, the abstract view (a list of entries
    in order of eviction), the policy of every operation on that view, and coherence with a map.
  \<^item> \<open>DS_Linear\<close>: \<open>linear.cpp\<close>. Doubly linked circular lists in an explicit store of nodes with an
    allocator that may fail; a dangling pointer makes the result \<^term>\<open>None\<close>. Stack and queue are the
    list used at its ends.
  \<^item> \<open>AL_Sort_Simple\<close>, \<open>AL_Sort_Divide\<close>: \<open>sort.hpp\<close>. The loops of the comparison sorts over an indexed
    list; every method returns the sorted permutation. \<open>AL_Sort_Digit\<close>: counting and radix sort of 32-bit
    integers, with the conditions under which nothing overflows.
  \<^item> \<open>DS_Filter_Bloom\<close>: \<open>filter.cpp\<close>, the hash function and the Bloom filter, refined to the set of keys
    inserted since it was cleared.
  \<^item> \<open>DS_Graph_Traverse\<close>, \<open>DS_Graph_Directed\<close>, \<open>DS_Graph_Undirected\<close>: \<open>graph.cpp\<close>. The first holds the code both
    namespaces repeat, vertex search, neighbour sort and traversals, with a locale of what a traversal
    needs of a graph; both graphs are interpretations. They live in an explicit store of edge nodes and
    are refined to abstract graphs over the data of the vertices.
  \<^item> \<open>AL_Notation\<close>: \<open>notation.cpp\<close>, against a grammar of expression trees.
  \<^item> \<open>AL_Search\<close>: \<open>search.hpp\<close>, binary and Fibonacci search with 32-bit indices.
  \<^item> \<open>AL_Match\<close>, \<open>AL_Match_Skip\<close>: \<open>match.cpp\<close>. A locale states what a matching method returns: the
    position of the first occurrence or -1; Rabin-Karp, Boyer-Moore, Horspool and Sunday are
    interpretations. Knuth-Morris-Pratt is only sound: its table is too small and it can miss.
  \<^item> \<open>NU_Arithmetic\<close>, \<open>NU_Divisor\<close>, \<open>NU_Prime\<close>: \<open>arithmetic.cpp\<close>, \<open>divisor.cpp\<close>, \<open>prime.cpp\<close>. Signed
    32-bit values are words, or integers with the range written out; overflow that the language
    leaves undefined is \<^term>\<open>None\<close>.
  \<^item> \<open>UT_Encoding\<close>: \<open>common.cpp\<close>, the BKDR hash, Base64 and CRC-32 on words.
  \<^item> \<open>UT_Lock\<close>: \<open>common.cpp\<close>, the spin lock and the read-write lock with its guards, as step relations
    in which threads interleave at every access to a mutex, an atomic or the condition variable.
  \<^item> \<open>UT_Json\<close>, \<open>UT_Json_Load\<close>: \<open>json.cpp\<close> and \<open>json.hpp\<close>. The first holds values, parser, printers, conversions and
    access; the second proves that what either printer writes loads back as the value. The parser can
    recurse without end, so it takes a bound on its depth, and the theorem says that every bound above
    some depth gives the result.
  \<^item> \<open>UT_Fsm\<close>: \<open>fsm.hpp\<close>, the state machine template; an event takes the first row of the transition table that
    applies. A locale says that what every row keeps, the machine keeps.
  \<^item> \<open>AP_Helper\<close>, \<open>AP_Log\<close>, \<open>AP_View\<close>: \<open>log.cpp\<close>, \<open>log.hpp\<close>, \<open>view.cpp\<close>, \<open>view.hpp\<close> of the application core. The first
    holds what both services share, as a step relation: the service loop with its retries, the calls
    \<open>startup\<close>, \<open>shutdown\<close> and \<open>reload\<close> of the access controller, and the flags and the condition variable between
    them. Its locale \<open>helper_class\<close> states what a class has to provide so that no assertion of the service
    can fail, and \<open>reliable_class\<close> what it needs to end once it is switched off; logger and viewer are
    interpretations. The logger adds its file, its queue and the threads that log.
  \<^item> \<open>AP_Tlv\<close>, \<open>AP_Shm\<close>: \<open>data.cpp\<close>, \<open>data.hpp\<close> and the segments of \<open>view.cpp\<close>: the packets in which the viewer answers,
    encoder and decoder on bytes, and the shared memory segments for long answers. The cipher and the compressor are
    arguments with their promises as hypotheses: decryption inverts encryption and keeps the length,
    decompression inverts compression where it has room.
  \<^item> \<open>AP_Message\<close>: the conversation of \<open>view.cpp\<close>, from the tokens a client forwards to what it prints: requests in
    Base64, options, packets, segments and the pager. It rests on \<open>UT_Encoding\<close>, \<open>AP_Tlv\<close>, \<open>AP_Shm\<close>, \<open>UT_Json_Load\<close> and
    \<open>UT_Io\<close>; the end-to-end theorem composes their round trips.
  \<^item> \<open>AP_Setting\<close>: \<open>setting.cpp\<close> and \<open>setting.hpp\<close>: what the verification of a configuration guarantees to the queries,
    the default configuration, loading with its dialogue.
  \<^item> \<open>UT_Argument\<close>: \<open>argument.cpp\<close> and \<open>argument.hpp\<close>, the command line parser: traits and the values they consume, a parser
    as a tree with its sub-parsers; what a successful parse guarantees, that a parser can be used again
    after \<open>clearUsed\<close>, and command lines that mean the same.
  \<^item> \<open>UT_Io\<close>: \<open>io.cpp\<close>, reading a file by lines and waiting for the user; what the user types is a list of lines.

  \<^item> \<open>UT_Memory\<close>: \<open>memory.hpp\<close>, the memory pool on addresses: over any use the resources handed out are aligned and
    apart, and inside of their block when the slots fill it.
  \<^item> \<open>UT_Thread\<close>: \<open>thread.hpp\<close>, \<open>thread.cpp\<close> and the timer of \<open>time.cpp\<close>. The thread pool is a step relation; its destructor
    returns after a number of steps that a measure bounds, and then every accepted task has run once.
  \<^item> \<open>AP_Console\<close>: \<open>console.cpp\<close>, the options, lines, batch files and completions of the interactive console; the handlers of the
    client are arguments. A batch file may run others; the depth is bounded, and more depth gives the same result.

  \<^bold>\<open>Conventions.\<close> A call that may read outside of a buffer, dereference a dangling pointer,
  overflow, or not return has an option as its result, and a loop that may not end is a
  \<^theory_text>\<open>partial_function\<close>; the theorems state that the result is \<^term>\<open>Some\<close> of the right value. All other
  loops are total functions with termination proofs; only the JSON parser, nested batch files and the
  depth-first search have a bound on their depth, for the last the number of vertices, which is enough. Indices and counters whose
  width matters wrap at \<open>2 ^ 32\<close> or \<open>2 ^ 64\<close>; the theorems name the bound under which nothing wraps.

  \<^bold>\<open>Not modelled.\<close> Bucket sort, interpolation search, integration and the optimisers compute
  with floating point numbers, several of them with random ones. Sockets, file descriptors, shell commands and
  clocks are operating system calls; of the services of the application only what such a call
  answers enters the model. Command line and schedules wire the parts together. Printers and the
  design pattern examples only build text. The quotient filter has no theory.
\<close>

end
